(* ===== verification/Prelude.thy ===== *)
theory Prelude
  imports Main "HOL-Library.Word"
begin

text \<open>
  Shared vocabulary of the development: the machine-word types of the Rust sources, the
  three-valued comparison result, fallible results, positional (little-endian) values of
  digit lists, and the arithmetic modulo a prime that every field argument rests on.
\<close>

section \<open>Types\<close>

type_synonym u8 = "8 word"
type_synonym u32 = "32 word"
type_synonym u64 = "64 word"
type_synonym u128 = "128 word"

text \<open>A source location, as every part of the syntax tree and every constraint carries one.\<close>

record span =
  sp_line :: nat
  sp_col :: nat

text \<open>The scalar fields and arithmetizations a program selects; the syntax tree and the emitter
  name them with one enum each.\<close>

datatype scalar_field = Bn254 | Bls12_381 | Pallas | Vesta

datatype proof_scheme = R1cs | Plonkish

text \<open>Rust's \<^verbatim>\<open>std::cmp::Ordering\<close>.\<close>

datatype ordering = Less | Equal | Greater

definition cmp_of :: "'a::linorder \<Rightarrow> 'a \<Rightarrow> ordering" where
  "cmp_of a b = (if a < b then Less else if a = b then Equal else Greater)"

lemma cmp_of_simps [simp]:
  "cmp_of a b = Less \<longleftrightarrow> a < b"
  "cmp_of a b = Equal \<longleftrightarrow> a = b"
  "cmp_of a b = Greater \<longleftrightarrow> b < a"
  by (auto simp: cmp_of_def)

lemma cmp_of_refl [simp]: "cmp_of a a = Equal"
  by (simp add: cmp_of_def)

text \<open>\<^verbatim>\<open>Ordering::then_with\<close>.\<close>

fun then_with :: "ordering \<Rightarrow> ordering \<Rightarrow> ordering" where
  "then_with Equal o2 = o2"
| "then_with o1 _ = o1"

text \<open>Rust's \<^verbatim>\<open>?\<close> on a \<^verbatim>\<open>Result\<close>: the first error ends the computation.\<close>

definition and_then :: "'e + 'a \<Rightarrow> ('a \<Rightarrow> 'e + 'b) \<Rightarrow> 'e + 'b" where
  "and_then r f = (case r of Inl e \<Rightarrow> Inl e | Inr a \<Rightarrow> f a)"

lemma and_then_simps [simp]: "and_then (Inl e) f = Inl e" "and_then (Inr a) f = f a"
  by (simp_all add: and_then_def)

lemma and_then_Inr_iff: "and_then r f = Inr b \<longleftrightarrow> (\<exists>a. r = Inr a \<and> f a = Inr b)"
  by (cases r) auto

unbundle bit_operations_syntax

named_theorems word_val \<open>values of word operations as naturals\<close>
named_theorems mod_laws \<open>congruences modulo the field modulus\<close>

text \<open>Congruence of two expressions modulo a number, up to reduced subexpressions:
  \<open>intro mod_congs\<close> walks both sides.\<close>

lemmas mod_congs = refl mod_mod_trivial mod_add_cong mod_diff_cong mod_mult_cong

section \<open>Positional values\<close>

text \<open>\<open>pos_val B ds\<close> is the number whose base-\<open>B\<close> digits are \<open>ds\<close>, least significant first.\<close>

fun pos_val :: "nat \<Rightarrow> nat list \<Rightarrow> nat" where
  "pos_val B [] = 0"
| "pos_val B (d # ds) = d + B * pos_val B ds"

lemma pos_val_append: "pos_val B (xs @ ys) = pos_val B xs + B ^ length xs * pos_val B ys"
  by (induction xs) (auto simp: algebra_simps)

lemma pos_val_less: "(\<And>d. d \<in> set ds \<Longrightarrow> d < B) \<Longrightarrow> pos_val B ds < B ^ length ds"
proof (induction ds)
  case Nil
  then show ?case by simp
next
  case (Cons d ds)
  then have d: "d < B" and t: "pos_val B ds + 1 \<le> B ^ length ds" by auto
  have "d + B * pos_val B ds < B + B * pos_val B ds" using d by simp
  also have "\<dots> = B * (pos_val B ds + 1)" by simp
  also have "\<dots> \<le> B * B ^ length ds" using t by (rule mult_le_mono2)
  finally show ?case by simp
qed

lemma pos_val_replicate_0 [simp]: "pos_val B (replicate n 0) = 0"
  by (induction n) auto

lemma pos_val_update:
  "k < length ds \<Longrightarrow> pos_val B (ds[k := d]) + B ^ k * (ds ! k) = pos_val B ds + B ^ k * d"
proof (induction ds arbitrary: k)
  case Nil
  then show ?case by simp
next
  case (Cons x xs)
  show ?case
  proof (cases k)
    case 0
    then show ?thesis by simp
  next
    case (Suc j)
    with Cons have "pos_val B (xs[j := d]) + B ^ j * (xs ! j) = pos_val B xs + B ^ j * d" by simp
    then have "B * (pos_val B (xs[j := d]) + B ^ j * (xs ! j)) = B * (pos_val B xs + B ^ j * d)"
      by simp
    with Suc show ?thesis by (simp add: algebra_simps)
  qed
qed

lemma pos_val_eq_0_iff: "0 < B \<Longrightarrow> pos_val B ds = 0 \<longleftrightarrow> (\<forall>d\<in>set ds. d = 0)"
  by (induction ds) auto

lemma pos_val_inj:
  assumes "length xs = length ys"
    and "\<And>d. d \<in> set xs \<Longrightarrow> d < B" and "\<And>d. d \<in> set ys \<Longrightarrow> d < B"
    and "pos_val B xs = pos_val B ys"
  shows "xs = ys"
  using assms
proof (induction xs ys rule: list_induct2)
  case Nil
  then show ?case by simp
next
  case (Cons x xs y ys)
  then have xy: "x < B" "y < B" and eq: "x + B * pos_val B xs = y + B * pos_val B ys" by auto
  from eq have "(x + B * pos_val B xs) mod B = (y + B * pos_val B ys) mod B" by simp
  with xy have "x = y" by simp
  with eq xy have "pos_val B xs = pos_val B ys" by simp
  with Cons \<open>x = y\<close> show ?case by simp
qed

text \<open>The value of a list of machine words.\<close>

definition wval :: "'a::len word list \<Rightarrow> nat" where
  "wval ws = pos_val (2 ^ LENGTH('a)) (map unat ws)"

lemma wval_Nil [simp]: "wval [] = 0"
  by (simp add: wval_def)

lemma wval_Cons: "wval (w # ws) = unat w + 2 ^ LENGTH('a) * wval ws" for w :: "'a::len word"
  by (simp add: wval_def)

lemma wval_append:
  "wval (xs @ ys) = wval xs + 2 ^ (LENGTH('a) * length xs) * wval ys" for xs :: "'a::len word list"
  by (simp add: wval_def pos_val_append power_mult)

lemma wval_less: "wval ws < 2 ^ (LENGTH('a) * length ws)" for ws :: "'a::len word list"
proof -
  have "pos_val (2 ^ LENGTH('a)) (map unat ws) < (2 ^ LENGTH('a)) ^ length (map unat ws)"
    by (rule pos_val_less) (auto simp: unsigned_less)
  then show ?thesis by (simp add: wval_def power_mult)
qed

lemma wval_replicate_0 [simp]: "wval (replicate n 0) = 0"
  by (simp add: wval_def)

lemma wval_update:
  fixes ws :: "'a::len word list"
  assumes "k < length ws"
  shows "wval (ws[k := w]) + 2 ^ (LENGTH('a) * k) * unat (ws ! k) =
         wval ws + 2 ^ (LENGTH('a) * k) * unat w"
  using pos_val_update [of k "map unat ws" "2 ^ LENGTH('a)" "unat w"] assms
  by (simp add: wval_def map_update power_mult)

lemma wval_eq_0_iff: "wval ws = 0 \<longleftrightarrow> (\<forall>w\<in>set ws. w = 0)"
  by (auto simp: wval_def pos_val_eq_0_iff unat_eq_zero)

lemma wval_inj:
  "length xs = length ys \<Longrightarrow> wval xs = wval ys \<Longrightarrow> xs = ys" for xs ys :: "'a::len word list"
proof -
  assume l: "length xs = length ys" and v: "wval xs = wval ys"
  have "map unat xs = map unat ys"
    by (rule pos_val_inj [where B = "2 ^ LENGTH('a)"])
       (use l v in \<open>auto simp: wval_def unsigned_less\<close>)
  then show "xs = ys"
    by (rule map_injective) (simp add: inj_on_def word_unat_eq_iff)
qed

lemma wval_take_drop:
  "wval ws = wval (take n ws) + 2 ^ (LENGTH('a) * length (take n ws)) * wval (drop n ws)"
  for ws :: "'a::len word list"
  by (metis append_take_drop_id wval_append)

text \<open>Bit \<open>i\<close> of the number is bit \<open>i mod w\<close> of its digit \<open>i div w\<close>.\<close>

lemma bit_wval:
  fixes ws :: "'a::len word list"
  shows "bit (wval ws) i \<longleftrightarrow> i div LENGTH('a) < length ws \<and> bit (ws ! (i div LENGTH('a))) (i mod LENGTH('a))"
proof (induction ws arbitrary: i)
  case Nil
  then show ?case by simp
next
  case (Cons w ws)
  let ?L = "LENGTH('a)"
  have "unat w AND push_bit ?L (wval ws) = 0"
    by (rule bit_eqI) (auto simp: bit_simps dest: bit_imp_le_length)
  then have "wval (w # ws) = (unat w OR push_bit ?L (wval ws))"
    by (simp add: wval_Cons disjunctive_add_eq_or push_bit_eq_mult mult.commute)
  then have b: "bit (wval (w # ws)) i \<longleftrightarrow> bit w i \<or> ?L \<le> i \<and> bit (wval ws) (i - ?L)"
    by (auto simp: bit_simps)
  show ?case
  proof (cases "i < ?L")
    case True
    then show ?thesis using b by simp
  next
    case False
    then have "\<not> bit w i" by (auto dest: bit_imp_le_length)
    moreover have "i div ?L = Suc ((i - ?L) div ?L)" "i mod ?L = (i - ?L) mod ?L"
      using False by (simp_all add: le_div_geq le_mod_geq)
    ultimately show ?thesis using b False Cons.IH [of "i - ?L"] by simp
  qed
qed

lemma unat_or_disjoint: "x AND y = 0 \<Longrightarrow> unat (x OR y) = unat x + unat y" for x y :: "'a::len word"
proof -
  assume "x AND y = 0"
  then have "unat x AND unat y = 0" by (metis unsigned_and_eq unsigned_0)
  then show ?thesis by (simp add: unsigned_or_eq disjunctive_add_eq_or)
qed

section \<open>Decimal numerals\<close>

text \<open>Rust's \<^verbatim>\<open>to_string\<close> of an unsigned integer, its zero-padded variant
  \<^verbatim>\<open>{:0w}\<close>, and the number a digit string denotes.\<close>

definition dec_digit :: "nat \<Rightarrow> char" where
  "dec_digit d = char_of (48 + d)"

fun nat_dec :: "nat \<Rightarrow> string" where
  "nat_dec n = (if n < 10 then [dec_digit n] else nat_dec (n div 10) @ [dec_digit (n mod 10)])"

declare nat_dec.simps [simp del]

definition pad_dec :: "nat \<Rightarrow> nat \<Rightarrow> string" where
  "pad_dec w n = replicate (w - length (nat_dec n)) (CHR ''0'') @ nat_dec n"

text \<open>\<^verbatim>\<open>char::to_digit(10)\<close>.\<close>

definition to_digit10 :: "char \<Rightarrow> nat option" where
  "to_digit10 c = (let n = of_char c :: nat in if 48 \<le> n \<and> n \<le> 57 then Some (n - 48) else None)"

definition dec_val_from :: "nat \<Rightarrow> string \<Rightarrow> nat" where
  "dec_val_from v s = foldl (\<lambda>v c. case to_digit10 c of Some d \<Rightarrow> 10 * v + d | None \<Rightarrow> v) v s"

definition all_digits :: "string \<Rightarrow> bool" where
  "all_digits s \<longleftrightarrow> list_all (\<lambda>c. to_digit10 c \<noteq> None) s"

lemma to_digit10_dec_digit [simp]: "d < 10 \<Longrightarrow> to_digit10 (dec_digit d) = Some d"
  by (simp add: to_digit10_def dec_digit_def Let_def)

lemma dec_val_from_simps [simp]:
  "dec_val_from v [] = v"
  "dec_val_from v (c # s) = dec_val_from (case to_digit10 c of Some d \<Rightarrow> 10 * v + d | None \<Rightarrow> v) s"
  by (simp_all add: dec_val_from_def)

lemma dec_val_from_append [simp]: "dec_val_from v (s @ t) = dec_val_from (dec_val_from v s) t"
  by (simp add: dec_val_from_def)

lemma nat_dec_digits: "all_digits (nat_dec n)"
  by (induction n rule: nat_dec.induct) (subst nat_dec.simps, auto simp: all_digits_def)

lemma dec_val_shift: "all_digits s \<Longrightarrow> dec_val_from v s = v * 10 ^ length s + dec_val_from 0 s"
proof (induction s arbitrary: v)
  case Nil
  then show ?case by simp
next
  case (Cons c s)
  then obtain d where d: "to_digit10 c = Some d" and s: "all_digits s" by (auto simp: all_digits_def)
  from d Cons.IH [OF s, of "10 * v + d"] Cons.IH [OF s, of d] show ?case
    by (simp add: algebra_simps)
qed

lemma dec_val_nat_dec [simp]: "dec_val_from 0 (nat_dec n) = n"
proof (induction n rule: nat_dec.induct)
  case (1 n)
  then show ?case by (subst nat_dec.simps) (auto simp: algebra_simps)
qed

lemma length_nat_dec: "0 < w \<Longrightarrow> n < 10 ^ w \<Longrightarrow> length (nat_dec n) \<le> w"
proof (induction n arbitrary: w rule: nat_dec.induct)
  case (1 n)
  show ?case
  proof (cases "n < 10")
    case True
    then show ?thesis using 1 by (subst nat_dec.simps) simp
  next
    case False
    obtain v where w: "w = Suc v" using "1.prems" by (cases w) auto
    moreover have "0 < v" using False "1.prems" w by (cases v) auto
    ultimately have w: "w = Suc v" "0 < v" by auto
    have "n div 10 < 10 ^ v" using "1.prems" w by (simp add: less_mult_imp_div_less mult.commute)
    then show ?thesis using False "1.IH" w by (subst nat_dec.simps) auto
  qed
qed

lemma dec_val_zeros [simp]: "dec_val_from 0 (replicate n (CHR ''0'')) = 0"
  by (induction n) (simp_all add: to_digit10_def)

lemma pad_dec_digits: "all_digits (pad_dec w n)"
  using nat_dec_digits [of n]
  by (auto simp: pad_dec_def all_digits_def to_digit10_def list_all_iff)

lemma dec_val_pad_dec: "0 < w \<Longrightarrow> n < 10 ^ w \<Longrightarrow> dec_val_from v (pad_dec w n) = v * 10 ^ w + n"
  using dec_val_shift [OF pad_dec_digits, of v w n] length_nat_dec [of w n]
  by (simp add: pad_dec_def)

text \<open>A number printed in base-\<open>10 ^ w\<close> chunks, the most significant one unpadded: the
  rendering of both \<^verbatim>\<open>BigUint\<close> and \<^verbatim>\<open>Fr\<close>.\<close>

definition print_chunks :: "nat \<Rightarrow> nat list \<Rightarrow> string" where
  "print_chunks w chunks = nat_dec (last chunks) @ concat (map (pad_dec w) (tl (rev chunks)))"

lemma dec_val_chunks:
  assumes "0 < w" and "\<And>c. c \<in> set cs \<Longrightarrow> c < 10 ^ w"
  shows "dec_val_from v (concat (map (pad_dec w) (rev cs))) = v * (10 ^ w) ^ length cs + pos_val (10 ^ w) cs"
  using assms(2)
proof (induction cs arbitrary: v)
  case Nil
  then show ?case by simp
next
  case (Cons c cs)
  then show ?case using dec_val_pad_dec [OF assms(1), of c] by (simp add: algebra_simps)
qed

lemma dec_val_print_chunks:
  assumes "0 < w" and "cs \<noteq> []" and "\<And>c. c \<in> set cs \<Longrightarrow> c < 10 ^ w"
  shows "dec_val_from 0 (print_chunks w cs) = pos_val (10 ^ w) cs"
proof -
  obtain ds d where cs: "cs = ds @ [d]" using assms(2) by (metis append_butlast_last_id)
  have "dec_val_from 0 (print_chunks w cs) = d * (10 ^ w) ^ length ds + pos_val (10 ^ w) ds"
    using dec_val_chunks [of w ds d] assms by (simp add: print_chunks_def cs)
  then show ?thesis by (simp add: cs pos_val_append)
qed

lemma print_chunks_digits: "all_digits (print_chunks w cs)"
  using nat_dec_digits [of "last cs"] pad_dec_digits
  by (auto simp: print_chunks_def all_digits_def list_all_iff)

end
