(* ===== verification/PrimeMod.thy ===== *)
theory PrimeMod
  imports Prelude
begin

text \<open>
  Arithmetic modulo a prime: the scalar fields of the circuits are \<open>Z / pZ\<close> for a prime \<open>p\<close>,
  and every soundness argument of the backend uses one of three facts proved here: a product
  vanishes only when a factor does, \<open>a ^ (p - 2)\<close> inverts \<open>a\<close> (Fermat), and \<open>1\<close> has no square
  roots but \<open>1\<close> and \<open>-1\<close> (Miller-Rabin).
\<close>

definition is_prime :: "int \<Rightarrow> bool" where
  "is_prime p \<longleftrightarrow> 1 < p \<and> (\<forall>d\<in>{2..<p}. \<not> d dvd p)"

lemma is_prime_gt1: "is_prime p \<Longrightarrow> 1 < p"
  by (simp add: is_prime_def)

lemma is_prime_gt0 [simp]: "is_prime p \<Longrightarrow> 0 < p"
  using is_prime_gt1 by fastforce

lemma is_prime_coprime:
  assumes "is_prime p" and "\<not> p dvd a"
  shows "coprime a p"
proof -
  let ?g = "gcd a p"
  from assms(1) have p: "1 < p" by (rule is_prime_gt1)
  have "?g dvd p" by simp
  moreover have "0 < ?g" using p by simp
  ultimately have "?g \<le> p" using p by (simp add: zdvd_imp_le)
  moreover have "?g \<noteq> p" using assms(2) by (metis gcd_dvd1)
  moreover have "?g \<notin> {2..<p}" using assms(1) \<open>?g dvd p\<close> by (auto simp: is_prime_def)
  ultimately have "?g = 1" using \<open>0 < ?g\<close> by (simp only: atLeastLessThan_iff) linarith
  then show ?thesis by (simp add: coprime_iff_gcd_eq_1)
qed

lemma is_prime_dvd_mult: "is_prime p \<Longrightarrow> p dvd a * b \<longleftrightarrow> p dvd a \<or> p dvd b"
  using is_prime_coprime [of p a] coprime_dvd_mult_right_iff [of p a b]
  by (auto simp: coprime_commute)

lemma is_prime_mult_mod_0: "is_prime p \<Longrightarrow> a * b mod p = 0 \<longleftrightarrow> a mod p = 0 \<or> b mod p = 0"
  by (simp add: mod_eq_0_iff_dvd is_prime_dvd_mult)

lemma is_prime_cancel:
  assumes "is_prime p" and "c mod p \<noteq> 0" and "c * a mod p = c * b mod p"
  shows "a mod p = b mod p"
proof -
  from assms(3) have "p dvd c * (a - b)"
    by (simp add: mod_eq_dvd_iff right_diff_distrib)
  with assms(1,2) have "p dvd a - b"
    by (simp add: is_prime_dvd_mult mod_eq_0_iff_dvd)
  then show ?thesis by (simp add: mod_eq_dvd_iff)
qed

lemma is_prime_dvd_prod:
  assumes "is_prime p" and "finite A" and "p dvd prod f A"
  shows "\<exists>x\<in>A. p dvd f x"
  using assms(2,3)
proof (induction A rule: finite_induct)
  case empty
  with is_prime_gt1 [OF assms(1)] show ?case by (simp add: zdvd1_eq)
next
  case (insert x A)
  then show ?case using assms(1) by (auto simp: is_prime_dvd_mult)
qed

lemma prod_mod_cong:
  fixes f g :: "'a \<Rightarrow> int"
  assumes "finite A" and "\<And>x. x \<in> A \<Longrightarrow> f x mod p = g x mod p"
  shows "prod f A mod p = prod g A mod p"
  using assms
proof (induction A rule: finite_induct)
  case (insert x A)
  then have "f x mod p = g x mod p" and "prod f A mod p = prod g A mod p" by auto
  then have "f x * prod f A mod p = g x * prod g A mod p" by (rule mod_mult_cong)
  with insert show ?case by simp
qed simp

theorem fermat_little:
  assumes p: "is_prime p" and a: "a mod p \<noteq> 0"
  shows "a ^ nat (p - 1) mod p = 1"
proof -
  let ?S = "{1..<p}"
  let ?f = "\<lambda>k. a * k mod p"
  have p1: "1 < p" using p by (rule is_prime_gt1)
  have inj: "inj_on ?f ?S"
  proof (rule inj_onI)
    fix x y assume xy: "x \<in> ?S" "y \<in> ?S" and "a * x mod p = a * y mod p"
    then have "x mod p = y mod p" using is_prime_cancel [OF p a] by blast
    with xy show "x = y" by simp
  qed
  have "?f ` ?S \<subseteq> ?S"
  proof (rule image_subsetI)
    fix x assume x: "x \<in> ?S"
    then have "x mod p \<noteq> 0" by simp
    with a have "a * x mod p \<noteq> 0" by (simp add: is_prime_mult_mod_0 [OF p])
    moreover have "0 \<le> a * x mod p" "a * x mod p < p" using p1 by simp_all
    ultimately show "a * x mod p \<in> ?S" by auto
  qed
  then have img: "?f ` ?S = ?S" using inj by (simp add: endo_inj_surj)
  have "prod (\<lambda>k. k) ?S = prod ?f ?S"
    using prod.reindex [OF inj, of "\<lambda>k. k"] img by (simp add: o_def)
  also have "\<dots> mod p = prod (\<lambda>k. a * k) ?S mod p"
    by (rule prod_mod_cong) simp_all
  also have "prod (\<lambda>k. a * k) ?S = a ^ nat (p - 1) * prod (\<lambda>k. k) ?S"
    by (simp add: prod.distrib)
  finally have eq: "prod (\<lambda>k. k) ?S * 1 mod p = prod (\<lambda>k. k) ?S * a ^ nat (p - 1) mod p"
    by (simp add: mult.commute)
  have "prod (\<lambda>k. k) ?S mod p \<noteq> 0"
  proof
    assume "prod (\<lambda>k. k) ?S mod p = 0"
    then obtain x where "x \<in> ?S" "p dvd x"
      using is_prime_dvd_prod [OF p, of ?S "\<lambda>k. k"] by (auto simp: mod_eq_0_iff_dvd)
    then show False by (auto dest: zdvd_imp_le)
  qed
  from is_prime_cancel [OF p this eq] p1 show ?thesis by simp
qed

lemma fermat_inverse:
  assumes p: "is_prime p" and a: "a mod p \<noteq> 0"
  shows "a * a ^ nat (p - 2) mod p = 1"
proof -
  have "nat (p - 1) = Suc (nat (p - 2))" using is_prime_gt1 [OF p] by simp
  with fermat_little [OF p a] show ?thesis by simp
qed

lemma sqrt_one:
  assumes p: "is_prime p" and x: "x * x mod p = 1"
  shows "x mod p = 1 \<or> x mod p = p - 1"
proof -
  have p1: "1 < p" using p by (rule is_prime_gt1)
  then have "x * x mod p = 1 mod p" using x by simp
  then have "p dvd (x - 1) * (x + 1)"
    by (simp add: mod_eq_dvd_iff algebra_simps)
  then consider "p dvd x - 1" | "p dvd x + 1" by (auto simp: is_prime_dvd_mult [OF p])
  then show ?thesis
  proof cases
    case 1
    then have "x mod p = 1 mod p" by (simp add: mod_eq_dvd_iff)
    with p1 show ?thesis by simp
  next
    case 2
    then have "x mod p = (p - 1) mod p" by (simp add: mod_eq_dvd_iff)
    moreover have "(p - 1) mod p = p - 1" using p1 by (intro mod_pos_pos_trivial) simp_all
    ultimately show ?thesis by simp
  qed
qed

text \<open>The inverse the field computes, on canonical values.\<close>

definition inv_mod :: "int \<Rightarrow> int \<Rightarrow> int" where
  "inv_mod p a = a ^ nat (p - 2) mod p"

lemma inv_mod_range: "0 < p \<Longrightarrow> 0 \<le> inv_mod p a \<and> inv_mod p a < p"
  by (simp add: inv_mod_def)

lemma inv_mod_right: "is_prime p \<Longrightarrow> a mod p \<noteq> 0 \<Longrightarrow> a * inv_mod p a mod p = 1"
  using fermat_inverse by (simp add: inv_mod_def mod_mult_right_eq)

lemma inv_mod_cancel:
  "is_prime p \<Longrightarrow> a mod p \<noteq> 0 \<Longrightarrow> (b * inv_mod p a) * a mod p = b mod p"
  using inv_mod_right [of p a]
  by (metis (no_types, lifting) mod_mult_right_eq mult.assoc mult.commute mult.right_neutral)

end
