(* ===== verification/ZkLimbs.thy ===== *)
theory ZkLimbs
  imports PrimeMod
begin

text \<open>
  The 256-bit primitives of \<^verbatim>\<open>src/zk_field.rs\<close> (section 2 of that file and the
  helpers at its end): additions and subtractions with carry over four 64-bit limbs, the
  limb comparison, one-bit shifts, long division and the Montgomery product. An array
  \<^verbatim>\<open>[u64; N]\<close> is a list of 64-bit words, least significant first; a loop over the limbs is
  a recursion over the lists. Every operation is shown to compute the number it stands for,
  read through \<open>wval\<close>.
\<close>

unbundle bit_operations_syntax

abbreviation (input) limbs4 :: "u64 list \<Rightarrow> bool" where
  "limbs4 a \<equiv> length a = 4"

section \<open>Operations\<close>

definition adc :: "u64 \<Rightarrow> u64 \<Rightarrow> u64 \<Rightarrow> u64 \<times> u64" where
  "adc a b carry =
     (let r = (ucast a :: u128) + ucast b + ucast carry in (ucast r, ucast (drop_bit 64 r)))"

definition sbb :: "u64 \<Rightarrow> u64 \<Rightarrow> u64 \<Rightarrow> u64 \<times> u64" where
  "sbb a b borrow =
     (let r = (ucast a :: u128) - ucast b - ucast borrow
      in (ucast r, ucast (drop_bit 64 r) AND 1))"

definition mac :: "u64 \<Rightarrow> u64 \<Rightarrow> u64 \<Rightarrow> u64 \<Rightarrow> u64 \<times> u64" where
  "mac a b c carry =
     (let r = (ucast a :: u128) + ucast b * ucast c + ucast carry
      in (ucast r, ucast (drop_bit 64 r)))"

text \<open>The comparison loop runs from the most significant limb down.\<close>

fun cmp_limbs_go :: "u64 list \<Rightarrow> u64 list \<Rightarrow> ordering" where
  "cmp_limbs_go (a # as) (b # bs) = (if a \<noteq> b then cmp_of a b else cmp_limbs_go as bs)"
| "cmp_limbs_go _ _ = Equal"

definition cmp_limbs :: "u64 list \<Rightarrow> u64 list \<Rightarrow> ordering" where
  "cmp_limbs a b = cmp_limbs_go (rev a) (rev b)"

fun sub_limbs_go :: "u64 list \<Rightarrow> u64 list \<Rightarrow> u64 \<Rightarrow> u64 list \<times> u64" where
  "sub_limbs_go (a # as) (b # bs) borrow =
     (let (v, br) = sbb a b borrow; (r, br') = sub_limbs_go as bs br in (v # r, br'))"
| "sub_limbs_go _ _ borrow = ([], borrow)"

definition sub_limbs :: "u64 list \<Rightarrow> u64 list \<Rightarrow> u64 list \<times> u64" where
  "sub_limbs a b = sub_limbs_go a b 0"

fun add_limbs_go :: "u64 list \<Rightarrow> u64 list \<Rightarrow> u64 \<Rightarrow> u64 list \<times> u64" where
  "add_limbs_go (a # as) (b # bs) carry =
     (let (v, c) = adc a b carry; (r, c') = add_limbs_go as bs c in (v # r, c'))"
| "add_limbs_go _ _ carry = ([], carry)"

definition add_limbs :: "u64 list \<Rightarrow> u64 list \<Rightarrow> u64 list \<times> u64" where
  "add_limbs a b = add_limbs_go a b 0"

section \<open>Values of the single-limb operations\<close>

lemma unat_u64_less: "unat (a :: u64) < 2 ^ 64"
  using unsigned_less [of a] by simp

lemma unat_ucast_u128 [word_val]: "unat (ucast (a :: u64) :: u128) = unat a"
proof -
  have "unat a < 2 ^ 128" using unat_u64_less [of a] by simp
  then show ?thesis by (simp add: unsigned_ucast_eq take_bit_nat_eq_self)
qed

lemma u128_split:
  fixes r :: u128
  shows "unat (ucast r :: u64) = unat r mod 2 ^ 64"
    and "unat (ucast (drop_bit 64 r) :: u64) = unat r div 2 ^ 64"
proof -
  show "unat (ucast r :: u64) = unat r mod 2 ^ 64"
    by (simp add: unsigned_ucast_eq take_bit_eq_mod)
  have "unat r < 2 ^ 128" using unsigned_less [of r] by simp
  then have "unat r div 2 ^ 64 < 2 ^ 64" by (simp add: less_mult_imp_div_less)
  then show "unat (ucast (drop_bit 64 r) :: u64) = unat r div 2 ^ 64"
    by (simp only: unsigned_ucast_eq unsigned_drop_bit_eq) (simp add: take_bit_eq_mod drop_bit_eq_div)
qed

lemma u128_recombine:
  fixes r :: u128
  shows "unat (ucast r :: u64) + 2 ^ 64 * unat (ucast (drop_bit 64 r) :: u64) = unat r"
  unfolding u128_split(2) unfolding u128_split(1) by (rule mod_mult_div_eq)

lemma adc_val: "adc a b carry = (v, c) \<Longrightarrow> unat v + 2 ^ 64 * unat c = unat a + unat b + unat carry"
proof -
  assume *: "adc a b carry = (v, c)"
  let ?r = "(ucast a :: u128) + ucast b + ucast carry"
  have "unat a + unat b + unat carry < 2 ^ 128"
    using unat_u64_less [of a] unat_u64_less [of b] unat_u64_less [of carry] by simp
  then have "unat ?r = unat a + unat b + unat carry"
    by (simp add: unat_word_ariths word_val)
  with * u128_recombine [of ?r] show ?thesis by (simp add: adc_def Let_def)
qed

lemma mult_bound_aux:
  fixes x y B :: nat
  assumes "x < B" "y < B"
  shows "x * y \<le> (B - 1) * (B - 1)"
  using assms by (intro mult_le_mono) auto

lemma mac_val:
  "mac a b c carry = (v, c') \<Longrightarrow> unat v + 2 ^ 64 * unat c' = unat a + unat b * unat c + unat carry"
proof -
  assume *: "mac a b c carry = (v, c')"
  let ?r = "(ucast a :: u128) + ucast b * ucast c + ucast carry"
  have "unat b * unat c \<le> (2 ^ 64 - 1) * (2 ^ 64 - 1)"
    by (rule mult_bound_aux) (rule unat_u64_less)+
  moreover have "unat a \<le> 2 ^ 64 - 1" "unat carry \<le> 2 ^ 64 - 1"
    using unat_u64_less [of a] unat_u64_less [of carry] by simp_all
  ultimately have b: "unat a + unat b * unat c + unat carry < 2 ^ 128"
    and b': "unat b * unat c < 2 ^ 128" by simp_all
  then have "unat ?r = unat a + unat b * unat c + unat carry"
    by (simp add: unat_word_ariths word_val)
  with * u128_recombine [of ?r] show ?thesis by (simp add: mac_def Let_def)
qed

lemma mac_commute: "mac a b c carry = mac a c b carry"
  by (simp add: mac_def mult.commute)

lemma and_one_val: "unat (x AND 1 :: u64) = unat x mod 2"
  by (simp add: and_one_eq unat_mod)

text \<open>Reading \<open>x\<close> back from its residue modulo \<open>B\<close>, when it lies at most one \<open>B\<close> below zero.\<close>

lemma borrow_aux:
  fixes i :: int
  assumes "- (2 ^ 64) \<le> i" and "i < 2 ^ 64"
  shows "i mod 2 ^ 128 mod 2 ^ 64 = (if i < 0 then i + 2 ^ 64 else i)"
    and "i mod 2 ^ 128 div 2 ^ 64 mod 2 = (if i < 0 then 1 else 0)"
proof -
  have "i mod 2 ^ 128 = (if i < 0 then i + 2 ^ 128 else i)"
  proof (cases "i < 0")
    case True
    have "i mod 2 ^ 128 = (i + 2 ^ 128) mod 2 ^ 128" by simp
    also have "\<dots> = i + 2 ^ 128" using assms True by (intro mod_pos_pos_trivial) auto
    finally show ?thesis using True by simp
  qed (use assms in simp)
  moreover have "(i + 2 ^ 128) mod 2 ^ 64 = i + 2 ^ 64" if "i < 0"
    by (rule int_mod_pos_eq [of _ _ "2 ^ 64 - 1"]) (use assms that in auto)
  moreover have "(i + 2 ^ 128) div 2 ^ 64 = 2 ^ 64 - 1" if "i < 0"
    by (rule int_div_pos_eq [of _ _ _ "i + 2 ^ 64"]) (use assms that in auto)
  ultimately show "i mod 2 ^ 128 mod 2 ^ 64 = (if i < 0 then i + 2 ^ 64 else i)"
    and "i mod 2 ^ 128 div 2 ^ 64 mod 2 = (if i < 0 then 1 else 0)"
    using assms by auto
qed

lemma uint_ucast_u128: "uint (ucast (a :: u64) :: u128) = uint a"
  using unat_ucast_u128 [of a] by (simp only: uint_nat)

lemma u128_split_int:
  fixes r :: u128
  shows "uint (ucast r :: u64) = uint r mod 2 ^ 64"
    and "uint (ucast (drop_bit 64 r) AND 1 :: u64) = uint r div 2 ^ 64 mod 2"
  unfolding uint_nat and_one_val u128_split(2) unfolding u128_split(1)
  by (simp_all only: zmod_int zdiv_int of_nat_numeral of_nat_power)

lemma sbb_val_int:
  assumes "sbb a b borrow = (v, br)" and "uint borrow \<le> 1"
  shows "uint a - uint b - uint borrow = uint v - 2 ^ 64 * uint br" and "uint br \<le> 1"
proof -
  let ?r = "(ucast a :: u128) - ucast b - ucast borrow"
  let ?i = "uint a - uint b - uint borrow"
  have ub: "uint a < 2 ^ 64" "uint b < 2 ^ 64" "0 \<le> uint a" "0 \<le> uint b" "0 \<le> uint borrow"
    using uint_lt2p [of a] uint_lt2p [of b] by (auto simp del: unsigned_greater_eq intro: unsigned_greater_eq)
  have ur: "uint ?r = ?i mod 2 ^ 128"
    by (simp add: uint_word_ariths uint_ucast_u128 mod_simps)
  have v: "uint v = ?i mod 2 ^ 128 mod 2 ^ 64" and br: "uint br = ?i mod 2 ^ 128 div 2 ^ 64 mod 2"
    using assms(1) by (simp_all only: sbb_def Let_def prod.inject flip: ur u128_split_int)
  have "- (2 ^ 64) \<le> ?i" "?i < 2 ^ 64" using ub assms(2) by linarith+
  note * = borrow_aux [OF this]
  show "?i = uint v - 2 ^ 64 * uint br" unfolding v br * by simp
  show "uint br \<le> 1" unfolding br * by simp
qed

lemma sbb_val:
  assumes "sbb a b borrow = (v, br)" and "unat borrow \<le> 1"
  shows "unat a + 2 ^ 64 * unat br = unat v + unat b + unat borrow" and "unat br \<le> 1"
proof -
  have "uint borrow \<le> 1" unfolding uint_nat using assms(2) by linarith
  note * = sbb_val_int [OF assms(1) this]
  have "int (unat a + 2 ^ 64 * unat br) = int (unat v + unat b + unat borrow)"
    using *(1) by simp
  then show "unat a + 2 ^ 64 * unat br = unat v + unat b + unat borrow" by (simp only: of_nat_eq_iff)
  show "unat br \<le> 1" using *(2) unfolding uint_nat by linarith
qed

section \<open>Values of the limb loops\<close>

lemma len64: "LENGTH(64) = 64"
  by simp

lemma wval_Cons64: "wval (w # ws) = unat (w :: u64) + 2 ^ 64 * wval ws"
  by (simp add: wval_Cons)

lemma wval_less64: "wval (ws :: u64 list) < 2 ^ (64 * length ws)"
  using wval_less [of ws] by simp

lemma cmp_limbs_go_val:
  "length as = length bs \<Longrightarrow> cmp_limbs_go as bs = cmp_of (wval (rev as)) (wval (rev bs))"
proof (induction as bs rule: list_induct2)
  case Nil
  then show ?case by simp
next
  case (Cons a as b bs)
  let ?M = "2 ^ (64 * length bs) :: nat"
  have lt: "wval (rev as) < ?M" "wval (rev bs) < ?M"
    using wval_less64 [of "rev as"] wval_less64 [of "rev bs"] Cons.hyps by simp_all
  have v: "wval (rev (a # as)) = wval (rev as) + ?M * unat a"
    "wval (rev (b # bs)) = wval (rev bs) + ?M * unat b"
    using Cons.hyps by (simp_all add: wval_append wval_Cons64)
  have step: "x + ?M * n < y + ?M * m" if "x < ?M" "n < m" for x y n m :: nat
  proof -
    have "x + ?M * n < ?M * (n + 1)" using that(1) by simp
    also have "\<dots> \<le> ?M * m" using that(2) by (intro mult_le_mono2) simp
    finally show ?thesis by simp
  qed
  show ?case
  proof (cases "a = b")
    case True
    then show ?thesis using Cons.IH unfolding v by (simp add: cmp_of_def)
  next
    case False
    then consider "unat a < unat b" | "unat b < unat a"
      by (metis linorder_neqE_nat word_unat_eq_iff)
    then show ?thesis
    proof cases
      case 1
      then have "cmp_of a b = Less" by (simp add: word_less_nat_alt)
      moreover have "cmp_of (wval (rev (a # as))) (wval (rev (b # bs))) = Less"
        using step [OF lt(1) 1] unfolding v by simp
      ultimately show ?thesis using False by (auto simp: cmp_of_def)
    next
      case 2
      then have "cmp_of a b = Greater" by (simp add: word_less_nat_alt)
      moreover have "cmp_of (wval (rev (a # as))) (wval (rev (b # bs))) = Greater"
        using step [OF lt(2) 2] unfolding v by simp
      ultimately show ?thesis using False by (auto simp: cmp_of_def)
    qed
  qed
qed

lemma cmp_limbs_val:
  "length a = length b \<Longrightarrow> cmp_limbs a b = cmp_of (wval a) (wval b)"
  by (simp add: cmp_limbs_def cmp_limbs_go_val)

lemma add_limbs_go_val:
  assumes "length as = length bs" and "add_limbs_go as bs carry = (r, c)"
  shows "length r = length as" and "wval r + 2 ^ (64 * length as) * unat c = wval as + wval bs + unat carry"
proof -
  have "length r = length as \<and> wval r + 2 ^ (64 * length as) * unat c = wval as + wval bs + unat carry"
    using assms
  proof (induction as bs arbitrary: carry r c rule: list_induct2)
    case Nil
    then show ?case by simp
  next
    case (Cons a as b bs)
    obtain v c1 where ac: "adc a b carry = (v, c1)" by force
    obtain r' c' where rec: "add_limbs_go as bs c1 = (r', c')" by force
    from Cons.prems ac rec have [simp]: "r = v # r'" "c = c'" by auto
    from Cons.IH [OF rec] have IH: "length r' = length as"
      "wval r' + 2 ^ (64 * length as) * unat c' = wval as + wval bs + unat c1" by auto
    have "2 ^ 64 * (wval r' + 2 ^ (64 * length as) * unat c') = 2 ^ 64 * (wval as + wval bs + unat c1)"
      using IH(2) by simp
    with adc_val [OF ac] IH(1) show ?case
      by (simp add: wval_Cons64 power_add algebra_simps)
  qed
  then show "length r = length as" 
    and "wval r + 2 ^ (64 * length as) * unat c = wval as + wval bs + unat carry" by auto
qed

lemma sub_limbs_go_val:
  assumes "length as = length bs" and "sub_limbs_go as bs borrow = (r, br)" and "unat borrow \<le> 1"
  shows "length r = length as"
    and "wval as + 2 ^ (64 * length as) * unat br = wval r + wval bs + unat borrow"
    and "unat br \<le> 1"
proof -
  have "length r = length as \<and> unat br \<le> 1 \<and>
    wval as + 2 ^ (64 * length as) * unat br = wval r + wval bs + unat borrow"
    using assms
  proof (induction as bs arbitrary: borrow r br rule: list_induct2)
    case Nil
    then show ?case by simp
  next
    case (Cons a as b bs)
    obtain v b1 where sb: "sbb a b borrow = (v, b1)" by force
    obtain r' b' where rec: "sub_limbs_go as bs b1 = (r', b')" by force
    from Cons.prems sb rec have [simp]: "r = v # r'" "br = b'" by auto
    note s = sbb_val [OF sb Cons.prems(2)]
    from Cons.IH [OF rec s(2)] have IH: "length r' = length as" "unat b' \<le> 1"
      "wval as + 2 ^ (64 * length as) * unat b' = wval r' + wval bs + unat b1" by auto
    have "2 ^ 64 * (wval as + 2 ^ (64 * length as) * unat b') = 2 ^ 64 * (wval r' + wval bs + unat b1)"
      using IH(3) by simp
    with s(1) IH(1,2) show ?case
      by (simp add: wval_Cons64 power_add algebra_simps)
  qed
  then show "length r = length as" "unat br \<le> 1"
    and "wval as + 2 ^ (64 * length as) * unat br = wval r + wval bs + unat borrow" by auto
qed

lemma add_limbs_val:
  assumes "length a = length b" and "add_limbs a b = (r, c)"
  shows "length r = length a" and "wval r + 2 ^ (64 * length a) * unat c = wval a + wval b"
  using add_limbs_go_val [OF assms(1), of 0 r c] assms(2) by (simp_all add: add_limbs_def)

lemma sub_limbs_val:
  assumes "length a = length b" and "sub_limbs a b = (r, br)"
  shows "length r = length a" and "wval a + 2 ^ (64 * length a) * unat br = wval r + wval b"
    and "unat br \<le> 1"
  using sub_limbs_go_val [OF assms(1), of 0 r br] assms(2) by (simp_all add: sub_limbs_def)

text \<open>Without a borrow the difference is exact; a borrow says the minuend was smaller.\<close>

lemma sub_limbs_exact:
  assumes "length a = length b" and "wval b \<le> wval a"
  shows "wval (fst (sub_limbs a b)) = wval a - wval b" and "snd (sub_limbs a b) = 0"
    and "length (fst (sub_limbs a b)) = length a"
proof -
  obtain r br where s: "sub_limbs a b = (r, br)" by force
  note v = sub_limbs_val [OF assms(1) s]
  have "wval r < 2 ^ (64 * length a)" using wval_less64 [of r] v(1) by simp
  moreover have "wval a + 2 ^ (64 * length a) * unat br = wval r + wval b" by (rule v(2))
  ultimately have "unat br = 0"
    using v(3) assms(2) wval_less64 [of a] by (cases "unat br") auto
  then show "wval (fst (sub_limbs a b)) = wval a - wval b" "snd (sub_limbs a b) = 0"
    "length (fst (sub_limbs a b)) = length a"
    using v(1,2) s assms(2) by (simp_all add: unat_eq_0)
qed

lemma sub_limbs_borrow:
  assumes "length a = length b" and "wval a < wval b"
  shows "wval (fst (sub_limbs a b)) + wval b = wval a + 2 ^ (64 * length a)"
    and "snd (sub_limbs a b) = 1" and "length (fst (sub_limbs a b)) = length a"
proof -
  obtain r br where s: "sub_limbs a b = (r, br)" by force
  note v = sub_limbs_val [OF assms(1) s]
  have "unat br \<noteq> 0" using v(2) assms(2) by (intro notI) simp
  then have "unat br = 1" using v(3) by simp
  then show "wval (fst (sub_limbs a b)) + wval b = wval a + 2 ^ (64 * length a)"
    "snd (sub_limbs a b) = 1" "length (fst (sub_limbs a b)) = length a"
    using v(1,2) s by (simp_all add: word_unat_eq_iff)
qed

section \<open>Shifts, reduction and long division\<close>

text \<open>\<^verbatim>\<open>shr1\<close> runs from the top limb down; the carry is the bit that left the limb above.\<close>

fun shr1_go :: "u64 list \<Rightarrow> u64 \<Rightarrow> u64 list" where
  "shr1_go [] carry = []"
| "shr1_go (a # as) carry = (drop_bit 1 a OR push_bit 63 carry) # shr1_go as (a AND 1)"

definition shr1 :: "u64 list \<Rightarrow> u64 list" where
  "shr1 a = rev (shr1_go (rev a) 0)"

text \<open>\<^verbatim>\<open>reduce_once\<close>: repeated subtraction, which ends because the value shrinks (\<open>p > 0\<close>).
  A modulus of zero, on which the Rust loop would not end, gives \<open>None\<close>.\<close>

partial_function (option) reduce_once :: "u64 list \<Rightarrow> u64 list \<Rightarrow> u64 list option" where
  "reduce_once limbs p =
     (if cmp_limbs limbs p \<noteq> Less then reduce_once (fst (sub_limbs limbs p)) p else Some limbs)"

declare reduce_once.simps [code]

text \<open>The inner loop of \<^verbatim>\<open>div_rem_u256\<close> that doubles the remainder.\<close>

fun shl1_go :: "u64 list \<Rightarrow> u64 \<Rightarrow> u64 list" where
  "shl1_go [] carry = []"
| "shl1_go (l # ls) carry = (push_bit 1 l OR carry) # shl1_go ls (drop_bit 63 l)"

definition limb_bit :: "u64 list \<Rightarrow> nat \<Rightarrow> bool" where
  "limb_bit a i = (drop_bit (i mod 64) (a ! (i div 64)) AND 1 = 1)"

definition div_rem_u256_step ::
    "u64 list \<Rightarrow> u64 list \<Rightarrow> nat \<Rightarrow> u64 list \<times> u64 list \<Rightarrow> u64 list \<times> u64 list" where
  "div_rem_u256_step a b i qr =
     (let (q, r) = qr;
          r1 = shl1_go r 0;
          r2 = (if limb_bit a i then r1[0 := r1 ! 0 OR 1] else r1)
      in if cmp_limbs r2 b \<noteq> Less
         then (q[i div 64 := q ! (i div 64) OR push_bit (i mod 64) 1], fst (sub_limbs r2 b))
         else (q, r2))"

definition div_rem_u256 :: "u64 list \<Rightarrow> u64 list \<Rightarrow> u64 list \<times> u64 list" where
  "div_rem_u256 a b =
     fold (div_rem_u256_step a b) (rev [0..<256]) (replicate 4 0, replicate 4 0)"

text \<open>\<^verbatim>\<open>div_rem_small_u256\<close>: one pass of 128-bit divisions from the top limb down; the
  remainder that reaches a limb is the one the limbs above it leave.\<close>

fun div_rem_small_go :: "u64 list \<Rightarrow> u64 \<Rightarrow> u64 list \<times> u128" where
  "div_rem_small_go [] d = ([], 0)"
| "div_rem_small_go (a # as) d =
     (let (q, rem) = div_rem_small_go as d;
          cur = push_bit 64 rem OR ucast a
      in (ucast (cur div ucast d) # q, cur mod ucast d))"

definition div_rem_small_u256 :: "u64 list \<Rightarrow> u64 \<Rightarrow> u64 list \<times> u64" where
  "div_rem_small_u256 a d = (let (q, rem) = div_rem_small_go a d in (q, ucast rem))"

lemma unat_drop64 [word_val]: "unat (drop_bit k (x :: u64)) = unat x div 2 ^ k"
  using unat_u64_less [of x]
  by (simp only: unsigned_drop_bit_eq) (simp add: drop_bit_eq_div take_bit_nat_eq_self)

lemma unat_push64 [word_val]: "unat (push_bit k (x :: u64)) = unat x * 2 ^ k mod 2 ^ 64"
  by (simp only: unsigned_push_bit_eq) (simp add: push_bit_eq_mult take_bit_eq_mod)

lemma le_one_cases64: "unat (c :: u64) \<le> 1 \<Longrightarrow> c = 0 \<or> c = 1"
  by (cases "unat c") (auto simp: word_unat_eq_iff)

lemma unat_and_one_le: "unat (x AND 1 :: u64) \<le> 1"
  by (simp add: and_one_val)

lemma shr1_limb: "unat c \<le> 1 \<Longrightarrow> unat (drop_bit 1 a OR push_bit 63 c :: u64) = unat a div 2 + 2 ^ 63 * unat c"
proof -
  assume c: "unat c \<le> 1"
  have "drop_bit 1 a AND push_bit 63 c = 0"
    by (rule bit_eqI) (auto simp: bit_simps dest: bit_imp_le_length)
  then have "unat (drop_bit 1 a OR push_bit 63 c) = unat (drop_bit 1 a) + unat (push_bit 63 c)"
    by (rule unat_or_disjoint)
  with le_one_cases64 [OF c] show ?thesis by (auto simp: word_val simp del: drop_bit_eq_div)
qed

lemma shr1_algebra:
  "2 * (M * (h + 2 ^ 63 * c)) + (M * l + r) = M * (2 * h + l) + 2 ^ 64 * M * c + r" for M h c l r :: nat
  by (simp add: algebra_simps)

lemma shr1_go_val:
  "unat c \<le> 1 \<Longrightarrow>
   wval (rev (shr1_go as c)) = (2 ^ (64 * length as) * unat c + wval (rev as)) div 2 \<and>
   length (shr1_go as c) = length as"
proof (induction as arbitrary: c)
  case Nil
  then show ?case by auto
next
  case (Cons a as)
  let ?M = "2 ^ (64 * length as) :: nat"
  note IH = Cons.IH [OF unat_and_one_le, of a]
  have "wval (rev (shr1_go (a # as) c)) =
      (?M * (unat a mod 2) + wval (rev as)) div 2 + ?M * (unat a div 2 + 2 ^ 63 * unat c)"
    using IH shr1_limb [OF Cons.prems, of a] by (simp add: wval_append wval_Cons64 and_one_val)
  also have "\<dots> = (2 * (?M * (unat a div 2 + 2 ^ 63 * unat c)) + (?M * (unat a mod 2) + wval (rev as))) div 2"
    by simp
  also have "2 * (?M * (unat a div 2 + 2 ^ 63 * unat c)) + (?M * (unat a mod 2) + wval (rev as)) =
      ?M * (2 * (unat a div 2) + unat a mod 2) + 2 ^ 64 * ?M * unat c + wval (rev as)"
    by (rule shr1_algebra)
  also have "2 * (unat a div 2) + unat a mod 2 = unat a" by simp
  finally have *: "wval (rev (shr1_go (a # as) c)) = (?M * unat a + 2 ^ 64 * ?M * unat c + wval (rev as)) div 2" .
  have M: "(2 :: nat) ^ (64 * length (a # as)) = 2 ^ 64 * ?M" by (simp add: power_add)
  have "wval (rev (a # as)) = wval (rev as) + ?M * unat a" by (simp add: wval_append wval_Cons64)
  with * IH show ?case unfolding M by (simp only: length_Cons shr1_go.simps) (simp only: ac_simps)
qed

lemma shr1_val: "wval (shr1 a) = wval a div 2" and length_shr1 [simp]: "length (shr1 a) = length a"
  using shr1_go_val [of 0 "rev a"] by (simp_all add: shr1_def)

lemma shl1_limb: "unat c \<le> 1 \<Longrightarrow> unat (push_bit 1 l OR c :: u64) = 2 * unat l mod 2 ^ 64 + unat c"
proof -
  assume c: "unat c \<le> 1"
  have "push_bit 1 l AND c = 0"
    using le_one_cases64 [OF c] by (auto intro!: bit_eqI simp: bit_simps bit_0)
  then show ?thesis by (simp only: unat_or_disjoint word_val) (simp add: mult.commute)
qed

lemma shl1_go_val:
  "unat c \<le> 1 \<Longrightarrow> 2 * wval ls + unat c < 2 ^ (64 * length ls) \<Longrightarrow>
   wval (shl1_go ls c) = 2 * wval ls + unat c"
proof (induction ls arbitrary: c)
  case Nil
  then show ?case by simp
next
  case (Cons l ls)
  let ?n = "unat l div 2 ^ 63"
  have l: "2 * unat l = 2 * unat l mod 2 ^ 64 + 2 ^ 64 * ?n"
    using mod_mult_div_eq [of "2 * unat l" "2 ^ 64", symmetric] by simp
  have n: "unat (drop_bit 63 l) = ?n" "?n \<le> 1"
    using unat_u64_less [of l] by (simp_all add: word_val del: drop_bit_eq_div)
  have "2 ^ 64 * (2 * wval ls + ?n) \<le> 2 * wval (l # ls) + unat c"
    using l by (simp add: wval_Cons64)
  also have "\<dots> < 2 ^ 64 * 2 ^ (64 * length ls)"
    using Cons.prems(2) by (simp add: power_add)
  finally have "2 * wval ls + unat (drop_bit 63 l) < 2 ^ (64 * length ls)" using n by simp
  then have "wval (shl1_go ls (drop_bit 63 l)) = 2 * wval ls + ?n"
    using Cons.IH [of "drop_bit 63 l"] n by simp
  then show ?case using shl1_limb [OF Cons.prems(1), of l] l by (simp add: wval_Cons64)
qed

lemma length_shl1_go [simp]: "length (shl1_go ls c) = length ls"
  by (induction ls arbitrary: c) auto

lemma wval_div_pow: "wval (w # ws) div 2 ^ 64 = wval ws" for w :: u64
  using unat_u64_less [of w] by (simp add: wval_Cons64)

lemma limb_bit_val:
  "i < 64 * length ws \<Longrightarrow> limb_bit ws i \<longleftrightarrow> odd (wval ws div 2 ^ i)"
proof (induction ws arbitrary: i)
  case Nil
  then show ?case by simp
next
  case (Cons w ws)
  show ?case
  proof (cases "i < 64")
    case True
    have "wval (w # ws) div 2 ^ i = unat w div 2 ^ i + 2 ^ (64 - i) * wval ws"
    proof -
      have "wval (w # ws) = unat w + 2 ^ i * (2 ^ (64 - i) * wval ws)"
        using True by (simp add: wval_Cons64 flip: power_add mult.assoc)
      then show ?thesis by simp
    qed
    moreover have "even (2 ^ (64 - i) * wval ws)" using True by simp
    moreover have "drop_bit i w AND 1 = 1 \<longleftrightarrow> odd (unat w div 2 ^ i)"
      by (auto simp: word_unat_eq_iff and_one_val word_val odd_iff_mod_2_eq_one simp del: drop_bit_eq_div)
    ultimately show ?thesis using True by (simp add: limb_bit_def)
  next
    case False
    define j where "j = i - 64"
    have i: "i = j + 64" using False by (simp add: j_def)
    have "(2 :: nat) ^ i = 2 ^ 64 * 2 ^ j" by (simp add: i power_add)
    then have "wval (w # ws) div 2 ^ i = wval ws div 2 ^ j"
      by (simp only: div_mult2_eq wval_div_pow)
    moreover have "i div 64 = Suc (j div 64)" "i mod 64 = j mod 64" by (simp_all add: i)
    then have "limb_bit (w # ws) i = limb_bit ws j" by (simp only: limb_bit_def nth_Cons_Suc)
    ultimately show ?thesis using Cons.IH [of j] Cons.prems i by simp
  qed
qed

text \<open>Setting a clear bit adds its weight.\<close>

lemma limb_set_bit:
  fixes q :: "u64 list"
  assumes "i < 64 * length q" and "even (wval q div 2 ^ i)"
  shows "wval (q[i div 64 := q ! (i div 64) OR push_bit (i mod 64) 1]) = wval q + 2 ^ i"
proof -
  let ?k = "i div 64" and ?j = "i mod 64"
  have k: "?k < length q" using assms(1) by (simp add: less_mult_imp_div_less mult.commute)
  have "\<not> limb_bit q i" using assms limb_bit_val by blast
  then have nb: "\<not> bit (q ! ?k) ?j"
    by (auto simp: limb_bit_def and_one_eq bit_iff_odd_drop_bit mod_2_eq_odd)
  have "q ! ?k AND push_bit ?j 1 = 0"
    by (rule bit_eqI) (use nb in \<open>auto simp: bit_simps bit_1_iff\<close>)
  then have u: "unat (q ! ?k OR push_bit ?j 1) = unat (q ! ?k) + 2 ^ ?j"
  proof -
    have "(2 :: nat) ^ ?j < 2 ^ 64" by (intro power_strict_increasing) simp_all
    then have "unat (push_bit ?j 1 :: u64) = 2 ^ ?j" by (simp only: word_val unat_1) simp
    with \<open>q ! ?k AND push_bit ?j 1 = 0\<close> show ?thesis by (simp only: unat_or_disjoint)
  qed
  have "wval (q[?k := q ! ?k OR push_bit ?j 1]) = wval q + 2 ^ (64 * ?k) * 2 ^ ?j"
    using wval_update [OF k, of "q ! ?k OR push_bit ?j 1"]
    unfolding u distrib_left len64 by linarith
  also have "2 ^ (64 * ?k) * 2 ^ ?j = (2 :: nat) ^ i" by (simp flip: power_add)
  finally show ?thesis .
qed

lemma wval_set_low_bit:
  fixes r :: "u64 list"
  assumes "even (wval r)" and "r \<noteq> []"
  shows "wval (r[0 := r ! 0 OR 1]) = wval r + 1"
  using limb_set_bit [of 0 r] assms by simp

text \<open>The loop invariant of long division: after the bits from \<open>i\<close> up have been read, the
  quotient and remainder are those of \<open>a div 2 ^ i\<close>.\<close>

definition div_inv :: "u64 list \<Rightarrow> u64 list \<Rightarrow> nat \<Rightarrow> u64 list \<times> u64 list \<Rightarrow> bool" where
  "div_inv a b i qr \<longleftrightarrow> length (fst qr) = 4 \<and> length (snd qr) = 4 \<and>
     wval (fst qr) = 2 ^ i * (wval a div 2 ^ i div wval b) \<and>
     wval (snd qr) = wval a div 2 ^ i mod wval b"

lemma double_decomp: "A = b * Q + R \<Longrightarrow> 2 * A + t = b * (2 * Q) + (2 * R + t)" for A b Q R t :: nat
  by (simp add: algebra_simps)

lemma shift_decomp: "V = d * Q + R \<Longrightarrow> a + B * V = (B * R + a) + d * (B * Q)" for V d Q R a B :: nat
  by (simp add: algebra_simps)

lemma div_inv_step:
  assumes inv: "div_inv a b (Suc i) qr" and i: "i < 256" and a: "length a = 4" and b: "length b = 4"
    and b0: "0 < wval b" and bb: "wval b \<le> 2 ^ 255"
  shows "div_inv a b i (div_rem_u256_step a b i qr)"
proof -
  obtain q r where qr: "qr = (q, r)" by force
  define A where "A = wval a div 2 ^ Suc i"
  define bt where "bt = (if limb_bit a i then 1 else 0 :: nat)"
  have A: "wval a div 2 ^ i = 2 * A + bt"
  proof -
    have "wval a div 2 ^ i = 2 * (wval a div 2 ^ i div 2) + wval a div 2 ^ i mod 2" by simp
    moreover have "wval a div 2 ^ i div 2 = A" by (simp only: A_def power_Suc2 div_mult2_eq)
    moreover have "wval a div 2 ^ i mod 2 = bt"
      using limb_bit_val [of i a] i a by (simp add: bt_def mod_2_eq_odd)
    ultimately show ?thesis by simp
  qed
  from inv have q: "length q = 4" "wval q = 2 ^ Suc i * (A div wval b)"
    and r: "length r = 4" "wval r = A mod wval b" by (simp_all add: div_inv_def qr A_def)
  have rb: "wval r < wval b" using r(2) b0 by simp
  define r1 where "r1 = shl1_go r 0"
  define r2 where "r2 = (if limb_bit a i then r1[0 := r1 ! 0 OR 1] else r1)"
  have r1: "wval r1 = 2 * wval r" "length r1 = 4"
    using shl1_go_val [of 0 r] rb bb r(1) by (simp_all add: r1_def)
  have "r1 \<noteq> []" using r1(2) by auto
  then have r2: "wval r2 = 2 * wval r + bt" "length r2 = 4"
    using wval_set_low_bit [of r1] r1 by (auto simp: r2_def bt_def)
  have cmp: "cmp_limbs r2 b = cmp_of (wval r2) (wval b)" by (simp add: cmp_limbs_val r2 b)
  have decomp: "2 * A + bt = wval b * (2 * (A div wval b)) + wval r2"
    unfolding r2(1) r(2) by (rule double_decomp) simp
  show ?thesis
  proof (cases "wval b \<le> wval r2")
    case True
    have sub: "wval (fst (sub_limbs r2 b)) = wval r2 - wval b" "length (fst (sub_limbs r2 b)) = 4"
      using sub_limbs_exact [of r2 b] r2 b True by simp_all
    have lt: "wval r2 - wval b < wval b" using r2(1) rb by (simp add: bt_def split: if_splits)
    have "2 * A + bt = wval b * (2 * (A div wval b) + 1) + (wval r2 - wval b)"
      using decomp True by (simp add: algebra_simps)
    then have dm: "(2 * A + bt) div wval b = 2 * (A div wval b) + 1"
      "(2 * A + bt) mod wval b = wval r2 - wval b"
      using lt by (simp_all add: div_nat_eqI mod_nat_eqI)
    have ev: "even (wval q div 2 ^ i)" using q(2) by simp
    have "wval (q[i div 64 := q ! (i div 64) OR push_bit (i mod 64) 1]) = wval q + 2 ^ i"
      by (rule limb_set_bit) (use i q(1) ev in simp_all)
    with dm sub A q cmp True show ?thesis
      by (simp add: div_inv_def div_rem_u256_step_def qr r1_def [symmetric] r2_def [symmetric] algebra_simps
          split: if_splits)
  next
    case False
    then have "(2 * A + bt) div wval b = 2 * (A div wval b)" "(2 * A + bt) mod wval b = wval r2"
      using decomp by (simp_all add: div_nat_eqI mod_nat_eqI)
    with A q r2 cmp False show ?thesis
      by (simp add: div_inv_def div_rem_u256_step_def qr r1_def [symmetric] r2_def [symmetric])
  qed
qed

lemma div_inv_fold:
  assumes "length a = 4" "length b = 4" "0 < wval b" "wval b \<le> 2 ^ 255"
  shows "n \<le> 256 \<Longrightarrow> div_inv a b n qr \<Longrightarrow> div_inv a b 0 (fold (div_rem_u256_step a b) (rev [0..<n]) qr)"
proof (induction n arbitrary: qr)
  case 0
  then show ?case by simp
next
  case (Suc n)
  then have "div_inv a b n (div_rem_u256_step a b n qr)" using div_inv_step assms by simp
  with Suc show ?case by simp
qed

lemma div_rem_u256_val:
  assumes "length a = 4" "length b = 4" "0 < wval b" "wval b \<le> 2 ^ 255"
    and "div_rem_u256 a b = (q, r)"
  shows "wval q = wval a div wval b" "wval r = wval a mod wval b" "length q = 4" "length r = 4"
proof -
  have "wval a div 2 ^ 256 = 0" using wval_less64 [of a] assms(1) by simp
  then have "div_inv a b 256 (replicate 4 0, replicate 4 0)"
    using assms(3) by (simp add: div_inv_def)
  then have "div_inv a b 0 (div_rem_u256 a b)"
    unfolding div_rem_u256_def by (intro div_inv_fold assms) simp_all
  with assms(5) show "wval q = wval a div wval b" "wval r = wval a mod wval b"
    "length q = 4" "length r = 4" by (simp_all add: div_inv_def)
qed

lemma reduce_once_val:
  assumes "length p = 4" and "0 < wval p" and "length x = 4"
  shows "\<exists>r. reduce_once x p = Some r \<and> length r = 4 \<and> wval r = wval x mod wval p"
  using assms(3)
proof (induction "wval x" arbitrary: x rule: less_induct)
  case less
  have cmp: "cmp_limbs x p = cmp_of (wval x) (wval p)" using less.prems assms(1) by (simp add: cmp_limbs_val)
  show ?case
  proof (cases "wval p \<le> wval x")
    case True
    let ?y = "fst (sub_limbs x p)"
    have y: "wval ?y = wval x - wval p" "length ?y = 4"
      using sub_limbs_exact [of x p] less.prems assms(1) True by simp_all
    then have "wval ?y < wval x" using assms(2) True by simp
    then obtain r where "reduce_once ?y p = Some r" "length r = 4" "wval r = wval ?y mod wval p"
      using less.hyps y(2) by blast
    with True cmp y(1) show ?thesis by (subst reduce_once.simps) (simp add: le_mod_geq)
  next
    case False
    with cmp less.prems show ?thesis by (subst reduce_once.simps) simp
  qed
qed

lemma unat_or_push64:
  assumes "unat rem < 2 ^ 64"
  shows "unat (push_bit 64 rem OR ucast (a :: u64) :: u128) = 2 ^ 64 * unat rem + unat a"
proof -
  have "push_bit 64 rem AND (ucast a :: u128) = 0"
    by (rule bit_eqI) (auto simp: bit_simps dest: bit_imp_le_length)
  moreover have "unat (push_bit 64 rem) = 2 ^ 64 * unat rem"
    using assms by (simp only: unsigned_push_bit_eq) (simp add: push_bit_eq_mult take_bit_nat_eq_self)
  ultimately show ?thesis by (simp only: unat_or_disjoint unat_ucast_u128)
qed

lemma div_rem_small_go_val:
  assumes "d \<noteq> 0" and "div_rem_small_go as d = (q, rem)"
  shows "length q = length as \<and> wval q = wval as div unat d \<and> unat rem = wval as mod unat d"
  using assms(2)
proof (induction as arbitrary: q rem)
  case Nil
  then show ?case by simp
next
  case (Cons a as)
  obtain q' rem' where rec: "div_rem_small_go as d = (q', rem')" by force
  define cur where "cur = push_bit 64 rem' OR (ucast a :: u128)"
  have q: "q = ucast (cur div ucast d) # q'" "rem = cur mod ucast d"
    using Cons.prems rec by (simp_all add: cur_def Let_def)
  from Cons.IH [OF rec] have IH: "length q' = length as" "wval q' = wval as div unat d"
    "unat rem' = wval as mod unat d" by auto
  have d0: "0 < unat d" using assms(1) by (simp add: unat_gt_0)
  have "unat rem' < unat d" using IH(3) d0 by simp
  then have r64: "unat rem' < 2 ^ 64" using unat_u64_less [of d] by simp
  have cur: "unat cur = 2 ^ 64 * unat rem' + unat a"
    unfolding cur_def by (rule unat_or_push64 [OF r64])
  have "unat cur < 2 ^ 64 * unat d"
  proof -
    have "2 ^ 64 * unat rem' + unat a < 2 ^ 64 * (unat rem' + 1)" using unat_u64_less [of a] by simp
    also have "\<dots> \<le> 2 ^ 64 * unat d" using \<open>unat rem' < unat d\<close> by (intro mult_le_mono2) simp
    finally show ?thesis by (simp add: cur)
  qed
  then have "unat cur div unat d < 2 ^ 64" using d0 by (simp add: less_mult_imp_div_less mult.commute)
  then have qd: "unat (ucast (cur div ucast d) :: u64) = unat cur div unat d"
    by (simp only: u128_split(1) unat_div unat_ucast_u128) simp
  have V: "wval (a # as) = unat cur + unat d * (2 ^ 64 * (wval as div unat d))"
    unfolding wval_Cons64 cur IH(3) by (rule shift_decomp) simp
  have "wval q = unat cur div unat d + 2 ^ 64 * (wval as div unat d)"
    by (simp only: q wval_Cons64 qd IH(2))
  also have "\<dots> = wval (a # as) div unat d" unfolding V using d0 by simp
  finally show ?case using q IH(1) V by (simp add: unat_mod unat_ucast_u128)
qed

lemma div_rem_small_u256_val:
  assumes "d \<noteq> 0" and "div_rem_small_u256 a d = (q, rem)"
  shows "length q = length a" "wval q = wval a div unat d" "unat rem = wval a mod unat d"
proof -
  obtain r where r: "div_rem_small_go a d = (q, r)" "rem = ucast r"
    using assms(2) by (auto simp: div_rem_small_u256_def split: prod.splits)
  note v = div_rem_small_go_val [OF assms(1) r(1)]
  have "0 < unat d" using assms(1) by (simp add: unat_gt_0)
  then have "unat r < 2 ^ 64"
    using v unat_u64_less [of d] by (metis mod_less_divisor order.strict_trans)
  then have "unat rem = unat r" unfolding r(2) u128_split(1) by simp
  with v show "length q = length a" "wval q = wval a div unat d" "unat rem = wval a mod unat d" by auto
qed

end
