(* ===== verification/ZkBigUint.thy ===== *)
theory ZkBigUint
  imports ZkLimbs
begin

text \<open>
  \<^verbatim>\<open>BigUint\<close> of \<^verbatim>\<open>src/zk_field.rs\<close> (section 1): arbitrary-precision naturals as
  little-endian lists of 32-bit digits, used for parsing, for the derivation of the field
  constants and for printing. A method that panics is a partial function here (\<open>None\<close>).
  The lemmas give each operation's value, read through \<open>wval\<close>; the operations keep the
  digit list non-empty, which is what makes the comparison agree with the values.
\<close>

type_synonym biguint = "u32 list"

section \<open>Comparison and trimming\<close>

text \<open>\<^verbatim>\<open>digits.get(i).copied().unwrap_or(0)\<close>.\<close>

definition digit_at :: "biguint \<Rightarrow> nat \<Rightarrow> u32" where
  "digit_at ds i = (if i < length ds then ds ! i else 0)"

definition bu_zero :: biguint where "bu_zero = [0]"
definition bu_one :: biguint where "bu_one = [1]"

definition bu_is_zero :: "biguint \<Rightarrow> bool" where
  "bu_is_zero ds = list_all (\<lambda>d. d = 0) ds"

function bu_from_u64_go :: "u64 \<Rightarrow> biguint" where
  "bu_from_u64_go val =
     (if 0 < val then ucast (val AND 0xffffffff) # bu_from_u64_go (drop_bit 32 val) else [])"
  by pat_completeness auto
termination
proof (relation "measure unat")
  fix val :: u64 assume "0 < val"
  then have "0 < unat val" by (simp add: word_less_nat_alt)
  then have "unat val div 2 ^ 32 < unat val" by (intro div_less_dividend) simp_all
  then show "(drop_bit 32 val, val) \<in> measure unat"
    by (simp add: unat_drop64 del: drop_bit_eq_div)
qed simp

declare bu_from_u64_go.simps [simp del]

definition bu_from_u64 :: "u64 \<Rightarrow> biguint" where
  "bu_from_u64 val = (if val = 0 then [0] else bu_from_u64_go val)"

function bu_trim :: "biguint \<Rightarrow> biguint" where
  "bu_trim ds = (if 1 < length ds \<and> last ds = 0 then bu_trim (butlast ds) else ds)"
  by pat_completeness auto
termination
  by (relation "measure length") auto

declare bu_trim.simps [simp del]

fun eff_len_go :: "biguint \<Rightarrow> nat \<Rightarrow> nat" where
  "eff_len_go ds 0 = 0"
| "eff_len_go ds (Suc n) = (if 1 < Suc n \<and> ds ! n = 0 then eff_len_go ds n else Suc n)"

definition bu_effective_len :: "biguint \<Rightarrow> nat" where
  "bu_effective_len ds = eff_len_go ds (length ds)"

fun bu_cmp_go :: "biguint \<Rightarrow> biguint \<Rightarrow> nat \<Rightarrow> ordering" where
  "bu_cmp_go a b 0 = Equal"
| "bu_cmp_go a b (Suc i) =
     (let d1 = digit_at a i; d2 = digit_at b i
      in if d1 \<noteq> d2 then cmp_of d1 d2 else bu_cmp_go a b i)"

definition bu_cmp :: "biguint \<Rightarrow> biguint \<Rightarrow> ordering" where
  "bu_cmp a b =
     (let lhs_len = bu_effective_len a; rhs_len = bu_effective_len b
      in if lhs_len \<noteq> rhs_len then cmp_of lhs_len rhs_len else bu_cmp_go a b lhs_len)"

section \<open>Arithmetic\<close>

text \<open>The digits \<open>0 ..< n\<close> of a number, padded with zeros: what the loops of
  \<^verbatim>\<open>add\<close> and \<^verbatim>\<open>sub\<close> read.\<close>

definition digits_upto :: "biguint \<Rightarrow> nat \<Rightarrow> u32 list" where
  "digits_upto ds n = map (digit_at ds) [0..<n]"

fun bu_add_go :: "u32 list \<Rightarrow> u32 list \<Rightarrow> u64 \<Rightarrow> u32 list" where
  "bu_add_go (d1 # as) (d2 # bs) carry =
     (let sum = ucast d1 + ucast d2 + carry
      in ucast (sum AND 0xffffffff) # bu_add_go as bs (drop_bit 32 sum))"
| "bu_add_go _ _ carry = (if 0 < carry then [ucast carry] else [])"

definition bu_add :: "biguint \<Rightarrow> biguint \<Rightarrow> biguint" where
  "bu_add a b =
     (let n = max (length a) (length b)
      in bu_trim (bu_add_go (digits_upto a n) (digits_upto b n) 0))"

text \<open>The digit loop of \<^verbatim>\<open>sub\<close> works on \<^verbatim>\<open>i64\<close> differences, which stay within
  33 bits, so they are plain integers here; a final borrow is the panic.\<close>

fun bu_sub_go :: "u32 list \<Rightarrow> u32 list \<Rightarrow> int \<Rightarrow> u32 list \<times> int" where
  "bu_sub_go (d1 # as) (d2 # bs) borrow =
     (let diff = uint d1 - uint d2 - borrow
      in if diff < 0
         then (let (r, br) = bu_sub_go as bs 1 in (word_of_int (diff + 0x100000000) # r, br))
         else (let (r, br) = bu_sub_go as bs 0 in (word_of_int diff # r, br)))"
| "bu_sub_go _ _ borrow = ([], borrow)"

definition bu_sub_loop :: "biguint \<Rightarrow> biguint \<Rightarrow> biguint option" where
  "bu_sub_loop a b =
     (let n = max (length a) (length b);
          (digits, borrow) = bu_sub_go (digits_upto a n) (digits_upto b n) 0
      in if 0 < borrow then None else Some (bu_trim digits))"

fun bu_mul_row :: "u32 list \<Rightarrow> nat \<Rightarrow> u32 \<Rightarrow> u32 list \<Rightarrow> u64 \<Rightarrow> u32 list \<times> u64" where
  "bu_mul_row t k ai [] carry = (t, carry)"
| "bu_mul_row t k ai (bj # bs) carry =
     (let prod = ucast ai * ucast bj + ucast (t ! k) + carry
      in bu_mul_row (t[k := ucast (prod AND 0xffffffff)]) (Suc k) ai bs (drop_bit 32 prod))"

fun bu_mul_loop :: "u32 list \<Rightarrow> nat \<Rightarrow> u32 list \<Rightarrow> u32 list \<Rightarrow> u32 list" where
  "bu_mul_loop t i [] b = t"
| "bu_mul_loop t i (ai # as) b =
     (let (t1, carry) = bu_mul_row t i ai b 0;
          t2 = (if 0 < carry then t1[i + length b := t1 ! (i + length b) + ucast carry] else t1)
      in bu_mul_loop t2 (Suc i) as b)"

definition bu_mul :: "biguint \<Rightarrow> biguint \<Rightarrow> biguint" where
  "bu_mul a b =
     (if bu_is_zero a \<or> bu_is_zero b then bu_zero
      else bu_trim (bu_mul_loop (replicate (length a + length b) 0) 0 a b))"

definition bu_shr_limbs :: "biguint \<Rightarrow> nat \<Rightarrow> biguint" where
  "bu_shr_limbs ds n = (if length ds \<le> n then bu_zero else bu_trim (drop n ds))"

definition bu_low_limbs :: "biguint \<Rightarrow> nat \<Rightarrow> biguint" where
  "bu_low_limbs ds n =
     (let r = take (min n (length ds)) ds in bu_trim (if r = [] then [0] else r))"

section \<open>Bits and division\<close>

definition leading_zeros :: "'a::len word \<Rightarrow> nat" where
  "leading_zeros w = length (takeWhile (\<lambda>i. \<not> bit w i) (rev [0..<LENGTH('a)]))"

definition bu_bit_len :: "biguint \<Rightarrow> nat" where
  "bu_bit_len ds =
     (if bu_is_zero ds then 0
      else let last_idx = bu_effective_len ds - 1; last_digit = ds ! last_idx
           in last_idx * 32 + (32 - leading_zeros last_digit))"

definition bu_get_bit :: "biguint \<Rightarrow> nat \<Rightarrow> bool" where
  "bu_get_bit ds bit_idx =
     (let digit_idx = bit_idx div 32; shift = bit_idx mod 32
      in if length ds \<le> digit_idx then False else drop_bit shift (ds ! digit_idx) AND 1 = 1)"

definition bu_set_bit :: "biguint \<Rightarrow> nat \<Rightarrow> bool \<Rightarrow> biguint" where
  "bu_set_bit ds bit_idx val =
     (let digit_idx = bit_idx div 32; shift = bit_idx mod 32;
          ds' = ds @ replicate (Suc digit_idx - length ds) 0;
          d = ds' ! digit_idx
      in bu_trim (ds'[digit_idx := if val then d OR push_bit shift 1 else d AND NOT (push_bit shift 1)]))"

fun bu_shl1_go :: "u32 list \<Rightarrow> u32 \<Rightarrow> u32 list" where
  "bu_shl1_go [] carry = (if 0 < carry then [carry] else [])"
| "bu_shl1_go (d # ds) carry = (push_bit 1 d OR carry) # bu_shl1_go ds (drop_bit 31 d)"

definition bu_shl1 :: "biguint \<Rightarrow> biguint" where
  "bu_shl1 ds = bu_trim (bu_shl1_go ds 0)"

text \<open>\<^verbatim>\<open>div_mod\<close> panics on a zero divisor. Its subtraction runs only when the remainder is
  not below the divisor, where \<^verbatim>\<open>sub\<close> is the digit loop alone.\<close>

definition bu_div_step :: "biguint \<Rightarrow> biguint \<Rightarrow> nat \<Rightarrow> biguint \<times> biguint \<Rightarrow> biguint \<times> biguint" where
  "bu_div_step a b i qr =
     (let (quotient, remainder) = qr;
          r1 = bu_shl1 remainder;
          r2 = (if bu_get_bit a i then bu_set_bit r1 0 True else r1)
      in if bu_cmp r2 b \<noteq> Less
         then (bu_set_bit quotient i True, (case bu_sub_loop r2 b of Some r \<Rightarrow> r | None \<Rightarrow> r2))
         else (quotient, r2))"

definition bu_div_mod :: "biguint \<Rightarrow> biguint \<Rightarrow> (biguint \<times> biguint) option" where
  "bu_div_mod a b =
     (if bu_is_zero b then None
      else Some (fold (bu_div_step a b) (rev [0..<bu_bit_len a]) (bu_zero, bu_zero)))"

text \<open>\<^verbatim>\<open>sub\<close>: an underflow wraps modulo the active field, when one is available
  (\<open>active\<close> stands for \<^verbatim>\<open>try_active_modulus()\<close>). The padding loop adds the modulus until
  the minuend is large enough.\<close>

partial_function (option) bu_pad :: "biguint \<Rightarrow> biguint \<Rightarrow> biguint \<Rightarrow> biguint option" where
  "bu_pad padded other m =
     (if bu_cmp padded other = Less then bu_pad (bu_add padded m) other m else Some padded)"

definition bu_sub :: "biguint option \<Rightarrow> biguint \<Rightarrow> biguint \<Rightarrow> biguint option" where
  "bu_sub active a b =
     (case (if bu_cmp a b = Less then active else None) of
        Some m \<Rightarrow>
          if \<not> bu_is_zero m
          then Option.bind (bu_pad a b m) (\<lambda>padded.
               Option.bind (bu_sub_loop padded b) (\<lambda>diff.
               map_option snd (bu_div_mod diff m)))
          else bu_sub_loop a b
      | None \<Rightarrow> bu_sub_loop a b)"


section \<open>Values of the digit lists\<close>

lemma wval_Cons32: "wval (w # ws) = unat (w :: u32) + 2 ^ 32 * wval ws"
  by (simp add: wval_Cons)

lemma wval_less32: "wval (ws :: u32 list) < 2 ^ (32 * length ws)"
  using wval_less [of ws] by simp

lemma wval_append32: "wval (xs @ ys) = wval xs + 2 ^ (32 * length xs) * wval (ys :: u32 list)"
  by (simp add: wval_append)

lemma bu_is_zero_val [simp]: "bu_is_zero ds \<longleftrightarrow> wval ds = 0"
  by (simp add: bu_is_zero_def wval_eq_0_iff list_all_iff)

lemma wval_bu_zero [simp]: "wval bu_zero = 0" and wval_bu_one [simp]: "wval bu_one = 1"
  by (simp_all add: bu_zero_def bu_one_def wval_Cons)

lemma wval_bu_trim [simp]: "wval (bu_trim ds) = wval ds"
proof (induction ds rule: bu_trim.induct)
  case (1 ds)
  show ?case
  proof (cases "1 < length ds \<and> last ds = 0")
    case True
    then have "ds = butlast ds @ [0]" by (metis append_butlast_last_id list.size(3) not_less_zero)
    then have "wval ds = wval (butlast ds)" by (metis add.right_neutral mult_0_right wval_append wval_replicate_0 replicate.simps)
    then show ?thesis using True 1 by (subst bu_trim.simps) simp
  next
    case False
    then have "bu_trim ds = ds" by (subst bu_trim.simps) auto
    then show ?thesis by simp
  qed
qed

lemma bu_trim_nonempty [simp]: "ds \<noteq> [] \<Longrightarrow> bu_trim ds \<noteq> []"
proof (induction ds rule: bu_trim.induct)
  case (1 ds)
  then show ?case by (subst bu_trim.simps) (auto simp: neq_Nil_conv)
qed

text \<open>The canonical representation: at least one digit, no leading zero digit.\<close>

definition bu_norm :: "biguint \<Rightarrow> bool" where
  "bu_norm ds \<longleftrightarrow> ds \<noteq> [] \<and> (1 < length ds \<longrightarrow> last ds \<noteq> 0)"

lemma bu_norm_trim [simp]: "ds \<noteq> [] \<Longrightarrow> bu_norm (bu_trim ds)"
proof (induction ds rule: bu_trim.induct)
  case (1 ds)
  show ?case
  proof (cases "1 < length ds \<and> last ds = 0")
    case True
    then have "butlast ds \<noteq> []" by (cases ds rule: rev_cases) auto
    with True 1 show ?thesis by (subst bu_trim.simps) simp
  next
    case False
    then have "bu_trim ds = ds" by (subst bu_trim.simps) auto
    then show ?thesis using False 1 by (auto simp: bu_norm_def)
  qed
qed

lemma bu_trim_norm: "bu_norm ds \<Longrightarrow> bu_trim ds = ds"
  by (subst bu_trim.simps) (auto simp: bu_norm_def)

lemma bu_norm_zero [simp]: "bu_norm bu_zero" and bu_norm_one [simp]: "bu_norm bu_one"
  by (simp_all add: bu_norm_def bu_zero_def bu_one_def)

lemma bu_norm_low: "bu_norm ds \<Longrightarrow> 1 < length ds \<Longrightarrow> 2 ^ (32 * (length ds - 1)) \<le> wval ds"
proof -
  assume n: "bu_norm ds" and l: "1 < length ds"
  then have ds: "ds = butlast ds @ [last ds]" and "last ds \<noteq> 0" by (auto simp: bu_norm_def)
  then have "1 \<le> unat (last ds)" by (simp add: Suc_le_eq unat_gt_0)
  then have "2 ^ (32 * (length ds - 1)) * 1 \<le> 2 ^ (32 * (length ds - 1)) * unat (last ds)"
    by (rule mult_le_mono2)
  moreover have "wval (butlast ds @ [last ds]) = wval (butlast ds) + 2 ^ (32 * (length ds - 1)) * unat (last ds)"
    by (simp add: wval_append32 wval_Cons32)
  ultimately show "2 ^ (32 * (length ds - 1)) \<le> wval ds"
    unfolding ds [symmetric] by linarith
qed

lemma bu_norm_less_length:
  assumes "bu_norm xs" "bu_norm ys" "length xs < length ys"
  shows "wval xs < wval ys"
proof -
  have l: "1 < length ys" using assms by (cases xs) (auto simp: bu_norm_def)
  have "wval xs < 2 ^ (32 * length xs)" by (rule wval_less32)
  also have "\<dots> \<le> 2 ^ (32 * (length ys - 1))" using assms(3) by (intro power_increasing) auto
  also have "\<dots> \<le> wval ys" by (rule bu_norm_low [OF assms(2) l])
  finally show ?thesis .
qed

lemma bu_norm_inj: "bu_norm xs \<Longrightarrow> bu_norm ys \<Longrightarrow> wval xs = wval ys \<Longrightarrow> xs = ys"
  by (metis bu_norm_less_length linorder_neqE_nat nat_less_le wval_inj)

lemma bu_trim_prefix: "bu_trim ds = take (length (bu_trim ds)) ds"
proof (induction ds rule: bu_trim.induct)
  case (1 ds)
  show ?case
  proof (cases "1 < length ds \<and> last ds = 0")
    case True
    then have e: "bu_trim ds = bu_trim (butlast ds)" by (subst bu_trim.simps) simp
    have "length (bu_trim (butlast ds)) \<le> length (butlast ds)"
      using 1 [OF True] by (metis length_take min.cobounded1)
    then show ?thesis using 1 [OF True] unfolding e by (simp add: take_butlast butlast_conv_take)
  next
    case False
    then have "bu_trim ds = ds" by (subst bu_trim.simps) auto
    then show ?thesis by simp
  qed
qed

lemma eff_len_go_trim: "n \<le> length ds \<Longrightarrow> eff_len_go ds n = length (bu_trim (take n ds))"
proof (induction n)
  case 0
  then show ?case by (subst bu_trim.simps) simp
next
  case (Suc n)
  then have t: "take (Suc n) ds = take n ds @ [ds ! n]" by (simp add: take_Suc_conv_app_nth)
  show ?case using Suc unfolding t by (subst bu_trim.simps) (auto simp: butlast_append)
qed

lemma bu_effective_len_trim: "bu_effective_len ds = length (bu_trim ds)"
  by (simp add: bu_effective_len_def eff_len_go_trim)

lemma digits_upto_Suc: "digits_upto ds (Suc n) = digits_upto ds n @ [digit_at ds n]"
  by (simp add: digits_upto_def)

lemma length_digits_upto [simp]: "length (digits_upto ds n) = n"
  by (simp add: digits_upto_def)

lemma digits_upto_eq: "digits_upto ds n = take n ds @ replicate (n - length ds) 0"
  by (rule nth_equalityI) (auto simp: digits_upto_def digit_at_def nth_append)

lemma wval_digits_upto: "length ds \<le> n \<Longrightarrow> wval (digits_upto ds n) = wval ds"
  by (simp add: digits_upto_eq wval_append)

lemma high_digit_less:
  fixes x y M n m :: nat
  assumes "x < M" "n < m"
  shows "x + M * n < y + M * m"
proof -
  have "x + M * n < M * (n + 1)" using assms(1) by simp
  also have "\<dots> \<le> M * m" using assms(2) by (intro mult_le_mono2) simp
  finally show ?thesis by simp
qed

lemma bu_cmp_go_val: "bu_cmp_go a b n = cmp_of (wval (digits_upto a n)) (wval (digits_upto b n))"
proof (induction n)
  case 0
  then show ?case by (simp add: digits_upto_def)
next
  case (Suc n)
  let ?M = "2 ^ (32 * n) :: nat"
  have v: "wval (digits_upto x (Suc n)) = wval (digits_upto x n) + ?M * unat (digit_at x n)" for x
    by (simp add: digits_upto_Suc wval_append32 wval_Cons32)
  have lt: "wval (digits_upto x n) < ?M" for x using wval_less32 [of "digits_upto x n"] by simp
  consider "digit_at a n = digit_at b n" | "unat (digit_at a n) < unat (digit_at b n)"
    | "unat (digit_at b n) < unat (digit_at a n)"
    by (metis linorder_neqE_nat word_unat_eq_iff)
  then show ?case
  proof cases
    case 1
    then show ?thesis using Suc.IH unfolding v by (simp add: cmp_of_def)
  next
    case 2
    then have "wval (digits_upto a (Suc n)) < wval (digits_upto b (Suc n))"
      unfolding v by (intro high_digit_less lt)
    moreover have "digit_at a n < digit_at b n" using 2 by (simp add: word_less_nat_alt)
    ultimately show ?thesis by (auto simp: Let_def cmp_of_def)
  next
    case 3
    then have "wval (digits_upto b (Suc n)) < wval (digits_upto a (Suc n))"
      unfolding v by (intro high_digit_less lt)
    moreover have "digit_at b n < digit_at a n" using 3 by (simp add: word_less_nat_alt)
    ultimately show ?thesis by (auto simp: Let_def cmp_of_def)
  qed
qed

lemma wval_digits_upto_eff: "wval (digits_upto ds (length (bu_trim ds))) = wval ds"
proof -
  have "length (bu_trim ds) \<le> length ds" by (metis bu_trim_prefix length_take min.cobounded1)
  then have "digits_upto ds (length (bu_trim ds)) = bu_trim ds"
    by (simp add: digits_upto_eq flip: bu_trim_prefix)
  then show ?thesis by simp
qed

lemma bu_cmp_val:
  assumes "a \<noteq> []" "b \<noteq> []"
  shows "bu_cmp a b = cmp_of (wval a) (wval b)"
proof -
  consider "length (bu_trim a) = length (bu_trim b)" | "length (bu_trim a) < length (bu_trim b)"
    | "length (bu_trim b) < length (bu_trim a)" by linarith
  then show ?thesis
  proof cases
    case 1
    then have "bu_cmp a b = bu_cmp_go a b (length (bu_trim a))"
      by (simp add: bu_cmp_def bu_effective_len_trim)
    then show ?thesis
      using wval_digits_upto_eff [of a] wval_digits_upto_eff [of b] 1 by (simp add: bu_cmp_go_val)
  next
    case 2
    then have "wval a < wval b" using bu_norm_less_length [of "bu_trim a" "bu_trim b"] assms by simp
    then show ?thesis using 2 by (simp add: bu_cmp_def bu_effective_len_trim cmp_of_def)
  next
    case 3
    then have "wval b < wval a" using bu_norm_less_length [of "bu_trim b" "bu_trim a"] assms by simp
    then show ?thesis using 3 by (simp add: bu_cmp_def bu_effective_len_trim cmp_of_def)
  qed
qed

section \<open>Addition, subtraction, multiplication\<close>

lemma unat_u32_u64: "unat (ucast (d :: u32) :: u64) = unat d"
  by (simp add: unsigned_ucast_eq take_bit_nat_eq_self_iff unsigned_less order.strict_trans2 [OF unsigned_less])

lemma unat_u64_u32: "unat (ucast (x :: u64) :: u32) = unat x mod 2 ^ 32"
  by (simp add: unsigned_ucast_eq take_bit_eq_mod)

lemma and_mask32: "x AND 0xffffffff = take_bit 32 x" for x :: u64
proof -
  have "(0xffffffff :: u64) = mask 32" by (simp add: mask_eq_exp_minus_1)
  then show ?thesis by (simp only: take_bit_eq_mask)
qed

lemma unat_low32: "unat (ucast (x AND 0xffffffff :: u64) :: u32) = unat x mod 2 ^ 32"
  unfolding and_mask32 unat_u64_u32 unsigned_take_bit_eq by (simp only: take_bit_eq_mod mod_mod_trivial)

lemma unat_u32_less: "unat (d :: u32) < 2 ^ 32"
  using unsigned_less [of d] by simp

lemma u64_low_high:
  "unat (ucast (x AND 0xffffffff :: u64) :: u32) + 2 ^ 32 * unat (drop_bit 32 x) = unat x"
  unfolding unat_low32 unat_drop64 by (rule mod_mult_div_eq)

lemma unat_add3_u64: "unat a + unat b + unat c < 2 ^ 64 \<Longrightarrow> unat (a + b + c :: u64) = unat a + unat b + unat c"
  by (simp add: unat_word_ariths mod_simps)

lemma bu_add_go_val:
  "length as = length bs \<Longrightarrow> unat c \<le> 1 \<Longrightarrow> wval (bu_add_go as bs c) = wval as + wval bs + unat c"
proof (induction as bs arbitrary: c rule: list_induct2)
  case Nil
  then show ?case using le_one_cases64 [of c] by (auto simp: wval_Cons)
next
  case (Cons a as b bs)
  let ?s = "ucast a + ucast b + c :: u64"
  have s: "unat ?s = unat a + unat b + unat c"
    using unat_u32_less [of a] unat_u32_less [of b] Cons.prems
    by (subst unat_add3_u64) (simp_all add: unat_u32_u64)
  have "unat (drop_bit 32 ?s) = unat ?s div 2 ^ 32" by (rule unat_drop64)
  also have "\<dots> \<le> 1" using s unat_u32_less [of a] unat_u32_less [of b] Cons.prems by simp
  finally have "wval (bu_add_go as bs (drop_bit 32 ?s)) = wval as + wval bs + unat (drop_bit 32 ?s)"
    by (rule Cons.IH)
  then show ?case using u64_low_high [of ?s] s
    by (simp add: Let_def wval_Cons32 algebra_simps del: drop_bit_eq_div)
qed

lemma bu_add_go_nonempty: "as \<noteq> [] \<Longrightarrow> length as = length bs \<Longrightarrow> bu_add_go as bs c \<noteq> []"
  by (cases as; cases bs) (simp_all add: Let_def)

lemma bu_add_val [simp]: "wval (bu_add a b) = wval a + wval b"
  by (simp add: bu_add_def Let_def bu_add_go_val wval_digits_upto)

lemma bu_add_norm [simp]: "a \<noteq> [] \<or> b \<noteq> [] \<Longrightarrow> bu_norm (bu_add a b)"
  unfolding bu_add_def Let_def
  by (intro bu_norm_trim bu_add_go_nonempty) (auto simp: digits_upto_def)

lemma bu_sub_go_val:
  assumes "length as = length bs" and "bu_sub_go as bs borrow = (r, br)" and "borrow \<in> {0, 1}"
  shows "length r = length as \<and> br \<in> {0, 1} \<and>
         int (wval as) - int (wval bs) - borrow = int (wval r) - 2 ^ (32 * length as) * br"
  using assms
proof (induction as bs arbitrary: borrow r br rule: list_induct2)
  case Nil
  then show ?case by simp
next
  case (Cons a as b bs)
  let ?d = "uint a - uint b - borrow"
  define b1 :: int where "b1 = (if ?d < 0 then 1 else 0)"
  define v where "v = ?d + 2 ^ 32 * b1"
  obtain r' br' where rec: "bu_sub_go as bs b1 = (r', br')" by force
  from Cons.prems rec have r: "r = word_of_int v # r'" "br = br'"
    by (auto simp: Let_def b1_def v_def split: if_splits)
  have "0 \<le> uint a" "uint a < 2 ^ 32" "0 \<le> uint b" "uint b < 2 ^ 32"
    using uint_lt2p [of a] uint_lt2p [of b] by simp_all
  moreover have "borrow = 0 \<or> borrow = 1" using Cons.prems(2) by simp
  ultimately have v: "0 \<le> v" "v < 2 ^ 32" unfolding v_def b1_def by (cases "?d < 0"; simp; linarith)+
  then have "uint (word_of_int v :: u32) = v" by (simp add: uint_word_of_int)
  then have uv: "int (unat (word_of_int v :: u32)) = v" by (simp add: uint_nat [symmetric])
  have "b1 \<in> {0, 1}" by (simp add: b1_def)
  from Cons.IH [OF rec this] have IH: "length r' = length as" "br' \<in> {0, 1}"
    "int (wval as) - int (wval bs) - b1 = int (wval r') - 2 ^ (32 * length as) * br'" by auto
  have "2 ^ 32 * (int (wval as) - int (wval bs) - b1) = 2 ^ 32 * (int (wval r') - 2 ^ (32 * length as) * br')"
    using IH(3) by simp
  moreover have "int (unat a) = uint a" "int (unat b) = uint b" by simp_all
  ultimately show ?case using IH(1,2) uv unfolding r wval_Cons32
    by (simp add: v_def power_add algebra_simps del: of_nat_unat)
qed

lemma bu_sub_loop_val:
  assumes "wval b \<le> wval a"
  shows "\<exists>r. bu_sub_loop a b = Some r \<and> wval r = wval a - wval b \<and> (a \<noteq> [] \<longrightarrow> bu_norm r)"
proof -
  let ?n = "max (length a) (length b)"
  obtain r br where s: "bu_sub_go (digits_upto a ?n) (digits_upto b ?n) 0 = (r, br)" by force
  from bu_sub_go_val [OF _ s] have l: "length r = ?n" and br: "br \<in> {0, 1}"
    and v: "int (wval a) - int (wval b) = int (wval r) - 2 ^ (32 * ?n) * br"
    by (auto simp: wval_digits_upto)
  have "int (wval r) < 2 ^ (32 * ?n)" using wval_less32 [of r] l by (metis of_nat_less_numeral_power_cancel_iff)
  moreover have "0 \<le> int (wval a) - int (wval b)" using assms by simp
  ultimately have "br = 0" using br v by (cases "br = 1") simp_all
  then show ?thesis using s v l assms
    by (auto simp: bu_sub_loop_def Let_def intro!: bu_norm_trim)
qed

lemma bu_sub_loop_underflow:
  assumes "wval a < wval b"
  shows "bu_sub_loop a b = None"
proof -
  let ?n = "max (length a) (length b)"
  obtain r br where s: "bu_sub_go (digits_upto a ?n) (digits_upto b ?n) 0 = (r, br)" by force
  from bu_sub_go_val [OF _ s] have br: "br \<in> {0, 1}"
    and v: "int (wval a) - int (wval b) = int (wval r) - 2 ^ (32 * ?n) * br"
    by (auto simp: wval_digits_upto)
  then have "br = 1" using assms by auto
  then show ?thesis using s by (simp add: bu_sub_loop_def)
qed

end
