(* ===== verification/ZkMont.thy ===== *)
theory ZkMont
  imports ZkLimbs
begin

text \<open>
  The Montgomery product of \<^verbatim>\<open>src/zk_field.rs\<close> (\<^verbatim>\<open>mont_mul\<close>, separated operand
  scanning over a nine-limb buffer), the exponentiation built on it, and the Newton loop
  that finds \<open>-p\<^sup>-\<^sup>1 mod 2\<^sup>6\<^sup>4\<close>. The main facts: the product of
  \<open>a\<close> and \<open>b\<close> is a number below \<open>p\<close> congruent to \<open>a b R\<^sup>-\<^sup>1\<close>, \<open>R = 2\<^sup>2\<^sup>5\<^sup>6\<close>, and no
  carry of the nine-limb buffer is lost.
\<close>

section \<open>Operations\<close>

text \<open>One row of the schoolbook product: \<open>t[k..] += xs * m\<close>, returning the carry out of the
  last limb. In the first loop of \<^verbatim>\<open>mont_mul\<close> the row is \<open>a\<close> and the scalar \<open>b[i]\<close>.\<close>

fun mul_row :: "u64 list \<Rightarrow> nat \<Rightarrow> u64 list \<Rightarrow> u64 \<Rightarrow> u64 \<Rightarrow> u64 list \<times> u64" where
  "mul_row t k [] m carry = (t, carry)"
| "mul_row t k (x # xs) m carry =
     (let (v, c) = mac (t ! k) x m carry in mul_row (t[k := v]) (Suc k) xs m c)"

text \<open>The row of the reduction loop, \<open>t[k..] += m * p\<close>.\<close>

fun red_row :: "u64 list \<Rightarrow> nat \<Rightarrow> u64 \<Rightarrow> u64 list \<Rightarrow> u64 \<Rightarrow> u64 list \<times> u64" where
  "red_row t k m [] carry = (t, carry)"
| "red_row t k m (x # xs) carry =
     (let (v, c) = mac (t ! k) m x carry in red_row (t[k := v]) (Suc k) m xs c)"

fun mul_loop :: "u64 list \<Rightarrow> nat \<Rightarrow> u64 list \<Rightarrow> u64 list \<Rightarrow> u64 list" where
  "mul_loop t i a [] = t"
| "mul_loop t i a (bi # bs) =
     (let (t1, carry) = mul_row t i a bi 0;
          (v, c) = adc (t1 ! (i + 4)) carry 0
      in mul_loop (t1[i + 4 := v, i + 4 + 1 := c]) (Suc i) a bs)"

text \<open>The carry of a reduction row ripples up to the top limb.\<close>

function ripple :: "u64 list \<Rightarrow> nat \<Rightarrow> u64 \<Rightarrow> u64 list" where
  "ripple t k c =
     (if c \<noteq> 0 \<and> k \<le> 2 * 4
      then let (v2, c2) = adc (t ! k) c 0 in ripple (t[k := v2]) (k + 1) c2
      else t)"
  by pat_completeness auto
termination
  by (relation "measure (\<lambda>(t, k, c). 9 - k)") auto

declare ripple.simps [simp del]

definition red_step :: "u64 list \<Rightarrow> u64 \<Rightarrow> nat \<Rightarrow> u64 list \<Rightarrow> u64 list" where
  "red_step p pinv i t =
     (let m = t ! i * pinv;
          (t1, carry) = red_row t i m p 0;
          (v, c) = adc (t1 ! (i + 4)) carry 0
      in ripple (t1[i + 4 := v]) (i + 4 + 1) c)"

definition mont_mul :: "u64 list \<Rightarrow> u64 list \<Rightarrow> u64 list \<Rightarrow> u64 \<Rightarrow> u64 list" where
  "mont_mul a b p pinv =
     (let t0 = mul_loop (replicate (2 * 4 + 1) 0) 0 a b;
          t = fold (red_step p pinv) [0..<4] t0;
          u = take 4 (drop 4 t)
      in if t ! (2 * 4) \<noteq> 0 \<or> cmp_limbs u p \<noteq> Less then fst (sub_limbs u p) else u)"

text \<open>\<^verbatim>\<open>FieldParams::mont_pow\<close>: square-and-multiply from the most significant bit, with
  no squaring before the first set bit.\<close>

definition exp_bits :: "u64 list \<Rightarrow> bool list" where
  "exp_bits e =
     concat (map (\<lambda>i. map (\<lambda>b. drop_bit b (e ! i) AND 1 = 1) (rev [0..<64])) (rev [0..<4]))"

fun mont_pow_step :: "u64 list \<Rightarrow> u64 list \<Rightarrow> u64 \<Rightarrow> bool \<Rightarrow> u64 list \<times> bool \<Rightarrow> u64 list \<times> bool" where
  "mont_pow_step base p pinv bt (acc, started) =
     (let acc1 = (if started then mont_mul acc acc p pinv else acc)
      in if bt then (if started then mont_mul acc1 base p pinv else base, True)
         else (acc1, started))"

definition mont_pow :: "u64 list \<Rightarrow> u64 list \<Rightarrow> u64 list \<Rightarrow> u64 \<Rightarrow> u64 list \<Rightarrow> u64 list" where
  "mont_pow base e p pinv r1 = fst (fold (mont_pow_step base p pinv) (exp_bits e) (r1, False))"

text \<open>The Newton loop of \<^verbatim>\<open>FieldParams::new\<close>.\<close>

definition newton_step :: "u64 \<Rightarrow> u64 \<Rightarrow> u64" where
  "newton_step p0 x = x * x * p0"

definition mont_inv :: "u64 \<Rightarrow> u64" where
  "mont_inv p0 = - ((newton_step p0 ^^ 63) 1)"

section \<open>The product loop\<close>

lemma red_row_eq: "red_row t k m xs carry = mul_row t k xs m carry"
  by (induction xs arbitrary: t k carry) (simp_all add: mac_commute split: prod.split)

lemma wval_update64:
  fixes t :: "u64 list"
  assumes "k < length t"
  shows "wval (t[k := v]) + 2 ^ (64 * k) * unat (t ! k) = wval t + 2 ^ (64 * k) * unat v"
  using wval_update [OF assms, of v] by simp

lemma row_algebra:
  fixes w' w X tk x m carry v c xs T cT B :: nat
  assumes "w' + X * tk = w + X * v" and "v + B * c = tk + x * m + carry"
    and "T = w' + X * B * (xs * m + c)"
  shows "T = w + X * ((x + B * xs) * m + carry)"
proof -
  have "T + X * tk = w + X * v + X * B * (xs * m + c)" using assms(1,3) by simp
  also have "\<dots> = w + X * (v + B * c) + X * B * (xs * m)" by (simp add: algebra_simps)
  also have "\<dots> = w + X * (tk + x * m + carry) + X * B * (xs * m)" unfolding assms(2) ..
  also have "\<dots> = w + X * ((x + B * xs) * m + carry) + X * tk" by (simp add: algebra_simps)
  finally show ?thesis by simp
qed

lemma mul_row_val:
  assumes "k + length xs \<le> length t" and "mul_row t k xs m carry = (t', c)"
  shows "length t' = length t \<and>
    (\<forall>j. j < k \<or> k + length xs \<le> j \<longrightarrow> t' ! j = t ! j) \<and>
    wval t' + 2 ^ (64 * (k + length xs)) * unat c =
      wval t + 2 ^ (64 * k) * (wval xs * unat m + unat carry)"
  using assms
proof (induction xs arbitrary: t k carry t' c)
  case Nil
  then show ?case by simp
next
  case (Cons x xs)
  obtain v c1 where mc: "mac (t ! k) x m carry = (v, c1)" by force
  from Cons.prems mc have rec: "mul_row (t[k := v]) (Suc k) xs m c1 = (t', c)" by simp
  have "Suc k + length xs \<le> length (t[k := v])" using Cons.prems(1) by simp
  from Cons.IH [OF this rec] have IH: "length t' = length t"
    "\<forall>j. j < Suc k \<or> Suc k + length xs \<le> j \<longrightarrow> t' ! j = t[k := v] ! j"
    "wval t' + 2 ^ (64 * (Suc k + length xs)) * unat c =
       wval (t[k := v]) + 2 ^ (64 * Suc k) * (wval xs * unat m + unat c1)" by auto
  have X: "(2 :: nat) ^ (64 * Suc k) = 2 ^ (64 * k) * 2 ^ 64" by (simp add: power_add)
  have "wval t' + 2 ^ (64 * (Suc k + length xs)) * unat c =
      wval t + 2 ^ (64 * k) * ((unat x + 2 ^ 64 * wval xs) * unat m + unat carry)"
  proof (rule row_algebra)
    show "wval (t[k := v]) + 2 ^ (64 * k) * unat (t ! k) = wval t + 2 ^ (64 * k) * unat v"
      using Cons.prems(1) by (intro wval_update64) simp
    show "unat v + 2 ^ 64 * unat c1 = unat (t ! k) + unat x * unat m + unat carry"
      by (rule mac_val [OF mc])
    show "wval t' + 2 ^ (64 * (Suc k + length xs)) * unat c =
        wval (t[k := v]) + 2 ^ (64 * k) * 2 ^ 64 * (wval xs * unat m + unat c1)"
      using IH(3) unfolding X .
  qed
  with IH show ?case by (auto simp: wval_Cons64)
qed

lemma mul_loop_val:
  assumes "length a = 4" and "length t = 9" and "i + length bs = 4"
    and "\<forall>j. i + 4 < j \<and> j < 9 \<longrightarrow> t ! j = 0"
  shows "length (mul_loop t i a bs) = 9 \<and>
    wval (mul_loop t i a bs) = wval t + 2 ^ (64 * i) * (wval a * wval bs)"
  using assms(2-)
proof (induction bs arbitrary: t i)
  case Nil
  then show ?case by simp
next
  case (Cons b bs)
  obtain t1 carry where row: "mul_row t i a b 0 = (t1, carry)" by force
  obtain v c where ac: "adc (t1 ! (i + 4)) carry 0 = (v, c)" by force
  define t2 where "t2 = t1[i + 4 := v]"
  define t3 where "t3 = t2[i + 4 + 1 := c]"
  have res: "mul_loop t i a (b # bs) = mul_loop t3 (Suc i) a bs"
    using row ac by (simp add: t2_def t3_def)
  have ib: "i < 4" "Suc i + length bs = 4" using Cons.prems(2) by simp_all
  have "i + length a \<le> length t" using ib assms(1) Cons.prems(1) by simp
  from mul_row_val [OF this row] have rv: "length t1 = 9"
    "\<forall>j. j < i \<or> i + 4 \<le> j \<longrightarrow> t1 ! j = t ! j"
    "wval t1 + 2 ^ (64 * (i + 4)) * unat carry = wval t + 2 ^ (64 * i) * (wval a * unat b)"
    using assms(1) Cons.prems(1) by auto
  have l2: "length t2 = 9" "length t3 = 9" by (simp_all add: t2_def t3_def rv(1))
  have z: "t2 ! (i + 5) = 0" using rv(2) Cons.prems(3) ib by (simp add: t2_def)
  have w2: "wval t2 + 2 ^ (64 * (i + 4)) * unat (t1 ! (i + 4)) = wval t1 + 2 ^ (64 * (i + 4)) * unat v"
    unfolding t2_def using ib rv(1) by (intro wval_update64) simp
  have w3: "wval t3 = wval t2 + 2 ^ (64 * (i + 5)) * unat c"
    using wval_update64 [of "i + 4 + 1" t2 c] z ib l2 by (simp add: t3_def add.commute)
  have acv: "unat v + 2 ^ 64 * unat c = unat (t1 ! (i + 4)) + unat carry"
    using adc_val [OF ac] by simp
  have E: "(2 :: nat) ^ (64 * (i + 5)) = 2 ^ (64 * (i + 4)) * 2 ^ 64"
    unfolding power_add [symmetric] by simp
  let ?X = "2 ^ (64 * (i + 4)) :: nat"
  have "wval t3 + ?X * unat (t1 ! (i + 4)) = wval t1 + ?X * (unat v + 2 ^ 64 * unat c)"
    using w2 unfolding w3 E distrib_left [of ?X] mult.assoc by linarith
  then have "wval t3 = wval t1 + ?X * unat carry"
    unfolding acv distrib_left [of ?X] by linarith
  then have w: "wval t3 = wval t + 2 ^ (64 * i) * (wval a * unat b)" using rv(3) by simp
  have "\<forall>j. Suc i + 4 < j \<and> j < 9 \<longrightarrow> t3 ! j = 0"
    using rv(2) Cons.prems(3) by (auto simp: t2_def t3_def nth_list_update)
  from Cons.IH [OF l2(2) ib(2) this]
  have IH: "length (mul_loop t3 (Suc i) a bs) = 9"
    "wval (mul_loop t3 (Suc i) a bs) = wval t3 + 2 ^ (64 * Suc i) * (wval a * wval bs)" by auto
  have S: "(2 :: nat) ^ (64 * Suc i) = 2 ^ (64 * i) * 2 ^ 64" by (simp add: power_add)
  show ?case unfolding res using IH(1)
    by (simp only: IH(2) w S wval_Cons64) (simp add: algebra_simps)
qed

section \<open>The reduction loop\<close>

text \<open>The ripple adds its carry as a number, provided the buffer can hold the sum.\<close>

lemma ripple_val:
  assumes "length t = 9" and "k \<le> 9"
    and "wval t + 2 ^ (64 * k) * unat c < 2 ^ (64 * 9)"
  shows "length (ripple t k c) = 9 \<and> wval (ripple t k c) = wval t + 2 ^ (64 * k) * unat c"
  using assms
proof (induction t k c rule: ripple.induct)
  case (1 t k c)
  show ?case
  proof (cases "c \<noteq> 0 \<and> k \<le> 2 * 4")
    case True
    obtain v2 c2 where ac: "adc (t ! k) c 0 = (v2, c2)" by force
    define t' where "t' = t[k := v2]"
    have k: "k < 9" using True by simp
    have w: "wval t' + 2 ^ (64 * k) * unat (t ! k) = wval t + 2 ^ (64 * k) * unat v2"
      unfolding t'_def using k 1 by (intro wval_update64) simp
    have acv: "unat v2 + 2 ^ 64 * unat c2 = unat (t ! k) + unat c" using adc_val [OF ac] by simp
    have E: "(2 :: nat) ^ (64 * (k + 1)) = 2 ^ (64 * k) * 2 ^ 64" by (simp add: power_add)
    have "wval t' + 2 ^ (64 * (k + 1)) * unat c2 + 2 ^ (64 * k) * unat (t ! k) =
        wval t + 2 ^ (64 * k) * (unat v2 + 2 ^ 64 * unat c2)"
      using w unfolding E distrib_left [of "2 ^ (64 * k)"] mult.assoc by linarith
    then have step: "wval t' + 2 ^ (64 * (k + 1)) * unat c2 = wval t + 2 ^ (64 * k) * unat c"
      unfolding acv distrib_left [of "2 ^ (64 * k)"] by linarith
    have eq: "ripple t k c = ripple t' (k + 1) c2"
      using True ac by (subst ripple.simps) (simp add: t'_def)
    have l: "length t' = 9" using 1 by (simp add: t'_def)
    from "1.IH" [OF True ac [symmetric] refl, folded t'_def, OF l] k
    show ?thesis using "1.prems"(3) unfolding eq step by simp
  next
    case False
    have "c = 0"
    proof (rule ccontr)
      assume "c \<noteq> 0"
      with False 1 have "k = 9" by simp
      moreover from \<open>c \<noteq> 0\<close> have "1 \<le> unat c" by (simp add: unat_gt_0 Suc_leI)
      ultimately have "2 ^ (64 * 9) * 1 \<le> 2 ^ (64 * k) * unat c" by (intro mult_le_mono) simp_all
      with "1.prems"(3) show False by linarith
    qed
    then show ?thesis using 1 by (subst (1 2) ripple.simps) simp
  qed
qed

text \<open>The reduction buffer after \<open>i\<close> steps: divisible by \<open>2 ^ (64 i)\<close>, congruent to the
  product modulo \<open>p\<close>, and never wider than the product plus a multiple of \<open>p\<close> below
  \<open>2 ^ (64 i) p\<close>.\<close>

definition red_inv :: "nat \<Rightarrow> nat \<Rightarrow> nat \<Rightarrow> u64 list \<Rightarrow> bool" where
  "red_inv P T0 i t \<longleftrightarrow> length t = 9 \<and> 2 ^ (64 * i) dvd wval t \<and>
     (\<exists>s. wval t = T0 + s * P \<and> s < 2 ^ (64 * i))"

lemma wval_nth_mod:
  fixes t :: "u64 list"
  assumes "i < length t" and "2 ^ (64 * i) dvd wval t"
  shows "wval t div 2 ^ (64 * i) mod 2 ^ 64 = unat (t ! i)"
proof -
  have "wval t = wval (take i t) + 2 ^ (64 * i) * wval (drop i t)"
    using wval_take_drop [of t i] assms(1) by simp
  moreover have "wval (take i t) < 2 ^ (64 * i)" using wval_less64 [of "take i t"] assms(1) by simp
  ultimately have "wval t div 2 ^ (64 * i) = wval (drop i t)" by simp
  also have "drop i t = t ! i # drop (Suc i) t" using assms(1) by (simp add: Cons_nth_drop_Suc)
  finally show ?thesis using unat_u64_less [of "t ! i"] by (simp add: wval_Cons64)
qed

lemma of_nat_wval: "ws \<noteq> [] \<Longrightarrow> (of_nat (wval ws) :: u64) = ws ! 0"
proof -
  assume "ws \<noteq> []"
  then obtain w vs where "ws = w # vs" by (cases ws) auto
  moreover have "(of_nat (2 ^ 64) :: u64) = 0" by simp
  ultimately show ?thesis by (simp only: wval_Cons64 of_nat_add of_nat_mult) simp
qed

text \<open>The choice of \<open>m\<close> clears the low limb.\<close>

lemma red_clears:
  fixes x p0 pinv :: u64
  assumes "W mod 2 ^ 64 = unat x" and "of_nat P = p0" and "p0 * pinv = - 1"
  shows "2 ^ 64 dvd W + P * unat (x * pinv)"
proof -
  have "(of_nat W :: u64) = of_nat (W mod 2 ^ 64)"
    by (simp add: word_unat_eq_iff unat_of_nat)
  then have "(of_nat W :: u64) = x" unfolding assms(1) by simp
  then have "(of_nat (W + P * unat (x * pinv)) :: u64) = x + x * (p0 * pinv)"
    by (simp add: assms(2) mult_ac)
  also have "\<dots> = 0" by (simp add: assms(3))
  finally have "(of_nat (W + P * unat (x * pinv)) :: u64) = 0" .
  then have "2 ^ LENGTH(64) dvd W + P * unat (x * pinv)" unfolding word_of_nat_eq_0_iff .
  then show ?thesis unfolding len64 .
qed

lemma red_step_val:
  assumes p: "length p = 4" and pinv: "p ! 0 * pinv = - 1" and P: "P = wval p" "P < 2 ^ 255"
    and T0: "T0 < P * 2 ^ 256" and i: "i < 4" and inv: "red_inv P T0 i t"
  shows "red_inv P T0 (Suc i) (red_step p pinv i t)"
proof -
  let ?X = "2 ^ (64 * i) :: nat"
  define m where "m = t ! i * pinv"
  from inv obtain s where t: "length t = 9" "?X dvd wval t" "wval t = T0 + s * P" "s < ?X"
    by (auto simp: red_inv_def)
  obtain t1 carry where row: "red_row t i m p 0 = (t1, carry)" by force
  obtain v c where ac: "adc (t1 ! (i + 4)) carry 0 = (v, c)" by force
  define t2 where "t2 = t1[i + 4 := v]"
  have res: "red_step p pinv i t = ripple t2 (i + 4 + 1) c"
    using row ac by (simp add: red_step_def m_def [symmetric] t2_def)
  have "i + length p \<le> length t" using i p t(1) by simp
  from mul_row_val [OF this row [unfolded red_row_eq]]
  have rv: "length t1 = 9" "wval t1 + 2 ^ (64 * (i + 4)) * unat carry = wval t + ?X * (P * unat m)"
    using p t(1) P(1) by simp_all
  let ?Y = "2 ^ (64 * (i + 4)) :: nat"
  have w2: "wval t2 + ?Y * unat (t1 ! (i + 4)) = wval t1 + ?Y * unat v"
    unfolding t2_def using i rv(1) by (intro wval_update64) simp
  have acv: "unat v + 2 ^ 64 * unat c = unat (t1 ! (i + 4)) + unat carry" using adc_val [OF ac] by simp
  have E: "(2 :: nat) ^ (64 * (i + 4 + 1)) = ?Y * 2 ^ 64" by (simp add: power_add)
  have "wval t2 + 2 ^ (64 * (i + 4 + 1)) * unat c + ?Y * unat (t1 ! (i + 4)) =
      wval t1 + ?Y * (unat v + 2 ^ 64 * unat c)"
    using w2 unfolding E distrib_left [of ?Y] mult.assoc by linarith
  then have w: "wval t2 + 2 ^ (64 * (i + 4 + 1)) * unat c = wval t + ?X * (P * unat m)"
    using rv(2) unfolding acv distrib_left [of ?Y] by linarith
  define s' where "s' = s + ?X * unat m"
  have total: "wval t + ?X * (P * unat m) = T0 + s' * P"
    by (simp add: t(3) s'_def algebra_simps)
  have s': "s' < 2 ^ (64 * Suc i)"
  proof -
    have "s' < ?X * (unat m + 1)" using t(4) by (simp add: s'_def)
    also have "\<dots> \<le> ?X * 2 ^ 64" using unat_u64_less [of m] by (intro mult_le_mono2) simp
    finally show ?thesis by (simp add: power_add)
  qed
  have bound: "T0 + s' * P < 2 ^ (64 * 9)"
  proof -
    have "s' \<le> 2 ^ 256"
      using s' power_increasing [of "64 * Suc i" 256 "2 :: nat"] i by simp
    then have "s' * P \<le> 2 ^ 256 * P" by (rule mult_le_mono1)
    with T0 have "T0 + s' * P < P * 2 ^ 256 + 2 ^ 256 * P" by (rule add_less_le_mono)
    also have "\<dots> = P * 2 ^ 257" by simp
    finally have "T0 + s' * P < P * 2 ^ 257" .
    also have "P * 2 ^ 257 < 2 ^ 255 * 2 ^ 257" using P(2) by simp
    also have "\<dots> < 2 ^ (64 * 9)" by simp
    finally show ?thesis .
  qed
  have lt2: "length t2 = 9" by (simp add: t2_def rv(1))
  from ripple_val [OF lt2, of "i + 4 + 1" c] i bound
  have fin: "length (red_step p pinv i t) = 9" "wval (red_step p pinv i t) = T0 + s' * P"
    unfolding res w total by simp_all
  have "2 ^ (64 * Suc i) dvd T0 + s' * P"
  proof -
    define W where "W = wval t div ?X"
    have W: "wval t = ?X * W" using t(2) by (simp add: W_def)
    have "W mod 2 ^ 64 = unat (t ! i)"
      unfolding W_def using i t(1,2) by (intro wval_nth_mod) simp_all
    moreover have "(of_nat P :: u64) = p ! 0" unfolding P(1) using p by (intro of_nat_wval) auto
    ultimately have "2 ^ 64 dvd W + P * unat m" unfolding m_def using pinv by (intro red_clears)
    then have "?X * 2 ^ 64 dvd ?X * (W + P * unat m)" by (rule mult_dvd_mono [OF dvd_refl])
    then show ?thesis unfolding total [symmetric] W
      by (simp only: distrib_left) (simp add: power_add mult.commute)
  qed
  with fin s' show ?thesis by (auto simp: red_inv_def)
qed

lemma red_fold:
  assumes p: "length p = 4" and pinv: "p ! 0 * pinv = - 1" and P: "P = wval p" "P < 2 ^ 255"
    and T0: "T0 < P * 2 ^ 256" and inv: "red_inv P T0 0 t"
  shows "n \<le> 4 \<Longrightarrow> red_inv P T0 n (fold (red_step p pinv) [0..<n] t)"
proof (induction n)
  case 0
  with inv show ?case by simp
next
  case (Suc n)
  then have "red_inv P T0 n (fold (red_step p pinv) [0..<n] t)" by simp
  with red_step_val [OF p pinv P T0] Suc.prems show ?case by simp
qed

section \<open>The Montgomery product\<close>

text \<open>What the code requires of the modulus and the word \<open>pinv\<close> (checked by
  \<^verbatim>\<open>FieldParams::new\<close>).\<close>

definition mont_params :: "u64 list \<Rightarrow> u64 \<Rightarrow> bool" where
  "mont_params p pinv \<longleftrightarrow> length p = 4 \<and> wval p < 2 ^ 255 \<and> p ! 0 * pinv = - 1"

lemma mont_mul_val:
  assumes mp: "mont_params p pinv" and a: "length a = 4" and b: "length b = 4"
    and ab: "wval a * wval b < wval p * 2 ^ 256"
  shows "length (mont_mul a b p pinv) = 4" and "wval (mont_mul a b p pinv) < wval p"
    and "wval (mont_mul a b p pinv) * 2 ^ 256 mod wval p = wval a * wval b mod wval p"
proof -
  let ?P = "wval p" and ?T = "wval a * wval b"
  from mp have p: "length p = 4" and P: "?P < 2 ^ 255" and pinv: "p ! 0 * pinv = - 1"
    by (auto simp: mont_params_def)
  define t0 where "t0 = mul_loop (replicate (2 * 4 + 1) 0) 0 a b"
  define t where "t = fold (red_step p pinv) [0..<4] t0"
  define u where "u = take 4 (drop 4 t)"
  have "length t0 = 9 \<and> wval t0 = ?T"
    using mul_loop_val [OF a, of "replicate 9 0" 0 b] b by (simp add: t0_def)
  then have "red_inv ?P ?T 0 t0" by (simp add: red_inv_def)
  from red_fold [OF p pinv refl P ab this, of 4]
  have "red_inv ?P ?T 4 t" by (simp add: t_def)
  then obtain s where t: "length t = 9" "2 ^ 256 dvd wval t" "wval t = ?T + s * ?P" "s < 2 ^ 256"
    by (auto simp: red_inv_def)
  have d4: "wval t = wval (take 4 t) + 2 ^ 256 * wval (drop 4 t)"
    using wval_take_drop [of t 4] t(1) by simp
  have "wval (take 4 t) < 2 ^ 256" using wval_less64 [of "take 4 t"] t(1) by simp
  moreover have "2 ^ 256 dvd wval (take 4 t)" using t(2) unfolding d4 by (simp only: dvd_add_left_iff dvd_triv_left)
  ultimately have "wval (take 4 t) = 0" by (auto dest: nat_dvd_not_less)
  with d4 have Tv: "2 ^ 256 * wval (drop 4 t) = ?T + s * ?P" using t(3) by simp
  have "drop 4 t = u @ [t ! 8]"
    unfolding u_def using t(1) by (intro nth_equalityI) (auto simp: nth_append less_Suc_eq numeral_eq_Suc)
  then have dv: "wval (drop 4 t) = wval u + 2 ^ 256 * unat (t ! 8)"
    using t(1) by (simp only: wval_append wval_Cons64) (simp add: u_def)
  have lu: "length u = 4" using t(1) by (simp add: u_def)
  have "2 ^ 256 * wval (drop 4 t) < 2 ^ 256 * (2 * ?P)"
  proof -
    have "s * ?P \<le> 2 ^ 256 * ?P" using t(4) by (intro mult_le_mono1) simp
    with ab have "?T + s * ?P < ?P * 2 ^ 256 + 2 ^ 256 * ?P" by (rule add_less_le_mono)
    then have "?T + s * ?P < 2 ^ 256 * (2 * ?P)" by simp
    then show ?thesis using Tv by simp
  qed
  then have d2p: "wval (drop 4 t) < 2 * ?P" by simp
  then have "unat (t ! 8) = 0" using dv P by simp
  then have t8: "t ! 8 = 0" by (simp add: unat_eq_0)
  have uv: "wval u = wval (drop 4 t)" using dv t8 by simp
  have cmp: "cmp_limbs u p = cmp_of (wval u) ?P" by (simp add: cmp_limbs_val lu p)
  have "mont_mul a b p pinv =
      (if t ! (2 * 4) \<noteq> 0 \<or> cmp_limbs u p \<noteq> Less then fst (sub_limbs u p) else u)"
    unfolding mont_mul_def Let_def t0_def [symmetric] t_def [symmetric] u_def [symmetric] ..
  then have res: "mont_mul a b p pinv = (if ?P \<le> wval u then fst (sub_limbs u p) else u)"
    using t8 cmp by (simp add: not_le [symmetric])
  have rl: "length (mont_mul a b p pinv) = 4" and
    rv: "wval (mont_mul a b p pinv) = (if ?P \<le> wval u then wval u - ?P else wval u)"
    using sub_limbs_exact [of u p] lu p by (auto simp: res)
  show "length (mont_mul a b p pinv) = 4" by (rule rl)
  show "wval (mont_mul a b p pinv) < ?P" using rv uv d2p by (auto split: if_splits)
  have "wval (mont_mul a b p pinv) mod ?P = wval (drop 4 t) mod ?P"
    using rv uv by (simp add: le_mod_geq)
  then have "wval (mont_mul a b p pinv) * 2 ^ 256 mod ?P = wval (drop 4 t) * 2 ^ 256 mod ?P"
    by (rule mod_mult_cong) simp
  also have "wval (drop 4 t) * 2 ^ 256 = ?T + s * ?P" using Tv by (simp add: mult.commute)
  finally show "wval (mont_mul a b p pinv) * 2 ^ 256 mod ?P = ?T mod ?P" by simp
qed

section \<open>Montgomery form\<close>

text \<open>\<open>mrep p x v\<close>: the limbs \<open>x\<close> hold \<open>v R mod p\<close>.\<close>

definition mrep :: "u64 list \<Rightarrow> u64 list \<Rightarrow> nat \<Rightarrow> bool" where
  "mrep p x v \<longleftrightarrow> length x = 4 \<and> wval x < wval p \<and> wval x = v * 2 ^ 256 mod wval p"

lemma of_nat_unat_u64: "of_nat (unat w) = (w :: u64)"
  by simp

lemma even_unat: "even (unat w) \<Longrightarrow> even w" for w :: u64
proof -
  assume "even (unat w)"
  then obtain k where "unat w = 2 * k" by (elim evenE)
  then have "w = 2 * of_nat k" by (metis of_nat_mult of_nat_numeral of_nat_unat_u64)
  then show ?thesis by simp
qed

lemma mont_params_odd: "mont_params p pinv \<Longrightarrow> odd (wval p)"
proof -
  assume mp: "mont_params p pinv"
  then have "p ! 0 * pinv = - 1" and ne: "p \<noteq> []" by (auto simp: mont_params_def)
  then have "odd (p ! 0 * pinv)" by (metis even_minus odd_one)
  then have "odd (unat (p ! 0))" using even_unat [of "p ! 0"] by auto
  moreover obtain w ws where "p = w # ws" using ne by (cases p) auto
  ultimately show ?thesis by (simp add: wval_Cons64)
qed

lemma odd_cancel_pow2:
  fixes x y P :: nat
  assumes "odd P" and "x * 2 ^ n mod P = y * 2 ^ n mod P"
  shows "x mod P = y mod P"
proof -
  have "int (x * 2 ^ n mod P) = int (y * 2 ^ n mod P)" using assms(2) by simp
  then have "int x * 2 ^ n mod int P = int y * 2 ^ n mod int P"
    by (simp only: zmod_int of_nat_mult of_nat_power of_nat_numeral)
  then have "int P dvd (int x - int y) * 2 ^ n"
    by (simp only: mod_eq_dvd_iff left_diff_distrib)
  moreover have "coprime (int P) (2 ^ n)" using assms(1) by simp
  ultimately have "int P dvd int x - int y" by (simp add: coprime_dvd_mult_left_iff)
  then have "int x mod int P = int y mod int P" by (simp add: mod_eq_dvd_iff)
  then show ?thesis by (metis of_nat_eq_iff of_nat_mod)
qed

lemma mrep_mont_mul:
  assumes mp: "mont_params p pinv" and a: "mrep p a v" and b: "mrep p b w"
  shows "mrep p (mont_mul a b p pinv) (v * w)"
proof -
  let ?P = "wval p" and ?r = "mont_mul a b p pinv"
  from a b have ab: "length a = 4" "length b = 4" "wval a < ?P" "wval b < ?P"
    "wval a = v * 2 ^ 256 mod ?P" "wval b = w * 2 ^ 256 mod ?P" by (auto simp: mrep_def)
  have "?P < 2 ^ 256" using mp by (auto simp: mont_params_def)
  then have "wval a * wval b < ?P * 2 ^ 256" using ab(3,4) by (intro mult_strict_mono) auto
  note m = mont_mul_val [OF mp ab(1,2) this]
  have "wval ?r * 2 ^ 256 mod ?P = (v * 2 ^ 256) * (w * 2 ^ 256) mod ?P"
    unfolding m(3) ab(5,6) by (rule mod_mult_eq)
  also have "(v * 2 ^ 256) * (w * 2 ^ 256) = (v * w * 2 ^ 256) * 2 ^ 256" by (simp only: ac_simps)
  finally have "wval ?r mod ?P = v * w * 2 ^ 256 mod ?P"
    by (rule odd_cancel_pow2 [OF mont_params_odd [OF mp]])
  then show ?thesis using m(1,2) by (simp add: mrep_def)
qed

definition bits_val :: "bool list \<Rightarrow> nat" where
  "bits_val bs = foldl (\<lambda>n b. 2 * n + of_bool b) 0 bs"

lemma mont_pow_fold:
  assumes mp: "mont_params p pinv" and base: "mrep p base v"
    and "mrep p acc (v ^ n)" and "started = (n \<noteq> 0)"
  shows "mrep p (fst (fold (mont_pow_step base p pinv) bs (acc, started)))
           (v ^ foldl (\<lambda>n b. 2 * n + of_bool b) n bs)"
  using assms(3,4)
proof (induction bs arbitrary: acc started n)
  case Nil
  then show ?case by simp
next
  case (Cons b bs)
  define acc1 where "acc1 = (if started then mont_mul acc acc p pinv else acc)"
  have 1: "mrep p acc1 (v ^ (2 * n))"
    using mrep_mont_mul [OF mp Cons.prems(1) Cons.prems(1)] Cons.prems
    by (auto simp: acc1_def power_add mult_2)
  show ?case
  proof (cases b)
    case True
    define acc2 where "acc2 = (if started then mont_mul acc1 base p pinv else base)"
    have "mrep p acc2 (v ^ (2 * n + 1))"
      using mrep_mont_mul [OF mp 1 base] base Cons.prems(2) by (auto simp: acc2_def mult.commute)
    note IH = Cons.IH [OF this, of True]
    have "mont_pow_step base p pinv b (acc, started) = (acc2, True)"
      using True by (simp add: acc1_def acc2_def)
    with IH True show ?thesis by simp
  next
    case False
    have "mont_pow_step base p pinv b (acc, started) = (acc1, started)"
      using False by (simp add: acc1_def)
    with Cons.IH [OF 1, of started] Cons.prems(2) False show ?thesis by simp
  qed
qed

lemma exp_bits_limb_bit:
  assumes "length e = 4"
  shows "exp_bits e = map (limb_bit e) (rev [0..<256])"
proof -
  have seg: "map (\<lambda>b. drop_bit b (e ! i) AND 1 = 1) (rev [0..<64]) =
      map (limb_bit e) (rev [64 * i..<64 * i + 64])" if "i < 4" for i
  proof -
    have "[64 * i..<64 * i + 64] = map (\<lambda>j. j + 64 * i) [0..<64]"
      by (simp add: map_add_upt add.commute)
    then show ?thesis by (simp add: rev_map limb_bit_def)
  qed
  have "rev [0..<256] = concat (map (\<lambda>i. rev [64 * i..<64 * i + 64]) (rev [0..<4]))"
    by code_simp
  then have "map (limb_bit e) (rev [0..<256]) =
      concat (map (\<lambda>i. map (limb_bit e) (rev [64 * i..<64 * i + 64])) (rev [0..<4]))"
    by (simp add: map_concat o_def)
  also have "\<dots> = exp_bits e"
    unfolding exp_bits_def
    by (intro arg_cong [where f = concat] map_cong [OF refl] seg [symmetric]) simp
  finally show ?thesis by simp
qed

lemma bits_val_rev:
  "foldl (\<lambda>n b. 2 * n + of_bool b) m (map (\<lambda>i. odd (A div 2 ^ i)) (rev [0..<n])) =
     m * 2 ^ n + A mod 2 ^ n" for A m :: nat
proof (induction n arbitrary: m)
  case 0
  then show ?case by simp
next
  case (Suc n)
  have "A mod 2 ^ Suc n = 2 ^ n * (A div 2 ^ n mod 2) + A mod 2 ^ n"
    by (simp only: power_Suc2 mod_mult2_eq)
  moreover have "rev [0..<Suc n] = n # rev [0..<n]" by simp
  moreover have "(2 * m + b) * 2 ^ n + r = m * 2 ^ Suc n + (2 ^ n * b + r)" for b r :: nat
    by (simp add: algebra_simps)
  ultimately show ?case by (simp only: list.map foldl_Cons Suc.IH) (simp add: mod_2_eq_odd)
qed

lemma bits_val_exp_bits: "length e = 4 \<Longrightarrow> bits_val (exp_bits e) = wval e"
proof -
  assume e: "length e = 4"
  have "map (limb_bit e) (rev [0..<256]) = map (\<lambda>i. odd (wval e div 2 ^ i)) (rev [0..<256])"
    by (intro map_cong) (simp_all add: limb_bit_val e)
  then have "bits_val (exp_bits e) = wval e mod 2 ^ 256"
    unfolding exp_bits_limb_bit [OF e] bits_val_def by (simp only: bits_val_rev)
  then show ?thesis using wval_less64 [of e] e by simp
qed

lemma mrep_mont_pow:
  assumes "mont_params p pinv" and "mrep p base v" and "mrep p r1 1" and "length e = 4"
  shows "mrep p (mont_pow base e p pinv r1) (v ^ wval e)"
  using mont_pow_fold [OF assms(1,2), of r1 0 False "exp_bits e"] assms(3)
    bits_val_exp_bits [OF assms(4)]
  by (simp add: mont_pow_def bits_val_def)

section \<open>The Newton loop\<close>

lemma newton_pow: "(newton_step p0 ^^ k) 1 * p0 = p0 ^ (2 ^ k)"
proof (induction k)
  case (Suc k)
  have "(newton_step p0 ^^ Suc k) 1 * p0 = ((newton_step p0 ^^ k) 1 * p0) * ((newton_step p0 ^^ k) 1 * p0)"
    by (simp add: newton_step_def mult_ac)
  also have "\<dots> = p0 ^ (2 ^ k) * p0 ^ (2 ^ k)" unfolding Suc ..
  also have "\<dots> = p0 ^ (2 ^ Suc k)" by (simp only: power_add [symmetric] power_Suc mult_2)
  finally show ?case .
qed simp

lemma odd_pow_two: "odd x \<Longrightarrow> 2 ^ Suc k dvd x ^ (2 ^ k) - 1" for x :: int
proof (induction k)
  case (Suc k)
  let ?y = "x ^ (2 ^ k)"
  have "x ^ (2 ^ Suc k) - 1 = (?y - 1) * (?y + 1)"
    by (simp add: power_mult_distrib algebra_simps flip: power_add) (simp add: mult_2 power_add)
  moreover have "2 dvd ?y + 1" using Suc.prems by simp
  ultimately show ?case using Suc by (metis mult_dvd_mono power_Suc2)
qed simp

lemma odd_pow_word: "odd (unat p0) \<Longrightarrow> p0 ^ (2 ^ 63) = (1 :: u64)"
proof -
  assume "odd (unat p0)"
  then have "odd (int (unat p0))" by (simp only: even_of_nat not_False_eq_True)
  then have "2 ^ Suc 63 dvd int (unat p0) ^ (2 ^ 63) - 1" by (rule odd_pow_two)
  moreover have "(2 :: int) ^ Suc 63 = 2 ^ LENGTH(64)" by simp
  ultimately have "2 ^ LENGTH(64) dvd int (unat p0) ^ (2 ^ 63) - 1" by metis
  then have "(of_int (int (unat p0) ^ (2 ^ 63) - 1) :: u64) = 0"
    unfolding word_of_int_eq_0_iff .
  then have "(of_nat (unat p0) :: u64) ^ (2 ^ 63) - 1 = 0"
    by (simp only: of_int_diff of_int_power of_int_of_nat_eq of_int_1)
  then show ?thesis by (simp only: of_nat_unat_u64 right_minus_eq)
qed

lemma mont_inv_val:
  assumes "odd (unat p0)"
  shows "p0 * mont_inv p0 = - 1"
  by (simp only: mont_inv_def mult_minus_right mult.commute [of p0] newton_pow
      odd_pow_word [OF assms])

end
