(* ===== verification/ZkBigDiv.thy ===== *)
theory ZkBigDiv
  imports ZkBigUint ZkMont
begin

text \<open>
  Values of the multiplicative operations of \<^verbatim>\<open>BigUint\<close>: the schoolbook product, the bit
  accessors, the bit-serial long division, the one-digit division and the wrapping
  subtraction of the setup paths.
\<close>

section \<open>The product\<close>

lemma wval_update32:
  fixes t :: "u32 list"
  assumes "k < length t"
  shows "wval (t[k := v]) + 2 ^ (32 * k) * unat (t ! k) = wval t + 2 ^ (32 * k) * unat v"
  using wval_update [OF assms, of v] by simp

lemma mac32_bound:
  assumes "a < 2 ^ 32" "b < 2 ^ 32" "c < 2 ^ 32" "d < (2 ^ 32 :: nat)"
  shows "a * b + c + d < 2 ^ 64"
proof -
  have "a * b \<le> (2 ^ 32 - 1) * (2 ^ 32 - 1)" using assms(1,2) by (intro mult_le_mono) simp_all
  then show ?thesis using assms(3,4) by simp
qed

lemma mac32_val:
  fixes a b t :: u32 and carry :: u64
  assumes "unat carry < 2 ^ 32"
  defines "pr \<equiv> ucast a * ucast b + ucast t + carry :: u64"
  shows "unat (ucast (pr AND 0xffffffff) :: u32) + 2 ^ 32 * unat (drop_bit 32 pr) =
           unat t + unat a * unat b + unat carry"
    and "unat (drop_bit 32 pr) < 2 ^ 32"
proof -
  have bound: "unat a * unat b + unat t + unat carry < 2 ^ 64"
    by (rule mac32_bound) (use assms(1) unat_u32_less in auto)
  then have "unat (ucast a * ucast b :: u64) = unat a * unat b"
    by (simp add: unat_word_ariths unat_u32_u64)
  with bound have "unat pr = unat a * unat b + unat t + unat carry"
    using unat_add3_u64 [of "ucast a * ucast b" "ucast t" carry] by (simp add: unat_u32_u64 pr_def)
  then show "unat (ucast (pr AND 0xffffffff) :: u32) + 2 ^ 32 * unat (drop_bit 32 pr) =
      unat t + unat a * unat b + unat carry" using u64_low_high [of pr] by linarith
  have "unat pr < 2 ^ 32 * 2 ^ 32" using unat_u64_less [of pr] by simp
  then show "unat (drop_bit 32 pr) < 2 ^ 32"
    unfolding unat_drop64 by (rule less_mult_imp_div_less)
qed

lemma bu_mul_row_val:
  assumes "k + length bs \<le> length t" and "bu_mul_row t k ai bs carry = (t', c)" and "unat carry < 2 ^ 32"
  shows "length t' = length t \<and> unat c < 2 ^ 32 \<and>
    (\<forall>j. j < k \<or> k + length bs \<le> j \<longrightarrow> t' ! j = t ! j) \<and>
    wval t' + 2 ^ (32 * (k + length bs)) * unat c =
      wval t + 2 ^ (32 * k) * (wval bs * unat ai + unat carry)"
  using assms
proof (induction bs arbitrary: t k carry t' c)
  case Nil
  then show ?case by simp
next
  case (Cons x xs)
  define pr where "pr = (ucast ai * ucast x + ucast (t ! k) + carry :: u64)"
  define v where "v = (ucast (pr AND 0xffffffff) :: u32)"
  define c1 where "c1 = drop_bit 32 pr"
  have rec: "bu_mul_row (t[k := v]) (Suc k) ai xs c1 = (t', c)"
    using Cons.prems(2) by (simp only: bu_mul_row.simps Let_def pr_def v_def c1_def)
  have mv: "unat v + 2 ^ 32 * unat c1 = unat (t ! k) + unat ai * unat x + unat carry" "unat c1 < 2 ^ 32"
    using mac32_val [OF Cons.prems(3), of ai x "t ! k"] unfolding v_def c1_def pr_def by simp_all
  have "Suc k + length xs \<le> length (t[k := v])" using Cons.prems(1) by simp
  from Cons.IH [OF this rec mv(2)] have IH: "length t' = length t" "unat c < 2 ^ 32"
    "\<forall>j. j < Suc k \<or> Suc k + length xs \<le> j \<longrightarrow> t' ! j = t[k := v] ! j"
    "wval t' + 2 ^ (32 * (Suc k + length xs)) * unat c =
       wval (t[k := v]) + 2 ^ (32 * Suc k) * (wval xs * unat ai + unat c1)" by auto
  have X: "(2 :: nat) ^ (32 * Suc k) = 2 ^ (32 * k) * 2 ^ 32" by (simp add: power_add)
  have "wval t' + 2 ^ (32 * (Suc k + length xs)) * unat c =
      wval t + 2 ^ (32 * k) * ((unat x + 2 ^ 32 * wval xs) * unat ai + unat carry)"
  proof (rule row_algebra)
    show "wval (t[k := v]) + 2 ^ (32 * k) * unat (t ! k) = wval t + 2 ^ (32 * k) * unat v"
      using Cons.prems(1) by (intro wval_update32) simp
    show "unat v + 2 ^ 32 * unat c1 = unat (t ! k) + unat x * unat ai + unat carry"
      using mv(1) by (simp only: mult.commute)
    show "wval t' + 2 ^ (32 * (Suc k + length xs)) * unat c =
        wval (t[k := v]) + 2 ^ (32 * k) * 2 ^ 32 * (wval xs * unat ai + unat c1)"
      using IH(4) unfolding X .
  qed
  with IH show ?case by (auto simp: wval_Cons32)
qed

lemma bu_mul_loop_val:
  assumes "i + length as + length b \<le> length t" and "\<forall>j. i + length b \<le> j \<longrightarrow> j < length t \<longrightarrow> t ! j = 0"
  shows "length (bu_mul_loop t i as b) = length t \<and>
    wval (bu_mul_loop t i as b) = wval t + 2 ^ (32 * i) * (wval as * wval b)"
  using assms
proof (induction as arbitrary: t i)
  case Nil
  then show ?case by simp
next
  case (Cons a as)
  obtain t1 carry where row: "bu_mul_row t i a b 0 = (t1, carry)" by force
  have "i + length b \<le> length t" using Cons.prems(1) by simp
  from bu_mul_row_val [OF this row] have rv: "length t1 = length t" "unat carry < 2 ^ 32"
    "\<forall>j. j < i \<or> i + length b \<le> j \<longrightarrow> t1 ! j = t ! j"
    "wval t1 + 2 ^ (32 * (i + length b)) * unat carry = wval t + 2 ^ (32 * i) * (wval b * unat a)"
    by auto
  define t2 where "t2 = t1[i + length b := t1 ! (i + length b) + ucast carry]"
  have z: "t1 ! (i + length b) = 0" using rv(3) Cons.prems by simp
  have "unat (ucast carry :: u32) = unat carry" using rv(2) by (simp add: unat_u64_u32)
  then have w2: "wval t2 = wval t + 2 ^ (32 * i) * (wval b * unat a)"
    using wval_update32 [of "i + length b" t1 "ucast carry"] Cons.prems(1) rv(1,4) z
    by (simp add: t2_def)
  have "carry = 0 \<Longrightarrow> t1 = t2" using list_update_id [of t1 "i + length b"] by (simp add: t2_def)
  then have res: "bu_mul_loop t i (a # as) b = bu_mul_loop t2 (Suc i) as b"
    using row by (cases "carry = 0") (simp_all add: t2_def word_gt_0)
  have "\<forall>j. Suc i + length b \<le> j \<longrightarrow> j < length t2 \<longrightarrow> t2 ! j = 0"
    using rv(1,3) Cons.prems(2) by (auto simp: t2_def nth_list_update)
  moreover have "Suc i + length as + length b \<le> length t2" using Cons.prems(1) rv(1) by (simp add: t2_def)
  ultimately have IH: "length (bu_mul_loop t2 (Suc i) as b) = length t"
    "wval (bu_mul_loop t2 (Suc i) as b) = wval t2 + 2 ^ (32 * Suc i) * (wval as * wval b)"
    using Cons.IH [of "Suc i" t2] rv(1) by (auto simp: t2_def)
  have S: "(2 :: nat) ^ (32 * Suc i) = 2 ^ (32 * i) * 2 ^ 32" by (simp add: power_add)
  show ?case unfolding res using IH(1)
    by (simp only: IH(2) w2 S wval_Cons32) (simp add: algebra_simps)
qed

lemma bu_mul_val [simp]: "wval (bu_mul a b) = wval a * wval b"
proof (cases "wval a = 0 \<or> wval b = 0")
  case True
  then show ?thesis by (auto simp: bu_mul_def)
next
  case False
  then show ?thesis
    using bu_mul_loop_val [of 0 a b "replicate (length a + length b) 0"]
    by (simp add: bu_mul_def)
qed

lemma bu_mul_norm [simp]: "bu_norm (bu_mul a b)"
proof (cases "wval a = 0 \<or> wval b = 0")
  case True
  then show ?thesis by (auto simp: bu_mul_def)
next
  case False
  then have "a \<noteq> []" by auto
  moreover have "length (bu_mul_loop (replicate (length a + length b) 0) 0 a b) = length a + length b"
    using bu_mul_loop_val [of 0 a b "replicate (length a + length b) 0"] by simp
  ultimately have "bu_mul_loop (replicate (length a + length b) 0) 0 a b \<noteq> []" by auto
  with False show ?thesis by (simp add: bu_mul_def)
qed

section \<open>Limb shifts and bits\<close>

lemma bu_shr_limbs_val: "wval (bu_shr_limbs ds n) = wval ds div 2 ^ (32 * n)"
proof (cases "length ds \<le> n")
  case True
  then have "wval ds < 2 ^ (32 * n)"
    using wval_less32 [of ds] by (elim order.strict_trans2) (simp add: power_increasing)
  then show ?thesis using True by (simp add: bu_shr_limbs_def)
next
  case False
  have "wval ds = wval (take n ds) + 2 ^ (32 * n) * wval (drop n ds)"
    using wval_take_drop [of ds n] False by (simp add: min_def)
  moreover have "wval (take n ds) < 2 ^ (32 * n)" using wval_less32 [of "take n ds"] False by (simp add: min_def)
  ultimately show ?thesis using False by (simp add: bu_shr_limbs_def)
qed

lemma bu_low_limbs_val: "wval (bu_low_limbs ds n) = wval ds mod 2 ^ (32 * n)"
proof -
  have e: "take (min n (length ds)) ds = take n ds" by (simp add: min_def)
  have v: "wval (bu_low_limbs ds n) = wval (take n ds)"
    by (auto simp: bu_low_limbs_def e wval_Cons Let_def)
  show ?thesis
  proof (cases "length ds \<le> n")
    case True
    then have "wval ds < 2 ^ (32 * n)"
      using wval_less32 [of ds] by (elim order.strict_trans2) (simp add: power_increasing)
    then show ?thesis using True v by simp
  next
    case False
    have "wval ds = wval (take n ds) + 2 ^ (32 * n) * wval (drop n ds)"
      using wval_take_drop [of ds n] False by (simp add: min_def)
    moreover have "wval (take n ds) < 2 ^ (32 * n)" using wval_less32 [of "take n ds"] False by (simp add: min_def)
    ultimately show ?thesis using v by simp
  qed
qed

lemma drop_and_one: "drop_bit s w AND 1 = 1 \<longleftrightarrow> bit w s" for w :: "'a::len word"
  by (simp add: bit_iff_odd_drop_bit and_one_eq odd_iff_mod_2_eq_one)

lemma bu_get_bit_val [simp]: "bu_get_bit ds i \<longleftrightarrow> bit (wval ds) i"
  by (simp add: bu_get_bit_def Let_def drop_and_one bit_wval not_less)

lemma bit_wval32: "bit (wval ds) i \<longleftrightarrow> i div 32 < length ds \<and> bit (ds ! (i div 32) :: u32) (i mod 32)"
  by (simp add: bit_wval)

lemma wval_extend: "wval (ds @ replicate n 0) = wval ds"
  by (simp add: wval_append)

lemma bu_set_bit_val [simp]:
  "wval (bu_set_bit ds i v) = (if v then set_bit i (wval ds) else unset_bit i (wval ds))"
proof -
  define k where "k = i div 32"
  define s where "s = i mod 32"
  have s: "s < 32" by (simp add: s_def)
  define ds' where "ds' = ds @ replicate (Suc k - length ds) 0"
  have k: "k < length ds'" by (simp add: ds'_def)
  have ik: "j = i \<longleftrightarrow> j div 32 = k \<and> j mod 32 = s" for j
    unfolding k_def s_def by (metis div_mult_mod_eq)
  let ?d = "if v then ds' ! k OR push_bit s 1 else ds' ! k AND NOT (push_bit s 1)"
  have w: "wval ds' = wval ds" by (simp add: ds'_def wval_extend)
  have key: "wval (ds'[k := ?d]) = (if v then set_bit i (wval ds') else unset_bit i (wval ds'))"
  proof (rule bit_eqI)
    fix j
    have "j mod 32 < (32 :: nat)" by simp
    then show "bit (wval (ds'[k := ?d])) j \<longleftrightarrow>
        bit (if v then set_bit i (wval ds') else unset_bit i (wval ds')) j"
      using k s ik [of j]
      by (cases "j div 32 = k") (auto simp: bit_wval32 bit_simps)
  qed
  have "bu_set_bit ds i v = bu_trim (ds'[k := ?d])"
    by (simp only: bu_set_bit_def Let_def ds'_def k_def s_def)
  then show ?thesis using key by (simp only: wval_bu_trim w)
qed

lemma bu_set_bit_norm [simp]: "bu_norm (bu_set_bit ds i v)"
  unfolding bu_set_bit_def Let_def by (rule bu_norm_trim) simp

lemma unat_drop32: "unat (drop_bit k (x :: u32)) = unat x div 2 ^ k"
  using unat_u32_less [of x]
  by (simp only: unsigned_drop_bit_eq) (simp add: drop_bit_eq_div take_bit_nat_eq_self)

lemma shl1_digit: "unat c \<le> 1 \<Longrightarrow>
  unat (push_bit 1 d OR c :: u32) + 2 ^ 32 * unat (drop_bit 31 d) = 2 * unat d + unat c"
proof -
  assume c: "unat c \<le> 1"
  then have "c = 0 \<or> c = 1" by (cases "unat c") (auto simp: word_unat_eq_iff)
  moreover have "\<not> bit (push_bit 1 d) 0" by (simp only: bit_push_bit_iff) simp
  ultimately have "push_bit 1 d AND c = 0"
    by (auto simp: and_one_eq bit_0 mod_2_eq_odd simp del: push_bit_eq_mult)
  then have "unat (push_bit 1 d OR c) = unat (push_bit 1 d) + unat c" by (rule unat_or_disjoint)
  moreover have "unat (push_bit 1 d) = 2 * unat d mod 2 ^ 32"
    by (simp only: unsigned_push_bit_eq) (simp add: push_bit_eq_mult take_bit_eq_mod mult.commute)
  moreover have "unat (drop_bit 31 d) = 2 * unat d div 2 ^ 32"
    unfolding unat_drop32 by simp
  moreover have "2 * unat d mod 2 ^ 32 + 2 ^ 32 * (2 * unat d div 2 ^ 32) = 2 * unat d"
    by (rule mod_mult_div_eq)
  ultimately show ?thesis by simp
qed

lemma bu_shl1_go_val: "unat c \<le> 1 \<Longrightarrow> wval (bu_shl1_go ds c) = 2 * wval ds + unat c"
proof (induction ds arbitrary: c)
  case Nil
  then show ?case by (auto simp: wval_Cons word_gt_0)
next
  case (Cons d ds)
  have "unat (drop_bit 31 d) = unat d div 2 ^ 31" by (rule unat_drop32)
  also have "\<dots> \<le> 1" using unat_u32_less [of d] by simp
  finally have "wval (bu_shl1_go ds (drop_bit 31 d)) = 2 * wval ds + unat (drop_bit 31 d)" by (rule Cons.IH)
  then show ?case using shl1_digit [OF Cons.prems, of d]
    by (simp add: wval_Cons32 algebra_simps del: drop_bit_eq_div push_bit_eq_mult)
qed

lemma bu_shl1_val [simp]: "wval (bu_shl1 ds) = 2 * wval ds"
  by (simp add: bu_shl1_def bu_shl1_go_val)

lemma bu_shl1_norm [simp]: "ds \<noteq> [] \<Longrightarrow> bu_norm (bu_shl1 ds)"
  unfolding bu_shl1_def by (rule bu_norm_trim) (cases ds; simp)

lemma len32: "LENGTH(32) = 32"
  by simp

lemma takeWhile_rev_upt:
  "m = length (takeWhile P (rev [0..<n])) \<Longrightarrow>
   m \<le> n \<and> (\<forall>i. n - m \<le> i \<longrightarrow> i < n \<longrightarrow> P i) \<and> (m < n \<longrightarrow> \<not> P (n - m - 1))"
proof (induction n arbitrary: m)
  case 0
  then show ?case by simp
next
  case (Suc n)
  show ?case
  proof (cases "P n")
    case True
    with Suc.prems obtain m' where m: "m = Suc m'" "m' = length (takeWhile P (rev [0..<n]))" by simp
    from Suc.IH [OF m(2)] True show ?thesis unfolding m(1) by (auto simp: less_Suc_eq)
  qed (use Suc.prems in simp)
qed

lemma leading_zeros_val:
  fixes w :: "'a::len word"
  assumes "w \<noteq> 0"
  defines "k \<equiv> LENGTH('a) - leading_zeros w"
  shows "unat w < 2 ^ k" "2 ^ (k - 1) \<le> unat w" "0 < k" "k \<le> LENGTH('a)"
proof -
  let ?m = "leading_zeros w" and ?L = "LENGTH('a)"
  have "?m \<le> ?L \<and> (\<forall>i. ?L - ?m \<le> i \<longrightarrow> i < ?L \<longrightarrow> \<not> bit w i) \<and> (?m < ?L \<longrightarrow> \<not> \<not> bit w (?L - ?m - 1))"
    by (rule takeWhile_rev_upt) (simp only: leading_zeros_def)
  then have m: "?m \<le> ?L" "\<And>i. k \<le> i \<Longrightarrow> i < ?L \<Longrightarrow> \<not> bit w i" "?m < ?L \<Longrightarrow> bit w (k - 1)"
    unfolding k_def by blast+
  have "?m \<noteq> ?L"
  proof
    assume "?m = ?L"
    then have "w = 0" using m(2) by (intro bit_word_eqI) (simp add: k_def)
    with assms(1) show False by simp
  qed
  then have b: "bit w (k - 1)" and k: "0 < k" "k \<le> ?L" using m by (auto simp: k_def)
  have "take_bit k (unat w) = unat w"
  proof (rule bit_eqI)
    fix i
    have "i < ?L" if "bit w i" using bit_imp_le_length [OF that] by simp
    then show "bit (take_bit k (unat w)) i = bit (unat w) i"
      using m(2) [of i] by (cases "k \<le> i") (auto simp: bit_simps)
  qed
  then show "unat w < 2 ^ k" by (simp add: take_bit_nat_eq_self_iff)
  have "bit (unat w) (k - 1)" using b by (simp add: bit_unsigned_iff)
  then have "odd (unat w div 2 ^ (k - 1))" by (simp add: bit_iff_odd)
  then have "unat w div 2 ^ (k - 1) \<noteq> 0" by (metis even_zero)
  then show "2 ^ (k - 1) \<le> unat w" by (metis div_less not_le)
  show "0 < k" "k \<le> ?L" by (fact k)+
qed

lemma bu_bit_len_val:
  "ds \<noteq> [] \<Longrightarrow> wval ds < 2 ^ bu_bit_len ds \<and> (wval ds \<noteq> 0 \<longrightarrow> 2 ^ (bu_bit_len ds - 1) \<le> wval ds)"
proof (cases "wval ds = 0")
  case True
  then show ?thesis by (simp add: bu_bit_len_def)
next
  assume ne: "ds \<noteq> []"
  case False
  let ?t = "bu_trim ds"
  let ?i = "length ?t - 1"
  have t: "?t \<noteq> []" "bu_norm ?t" "wval ?t = wval ds" using ne by simp_all
  have lt: "last ?t \<noteq> 0"
  proof (cases "1 < length ?t")
    case True
    then show ?thesis using t(2) by (simp add: bu_norm_def)
  next
    case len: False
    then obtain d where "?t = [d]" using t(1) by (cases ?t) auto
    then show ?thesis using t(3) False by (auto simp: wval_Cons32)
  qed
  have idx: "ds ! ?i = last ?t"
    using bu_trim_prefix [of ds] t(1) by (metis diff_less last_conv_nth length_greater_0_conv less_numeral_extra(1) nth_take)
  let ?k = "32 - leading_zeros (last ?t)"
  note lz = leading_zeros_val [OF lt, unfolded len32]
  have bl: "bu_bit_len ds = 32 * ?i + ?k"
    unfolding bu_bit_len_def bu_effective_len_trim Let_def idx using False by simp
  have "?t = butlast ?t @ [last ?t]" using t(1) by simp
  then have v: "wval ds = wval (butlast ?t) + 2 ^ (32 * ?i) * unat (last ?t)"
    using t(3) wval_append32 [of "butlast ?t" "[last ?t]"] by (simp add: wval_Cons32)
  have low: "wval (butlast ?t) < 2 ^ (32 * ?i)" using wval_less32 [of "butlast ?t"] by simp
  have "wval ds < 0 + 2 ^ (32 * ?i) * 2 ^ ?k"
    unfolding v by (rule high_digit_less [OF low lz(1)])
  then have up: "wval ds < 2 ^ bu_bit_len ds" by (simp add: bl power_add)
  have "bu_bit_len ds - 1 = 32 * ?i + (?k - 1)" using lz(3) by (simp add: bl)
  then have "2 ^ (bu_bit_len ds - 1) = 2 ^ (32 * ?i) * (2 :: nat) ^ (?k - 1)" by (simp only: power_add)
  also have "\<dots> \<le> 2 ^ (32 * ?i) * unat (last ?t)" using lz(2) by (rule mult_le_mono2)
  also have "\<dots> \<le> wval ds" unfolding v by simp
  finally show ?thesis using up by simp
qed


section \<open>Long division\<close>

text \<open>After the bits from \<open>i\<close> up have been read, the quotient and remainder are those of
  \<open>a div 2 ^ i\<close>.\<close>

definition bu_div_inv :: "biguint \<Rightarrow> biguint \<Rightarrow> nat \<Rightarrow> biguint \<times> biguint \<Rightarrow> bool" where
  "bu_div_inv a b i qr \<longleftrightarrow> bu_norm (fst qr) \<and> bu_norm (snd qr) \<and>
     wval (fst qr) = 2 ^ i * (wval a div 2 ^ i div wval b) \<and>
     wval (snd qr) = wval a div 2 ^ i mod wval b"

lemma nat_div_bit: "n div 2 ^ i = 2 * (n div 2 ^ Suc i) + of_bool (bit n i)" for n :: nat
proof -
  have "n div 2 ^ i = 2 * (n div 2 ^ i div 2) + n div 2 ^ i mod 2" by simp
  moreover have "n div 2 ^ i div 2 = n div 2 ^ Suc i" by (simp only: power_Suc2 div_mult2_eq)
  moreover have "n div 2 ^ i mod 2 = of_bool (bit n i)" by (simp add: bit_iff_odd mod_2_eq_odd)
  ultimately show ?thesis by simp
qed

lemma bu_norm_nonempty: "bu_norm ds \<Longrightarrow> ds \<noteq> []"
  by (simp add: bu_norm_def)

lemma bu_div_inv_step:
  assumes inv: "bu_div_inv a b (Suc i) qr" and b: "b \<noteq> []" "0 < wval b"
  shows "bu_div_inv a b i (bu_div_step a b i qr)"
proof -
  obtain q r where qr: "qr = (q, r)" by force
  define A where "A = wval a div 2 ^ Suc i"
  define bt where "bt = (of_bool (bit (wval a) i) :: nat)"
  have "bt \<le> 1" by (simp add: bt_def)
  have A: "wval a div 2 ^ i = 2 * A + bt" unfolding A_def bt_def by (rule nat_div_bit)
  from inv have q: "bu_norm q" "wval q = 2 ^ Suc i * (A div wval b)"
    and r: "bu_norm r" "wval r = A mod wval b" by (simp_all add: bu_div_inv_def qr A_def)
  have rb: "wval r < wval b" using r(2) b by simp
  define r1 where "r1 = bu_shl1 r"
  define r2 where "r2 = (if bu_get_bit a i then bu_set_bit r1 0 True else r1)"
  have r1: "wval r1 = 2 * wval r" "bu_norm r1" using r by (simp_all add: r1_def bu_norm_nonempty)
  then have r2: "wval r2 = 2 * wval r + bt" "bu_norm r2"
    by (simp_all add: r2_def bt_def set_bit_eq bit_0)
  have cmp: "bu_cmp r2 b = cmp_of (wval r2) (wval b)"
    by (rule bu_cmp_val) (use b r2 bu_norm_nonempty in auto)
  have decomp: "2 * A + bt = wval b * (2 * (A div wval b)) + wval r2"
    unfolding r2(1) r(2) by (rule double_decomp) simp
  show ?thesis
  proof (cases "wval b \<le> wval r2")
    case True
    obtain s where s: "bu_sub_loop r2 b = Some s" "wval s = wval r2 - wval b" "bu_norm s"
      using bu_sub_loop_val [OF True] r2(2) bu_norm_nonempty by blast
    have lt: "wval r2 - wval b < wval b" using r2(1) rb \<open>bt \<le> 1\<close> True by linarith
    have "2 * A + bt = wval b * (2 * (A div wval b) + 1) + (wval r2 - wval b)"
      using decomp True by (simp add: algebra_simps)
    then have dm: "(2 * A + bt) div wval b = 2 * (A div wval b) + 1"
      "(2 * A + bt) mod wval b = wval r2 - wval b"
      using lt by (simp_all add: div_nat_eqI mod_nat_eqI)
    have "even (wval q div 2 ^ i)" using q(2) by simp
    then have "\<not> bit (wval q) i" by (simp add: bit_iff_odd)
    then have "wval (bu_set_bit q i True) = wval q + 2 ^ i" by (simp add: set_bit_eq)
    with dm s A q cmp True show ?thesis
      by (simp add: bu_div_inv_def bu_div_step_def qr r1_def [symmetric] r2_def [symmetric] algebra_simps
          del: bu_get_bit_val split: if_splits)
  next
    case False
    then have "(2 * A + bt) div wval b = 2 * (A div wval b)" "(2 * A + bt) mod wval b = wval r2"
      using decomp by (simp_all add: div_nat_eqI mod_nat_eqI)
    with A q r2 cmp False show ?thesis
      by (simp add: bu_div_inv_def bu_div_step_def qr r1_def [symmetric] r2_def [symmetric]
          del: bu_get_bit_val)
  qed
qed

lemma bu_div_inv_fold:
  assumes "b \<noteq> []" "0 < wval b"
  shows "bu_div_inv a b n qr \<Longrightarrow> bu_div_inv a b 0 (fold (bu_div_step a b) (rev [0..<n]) qr)"
proof (induction n arbitrary: qr)
  case 0
  then show ?case by simp
next
  case (Suc n)
  then have "bu_div_inv a b n (bu_div_step a b n qr)" using bu_div_inv_step assms by simp
  with Suc show ?case by simp
qed

lemma bu_div_mod_val:
  assumes "a \<noteq> []" "b \<noteq> []" "0 < wval b"
  obtains q r where "bu_div_mod a b = Some (q, r)" "bu_norm q" "bu_norm r"
    "wval q = wval a div wval b" "wval r = wval a mod wval b"
proof -
  have "wval a div 2 ^ bu_bit_len a = 0" using bu_bit_len_val [OF assms(1)] by simp
  then have "bu_div_inv a b (bu_bit_len a) (bu_zero, bu_zero)" using assms(3) by (simp add: bu_div_inv_def)
  from bu_div_inv_fold [OF assms(2,3) this] show ?thesis
    using assms(3) that by (simp add: bu_div_mod_def bu_div_inv_def split: prod.splits) (metis prod.collapse)
qed

section \<open>Subtraction that wraps modulo the active field\<close>

lemma bu_pad_val:
  assumes "padded \<noteq> []" "b \<noteq> []" "m \<noteq> []" "0 < wval m"
  shows "\<exists>r k. bu_pad padded b m = Some r \<and> r \<noteq> [] \<and> wval r = wval padded + k * wval m \<and> wval b \<le> wval r"
  using assms(1)
proof (induction "wval b - wval padded" arbitrary: padded rule: less_induct)
  case less
  have cmp: "bu_cmp padded b = cmp_of (wval padded) (wval b)" using less.prems assms(2) by (rule bu_cmp_val)
  show ?case
  proof (cases "wval padded < wval b")
    case True
    then have "wval b - wval (bu_add padded m) < wval b - wval padded" using assms(4) by simp
    moreover have "bu_add padded m \<noteq> []" using less.prems bu_norm_nonempty by simp
    ultimately obtain r k where "bu_pad (bu_add padded m) b m = Some r" "r \<noteq> []"
      "wval r = wval padded + wval m + k * wval m" "wval b \<le> wval r"
      using less.hyps by fastforce
    then show ?thesis using True cmp
      by (subst bu_pad.simps) (auto intro!: exI [of _ "Suc k"])
  next
    case False
    with cmp less.prems show ?thesis by (subst bu_pad.simps) (auto intro!: exI [of _ 0])
  qed
qed

lemma bu_sub_exact:
  assumes "a \<noteq> []" "b \<noteq> []" "wval b \<le> wval a"
  shows "\<exists>r. bu_sub active a b = Some r \<and> bu_norm r \<and> wval r = wval a - wval b"
  using bu_sub_loop_val [OF assms(3)] bu_cmp_val [OF assms(1,2)] assms by (auto simp: bu_sub_def)

lemma bu_sub_wraps:
  assumes "a \<noteq> []" "b \<noteq> []" "m \<noteq> []" "0 < wval m" "wval a < wval b"
  shows "\<exists>r. bu_sub (Some m) a b = Some r \<and> bu_norm r \<and>
     int (wval r) = (int (wval a) - int (wval b)) mod int (wval m)"
proof -
  obtain pd k where pd: "bu_pad a b m = Some pd" "pd \<noteq> []" "wval pd = wval a + k * wval m" "wval b \<le> wval pd"
    using bu_pad_val [OF assms(1-4)] by blast
  obtain d where d: "bu_sub_loop pd b = Some d" "wval d = wval pd - wval b" "bu_norm d"
    using bu_sub_loop_val [OF pd(4)] pd(2) by blast
  obtain q r where r: "bu_div_mod d m = Some (q, r)" "bu_norm r" "wval r = wval d mod wval m"
    using bu_div_mod_val [of d m] bu_norm_nonempty [OF d(3)] assms(3,4) by blast
  have "int (wval d) = int (wval a) - int (wval b) + int k * int (wval m)"
    using d(2) pd(3,4) by (simp add: of_nat_diff)
  then have "int (wval r) = (int (wval a) - int (wval b)) mod int (wval m)"
    by (simp add: r(3) zmod_int)
  then show ?thesis
    using pd d r assms bu_cmp_val [OF assms(1,2)] by (simp add: bu_sub_def)
qed

lemma bu_sub_panics:
  "a \<noteq> [] \<Longrightarrow> b \<noteq> [] \<Longrightarrow> wval a < wval b \<Longrightarrow> bu_sub None a b = None"
  using bu_sub_loop_underflow [of a b] by (simp add: bu_sub_def)

section \<open>Division by one digit\<close>

fun bu_div_rem_small_go :: "u32 list \<Rightarrow> u32 \<Rightarrow> u32 list \<times> u64" where
  "bu_div_rem_small_go [] d = ([], 0)"
| "bu_div_rem_small_go (a # as) d =
     (let (q, rem) = bu_div_rem_small_go as d;
          cur = push_bit 32 rem OR ucast a
      in (ucast (cur div ucast d) # q, cur mod ucast d))"

definition bu_div_rem_small :: "biguint \<Rightarrow> u32 \<Rightarrow> biguint \<times> u32" where
  "bu_div_rem_small ds d = (let (q, rem) = bu_div_rem_small_go ds d in (bu_trim q, ucast rem))"

lemma unat_or_push32:
  assumes "unat rem < 2 ^ 32"
  shows "unat (push_bit 32 rem OR ucast (a :: u32) :: u64) = 2 ^ 32 * unat rem + unat a"
proof -
  have "push_bit 32 rem AND (ucast a :: u64) = 0"
    by (rule bit_eqI) (auto simp: bit_simps dest: bit_imp_le_length)
  moreover have "unat (push_bit 32 rem) = 2 ^ 32 * unat rem"
    using assms by (simp only: unat_push64) simp
  ultimately show ?thesis by (simp only: unat_or_disjoint unat_u32_u64)
qed

lemma bu_div_rem_small_go_val:
  assumes "d \<noteq> 0" and "bu_div_rem_small_go as d = (q, rem)"
  shows "length q = length as \<and> wval q = wval as div unat d \<and> unat rem = wval as mod unat d"
  using assms(2)
proof (induction as arbitrary: q rem)
  case Nil
  then show ?case by simp
next
  case (Cons a as)
  obtain q' rem' where rec: "bu_div_rem_small_go as d = (q', rem')" by force
  define cur where "cur = push_bit 32 rem' OR (ucast a :: u64)"
  have q: "q = ucast (cur div ucast d) # q'" "rem = cur mod ucast d"
    using Cons.prems rec by (simp_all add: cur_def Let_def)
  from Cons.IH [OF rec] have IH: "length q' = length as" "wval q' = wval as div unat d"
    "unat rem' = wval as mod unat d" by auto
  have d0: "0 < unat d" using assms(1) by (simp add: unat_gt_0)
  have "unat rem' < unat d" using IH(3) d0 by simp
  then have r32: "unat rem' < 2 ^ 32" using unat_u32_less [of d] by simp
  have cur: "unat cur = 2 ^ 32 * unat rem' + unat a"
    unfolding cur_def by (rule unat_or_push32 [OF r32])
  have "unat cur < 2 ^ 32 * unat d"
  proof -
    have "2 ^ 32 * unat rem' + unat a < 2 ^ 32 * (unat rem' + 1)" using unat_u32_less [of a] by simp
    also have "\<dots> \<le> 2 ^ 32 * unat d" using \<open>unat rem' < unat d\<close> by (intro mult_le_mono2) simp
    finally show ?thesis by (simp add: cur)
  qed
  then have "unat cur div unat d < 2 ^ 32" using d0 by (simp add: less_mult_imp_div_less mult.commute)
  then have qd: "unat (ucast (cur div ucast d) :: u32) = unat cur div unat d"
    by (simp only: unat_u64_u32 unat_div unat_u32_u64) simp
  have V: "wval (a # as) = unat cur + unat d * (2 ^ 32 * (wval as div unat d))"
    unfolding wval_Cons32 cur IH(3) by (rule shift_decomp) simp
  have "wval q = unat cur div unat d + 2 ^ 32 * (wval as div unat d)"
    by (simp only: q wval_Cons32 qd IH(2))
  also have "\<dots> = wval (a # as) div unat d" unfolding V using d0 by simp
  finally show ?case using q IH(1) V by (simp add: unat_mod unat_u32_u64)
qed

lemma bu_div_rem_small_val:
  assumes "d \<noteq> 0" and "bu_div_rem_small a d = (q, rem)"
  shows "wval q = wval a div unat d" "unat rem = wval a mod unat d" "a \<noteq> [] \<Longrightarrow> bu_norm q"
proof -
  obtain q' r where r: "bu_div_rem_small_go a d = (q', r)" "q = bu_trim q'" "rem = ucast r"
    using assms(2) by (auto simp: bu_div_rem_small_def split: prod.splits)
  note v = bu_div_rem_small_go_val [OF assms(1) r(1)]
  have "0 < unat d" using assms(1) by (simp add: unat_gt_0)
  then have "unat r < 2 ^ 32"
    using v unat_u32_less [of d] by (metis mod_less_divisor order.strict_trans)
  then have "unat rem = unat r" unfolding r(3) unat_u64_u32 by simp
  with v show "wval q = wval a div unat d" "unat rem = wval a mod unat d" by (auto simp: r(2))
  show "bu_norm q" if "a \<noteq> []" using v that unfolding r(2) by (intro bu_norm_trim) auto
qed

end
