(* ===== verification/ZkBigText.thy ===== *)
theory ZkBigText
  imports ZkBigDiv
begin

text \<open>
  Conversions of \<^verbatim>\<open>BigUint\<close>: decimal and hexadecimal literals, the decimal rendering, the
  byte encoding and the 256-bit limb form. Text is a list of 8-bit characters; the
  functions look only at ASCII digits, so no other character changes their result.
\<close>

section \<open>Definitions\<close>

text \<open>\<^verbatim>\<open>from_str\<close> skips every character that is not a decimal digit.\<close>

definition bu_from_str :: "string \<Rightarrow> biguint" where
  "bu_from_str s =
     foldl (\<lambda>res c. case to_digit10 c of
         Some digit \<Rightarrow> bu_add (bu_mul res (bu_from_u64 10)) (bu_from_u64 (of_nat digit))
       | None \<Rightarrow> res) bu_zero s"

datatype hex_error = HexEmpty string | HexInvalid char string

definition strip_prefix :: "string \<Rightarrow> string \<Rightarrow> string option" where
  "strip_prefix p s = (if take (length p) s = p then Some (drop (length p) s) else None)"

definition hex_body :: "string \<Rightarrow> string" where
  "hex_body s =
     (case strip_prefix ''0x'' s of
        Some r \<Rightarrow> r
      | None \<Rightarrow> (case strip_prefix ''0X'' s of Some r \<Rightarrow> r | None \<Rightarrow> s))"

definition is_ascii_hexdigit :: "char \<Rightarrow> bool" where
  "is_ascii_hexdigit c =
     (let b = of_char c :: nat
      in 48 \<le> b \<and> b \<le> 57 \<or> 65 \<le> b \<and> b \<le> 70 \<or> 97 \<le> b \<and> b \<le> 102)"

definition hex_digit :: "char \<Rightarrow> nat" where
  "hex_digit c =
     (let b = of_char c :: nat
      in if 48 \<le> b \<and> b \<le> 57 then b - 48 else if 97 \<le> b \<and> b \<le> 102 then b - 97 + 10 else b - 65 + 10)"

definition hex_limb :: "string \<Rightarrow> u32" where
  "hex_limb s = foldl (\<lambda>limb c. push_bit 4 limb OR of_nat (hex_digit c)) 0 s"

text \<open>The literal is consumed from the right in chunks of eight digits.\<close>

function hex_limbs :: "string \<Rightarrow> u32 list" where
  "hex_limbs s =
     (if s = [] then []
      else hex_limb (drop (length s - 8) s) # hex_limbs (take (length s - 8) s))"
  by pat_completeness auto
termination
  by (relation "measure length") auto

declare hex_limbs.simps [simp del]

definition bu_from_hex_str :: "string \<Rightarrow> hex_error + biguint" where
  "bu_from_hex_str s =
     (let body = hex_body s
      in if body = [] then Inl (HexEmpty s)
         else case List.find (\<lambda>c. \<not> is_ascii_hexdigit c) body of
           Some c \<Rightarrow> Inl (HexInvalid c s)
         | None \<Rightarrow> Inr (bu_trim (hex_limbs body)))"

text \<open>The chunk loop of \<^verbatim>\<open>to_decimal_string\<close>: base \<open>10 ^ 9\<close>, least significant chunk first.\<close>

function bu_dec_chunks :: "biguint \<Rightarrow> nat list" where
  "bu_dec_chunks temp =
     (if bu_is_zero temp then []
      else (let (q, r) = bu_div_rem_small temp 1000000000 in unat r # bu_dec_chunks q))"
  by pat_completeness auto
termination
proof (relation "measure wval")
  fix temp :: biguint and x q r
  assume nz: "\<not> bu_is_zero temp" and x: "x = bu_div_rem_small temp 1000000000" "(q, r) = x"
  have "wval q = wval temp div unat (1000000000 :: u32)"
    by (rule bu_div_rem_small_val(1) [of _ temp q r]) (use x in auto)
  also have "\<dots> < wval temp" using nz by (intro div_less_dividend) simp_all
  finally show "(q, temp) \<in> measure wval" by simp
qed simp

declare bu_dec_chunks.simps [simp del]

definition bu_to_decimal_string :: "biguint \<Rightarrow> string" where
  "bu_to_decimal_string ds = (if bu_is_zero ds then ''0'' else print_chunks 9 (bu_dec_chunks ds))"

definition u32_to_le_bytes :: "u32 \<Rightarrow> u8 list" where
  "u32_to_le_bytes d = map (\<lambda>i. ucast (drop_bit (8 * i) d)) [0..<4]"

text \<open>\<^verbatim>\<open>Vec::resize\<close> truncates or pads.\<close>

definition vec_resize :: "'a list \<Rightarrow> nat \<Rightarrow> 'a \<Rightarrow> 'a list" where
  "vec_resize xs n x = take n xs @ replicate (n - length xs) x"

definition bu_to_bytes_le :: "biguint \<Rightarrow> nat \<Rightarrow> u8 list" where
  "bu_to_bytes_le ds byte_len = vec_resize (concat (map u32_to_le_bytes ds)) byte_len 0"

definition bu_to_limbs4 :: "biguint \<Rightarrow> u64 list" where
  "bu_to_limbs4 ds =
     map (\<lambda>i. ucast (digit_at ds (2 * i)) OR push_bit 32 (ucast (digit_at ds (2 * i + 1)))) [0..<4]"

definition bu_from_limbs4 :: "u64 list \<Rightarrow> biguint" where
  "bu_from_limbs4 limbs = bu_trim (concat (map (\<lambda>l. [ucast l, ucast (drop_bit 32 l)]) limbs))"

section \<open>Small values\<close>

lemma bu_from_u64_go_val: "wval (bu_from_u64_go v) = unat v"
proof (induction v rule: bu_from_u64_go.induct)
  case (1 v)
  then show ?case using u64_low_high [of v]
    by (subst bu_from_u64_go.simps) (auto simp: wval_Cons32 word_gt_0 simp del: drop_bit_eq_div)
qed

lemma bu_from_u64_val [simp]: "wval (bu_from_u64 v) = unat v"
  by (simp add: bu_from_u64_def bu_from_u64_go_val wval_Cons32)

lemma bu_from_u64_nonempty [simp]: "bu_from_u64 v \<noteq> []"
  by (simp add: bu_from_u64_def) (subst bu_from_u64_go.simps, simp add: word_gt_0)

section \<open>Decimal\<close>

lemma to_digit10_less: "to_digit10 c = Some d \<Longrightarrow> d < 10"
  by (auto simp: to_digit10_def Let_def split: if_splits)

lemma bu_from_str_val [simp]: "wval (bu_from_str s) = dec_val_from 0 s"
proof -
  have "wval (foldl (\<lambda>res c. case to_digit10 c of
         Some digit \<Rightarrow> bu_add (bu_mul res (bu_from_u64 10)) (bu_from_u64 (of_nat digit))
       | None \<Rightarrow> res) r s) = dec_val_from (wval r) s" for r
  proof (induction s arbitrary: r)
    case Nil
    then show ?case by simp
  next
    case (Cons c s)
    have "unat (of_nat d :: u64) = d" if "d < 10" for d
      using that by (simp add: unat_of_nat)
    then show ?case
      using Cons.IH by (auto simp: mult.commute dest: to_digit10_less split: option.split)
  qed
  then show ?thesis by (simp add: bu_from_str_def)
qed

lemma bu_from_str_norm [simp]: "bu_norm (bu_from_str s)"
proof -
  have "bu_norm r \<Longrightarrow> bu_norm (foldl (\<lambda>res c. case to_digit10 c of
         Some digit \<Rightarrow> bu_add (bu_mul res (bu_from_u64 10)) (bu_from_u64 (of_nat digit))
       | None \<Rightarrow> res) r s)" for r
    by (induction s arbitrary: r) (auto split: option.split)
  then show ?thesis by (simp add: bu_from_str_def)
qed

lemma bu_dec_chunks_val:
  "pos_val (10 ^ 9) (bu_dec_chunks t) = wval t \<and> (\<forall>c\<in>set (bu_dec_chunks t). c < 10 ^ 9)"
proof (induction t rule: bu_dec_chunks.induct)
  case (1 t)
  show ?case
  proof (cases "bu_is_zero t")
    case True
    then show ?thesis by (subst (1 2) bu_dec_chunks.simps) simp
  next
    case False
    obtain q r where qr: "bu_div_rem_small t 1000000000 = (q, r)" by force
    have c: "bu_dec_chunks t = unat r # bu_dec_chunks q"
      using False qr by (subst bu_dec_chunks.simps) simp
    have v: "wval q = wval t div 10 ^ 9" "unat r = wval t mod 10 ^ 9"
      using bu_div_rem_small_val(1,2) [OF _ qr] by simp_all
    have "pos_val (10 ^ 9) (bu_dec_chunks q) = wval q \<and> (\<forall>c\<in>set (bu_dec_chunks q). c < 10 ^ 9)"
      using 1 [OF False refl] qr by metis
    then show ?thesis unfolding c by (simp add: v)
  qed
qed

lemma bu_to_decimal_string_val: "dec_val_from 0 (bu_to_decimal_string ds) = wval ds"
proof (cases "bu_is_zero ds")
  case True
  then show ?thesis by (simp add: bu_to_decimal_string_def to_digit10_def)
next
  case False
  then have "bu_dec_chunks ds \<noteq> []"
    by (subst bu_dec_chunks.simps) (simp split: prod.split)
  then have "dec_val_from 0 (print_chunks 9 (bu_dec_chunks ds)) = pos_val (10 ^ 9) (bu_dec_chunks ds)"
    using bu_dec_chunks_val [of ds] by (intro dec_val_print_chunks) auto
  then show ?thesis using False bu_dec_chunks_val [of ds] by (simp add: bu_to_decimal_string_def)
qed

lemma bu_to_decimal_string_digits: "all_digits (bu_to_decimal_string ds)"
  by (simp add: bu_to_decimal_string_def print_chunks_digits) (simp add: all_digits_def to_digit10_def)

lemma bu_dec_roundtrip: "bu_norm ds \<Longrightarrow> bu_from_str (bu_to_decimal_string ds) = ds"
  by (rule bu_norm_inj) (simp_all add: bu_to_decimal_string_val)

section \<open>Hexadecimal\<close>

definition hex_val :: "string \<Rightarrow> nat" where
  "hex_val s = foldl (\<lambda>v c. 16 * v + hex_digit c) 0 s"

lemma hex_digit_less: "is_ascii_hexdigit c \<Longrightarrow> hex_digit c < 16"
  by (auto simp: is_ascii_hexdigit_def hex_digit_def Let_def)

lemma hex_fold_split:
  "foldl (\<lambda>v c. 16 * v + hex_digit c) v s = v * 16 ^ length s + hex_val s"
proof (induction s arbitrary: v)
  case Nil
  then show ?case by (simp add: hex_val_def)
next
  case (Cons c s)
  show ?case
    using Cons.IH [of "16 * v + hex_digit c"] Cons.IH [of "hex_digit c"]
    by (simp add: hex_val_def algebra_simps)
qed

lemma hex_val_append: "hex_val (s @ t) = hex_val s * 16 ^ length t + hex_val t"
  using hex_fold_split [of "hex_val s" t] by (simp add: hex_val_def)

lemma hex_val_less: "list_all is_ascii_hexdigit s \<Longrightarrow> hex_val s < 16 ^ length s"
proof (induction s rule: rev_induct)
  case Nil
  then show ?case by (simp add: hex_val_def)
next
  case (snoc c s)
  then have "hex_val s + 1 \<le> 16 ^ length s" "hex_digit c < 16" by (auto intro: hex_digit_less)
  then show ?case by (simp add: hex_val_append) (simp add: hex_val_def)
qed

lemma unat_of_nat_hex: "n < 16 \<Longrightarrow> unat (of_nat n :: u32) = n"
  by (simp add: unat_of_nat)

lemma hex_limb_step:
  assumes "unat x < 2 ^ 28" "d < 16"
  shows "unat (push_bit 4 x OR of_nat d :: u32) = 16 * unat x + d"
proof -
  have "push_bit 4 x AND (of_nat d :: u32) = 0"
  proof (rule bit_word_eqI)
    fix n assume "n < LENGTH(32)"
    have "\<not> bit d n" if "4 \<le> n"
    proof -
      have "d < 2 ^ n" using assms(2) that power_increasing [of 4 n "2 :: nat"] by simp
      then show ?thesis by (simp add: bit_iff_odd)
    qed
    then show "bit (push_bit 4 x AND (of_nat d :: u32)) n = bit (0 :: u32) n"
      by (auto simp: bit_simps simp del: push_bit_eq_mult)
  qed
  moreover have "unat (push_bit 4 x) = 16 * unat x"
    using assms(1) by (simp only: unsigned_push_bit_eq) (simp add: push_bit_eq_mult take_bit_nat_eq_self)
  ultimately show ?thesis using assms(2) by (simp only: unat_or_disjoint unat_of_nat_hex)
qed

lemma hex_limb_val:
  "list_all is_ascii_hexdigit s \<Longrightarrow> length s \<le> 8 \<Longrightarrow> unat (hex_limb s) = hex_val s"
proof (induction s rule: rev_induct)
  case Nil
  then show ?case by (simp add: hex_limb_def hex_val_def)
next
  case (snoc c s)
  then have IH: "unat (hex_limb s) = hex_val s" and d: "hex_digit c < 16" by (auto intro: hex_digit_less)
  have "hex_val s < 16 ^ length s" using snoc.prems by (intro hex_val_less) simp
  also have "\<dots> \<le> 16 ^ 7" using snoc.prems by (intro power_increasing) simp_all
  finally have "unat (hex_limb s) < 2 ^ 28" by (simp add: IH)
  from hex_limb_step [OF this d] show ?case
    by (simp add: hex_limb_def hex_val_def IH [unfolded hex_limb_def hex_val_def] del: push_bit_eq_mult)
qed

lemma hex_limbs_val: "list_all is_ascii_hexdigit s \<Longrightarrow> wval (hex_limbs s) = hex_val s"
proof (induction s rule: hex_limbs.induct)
  case (1 s)
  show ?case
  proof (cases "s = []")
    case True
    then show ?thesis by (subst hex_limbs.simps) (simp add: hex_val_def)
  next
    case False
    let ?n = "length s - 8"
    have ok: "list_all is_ascii_hexdigit (take ?n s)" "list_all is_ascii_hexdigit (drop ?n s)"
      using "1.prems" by (auto simp: list_all_iff dest: in_set_takeD in_set_dropD)
    have "wval (hex_limbs s) = hex_val (drop ?n s) + 2 ^ 32 * hex_val (take ?n s)"
      using False "1.IH" [OF False ok(1)] hex_limb_val [OF ok(2)]
      by (subst hex_limbs.simps) (simp add: wval_Cons32)
    also have "\<dots> = hex_val (take ?n s @ drop ?n s)"
      unfolding hex_val_append by (cases "8 \<le> length s") (simp_all add: hex_val_def)
    finally show ?thesis by simp
  qed
qed

lemma bu_from_hex_str_val:
  assumes "bu_from_hex_str s = Inr ds"
  shows "wval ds = hex_val (hex_body s)" "bu_norm ds"
proof -
  from assms have ne: "hex_body s \<noteq> []" and f: "List.find (\<lambda>c. \<not> is_ascii_hexdigit c) (hex_body s) = None"
    and ds: "ds = bu_trim (hex_limbs (hex_body s))"
    by (auto simp: bu_from_hex_str_def Let_def split: if_splits option.splits)
  have "list_all is_ascii_hexdigit (hex_body s)" using f by (simp add: find_None_iff list_all_iff)
  then show "wval ds = hex_val (hex_body s)" by (simp add: ds hex_limbs_val)
  have "hex_limbs (hex_body s) \<noteq> []" using ne by (subst hex_limbs.simps) simp
  then show "bu_norm ds" by (simp add: ds)
qed

lemma bu_from_hex_str_ok_iff:
  "(\<exists>ds. bu_from_hex_str s = Inr ds) \<longleftrightarrow> hex_body s \<noteq> [] \<and> list_all is_ascii_hexdigit (hex_body s)"
proof -
  have e: "list_all is_ascii_hexdigit (hex_body s) \<longleftrightarrow>
      List.find (\<lambda>c. \<not> is_ascii_hexdigit c) (hex_body s) = None"
    by (auto simp add: find_None_iff list_all_iff)
  show ?thesis unfolding bu_from_hex_str_def Let_def e by (auto split: option.split)
qed

section \<open>Bytes and 256-bit limbs\<close>

lemma unat_byte: "unat (ucast (drop_bit k d) :: u8) = unat (d :: u32) div 2 ^ k mod 2 ^ 8"
  by (simp only: unsigned_ucast_eq unat_drop32 take_bit_eq_mod) simp

lemma wval_Cons8: "wval (w # ws) = unat (w :: u8) + 2 ^ 8 * wval ws"
  by (simp add: wval_Cons)

lemma four_digits: "n < B ^ 4 \<Longrightarrow>
  n mod B + B * (n div B mod B + B * (n div B ^ 2 mod B + B * (n div B ^ 3 mod B))) = n" for n B :: nat
proof -
  assume n: "n < B ^ 4"
  have d2: "n div B ^ 2 = n div B div B" by (simp only: power2_eq_square div_mult2_eq)
  have d3: "n div B ^ 3 = n div B div B div B" by (simp only: power3_eq_cube div_mult2_eq)
  have "B ^ 4 = B * B ^ 3" by (simp add: numeral_eq_Suc)
  then have "n div B ^ 3 mod B = n div B ^ 3"
    using n by (intro mod_less less_mult_imp_div_less) simp
  then show ?thesis unfolding d3 d2 by (simp only: mod_mult_div_eq)
qed

lemma u32_le_bytes_val: "wval (u32_to_le_bytes d) = unat d"
proof -
  have "u32_to_le_bytes d = [ucast (drop_bit 0 d), ucast (drop_bit 8 d), ucast (drop_bit 16 d), ucast (drop_bit 24 d)]"
    by (simp add: u32_to_le_bytes_def upt_rec numeral_eq_Suc)
  then show ?thesis
    using four_digits [of "unat d" "2 ^ 8"] unat_u32_less [of d]
    by (simp only: wval_Cons8 unat_byte wval_Nil) simp
qed

lemma length_u32_le_bytes [simp]: "length (u32_to_le_bytes d) = 4"
  by (simp add: u32_to_le_bytes_def)

lemma concat_bytes_val: "wval (concat (map u32_to_le_bytes ds)) = wval ds"
proof (induction ds)
  case Nil
  then show ?case by simp
next
  case (Cons d ds)
  then show ?case by (simp add: wval_append u32_le_bytes_val wval_Cons32)
qed

lemma vec_resize_val: "wval (vec_resize xs n 0) = wval xs mod 2 ^ (LENGTH('a) * n)" for xs :: "'a::len word list"
proof -
  have v: "wval (vec_resize xs n 0) = wval (take n xs)" by (simp add: vec_resize_def wval_append)
  show ?thesis
  proof (cases "length xs \<le> n")
    case True
    then have "wval xs < 2 ^ (LENGTH('a) * n)"
      using wval_less [of xs] by (elim order.strict_trans2) (simp add: power_increasing)
    then show ?thesis using v True by simp
  next
    case False
    then have "wval xs = wval (take n xs) + 2 ^ (LENGTH('a) * n) * wval (drop n xs)"
      using wval_take_drop [of xs n] by (simp add: min_def)
    moreover have "wval (take n xs) < 2 ^ (LENGTH('a) * n)" using wval_less [of "take n xs"] False by (simp add: min_def)
    ultimately show ?thesis using v by simp
  qed
qed

lemma length_vec_resize [simp]: "length (vec_resize xs n x) = n"
  by (simp add: vec_resize_def)

lemma bu_to_bytes_le_val: "wval (bu_to_bytes_le ds n) = wval ds mod 2 ^ (8 * n)"
  by (simp add: bu_to_bytes_le_def vec_resize_val concat_bytes_val)

lemma length_bu_to_bytes_le [simp]: "length (bu_to_bytes_le ds n) = n"
  by (simp add: bu_to_bytes_le_def)

lemma unat_join32: "unat (ucast lo OR push_bit 32 (ucast hi) :: u64) = unat (lo :: u32) + 2 ^ 32 * unat (hi :: u32)"
  using unat_or_push32 [of "ucast hi" lo] unat_u32_less [of hi]
  by (simp add: unat_u32_u64 or.commute add.commute del: push_bit_eq_mult)

lemma join_pairs_val:
  "wval (map (\<lambda>i. ucast (digit_at ds (2 * i)) OR push_bit 32 (ucast (digit_at ds (2 * i + 1))) :: u64) [0..<n])
     = wval (digits_upto ds (2 * n))"
proof (induction n)
  case 0
  then show ?case by (simp add: digits_upto_def)
next
  case (Suc n)
  have "digits_upto ds (2 * Suc n) = digits_upto ds (2 * n) @ [digit_at ds (2 * n), digit_at ds (2 * n + 1)]"
    by (simp add: digits_upto_Suc)
  then show ?case
    using Suc unat_join32 [of "digit_at ds (2 * n)" "digit_at ds (2 * n + 1)"]
    by (simp add: wval_append wval_Cons32 wval_Cons64 del: push_bit_eq_mult)
qed

lemma bu_to_limbs4_val: "wval (bu_to_limbs4 ds) = wval ds mod 2 ^ 256"
proof -
  have "wval (bu_to_limbs4 ds) = wval (digits_upto ds 8)"
    unfolding bu_to_limbs4_def using join_pairs_val [of ds 4] by simp
  also have "digits_upto ds 8 = vec_resize ds 8 0"
    by (simp add: digits_upto_eq vec_resize_def)
  finally show ?thesis by (simp add: vec_resize_val)
qed

lemma length_bu_to_limbs4 [simp]: "length (bu_to_limbs4 ds) = 4"
  by (simp add: bu_to_limbs4_def)

lemma bu_from_limbs4_val [simp]: "wval (bu_from_limbs4 ls) = wval ls"
proof -
  have "wval (concat (map (\<lambda>l :: u64. [ucast l, ucast (drop_bit 32 l) :: u32]) ls)) = wval ls"
  proof (induction ls)
    case Nil
    then show ?case by simp
  next
    case (Cons l ls)
    have "unat (ucast (drop_bit 32 l) :: u32) = unat l div 2 ^ 32"
    proof -
      have "unat l div 2 ^ 32 < 2 ^ 32" using unat_u64_less [of l] by (intro less_mult_imp_div_less) simp
      then show ?thesis by (simp only: unat_u64_u32 unat_drop64 mod_less)
    qed
    moreover have "unat (ucast l :: u32) = unat l mod 2 ^ 32" by (rule unat_u64_u32)
    ultimately have "unat (ucast l :: u32) + 2 ^ 32 * unat (ucast (drop_bit 32 l) :: u32) = unat l"
      by (simp only: mod_mult_div_eq)
    then show ?case using Cons by (simp add: wval_Cons32 wval_Cons64 del: drop_bit_eq_div)
  qed
  then show ?thesis by (simp add: bu_from_limbs4_def)
qed

lemma bu_from_limbs4_norm [simp]: "ls \<noteq> [] \<Longrightarrow> bu_norm (bu_from_limbs4 ls)"
  unfolding bu_from_limbs4_def by (rule bu_norm_trim) (cases ls; simp)

end
