(* ===== verification/ZkField.thy ===== *)
theory ZkField
  imports ZkBigText PrimeMod
begin

text \<open>
  \<^verbatim>\<open>FieldParams\<close> and \<^verbatim>\<open>FieldContext\<close> of \<^verbatim>\<open>src/zk_field.rs\<close> (section 3): the derivation
  of the Montgomery constants with its assertions, the Miller-Rabin screen, and the
  interning registry that gives every modulus one shared context. An assertion that fails
  is an error value. The facts: accepted parameters satisfy everything the arithmetic
  needs, every odd prime below \<open>2 ^ 255\<close> is accepted, and two contexts are the same exactly
  when their moduli are.
\<close>

section \<open>Parameters and their derivation\<close>

record field_params =
  fp_p_big :: biguint
  fp_p :: "u64 list"
  fp_inv :: u64
  fp_r1 :: "u64 list"
  fp_r2 :: "u64 list"

datatype field_error = ModulusTooWide nat | ModulusEven | ModulusNotPrime string | ModulusLoops

text \<open>\<open>n - 1 = d 2 ^ s\<close>. The loop halves \<open>d\<close> while its low bit is clear; on zero it would not
  end, which is \<open>None\<close>.\<close>

partial_function (option) split_twos :: "u64 list \<Rightarrow> nat \<Rightarrow> (u64 list \<times> nat) option" where
  "split_twos d s = (if d ! 0 AND 1 = 0 then split_twos (shr1 d) (Suc s) else Some (d, s))"

declare split_twos.simps [code]

text \<open>The squaring loop of one base: \<open>True\<close> when \<open>-1\<close> is met (\<^verbatim>\<open>continue 'base\<close>).\<close>

fun mr_squares :: "field_params \<Rightarrow> u64 list \<Rightarrow> u64 list \<Rightarrow> nat \<Rightarrow> bool" where
  "mr_squares f neg1 x 0 = False"
| "mr_squares f neg1 x (Suc k) =
     (let x' = mont_mul x x (fp_p f) (fp_inv f)
      in if x' = neg1 then True else mr_squares f neg1 x' k)"

definition mr_base :: "field_params \<Rightarrow> u64 list \<Rightarrow> nat \<Rightarrow> u64 \<Rightarrow> bool" where
  "mr_base f d s a =
     (let n = fp_p f; neg1 = fst (sub_limbs n (fp_r1 f))
      in if cmp_limbs [a, 0, 0, 0] n \<noteq> Less then True
         else let a_mont = mont_mul [a, 0, 0, 0] (fp_r2 f) n (fp_inv f);
                  x = mont_pow a_mont d n (fp_inv f) (fp_r1 f)
              in if x = fp_r1 f \<or> x = neg1 then True else mr_squares f neg1 x (s - 1))"

definition mr_bases :: "u64 list" where
  "mr_bases = [2, 3, 5, 7, 11, 13, 17, 19, 23, 29, 31, 37]"

definition is_probable_prime :: "field_params \<Rightarrow> bool option" where
  "is_probable_prime f =
     (let n = fp_p f
      in if n = [2, 0, 0, 0] then Some True
         else if n ! 0 AND 1 = 0 \<or> cmp_limbs n [3, 0, 0, 0] = Less then Some False
         else map_option (\<lambda>(d, s). list_all (mr_base f d s) mr_bases)
                (split_twos (fst (sub_limbs n [1, 0, 0, 0])) 0))"

definition derive_params :: "biguint \<Rightarrow> field_params option" where
  "derive_params p_big =
     (let p = bu_to_limbs4 p_big; pinv = mont_inv (p ! 0)
      in case (bu_div_mod (replicate 8 0 @ [1]) p_big, bu_div_mod (replicate 16 0 @ [1]) p_big) of
           (Some (_, r1), Some (_, r2)) \<Rightarrow>
             Some \<lparr>fp_p_big = p_big, fp_p = p, fp_inv = pinv, fp_r1 = bu_to_limbs4 r1, fp_r2 = bu_to_limbs4 r2\<rparr>
         | _ \<Rightarrow> None)"

text \<open>\<^verbatim>\<open>FieldParams::new\<close>, its three assertions as errors. \<open>ModulusLoops\<close> stands for a
  division by zero or an endless loop; \<open>field_params_new_no_loop\<close> shows it never happens.\<close>

definition field_params_new :: "biguint \<Rightarrow> field_error + field_params" where
  "field_params_new p_big =
     (if 255 < bu_bit_len p_big then Inl (ModulusTooWide (bu_bit_len p_big))
      else if \<not> bu_get_bit p_big 0 then Inl ModulusEven
      else case derive_params p_big of
        None \<Rightarrow> Inl ModulusLoops
      | Some params \<Rightarrow>
          (case is_probable_prime params of
             None \<Rightarrow> Inl ModulusLoops
           | Some True \<Rightarrow> Inr params
           | Some False \<Rightarrow> Inl (ModulusNotPrime (bu_to_decimal_string p_big))))"

section \<open>What derived parameters satisfy\<close>

definition params_ok :: "field_params \<Rightarrow> bool" where
  "params_ok f \<longleftrightarrow> mont_params (fp_p f) (fp_inv f) \<and> 3 \<le> wval (fp_p f) \<and>
     fp_p_big f \<noteq> [] \<and> wval (fp_p_big f) = wval (fp_p f) \<and>
     mrep (fp_p f) (fp_r1 f) 1 \<and> mrep (fp_p f) (fp_r2 f) (2 ^ 256)"

lemma wval_pow_digit: "wval (replicate n 0 @ [1 :: u32]) = 2 ^ (32 * n)"
  by (simp add: wval_append32 wval_Cons32)

lemma bu_bit_len_less: "ds \<noteq> [] \<Longrightarrow> bu_bit_len ds \<le> n \<longleftrightarrow> wval ds < 2 ^ n"
proof
  assume "ds \<noteq> []" "bu_bit_len ds \<le> n"
  then show "wval ds < 2 ^ n"
    using bu_bit_len_val [of ds] by (meson order.strict_trans2 power_increasing one_le_numeral)
next
  assume ne: "ds \<noteq> []" and lt: "wval ds < 2 ^ n"
  show "bu_bit_len ds \<le> n"
  proof (cases "wval ds = 0")
    case True
    then show ?thesis by (simp add: bu_bit_len_def)
  next
    case False
    then have "2 ^ (bu_bit_len ds - 1) \<le> wval ds" using bu_bit_len_val [OF ne] by simp
    from this lt have "2 ^ (bu_bit_len ds - 1) < (2 :: nat) ^ n" by (rule order.strict_trans1)
    then have "bu_bit_len ds - 1 < n" by (rule power_less_imp_less_exp [rotated]) simp
    then show ?thesis by simp
  qed
qed

lemma pow_digit_div_mod:
  assumes "p \<noteq> []" "0 < wval p"
  shows "\<exists>q r. bu_div_mod (replicate n 0 @ [1]) p = Some (q, r) \<and> wval r = 2 ^ (32 * n) mod wval p"
  using bu_div_mod_val [OF _ assms, of "replicate n 0 @ [1]"]
  unfolding wval_pow_digit by (metis snoc_eq_iff_butlast)

lemma derive_params_ok:
  assumes ne: "p_big \<noteq> []" and lt: "wval p_big < 2 ^ 255" and odd: "odd (wval p_big)"
  obtains f where "derive_params p_big = Some f" "fp_p_big f = p_big" "length (fp_p f) = 4"
    "wval (fp_p f) = wval p_big" "mont_params (fp_p f) (fp_inv f)"
    "length (fp_r1 f) = 4" "wval (fp_r1 f) = 2 ^ 256 mod wval p_big"
    "length (fp_r2 f) = 4" "wval (fp_r2 f) = 2 ^ 512 mod wval p_big"
proof -
  let ?P = "wval p_big"
  have P0: "0 < ?P" using odd by (cases "?P") auto
  obtain q1 r1 where d1: "bu_div_mod (replicate 8 0 @ [1]) p_big = Some (q1, r1)" "wval r1 = 2 ^ 256 mod ?P"
    using pow_digit_div_mod [OF ne P0, of 8] by auto
  obtain q2 r2 where d2: "bu_div_mod (replicate 16 0 @ [1]) p_big = Some (q2, r2)" "wval r2 = 2 ^ 512 mod ?P"
    using pow_digit_div_mod [OF ne P0, of 16] by auto
  have small: "n mod ?P < 2 ^ 256" for n :: nat
    using P0 lt by (intro order.strict_trans [OF mod_less_divisor]) auto
  let ?f = "\<lparr>fp_p_big = p_big, fp_p = bu_to_limbs4 p_big, fp_inv = mont_inv (bu_to_limbs4 p_big ! 0),
    fp_r1 = bu_to_limbs4 r1, fp_r2 = bu_to_limbs4 r2\<rparr>"
  have pv: "wval (bu_to_limbs4 p_big) = ?P" using lt by (simp add: bu_to_limbs4_val)
  obtain w ws where w: "bu_to_limbs4 p_big = w # ws" by (metis length_bu_to_limbs4 list.exhaust list.size(3) zero_neq_numeral)
  have "odd (unat w)" using odd unfolding pv [symmetric] w wval_Cons64 by simp
  then have inv: "bu_to_limbs4 p_big ! 0 * mont_inv (bu_to_limbs4 p_big ! 0) = - 1"
    unfolding w by (simp add: mont_inv_val)
  show ?thesis
  proof (rule that)
    show "derive_params p_big = Some ?f" using d1 d2 by (simp add: derive_params_def Let_def)
    show "mont_params (fp_p ?f) (fp_inv ?f)" using inv lt by (simp add: mont_params_def pv)
    show "wval (fp_r1 ?f) = 2 ^ 256 mod ?P" using small [of "2 ^ 256"] by (simp add: bu_to_limbs4_val d1(2))
    show "wval (fp_r2 ?f) = 2 ^ 512 mod ?P" using small [of "2 ^ 512"] by (simp add: bu_to_limbs4_val d2(2))
  qed (simp_all add: pv)
qed

text \<open>With a modulus of at least three the constants are the Montgomery forms of \<open>1\<close> and
  \<open>R\<close>.\<close>

lemma derive_params_params_ok:
  assumes "p_big \<noteq> []" "wval p_big < 2 ^ 255" "odd (wval p_big)" "3 \<le> wval p_big"
    and "derive_params p_big = Some f"
  shows "params_ok f" "fp_p_big f = p_big" "wval (fp_p f) = wval p_big"
proof -
  obtain g where g: "derive_params p_big = Some g" "fp_p_big g = p_big" "length (fp_p g) = 4"
    "wval (fp_p g) = wval p_big" "mont_params (fp_p g) (fp_inv g)"
    "length (fp_r1 g) = 4" "wval (fp_r1 g) = 2 ^ 256 mod wval p_big"
    "length (fp_r2 g) = 4" "wval (fp_r2 g) = 2 ^ 512 mod wval p_big"
    using derive_params_ok [OF assms(1-3)] by metis
  then have f: "f = g" using assms(5) by simp
  have "(2 :: nat) ^ 512 = 2 ^ 256 * 2 ^ 256" by (simp flip: power_add)
  then show "params_ok f" unfolding f params_ok_def mrep_def using g assms(1,4) by simp
  show "fp_p_big f = p_big" "wval (fp_p f) = wval p_big" using g f by simp_all
qed

section \<open>The primality screen\<close>

lemma odd_low_limb: "length d = 4 \<Longrightarrow> d ! 0 AND 1 = 0 \<longleftrightarrow> even (wval d)" for d :: "u64 list"
proof -
  assume "length d = 4"
  then obtain w ws where d: "d = w # ws" by (cases d) auto
  have "w AND 1 = 0 \<longleftrightarrow> unat w mod 2 = 0"
    using and_one_val [of w] by (metis unat_eq_0)
  then show ?thesis unfolding d by (auto simp: wval_Cons64)
qed

lemma split_twos_val:
  assumes "length d = 4" "0 < wval d"
  shows "\<exists>d' k. split_twos d s = Some (d', s + k) \<and> length d' = 4 \<and> odd (wval d') \<and> wval d = wval d' * 2 ^ k"
  using assms
proof (induction "wval d" arbitrary: d s rule: less_induct)
  case less
  show ?case
  proof (cases "even (wval d)")
    case True
    then have v: "wval d = 2 * wval (shr1 d)" by (simp add: shr1_val)
    then have "wval (shr1 d) < wval d" "0 < wval (shr1 d)" using less.prems by simp_all
    from less.hyps [OF this(1) _ this(2), of "Suc s"] less.prems obtain d' k where
      "split_twos (shr1 d) (Suc s) = Some (d', Suc s + k)" "length d' = 4" "odd (wval d')"
      "wval (shr1 d) = wval d' * 2 ^ k" by auto
    then show ?thesis using True odd_low_limb [OF less.prems(1)] v
      by (subst split_twos.simps) (auto intro!: exI [of _ d'] exI [of _ "Suc k"])
  next
    case False
    then show ?thesis using odd_low_limb [OF less.prems(1)] less.prems
      by (subst split_twos.simps) (auto intro!: exI [of _ 0])
  qed
qed

lemma mrep_iff: "params_ok f \<Longrightarrow> mrep (fp_p f) x v \<Longrightarrow> mrep (fp_p f) y w \<Longrightarrow>
  x = y \<longleftrightarrow> v mod wval (fp_p f) = w mod wval (fp_p f)"
proof
  assume f: "params_ok f" and x: "mrep (fp_p f) x v" and y: "mrep (fp_p f) y w"
  have o: "odd (wval (fp_p f))" using f mont_params_odd by (auto simp: params_ok_def)
  show "v mod wval (fp_p f) = w mod wval (fp_p f)" if "x = y"
    using odd_cancel_pow2 [OF o, of v 256 w] x y that by (simp add: mrep_def)
  show "x = y" if "v mod wval (fp_p f) = w mod wval (fp_p f)"
  proof (rule wval_inj)
    have "v * 2 ^ 256 mod wval (fp_p f) = w * 2 ^ 256 mod wval (fp_p f)"
      using that by (metis mod_mult_left_eq)
    then show "wval x = wval y" using x y by (simp add: mrep_def)
  qed (use x y in \<open>simp add: mrep_def\<close>)
qed

lemma neg_one_mod:
  fixes P R r :: nat
  assumes "r = R mod P" "r \<noteq> 0" "0 < P"
  shows "(P - 1) * R mod P = P - r"
proof -
  have "int ((P - 1) * R mod P) = (int P - 1) * int R mod int P"
    using assms(3) by (simp add: zmod_int of_nat_diff)
  also have "(int P - 1) * int R = - int R + int R * int P" by (simp add: algebra_simps)
  also have "(- int R + int R * int P) mod int P = (- int R) mod int P" by (rule mod_mult_self1)
  also have "\<dots> = int P - int R mod int P"
    using assms(1,2) by (simp add: zmod_zminus1_eq_if flip: zmod_int)
  also have "\<dots> = int (P - r)" using assms(1,3) by (simp add: of_nat_diff flip: zmod_int)
  finally show ?thesis by (simp only: of_nat_eq_iff)
qed

lemma mrep_neg_one:
  assumes f: "params_ok f"
  shows "mrep (fp_p f) (fst (sub_limbs (fp_p f) (fp_r1 f))) (wval (fp_p f) - 1)"
proof -
  let ?P = "wval (fp_p f)"
  from f have r1: "length (fp_r1 f) = 4" "wval (fp_r1 f) < ?P" "wval (fp_r1 f) = 2 ^ 256 mod ?P"
    and p: "length (fp_p f) = 4" "3 \<le> ?P" by (auto simp: params_ok_def mrep_def mont_params_def)
  have o: "odd ?P" using f mont_params_odd by (auto simp: params_ok_def)
  have "wval (fp_r1 f) \<noteq> 0"
  proof
    assume "wval (fp_r1 f) = 0"
    then have "1 * 2 ^ 256 mod ?P = 0 * 2 ^ 256 mod ?P" using r1(3) by simp
    then have "1 mod ?P = 0 mod ?P" by (rule odd_cancel_pow2 [OF o])
    then show False using p(2) by simp
  qed
  note s = sub_limbs_exact [of "fp_p f" "fp_r1 f"]
  have "(?P - 1) * 2 ^ 256 mod ?P = ?P - wval (fp_r1 f)"
    by (rule neg_one_mod) (use r1(3) \<open>wval (fp_r1 f) \<noteq> 0\<close> p(2) in simp_all)
  then show ?thesis using s r1 p \<open>wval (fp_r1 f) \<noteq> 0\<close> by (simp add: mrep_def)
qed


lemma mrep_into:
  assumes f: "params_ok f" and x: "length x = 4"
  shows "mrep (fp_p f) (mont_mul x (fp_r2 f) (fp_p f) (fp_inv f)) (wval x)"
proof -
  let ?P = "wval (fp_p f)" and ?m = "mont_mul x (fp_r2 f) (fp_p f) (fp_inv f)"
  from f have mp: "mont_params (fp_p f) (fp_inv f)"
    and r2: "length (fp_r2 f) = 4" "wval (fp_r2 f) < ?P" "wval (fp_r2 f) = 2 ^ 256 * 2 ^ 256 mod ?P"
    by (auto simp: params_ok_def mrep_def)
  have "wval x < 2 ^ 256" using wval_less64 [of x] x by simp
  then have "wval x * wval (fp_r2 f) < 2 ^ 256 * ?P" using r2(2) by (intro mult_strict_mono) auto
  then have "wval x * wval (fp_r2 f) < ?P * 2 ^ 256" by (simp only: mult.commute)
  note m = mont_mul_val [OF mp x r2(1) this]
  have "wval ?m * 2 ^ 256 mod ?P = wval x * 2 ^ 256 * 2 ^ 256 mod ?P"
    unfolding m(3) r2(3) by (simp only: mod_mult_right_eq mult.assoc)
  then have "wval ?m mod ?P = wval x * 2 ^ 256 mod ?P"
    by (rule odd_cancel_pow2 [OF mont_params_odd [OF mp]])
  then show ?thesis using m(1,2) by (simp add: mrep_def)
qed

lemma mr_prime:
  assumes p: "is_prime p" and a: "a mod p \<noteq> 0" and d: "p - 1 = int (d * 2 ^ s)"
  shows "a ^ d mod p = 1 \<or> (\<exists>j < s. a ^ (d * 2 ^ j) mod p = p - 1)"
proof -
  have step: "a ^ (d * 2 ^ k) mod p = 1 \<Longrightarrow>
      a ^ d mod p = 1 \<or> (\<exists>j < k. a ^ (d * 2 ^ j) mod p = p - 1)" for k
  proof (induction k)
    case 0
    then show ?case by simp
  next
    case (Suc k)
    have "a ^ (d * 2 ^ k) * a ^ (d * 2 ^ k) mod p = 1"
      using Suc.prems by (simp add: mult_2 distrib_left flip: power_add)
    then have "a ^ (d * 2 ^ k) mod p = 1 \<or> a ^ (d * 2 ^ k) mod p = p - 1" by (rule sqrt_one [OF p])
    then show ?case using Suc.IH by (auto intro: less_Suc_eq [THEN iffD2])
  qed
  have "a ^ nat (p - 1) mod p = 1" by (rule fermat_little [OF p a])
  then have "a ^ (d * 2 ^ s) mod p = 1" unfolding d nat_int .
  then show ?thesis by (rule step)
qed

lemma mr_prime_nat:
  assumes p: "is_prime (int P)" and a: "int a mod int P \<noteq> 0" and d: "P - 1 = d * 2 ^ s"
  shows "a ^ d mod P = 1 \<or> (\<exists>j < s. a ^ (d * 2 ^ j) mod P = P - 1)"
proof -
  have P: "1 < P" using is_prime_gt1 [OF p] by simp
  have e: "int a ^ k mod int P = int c \<longleftrightarrow> a ^ k mod P = c" for k c
    by (metis of_nat_eq_iff of_nat_power zmod_int)
  have P1: "int P - 1 = int (P - 1)" using P by simp
  have "int a ^ d mod int P = int 1 \<or> (\<exists>j < s. int a ^ (d * 2 ^ j) mod int P = int (P - 1))"
    using mr_prime [OF p a, of d s] unfolding P1 d of_nat_1 by blast
  then show ?thesis unfolding e .
qed

lemma mr_squares_val:
  assumes f: "params_ok f" and n: "mrep (fp_p f) neg1 (wval (fp_p f) - 1)" and x: "mrep (fp_p f) x v"
  shows "mr_squares f neg1 x k \<longleftrightarrow> (\<exists>j\<in>{1..k}. v ^ (2 ^ j) mod wval (fp_p f) = wval (fp_p f) - 1)"
  using x
proof (induction k arbitrary: x v)
  case 0
  then show ?case by simp
next
  case (Suc k)
  let ?P = "wval (fp_p f)" and ?x = "mont_mul x x (fp_p f) (fp_inv f)"
  from f have mp: "mont_params (fp_p f) (fp_inv f)" and P: "3 \<le> ?P" by (auto simp: params_ok_def)
  have x': "mrep (fp_p f) ?x (v * v)" by (rule mrep_mont_mul [OF mp Suc.prems Suc.prems])
  have "?x = neg1 \<longleftrightarrow> v * v mod ?P = ?P - 1" using mrep_iff [OF f x' n] P by simp
  moreover have "v ^ (2 ^ Suc j) = (v * v) ^ (2 ^ j)" for j
    by (simp add: power_mult power2_eq_square)
  moreover have "(\<exists>j\<in>{1..Suc k}. Q j) \<longleftrightarrow> Q 1 \<or> (\<exists>j\<in>{1..k}. Q (Suc j))" for Q
  proof -
    have "{1..Suc k} = insert 1 (Suc ` {1..k})" by (auto simp: image_Suc_atLeastAtMost)
    then show ?thesis by (simp only: bex_simps)
  qed
  ultimately show ?case using Suc.IH [OF x'] by (simp only: mr_squares.simps Let_def power_one_right) (simp add: power2_eq_square)
qed

lemma mr_base_prime:
  assumes f: "params_ok f" and p: "is_prime (int (wval (fp_p f)))"
    and d: "length d = 4" "wval (fp_p f) - 1 = wval d * 2 ^ s" and a: "0 < a"
  shows "mr_base f d s a"
proof (cases "unat a < wval (fp_p f)")
  case False
  have "cmp_limbs [a, 0, 0, 0] (fp_p f) = cmp_of (unat a) (wval (fp_p f))"
    using f by (subst cmp_limbs_val) (auto simp: params_ok_def mont_params_def wval_Cons64)
  then show ?thesis using False by (simp add: mr_base_def)
next
  case lt: True
  let ?P = "wval (fp_p f)"
  define neg1 where "neg1 = fst (sub_limbs (fp_p f) (fp_r1 f))"
  define am where "am = mont_mul [a, 0, 0, 0] (fp_r2 f) (fp_p f) (fp_inv f)"
  define x where "x = mont_pow am d (fp_p f) (fp_inv f) (fp_r1 f)"
  from f have mp: "mont_params (fp_p f) (fp_inv f)" and r1: "mrep (fp_p f) (fp_r1 f) 1" and P: "3 \<le> ?P"
    by (auto simp: params_ok_def)
  have n: "mrep (fp_p f) neg1 (?P - 1)" unfolding neg1_def by (rule mrep_neg_one [OF f])
  have "mrep (fp_p f) am (unat a)"
    using mrep_into [OF f, of "[a, 0, 0, 0]"] by (simp add: am_def wval_Cons64)
  then have x: "mrep (fp_p f) x (unat a ^ wval d)"
    unfolding x_def by (rule mrep_mont_pow [OF mp _ r1 d(1)])

  have e1: "x = fp_r1 f \<longleftrightarrow> unat a ^ wval d mod ?P = 1" using mrep_iff [OF f x r1] P by simp
  have e2: "x = neg1 \<longleftrightarrow> unat a ^ wval d mod ?P = ?P - 1" using mrep_iff [OF f x n] P by simp
  have "int (unat a) mod int ?P \<noteq> 0"
    using a lt by (metis mod_less of_nat_eq_0_iff unat_eq_0 word_gt_0 zmod_int)
  moreover have "?P - 1 = wval d * 2 ^ s" by (rule d(2))
  ultimately have *: "unat a ^ wval d mod ?P = 1 \<or> (\<exists>j < s. unat a ^ (wval d * 2 ^ j) mod ?P = ?P - 1)"
    by (rule mr_prime_nat [OF p])
  have "x = fp_r1 f \<or> x = neg1 \<or> mr_squares f neg1 x (s - 1)"
  proof (rule ccontr)
    assume no: "\<not> ?thesis"
    with * e1 obtain j where j: "j < s" "unat a ^ (wval d * 2 ^ j) mod ?P = ?P - 1" by auto
    have "j \<noteq> 0" using j no e2 by (cases j) auto
    then have "j \<in> {1..s - 1}" using j(1) by auto
    moreover have "(unat a ^ wval d) ^ (2 ^ j) mod ?P = ?P - 1" using j(2) by (simp add: power_mult)
    ultimately show False using no mr_squares_val [OF f n x] by blast
  qed
  then show ?thesis
    unfolding mr_base_def Let_def neg1_def [symmetric] am_def [symmetric] x_def [symmetric] by auto
qed

lemma is_probable_prime_total:
  assumes "params_ok f" shows "\<exists>b. is_probable_prime f = Some b"
proof -
  let ?n = "fst (sub_limbs (fp_p f) [1, 0, 0, 0])"
  have "length ?n = 4" "0 < wval ?n"
    using sub_limbs_exact [of "fp_p f" "[1, 0, 0, 0]"] assms
    by (auto simp: params_ok_def mont_params_def wval_Cons64)
  from split_twos_val [OF this, of 0] show ?thesis by (auto simp: is_probable_prime_def Let_def)
qed

lemma is_probable_prime_accepts:
  assumes f: "params_ok f" and p: "is_prime (int (wval (fp_p f)))"
  shows "is_probable_prime f = Some True"
proof -
  let ?n = "fst (sub_limbs (fp_p f) [1, 0, 0, 0])" and ?P = "wval (fp_p f)"
  from f have len: "length (fp_p f) = 4" and P: "3 \<le> ?P" and o: "odd ?P"
    using mont_params_odd by (auto simp: params_ok_def mont_params_def)
  have n: "length ?n = 4" "wval ?n = ?P - 1"
    using sub_limbs_exact [of "fp_p f" "[1, 0, 0, 0]"] len P by (auto simp: wval_Cons64)
  obtain d s where d: "split_twos ?n 0 = Some (d, s)" "length d = 4" "wval ?n = wval d * 2 ^ s"
    using split_twos_val [OF n(1), of 0] P unfolding n(2) by auto
  have "list_all (mr_base f d s) mr_bases"
    unfolding list_all_iff
    by (intro ballI mr_base_prime [OF f p d(2)]) (use d(3) n(2) in \<open>auto simp: mr_bases_def\<close>)
  moreover have "fp_p f ! 0 AND 1 \<noteq> 0" using odd_low_limb [OF len] o by simp
  moreover have "cmp_limbs (fp_p f) [3, 0, 0, 0] \<noteq> Less"
    using len P by (subst cmp_limbs_val) (auto simp: wval_Cons64)
  moreover have "fp_p f \<noteq> [2, 0, 0, 0]" using P o by (auto simp: wval_Cons64)
  ultimately show ?thesis using d(1) unfolding is_probable_prime_def Let_def by simp
qed

section \<open>The constructor\<close>

lemma odd_prime_ge3: "odd n \<Longrightarrow> is_prime (int n) \<Longrightarrow> 3 \<le> n" for n :: nat
proof -
  assume "odd n" "is_prime (int n)"
  then have "n \<noteq> 0" "n \<noteq> 1" "n \<noteq> 2" by (auto simp: is_prime_def)
  then show "3 \<le> n" by linarith
qed

lemma field_params_new_accepts:
  assumes ne: "p \<noteq> []" and lt: "wval p < 2 ^ 255" and o: "odd (wval p)" and pr: "is_prime (int (wval p))"
  shows "\<exists>f. field_params_new p = Inr f \<and> params_ok f \<and> fp_p_big f = p \<and> wval (fp_p f) = wval p"
proof -
  note ge = odd_prime_ge3 [OF o pr]
  obtain f where f: "derive_params p = Some f" using derive_params_ok [OF ne lt o] by metis
  note ok = derive_params_params_ok [OF ne lt o ge f]
  have "is_probable_prime f = Some True" by (rule is_probable_prime_accepts) (use ok pr in simp_all)
  moreover have "bu_bit_len p \<le> 255" using lt by (simp only: bu_bit_len_less [OF ne])
  ultimately show ?thesis using f o ok by (auto simp: field_params_new_def bit_0)
qed

lemma field_params_new_ok:
  assumes ne: "p \<noteq> []" and new: "field_params_new p = Inr f"
  shows "params_ok f \<and> fp_p_big f = p \<and> wval (fp_p f) = wval p"
proof -
  from new have bl: "bu_bit_len p \<le> 255" and o: "odd (wval p)" and d: "derive_params p = Some f"
    and pr: "is_probable_prime f = Some True"
    by (auto simp: field_params_new_def bit_0 not_less split: if_splits option.splits bool.splits)
  have lt: "wval p < 2 ^ 255" using bl by (simp only: bu_bit_len_less [OF ne])
  obtain g where g: "derive_params p = Some g" "length (fp_p g) = 4" "wval (fp_p g) = wval p"
    using derive_params_ok [OF ne lt o] by metis
  then have len: "length (fp_p f) = 4" and v: "wval (fp_p f) = wval p" using d by auto
  have "fp_p f \<noteq> [2, 0, 0, 0]" using v o by (auto simp: wval_Cons64)
  then have "cmp_limbs (fp_p f) [3, 0, 0, 0] \<noteq> Less"
    using pr by (auto simp: is_probable_prime_def Let_def split: if_splits)
  then have "3 \<le> wval p" using len v by (subst (asm) cmp_limbs_val) (auto simp: wval_Cons64)
  from derive_params_params_ok [OF ne lt o this d] show ?thesis by simp
qed

lemma field_params_new_no_loop: "p \<noteq> [] \<Longrightarrow> field_params_new p \<noteq> Inl ModulusLoops"
proof
  assume ne: "p \<noteq> []" and new: "field_params_new p = Inl ModulusLoops"
  then have bl: "bu_bit_len p \<le> 255" and o: "odd (wval p)"
    by (auto simp: field_params_new_def bit_0 not_less split: if_splits)
  have lt: "wval p < 2 ^ 255" using bl by (simp only: bu_bit_len_less [OF ne])
  obtain f where f: "derive_params p = Some f" "length (fp_p f) = 4" "wval (fp_p f) = wval p"
    using derive_params_ok [OF ne lt o] by metis
  with new have none: "is_probable_prime f = None"
    by (auto simp: field_params_new_def split: if_splits option.splits bool.splits)
  show False
  proof (cases "3 \<le> wval p")
    case True
    then show False using derive_params_params_ok(1) [OF ne lt o True f(1)] is_probable_prime_total none by fastforce
  next
    case False
    then have "cmp_limbs (fp_p f) [3, 0, 0, 0] = Less" using f by (subst cmp_limbs_val) (auto simp: wval_Cons64)
    then show False using none by (auto simp: is_probable_prime_def Let_def split: if_splits)
  qed
qed

end
