(* ===== verification/ZkFr.thy ===== *)
theory ZkFr
  imports ZkField
begin

text \<open>
  \<^verbatim>\<open>FieldContext\<close>'s interning and the scalar-field element \<^verbatim>\<open>Fr\<close> of
  \<^verbatim>\<open>src/zk_field.rs\<close> (sections 3 and 5): four limbs in Montgomery form beside their
  context. A panic is a value of \<open>fr_panic\<close>. The operation counters are
  instrumentation and are left out. Every operation is shown to compute on the canonical
  value \<open>fr_val\<close> what its name says, modulo the context's modulus.
\<close>

section \<open>Field contexts\<close>

text \<open>The process-wide registry, keyed by the modulus limbs. The width is checked before the
  key is derived, so that an oversized modulus cannot alias an interned one.\<close>

type_synonym registry = "u64 list \<rightharpoonup> field_params"

definition field_context_new :: "registry \<Rightarrow> biguint \<Rightarrow> field_error + field_params \<times> registry" where
  "field_context_new reg p =
     (if 255 < bu_bit_len p then Inl (ModulusTooWide (bu_bit_len p))
      else let key = bu_to_limbs4 p
           in case reg key of
                Some params \<Rightarrow> Inr (params, reg)
              | None \<Rightarrow>
                  (case field_params_new p of
                     Inl e \<Rightarrow> Inl e
                   | Inr params \<Rightarrow> Inr (params, reg(key \<mapsto> params))))"

definition registry_ok :: "registry \<Rightarrow> bool" where
  "registry_ok reg \<longleftrightarrow> (\<forall>k f. reg k = Some f \<longrightarrow> params_ok f \<and> fp_p f = k)"

lemma field_params_new_limbs: "field_params_new p = Inr f \<Longrightarrow> fp_p f = bu_to_limbs4 p"
  by (auto simp: field_params_new_def derive_params_def Let_def
      split: if_splits option.splits bool.splits prod.splits)

lemma field_context_new_ok:
  assumes reg: "registry_ok reg" and ne: "p \<noteq> []" and new: "field_context_new reg p = Inr (c, reg')"
  shows "params_ok c" "wval (fp_p c) = wval p" "fp_p c = bu_to_limbs4 p" "registry_ok reg'"
    "reg' (fp_p c) = Some c" "reg \<subseteq>\<^sub>m reg'"
proof -
  from new have bl: "bu_bit_len p \<le> 255" by (auto simp: field_context_new_def split: if_splits)
  then have "wval p < 2 ^ 255" by (simp only: bu_bit_len_less [OF ne])
  then have v: "wval (bu_to_limbs4 p) = wval p" by (simp add: bu_to_limbs4_val)
  have "params_ok c \<and> wval (fp_p c) = wval p \<and> fp_p c = bu_to_limbs4 p \<and> registry_ok reg' \<and>
      reg' (fp_p c) = Some c \<and> reg \<subseteq>\<^sub>m reg'"
  proof (cases "reg (bu_to_limbs4 p)")
    case (Some f)
    then show ?thesis using new bl reg v by (auto simp: field_context_new_def registry_ok_def)
  next
    case None
    then obtain f where f: "field_params_new p = Inr f" and eq: "c = f" "reg' = reg(bu_to_limbs4 p \<mapsto> f)"
      using new bl by (auto simp: field_context_new_def split: sum.splits)
    note ok = field_params_new_ok [OF ne f] field_params_new_limbs [OF f]
    then show ?thesis using reg v None unfolding eq registry_ok_def by (auto simp: map_le_def)
  qed
  then show "params_ok c" "wval (fp_p c) = wval p" "fp_p c = bu_to_limbs4 p" "registry_ok reg'"
    "reg' (fp_p c) = Some c" "reg \<subseteq>\<^sub>m reg'" by auto
qed

section \<open>Elements\<close>

record fr =
  fr_limbs :: "u64 list"
  fr_ctx :: field_params

datatype fr_panic = MixedFields | NoInverse | DivisionByZero | Diverges

definition fr_zero :: "field_params \<Rightarrow> fr" where
  "fr_zero c = \<lparr>fr_limbs = replicate 4 0, fr_ctx = c\<rparr>"

definition fr_one :: "field_params \<Rightarrow> fr" where
  "fr_one c = \<lparr>fr_limbs = fp_r1 c, fr_ctx = c\<rparr>"

definition fr_from_limbs_reduce :: "field_params \<Rightarrow> u64 list \<Rightarrow> fr_panic + fr" where
  "fr_from_limbs_reduce c limbs =
     (case reduce_once limbs (fp_p c) of
        None \<Rightarrow> Inl Diverges
      | Some r \<Rightarrow> Inr \<lparr>fr_limbs = mont_mul r (fp_r2 c) (fp_p c) (fp_inv c), fr_ctx = c\<rparr>)"

definition fr_from_u64 :: "field_params \<Rightarrow> u64 \<Rightarrow> fr_panic + fr" where
  "fr_from_u64 c val = fr_from_limbs_reduce c [val, 0, 0, 0]"

definition fr_from_biguint :: "field_params \<Rightarrow> biguint \<Rightarrow> fr_panic + fr" where
  "fr_from_biguint c value =
     (if 8 < bu_effective_len value
      then (case bu_div_mod value (fp_p_big c) of
              None \<Rightarrow> Inl DivisionByZero
            | Some (_, r) \<Rightarrow> fr_from_limbs_reduce c (bu_to_limbs4 r))
      else fr_from_limbs_reduce c (bu_to_limbs4 value))"

definition fr_to_limbs :: "fr \<Rightarrow> u64 list" where
  "fr_to_limbs a = mont_mul (fr_limbs a) [1, 0, 0, 0] (fp_p (fr_ctx a)) (fp_inv (fr_ctx a))"

definition fr_to_biguint :: "fr \<Rightarrow> biguint" where
  "fr_to_biguint a = bu_from_limbs4 (fr_to_limbs a)"

definition fr_is_zero :: "fr \<Rightarrow> bool" where
  "fr_is_zero a = (fr_limbs a = replicate 4 0)"

definition fr_is_one :: "fr \<Rightarrow> bool" where
  "fr_is_one a = (fr_limbs a = fp_r1 (fr_ctx a))"

definition fr_get_bit :: "fr \<Rightarrow> nat \<Rightarrow> bool" where
  "fr_get_bit a i = (if 256 \<le> i then False else limb_bit (fr_to_limbs a) i)"

fun limbs_bit_len :: "u64 list \<Rightarrow> nat \<Rightarrow> nat" where
  "limbs_bit_len l 0 = 0"
| "limbs_bit_len l (Suc i) =
     (if l ! i \<noteq> 0 then i * 64 + (64 - leading_zeros (l ! i)) else limbs_bit_len l i)"

definition fr_bit_len :: "fr \<Rightarrow> nat" where
  "fr_bit_len a = limbs_bit_len (fr_to_limbs a) 4"

definition fr_to_u64 :: "fr \<Rightarrow> u64 option" where
  "fr_to_u64 a =
     (let l = fr_to_limbs a in if l ! 1 = 0 \<and> l ! 2 = 0 \<and> l ! 3 = 0 then Some (l ! 0) else None)"

definition fr_add :: "fr \<Rightarrow> fr \<Rightarrow> fr_panic + fr" where
  "fr_add a b =
     (if fr_ctx a \<noteq> fr_ctx b then Inl MixedFields
      else let p = fp_p (fr_ctx a); (sum, carry) = add_limbs (fr_limbs a) (fr_limbs b)
           in if carry \<noteq> 0 \<or> cmp_limbs sum p \<noteq> Less
              then Inr \<lparr>fr_limbs = fst (sub_limbs sum p), fr_ctx = fr_ctx a\<rparr>
              else Inr \<lparr>fr_limbs = sum, fr_ctx = fr_ctx a\<rparr>)"

definition fr_sub :: "fr \<Rightarrow> fr \<Rightarrow> fr_panic + fr" where
  "fr_sub a b =
     (if fr_ctx a \<noteq> fr_ctx b then Inl MixedFields
      else let (diff, borrow) = sub_limbs (fr_limbs a) (fr_limbs b)
           in if borrow \<noteq> 0
              then Inr \<lparr>fr_limbs = fst (add_limbs diff (fp_p (fr_ctx a))), fr_ctx = fr_ctx a\<rparr>
              else Inr \<lparr>fr_limbs = diff, fr_ctx = fr_ctx a\<rparr>)"

definition fr_neg :: "fr \<Rightarrow> fr_panic + fr" where
  "fr_neg a = fr_sub (fr_zero (fr_ctx a)) a"

definition fr_mul :: "fr \<Rightarrow> fr \<Rightarrow> fr_panic + fr" where
  "fr_mul a b =
     (if fr_ctx a \<noteq> fr_ctx b then Inl MixedFields
      else Inr \<lparr>fr_limbs = mont_mul (fr_limbs a) (fr_limbs b) (fp_p (fr_ctx a)) (fp_inv (fr_ctx a)),
                fr_ctx = fr_ctx a\<rparr>)"

definition fr_square :: "fr \<Rightarrow> fr_panic + fr" where
  "fr_square a = fr_mul a a"

definition fr_double :: "fr \<Rightarrow> fr_panic + fr" where
  "fr_double a = fr_add a a"

definition fr_pow_limbs :: "fr \<Rightarrow> u64 list \<Rightarrow> fr" where
  "fr_pow_limbs a e =
     \<lparr>fr_limbs = mont_pow (fr_limbs a) e (fp_p (fr_ctx a)) (fp_inv (fr_ctx a)) (fp_r1 (fr_ctx a)),
      fr_ctx = fr_ctx a\<rparr>"

definition fr_inv :: "fr \<Rightarrow> fr_panic + fr" where
  "fr_inv a =
     (if fr_is_zero a then Inl NoInverse
      else Inr (fr_pow_limbs a (fst (sub_limbs (fp_p (fr_ctx a)) [2, 0, 0, 0]))))"

text \<open>\<^verbatim>\<open>try_inv\<close> returns the zero case as an error instead of panicking.\<close>

definition fr_try_inv :: "fr \<Rightarrow> fr_panic + fr" where
  "fr_try_inv a = (if fr_is_zero a then Inl DivisionByZero else fr_inv a)"

definition fr_int_div_rem :: "fr \<Rightarrow> fr \<Rightarrow> fr_panic + fr \<times> fr" where
  "fr_int_div_rem x y =
     (if fr_ctx x \<noteq> fr_ctx y then Inl MixedFields
      else let a = fr_to_limbs x; b = fr_to_limbs y
           in if b = replicate 4 0 then Inl DivisionByZero
              else (let (q, r) = div_rem_u256 a b
                    in case (fr_from_limbs_reduce (fr_ctx x) q, fr_from_limbs_reduce (fr_ctx x) r) of
                         (Inr q', Inr r') \<Rightarrow> Inr (q', r')
                       | (Inl e, _) \<Rightarrow> Inl e
                       | (_, Inl e) \<Rightarrow> Inl e))"

definition u64_to_le_bytes :: "u64 \<Rightarrow> u8 list" where
  "u64_to_le_bytes l = map (\<lambda>i. ucast (drop_bit (8 * i) l)) [0..<8]"

definition fr_to_bytes_le :: "fr \<Rightarrow> nat \<Rightarrow> u8 list" where
  "fr_to_bytes_le a byte_len = vec_resize (concat (map u64_to_le_bytes (fr_to_limbs a))) byte_len 0"

definition fr_write_bytes_le :: "fr \<Rightarrow> u8 list" where
  "fr_write_bytes_le a = concat (map u64_to_le_bytes (fr_to_limbs a))"

text \<open>The chunk loop of \<^verbatim>\<open>to_decimal_string\<close>, base \<open>10 ^ 19\<close>.\<close>

function limb_dec_chunks :: "u64 list \<Rightarrow> nat list" where
  "limb_dec_chunks v =
     (if list_all (\<lambda>l. l = 0) v then []
      else (let (q, r) = div_rem_small_u256 v 10000000000000000000 in unat r # limb_dec_chunks q))"
  by pat_completeness auto
termination
proof (relation "measure wval")
  fix v :: "u64 list" and x q r
  assume nz: "\<not> list_all (\<lambda>l. l = 0) v" and x: "x = div_rem_small_u256 v 10000000000000000000" "(q, r) = x"
  have "wval v \<noteq> 0" using nz by (simp add: wval_eq_0_iff list_all_iff)
  have "wval q = wval v div unat (10000000000000000000 :: u64)"
    by (rule div_rem_small_u256_val(2) [of _ v q r]) (use x in auto)
  also have "\<dots> < wval v" using \<open>wval v \<noteq> 0\<close> by (intro div_less_dividend) simp_all
  finally show "(q, v) \<in> measure wval" by simp
qed simp

declare limb_dec_chunks.simps [simp del]

definition fr_to_decimal_string :: "fr \<Rightarrow> string" where
  "fr_to_decimal_string a =
     (let v = fr_to_limbs a
      in if v = replicate 4 0 then ''0'' else print_chunks 19 (limb_dec_chunks v))"

definition fr_cmp :: "fr \<Rightarrow> fr \<Rightarrow> ordering" where
  "fr_cmp a b =
     then_with (cmp_limbs (fp_p (fr_ctx a)) (fp_p (fr_ctx b))) (cmp_limbs (fr_to_limbs a) (fr_to_limbs b))"

section \<open>Canonical values\<close>

abbreviation fr_modulus :: "fr \<Rightarrow> int" where
  "fr_modulus a \<equiv> int (wval (fp_p (fr_ctx a)))"

definition fr_val :: "fr \<Rightarrow> int" where
  "fr_val a = int (wval (fr_to_limbs a))"

text \<open>The representation invariant, which every constructor establishes and every operation
  keeps: reduced limbs over accepted parameters.\<close>

definition fr_ok :: "fr \<Rightarrow> bool" where
  "fr_ok a \<longleftrightarrow> params_ok (fr_ctx a) \<and> length (fr_limbs a) = 4 \<and> wval (fr_limbs a) < wval (fp_p (fr_ctx a))"

lemma params_okD:
  assumes "params_ok c"
  shows "mont_params (fp_p c) (fp_inv c)" "length (fp_p c) = 4" "3 \<le> wval (fp_p c)" "wval (fp_p c) < 2 ^ 255"
    "odd (wval (fp_p c))"
  using assms mont_params_odd by (auto simp: params_ok_def mont_params_def)

lemma fr_to_limbs_props:
  assumes "fr_ok a"
  shows "length (fr_to_limbs a) = 4" "wval (fr_to_limbs a) < wval (fp_p (fr_ctx a))"
    "mrep (fp_p (fr_ctx a)) (fr_limbs a) (wval (fr_to_limbs a))"
proof -
  let ?p = "fp_p (fr_ctx a)"
  from assms have c: "params_ok (fr_ctx a)" and a: "length (fr_limbs a) = 4" "wval (fr_limbs a) < wval ?p"
    by (auto simp: fr_ok_def)
  have one: "wval [1, 0, 0, 0 :: u64] = 1" by (simp add: wval_Cons64)
  have "wval (fr_limbs a) * wval [1, 0, 0, 0 :: u64] < wval ?p * 2 ^ 256" using a(2) by (simp add: one)
  note m = mont_mul_val [OF params_okD(1) [OF c] a(1) _ this, folded fr_to_limbs_def]
  show "length (fr_to_limbs a) = 4" "wval (fr_to_limbs a) < wval ?p" using m by simp_all
  show "mrep ?p (fr_limbs a) (wval (fr_to_limbs a))" using m(3) a by (simp add: mrep_def one)
qed

lemma fr_val_range: "fr_ok a \<Longrightarrow> 0 \<le> fr_val a \<and> fr_val a < fr_modulus a"
  using fr_to_limbs_props(2) by (simp add: fr_val_def)

text \<open>Limbs that are the Montgomery form of \<open>v\<close> make an element of value \<open>v mod p\<close>.\<close>

lemma fr_of_mrep:
  assumes c: "params_ok c" and x: "mrep (fp_p c) x v"
  shows "fr_ok \<lparr>fr_limbs = x, fr_ctx = c\<rparr>" "fr_val \<lparr>fr_limbs = x, fr_ctx = c\<rparr> = int v mod int (wval (fp_p c))"
proof -
  let ?a = "\<lparr>fr_limbs = x, fr_ctx = c\<rparr>"
  show ok: "fr_ok ?a" using assms by (simp add: fr_ok_def mrep_def)
  note t = fr_to_limbs_props [OF ok]
  have "mrep (fp_p c) x (wval (fr_to_limbs ?a))" using t(3) by simp
  then have "wval (fr_to_limbs ?a) mod wval (fp_p c) = v mod wval (fp_p c)"
    using mrep_iff [OF c _ x] by blast
  then have "wval (fr_to_limbs ?a) = v mod wval (fp_p c)" using t(2) by simp
  then show "fr_val ?a = int v mod int (wval (fp_p c))" by (simp add: fr_val_def zmod_int)
qed

lemma fr_mrep: "fr_ok a \<Longrightarrow> mrep (fp_p (fr_ctx a)) (fr_limbs a) (nat (fr_val a))"
  using fr_to_limbs_props(3) by (simp add: fr_val_def)

lemma fr_eq_iff:
  assumes "fr_ok a" "fr_ok b" "fr_ctx a = fr_ctx b"
  shows "a = b \<longleftrightarrow> fr_val a = fr_val b"
proof
  assume "fr_val a = fr_val b"
  then have "fr_limbs a = fr_limbs b"
    using mrep_iff [OF _ fr_mrep [OF assms(1)], of "fr_limbs b" "nat (fr_val b)"] fr_mrep [OF assms(2)] assms
    by (simp add: fr_ok_def)
  then show "a = b" using assms(3) by simp
qed simp

lemma fr_zero_val: "params_ok c \<Longrightarrow> fr_ok (fr_zero c) \<and> fr_val (fr_zero c) = 0"
  using fr_of_mrep [of c "replicate 4 0" 0] params_okD(3) [of c]
  by (simp add: fr_zero_def mrep_def)

lemma fr_one_val: "params_ok c \<Longrightarrow> fr_ok (fr_one c) \<and> fr_val (fr_one c) = 1"
  using fr_of_mrep [of c "fp_r1 c" 1] params_okD(3) [of c]
  by (simp add: fr_one_def params_ok_def)

lemma fr_is_zero_val: "fr_ok a \<Longrightarrow> fr_is_zero a \<longleftrightarrow> fr_val a = 0"
  using fr_eq_iff [of a "fr_zero (fr_ctx a)"] fr_zero_val [of "fr_ctx a"]
  by (cases a) (auto simp: fr_ok_def fr_is_zero_def fr_zero_def)

lemma fr_is_one_val: "fr_ok a \<Longrightarrow> fr_is_one a \<longleftrightarrow> fr_val a = 1"
  using fr_eq_iff [of a "fr_one (fr_ctx a)"] fr_one_val [of "fr_ctx a"]
  by (cases a) (auto simp: fr_ok_def fr_is_one_def fr_one_def)


section \<open>Construction\<close>

lemma fr_from_limbs_reduce_val:
  assumes c: "params_ok c" and x: "length x = 4"
  shows "\<exists>a. fr_from_limbs_reduce c x = Inr a \<and> fr_ok a \<and> fr_ctx a = c \<and>
    fr_val a = int (wval x) mod int (wval (fp_p c))"
proof -
  note p = params_okD [OF c]
  have "0 < wval (fp_p c)" using p(3) by simp
  then obtain r where r: "reduce_once x (fp_p c) = Some r" "length r = 4" "wval r = wval x mod wval (fp_p c)"
    using reduce_once_val [OF p(2) _ x] by blast
  note m = fr_of_mrep [OF c mrep_into [OF c r(2)]]
  show ?thesis using m r by (simp add: fr_from_limbs_reduce_def zmod_int)
qed

lemma fr_from_u64_val:
  assumes "params_ok c"
  shows "\<exists>a. fr_from_u64 c v = Inr a \<and> fr_ok a \<and> fr_ctx a = c \<and>
    fr_val a = int (unat v) mod int (wval (fp_p c))"
  using fr_from_limbs_reduce_val [OF assms, of "[v, 0, 0, 0]"]
  by (simp add: fr_from_u64_def wval_Cons64)

lemma bu_small_limbs: "ds \<noteq> [] \<Longrightarrow> bu_effective_len ds \<le> 8 \<Longrightarrow> wval ds < 2 ^ 256"
proof -
  assume "ds \<noteq> []" "bu_effective_len ds \<le> 8"
  then have "wval (bu_trim ds) < 2 ^ (32 * length (bu_trim ds))" "length (bu_trim ds) \<le> 8"
    by (simp_all only: wval_less32 bu_effective_len_trim)
  then have "wval ds < 2 ^ (32 * length (bu_trim ds))" by simp
  also have "\<dots> \<le> 2 ^ (32 * 8)" using \<open>length (bu_trim ds) \<le> 8\<close> by (intro power_increasing) auto
  finally show ?thesis by simp
qed

lemma fr_from_biguint_val:
  assumes c: "params_ok c" and ne: "v \<noteq> []"
  shows "\<exists>a. fr_from_biguint c v = Inr a \<and> fr_ok a \<and> fr_ctx a = c \<and>
    fr_val a = int (wval v) mod int (wval (fp_p c))"
proof (cases "8 < bu_effective_len v")
  case True
  let ?P = "wval (fp_p c)"
  from c have b: "fp_p_big c \<noteq> []" "wval (fp_p_big c) = ?P" by (auto simp: params_ok_def)
  have P: "3 \<le> ?P" "?P < 2 ^ 255" using params_okD [OF c] by auto
  obtain q r where d: "bu_div_mod v (fp_p_big c) = Some (q, r)" "wval r = wval v mod ?P"
  proof -
    have "0 < wval (fp_p_big c)" using P(1) b(2) by simp
    then show ?thesis using that by (rule bu_div_mod_val [OF ne b(1)]) (simp_all add: b(2))
  qed
  have "wval r < 2 ^ 256" unfolding d(2) using P by (intro order.strict_trans [OF mod_less_divisor]) auto
  then have "wval (bu_to_limbs4 r) = wval v mod ?P" by (simp add: bu_to_limbs4_val d(2))
  then show ?thesis using fr_from_limbs_reduce_val [OF c, of "bu_to_limbs4 r"] True d(1)
    by (auto simp: fr_from_biguint_def zmod_int)
next
  case False
  then have "wval (bu_to_limbs4 v) = wval v"
    using bu_small_limbs [OF ne] by (simp add: bu_to_limbs4_val)
  then show ?thesis using fr_from_limbs_reduce_val [OF c, of "bu_to_limbs4 v"] False
    by (auto simp: fr_from_biguint_def)
qed

section \<open>Arithmetic\<close>

lemma mod_sub_P: "P \<le> n \<Longrightarrow> n < 2 * P \<Longrightarrow> n - P = n mod P" for n P :: nat
  by (simp add: le_mod_geq)

lemma fr_add_val:
  assumes a: "fr_ok a" and b: "fr_ok b" and ctx: "fr_ctx a = fr_ctx b"
  shows "\<exists>r. fr_add a b = Inr r \<and> fr_ok r \<and> fr_ctx r = fr_ctx a \<and>
    fr_val r = (fr_val a + fr_val b) mod fr_modulus a"
proof -
  let ?p = "fp_p (fr_ctx a)" and ?P = "wval (fp_p (fr_ctx a))"
  let ?A = "wval (fr_limbs a)" and ?B = "wval (fr_limbs b)"
  from a b ctx have c: "params_ok (fr_ctx a)" and l: "length (fr_limbs a) = 4" "length (fr_limbs b) = 4"
    and lt: "?A < ?P" "?B < ?P" by (auto simp: fr_ok_def)
  note p = params_okD [OF c]
  obtain s cy where s: "add_limbs (fr_limbs a) (fr_limbs b) = (s, cy)" by force
  have "length s = 4" "wval s + 2 ^ 256 * unat cy = ?A + ?B"
    using add_limbs_val [OF _ s] l by simp_all
  then have cy: "cy = 0" "wval s = ?A + ?B" "length s = 4"
    using lt p(4) by (auto simp: unat_eq_0 dest: not0_implies_Suc) (cases "unat cy"; simp add: unat_eq_0)+
  define x where "x = (if ?P \<le> wval s then fst (sub_limbs s ?p) else s)"
  have r: "fr_add a b = Inr \<lparr>fr_limbs = x, fr_ctx = fr_ctx a\<rparr>"
    using ctx s cy p(2) by (auto simp: fr_add_def x_def cmp_limbs_val cmp_of_def Let_def)
  have x: "length x = 4" "wval x = (?A + ?B) mod ?P"
    using sub_limbs_exact [of s ?p] cy(2,3) p(2) lt mod_sub_P [of ?P "?A + ?B"] by (auto simp: x_def)
  have "?A = nat (fr_val a) * 2 ^ 256 mod ?P" "?B = nat (fr_val b) * 2 ^ 256 mod ?P"
    using fr_mrep [OF a] fr_mrep [OF b] ctx by (auto simp: mrep_def)
  then have "(?A + ?B) mod ?P = (nat (fr_val a) + nat (fr_val b)) * 2 ^ 256 mod ?P"
    by (simp only: mod_add_eq distrib_right)
  then have "mrep ?p x (nat (fr_val a) + nat (fr_val b))" using x p(3) by (simp add: mrep_def)
  from fr_of_mrep [OF c this] show ?thesis
    using r fr_val_range [OF a] fr_val_range [OF b] by simp
qed

lemma fr_sub_val:
  assumes a: "fr_ok a" and b: "fr_ok b" and ctx: "fr_ctx a = fr_ctx b"
  shows "\<exists>r. fr_sub a b = Inr r \<and> fr_ok r \<and> fr_ctx r = fr_ctx a \<and>
    fr_val r = (fr_val a - fr_val b) mod fr_modulus a"
proof -
  let ?p = "fp_p (fr_ctx a)" and ?P = "wval (fp_p (fr_ctx a))"
  let ?A = "wval (fr_limbs a)" and ?B = "wval (fr_limbs b)"
  from a b ctx have c: "params_ok (fr_ctx a)" and l: "length (fr_limbs a) = 4" "length (fr_limbs b) = 4"
    and lt: "?A < ?P" "?B < ?P" by (auto simp: fr_ok_def)
  note p = params_okD [OF c]
  obtain d bw where d: "sub_limbs (fr_limbs a) (fr_limbs b) = (d, bw)" by force
  have dv: "length d = 4" "?A + 2 ^ 256 * unat bw = wval d + ?B" "unat bw \<le> 1"
    using sub_limbs_val [OF _ d] l by simp_all
  have dl: "wval d < 2 ^ 256" using wval_less64 [of d] dv(1) by simp
  define x where "x = (if bw \<noteq> 0 then fst (add_limbs d ?p) else d)"
  have r: "fr_sub a b = Inr \<lparr>fr_limbs = x, fr_ctx = fr_ctx a\<rparr>"
    using ctx d by (auto simp: fr_sub_def x_def)
  have x: "length x = 4 \<and> int (wval x) = (int ?A - int ?B) mod int ?P"
  proof (cases "bw = 0")
    case True
    then have "?A = wval d + ?B" using dv(2) by simp
    then show ?thesis using True dv(1) lt by (simp add: x_def)
  next
    case False
    then have bw: "unat bw = 1" using le_one_cases64 [OF dv(3)] by auto
    obtain s cy where s: "add_limbs d ?p = (s, cy)" by force
    have sv: "length s = 4" "wval s + 2 ^ 256 * unat cy = wval d + ?P"
      using add_limbs_val [OF _ s] dv(1) p(2) by simp_all
    have eq: "?A + 2 ^ 256 = wval d + ?B" using dv(2) bw by simp
    have "wval s < 2 ^ 256" using wval_less64 [of s] sv(1) by simp
    moreover have "2 ^ 256 \<le> wval d + ?P" using eq lt by linarith
    moreover have "wval d + ?P < 2 * 2 ^ 256" using add_strict_mono [OF dl p(4)] by simp
    ultimately
    have "unat cy = 1"
      using sv(2) by (cases "unat cy"; cases "unat cy - 1"; simp)
    then have "int (wval s) = int ?A - int ?B + int ?P" using sv(2) eq by simp
    moreover have "\<dots> = (int ?A - int ?B) mod int ?P"
      using lt eq dl by (intro int_mod_pos_eq [where q = "-1", symmetric]) auto
    ultimately show ?thesis using False s sv(1) by (simp add: x_def)
  qed
  have "?A = nat (fr_val a) * 2 ^ 256 mod ?P" "?B = nat (fr_val b) * 2 ^ 256 mod ?P"
    using fr_mrep [OF a] fr_mrep [OF b] ctx by (auto simp: mrep_def)
  then have AB: "int ?A = fr_val a * 2 ^ 256 mod int ?P" "int ?B = fr_val b * 2 ^ 256 mod int ?P"
    using fr_val_range [OF a] fr_val_range [OF b] by (simp_all add: zmod_int)
  define w where "w = (fr_val a - fr_val b) mod int ?P"
  have w: "0 \<le> w" using p(3) by (simp add: w_def)
  have "int (wval x) = w * 2 ^ 256 mod int ?P"
    using x unfolding AB w_def by (simp only: mod_diff_eq mod_mult_left_eq left_diff_distrib)
  also have "\<dots> = int (nat w * 2 ^ 256 mod ?P)"
    by (simp only: zmod_int of_nat_mult of_nat_power of_nat_numeral int_nat_eq w if_True)
  finally have "wval x = nat w * 2 ^ 256 mod ?P" by (simp only: of_nat_eq_iff)
  then have "mrep ?p x (nat w)" using x p(3) by (simp add: mrep_def)
  from fr_of_mrep [OF c this] show ?thesis using r w p(3) by (simp add: w_def)
qed

lemma fr_mul_val:
  assumes a: "fr_ok a" and b: "fr_ok b" and ctx: "fr_ctx a = fr_ctx b"
  shows "\<exists>r. fr_mul a b = Inr r \<and> fr_ok r \<and> fr_ctx r = fr_ctx a \<and>
    fr_val r = fr_val a * fr_val b mod fr_modulus a"
proof -
  have c: "params_ok (fr_ctx a)" using a by (simp add: fr_ok_def)
  have "mrep (fp_p (fr_ctx a)) (fr_limbs b) (nat (fr_val b))" using fr_mrep [OF b] ctx by simp
  note m = fr_of_mrep [OF c mrep_mont_mul [OF params_okD(1) [OF c] fr_mrep [OF a] this]]
  show ?thesis using m fr_val_range [OF a] fr_val_range [OF b] ctx
    by (simp add: fr_mul_def)
qed

lemma fr_neg_val:
  assumes a: "fr_ok a"
  shows "\<exists>r. fr_neg a = Inr r \<and> fr_ok r \<and> fr_ctx r = fr_ctx a \<and> fr_val r = (- fr_val a) mod fr_modulus a"
proof -
  have "params_ok (fr_ctx a)" using a by (simp add: fr_ok_def)
  then have "fr_ok (fr_zero (fr_ctx a))" "fr_val (fr_zero (fr_ctx a)) = 0" by (simp_all add: fr_zero_val)
  moreover have "fr_ctx (fr_zero (fr_ctx a)) = fr_ctx a" by (simp add: fr_zero_def)
  ultimately show ?thesis using fr_sub_val [of "fr_zero (fr_ctx a)" a] a by (auto simp: fr_neg_def)
qed

lemma fr_pow_limbs_val:
  assumes a: "fr_ok a" and e: "length e = 4"
  shows "fr_ok (fr_pow_limbs a e) \<and> fr_ctx (fr_pow_limbs a e) = fr_ctx a \<and>
    fr_val (fr_pow_limbs a e) = fr_val a ^ wval e mod fr_modulus a"
proof -
  have c: "params_ok (fr_ctx a)" using a by (simp add: fr_ok_def)
  then have "mrep (fp_p (fr_ctx a)) (fp_r1 (fr_ctx a)) 1" by (simp add: params_ok_def)
  note m = fr_of_mrep [OF c mrep_mont_pow [OF params_okD(1) [OF c] fr_mrep [OF a] this e]]
  show ?thesis using m fr_val_range [OF a] by (simp add: fr_pow_limbs_def)
qed

lemma fr_inv_val:
  assumes a: "fr_ok a" and p: "is_prime (fr_modulus a)" and nz: "fr_val a \<noteq> 0"
  shows "\<exists>r. fr_inv a = Inr r \<and> fr_ok r \<and> fr_ctx r = fr_ctx a \<and>
    fr_val r = inv_mod (fr_modulus a) (fr_val a) \<and> fr_val a * fr_val r mod fr_modulus a = 1"
proof -
  let ?p = "fp_p (fr_ctx a)" and ?e = "fst (sub_limbs (fp_p (fr_ctx a)) [2, 0, 0, 0])"
  have c: "params_ok (fr_ctx a)" using a by (simp add: fr_ok_def)
  note pp = params_okD [OF c]
  have e: "length ?e = 4" "wval ?e = wval ?p - 2"
    using sub_limbs_exact [of ?p "[2, 0, 0, 0]"] pp(2,3) by (auto simp: wval_Cons64)
  note m = fr_pow_limbs_val [OF a e(1)]
  have "wval ?e = nat (fr_modulus a - 2)" using e(2) pp(3) by linarith
  then have v: "fr_val (fr_pow_limbs a ?e) = inv_mod (fr_modulus a) (fr_val a)"
    using m by (simp add: inv_mod_def)
  have "fr_val a mod fr_modulus a \<noteq> 0" using nz fr_val_range [OF a] by simp
  then have "fr_val a * inv_mod (fr_modulus a) (fr_val a) mod fr_modulus a = 1" by (rule inv_mod_right [OF p])
  then show ?thesis using m v nz fr_is_zero_val [OF a] by (simp add: fr_inv_def)
qed

lemma fr_inv_zero: "fr_ok a \<Longrightarrow> fr_val a = 0 \<Longrightarrow> fr_inv a = Inl NoInverse \<and> fr_try_inv a = Inl DivisionByZero"
  by (simp add: fr_inv_def fr_try_inv_def fr_is_zero_val)

lemma fr_int_div_rem_val:
  assumes a: "fr_ok a" and b: "fr_ok b" and ctx: "fr_ctx a = fr_ctx b" and nz: "fr_val b \<noteq> 0"
  shows "\<exists>q r. fr_int_div_rem a b = Inr (q, r) \<and> fr_ok q \<and> fr_ok r \<and> fr_ctx q = fr_ctx a \<and> fr_ctx r = fr_ctx a \<and>
    fr_val q = fr_val a div fr_val b \<and> fr_val r = fr_val a mod fr_val b"
proof -
  let ?P = "wval (fp_p (fr_ctx a))"
  let ?A = "wval (fr_to_limbs a)" and ?B = "wval (fr_to_limbs b)"
  have c: "params_ok (fr_ctx a)" using a by (simp add: fr_ok_def)
  note p = params_okD [OF c]
  note ta = fr_to_limbs_props [OF a] and tb = fr_to_limbs_props [OF b]
  have B: "0 < ?B" "?B \<le> 2 ^ 255" using nz tb(2) p(4) ctx by (auto simp: fr_val_def)
  obtain q r where d: "div_rem_u256 (fr_to_limbs a) (fr_to_limbs b) = (q, r)" by force
  note v = div_rem_u256_val [OF ta(1) tb(1) B d]
  have "?A div ?B < ?P" "?A mod ?B < ?P" using ta(2) tb(2) B(1) ctx
    by (auto intro: order.strict_trans1 [OF div_le_dividend] order.strict_trans [OF mod_less_divisor])
  then have small: "int (wval q) mod int ?P = fr_val a div fr_val b" "int (wval r) mod int ?P = fr_val a mod fr_val b"
    using v(1,2) by (simp_all add: fr_val_def zdiv_int zmod_int flip: zmod_int zdiv_int)
  have "fr_to_limbs b \<noteq> replicate 4 0" using B(1) by (metis wval_replicate_0 less_irrefl)
  then show ?thesis
    using fr_from_limbs_reduce_val [OF c v(3)] fr_from_limbs_reduce_val [OF c v(4)] ctx d small
    by (auto simp: fr_int_div_rem_def Let_def)
qed

end
