(* ===== verification/ZkFrFace.thy ===== *)
theory ZkFrFace
  imports ZkFr
begin

text \<open>
  The readers and printers of \<^verbatim>\<open>Fr\<close>, its ordering, and the interface the circuit layer
  relies on: a locale of a scalar field as its clients see it (partial operations over
  carriers indexed by a context), with the field laws proved once and interpreted on the
  Montgomery implementation.
\<close>

section \<open>Bits\<close>

lemma fr_get_bit_val: "fr_ok a \<Longrightarrow> fr_get_bit a i \<longleftrightarrow> bit (fr_val a) i"
proof -
  assume a: "fr_ok a"
  note t = fr_to_limbs_props [OF a]
  have c: "params_ok (fr_ctx a)" using a by (simp add: fr_ok_def)
  have lt: "wval (fr_to_limbs a) < 2 ^ 256"
    using wval_less64 [of "fr_to_limbs a"] t(1) by simp
  have b: "bit (fr_val a) i \<longleftrightarrow> bit (wval (fr_to_limbs a)) i"
    unfolding fr_val_def by (simp add: bit_of_nat_iff_bit)
  show ?thesis
  proof (cases "i < 256")
    case True
    then show ?thesis using limb_bit_val [of i "fr_to_limbs a"] t(1) b
      by (simp add: fr_get_bit_def bit_iff_odd)
  next
    case False
    then have "wval (fr_to_limbs a) < 2 ^ i"
      using lt by (meson not_less order.strict_trans2 power_increasing one_le_numeral)
    then show ?thesis using False b by (simp add: fr_get_bit_def bit_iff_odd)
  qed
qed

lemma limbs_bit_len_val:
  "n \<le> length l \<Longrightarrow> wval (take n l) < 2 ^ limbs_bit_len l n \<and>
    (wval (take n l) \<noteq> 0 \<longrightarrow> 2 ^ (limbs_bit_len l n - 1) \<le> wval (take n l))"
proof (induction n)
  case 0
  then show ?case by simp
next
  case (Suc n)
  have tk: "take (Suc n) l = take n l @ [l ! n]" using Suc.prems by (simp add: take_Suc_conv_app_nth)
  have v: "wval (take (Suc n) l) = wval (take n l) + 2 ^ (64 * n) * unat (l ! n)"
    using Suc.prems by (simp add: tk wval_append wval_Cons64)
  show ?case
  proof (cases "l ! n = 0")
    case True
    then show ?thesis using Suc v by simp
  next
    case False
    let ?k = "64 - leading_zeros (l ! n)"
    note lz = leading_zeros_val [OF False, unfolded len64]
    have low: "wval (take n l) < 2 ^ (64 * n)"
      using wval_less64 [of "take n l"] Suc.prems by simp
    have bl: "limbs_bit_len l (Suc n) = 64 * n + ?k" using False by (simp add: mult.commute)
    have "wval (take (Suc n) l) < 0 + 2 ^ (64 * n) * 2 ^ ?k"
      unfolding v by (rule high_digit_less [OF low lz(1)])
    then have up: "wval (take (Suc n) l) < 2 ^ limbs_bit_len l (Suc n)" unfolding bl power_add by simp
    have "limbs_bit_len l (Suc n) - 1 = 64 * n + (?k - 1)" using lz(3) bl by simp
    then have "2 ^ (limbs_bit_len l (Suc n) - 1) = 2 ^ (64 * n) * (2 :: nat) ^ (?k - 1)"
      by (simp only: power_add)
    also have "\<dots> \<le> 2 ^ (64 * n) * unat (l ! n)" using lz(2) by (rule mult_le_mono2)
    also have "\<dots> \<le> wval (take (Suc n) l)" unfolding v by simp
    finally show ?thesis using up by blast
  qed
qed

lemma fr_bit_len_val:
  assumes "fr_ok a"
  shows "fr_val a < 2 ^ fr_bit_len a" "fr_val a \<noteq> 0 \<Longrightarrow> 2 ^ (fr_bit_len a - 1) \<le> fr_val a"
proof -
  note t = fr_to_limbs_props [OF assms]
  have tk: "take 4 (fr_to_limbs a) = fr_to_limbs a" using t(1) by simp
  have v: "wval (fr_to_limbs a) < 2 ^ fr_bit_len a"
    "wval (fr_to_limbs a) \<noteq> 0 \<longrightarrow> 2 ^ (fr_bit_len a - 1) \<le> wval (fr_to_limbs a)"
    using limbs_bit_len_val [of 4 "fr_to_limbs a"] t(1) unfolding tk fr_bit_len_def by auto
  show "fr_val a < 2 ^ fr_bit_len a"
    using v(1) unfolding fr_val_def by (metis of_nat_less_iff of_nat_numeral of_nat_power)
  show "2 ^ (fr_bit_len a - 1) \<le> fr_val a" if "fr_val a \<noteq> 0"
  proof -
    have "2 ^ (fr_bit_len a - 1) \<le> wval (fr_to_limbs a)" using v(2) that by (simp add: fr_val_def)
    then have "int (2 ^ (fr_bit_len a - 1)) \<le> int (wval (fr_to_limbs a))" by (simp only: of_nat_le_iff)
    then show ?thesis unfolding fr_val_def by simp
  qed
qed

lemma low_limb_only:
  fixes x B :: int
  assumes "0 \<le> x" "x < B"
  shows "x + B * int h < B \<longleftrightarrow> h = 0"
proof (cases "h = 0")
  case False
  then have "B * 1 \<le> B * int h" using assms by (intro mult_left_mono) auto
  then show ?thesis using False assms by linarith
qed (use assms in simp)

lemma fr_to_u64_val:
  assumes "fr_ok a"
  shows "fr_to_u64 a = (if fr_val a < 2 ^ 64 then Some (of_int (fr_val a)) else None)"
proof -
  obtain w x y z where l: "fr_to_limbs a = [w, x, y, z]"
    using fr_to_limbs_props(1) [OF assms] by (auto simp: numeral_eq_Suc length_Suc_conv)
  let ?h = "wval [x, y, z]"
  have v: "fr_val a = int (unat w) + 2 ^ 64 * int ?h" by (simp add: fr_val_def l wval_Cons64 [of w])
  have z: "?h = 0 \<longleftrightarrow> x = 0 \<and> y = 0 \<and> z = 0" by (simp add: wval_eq_0_iff)
  have "fr_val a < 2 ^ 64 \<longleftrightarrow> ?h = 0"
    unfolding v by (rule low_limb_only) (use unat_u64_less [of w] in \<open>simp_all only: of_nat_0_le_iff of_nat_less_numeral_power_cancel_iff\<close>)
  moreover have "of_int (fr_val a) = w" if "?h = 0" using that by (simp add: v)
  ultimately show ?thesis unfolding fr_to_u64_def l using z by auto
qed

section \<open>Bytes, numbers and text\<close>

lemma unat_byte64: "unat (ucast (drop_bit k l) :: u8) = unat (l :: u64) div 2 ^ k mod 2 ^ 8"
  by (simp only: unsigned_ucast_eq unat_drop64 take_bit_eq_mod) simp

lemma le_bytes_digits:
  fixes n :: nat
  shows "pos_val (2 ^ 8) (map (\<lambda>i. n div 2 ^ (8 * i) mod 2 ^ 8) [0..<k]) = n mod 2 ^ (8 * k)"
proof (induction k)
  case 0
  then show ?case by simp
next
  case (Suc k)
  have e: "(2 :: nat) ^ (8 * Suc k) = 2 ^ (8 * k) * 2 ^ 8" by (simp add: power_add)
  show ?case
  proof -
    have "(256 :: nat) ^ k = 2 ^ (8 * k)" by (simp add: power_mult)
    then show ?thesis unfolding e mod_mult2_eq using Suc by (simp add: pos_val_append)
  qed
qed

lemma u64_le_bytes_val: "wval (u64_to_le_bytes l) = unat l"
proof -
  have "map unat (u64_to_le_bytes l) = map (\<lambda>i. unat l div 2 ^ (8 * i) mod 2 ^ 8) [0..<8]"
    by (simp add: u64_to_le_bytes_def unat_byte64)
  then show ?thesis using le_bytes_digits [of "unat l" 8] unat_u64_less [of l] by (simp add: wval_def)
qed

lemma length_u64_le_bytes [simp]: "length (u64_to_le_bytes l) = 8"
  by (simp add: u64_to_le_bytes_def)

lemma concat_bytes64_val: "wval (concat (map u64_to_le_bytes ls)) = wval ls"
  by (induction ls) (simp_all add: wval_append u64_le_bytes_val wval_Cons64)

lemma length_concat_bytes64: "length (concat (map u64_to_le_bytes ls)) = 8 * length ls"
  by (induction ls) simp_all

lemma fr_to_bytes_le_val: "fr_ok a \<Longrightarrow> int (wval (fr_to_bytes_le a n)) = fr_val a mod 2 ^ (8 * n)"
  by (simp add: fr_to_bytes_le_def vec_resize_val concat_bytes64_val fr_val_def zmod_int)

lemma fr_write_bytes_le_eq: "fr_ok a \<Longrightarrow> fr_write_bytes_le a = fr_to_bytes_le a 32"
  using fr_to_limbs_props(1) [of a] length_concat_bytes64 [of "fr_to_limbs a"]
  by (simp add: fr_write_bytes_le_def fr_to_bytes_le_def vec_resize_def)

lemma fr_to_biguint_val: "fr_ok a \<Longrightarrow> int (wval (fr_to_biguint a)) = fr_val a \<and> bu_norm (fr_to_biguint a)"
  using fr_to_limbs_props(1) [of a] by (auto simp: fr_to_biguint_def fr_val_def intro!: bu_from_limbs4_norm)

lemma fr_biguint_roundtrip:
  assumes "fr_ok a"
  shows "fr_from_biguint (fr_ctx a) (fr_to_biguint a) = Inr a"
proof -
  have "params_ok (fr_ctx a)" using assms by (simp add: fr_ok_def)
  moreover note v = fr_to_biguint_val [OF assms]
  ultimately obtain b where b: "fr_from_biguint (fr_ctx a) (fr_to_biguint a) = Inr b" "fr_ok b"
    "fr_ctx b = fr_ctx a" "fr_val b = fr_val a mod fr_modulus a"
    using fr_from_biguint_val [of "fr_ctx a" "fr_to_biguint a"] bu_norm_nonempty by auto
  then have "b = a" using fr_eq_iff [OF b(2) assms] fr_val_range [OF assms] by simp
  then show ?thesis using b(1) by simp
qed

lemma limb_dec_chunks_val:
  "pos_val (10 ^ 19) (limb_dec_chunks v) = wval v \<and> (\<forall>c\<in>set (limb_dec_chunks v). c < 10 ^ 19)"
proof (induction v rule: limb_dec_chunks.induct)
  case (1 v)
  show ?case
  proof (cases "list_all (\<lambda>l. l = 0) v")
    case True
    then have "wval v = 0" by (simp add: wval_eq_0_iff list_all_iff)
    then show ?thesis using True by (subst (1 2) limb_dec_chunks.simps) simp
  next
    case False
    obtain q r where qr: "div_rem_small_u256 v 10000000000000000000 = (q, r)" by force
    have c: "limb_dec_chunks v = unat r # limb_dec_chunks q"
      using False qr by (subst limb_dec_chunks.simps) simp
    have v: "wval q = wval v div 10 ^ 19" "unat r = wval v mod 10 ^ 19"
      using div_rem_small_u256_val(2,3) [OF _ qr] by simp_all
    have "pos_val (10 ^ 19) (limb_dec_chunks q) = wval q \<and> (\<forall>c\<in>set (limb_dec_chunks q). c < 10 ^ 19)"
      using 1 [OF False refl] qr by metis
    then show ?thesis unfolding c by (simp add: v)
  qed
qed

lemma fr_to_decimal_string_val:
  assumes "fr_ok a"
  shows "int (dec_val_from 0 (fr_to_decimal_string a)) = fr_val a"
proof (cases "fr_to_limbs a = replicate 4 0")
  case True
  then show ?thesis by (simp add: fr_to_decimal_string_def fr_val_def to_digit10_def)
next
  case False
  have "fr_to_limbs a = replicate 4 0" if "list_all (\<lambda>l. l = 0) (fr_to_limbs a)"
    by (rule replicate_eqI) (use that fr_to_limbs_props(1) [OF assms] in \<open>auto simp: list_all_iff\<close>)
  then have "\<not> list_all (\<lambda>l. l = 0) (fr_to_limbs a)" using False by blast
  then have "limb_dec_chunks (fr_to_limbs a) \<noteq> []"
    by (subst limb_dec_chunks.simps) (simp split: prod.split)
  then have "dec_val_from 0 (print_chunks 19 (limb_dec_chunks (fr_to_limbs a))) = wval (fr_to_limbs a)"
    using limb_dec_chunks_val [of "fr_to_limbs a"] by (subst dec_val_print_chunks) auto
  then show ?thesis using False by (simp add: fr_to_decimal_string_def fr_val_def)
qed

lemma fr_decimal_roundtrip:
  assumes "fr_ok a"
  shows "fr_from_biguint (fr_ctx a) (bu_from_str (fr_to_decimal_string a)) = Inr a"
proof -
  have "bu_from_str (fr_to_decimal_string a) = fr_to_biguint a"
  proof (rule bu_norm_inj)
    have "int (dec_val_from 0 (fr_to_decimal_string a)) = int (wval (fr_to_biguint a))"
      using fr_to_decimal_string_val [OF assms] fr_to_biguint_val [OF assms] by metis
    then show "wval (bu_from_str (fr_to_decimal_string a)) = wval (fr_to_biguint a)"
      unfolding bu_from_str_val by (simp only: of_nat_eq_iff)
  qed (use fr_to_biguint_val [OF assms] in simp_all)
  then show ?thesis using fr_biguint_roundtrip [OF assms] by simp
qed

section \<open>Ordering\<close>

lemma fr_cmp_val:
  assumes "fr_ok a" "fr_ok b"
  shows "fr_cmp a b = then_with (cmp_of (fr_modulus a) (fr_modulus b)) (cmp_of (fr_val a) (fr_val b))"
proof -
  have c: "length (fp_p (fr_ctx a)) = length (fp_p (fr_ctx b))"
    using assms params_okD(2) by (simp add: fr_ok_def)
  have t: "length (fr_to_limbs a) = length (fr_to_limbs b)" using assms fr_to_limbs_props(1) by simp
  show ?thesis unfolding fr_cmp_def cmp_limbs_val [OF c] cmp_limbs_val [OF t]
    by (simp add: fr_val_def cmp_of_def)
qed

section \<open>The scalar-field interface\<close>

text \<open>What the circuit layer relies on. \<open>carrier c\<close> are the elements of the field with
  context \<open>c\<close>; an operation on two elements of one field succeeds and computes modulo
  the field's modulus; on elements of different fields it panics.\<close>

locale scalar_field =
  fixes carrier :: "'c \<Rightarrow> 'a set"
    and modulus :: "'c \<Rightarrow> int"
    and val :: "'a \<Rightarrow> int"
    and zero one :: "'c \<Rightarrow> 'a"
    and add sub mul :: "'a \<Rightarrow> 'a \<Rightarrow> 'e + 'a"
    and pinv :: "'a \<Rightarrow> 'e + 'a"
  assumes val_range: "a \<in> carrier c \<Longrightarrow> 0 \<le> val a \<and> val a < modulus c"
    and val_inj: "a \<in> carrier c \<Longrightarrow> b \<in> carrier c \<Longrightarrow> val a = val b \<Longrightarrow> a = b"
    and zero_ok: "a \<in> carrier c \<Longrightarrow> zero c \<in> carrier c \<and> val (zero c) = 0"
    and one_ok: "a \<in> carrier c \<Longrightarrow> one c \<in> carrier c \<and> val (one c) = 1"
    and add_ok: "a \<in> carrier c \<Longrightarrow> b \<in> carrier c \<Longrightarrow>
      \<exists>r\<in>carrier c. add a b = Inr r \<and> val r = (val a + val b) mod modulus c"
    and sub_ok: "a \<in> carrier c \<Longrightarrow> b \<in> carrier c \<Longrightarrow>
      \<exists>r\<in>carrier c. sub a b = Inr r \<and> val r = (val a - val b) mod modulus c"
    and mul_ok: "a \<in> carrier c \<Longrightarrow> b \<in> carrier c \<Longrightarrow>
      \<exists>r\<in>carrier c. mul a b = Inr r \<and> val r = val a * val b mod modulus c"
    and pinv_ok: "a \<in> carrier c \<Longrightarrow> val a \<noteq> 0 \<Longrightarrow>
      \<exists>r\<in>carrier c. pinv a = Inr r \<and> val a * val r mod modulus c = 1"
begin

text \<open>Chaining two fallible operations.\<close>

definition seq2 :: "('a \<Rightarrow> 'a \<Rightarrow> 'e + 'a) \<Rightarrow> 'e + 'a \<Rightarrow> 'e + 'a \<Rightarrow> 'e + 'a" where
  "seq2 f x y = (case x of Inl e \<Rightarrow> Inl e | Inr a \<Rightarrow> (case y of Inl e \<Rightarrow> Inl e | Inr b \<Rightarrow> f a b))"

lemma seq2_Inr [simp]: "seq2 f (Inr a) (Inr b) = f a b"
  by (simp add: seq2_def)

lemma add_obtain:
  assumes "a \<in> carrier c" "b \<in> carrier c"
  obtains r where "add a b = Inr r" "r \<in> carrier c" "val r = (val a + val b) mod modulus c"
  using add_ok [OF assms] by auto

lemma mul_obtain:
  assumes "a \<in> carrier c" "b \<in> carrier c"
  obtains r where "mul a b = Inr r" "r \<in> carrier c" "val r = val a * val b mod modulus c"
  using mul_ok [OF assms] by auto

lemma sub_obtain:
  assumes "a \<in> carrier c" "b \<in> carrier c"
  obtains r where "sub a b = Inr r" "r \<in> carrier c" "val r = (val a - val b) mod modulus c"
  using sub_ok [OF assms] by auto

lemma add_comm:
  assumes "a \<in> carrier c" "b \<in> carrier c"
  shows "add a b = add b a"
proof -
  obtain r where r: "add a b = Inr r" "r \<in> carrier c" "val r = (val a + val b) mod modulus c"
    using assms by (rule add_obtain)
  obtain s where s: "add b a = Inr s" "s \<in> carrier c" "val s = (val b + val a) mod modulus c"
    using assms(2,1) by (rule add_obtain)
  show ?thesis using r s val_inj [OF r(2) s(2)] by (simp add: add.commute)
qed

lemma mul_comm:
  assumes "a \<in> carrier c" "b \<in> carrier c"
  shows "mul a b = mul b a"
proof -
  obtain r where r: "mul a b = Inr r" "r \<in> carrier c" "val r = val a * val b mod modulus c"
    using assms by (rule mul_obtain)
  obtain s where s: "mul b a = Inr s" "s \<in> carrier c" "val s = val b * val a mod modulus c"
    using assms(2,1) by (rule mul_obtain)
  show ?thesis using r s val_inj [OF r(2) s(2)] by (simp add: mult.commute)
qed

lemma mul_assoc:
  assumes "a \<in> carrier c" "b \<in> carrier c" "d \<in> carrier c"
  shows "seq2 mul (mul a b) (Inr d) = seq2 mul (Inr a) (mul b d)"
proof -
  obtain r where r: "mul a b = Inr r" "r \<in> carrier c" "val r = val a * val b mod modulus c"
    using assms(1,2) by (rule mul_obtain)
  obtain s where s: "mul b d = Inr s" "s \<in> carrier c" "val s = val b * val d mod modulus c"
    using assms(2,3) by (rule mul_obtain)
  obtain t where t: "mul r d = Inr t" "t \<in> carrier c" "val t = val r * val d mod modulus c"
    using r(2) assms(3) by (rule mul_obtain)
  obtain u where u: "mul a s = Inr u" "u \<in> carrier c" "val u = val a * val s mod modulus c"
    using assms(1) s(2) by (rule mul_obtain)
  have "val t = val u" unfolding t(3) u(3) r(3) s(3)
    by (simp only: mod_mult_left_eq mod_mult_right_eq mult.assoc)
  then show ?thesis using r(1) s(1) t(1,2) u(1,2) val_inj by simp
qed

lemma distrib:
  assumes "a \<in> carrier c" "b \<in> carrier c" "d \<in> carrier c"
  shows "seq2 mul (Inr a) (add b d) = seq2 add (mul a b) (mul a d)"
proof -
  obtain r where r: "add b d = Inr r" "r \<in> carrier c" "val r = (val b + val d) mod modulus c"
    using assms(2,3) by (rule add_obtain)
  obtain s where s: "mul a b = Inr s" "s \<in> carrier c" "val s = val a * val b mod modulus c"
    using assms(1,2) by (rule mul_obtain)
  obtain t where t: "mul a d = Inr t" "t \<in> carrier c" "val t = val a * val d mod modulus c"
    using assms(1,3) by (rule mul_obtain)
  obtain u where u: "mul a r = Inr u" "u \<in> carrier c" "val u = val a * val r mod modulus c"
    using assms(1) r(2) by (rule mul_obtain)
  obtain w where w: "add s t = Inr w" "w \<in> carrier c" "val w = (val s + val t) mod modulus c"
    using s(2) t(2) by (rule add_obtain)
  have "val u = val w" unfolding u(3) w(3) r(3) s(3) t(3)
    by (simp only: mod_mult_right_eq mod_add_eq distrib_left)
  then show ?thesis using r(1) s(1) t(1) u(1,2) w(1,2) val_inj by simp
qed

lemma sub_self:
  assumes "a \<in> carrier c"
  shows "sub a a = Inr (zero c)"
proof -
  obtain r where r: "sub a a = Inr r" "r \<in> carrier c" "val r = (val a - val a) mod modulus c"
    using assms assms by (rule sub_obtain)
  then show ?thesis using val_inj [OF r(2), of "zero c"] zero_ok [OF assms] by simp
qed

lemma add_sub_cancel:
  assumes "a \<in> carrier c" "b \<in> carrier c"
  shows "seq2 sub (add a b) (Inr b) = Inr a"
proof -
  obtain r where r: "add a b = Inr r" "r \<in> carrier c" "val r = (val a + val b) mod modulus c"
    using assms by (rule add_obtain)
  obtain s where s: "sub r b = Inr s" "s \<in> carrier c" "val s = (val r - val b) mod modulus c"
    using r(2) assms(2) by (rule sub_obtain)
  have "val s = val a" using val_range [OF assms(1)] unfolding s(3) r(3) by (simp add: mod_diff_left_eq)
  then show ?thesis using r(1) s(1,2) val_inj [OF s(2) assms(1)] by simp
qed

lemma mul_pinv:
  assumes "a \<in> carrier c" "val a \<noteq> 0"
  shows "seq2 mul (Inr a) (pinv a) = Inr (one c)"
proof -
  obtain r where r: "pinv a = Inr r" "r \<in> carrier c" "val a * val r mod modulus c = 1"
    using pinv_ok [OF assms] by auto
  obtain s where s: "mul a r = Inr s" "s \<in> carrier c" "val s = val a * val r mod modulus c"
    using assms(1) r(2) by (rule mul_obtain)
  then have "s = one c" using r(3) one_ok [OF assms(1)] val_inj [OF s(2), of "one c"] by simp
  then show ?thesis using r(1) s(1) by simp
qed

lemma no_zero_divisors:
  assumes "a \<in> carrier c" "b \<in> carrier c" "mul a b = Inr (zero c)"
  shows "val a = 0 \<or> val b = 0"
proof (rule disjCI)
  assume nb: "val b \<noteq> 0"
  obtain r where r: "pinv b = Inr r" "r \<in> carrier c" "val b * val r mod modulus c = 1"
    using pinv_ok [OF assms(2) nb] by auto
  have m: "val a * val b mod modulus c = 0"
    using mul_ok [OF assms(1,2)] assms(3) zero_ok [OF assms(1)] by auto
  have "val a = val a * (val b * val r mod modulus c) mod modulus c"
    unfolding r(3) using val_range [OF assms(1)] by simp
  also have "\<dots> = (val a * val b mod modulus c) * val r mod modulus c"
    by (simp only: mod_mult_left_eq mod_mult_right_eq mult.assoc)
  finally show "val a = 0" using m by simp
qed

end

text \<open>The elements of a field whose modulus is prime.\<close>

definition fr_carrier :: "field_params \<Rightarrow> fr set" where
  "fr_carrier c = {a. fr_ok a \<and> fr_ctx a = c \<and> is_prime (int (wval (fp_p c)))}"

interpretation frf: scalar_field fr_carrier "\<lambda>c. int (wval (fp_p c))" fr_val fr_zero fr_one
  fr_add fr_sub fr_mul fr_inv
proof (unfold_locales, goal_cases)
  case (1 a c)
  then show ?case using fr_val_range by (auto simp: fr_carrier_def)
next
  case (2 a c b)
  then show ?case using fr_eq_iff by (auto simp: fr_carrier_def)
next
  case (3 a c)
  then show ?case using fr_zero_val [of c] by (auto simp: fr_carrier_def fr_ok_def fr_zero_def)
next
  case (4 a c)
  then show ?case using fr_one_val [of c] by (auto simp: fr_carrier_def fr_ok_def fr_one_def)
next
  case (5 a c b)
  then show ?case using fr_add_val [of a b] by (auto simp: fr_carrier_def)
next
  case (6 a c b)
  then show ?case using fr_sub_val [of a b] by (auto simp: fr_carrier_def)
next
  case (7 a c b)
  then show ?case using fr_mul_val [of a b] by (auto simp: fr_carrier_def)
next
  case (8 a c)
  then show ?case using fr_inv_val [of a] by (auto simp: fr_carrier_def)
qed

end
