(* ===== verification/ZkFieldProps.thy ===== *)
theory ZkFieldProps
  imports ZkFrFace
begin

text \<open>
  The properties of the field layer (\<^verbatim>\<open>src/zk_field.rs\<close>), each with an instance at a
  concrete field or number.
\<close>

section \<open>A small field for the instances\<close>

text \<open>The parameters \<^verbatim>\<open>FieldParams::new\<close> derives for the modulus seven.\<close>

definition params7 :: field_params where
  "params7 = \<lparr>fp_p_big = [7], fp_p = [7, 0, 0, 0], fp_inv = 10540996613548315209,
     fp_r1 = [2, 0, 0, 0], fp_r2 = [4, 0, 0, 0]\<rparr>"

lemma params7_ok: "params_ok params7"
  by (simp add: params7_def params_ok_def mont_params_def mrep_def wval_Cons)

definition fr7 :: "u64 \<Rightarrow> fr" where
  "fr7 x = \<lparr>fr_limbs = [x, 0, 0, 0], fr_ctx = params7\<rparr>"

lemma prime7: "is_prime 7"
proof -
  have "{2..<7 :: int} = {2, 3, 4, 5, 6}" by auto
  then show ?thesis by (simp add: is_prime_def)
qed

lemma fr7_ok: "unat x < 7 \<Longrightarrow> fr_ok (fr7 x)"
  using params7_ok by (simp add: fr7_def fr_ok_def params7_def wval_Cons64)

lemma fr7_carrier: "unat x < 7 \<Longrightarrow> fr7 x \<in> fr_carrier params7"
  using fr7_ok prime7 by (simp add: fr_carrier_def fr7_def) (simp add: params7_def wval_Cons64)

lemma fr7_val: "unat x < 7 \<Longrightarrow> fr_val (fr7 x) = int (4 * unat x) mod 7"
proof -
  assume x: "unat x < 7"
  have "mrep (fp_p params7) [x, 0, 0, 0] (4 * unat x)"
  proof -
    have "4 * unat x * 2 ^ 256 mod 7 = unat x * (4 * 2 ^ 256 mod 7) mod 7"
      by (simp only: mod_mult_right_eq ac_simps)
    then show ?thesis using x by (simp add: mrep_def params7_def wval_Cons64)
  qed
  from fr_of_mrep(2) [OF params7_ok this] show ?thesis by (simp add: fr7_def params7_def wval_Cons64)
qed


section \<open>Properties\<close>




text \<open>C17: \<open>Fr\<close> arithmetic refines the integers modulo the field's prime: on two elements of one
  field \<open>add\<close>, \<open>sub\<close> and \<open>mul\<close> never panic, return an element of the same field, and compute the
  sum, difference and product of the canonical values.\<close>

theorem fr_ring_refines:
  assumes "fr_ok a" "fr_ok b" "fr_ctx a = fr_ctx b"
  shows "\<exists>s d m. fr_add a b = Inr s \<and> fr_sub a b = Inr d \<and> fr_mul a b = Inr m \<and>
    fr_ok s \<and> fr_ok d \<and> fr_ok m \<and> fr_ctx s = fr_ctx a \<and> fr_ctx d = fr_ctx a \<and> fr_ctx m = fr_ctx a \<and>
    fr_val s = (fr_val a + fr_val b) mod fr_modulus a \<and>
    fr_val d = (fr_val a - fr_val b) mod fr_modulus a \<and>
    fr_val m = fr_val a * fr_val b mod fr_modulus a"
  using fr_add_val [OF assms] fr_sub_val [OF assms] fr_mul_val [OF assms] by blast

theorem fr_ring_refines_witness:
  "\<exists>s d m. fr_add (fr7 3) (fr7 5) = Inr s \<and> fr_sub (fr7 3) (fr7 5) = Inr d \<and> fr_mul (fr7 3) (fr7 5) = Inr m \<and>
    fr_val s = 4 \<and> fr_val d = 6 \<and> fr_val m = 2"
  using fr_ring_refines [OF fr7_ok fr7_ok, of 3 5] fr7_val [of 3] fr7_val [of 5]
  by (auto simp: fr7_def params7_def wval_Cons64)

text \<open>Elements of different fields never mix: every binary operation rejects them, and zero has
  no inverse.\<close>

theorem fr_rejects_mixed_fields:
  assumes "fr_ctx a \<noteq> fr_ctx b"
  shows "fr_add a b = Inl MixedFields \<and> fr_sub a b = Inl MixedFields \<and> fr_mul a b = Inl MixedFields \<and>
    fr_int_div_rem a b = Inl MixedFields \<and> (fr_ok c \<longrightarrow> fr_val c = 0 \<longrightarrow> fr_inv c = Inl NoInverse)"
  using assms fr_inv_zero by (simp add: fr_add_def fr_sub_def fr_mul_def fr_int_div_rem_def)

theorem fr_rejects_mixed_fields_witness:
  "fr_add (fr7 3) (fr7 3 \<lparr>fr_ctx := params7\<lparr>fp_p := [11, 0, 0, 0]\<rparr>\<rparr>) = Inl MixedFields \<and>
   fr_inv (fr7 0) = Inl NoInverse"
  using fr_rejects_mixed_fields [of "fr7 3" "fr7 3 \<lparr>fr_ctx := params7\<lparr>fp_p := [11, 0, 0, 0]\<rparr>\<rparr>" "fr7 0"]
    fr7_ok [of 0] fr7_val [of 0]
  by (simp add: fr7_def params7_def)

text \<open>C36: In a prime field every non-zero element has the inverse that Fermat's little theorem
  gives, and the product with it is the element one.\<close>

theorem fr_inverse:
  assumes "a \<in> fr_carrier c" "fr_val a \<noteq> 0"
  shows "\<exists>r\<in>fr_carrier c. fr_inv a = Inr r \<and> fr_try_inv a = Inr r \<and> fr_mul a r = Inr (fr_one c)"
proof -
  obtain r where r: "fr_inv a = Inr r" "r \<in> fr_carrier c"
    using frf.pinv_ok [OF assms] by auto
  have "fr_mul a r = Inr (fr_one c)" using frf.mul_pinv [OF assms] r(1) by simp
  moreover have "fr_try_inv a = fr_inv a"
    using assms fr_is_zero_val by (auto simp: fr_try_inv_def fr_carrier_def)
  ultimately show ?thesis using r by auto
qed

theorem fr_inverse_witness:
  "\<exists>r. fr_inv (fr7 3) = Inr r \<and> fr_mul (fr7 3) r = Inr (fr_one params7)"
  using fr_inverse [of "fr7 3" params7] fr7_carrier [of 3] fr7_val [of 3] by auto

text \<open>Multiplication distributes over addition, is associative and commutative on the
  elements of one field, as equations between the machine-level results.\<close>

theorem fr_field_laws:
  assumes "a \<in> fr_carrier c" "b \<in> fr_carrier c" "d \<in> fr_carrier c"
  shows "fr_mul a b = fr_mul b a \<and>
    and_then (fr_mul a b) (\<lambda>x. fr_mul x d) = and_then (fr_mul b d) (fr_mul a) \<and>
    and_then (fr_add b d) (fr_mul a) = and_then (fr_mul a b) (\<lambda>x. and_then (fr_mul a d) (fr_add x))"
proof -
  obtain x y z where "fr_mul a b = Inr x" "fr_mul b d = Inr y" "fr_mul a d = Inr z"
    by (meson assms frf.mul_obtain)
  moreover obtain w where "fr_add b d = Inr w" using assms(2,3) frf.add_obtain by blast
  ultimately show ?thesis
    using frf.mul_comm [OF assms(1,2)] frf.mul_assoc [OF assms] frf.distrib [OF assms]
    by simp
qed

theorem fr_field_laws_witness:
  "fr_mul (fr7 3) (fr7 5) = fr_mul (fr7 5) (fr7 3)"
  using fr_field_laws [OF fr7_carrier fr7_carrier fr7_carrier, of 3 5 6] by simp

text \<open>C37: \<open>FieldParams::new\<close> accepts every odd prime modulus below \<open>2 ^ 255\<close> (the Miller-Rabin
  screen has no false negatives), and whatever it accepts has consistent Montgomery constants:
  \<open>p pinv = -1\<close> modulo \<open>2 ^ 64\<close> and \<open>r1\<close>, \<open>r2\<close> the Montgomery forms of \<open>1\<close> and \<open>R\<close>.\<close>

theorem field_params_new_correct:
  assumes "p \<noteq> []"
  shows "(wval p < 2 ^ 255 \<and> odd (wval p) \<and> is_prime (int (wval p)) \<longrightarrow> (\<exists>f. field_params_new p = Inr f)) \<and>
    (\<forall>f. field_params_new p = Inr f \<longrightarrow> params_ok f \<and> fp_p_big f = p \<and> wval (fp_p f) = wval p)"
  using field_params_new_accepts [OF assms] field_params_new_ok [OF assms] by blast

theorem field_params_new_correct_witness:
  "\<exists>f. field_params_new [7] = Inr f \<and> params_ok f \<and> wval (fp_p f) = 7"
  using field_params_new_correct [of "[7]"] prime7 by (auto simp: wval_Cons32)

text \<open>Interning: a context obtained from the registry and one obtained later are the same
  context exactly when the two moduli are the same number, and the registry keeps every context
  it has handed out.\<close>

theorem field_context_interned:
  assumes "registry_ok reg" "p \<noteq> []" "q \<noteq> []"
    and "field_context_new reg p = Inr (c, reg1)" "reg1 \<subseteq>\<^sub>m reg2" "registry_ok reg2"
    and "field_context_new reg2 q = Inr (d, reg3)"
  shows "(c = d \<longleftrightarrow> wval p = wval q) \<and> reg3 (fp_p c) = Some c \<and> reg3 (fp_p d) = Some d"
proof -
  note c = field_context_new_ok [OF assms(1,2,4)] and d = field_context_new_ok [OF assms(6,3,7)]
  have "reg3 (fp_p c) = Some c" using c(5) assms(5) d(6) by (metis domI map_le_def)
  moreover have "fp_p c = fp_p d" if "wval p = wval q"
    by (rule wval_inj) (use c(2,3) d(2,3) that in simp_all)
  ultimately show ?thesis using d(5) c(2) d(2) by auto
qed

theorem field_context_interned_witness:
  "field_context_new [[7, 0, 0, 0] \<mapsto> params7] [7, 0] = Inr (params7, [[7, 0, 0, 0] \<mapsto> params7])"
proof -
  let ?reg = "[[7, 0, 0, 0] \<mapsto> params7]"
  have reg: "registry_ok ?reg" using params7_ok by (auto simp: registry_ok_def params7_def split: if_splits)
  have lim: "bu_to_limbs4 [7] = [7, 0, 0, 0]" "bu_to_limbs4 [7, 0] = [7, 0, 0, 0]"
    by (simp_all add: bu_to_limbs4_def digit_at_def upt_rec)
  have bl: "\<not> 255 < bu_bit_len [7]" "\<not> 255 < bu_bit_len [7, 0]"
    by (simp_all add: not_less bu_bit_len_less wval_Cons32)
  have c: "field_context_new ?reg [7] = Inr (params7, ?reg)"
    using bl lim by (simp add: field_context_new_def)
  have d: "field_context_new ?reg [7, 0] = Inr (params7, ?reg)"
    using bl lim by (simp add: field_context_new_def)
  show ?thesis using field_context_interned [OF reg _ _ c map_le_refl reg d] d by simp
qed

text \<open>\<open>Fr::int_div_rem\<close> is the integer quotient and remainder of the canonical values, not
  field division, and panics exactly on a zero divisor.\<close>

theorem fr_int_div_rem_correct:
  assumes "fr_ok a" "fr_ok b" "fr_ctx a = fr_ctx b"
  shows "(fr_val b \<noteq> 0 \<longrightarrow> (\<exists>q r. fr_int_div_rem a b = Inr (q, r) \<and> fr_ok q \<and> fr_ok r \<and>
      fr_val q = fr_val a div fr_val b \<and> fr_val r = fr_val a mod fr_val b)) \<and>
    (fr_val b = 0 \<longrightarrow> fr_int_div_rem a b = Inl DivisionByZero)"
proof -
  have "fr_to_limbs b = replicate 4 0" if "fr_val b = 0"
    by (rule wval_inj) (use that fr_to_limbs_props(1) [OF assms(2)] in \<open>simp_all add: fr_val_def\<close>)
  then have "fr_val b = 0 \<longrightarrow> fr_int_div_rem a b = Inl DivisionByZero"
    using assms(3) by (simp add: fr_int_div_rem_def Let_def)
  then show ?thesis using fr_int_div_rem_val [OF assms] by blast
qed

theorem fr_int_div_rem_correct_witness:
  "\<exists>q r. fr_int_div_rem (fr7 3) (fr7 4) = Inr (q, r) \<and> fr_val q = 2 \<and> fr_val r = 1"
  using fr_int_div_rem_correct [OF fr7_ok fr7_ok, of 3 4] fr7_val [of 3] fr7_val [of 4]
  by (auto simp: fr7_def)



text \<open>The ordering of elements is by modulus first and canonical value second, and it calls two
  elements equal exactly when they have one modulus and one value.\<close>

theorem fr_cmp_correct:
  assumes "fr_ok a" "fr_ok b"
  shows "(fr_modulus a = fr_modulus b \<longrightarrow> fr_cmp a b = cmp_of (fr_val a) (fr_val b)) \<and>
    (fr_modulus a \<noteq> fr_modulus b \<longrightarrow> fr_cmp a b = cmp_of (fr_modulus a) (fr_modulus b)) \<and>
    (fr_ctx a = fr_ctx b \<longrightarrow> (fr_cmp a b = Equal \<longleftrightarrow> a = b))"
proof -
  have "cmp_of x y \<noteq> Equal \<Longrightarrow> then_with (cmp_of x y) o2 = cmp_of x y" for x y :: int and o2
    by (cases "cmp_of x y") (auto simp del: cmp_of_simps)
  moreover have "cmp_of x y = Equal \<Longrightarrow> then_with (cmp_of x y) o2 = o2" for x y :: int and o2 by simp
  ultimately show ?thesis using fr_eq_iff [OF assms] unfolding fr_cmp_val [OF assms] by auto
qed

theorem fr_cmp_correct_witness: "fr_cmp (fr7 3) (fr7 1) = Greater"
  using fr_cmp_correct [OF fr7_ok fr7_ok, of 3 1] fr7_val [of 3] fr7_val [of 1]
  by (simp add: fr7_def)

text \<open>C39: \<open>BigUint\<close> arithmetic computes on the denoted naturals: the sum, the product, the long
  division and its panic, and a subtraction that is exact when it can be, wraps modulo the active
  field's modulus otherwise, and panics when there is none.\<close>

theorem biguint_arith_correct:
  assumes "a \<noteq> []" "b \<noteq> []" "m \<noteq> []" "0 < wval m"
  shows "wval (bu_add a b) = wval a + wval b \<and> wval (bu_mul a b) = wval a * wval b \<and>
    bu_cmp a b = cmp_of (wval a) (wval b) \<and>
    (wval b = 0 \<longrightarrow> bu_div_mod a b = None) \<and>
    (wval b \<noteq> 0 \<longrightarrow> (\<exists>q r. bu_div_mod a b = Some (q, r) \<and> wval q = wval a div wval b \<and> wval r = wval a mod wval b)) \<and>
    (wval b \<le> wval a \<longrightarrow> (\<exists>r. bu_sub (Some m) a b = Some r \<and> wval r = wval a - wval b)) \<and>
    (wval a < wval b \<longrightarrow> (\<exists>r. bu_sub (Some m) a b = Some r \<and>
        int (wval r) = (int (wval a) - int (wval b)) mod int (wval m)) \<and> bu_sub None a b = None)"
proof -
  have "\<exists>q r. bu_div_mod a b = Some (q, r) \<and> wval q = wval a div wval b \<and> wval r = wval a mod wval b"
    if "wval b \<noteq> 0"
    using bu_div_mod_val [OF assms(1,2)] that by (metis neq0_conv)
  then show ?thesis
    using bu_sub_exact [OF assms(1,2), of "Some m"] bu_sub_wraps [OF assms] bu_sub_panics [OF assms(1,2)]
      bu_cmp_val [OF assms(1,2)] by (auto simp: bu_div_mod_def)
qed

theorem biguint_arith_correct_witness:
  "\<exists>r. bu_sub (Some [7]) [3] [5] = Some r \<and> int (wval r) = 5"
  using biguint_arith_correct [of "[3]" "[5]" "[7]"] by (auto simp: wval_Cons32)

text \<open>C40: A hexadecimal literal is accepted exactly when it has a digit and only digits after its
  prefix, its value is the number the digits denote, and the decimal rendering of a normalised
  number parses back to it.\<close>

theorem biguint_text_correct:
  assumes "bu_norm ds"
  shows "((\<exists>v. bu_from_hex_str s = Inr v) \<longleftrightarrow> hex_body s \<noteq> [] \<and> list_all is_ascii_hexdigit (hex_body s)) \<and>
    (\<forall>v. bu_from_hex_str s = Inr v \<longrightarrow> wval v = hex_val (hex_body s) \<and> bu_norm v) \<and>
    bu_from_str (bu_to_decimal_string ds) = ds"
  using bu_from_hex_str_ok_iff [of s] bu_from_hex_str_val [of s] bu_dec_roundtrip [OF assms] by blast

theorem biguint_text_correct_witness:
  "\<exists>v. bu_from_hex_str ''0xfF'' = Inr v \<and> wval v = 255 \<and> bu_from_str (bu_to_decimal_string [255]) = [255]"
proof -
  have b: "hex_body ''0xfF'' = ''fF''" by (simp add: hex_body_def strip_prefix_def)
  have "list_all is_ascii_hexdigit ''fF''" "hex_val ''fF'' = 255"
    by (simp_all add: is_ascii_hexdigit_def hex_val_def hex_digit_def)
  then show ?thesis using biguint_text_correct [of "[255]" "''0xfF''"] b by (auto simp: bu_norm_def)
qed

text \<open>The byte encoding of an element is the little-endian representation of its canonical
  value, truncated or padded to the requested length; the 32-byte form keeps the whole value.\<close>

theorem fr_bytes_correct:
  assumes "fr_ok a"
  shows "length (fr_to_bytes_le a n) = n \<and> int (wval (fr_to_bytes_le a n)) = fr_val a mod 2 ^ (8 * n) \<and>
    fr_write_bytes_le a = fr_to_bytes_le a 32 \<and> int (wval (fr_write_bytes_le a)) = fr_val a"
proof -
  have "fr_modulus a < int (2 ^ 255)"
    using assms params_okD(4) [of "fr_ctx a"] by (simp only: fr_ok_def of_nat_less_iff)
  then have "fr_val a < 2 ^ (8 * 32)" using fr_val_range [OF assms] by simp
  then have "fr_val a mod 2 ^ (8 * 32) = fr_val a" using fr_val_range [OF assms] by (intro mod_pos_pos_trivial) auto
  then have "int (wval (fr_write_bytes_le a)) = fr_val a"
    by (simp only: fr_write_bytes_le_eq [OF assms] fr_to_bytes_le_val [OF assms])
  then show ?thesis using fr_to_bytes_le_val [OF assms, of n] fr_write_bytes_le_eq [OF assms]
    by (simp add: fr_to_bytes_le_def)
qed

theorem fr_bytes_correct_witness: "int (wval (fr_write_bytes_le (fr7 3))) = 5"
  using fr_bytes_correct [OF fr7_ok [of 3]] fr7_val [of 3] by simp

end
