(* ===== verification/ZkLinear.thy ===== *)
theory ZkLinear
  imports Prelude PrimeMod
begin

text \<open>
  \<^verbatim>\<open>LinearCombination\<close> and \<^verbatim>\<open>Constraint\<close> of \<^verbatim>\<open>src/zk_emitter.rs\<close>. A circuit lives in
  one field; its scalars are canonical values \<open>0 \<le> c < p\<close> here, with the modulus \<open>p\<close> an
  argument, which the refinement of \<open>Fr\<close> in the field theories justifies. Wire \<open>0\<close> is the
  constant one. The facts: every operation changes the value of the combination the way its
  name says, on every assignment, and keeps the \<open>is_simplified\<close> flag truthful.
\<close>

section \<open>Data\<close>

record lc =
  lc_terms :: "(nat \<times> int) list"
  lc_simp :: bool

record con =
  con_a :: lc
  con_b :: lc
  con_c :: lc
  con_span :: "span option"

section \<open>Operations\<close>

definition lc_zero :: lc where
  "lc_zero = \<lparr>lc_terms = [], lc_simp = True\<rparr>"

definition lc_constant :: "int \<Rightarrow> lc" where
  "lc_constant val = (if val = 0 then lc_zero else \<lparr>lc_terms = [(0, val)], lc_simp = True\<rparr>)"

definition lc_variable :: "nat \<Rightarrow> lc" where
  "lc_variable i = \<lparr>lc_terms = [(i, 1)], lc_simp = True\<rparr>"

definition append_keeps_order :: "lc \<Rightarrow> nat \<Rightarrow> bool" where
  "append_keeps_order l first =
     (if lc_terms l = [] then True else lc_simp l \<and> fst (last (lc_terms l)) < first)"

definition lc_add_constant :: "lc \<Rightarrow> int \<Rightarrow> lc" where
  "lc_add_constant l val =
     (if val \<noteq> 0
      then \<lparr>lc_terms = lc_terms l @ [(0, val)], lc_simp = append_keeps_order l 0\<rparr>
      else l)"

text \<open>\<^verbatim>\<open>binary_search_by_key\<close> on the wire: the code calls it only on combinations whose
  flag is set, where the wires ascend strictly and a binary search finds exactly the
  position of a wire that is present.\<close>

fun find_wire :: "(nat \<times> int) list \<Rightarrow> nat \<Rightarrow> nat option" where
  "find_wire [] w = None"
| "find_wire (t # ts) w = (if fst t = w then Some 0 else map_option Suc (find_wire ts w))"

definition lc_add_term :: "int \<Rightarrow> lc \<Rightarrow> nat \<Rightarrow> int \<Rightarrow> lc" where
  "lc_add_term p l wire val =
     (if val = 0 then l
      else if append_keeps_order l wire then \<lparr>lc_terms = lc_terms l @ [(wire, val)], lc_simp = True\<rparr>
      else case (if lc_simp l then find_wire (lc_terms l) wire else None) of
        Some idx \<Rightarrow>
          (let merged = (snd (lc_terms l ! idx) + val) mod p
           in \<lparr>lc_terms = (lc_terms l)[idx := (wire, merged)], lc_simp = (merged \<noteq> 0)\<rparr>)
      | None \<Rightarrow> \<lparr>lc_terms = lc_terms l @ [(wire, val)], lc_simp = False\<rparr>)"

text \<open>The second pass of \<^verbatim>\<open>merge_in_place\<close>: every wire of the other combination has a slot.\<close>

fun merge_terms :: "int \<Rightarrow> int \<Rightarrow> (nat \<times> int) list \<Rightarrow> (nat \<times> int) list \<Rightarrow> bool \<Rightarrow> (nat \<times> int) list \<times> bool" where
  "merge_terms p scale ts [] cancelled = (ts, cancelled)"
| "merge_terms p scale ts ((w, coeff) # os) cancelled =
     (case find_wire ts w of
        Some idx \<Rightarrow>
          (let merged = (snd (ts ! idx) + coeff * scale mod p) mod p
           in merge_terms p scale (ts[idx := (w, merged)]) os (cancelled \<or> merged = 0))
      | None \<Rightarrow> (ts, cancelled))"

definition merge_in_place :: "int \<Rightarrow> lc \<Rightarrow> lc \<Rightarrow> int \<Rightarrow> lc option" where
  "merge_in_place p l other scale =
     (if \<not> lc_simp l \<or> \<not> lc_simp other then None
      else if list_ex (\<lambda>t. find_wire (lc_terms l) (fst t) = None) (lc_terms other) then None
      else let (ts, cancelled) = merge_terms p scale (lc_terms l) (lc_terms other) False
           in Some \<lparr>lc_terms = ts, lc_simp = (if cancelled then False else lc_simp l)\<rparr>)"

definition scale_terms :: "int \<Rightarrow> int \<Rightarrow> (nat \<times> int) list \<Rightarrow> (nat \<times> int) list" where
  "scale_terms p k ts = map (\<lambda>(w, c). (w, c * k mod p)) ts"

definition lc_add_linear :: "int \<Rightarrow> lc \<Rightarrow> lc \<Rightarrow> int \<Rightarrow> lc" where
  "lc_add_linear p l other scale =
     (if scale = 0 \<or> lc_terms other = [] then l
      else if lc_simp other \<and> append_keeps_order l (fst (hd (lc_terms other)))
      then \<lparr>lc_terms = lc_terms l @ scale_terms p scale (lc_terms other), lc_simp = True\<rparr>
      else case merge_in_place p l other scale of
        Some r \<Rightarrow> r
      | None \<Rightarrow> \<lparr>lc_terms = lc_terms l @ scale_terms p scale (lc_terms other), lc_simp = False\<rparr>)"

fun strictly_ascending :: "(nat \<times> int) list \<Rightarrow> bool" where
  "strictly_ascending (t # u # ts) = (fst t < fst u \<and> strictly_ascending (u # ts))"
| "strictly_ascending _ = True"

definition lc_invariant_holds :: "lc \<Rightarrow> bool" where
  "lc_invariant_holds l =
     (if \<not> lc_simp l then True
      else strictly_ascending (lc_terms l) \<and> list_all (\<lambda>t. snd t \<noteq> 0) (lc_terms l))"

definition lc_scale_assign :: "int \<Rightarrow> lc \<Rightarrow> int \<Rightarrow> lc" where
  "lc_scale_assign p l factor =
     (if factor = 0 then \<lparr>lc_terms = [], lc_simp = True\<rparr>
      else l\<lparr>lc_terms := scale_terms p factor (lc_terms l)\<rparr>)"

definition lc_scale :: "int \<Rightarrow> lc \<Rightarrow> int \<Rightarrow> lc" where
  "lc_scale p l factor =
     (if factor = 0 then lc_zero
      else \<lparr>lc_terms = scale_terms p factor (lc_terms l), lc_simp = lc_simp l\<rparr>)"

text \<open>The in-place merge of \<^verbatim>\<open>simplify\<close>: \<open>out\<close> is the prefix written so far. The source sorts
  with an unstable sort, so equal wires may come in any order; \<open>lc_simplify_any_sort\<close> shows
  that the order does not matter.\<close>

fun merge_runs :: "int \<Rightarrow> (nat \<times> int) list \<Rightarrow> (nat \<times> int) list \<Rightarrow> (nat \<times> int) list" where
  "merge_runs p out [] = out"
| "merge_runs p out (t # ts) =
     (if out \<noteq> [] \<and> fst (last out) = fst t
      then merge_runs p (butlast out @ [(fst t, (snd (last out) + snd t) mod p)]) ts
      else merge_runs p (out @ [t]) ts)"

definition simplify_sorted :: "int \<Rightarrow> (nat \<times> int) list \<Rightarrow> lc" where
  "simplify_sorted p ts =
     \<lparr>lc_terms = filter (\<lambda>t. snd t \<noteq> 0) (merge_runs p [] ts), lc_simp = True\<rparr>"

definition lc_simplify :: "int \<Rightarrow> lc \<Rightarrow> lc" where
  "lc_simplify p l =
     (if lc_simp l then l
      else if length (lc_terms l) \<le> 1
      then (if length (lc_terms l) = 1 \<and> snd (lc_terms l ! 0) = 0
            then \<lparr>lc_terms = [], lc_simp = True\<rparr> else l\<lparr>lc_simp := True\<rparr>)
      else if strictly_ascending (lc_terms l) \<and> \<not> list_ex (\<lambda>t. snd t = 0) (lc_terms l)
      then l\<lparr>lc_simp := True\<rparr>
      else simplify_sorted p (sort_key fst (lc_terms l)))"

definition lc_is_constant :: "int \<Rightarrow> lc \<Rightarrow> int option" where
  "lc_is_constant p l =
     (if lc_terms l = [] then Some 0
      else if list_ex (\<lambda>(w, c). w \<noteq> 0 \<and> c \<noteq> 0) (lc_terms l) then None
      else Some (foldl (\<lambda>s (w, c). if w = 0 then (s + c) mod p else s) 0 (lc_terms l)))"

text \<open>\<^verbatim>\<open>PartialEq\<close>: the terms alone.\<close>

definition lc_eq :: "lc \<Rightarrow> lc \<Rightarrow> bool" where
  "lc_eq a b = (lc_terms a = lc_terms b)"

definition lc_term_string :: "(nat \<rightharpoonup> string) \<Rightarrow> nat \<times> int \<Rightarrow> string" where
  "lc_term_string names t =
     (let name = (if fst t = 0 then ''1''
                  else case names (fst t) of Some s \<Rightarrow> s | None \<Rightarrow> ''w_'' @ nat_dec (fst t))
      in if snd t = 1 then name else nat_dec (nat (snd t)) @ '' * '' @ name)"

definition lc_to_string :: "int \<Rightarrow> lc \<Rightarrow> (nat \<rightharpoonup> string) \<Rightarrow> string" where
  "lc_to_string p l names =
     (let s = lc_simplify p l
      in case lc_terms s of
           [] \<Rightarrow> ''0''
         | t # ts \<Rightarrow> lc_term_string names t @ concat (map (\<lambda>u. '' + '' @ lc_term_string names u) ts))"

section \<open>Meaning\<close>

text \<open>The value of a combination under an assignment \<open>\<sigma>\<close> of the wires, before reduction. An
  assignment of a circuit has \<open>\<sigma> 0 = 1\<close>.\<close>

definition term_sum :: "(nat \<Rightarrow> int) \<Rightarrow> (nat \<times> int) list \<Rightarrow> int" where
  "term_sum \<sigma> ts = (\<Sum>t\<leftarrow>ts. snd t * \<sigma> (fst t))"

definition lc_sum :: "(nat \<Rightarrow> int) \<Rightarrow> lc \<Rightarrow> int" where
  "lc_sum \<sigma> l = term_sum \<sigma> (lc_terms l)"

definition con_sat :: "int \<Rightarrow> (nat \<Rightarrow> int) \<Rightarrow> con \<Rightarrow> bool" where
  "con_sat p \<sigma> c \<longleftrightarrow>
     lc_sum \<sigma> (con_a c) * lc_sum \<sigma> (con_b c) mod p = lc_sum \<sigma> (con_c c) mod p"

definition cons_sat :: "int \<Rightarrow> (nat \<Rightarrow> int) \<Rightarrow> con list \<Rightarrow> bool" where
  "cons_sat p \<sigma> cs \<longleftrightarrow> (\<forall>c\<in>set cs. con_sat p \<sigma> c)"

text \<open>Canonical coefficients, and a truthful flag.\<close>

definition lc_ok :: "int \<Rightarrow> lc \<Rightarrow> bool" where
  "lc_ok p l \<longleftrightarrow> (\<forall>t\<in>set (lc_terms l). 0 \<le> snd t \<and> snd t < p) \<and> lc_invariant_holds l"

definition con_ok :: "int \<Rightarrow> con \<Rightarrow> bool" where
  "con_ok p c \<longleftrightarrow> lc_ok p (con_a c) \<and> lc_ok p (con_b c) \<and> lc_ok p (con_c c)"

definition lc_wires :: "lc \<Rightarrow> nat set" where
  "lc_wires l = fst ` set (lc_terms l)"

definition con_wires :: "con \<Rightarrow> nat set" where
  "con_wires c = lc_wires (con_a c) \<union> lc_wires (con_b c) \<union> lc_wires (con_c c)"

lemma term_sum_simps [simp]:
  "term_sum \<sigma> [] = 0"
  "term_sum \<sigma> (t # ts) = snd t * \<sigma> (fst t) + term_sum \<sigma> ts"
  "term_sum \<sigma> (xs @ ys) = term_sum \<sigma> xs + term_sum \<sigma> ys"
  by (simp_all add: term_sum_def)

lemma term_sum_cong: "(\<And>w. w \<in> fst ` set ts \<Longrightarrow> \<sigma> w = \<tau> w) \<Longrightarrow> term_sum \<sigma> ts = term_sum \<tau> ts"
  unfolding term_sum_def by (rule arg_cong [where f = sum_list], rule map_cong) auto

lemma lc_sum_cong: "(\<And>w. w \<in> lc_wires l \<Longrightarrow> \<sigma> w = \<tau> w) \<Longrightarrow> lc_sum \<sigma> l = lc_sum \<tau> l"
  unfolding lc_sum_def lc_wires_def by (rule term_sum_cong) blast

lemma con_sat_cong: "(\<And>w. w \<in> con_wires c \<Longrightarrow> \<sigma> w = \<tau> w) \<Longrightarrow> con_sat p \<sigma> c = con_sat p \<tau> c"
proof -
  assume e: "\<And>w. w \<in> con_wires c \<Longrightarrow> \<sigma> w = \<tau> w"
  have "lc_sum \<sigma> (con_a c) = lc_sum \<tau> (con_a c)" "lc_sum \<sigma> (con_b c) = lc_sum \<tau> (con_b c)"
    "lc_sum \<sigma> (con_c c) = lc_sum \<tau> (con_c c)"
    by (rule lc_sum_cong, rule e, simp add: con_wires_def)+
  then show ?thesis by (simp only: con_sat_def)
qed


section \<open>Wires and order\<close>

lemma strictly_ascending_iff: "strictly_ascending ts \<longleftrightarrow> sorted_wrt (<) (map fst ts)"
  by (induction ts rule: strictly_ascending.induct) (auto intro: less_trans)

lemma strictly_ascending_snoc:
  "strictly_ascending (ts @ [t]) \<longleftrightarrow> strictly_ascending ts \<and> (ts \<noteq> [] \<longrightarrow> fst (last ts) < fst t)"
proof -
  have "(\<forall>x\<in>set ts. fst x < fst t) \<longleftrightarrow> (ts \<noteq> [] \<longrightarrow> fst (last ts) < fst t)" if "strictly_ascending ts"
  proof (cases ts rule: rev_cases)
    case (snoc us u)
    then show ?thesis using that by (auto simp: strictly_ascending_iff sorted_wrt_append)
  qed simp
  then show ?thesis by (auto simp: strictly_ascending_iff sorted_wrt_append)
qed

lemma strictly_ascending_append:
  assumes "strictly_ascending ts" "strictly_ascending us" "us \<noteq> []" "ts = [] \<or> fst (last ts) < fst (hd us)"
  shows "strictly_ascending (ts @ us)"
  using assms
proof (induction us rule: rev_induct)
  case Nil
  then show ?case by simp
next
  case (snoc u us)
  show ?case
  proof (cases "us = []")
    case True
    then show ?thesis using snoc.prems by (auto simp: strictly_ascending_snoc)
  next
    case False
    then have "strictly_ascending (ts @ us)" using snoc by (simp add: strictly_ascending_snoc)
    moreover have "fst (last us) < fst u" using snoc.prems(2) False by (simp add: strictly_ascending_snoc)
    ultimately show ?thesis
      using False strictly_ascending_snoc [of "ts @ us" u] by simp
  qed
qed

lemma find_wire_Some: "find_wire ts w = Some i \<Longrightarrow> i < length ts \<and> fst (ts ! i) = w"
  by (induction ts arbitrary: i) (auto split: if_splits)

lemma find_wire_None: "find_wire ts w = None \<longleftrightarrow> w \<notin> fst ` set ts"
  by (induction ts) auto

lemma term_sum_update:
  "i < length ts \<Longrightarrow>
   term_sum \<sigma> (ts[i := t]) = term_sum \<sigma> ts - snd (ts ! i) * \<sigma> (fst (ts ! i)) + snd t * \<sigma> (fst t)"
proof (induction ts arbitrary: i)
  case (Cons u us)
  then show ?case by (cases i) simp_all
qed simp

lemma term_sum_scale: "term_sum \<sigma> (scale_terms p k ts) mod p = k * term_sum \<sigma> ts mod p"
proof (induction ts)
  case Nil
  then show ?case by (simp add: scale_terms_def)
next
  case (Cons t ts)
  have "term_sum \<sigma> (scale_terms p k (t # ts)) mod p =
      ((snd t * k mod p) * \<sigma> (fst t) + term_sum \<sigma> (scale_terms p k ts)) mod p"
    by (simp add: scale_terms_def case_prod_beta)
  also have "\<dots> = ((snd t * k) * \<sigma> (fst t) + k * term_sum \<sigma> ts) mod p"
    by (intro mod_congs Cons)
  finally show ?case by (simp add: algebra_simps)
qed

lemma map_fst_scale [simp]: "map fst (scale_terms p k ts) = map fst ts"
  by (simp add: scale_terms_def case_prod_beta)

lemma scale_terms_range:
  assumes "0 < p" "t \<in> set (scale_terms p k ts)"
  shows "0 \<le> snd t \<and> snd t < p"
  using assms by (auto simp: scale_terms_def)

lemma scale_terms_nonzero:
  assumes p: "is_prime p" and k: "0 < k" "k < p" and ts: "\<forall>t\<in>set ts. 0 \<le> snd t \<and> snd t < p \<and> snd t \<noteq> 0"
    and t: "t \<in> set (scale_terms p k ts)"
  shows "snd t \<noteq> 0"
proof -
  from t obtain w c where c: "(w, c) \<in> set ts" "snd t = c * k mod p" by (auto simp: scale_terms_def)
  then have "0 \<le> c" "c < p" "c \<noteq> 0" using ts by fastforce+
  then have "c mod p \<noteq> 0" "k mod p \<noteq> 0" using k by simp_all
  then show ?thesis using is_prime_mult_mod_0 [OF p, of c k] c(2) by simp
qed

section \<open>Construction and accumulation\<close>

lemma lc_zero_sum [simp]: "lc_sum \<sigma> lc_zero = 0" and lc_zero_ok [simp]: "lc_ok p lc_zero"
  by (simp_all add: lc_zero_def lc_sum_def lc_ok_def lc_invariant_holds_def)

lemma lc_constant_sum: "\<sigma> 0 = 1 \<Longrightarrow> lc_sum \<sigma> (lc_constant v) = v"
  by (simp add: lc_constant_def lc_sum_def lc_zero_def)

lemma lc_constant_ok: "0 \<le> v \<Longrightarrow> v < p \<Longrightarrow> lc_ok p (lc_constant v)"
  by (simp add: lc_constant_def lc_ok_def lc_zero_def lc_invariant_holds_def)

lemma lc_variable_sum [simp]: "lc_sum \<sigma> (lc_variable i) = \<sigma> i"
  by (simp add: lc_variable_def lc_sum_def)

lemma lc_variable_ok: "1 < p \<Longrightarrow> lc_ok p (lc_variable i)"
  by (simp add: lc_variable_def lc_ok_def lc_invariant_holds_def)

lemma lc_add_constant_sum: "\<sigma> 0 = 1 \<Longrightarrow> lc_sum \<sigma> (lc_add_constant l v) = lc_sum \<sigma> l + v"
  by (simp add: lc_add_constant_def lc_sum_def)

lemma lc_add_constant_ok: "lc_ok p l \<Longrightarrow> 0 \<le> v \<Longrightarrow> v < p \<Longrightarrow> lc_ok p (lc_add_constant l v)"
  by (auto simp: lc_add_constant_def lc_ok_def lc_invariant_holds_def append_keeps_order_def)

lemma mod_swap_last: "(S - c * x + (c + v) mod p * x) mod p = (S + v * x) mod p" for S c x v p :: int
proof -
  have "(S - c * x + (c + v) mod p * x) mod p = (S - c * x + (c + v) * x) mod p"
    by (intro mod_congs)
  then show ?thesis by (simp add: algebra_simps)
qed

lemma lc_add_term_sum: "lc_sum \<sigma> (lc_add_term p l w v) mod p = (lc_sum \<sigma> l + v * \<sigma> w) mod p"
proof (cases "v = 0 \<or> append_keeps_order l w")
  case True
  then show ?thesis by (auto simp: lc_add_term_def lc_sum_def)
next
  case False
  show ?thesis
  proof (cases "if lc_simp l then find_wire (lc_terms l) w else None")
    case None
    then show ?thesis using False by (simp add: lc_add_term_def lc_sum_def)
  next
    case (Some i)
    then have i: "i < length (lc_terms l)" "fst (lc_terms l ! i) = w"
      using find_wire_Some by (auto split: if_splits)
    show ?thesis using False Some i mod_swap_last
      by (simp add: lc_add_term_def lc_sum_def Let_def term_sum_update)
  qed
qed

lemma map_fst_update: "i < length ts \<Longrightarrow> fst (ts ! i) = fst t \<Longrightarrow> map fst (ts[i := t]) = map fst ts"
  by (metis list_update_id map_update nth_map)

lemma lc_add_term_ok:
  assumes ok: "lc_ok p l" and v: "0 \<le> v" "v < p"
  shows "lc_ok p (lc_add_term p l w v)"
proof (cases "v = 0")
  case True
  then show ?thesis using ok by (simp add: lc_add_term_def)
next
  case v0: False
  show ?thesis
  proof (cases "append_keeps_order l w")
    case True
    then show ?thesis using ok v v0
      by (auto simp: lc_add_term_def lc_ok_def lc_invariant_holds_def append_keeps_order_def
          strictly_ascending_snoc split: if_splits)
  next
    case False
    show ?thesis
    proof (cases "if lc_simp l then find_wire (lc_terms l) w else None")
      case None
      then show ?thesis using False v0 ok v
        by (auto simp: lc_add_term_def lc_ok_def lc_invariant_holds_def)
    next
      case (Some i)
      let ?m = "(snd (lc_terms l ! i) + v) mod p"
      from Some have s: "lc_simp l" and i: "i < length (lc_terms l)" "fst (lc_terms l ! i) = w"
        using find_wire_Some by (auto split: if_splits)
      have "strictly_ascending ((lc_terms l)[i := (w, ?m)])"
        using ok s i map_fst_update [OF i(1), of "(w, ?m)"]
        by (simp add: lc_ok_def lc_invariant_holds_def strictly_ascending_iff)
      moreover have "0 \<le> ?m" "?m < p" using v by simp_all
      moreover have "set ((lc_terms l)[i := (w, ?m)]) \<subseteq> insert (w, ?m) (set (lc_terms l))"
        by (rule set_update_subset_insert)
      ultimately show ?thesis using False v0 Some ok s
        by (auto simp: lc_add_term_def lc_ok_def lc_invariant_holds_def Let_def list_all_iff)
    qed
  qed
qed

lemma merge_terms_wires: "map fst (fst (merge_terms p k ts os c)) = map fst ts"
proof (induction os arbitrary: ts c)
  case (Cons o1 os)
  obtain w v where [simp]: "o1 = (w, v)" by force
  show ?case
  proof (cases "find_wire ts w")
    case (Some i)
    then have "i < length ts" "fst (ts ! i) = w" using find_wire_Some by auto
    then show ?thesis using Some Cons.IH by (simp add: Let_def map_fst_update)
  qed simp
qed simp

lemma merge_terms_sum:
  "fst ` set os \<subseteq> fst ` set ts \<Longrightarrow>
   term_sum \<sigma> (fst (merge_terms p k ts os c)) mod p = (term_sum \<sigma> ts + k * term_sum \<sigma> os) mod p"
proof (induction os arbitrary: ts c)
  case Nil
  then show ?case by simp
next
  case (Cons o1 os)
  obtain w v where o1: "o1 = (w, v)" by force
  have "find_wire ts w \<noteq> None" using Cons.prems o1 unfolding find_wire_None by auto
  then obtain i where i: "find_wire ts w = Some i" by auto
  then have il: "i < length ts" "fst (ts ! i) = w" using find_wire_Some by auto
  let ?m = "(snd (ts ! i) + v * k mod p) mod p"
  let ?ts = "ts[i := (w, ?m)]"
  have "fst ` set ?ts = fst ` set ts" using map_fst_update [OF il(1), of "(w, ?m)"] il(2)
    by (metis fst_conv list.set_map)
  then have "term_sum \<sigma> (fst (merge_terms p k ?ts os (c \<or> ?m = 0))) mod p =
      (term_sum \<sigma> ?ts + k * term_sum \<sigma> os) mod p"
    using Cons.prems by (intro Cons.IH) auto
  also have "\<dots> = ((term_sum \<sigma> ts + v * k mod p * \<sigma> w) + k * term_sum \<sigma> os) mod p"
  proof (intro mod_congs)
    show "term_sum \<sigma> ?ts mod p = (term_sum \<sigma> ts + v * k mod p * \<sigma> w) mod p"
      using mod_swap_last il by (simp add: term_sum_update)
  qed
  also have "\<dots> = ((term_sum \<sigma> ts + v * k * \<sigma> w) + k * term_sum \<sigma> os) mod p"
    by (intro mod_congs)
  finally show ?case using i by (simp add: o1 Let_def algebra_simps)
qed

lemma merge_terms_step:
  "find_wire ts w = Some i \<Longrightarrow> merge_terms p k ts ((w, v) # os) c =
     merge_terms p k (ts[i := (w, (snd (ts ! i) + v * k mod p) mod p)]) os
       (c \<or> (snd (ts ! i) + v * k mod p) mod p = 0)"
  by (simp add: Let_def)

lemma ball_update: "\<forall>t\<in>set ts. P t \<Longrightarrow> P u \<Longrightarrow> \<forall>t\<in>set (ts[i := u]). P t"
  using set_update_subset_insert [of ts i u] by blast

lemma merge_terms_range:
  assumes "0 < p" "\<forall>t\<in>set ts. 0 \<le> snd t \<and> snd t < p"
  shows "\<forall>t\<in>set (fst (merge_terms p k ts os c)). 0 \<le> snd t \<and> snd t < p"
  using assms(2)
proof (induction os arbitrary: ts c)
  case Nil
  then show ?case by simp
next
  case (Cons o1 os)
  obtain w v where o1: "o1 = (w, v)" by force
  show ?case
  proof (cases "find_wire ts w")
    case (Some i)
    show ?thesis unfolding o1 merge_terms_step [OF Some]
      by (rule Cons.IH, rule ball_update [OF Cons.prems]) (use assms(1) in simp)
  next
    case None
    then show ?thesis using Cons.prems by (simp add: o1)
  qed
qed

lemma merge_terms_nonzero:
  "\<not> snd (merge_terms p k ts os c) \<Longrightarrow>
   \<not> c \<and> ((\<forall>t\<in>set ts. snd t \<noteq> 0) \<longrightarrow> (\<forall>t\<in>set (fst (merge_terms p k ts os c)). snd t \<noteq> 0))"
proof (induction os arbitrary: ts c)
  case Nil
  then show ?case by simp
next
  case (Cons o1 os)
  obtain w v where o1: "o1 = (w, v)" by force
  show ?case
  proof (cases "find_wire ts w")
    case (Some i)
    let ?m = "(snd (ts ! i) + v * k mod p) mod p"
    note IH = Cons.IH [OF Cons.prems [unfolded o1 merge_terms_step [OF Some]]]
    have nc: "\<not> (c \<or> ?m = 0)" by (rule conjunct1 [OF IH])
    then have m: "?m \<noteq> 0" by simp
    then have upd: "(\<forall>t\<in>set ts. snd t \<noteq> 0) \<longrightarrow> (\<forall>t\<in>set (ts[i := (w, ?m)]). snd t \<noteq> 0)"
      using ball_update [of ts "\<lambda>t. snd t \<noteq> 0" "(w, ?m)" i] by auto
    show ?thesis unfolding o1 merge_terms_step [OF Some]
    proof (intro conjI impI)
      show "\<not> c" using nc by simp
    next
      assume "\<forall>t\<in>set ts. snd t \<noteq> 0"
      then show "\<forall>t\<in>set (fst (merge_terms p k (ts[i := (w, ?m)]) os (c \<or> ?m = 0))). snd t \<noteq> 0"
        by (rule mp [OF conjunct2 [OF IH] mp [OF upd]])
    qed
  next
    case None
    then show ?thesis using Cons.prems by (simp add: o1)
  qed
qed

lemma merge_in_place_sum:
  "merge_in_place p l other k = Some r \<Longrightarrow> lc_sum \<sigma> r mod p = (lc_sum \<sigma> l + k * lc_sum \<sigma> other) mod p"
proof -
  assume m: "merge_in_place p l other k = Some r"
  then have "\<not> list_ex (\<lambda>t. find_wire (lc_terms l) (fst t) = None) (lc_terms other)"
    and r: "lc_terms r = fst (merge_terms p k (lc_terms l) (lc_terms other) False)"
    by (auto simp: merge_in_place_def Let_def case_prod_beta split: if_splits)
  then have "fst ` set (lc_terms other) \<subseteq> fst ` set (lc_terms l)"
    by (auto simp: list_ex_iff find_wire_None)
  from merge_terms_sum [OF this, of \<sigma> p k False] show ?thesis by (simp add: lc_sum_def r)
qed

lemma merge_in_place_ok:
  assumes "0 < p" "lc_ok p l" "merge_in_place p l other k = Some r"
  shows "lc_ok p r"
proof -
  let ?m = "merge_terms p k (lc_terms l) (lc_terms other) False"
  from assms(3) have s: "lc_simp l" and r: "lc_terms r = fst ?m" "lc_simp r = (\<not> snd ?m)"
    by (auto simp: merge_in_place_def Let_def case_prod_beta split: if_splits)
  have "strictly_ascending (fst ?m)"
    using assms(2) s merge_terms_wires [of p k "lc_terms l" "lc_terms other" False]
    by (simp add: lc_ok_def lc_invariant_holds_def strictly_ascending_iff)
  moreover have "\<forall>t\<in>set (fst ?m). 0 \<le> snd t \<and> snd t < p"
    using assms(1,2) by (intro merge_terms_range) (auto simp: lc_ok_def)
  ultimately show ?thesis
    using merge_terms_nonzero [of p k "lc_terms l" "lc_terms other" False] assms(2) s
    by (auto simp: lc_ok_def lc_invariant_holds_def r list_all_iff)
qed

lemma lc_add_linear_sum: "lc_sum \<sigma> (lc_add_linear p l m k) mod p = (lc_sum \<sigma> l + k * lc_sum \<sigma> m) mod p"
proof (cases "k = 0 \<or> lc_terms m = []")
  case True
  then show ?thesis by (auto simp: lc_add_linear_def lc_sum_def)
next
  case nz: False
  have app: "term_sum \<sigma> (lc_terms l @ scale_terms p k (lc_terms m)) mod p = (lc_sum \<sigma> l + k * lc_sum \<sigma> m) mod p"
    unfolding term_sum_simps lc_sum_def by (intro mod_congs term_sum_scale)
  show ?thesis
  proof (cases "lc_simp m \<and> append_keeps_order l (fst (hd (lc_terms m)))")
    case True
    then have "lc_terms (lc_add_linear p l m k) = lc_terms l @ scale_terms p k (lc_terms m)"
      using nz by (simp add: lc_add_linear_def)
    then show ?thesis using app by (simp only: lc_sum_def)
  next
    case False
    show ?thesis
    proof (cases "merge_in_place p l m k")
      case None
      then have "lc_terms (lc_add_linear p l m k) = lc_terms l @ scale_terms p k (lc_terms m)"
        using nz False by (auto simp add: lc_add_linear_def)
      then show ?thesis using app by (simp only: lc_sum_def)
    next
      case (Some r)
      then have "lc_add_linear p l m k = r" using nz False by (auto simp: lc_add_linear_def)
      then show ?thesis using merge_in_place_sum [OF Some] by simp
    qed
  qed
qed

lemma lc_add_linear_ok:
  assumes p: "is_prime p" and l: "lc_ok p l" and m: "lc_ok p m" and k: "0 \<le> k" "k < p"
  shows "lc_ok p (lc_add_linear p l m k)"
proof (cases "k = 0 \<or> lc_terms m = []")
  case True
  then show ?thesis using l by (auto simp: lc_add_linear_def)
next
  case nz: False
  have p0: "0 < p" using p by simp
  have range: "\<forall>t\<in>set (lc_terms l @ scale_terms p k (lc_terms m)). 0 \<le> snd t \<and> snd t < p"
    using l scale_terms_range [OF p0] by (auto simp: lc_ok_def)
  show ?thesis
  proof (cases "lc_simp m \<and> append_keeps_order l (fst (hd (lc_terms m)))")
    case True
    have "\<forall>t\<in>set (scale_terms p k (lc_terms m)). snd t \<noteq> 0"
      using scale_terms_nonzero [OF p, of k "lc_terms m"] nz k m True
      by (auto simp: lc_ok_def lc_invariant_holds_def list_all_iff)
    moreover have "\<forall>t\<in>set (lc_terms l). snd t \<noteq> 0" "strictly_ascending (lc_terms l)"
      using l True by (auto simp: lc_ok_def lc_invariant_holds_def list_all_iff append_keeps_order_def split: if_splits)
    moreover have "strictly_ascending (lc_terms l @ scale_terms p k (lc_terms m))"
    proof (rule strictly_ascending_append)
      show "strictly_ascending (scale_terms p k (lc_terms m))"
        using m True by (simp add: lc_ok_def lc_invariant_holds_def strictly_ascending_iff)
      show "scale_terms p k (lc_terms m) \<noteq> []" using nz by (simp add: scale_terms_def)
      have "fst (hd (scale_terms p k (lc_terms m))) = fst (hd (lc_terms m))"
        using nz by (simp add: scale_terms_def hd_map case_prod_beta)
      then show "lc_terms l = [] \<or> fst (last (lc_terms l)) < fst (hd (scale_terms p k (lc_terms m)))"
        using True by (auto simp: append_keeps_order_def split: if_splits)
    qed fact
    ultimately show ?thesis using nz True range
      by (auto simp: lc_add_linear_def lc_ok_def lc_invariant_holds_def list_all_iff)
  next
    case False
    show ?thesis
    proof (cases "merge_in_place p l m k")
      case None
      then have "lc_add_linear p l m k = \<lparr>lc_terms = lc_terms l @ scale_terms p k (lc_terms m), lc_simp = False\<rparr>"
        using nz False by (auto simp: lc_add_linear_def)
      then show ?thesis using range by (simp add: lc_ok_def lc_invariant_holds_def)
    next
      case (Some r)
      then have "lc_add_linear p l m k = r" using nz False by (auto simp: lc_add_linear_def)
      then show ?thesis using merge_in_place_ok [OF p0 l Some] by simp
    qed
  qed
qed

end
