(* ===== verification/ZkSimplify.thy ===== *)
theory ZkSimplify
  imports ZkLinear "HOL-Library.Multiset"
begin

text \<open>
  Scaling, \<^verbatim>\<open>simplify\<close> and the constant test of \<^verbatim>\<open>LinearCombination\<close>. The merge
  keeps the value on every assignment and its result does not depend on how the unstable
  sort ordered equal wires: a normal form is determined by the function it computes.
\<close>

section \<open>Scaling\<close>

lemma lc_scale_sum: "lc_sum \<sigma> (lc_scale p l k) mod p = k * lc_sum \<sigma> l mod p"
  using term_sum_scale [of \<sigma> p k "lc_terms l"] by (simp add: lc_scale_def lc_sum_def lc_zero_def)

lemma lc_scale_assign_eq:
  "lc_terms (lc_scale_assign p l k) = lc_terms (lc_scale p l k)"
  "lc_simp (lc_scale_assign p l k) = lc_simp (lc_scale p l k)"
  by (simp_all add: lc_scale_assign_def lc_scale_def lc_zero_def)

lemma lc_scale_assign_same: "lc_scale_assign p l k = lc_scale p l k"
  using lc_scale_assign_eq by (intro lc.equality) auto

lemma lc_scale_ok:
  assumes p: "is_prime p" and l: "lc_ok p l" and k: "0 \<le> k" "k < p"
  shows "lc_ok p (lc_scale p l k)"
proof (cases "k = 0")
  case True
  then show ?thesis by (simp add: lc_scale_def)
next
  case False
  have p0: "0 < p" using p by simp
  have "lc_simp l \<Longrightarrow> \<forall>t\<in>set (scale_terms p k (lc_terms l)). snd t \<noteq> 0"
    using scale_terms_nonzero [OF p, of k "lc_terms l"] False k l
    by (auto simp: lc_ok_def lc_invariant_holds_def list_all_iff)
  then show ?thesis using False l scale_terms_range [OF p0]
    by (auto simp: lc_scale_def lc_ok_def lc_invariant_holds_def strictly_ascending_iff list_all_iff)
qed

section \<open>Simplification\<close>

lemma merge_runs_push:
  "\<not> (out \<noteq> [] \<and> fst (last out) = fst t) \<Longrightarrow> merge_runs p out (t # ts) = merge_runs p (out @ [t]) ts"
  by (subst merge_runs.simps) (erule if_not_P)

lemma merge_runs_join:
  "out \<noteq> [] \<and> fst (last out) = fst t \<Longrightarrow>
   merge_runs p out (t # ts) = merge_runs p (butlast out @ [(fst t, (snd (last out) + snd t) mod p)]) ts"
  by (subst merge_runs.simps) (erule if_P)

lemma merge_runs_sum: "term_sum \<sigma> (merge_runs p out ts) mod p = (term_sum \<sigma> out + term_sum \<sigma> ts) mod p"
proof (induction ts arbitrary: out)
  case Nil
  then show ?case by simp
next
  case (Cons t ts)
  show ?case
  proof (cases "out \<noteq> [] \<and> fst (last out) = fst t")
    case True
    let ?o = "butlast out @ [(fst t, (snd (last out) + snd t) mod p)]"
    have out: "term_sum \<sigma> out = term_sum \<sigma> (butlast out) + snd (last out) * \<sigma> (fst t)"
      using True append_butlast_last_id [of out] term_sum_simps(3) [of \<sigma> "butlast out" "[last out]"] by simp
    have "(term_sum \<sigma> ?o + term_sum \<sigma> ts) mod p =
        (term_sum \<sigma> (butlast out) + (snd (last out) + snd t) mod p * \<sigma> (fst t) + term_sum \<sigma> ts) mod p"
      by simp
    also have "\<dots> = (term_sum \<sigma> (butlast out) + (snd (last out) + snd t) * \<sigma> (fst t) + term_sum \<sigma> ts) mod p"
      by (intro mod_congs)
    finally show ?thesis using True Cons.IH [of ?o] by (simp add: out algebra_simps)
  next
    case False
    then have "merge_runs p out (t # ts) = merge_runs p (out @ [t]) ts" by (rule merge_runs_push)
    then show ?thesis using Cons.IH [of "out @ [t]"] by (simp add: algebra_simps)
  qed
qed

lemma merge_runs_wires: "fst ` set (merge_runs p out ts) = fst ` set out \<union> fst ` set ts"
proof (induction ts arbitrary: out)
  case Nil
  then show ?case by simp
next
  case (Cons t ts)
  show ?case
  proof (cases "out \<noteq> [] \<and> fst (last out) = fst t")
    case True
    then have "set out = insert (last out) (set (butlast out))"
      by (metis append_butlast_last_id list.set(1,2) set_append Un_insert_right sup_bot_right)
    then show ?thesis using True Cons.IH by auto
  next
    case False
    then have "merge_runs p out (t # ts) = merge_runs p (out @ [t]) ts" by (rule merge_runs_push)
    then show ?thesis using Cons.IH by auto
  qed
qed

lemma merge_runs_ascending:
  assumes "strictly_ascending out" "sorted (map fst ts)" "out \<noteq> [] \<longrightarrow> ts \<noteq> [] \<longrightarrow> fst (last out) \<le> fst (hd ts)"
  shows "strictly_ascending (merge_runs p out ts)"
  using assms
proof (induction ts arbitrary: out)
  case Nil
  then show ?case by simp
next
  case (Cons t ts)
  show ?case
  proof (cases "out \<noteq> [] \<and> fst (last out) = fst t")
    case True
    let ?o = "butlast out @ [(fst t, (snd (last out) + snd t) mod p)]"
    have "map fst ?o = map fst out" using True
      by (metis (no_types, lifting) append_butlast_last_id fst_conv list.simps(8,9) map_append)
    then have "strictly_ascending ?o" using Cons.prems(1) by (simp add: strictly_ascending_iff)
    then show ?thesis using True Cons.prems(2) Cons.IH [of ?o] by (cases ts) auto
  next
    case False
    then have eq: "merge_runs p out (t # ts) = merge_runs p (out @ [t]) ts" by (rule merge_runs_push)
    have "strictly_ascending (out @ [t])"
      using Cons.prems(1,3) False by (auto simp: strictly_ascending_snoc)
    then show ?thesis unfolding eq using Cons.prems(2) Cons.IH [of "out @ [t]"] by (cases ts) auto
  qed
qed

lemma merge_runs_range:
  "0 < p \<Longrightarrow> \<forall>t\<in>set out \<union> set ts. 0 \<le> snd t \<and> snd t < p \<Longrightarrow> \<forall>t\<in>set (merge_runs p out ts). 0 \<le> snd t \<and> snd t < p"
proof (induction ts arbitrary: out)
  case Nil
  then show ?case by simp
next
  case (Cons t ts)
  show ?case
  proof (cases "out \<noteq> [] \<and> fst (last out) = fst t")
    case True
    have "set (butlast out) \<subseteq> set out" by (auto dest: in_set_butlastD)
    then have "\<forall>u\<in>set (butlast out @ [(fst t, (snd (last out) + snd t) mod p)]) \<union> set ts. 0 \<le> snd u \<and> snd u < p"
      using Cons.prems by auto
    then show ?thesis unfolding merge_runs_join [OF True] by (rule Cons.IH [OF Cons.prems(1)])
  next
    case False
    have "\<forall>u\<in>set (out @ [t]) \<union> set ts. 0 \<le> snd u \<and> snd u < p" using Cons.prems(2) by auto
    then show ?thesis unfolding merge_runs_push [OF False] by (rule Cons.IH [OF Cons.prems(1)])
  qed
qed

lemma term_sum_nonzero: "term_sum \<sigma> (filter (\<lambda>t. snd t \<noteq> 0) ts) = term_sum \<sigma> ts"
  by (induction ts) auto

lemma strictly_ascending_filter: "strictly_ascending ts \<Longrightarrow> strictly_ascending (filter P ts)"
  by (simp add: strictly_ascending_iff sorted_wrt_map sorted_wrt_filter)

lemma simplify_sorted_sum: "lc_sum \<sigma> (simplify_sorted p ts) mod p = term_sum \<sigma> ts mod p"
  by (simp add: simplify_sorted_def lc_sum_def term_sum_nonzero merge_runs_sum)

lemma simplify_sorted_ok:
  assumes "0 < p" "sorted (map fst ts)" "\<forall>t\<in>set ts. 0 \<le> snd t \<and> snd t < p"
  shows "lc_ok p (simplify_sorted p ts)"
  using merge_runs_ascending [of "[]" ts p] merge_runs_range [of p "[]" ts] assms
  by (auto simp: simplify_sorted_def lc_ok_def lc_invariant_holds_def list_all_iff
      intro: strictly_ascending_filter)

lemma term_sum_mset: "mset ts = mset us \<Longrightarrow> term_sum \<sigma> ts = term_sum \<sigma> us"
proof -
  assume "mset ts = mset us"
  then have "image_mset (\<lambda>t. snd t * \<sigma> (fst t)) (mset ts) = image_mset (\<lambda>t. snd t * \<sigma> (fst t)) (mset us)"
    by simp
  then show ?thesis unfolding term_sum_def by (simp only: mset_map [symmetric] sum_mset_sum_list [symmetric])
qed

lemma lc_simplify_sum: "lc_sum \<sigma> (lc_simplify p l) mod p = lc_sum \<sigma> l mod p"
proof -
  have "length (lc_terms l) = 1 \<Longrightarrow> snd (lc_terms l ! 0) = 0 \<Longrightarrow> term_sum \<sigma> (lc_terms l) = 0"
    by (cases "lc_terms l") auto
  moreover have "term_sum \<sigma> (sort_key fst (lc_terms l)) = term_sum \<sigma> (lc_terms l)"
    by (rule term_sum_mset) simp
  ultimately show ?thesis
    using simplify_sorted_sum [of \<sigma> p "sort_key fst (lc_terms l)"] by (auto simp: lc_simplify_def lc_sum_def)
qed

lemma lc_simplify_simp [simp]: "lc_simp (lc_simplify p l)"
  by (auto simp: lc_simplify_def simplify_sorted_def)

lemma lc_simplify_ok:
  assumes p: "0 < p" and l: "lc_ok p l"
  shows "lc_ok p (lc_simplify p l)"
proof -
  have range: "\<forall>t\<in>set (lc_terms l). 0 \<le> snd t \<and> snd t < p" using l by (simp add: lc_ok_def)
  have mark: "lc_ok p (l\<lparr>lc_simp := True\<rparr>)"
    if "strictly_ascending (lc_terms l)" "\<not> list_ex (\<lambda>t. snd t = 0) (lc_terms l)"
    using range that by (auto simp: lc_ok_def lc_invariant_holds_def list_all_iff list_ex_iff)
  have "strictly_ascending (lc_terms l)" if "length (lc_terms l) \<le> 1"
    using that by (cases "lc_terms l" rule: strictly_ascending.cases) auto
  moreover have "\<not> list_ex (\<lambda>t. snd t = 0) (lc_terms l)"
    if "length (lc_terms l) \<le> 1" "\<not> (length (lc_terms l) = 1 \<and> snd (lc_terms l ! 0) = 0)"
    using that by (cases "lc_terms l") auto
  moreover have "lc_ok p (simplify_sorted p (sort_key fst (lc_terms l)))"
    by (rule simplify_sorted_ok [OF p]) (use range in simp_all)
  moreover have "lc_ok p \<lparr>lc_terms = [], lc_simp = True\<rparr>"
    by (simp add: lc_ok_def lc_invariant_holds_def)
  ultimately show ?thesis using mark l unfolding lc_simplify_def by (simp del: One_nat_def split: if_split)
qed

lemma lc_simplify_wires: "lc_wires (lc_simplify p l) \<subseteq> lc_wires l"
proof -
  have "fst ` set (merge_runs p [] (sort_key fst (lc_terms l))) = fst ` set (lc_terms l)"
    using merge_runs_wires [of p "[]" "sort_key fst (lc_terms l)"] by simp
  then have "lc_wires (simplify_sorted p (sort_key fst (lc_terms l))) \<subseteq> lc_wires l"
    by (auto simp: simplify_sorted_def lc_wires_def)
  then show ?thesis by (auto simp: lc_simplify_def lc_wires_def)
qed

lemma lc_simplify_idem: "lc_simplify p (lc_simplify p l) = lc_simplify p l"
  by (simp add: lc_simplify_def [of p "lc_simplify p l"])

section \<open>Normal forms\<close>

text \<open>Wire indicator assignments read the coefficients.\<close>

lemma term_sum_indicator:
  assumes "strictly_ascending ts"
  shows "term_sum (\<lambda>x. if x = w then 1 else 0) ts = (case find_wire ts w of Some i \<Rightarrow> snd (ts ! i) | None \<Rightarrow> 0)"
  using assms
proof (induction ts)
  case Nil
  then show ?case by simp
next
  case (Cons t ts)
  have "strictly_ascending ts" using Cons.prems by (simp add: strictly_ascending_iff)
  note IH = Cons.IH [OF this]
  show ?case
  proof (cases "fst t = w")
    case True
    then have "w \<notin> fst ` set ts" using Cons.prems by (auto simp: strictly_ascending_iff)
    then have "find_wire ts w = None" by (simp add: find_wire_None)
    then show ?thesis using IH True by simp
  next
    case False
    then show ?thesis using IH by (cases "find_wire ts w") auto
  qed
qed

lemma ascending_coeff: "strictly_ascending ts \<Longrightarrow> (w, c) \<in> set ts \<Longrightarrow>
  term_sum (\<lambda>x. if x = w then 1 else 0) ts = c"
proof -
  assume a: "strictly_ascending ts" and m: "(w, c) \<in> set ts"
  then have "w \<in> fst ` set ts" by force
  then obtain i where i: "find_wire ts w = Some i" using find_wire_None [of ts w] by auto
  then have il: "i < length ts" "fst (ts ! i) = w" using find_wire_Some by auto
  have "distinct (map fst ts)" using a by (simp add: strictly_ascending_iff strict_sorted_iff)
  then have "ts ! i = (w, c)" using m il by (metis eq_key_imp_eq_value nth_mem prod.collapse)
  then show ?thesis using term_sum_indicator [OF a, of w] i by simp
qed

lemma ascending_set_eq:
  "strictly_ascending xs \<Longrightarrow> strictly_ascending ys \<Longrightarrow> set xs = set ys \<Longrightarrow> xs = ys"
proof (induction xs arbitrary: ys)
  case Nil
  then show ?case by simp
next
  case (Cons x xs)
  then obtain y ys' where ys: "ys = y # ys'" by (cases ys) auto
  have gx: "\<forall>t\<in>set xs. fst x < fst t" and gy: "\<forall>t\<in>set ys'. fst y < fst t"
    using Cons.prems by (auto simp: strictly_ascending_iff ys)
  have "x = y"
    using Cons.prems(3) gx gy ys by (metis insert_iff list.set(2) not_less_iff_gr_or_eq)
  moreover have "set xs = set ys'"
    using Cons.prems(3) gx gy unfolding ys \<open>x = y\<close> by (auto dest: insert_ident [THEN iffD1, rotated 2])
  ultimately show ?case using Cons unfolding ys by (auto simp: strictly_ascending_iff)
qed

lemma lc_normal_unique:
  assumes a: "lc_ok p a" "lc_simp a" and b: "lc_ok p b" "lc_simp b"
    and eq: "\<And>\<sigma>. lc_sum \<sigma> a mod p = lc_sum \<sigma> b mod p"
  shows "lc_terms a = lc_terms b"
proof -
  have nf: "strictly_ascending (lc_terms x)" "\<And>t. t \<in> set (lc_terms x) \<Longrightarrow> snd t \<noteq> 0 \<and> 0 \<le> snd t \<and> snd t < p"
    if "lc_ok p x" "lc_simp x" for x
    using that by (auto simp: lc_ok_def lc_invariant_holds_def list_all_iff)
  have sub: "set (lc_terms x) \<subseteq> set (lc_terms y)"
    if x: "lc_ok p x" "lc_simp x" and y: "lc_ok p y" "lc_simp y"
      and xy: "\<And>\<sigma>. lc_sum \<sigma> x mod p = lc_sum \<sigma> y mod p" for x y
  proof
    fix t assume t: "t \<in> set (lc_terms x)"
    let ?s = "\<lambda>w. if w = fst t then 1 else 0 :: int"
    have c: "lc_sum ?s x = snd t" using ascending_coeff [OF nf(1) [OF x], of "fst t" "snd t"] t
      by (simp add: lc_sum_def)
    then have m: "lc_sum ?s y mod p = snd t" using xy [of ?s] nf(2) [OF x t] by simp
    show "t \<in> set (lc_terms y)"
    proof (cases "find_wire (lc_terms y) (fst t)")
      case None
      then have "lc_sum ?s y = 0" using term_sum_indicator [OF nf(1) [OF y]] by (simp add: lc_sum_def)
      then show ?thesis using m nf(2) [OF x t] by simp
    next
      case (Some i)
      then have i: "i < length (lc_terms y)" "fst (lc_terms y ! i) = fst t" using find_wire_Some by auto
      then have r: "lc_terms y ! i \<in> set (lc_terms y)" by simp
      have "lc_sum ?s y = snd (lc_terms y ! i)"
        using term_sum_indicator [OF nf(1) [OF y]] Some by (simp add: lc_sum_def)
      then have "snd (lc_terms y ! i) = snd t" using m nf(2) [OF y r] by simp
      then show ?thesis using r i(2) by (metis prod.collapse)
    qed
  qed
  show ?thesis
    by (rule ascending_set_eq [OF nf(1) [OF a] nf(1) [OF b]])
       (use sub [OF a b eq] sub [OF b a eq [symmetric]] in blast)
qed

text \<open>Whatever order a sort gives to equal wires, \<^verbatim>\<open>simplify\<close> ends with the same terms.\<close>

lemma lc_simplify_any_sort:
  assumes "0 < p" "lc_ok p l" "mset ts = mset (lc_terms l)" "sorted (map fst ts)"
  shows "lc_terms (simplify_sorted p ts) = lc_terms (simplify_sorted p (sort_key fst (lc_terms l)))"
proof (rule lc_normal_unique)
  have "set ts = set (lc_terms l)" using assms(3) by (metis set_mset_mset)
  then show "lc_ok p (simplify_sorted p ts)" using assms by (intro simplify_sorted_ok) (auto simp: lc_ok_def)
  show "lc_ok p (simplify_sorted p (sort_key fst (lc_terms l)))"
    using assms by (intro simplify_sorted_ok) (auto simp: lc_ok_def)
  show "lc_sum \<sigma> (simplify_sorted p ts) mod p = lc_sum \<sigma> (simplify_sorted p (sort_key fst (lc_terms l))) mod p" for \<sigma>
    using term_sum_mset [of ts "sort_key fst (lc_terms l)" \<sigma>] assms(3) by (simp add: simplify_sorted_sum)
qed (simp_all add: simplify_sorted_def)

section \<open>The constant test\<close>

lemma constant_fold_sum:
  "foldl (\<lambda>s (w, c). if w = 0 then (s + c) mod p else s) a ts mod p =
     (a + term_sum (\<lambda>w. if w = 0 then 1 else 0) ts) mod p"
proof (induction ts arbitrary: a)
  case (Cons t ts)
  obtain w c where [simp]: "t = (w, c)" by force
  show ?case
  proof (cases "w = 0")
    case True
    then show ?thesis using Cons.IH [of "(a + c) mod p"] by (simp add: mod_simps add.assoc)
  qed (use Cons.IH in simp)
qed simp

lemma lc_is_constant_val:
  assumes "lc_is_constant p l = Some v" "\<sigma> 0 = 1"
  shows "lc_sum \<sigma> l mod p = v mod p"
proof (cases "lc_terms l = []")
  case True
  then show ?thesis using assms by (simp add: lc_is_constant_def lc_sum_def)
next
  case False
  then have z: "\<forall>t\<in>set (lc_terms l). fst t = 0 \<or> snd t = 0"
    and v: "v = foldl (\<lambda>s (w, c). if w = 0 then (s + c) mod p else s) 0 (lc_terms l)"
    using assms(1) by (auto simp: lc_is_constant_def list_ex_iff split: if_splits)
  have "term_sum (\<lambda>w. if w = 0 then 1 else 0) (lc_terms l) = term_sum \<sigma> (lc_terms l)"
    unfolding term_sum_def
    by (rule arg_cong [where f = sum_list], rule map_cong) (use z assms(2) in auto)
  then show ?thesis using constant_fold_sum [of p 0 "lc_terms l"] by (simp add: v lc_sum_def)
qed

lemma foldl_range:
  "0 < p \<Longrightarrow> 0 \<le> a \<Longrightarrow> a < p \<Longrightarrow> \<forall>t\<in>set ts. P t \<Longrightarrow>
   0 \<le> foldl (\<lambda>s (w, c). if w = (0 :: nat) then (s + c) mod p else s) a ts \<and>
   foldl (\<lambda>s (w, c). if w = 0 then (s + c) mod p else s) a ts < (p :: int)"
  by (induction ts arbitrary: a) auto

lemma lc_is_constant_range:
  assumes "0 < p" "lc_is_constant p l = Some v"
  shows "0 \<le> v \<and> v < p"
  using assms foldl_range [of p 0 "lc_terms l" "\<lambda>_. True"]
  by (auto simp: lc_is_constant_def split: if_splits)

text \<open>On a truthful simplified combination the test is exact: it fails only when two
  assignments disagree.\<close>

lemma lc_is_constant_None:
  assumes "lc_ok p l" "lc_simp l" "lc_is_constant p l = None"
  shows "\<exists>w\<in>lc_wires l. w \<noteq> 0"
  using assms by (auto simp: lc_is_constant_def lc_wires_def list_ex_iff split: if_splits) force

end
