(* ===== verification/ZkWitness.thy ===== *)
theory ZkWitness
  imports ZkSimplify
begin

text \<open>
  Witness recipes and the forward pass of \<^verbatim>\<open>src/zk_witness.rs\<close>, with the recipe type
  \<^verbatim>\<open>WitnessOp\<close> of \<^verbatim>\<open>src/zk_emitter.rs\<close>. Scalars that cross the API with a field check
  (inputs and \<^verbatim>\<open>Const\<close>) carry their modulus; inside one circuit they are canonical values
  of its field. A panic (an index out of range, an \<^verbatim>\<open>unreachable!\<close>) is an error value.
\<close>

section \<open>Recipes\<close>

type_synonym tagged = "int \<times> int"

datatype hint_op =
    NonDeterministicInv nat nat
  | BitDecompose nat "nat list"
  | AssignExpr nat nat

datatype witness_op =
    WConst tagged
  | LoadInput nat bool
  | WAdd nat nat
  | WSub nat nat
  | WMul nat nat
  | WDiv nat nat
  | WInv nat
  | AssertEq nat nat
  | HintBlock "nat list" "nat list" "hint_op list"
  | IsZeroLc lc
  | InvOrZeroLc lc
  | BitOfLc lc nat
  | IntDivLc lc lc
  | IntModLc lc lc
  | MulAddLc lc lc lc
  | DivLc lc lc
  | IfZeroLc lc witness_op witness_op
  | MulLc lc lc
  | Unknown

record witness_ir =
  wi_field :: int
  wi_num_public :: nat
  wi_num_private :: nat
  wi_num_signals :: nat
  wi_nodes :: "witness_op list"
  wi_names :: "nat \<rightharpoonup> string"
  wi_order :: "nat list"

datatype witness_error =
    InputFieldMismatch
  | ConstFieldMismatch
  | AssertViolation nat nat
  | IndexPanic
  | UnreachableRecipe

section \<open>Evaluation\<close>

text \<open>What \<^verbatim>\<open>eval_lc\<close> reads for a wire: one for wire \<open>0\<close>, zero out of range.\<close>

definition wire_val :: "int list \<Rightarrow> nat \<Rightarrow> int" where
  "wire_val w i = (if i = 0 then 1 else if i < length w then w ! i else 0)"

definition eval_lc :: "int \<Rightarrow> lc \<Rightarrow> int list \<Rightarrow> int" where
  "eval_lc p l w = foldl (\<lambda>s (i, c). (s + c * wire_val w i mod p) mod p) 0 (lc_terms l)"

text \<open>\<^verbatim>\<open>Fr::get_bit\<close> of a canonical value.\<close>

definition fr_bit :: "int \<Rightarrow> nat \<Rightarrow> bool" where
  "fr_bit v i = (if 256 \<le> i then False else odd (v div 2 ^ i))"

fun eval_lc_recipe :: "int \<Rightarrow> witness_op \<Rightarrow> int list \<Rightarrow> int option" where
  "eval_lc_recipe p (IsZeroLc l) w = Some (if eval_lc p l w = 0 then 1 else 0)"
| "eval_lc_recipe p (InvOrZeroLc l) w =
     (let v = eval_lc p l w in Some (if v = 0 then 0 else inv_mod p v))"
| "eval_lc_recipe p (BitOfLc l k) w = Some (if fr_bit (eval_lc p l w) k then 1 else 0)"
| "eval_lc_recipe p (MulLc a b) w = Some (eval_lc p a w * eval_lc p b w mod p)"
| "eval_lc_recipe p (MulAddLc a b c) w =
     Some ((eval_lc p a w * eval_lc p b w mod p + eval_lc p c w) mod p)"
| "eval_lc_recipe p (DivLc a b) w =
     (let bv = eval_lc p b w in Some (if bv = 0 then 0 else eval_lc p a w * inv_mod p bv mod p))"
| "eval_lc_recipe p (IntDivLc a b) w =
     (let bv = eval_lc p b w; av = eval_lc p a w in Some (if bv = 0 then 0 else av div bv))"
| "eval_lc_recipe p (IntModLc a b) w =
     (let bv = eval_lc p b w; av = eval_lc p a w in Some (if bv = 0 then 0 else av mod bv))"
| "eval_lc_recipe p (IfZeroLc cond t e) w =
     (if eval_lc p cond w = 0 then eval_lc_recipe p t w else eval_lc_recipe p e w)"
| "eval_lc_recipe p _ w = None"

section \<open>The forward pass\<close>

text \<open>A write \<^verbatim>\<open>w[i] = v\<close> panics out of range.\<close>

definition put :: "int list \<Rightarrow> nat \<Rightarrow> int \<Rightarrow> witness_error + int list" where
  "put w i v = (if i < length w then Inr (w[i := v]) else Inl IndexPanic)"

text \<open>Inputs are consumed positionally, in wire order.\<close>

fun load_inputs :: "nat \<Rightarrow> witness_op list \<Rightarrow> int list \<Rightarrow> int list \<Rightarrow> int list \<Rightarrow> witness_error + int list" where
  "load_inputs i [] pub priv w = Inr w"
| "load_inputs i (op # ops) pub priv w =
     (if i = 0 then load_inputs (Suc i) ops pub priv w
      else case op of
        LoadInput k is_public \<Rightarrow>
          (if is_public
           then (case pub of
                   [] \<Rightarrow> load_inputs (Suc i) ops pub priv w
                 | v # pub' \<Rightarrow> and_then (put w i v) (load_inputs (Suc i) ops pub' priv))
           else (case priv of
                   [] \<Rightarrow> load_inputs (Suc i) ops pub priv w
                 | v # priv' \<Rightarrow> and_then (put w i v) (load_inputs (Suc i) ops pub priv')))
      | _ \<Rightarrow> load_inputs (Suc i) ops pub priv w)"

text \<open>The hint \<^verbatim>\<open>BitDecompose\<close> writes one flag, whether the source is non-zero, to every
  destination.\<close>

fun exec_hint :: "int \<Rightarrow> int list \<Rightarrow> hint_op \<Rightarrow> int list" where
  "exec_hint p w (NonDeterministicInv s d) =
     (if s < length w \<and> d < length w \<and> w ! s \<noteq> 0 then w[d := inv_mod p (w ! s)] else w)"
| "exec_hint p w (AssignExpr d s) = (if s < length w \<and> d < length w then w[d := w ! s] else w)"
| "exec_hint p w (BitDecompose s dsts) =
     (if s < length w
      then let val_is_zero = (w ! s = 0)
           in foldl (\<lambda>w d. if d < length w then w[d := (if val_is_zero then 0 else 1)] else w) w dsts
      else w)"

definition exec_op :: "int \<Rightarrow> nat \<Rightarrow> witness_op \<Rightarrow> int list \<Rightarrow> witness_error + int list" where
  "exec_op p node_idx op w =
     (case op of
        WConst (m, v) \<Rightarrow> if m \<noteq> p then Inl ConstFieldMismatch else put w node_idx v
      | LoadInput _ _ \<Rightarrow> Inr w
      | WAdd a b \<Rightarrow> if a < length w \<and> b < length w then put w node_idx ((w ! a + w ! b) mod p) else Inr w
      | WSub a b \<Rightarrow> if a < length w \<and> b < length w then put w node_idx ((w ! a - w ! b) mod p) else Inr w
      | WMul a b \<Rightarrow> if a < length w \<and> b < length w then put w node_idx (w ! a * w ! b mod p) else Inr w
      | WDiv a b \<Rightarrow>
          if a < length w \<and> b < length w \<and> w ! b \<noteq> 0
          then put w node_idx (w ! a * inv_mod p (w ! b) mod p) else Inr w
      | WInv a \<Rightarrow> if a < length w \<and> w ! a \<noteq> 0 then put w node_idx (inv_mod p (w ! a)) else Inr w
      | HintBlock _ _ ops \<Rightarrow> Inr (foldl (exec_hint p) w ops)
      | AssertEq a b \<Rightarrow>
          if a < length w \<and> b < length w \<and> w ! a \<noteq> w ! b then Inl (AssertViolation a b) else Inr w
      | Unknown \<Rightarrow> Inr w
      | _ \<Rightarrow> (case eval_lc_recipe p op w of None \<Rightarrow> Inl UnreachableRecipe | Some v \<Rightarrow> put w node_idx v))"

fun exec_order :: "int \<Rightarrow> witness_op list \<Rightarrow> nat list \<Rightarrow> int list \<Rightarrow> witness_error + int list" where
  "exec_order p nodes [] w = Inr w"
| "exec_order p nodes (i # is) w =
     (if i = 0 \<or> length nodes \<le> i then exec_order p nodes is w
      else and_then (exec_op p i (nodes ! i) w) (exec_order p nodes is))"

definition execute_host_witness_ir :: "witness_ir \<Rightarrow> tagged list \<Rightarrow> tagged list \<Rightarrow> witness_error + int list" where
  "execute_host_witness_ir ir pub priv =
     (let p = wi_field ir
      in if list_ex (\<lambda>v. fst v \<noteq> p) (pub @ priv) then Inl InputFieldMismatch
         else let w0 = replicate (wi_num_signals ir) 0;
                  w1 = (if 0 < wi_num_signals ir then w0[0 := 1] else w0)
              in and_then (load_inputs 0 (wi_nodes ir) (map snd pub) (map snd priv) w1)
                   (exec_order p (wi_nodes ir) (wi_order ir)))"

section \<open>What a recipe reads and writes\<close>

definition lc_wire_list :: "lc \<Rightarrow> nat list" where
  "lc_wire_list l = map fst (lc_terms l)"

fun witness_op_deps :: "witness_op \<Rightarrow> nat list" where
  "witness_op_deps (WConst _) = []"
| "witness_op_deps Unknown = []"
| "witness_op_deps (LoadInput _ _) = []"
| "witness_op_deps (WAdd a b) = [a, b]"
| "witness_op_deps (WSub a b) = [a, b]"
| "witness_op_deps (WMul a b) = [a, b]"
| "witness_op_deps (WDiv a b) = [a, b]"
| "witness_op_deps (AssertEq a b) = [a, b]"
| "witness_op_deps (WInv a) = [a]"
| "witness_op_deps (HintBlock ins _ _) = ins"
| "witness_op_deps (IsZeroLc l) = lc_wire_list l"
| "witness_op_deps (InvOrZeroLc l) = lc_wire_list l"
| "witness_op_deps (BitOfLc l _) = lc_wire_list l"
| "witness_op_deps (IntDivLc a b) = lc_wire_list a @ lc_wire_list b"
| "witness_op_deps (IntModLc a b) = lc_wire_list a @ lc_wire_list b"
| "witness_op_deps (MulLc a b) = lc_wire_list a @ lc_wire_list b"
| "witness_op_deps (DivLc a b) = lc_wire_list a @ lc_wire_list b"
| "witness_op_deps (MulAddLc a b c) = lc_wire_list a @ lc_wire_list b @ lc_wire_list c"
| "witness_op_deps (IfZeroLc c t e) = lc_wire_list c @ witness_op_deps t @ witness_op_deps e"

fun hint_writes :: "hint_op \<Rightarrow> nat list" where
  "hint_writes (NonDeterministicInv s d) = [d]"
| "hint_writes (AssignExpr d s) = [d]"
| "hint_writes (BitDecompose s dsts) = dsts"

fun witness_op_writes :: "witness_op \<Rightarrow> nat list" where
  "witness_op_writes (IfZeroLc _ t e) = witness_op_writes t @ witness_op_writes e"
| "witness_op_writes (HintBlock _ outs ops) = outs @ concat (map hint_writes ops)"
| "witness_op_writes _ = []"

section \<open>Evaluation is the value modulo the field\<close>

lemma eval_lc_foldl:
  "foldl (\<lambda>s (i, c). (s + c * \<sigma> i mod p) mod p) a ts mod p = (a + term_sum \<sigma> ts) mod p"
proof (induction ts arbitrary: a)
  case Nil
  then show ?case by simp
next
  case (Cons t ts)
  obtain i c where t: "t = (i, c)" by force
  have "foldl (\<lambda>s (i, c). (s + c * \<sigma> i mod p) mod p) a (t # ts) mod p =
      ((a + c * \<sigma> i mod p) mod p + term_sum \<sigma> ts) mod p"
    using Cons.IH by (simp add: t)
  also have "\<dots> = ((a + c * \<sigma> i) + term_sum \<sigma> ts) mod p"
    by (metis mod_add_left_eq mod_add_right_eq)
  finally show ?case by (simp add: t add.assoc)
qed

lemma foldl_mod_range:
  "0 < p \<Longrightarrow> 0 \<le> a \<Longrightarrow> a < p \<Longrightarrow>
   0 \<le> foldl (\<lambda>s (i, c). (s + f i c) mod p) a ts \<and> foldl (\<lambda>s (i, c). (s + f i c) mod p) a ts < (p :: int)"
proof (induction ts arbitrary: a)
  case (Cons t ts)
  show ?case using Cons.IH [of "(case t of (i, c) \<Rightarrow> (a + f i c) mod p)"] Cons.prems by (cases t) simp
qed simp

lemma eval_lc_range: "0 < p \<Longrightarrow> 0 \<le> eval_lc p l w \<and> eval_lc p l w < p"
  using foldl_mod_range [of p 0 "\<lambda>i c. c * wire_val w i mod p" "lc_terms l"] by (simp add: eval_lc_def)

lemma eval_lc_sum: "0 < p \<Longrightarrow> eval_lc p l w = lc_sum (wire_val w) l mod p"
  using eval_lc_foldl [of "wire_val w" p 0 "lc_terms l"] eval_lc_range [of p l w]
  by (simp add: eval_lc_def lc_sum_def)

lemma eval_lc_cong: "(\<And>i. i \<in> lc_wires l \<Longrightarrow> wire_val w i = wire_val v i) \<Longrightarrow> 0 < p \<Longrightarrow> eval_lc p l w = eval_lc p l v"
  using lc_sum_cong [of l "wire_val w" "wire_val v"] by (simp add: eval_lc_sum)

lemma wire_val_0 [simp]: "wire_val w 0 = 1"
  by (simp add: wire_val_def)

lemma wire_val_update: "i < length w \<Longrightarrow> wire_val (w[i := v]) j = (if j = i \<and> j \<noteq> 0 then v else wire_val w j)"
  by (simp add: wire_val_def nth_list_update)

lemma set_lc_wire_list [simp]: "set (lc_wire_list l) = lc_wires l"
  by (simp add: lc_wire_list_def lc_wires_def)

text \<open>A recipe depends only on the wires it reads.\<close>

lemma eval_lc_recipe_cong:
  assumes "\<And>i. i \<in> set (witness_op_deps op) \<Longrightarrow> wire_val w i = wire_val v i" "0 < p"
  shows "eval_lc_recipe p op w = eval_lc_recipe p op v"
  using assms
proof (induction op)
  case (IfZeroLc c t e)
  have "eval_lc p c w = eval_lc p c v" using IfZeroLc.prems by (intro eval_lc_cong) auto
  then show ?case using IfZeroLc by simp
next
  case (IsZeroLc l)
  then show ?case using eval_lc_cong [of l w v p] by (simp add: Let_def)
next
  case (InvOrZeroLc l)
  then show ?case using eval_lc_cong [of l w v p] by (simp add: Let_def)
next
  case (BitOfLc l k)
  then show ?case using eval_lc_cong [of l w v p] by (simp add: Let_def)
next
  case (IntDivLc a b)
  then show ?case using eval_lc_cong [of a w v p] eval_lc_cong [of b w v p] by (simp add: Let_def)
next
  case (IntModLc a b)
  then show ?case using eval_lc_cong [of a w v p] eval_lc_cong [of b w v p] by (simp add: Let_def)
next
  case (MulAddLc a b c)
  then show ?case using eval_lc_cong [of a w v p] eval_lc_cong [of b w v p] eval_lc_cong [of c w v p] by simp
next
  case (DivLc a b)
  then show ?case using eval_lc_cong [of a w v p] eval_lc_cong [of b w v p] by (simp add: Let_def)
next
  case (MulLc a b)
  then show ?case using eval_lc_cong [of a w v p] eval_lc_cong [of b w v p] by (simp add: Let_def)
qed simp_all

end
