(* ===== verification/ZkSubst.thy ===== *)
theory ZkSubst
  imports ZkWitness
begin

text \<open>
  Rewriting wires: the free functions of \<^verbatim>\<open>src/zk_emitter.rs\<close> that the optimiser passes share.
  A renaming \<^verbatim>\<open>subst\<close> is a vector indexed by wire; an elimination is a vector \<^verbatim>\<open>sub_idx\<close> of
  indices into a vector of expressions, with \<^verbatim>\<open>u32::MAX\<close> (here \<open>None\<close>) where nothing changed.
  The facts: a rewritten combination has, under an assignment, the value the original has under
  the assignment that the rewriting induces, and stays in normal form; likewise for recipes.
\<close>

section \<open>Renaming\<close>

text \<open>\<^verbatim>\<open>subst.get(w)\<close>: a wire beyond the vector stays.\<close>

definition rename_at :: "nat list \<Rightarrow> nat \<Rightarrow> nat" where
  "rename_at s w = (if w < length s then s ! w else w)"

definition replace_wires_in_lc :: "int \<Rightarrow> nat list \<Rightarrow> lc \<Rightarrow> lc" where
  "replace_wires_in_lc p s l =
     (let ts = map (\<lambda>(w, c). (rename_at s w, c)) (lc_terms l);
          changed = list_ex (\<lambda>(w, c). rename_at s w \<noteq> w) (lc_terms l)
      in if changed then lc_simplify p \<lparr>lc_terms = ts, lc_simp = False\<rparr>
         else l)"

fun remap_hint :: "nat list \<Rightarrow> hint_op \<Rightarrow> hint_op" where
  "remap_hint s (NonDeterministicInv a d) = NonDeterministicInv (rename_at s a) (rename_at s d)"
| "remap_hint s (AssignExpr d a) = AssignExpr (rename_at s d) (rename_at s a)"
| "remap_hint s (BitDecompose a ds) = BitDecompose (rename_at s a) (map (rename_at s) ds)"

fun remap_witness_op :: "int \<Rightarrow> nat list \<Rightarrow> witness_op \<Rightarrow> witness_op" where
  "remap_witness_op p s (WConst v) = WConst v"
| "remap_witness_op p s Unknown = Unknown"
| "remap_witness_op p s (LoadInput k pub) = LoadInput k pub"
| "remap_witness_op p s (WAdd a b) = WAdd (rename_at s a) (rename_at s b)"
| "remap_witness_op p s (WSub a b) = WSub (rename_at s a) (rename_at s b)"
| "remap_witness_op p s (WMul a b) = WMul (rename_at s a) (rename_at s b)"
| "remap_witness_op p s (WDiv a b) = WDiv (rename_at s a) (rename_at s b)"
| "remap_witness_op p s (AssertEq a b) = AssertEq (rename_at s a) (rename_at s b)"
| "remap_witness_op p s (WInv a) = WInv (rename_at s a)"
| "remap_witness_op p s (HintBlock ins outs ops) =
     HintBlock (map (rename_at s) ins) (map (rename_at s) outs) (map (remap_hint s) ops)"
| "remap_witness_op p s (IsZeroLc l) = IsZeroLc (replace_wires_in_lc p s l)"
| "remap_witness_op p s (InvOrZeroLc l) = InvOrZeroLc (replace_wires_in_lc p s l)"
| "remap_witness_op p s (BitOfLc l k) = BitOfLc (replace_wires_in_lc p s l) k"
| "remap_witness_op p s (IntDivLc a b) = IntDivLc (replace_wires_in_lc p s a) (replace_wires_in_lc p s b)"
| "remap_witness_op p s (IntModLc a b) = IntModLc (replace_wires_in_lc p s a) (replace_wires_in_lc p s b)"
| "remap_witness_op p s (MulLc a b) = MulLc (replace_wires_in_lc p s a) (replace_wires_in_lc p s b)"
| "remap_witness_op p s (DivLc a b) = DivLc (replace_wires_in_lc p s a) (replace_wires_in_lc p s b)"
| "remap_witness_op p s (MulAddLc a b c) =
     MulAddLc (replace_wires_in_lc p s a) (replace_wires_in_lc p s b) (replace_wires_in_lc p s c)"
| "remap_witness_op p s (IfZeroLc c t e) =
     IfZeroLc (replace_wires_in_lc p s c) (remap_witness_op p s t) (remap_witness_op p s e)"

section \<open>Elimination\<close>

definition sub_at :: "nat option list \<Rightarrow> nat \<Rightarrow> nat option" where
  "sub_at sub w = (if w < length sub then sub ! w else None)"

text \<open>The loop shared by \<^verbatim>\<open>resolve_lc\<close> and \<^verbatim>\<open>substitute_lc\<close>.\<close>

definition expand_terms :: "int \<Rightarrow> nat option list \<Rightarrow> lc list \<Rightarrow> lc \<Rightarrow> (nat \<times> int) list \<Rightarrow> lc" where
  "expand_terms p sub exprs out ts =
     foldl (\<lambda>out (w, coeff). case sub_at sub w of
              Some i \<Rightarrow> lc_add_linear p out (exprs ! i) coeff
            | None \<Rightarrow> lc_add_term p out w coeff) out ts"

definition resolve_lc :: "int \<Rightarrow> lc \<Rightarrow> nat option list \<Rightarrow> lc list \<Rightarrow> lc option" where
  "resolve_lc p l sub exprs =
     (if list_ex (\<lambda>(w, c). sub_at sub w \<noteq> None) (lc_terms l)
      then Some (lc_simplify p (expand_terms p sub exprs lc_zero (lc_terms l)))
      else None)"

definition substitute_lc :: "int \<Rightarrow> nat option list \<Rightarrow> lc list \<Rightarrow> lc \<Rightarrow> lc" where
  "substitute_lc p sub exprs l =
     (if list_ex (\<lambda>(w, c). sub_at sub w \<noteq> None) (lc_terms l)
      then lc_simplify p (expand_terms p sub exprs lc_zero (lc_terms l))
      else l)"

text \<open>\<^verbatim>\<open>Vec::swap_remove\<close>: the last element takes the place of the removed one.\<close>

definition swap_remove :: "'a list \<Rightarrow> nat \<Rightarrow> 'a list" where
  "swap_remove xs i = butlast (xs[i := last xs])"

text \<open>\<^verbatim>\<open>substitute_one\<close>; \<open>None\<close> when the wire is not there. After \<^verbatim>\<open>swap_remove\<close> the flag may
  still claim an order that is gone, and a binary search of an unordered slice may miss a wire
  that is present; \<open>substitute_one_any_search\<close> shows that the result does not depend on it.\<close>

definition substitute_one :: "int \<Rightarrow> lc \<Rightarrow> nat \<Rightarrow> lc \<Rightarrow> lc option" where
  "substitute_one p l wire e =
     (case find_wire (lc_terms l) wire of
        None \<Rightarrow> None
      | Some pos \<Rightarrow>
          (let coeff = snd (lc_terms l ! pos);
               l1 = l\<lparr>lc_terms := swap_remove (lc_terms l) pos\<rparr>;
               l2 = lc_add_linear p l1 e coeff
           in Some (lc_simplify p (l2\<lparr>lc_simp := False\<rparr>))))"

fun witness_op_is_lc_only :: "witness_op \<Rightarrow> bool" where
  "witness_op_is_lc_only (WAdd _ _) = False"
| "witness_op_is_lc_only (WSub _ _) = False"
| "witness_op_is_lc_only (WMul _ _) = False"
| "witness_op_is_lc_only (WDiv _ _) = False"
| "witness_op_is_lc_only (WInv _) = False"
| "witness_op_is_lc_only (AssertEq _ _) = False"
| "witness_op_is_lc_only (HintBlock _ _ _) = False"
| "witness_op_is_lc_only (IfZeroLc _ t e) = (witness_op_is_lc_only t \<and> witness_op_is_lc_only e)"
| "witness_op_is_lc_only _ = True"

fun substitute_witness_op :: "int \<Rightarrow> nat option list \<Rightarrow> lc list \<Rightarrow> witness_op \<Rightarrow> witness_op" where
  "substitute_witness_op p sub es (IsZeroLc l) = IsZeroLc (substitute_lc p sub es l)"
| "substitute_witness_op p sub es (InvOrZeroLc l) = InvOrZeroLc (substitute_lc p sub es l)"
| "substitute_witness_op p sub es (BitOfLc l k) = BitOfLc (substitute_lc p sub es l) k"
| "substitute_witness_op p sub es (IntDivLc a b) = IntDivLc (substitute_lc p sub es a) (substitute_lc p sub es b)"
| "substitute_witness_op p sub es (IntModLc a b) = IntModLc (substitute_lc p sub es a) (substitute_lc p sub es b)"
| "substitute_witness_op p sub es (MulLc a b) = MulLc (substitute_lc p sub es a) (substitute_lc p sub es b)"
| "substitute_witness_op p sub es (DivLc a b) = DivLc (substitute_lc p sub es a) (substitute_lc p sub es b)"
| "substitute_witness_op p sub es (MulAddLc a b c) =
     MulAddLc (substitute_lc p sub es a) (substitute_lc p sub es b) (substitute_lc p sub es c)"
| "substitute_witness_op p sub es (IfZeroLc c t e) =
     IfZeroLc (substitute_lc p sub es c) (substitute_witness_op p sub es t) (substitute_witness_op p sub es e)"
| "substitute_witness_op p sub es op = op"

definition constraint_is_vacuous :: "int \<Rightarrow> con \<Rightarrow> bool" where
  "constraint_is_vacuous p c =
     (case (lc_is_constant p (con_a c), lc_is_constant p (con_b c), lc_is_constant p (con_c c)) of
        (Some a, Some b, Some cc) \<Rightarrow> a * b mod p = cc
      | (Some a, None, Some cc) \<Rightarrow> a = 0 \<and> cc = 0
      | (None, Some b, Some cc) \<Rightarrow> b = 0 \<and> cc = 0
      | _ \<Rightarrow> False)"

section \<open>Wires of the elementary operations\<close>

lemma set_update_wire: "i < length ts \<Longrightarrow> fst (ts ! i) = w \<Longrightarrow> fst ` set (ts[i := (w, c)]) = fst ` set ts"
  using map_fst_update [of i ts "(w, c)"] by (metis fst_conv list.set_map)

lemma lc_add_term_wires: "lc_wires (lc_add_term p l w v) \<subseteq> insert w (lc_wires l)"
proof (cases "if lc_simp l then find_wire (lc_terms l) w else None")
  case None
  then show ?thesis by (auto simp: lc_add_term_def lc_wires_def)
next
  case (Some i)
  then have "find_wire (lc_terms l) w = Some i" by (auto split: if_splits)
  from find_wire_Some [OF this] set_update_wire [of i "lc_terms l" w]
  show ?thesis using Some by (auto simp: lc_add_term_def lc_wires_def Let_def)
qed

lemma lc_add_linear_wires: "lc_wires (lc_add_linear p l m k) \<subseteq> lc_wires l \<union> lc_wires m"
proof (cases "merge_in_place p l m k")
  case None
  have "fst ` set (scale_terms p k (lc_terms m)) = fst ` set (lc_terms m)"
    using map_fst_scale [of p k "lc_terms m"] by (metis list.set_map)
  then show ?thesis using None by (auto simp: lc_add_linear_def lc_wires_def image_Un)
next
  case (Some r)
  have "map fst (lc_terms r) = map fst (lc_terms l)"
    using Some merge_terms_wires [of p k "lc_terms l" "lc_terms m" False]
    by (auto simp: merge_in_place_def split: if_splits prod.splits)
  then have "lc_wires r = lc_wires l" by (metis list.set_map lc_wires_def)
  moreover have "fst ` set (scale_terms p k (lc_terms m)) = fst ` set (lc_terms m)"
    using map_fst_scale [of p k "lc_terms m"] by (metis list.set_map)
  ultimately show ?thesis using Some by (auto simp: lc_add_linear_def lc_wires_def image_Un)
qed

text \<open>A combination in normal form: canonical, ascending, without zero coefficients.\<close>

definition lc_nf :: "int \<Rightarrow> lc \<Rightarrow> bool" where
  "lc_nf p l \<longleftrightarrow> lc_ok p l \<and> lc_simp l"

lemma lc_nf_simplify: "0 < p \<Longrightarrow> lc_ok p l \<Longrightarrow> lc_nf p (lc_simplify p l)"
  by (simp add: lc_nf_def lc_simplify_ok)

lemma lc_nf_terms: "lc_nf p l \<Longrightarrow> (w, c) \<in> set (lc_terms l) \<Longrightarrow> 0 < c \<and> c < p"
  by (force simp: lc_nf_def lc_ok_def lc_invariant_holds_def list_all_iff)

lemma lc_nf_distinct: "lc_nf p l \<Longrightarrow> distinct (map fst (lc_terms l))"
  by (auto simp add: lc_nf_def lc_ok_def lc_invariant_holds_def strictly_ascending_iff strict_sorted_iff)

lemma lc_ok_range: "\<forall>t\<in>set ts. 0 \<le> snd t \<and> snd t < p \<Longrightarrow> lc_ok p \<lparr>lc_terms = ts, lc_simp = False\<rparr>"
  by (simp add: lc_ok_def lc_invariant_holds_def)

section \<open>Values modulo the field\<close>

lemma term_sum_mod_cong:
  "(\<And>w. w \<in> fst ` set ts \<Longrightarrow> \<sigma> w mod p = \<tau> w mod p) \<Longrightarrow> term_sum \<sigma> ts mod p = term_sum \<tau> ts mod (p :: int)"
proof (induction ts)
  case (Cons t ts)
  have "\<sigma> (fst t) mod p = \<tau> (fst t) mod p" using Cons.prems by simp
  moreover have "term_sum \<sigma> ts mod p = term_sum \<tau> ts mod p" using Cons by simp
  ultimately show ?case by (simp only: term_sum_simps) (intro mod_add_cong mod_mult_cong refl)
qed simp

lemma lc_sum_mod_cong:
  "(\<And>w. w \<in> lc_wires l \<Longrightarrow> \<sigma> w mod p = \<tau> w mod p) \<Longrightarrow> lc_sum \<sigma> l mod p = lc_sum \<tau> l mod (p :: int)"
  unfolding lc_sum_def lc_wires_def by (rule term_sum_mod_cong) blast

text \<open>Satisfaction only sees the values of the three sides modulo the field.\<close>

lemma con_sat_values:
  assumes "lc_sum \<sigma> (con_a c) mod p = lc_sum \<tau> (con_a d) mod p" "lc_sum \<sigma> (con_b c) mod p = lc_sum \<tau> (con_b d) mod p"
    "lc_sum \<sigma> (con_c c) mod p = lc_sum \<tau> (con_c d) mod p"
  shows "con_sat p \<sigma> c = con_sat p \<tau> d"
  unfolding con_sat_def using assms mod_mult_cong [OF assms(1,2)] by simp

lemma con_sat_mod_cong:
  "(\<And>w. w \<in> con_wires c \<Longrightarrow> \<sigma> w mod p = \<tau> w mod p) \<Longrightarrow> con_sat p \<sigma> c = con_sat p \<tau> c"
  by (rule con_sat_values) (rule lc_sum_mod_cong, simp add: con_wires_def)+

lemma cons_sat_mod_cong: "(\<And>w. \<sigma> w mod p = \<tau> w mod p) \<Longrightarrow> cons_sat p \<sigma> cs = cons_sat p \<tau> cs"
  unfolding cons_sat_def using con_sat_mod_cong by blast

section \<open>Renaming\<close>

lemma term_sum_rename:
  "term_sum \<sigma> (map (\<lambda>(w, c). (f w, c)) ts) = term_sum (\<lambda>w. \<sigma> (f w)) ts"
  by (induction ts) auto

lemma replace_wires_sum:
  "lc_sum \<sigma> (replace_wires_in_lc p s l) mod p = lc_sum (\<lambda>w. \<sigma> (rename_at s w)) l mod p"
proof (cases "list_ex (\<lambda>(w, c). rename_at s w \<noteq> w) (lc_terms l)")
  case True
  then show ?thesis
    by (simp add: replace_wires_in_lc_def lc_simplify_sum) (simp add: lc_sum_def term_sum_rename)
next
  case False
  then have "lc_sum (\<lambda>w. \<sigma> (rename_at s w)) l = lc_sum \<sigma> l"
    by (intro lc_sum_cong) (auto simp: lc_wires_def list_ex_iff)
  then show ?thesis using False by (simp add: replace_wires_in_lc_def Let_def)
qed

lemma replace_wires_nf:
  assumes "0 < p" "lc_nf p l"
  shows "lc_nf p (replace_wires_in_lc p s l)"
proof -
  have "lc_ok p \<lparr>lc_terms = map (\<lambda>(w, c). (rename_at s w, c)) (lc_terms l), lc_simp = False\<rparr>"
    by (rule lc_ok_range) (use assms(2) in \<open>auto simp: lc_nf_def lc_ok_def\<close>)
  from lc_nf_simplify [OF assms(1) this] show ?thesis using assms(2) by (simp add: replace_wires_in_lc_def Let_def)
qed

lemma replace_wires_wires: "lc_wires (replace_wires_in_lc p s l) \<subseteq> rename_at s ` lc_wires l"
proof (cases "list_ex (\<lambda>(w, c). rename_at s w \<noteq> w) (lc_terms l)")
  case True
  have "lc_wires \<lparr>lc_terms = map (\<lambda>(w, c). (rename_at s w, c)) (lc_terms l), lc_simp = False\<rparr> = rename_at s ` lc_wires l"
    by (force simp: lc_wires_def)
  then show ?thesis
    using True lc_simplify_wires [of p "\<lparr>lc_terms = map (\<lambda>(w, c). (rename_at s w, c)) (lc_terms l), lc_simp = False\<rparr>"]
    by (simp add: replace_wires_in_lc_def)
next
  case False
  then have "\<forall>w\<in>lc_wires l. rename_at s w = w" by (auto simp: lc_wires_def list_ex_iff)
  then show ?thesis using False by (simp add: replace_wires_in_lc_def Let_def)
qed

text \<open>A renamed recipe computes on \<open>w\<close> what the recipe computes on the witness read through the
  renaming.\<close>

lemma remap_recipe_eval:
  assumes "0 < p" "\<And>i. wire_val v i mod p = wire_val w (rename_at s i) mod p"
  shows "eval_lc_recipe p (remap_witness_op p s op) w = eval_lc_recipe p op v"
proof -
  have "eval_lc p (replace_wires_in_lc p s l) w = eval_lc p l v" for l
  proof -
    have "lc_sum (\<lambda>i. wire_val w (rename_at s i)) l mod p = lc_sum (wire_val v) l mod p"
      by (rule lc_sum_mod_cong) (simp add: assms(2))
    then show ?thesis by (simp add: eval_lc_sum [OF assms(1)] replace_wires_sum)
  qed
  then show ?thesis by (induction op) (simp_all add: Let_def)
qed

section \<open>Elimination\<close>

text \<open>The assignment an elimination induces: an eliminated wire takes the value of its
  expression.\<close>

definition elim_assign :: "nat option list \<Rightarrow> lc list \<Rightarrow> (nat \<Rightarrow> int) \<Rightarrow> nat \<Rightarrow> int" where
  "elim_assign sub es \<sigma> w = (case sub_at sub w of Some i \<Rightarrow> lc_sum \<sigma> (es ! i) | None \<Rightarrow> \<sigma> w)"

lemma expand_terms_simps [simp]:
  "expand_terms p sub es out [] = out"
  "expand_terms p sub es out ((w, c) # ts) =
     expand_terms p sub es (case sub_at sub w of Some i \<Rightarrow> lc_add_linear p out (es ! i) c
                                               | None \<Rightarrow> lc_add_term p out w c) ts"
  by (simp_all add: expand_terms_def)

lemma expand_terms_sum:
  "lc_sum \<sigma> (expand_terms p sub es out ts) mod p = (lc_sum \<sigma> out + term_sum (elim_assign sub es \<sigma>) ts) mod p"
proof (induction ts arbitrary: out)
  case (Cons t ts)
  obtain w c where t: "t = (w, c)" by force
  let ?o = "case sub_at sub w of Some i \<Rightarrow> lc_add_linear p out (es ! i) c | None \<Rightarrow> lc_add_term p out w c"
  have "lc_sum \<sigma> ?o mod p = (lc_sum \<sigma> out + c * elim_assign sub es \<sigma> w) mod p"
    by (cases "sub_at sub w") (simp_all add: elim_assign_def lc_add_linear_sum lc_add_term_sum)
  then have "(lc_sum \<sigma> ?o + term_sum (elim_assign sub es \<sigma>) ts) mod p =
      (lc_sum \<sigma> out + c * elim_assign sub es \<sigma> w + term_sum (elim_assign sub es \<sigma>) ts) mod p"
    by (intro mod_add_cong refl)
  then show ?case using Cons.IH [of ?o] by (simp add: t add.assoc)
qed simp

text \<open>Every index points into the expressions, whose coefficients are canonical.\<close>

definition elim_ok :: "int \<Rightarrow> nat option list \<Rightarrow> lc list \<Rightarrow> bool" where
  "elim_ok p sub es \<longleftrightarrow> (\<forall>w i. sub_at sub w = Some i \<longrightarrow> i < length es \<and> lc_nf p (es ! i))"

lemma expand_terms_ok:
  assumes "is_prime p" "elim_ok p sub es"
  shows "lc_ok p out \<Longrightarrow> \<forall>t\<in>set ts. 0 \<le> snd t \<and> snd t < p \<Longrightarrow> lc_ok p (expand_terms p sub es out ts)"
proof (induction ts arbitrary: out)
  case (Cons t ts)
  obtain w c where t: "t = (w, c)" by force
  have c: "0 \<le> c" "c < p" using Cons.prems(2) t by auto
  have "lc_ok p (case sub_at sub w of Some i \<Rightarrow> lc_add_linear p out (es ! i) c | None \<Rightarrow> lc_add_term p out w c)"
  proof (cases "sub_at sub w")
    case None
    then show ?thesis using lc_add_term_ok [OF Cons.prems(1) c] by simp
  next
    case (Some i)
    then have "lc_ok p (es ! i)" using assms(2) by (auto simp: elim_ok_def lc_nf_def)
    then show ?thesis using Some lc_add_linear_ok [OF assms(1) Cons.prems(1) _ c] by simp
  qed
  then show ?case using Cons by (simp add: t)
qed simp

lemma expand_terms_wires:
  "lc_wires (expand_terms p sub es out ts) \<subseteq>
     lc_wires out \<union> (\<Union>w \<in> fst ` set ts. case sub_at sub w of Some i \<Rightarrow> lc_wires (es ! i) | None \<Rightarrow> {w})"
proof (induction ts arbitrary: out)
  case (Cons t ts)
  obtain w c where t: "t = (w, c)" by force
  let ?o = "case sub_at sub w of Some i \<Rightarrow> lc_add_linear p out (es ! i) c | None \<Rightarrow> lc_add_term p out w c"
  have "lc_wires ?o \<subseteq> lc_wires out \<union> (case sub_at sub w of Some i \<Rightarrow> lc_wires (es ! i) | None \<Rightarrow> {w})"
    using lc_add_linear_wires lc_add_term_wires by (cases "sub_at sub w") fastforce+
  then show ?case using Cons.IH [of ?o] by (auto simp: t)
qed simp

lemma substitute_lc_sum: "lc_sum \<sigma> (substitute_lc p sub es l) mod p = lc_sum (elim_assign sub es \<sigma>) l mod p"
proof (cases "list_ex (\<lambda>(w, c). sub_at sub w \<noteq> None) (lc_terms l)")
  case True
  then show ?thesis
    by (simp add: substitute_lc_def lc_simplify_sum expand_terms_sum) (simp add: lc_sum_def)
next
  case False
  then have "lc_sum (elim_assign sub es \<sigma>) l = lc_sum \<sigma> l"
    by (intro lc_sum_cong) (auto simp: lc_wires_def list_ex_iff elim_assign_def)
  then show ?thesis using False by (simp add: substitute_lc_def)
qed

lemma substitute_lc_nf:
  assumes "is_prime p" "elim_ok p sub es" "lc_nf p l"
  shows "lc_nf p (substitute_lc p sub es l)"
proof -
  have "lc_ok p (expand_terms p sub es lc_zero (lc_terms l))"
    by (rule expand_terms_ok [OF assms(1,2) lc_zero_ok]) (use assms(3) in \<open>simp add: lc_nf_def lc_ok_def\<close>)
  then show ?thesis using assms lc_nf_simplify [of p] by (simp add: substitute_lc_def)
qed

lemma substitute_lc_wires:
  "lc_wires (substitute_lc p sub es l) \<subseteq>
     (\<Union>w \<in> lc_wires l. case sub_at sub w of Some i \<Rightarrow> lc_wires (es ! i) | None \<Rightarrow> {w})"
proof (cases "list_ex (\<lambda>(w, c). sub_at sub w \<noteq> None) (lc_terms l)")
  case True
  then show ?thesis
    using expand_terms_wires [of p sub es lc_zero "lc_terms l"]
      lc_simplify_wires [of p "expand_terms p sub es lc_zero (lc_terms l)"]
    by (simp add: substitute_lc_def) (simp add: lc_wires_def lc_zero_def)
next
  case False
  then have "\<forall>w\<in>lc_wires l. sub_at sub w = None" by (auto simp: lc_wires_def list_ex_iff)
  then show ?thesis using False by (auto simp: substitute_lc_def)
qed

lemma resolve_lc_eq: "(case resolve_lc p l sub es of Some r \<Rightarrow> r | None \<Rightarrow> l) = substitute_lc p sub es l"
  by (simp add: resolve_lc_def substitute_lc_def)

text \<open>A recipe rewritten by an elimination computes on \<open>w\<close> what the recipe computes on the witness
  where the eliminated wires hold the values of their expressions.\<close>

lemma substitute_recipe_eval:
  assumes "0 < p" "\<And>i. wire_val v i mod p = elim_assign sub es (wire_val w) i mod p"
  shows "eval_lc_recipe p (substitute_witness_op p sub es op) w = eval_lc_recipe p op v"
proof -
  have "eval_lc p (substitute_lc p sub es l) w = eval_lc p l v" for l
  proof -
    have "lc_sum (elim_assign sub es (wire_val w)) l mod p = lc_sum (wire_val v) l mod p"
      by (rule lc_sum_mod_cong) (simp add: assms(2))
    then show ?thesis by (simp add: eval_lc_sum [OF assms(1)] substitute_lc_sum)
  qed
  then show ?thesis by (induction op) (simp_all add: Let_def)
qed

section \<open>One wire\<close>

lemma mset_swap_remove: "i < length xs \<Longrightarrow> add_mset (xs ! i) (mset (swap_remove xs i)) = mset xs"
proof -
  assume i: "i < length xs"
  let ?ys = "xs[i := last xs]"
  have ne: "?ys \<noteq> []" using i by auto
  have "last ?ys = last xs" using i by (subst last_list_update) auto
  then have "mset ?ys = add_mset (last xs) (mset (butlast ?ys))"
    using append_butlast_last_id [OF ne] by (metis mset.simps(2) mset_append union_mset_add_mset_right add.right_neutral mset.simps(1))
  moreover have "mset ?ys = add_mset (last xs) (mset xs - {#xs ! i#})" using i by (simp add: mset_update)
  ultimately have "mset (butlast ?ys) = mset xs - {#xs ! i#}" by simp
  then show ?thesis using i by (simp add: swap_remove_def)
qed

lemma swap_remove_sum: "i < length ts \<Longrightarrow> term_sum \<sigma> (swap_remove ts i) = term_sum \<sigma> ts - snd (ts ! i) * \<sigma> (fst (ts ! i))"
proof -
  assume "i < length ts"
  then have "mset (ts ! i # swap_remove ts i) = mset ts" using mset_swap_remove by simp
  from term_sum_mset [OF this, of \<sigma>] show ?thesis by simp
qed

lemma lc_add_linear_range:
  assumes "0 < p" "\<forall>t\<in>set (lc_terms l). 0 \<le> snd t \<and> snd t < p" "\<forall>t\<in>set (lc_terms m). 0 \<le> snd t \<and> snd t < p"
  shows "\<forall>t\<in>set (lc_terms (lc_add_linear p l m k)). 0 \<le> snd t \<and> snd t < p"
proof (cases "merge_in_place p l m k")
  case None
  then show ?thesis using assms scale_terms_range [OF assms(1), of _ k "lc_terms m"] by (auto simp: lc_add_linear_def)
next
  case (Some r)
  have "\<forall>t\<in>set (lc_terms r). 0 \<le> snd t \<and> snd t < p"
    using Some merge_terms_range [of p "lc_terms l" k "lc_terms m" False] assms
    by (auto simp: merge_in_place_def split: if_splits prod.splits)
  then show ?thesis using Some assms scale_terms_range [OF assms(1), of _ k "lc_terms m"]
    by (auto simp: lc_add_linear_def)
qed

lemma swap_remove_wires:
  assumes "distinct (map fst ts)" "i < length ts"
  shows "fst ` set (swap_remove ts i) = fst ` set ts - {fst (ts ! i)}"
proof -
  have "mset (fst (ts ! i) # map fst (swap_remove ts i)) = mset (map fst ts)"
    using mset_swap_remove [OF assms(2)] by (metis mset.simps(2) mset_map list.simps(9))
  then have "distinct (fst (ts ! i) # map fst (swap_remove ts i))" "set (fst (ts ! i) # map fst (swap_remove ts i)) = set (map fst ts)"
    using assms(1) mset_eq_imp_distinct_iff mset_eq_setD by blast+
  then have "fst (ts ! i) \<notin> fst ` set (swap_remove ts i)"
    "insert (fst (ts ! i)) (fst ` set (swap_remove ts i)) = fst ` set ts" by simp_all
  then show ?thesis by blast
qed

text \<open>The combination \<^verbatim>\<open>substitute_one\<close> hands to \<^verbatim>\<open>simplify\<close>.\<close>

lemma substitute_one_parts:
  assumes "lc_nf p l" "substitute_one p l wire e = Some r"
  obtains i where "i < length (lc_terms l)" "fst (lc_terms l ! i) = wire"
    "r = lc_simplify p ((lc_add_linear p (l\<lparr>lc_terms := swap_remove (lc_terms l) i\<rparr>) e (snd (lc_terms l ! i)))\<lparr>lc_simp := False\<rparr>)"
    "fst ` set (swap_remove (lc_terms l) i) = lc_wires l - {wire}"
proof -
  from assms(2) obtain i where i: "find_wire (lc_terms l) wire = Some i"
    by (auto simp: substitute_one_def split: option.splits)
  with find_wire_Some [OF i] swap_remove_wires [OF lc_nf_distinct [OF assms(1)], of i] assms(2) that show ?thesis
    by (auto simp: substitute_one_def Let_def lc_wires_def)
qed

lemma lc_sum_flag [simp]: "lc_sum \<sigma> (l\<lparr>lc_simp := b\<rparr>) = lc_sum \<sigma> l" and lc_wires_flag [simp]: "lc_wires (l\<lparr>lc_simp := b\<rparr>) = lc_wires l"
  by (simp_all add: lc_sum_def lc_wires_def)

lemma substitute_one_sum:
  assumes "lc_nf p l" "substitute_one p l wire e = Some r"
  shows "lc_sum \<sigma> r mod p = lc_sum (\<sigma>(wire := lc_sum \<sigma> e)) l mod p"
proof -
  obtain i where i: "i < length (lc_terms l)" "fst (lc_terms l ! i) = wire"
    "r = lc_simplify p ((lc_add_linear p (l\<lparr>lc_terms := swap_remove (lc_terms l) i\<rparr>) e (snd (lc_terms l ! i)))\<lparr>lc_simp := False\<rparr>)"
    and w: "fst ` set (swap_remove (lc_terms l) i) = lc_wires l - {wire}"
    by (rule substitute_one_parts [OF assms])
  let ?t = "\<sigma>(wire := lc_sum \<sigma> e)"
  have "term_sum ?t (swap_remove (lc_terms l) i) = term_sum \<sigma> (swap_remove (lc_terms l) i)"
    by (rule term_sum_cong) (use w in auto)
  then have "lc_sum ?t l = term_sum \<sigma> (swap_remove (lc_terms l) i) + snd (lc_terms l ! i) * lc_sum \<sigma> e"
    using swap_remove_sum [OF i(1), of ?t] i(2) by (simp add: lc_sum_def)
  then show ?thesis by (simp add: i(3) lc_simplify_sum lc_add_linear_sum) (simp add: lc_sum_def)
qed

lemma substitute_one_None: "substitute_one p l wire e = None \<longleftrightarrow> wire \<notin> lc_wires l"
  using find_wire_None [of "lc_terms l" wire] by (auto simp: substitute_one_def lc_wires_def Let_def split: option.splits)

lemma substitute_one_nf:
  assumes "0 < p" "lc_nf p l" "lc_nf p e" "substitute_one p l wire e = Some r"
  shows "lc_nf p r" "lc_wires r \<subseteq> (lc_wires l - {wire}) \<union> lc_wires e"
proof -
  obtain i where i: "i < length (lc_terms l)"
    and r: "r = lc_simplify p ((lc_add_linear p (l\<lparr>lc_terms := swap_remove (lc_terms l) i\<rparr>) e (snd (lc_terms l ! i)))\<lparr>lc_simp := False\<rparr>)"
    and w: "fst ` set (swap_remove (lc_terms l) i) = lc_wires l - {wire}"
    by (rule substitute_one_parts [OF assms(2,4)])
  let ?a = "lc_add_linear p (l\<lparr>lc_terms := swap_remove (lc_terms l) i\<rparr>) e (snd (lc_terms l ! i))"
  have "set (swap_remove (lc_terms l) i) \<subseteq> set (lc_terms l)"
    using mset_swap_remove [OF i] by (metis set_mset_mset set_mset_add_mset_insert subset_insertI)
  then have "\<forall>t\<in>set (lc_terms ?a). 0 \<le> snd t \<and> snd t < p"
    by (intro lc_add_linear_range) (use assms in \<open>auto simp: lc_nf_def lc_ok_def\<close>)
  then have "lc_ok p (?a\<lparr>lc_simp := False\<rparr>)" by (simp add: lc_ok_def lc_invariant_holds_def)
  then show "lc_nf p r" using lc_nf_simplify [OF assms(1)] r by simp
  have "lc_wires ?a \<subseteq> (lc_wires l - {wire}) \<union> lc_wires e"
    using lc_add_linear_wires [of p "l\<lparr>lc_terms := swap_remove (lc_terms l) i\<rparr>" e] w by (auto simp: lc_wires_def)
  then show "lc_wires r \<subseteq> (lc_wires l - {wire}) \<union> lc_wires e"
    using lc_simplify_wires [of p "?a\<lparr>lc_simp := False\<rparr>"] by (auto simp: r)
qed

text \<open>Whatever the searches of the unordered slice find, simplifying any canonical combination
  with the right value gives the same terms.\<close>

lemma substitute_one_any_search:
  assumes "0 < p" "lc_nf p l" "lc_nf p e" "substitute_one p l wire e = Some r"
    "\<forall>t\<in>set (lc_terms m). 0 \<le> snd t \<and> snd t < p"
    "\<And>\<sigma>. lc_sum \<sigma> m mod p = lc_sum (\<sigma>(wire := lc_sum \<sigma> e)) l mod p"
  shows "lc_terms (lc_simplify p (m\<lparr>lc_simp := False\<rparr>)) = lc_terms r"
proof (rule lc_normal_unique)
  have "lc_ok p (m\<lparr>lc_simp := False\<rparr>)" using assms(5) by (simp add: lc_ok_def lc_invariant_holds_def)
  from lc_nf_simplify [OF assms(1) this]
  show "lc_ok p (lc_simplify p (m\<lparr>lc_simp := False\<rparr>))" by (simp add: lc_nf_def)
  show "lc_ok p r" "lc_simp r" using substitute_one_nf(1) [OF assms(1-4)] by (simp_all add: lc_nf_def)
  show "lc_sum \<sigma> (lc_simplify p (m\<lparr>lc_simp := False\<rparr>)) mod p = lc_sum \<sigma> r mod p" for \<sigma>
    using assms(6) substitute_one_sum [OF assms(2,4)] by (simp add: lc_simplify_sum)
qed simp_all

section \<open>Vacuous constraints\<close>

lemma constraint_is_vacuous_sat:
  assumes "constraint_is_vacuous p c" "\<sigma> 0 = 1"
  shows "con_sat p \<sigma> c"
proof -
  note v = lc_is_constant_val [where \<sigma> = \<sigma>, OF _ assms(2)]
  obtain cc where cc: "lc_is_constant p (con_c c) = Some cc"
    using assms(1) by (auto simp: constraint_is_vacuous_def split: option.splits)
  note vc = v [OF cc]
  consider (both) a b where "lc_is_constant p (con_a c) = Some a" "lc_is_constant p (con_b c) = Some b" "a * b mod p = cc"
    | (left) "lc_is_constant p (con_a c) = Some 0" "cc = 0"
    | (right) "lc_is_constant p (con_b c) = Some 0" "cc = 0"
    using assms(1) cc by (auto simp: constraint_is_vacuous_def split: option.splits)
  then show ?thesis
  proof cases
    case both
    have "lc_sum \<sigma> (con_a c) * lc_sum \<sigma> (con_b c) mod p = a * b mod p"
      by (rule mod_mult_cong [OF v [OF both(1)] v [OF both(2)]])
    then show ?thesis using both(3) vc by (simp add: con_sat_def) (metis mod_mod_trivial)
  next
    case left
    have "lc_sum \<sigma> (con_a c) * lc_sum \<sigma> (con_b c) mod p = 0 * lc_sum \<sigma> (con_b c) mod p"
      by (rule mod_mult_cong [OF v [OF left(1)] refl])
    then show ?thesis using left vc by (simp add: con_sat_def)
  next
    case right
    have "lc_sum \<sigma> (con_a c) * lc_sum \<sigma> (con_b c) mod p = lc_sum \<sigma> (con_a c) * 0 mod p"
      by (rule mod_mult_cong [OF refl v [OF right(1)]])
    then show ?thesis using right vc by (simp add: con_sat_def)
  qed
qed

end
