(* ===== verification/ZkEmitter.thy ===== *)
theory ZkEmitter
  imports ZkSubst "HOL-Library.AList"
begin

text \<open>
  The state of \<^verbatim>\<open>ZkEmitter\<close> (\<^verbatim>\<open>src/zk_emitter.rs\<close>): the circuit under construction, its
  witness recipes and the lexical scopes, with the elementary operations on it. A \<^verbatim>\<open>HashMap\<close>
  that is iterated is an association list, whose order stands for the iteration order; one that
  is only looked up is a map.
\<close>

section \<open>State\<close>

datatype wire_binding = Wire nat | Linear lc

type_synonym recipes = "(nat \<times> witness_op) list"

type_synonym scope = "(string \<times> wire_binding) list"

record em =
  em_p :: int
  em_vars :: "string list"
  em_pub :: "nat list"
  em_prv :: "nat list"
  em_outs :: "nat list"
  em_cons :: "con list"
  em_next :: nat
  em_scopes :: "scope list"
  em_consts :: "string \<rightharpoonup> int"
  em_calls :: "string list"
  em_field :: scalar_field
  em_scheme :: proof_scheme
  em_hints :: "(nat \<times> (string \<times> span)) list"
  em_recipes :: recipes

text \<open>\<^verbatim>\<open>ZkEmitter::new\<close>, with the modulus of BN254 as the argument.\<close>

definition em_new :: "int \<Rightarrow> em" where
  "em_new p = \<lparr>em_p = p, em_vars = [''const_1''], em_pub = [], em_prv = [], em_outs = [], em_cons = [],
     em_next = 1, em_scopes = [[]], em_consts = Map.empty, em_calls = [], em_field = Bn254,
     em_scheme = R1cs, em_hints = [], em_recipes = []\<rparr>"

text \<open>\<^verbatim>\<open>HashMap::insert\<close> and \<^verbatim>\<open>entry(k).or_insert(v)\<close> on association lists.\<close>

abbreviation map_insert :: "'k \<Rightarrow> 'v \<Rightarrow> ('k \<times> 'v) list \<Rightarrow> ('k \<times> 'v) list" where
  "map_insert \<equiv> AList.update"

definition or_insert :: "'k \<Rightarrow> 'v \<Rightarrow> ('k \<times> 'v) list \<Rightarrow> ('k \<times> 'v) list" where
  "or_insert k v m = (case map_of m k of None \<Rightarrow> map_insert k v m | Some _ \<Rightarrow> m)"

section \<open>Constraints and wires\<close>

text \<open>A constraint that mentions a hint wire settles it.\<close>

definition settle_hints :: "lc \<Rightarrow> (nat \<times> (string \<times> span)) list \<Rightarrow> (nat \<times> (string \<times> span)) list" where
  "settle_hints l hs = foldl (\<lambda>hs (w, c). AList.delete w hs) hs (lc_terms l)"

definition add_constraint :: "con \<Rightarrow> em \<Rightarrow> em" where
  "add_constraint c s =
     (let hs = em_hints s;
          hs' = (if hs \<noteq> [] then settle_hints (con_c c) (settle_hints (con_b c) (settle_hints (con_a c) hs)) else hs)
      in s\<lparr>em_hints := hs', em_cons := em_cons s @ [c]\<rparr>)"

definition new_wire :: "string \<Rightarrow> em \<Rightarrow> nat \<times> em" where
  "new_wire name s =
     (let i = em_next s
      in (i, s\<lparr>em_next := i + 1, em_vars := em_vars s @ [name @ ''_'' @ nat_dec i]\<rparr>))"

definition set_witness_recipe :: "nat \<Rightarrow> witness_op \<Rightarrow> em \<Rightarrow> em" where
  "set_witness_recipe wire op s = s\<lparr>em_recipes := map_insert wire op (em_recipes s)\<rparr>"

definition push_constraint :: "lc \<Rightarrow> lc \<Rightarrow> lc \<Rightarrow> em \<Rightarrow> em" where
  "push_constraint a b c = add_constraint \<lparr>con_a = a, con_b = b, con_c = c, con_span = None\<rparr>"

section \<open>Scopes\<close>

definition enter_scope :: "em \<Rightarrow> em" where
  "enter_scope s = s\<lparr>em_scopes := em_scopes s @ [[]]\<rparr>"

definition exit_scope :: "em \<Rightarrow> em" where
  "exit_scope s = s\<lparr>em_scopes := butlast (em_scopes s)\<rparr>"

definition bind :: "string \<Rightarrow> wire_binding \<Rightarrow> em \<Rightarrow> em" where
  "bind name b s =
     (if em_scopes s = [] then s
      else s\<lparr>em_scopes := butlast (em_scopes s) @ [map_insert name b (last (em_scopes s))]\<rparr>)"

text \<open>The scopes are searched from the innermost outwards.\<close>

fun lookup_rev :: "scope list \<Rightarrow> string \<Rightarrow> wire_binding option" where
  "lookup_rev [] name = None"
| "lookup_rev (sc # scs) name = (case map_of sc name of Some b \<Rightarrow> Some b | None \<Rightarrow> lookup_rev scs name)"

definition lookup :: "em \<Rightarrow> string \<Rightarrow> wire_binding option" where
  "lookup s name = lookup_rev (rev (em_scopes s)) name"

fun update_rev :: "string \<Rightarrow> wire_binding \<Rightarrow> scope list \<Rightarrow> scope list option" where
  "update_rev name b [] = None"
| "update_rev name b (sc # scs) =
     (if map_of sc name \<noteq> None then Some (map_insert name b sc # scs)
      else map_option ((#) sc) (update_rev name b scs))"

definition bind_update :: "string \<Rightarrow> wire_binding \<Rightarrow> em \<Rightarrow> bool \<times> em" where
  "bind_update name b s =
     (case update_rev name b (rev (em_scopes s)) of
        Some scs \<Rightarrow> (True, s\<lparr>em_scopes := rev scs\<rparr>)
      | None \<Rightarrow> (False, s))"

definition binding_lc :: "wire_binding \<Rightarrow> lc" where
  "binding_lc b = (case b of Wire w \<Rightarrow> lc_variable w | Linear l \<Rightarrow> l)"

text \<open>\<^verbatim>\<open>lookup_in_scopes\<close>: an index past the stack panics on the slice.\<close>

definition lookup_in_scopes :: "scope list \<Rightarrow> nat \<Rightarrow> string \<Rightarrow> lc option option" where
  "lookup_in_scopes scs start name =
     (if length scs \<le> start then None
      else Some (map_option binding_lc (lookup_rev (rev (take (Suc start) scs)) name)))"

definition bind_to_scope :: "nat \<Rightarrow> string \<Rightarrow> wire_binding \<Rightarrow> em \<Rightarrow> em" where
  "bind_to_scope i name b s =
     (if i < length (em_scopes s)
      then s\<lparr>em_scopes := (em_scopes s)[i := map_insert name b (em_scopes s ! i)]\<rparr> else s)"

fun take_rev :: "string \<Rightarrow> nat \<Rightarrow> scope list \<Rightarrow> ((nat \<times> wire_binding) \<times> scope list) option" where
  "take_rev name n [] = None"
| "take_rev name n (sc # scs) =
     (case map_of sc name of
        Some b \<Rightarrow> Some ((n - 1, b), AList.delete name sc # scs)
      | None \<Rightarrow> map_option (\<lambda>(r, scs'). (r, sc # scs')) (take_rev name (n - 1) scs))"

definition take_binding_from_scope :: "string \<Rightarrow> em \<Rightarrow> (nat \<times> wire_binding) option \<times> em" where
  "take_binding_from_scope name s =
     (case take_rev name (length (em_scopes s)) (rev (em_scopes s)) of
        None \<Rightarrow> (None, s)
      | Some (r, scs) \<Rightarrow> (Some r, s\<lparr>em_scopes := rev scs\<rparr>))"

definition lookup_const :: "em \<Rightarrow> string \<Rightarrow> int option" where
  "lookup_const s name = em_consts s name"

section \<open>Circuits and what they accept\<close>

definition boundary_of :: "em \<Rightarrow> nat list" where
  "boundary_of s = em_pub s @ em_prv s @ em_outs s"

definition wires_ok :: "em \<Rightarrow> bool" where
  "wires_ok s \<longleftrightarrow> 0 < em_next s \<and> (\<forall>w\<in>set (boundary_of s). w < em_next s) \<and>
     (\<forall>c\<in>set (em_cons s). con_ok (em_p s) c \<and> (\<forall>w\<in>con_wires c. w < em_next s))"

text \<open>The boundary values for which some assignment satisfies every constraint.\<close>

definition accepts :: "em \<Rightarrow> int list \<Rightarrow> bool" where
  "accepts s vs \<longleftrightarrow> (\<exists>\<sigma>. \<sigma> 0 = 1 \<and> cons_sat (em_p s) \<sigma> (em_cons s) \<and> map \<sigma> (boundary_of s) = vs)"

lemma acceptsI: "\<sigma> 0 = 1 \<Longrightarrow> cons_sat (em_p s) \<sigma> (em_cons s) \<Longrightarrow> map \<sigma> (boundary_of s) = vs \<Longrightarrow> accepts s vs"
  unfolding accepts_def by blast

lemma acceptsE:
  assumes "accepts s vs"
  obtains \<sigma> where "\<sigma> 0 = 1" "cons_sat (em_p s) \<sigma> (em_cons s)" "map \<sigma> (boundary_of s) = vs"
  using assms unfolding accepts_def by blast

end
