(* ===== verification/ZkLinSub.thy ===== *)
theory ZkLinSub
  imports ZkEmitter
begin

text \<open>
  \<^verbatim>\<open>ZkEmitter::substitute_linear_constraints\<close> (\<^verbatim>\<open>src/zk_emitter.rs\<close>): one round of the linear
  substitution pass. A constraint that is linear once resolved through the eliminations of the
  round defines one of its wires; the wire is replaced by its expression everywhere, pushed
  back into the expressions that mention it, and the constraint is dropped. Vectors indexed by
  wire have length \<^verbatim>\<open>next_var_id\<close>; the circuits of the emitter mention no other wire.
  The facts: every satisfying assignment of the reduced system extends to one of the original
  system that agrees with it outside the eliminated wires, and every satisfying assignment of
  the original satisfies the reduced one.
\<close>

section \<open>Wires that a recipe reads by signal\<close>

fun hint_wires :: "hint_op \<Rightarrow> nat list" where
  "hint_wires (NonDeterministicInv s d) = [s, d]"
| "hint_wires (AssignExpr d s) = [s, d]"
| "hint_wires (BitDecompose s ds) = s # ds"

fun opaque_of :: "nat \<Rightarrow> witness_op \<Rightarrow> nat list" where
  "opaque_of wire (IfZeroLc c t e) = (if witness_op_is_lc_only (IfZeroLc c t e) then [] else [wire])"
| "opaque_of wire (WAdd a b) = [wire, a, b]"
| "opaque_of wire (WSub a b) = [wire, a, b]"
| "opaque_of wire (WMul a b) = [wire, a, b]"
| "opaque_of wire (WDiv a b) = [wire, a, b]"
| "opaque_of wire (AssertEq a b) = [wire, a, b]"
| "opaque_of wire (WInv a) = [wire, a]"
| "opaque_of wire (HintBlock ins outs ops) = wire # ins @ outs @ concat (map hint_wires ops)"
| "opaque_of wire op = []"

definition opaque_wires :: "recipes \<Rightarrow> nat list" where
  "opaque_wires rs = concat (map (\<lambda>(wire, op). opaque_of wire op) rs)"

section \<open>The definition a linear constraint gives\<close>

record lin_state =
  ls_sub :: "nat option list"
  ls_exprs :: "lc list"
  ls_elim :: "nat list"
  ls_renames :: "(nat \<times> nat) list"
  ls_uses :: "nat list list"
  ls_drop :: "bool list"

text \<open>\<open>A * B\<close> is linear when one side is a bare constant.\<close>

definition linear_side :: "int \<Rightarrow> lc \<Rightarrow> lc \<Rightarrow> (int \<times> lc) option" where
  "linear_side p a b =
     (case lc_is_constant p a of
        Some k \<Rightarrow> Some (k, b)
      | None \<Rightarrow> (case lc_is_constant p b of Some k \<Rightarrow> Some (k, a) | None \<Rightarrow> None))"

definition eligible :: "nat list \<Rightarrow> nat list \<Rightarrow> nat option list \<Rightarrow> nat \<Rightarrow> bool" where
  "eligible boundary opaque sub t \<longleftrightarrow>
     t \<noteq> 0 \<and> t < length sub \<and> sub ! t = None \<and> t \<notin> set boundary \<and> t \<notin> set opaque"

definition add_terms_scaled :: "int \<Rightarrow> int \<Rightarrow> lc \<Rightarrow> (nat \<times> int) list \<Rightarrow> lc" where
  "add_terms_scaled p k out ts = foldl (\<lambda>e (t, tc). lc_add_term p e t (tc * k mod p)) out ts"

text \<open>\<open>k * lin = C\<close> with \<open>C\<close> not a single wire: an equation, accepted only when it pins a wire to a
  constant.\<close>

definition pivot_equation :: "int \<Rightarrow> (nat \<Rightarrow> bool) \<Rightarrow> nat option list \<Rightarrow> lc list \<Rightarrow> int \<Rightarrow> lc \<Rightarrow> lc \<Rightarrow> (nat \<times> lc) option" where
  "pivot_equation p elig sub es k lin c =
     (let e = lc_simplify p (add_terms_scaled p ((0 - 1) mod p)
                (add_terms_scaled p k lc_zero (lc_terms lin)) (lc_terms c))
      in case find (\<lambda>(t, tc). elig t) (lc_terms e) of
           None \<Rightarrow> None
         | Some (w, e_w) \<Rightarrow>
             (let neg_inv = (0 - inv_mod p e_w) mod p;
                  expr = lc_simplify p (expand_terms p sub es lc_zero
                           (map (\<lambda>(t, tc). (t, tc * neg_inv mod p)) (filter (\<lambda>(t, tc). t \<noteq> w) (lc_terms e))))
              in if lc_is_constant p expr = None then None else Some (w, expr)))"

text \<open>\<open>k * lin = coeff_w * w\<close> with \<open>w\<close> eligible: \<open>w\<close> is defined by \<open>lin\<close>.\<close>

definition pivot_output :: "int \<Rightarrow> nat option list \<Rightarrow> lc list \<Rightarrow> int \<Rightarrow> lc \<Rightarrow> nat \<Rightarrow> int \<Rightarrow> (nat \<times> lc) option" where
  "pivot_output p sub es k lin w coeff_w =
     (if list_ex (\<lambda>(t, tc). t = w) (lc_terms lin) then None
      else let scale = (if coeff_w = 1 then k else k * inv_mod p coeff_w mod p);
               unit = (scale = 1);
               expr = lc_simplify p (expand_terms p sub es lc_zero
                        (map (\<lambda>(t, tc). (t, if unit then tc else tc * scale mod p)) (lc_terms lin)))
           in Some (w, expr))"

text \<open>\<open>u * 1 = v\<close> with \<open>v\<close> not eligible: the copy is collapsed by renaming \<open>u\<close>.\<close>

definition pivot_copy :: "(nat \<Rightarrow> bool) \<Rightarrow> int \<Rightarrow> lc \<Rightarrow> nat \<Rightarrow> int \<Rightarrow> (nat \<times> lc) option" where
  "pivot_copy elig k lin w coeff_w =
     (if k \<noteq> 1 \<or> coeff_w \<noteq> 1 \<or> length (lc_terms lin) \<noteq> 1 then None
      else let (u, cu) = lc_terms lin ! 0
           in if u = 0 \<or> cu \<noteq> 1 \<or> \<not> elig u then None else Some (u, lc_variable w))"

text \<open>The wire, its expression, and the recipe hand-over of a copy.\<close>

definition find_pivot ::
    "int \<Rightarrow> (nat \<Rightarrow> bool) \<Rightarrow> nat option list \<Rightarrow> lc list \<Rightarrow> int \<Rightarrow> lc \<Rightarrow> lc \<Rightarrow> ((nat \<times> lc) \<times> (nat \<times> nat) list) option" where
  "find_pivot p elig sub es k lin c =
     (if length (lc_terms c) \<noteq> 1 \<or> fst (lc_terms c ! 0) = 0
      then map_option (\<lambda>r. (r, [])) (pivot_equation p elig sub es k lin c)
      else let (w, coeff_w) = lc_terms c ! 0
           in if \<not> elig w
              then map_option (\<lambda>r. (r, [(fst r, w)])) (pivot_copy elig k lin w coeff_w)
              else map_option (\<lambda>r. (r, [])) (pivot_output p sub es k lin w coeff_w))"

section \<open>Recording an elimination\<close>

text \<open>How often a wire is mentioned, for the fill-in estimate.\<close>

definition occurrences :: "con list \<Rightarrow> nat \<Rightarrow> nat" where
  "occurrences cs w =
     length (filter (\<lambda>(t, tc). t \<noteq> 0 \<and> t = w)
       (concat (map (\<lambda>c. lc_terms (con_a c) @ lc_terms (con_b c) @ lc_terms (con_c c)) cs)))"

definition push_uses :: "nat \<Rightarrow> lc \<Rightarrow> nat list list \<Rightarrow> nat list list" where
  "push_uses j e uses =
     foldl (\<lambda>uses (t, tc). if t \<noteq> 0 then uses[t := uses ! t @ [j]] else uses) uses (lc_terms e)"

text \<open>Push the new definition into an expression written in terms of the wire.\<close>

definition back_substitute :: "int \<Rightarrow> nat \<Rightarrow> lc \<Rightarrow> lc list \<times> nat list list \<Rightarrow> nat \<Rightarrow> lc list \<times> nat list list" where
  "back_substitute p w source st j =
     (case substitute_one p (fst st ! j) w source of
        None \<Rightarrow> st
      | Some r \<Rightarrow> ((fst st)[j := r], push_uses j source (snd st)))"

definition record_pivot :: "int \<Rightarrow> nat \<Rightarrow> nat \<Rightarrow> nat \<Rightarrow> lc \<Rightarrow> lin_state \<Rightarrow> lin_state" where
  "record_pivot p n i w expr s =
     (let uses0 = (if ls_uses s = [] then replicate n [] else ls_uses s);
          idx = length (ls_exprs s);
          uses1 = push_uses idx expr uses0;
          exprs1 = ls_exprs s @ [expr];
          dependents = uses1 ! w;
          uses2 = uses1[w := []];
          (exprs2, uses3) = foldl (back_substitute p w expr) (exprs1, uses2) dependents
      in s\<lparr>ls_sub := (ls_sub s)[w := Some idx], ls_exprs := exprs2, ls_elim := ls_elim s @ [w],
           ls_uses := uses3, ls_drop := (ls_drop s)[i := True]\<rparr>)"

definition uses_len :: "nat list list \<Rightarrow> nat \<Rightarrow> nat" where
  "uses_len uses w = (if w < length uses then length (uses ! w) else 0)"

definition lin_step :: "int \<Rightarrow> nat \<Rightarrow> nat \<Rightarrow> nat list \<Rightarrow> nat list \<Rightarrow> con list \<Rightarrow> lin_state \<Rightarrow> nat \<times> con \<Rightarrow> lin_state" where
  "lin_step p n budget boundary opaque cs s ic =
     (let (i, c) = ic;
          a_ref = (case resolve_lc p (con_a c) (ls_sub s) (ls_exprs s) of Some r \<Rightarrow> r | None \<Rightarrow> con_a c);
          b_ref = (case resolve_lc p (con_b c) (ls_sub s) (ls_exprs s) of Some r \<Rightarrow> r | None \<Rightarrow> con_b c);
          c_ref = (case resolve_lc p (con_c c) (ls_sub s) (ls_exprs s) of Some r \<Rightarrow> r | None \<Rightarrow> con_c c)
      in case linear_side p a_ref b_ref of
           None \<Rightarrow> s
         | Some (k, lin) \<Rightarrow>
             if k = 0 then s
             else case find_pivot p (eligible boundary opaque (ls_sub s)) (ls_sub s) (ls_exprs s) k lin c_ref of
                    None \<Rightarrow> s
                  | Some ((w, expr), renames) \<Rightarrow>
                      (let s1 = s\<lparr>ls_renames := ls_renames s @ renames\<rparr>
                       in if list_ex (\<lambda>(t, tc). t = w) (lc_terms expr) then s1
                          else let sites = occurrences cs w + uses_len (ls_uses s) w;
                                   added = (sites - 1) * (length (lc_terms expr) - 1)
                               in if budget < added then s1 else record_pivot p n i w expr s1))"

definition lin_init :: "nat \<Rightarrow> con list \<Rightarrow> lin_state" where
  "lin_init n cs = \<lparr>ls_sub = replicate n None, ls_exprs = [], ls_elim = [], ls_renames = [],
     ls_uses = [], ls_drop = replicate (length cs) False\<rparr>"

definition lin_scan :: "int \<Rightarrow> nat \<Rightarrow> nat \<Rightarrow> nat list \<Rightarrow> nat list \<Rightarrow> con list \<Rightarrow> lin_state" where
  "lin_scan p n budget boundary opaque cs =
     foldl (lin_step p n budget boundary opaque cs) (lin_init n cs) (enumerate 0 cs)"

section \<open>Rewriting the circuit\<close>

definition substitute_con :: "int \<Rightarrow> nat option list \<Rightarrow> lc list \<Rightarrow> con \<Rightarrow> con" where
  "substitute_con p sub es c =
     c\<lparr>con_a := substitute_lc p sub es (con_a c), con_b := substitute_lc p sub es (con_b c),
       con_c := substitute_lc p sub es (con_c c)\<rparr>"

definition retain_unmarked :: "bool list \<Rightarrow> 'a list \<Rightarrow> 'a list" where
  "retain_unmarked marks xs = map snd (filter (\<lambda>(m, x). \<not> m) (zip marks xs))"

lemma retain_unmarked_set: "length marks = length xs \<Longrightarrow> set (retain_unmarked marks xs) = {xs ! i |i. i < length xs \<and> \<not> marks ! i}"
  by (force simp: retain_unmarked_def set_zip)

text \<open>A renamed intermediate hands its recipe to the wire it was collapsed into.\<close>

definition hand_over :: "recipes \<Rightarrow> nat \<times> nat \<Rightarrow> recipes" where
  "hand_over rs uv =
     (if map_of rs (snd uv) \<noteq> None then rs
      else case map_of rs (fst uv) of Some op \<Rightarrow> map_insert (snd uv) op rs | None \<Rightarrow> rs)"

definition substitute_recipes :: "int \<Rightarrow> nat option list \<Rightarrow> lc list \<Rightarrow> recipes \<Rightarrow> recipes" where
  "substitute_recipes p sub es rs =
     map (\<lambda>(w, op). (w, if sub_at sub w \<noteq> None then op else substitute_witness_op p sub es op)) rs"

definition record_recipes :: "lin_state \<Rightarrow> recipes \<Rightarrow> recipes" where
  "record_recipes ls rs =
     foldl (\<lambda>rs (n, w). map_insert w (MulLc (ls_exprs ls ! n) (lc_constant 1)) rs) rs (enumerate 0 (ls_elim ls))"

definition reduced_constraints :: "int \<Rightarrow> lin_state \<Rightarrow> con list \<Rightarrow> con list" where
  "reduced_constraints p ls cs =
     filter (\<lambda>c. \<not> constraint_is_vacuous p c)
       (map (substitute_con p (ls_sub ls) (ls_exprs ls)) (retain_unmarked (ls_drop ls) cs))"

definition substitute_linear_constraints :: "nat option \<Rightarrow> nat list \<Rightarrow> em \<Rightarrow> bool \<times> em" where
  "substitute_linear_constraints budget boundary s =
     (case budget of
        None \<Rightarrow> (False, s)
      | Some b \<Rightarrow>
          (let p = em_p s;
               ls = lin_scan p (em_next s) b boundary (opaque_wires (em_recipes s)) (em_cons s)
           in if ls_elim ls = [] then (False, s)
              else let rs1 = foldl hand_over (em_recipes s) (ls_renames ls);
                       rs2 = substitute_recipes p (ls_sub ls) (ls_exprs ls) rs1
                   in (True, s\<lparr>em_cons := reduced_constraints p ls (em_cons s),
                               em_recipes := record_recipes ls rs2\<rparr>)))"

end
