(* ===== verification/ZkDedup.thy ===== *)
theory ZkDedup
  imports ZkLinSub
begin

text \<open>
  \<^verbatim>\<open>ZkEmitter::dedup_identical_products\<close> (\<^verbatim>\<open>src/zk_emitter.rs\<close>): common-subexpression
  elimination. Constraints are hashed into an open-addressed table with linear probing; a
  constraint with the product of an earlier one is dropped and its output wire renamed. The
  facts: the table finds exactly the earlier constraint with the same product (so the scan
  equals a plain list search), every satisfying assignment of the original satisfies the
  reduced system, and the converse holds when the output wires of the products are distinct.
  Without that hypothesis an equation can be lost; \<open>ZkCircuitProps\<close> has the instance.
\<close>

section \<open>Hashing\<close>

definition fx_mix :: "u64 \<Rightarrow> u64 \<Rightarrow> u64" where
  "fx_mix hash w = xor (word_rotl 5 hash) w * 0x517cc1b727220a95"

text \<open>The four limbs of the Montgomery form.\<close>

definition mont_limbs :: "int \<Rightarrow> int \<Rightarrow> u64 list" where
  "mont_limbs p c = map (\<lambda>i. of_int (c * 2 ^ 256 mod p div 2 ^ (64 * i))) [0..<4]"

definition hash_term :: "int \<Rightarrow> u64 \<Rightarrow> nat \<times> int \<Rightarrow> u64" where
  "hash_term p h t = foldl fx_mix (fx_mix h (of_nat (fst t))) (mont_limbs p (snd t))"

definition hash_lc :: "int \<Rightarrow> lc \<Rightarrow> u64" where
  "hash_lc p l = foldl (hash_term p) (fx_mix 0 (of_nat (length (lc_terms l)))) (lc_terms l)"

section \<open>The table\<close>

text \<open>\<^verbatim>\<open>usize::next_power_of_two\<close>.\<close>

fun next_power_of_two :: "nat \<Rightarrow> nat" where
  "next_power_of_two n = (if n \<le> 1 then 1 else 2 * next_power_of_two ((n + 1) div 2))"

declare next_power_of_two.simps [simp del]

definition table_cap :: "nat \<Rightarrow> nat" where
  "table_cap n = max (next_power_of_two (n * 2)) 16"

text \<open>The home slot; masking with a power of two minus one is the remainder.\<close>

definition home_slot :: "int \<Rightarrow> nat \<Rightarrow> con \<Rightarrow> nat" where
  "home_slot p cap c =
     (let h = hash_lc p (con_a c) + hash_lc p (con_b c)
      in unat (xor h (drop_bit 29 h)) mod cap)"

definition same_product :: "con \<Rightarrow> con \<Rightarrow> bool" where
  "same_product c s \<longleftrightarrow>
     lc_eq (con_a c) (con_a s) \<and> lc_eq (con_b c) (con_b s) \<or>
     lc_eq (con_a c) (con_b s) \<and> lc_eq (con_b c) (con_a s)"

definition out_wire :: "con \<Rightarrow> nat" where
  "out_wire c = fst (lc_terms (con_c c) ! 0)"

text \<open>The products the pass looks at: \<open>C\<close> is one intermediate wire with coefficient one.\<close>

definition is_product :: "nat list \<Rightarrow> con \<Rightarrow> bool" where
  "is_product boundary c \<longleftrightarrow>
     length (lc_terms (con_c c)) = 1 \<and> snd (lc_terms (con_c c) ! 0) = 1 \<and>
     out_wire c \<noteq> 0 \<and> out_wire c \<notin> set boundary"

text \<open>Linear probing. The fuel is the size of the table, which \<open>probe_total\<close> shows to be
  enough: the table is never full.\<close>

fun probe :: "con list \<Rightarrow> nat option list \<Rightarrow> con \<Rightarrow> nat \<Rightarrow> nat \<Rightarrow> (nat \<times> nat option) option" where
  "probe cs seen c 0 slot = None"
| "probe cs seen c (Suc fuel) slot =
     (case seen ! slot of
        None \<Rightarrow> Some (slot, None)
      | Some e \<Rightarrow>
          if same_product c (cs ! e) then Some (slot, Some (out_wire (cs ! e)))
          else probe cs seen c fuel ((slot + 1) mod length seen))"

record dedup_state =
  dd_seen :: "nat option list"
  dd_repl :: "(nat \<times> nat) list"
  dd_dup :: "bool list"

definition dedup_step :: "int \<Rightarrow> nat list \<Rightarrow> con list \<Rightarrow> dedup_state \<Rightarrow> nat \<times> con \<Rightarrow> dedup_state" where
  "dedup_step p boundary cs d ic =
     (let (idx, c) = ic
      in if \<not> is_product boundary c then d
         else case probe cs (dd_seen d) c (length (dd_seen d)) (home_slot p (length (dd_seen d)) c) of
                None \<Rightarrow> d
              | Some (slot, Some wire_i) \<Rightarrow>
                  d\<lparr>dd_repl := map_insert (out_wire c) wire_i (dd_repl d), dd_dup := (dd_dup d)[idx := True]\<rparr>
              | Some (slot, None) \<Rightarrow> d\<lparr>dd_seen := (dd_seen d)[slot := Some idx]\<rparr>)"

definition dedup_scan :: "int \<Rightarrow> nat list \<Rightarrow> con list \<Rightarrow> dedup_state" where
  "dedup_scan p boundary cs =
     foldl (dedup_step p boundary cs)
       \<lparr>dd_seen = replicate (table_cap (length cs)) None, dd_repl = [], dd_dup = replicate (length cs) False\<rparr>
       (enumerate 0 cs)"

section \<open>Rewriting\<close>

definition rename_vector :: "nat \<Rightarrow> (nat \<times> nat) list \<Rightarrow> nat list" where
  "rename_vector n reps = foldl (\<lambda>s (old, new). if old < length s then s[old := new] else s) [0..<n] reps"

definition rename_con :: "int \<Rightarrow> nat list \<Rightarrow> con \<Rightarrow> con" where
  "rename_con p s c =
     c\<lparr>con_a := replace_wires_in_lc p s (con_a c), con_b := replace_wires_in_lc p s (con_b c),
       con_c := replace_wires_in_lc p s (con_c c)\<rparr>"

text \<open>A recipe attached to an eliminated wire belongs to the survivor.\<close>

definition remap_witness_recipes :: "int \<Rightarrow> (nat \<times> nat) list \<Rightarrow> nat list \<Rightarrow> recipes \<Rightarrow> recipes" where
  "remap_witness_recipes p reps s rs =
     (let rs1 = map (\<lambda>(w, op). (w, remap_witness_op p s op)) rs;
          moved = List.map_filter (\<lambda>(old, new). map_option (\<lambda>op. (new, op)) (map_of rs1 old)) reps
      in foldl (\<lambda>rs (new, op). or_insert new op rs) rs1 moved)"

definition dedup_round :: "nat list \<Rightarrow> em \<Rightarrow> em option" where
  "dedup_round boundary s =
     (let p = em_p s;
          d = dedup_scan p boundary (em_cons s)
      in if dd_repl d = [] then None
         else let sv = rename_vector (em_next s) (dd_repl d)
              in Some (s\<lparr>em_cons := map (rename_con p sv) (retain_unmarked (dd_dup d) (em_cons s)),
                         em_recipes := remap_witness_recipes p (dd_repl d) sv (em_recipes s)\<rparr>))"

fun dedup_rounds :: "nat \<Rightarrow> nat list \<Rightarrow> em \<Rightarrow> bool \<times> em" where
  "dedup_rounds 0 boundary s = (False, s)"
| "dedup_rounds (Suc n) boundary s =
     (case dedup_round boundary s of
        None \<Rightarrow> (False, s)
      | Some s' \<Rightarrow> (True, snd (dedup_rounds n boundary s')))"

text \<open>The counter stops the loop after the eleventh round.\<close>

definition dedup_identical_products :: "nat list \<Rightarrow> em \<Rightarrow> bool \<times> em" where
  "dedup_identical_products boundary s = dedup_rounds 11 boundary s"

section \<open>The table finds the earlier product\<close>

text \<open>The reference: a search of the list of constraints kept so far.\<close>

fun ref_scan :: "nat list \<Rightarrow> con list \<Rightarrow> (nat \<times> nat) list \<Rightarrow> bool list \<Rightarrow> con list \<Rightarrow> (nat \<times> nat) list \<times> bool list" where
  "ref_scan boundary kept reps dup [] = (reps, dup)"
| "ref_scan boundary kept reps dup (c # cs) =
     (if \<not> is_product boundary c then ref_scan boundary kept reps (dup @ [False]) cs
      else case find (same_product c) kept of
             Some s \<Rightarrow> ref_scan boundary kept (map_insert (out_wire c) (out_wire s) reps) (dup @ [True]) cs
           | None \<Rightarrow> ref_scan boundary (kept @ [c]) reps (dup @ [False]) cs)"

lemma same_product_equiv:
  "same_product c c"
  "same_product c d \<Longrightarrow> same_product d c"
  "same_product c d \<Longrightarrow> same_product d e \<Longrightarrow> same_product c e"
  by (auto simp: same_product_def lc_eq_def)

lemma hash_lc_eq: "lc_eq a b \<Longrightarrow> hash_lc p a = hash_lc p b"
  by (simp add: lc_eq_def hash_lc_def)

lemma same_product_home: "same_product c d \<Longrightarrow> home_slot p cap c = home_slot p cap d"
proof -
  assume "same_product c d"
  then consider "hash_lc p (con_a c) = hash_lc p (con_a d)" "hash_lc p (con_b c) = hash_lc p (con_b d)"
    | "hash_lc p (con_a c) = hash_lc p (con_b d)" "hash_lc p (con_b c) = hash_lc p (con_a d)"
    using hash_lc_eq by (auto simp: same_product_def)
  then show ?thesis by cases (simp_all add: home_slot_def add.commute)
qed

lemma next_power_of_two_ge: "n \<le> next_power_of_two n"
proof (induction n rule: next_power_of_two.induct)
  case (1 n)
  then show ?case by (cases "n \<le> 1") (auto simp: next_power_of_two.simps [of n])
qed

lemma table_cap_gt: "n < table_cap n" "0 < table_cap n"
  using next_power_of_two_ge [of "n * 2"] by (auto simp: table_cap_def)

text \<open>The walk from a home slot, and the first slot where it stops.\<close>

lemma probe_at:
  assumes stop: "\<forall>e. seen ! ((h + m) mod length seen) = Some e \<longrightarrow> same_product c (cs ! e)"
    and run: "\<forall>k<m. \<exists>e. seen ! ((h + k) mod length seen) = Some e \<and> \<not> same_product c (cs ! e)"
  shows "k \<le> m \<Longrightarrow> m - k < fuel \<Longrightarrow> probe cs seen c fuel ((h + k) mod length seen) =
    Some ((h + m) mod length seen, map_option (\<lambda>e. out_wire (cs ! e)) (seen ! ((h + m) mod length seen)))"
proof (induction fuel arbitrary: k)
  case (Suc fuel)
  show ?case
  proof (cases "k = m")
    case True
    then show ?thesis using stop by (auto split: option.splits)
  next
    case False
    then have "k < m" using Suc.prems(1) by simp
    then obtain e where "seen ! ((h + k) mod length seen) = Some e" "\<not> same_product c (cs ! e)" using run by blast
    moreover have "((h + k) mod length seen + 1) mod length seen = (h + Suc k) mod length seen"
      by (simp add: mod_Suc_eq)
    ultimately show ?thesis using Suc.IH [of "Suc k"] Suc.prems \<open>k < m\<close> by simp
  qed
qed simp

definition stops :: "con list \<Rightarrow> nat option list \<Rightarrow> con \<Rightarrow> nat \<Rightarrow> bool" where
  "stops cs seen c q \<longleftrightarrow> (\<forall>e. seen ! q = Some e \<longrightarrow> same_product c (cs ! e))"

lemma probe_first:
  assumes q: "q < length seen" "stops cs seen c q" and h: "h < length seen"
  obtains m where "m < length seen" "stops cs seen c ((h + m) mod length seen)"
    "\<forall>k<m. \<not> stops cs seen c ((h + k) mod length seen)"
    "probe cs seen c (length seen) h =
       Some ((h + m) mod length seen, map_option (\<lambda>e. out_wire (cs ! e)) (seen ! ((h + m) mod length seen)))"
proof -
  let ?cap = "length seen"
  have "(h + (q + ?cap - h) mod ?cap) mod ?cap = (h + (q + ?cap - h)) mod ?cap" by (rule mod_add_right_eq)
  also have "\<dots> = q" using q(1) h by simp
  finally have ex: "stops cs seen c ((h + (q + ?cap - h) mod ?cap) mod ?cap)" using q(2) by simp
  define m where "m = (LEAST m. stops cs seen c ((h + m) mod ?cap))"
  have m: "stops cs seen c ((h + m) mod ?cap)" unfolding m_def by (rule LeastI [of "\<lambda>m. stops cs seen c ((h + m) mod ?cap)", OF ex])
  have le: "m \<le> (q + ?cap - h) mod ?cap" unfolding m_def by (rule Least_le [of "\<lambda>m. stops cs seen c ((h + m) mod ?cap)", OF ex])
  have min: "\<forall>k<m. \<not> stops cs seen c ((h + k) mod ?cap)" unfolding m_def using not_less_Least by blast
  have "(q + ?cap - h) mod ?cap < ?cap" by (rule mod_less_divisor) (rule le_less_trans [OF le0 h])
  then have "m < ?cap" using le by simp
  moreover have "probe cs seen c ?cap ((h + 0) mod ?cap) =
      Some ((h + m) mod ?cap, map_option (\<lambda>e. out_wire (cs ! e)) (seen ! ((h + m) mod ?cap)))"
  proof (rule probe_at)
    show "\<forall>e. seen ! ((h + m) mod ?cap) = Some e \<longrightarrow> same_product c (cs ! e)" using m by (simp add: stops_def)
    show "\<forall>k<m. \<exists>e. seen ! ((h + k) mod ?cap) = Some e \<and> \<not> same_product c (cs ! e)"
      using min by (simp add: stops_def)
  qed (use \<open>m < ?cap\<close> in simp_all)
  ultimately show ?thesis using that m min h by simp
qed

text \<open>The table invariant: \<open>ks\<close> are the indices stored, each reachable from its home slot
  through occupied slots.\<close>

definition table_inv :: "int \<Rightarrow> con list \<Rightarrow> nat list \<Rightarrow> nat option list \<Rightarrow> bool" where
  "table_inv p cs ks seen \<longleftrightarrow>
     (\<forall>q e. q < length seen \<longrightarrow> seen ! q = Some e \<longrightarrow> e \<in> set ks) \<and>
     (\<forall>e\<in>set ks. \<exists>k. seen ! ((home_slot p (length seen) (cs ! e) + k) mod length seen) = Some e \<and>
        (\<forall>k'<k. seen ! ((home_slot p (length seen) (cs ! e) + k') mod length seen) \<noteq> None)) \<and>
     length (filter (\<lambda>x. x \<noteq> None) seen) = length ks"

lemma table_has_empty:
  "length (filter (\<lambda>x. x \<noteq> None) seen) < length seen \<Longrightarrow> \<exists>q < length seen. seen ! q = None"
proof (rule ccontr)
  assume l: "length (filter (\<lambda>x. x \<noteq> None) seen) < length seen" and "\<not> (\<exists>q < length seen. seen ! q = None)"
  then have "filter (\<lambda>x. x \<noteq> None) seen = seen" by (intro filter_True) (auto simp: in_set_conv_nth)
  then show False using l by simp
qed

lemma length_filter_update_None:
  "q < length seen \<Longrightarrow> seen ! q = None \<Longrightarrow>
   length (filter (\<lambda>x. x \<noteq> None) (seen[q := Some i])) = Suc (length (filter (\<lambda>x. x \<noteq> None) seen))"
proof (induction seen arbitrary: q)
  case (Cons x xs)
  then show ?case by (cases q) auto
qed simp

lemma home_slot_less: "0 < cap \<Longrightarrow> home_slot p cap c < cap"
  by (simp add: home_slot_def Let_def)

text \<open>A probe returns the stored constraint with the same product when there is one, and
  otherwise an empty slot that keeps the invariant.\<close>

lemma probe_total:
  assumes inv: "table_inv p cs ks seen" and room: "length ks < length seen"
    and uniq: "\<forall>d\<in>set ks. \<forall>e\<in>set ks. same_product (cs ! d) (cs ! e) \<longrightarrow> d = e"
  shows "(\<exists>slot e. probe cs seen c (length seen) (home_slot p (length seen) c) = Some (slot, Some (out_wire (cs ! e))) \<and>
            e \<in> set ks \<and> same_product c (cs ! e)) \<or>
         (\<exists>slot. probe cs seen c (length seen) (home_slot p (length seen) c) = Some (slot, None) \<and>
            (\<forall>e\<in>set ks. \<not> same_product c (cs ! e)) \<and>
            (\<forall>i. cs ! i = c \<longrightarrow> table_inv p cs (ks @ [i]) (seen[slot := Some i])))"
proof -
  let ?cap = "length seen" and ?h = "home_slot p (length seen) c"
  have cap: "0 < ?cap" using room by (rule le_less_trans [OF le0])
  have h: "?h < ?cap" by (rule home_slot_less [OF cap])
  have cnt: "length (filter (\<lambda>x. x \<noteq> None) seen) = length ks" using inv by (simp add: table_inv_def)
  then obtain q where q: "q < ?cap" "seen ! q = None" using table_has_empty [of seen] room by auto
  have "stops cs seen c q" using q by (simp add: stops_def)
  then obtain m where m: "m < ?cap" "stops cs seen c ((?h + m) mod ?cap)"
    and run: "\<forall>k<m. \<not> stops cs seen c ((?h + k) mod ?cap)"
    and pr: "probe cs seen c ?cap ?h = Some ((?h + m) mod ?cap, map_option (\<lambda>e. out_wire (cs ! e)) (seen ! ((?h + m) mod ?cap)))"
    by (rule probe_first [OF q(1) _ h])
  let ?s = "(?h + m) mod ?cap"
  have s: "?s < ?cap" using cap by simp
  show ?thesis
  proof (cases "seen ! ?s")
    case (Some e)
    then have "e \<in> set ks" "same_product c (cs ! e)" using inv s m(2) by (auto simp: table_inv_def stops_def)
    then show ?thesis using pr Some by auto
  next
    case None
    have miss: "\<not> same_product c (cs ! e)" if e: "e \<in> set ks" for e
    proof
      assume same: "same_product c (cs ! e)"
      obtain k where k: "seen ! ((home_slot p ?cap (cs ! e) + k) mod ?cap) = Some e"
        "\<forall>k'<k. seen ! ((home_slot p ?cap (cs ! e) + k') mod ?cap) \<noteq> None"
        using inv e by (auto simp: table_inv_def)
      have home: "home_slot p ?cap (cs ! e) = ?h" by (rule same_product_home [symmetric, OF same])
      have "stops cs seen c ((?h + k) mod ?cap)" using k(1) same by (simp add: stops_def home)
      then have "m \<le> k" using run by (meson not_le)
      show False
      proof (cases "m = k")
        case True
        then show ?thesis using k(1) None by (simp add: home)
      next
        case False
        then have "m < k" using \<open>m \<le> k\<close> by simp
        from k(2) [rule_format, OF this] None show ?thesis by (simp add: home)
      qed
    qed
    have "table_inv p cs (ks @ [i]) (seen[?s := Some i])" if i: "cs ! i = c" for i
      unfolding table_inv_def
    proof (intro conjI allI impI ballI)
      show "e \<in> set (ks @ [i])" if "r < length (seen[?s := Some i])" "seen[?s := Some i] ! r = Some e" for r e
        using that inv by (cases "r = ?s") (auto simp: table_inv_def)
      show "length (filter (\<lambda>x. x \<noteq> None) (seen[?s := Some i])) = length (ks @ [i])"
        using cnt length_filter_update_None [OF s None] by simp
      fix e assume e: "e \<in> set (ks @ [i])"
      show "\<exists>k. seen[?s := Some i] ! ((home_slot p (length (seen[?s := Some i])) (cs ! e) + k) mod length (seen[?s := Some i])) = Some e \<and>
        (\<forall>k'<k. seen[?s := Some i] ! ((home_slot p (length (seen[?s := Some i])) (cs ! e) + k') mod length (seen[?s := Some i])) \<noteq> None)"
      proof (cases "e \<in> set ks")
        case True
        then obtain k where k: "seen ! ((home_slot p ?cap (cs ! e) + k) mod ?cap) = Some e"
          "\<forall>k'<k. seen ! ((home_slot p ?cap (cs ! e) + k') mod ?cap) \<noteq> None"
          using inv by (auto simp: table_inv_def)
        have "seen[?s := Some i] ! r \<noteq> None" if "seen ! r \<noteq> None" for r
          using that by (cases "r = ?s") (use s in auto)
        moreover have "seen[?s := Some i] ! ((home_slot p ?cap (cs ! e) + k) mod ?cap) = Some e"
          using k(1) None by (cases "(home_slot p ?cap (cs ! e) + k) mod ?cap = ?s") auto
        ultimately show ?thesis using k(2) by (intro exI [of _ k]) auto
      next
        case False
        then have "e = i" using e by simp
        moreover have "seen[?s := Some i] ! ((?h + k') mod ?cap) \<noteq> None" if "k' < m" for k'
        proof -
          have "seen ! ((?h + k') mod ?cap) \<noteq> None" using run that by (auto simp: stops_def)
          then show ?thesis using s by (cases "(?h + k') mod ?cap = ?s") auto
        qed
        ultimately show ?thesis using i s by (intro exI [of _ m]) auto
      qed
    qed
    then show ?thesis using pr None miss by auto
  qed
qed

text \<open>The scan with the table equals the scan with the list.\<close>

definition dedup_inv :: "int \<Rightarrow> nat list \<Rightarrow> con list \<Rightarrow> nat \<Rightarrow> nat list \<Rightarrow> dedup_state \<Rightarrow> bool" where
  "dedup_inv p boundary cs i ks d \<longleftrightarrow>
     table_inv p cs ks (dd_seen d) \<and> length ks \<le> i \<and> length (dd_seen d) = table_cap (length cs) \<and>
     (\<forall>x\<in>set ks. \<forall>y\<in>set ks. same_product (cs ! x) (cs ! y) \<longrightarrow> x = y) \<and> (\<forall>x\<in>set ks. x < i) \<and>
     length (dd_dup d) = length cs \<and> (\<forall>j < length cs. i \<le> j \<longrightarrow> \<not> dd_dup d ! j)"

lemma find_unique:
  assumes "e \<in> set ks" "P (f e)" "\<forall>x\<in>set ks. P (f x) \<longrightarrow> x = e"
  shows "find P (map f ks) = Some (f e)"
  using assms
proof (induction ks)
  case (Cons k ks)
  show ?case
  proof (cases "P (f k)")
    case True
    have "k = e" using Cons.prems(3) True by (metis list.set_intros(1))
    then show ?thesis using True by simp
  next
    case False
    have "e \<noteq> k" using False Cons.prems(2) by metis
    then have "e \<in> set ks" using Cons.prems(1) by (metis set_ConsD)
    moreover have "\<forall>x\<in>set ks. P (f x) \<longrightarrow> x = e" using Cons.prems(3) by (metis list.set_intros(2))
    ultimately have "find P (map f ks) = Some (f e)" by (rule Cons.IH [OF _ Cons.prems(2)])
    then show ?thesis using False by (simp only: list.map find.simps if_False)
  qed
qed simp

lemma take_update_snoc: "i < length xs \<Longrightarrow> take (Suc i) (xs[i := x]) = take i xs @ [x]"
  by (simp add: take_Suc_conv_app_nth)

lemma dedup_fold_ref:
  assumes "dedup_inv p boundary cs i ks d" "i + length rest = length cs" "\<forall>j < length rest. rest ! j = cs ! (i + j)"
  shows "(dd_repl (foldl (dedup_step p boundary cs) d (enumerate i rest)),
          dd_dup (foldl (dedup_step p boundary cs) d (enumerate i rest))) =
    ref_scan boundary (map ((!) cs) ks) (dd_repl d) (take i (dd_dup d)) rest"
  using assms
proof (induction rest arbitrary: i ks d)
  case Nil
  then show ?case by (simp add: dedup_inv_def)
next
  case (Cons c rest)
  have c: "c = cs ! i" using Cons.prems(3) [rule_format, of 0] by simp
  have i: "i < length cs" using Cons.prems(2) by simp
  have rest: "Suc i + length rest = length cs" using Cons.prems(2) by simp
  have rest': "\<forall>j < length rest. rest ! j = cs ! (Suc i + j)"
  proof (intro allI impI)
    fix j assume "j < length rest"
    then show "rest ! j = cs ! (Suc i + j)" using Cons.prems(3) [rule_format, of "Suc j"] by simp
  qed
  note inv = Cons.prems(1) [unfolded dedup_inv_def]
  have dup: "take (Suc i) (dd_dup d) = take i (dd_dup d) @ [False]"
    using inv i by (simp add: take_Suc_conv_app_nth)
  show ?case
  proof (cases "is_product boundary c")
    case False
    have "dedup_inv p boundary cs (Suc i) ks d" using Cons.prems(1) by (auto simp: dedup_inv_def)
    from Cons.IH [OF this rest rest'] False dup show ?thesis by (simp add: dedup_step_def)
  next
    case True
    have room: "length ks < length (dd_seen d)" using inv i table_cap_gt(1) [of "length cs"] by simp
    let ?h = "home_slot p (length (dd_seen d)) c"
    consider (hit) slot e where "probe cs (dd_seen d) c (length (dd_seen d)) ?h = Some (slot, Some (out_wire (cs ! e)))"
        "e \<in> set ks" "same_product c (cs ! e)"
      | (miss) slot where "probe cs (dd_seen d) c (length (dd_seen d)) ?h = Some (slot, None)"
        "\<forall>e\<in>set ks. \<not> same_product c (cs ! e)" "table_inv p cs (ks @ [i]) ((dd_seen d)[slot := Some i])"
      using probe_total [of p cs ks "dd_seen d" c] inv room c by blast
    then show ?thesis
    proof cases
      case hit
      let ?d = "d\<lparr>dd_repl := map_insert (out_wire c) (out_wire (cs ! e)) (dd_repl d), dd_dup := (dd_dup d)[i := True]\<rparr>"
      have step: "dedup_step p boundary cs d (i, c) = ?d" using True hit(1) by (simp add: dedup_step_def)
      have "\<forall>x\<in>set ks. same_product c (cs ! x) \<longrightarrow> x = e"
        using inv hit(2,3) same_product_equiv(2,3) by blast
      from find_unique [of e ks "same_product c" "(!) cs", OF hit(2,3) this]
      have f: "find (same_product c) (map ((!) cs) ks) = Some (cs ! e)" .
      have "dedup_inv p boundary cs (Suc i) ks ?d" using inv by (auto simp: dedup_inv_def)
      from Cons.IH [OF this rest rest'] True f take_update_snoc [of i "dd_dup d" True] i inv
      show ?thesis by (simp add: step)
    next
      case miss
      let ?d = "d\<lparr>dd_seen := (dd_seen d)[slot := Some i]\<rparr>"
      have step: "dedup_step p boundary cs d (i, c) = ?d" using True miss(1) by (simp add: dedup_step_def)
      have f: "find (same_product c) (map ((!) cs) ks) = None" using miss(2) by (auto simp: find_None_iff)
      have "\<forall>x\<in>set (ks @ [i]). \<forall>y\<in>set (ks @ [i]). same_product (cs ! x) (cs ! y) \<longrightarrow> x = y"
        using inv miss(2) c same_product_equiv(2) by auto
      then have "dedup_inv p boundary cs (Suc i) (ks @ [i]) ?d"
        using inv miss(3) by (auto simp: dedup_inv_def)
      from Cons.IH [OF this rest rest'] True f dup show ?thesis by (simp add: step flip: c)
    qed
  qed
qed

lemma dedup_scan_ref:
  "(dd_repl (dedup_scan p boundary cs), dd_dup (dedup_scan p boundary cs)) = ref_scan boundary [] [] [] cs"
proof -
  have "dedup_inv p boundary cs 0 [] \<lparr>dd_seen = replicate (table_cap (length cs)) None, dd_repl = [], dd_dup = replicate (length cs) False\<rparr>"
    by (simp add: dedup_inv_def table_inv_def)
  from dedup_fold_ref [OF this, of cs] show ?thesis by (simp add: dedup_scan_def)
qed

section \<open>What the scan records\<close>

definition scan_spec :: "nat list \<Rightarrow> con list \<Rightarrow> (nat \<times> nat) list \<Rightarrow> bool list \<Rightarrow> bool" where
  "scan_spec boundary cs reps dup \<longleftrightarrow> length dup = length cs \<and> distinct (map fst reps) \<and>
     (\<forall>i < length cs. dup ! i \<longrightarrow> is_product boundary (cs ! i) \<and> map_of reps (out_wire (cs ! i)) \<noteq> None) \<and>
     (\<forall>old new. map_of reps old = Some new \<longrightarrow> (\<exists>i k. i < length cs \<and> k < length cs \<and> dup ! i \<and> \<not> dup ! k \<and>
        is_product boundary (cs ! i) \<and> is_product boundary (cs ! k) \<and> same_product (cs ! i) (cs ! k) \<and>
        old = out_wire (cs ! i) \<and> new = out_wire (cs ! k)))"

lemma scan_spec_keep:
  "scan_spec boundary cs reps dup \<Longrightarrow> scan_spec boundary (cs @ [c]) reps (dup @ [False])"
  unfolding scan_spec_def by (auto simp: nth_append less_Suc_eq) (metis nth_append less_Suc_eq)+

lemma scan_spec_drop:
  assumes sp: "scan_spec boundary cs reps dup" and c: "is_product boundary c"
    and k: "k < length cs" "\<not> dup ! k" "is_product boundary (cs ! k)" "same_product c (cs ! k)"
  shows "scan_spec boundary (cs @ [c]) (map_insert (out_wire c) (out_wire (cs ! k)) reps) (dup @ [True])"
  unfolding scan_spec_def
proof (intro conjI allI impI)
  show "length (dup @ [True]) = length (cs @ [c])" using sp by (simp add: scan_spec_def)
  show "distinct (map fst (map_insert (out_wire c) (out_wire (cs ! k)) reps))"
    using sp by (simp add: scan_spec_def distinct_update)
  fix i assume i: "i < length (cs @ [c])" "(dup @ [True]) ! i"
  show "is_product boundary ((cs @ [c]) ! i)" "map_of (map_insert (out_wire c) (out_wire (cs ! k)) reps) (out_wire ((cs @ [c]) ! i)) \<noteq> None"
    using i sp c by (auto simp: scan_spec_def nth_append less_Suc_eq update_conv')
next
  fix old new assume m: "map_of (map_insert (out_wire c) (out_wire (cs ! k)) reps) old = Some new"
  have len: "length dup = length cs" using sp by (simp add: scan_spec_def)
  let ?cs = "cs @ [c]" and ?dup = "dup @ [True]"
  show "\<exists>i k. i < length ?cs \<and> k < length ?cs \<and> ?dup ! i \<and> \<not> ?dup ! k \<and> is_product boundary (?cs ! i) \<and>
      is_product boundary (?cs ! k) \<and> same_product (?cs ! i) (?cs ! k) \<and> old = out_wire (?cs ! i) \<and> new = out_wire (?cs ! k)"
  proof (cases "old = out_wire c")
    case True
    then show ?thesis using m k c len
      by (intro exI [of _ "length cs"] exI [of _ k]) (simp add: nth_append update_conv')
  next
    case False
    then have "map_of reps old = Some new" using m by (simp add: update_conv')
    then obtain i k where "i < length cs" "k < length cs" "dup ! i" "\<not> dup ! k" "is_product boundary (cs ! i)"
      "is_product boundary (cs ! k)" "same_product (cs ! i) (cs ! k)" "old = out_wire (cs ! i)" "new = out_wire (cs ! k)"
      using sp unfolding scan_spec_def by blast
    then show ?thesis using len by (intro exI [of _ i] exI [of _ k]) (simp add: nth_append)
  qed
qed

lemma ref_scan_spec:
  assumes "scan_spec boundary pre reps dup"
    "\<forall>s\<in>set kept. \<exists>k < length pre. s = pre ! k \<and> \<not> dup ! k \<and> is_product boundary s"
    "ref_scan boundary kept reps dup rest = (reps', dup')"
  shows "scan_spec boundary (pre @ rest) reps' dup'"
  using assms
proof (induction rest arbitrary: pre kept reps dup)
  case Nil
  then show ?case by simp
next
  case (Cons c rest)
  have len: "length dup = length pre" using Cons.prems(1) by (simp add: scan_spec_def)
  have old: "\<forall>s\<in>set kept. \<exists>k < length (pre @ [c]). s = (pre @ [c]) ! k \<and> \<not> (dup @ [b]) ! k \<and> is_product boundary s" for b
    using Cons.prems(2) len by (metis length_append_singleton less_SucI nth_append)
  show ?case
  proof (cases "is_product boundary c")
    case False
    from Cons.IH [OF scan_spec_keep [OF Cons.prems(1)] old] False Cons.prems(3) show ?thesis by simp
  next
    case prod: True
    show ?thesis
    proof (cases "find (same_product c) kept")
      case None
      have "\<forall>s\<in>set (kept @ [c]). \<exists>k < length (pre @ [c]). s = (pre @ [c]) ! k \<and> \<not> (dup @ [False]) ! k \<and> is_product boundary s"
        using old [of False] prod len by (metis Un_iff empty_iff insert_iff length_append_singleton lessI list.set(1) list.set(2) nth_append_length set_append)
      from Cons.IH [OF scan_spec_keep [OF Cons.prems(1)] this] prod None Cons.prems(3) show ?thesis by simp
    next
      case (Some s)
      then have "s \<in> set kept" "same_product c s" by (auto simp: find_Some_iff)
      then obtain k where k: "k < length pre" "s = pre ! k" "\<not> dup ! k" "is_product boundary s" using Cons.prems(2) by blast
      have "scan_spec boundary (pre @ [c]) (map_insert (out_wire c) (out_wire s) reps) (dup @ [True])"
        using scan_spec_drop [OF Cons.prems(1) prod k(1,3)] k(2,4) \<open>same_product c s\<close> by simp
      from Cons.IH [OF this old] prod Some Cons.prems(3) show ?thesis by simp
    qed
  qed
qed

lemma dedup_scan_spec: "scan_spec boundary cs (dd_repl (dedup_scan p boundary cs)) (dd_dup (dedup_scan p boundary cs))"
proof -
  have "scan_spec boundary [] [] []" by (simp add: scan_spec_def)
  from ref_scan_spec [OF this _ dedup_scan_ref [symmetric, of boundary cs p]] show ?thesis by simp
qed

text \<open>The renaming a list of replacements induces.\<close>

lemma rename_vector_at:
  assumes "distinct (map fst reps)"
  shows "rename_at (rename_vector n reps) w = (case map_of reps w of Some m \<Rightarrow> if w < n then m else w | None \<Rightarrow> w)"
proof -
  let ?f = "\<lambda>s (old, new). if old < length s then s[old := new] else s"
  have len: "length (foldl ?f s rs) = length s" for s :: "nat list" and rs
    by (induction rs arbitrary: s) (auto split: prod.splits)
  have "foldl ?f s rs ! w = (case map_of rs w of Some m \<Rightarrow> m | None \<Rightarrow> s ! w)"
    if "distinct (map fst rs)" "w < length s" for s :: "nat list" and rs
    using that
  proof (induction rs arbitrary: s)
    case (Cons r rs)
    obtain old new where r: "r = (old, new)" by force
    have "map_of rs old = None" using Cons.prems(1) r by (simp add: map_of_eq_None_iff)
    then show ?case using Cons.IH [of "?f s r"] Cons.prems by (auto simp: r split: option.splits)
  qed simp
  from this [OF assms, of "[0..<n]"] len [of "[0..<n]" reps] show ?thesis
    by (auto simp: rename_at_def rename_vector_def split: option.splits)
qed

section \<open>The round keeps the satisfying assignments\<close>

lemma con_sat_rename: "con_sat p \<sigma> (rename_con p s c) = con_sat p (\<lambda>w. \<sigma> (rename_at s w)) c"
  by (rule con_sat_values) (simp_all add: rename_con_def replace_wires_sum)

lemma same_product_value:
  assumes "same_product c s"
  shows "lc_sum \<sigma> (con_a c) * lc_sum \<sigma> (con_b c) = lc_sum \<sigma> (con_a s) * lc_sum \<sigma> (con_b s)"
  using assms by (auto simp: same_product_def lc_eq_def lc_sum_def)

lemma product_sat:
  assumes "is_product boundary c"
  shows "con_sat p \<sigma> c \<longleftrightarrow> lc_sum \<sigma> (con_a c) * lc_sum \<sigma> (con_b c) mod p = \<sigma> (out_wire c) mod p"
proof -
  obtain t where "lc_terms (con_c c) = [t]" using assms by (cases "lc_terms (con_c c)") (auto simp: is_product_def)
  then have "lc_sum \<sigma> (con_c c) = \<sigma> (out_wire c)" using assms by (simp add: lc_sum_def is_product_def out_wire_def)
  then show ?thesis by (simp add: con_sat_def)
qed

lemma product_out_wire: "is_product boundary c \<Longrightarrow> out_wire c \<in> con_wires c"
  by (cases "lc_terms (con_c c)") (auto simp: is_product_def out_wire_def con_wires_def lc_wires_def)

definition dedup_constraints :: "int \<Rightarrow> nat \<Rightarrow> nat list \<Rightarrow> con list \<Rightarrow> con list" where
  "dedup_constraints p n boundary cs =
     (let d = dedup_scan p boundary cs
      in map (rename_con p (rename_vector n (dd_repl d))) (retain_unmarked (dd_dup d) cs))"

definition dedup_assign :: "int \<Rightarrow> nat \<Rightarrow> nat list \<Rightarrow> con list \<Rightarrow> (nat \<Rightarrow> int) \<Rightarrow> nat \<Rightarrow> int" where
  "dedup_assign p n boundary cs \<sigma> w = \<sigma> (rename_at (rename_vector n (dd_repl (dedup_scan p boundary cs))) w)"


lemma dedup_complete:
  assumes "cons_sat p \<sigma> cs"
  shows "cons_sat p \<sigma> (dedup_constraints p n boundary cs)" "dedup_assign p n boundary cs \<sigma> w mod p = \<sigma> w mod p"
proof -
  let ?d = "dedup_scan p boundary cs"
  note sp = dedup_scan_spec [of boundary cs p, unfolded scan_spec_def]
  show eq: "dedup_assign p n boundary cs \<sigma> w mod p = \<sigma> w mod p" for w
  proof (cases "map_of (dd_repl ?d) w")
    case None
    then show ?thesis using sp by (simp add: dedup_assign_def rename_vector_at)
  next
    case (Some m)
    then obtain i k where ik: "i < length cs" "k < length cs" "is_product boundary (cs ! i)" "is_product boundary (cs ! k)"
      "same_product (cs ! i) (cs ! k)" "w = out_wire (cs ! i)" "m = out_wire (cs ! k)" using sp by blast
    have "con_sat p \<sigma> (cs ! i)" "con_sat p \<sigma> (cs ! k)" using assms ik(1,2) by (simp_all add: cons_sat_def)
    then have "\<sigma> m mod p = \<sigma> w mod p"
      using same_product_value [OF ik(5), of \<sigma>] by (simp add: product_sat [OF ik(3)] product_sat [OF ik(4)] ik(6,7))
    then show ?thesis using Some sp by (simp add: dedup_assign_def rename_vector_at)
  qed
  have "con_sat p \<sigma> (rename_con p (rename_vector n (dd_repl ?d)) c)" if "c \<in> set cs" for c
  proof -
    have "con_sat p (dedup_assign p n boundary cs \<sigma>) c = con_sat p \<sigma> c"
      by (rule con_sat_mod_cong) (rule eq)
    then show ?thesis using that assms by (simp add: con_sat_rename cons_sat_def dedup_assign_def [abs_def])
  qed
  then show "cons_sat p \<sigma> (dedup_constraints p n boundary cs)"
    using retain_unmarked_set [of "dd_dup ?d" cs] sp by (auto simp: cons_sat_def dedup_constraints_def Let_def)
qed

definition products_distinct :: "nat list \<Rightarrow> con list \<Rightarrow> bool" where
  "products_distinct boundary cs = distinct (map out_wire (filter (is_product boundary) cs))"

lemma products_distinct_index:
  "products_distinct boundary cs \<Longrightarrow> i < length cs \<Longrightarrow> j < length cs \<Longrightarrow> is_product boundary (cs ! i) \<Longrightarrow>
   is_product boundary (cs ! j) \<Longrightarrow> out_wire (cs ! i) = out_wire (cs ! j) \<Longrightarrow> i = j"
proof (induction cs arbitrary: i j)
  case (Cons c cs)
  have d: "products_distinct boundary cs" using Cons.prems(1) by (auto simp: products_distinct_def split: if_splits)
  have first: "out_wire c \<noteq> out_wire (cs ! k)" if "is_product boundary c" "k < length cs" "is_product boundary (cs ! k)" for k
    using Cons.prems(1) that by (auto simp: products_distinct_def)
  show ?case
  proof (cases i; cases j)
    fix i' j' assume "i = Suc i'" "j = Suc j'"
    then show ?thesis using Cons.IH [OF d, of i' j'] Cons.prems by simp
  next
    fix j' assume "i = 0" "j = Suc j'"
    then show ?thesis using first [of j'] Cons.prems by simp
  next
    fix i' assume "i = Suc i'" "j = 0"
    then show ?thesis using first [of i'] Cons.prems by simp
  qed simp
qed simp

lemma dedup_sound:
  assumes dist: "products_distinct boundary cs" and wires: "\<forall>c\<in>set cs. \<forall>w\<in>con_wires c. w < n"
    and sat: "cons_sat p \<sigma> (dedup_constraints p n boundary cs)"
  shows "cons_sat p (dedup_assign p n boundary cs \<sigma>) cs"
    and "w = 0 \<or> w \<in> set boundary \<Longrightarrow> dedup_assign p n boundary cs \<sigma> w = \<sigma> w"
proof -
  let ?d = "dedup_scan p boundary cs" and ?t = "dedup_assign p n boundary cs \<sigma>"
  note sp = dedup_scan_spec [of boundary cs p, unfolded scan_spec_def]
  have at: "?t w = \<sigma> (case map_of (dd_repl ?d) w of Some m \<Rightarrow> if w < n then m else w | None \<Rightarrow> w)" for w
    using sp by (simp add: dedup_assign_def rename_vector_at)
  show "?t w = \<sigma> w" if "w = 0 \<or> w \<in> set boundary"
  proof (cases "map_of (dd_repl ?d) w")
    case None
    then show ?thesis by (simp add: at)
  next
    case (Some m)
    then obtain i where "is_product boundary (cs ! i)" "w = out_wire (cs ! i)" using sp by blast
    then show ?thesis using that by (simp add: is_product_def)
  qed
  have kept: "con_sat p ?t (cs ! k)" if "k < length cs" "\<not> dd_dup ?d ! k" for k
  proof -
    have "cs ! k \<in> set (retain_unmarked (dd_dup ?d) cs)" using that retain_unmarked_set [of "dd_dup ?d" cs] sp by auto
    then have "con_sat p \<sigma> (rename_con p (rename_vector n (dd_repl ?d)) (cs ! k))"
      using sat by (simp add: cons_sat_def dedup_constraints_def Let_def)
    then show ?thesis by (simp add: con_sat_rename dedup_assign_def [abs_def])
  qed
  have "con_sat p ?t (cs ! i)" if i: "i < length cs" for i
  proof (cases "dd_dup ?d ! i")
    case False
    then show ?thesis by (rule kept [OF i])
  next
    case True
    then have pi: "is_product boundary (cs ! i)" and "map_of (dd_repl ?d) (out_wire (cs ! i)) \<noteq> None" using sp i by blast+
    then obtain m where m: "map_of (dd_repl ?d) (out_wire (cs ! i)) = Some m" by blast
    then obtain j k where jk: "j < length cs" "k < length cs" "\<not> dd_dup ?d ! k" "is_product boundary (cs ! j)"
      "is_product boundary (cs ! k)" "same_product (cs ! j) (cs ! k)" "out_wire (cs ! i) = out_wire (cs ! j)" "m = out_wire (cs ! k)"
      using sp by blast
    have "i = j" by (rule products_distinct_index [OF dist i jk(1) pi jk(4,7)])
    have none: "map_of (dd_repl ?d) m = None"
    proof (rule ccontr)
      assume "map_of (dd_repl ?d) m \<noteq> None"
      then obtain j' where j': "j' < length cs" "dd_dup ?d ! j'" "is_product boundary (cs ! j')" "m = out_wire (cs ! j')"
        using sp by blast
      have "k = j'" using products_distinct_index [OF dist jk(2) j'(1) jk(5) j'(3)] jk(8) j'(4) by simp
      then show False using jk(3) j'(2) by simp
    qed
    have wn: "out_wire (cs ! i) < n"
      using product_out_wire [OF pi] wires nth_mem [OF i] by blast
    have "?t (out_wire (cs ! i)) = ?t (out_wire (cs ! k))" using m none wn jk(8) by (simp add: at)
    then show ?thesis using kept [OF jk(2,3)] same_product_value [OF jk(6), of ?t] \<open>i = j\<close>
      by (simp add: product_sat [OF jk(4)] product_sat [OF jk(5)])
  qed
  then show "cons_sat p ?t cs" by (auto simp: cons_sat_def in_set_conv_nth)
qed

lemma dedup_round_cons: "dedup_round boundary s = Some s' \<Longrightarrow>
  em_cons s' = dedup_constraints (em_p s) (em_next s) boundary (em_cons s)"
  by (auto simp: dedup_round_def dedup_constraints_def Let_def split: if_splits)

end
