(* ===== verification/ZkLinPivot.thy ===== *)
theory ZkLinPivot
  imports ZkLinSub
begin

text \<open>
  Correctness of the parts of one linear-substitution step: the pivot that is found is
  equivalent to the resolved constraint, and back-substitution rewrites exactly the expressions
  that mention the pivot.
\<close>

section \<open>Modular algebra of the pivot\<close>

lemma solve_for_wire:
  assumes p: "is_prime p" and e: "0 < e" "e < p"
  shows "(e * x + r) mod p = 0 \<longleftrightarrow> x mod p = (0 - inv_mod p e) mod p * r mod p"
proof -
  have e0: "e mod p \<noteq> 0" using e by simp
  have inv: "e * inv_mod p e mod p = 1" by (rule inv_mod_right [OF p e0])
  have "(e * ((0 - inv_mod p e) mod p * r)) mod p = (e * ((0 - inv_mod p e) * r)) mod p"
    by (intro mod_mult_cong refl mod_mod_trivial)
  also have "\<dots> = ((0 - e * inv_mod p e) * r) mod p" by (simp add: algebra_simps)
  also have "\<dots> = ((0 - 1) * r) mod p"
    by (intro mod_mult_cong mod_diff_cong refl) (use inv is_prime_gt1 [OF p] in simp)
  finally have er: "e * ((0 - inv_mod p e) mod p * r) mod p = - r mod p" by simp
  have "(e * x + r) mod p = 0 \<longleftrightarrow> e * x mod p = - r mod p"
    by (simp add: mod_eq_dvd_iff mod_eq_0_iff_dvd)
  also have "\<dots> \<longleftrightarrow> e * x mod p = e * ((0 - inv_mod p e) mod p * r) mod p" by (simp only: er)
  also have "\<dots> \<longleftrightarrow> x mod p = (0 - inv_mod p e) mod p * r mod p"
    using is_prime_cancel [OF p e0] by (metis mod_mult_right_eq)
  finally show ?thesis .
qed

lemma solve_for_output:
  assumes p: "is_prime p" and e: "0 < e" "e < p"
  shows "k * l mod p = e * x mod p \<longleftrightarrow> x mod p = k * inv_mod p e * l mod p"
proof -
  have e0: "e mod p \<noteq> 0" using e by simp
  have "e * (k * inv_mod p e * l) mod p = (e * inv_mod p e) * (k * l) mod p" by (simp add: ac_simps)
  also have "\<dots> = 1 * (k * l) mod p"
    using inv_mod_right [OF p e0] is_prime_gt1 [OF p] by (metis mod_mult_left_eq mod_pos_pos_trivial zero_le_one)
  finally have er: "e * (k * inv_mod p e * l) mod p = k * l mod p" by simp
  have "k * l mod p = e * x mod p \<longleftrightarrow> e * x mod p = e * (k * inv_mod p e * l) mod p" by (simp only: er eq_commute)
  also have "\<dots> \<longleftrightarrow> x mod p = k * inv_mod p e * l mod p"
    using is_prime_cancel [OF p e0] by (metis mod_mult_right_eq)
  finally show ?thesis .
qed

lemma term_sum_scaled:
  "term_sum \<sigma> (map (\<lambda>(t, tc). (t, tc * k mod p)) ts) mod p = k * term_sum \<sigma> ts mod p"
  using term_sum_scale [of \<sigma> p k ts] by (simp add: scale_terms_def)

lemma add_terms_scaled_sum:
  "lc_sum \<sigma> (add_terms_scaled p k out ts) mod p = (lc_sum \<sigma> out + k * term_sum \<sigma> ts) mod p"
proof (induction ts arbitrary: out)
  case (Cons t ts)
  obtain w c where t: "t = (w, c)" by force
  have "(lc_sum \<sigma> (lc_add_term p out w (c * k mod p)) + k * term_sum \<sigma> ts) mod p =
      (lc_sum \<sigma> out + c * k mod p * \<sigma> w + k * term_sum \<sigma> ts) mod p"
    by (intro mod_add_cong refl lc_add_term_sum)
  also have "\<dots> = (lc_sum \<sigma> out + c * k * \<sigma> w + k * term_sum \<sigma> ts) mod p"
    by (intro mod_add_cong mod_mult_cong refl mod_mod_trivial)
  also have "\<dots> = (lc_sum \<sigma> out + k * term_sum \<sigma> (t # ts)) mod p" by (simp add: t algebra_simps)
  finally show ?case using Cons.IH [of "lc_add_term p out w (c * k mod p)"] by (simp add: add_terms_scaled_def t)
qed (simp add: add_terms_scaled_def)

lemma add_terms_scaled_ok:
  "0 < p \<Longrightarrow> lc_ok p out \<Longrightarrow> lc_ok p (add_terms_scaled p k out ts)"
proof (induction ts arbitrary: out)
  case (Cons t ts)
  have "lc_ok p (lc_add_term p out (fst t) (snd t * k mod p))"
    by (rule lc_add_term_ok [OF Cons.prems(2)]) (use Cons.prems(1) in simp_all)
  then show ?case using Cons.IH [OF Cons.prems(1)] by (cases t) (simp add: add_terms_scaled_def)
qed (simp add: add_terms_scaled_def)

lemma add_terms_scaled_wires: "lc_wires (add_terms_scaled p k out ts) \<subseteq> lc_wires out \<union> fst ` set ts"
proof (induction ts arbitrary: out)
  case (Cons t ts)
  obtain w c where t: "t = (w, c)" by force
  show ?case using Cons.IH [of "lc_add_term p out w (c * k mod p)"] lc_add_term_wires [of p out w "c * k mod p"]
    by (auto simp: add_terms_scaled_def t)
qed (simp add: add_terms_scaled_def)

lemma linear_side_value:
  assumes "linear_side p a b = Some (k, lin)" "0 < p"
  shows "0 \<le> k \<and> k < p" "lin = a \<or> lin = b"
    "\<And>\<sigma>. \<sigma> 0 = 1 \<Longrightarrow> lc_sum \<sigma> a * lc_sum \<sigma> b mod p = k * lc_sum \<sigma> lin mod p"
proof -
  consider (left) "lc_is_constant p a = Some k" "lin = b" | (right) "lc_is_constant p b = Some k" "lin = a"
    using assms(1) by (auto simp: linear_side_def split: option.splits)
  then have "(0 \<le> k \<and> k < p) \<and> (lin = a \<or> lin = b) \<and>
      (\<forall>\<sigma>. \<sigma> 0 = 1 \<longrightarrow> lc_sum \<sigma> a * lc_sum \<sigma> b mod p = k * lc_sum \<sigma> lin mod p)"
  proof cases
    case left
    then show ?thesis using lc_is_constant_range [OF assms(2)] lc_is_constant_val by (blast intro: mod_mult_cong)
  next
    case right
    then show ?thesis using lc_is_constant_range [OF assms(2)] lc_is_constant_val [OF right(1)]
      by (metis (no_types, lifting) mod_mult_right_eq mult.commute)
  qed
  then show "0 \<le> k \<and> k < p" "lin = a \<or> lin = b"
    "\<And>\<sigma>. \<sigma> 0 = 1 \<Longrightarrow> lc_sum \<sigma> a * lc_sum \<sigma> b mod p = k * lc_sum \<sigma> lin mod p" by blast+
qed

section \<open>The pivot defines its wire\<close>

lemma lc_wires_zero [simp]: "lc_wires lc_zero = {}"
  by (simp add: lc_wires_def lc_zero_def)

text \<open>A good pivot for \<open>k * lin = c\<close>: the equation is equivalent to the wire having the value of
  the expression, which is in normal form and mentions other wires of the equation only.\<close>

definition good_pivot :: "int \<Rightarrow> int \<Rightarrow> lc \<Rightarrow> lc \<Rightarrow> nat \<Rightarrow> lc \<Rightarrow> bool" where
  "good_pivot p k lin c w e \<longleftrightarrow> lc_nf p e \<and> lc_wires e \<subseteq> lc_wires lin \<union> lc_wires c \<and>
     (\<forall>\<sigma>. k * lc_sum \<sigma> lin mod p = lc_sum \<sigma> c mod p \<longleftrightarrow> \<sigma> w mod p = lc_sum \<sigma> e mod p)"

lemma expand_unresolved:
  assumes "\<forall>t\<in>fst ` set ts. sub_at sub t = None"
  shows "lc_sum \<sigma> (expand_terms p sub es lc_zero ts) mod p = term_sum \<sigma> ts mod p"
    and "lc_wires (expand_terms p sub es lc_zero ts) \<subseteq> fst ` set ts"
proof -
  have "term_sum (elim_assign sub es \<sigma>) ts = term_sum \<sigma> ts"
    by (rule term_sum_cong) (use assms in \<open>auto simp: elim_assign_def\<close>)
  then show "lc_sum \<sigma> (expand_terms p sub es lc_zero ts) mod p = term_sum \<sigma> ts mod p"
    using expand_terms_sum [of \<sigma> p sub es lc_zero ts] by simp
  show "lc_wires (expand_terms p sub es lc_zero ts) \<subseteq> fst ` set ts"
    using expand_terms_wires [of p sub es lc_zero ts] assms by (force simp: lc_wires_def lc_zero_def)
qed

lemma pivot_output_good:
  assumes p: "is_prime p" and ok: "elim_ok p sub es" and k: "0 \<le> k" "k < p"
    and lin: "lc_nf p lin" "\<forall>t\<in>lc_wires lin. sub_at sub t = None"
    and c: "lc_terms c = [(w, cw)]" "0 < cw" "cw < p"
    and r: "pivot_output p sub es k lin w cw = Some (w', e)"
  shows "w' = w \<and> good_pivot p k lin c w e"
proof -
  have p0: "0 < p" using p by simp
  let ?scale = "if cw = 1 then k else k * inv_mod p cw mod p"
  let ?ts = "map (\<lambda>(t, tc). (t, if ?scale = 1 then tc else tc * ?scale mod p)) (lc_terms lin)"
  let ?e = "expand_terms p sub es lc_zero ?ts"
  have e: "e = lc_simplify p ?e" and w': "w' = w"
    using r by (auto simp: pivot_output_def Let_def split: if_splits)
  have fst_ts: "fst ` set ?ts = lc_wires lin" by (force simp: lc_wires_def)
  have range: "\<forall>t\<in>set ?ts. 0 \<le> snd t \<and> snd t < p"
    using lin(1) p0 by (auto simp: lc_nf_def lc_ok_def)
  have unres: "\<forall>t\<in>fst ` set ?ts. sub_at sub t = None" using lin(2) fst_ts by simp
  have sum_ts: "term_sum \<sigma> ?ts mod p = ?scale * lc_sum \<sigma> lin mod p" for \<sigma>
  proof (cases "?scale = 1")
    case True
    then have "?ts = lc_terms lin" by (auto intro!: map_idI)
    then show ?thesis unfolding True lc_sum_def by simp
  next
    case False
    then show ?thesis using term_sum_scaled [of \<sigma> ?scale p "lc_terms lin"] by (simp add: lc_sum_def)
  qed
  have sum: "lc_sum \<sigma> e mod p = ?scale * lc_sum \<sigma> lin mod p" for \<sigma>
    unfolding e lc_simplify_sum expand_unresolved(1) [OF unres] by (rule sum_ts)
  have scale: "?scale * x mod p = k * inv_mod p cw * x mod p" for x
  proof (cases "cw = 1")
    case True
    have "inv_mod p 1 = 1" using is_prime_gt1 [OF p] by (simp add: inv_mod_def)
    then show ?thesis using True by simp
  next
    case False
    then show ?thesis by (simp add: mod_mult_left_eq)
  qed
  have "k * lc_sum \<sigma> lin mod p = lc_sum \<sigma> c mod p \<longleftrightarrow> \<sigma> w mod p = lc_sum \<sigma> e mod p" for \<sigma>
    using solve_for_output [OF p c(2,3), of k "lc_sum \<sigma> lin" "\<sigma> w"] by (simp only: sum scale) (simp add: lc_sum_def c(1))
  moreover have "lc_nf p e"
    unfolding e by (rule lc_nf_simplify [OF p0]) (rule expand_terms_ok [OF p ok lc_zero_ok range])
  moreover have "lc_wires e \<subseteq> lc_wires lin"
    using lc_simplify_wires [of p ?e] expand_unresolved(2) [OF unres, of p es] fst_ts by (simp add: e)
  ultimately show ?thesis using w' by (auto simp: good_pivot_def)
qed

lemma term_sum_remove:
  assumes "distinct (map fst ts)" "(w, c) \<in> set ts"
  shows "term_sum \<sigma> ts = c * \<sigma> w + term_sum \<sigma> (filter (\<lambda>(t, tc). t \<noteq> w) ts)"
  using assms
proof (induction ts)
  case (Cons t ts)
  show ?case
  proof (cases "t = (w, c)")
    case True
    then have "filter (\<lambda>(t, tc). t \<noteq> w) ts = ts" using Cons.prems(1) by (force intro: filter_True)
    then show ?thesis using True by simp
  next
    case False
    then have m: "(w, c) \<in> set ts" using Cons.prems by simp
    then have "w \<in> set (map fst ts)" by (metis fst_conv image_eqI list.set_map)
    then have "fst t \<noteq> w" using Cons.prems(1) by auto
    then show ?thesis using Cons.IH Cons.prems(1) m by (cases t) simp
  qed
qed simp

lemma find_pair: "find (\<lambda>(t, tc). P t) xs = Some (w, e) \<Longrightarrow> (w, e) \<in> set xs \<and> P w"
  by (induction xs) (auto split: if_splits)

lemma pivot_equation_good:
  assumes p: "is_prime p" and ok: "elim_ok p sub es"
    and lin: "\<forall>t\<in>lc_wires lin. sub_at sub t = None" and c: "\<forall>t\<in>lc_wires c. sub_at sub t = None"
    and r: "pivot_equation p elig sub es k lin c = Some (w, e)"
  shows "elig w \<and> w \<in> lc_wires lin \<union> lc_wires c \<and> good_pivot p k lin c w e"
proof -
  have p0: "0 < p" using p by simp
  let ?raw = "add_terms_scaled p ((0 - 1) mod p) (add_terms_scaled p k lc_zero (lc_terms lin)) (lc_terms c)"
  let ?q = "lc_simplify p ?raw"
  have q_ok: "lc_nf p ?q" by (intro lc_nf_simplify add_terms_scaled_ok p0 lc_zero_ok)
  have q_wires: "lc_wires ?q \<subseteq> lc_wires lin \<union> lc_wires c"
  proof -
    have "lc_wires (add_terms_scaled p k lc_zero (lc_terms lin)) \<subseteq> lc_wires lin"
      using add_terms_scaled_wires [of p k lc_zero "lc_terms lin"] by (simp only: lc_wires_zero lc_wires_def [of lin] Un_empty_left)
    then have "lc_wires ?raw \<subseteq> lc_wires lin \<union> lc_wires c"
      using add_terms_scaled_wires [of p "(0 - 1) mod p" "add_terms_scaled p k lc_zero (lc_terms lin)" "lc_terms c"]
      unfolding lc_wires_def [of c] by blast
    then show ?thesis using lc_simplify_wires [of p ?raw] by blast
  qed
  have q_sum: "lc_sum \<sigma> ?q mod p = (k * lc_sum \<sigma> lin - lc_sum \<sigma> c) mod p" for \<sigma>
  proof -
    have "lc_sum \<sigma> ?q mod p = (lc_sum \<sigma> (add_terms_scaled p k lc_zero (lc_terms lin)) + (0 - 1) mod p * lc_sum \<sigma> c) mod p"
      unfolding lc_simplify_sum add_terms_scaled_sum by (simp only: lc_sum_def)
    also have "\<dots> = (k * lc_sum \<sigma> lin + (0 - 1) * lc_sum \<sigma> c) mod p"
      by (intro mod_add_cong mod_mult_cong refl mod_mod_trivial)
        (use add_terms_scaled_sum [of \<sigma> p k lc_zero "lc_terms lin"] in \<open>simp add: lc_sum_def lc_zero_def\<close>)
    finally show ?thesis by simp
  qed
  obtain ew where f: "find (\<lambda>(t, tc). elig t) (lc_terms ?q) = Some (w, ew)"
    and e: "e = lc_simplify p (expand_terms p sub es lc_zero
              (map (\<lambda>(t, tc). (t, tc * ((0 - inv_mod p ew) mod p) mod p)) (filter (\<lambda>(t, tc). t \<noteq> w) (lc_terms ?q))))"
    using r by (auto simp: pivot_equation_def Let_def split: option.splits if_splits prod.splits)
  have mem: "(w, ew) \<in> set (lc_terms ?q)" and elig: "elig w"
    using find_pair [OF f] by blast+
  have ew: "0 < ew" "ew < p" using lc_nf_terms [OF q_ok mem] by blast+
  let ?rest = "filter (\<lambda>(t, tc). t \<noteq> w) (lc_terms ?q)"
  let ?ts = "map (\<lambda>(t, tc). (t, tc * ((0 - inv_mod p ew) mod p) mod p)) ?rest"
  have fst_ts: "fst ` set ?ts \<subseteq> lc_wires ?q" by (force simp: lc_wires_def)
  have un: "\<forall>t\<in>lc_wires lin \<union> lc_wires c. sub_at sub t = None" using lin c by blast
  have unres: "\<forall>t\<in>fst ` set ?ts. sub_at sub t = None"
  proof
    fix t assume "t \<in> fst ` set ?ts"
    from subsetD [OF q_wires subsetD [OF fst_ts this]] show "sub_at sub t = None" by (rule bspec [OF un])
  qed
  have sum: "lc_sum \<sigma> e mod p = (0 - inv_mod p ew) mod p * term_sum \<sigma> ?rest mod p" for \<sigma>
    using expand_unresolved(1) [OF unres, of \<sigma> p es] term_sum_scaled [of \<sigma> "(0 - inv_mod p ew) mod p" p ?rest]
      lc_simplify_sum [of \<sigma> p "expand_terms p sub es lc_zero ?ts"] by (simp only: e [symmetric])
  note rest = term_sum_remove [OF lc_nf_distinct [OF q_ok] mem, folded lc_sum_def]
  have "k * lc_sum \<sigma> lin mod p = lc_sum \<sigma> c mod p \<longleftrightarrow> \<sigma> w mod p = lc_sum \<sigma> e mod p" for \<sigma>
  proof -
    have "(ew * \<sigma> w + term_sum \<sigma> ?rest) mod p = (k * lc_sum \<sigma> lin - lc_sum \<sigma> c) mod p"
      by (simp only: rest [symmetric] q_sum)
    moreover have "(k * lc_sum \<sigma> lin - lc_sum \<sigma> c) mod p = 0 \<longleftrightarrow> k * lc_sum \<sigma> lin mod p = lc_sum \<sigma> c mod p"
      by (simp only: mod_eq_0_iff_dvd mod_eq_dvd_iff)
    ultimately show ?thesis using solve_for_wire [OF p ew, of "\<sigma> w" "term_sum \<sigma> ?rest"] by (simp only: sum)
  qed
  moreover have "\<forall>t\<in>set ?ts. 0 \<le> snd t \<and> snd t < p" using p0 by auto
  then have "lc_nf p e"
    unfolding e by (intro lc_nf_simplify [OF p0] expand_terms_ok [OF p ok lc_zero_ok])
  moreover have "lc_wires e \<subseteq> lc_wires lin \<union> lc_wires c"
    using lc_simplify_wires expand_unresolved(2) [OF unres, of p es] fst_ts q_wires unfolding e by (meson order_trans)
  moreover have "w \<in> lc_wires ?q" using mem by (force simp: lc_wires_def)
  ultimately show ?thesis using elig q_wires by (auto simp: good_pivot_def)
qed

lemma pivot_copy_good:
  assumes p: "is_prime p" and c: "lc_terms c = [(w, cw)]"
    and r: "pivot_copy elig k lin w cw = Some (u, e)"
  shows "elig u \<and> u \<in> lc_wires lin \<and> e = lc_variable w \<and> k = 1 \<and> cw = 1 \<and> lc_terms lin = [(u, 1)] \<and>
    good_pivot p k lin c u e"
proof -
  have k: "k = 1" "cw = 1" and len: "length (lc_terms lin) = 1" and u: "lc_terms lin ! 0 = (u, 1)" "elig u" "e = lc_variable w"
    using r by (auto simp: pivot_copy_def split: if_splits prod.splits)
  have lin: "lc_terms lin = [(u, 1)]" using len u(1) by (cases "lc_terms lin") auto
  have "lc_nf p e" using lc_variable_ok [of p w] is_prime_gt1 [OF p] u(3) by (simp add: lc_nf_def lc_variable_def)
  then show ?thesis using k u lin c
    by (auto simp: good_pivot_def lc_wires_def lc_variable_def lc_sum_def)
qed

text \<open>All three shapes together.\<close>

lemma find_pivot_good:
  assumes p: "is_prime p" and ok: "elim_ok p sub es" and k: "0 \<le> k" "k < p"
    and lin: "lc_nf p lin" "\<forall>t\<in>lc_wires lin. sub_at sub t = None"
    and c: "lc_nf p c" "\<forall>t\<in>lc_wires c. sub_at sub t = None"
    and r: "find_pivot p elig sub es k lin c = Some ((w, e), rn)"
  shows "elig w \<and> good_pivot p k lin c w e \<and>
    (rn = [] \<or> (\<exists>v. rn = [(w, v)] \<and> e = lc_variable v \<and> lc_wires c = {v}))"
proof (cases "length (lc_terms c) \<noteq> 1 \<or> fst (lc_terms c ! 0) = 0")
  case True
  then show ?thesis using r pivot_equation_good [OF p ok lin(2) c(2), of elig k w e] by (auto simp: find_pivot_def)
next
  case False
  then obtain t0 where "lc_terms c = [t0]" by (cases "lc_terms c") auto
  then obtain x cx where t: "lc_terms c = [(x, cx)]" by (metis surj_pair)
  have cx: "0 < cx" "cx < p" using lc_nf_terms [OF c(1), of x cx] t by auto
  show ?thesis
  proof (cases "elig x")
    case True
    then have "pivot_output p sub es k lin x cx = Some (w, e)" "rn = []" using r False t by (auto simp: find_pivot_def)
    with pivot_output_good [OF p ok k lin t cx this(1)] True show ?thesis by auto
  next
    case notelig: False
    then have "pivot_copy elig k lin x cx = Some (w, e)" "rn = [(w, x)]" using r False t by (auto simp: find_pivot_def)
    with pivot_copy_good [OF p t this(1)] t show ?thesis by (auto simp: lc_wires_def)
  qed
qed

end
