(* ===== verification/ZkLinCorrect.thy ===== *)
theory ZkLinCorrect
  imports ZkLinPivot
begin

text \<open>
  The linear-substitution round as a whole. The loop invariant has a structural part (indices,
  uses, no expression mentions an eliminated wire) and a semantic part (the induced assignment
  satisfies every dropped constraint; the dropped constraints force it).
\<close>

section \<open>Back-substitution\<close>

lemma length_push_uses [simp]: "length (push_uses j e us) = length us"
proof -
  have "length (foldl (\<lambda>uses (t, tc). if t \<noteq> 0 then uses[t := uses ! t @ [j]] else uses) us ts) = length us" for ts :: "(nat \<times> int) list"
    by (induction ts arbitrary: us) auto
  then show ?thesis by (simp add: push_uses_def)
qed

lemma push_uses_mem:
  "set (us ! t) \<subseteq> set (push_uses j e us ! t) \<and>
   (t \<in> lc_wires e \<longrightarrow> t \<noteq> 0 \<longrightarrow> t < length us \<longrightarrow> j \<in> set (push_uses j e us ! t))"
proof -
  have "set (us ! t) \<subseteq> set (foldl (\<lambda>uses (t, tc). if t \<noteq> 0 then uses[t := uses ! t @ [j]] else uses) us ts ! t) \<and>
    (t \<in> fst ` set ts \<longrightarrow> t \<noteq> 0 \<longrightarrow> t < length us \<longrightarrow>
      j \<in> set (foldl (\<lambda>uses (t, tc). if t \<noteq> 0 then uses[t := uses ! t @ [j]] else uses) us ts ! t))" for ts :: "(nat \<times> int) list"
  proof (induction ts arbitrary: us)
    case (Cons x xs)
    obtain w c where x: "x = (w, c)" by force
    let ?u = "if w \<noteq> 0 then us[w := us ! w @ [j]] else us"
    have "set (us ! t) \<subseteq> set (?u ! t)" by (cases "w < length us") (auto simp: nth_list_update list_update_beyond)
    moreover have "t = w \<Longrightarrow> t \<noteq> 0 \<Longrightarrow> t < length us \<Longrightarrow> j \<in> set (?u ! t)" by simp
    ultimately show ?case using Cons.IH [of ?u] by (auto simp: x)
  qed simp
  from this [of "lc_terms e"] show ?thesis unfolding push_uses_def lc_wires_def .
qed

lemma push_uses_bound: "set (push_uses j e us ! t) \<subseteq> insert j (set (us ! t))"
proof -
  have "set (foldl (\<lambda>uses (t, tc). if t \<noteq> 0 then uses[t := uses ! t @ [j]] else uses) us ts ! t) \<subseteq> insert j (set (us ! t))"
    for ts :: "(nat \<times> int) list"
  proof (induction ts arbitrary: us)
    case (Cons x xs)
    obtain w c where x: "x = (w, c)" by force
    let ?u = "if w \<noteq> 0 then us[w := us ! w @ [j]] else us"
    have "set (?u ! t) \<subseteq> insert j (set (us ! t))"
      by (cases "w < length us") (auto simp: nth_list_update list_update_beyond)
    then show ?case using Cons.IH [of ?u] by (auto simp: x)
  qed auto
  from this [of "lc_terms e"] show ?thesis unfolding push_uses_def .
qed

lemma push_uses_other: "t \<notin> lc_wires e \<Longrightarrow> push_uses j e us ! t = us ! t"
proof -
  have "t \<notin> fst ` set ts \<Longrightarrow> foldl (\<lambda>uses (t, tc). if t \<noteq> 0 then uses[t := uses ! t @ [j]] else uses) us ts ! t = us ! t"
    for ts :: "(nat \<times> int) list"
    by (induction ts arbitrary: us) (auto split: prod.splits)
  from this [of "lc_terms e"] show "t \<notin> lc_wires e \<Longrightarrow> push_uses j e us ! t = us ! t"
    unfolding push_uses_def lc_wires_def .
qed

text \<open>What one back-substitution makes of an expression.\<close>

definition sub1 :: "int \<Rightarrow> nat \<Rightarrow> lc \<Rightarrow> lc \<Rightarrow> lc" where
  "sub1 p w src e = (case substitute_one p e w src of None \<Rightarrow> e | Some r \<Rightarrow> r)"

lemma sub1_props:
  assumes "0 < p" "lc_nf p e" "lc_nf p src" "w \<notin> lc_wires src"
  shows "lc_nf p (sub1 p w src e)" "w \<notin> lc_wires (sub1 p w src e)"
    "lc_wires (sub1 p w src e) \<subseteq> lc_wires e \<union> lc_wires src"
    "w \<notin> lc_wires e \<Longrightarrow> sub1 p w src e = e"
    "lc_sum \<sigma> (sub1 p w src e) mod p = lc_sum (\<sigma>(w := lc_sum \<sigma> src)) e mod p"
proof -
  have none: "substitute_one p e w src = None \<longleftrightarrow> w \<notin> lc_wires e" by (rule substitute_one_None)
  have "lc_nf p (sub1 p w src e) \<and> w \<notin> lc_wires (sub1 p w src e) \<and> lc_wires (sub1 p w src e) \<subseteq> lc_wires e \<union> lc_wires src"
  proof (cases "substitute_one p e w src")
    case None
    then show ?thesis using none assms(2) by (auto simp: sub1_def)
  next
    case (Some r)
    with substitute_one_nf [OF assms(1-3) Some] assms(4) show ?thesis by (auto simp: sub1_def)
  qed
  then show "lc_nf p (sub1 p w src e)" "w \<notin> lc_wires (sub1 p w src e)"
    "lc_wires (sub1 p w src e) \<subseteq> lc_wires e \<union> lc_wires src" by blast+
  show "w \<notin> lc_wires e \<Longrightarrow> sub1 p w src e = e" using none by (simp add: sub1_def)
  show "lc_sum \<sigma> (sub1 p w src e) mod p = lc_sum (\<sigma>(w := lc_sum \<sigma> src)) e mod p"
  proof (cases "substitute_one p e w src")
    case None
    then have "lc_sum (\<sigma>(w := lc_sum \<sigma> src)) e = lc_sum \<sigma> e" using none by (intro lc_sum_cong) auto
    then show ?thesis using None by (simp add: sub1_def)
  next
    case (Some r)
    then show ?thesis using substitute_one_sum [OF assms(2)] by (simp add: sub1_def)
  qed
qed

lemma back_substitute_fold:
  assumes p: "0 < p" and src: "lc_nf p src" "w \<notin> lc_wires src"
  shows "\<forall>j<k. lc_nf p (es ! j) \<Longrightarrow> k \<le> length es \<Longrightarrow> \<forall>j\<in>set ds. j < k \<Longrightarrow>
    foldl (back_substitute p w src) (es, us) ds = (es', us') \<Longrightarrow>
    length es' = length es \<and> length us' = length us \<and>
    (\<forall>j. es' ! j = (if j \<in> set ds then sub1 p w src (es ! j) else es ! j)) \<and>
    (\<forall>t. set (us ! t) \<subseteq> set (us' ! t) \<and> set (us' ! t) \<subseteq> set (us ! t) \<union> set ds) \<and>
    (\<forall>j\<in>set ds. w \<in> lc_wires (es ! j) \<longrightarrow> (\<forall>t\<in>lc_wires src. t \<noteq> 0 \<longrightarrow> t < length us \<longrightarrow> j \<in> set (us' ! t)))"
proof (induction ds arbitrary: es us)
  case Nil
  then show ?case by simp
next
  case (Cons d ds)
  have d: "d < k" "d < length es" "lc_nf p (es ! d)" using Cons.prems(1-3) by auto
  note sp = sub1_props [OF p d(3) src]
  define e1 where "e1 = es[d := sub1 p w src (es ! d)]"
  define u1 where "u1 = (if w \<in> lc_wires (es ! d) then push_uses d src us else us)"
  have step: "back_substitute p w src (es, us) d = (e1, u1)"
    using substitute_one_None [of p "es ! d" w src]
    by (auto simp: back_substitute_def e1_def u1_def sub1_def split: option.splits)
  have nf1: "\<forall>j<k. lc_nf p (e1 ! j)" using Cons.prems(1) sp(1) d(2) by (auto simp: e1_def nth_list_update)
  have len1: "k \<le> length e1" using Cons.prems(2) by (simp add: e1_def)
  have ds: "\<forall>j\<in>set ds. j < k" using Cons.prems(3) by simp
  have "foldl (back_substitute p w src) (e1, u1) ds = (es', us')" using Cons.prems(4) by (simp add: step)
  note IH = Cons.IH [OF nf1 len1 ds this]
  have u1: "length u1 = length us" "\<And>t. set (us ! t) \<subseteq> set (u1 ! t)"
    "w \<in> lc_wires (es ! d) \<Longrightarrow> t \<in> lc_wires src \<Longrightarrow> t \<noteq> 0 \<Longrightarrow> t < length us \<Longrightarrow> d \<in> set (u1 ! t)" for t
    using push_uses_mem [of us _ d src] by (simp_all add: u1_def)
  have u1s: "set (u1 ! t) \<subseteq> insert d (set (us ! t))" for t
    using push_uses_bound [of d src us t] by (auto simp: u1_def)
  have e1d: "e1 ! d = sub1 p w src (es ! d)" using d(2) by (simp add: e1_def)
  have again: "sub1 p w src (e1 ! d) = e1 ! d"
    using sub1_props(4) [OF p _ src] sp(1,2) by (simp only: e1d)
  have val: "es' ! j = (if j \<in> set (d # ds) then sub1 p w src (es ! j) else es ! j)" for j
    using IH again e1d by (cases "j = d") (auto simp: e1_def)
  have uses: "j \<in> set (us' ! t)"
    if "j \<in> set (d # ds)" "w \<in> lc_wires (es ! j)" "t \<in> lc_wires src" "t \<noteq> 0" "t < length us" for j t
  proof (cases "j = d")
    case True
    then show ?thesis using u1(3) that IH by blast
  next
    case False
    then have "e1 ! j = es ! j" by (simp add: e1_def)
    then show ?thesis using False that IH u1(1) by auto
  qed
  have bound: "set (us' ! t) \<subseteq> set (us ! t) \<union> set (d # ds)" for t
  proof -
    have "set (us' ! t) \<subseteq> set (u1 ! t) \<union> set ds" using IH by blast
    then show ?thesis using u1s [of t] by auto
  qed
  have mono: "set (us ! t) \<subseteq> set (us' ! t)" for t using IH u1(2) [of t] by blast
  have "length es' = length es" "length us' = length us" using IH u1(1) by (simp_all add: e1_def)
  then show ?case using val uses bound mono by blast
qed

section \<open>The loop invariant\<close>

definition lin_wf :: "int \<Rightarrow> nat \<Rightarrow> nat list \<Rightarrow> nat list \<Rightarrow> con list \<Rightarrow> lin_state \<Rightarrow> bool" where
  "lin_wf p n boundary opaque cs s \<longleftrightarrow>
     length (ls_sub s) = n \<and> length (ls_drop s) = length cs \<and> length (ls_elim s) = length (ls_exprs s) \<and>
     (ls_uses s = [] \<or> length (ls_uses s) = n) \<and>
     (\<forall>t < length (ls_uses s). \<forall>j\<in>set (ls_uses s ! t). j < length (ls_exprs s)) \<and>
     (\<forall>w j. sub_at (ls_sub s) w = Some j \<longrightarrow> j < length (ls_exprs s) \<and> ls_elim s ! j = w) \<and>
     (\<forall>j < length (ls_exprs s). sub_at (ls_sub s) (ls_elim s ! j) = Some j \<and> lc_nf p (ls_exprs s ! j) \<and>
        (\<forall>t\<in>lc_wires (ls_exprs s ! j). t < n \<and> sub_at (ls_sub s) t = None \<and>
           (t \<noteq> 0 \<longrightarrow> t < length (ls_uses s) \<and> j \<in> set (ls_uses s ! t)))) \<and>
     (\<forall>w\<in>set (ls_elim s). w \<noteq> 0 \<and> w < n \<and> w \<notin> set boundary \<and> w \<notin> set opaque)"

definition lin_sem :: "int \<Rightarrow> con list \<Rightarrow> lin_state \<Rightarrow> bool" where
  "lin_sem p cs s \<longleftrightarrow> (\<forall>\<sigma>. \<sigma> 0 = 1 \<longrightarrow>
     (\<forall>i < length cs. ls_drop s ! i \<longrightarrow> con_sat p (elim_assign (ls_sub s) (ls_exprs s) \<sigma>) (cs ! i)) \<and>
     ((\<forall>i < length cs. ls_drop s ! i \<longrightarrow> con_sat p \<sigma> (cs ! i)) \<longrightarrow>
        (\<forall>w. elim_assign (ls_sub s) (ls_exprs s) \<sigma> w mod p = \<sigma> w mod p)))"

lemma lin_wfD:
  assumes "lin_wf p n boundary opaque cs s"
  shows "length (ls_sub s) = n" "length (ls_drop s) = length cs" "length (ls_elim s) = length (ls_exprs s)"
    "ls_uses s = [] \<or> length (ls_uses s) = n"
    "\<And>t j. t < length (ls_uses s) \<Longrightarrow> j \<in> set (ls_uses s ! t) \<Longrightarrow> j < length (ls_exprs s)"
    "\<And>w j. sub_at (ls_sub s) w = Some j \<Longrightarrow> j < length (ls_exprs s)"
    "\<And>w j. sub_at (ls_sub s) w = Some j \<Longrightarrow> ls_elim s ! j = w"
    "\<And>j. j < length (ls_exprs s) \<Longrightarrow> sub_at (ls_sub s) (ls_elim s ! j) = Some j"
    "\<And>j. j < length (ls_exprs s) \<Longrightarrow> lc_nf p (ls_exprs s ! j)"
    "\<And>j t. j < length (ls_exprs s) \<Longrightarrow> t \<in> lc_wires (ls_exprs s ! j) \<Longrightarrow> t < n"
    "\<And>j t. j < length (ls_exprs s) \<Longrightarrow> t \<in> lc_wires (ls_exprs s ! j) \<Longrightarrow> sub_at (ls_sub s) t = None"
    "\<And>j t. j < length (ls_exprs s) \<Longrightarrow> t \<in> lc_wires (ls_exprs s ! j) \<Longrightarrow> t \<noteq> 0 \<Longrightarrow> t < length (ls_uses s)"
    "\<And>j t. j < length (ls_exprs s) \<Longrightarrow> t \<in> lc_wires (ls_exprs s ! j) \<Longrightarrow> t \<noteq> 0 \<Longrightarrow> j \<in> set (ls_uses s ! t)"
    "\<And>w. w \<in> set (ls_elim s) \<Longrightarrow> w \<noteq> 0 \<and> w < n \<and> w \<notin> set boundary \<and> w \<notin> set opaque"
  using assms unfolding lin_wf_def by blast+

lemma lin_wfI:
  assumes "length (ls_sub s) = n" "length (ls_drop s) = length cs" "length (ls_elim s) = length (ls_exprs s)"
    "ls_uses s = [] \<or> length (ls_uses s) = n"
    "\<And>t j. t < length (ls_uses s) \<Longrightarrow> j \<in> set (ls_uses s ! t) \<Longrightarrow> j < length (ls_exprs s)"
    "\<And>w j. sub_at (ls_sub s) w = Some j \<Longrightarrow> j < length (ls_exprs s) \<and> ls_elim s ! j = w"
    "\<And>j. j < length (ls_exprs s) \<Longrightarrow> sub_at (ls_sub s) (ls_elim s ! j) = Some j \<and> lc_nf p (ls_exprs s ! j)"
    "\<And>j t. j < length (ls_exprs s) \<Longrightarrow> t \<in> lc_wires (ls_exprs s ! j) \<Longrightarrow> t < n \<and> sub_at (ls_sub s) t = None \<and>
       (t \<noteq> 0 \<longrightarrow> t < length (ls_uses s) \<and> j \<in> set (ls_uses s ! t))"
    "\<And>w. w \<in> set (ls_elim s) \<Longrightarrow> w \<noteq> 0 \<and> w < n \<and> w \<notin> set boundary \<and> w \<notin> set opaque"
  shows "lin_wf p n boundary opaque cs s"
  using assms unfolding lin_wf_def by blast

lemma lin_wf_elim_ok: "lin_wf p n boundary opaque cs s \<Longrightarrow> elim_ok p (ls_sub s) (ls_exprs s)"
  using lin_wfD(6,9) by (simp add: elim_ok_def)

lemma lin_wf_zero:
  assumes wf: "lin_wf p n boundary opaque cs s"
  shows "sub_at (ls_sub s) 0 = None"
proof (rule ccontr)
  assume "sub_at (ls_sub s) 0 \<noteq> None"
  then obtain j where "sub_at (ls_sub s) 0 = Some j" by blast
  then have "j < length (ls_elim s)" "ls_elim s ! j = 0" using lin_wfD(3,6,7) [OF wf] by auto
  then show False using lin_wfD(14) [OF wf] nth_mem by metis
qed

lemma sub_at_update: "w < length sub \<Longrightarrow> sub_at (sub[w := x]) v = (if v = w then x else sub_at sub v)"
  by (simp add: sub_at_def)

text \<open>A constraint resolved through the eliminations mentions surviving wires only.\<close>

lemma resolved_lc:
  assumes p: "is_prime p" and wf: "lin_wf p n boundary opaque cs s" and l: "lc_nf p l" "\<forall>t\<in>lc_wires l. t < n"
  shows "lc_nf p (substitute_lc p (ls_sub s) (ls_exprs s) l)"
    and "\<forall>t\<in>lc_wires (substitute_lc p (ls_sub s) (ls_exprs s) l). t < n \<and> sub_at (ls_sub s) t = None"
proof -
  show "lc_nf p (substitute_lc p (ls_sub s) (ls_exprs s) l)"
    by (rule substitute_lc_nf [OF p lin_wf_elim_ok [OF wf] l(1)])
  show "\<forall>t\<in>lc_wires (substitute_lc p (ls_sub s) (ls_exprs s) l). t < n \<and> sub_at (ls_sub s) t = None"
  proof
    fix t assume "t \<in> lc_wires (substitute_lc p (ls_sub s) (ls_exprs s) l)"
    then obtain w where w: "w \<in> lc_wires l"
      "t \<in> (case sub_at (ls_sub s) w of Some i \<Rightarrow> lc_wires (ls_exprs s ! i) | None \<Rightarrow> {w})"
      using substitute_lc_wires [of p "ls_sub s" "ls_exprs s" l] by blast
    show "t < n \<and> sub_at (ls_sub s) t = None"
    proof (cases "sub_at (ls_sub s) w")
      case None
      then show ?thesis using w l(2) by auto
    next
      case (Some i)
      then have "i < length (ls_exprs s)" "t \<in> lc_wires (ls_exprs s ! i)" using lin_wfD(6) [OF wf] w(2) by auto
      then show ?thesis using lin_wfD(10,11) [OF wf] by blast
    qed
  qed
qed

lemma lc_variable_wires [simp]: "lc_wires (lc_variable i) = {i}"
  by (simp add: lc_wires_def lc_variable_def)

text \<open>Recording a pivot: the structure survives, and every earlier expression is rewritten.\<close>

lemma record_pivot_fields:
  assumes p: "0 < p" and wf: "lin_wf p n boundary opaque cs s"
    and w: "eligible boundary opaque (ls_sub s) w"
    and e: "lc_nf p e" "w \<notin> lc_wires e" "\<forall>t\<in>lc_wires e. t < n \<and> sub_at (ls_sub s) t = None"
    and s': "s' = record_pivot p n i w e s"
  shows "length (ls_exprs s') = Suc (length (ls_exprs s))" "ls_exprs s' ! length (ls_exprs s) = e"
    "\<And>j. j < length (ls_exprs s) \<Longrightarrow> ls_exprs s' ! j = sub1 p w e (ls_exprs s ! j)"
    "ls_sub s' = (ls_sub s)[w := Some (length (ls_exprs s))]" "ls_elim s' = ls_elim s @ [w]"
    "ls_drop s' = (ls_drop s)[i := True]" "ls_renames s' = ls_renames s"
    "length (ls_uses s') = n"
    "\<And>t j. t < n \<Longrightarrow> j \<in> set (ls_uses s' ! t) \<Longrightarrow> j < Suc (length (ls_exprs s))"
    "\<And>t. t \<in> lc_wires e \<Longrightarrow> t \<noteq> 0 \<Longrightarrow> length (ls_exprs s) \<in> set (ls_uses s' ! t)"
    "\<And>t j. j < length (ls_exprs s) \<Longrightarrow> t \<in> lc_wires (ls_exprs s ! j) \<Longrightarrow> t \<noteq> 0 \<Longrightarrow> t \<noteq> w \<Longrightarrow> j \<in> set (ls_uses s' ! t)"
    "\<And>t j. j < length (ls_exprs s) \<Longrightarrow> w \<in> lc_wires (ls_exprs s ! j) \<Longrightarrow> t \<in> lc_wires e \<Longrightarrow> t \<noteq> 0 \<Longrightarrow> j \<in> set (ls_uses s' ! t)"
proof -
  let ?k = "length (ls_exprs s)"
  define u0 where "u0 = (if ls_uses s = [] then replicate n [] else ls_uses s)"
  define u1 where "u1 = push_uses ?k e u0"
  define u2 where "u2 = u1[w := []]"
  define ds where "ds = u1 ! w"
  obtain es' us' where fold: "foldl (back_substitute p w e) (ls_exprs s @ [e], u2) ds = (es', us')" by fastforce
  have s'_eq: "s' = s\<lparr>ls_sub := (ls_sub s)[w := Some ?k], ls_exprs := es', ls_elim := ls_elim s @ [w],
      ls_uses := us', ls_drop := (ls_drop s)[i := True]\<rparr>"
    using fold by (simp add: s' record_pivot_def u0_def u1_def u2_def ds_def Let_def)
  have wn: "w < n" "w \<noteq> 0" using w lin_wfD(1) [OF wf] by (simp_all add: eligible_def)
  have u0: "length u0 = n" using lin_wfD(4) [OF wf] by (auto simp: u0_def)
  have u0_mem: "j < ?k" if "t < n" "j \<in> set (u0 ! t)" for t j
    using that lin_wfD(4,5) [OF wf] by (auto simp: u0_def split: if_splits)
  have u0_uses: "j \<in> set (u0 ! t)" if "j < ?k" "t \<in> lc_wires (ls_exprs s ! j)" "t \<noteq> 0" for t j
    using lin_wfD(12,13) [OF wf that] by (auto simp: u0_def)
  have u1w: "u1 ! w = u0 ! w" unfolding u1_def by (rule push_uses_other [OF e(2)])
  have ds: "\<forall>j\<in>set ds. j < ?k" using u0_mem [OF wn(1)] by (simp add: ds_def u1w)
  have nf: "\<forall>j < ?k. lc_nf p ((ls_exprs s @ [e]) ! j)" using lin_wfD(9) [OF wf] by (simp add: nth_append)
  have "?k \<le> length (ls_exprs s @ [e])" by simp
  note F = back_substitute_fold [OF p e(1,2) nf this ds fold]
  have len: "length es' = Suc ?k" "length us' = n" using F u0 by (simp_all add: u1_def u2_def)
  have val: "es' ! j = (if j \<in> set ds then sub1 p w e ((ls_exprs s @ [e]) ! j) else (ls_exprs s @ [e]) ! j)" for j
    using F by blast
  show "length (ls_exprs s') = Suc ?k" "ls_sub s' = (ls_sub s)[w := Some ?k]" "ls_elim s' = ls_elim s @ [w]"
    "ls_drop s' = (ls_drop s)[i := True]" "ls_renames s' = ls_renames s" "length (ls_uses s') = n"
    using len by (simp_all add: s'_eq)
  show "ls_exprs s' ! ?k = e" using val [of ?k] ds by (auto simp: s'_eq)
  show "ls_exprs s' ! j = sub1 p w e (ls_exprs s ! j)" if j: "j < ?k" for j
  proof (cases "j \<in> set ds")
    case True
    then show ?thesis using val [of j] j by (simp add: s'_eq nth_append)
  next
    case False
    then have "w \<notin> lc_wires (ls_exprs s ! j)" using u0_uses [OF j _ wn(2)] by (auto simp: ds_def u1w)
    moreover have "lc_nf p (ls_exprs s ! j)" by (rule lin_wfD(9) [OF wf j])
    ultimately have "sub1 p w e (ls_exprs s ! j) = ls_exprs s ! j" using sub1_props(4) [OF p _ e(1,2)] by blast
    then show ?thesis using False val [of j] j by (simp add: s'_eq nth_append)
  qed
  have u2: "set (u2 ! t) \<subseteq> set (us' ! t)" "set (us' ! t) \<subseteq> set (u2 ! t) \<union> set ds" for t using F by blast+
  show "j < Suc ?k" if "t < n" "j \<in> set (ls_uses s' ! t)" for t j
  proof -
    have "set (u2 ! t) \<subseteq> insert ?k (set (u0 ! t))"
      using push_uses_bound [of ?k e u0 t] that(1) u0 by (cases "t = w") (auto simp: u2_def u1_def)
    then have "j \<in> insert ?k (set (u0 ! t)) \<union> set ds" using u2(2) [of t] that(2) by (auto simp: s'_eq)
    then show ?thesis using u0_mem [OF that(1), of j] ds by auto
  qed
  show "?k \<in> set (ls_uses s' ! t)" if "t \<in> lc_wires e" "t \<noteq> 0" for t
  proof -
    have "?k \<in> set (u1 ! t)" using push_uses_mem [of u0 t ?k e] that e(3) u0 by (simp add: u1_def)
    moreover have "t \<noteq> w" using that(1) e(2) by auto
    ultimately have "?k \<in> set (u2 ! t)" by (simp add: u2_def)
    then show ?thesis using u2(1) by (auto simp: s'_eq)
  qed
  show "j \<in> set (ls_uses s' ! t)" if "j < ?k" "t \<in> lc_wires (ls_exprs s ! j)" "t \<noteq> 0" "t \<noteq> w" for t j
  proof -
    have "j \<in> set (u1 ! t)" using u0_uses [OF that(1-3)] push_uses_mem [of u0 t ?k e] by (auto simp: u1_def)
    then have "j \<in> set (u2 ! t)" using that(4) by (simp add: u2_def)
    then show ?thesis using u2(1) by (auto simp: s'_eq)
  qed
  show "j \<in> set (ls_uses s' ! t)" if "j < ?k" "w \<in> lc_wires (ls_exprs s ! j)" "t \<in> lc_wires e" "t \<noteq> 0" for t j
  proof -
    have "j \<in> set ds" using u0_uses [OF that(1,2) wn(2)] by (simp add: ds_def u1w)
    moreover have "t < length u2" using that(3) e(3) u0 by (simp add: u2_def u1_def)
    moreover have "w \<in> lc_wires ((ls_exprs s @ [e]) ! j)" using that(1,2) by (simp add: nth_append)
    ultimately show ?thesis using F that(3,4) by (simp add: s'_eq)
  qed
qed

lemma record_pivot_wf:
  assumes p: "0 < p" and wf: "lin_wf p n boundary opaque cs s" and i: "i < length cs"
    and w: "eligible boundary opaque (ls_sub s) w"
    and e: "lc_nf p e" "w \<notin> lc_wires e" "\<forall>t\<in>lc_wires e. t < n \<and> sub_at (ls_sub s) t = None"
  shows "lin_wf p n boundary opaque cs (record_pivot p n i w e s)"
proof -
  define s' where "s' = record_pivot p n i w e s"
  let ?k = "length (ls_exprs s)"
  note D = lin_wfD [OF wf]
  note F = record_pivot_fields [OF p wf w e s'_def]
  have wn: "w < length (ls_sub s)" "w \<noteq> 0" "w \<notin> set boundary" "w \<notin> set opaque" "sub_at (ls_sub s) w = None"
    using w by (simp_all add: eligible_def sub_at_def)
  have sub': "sub_at (ls_sub s') v = (if v = w then Some ?k else sub_at (ls_sub s) v)" for v
    unfolding F(4) by (rule sub_at_update [OF wn(1)])
  have expr: "lc_nf p (ls_exprs s' ! j) \<and> (\<forall>t\<in>lc_wires (ls_exprs s' ! j). t < n \<and> sub_at (ls_sub s') t = None \<and>
      (t \<noteq> 0 \<longrightarrow> j \<in> set (ls_uses s' ! t)))" if j: "j < Suc ?k" for j
  proof (cases "j = ?k")
    case True
    then show ?thesis using e F(2,10) by (auto simp: sub')
  next
    case False
    then have j: "j < ?k" using j by simp
    note nf = D(9) [OF j]
    note sp = sub1_props [OF p nf e(1,2)]
    have "t < n \<and> sub_at (ls_sub s') t = None \<and> (t \<noteq> 0 \<longrightarrow> j \<in> set (ls_uses s' ! t))"
      if t: "t \<in> lc_wires (sub1 p w e (ls_exprs s ! j))" for t
    proof -
      have tw: "t \<noteq> w" using t sp(2) by blast
      consider "t \<in> lc_wires (ls_exprs s ! j)" | "t \<in> lc_wires e" "w \<in> lc_wires (ls_exprs s ! j)"
        using t sp(3,4) by fastforce
      then show ?thesis
      proof cases
        case 1
        then show ?thesis using D(10,11) [OF j] F(11) [OF j] tw by (simp add: sub')
      next
        case 2
        then show ?thesis using e(3) F(12) [OF j] tw by (simp add: sub')
      qed
    qed
    then show ?thesis using sp(1) F(3) [OF j] by simp
  qed
  have idx: "j < Suc ?k \<and> ls_elim s' ! j = v" if "sub_at (ls_sub s') v = Some j" for v j
  proof (cases "v = w")
    case True
    then show ?thesis using that D(3) F(5) by (simp add: sub' nth_append)
  next
    case False
    then have "sub_at (ls_sub s) v = Some j" using that by (simp add: sub')
    from D(6,7) [OF this] show ?thesis using D(3) F(5) by (simp add: nth_append)
  qed
  have inverse: "sub_at (ls_sub s') (ls_elim s' ! j) = Some j" if j: "j < Suc ?k" for j
  proof (cases "j = ?k")
    case True
    then show ?thesis using D(3) F(5) by (simp add: sub' nth_append)
  next
    case False
    then have "j < ?k" using j by simp
    then have "ls_elim s' ! j = ls_elim s ! j" "sub_at (ls_sub s) (ls_elim s ! j) = Some j"
      using D(3,8) F(5) by (simp_all add: nth_append)
    then show ?thesis using wn(5) by (auto simp: sub')
  qed
  have "\<forall>v\<in>set (ls_elim s'). v \<noteq> 0 \<and> v < n \<and> v \<notin> set boundary \<and> v \<notin> set opaque"
    using D(1,14) wn(1-4) by (auto simp: F(5))
  note elim = bspec [OF this]
  have "lin_wf p n boundary opaque cs s'"
  proof (rule lin_wfI)
    show "length (ls_sub s') = n" "length (ls_drop s') = length cs" "length (ls_elim s') = length (ls_exprs s')"
      using D(1-3) F(1,4-6) by simp_all
    show "ls_uses s' = [] \<or> length (ls_uses s') = n" using F(8) by simp
    show "j < length (ls_exprs s')" if "t < length (ls_uses s')" "j \<in> set (ls_uses s' ! t)" for t j
      using F(9) [of t j] that by (simp add: F(1,8))
    show "j < length (ls_exprs s') \<and> ls_elim s' ! j = v" if "sub_at (ls_sub s') v = Some j" for v j
      using idx [OF that] by (simp add: F(1))
    show "sub_at (ls_sub s') (ls_elim s' ! j) = Some j \<and> lc_nf p (ls_exprs s' ! j)" if "j < length (ls_exprs s')" for j
      using that inverse [of j] expr [of j] by (simp add: F(1))
    show "t < n \<and> sub_at (ls_sub s') t = None \<and> (t \<noteq> 0 \<longrightarrow> t < length (ls_uses s') \<and> j \<in> set (ls_uses s' ! t))"
      if "j < length (ls_exprs s')" "t \<in> lc_wires (ls_exprs s' ! j)" for t j
      using that expr [of j] by (simp add: F(1,8))
  qed (rule elim)
  then show ?thesis by (simp only: s'_def)
qed

text \<open>The induced assignment after the step is the old one with the pivot defined first.\<close>

lemma record_pivot_assign:
  assumes p: "0 < p" and wf: "lin_wf p n boundary opaque cs s"
    and w: "eligible boundary opaque (ls_sub s) w"
    and e: "lc_nf p e" "w \<notin> lc_wires e" "\<forall>t\<in>lc_wires e. t < n \<and> sub_at (ls_sub s) t = None"
    and s': "s' = record_pivot p n i w e s"
  shows "elim_assign (ls_sub s') (ls_exprs s') \<sigma> v mod p =
    elim_assign (ls_sub s) (ls_exprs s) (\<sigma>(w := lc_sum \<sigma> e)) v mod p"
proof -
  note F = record_pivot_fields [OF p wf w e s']
  have wn: "w < length (ls_sub s)" "sub_at (ls_sub s) w = None"
    using w by (simp_all add: eligible_def sub_at_def)
  have sub': "sub_at (ls_sub s') v = (if v = w then Some (length (ls_exprs s)) else sub_at (ls_sub s) v)"
    unfolding F(4) by (rule sub_at_update [OF wn(1)])
  show ?thesis
  proof (cases "v = w")
    case True
    then have "sub_at (ls_sub s') w = Some (length (ls_exprs s))" using sub' by simp
    then show ?thesis using True wn(2) F(2) by (simp add: elim_assign_def)
  next
    case vw: False
    show ?thesis
    proof (cases "sub_at (ls_sub s) v")
      case None
      then show ?thesis using vw by (simp add: elim_assign_def sub')
    next
      case (Some j)
      then have j: "j < length (ls_exprs s)" by (rule lin_wfD(6) [OF wf])
      have "lc_sum \<sigma> (sub1 p w e (ls_exprs s ! j)) mod p = lc_sum (\<sigma>(w := lc_sum \<sigma> e)) (ls_exprs s ! j) mod p"
        by (rule sub1_props(5) [OF p lin_wfD(9) [OF wf j] e(1,2)])
      then show ?thesis using Some vw F(3) [OF j] by (simp add: elim_assign_def sub')
    qed
  qed
qed

text \<open>A constraint holds under the induced assignment iff its resolved form holds.\<close>

lemma con_sat_resolved:
  "con_sat p (elim_assign sub es \<sigma>) c \<longleftrightarrow> con_sat p \<sigma> (substitute_con p sub es c)"
  by (rule con_sat_values) (simp_all add: substitute_con_def substitute_lc_sum)

lemma record_pivot_sem:
  assumes p: "0 < p" and wf: "lin_wf p n boundary opaque cs s" and sem: "lin_sem p cs s" and i: "i < length cs"
    and w: "eligible boundary opaque (ls_sub s) w"
    and e: "lc_nf p e" "w \<notin> lc_wires e" "\<forall>t\<in>lc_wires e. t < n \<and> sub_at (ls_sub s) t = None"
    and eqv: "\<And>\<sigma>. \<sigma> 0 = 1 \<Longrightarrow> con_sat p \<sigma> (substitute_con p (ls_sub s) (ls_exprs s) (cs ! i)) \<longleftrightarrow>
      \<sigma> w mod p = lc_sum \<sigma> e mod p"
  shows "lin_sem p cs (record_pivot p n i w e s)"
proof -
  define s' where "s' = record_pivot p n i w e s"
  note asg = record_pivot_assign [OF p wf w e s'_def]
  have drop': "ls_drop s' ! k \<longleftrightarrow> k = i \<or> ls_drop s ! k" if "k < length cs" for k
    using record_pivot_fields(6) [OF p wf w e s'_def] that lin_wfD(2) [OF wf] by (cases "k = i") simp_all
  have w0: "w \<noteq> 0" using w by (simp add: eligible_def)
  show ?thesis unfolding lin_sem_def s'_def [symmetric]
  proof (intro allI impI conjI)
    fix \<sigma> :: "nat \<Rightarrow> int" and k assume \<sigma>: "\<sigma> 0 = (1 :: int)" and k: "k < length cs" "ls_drop s' ! k"
    let ?t = "\<sigma>(w := lc_sum \<sigma> e)"
    have t0: "?t 0 = 1" using \<sigma> w0 by simp
    have "con_sat p (elim_assign (ls_sub s) (ls_exprs s) ?t) (cs ! k)"
    proof (cases "k = i")
      case True
      have "?t w = lc_sum \<sigma> e" by simp
      also have "\<dots> = lc_sum ?t e" by (rule lc_sum_cong) (use e(2) in auto)
      finally show ?thesis using eqv [of ?t, OF t0] True by (simp add: con_sat_resolved)
    next
      case False
      then show ?thesis using sem t0 k drop' [OF k(1)] by (simp add: lin_sem_def)
    qed
    moreover have "con_sat p (elim_assign (ls_sub s') (ls_exprs s') \<sigma>) (cs ! k) =
        con_sat p (elim_assign (ls_sub s) (ls_exprs s) ?t) (cs ! k)"
      by (rule con_sat_mod_cong) (rule asg)
    ultimately show "con_sat p (elim_assign (ls_sub s') (ls_exprs s') \<sigma>) (cs ! k)" by simp
  next
    fix \<sigma> :: "nat \<Rightarrow> int" and v assume \<sigma>: "\<sigma> 0 = (1 :: int)" and sat: "\<forall>k < length cs. ls_drop s' ! k \<longrightarrow> con_sat p \<sigma> (cs ! k)"
    have old: "\<forall>v. elim_assign (ls_sub s) (ls_exprs s) \<sigma> v mod p = \<sigma> v mod p"
      using sem \<sigma> sat drop' by (simp add: lin_sem_def)
    have "con_sat p (elim_assign (ls_sub s) (ls_exprs s) \<sigma>) (cs ! i) = con_sat p \<sigma> (cs ! i)"
      by (rule con_sat_mod_cong) (use old in blast)
    then have wv: "\<sigma> w mod p = lc_sum \<sigma> e mod p"
      using sat drop' [OF i] i eqv [of \<sigma>, OF \<sigma>] by (simp add: con_sat_resolved)
    have "elim_assign (ls_sub s) (ls_exprs s) (\<sigma>(w := lc_sum \<sigma> e)) v mod p = elim_assign (ls_sub s) (ls_exprs s) \<sigma> v mod p"
    proof (cases "sub_at (ls_sub s) v")
      case None
      then show ?thesis using wv by (simp add: elim_assign_def)
    next
      case (Some j)
      then show ?thesis using wv lc_sum_mod_cong [of "ls_exprs s ! j" "\<sigma>(w := lc_sum \<sigma> e)" p \<sigma>] by (simp add: elim_assign_def)
    qed
    then show "elim_assign (ls_sub s') (ls_exprs s') \<sigma> v mod p = \<sigma> v mod p" using asg old by simp
  qed
qed

section \<open>The scan\<close>

definition con_nf :: "int \<Rightarrow> nat \<Rightarrow> con \<Rightarrow> bool" where
  "con_nf p n c \<longleftrightarrow> lc_nf p (con_a c) \<and> lc_nf p (con_b c) \<and> lc_nf p (con_c c) \<and> (\<forall>t\<in>con_wires c. t < n)"

lemma lin_renames [simp]:
  "lin_wf p n boundary opaque cs (s\<lparr>ls_renames := r\<rparr>) = lin_wf p n boundary opaque cs s"
  "lin_sem p cs (s\<lparr>ls_renames := r\<rparr>) = lin_sem p cs s"
  by (simp_all add: lin_wf_def lin_sem_def)

lemma lin_step_inv:
  assumes p: "is_prime p" and wf: "lin_wf p n boundary opaque cs s" and sem: "lin_sem p cs s"
    and i: "i < length cs" and c: "con_nf p n (cs ! i)"
  shows "lin_wf p n boundary opaque cs (lin_step p n budget boundary opaque cs s (i, cs ! i)) \<and>
    lin_sem p cs (lin_step p n budget boundary opaque cs s (i, cs ! i))"
proof -
  have p0: "0 < p" using p by simp
  let ?res = "substitute_lc p (ls_sub s) (ls_exprs s)"
  let ?a = "?res (con_a (cs ! i))" and ?b = "?res (con_b (cs ! i))" and ?c = "?res (con_c (cs ! i))"
  have nf: "lc_nf p ?a" "lc_nf p ?b" "lc_nf p ?c"
    and wires: "\<forall>t\<in>lc_wires ?a \<union> lc_wires ?b \<union> lc_wires ?c. t < n \<and> sub_at (ls_sub s) t = None"
    using resolved_lc [OF p wf] c by (auto simp: con_nf_def con_wires_def)
  let ?elig = "eligible boundary opaque (ls_sub s)"
  show ?thesis
  proof (cases "linear_side p ?a ?b")
    case None
    then show ?thesis using wf sem by (simp add: lin_step_def resolve_lc_eq)
  next
    case (Some kl)
    then obtain k lin where kl: "linear_side p ?a ?b = Some (k, lin)" by (cases kl) auto
    note side = linear_side_value [OF kl p0]
    have lin: "lc_nf p lin" "\<forall>t\<in>lc_wires lin. sub_at (ls_sub s) t = None" "lc_wires lin \<subseteq> lc_wires ?a \<union> lc_wires ?b"
      using side(2) nf wires by auto
    have cn: "\<forall>t\<in>lc_wires ?c. sub_at (ls_sub s) t = None" using wires by blast
    show ?thesis
    proof (cases "k = 0 \<or> find_pivot p ?elig (ls_sub s) (ls_exprs s) k lin ?c = None")
      case True
      then show ?thesis using wf sem by (auto simp: lin_step_def resolve_lc_eq kl)
    next
      case False
      then obtain w e rn where fp: "find_pivot p ?elig (ls_sub s) (ls_exprs s) k lin ?c = Some ((w, e), rn)" by auto
      have k: "0 \<le> k" "k < p" using side(1) by blast+
      have good: "?elig w" "good_pivot p k lin ?c w e"
        using find_pivot_good [OF p lin_wf_elim_ok [OF wf] k lin(1,2) nf(3) cn fp] by blast+
      let ?s1 = "s\<lparr>ls_renames := ls_renames s @ rn\<rparr>"
      let ?mention = "list_ex (\<lambda>(t, tc). t = w) (lc_terms e)"
      let ?keep = "?mention \<or> budget < (occurrences cs w + uses_len (ls_uses s) w - 1) * (length (lc_terms e) - 1)"
      have step: "lin_step p n budget boundary opaque cs s (i, cs ! i) =
          (if ?keep then ?s1 else record_pivot p n i w e ?s1)"
        using False by (simp add: lin_step_def resolve_lc_eq kl fp Let_def)
      show ?thesis
      proof (cases ?keep)
        case True
        then show ?thesis unfolding step using wf sem by simp
      next
        case keep: False
        have wf1: "lin_wf p n boundary opaque cs ?s1" and sem1: "lin_sem p cs ?s1" using wf sem by simp_all
        have w1: "eligible boundary opaque (ls_sub ?s1) w" using good(1) by simp
        have e: "lc_nf p e" "w \<notin> lc_wires e" using good(2) keep by (force simp: good_pivot_def lc_wires_def list_ex_iff)+
        have ew: "\<forall>t\<in>lc_wires e. t < n \<and> sub_at (ls_sub ?s1) t = None"
          using good(2) lin(3) wires by (auto simp: good_pivot_def)
        have eqv: "con_sat p \<sigma> (substitute_con p (ls_sub ?s1) (ls_exprs ?s1) (cs ! i)) \<longleftrightarrow> \<sigma> w mod p = lc_sum \<sigma> e mod p"
          if "\<sigma> 0 = 1" for \<sigma>
          using good(2) side(3) [of \<sigma>, OF that] by (simp add: con_sat_def substitute_con_def good_pivot_def)
        from record_pivot_wf [OF p0 wf1 i w1 e ew] record_pivot_sem [OF p0 wf1 sem1 i w1 e ew eqv] keep
        show ?thesis unfolding step by simp
      qed
    qed
  qed
qed

lemma lin_scan_inv:
  assumes p: "is_prime p" and cs: "\<forall>c\<in>set cs. con_nf p n c"
  shows "lin_wf p n boundary opaque cs (lin_scan p n budget boundary opaque cs) \<and>
    lin_sem p cs (lin_scan p n budget boundary opaque cs)"
proof -
  let ?step = "lin_step p n budget boundary opaque cs"
  have init: "lin_wf p n boundary opaque cs (lin_init n cs)" "lin_sem p cs (lin_init n cs)"
    by (auto simp: lin_wf_def lin_sem_def lin_init_def sub_at_def elim_assign_def)
  have "lin_wf p n boundary opaque cs (foldl ?step s ics) \<and> lin_sem p cs (foldl ?step s ics)"
    if "lin_wf p n boundary opaque cs s" "lin_sem p cs s" "\<forall>(i, c)\<in>set ics. i < length cs \<and> c = cs ! i" for s ics
    using that
  proof (induction ics arbitrary: s)
    case (Cons ic ics)
    obtain i where ic: "ic = (i, cs ! i)" "i < length cs" using Cons.prems(3) by (cases ic) auto
    have "con_nf p n (cs ! i)" using cs ic(2) by simp
    from lin_step_inv [OF p Cons.prems(1,2) ic(2) this, of budget] Cons.IH Cons.prems(3)
    show ?case by (simp add: ic(1))
  qed simp
  moreover have "\<forall>(i, c)\<in>set (enumerate 0 cs). i < length cs \<and> c = cs ! i"
    by (auto simp: in_set_enumerate_eq)
  ultimately show ?thesis using init by (simp add: lin_scan_def)
qed

text \<open>The reduced constraints together with the definitions are the original constraints.\<close>

lemma reduced_constraints_sound:
  assumes p: "is_prime p" and cs: "\<forall>c\<in>set cs. con_nf p n c" and ls: "ls = lin_scan p n budget boundary opaque cs"
    and sat: "cons_sat p \<sigma> (reduced_constraints p ls cs)" and \<sigma>: "\<sigma> 0 = 1"
  shows "cons_sat p (elim_assign (ls_sub ls) (ls_exprs ls) \<sigma>) cs"
proof -
  have wf: "lin_wf p n boundary opaque cs ls" and sem: "lin_sem p cs ls" using lin_scan_inv [OF p cs] ls by auto
  have "con_sat p (elim_assign (ls_sub ls) (ls_exprs ls) \<sigma>) (cs ! i)" if i: "i < length cs" for i
  proof (cases "ls_drop ls ! i")
    case True
    then show ?thesis using sem \<sigma> i by (simp add: lin_sem_def)
  next
    case False
    let ?c = "substitute_con p (ls_sub ls) (ls_exprs ls) (cs ! i)"
    have "cs ! i \<in> set (retain_unmarked (ls_drop ls) cs)"
      using False i retain_unmarked_set [of "ls_drop ls" cs] lin_wfD(2) [OF wf] by auto
    then have "con_sat p \<sigma> ?c"
      using sat constraint_is_vacuous_sat [of p ?c \<sigma>] \<sigma> by (auto simp: cons_sat_def reduced_constraints_def)
    then show ?thesis by (simp add: con_sat_resolved)
  qed
  then show ?thesis by (auto simp: cons_sat_def in_set_conv_nth)
qed

lemma reduced_constraints_complete:
  assumes p: "is_prime p" and cs: "\<forall>c\<in>set cs. con_nf p n c" and ls: "ls = lin_scan p n budget boundary opaque cs"
    and sat: "cons_sat p \<sigma> cs" and \<sigma>: "\<sigma> 0 = 1"
  shows "cons_sat p \<sigma> (reduced_constraints p ls cs)"
    "\<forall>w. elim_assign (ls_sub ls) (ls_exprs ls) \<sigma> w mod p = \<sigma> w mod p"
proof -
  have wf: "lin_wf p n boundary opaque cs ls" and sem: "lin_sem p cs ls" using lin_scan_inv [OF p cs] ls by auto
  show eq: "\<forall>w. elim_assign (ls_sub ls) (ls_exprs ls) \<sigma> w mod p = \<sigma> w mod p"
    using sem \<sigma> sat by (simp add: lin_sem_def cons_sat_def)
  have "con_sat p \<sigma> (substitute_con p (ls_sub ls) (ls_exprs ls) (cs ! i))" if i: "i < length cs" for i
  proof -
    have "con_sat p (elim_assign (ls_sub ls) (ls_exprs ls) \<sigma>) (cs ! i) = con_sat p \<sigma> (cs ! i)"
      by (rule con_sat_mod_cong) (use eq in blast)
    then show ?thesis using sat i by (simp add: con_sat_resolved cons_sat_def)
  qed
  then show "cons_sat p \<sigma> (reduced_constraints p ls cs)"
    using retain_unmarked_set [of "ls_drop ls" cs] lin_wfD(2) [OF wf]
    by (auto simp: cons_sat_def reduced_constraints_def)
qed

text \<open>The eliminated wires are intermediate.\<close>

lemma elim_assign_surviving:
  assumes p: "is_prime p" and cs: "\<forall>c\<in>set cs. con_nf p n c" and ls: "ls = lin_scan p n budget boundary opaque cs"
    and w: "w \<notin> set (ls_elim ls)"
  shows "elim_assign (ls_sub ls) (ls_exprs ls) \<sigma> w = \<sigma> w"
proof -
  have wf: "lin_wf p n boundary opaque cs ls" using lin_scan_inv [OF p cs] ls by auto
  have "sub_at (ls_sub ls) w = None"
  proof (rule ccontr)
    assume "sub_at (ls_sub ls) w \<noteq> None"
    then obtain j where j: "sub_at (ls_sub ls) w = Some j" by blast
    then have "ls_elim ls ! j = w" "j < length (ls_elim ls)" using lin_wfD(3,6,7) [OF wf] by auto
    then show False using w nth_mem by blast
  qed
  then show ?thesis by (simp add: elim_assign_def)
qed

lemma elim_intermediate:
  assumes p: "is_prime p" and cs: "\<forall>c\<in>set cs. con_nf p n c" and ls: "ls = lin_scan p n budget boundary opaque cs"
    and w: "w \<in> set (ls_elim ls)"
  shows "w \<noteq> 0 \<and> w < n \<and> w \<notin> set boundary \<and> w \<notin> set opaque"
  using lin_wfD(14) lin_scan_inv [OF p cs] ls w by blast

end
