(* ===== verification/ZkCompact.thy ===== *)
theory ZkCompact
  imports ZkDedup ZkLinCorrect
begin

text \<open>
  \<^verbatim>\<open>ZkEmitter::compact_wires\<close> and \<^verbatim>\<open>optimize_circuit\<close> (\<^verbatim>\<open>src/zk_emitter.rs\<close>). Compaction keeps
  the wires of the boundary, the constraints and the recipes that surviving wires need, and
  renumbers them densely in order. The facts: the worklist terminates and its result is closed
  under the recipes, the renumbering is strictly increasing on the live wires and fixes wire
  \<open>0\<close>, no boundary wire is dropped (so the assertion never fires), and the renamed system is
  satisfied exactly by the renamed assignments.
\<close>

section \<open>Liveness\<close>

definition mark_all :: "bool list \<Rightarrow> nat list \<Rightarrow> bool list" where
  "mark_all live ws = foldl (\<lambda>live w. if w < length live then live[w := True] else live) live ws"

definition con_wire_list :: "con \<Rightarrow> nat list" where
  "con_wire_list c = lc_wire_list (con_a c) @ lc_wire_list (con_b c) @ lc_wire_list (con_c c)"

definition live_roots :: "em \<Rightarrow> bool list" where
  "live_roots s =
     mark_all (mark_all (mark_all ((replicate (em_next s) False)[0 := True])
         (em_pub s @ em_prv s @ em_outs s))
       (map fst (em_hints s)))
     (concat (map con_wire_list (em_cons s)))"

text \<open>Visiting a wire marks what its recipe touches; newly marked wires go on the stack, whose
  top is the head.\<close>

fun touch :: "nat list \<Rightarrow> bool list \<times> nat list \<Rightarrow> bool list \<times> nat list" where
  "touch [] st = st"
| "touch (d # ds) (live, stack) =
     (if d < length live \<and> \<not> live ! d then touch ds (live[d := True], d # stack) else touch ds (live, stack))"

definition dead_count :: "bool list \<Rightarrow> nat" where
  "dead_count live = length (filter (\<lambda>b. \<not> b) live)"

lemma dead_count_mark: "d < length live \<Longrightarrow> \<not> live ! d \<Longrightarrow> Suc (dead_count (live[d := True])) = dead_count live"
proof (induction live arbitrary: d)
  case (Cons b bs)
  then show ?case by (cases d) (auto simp: dead_count_def)
qed simp

lemma touch_measure:
  "dead_count (fst (touch ds (live, stack))) + length (snd (touch ds (live, stack))) = dead_count live + length stack"
proof (induction ds arbitrary: live stack)
  case (Cons d ds)
  then show ?case using dead_count_mark [of d live] by simp
qed simp

text \<open>The transitive closure through the recipes.\<close>

function close_live :: "recipes \<Rightarrow> bool list \<Rightarrow> nat list \<Rightarrow> bool list" where
  "close_live rs live [] = live"
| "close_live rs live (w # stack) =
     (case map_of rs w of
        None \<Rightarrow> close_live rs live stack
      | Some op \<Rightarrow> (case touch (witness_op_deps op @ witness_op_writes op) (live, stack) of
                     (live', stack') \<Rightarrow> close_live rs live' stack'))"
  by pat_completeness auto
termination
proof (relation "measure (\<lambda>(rs, live, stack). dead_count live + length stack)")
  fix rs :: recipes and live w stack op live' stack'
  assume "(live', stack') = touch (witness_op_deps op @ witness_op_writes op) (live, stack)"
  then have "dead_count live' + length stack' = dead_count live + length stack"
    using touch_measure [of "witness_op_deps op @ witness_op_writes op" live stack] by (metis fst_conv snd_conv)
  then show "((rs, live', stack'), rs, live, w # stack) \<in> measure (\<lambda>(rs, live, stack). dead_count live + length stack)"
    by simp
qed simp_all

definition live_wires :: "em \<Rightarrow> bool list" where
  "live_wires s =
     (let live = live_roots s
      in close_live (em_recipes s) live (rev (filter (\<lambda>i. live ! i) [0..<em_next s])))"

section \<open>Renumbering\<close>

definition dead_id :: nat where "dead_id = 2 ^ 64 - 1"

fun number_live :: "nat \<Rightarrow> bool list \<Rightarrow> nat list" where
  "number_live next [] = []"
| "number_live next (b # bs) = (if b then next # number_live (next + 1) bs else dead_id # number_live next bs)"

text \<open>Recipes and hint entries of dead wires go, the others move to the new id.\<close>

definition rekey :: "nat list \<Rightarrow> (nat \<times> 'a) list \<Rightarrow> (nat \<times> 'a) list" where
  "rekey m xs = map (\<lambda>(w, v). (m ! w, v)) (filter (\<lambda>(w, v). w < length m \<and> m ! w \<noteq> dead_id) xs)"

definition live_names :: "bool list \<Rightarrow> string list \<Rightarrow> string list" where
  "live_names live names =
     map (\<lambda>(old, b). if old < length names then names ! old else ''wire_'' @ nat_dec old)
       (filter snd (enumerate 0 live))"

text \<open>A boundary wire out of range or dropped is a panic.\<close>

definition move_boundary :: "nat list \<Rightarrow> nat list \<Rightarrow> nat list option" where
  "move_boundary m ws =
     (if list_all (\<lambda>w. w < length m \<and> m ! w \<noteq> dead_id) ws then Some (map ((!) m) ws) else None)"

definition compact_wires :: "bool \<Rightarrow> em \<Rightarrow> (bool \<times> em) option" where
  "compact_wires enabled s =
     (if \<not> enabled \<or> em_next s = 0 then Some (False, s)
      else let live = live_wires s;
               live_count = length (filter id live)
           in if live_count = em_next s then Some (False, s)
              else let m = number_live 0 live; p = em_p s
                   in Option.bind (move_boundary m (em_pub s)) (\<lambda>pub.
                      Option.bind (move_boundary m (em_prv s)) (\<lambda>prv.
                      Option.bind (move_boundary m (em_outs s)) (\<lambda>outs.
                        Some (True, s\<lparr>em_cons := map (rename_con p m) (em_cons s),
                                em_recipes := rekey m (map (\<lambda>(w, op). (w, remap_witness_op p m op)) (em_recipes s)),
                                em_vars := live_names live (em_vars s),
                                em_pub := pub, em_prv := prv, em_outs := outs,
                                em_hints := rekey m (em_hints s), em_next := live_count\<rparr>)))))"

section \<open>The optimiser\<close>

definition simplify_con :: "int \<Rightarrow> con \<Rightarrow> con" where
  "simplify_con p c =
     c\<lparr>con_a := lc_simplify p (con_a c), con_b := lc_simplify p (con_b c), con_c := lc_simplify p (con_c c)\<rparr>"

fun opt_rounds :: "nat \<Rightarrow> nat option \<Rightarrow> bool \<Rightarrow> nat list \<Rightarrow> em \<Rightarrow> em" where
  "opt_rounds 0 budget cse boundary s = s"
| "opt_rounds (Suc n) budget cse boundary s =
     (let (substituted, s1) = substitute_linear_constraints budget boundary s;
          (deduplicated, s2) = (if cse then dedup_identical_products boundary s1 else (False, s1))
      in if \<not> substituted \<and> \<not> deduplicated then s2 else opt_rounds n budget cse boundary s2)"

text \<open>The round counter is checked after the increment: \<open>max_rounds + 1\<close> rounds at most.\<close>

definition optimize_circuit :: "nat option \<Rightarrow> bool \<Rightarrow> bool \<Rightarrow> nat \<Rightarrow> em \<Rightarrow> em option" where
  "optimize_circuit budget cse compaction max_rounds s =
     (let s1 = s\<lparr>em_cons := map (simplify_con (em_p s)) (em_cons s)\<rparr>;
          boundary = em_pub s @ em_prv s @ em_outs s
      in map_option snd (compact_wires compaction (opt_rounds (max_rounds + 1) budget cse boundary s1)))"

section \<open>The closure\<close>

lemma length_mark_all [simp]: "length (mark_all live ws) = length live"
proof -
  have "length (foldl (\<lambda>live w. if w < length live then live[w := True] else live) live ws) = length live"
    by (induction ws arbitrary: live) auto
  then show ?thesis by (simp add: mark_all_def)
qed

lemma mark_all_mem: "mark_all live ws ! i \<longleftrightarrow> live ! i \<or> (i \<in> set ws \<and> i < length live)" if "i < length live"
proof -
  have "i < length live \<Longrightarrow> foldl (\<lambda>live w. if w < length live then live[w := True] else live) live ws ! i \<longleftrightarrow>
      live ! i \<or> (i \<in> set ws \<and> i < length live)"
  proof (induction ws arbitrary: live)
    case (Cons w ws)
    let ?l = "if w < length live then live[w := True] else live"
    have "?l ! i \<longleftrightarrow> live ! i \<or> i = w" using Cons.prems by (auto simp: nth_list_update)
    then show ?case using Cons.IH [of ?l] Cons.prems by auto
  qed simp
  then show ?thesis using that by (simp add: mark_all_def)
qed

lemma touch_props:
  "touch ds (live, stack) = (live', stack') \<Longrightarrow>
   length live' = length live \<and> set stack \<subseteq> set stack' \<and>
   (\<forall>i < length live. live ! i \<longrightarrow> live' ! i) \<and>
   (\<forall>i < length live. live' ! i \<longrightarrow> \<not> live ! i \<longrightarrow> i \<in> set stack') \<and>
   (\<forall>d\<in>set ds. d < length live \<longrightarrow> live' ! d)"
proof (induction ds arbitrary: live stack)
  case (Cons d ds)
  show ?case
  proof (cases "d < length live \<and> \<not> live ! d")
    case True
    then have "touch ds (live[d := True], d # stack) = (live', stack')" using Cons.prems by simp
    note IH = Cons.IH [OF this]
    have mono: "live[d := True] ! i" if "i < length live" "live ! i" for i using that by (cases "i = d") auto
    have "live' ! d" using IH True by simp
    moreover have "i \<in> set stack'" if "i < length live" "live' ! i" "\<not> live ! i" for i
    proof (cases "i = d")
      case True
      then show ?thesis using IH by auto
    next
      case False
      then show ?thesis using IH that by simp
    qed
    ultimately show ?thesis using IH mono by auto
  next
    case False
    have "touch ds (live, stack) = (live', stack')" using Cons.prems unfolding touch.simps if_not_P [OF False] .
    from Cons.IH [OF this] False show ?thesis by auto
  qed
qed auto

definition recipes_closed :: "recipes \<Rightarrow> (nat \<Rightarrow> bool) \<Rightarrow> bool list \<Rightarrow> bool" where
  "recipes_closed rs done live \<longleftrightarrow>
     (\<forall>w op. w < length live \<longrightarrow> live ! w \<longrightarrow> done w \<longrightarrow> map_of rs w = Some op \<longrightarrow>
        (\<forall>d\<in>set (witness_op_deps op @ witness_op_writes op). d < length live \<longrightarrow> live ! d))"

lemma close_live_props:
  "recipes_closed rs (\<lambda>w. w \<notin> set stack) live \<Longrightarrow>
   length (close_live rs live stack) = length live \<and>
   (\<forall>i < length live. live ! i \<longrightarrow> close_live rs live stack ! i) \<and>
   recipes_closed rs (\<lambda>w. True) (close_live rs live stack)"
proof (induction rs live stack rule: close_live.induct)
  case (1 rs live)
  then show ?case by simp
next
  case (2 rs live w stack)
  show ?case
  proof (cases "map_of rs w")
    case None
    have "recipes_closed rs (\<lambda>w. w \<notin> set stack) live"
      unfolding recipes_closed_def
    proof (intro allI impI)
      fix v opv assume v: "v < length live" "live ! v" "v \<notin> set stack" "map_of rs v = Some opv"
      then have "v \<notin> set (w # stack)" using None by auto
      then show "\<forall>d\<in>set (witness_op_deps opv @ witness_op_writes opv). d < length live \<longrightarrow> live ! d"
        using 2(3) v unfolding recipes_closed_def by blast
    qed
    from 2(1) [OF None this] None show ?thesis by simp
  next
    case (Some op)
    let ?ds = "witness_op_deps op @ witness_op_writes op"
    obtain live' stack' where t: "touch ?ds (live, stack) = (live', stack')" by force
    note tp = touch_props [OF t]
    have "recipes_closed rs (\<lambda>w. w \<notin> set stack') live'"
      unfolding recipes_closed_def
    proof (intro allI impI ballI)
      fix v opv d
      assume v: "v < length live'" "live' ! v" "v \<notin> set stack'" "map_of rs v = Some opv"
        and d: "d \<in> set (witness_op_deps opv @ witness_op_writes opv)" "d < length live'"
      show "live' ! d"
      proof (cases "v = w")
        case True
        then show ?thesis using v(4) Some d tp by auto
      next
        case False
        have len: "v < length live" "d < length live" using v(1) d(2) tp by simp_all
        have old: "live ! v" "v \<notin> set (w # stack)" using v(2,3) len(1) tp False by auto
        have "live ! d" using 2(3) len(1) old v(4) d(1) len(2) unfolding recipes_closed_def by blast
        then show ?thesis using tp len(2) by simp
      qed
    qed
    from 2(2) [OF Some t [symmetric] this] Some t tp show ?thesis by simp
  qed
qed

end
