(* ===== verification/ZkOptimize.thy ===== *)
theory ZkOptimize
  imports ZkCompact
begin

text \<open>
  The optimiser as a whole: what a circuit accepts on its boundary (inputs and outputs) is
  what the optimised circuit accepts. Every pass keeps the circuit well formed: constraints in
  normal form over wires below \<^verbatim>\<open>next_var_id\<close>, boundary wires in range.
\<close>

section \<open>Circuits in normal form\<close>

definition circuit_ok :: "em \<Rightarrow> bool" where
  "circuit_ok s \<longleftrightarrow> 0 < em_next s \<and> (\<forall>w\<in>set (boundary_of s). w < em_next s) \<and>
     (\<forall>c\<in>set (em_cons s). con_nf (em_p s) (em_next s) c)"

lemma circuit_ok_cons: "circuit_ok s \<Longrightarrow> \<forall>c\<in>set (em_cons s). con_nf (em_p s) (em_next s) c"
  by (simp add: circuit_ok_def)

lemma circuit_ok_wires: "circuit_ok s \<Longrightarrow> \<forall>c\<in>set (em_cons s). \<forall>w\<in>con_wires c. w < em_next s"
  by (simp add: circuit_ok_def con_nf_def)

section \<open>Simplification\<close>

lemma simplify_con_sat: "con_sat p \<sigma> (simplify_con p c) = con_sat p \<sigma> c"
  by (rule con_sat_values) (simp_all add: simplify_con_def lc_simplify_sum)

lemma simplify_con_nf:
  "0 < p \<Longrightarrow> con_ok p c \<Longrightarrow> \<forall>w\<in>con_wires c. w < n \<Longrightarrow> con_nf p n (simplify_con p c)"
  using lc_simplify_wires by (fastforce simp: con_nf_def con_ok_def con_wires_def simplify_con_def lc_nf_simplify)

lemma simplify_all:
  assumes "0 < em_p s" "wires_ok s"
  shows "circuit_ok (s\<lparr>em_cons := map (simplify_con (em_p s)) (em_cons s)\<rparr>)"
    and "accepts (s\<lparr>em_cons := map (simplify_con (em_p s)) (em_cons s)\<rparr>) vs = accepts s vs"
proof -
  show "circuit_ok (s\<lparr>em_cons := map (simplify_con (em_p s)) (em_cons s)\<rparr>)"
    using assms simplify_con_nf [OF assms(1)] by (simp add: wires_ok_def circuit_ok_def boundary_of_def)
  show "accepts (s\<lparr>em_cons := map (simplify_con (em_p s)) (em_cons s)\<rparr>) vs = accepts s vs"
    by (simp add: accepts_def boundary_of_def cons_sat_def simplify_con_sat)
qed

section \<open>Linear substitution\<close>

lemma substitute_con_nf:
  assumes p: "is_prime p" and wf: "lin_wf p n boundary opaque cs ls" and c: "con_nf p n c"
  shows "con_nf p n (substitute_con p (ls_sub ls) (ls_exprs ls) c)"
    and "w \<in> con_wires (substitute_con p (ls_sub ls) (ls_exprs ls) c) \<Longrightarrow> sub_at (ls_sub ls) w = None"
  using resolved_lc [OF p wf] c by (auto simp: con_nf_def con_wires_def substitute_con_def)

lemma set_retain: "length marks = length xs \<Longrightarrow> set (retain_unmarked marks xs) \<subseteq> set xs"
  using retain_unmarked_set by fastforce

lemma lin_round:
  assumes p: "is_prime (em_p s)" and ok: "circuit_ok s"
    and r: "substitute_linear_constraints budget (boundary_of s) s = (b, s')"
  shows "circuit_ok s'" "em_p s' = em_p s" "boundary_of s' = boundary_of s" "accepts s' vs = accepts s vs" "em_next s' = em_next s"
proof -
  have "circuit_ok s' \<and> em_p s' = em_p s \<and> boundary_of s' = boundary_of s \<and> accepts s' vs = accepts s vs \<and> em_next s' = em_next s"
  proof (cases "s' = s")
    case True
    then show ?thesis using ok by simp
  next
    case False
    then obtain bud where bud: "budget = Some bud" using r by (auto simp: substitute_linear_constraints_def split: option.splits)
    define ls where "ls = lin_scan (em_p s) (em_next s) bud (boundary_of s) (opaque_wires (em_recipes s)) (em_cons s)"
    have s': "em_cons s' = reduced_constraints (em_p s) ls (em_cons s)" "em_p s' = em_p s" "em_next s' = em_next s"
      "boundary_of s' = boundary_of s"
      using r bud False by (auto simp: substitute_linear_constraints_def ls_def Let_def boundary_of_def split: if_splits)
    note cs = circuit_ok_cons [OF ok]
    have wf: "lin_wf (em_p s) (em_next s) (boundary_of s) (opaque_wires (em_recipes s)) (em_cons s) ls"
      using lin_scan_inv [OF p cs] by (simp add: ls_def)
    have "\<forall>c\<in>set (em_cons s'). con_nf (em_p s) (em_next s) c"
      using substitute_con_nf(1) [OF p wf] set_retain [of "ls_drop ls" "em_cons s"] lin_wfD(2) [OF wf] cs
      by (auto simp: s'(1) reduced_constraints_def)
    then have ok': "circuit_ok s'" using ok by (simp add: circuit_ok_def s'(2-4))
    have "accepts s vs" if acc: "accepts s' vs"
    proof -
      obtain \<sigma> where \<sigma>: "\<sigma> 0 = 1" "cons_sat (em_p s) \<sigma> (reduced_constraints (em_p s) ls (em_cons s))" "map \<sigma> (boundary_of s) = vs"
        using acc s' by (auto elim: acceptsE)
      let ?t = "elim_assign (ls_sub ls) (ls_exprs ls) \<sigma>"
      have out: "?t w = \<sigma> w" if "w = 0 \<or> w \<in> set (boundary_of s)" for w
        using elim_assign_surviving [OF p cs ls_def] elim_intermediate [OF p cs ls_def] that by blast
      show ?thesis
      proof (rule acceptsI)
        show "?t 0 = 1" using out [of 0] \<sigma>(1) by simp
        show "cons_sat (em_p s) ?t (em_cons s)" by (rule reduced_constraints_sound [OF p cs ls_def \<sigma>(2,1)])
        show "map ?t (boundary_of s) = vs" using out \<sigma>(3) by (metis map_cong)
      qed
    qed
    moreover have "accepts s' vs" if acc: "accepts s vs"
    proof -
      obtain \<sigma> where \<sigma>: "\<sigma> 0 = 1" "cons_sat (em_p s) \<sigma> (em_cons s)" "map \<sigma> (boundary_of s) = vs" by (rule acceptsE [OF acc])
      show ?thesis using reduced_constraints_complete(1) [OF p cs ls_def \<sigma>(2,1)] \<sigma> s' by (intro acceptsI [of \<sigma>]) simp_all
    qed
    ultimately show ?thesis using ok' s' by blast
  qed
  then show "circuit_ok s'" "em_p s' = em_p s" "boundary_of s' = boundary_of s" "accepts s' vs = accepts s vs" "em_next s' = em_next s"
    by blast+
qed

section \<open>Common subexpressions\<close>

lemma rename_con_nf:
  assumes "0 < p" "con_nf p n c" "\<forall>w\<in>con_wires c. rename_at m w < n'"
  shows "con_nf p n' (rename_con p m c)"
proof -
  have "\<forall>w\<in>con_wires (rename_con p m c). w < n'"
    using replace_wires_wires [of p m] assms(3) by (fastforce simp: con_wires_def rename_con_def)
  then show ?thesis using assms replace_wires_nf [OF assms(1)] by (simp add: con_nf_def rename_con_def)
qed

lemma dedup_one:
  assumes p: "is_prime (em_p s)" and ok: "circuit_ok s" and r: "dedup_round (boundary_of s) s = Some s'"
  shows "circuit_ok s'" "em_p s' = em_p s" "boundary_of s' = boundary_of s" "em_next s' = em_next s"
    "accepts s vs \<Longrightarrow> accepts s' vs"
    "products_distinct (boundary_of s) (em_cons s) \<Longrightarrow> accepts s' vs \<Longrightarrow> accepts s vs"
proof -
  let ?d = "dedup_scan (em_p s) (boundary_of s) (em_cons s)"
  have s': "em_cons s' = dedup_constraints (em_p s) (em_next s) (boundary_of s) (em_cons s)"
    by (rule dedup_round_cons [OF r])
  show same: "em_p s' = em_p s" "boundary_of s' = boundary_of s" "em_next s' = em_next s"
    using r by (auto simp: dedup_round_def Let_def boundary_of_def split: if_splits)
  note wires = circuit_ok_wires [OF ok]
  note sp = dedup_scan_spec [of "boundary_of s" "em_cons s" "em_p s", unfolded scan_spec_def]
  have target: "m < em_next s" if "map_of (dd_repl ?d) w = Some m" for w m
  proof -
    obtain k where "k < length (em_cons s)" "is_product (boundary_of s) (em_cons s ! k)" "m = out_wire (em_cons s ! k)"
      using sp \<open>map_of (dd_repl ?d) w = Some m\<close> by blast
    then show ?thesis using product_out_wire wires nth_mem by blast
  qed
  have ren: "rename_at (rename_vector (em_next s) (dd_repl ?d)) w < em_next s" if "w < em_next s" for w
    using that target [of w] sp by (auto simp: rename_vector_at split: option.splits)
  have "con_nf (em_p s) (em_next s) (rename_con (em_p s) (rename_vector (em_next s) (dd_repl ?d)) c)" if "c \<in> set (em_cons s)" for c
    by (rule rename_con_nf) (use that ok ren wires p in \<open>auto simp: circuit_ok_def\<close>)
  then have "\<forall>c\<in>set (em_cons s'). con_nf (em_p s) (em_next s) c"
    using set_retain [of "dd_dup ?d" "em_cons s"] sp by (auto simp: s' dedup_constraints_def Let_def)
  then show "circuit_ok s'" using ok by (simp add: circuit_ok_def same)
  show "accepts s' vs" if acc: "accepts s vs"
  proof -
    obtain \<sigma> where \<sigma>: "\<sigma> 0 = 1" "cons_sat (em_p s) \<sigma> (em_cons s)" "map \<sigma> (boundary_of s) = vs" by (rule acceptsE [OF acc])
    show ?thesis using dedup_complete(1) [OF \<sigma>(2)] \<sigma> s' same by (intro acceptsI [of \<sigma>]) simp_all
  qed
  show "accepts s vs" if dist: "products_distinct (boundary_of s) (em_cons s)" and acc: "accepts s' vs"
  proof -
    obtain \<sigma> where \<sigma>: "\<sigma> 0 = 1" "cons_sat (em_p s) \<sigma> (em_cons s')" "map \<sigma> (boundary_of s) = vs"
      using acc same by (auto elim: acceptsE)
    note ds = dedup_sound [OF dist wires \<sigma>(2) [unfolded s']]
    show ?thesis
    proof (rule acceptsI)
      show "dedup_assign (em_p s) (em_next s) (boundary_of s) (em_cons s) \<sigma> 0 = 1" using ds(2) [of 0] \<sigma>(1) by simp
      show "cons_sat (em_p s) (dedup_assign (em_p s) (em_next s) (boundary_of s) (em_cons s) \<sigma>) (em_cons s)" by (rule ds(1))
      show "map (dedup_assign (em_p s) (em_next s) (boundary_of s) (em_cons s) \<sigma>) (boundary_of s) = vs"
        using ds(2) \<sigma>(3) by (metis map_cong)
    qed
  qed
qed

text \<open>Every round sees distinct product outputs.\<close>

fun dedup_safe :: "nat \<Rightarrow> nat list \<Rightarrow> em \<Rightarrow> bool" where
  "dedup_safe 0 boundary s = True"
| "dedup_safe (Suc n) boundary s = (products_distinct boundary (em_cons s) \<and>
     (case dedup_round boundary s of None \<Rightarrow> True | Some s' \<Rightarrow> dedup_safe n boundary s'))"

lemma dedup_all:
  "is_prime (em_p s) \<Longrightarrow> circuit_ok s \<Longrightarrow> dedup_rounds n (boundary_of s) s = (b, s') \<Longrightarrow>
   circuit_ok s' \<and> em_p s' = em_p s \<and> boundary_of s' = boundary_of s \<and> em_next s' = em_next s \<and>
   (accepts s vs \<longrightarrow> accepts s' vs) \<and> (dedup_safe n (boundary_of s) s \<longrightarrow> accepts s' vs \<longrightarrow> accepts s vs)"
proof (induction n arbitrary: s b)
  case (Suc n)
  show ?case
  proof (cases "dedup_round (boundary_of s) s")
    case None
    then show ?thesis using Suc.prems by simp
  next
    case (Some s1)
    note one = dedup_one [OF Suc.prems(1,2) Some]
    obtain b1 where "dedup_rounds n (boundary_of s1) s1 = (b1, s')"
      using Suc.prems(3) Some one(3) by (cases "dedup_rounds n (boundary_of s) s1") simp
    note IH = Suc.IH [OF _ one(1) this, unfolded one(2-4), OF Suc.prems(1)]
    have "dedup_safe (Suc n) (boundary_of s) s \<Longrightarrow> products_distinct (boundary_of s) (em_cons s) \<and> dedup_safe n (boundary_of s) s1"
      by (simp add: Some)
    with IH one(5,6) show ?thesis by blast
  qed
qed simp

section \<open>The fixpoint loop\<close>

fun opt_safe :: "nat \<Rightarrow> nat option \<Rightarrow> bool \<Rightarrow> nat list \<Rightarrow> em \<Rightarrow> bool" where
  "opt_safe 0 budget cse boundary s = True"
| "opt_safe (Suc n) budget cse boundary s =
     (let s1 = snd (substitute_linear_constraints budget boundary s);
          s2 = (if cse then snd (dedup_identical_products boundary s1) else s1)
      in (cse \<longrightarrow> dedup_safe 11 boundary s1) \<and> opt_safe n budget cse boundary s2)"

lemma opt_safe_no_cse: "opt_safe n budget False boundary s"
  by (induction n arbitrary: s) (simp_all add: Let_def)

lemma opt_rounds_accepts:
  "is_prime (em_p s) \<Longrightarrow> circuit_ok s \<Longrightarrow> s' = opt_rounds n budget cse (boundary_of s) s \<Longrightarrow>
   circuit_ok s' \<and> em_p s' = em_p s \<and> boundary_of s' = boundary_of s \<and> em_next s' = em_next s \<and>
   (accepts s vs \<longrightarrow> accepts s' vs) \<and> (opt_safe n budget cse (boundary_of s) s \<longrightarrow> accepts s' vs \<longrightarrow> accepts s vs)"
proof (induction n arbitrary: s)
  case 0
  then show ?case by simp
next
  case (Suc n)
  let ?b = "boundary_of s"
  obtain sub s1 where sub: "substitute_linear_constraints budget ?b s = (sub, s1)" by force
  note lin = lin_round [OF Suc.prems(1,2) sub]
  obtain dd s2 where dd: "(if cse then dedup_identical_products ?b s1 else (False, s1)) = (dd, s2)" by force
  have p1: "is_prime (em_p s1)" using Suc.prems(1) lin(2) by simp
  have two: "circuit_ok s2 \<and> em_p s2 = em_p s \<and> boundary_of s2 = ?b \<and> em_next s2 = em_next s \<and>
    (accepts s1 vs \<longrightarrow> accepts s2 vs) \<and> ((cse \<longrightarrow> dedup_safe 11 ?b s1) \<longrightarrow> accepts s2 vs \<longrightarrow> accepts s1 vs)"
  proof (cases cse)
    case True
    then have "dedup_rounds 11 (boundary_of s1) s1 = (dd, s2)" using dd lin(3) by (simp add: dedup_identical_products_def)
    from dedup_all [OF p1 lin(1) this, of vs] lin(2,3,5) True show ?thesis by simp
  next
    case False
    then have "s2 = s1" using dd by simp
    then show ?thesis using lin(1,2,3,5) by simp
  qed
  have s2: "s2 = (if cse then snd (dedup_identical_products ?b s1) else s1)" using dd by (auto split: if_splits)
  have safe: "opt_safe (Suc n) budget cse ?b s \<Longrightarrow> (cse \<longrightarrow> dedup_safe 11 ?b s1) \<and> opt_safe n budget cse ?b s2"
    by (simp add: sub s2 Let_def)
  show ?case
  proof (cases "\<not> sub \<and> \<not> dd")
    case True
    then have "s' = s2" using Suc.prems(3) sub dd by simp
    then show ?thesis using two lin(4) safe by blast
  next
    case False
    then have "s' = opt_rounds n budget cse ?b s2" using Suc.prems(3) sub dd by auto
    then have s': "s' = opt_rounds n budget cse (boundary_of s2) s2" using two by simp
    have p2: "is_prime (em_p s2)" and ok2: "circuit_ok s2" using two Suc.prems(1) by auto
    have eqs: "em_p s2 = em_p s" "boundary_of s2 = ?b" "em_next s2 = em_next s" using two by blast+
    from Suc.IH [OF p2 ok2 s', unfolded eqs] two lin(4) safe show ?thesis by blast
  qed
qed

section \<open>Compaction\<close>

lemma length_number_live [simp]: "length (number_live k live) = length live"
  by (induction k live rule: number_live.induct) auto

lemma number_live_at:
  "i < length live \<Longrightarrow> number_live k live ! i = (if live ! i then k + length (filter id (take i live)) else dead_id)"
proof (induction k live arbitrary: i rule: number_live.induct)
  case (2 k b bs)
  then show ?case by (cases i) (auto simp: id_def)
qed simp

lemma live_below_count: "i < length live \<Longrightarrow> live ! i \<Longrightarrow> length (filter id (take i live)) < length (filter id live)"
proof -
  assume i: "i < length live" "live ! i"
  then have "live = take i live @ True # drop (Suc i) live" by (metis id_take_nth_drop)
  then have "length (filter id live) = length (filter id (take i live)) + Suc (length (filter id (drop (Suc i) live)))"
    by (metis (no_types) filter.simps(2) filter_append id_apply length_Cons length_append)
  then show ?thesis by simp
qed

lemma number_live_mono:
  assumes "i < j" "j < length live" "live ! i" "live ! j"
  shows "number_live 0 live ! i < number_live 0 live ! j"
proof -
  have "take i (take j live) = take i live" using assms(1) by (simp add: min_absorb2)
  moreover have "i < length (take j live)" "take j live ! i" using assms by simp_all
  ultimately have "length (filter id (take i live)) < length (filter id (take j live))"
    using live_below_count [of i "take j live"] by simp
  then show ?thesis using assms by (simp add: number_live_at)
qed

lemma number_live_inj: "inj_on ((!) (number_live 0 live)) {i. i < length live \<and> live ! i}"
proof (rule inj_onI)
  fix i j assume "i \<in> {i. i < length live \<and> live ! i}" "j \<in> {i. i < length live \<and> live ! i}"
    "number_live 0 live ! i = number_live 0 live ! j"
  then show "i = j" using number_live_mono [of i j live] number_live_mono [of j i live] by (cases i j rule: linorder_cases) auto
qed

lemma live_wires_props:
  assumes "0 < em_next s"
  shows "length (live_wires s) = em_next s" "live_wires s ! 0"
    "\<And>w. w < em_next s \<Longrightarrow> w \<in> set (boundary_of s) \<Longrightarrow> live_wires s ! w"
    "\<And>w. w < em_next s \<Longrightarrow> w \<in> fst ` set (em_hints s) \<Longrightarrow> live_wires s ! w"
    "\<And>w c. w < em_next s \<Longrightarrow> c \<in> set (em_cons s) \<Longrightarrow> w \<in> con_wires c \<Longrightarrow> live_wires s ! w"
    "recipes_closed (em_recipes s) (\<lambda>w. True) (live_wires s)"
proof -
  let ?l = "live_roots s"
  let ?st = "rev (filter (\<lambda>i. ?l ! i) [0..<em_next s])"
  have len: "length ?l = em_next s" by (simp add: live_roots_def)
  have "recipes_closed (em_recipes s) (\<lambda>w. w \<notin> set ?st) ?l" using len by (auto simp: recipes_closed_def)
  note cl = close_live_props [OF this]
  have lw: "live_wires s = close_live (em_recipes s) ?l ?st" by (simp add: live_wires_def Let_def)
  have root: "live_wires s ! w" if "w < em_next s" "?l ! w" for w using cl that len by (simp add: lw)
  show "length (live_wires s) = em_next s" using cl len by (simp add: lw)
  show "live_wires s ! 0" using root [OF assms] assms by (simp add: live_roots_def mark_all_mem)
  show "live_wires s ! w" if "w < em_next s" "w \<in> set (boundary_of s)" for w
    using root [OF that(1)] that by (auto simp: live_roots_def mark_all_mem boundary_of_def)
  show "live_wires s ! w" if "w < em_next s" "w \<in> fst ` set (em_hints s)" for w
    using root [OF that(1)] that by (simp add: live_roots_def mark_all_mem)
  show "live_wires s ! w" if "w < em_next s" "c \<in> set (em_cons s)" "w \<in> con_wires c" for w c
  proof -
    have "w \<in> set (concat (map con_wire_list (em_cons s)))"
      using that(2,3) by (auto simp: con_wire_list_def con_wires_def)
    then show ?thesis using root [OF that(1)] that(1) by (simp add: live_roots_def mark_all_mem)
  qed
  show "recipes_closed (em_recipes s) (\<lambda>w. True) (live_wires s)" using cl by (simp add: lw)
qed

text \<open>A live wire gets a number below the count, never the marker of a dead one.\<close>

lemma live_number:
  assumes s: "0 < em_next s" "em_next s < 2 ^ 64" and w: "w < em_next s" "live_wires s ! w"
  shows "number_live 0 (live_wires s) ! w < length (filter id (live_wires s))"
    "number_live 0 (live_wires s) ! w \<noteq> dead_id"
proof -
  note len = live_wires_props(1) [OF s(1)]
  show lt: "number_live 0 (live_wires s) ! w < length (filter id (live_wires s))"
    using w len live_below_count [of w "live_wires s"] by (simp add: number_live_at)
  have "length (filter id (live_wires s)) \<le> em_next s" using len length_filter_le by metis
  then show "number_live 0 (live_wires s) ! w \<noteq> dead_id" using lt s(2) by (simp add: dead_id_def)
qed

lemma move_boundary_live:
  assumes "0 < em_next s" "em_next s < 2 ^ 64" "\<forall>w\<in>set ws. w < em_next s \<and> live_wires s ! w"
  shows "move_boundary (number_live 0 (live_wires s)) ws = Some (map ((!) (number_live 0 (live_wires s))) ws)"
  using assms live_number(2) [OF assms(1,2)] live_wires_props(1) [OF assms(1)] by (simp add: move_boundary_def list_all_iff)

text \<open>What compaction returns.\<close>

lemma compact_result:
  assumes ok: "circuit_ok s" and n: "em_next s < 2 ^ 64"
  defines "m \<equiv> number_live 0 (live_wires s)"
  shows "compact_wires en s = Some (False, s) \<or>
    (\<exists>s'. compact_wires en s = Some (True, s') \<and> em_cons s' = map (rename_con (em_p s) m) (em_cons s) \<and>
      em_pub s' = map ((!) m) (em_pub s) \<and> em_prv s' = map ((!) m) (em_prv s) \<and> em_outs s' = map ((!) m) (em_outs s) \<and>
      em_p s' = em_p s \<and> em_next s' = length (filter id (live_wires s)))"
proof -
  have n0: "0 < em_next s" using ok by (simp add: circuit_ok_def)
  have b: "w < em_next s \<and> live_wires s ! w" if "w \<in> set (boundary_of s)" for w
    using ok live_wires_props(3) [OF n0] that by (auto simp: circuit_ok_def)
  have mv: "move_boundary m (em_pub s) = Some (map ((!) m) (em_pub s))" "move_boundary m (em_prv s) = Some (map ((!) m) (em_prv s))"
    "move_boundary m (em_outs s) = Some (map ((!) m) (em_outs s))"
    unfolding m_def by (rule move_boundary_live [OF n0 n], use b in \<open>auto simp: boundary_of_def\<close>)+
  show ?thesis using mv by (auto simp: compact_wires_def Let_def m_def)
qed

lemma compact_accepts:
  assumes p: "is_prime (em_p s)" and ok: "circuit_ok s" and n: "em_next s < 2 ^ 64" and r: "compact_wires en s = Some (b, s')"
  shows "accepts s' vs = accepts s vs" "circuit_ok s'"
proof -
  let ?m = "number_live 0 (live_wires s)"
  have n0: "0 < em_next s" using ok by (simp add: circuit_ok_def)
  note lw = live_wires_props [OF n0]
  have "accepts s' vs = accepts s vs \<and> circuit_ok s'"
  proof (cases "s' = s")
    case True
    then show ?thesis using ok by simp
  next
    case False
    then have s': "em_cons s' = map (rename_con (em_p s) ?m) (em_cons s)" "boundary_of s' = map ((!) ?m) (boundary_of s)"
      "em_p s' = em_p s" "em_next s' = length (filter id (live_wires s))"
      using compact_result [OF ok n, of en] r by (auto simp: boundary_of_def)
    have at: "rename_at ?m w = ?m ! w" if "w < em_next s" for w using that lw(1) by (simp add: rename_at_def)
    have m0: "?m ! 0 = 0" using lw(1,2) n0 by (simp add: number_live_at)
    have cw: "w < em_next s \<and> live_wires s ! w" if "c \<in> set (em_cons s)" "w \<in> con_wires c" for c w
      using circuit_ok_wires [OF ok] lw(5) that by blast
    have bw: "w < em_next s \<and> live_wires s ! w" if "w \<in> set (boundary_of s)" for w
      using ok lw(3) that by (auto simp: circuit_ok_def)
    have sat: "cons_sat (em_p s) \<sigma> (em_cons s') = cons_sat (em_p s) \<tau> (em_cons s)"
      if st: "\<And>w. w < em_next s \<Longrightarrow> live_wires s ! w \<Longrightarrow> \<tau> w = \<sigma> (?m ! w)" for \<sigma> \<tau> :: "nat \<Rightarrow> int"
    proof -
      have "con_sat (em_p s) \<sigma> (rename_con (em_p s) ?m c) = con_sat (em_p s) \<tau> c" if c: "c \<in> set (em_cons s)" for c
        unfolding con_sat_rename by (rule con_sat_cong) (simp add: cw [OF c] at st)
      then show ?thesis by (simp add: cons_sat_def s'(1))
    qed
    have "accepts s vs" if acc: "accepts s' vs"
    proof -
      obtain \<sigma> where \<sigma>: "\<sigma> 0 = 1" "cons_sat (em_p s) \<sigma> (em_cons s')" "map \<sigma> (boundary_of s') = vs"
        using acc s'(3) by (auto elim: acceptsE)
      let ?t = "\<lambda>w. \<sigma> (?m ! w)"
      show ?thesis
        by (rule acceptsI [of ?t]) (use \<sigma> m0 sat [of ?t \<sigma>] s'(2) in \<open>simp_all add: comp_def\<close>)
    qed
    moreover have "accepts s' vs" if acc: "accepts s vs"
    proof -
      obtain \<sigma> where \<sigma>: "\<sigma> 0 = 1" "cons_sat (em_p s) \<sigma> (em_cons s)" "map \<sigma> (boundary_of s) = vs" by (rule acceptsE [OF acc])
      let ?L = "{i. i < length (live_wires s) \<and> live_wires s ! i}"
      let ?t = "\<lambda>j. \<sigma> (the_inv_into ?L ((!) ?m) j)"
      have t: "?t (?m ! w) = \<sigma> w" if "w < em_next s" "live_wires s ! w" for w
        using the_inv_into_f_f [OF number_live_inj, of w "live_wires s"] that lw(1) by simp
      have t0: "?t 0 = 1" using t [OF n0 lw(2)] \<sigma>(1) by (simp only: m0)
      have "map ?t (boundary_of s') = map \<sigma> (boundary_of s)" unfolding s'(2) map_map
        by (rule map_cong [OF refl]) (use bw t in \<open>auto simp: comp_def\<close>)
      moreover have "cons_sat (em_p s) ?t (em_cons s')" using sat [of \<sigma> ?t] t \<sigma>(2) by metis
      ultimately show ?thesis using t0 \<sigma>(3) s'(3) by (intro acceptsI [of ?t]) simp_all
    qed
    moreover have "circuit_ok s'"
    proof -
      have "con_nf (em_p s) (em_next s') (rename_con (em_p s) ?m c)" if c: "c \<in> set (em_cons s)" for c
        by (rule rename_con_nf [OF _ bspec [OF circuit_ok_cons [OF ok] c]])
          (use p cw [OF c] at live_number(1) [OF n0 n] in \<open>auto simp: s'(4)\<close>)
      moreover have "0 < em_next s'" unfolding s'(4) by (rule le_less_trans [OF le0 live_number(1) [OF n0 n n0 lw(2)]])
      moreover have "\<forall>w\<in>set (boundary_of s'). w < em_next s'"
        using bw live_number(1) [OF n0 n] by (auto simp: s'(2,4))
      ultimately show ?thesis by (simp add: circuit_ok_def s'(1,3))
    qed
    ultimately show ?thesis by blast
  qed
  then show "accepts s' vs = accepts s vs" "circuit_ok s'" by blast+
qed

section \<open>The optimiser\<close>

lemma optimize_accepts:
  assumes p: "is_prime (em_p s)" and ok: "wires_ok s" and n: "em_next s < 2 ^ 64"
  defines "s1 \<equiv> s\<lparr>em_cons := map (simplify_con (em_p s)) (em_cons s)\<rparr>"
  obtains s' where "optimize_circuit budget cse compaction rounds s = Some s'" "circuit_ok s'"
    "\<And>vs. accepts s vs \<Longrightarrow> accepts s' vs"
    "\<And>vs. opt_safe (rounds + 1) budget cse (boundary_of s) s1 \<Longrightarrow> accepts s' vs \<Longrightarrow> accepts s vs"
proof -
  have p0: "0 < em_p s" using p by simp
  note simp1 = simplify_all [OF p0 ok, folded s1_def]
  have eq1: "em_p s1 = em_p s" "boundary_of s1 = boundary_of s" "em_next s1 = em_next s"
    by (simp_all add: s1_def boundary_of_def)
  define s2 where "s2 = opt_rounds (rounds + 1) budget cse (boundary_of s1) s1"
  have p1: "is_prime (em_p s1)" using p eq1(1) by simp
  note two = opt_rounds_accepts [OF p1 simp1(1) s2_def, unfolded eq1]
  have n2: "em_next s2 < 2 ^ 64" and p2: "is_prime (em_p s2)" and ok2: "circuit_ok s2" using two p n by auto
  obtain b s' where c: "compact_wires compaction s2 = Some (b, s')" using compact_result [OF ok2 n2, of compaction] by blast
  have "optimize_circuit budget cse compaction rounds s = Some s'"
    using c eq1(2) by (simp add: optimize_circuit_def s1_def s2_def boundary_of_def Let_def)
  moreover note compact_accepts [OF p2 ok2 n2 c]
  ultimately show ?thesis using that two simp1(2) by blast
qed

end
