(* ===== verification/ZkSolver.thy ===== *)
theory ZkSolver
  imports ZkWitness
begin

text \<open>
  \<^verbatim>\<open>solve_r1cs_witness\<close> and \<^verbatim>\<open>check_r1cs_satisfiability\<close> of \<^verbatim>\<open>src/zk_witness.rs\<close>:
  the forward pass, the marking of the wires it settled, the early exit, and the
  back-propagation sweeps (at most one hundred). All scalars of the circuit belong to its
  field, so the checker's mixed-field guards never fire and are left out. A panic of the
  sweep (an unknown wire beyond the witness) is \<open>None\<close>. The returned flag is shown to mean
  that every constraint holds.
\<close>

section \<open>The satisfiability check\<close>

fun check_from :: "int \<Rightarrow> nat \<Rightarrow> con list \<Rightarrow> int list \<Rightarrow> nat option" where
  "check_from p i [] w = None"
| "check_from p i (c # cs) w =
     (if eval_lc p (con_a c) w * eval_lc p (con_b c) w mod p \<noteq> eval_lc p (con_c c) w
      then Some i else check_from p (Suc i) cs w)"

text \<open>\<open>None\<close> is \<^verbatim>\<open>Ok\<close>; otherwise the index of the first constraint that fails.\<close>

definition check_r1cs_satisfiability :: "int \<Rightarrow> con list \<Rightarrow> int list \<Rightarrow> nat option" where
  "check_r1cs_satisfiability p cs w = check_from p 0 cs w"

section \<open>Back-propagation\<close>

definition lc_known :: "lc \<Rightarrow> bool list \<Rightarrow> bool" where
  "lc_known l known = list_all (\<lambda>(i, c). i < length known \<and> known ! i) (lc_terms l)"

text \<open>The closure \<^verbatim>\<open>known_sum\<close>; it indexes the witness, so a wire beyond it is a panic.\<close>

fun known_sum_go :: "int \<Rightarrow> nat \<Rightarrow> int list \<Rightarrow> int \<Rightarrow> (nat \<times> int) list \<Rightarrow> int option" where
  "known_sum_go p skip w acc [] = Some acc"
| "known_sum_go p skip w acc ((i, c) # ts) =
     (if i = skip then known_sum_go p skip w acc ts
      else if i = 0 then known_sum_go p skip w ((acc + c mod p) mod p) ts
      else if i < length w then known_sum_go p skip w ((acc + c * w ! i mod p) mod p) ts
      else None)"

definition known_sum :: "int \<Rightarrow> lc \<Rightarrow> nat \<Rightarrow> int list \<Rightarrow> int option" where
  "known_sum p l skip w = known_sum_go p skip w 0 (lc_terms l)"

definition div_by :: "int \<Rightarrow> int \<Rightarrow> int \<Rightarrow> int" where
  "div_by p r coeff = (if coeff = 1 then r else r * inv_mod p coeff mod p)"

fun sole_unknown_go :: "bool list \<Rightarrow> (nat \<times> int) option \<Rightarrow> (nat \<times> int) list \<Rightarrow> (nat \<times> int) option" where
  "sole_unknown_go known found [] = found"
| "sole_unknown_go known found ((i, c) # ts) =
     (if i < length known \<and> known ! i then sole_unknown_go known found ts
      else if found \<noteq> None then None
      else sole_unknown_go known (Some (i, c)) ts)"

definition sole_unknown :: "lc \<Rightarrow> bool list \<Rightarrow> (nat \<times> int) option" where
  "sole_unknown l known = sole_unknown_go known None (lc_terms l)"

record sweep =
  sw_w :: "int list"
  sw_mask :: "bool list"
  sw_changed :: bool

text \<open>Pin the single unknown of \<open>l\<close> so that its value becomes \<open>target\<close>.\<close>

definition pin_unknown :: "int \<Rightarrow> lc \<Rightarrow> int \<Rightarrow> sweep \<Rightarrow> sweep option" where
  "pin_unknown p l target s =
     (case sole_unknown l (sw_mask s) of
        None \<Rightarrow> Some s
      | Some (wire, coeff) \<Rightarrow>
          if coeff = 0 then Some s
          else Option.bind (known_sum p l wire (sw_w s)) (\<lambda>ks.
            let r = (target - ks) mod p
            in if wire < length (sw_w s) \<and> wire < length (sw_mask s)
               then Some \<lparr>sw_w = (sw_w s)[wire := div_by p r coeff],
                          sw_mask = (sw_mask s)[wire := True], sw_changed = True\<rparr>
               else None))"

definition solve_c :: "int \<Rightarrow> con \<Rightarrow> sweep \<Rightarrow> sweep option" where
  "solve_c p c s =
     (if lc_known (con_a c) (sw_mask s) \<and> lc_known (con_b c) (sw_mask s)
      then pin_unknown p (con_c c) (eval_lc p (con_a c) (sw_w s) * eval_lc p (con_b c) (sw_w s) mod p) s
      else Some s)"

definition solve_quotient :: "int \<Rightarrow> lc \<Rightarrow> lc \<Rightarrow> lc \<Rightarrow> sweep \<Rightarrow> sweep option" where
  "solve_quotient p num den target_lc s =
     (if lc_known den (sw_mask s) \<and> lc_known num (sw_mask s)
      then let den_val = eval_lc p den (sw_w s)
           in if den_val = 0 then Some s
              else pin_unknown p target_lc (div_by p (eval_lc p num (sw_w s)) den_val) s
      else Some s)"

definition sweep_con :: "int \<Rightarrow> con \<Rightarrow> sweep \<Rightarrow> sweep option" where
  "sweep_con p c s =
     Option.bind (solve_c p c s) (\<lambda>s1.
     Option.bind (solve_quotient p (con_c c) (con_b c) (con_a c) s1)
       (solve_quotient p (con_c c) (con_a c) (con_b c)))"

fun sweep_pass :: "int \<Rightarrow> con list \<Rightarrow> sweep \<Rightarrow> sweep option" where
  "sweep_pass p [] s = Some s"
| "sweep_pass p (c # cs) s = Option.bind (sweep_con p c s) (sweep_pass p cs)"

fun sweep_passes :: "int \<Rightarrow> con list \<Rightarrow> nat \<Rightarrow> sweep \<Rightarrow> sweep option" where
  "sweep_passes p cs 0 s = Some s"
| "sweep_passes p cs (Suc n) s =
     Option.bind (sweep_pass p cs (s\<lparr>sw_changed := False\<rparr>)) (\<lambda>s'.
       if \<not> sw_changed s' then Some s' else sweep_passes p cs n s')"

section \<open>The solver\<close>

text \<open>A node counts as solved when its kind is directly computable and every wire it reads is
  already marked.\<close>

definition mark_node :: "witness_op list \<Rightarrow> nat \<Rightarrow> bool list \<Rightarrow> bool list" where
  "mark_node nodes i known =
     (if i = 0 \<or> length nodes \<le> i \<or> length known \<le> i then known
      else case nodes ! i of
        Unknown \<Rightarrow> known
      | AssertEq _ _ \<Rightarrow> known
      | op \<Rightarrow> if list_all (\<lambda>d. d < length known \<and> known ! d) (witness_op_deps op)
              then known[i := True] else known)"

definition forward_mask :: "witness_ir \<Rightarrow> nat \<Rightarrow> bool list" where
  "forward_mask ir n =
     fold (mark_node (wi_nodes ir)) (wi_order ir)
       (if 0 < n then (replicate n False)[0 := True] else [])"

definition resize_witness :: "int list \<Rightarrow> nat \<Rightarrow> int list" where
  "resize_witness w n = w @ replicate (max n (length w) - length w) 0"

definition solve_r1cs_witness ::
    "con list \<Rightarrow> witness_ir \<Rightarrow> nat \<Rightarrow> tagged list \<Rightarrow> tagged list \<Rightarrow> (int list \<times> bool) option" where
  "solve_r1cs_witness cs ir num_vars pub priv =
     (let p = wi_field ir
      in case execute_host_witness_ir ir pub priv of
           Inl IndexPanic \<Rightarrow> None
         | Inl UnreachableRecipe \<Rightarrow> None
         | Inl _ \<Rightarrow> Some (replicate num_vars 0, False)
         | Inr w0 \<Rightarrow>
             (let w1 = resize_witness w0 num_vars;
                  w = (if 0 < num_vars then w1[0 := 1] else w1);
                  known = forward_mask ir (max num_vars (length w))
              in if check_r1cs_satisfiability p cs w = None then Some (w, True)
                 else map_option (\<lambda>s. (sw_w s, check_r1cs_satisfiability p cs (sw_w s) = None))
                   (sweep_passes p cs 100 \<lparr>sw_w = w, sw_mask = known, sw_changed = False\<rparr>)))"

section \<open>The check decides satisfaction\<close>

lemma check_from_None:
  assumes "0 < p"
  shows "check_from p i cs w = None \<longleftrightarrow> cons_sat p (wire_val w) cs"
proof (induction cs arbitrary: i)
  case Nil
  then show ?case by (simp add: cons_sat_def)
next
  case (Cons c cs)
  have "con_sat p (wire_val w) c \<longleftrightarrow>
      eval_lc p (con_a c) w * eval_lc p (con_b c) w mod p = eval_lc p (con_c c) w"
    by (simp add: con_sat_def eval_lc_sum [OF assms] mod_mult_eq)
  then show ?case using Cons by (simp add: cons_sat_def)
qed

lemma check_r1cs_None: "0 < p \<Longrightarrow> check_r1cs_satisfiability p cs w = None \<longleftrightarrow> cons_sat p (wire_val w) cs"
  by (simp add: check_r1cs_satisfiability_def check_from_None)

lemma check_from_Some:
  assumes "0 < p"
  shows "check_from p i cs w = Some k \<Longrightarrow>
    i \<le> k \<and> k < i + length cs \<and> \<not> con_sat p (wire_val w) (cs ! (k - i)) \<and>
    (\<forall>j < k - i. con_sat p (wire_val w) (cs ! j))"
proof (induction cs arbitrary: i)
  case Nil
  then show ?case by simp
next
  case (Cons c cs)
  have c: "con_sat p (wire_val w) c \<longleftrightarrow>
      eval_lc p (con_a c) w * eval_lc p (con_b c) w mod p = eval_lc p (con_c c) w"
    by (simp add: con_sat_def eval_lc_sum [OF assms] mod_mult_eq)
  show ?case
  proof (cases "con_sat p (wire_val w) c")
    case True
    then have k: "check_from p (Suc i) cs w = Some k" using Cons.prems c by simp
    note IH = Cons.IH [OF k]
    obtain m where m: "k = Suc i + m" using IH by (metis le_Suc_ex)
    have "\<forall>j < Suc m. con_sat p (wire_val w) ((c # cs) ! j)"
      using IH True by (auto simp: m less_Suc_eq_0_disj)
    then show ?thesis using IH by (simp add: m)
  next
    case False
    then have "k = i" using Cons.prems c by simp
    then show ?thesis using False by simp
  qed
qed

lemma solve_r1cs_sound:
  assumes p: "0 < wi_field ir" and s: "solve_r1cs_witness cs ir n pub priv = Some (w, True)"
  shows "cons_sat (wi_field ir) (wire_val w) cs"
  using s check_r1cs_None [OF p]
  by (auto simp: solve_r1cs_witness_def Let_def split: sum.splits witness_error.splits if_splits)


section \<open>A sweep only fills in\<close>

text \<open>Solved wires stay solved and keep their values.\<close>

definition sweep_keeps :: "sweep \<Rightarrow> sweep \<Rightarrow> bool" where
  "sweep_keeps s t \<longleftrightarrow> length (sw_w t) = length (sw_w s) \<and> length (sw_mask t) = length (sw_mask s) \<and>
     (\<forall>i < length (sw_mask s). sw_mask s ! i \<longrightarrow> sw_mask t ! i \<and> sw_w t ! i = sw_w s ! i)"

lemma sweep_keeps_refl [simp]: "sweep_keeps s s"
  by (simp add: sweep_keeps_def)

lemma sweep_keeps_trans: "sweep_keeps s t \<Longrightarrow> sweep_keeps t u \<Longrightarrow> sweep_keeps s u"
proof -
  assume st: "sweep_keeps s t" and tu: "sweep_keeps t u"
  show ?thesis unfolding sweep_keeps_def
  proof (intro conjI allI impI)
    show "length (sw_w u) = length (sw_w s)" "length (sw_mask u) = length (sw_mask s)"
      using st tu by (simp_all add: sweep_keeps_def)
    fix i assume i: "i < length (sw_mask s)" "sw_mask s ! i"
    have t: "sw_mask t ! i \<and> sw_w t ! i = sw_w s ! i" "i < length (sw_mask t)"
      using st i by (simp_all add: sweep_keeps_def)
    then have "sw_mask u ! i \<and> sw_w u ! i = sw_w t ! i" using tu by (simp add: sweep_keeps_def)
    then show "sw_mask u ! i" "sw_w u ! i = sw_w s ! i" using t(1) by simp_all
  qed
qed

lemma sole_unknown_go_unknown:
  "sole_unknown_go known found ts = Some (i, c) \<Longrightarrow> found = Some (i, c) \<or> \<not> (i < length known \<and> known ! i) \<and> (i, c) \<in> set ts"
proof (induction ts arbitrary: found)
  case Nil
  then show ?case by simp
next
  case (Cons t ts)
  obtain j d where t: "t = (j, d)" by force
  show ?case
  proof (cases "j < length known \<and> known ! j")
    case True
    then have "sole_unknown_go known found ts = Some (i, c)" using Cons.prems by (simp add: t)
    from Cons.IH [OF this] show ?thesis by auto
  next
    case False
    then have "sole_unknown_go known (Some (j, d)) ts = Some (i, c)"
      using Cons.prems by (cases "found = None") (auto simp: t)
    from Cons.IH [OF this] show ?thesis using False by (auto simp: t)
  qed
qed

lemma sole_unknown_unknown:
  "sole_unknown l known = Some (i, c) \<Longrightarrow> \<not> (i < length known \<and> known ! i) \<and> (i, c) \<in> set (lc_terms l)"
  using sole_unknown_go_unknown [of known None "lc_terms l" i c] by (simp add: sole_unknown_def)

lemma pin_unknown_keeps: "pin_unknown p l t s = Some s' \<Longrightarrow> sweep_keeps s s'"
proof -
  assume pin: "pin_unknown p l t s = Some s'"
  show ?thesis
  proof (cases "sole_unknown l (sw_mask s)")
    case None
    then show ?thesis using pin by (simp add: pin_unknown_def)
  next
    case (Some ic)
    obtain i c where ic: "ic = (i, c)" by force
    note u = sole_unknown_unknown [OF Some [unfolded ic]]
    show ?thesis
    proof (cases "c = 0")
      case True
      then show ?thesis using pin Some ic by (simp add: pin_unknown_def)
    next
      case False
      obtain ks where "known_sum p l i (sw_w s) = Some ks"
        using pin Some ic False by (auto simp: pin_unknown_def bind_eq_Some_conv)
      then have "i < length (sw_mask s)"
        and s': "s' = \<lparr>sw_w = (sw_w s)[i := div_by p ((t - ks) mod p) c], sw_mask = (sw_mask s)[i := True], sw_changed = True\<rparr>"
        using pin Some ic False by (auto simp: pin_unknown_def Let_def split: if_splits)
      then have "\<not> sw_mask s ! i" using u by simp
      then show ?thesis unfolding s' sweep_keeps_def
      proof (intro conjI allI impI)
        fix j assume j: "j < length (sw_mask s)" "sw_mask s ! j"
        then have "j \<noteq> i" using \<open>\<not> sw_mask s ! i\<close> by blast
        then show "sw_mask \<lparr>sw_w = (sw_w s)[i := div_by p ((t - ks) mod p) c], sw_mask = (sw_mask s)[i := True], sw_changed = True\<rparr> ! j"
          "sw_w \<lparr>sw_w = (sw_w s)[i := div_by p ((t - ks) mod p) c], sw_mask = (sw_mask s)[i := True], sw_changed = True\<rparr> ! j = sw_w s ! j"
          using j by simp_all
      qed simp_all
    qed
  qed
qed

lemma solve_c_keeps: "solve_c p c s = Some s' \<Longrightarrow> sweep_keeps s s'"
  by (auto simp: solve_c_def split: if_splits dest: pin_unknown_keeps)

lemma solve_quotient_keeps: "solve_quotient p a b l s = Some s' \<Longrightarrow> sweep_keeps s s'"
  by (auto simp: solve_quotient_def Let_def split: if_splits dest: pin_unknown_keeps)

lemma sweep_con_keeps: "sweep_con p c s = Some s' \<Longrightarrow> sweep_keeps s s'"
  unfolding sweep_con_def bind_eq_Some_conv
  by (blast intro: sweep_keeps_trans solve_c_keeps solve_quotient_keeps)

lemma sweep_pass_keeps: "sweep_pass p cs s = Some s' \<Longrightarrow> sweep_keeps s s'"
proof (induction cs arbitrary: s)
  case (Cons c cs)
  then obtain t where "sweep_con p c s = Some t" "sweep_pass p cs t = Some s'"
    by (auto simp: bind_eq_Some_conv)
  then show ?case using Cons.IH sweep_con_keeps sweep_keeps_trans by blast
qed simp

lemma sweep_keeps_flag: "sweep_keeps (s\<lparr>sw_changed := b\<rparr>) t \<longleftrightarrow> sweep_keeps s t"
  by (simp add: sweep_keeps_def)

lemma sweep_passes_keeps: "sweep_passes p cs n s = Some s' \<Longrightarrow> sweep_keeps s s'"
proof (induction n arbitrary: s)
  case (Suc n)
  then obtain t where t: "sweep_pass p cs (s\<lparr>sw_changed := False\<rparr>) = Some t"
    and r: "(if \<not> sw_changed t then Some t else sweep_passes p cs n t) = Some s'"
    by (auto simp: bind_eq_Some_conv)
  have "sweep_keeps s t" using sweep_pass_keeps [OF t] by (simp add: sweep_keeps_flag)
  moreover have "sweep_keeps t s'" using r Suc.IH by (auto split: if_splits)
  ultimately show ?case by (rule sweep_keeps_trans)
qed simp

section \<open>No panic on a well-formed circuit\<close>

definition sweep_wf :: "sweep \<Rightarrow> bool" where
  "sweep_wf s \<longleftrightarrow> length (sw_mask s) = length (sw_w s)"

lemma known_sum_go_total:
  "fst ` set ts \<subseteq> {..<length w} \<Longrightarrow> \<exists>v. known_sum_go p skip w acc ts = Some v"
  by (induction ts arbitrary: acc) auto

lemma pin_unknown_total:
  assumes "sweep_wf s" "lc_wires l \<subseteq> {..<length (sw_w s)}"
  shows "\<exists>s'. pin_unknown p l t s = Some s'"
proof (cases "sole_unknown l (sw_mask s)")
  case None
  then show ?thesis by (simp add: pin_unknown_def)
next
  case (Some ic)
  obtain i c where ic: "ic = (i, c)" by force
  have "i \<in> lc_wires l" using sole_unknown_unknown [OF Some [unfolded ic]] by (force simp: lc_wires_def)
  then have "i < length (sw_w s)" using assms(2) by auto
  moreover obtain v where "known_sum p l i (sw_w s) = Some v"
    using known_sum_go_total [of "lc_terms l" "sw_w s" p i 0] assms(2) by (auto simp: known_sum_def lc_wires_def)
  ultimately show ?thesis using Some ic assms(1) by (simp add: pin_unknown_def sweep_wf_def Let_def)
qed

lemma sweep_keeps_wf: "sweep_keeps s t \<Longrightarrow> sweep_wf s \<Longrightarrow> sweep_wf t \<and> length (sw_w t) = length (sw_w s)"
  by (simp add: sweep_keeps_def sweep_wf_def)

lemma sweep_con_total:
  assumes "sweep_wf s" "con_wires c \<subseteq> {..<length (sw_w s)}"
  shows "\<exists>s'. sweep_con p c s = Some s'"
proof -
  have w: "lc_wires (con_a c) \<subseteq> {..<length (sw_w s)}" "lc_wires (con_b c) \<subseteq> {..<length (sw_w s)}"
    "lc_wires (con_c c) \<subseteq> {..<length (sw_w s)}" using assms(2) by (auto simp: con_wires_def)
  obtain s1 where s1: "solve_c p c s = Some s1"
    using pin_unknown_total [OF assms(1) w(3), of p "eval_lc p (con_a c) (sw_w s) * eval_lc p (con_b c) (sw_w s) mod p"]
    unfolding solve_c_def by (cases "lc_known (con_a c) (sw_mask s) \<and> lc_known (con_b c) (sw_mask s)") auto
  note k1 = sweep_keeps_wf [OF solve_c_keeps [OF s1] assms(1)]
  obtain s2 where s2: "solve_quotient p (con_c c) (con_b c) (con_a c) s1 = Some s2"
    using pin_unknown_total [of s1 "con_a c"] k1 w(1) unfolding solve_quotient_def Let_def by (metis)
  note k2 = sweep_keeps_wf [OF solve_quotient_keeps [OF s2] conjunct1 [OF k1]]
  obtain s3 where "solve_quotient p (con_c c) (con_a c) (con_b c) s2 = Some s3"
    using pin_unknown_total [of s2 "con_b c"] k1 k2 w(2) unfolding solve_quotient_def Let_def by (metis)
  then show ?thesis using s1 s2 by (simp add: sweep_con_def)
qed

lemma sweep_pass_total:
  "sweep_wf s \<Longrightarrow> \<forall>c\<in>set cs. con_wires c \<subseteq> {..<length (sw_w s)} \<Longrightarrow> \<exists>s'. sweep_pass p cs s = Some s'"
proof (induction cs arbitrary: s)
  case (Cons c cs)
  then obtain t where t: "sweep_con p c s = Some t" using sweep_con_total [of s c p] by auto
  note k = sweep_keeps_wf [OF sweep_con_keeps [OF t] Cons.prems(1)]
  obtain u where "sweep_pass p cs t = Some u" using Cons.IH [of t] k Cons.prems(2) by auto
  then show ?case using t by simp
qed simp

lemma sweep_passes_total:
  "sweep_wf s \<Longrightarrow> \<forall>c\<in>set cs. con_wires c \<subseteq> {..<length (sw_w s)} \<Longrightarrow> \<exists>s'. sweep_passes p cs n s = Some s'"
proof (induction n arbitrary: s)
  case (Suc n)
  let ?s = "s\<lparr>sw_changed := False\<rparr>"
  have wf: "sweep_wf ?s" using Suc.prems(1) by (simp add: sweep_wf_def)
  obtain t where t: "sweep_pass p cs ?s = Some t"
    using sweep_pass_total [OF wf, of cs p] Suc.prems(2) by auto
  note k = sweep_keeps_wf [OF sweep_pass_keeps [OF t] wf]
  obtain u where "sweep_passes p cs n t = Some u" using Suc.IH [of t] k Suc.prems(2) by auto
  then show ?case using t by simp
qed simp

lemma length_mark_node [simp]: "length (mark_node nodes i m) = length m"
  by (simp add: mark_node_def split: witness_op.split)

lemma length_forward_mask [simp]: "length (forward_mask ir n) = n"
proof -
  have "length (fold (mark_node nodes) js m) = length m" for nodes js m
    by (induction js arbitrary: m) simp_all
  then show ?thesis by (simp add: forward_mask_def)
qed

text \<open>Marking only turns wires on.\<close>

lemma mark_node_mono: "m ! i \<Longrightarrow> mark_node nodes j m ! i"
  by (auto simp: mark_node_def nth_list_update split: witness_op.split)

lemma fold_mark_mono: "m ! i \<Longrightarrow> fold (mark_node nodes) js m ! i"
  by (induction js arbitrary: m) (simp_all add: mark_node_mono)

lemma forward_mask_input:
  assumes "i \<in> set (wi_order ir)" "0 < i" "i < length (wi_nodes ir)" "i < n"
    and "wi_nodes ir ! i = LoadInput k pub"
  shows "forward_mask ir n ! i"
proof -
  let ?m = "if 0 < n then (replicate n False)[0 := True] else []"
  obtain xs ys where o: "wi_order ir = xs @ i # ys" using assms(1) by (meson split_list)
  let ?x = "fold (mark_node (wi_nodes ir)) xs ?m"
  have "length (fold (mark_node nodes) js m) = length m" for nodes js m
    by (induction js arbitrary: m) simp_all
  then have "length ?x = n" by simp
  then have "mark_node (wi_nodes ir) i ?x ! i" using assms by (simp add: mark_node_def)
  then show ?thesis by (simp add: forward_mask_def o fold_mark_mono)
qed

text \<open>Conditions under which the forward pass cannot panic: the witness has a slot for every
  node, and every branch of a conditional recipe is itself a linear-combination recipe.\<close>

fun lc_recipe :: "witness_op \<Rightarrow> bool" where
  "lc_recipe (IsZeroLc _) = True"
| "lc_recipe (InvOrZeroLc _) = True"
| "lc_recipe (BitOfLc _ _) = True"
| "lc_recipe (IntDivLc _ _) = True"
| "lc_recipe (IntModLc _ _) = True"
| "lc_recipe (MulAddLc _ _ _) = True"
| "lc_recipe (DivLc _ _) = True"
| "lc_recipe (MulLc _ _) = True"
| "lc_recipe (IfZeroLc _ t e) = (lc_recipe t \<and> lc_recipe e)"
| "lc_recipe _ = False"

lemma lc_recipe_total: "lc_recipe op \<Longrightarrow> \<exists>v. eval_lc_recipe p op w = Some v"
  by (induction op) (auto simp: Let_def)

definition op_wf :: "witness_op \<Rightarrow> bool" where
  "op_wf op \<longleftrightarrow> (\<forall>c t e. op = IfZeroLc c t e \<longrightarrow> lc_recipe t \<and> lc_recipe e)"

lemma length_exec_hint [simp]: "length (exec_hint p w h) = length w"
proof (cases h)
  case (BitDecompose s ds)
  have "length (foldl (\<lambda>w d. if d < length w then w[d := v] else w) u ds) = length u" for u and v :: int
    by (induction ds arbitrary: u) auto
  then show ?thesis by (simp add: BitDecompose Let_def)
qed auto

lemma length_exec_hints [simp]: "length (foldl (exec_hint p) w hs) = length w"
  by (induction hs arbitrary: w) simp_all

lemma put_length: "put w i v = Inr w' \<Longrightarrow> length w' = length w"
  by (auto simp: put_def split: if_splits)

lemma exec_op_length: "exec_op p i op w = Inr w' \<Longrightarrow> length w' = length w"
  by (cases op) (auto simp: exec_op_def put_length split: if_splits option.splits prod.splits)

lemma exec_op_no_panic:
  assumes "i < length w" "op_wf op"
  shows "exec_op p i op w \<noteq> Inl IndexPanic \<and> exec_op p i op w \<noteq> Inl UnreachableRecipe"
proof (cases op)
  case (IfZeroLc c t e)
  then have "lc_recipe op" using assms(2) by (simp add: op_wf_def)
  then obtain v where "eval_lc_recipe p op w = Some v" using lc_recipe_total by blast
  then show ?thesis using assms(1) IfZeroLc by (simp add: exec_op_def put_def)
qed (use assms(1) in \<open>auto simp: exec_op_def put_def Let_def split: prod.splits if_splits\<close>)

lemma exec_order_no_panic:
  assumes "length nodes \<le> length w" "list_all op_wf nodes"
  shows "exec_order p nodes js w \<noteq> Inl IndexPanic \<and> exec_order p nodes js w \<noteq> Inl UnreachableRecipe"
  using assms
proof (induction js arbitrary: w)
  case (Cons i js)
  show ?case
  proof (cases "i = 0 \<or> length nodes \<le> i")
    case False
    then have np: "exec_op p i (nodes ! i) w \<noteq> Inl IndexPanic \<and> exec_op p i (nodes ! i) w \<noteq> Inl UnreachableRecipe"
      using Cons.prems by (intro exec_op_no_panic) (auto simp: list_all_length)
    show ?thesis
    proof (cases "exec_op p i (nodes ! i) w")
      case (Inl e)
      then show ?thesis using np False by simp
    next
      case (Inr w')
      have "length nodes \<le> length w'" using exec_op_length [OF Inr] Cons.prems(1) by simp
      then show ?thesis using Cons.IH [of w'] Cons.prems(2) False Inr by simp
    qed
  qed (use Cons in simp)
qed simp

lemma load_inputs_no_panic:
  "i + length ops \<le> length w \<Longrightarrow> \<exists>w'. load_inputs i ops pub priv w = Inr w' \<and> length w' = length w"
proof (induction ops arbitrary: i pub priv w)
  case (Cons op ops)
  have IH: "\<exists>w'. load_inputs (Suc i) ops pb pv u = Inr w' \<and> length w' = length w"
    if "length u = length w" for pb pv u using Cons.IH [of "Suc i" u pb pv] Cons.prems that by simp
  have put: "put w i v = Inr (w[i := v])" for v using Cons.prems by (simp add: put_def)
  show ?case using IH [of w] IH [of "w[i := _]"]
    by (cases op) (auto simp: put split: list.split)
qed simp

lemma solve_r1cs_no_panic:
  assumes "length (wi_nodes ir) \<le> wi_num_signals ir" "list_all op_wf (wi_nodes ir)"
    and "\<forall>c\<in>set cs. con_wires c \<subseteq> {..<max n (wi_num_signals ir)}"
  shows "\<exists>r. solve_r1cs_witness cs ir n pub priv = Some r"
proof -
  let ?p = "wi_field ir" and ?e = "execute_host_witness_ir ir pub priv"
  let ?w1 = "if 0 < wi_num_signals ir then (replicate (wi_num_signals ir) 0)[0 := 1 :: int] else replicate (wi_num_signals ir) 0"
  obtain w' where w': "load_inputs 0 (wi_nodes ir) (map snd pub) (map snd priv) ?w1 = Inr w'"
    "length w' = wi_num_signals ir"
  proof -
    have l: "length ?w1 = wi_num_signals ir" by simp
    then have "0 + length (wi_nodes ir) \<le> length ?w1" using assms(1) by simp
    from load_inputs_no_panic [OF this, of "map snd pub" "map snd priv"] l that show ?thesis by metis
  qed
  have ex: "?e = (if list_ex (\<lambda>v. fst v \<noteq> ?p) (pub @ priv) then Inl InputFieldMismatch
      else exec_order ?p (wi_nodes ir) (wi_order ir) w')"
    using w'(1) by (simp add: execute_host_witness_ir_def Let_def del: load_inputs.simps)
  have np: "?e \<noteq> Inl IndexPanic \<and> ?e \<noteq> Inl UnreachableRecipe"
    using exec_order_no_panic [of "wi_nodes ir" w' ?p "wi_order ir"] assms(1,2) w'(2) unfolding ex by auto
  show ?thesis
  proof (cases ?e)
    case (Inl err)
    then have "solve_r1cs_witness cs ir n pub priv = Some (replicate n 0, False)"
      using np by (cases err) (simp_all add: solve_r1cs_witness_def)
    then show ?thesis by blast
  next
    case (Inr w0)
    have exec_len: "exec_order ?p nodes js w = Inr u \<Longrightarrow> length u = length w" for nodes js w u
    proof (induction js arbitrary: w)
      case (Cons i js)
      then show ?case by (auto simp: and_then_Inr_iff dest: exec_op_length split: if_splits)
    qed simp
    have len: "length w0 = wi_num_signals ir"
      using Inr exec_len w'(2) unfolding ex by (auto split: if_splits)
    let ?w = "if 0 < n then (resize_witness w0 n)[0 := 1] else resize_witness w0 n"
    let ?s = "\<lparr>sw_w = ?w, sw_mask = forward_mask ir (max n (length ?w)), sw_changed = False\<rparr>"
    have lw: "length ?w = max n (wi_num_signals ir)" using len by (simp add: resize_witness_def)
    have "sweep_wf ?s" using lw by (simp add: sweep_wf_def)
    then obtain s where "sweep_passes ?p cs 100 ?s = Some s"
      using sweep_passes_total [of ?s cs ?p 100] assms(3) lw by auto
    then have "solve_r1cs_witness cs ir n pub priv =
        (if check_r1cs_satisfiability ?p cs ?w = None then Some (?w, True)
         else Some (sw_w s, check_r1cs_satisfiability ?p cs (sw_w s) = None))"
      using Inr by (simp add: solve_r1cs_witness_def Let_def)
    then show ?thesis by (metis (full_types))
  qed
qed

section \<open>Sweeps settle\<close>

text \<open>A step either leaves the state alone or settles one more wire and says so.\<close>

definition unsettled :: "sweep \<Rightarrow> nat" where
  "unsettled s = length (filter Not (sw_mask s))"

definition sweep_moves :: "sweep \<Rightarrow> sweep \<Rightarrow> bool" where
  "sweep_moves s t \<longleftrightarrow> t = s \<or> (sw_changed t \<and> unsettled t < unsettled s)"

lemma settle_one: "i < length m \<Longrightarrow> \<not> m ! i \<Longrightarrow> length (filter Not (m[i := True])) < length (filter Not m)"
proof (induction m arbitrary: i)
  case (Cons b bs)
  then show ?case by (cases i) auto
qed simp

lemma sweep_moves_refl [simp]: "sweep_moves s s"
  by (simp add: sweep_moves_def)

lemma sweep_moves_trans: "sweep_moves s t \<Longrightarrow> sweep_moves t u \<Longrightarrow> sweep_moves s u"
  by (auto simp: sweep_moves_def)

lemma pin_unknown_moves: "pin_unknown p l v s = Some s' \<Longrightarrow> sweep_moves s s'"
proof (cases "sole_unknown l (sw_mask s)")
  case (Some ic)
  assume pin: "pin_unknown p l v s = Some s'"
  obtain i c where ic: "ic = (i, c)" by force
  note u = sole_unknown_unknown [OF Some [unfolded ic]]
  show ?thesis
  proof (cases "c = 0")
    case False
    then have "sw_changed s'" "sw_mask s' = (sw_mask s)[i := True]" "i < length (sw_mask s)"
      using pin Some ic by (auto simp: pin_unknown_def bind_eq_Some_conv Let_def split: if_splits)
    then show ?thesis using u settle_one [of i "sw_mask s"] by (simp add: sweep_moves_def unsettled_def)
  qed (use pin Some ic in \<open>simp add: pin_unknown_def\<close>)
qed (simp add: pin_unknown_def)

lemma sweep_con_moves: "sweep_con p c s = Some s' \<Longrightarrow> sweep_moves s s'"
proof -
  have c: "solve_c p c s = Some t \<Longrightarrow> sweep_moves s t" for s t
    by (auto simp: solve_c_def split: if_splits dest: pin_unknown_moves)
  have q: "solve_quotient p a b l s = Some t \<Longrightarrow> sweep_moves s t" for a b l s t
    by (auto simp: solve_quotient_def Let_def split: if_splits dest: pin_unknown_moves)
  show "sweep_con p c s = Some s' \<Longrightarrow> sweep_moves s s'"
    unfolding sweep_con_def bind_eq_Some_conv by (blast intro: sweep_moves_trans c q)
qed

lemma sweep_pass_moves: "sweep_pass p cs s = Some s' \<Longrightarrow> sweep_moves s s'"
proof (induction cs arbitrary: s)
  case (Cons c cs)
  then obtain t where "sweep_con p c s = Some t" "sweep_pass p cs t = Some s'"
    by (auto simp: bind_eq_Some_conv)
  then show ?case using Cons.IH sweep_con_moves sweep_moves_trans by blast
qed simp

lemma sweep_pass_quiet:
  "sweep_pass p cs (s\<lparr>sw_changed := False\<rparr>) = Some t \<Longrightarrow> \<not> sw_changed t \<Longrightarrow> t = s\<lparr>sw_changed := False\<rparr>"
  using sweep_pass_moves by (fastforce simp: sweep_moves_def)

text \<open>With more passes than unsettled wires the sweeps end at a state no further pass changes.\<close>

lemma sweep_passes_settle:
  "sweep_passes p cs n s = Some s' \<Longrightarrow> unsettled s < n \<Longrightarrow>
   sweep_pass p cs (s'\<lparr>sw_changed := False\<rparr>) = Some (s'\<lparr>sw_changed := False\<rparr>)"
proof (induction n arbitrary: s)
  case (Suc n)
  then obtain t where t: "sweep_pass p cs (s\<lparr>sw_changed := False\<rparr>) = Some t"
    and r: "(if \<not> sw_changed t then Some t else sweep_passes p cs n t) = Some s'"
    by (auto simp: bind_eq_Some_conv)
  show ?case
  proof (cases "sw_changed t")
    case False
    then have "s' = s\<lparr>sw_changed := False\<rparr>" using sweep_pass_quiet [OF t] r by simp
    then show ?thesis using t False sweep_pass_quiet [OF t] by simp
  next
    case True
    then have "unsettled t < unsettled (s\<lparr>sw_changed := False\<rparr>)"
      using sweep_pass_moves [OF t] by (auto simp: sweep_moves_def)
    then have "unsettled t < n" using Suc.prems(2) by (simp add: unsettled_def)
    then show ?thesis using Suc.IH r True by simp
  qed
qed simp

section \<open>Witnesses stay canonical\<close>

definition canonical :: "int \<Rightarrow> int list \<Rightarrow> bool" where
  "canonical p w \<longleftrightarrow> (\<forall>v\<in>set w. 0 \<le> v \<and> v < p)"

definition op_canonical :: "int \<Rightarrow> witness_op \<Rightarrow> bool" where
  "op_canonical p op \<longleftrightarrow> (\<forall>m v. op = WConst (m, v) \<longrightarrow> 0 \<le> v \<and> v < p)"

lemma canonical_update: "canonical p w \<Longrightarrow> 0 \<le> v \<Longrightarrow> v < p \<Longrightarrow> canonical p (w[i := v])"
  unfolding canonical_def using set_update_subset_insert by fast

lemma canonical_nth: "canonical p w \<Longrightarrow> i < length w \<Longrightarrow> 0 \<le> w ! i \<and> w ! i < p"
  by (simp add: canonical_def)

lemma canonical_mod: "0 < p \<Longrightarrow> canonical p w \<Longrightarrow> canonical p (w[i := v mod p])"
  by (rule canonical_update) simp_all

lemma recipe_range:
  assumes p: "1 < p"
  shows "eval_lc_recipe p op w = Some v \<Longrightarrow> 0 \<le> v \<and> v < p"
proof (induction op arbitrary: v)
  case (IntDivLc a b)
  have r: "0 \<le> eval_lc p a w" "eval_lc p a w < p" "0 \<le> eval_lc p b w" using eval_lc_range p by simp_all
  then have "eval_lc p a w div eval_lc p b w \<le> eval_lc p a w" if "eval_lc p b w \<noteq> 0"
    using that zdiv_mono2 [of "eval_lc p a w" 1 "eval_lc p b w"] by simp
  moreover have "0 \<le> eval_lc p a w div eval_lc p b w" using r by (cases "eval_lc p b w = 0") (simp_all add: pos_imp_zdiv_nonneg_iff)
  ultimately show ?case using IntDivLc r(2) p by (auto simp: Let_def split: if_splits)
next
  case (IntModLc a b)
  have r: "0 \<le> eval_lc p a w" "0 \<le> eval_lc p b w" "eval_lc p b w < p" using eval_lc_range p by simp_all
  have "eval_lc p a w mod eval_lc p b w < p" "0 \<le> eval_lc p a w mod eval_lc p b w" if "eval_lc p b w \<noteq> 0"
  proof -
    have "0 < eval_lc p b w" using r(2) that by simp
    then show "eval_lc p a w mod eval_lc p b w < p" "0 \<le> eval_lc p a w mod eval_lc p b w"
      using r(3) pos_mod_bound [of "eval_lc p b w" "eval_lc p a w"] by (linarith, simp)
  qed
  then show ?case using IntModLc p by (auto simp: Let_def split: if_splits)
qed (use p inv_mod_range [of p] in \<open>auto simp: Let_def split: if_splits\<close>)

lemma put_canonical: "put w i v = Inr w' \<Longrightarrow> canonical p w \<Longrightarrow> 0 \<le> v \<Longrightarrow> v < p \<Longrightarrow> canonical p w'"
  by (auto simp: put_def canonical_update split: if_splits)

lemma exec_hint_canonical:
  assumes p: "1 < p" and w: "canonical p w"
  shows "canonical p (exec_hint p w h)"
proof (cases h)
  case (BitDecompose s ds)
  have "canonical p (foldl (\<lambda>w d. if d < length w then w[d := v] else w) u ds)"
    if "canonical p u" "0 \<le> v" "v < p" for u v
    using that(1) by (induction ds arbitrary: u) (simp_all add: canonical_update that)
  then show ?thesis using w p by (simp add: BitDecompose Let_def)
qed (use w p inv_mod_range [of p] canonical_nth [OF w] in \<open>auto intro!: canonical_update\<close>)

lemma exec_hints_canonical: "1 < p \<Longrightarrow> canonical p w \<Longrightarrow> canonical p (foldl (exec_hint p) w hs)"
  by (induction hs arbitrary: w) (simp_all add: exec_hint_canonical)

lemma exec_op_canonical:
  assumes p: "1 < p" and w: "canonical p w" and op: "op_canonical p op" and e: "exec_op p i op w = Inr w'"
  shows "canonical p w'"
proof -
  have p0: "0 < p" using p by simp
  have rec: "canonical p w'" if "(case eval_lc_recipe p op w of None \<Rightarrow> Inl UnreachableRecipe | Some v \<Rightarrow> put w i v) = Inr w'"
    using that recipe_range [OF p, of op w] w by (auto split: option.splits dest: put_canonical)
  have put: "canonical p w'" if "put w i (v mod p) = Inr w'" for v
    by (rule put_canonical [OF that w]) (use p in simp_all)
  show ?thesis
  proof (cases op)
    case (WConst mv)
    then show ?thesis using e w op by (auto simp: exec_op_def op_canonical_def split: prod.splits if_splits dest: put_canonical)
  next
    case (WInv a)
    then show ?thesis using e w inv_mod_range [OF p0] by (auto simp: exec_op_def split: if_splits dest: put_canonical)
  next
    case (HintBlock ins outs hs)
    then show ?thesis using e exec_hints_canonical [OF p w] by (auto simp: exec_op_def)
  qed (use e w put rec in \<open>auto simp: exec_op_def split: if_splits\<close>)
qed

lemma exec_order_canonical:
  "1 < p \<Longrightarrow> canonical p w \<Longrightarrow> list_all (op_canonical p) nodes \<Longrightarrow> exec_order p nodes js w = Inr w' \<Longrightarrow> canonical p w'"
proof (induction js arbitrary: w)
  case (Cons i js)
  show ?case
  proof (cases "i = 0 \<or> length nodes \<le> i")
    case False
    then obtain u where "exec_op p i (nodes ! i) w = Inr u" "exec_order p nodes js u = Inr w'"
      using Cons.prems(4) by (auto simp: and_then_Inr_iff)
    moreover have "op_canonical p (nodes ! i)" using Cons.prems(3) False by (simp add: list_all_length)
    ultimately show ?thesis using Cons exec_op_canonical by blast
  qed (use Cons in auto)
qed simp

lemma load_inputs_canonical:
  "canonical p pub \<Longrightarrow> canonical p priv \<Longrightarrow> canonical p w \<Longrightarrow> load_inputs i ops pub priv w = Inr w' \<Longrightarrow> canonical p w'"
proof (induction ops arbitrary: i pub priv w)
  case (Cons op ops)
  have put: "put w i v = Inr u \<Longrightarrow> 0 \<le> v \<Longrightarrow> v < p \<Longrightarrow> canonical p u" for v u
    by (rule put_canonical [OF _ Cons.prems(3)])
  have IH': "canonical p pb \<Longrightarrow> canonical p pv \<Longrightarrow> canonical p u \<Longrightarrow> load_inputs (Suc i) ops pb pv u = Inr w' \<Longrightarrow> canonical p w'"
    for pb pv u by (rule Cons.IH)
  show ?case
  proof (cases "i = 0 \<or> (\<nexists>k b. op = LoadInput k b)")
    case True
    then have "load_inputs (Suc i) ops pub priv w = Inr w'"
    proof
      assume n: "\<nexists>k b. op = LoadInput k b"
      then show ?thesis using Cons.prems(4) by (cases op) (simp_all split: if_splits)
    qed (use Cons.prems(4) in simp)
    then show ?thesis using IH' Cons.prems(1-3) by blast
  next
    case False
    then obtain k b where op: "op = LoadInput k b" and i: "i \<noteq> 0" by auto
    have tail: "canonical p (v # vs) \<longleftrightarrow> 0 \<le> v \<and> v < p \<and> canonical p vs" for v vs by (auto simp: canonical_def)
    let ?vs = "if b then pub else priv"
    show ?thesis
    proof (cases ?vs)
      case Nil
      then have "load_inputs (Suc i) ops pub priv w = Inr w'" using Cons.prems(4) op i by (simp split: if_splits)
      then show ?thesis using IH' Cons.prems(1-3) by blast
    next
      case (Cons v vs)
      then have v: "0 \<le> v \<and> v < p \<and> canonical p vs" using \<open>canonical p pub\<close> \<open>canonical p priv\<close> tail by (metis (full_types))
      obtain u where u: "put w i v = Inr u" "load_inputs (Suc i) ops (if b then vs else pub) (if b then priv else vs) u = Inr w'"
        using Cons Cons.prems(4) op i by (auto simp: and_then_Inr_iff split: if_splits)
      have "canonical p u" using put [OF u(1)] v by blast
      moreover have "canonical p (if b then vs else pub)" "canonical p (if b then priv else vs)"
        using v \<open>canonical p pub\<close> \<open>canonical p priv\<close> by simp_all
      ultimately show ?thesis using IH' u(2) by blast
    qed
  qed
qed simp

lemma div_by_range: "1 < p \<Longrightarrow> 0 \<le> div_by p (v mod p) c \<and> div_by p (v mod p) c < p"
  by (simp add: div_by_def)

lemma pin_unknown_canonical:
  assumes "1 < p" "canonical p (sw_w s)" "pin_unknown p l t s = Some s'"
  shows "canonical p (sw_w s')"
  using assms by (auto simp: pin_unknown_def Let_def bind_eq_Some_conv div_by_range
      intro!: canonical_update split: option.splits if_splits)

lemma sweep_con_canonical:
  assumes "1 < p" "canonical p (sw_w s)" "sweep_con p c s = Some s'"
  shows "canonical p (sw_w s')"
proof -
  have c: "solve_c p c s = Some t \<Longrightarrow> canonical p (sw_w s) \<Longrightarrow> canonical p (sw_w t)" for s t
    using pin_unknown_canonical [OF assms(1)] by (auto simp: solve_c_def split: if_splits)
  have q: "solve_quotient p a b l s = Some t \<Longrightarrow> canonical p (sw_w s) \<Longrightarrow> canonical p (sw_w t)" for a b l s t
    using pin_unknown_canonical [OF assms(1)] by (auto simp: solve_quotient_def Let_def split: if_splits)
  show ?thesis using assms(2,3) c q by (auto simp: sweep_con_def bind_eq_Some_conv)
qed

lemma sweep_pass_canonical:
  "1 < p \<Longrightarrow> canonical p (sw_w s) \<Longrightarrow> sweep_pass p cs s = Some s' \<Longrightarrow> canonical p (sw_w s')"
  by (induction cs arbitrary: s) (auto simp: bind_eq_Some_conv dest: sweep_con_canonical)

lemma sweep_passes_canonical:
  "1 < p \<Longrightarrow> canonical p (sw_w s) \<Longrightarrow> sweep_passes p cs n s = Some s' \<Longrightarrow> canonical p (sw_w s')"
proof (induction n arbitrary: s)
  case (Suc n)
  then obtain t where t: "sweep_pass p cs (s\<lparr>sw_changed := False\<rparr>) = Some t"
    and r: "(if \<not> sw_changed t then Some t else sweep_passes p cs n t) = Some s'"
    by (auto simp: bind_eq_Some_conv)
  have "canonical p (sw_w t)" using sweep_pass_canonical [OF Suc.prems(1) _ t] Suc.prems(2) by simp
  then show ?case using r Suc by (auto split: if_splits)
qed simp

lemma solve_r1cs_canonical:
  assumes p: "1 < wi_field ir" and ins: "canonical (wi_field ir) (map snd pub)" "canonical (wi_field ir) (map snd priv)"
    and nodes: "list_all (op_canonical (wi_field ir)) (wi_nodes ir)"
    and s: "solve_r1cs_witness cs ir n pub priv = Some (w, ok)"
  shows "canonical (wi_field ir) w"
proof (cases "execute_host_witness_ir ir pub priv")
  case (Inl e)
  then have "w = replicate n 0" using s by (cases e) (simp_all add: solve_r1cs_witness_def)
  then show ?thesis using p by (simp add: canonical_def)
next
  case (Inr w0)
  let ?p = "wi_field ir"
  let ?z = "if 0 < wi_num_signals ir then (replicate (wi_num_signals ir) 0)[0 := 1] else replicate (wi_num_signals ir) 0"
  have "canonical ?p (replicate m 0)" for m using p by (simp add: canonical_def)
  then have z: "canonical ?p ?z" using p by (simp add: canonical_update) (simp add: canonical_def)
  obtain v where v: "load_inputs 0 (wi_nodes ir) (map snd pub) (map snd priv) ?z = Inr v"
    "exec_order ?p (wi_nodes ir) (wi_order ir) v = Inr w0"
    using Inr unfolding execute_host_witness_ir_def Let_def by (cases "list_ex (\<lambda>v. fst v \<noteq> ?p) (pub @ priv)")
      (simp_all only: if_True if_False and_then_Inr_iff sum.distinct simp_thms, blast)
  have "canonical ?p w0" using load_inputs_canonical [OF ins z v(1)] exec_order_canonical [OF p _ nodes v(2)] by blast
  then have "canonical ?p (resize_witness w0 n)" using p by (auto simp: canonical_def resize_witness_def)
  then have w1: "canonical ?p (if 0 < n then (resize_witness w0 n)[0 := 1] else resize_witness w0 n)"
    using p by (cases "0 < n") (simp_all add: canonical_update)
  show ?thesis
    using s Inr w1 sweep_passes_canonical [OF p, of "\<lparr>sw_w = _, sw_mask = _, sw_changed = _\<rparr>"]
    by (auto simp: solve_r1cs_witness_def Let_def split: if_splits)
qed

end
