(* ===== verification/ZkCircuitProps.thy ===== *)
theory ZkCircuitProps
  imports ZkOptimize ZkSolver
begin

text \<open>
  The properties of the circuit layer: linear combinations and the optimiser of
  \<^verbatim>\<open>src/zk_emitter.rs\<close> and the witness solver of \<^verbatim>\<open>src/zk_witness.rs\<close>, each with an instance at
  a concrete circuit over a small field.
\<close>

section \<open>Circuits for the instances\<close>

definition lcw :: "nat \<Rightarrow> lc" where
  "lcw w = lc_variable w"

definition product_con :: "nat \<Rightarrow> nat \<Rightarrow> nat \<Rightarrow> con" where
  "product_con a b c = \<lparr>con_a = lcw a, con_b = lcw b, con_c = lcw c, con_span = None\<rparr>"

definition circuit_on :: "int \<Rightarrow> nat \<Rightarrow> nat list \<Rightarrow> nat list \<Rightarrow> con list \<Rightarrow> em" where
  "circuit_on p n ins outs cs = (em_new p)\<lparr>em_prv := ins, em_outs := outs, em_cons := cs, em_next := n\<rparr>"

lemma prime13: "is_prime 13"
proof -
  have "{2..<13 :: int} = set [2..12]" by (simp only: set_upto) auto
  then show ?thesis by (simp add: is_prime_def)
qed

lemmas circuit_simps = circuit_on_def em_new_def product_con_def lcw_def lc_variable_def boundary_of_def

section \<open>Linear combinations\<close>

text \<open>C32: Every operation on linear combinations keeps canonical coefficients and a truthful
  \<open>is_simplified\<close> flag, and simplifying produces a combination whose flag is set and that
  simplifying leaves alone.\<close>

theorem lc_flag_truthful:
  assumes "is_prime p" "lc_ok p l" "lc_ok p m" "0 \<le> v" "v < p"
  shows "lc_ok p (lc_add_term p l w v) \<and> lc_ok p (lc_add_constant l v) \<and> lc_ok p (lc_add_linear p l m v) \<and>
    lc_ok p (lc_scale p l v) \<and> lc_scale_assign p l v = lc_scale p l v \<and>
    lc_ok p (lc_simplify p l) \<and> lc_simp (lc_simplify p l) \<and> lc_simplify p (lc_simplify p l) = lc_simplify p l"
  using lc_add_term_ok [OF assms(2,4,5)] lc_add_constant_ok [OF assms(2,4,5)] lc_add_linear_ok [OF assms]
    lc_scale_ok [OF assms(1,2,4,5)] lc_scale_assign_same lc_simplify_ok [of p l] lc_simplify_idem assms
  by simp

theorem lc_flag_truthful_witness:
  "lc_ok 13 (lc_add_linear 13 (lc_variable 2) (lc_variable 1) 5)"
  using lc_flag_truthful [OF prime13, of "lc_variable 2" "lc_variable 1" 5] lc_variable_ok [of 13] by simp

text \<open>C35: Two combinations with the same value under every assignment simplify to the same list of
  terms, and only those: the normal form decides equality of linear functions, whatever
  order the unstable sort leaves equal wires in.\<close>

theorem lc_simplify_canonical:
  assumes "0 < p" "lc_ok p l" "lc_ok p m"
  shows "lc_eq (lc_simplify p l) (lc_simplify p m) \<longleftrightarrow> (\<forall>\<sigma>. lc_sum \<sigma> l mod p = lc_sum \<sigma> m mod p)"
proof
  assume "lc_eq (lc_simplify p l) (lc_simplify p m)"
  then have "lc_sum \<sigma> (lc_simplify p l) = lc_sum \<sigma> (lc_simplify p m)" for \<sigma>
    by (simp add: lc_eq_def lc_sum_def)
  then show "\<forall>\<sigma>. lc_sum \<sigma> l mod p = lc_sum \<sigma> m mod p" by (metis lc_simplify_sum)
next
  assume "\<forall>\<sigma>. lc_sum \<sigma> l mod p = lc_sum \<sigma> m mod p"
  then show "lc_eq (lc_simplify p l) (lc_simplify p m)"
    unfolding lc_eq_def using assms by (intro lc_normal_unique [of p]) (simp_all add: lc_simplify_ok lc_simplify_sum)
qed

theorem lc_simplify_canonical_witness:
  "lc_eq (lc_simplify 13 \<lparr>lc_terms = [(2, 5), (1, 3), (2, 8)], lc_simp = False\<rparr>)
         (lc_simplify 13 \<lparr>lc_terms = [(1, 3)], lc_simp = False\<rparr>)"
proof -
  have "lc_ok 13 \<lparr>lc_terms = [(2, 5), (1, 3), (2, 8)], lc_simp = False\<rparr>" "lc_ok 13 \<lparr>lc_terms = [(1, 3)], lc_simp = False\<rparr>"
    by (simp_all add: lc_ok_def lc_invariant_holds_def)
  moreover have "(5 * x + (3 * y + 8 * x)) mod 13 = 3 * y mod 13" for x y :: int
  proof -
    have "5 * x + (3 * y + 8 * x) = 3 * y + 13 * x" by simp
    then show ?thesis by (simp only: mod_mult_self2)
  qed
  ultimately show ?thesis using lc_simplify_canonical [of 13] by (simp add: lc_sum_def)
qed

section \<open>The optimiser\<close>

text \<open>C4: The optimiser never panics on a well-formed circuit, and a boundary (inputs and
  outputs) that the circuit accepts is accepted by the optimised circuit. The converse holds as
  well when no common-subexpression round meets an intermediate wire that two products define;
  in particular always with common-subexpression elimination off.\<close>

theorem optimize_circuit_correct:
  assumes "is_prime (em_p s)" "wires_ok s" "em_next s < 2 ^ 64"
  shows "\<exists>s'. optimize_circuit budget cse compaction rounds s = Some s' \<and> circuit_ok s' \<and>
    (\<forall>vs. accepts s vs \<longrightarrow> accepts s' vs) \<and>
    (\<not> cse \<or> opt_safe (rounds + 1) budget cse (boundary_of s) (s\<lparr>em_cons := map (simplify_con (em_p s)) (em_cons s)\<rparr>)
       \<longrightarrow> (\<forall>vs. accepts s' vs \<longrightarrow> accepts s vs))"
proof -
  let ?safe = "opt_safe (rounds + 1) budget cse (boundary_of s) (s\<lparr>em_cons := map (simplify_con (em_p s)) (em_cons s)\<rparr>)"
  obtain s' where o: "optimize_circuit budget cse compaction rounds s = Some s'" "circuit_ok s'"
    and acc: "\<And>vs. accepts s vs \<Longrightarrow> accepts s' vs" "\<And>vs. ?safe \<Longrightarrow> accepts s' vs \<Longrightarrow> accepts s vs"
    using optimize_accepts [OF assms, of budget cse compaction rounds] by blast
  have "\<not> cse \<or> ?safe \<longrightarrow> ?safe" using opt_safe_no_cse by (cases cse) simp_all
  then have "\<not> cse \<or> ?safe \<longrightarrow> (\<forall>vs. accepts s' vs \<longrightarrow> accepts s vs)" using acc(2) by blast
  then show ?thesis using o acc(1) by blast
qed

text \<open>The circuit of the instances: \<open>x * y = u\<close>, \<open>x * y = v\<close>, \<open>u * v = z\<close>.\<close>

definition square_circuit :: em where
  "square_circuit = circuit_on 13 6 [1, 2] [5] [product_con 1 2 3, product_con 1 2 4, product_con 3 4 5]"

lemma square_circuit_ok: "wires_ok square_circuit"
  by (auto simp: square_circuit_def wires_ok_def circuit_simps con_ok_def con_wires_def lc_wires_def
      lc_ok_def lc_invariant_holds_def)

text \<open>A round of the elimination, with the table replaced by the list search it implements.\<close>

lemma dedup_round_ref:
  "dedup_round boundary s =
     (case ref_scan boundary [] [] [] (em_cons s) of (reps, dup) \<Rightarrow>
        if reps = [] then None
        else Some (s\<lparr>em_cons := map (rename_con (em_p s) (rename_vector (em_next s) reps)) (retain_unmarked dup (em_cons s)),
               em_recipes := remap_witness_recipes (em_p s) reps (rename_vector (em_next s) reps) (em_recipes s)\<rparr>))"
proof -
  obtain reps dup where r: "ref_scan boundary [] [] [] (em_cons s) = (reps, dup)" by force
  then have "dd_repl (dedup_scan (em_p s) boundary (em_cons s)) = reps" "dd_dup (dedup_scan (em_p s) boundary (em_cons s)) = dup"
    using dedup_scan_ref [of "em_p s" boundary "em_cons s"] by simp_all
  then show ?thesis by (simp add: dedup_round_def r Let_def)
qed

lemma dedup_safe_two:
  "dedup_round b s = Some s' \<Longrightarrow> dedup_round b s' = None \<Longrightarrow> products_distinct b (em_cons s) \<Longrightarrow>
   products_distinct b (em_cons s') \<Longrightarrow> dedup_safe (Suc (Suc n)) b s"
  by simp

lemmas scan_simps = circuit_simps is_product_def out_wire_def same_product_def lc_eq_def rename_vector_def upt_rec
  retain_unmarked_def rename_con_def replace_wires_in_lc_def rename_at_def remap_witness_recipes_def lc_simplify_def

lemma square_round:
  "dedup_round [1, 2, 5] square_circuit =
     Some (circuit_on 13 6 [1, 2] [5] [product_con 1 2 3, product_con 3 3 5])"
  by (simp add: dedup_round_ref square_circuit_def scan_simps)

lemma square_settled: "dedup_round [1, 2, 5] (circuit_on 13 6 [1, 2] [5] [product_con 1 2 3, product_con 3 3 5]) = None"
  by (simp add: dedup_round_ref scan_simps)

lemma square_simplified: "square_circuit\<lparr>em_cons := map (simplify_con (em_p square_circuit)) (em_cons square_circuit)\<rparr> = square_circuit"
  by (simp add: square_circuit_def circuit_simps simplify_con_def lc_simplify_def)

lemma square_safe: "opt_safe 1 None True (boundary_of square_circuit) square_circuit"
proof -
  have b: "boundary_of square_circuit = [1, 2, 5]" by (simp add: square_circuit_def circuit_simps)
  have "products_distinct [1, 2, 5] (em_cons square_circuit)"
    "products_distinct [1, 2, 5] (em_cons (circuit_on 13 6 [1, 2] [5] [product_con 1 2 3, product_con 3 3 5]))"
    by (simp_all add: products_distinct_def square_circuit_def scan_simps)
  from dedup_safe_two [OF square_round square_settled this, of 9]
  moreover have "Suc (Suc 9) = 11" by simp
  ultimately have "dedup_safe 11 [1, 2, 5] square_circuit" by metis
  then have "opt_safe (Suc 0) None True [1, 2, 5] square_circuit" by (simp add: substitute_linear_constraints_def)
  then show ?thesis unfolding b One_nat_def .
qed

theorem optimize_circuit_correct_witness:
  "\<exists>s'. optimize_circuit None True True 0 square_circuit = Some s' \<and> accepts s' [2, 3, 10]"
proof -
  have p: "is_prime (em_p square_circuit)" and n: "em_next square_circuit < 2 ^ 64"
    using prime13 by (simp_all add: square_circuit_def circuit_on_def em_new_def)
  let ?\<sigma> = "\<lambda>w. if w = 0 then 1 else if w = 1 then 2 else if w = 2 then 3 else if w = 5 then 10 else 6 :: int"
  have "accepts square_circuit [2, 3, 10]"
    by (rule acceptsI [of ?\<sigma>]) (simp_all add: square_circuit_def circuit_simps cons_sat_def con_sat_def lc_sum_def)
  then show ?thesis
    using optimize_circuit_correct [OF p square_circuit_ok n, of None True True 0] square_safe square_simplified by auto
qed


definition tied_circuit :: em where
  "tied_circuit = circuit_on 13 8 [1, 2, 3, 4] [] [product_con 1 2 5, product_con 3 4 6, product_con 1 2 7, product_con 3 4 7]"

text \<open>C26: Common-subexpression elimination can lose an equation: when one intermediate wire is the
  output of two products that both have earlier twins, the second replacement overwrites the
  first and both constraints are dropped. The circuit \<open>a b = x, c d = y, a b = w, c d = w\<close> forces
  \<open>a b = c d\<close>; the circuit after the pass accepts \<open>a = b = c = 1\<close>, \<open>d = 2\<close>.\<close>

theorem dedup_drops_equation:
  "wires_ok tied_circuit \<and> \<not> accepts tied_circuit [1, 1, 1, 2] \<and>
   (\<exists>s'. dedup_identical_products (boundary_of tied_circuit) tied_circuit = (True, s') \<and> accepts s' [1, 1, 1, 2])"
proof (intro conjI exI)
  show "wires_ok tied_circuit"
    by (auto simp: tied_circuit_def wires_ok_def circuit_simps con_ok_def con_wires_def lc_wires_def
        lc_ok_def lc_invariant_holds_def)
  show "\<not> accepts tied_circuit [1, 1, 1, 2]"
  proof
    assume "accepts tied_circuit [1, 1, 1, 2]"
    then obtain \<sigma> where "\<sigma> 1 = 1" "\<sigma> 2 = 1" "\<sigma> 3 = 1" "\<sigma> 4 = 2" "cons_sat 13 \<sigma> (em_cons tied_circuit)"
      by (auto elim!: acceptsE simp: tied_circuit_def circuit_simps)
    then show False
      by (auto simp: tied_circuit_def circuit_simps cons_sat_def con_sat_def lc_sum_def)
  qed
  let ?s = "circuit_on 13 8 [1, 2, 3, 4] [] [product_con 1 2 5, product_con 3 4 6]"
  have b: "boundary_of tied_circuit = [1, 2, 3, 4]" by (simp add: tied_circuit_def circuit_simps)
  have one: "dedup_round [1, 2, 3, 4] tied_circuit = Some ?s"
    by (simp add: dedup_round_ref tied_circuit_def scan_simps)
  have two: "dedup_round [1, 2, 3, 4] ?s = None" by (simp add: dedup_round_ref scan_simps)
  have "dedup_rounds (Suc (Suc n)) [1, 2, 3, 4] tied_circuit = (True, ?s)" for n
    using one two by (simp only: dedup_rounds.simps option.case snd_conv)
  moreover have "Suc (Suc 9) = 11" by simp
  ultimately show "dedup_identical_products (boundary_of tied_circuit) tied_circuit = (True, ?s)"
    unfolding dedup_identical_products_def b by metis
  let ?\<sigma> = "\<lambda>w. if w = 4 \<or> w = 6 then 2 else 1 :: int"
  show "accepts ?s [1, 1, 1, 2]"
    by (rule acceptsI [of ?\<sigma>]) (simp_all add: circuit_simps cons_sat_def con_sat_def lc_sum_def)
qed

text \<open>C9: One round of linear substitution over a prime field: the reduced system and the recorded
  definitions determine the original system. A satisfying assignment of the reduced system,
  completed by the definitions of the eliminated wires, satisfies every original constraint and
  is unchanged elsewhere; a satisfying assignment of the original satisfies the reduced one and
  agrees with the definitions; inputs, outputs, the constant and the wires that recipes read by
  signal are never eliminated.\<close>

theorem linear_substitution_correct:
  assumes "is_prime p" "\<forall>c\<in>set cs. con_nf p n c" "\<sigma> 0 = 1"
  shows "let ls = lin_scan p n budget boundary opaque cs; \<tau> = elim_assign (ls_sub ls) (ls_exprs ls) \<sigma>
     in (cons_sat p \<sigma> (reduced_constraints p ls cs) \<longrightarrow> cons_sat p \<tau> cs) \<and>
        (cons_sat p \<sigma> cs \<longrightarrow> cons_sat p \<sigma> (reduced_constraints p ls cs) \<and> (\<forall>w. \<tau> w mod p = \<sigma> w mod p)) \<and>
        (\<forall>w. w \<notin> set (ls_elim ls) \<longrightarrow> \<tau> w = \<sigma> w) \<and>
        (\<forall>w\<in>set (ls_elim ls). w \<noteq> 0 \<and> w \<notin> set boundary \<and> w \<notin> set opaque)"
  unfolding Let_def
  using reduced_constraints_sound [OF assms(1,2) refl, where budget = budget and boundary = boundary and opaque = opaque and \<sigma> = \<sigma>]
    reduced_constraints_complete [OF assms(1,2) refl, where budget = budget and boundary = boundary and opaque = opaque and \<sigma> = \<sigma>]
    elim_assign_surviving [OF assms(1,2) refl, where budget = budget and boundary = boundary and opaque = opaque and \<sigma> = \<sigma>]
    elim_intermediate [OF assms(1,2) refl, where budget = budget and boundary = boundary and opaque = opaque] assms(3)
  by blast

text \<open>The circuit of the instance: \<open>x * 1 = u\<close>, \<open>u * u = y\<close>.\<close>

definition copy_cons :: "con list" where
  "copy_cons = [\<lparr>con_a = lcw 1, con_b = lc_constant 1, con_c = lcw 2, con_span = None\<rparr>, product_con 2 2 3]"

theorem linear_substitution_correct_witness:
  "let ls = lin_scan 13 4 100 [1, 3] [] copy_cons; \<sigma> = (\<lambda>w. if w = 0 then 1 else if w = 2 then 0 else if w = 3 then 4 else 2)
   in ls_elim ls = [2] \<and> cons_sat 13 (elim_assign (ls_sub ls) (ls_exprs ls) \<sigma>) copy_cons"
proof -
  let ?\<sigma> = "\<lambda>w :: nat. if w = 0 then 1 else if w = 2 then 0 else if w = 3 then 4 else 2 :: int"
  let ?ls = "lin_scan 13 4 100 [1, 3] [] copy_cons"
  have nf: "\<forall>c\<in>set copy_cons. con_nf 13 4 c"
    by (auto simp: copy_cons_def circuit_simps con_nf_def con_wires_def lc_wires_def lc_nf_def lc_constant_def
        lc_ok_def lc_invariant_holds_def)
  have ls: "ls_elim ?ls = [2]" "reduced_constraints 13 ?ls copy_cons = [product_con 1 1 3]"
    by (simp_all add: lin_scan_def lin_init_def lin_step_def copy_cons_def circuit_simps lc_constant_def linear_side_def
        lc_is_constant_def resolve_lc_def sub_at_def find_pivot_def pivot_output_def eligible_def expand_terms_def
        lc_zero_def lc_add_term_def append_keeps_order_def lc_simplify_def record_pivot_def push_uses_def uses_len_def
        occurrences_def reduced_constraints_def retain_unmarked_def substitute_con_def substitute_lc_def
        lc_add_linear_def merge_in_place_def scale_terms_def constraint_is_vacuous_def eval_nat_numeral)
  have "cons_sat 13 ?\<sigma> (reduced_constraints 13 ?ls copy_cons)"
    by (simp only: ls(2)) (simp add: circuit_simps cons_sat_def con_sat_def lc_sum_def)
  then show ?thesis using linear_substitution_correct [OF prime13 nf, of ?\<sigma> 100 "[1, 3]" "[]"] ls(1) by (simp add: Let_def)
qed

text \<open>C27: Compaction drops only wires nothing needs. The set of live wires is closed under what the
  recipes of live wires read and write, contains the boundary and every wire of a constraint,
  and the new numbers of live wires ascend, so the compacted circuit accepts the same
  boundaries; the assertion on dropped boundary wires never fires.\<close>

theorem compact_wires_correct:
  assumes "is_prime (em_p s)" "circuit_ok s" "em_next s < 2 ^ 64"
  shows "\<exists>b s'. compact_wires enabled s = Some (b, s') \<and> circuit_ok s' \<and> (\<forall>vs. accepts s' vs = accepts s vs) \<and>
    recipes_closed (em_recipes s) (\<lambda>w. True) (live_wires s) \<and>
    (\<forall>i j. i < j \<and> j < em_next s \<and> live_wires s ! i \<and> live_wires s ! j \<longrightarrow>
       number_live 0 (live_wires s) ! i < number_live 0 (live_wires s) ! j)"
proof -
  have n0: "0 < em_next s" using assms(2) by (simp add: circuit_ok_def)
  obtain b s' where c: "compact_wires enabled s = Some (b, s')" using compact_result [OF assms(2,3), of enabled] by blast
  have "\<forall>i j. i < j \<and> j < em_next s \<and> live_wires s ! i \<and> live_wires s ! j \<longrightarrow>
       number_live 0 (live_wires s) ! i < number_live 0 (live_wires s) ! j"
    using number_live_mono live_wires_props(1) [OF n0] by simp
  then show ?thesis using c compact_accepts [OF assms c] live_wires_props(6) [OF n0] by blast
qed

theorem compact_wires_correct_witness:
  "\<exists>b s'. compact_wires True (circuit_on 13 6 [1, 2] [5] [product_con 1 2 5]) = Some (b, s') \<and>
     accepts s' [2, 3, 6]"
proof -
  let ?s = "circuit_on 13 6 [1, 2] [5] [product_con 1 2 5]"
  have p: "is_prime (em_p ?s)" and n: "em_next ?s < 2 ^ 64" using prime13 by (simp_all add: circuit_on_def em_new_def)
  have ok: "circuit_ok ?s"
    by (auto simp: circuit_ok_def circuit_simps con_nf_def con_wires_def lc_wires_def lc_nf_def lc_ok_def lc_invariant_holds_def)
  let ?\<sigma> = "\<lambda>w. if w = 0 then 1 else if w = 1 then 2 else if w = 2 then 3 else 6 :: int"
  have "accepts ?s [2, 3, 6]"
    by (rule acceptsI [of ?\<sigma>]) (simp_all add: circuit_simps cons_sat_def con_sat_def lc_sum_def)
  then show ?thesis using compact_wires_correct [OF p ok n, of True] by auto
qed

section \<open>The solver\<close>

text \<open>C7: The flag the solver returns is the truth: a witness reported as satisfying satisfies
  every constraint modulo the field, and when the recipes ran without error a witness that
  satisfies the circuit is reported so; the check names the first constraint that fails.\<close>

theorem solver_flag_correct:
  assumes "0 < wi_field ir"
  shows "(solve_r1cs_witness cs ir n pub priv = Some (w, True) \<longrightarrow> cons_sat (wi_field ir) (wire_val w) cs) \<and>
    (solve_r1cs_witness cs ir n pub priv = Some (w, False) \<longrightarrow> execute_host_witness_ir ir pub priv = Inr w0 \<longrightarrow>
       \<not> cons_sat (wi_field ir) (wire_val w) cs) \<and>
    (check_r1cs_satisfiability (wi_field ir) cs w = Some k \<longrightarrow> k < length cs \<and>
       \<not> con_sat (wi_field ir) (wire_val w) (cs ! k) \<and> (\<forall>j<k. con_sat (wi_field ir) (wire_val w) (cs ! j)))"
proof (intro conjI impI)
  show "cons_sat (wi_field ir) (wire_val w) cs" if "solve_r1cs_witness cs ir n pub priv = Some (w, True)"
    by (rule solve_r1cs_sound [OF assms that])
  show "\<not> cons_sat (wi_field ir) (wire_val w) cs"
    if "solve_r1cs_witness cs ir n pub priv = Some (w, False)" "execute_host_witness_ir ir pub priv = Inr w0"
    using that check_r1cs_None [OF assms, of cs w] by (auto simp: solve_r1cs_witness_def Let_def split: if_splits)
qed (use check_from_Some [OF assms, of 0 cs w k] in \<open>auto simp: check_r1cs_satisfiability_def\<close>)

text \<open>The circuit \<open>x * x = y\<close>, \<open>y * x = z\<close> with input \<open>x\<close> and no recipe for \<open>y\<close> and \<open>z\<close>.\<close>

definition cube_ir :: witness_ir where
  "cube_ir = \<lparr>wi_field = 13, wi_num_public = 0, wi_num_private = 1, wi_num_signals = 4,
     wi_nodes = [WConst (13, 1), LoadInput 1 False, Unknown, Unknown], wi_names = Map.empty, wi_order = [0, 1, 2, 3]\<rparr>"


lemma cube_solved: "solve_r1cs_witness [product_con 1 1 2, product_con 2 1 3] cube_ir 4 [] [(13, 2)] = Some ([1, 2, 4, 8], True)"
  by code_simp

theorem solver_flag_correct_witness:
  "solve_r1cs_witness [product_con 1 1 2, product_con 2 1 3] cube_ir 4 [] [(13, 2)] = Some ([1, 2, 4, 8], True) \<and>
   cons_sat 13 (wire_val [1, 2, 4, 8]) [product_con 1 1 2, product_con 2 1 3]"
  using solver_flag_correct [of cube_ir "[product_con 1 1 2, product_con 2 1 3]" 4 "[]" "[(13, 2)]"] cube_solved
  by (simp add: cube_ir_def)




text \<open>A sweep only fills in: a wire that is settled stays settled and keeps its value, and the
  vectors keep their lengths.\<close>

theorem sweep_only_fills_in:
  assumes "sweep_passes p cs n s = Some s'"
  shows "length (sw_w s') = length (sw_w s) \<and> length (sw_mask s') = length (sw_mask s) \<and>
    (\<forall>i < length (sw_mask s). sw_mask s ! i \<longrightarrow> sw_mask s' ! i \<and> sw_w s' ! i = sw_w s ! i)"
  using sweep_passes_keeps [OF assms] by (simp add: sweep_keeps_def)

definition cube_sweep :: sweep where
  "cube_sweep = \<lparr>sw_w = [1, 2, 0, 0], sw_mask = [True, True, False, False], sw_changed = False\<rparr>"

lemma cube_swept: "sweep_passes 13 [product_con 2 1 3, product_con 1 1 2] 100 cube_sweep =
    Some \<lparr>sw_w = [1, 2, 4, 8], sw_mask = [True, True, True, True], sw_changed = False\<rparr>"
  by code_simp

theorem sweep_only_fills_in_witness:
  "\<exists>s'. sweep_passes 13 [product_con 2 1 3, product_con 1 1 2] 100 cube_sweep = Some s' \<and> sw_w s' ! 1 = 2"
  using sweep_only_fills_in [OF cube_swept] cube_swept by (auto simp: cube_sweep_def)

text \<open>C29: The sweeps make progress until they settle: every pass that reports a change has settled a
  wire, so with fewer than one hundred unsettled wires the loop ends in a state that a further
  pass leaves as it is.\<close>

theorem sweeps_settle:
  assumes "sweep_passes p cs 100 s = Some s'" "unsettled s < 100"
  shows "sweep_pass p cs (s'\<lparr>sw_changed := False\<rparr>) = Some (s'\<lparr>sw_changed := False\<rparr>)"
  by (rule sweep_passes_settle [OF assms])

theorem sweeps_settle_witness:
  "sweep_pass 13 [product_con 2 1 3, product_con 1 1 2] \<lparr>sw_w = [1, 2, 4, 8], sw_mask = [True, True, True, True], sw_changed = False\<rparr> =
     Some \<lparr>sw_w = [1, 2, 4, 8], sw_mask = [True, True, True, True], sw_changed = False\<rparr>"
proof -
  have "unsettled cube_sweep < 100" by (simp add: unsettled_def cube_sweep_def)
  from sweeps_settle [OF cube_swept this] show ?thesis by simp
qed



end
