(* ===== verification/YAst.thy ===== *)
theory YAst
  imports Prelude
begin

text \<open>
  The abstract syntax of Y programs (\<^verbatim>\<open>src/ast.rs\<close>) with the source's constructors. A struct that takes part in the recursion of
  the syntax is a datatype with one constructor, whose arguments are the fields in order; the
  others are records. A 64-bit float literal is its bit pattern, a character its code point.
\<close>

section \<open>Expressions, statements and types\<close>

datatype binary_op =
    Add | Sub | Mul | Div | Mod | Eq | NotEq | Lt | Gt | Le | Ge | And | Or
  | BitAnd | BitOr | BitXor | Shl | Shr

datatype unary_op = Neg | Not | Ref bool | Deref

record cache_policy_attr =
  cpa_policy :: string
  cpa_reuse_count :: "int option"
  cpa_span :: span

datatype ('e, 't) generic_arg = GType 't | GValue 'e | GNamed string 'e

datatype 's block = Block "'s list" span

datatype 'e bounds_attr = BoundsAttr 'e 'e span

datatype 'e tile_attr = TileAttr 'e 'e "'e option" span

datatype 'e prefetch_stride_attr = PrefetchStrideAttr "'e option" span

datatype 'e match_pattern =
    PIdent string span
  | PEnumVariant string string "string list" span
  | PLiteral 'e
  | PWildcard span

datatype 'e match_arm = MatchArm "'e match_pattern" 'e span

datatype expr =
    Ident string span
  | IntLit int span
  | FloatLit "64 word" span
  | StringLit string span
  | CharLit nat span
  | Call expr "expr list" span
  | GenericCall expr "ty list" "expr list" span
  | Index expr expr span
  | MemberAccess expr string span
  | Path string string span
  | BoolLit bool span
  | BinaryOp expr binary_op expr span
  | UnaryOp unary_op expr span
  | BlockExpr "stmt block" span
  | SelfLit span
  | StructLit string "(string \<times> expr) list" span
  | ZeroInit span
and ty =
    Primitive string span
  | Generic string "(expr, ty) generic_arg list" span
  | TyIdent string span
  | Array ty expr span
  | Reference bool ty span
  | BlockTile ty expr span
and stmt =
    Let string "ty option" "expr option" "cache_policy_attr option" "span option" "expr bounds_attr option" span
  | TypeAlias string ty span
  | For string expr expr "expr option" "stmt block" "expr option" bool "expr tile_attr option" "expr prefetch_stride_attr option" span
  | Assign expr expr span
  | Expr expr
  | Return "expr option" span
  | Chisel "stmt block" span
  | If expr "stmt block" "stmt block option" bool span
  | While expr "stmt block" "expr option" "nat option" bool span
  | Break span
  | Match expr "expr match_arm list" span
  | CompoundAssign expr binary_op expr span
  | SafeBlock "stmt block" span
  | GhostBlock "stmt block" span
  | ClockDomainBlock expr "stmt block" span
  | CompileTimeAssert expr "string option" span
  | HintBlock "string list" "stmt block" span

section \<open>Spans\<close>

fun expr_span :: "expr \<Rightarrow> span" where
  "expr_span (ZeroInit s) = s"
| "expr_span (Ident _ s) = s"
| "expr_span (IntLit _ s) = s"
| "expr_span (FloatLit _ s) = s"
| "expr_span (StringLit _ s) = s"
| "expr_span (CharLit _ s) = s"
| "expr_span (BoolLit _ s) = s"
| "expr_span (SelfLit s) = s"
| "expr_span (Call _ _ s) = s"
| "expr_span (GenericCall _ _ _ s) = s"
| "expr_span (Index _ _ s) = s"
| "expr_span (MemberAccess _ _ s) = s"
| "expr_span (Path _ _ s) = s"
| "expr_span (BinaryOp _ _ _ s) = s"
| "expr_span (UnaryOp _ _ s) = s"
| "expr_span (BlockExpr _ s) = s"
| "expr_span (StructLit _ _ s) = s"

fun stmt_span :: "stmt \<Rightarrow> span" where
  "stmt_span (Let _ _ _ _ _ _ s) = s"
| "stmt_span (TypeAlias _ _ s) = s"
| "stmt_span (For _ _ _ _ _ _ _ _ _ s) = s"
| "stmt_span (Assign _ _ s) = s"
| "stmt_span (Expr e) = expr_span e"
| "stmt_span (Return _ s) = s"
| "stmt_span (Chisel _ s) = s"
| "stmt_span (If _ _ _ _ s) = s"
| "stmt_span (While _ _ _ _ _ s) = s"
| "stmt_span (Break s) = s"
| "stmt_span (Match _ _ s) = s"
| "stmt_span (CompoundAssign _ _ _ s) = s"
| "stmt_span (SafeBlock _ s) = s"
| "stmt_span (GhostBlock _ s) = s"
| "stmt_span (ClockDomainBlock _ _ s) = s"
| "stmt_span (CompileTimeAssert _ _ s) = s"
| "stmt_span (HintBlock _ _ s) = s"

fun block_stmts :: "'s block \<Rightarrow> 's list" where
  "block_stmts (Block ss _) = ss"

section \<open>Items\<close>

record param =
  par_name :: string
  par_ty :: ty
  par_span :: span

record func_decl =
  fd_name :: string
  fd_is_safe :: bool
  fd_is_zk_safe :: bool
  fd_is_zk_allow_unconstrained :: bool
  fd_is_ptx_emit :: bool
  fd_is_ghost :: bool
  fd_is_hdl_emit :: bool
  fd_params :: "param list"
  fd_ret_ty :: "ty option"
  fd_body :: "stmt block"
  fd_tile :: "expr tile_attr option"
  fd_span :: span

record const_decl =
  cd_name :: string
  cd_ty :: ty
  cd_value :: expr
  cd_span :: span

record generic_param =
  gp_name :: string
  gp_span :: span

datatype field_attr_kind = GpuUncached | Atomic "string option"

record field_attr =
  fa_kind :: field_attr_kind
  fa_span :: span

record struct_field =
  sf_attrs :: "field_attr list"
  sf_name :: string
  sf_ty :: ty

record struct_decl =
  st_name :: string
  st_generic_params :: "generic_param list"
  st_fields :: "struct_field list"
  st_span :: span

record enum_variant =
  ev_name :: string
  ev_fields :: "ty list option"
  ev_span :: span

record enum_decl =
  en_name :: string
  en_generic_params :: "generic_param list"
  en_variants :: "enum_variant list"
  en_span :: span

record impl_block =
  im_target_type :: string
  im_generic_params :: "generic_param list"
  im_methods :: "func_decl list"
  im_span :: span

record import_decl =
  imp_path :: "string list"
  imp_span :: span

record static_assert_decl =
  sa_condition :: expr
  sa_message :: string
  sa_span :: span

record require_attr =
  rq_condition :: expr
  rq_span :: span

record kernel_decl =
  kd_requires :: "require_attr list"
  kd_name :: string
  kd_params :: "param list"
  kd_body :: "stmt block"
  kd_tile :: "expr tile_attr option"
  kd_span :: span

record zk_target_attr =
  zt_field :: scalar_field
  zt_scheme :: proof_scheme
  zt_opt_level :: nat
  zt_span :: span

datatype item =
    KernelItem kernel_decl
  | Func func_decl
  | Struct struct_decl
  | Enum enum_decl
  | Import import_decl
  | StaticAssert static_assert_decl
  | Impl impl_block
  | Const const_decl
  | Module string bool bool "zk_target_attr option" "item list" span

end
