(* ===== verification/ZkGadgets.thy ===== *)
theory ZkGadgets
  imports ZkOptimize YAst
begin

text \<open>
  The integer gadgets of \<^verbatim>\<open>src/zk_emitter.rs\<close>: bit decomposition as range proof, comparison,
  integer division, bitwise operators, shifts, equality, products and multiplexers. Each is
  shown sound (whatever assignment satisfies the emitted constraints gives the result the value
  that the integer operation has) and, where the circuit relies on it, complete (when the
  operands are in range the fresh wires have values that satisfy the constraints).
  \<^verbatim>\<open>Fr::from_u64\<close> reduces modulo the field, which the small bounds of the gadgets never notice in a
  real field; the hypotheses of the form \<open>2 ^ k \<le> p\<close> are what each gadget needs of the modulus.
\<close>

section \<open>Compile-time range obligations\<close>

definition fr_from_u64 :: "int \<Rightarrow> nat \<Rightarrow> int" where
  "fr_from_u64 p x = int x mod p"

definition fr_neg_one :: "int \<Rightarrow> int" where
  "fr_neg_one p = (fr_from_u64 p 0 - 1) mod p"

definition zk_comparison_bits :: nat where
  "zk_comparison_bits = 32"

definition lc_u64 :: "int \<Rightarrow> lc \<Rightarrow> nat option" where
  "lc_u64 p l = Option.bind (lc_is_constant p l) (\<lambda>v. if v < 2 ^ 64 then Some (nat v) else None)"

datatype range_error =
    OperandOutOfRange string string nat
  | DividendTooLarge string string nat
  | QuotientTooLarge string nat nat nat

definition require_gadget_range :: "int \<Rightarrow> lc \<Rightarrow> string \<Rightarrow> span \<Rightarrow> range_error + unit" where
  "require_gadget_range p l op_name sp =
     (case lc_is_constant p l of
        Some v \<Rightarrow> if fr_from_u64 p (2 ^ zk_comparison_bits) \<le> v
                  then Inl (OperandOutOfRange op_name (nat_dec (nat v)) (sp_line sp)) else Inr ()
      | None \<Rightarrow> Inr ())"

definition max_representable_dividend :: "int \<Rightarrow> int" where
  "max_representable_dividend p = (let m = 2 ^ zk_comparison_bits - 1 in fr_from_u64 p (m * m + m - 1))"

definition require_dividend_representable :: "int \<Rightarrow> lc \<Rightarrow> string \<Rightarrow> span \<Rightarrow> range_error + unit" where
  "require_dividend_representable p l op_name sp =
     (case lc_is_constant p l of
        Some v \<Rightarrow> if max_representable_dividend p < v
                  then Inl (DividendTooLarge op_name (nat_dec (nat v)) (sp_line sp)) else Inr ()
      | None \<Rightarrow> Inr ())"

definition require_quotient_range :: "nat \<Rightarrow> nat \<Rightarrow> string \<Rightarrow> span \<Rightarrow> range_error + unit" where
  "require_quotient_range l r op_name sp =
     (if 2 ^ zk_comparison_bits \<le> l div r then Inl (QuotientTooLarge op_name l r (sp_line sp)) else Inr ())"

definition require_gadget_range2 :: "int \<Rightarrow> lc \<Rightarrow> lc \<Rightarrow> string \<Rightarrow> span \<Rightarrow> range_error + unit" where
  "require_gadget_range2 p a b op_name sp =
     and_then (require_gadget_range p a op_name sp) (\<lambda>_. require_gadget_range p b op_name sp)"

section \<open>The gadgets\<close>

definition num2bit_step :: "lc \<Rightarrow> span \<Rightarrow> nat list \<times> lc \<times> int \<times> em \<Rightarrow> nat \<Rightarrow> nat list \<times> lc \<times> int \<times> em" where
  "num2bit_step v sp st i =
     (let (bits, recomposed, coeff, s) = st;
          (b, s1) = new_wire (''bit'' @ nat_dec i) s;
          s2 = set_witness_recipe b (BitOfLc v i) s1;
          s3 = add_constraint \<lparr>con_a = lc_variable b, con_b = lc_variable b, con_c = lc_variable b, con_span = Some sp\<rparr> s2
      in (bits @ [b], lc_add_term (em_p s) recomposed b coeff, coeff * fr_from_u64 (em_p s) 2 mod em_p s, s3))"

definition emit_num2bits :: "lc \<Rightarrow> nat \<Rightarrow> span \<Rightarrow> em \<Rightarrow> nat list \<times> em" where
  "emit_num2bits v n sp s =
     (let (bits, recomposed, coeff, s1) = foldl (num2bit_step v sp) ([], lc_zero, 1, s) [0..<n]
      in (bits, add_constraint \<lparr>con_a = recomposed, con_b = lc_constant 1, con_c = v, con_span = Some sp\<rparr> s1))"

definition emit_less_than :: "lc \<Rightarrow> lc \<Rightarrow> nat \<Rightarrow> span \<Rightarrow> em \<Rightarrow> lc \<times> em" where
  "emit_less_than a b n sp s =
     (let p = em_p s;
          (_, s1) = emit_num2bits a n sp s;
          (_, s2) = emit_num2bits b n sp s1;
          diff = lc_add_linear p (lc_add_constant a (fr_from_u64 p (2 ^ n))) b (fr_neg_one p);
          (bits, s3) = emit_num2bits diff (n + 1) sp s2;
          top = bits ! n
      in (lc_add_term p (lc_constant 1) top (fr_neg_one p), s3))"

definition constrain_true :: "lc \<Rightarrow> span \<Rightarrow> em \<Rightarrow> em" where
  "constrain_true l sp = add_constraint \<lparr>con_a = l, con_b = lc_constant 1, con_c = lc_constant 1, con_span = Some sp\<rparr>"

definition constrain_boolean :: "lc \<Rightarrow> span \<Rightarrow> em \<Rightarrow> em" where
  "constrain_boolean l sp = add_constraint \<lparr>con_a = l, con_b = l, con_c = l, con_span = Some sp\<rparr>"

definition emit_int_div_mod :: "lc \<Rightarrow> lc \<Rightarrow> nat \<Rightarrow> span \<Rightarrow> em \<Rightarrow> (lc \<times> lc) \<times> em" where
  "emit_int_div_mod a b n sp s =
     (let p = em_p s;
          (q, s1) = new_wire ''intdiv_q'' s;
          (r, s2) = new_wire ''intdiv_r'' s1;
          s3 = set_witness_recipe r (IntModLc a b) (set_witness_recipe q (IntDivLc a b) s2);
          q_lc = lc_variable q;
          r_lc = lc_variable r;
          (_, s4) = emit_num2bits q_lc n sp s3;
          rhs = lc_simplify p (lc_add_linear p a r_lc (fr_neg_one p));
          s5 = add_constraint \<lparr>con_a = q_lc, con_b = b, con_c = rhs, con_span = Some sp\<rparr> s4;
          (lt, s6) = emit_less_than r_lc b n sp s5
      in ((q_lc, r_lc), constrain_true lt sp s6))"

text \<open>\<^verbatim>\<open>emit_mul_lc\<close> pushes the constraint without settling hints.\<close>

definition emit_mul_lc :: "lc \<Rightarrow> lc \<Rightarrow> string \<Rightarrow> em \<Rightarrow> lc \<times> em" where
  "emit_mul_lc a b name s =
     (let (w, s1) = new_wire name s
      in (lc_variable w, s1\<lparr>em_cons := em_cons s1 @ [\<lparr>con_a = a, con_b = b, con_c = lc_variable w, con_span = None\<rparr>]\<rparr>))"

text \<open>Bit by bit; an operator that is not bitwise is unreachable (\<open>None\<close>).\<close>

definition bitwise_bit :: "int \<Rightarrow> binary_op \<Rightarrow> lc \<Rightarrow> lc \<Rightarrow> lc \<Rightarrow> lc option" where
  "bitwise_bit p op ai bi andl =
     (case op of
        BitAnd \<Rightarrow> Some andl
      | BitOr \<Rightarrow> Some (lc_add_linear p (lc_add_linear p ai bi 1) andl (fr_neg_one p))
      | BitXor \<Rightarrow> Some (lc_add_linear p (lc_add_linear p ai bi 1) andl ((fr_from_u64 p 0 - fr_from_u64 p 2) mod p))
      | _ \<Rightarrow> None)"

fun bitwise_loop :: "binary_op \<Rightarrow> (nat \<times> nat) list \<Rightarrow> lc \<Rightarrow> int \<Rightarrow> em \<Rightarrow> (lc \<times> em) option" where
  "bitwise_loop op [] out coeff s = Some (out, s)"
| "bitwise_loop op ((a, b) # bs) out coeff s =
     (let p = em_p s;
          (andl, s1) = emit_mul_lc (lc_variable a) (lc_variable b) ''bitop_and'' s
      in case bitwise_bit p op (lc_variable a) (lc_variable b) andl of
           None \<Rightarrow> None
         | Some t \<Rightarrow>
             bitwise_loop op bs (lc_add_linear p out (lc_simplify p t) coeff) (coeff * fr_from_u64 p 2 mod p) s1)"

definition emit_bitwise :: "lc \<Rightarrow> lc \<Rightarrow> binary_op \<Rightarrow> nat \<Rightarrow> span \<Rightarrow> em \<Rightarrow> (lc \<times> em) option" where
  "emit_bitwise a b op n sp s =
     (let (a_bits, s1) = emit_num2bits a n sp s;
          (b_bits, s2) = emit_num2bits b n sp s1
      in map_option (\<lambda>(out, s3). (lc_simplify (em_p s) out, s3))
           (bitwise_loop op (zip a_bits b_bits) lc_zero 1 s2))"

text \<open>The coefficient of output position \<open>i\<close> is a product of \<open>i\<close> twos.\<close>

definition shift_coeff :: "int \<Rightarrow> nat \<Rightarrow> int" where
  "shift_coeff p i = ((\<lambda>c. c * fr_from_u64 p 2 mod p) ^^ i) 1"

definition shift_source :: "nat \<Rightarrow> nat \<Rightarrow> bool \<Rightarrow> nat \<Rightarrow> nat option" where
  "shift_source n amount left i =
     (if left then (if i < amount then None else Some (i - amount))
      else (if n \<le> i + amount then None else Some (i + amount)))"

definition emit_shift :: "lc \<Rightarrow> nat \<Rightarrow> bool \<Rightarrow> nat \<Rightarrow> span \<Rightarrow> em \<Rightarrow> lc \<times> em" where
  "emit_shift a amount left n sp s =
     (let p = em_p s;
          (bits, s1) = emit_num2bits a n sp s
      in if n \<le> amount then (lc_zero, s1)
         else (lc_simplify p (foldl (\<lambda>out i. case shift_source n amount left i of
                  None \<Rightarrow> out
                | Some src \<Rightarrow> lc_add_term p out (bits ! src) (shift_coeff p i)) lc_zero [0..<n]), s1))"

text \<open>\<^verbatim>\<open>BinaryOp::Eq\<close> of \<^verbatim>\<open>emit_expr\<close>: a difference that is a constant folds; otherwise a flag and an
  inverse witness.\<close>

definition emit_eq :: "lc \<Rightarrow> lc \<Rightarrow> span \<Rightarrow> em \<Rightarrow> lc \<times> em" where
  "emit_eq l r sp s =
     (let p = em_p s; d = lc_add_linear p l r (fr_neg_one p)
      in case lc_is_constant p d of
           Some dc \<Rightarrow> (lc_constant (if dc = 0 then 1 else 0), s)
         | None \<Rightarrow>
             (let (e, s1) = new_wire ''eq_tmp'' s;
                  (i, s2) = new_wire ''inv_d_tmp'' s1;
                  s3 = set_witness_recipe i (InvOrZeroLc d) (set_witness_recipe e (IsZeroLc d) s2);
                  s4 = add_constraint \<lparr>con_a = d, con_b = lc_variable e, con_c = lc_zero, con_span = Some sp\<rparr> s3;
                  c_term = lc_add_term p (lc_constant 1) e (fr_neg_one p);
                  s5 = add_constraint \<lparr>con_a = d, con_b = lc_variable i, con_c = c_term, con_span = Some sp\<rparr> s4
              in (lc_variable e, s5)))"

definition emit_mux :: "lc \<Rightarrow> lc \<Rightarrow> lc \<Rightarrow> span \<Rightarrow> em \<Rightarrow> lc \<times> em" where
  "emit_mux cond a b sp s =
     (let p = em_p s in
      if lc_is_constant p cond = Some 1 then (a, s)
      else if lc_is_constant p cond = Some 0 then (b, s)
      else let diff = lc_simplify p (lc_add_linear p a b (fr_neg_one p))
           in if lc_is_constant p diff = Some 0 then (a, s)
              else let (w, s1) = new_wire ''ret_mux'' s;
                       out = lc_variable w;
                       c_term = lc_add_linear p out b (fr_neg_one p)
                   in (out, s1\<lparr>em_cons := em_cons s1 @ [\<lparr>con_a = cond, con_b = diff, con_c = c_term, con_span = Some sp\<rparr>]\<rparr>))"

record ret =
  ret_flag :: lc
  ret_value :: lc

definition seq_ret :: "ret \<Rightarrow> ret \<Rightarrow> span \<Rightarrow> em \<Rightarrow> ret \<times> em" where
  "seq_ret a b sp s =
     (let p = em_p s in
      if lc_is_constant p (ret_flag a) = Some 1 then (a, s)
      else if lc_is_constant p (ret_flag a) = Some 0 then (b, s)
      else let not_a = lc_add_linear p (lc_constant 1) (ret_flag a) (fr_neg_one p);
               (prod, s1) = emit_mul_lc not_a (ret_flag b) ''ret_flag'' s;
               flag = lc_simplify p (lc_add_linear p (ret_flag a) prod 1);
               (value, s2) = emit_mux (ret_flag a) (ret_value a) (ret_value b) sp s1
           in (\<lparr>ret_flag = flag, ret_value = value\<rparr>, s2))"

definition emit_poseidon_sbox :: "lc \<Rightarrow> em \<Rightarrow> lc \<times> em" where
  "emit_poseidon_sbox x s =
     (let p = em_p s in
      case lc_is_constant p x of
        Some c \<Rightarrow> (let c2 = c * c mod p; c4 = c2 * c2 mod p in (lc_constant (c4 * c mod p), s))
      | None \<Rightarrow>
          (let (x2, s1) = emit_mul_lc x x ''pos_x2'' s;
               (x4, s2) = emit_mul_lc x2 x2 ''pos_x4'' s1
           in emit_mul_lc x4 x ''pos_x5'' s2))"

section \<open>Growing circuits\<close>

text \<open>What every emission keeps: the field and the boundary stay, constraints and wires are only
  added.\<close>

definition grows :: "em \<Rightarrow> em \<Rightarrow> bool" where
  "grows s s' \<longleftrightarrow> em_p s' = em_p s \<and> boundary_of s' = boundary_of s \<and> em_next s \<le> em_next s' \<and>
     (\<exists>cs. em_cons s' = em_cons s @ cs)"

definition sat :: "em \<Rightarrow> (nat \<Rightarrow> int) \<Rightarrow> bool" where
  "sat s \<sigma> \<longleftrightarrow> \<sigma> 0 = 1 \<and> cons_sat (em_p s) \<sigma> (em_cons s)"

text \<open>A combination over the field and the wires of a circuit, and its value.\<close>

definition lc_in :: "em \<Rightarrow> lc \<Rightarrow> bool" where
  "lc_in s l \<longleftrightarrow> lc_ok (em_p s) l \<and> (\<forall>w\<in>lc_wires l. w < em_next s)"

definition val :: "em \<Rightarrow> (nat \<Rightarrow> int) \<Rightarrow> lc \<Rightarrow> int" where
  "val s \<sigma> l = lc_sum \<sigma> l mod em_p s"

lemma grows_refl [simp]: "grows s s"
  by (simp add: grows_def)

lemma grows_trans [trans]: "grows s t \<Longrightarrow> grows t u \<Longrightarrow> grows s u"
  by (auto simp: grows_def)

lemma grows_p: "grows s s' \<Longrightarrow> em_p s' = em_p s"
  by (simp add: grows_def)

lemma grows_next: "grows s s' \<Longrightarrow> em_next s \<le> em_next s'"
  by (simp add: grows_def)

lemma grows_sat: "grows s s' \<Longrightarrow> sat s' \<sigma> \<Longrightarrow> sat s \<sigma>"
  by (auto simp: grows_def sat_def cons_sat_def)

lemma grows_in: "grows s s' \<Longrightarrow> lc_in s l \<Longrightarrow> lc_in s' l"
  by (auto simp: grows_def lc_in_def)

lemma grows_val: "grows s s' \<Longrightarrow> val s' \<sigma> l = val s \<sigma> l"
  by (simp add: grows_def val_def)

lemma sat_0: "sat s \<sigma> \<Longrightarrow> \<sigma> 0 = 1"
  by (simp add: sat_def)

lemma sat_con: "sat s \<sigma> \<Longrightarrow> c \<in> set (em_cons s) \<Longrightarrow> con_sat (em_p s) \<sigma> c"
  by (simp add: sat_def cons_sat_def)

lemma con_sat_val: "con_sat (em_p s) \<sigma> c \<longleftrightarrow> val s \<sigma> (con_a c) * val s \<sigma> (con_b c) mod em_p s = val s \<sigma> (con_c c)"
  by (simp add: con_sat_def val_def mod_mult_eq)

lemma val_range: "0 < em_p s \<Longrightarrow> 0 \<le> val s \<sigma> l \<and> val s \<sigma> l < em_p s"
  by (simp add: val_def)

lemma val_small: "0 < em_p s \<Longrightarrow> val s \<sigma> l mod em_p s = val s \<sigma> l"
  by (simp add: val_def)

section \<open>Values of the combinations the gadgets build\<close>

lemma fr_neg_one_eq: "fr_neg_one p = - 1 mod p"
  by (simp add: fr_neg_one_def fr_from_u64_def)

lemma fr_neg_one_range: "0 < p \<Longrightarrow> 0 \<le> fr_neg_one p \<and> fr_neg_one p < p"
  by (simp add: fr_neg_one_eq)

lemma fr_from_u64_range: "0 < p \<Longrightarrow> 0 \<le> fr_from_u64 p x \<and> fr_from_u64 p x < p"
  by (simp add: fr_from_u64_def)

lemma val_const: "\<sigma> 0 = 1 \<Longrightarrow> val s \<sigma> (lc_constant v) = v mod em_p s"
  by (simp add: val_def lc_constant_sum)

lemma val_var: "val s \<sigma> (lc_variable w) = \<sigma> w mod em_p s"
  by (simp add: val_def)

lemma val_zero [simp]: "val s \<sigma> lc_zero = 0"
  by (simp add: val_def)

lemma val_simplify: "val s \<sigma> (lc_simplify (em_p s) l) = val s \<sigma> l"
  by (simp add: val_def lc_simplify_sum)

lemma val_add_term: "val s \<sigma> (lc_add_term (em_p s) l w v) = (val s \<sigma> l + v * \<sigma> w) mod em_p s"
  by (simp add: val_def lc_add_term_sum mod_simps)

lemma val_add_linear: "val s \<sigma> (lc_add_linear (em_p s) l m k) = (val s \<sigma> l + k * val s \<sigma> m) mod em_p s"
  unfolding val_def lc_add_linear_sum by (rule mod_add_cong) (simp_all add: mod_mult_right_eq)

lemma val_add_constant: "\<sigma> 0 = 1 \<Longrightarrow> val s \<sigma> (lc_add_constant l v) = (val s \<sigma> l + v) mod em_p s"
  by (simp add: val_def lc_add_constant_sum mod_simps)

lemma neg_one_mult: "(x + fr_neg_one p * y) mod p = (x - y) mod p" for x y :: int
proof -
  have "(x + - 1 mod p * y) mod p = (x + - 1 * y) mod p" by (intro mod_congs)
  then show ?thesis by (simp add: fr_neg_one_eq)
qed

lemma val_sub: "val s \<sigma> (lc_add_linear (em_p s) l m (fr_neg_one (em_p s))) = (val s \<sigma> l - val s \<sigma> m) mod em_p s"
  by (simp add: val_add_linear neg_one_mult)

lemma val_add: "val s \<sigma> (lc_add_linear (em_p s) l m 1) = (val s \<sigma> l + val s \<sigma> m) mod em_p s"
  by (simp add: val_add_linear)

lemma val_is_constant: "lc_is_constant (em_p s) l = Some v \<Longrightarrow> \<sigma> 0 = 1 \<Longrightarrow> 0 < em_p s \<Longrightarrow> val s \<sigma> l = v"
  using lc_is_constant_val [of "em_p s" l v \<sigma>] lc_is_constant_range [of "em_p s" l v] by (simp add: val_def)

lemma val_cong: "(\<And>w. w < em_next s \<Longrightarrow> \<tau> w = \<sigma> w) \<Longrightarrow> lc_in s l \<Longrightarrow> val s \<tau> l = val s \<sigma> l"
  unfolding val_def lc_in_def by (intro arg_cong2 [where f = "(mod)"] lc_sum_cong) simp_all

section \<open>Combinations stay in the circuit\<close>

lemma lc_in_ok: "lc_in s l \<Longrightarrow> lc_ok (em_p s) l"
  by (simp add: lc_in_def)

lemma lc_in_const: "0 \<le> v \<Longrightarrow> v < em_p s \<Longrightarrow> 0 < em_next s \<Longrightarrow> lc_in s (lc_constant v)"
  using lc_constant_ok [of v "em_p s"] by (simp add: lc_in_def) (simp add: lc_constant_def lc_wires_def lc_zero_def)

lemma lc_in_zero [simp]: "lc_in s lc_zero"
  by (simp add: lc_in_def lc_wires_def) (simp add: lc_zero_def)

lemma lc_in_var: "1 < em_p s \<Longrightarrow> w < em_next s \<Longrightarrow> lc_in s (lc_variable w)"
  using lc_variable_ok [of "em_p s" w] by (auto simp: lc_in_def lc_variable_def lc_wires_def)

lemma lc_in_simplify: "0 < em_p s \<Longrightarrow> lc_in s l \<Longrightarrow> lc_in s (lc_simplify (em_p s) l)"
  using lc_simplify_wires by (fastforce simp: lc_in_def lc_simplify_ok)

lemma lc_in_add_term: "lc_in s l \<Longrightarrow> w < em_next s \<Longrightarrow> 0 \<le> v \<Longrightarrow> v < em_p s \<Longrightarrow> lc_in s (lc_add_term (em_p s) l w v)"
  using lc_add_term_wires [of "em_p s" l w v] by (auto simp: lc_in_def lc_add_term_ok)

lemma lc_in_add_linear:
  "is_prime (em_p s) \<Longrightarrow> lc_in s l \<Longrightarrow> lc_in s m \<Longrightarrow> 0 \<le> k \<Longrightarrow> k < em_p s \<Longrightarrow> lc_in s (lc_add_linear (em_p s) l m k)"
  using lc_add_linear_wires [of "em_p s" l m k] by (auto simp: lc_in_def lc_add_linear_ok)

lemma lc_in_add_constant:
  "lc_in s l \<Longrightarrow> 0 < em_next s \<Longrightarrow> 0 \<le> v \<Longrightarrow> v < em_p s \<Longrightarrow> lc_in s (lc_add_constant l v)"
  by (simp add: lc_in_def lc_add_constant_ok) (simp add: lc_add_constant_def lc_wires_def)

lemma wires_ok_con:
  "wires_ok s \<Longrightarrow> lc_in s a \<Longrightarrow> lc_in s b \<Longrightarrow> lc_in s c \<Longrightarrow>
   wires_ok (s\<lparr>em_cons := em_cons s @ [\<lparr>con_a = a, con_b = b, con_c = c, con_span = sp\<rparr>]\<rparr>)"
  by (auto simp: wires_ok_def lc_in_def con_ok_def con_wires_def boundary_of_def)

section \<open>The primitive steps\<close>

lemma new_wire_eq: "new_wire name s = (em_next s, s\<lparr>em_next := em_next s + 1, em_vars := em_vars s @ [name @ ''_'' @ nat_dec (em_next s)]\<rparr>)"
  by (simp add: new_wire_def Let_def)

lemma set_witness_recipe_simps [simp]:
  "em_p (set_witness_recipe w op s) = em_p s" "em_next (set_witness_recipe w op s) = em_next s"
  "em_cons (set_witness_recipe w op s) = em_cons s" "boundary_of (set_witness_recipe w op s) = boundary_of s"
  "em_scopes (set_witness_recipe w op s) = em_scopes s" "em_consts (set_witness_recipe w op s) = em_consts s"
  "em_calls (set_witness_recipe w op s) = em_calls s"
  by (simp_all add: set_witness_recipe_def boundary_of_def)

lemma add_constraint_simps [simp]:
  "em_p (add_constraint c s) = em_p s" "em_next (add_constraint c s) = em_next s"
  "em_cons (add_constraint c s) = em_cons s @ [c]" "boundary_of (add_constraint c s) = boundary_of s"
  "em_scopes (add_constraint c s) = em_scopes s" "em_consts (add_constraint c s) = em_consts s"
  "em_calls (add_constraint c s) = em_calls s" "em_recipes (add_constraint c s) = em_recipes s"
  by (simp_all add: add_constraint_def boundary_of_def Let_def)

lemma boundary_update [simp]:
  "boundary_of (s\<lparr>em_next := n, em_vars := vs\<rparr>) = boundary_of s" "boundary_of (s\<lparr>em_cons := cs\<rparr>) = boundary_of s"
  by (simp_all add: boundary_of_def)

lemma wires_ok_iff:
  "wires_ok s \<longleftrightarrow> 0 < em_next s \<and> (\<forall>w\<in>set (boundary_of s). w < em_next s) \<and>
     (\<forall>c\<in>set (em_cons s). lc_in s (con_a c) \<and> lc_in s (con_b c) \<and> lc_in s (con_c c))"
  by (auto simp: wires_ok_def con_ok_def con_wires_def lc_in_def)

lemma wires_ok_0: "wires_ok s \<Longrightarrow> 0 < em_next s"
  by (simp add: wires_ok_def)

text \<open>A state that adds fresh wires and constraints over them is well formed again.\<close>

lemma wires_ok_extend:
  assumes ok: "wires_ok s" and g: "em_p s' = em_p s" "boundary_of s' = boundary_of s" "em_next s \<le> em_next s'"
    and cs: "em_cons s' = em_cons s @ cs" "\<And>c. c \<in> set cs \<Longrightarrow> lc_in s' (con_a c) \<and> lc_in s' (con_b c) \<and> lc_in s' (con_c c)"
  shows "wires_ok s' \<and> grows s s'"
proof -
  have gr: "grows s s'" using g cs(1) by (auto simp: grows_def)
  have "lc_in s' (con_a c) \<and> lc_in s' (con_b c) \<and> lc_in s' (con_c c)" if "c \<in> set (em_cons s')" for c
    using that cs ok grows_in [OF gr] by (auto simp: wires_ok_iff)
  moreover have "0 < em_next s' \<and> (\<forall>w\<in>set (boundary_of s'). w < em_next s')"
    using ok g by (fastforce simp: wires_ok_def)
  ultimately show ?thesis using gr by (simp add: wires_ok_iff)
qed

section \<open>Bit decomposition\<close>

text \<open>What the loop has built after \<open>n\<close> bits.\<close>

definition bool_con :: "span \<Rightarrow> nat \<Rightarrow> con" where
  "bool_con sp b = \<lparr>con_a = lc_variable b, con_b = lc_variable b, con_c = lc_variable b, con_span = Some sp\<rparr>"

lemma num2bits_loop:
  assumes p: "1 < em_p s"
  shows "foldl (num2bit_step v sp) ([], lc_zero, 1, s) [0..<n] = (bits, rec, coeff, s') \<Longrightarrow>
    bits = [em_next s..<em_next s + n] \<and> coeff = 2 ^ n mod em_p s \<and> em_p s' = em_p s \<and> em_next s' = em_next s + n \<and>
    boundary_of s' = boundary_of s \<and> em_scopes s' = em_scopes s \<and> em_consts s' = em_consts s \<and> em_calls s' = em_calls s \<and>
    em_cons s' = em_cons s @ map (bool_con sp) [em_next s..<em_next s + n] \<and> lc_in s' rec \<and>
    (\<forall>\<sigma>. val s \<sigma> rec = (\<Sum>i<n. 2 ^ i * \<sigma> (em_next s + i)) mod em_p s)"
proof (induction n arbitrary: bits rec coeff s')
  case 0
  then show ?case using p by simp
next
  case (Suc n)
  let ?p = "em_p s"
  obtain bits0 rec0 coeff0 s0 where st: "foldl (num2bit_step v sp) ([], lc_zero, 1, s) [0..<n] = (bits0, rec0, coeff0, s0)"
    by (metis prod_cases4)
  note IH = Suc.IH [OF st]
  have eqs: "em_p s0 = ?p" "em_next s0 = em_next s + n" "coeff0 = 2 ^ n mod ?p" using IH by blast+
  have step: "num2bit_step v sp (bits0, rec0, coeff0, s0) n = (bits, rec, coeff, s')" using Suc.prems st by simp
  have parts: "bits = bits0 @ [em_next s0]" "rec = lc_add_term ?p rec0 (em_next s0) coeff0" "coeff = coeff0 * (2 mod ?p) mod ?p"
    "em_p s' = ?p" "em_next s' = em_next s0 + 1" "boundary_of s' = boundary_of s0" "em_scopes s' = em_scopes s0"
    "em_consts s' = em_consts s0" "em_calls s' = em_calls s0" "em_cons s' = em_cons s0 @ [bool_con sp (em_next s0)]"
    using step by (auto simp: num2bit_step_def new_wire_eq eqs(1) fr_from_u64_def bool_con_def Let_def)
  have "coeff = 2 ^ Suc n mod ?p" unfolding parts(3) eqs(3) by (simp add: mod_mult_eq mult.commute)
  moreover have in_rec: "lc_in s' rec"
  proof -
    have "lc_in s' rec0" using IH parts by (auto simp: lc_in_def less_SucI)
    then have "lc_in s' (lc_add_term (em_p s') rec0 (em_next s0) coeff0)"
      by (rule lc_in_add_term) (use parts(4,5) eqs(3) p in simp_all)
    then show ?thesis using parts(2,4) by simp
  qed
  moreover have "val s \<sigma> rec = (\<Sum>i<Suc n. 2 ^ i * \<sigma> (em_next s + i)) mod ?p" for \<sigma>
  proof -
    have "val s \<sigma> rec = ((\<Sum>i<n. 2 ^ i * \<sigma> (em_next s + i)) mod ?p + 2 ^ n mod ?p * \<sigma> (em_next s + n)) mod ?p"
      unfolding parts(2) val_add_term eqs using IH by simp
    also have "\<dots> = ((\<Sum>i<n. 2 ^ i * \<sigma> (em_next s + i)) + 2 ^ n * \<sigma> (em_next s + n)) mod ?p"
      by (intro mod_congs)
    finally show ?thesis by simp
  qed
  ultimately show ?case using IH parts eqs by simp
qed

text \<open>Sums of bits are binary numbers.\<close>

lemma bits_sum:
  assumes "\<And>i. i < n \<Longrightarrow> b i = of_bool (Q i)"
  shows "(\<Sum>i<n. 2 ^ i * b i) = horner_sum of_bool (2 :: int) (map Q [0..<n])"
  using assms by (simp add: horner_sum_eq_sum mult.commute atLeast0LessThan)

lemma bit_bits_sum: "bit (horner_sum of_bool (2 :: int) (map Q [0..<n])) i \<longleftrightarrow> i < n \<and> Q i"
  by (auto simp: bit_horner_sum_bit_iff)

lemma bits_sum_bound: "horner_sum of_bool (2 :: int) (map Q [0..<n]) < 2 ^ n" "0 \<le> horner_sum of_bool (2 :: int) (map Q [0..<n])"
  using horner_sum_of_bool_2_less [of "map Q [0..<n]"] by (simp_all add: horner_sum_eq_sum sum_nonneg)

lemma bits_of_value: "0 \<le> v \<Longrightarrow> v < 2 ^ n \<Longrightarrow> horner_sum of_bool (2 :: int) (map (bit v) [0..<n]) = v"
  by (simp add: horner_sum_bit_eq_take_bit take_bit_int_eq_self)

text \<open>A wire constrained by \<open>b * b = b\<close> carries a bit.\<close>

lemma boolean_value:
  assumes "is_prime p" "x * x mod p = x mod p"
  shows "x mod p = of_bool (x mod p = 1)"
proof -
  have "p dvd x * x - x" using assms(2) by (simp add: mod_eq_dvd_iff)
  then have "p dvd x * (x - 1)" by (simp add: algebra_simps)
  then have "p dvd x \<or> p dvd x - 1" using is_prime_dvd_mult [OF assms(1)] by blast
  then have "x mod p = 0 \<or> x mod p = 1 mod p" by (auto simp: mod_eq_dvd_iff)
  then show ?thesis using is_prime_gt1 [OF assms(1)] by auto
qed

definition agree :: "nat \<Rightarrow> (nat \<Rightarrow> int) \<Rightarrow> (nat \<Rightarrow> int) \<Rightarrow> bool" where
  "agree n \<sigma> \<tau> \<longleftrightarrow> (\<forall>w<n. \<tau> w = \<sigma> w)"

lemma agree_refl [simp]: "agree n \<sigma> \<sigma>"
  by (simp add: agree_def)

lemma agree_trans: "agree n \<sigma> \<tau> \<Longrightarrow> agree m \<tau> \<rho> \<Longrightarrow> n \<le> m \<Longrightarrow> agree n \<sigma> \<rho>"
  by (simp add: agree_def)

lemma agree_val: "agree (em_next s) \<sigma> \<tau> \<Longrightarrow> lc_in s l \<Longrightarrow> val s \<tau> l = val s \<sigma> l"
  by (rule val_cong) (simp_all add: agree_def)

lemma agree_sat:
  assumes "wires_ok s" "sat s \<sigma>" "agree (em_next s) \<sigma> \<tau>"
  shows "sat s \<tau>"
proof -
  have "con_sat (em_p s) \<tau> c" if "c \<in> set (em_cons s)" for c
  proof -
    have "con_sat (em_p s) \<sigma> c" using assms(2) that by (simp add: sat_def cons_sat_def)
    moreover have "con_sat (em_p s) \<tau> c = con_sat (em_p s) \<sigma> c"
      by (rule con_sat_cong) (use assms(1,3) that in \<open>auto simp: wires_ok_def agree_def\<close>)
    ultimately show ?thesis by simp
  qed
  moreover have "\<tau> 0 = 1" using assms by (simp add: agree_def sat_def wires_ok_def)
  ultimately show ?thesis by (simp add: sat_def cons_sat_def)
qed

text \<open>The decomposition as a whole.\<close>

lemma num2bits_state:
  assumes p: "is_prime (em_p s)" and ok: "wires_ok s" and v: "lc_in s v" and e: "emit_num2bits v n sp s = (bits, s')"
  obtains rec where "bits = [em_next s..<em_next s + n]" "em_next s' = em_next s + n" "wires_ok s'" "grows s s'"
    "em_scopes s' = em_scopes s" "em_consts s' = em_consts s" "em_calls s' = em_calls s"
    "em_cons s' = em_cons s @ map (bool_con sp) [em_next s..<em_next s + n] @
       [\<lparr>con_a = rec, con_b = lc_constant 1, con_c = v, con_span = Some sp\<rparr>]"
    "\<forall>\<sigma>. val s \<sigma> rec = (\<Sum>i<n. 2 ^ i * \<sigma> (em_next s + i)) mod em_p s"
proof -
  have p1: "1 < em_p s" using is_prime_gt1 [OF p] .
  obtain bits0 rec coeff s0 where st: "foldl (num2bit_step v sp) ([], lc_zero, 1, s) [0..<n] = (bits0, rec, coeff, s0)"
    by (metis prod_cases4)
  note L = num2bits_loop [OF p1 st]
  have e': "bits = bits0" "s' = add_constraint \<lparr>con_a = rec, con_b = lc_constant 1, con_c = v, con_span = Some sp\<rparr> s0"
    using e st by (simp_all add: emit_num2bits_def)
  let ?cs = "map (bool_con sp) [em_next s..<em_next s + n] @ [\<lparr>con_a = rec, con_b = lc_constant 1, con_c = v, con_span = Some sp\<rparr>]"
  have eqs: "em_p s' = em_p s" "boundary_of s' = boundary_of s" "em_next s' = em_next s + n" "em_cons s' = em_cons s @ ?cs"
    "em_scopes s' = em_scopes s" "em_consts s' = em_consts s" "em_calls s' = em_calls s"
    using L by (simp_all add: e'(2))
  have ins: "lc_in s' rec" "lc_in s' v" "lc_in s' (lc_constant 1)"
    using L v p1 wires_ok_0 [OF ok] by (auto simp: e'(2) lc_in_def intro!: lc_constant_ok)
      (auto simp: lc_constant_def lc_wires_def)
  have bs: "lc_in s' (lc_variable b)" if "b < em_next s + n" for b
    using lc_in_var [of s' b] p1 that eqs by simp
  have "wires_ok s' \<and> grows s s'"
    by (rule wires_ok_extend [OF ok eqs(1,2) _ eqs(4)]) (use eqs(3) ins bs in \<open>auto simp: bool_con_def\<close>)
  then show ?thesis using that [of rec] L e'(1) eqs by simp
qed

lemma num2bits_sound:
  assumes p: "is_prime (em_p s)" and ok: "wires_ok s" and v: "lc_in s v" and e: "emit_num2bits v n sp s = (bits, s')"
    and n: "2 ^ n \<le> em_p s" and sat: "sat s' \<sigma>"
  shows "length bits = n \<and> val s \<sigma> v < 2 ^ n \<and> (\<forall>i<n. \<sigma> (bits ! i) mod em_p s = of_bool (bit (val s \<sigma> v) i))"
proof -
  let ?p = "em_p s"
  have p0: "0 < ?p" using p by simp
  obtain rec where st: "bits = [em_next s..<em_next s + n]" "grows s s'" 
    "em_cons s' = em_cons s @ map (bool_con sp) [em_next s..<em_next s + n] @
       [\<lparr>con_a = rec, con_b = lc_constant 1, con_c = v, con_span = Some sp\<rparr>]"
    and rec: "\<forall>\<sigma>. val s \<sigma> rec = (\<Sum>i<n. 2 ^ i * \<sigma> (em_next s + i)) mod ?p"
    by (rule num2bits_state [OF p ok v e]) (rule that; assumption)
  note gp = grows_p [OF st(2)]
  let ?x = "\<lambda>i. \<sigma> (em_next s + i) mod ?p"
  let ?Q = "\<lambda>i. ?x i = 1"
  have bool: "?x i = of_bool (?Q i)" if "i < n" for i
  proof (rule boolean_value [OF p])
    have "con_sat ?p \<sigma> (bool_con sp (em_next s + i))"
      using sat_con [OF sat, of "bool_con sp (em_next s + i)"] that by (simp add: st(3) gp)
    then show "\<sigma> (em_next s + i) * \<sigma> (em_next s + i) mod ?p = \<sigma> (em_next s + i) mod ?p"
      by (simp add: con_sat_def bool_con_def)
  qed
  have "con_sat ?p \<sigma> \<lparr>con_a = rec, con_b = lc_constant 1, con_c = v, con_span = Some sp\<rparr>"
    using sat_con [OF sat] by (simp add: st(3) gp)
  then have "val s \<sigma> v = val s \<sigma> rec * (1 mod ?p) mod ?p"
    using sat_0 [OF sat] by (simp add: con_sat_val val_const)
  also have "\<dots> = (\<Sum>i<n. 2 ^ i * ?x i) mod ?p"
    unfolding rec [THEN spec]
  proof -
    have "(\<Sum>i<n. 2 ^ i * \<sigma> (em_next s + i)) mod ?p = (\<Sum>i<n. 2 ^ i * \<sigma> (em_next s + i) mod ?p) mod ?p"
      by (rule mod_sum_eq [symmetric])
    also have "\<dots> = (\<Sum>i<n. 2 ^ i * ?x i mod ?p) mod ?p" by (simp only: mod_mult_right_eq)
    also have "\<dots> = (\<Sum>i<n. 2 ^ i * ?x i) mod ?p" by (rule mod_sum_eq)
    finally have eq: "(\<Sum>i<n. 2 ^ i * \<sigma> (em_next s + i)) mod ?p = (\<Sum>i<n. 2 ^ i * ?x i) mod ?p" .
    have "y mod ?p * (1 mod ?p) mod ?p = y mod ?p" for y by (simp add: mod_mult_eq)
    then show "(\<Sum>i<n. 2 ^ i * \<sigma> (em_next s + i)) mod ?p * (1 mod ?p) mod ?p = (\<Sum>i<n. 2 ^ i * ?x i) mod ?p"
      using eq by simp
  qed
  also have "(\<Sum>i<n. 2 ^ i * ?x i) = horner_sum of_bool 2 (map ?Q [0..<n])" by (rule bits_sum) (rule bool)
  finally have "val s \<sigma> v = horner_sum of_bool 2 (map ?Q [0..<n])"
    using bits_sum_bound [where Q = ?Q and n = n] n by simp
  then show ?thesis using bits_sum_bound [where Q = ?Q and n = n] bool
    by (auto simp: st(1) bit_bits_sum)
qed

lemma num2bits_complete:
  assumes p: "is_prime (em_p s)" and ok: "wires_ok s" and v: "lc_in s v" and e: "emit_num2bits v n sp s = (bits, s')"
    and sat: "sat s \<sigma>" and V: "val s \<sigma> v < 2 ^ n"
  shows "\<exists>\<tau>. agree (em_next s) \<sigma> \<tau> \<and> sat s' \<tau>"
proof -
  let ?p = "em_p s" and ?m = "em_next s"
  have p1: "1 < ?p" using is_prime_gt1 [OF p] .
  obtain rec where st: "bits = [?m..<?m + n]" "grows s s'" 
    "em_cons s' = em_cons s @ map (bool_con sp) [?m..<?m + n] @
       [\<lparr>con_a = rec, con_b = lc_constant 1, con_c = v, con_span = Some sp\<rparr>]"
    and rec: "\<forall>\<sigma>. val s \<sigma> rec = (\<Sum>i<n. 2 ^ i * \<sigma> (?m + i)) mod ?p"
    by (rule num2bits_state [OF p ok v e]) (rule that; assumption)
  let ?t = "\<lambda>w. if ?m \<le> w \<and> w < ?m + n then of_bool (bit (val s \<sigma> v) (w - ?m)) else \<sigma> w"
  have ag: "agree ?m \<sigma> ?t" by (simp add: agree_def)
  have s: "sat s ?t" by (rule agree_sat [OF ok sat ag])
  have "con_sat ?p ?t (bool_con sp b)" if "b \<in> {?m..<?m + n}" for b
    using that by (auto simp: con_sat_def bool_con_def)
  moreover have "con_sat ?p ?t \<lparr>con_a = rec, con_b = lc_constant 1, con_c = v, con_span = Some sp\<rparr>"
  proof -
    have "(\<Sum>i<n. 2 ^ i * ?t (?m + i)) = horner_sum of_bool 2 (map (bit (val s \<sigma> v)) [0..<n])"
      by (rule bits_sum) simp
    also have "\<dots> = val s \<sigma> v" by (rule bits_of_value) (use V val_range [of s] p1 in simp_all)
    finally have "val s ?t rec = val s \<sigma> v mod ?p" using rec by simp
    then show ?thesis using agree_val [OF ag v] sat_0 [OF s] p1
      by (simp add: con_sat_val val_const) (simp add: val_def)
  qed
  ultimately have "sat s' ?t" using s st(2,3) by (auto simp: sat_def cons_sat_def grows_p)
  then show ?thesis using ag by blast
qed

section \<open>Emissions\<close>

text \<open>An emission keeps a circuit well formed, only adds to it, and leaves the bindings alone.\<close>

definition emits :: "em \<Rightarrow> em \<Rightarrow> bool" where
  "emits s s' \<longleftrightarrow> wires_ok s' \<and> grows s s' \<and> em_scopes s' = em_scopes s \<and> em_consts s' = em_consts s \<and> em_calls s' = em_calls s"

lemma emits_refl: "wires_ok s \<Longrightarrow> emits s s"
  by (simp add: emits_def)

lemma emits_trans: "emits s t \<Longrightarrow> emits t u \<Longrightarrow> emits s u"
  using grows_trans by (auto simp: emits_def)

lemma emitsD:
  assumes "emits s s'"
  shows "wires_ok s'" "grows s s'" "em_p s' = em_p s" "em_next s \<le> em_next s'"
  using assms by (simp_all add: emits_def grows_p grows_next)

lemma emits_in: "emits s s' \<Longrightarrow> lc_in s l \<Longrightarrow> lc_in s' l"
  by (auto simp: emits_def intro: grows_in)

lemma emits_val: "emits s s' \<Longrightarrow> val s' \<sigma> l = val s \<sigma> l"
  by (simp add: emits_def grows_val)

lemma emits_sat: "emits s s' \<Longrightarrow> sat s' \<sigma> \<Longrightarrow> sat s \<sigma>"
  using grows_sat by (auto simp: emits_def)

lemma emits_agree: "emits s s' \<Longrightarrow> agree (em_next s) \<sigma> \<tau> \<Longrightarrow> agree (em_next s') \<tau> \<rho> \<Longrightarrow> agree (em_next s) \<sigma> \<rho>"
  using agree_trans emitsD(4) by blast

lemma num2bits_emits:
  assumes "is_prime (em_p s)" "wires_ok s" "lc_in s v" "emit_num2bits v n sp s = (bits, s')"
  shows "emits s s'" "bits = [em_next s..<em_next s + n]" "em_next s' = em_next s + n"
  using num2bits_state [OF assms] by (auto simp: emits_def)

text \<open>A constraint over the wires at hand.\<close>

lemma constraint_emits:
  assumes "wires_ok s" "lc_in s a" "lc_in s b" "lc_in s c"
  shows "emits s (add_constraint \<lparr>con_a = a, con_b = b, con_c = c, con_span = sp\<rparr> s)"
proof -
  let ?s = "add_constraint \<lparr>con_a = a, con_b = b, con_c = c, con_span = sp\<rparr> s"
  have "wires_ok ?s \<and> grows s ?s"
    by (rule wires_ok_extend [OF assms(1), of _ "[\<lparr>con_a = a, con_b = b, con_c = c, con_span = sp\<rparr>]"])
       (use assms in \<open>simp_all add: lc_in_def\<close>)
  then show ?thesis by (simp add: emits_def)
qed

lemma constraint_sat:
  "sat (add_constraint \<lparr>con_a = a, con_b = b, con_c = c, con_span = sp\<rparr> s) \<sigma> \<longleftrightarrow>
     sat s \<sigma> \<and> val s \<sigma> a * val s \<sigma> b mod em_p s = val s \<sigma> c"
  by (auto simp: sat_def cons_sat_def con_sat_val)

text \<open>A fresh wire, with a recipe or without.\<close>

lemma fresh_emits:
  assumes "wires_ok s" "em_p s' = em_p s" "boundary_of s' = boundary_of s" "em_next s \<le> em_next s'" "em_cons s' = em_cons s"
    "em_scopes s' = em_scopes s" "em_consts s' = em_consts s" "em_calls s' = em_calls s"
  shows "emits s s'"
proof -
  have "wires_ok s' \<and> grows s s'" by (rule wires_ok_extend [OF assms(1-4), of "[]"]) (use assms(5) in simp_all)
  then show ?thesis using assms by (simp add: emits_def)
qed

lemma fresh_sat: "em_p s' = em_p s \<Longrightarrow> em_cons s' = em_cons s \<Longrightarrow> sat s' \<sigma> = sat s \<sigma>"
  by (simp add: sat_def)

section \<open>Comparison\<close>

lemma top_bit: "0 \<le> d \<Longrightarrow> d < 2 ^ (n + 1) \<Longrightarrow> bit (d :: int) n \<longleftrightarrow> 2 ^ n \<le> d"
proof -
  assume d: "0 \<le> d" "d < 2 ^ (n + 1)"
  have "d div 2 ^ n = (if 2 ^ n \<le> d then 1 else 0)"
  proof (cases "2 ^ n \<le> d")
    case True
    then have "d div 2 ^ n = 1 + (d - 2 ^ n) div 2 ^ n"
      using div_add_self2 [of "2 ^ n" "d - 2 ^ n"] by simp
    moreover have "(d - 2 ^ n) div 2 ^ n = 0" using d True by (intro div_pos_pos_trivial) simp_all
    ultimately show ?thesis using True by simp
  qed (use d in simp)
  then show ?thesis by (simp add: bit_iff_odd)
qed

lemma less_than_state:
  assumes p: "is_prime (em_p s)" and ok: "wires_ok s" and ab: "lc_in s a" "lc_in s b" and e: "emit_less_than a b n sp s = (out, s')"
  obtains bits1 s1 bits2 s2 diff bits where "emit_num2bits a n sp s = (bits1, s1)" "emit_num2bits b n sp s1 = (bits2, s2)"
    "emit_num2bits diff (n + 1) sp s2 = (bits, s')" "emits s s1" "emits s1 s2" "emits s2 s'" "lc_in s2 diff"
    "out = lc_add_term (em_p s) (lc_constant 1) (bits ! n) (fr_neg_one (em_p s))" "lc_in s' out" "length bits = n + 1"
    "\<forall>\<sigma>. \<sigma> 0 = 1 \<longrightarrow> val s \<sigma> diff = (val s \<sigma> a + 2 ^ n - val s \<sigma> b) mod em_p s"
proof -
  let ?p = "em_p s"
  have p0: "0 < ?p" "1 < ?p" using p is_prime_gt1 by auto
  obtain bits1 s1 where e1: "emit_num2bits a n sp s = (bits1, s1)" by force
  note n1 = num2bits_emits [OF p ok ab(1) e1]
  have p1: "em_p s1 = ?p" "is_prime (em_p s1)" using emitsD(3) [OF n1(1)] p by simp_all
  obtain bits2 s2 where e2: "emit_num2bits b n sp s1 = (bits2, s2)" by force
  note n2 = num2bits_emits [OF p1(2) emitsD(1) [OF n1(1)] emits_in [OF n1(1) ab(2)] e2]
  have em2: "emits s s2" using emits_trans n1(1) n2(1) .
  have p2: "em_p s2 = ?p" "is_prime (em_p s2)" using emitsD(3) [OF em2] p by simp_all
  define diff where "diff = lc_add_linear ?p (lc_add_constant a (fr_from_u64 ?p (2 ^ n))) b (fr_neg_one ?p)"
  have "lc_in s2 (lc_add_constant a (fr_from_u64 ?p (2 ^ n)))"
    using lc_in_add_constant [OF emits_in [OF em2 ab(1)]] wires_ok_0 [OF emitsD(1) [OF em2]] fr_from_u64_range [OF p0(1)] p2(1) by simp
  then have din: "lc_in s2 diff"
    using lc_in_add_linear [OF p2(2) _ emits_in [OF em2 ab(2)]] fr_neg_one_range [OF p0(1)] p2(1) by (simp add: diff_def)
  obtain bits where e3: "emit_num2bits diff (n + 1) sp s2 = (bits, s')" and out: "out = lc_add_term ?p (lc_constant 1) (bits ! n) (fr_neg_one ?p)"
    using e e1 e2 by (auto simp: emit_less_than_def diff_def Let_def split: prod.splits)
  note n3 = num2bits_emits [OF p2(2) emitsD(1) [OF n2(1)] din e3]
  have p3: "em_p s' = ?p" using emitsD(3) [OF n3(1)] p2(1) by simp
  have "lc_in s' (lc_constant 1)" using lc_in_const [of 1 s'] p0 p3 wires_ok_0 [OF emitsD(1) [OF n3(1)]] by simp
  then have "lc_in s' out" unfolding out
    using lc_in_add_term [of s' "lc_constant 1" "bits ! n" "fr_neg_one ?p"] n3(2,3) fr_neg_one_range [OF p0(1)] p3
    by (simp del: upt_Suc)
  moreover have "val s \<sigma> diff = (val s \<sigma> a + 2 ^ n - val s \<sigma> b) mod ?p" if "\<sigma> 0 = 1" for \<sigma>
    using that by (simp add: diff_def val_sub val_add_constant fr_from_u64_def mod_simps)
  ultimately show ?thesis
    using that [OF e1 e2 e3 n1(1) n2(1) n3(1) din out] n3(2) by simp
qed

lemma less_than_emits:
  assumes "is_prime (em_p s)" "wires_ok s" "lc_in s a" "lc_in s b" "emit_less_than a b n sp s = (out, s')"
  shows "emits s s'" "lc_in s' out"
  using less_than_state [OF assms] emits_trans by metis+

lemma less_than_sound:
  assumes p: "is_prime (em_p s)" and ok: "wires_ok s" and ab: "lc_in s a" "lc_in s b" and e: "emit_less_than a b n sp s = (out, s')"
    and n: "2 ^ (n + 1) \<le> em_p s" and sat: "sat s' \<sigma>"
  shows "val s \<sigma> a < 2 ^ n \<and> val s \<sigma> b < 2 ^ n \<and> val s \<sigma> out = of_bool (val s \<sigma> a < val s \<sigma> b)"
proof -
  let ?p = "em_p s"
  have p0: "0 < ?p" and p1: "1 < ?p" using p is_prime_gt1 by auto
  obtain bits1 s1 bits2 s2 diff bits where
    e123: "emit_num2bits a n sp s = (bits1, s1)" "emit_num2bits b n sp s1 = (bits2, s2)" "emit_num2bits diff (n + 1) sp s2 = (bits, s')"
    and em: "emits s s1" "emits s1 s2" "emits s2 s'" and din: "lc_in s2 diff"
    and out: "out = lc_add_term ?p (lc_constant 1) (bits ! n) (fr_neg_one ?p)"
    and dv: "\<forall>\<sigma>. \<sigma> 0 = 1 \<longrightarrow> val s \<sigma> diff = (val s \<sigma> a + 2 ^ n - val s \<sigma> b) mod ?p"
    by (rule less_than_state [OF p ok ab e]) (rule that; assumption)
  have ps: "em_p s1 = ?p" "em_p s2 = ?p" using emitsD(3) em by simp_all
  have s2: "sat s2 \<sigma>" and s1: "sat s1 \<sigma>" using emits_sat em sat by blast+
  have "(2 :: int) ^ n \<le> 2 ^ (n + 1)" by simp
  then have n': "2 ^ n \<le> ?p" using n by (rule order_trans)
  have A: "val s \<sigma> a < 2 ^ n" using num2bits_sound [OF p ok ab(1) e123(1) n' s1] by simp
  have B: "val s \<sigma> b < 2 ^ n"
    using num2bits_sound [OF _ emitsD(1) [OF em(1)] emits_in [OF em(1) ab(2)] e123(2) _ s2] ps p n' emits_val [OF em(1)] by simp
  let ?D = "val s \<sigma> a + 2 ^ n - val s \<sigma> b"
  have "0 \<le> val s \<sigma> a" "0 \<le> val s \<sigma> b" using val_range [OF p0] by blast+
  then have D: "0 \<le> ?D" "?D < 2 ^ (n + 1)" using A B by simp_all
  have vd: "val s \<sigma> diff = ?D" using dv sat_0 [OF sat] D n by simp
  have "\<sigma> (bits ! n) mod ?p = of_bool (bit (val s2 \<sigma> diff) n)"
    using num2bits_sound [OF _ emitsD(1) [OF em(2)] din e123(3) _ sat] ps p n by simp
  moreover have "val s2 \<sigma> diff = val s \<sigma> diff" using ps by (simp add: val_def)
  ultimately have "\<sigma> (bits ! n) mod ?p = of_bool (\<not> val s \<sigma> a < val s \<sigma> b)"
    using top_bit [OF D] unfolding vd by (simp add: not_less)
  then have "val s \<sigma> out = (1 - of_bool (\<not> val s \<sigma> a < val s \<sigma> b)) mod ?p"
    unfolding out val_add_term neg_one_mult using val_const [of \<sigma> s 1] sat_0 [OF sat]
    by (metis mod_diff_eq mod_mod_trivial)
  then show ?thesis using A B p1 by (simp add: of_bool_def split: if_splits)
qed

lemma less_than_complete:
  assumes p: "is_prime (em_p s)" and ok: "wires_ok s" and ab: "lc_in s a" "lc_in s b" and e: "emit_less_than a b n sp s = (out, s')"
    and n: "2 ^ (n + 1) \<le> em_p s" and sat: "sat s \<sigma>" and A: "val s \<sigma> a < 2 ^ n" and B: "val s \<sigma> b < 2 ^ n"
  shows "\<exists>\<tau>. agree (em_next s) \<sigma> \<tau> \<and> sat s' \<tau>"
proof -
  let ?p = "em_p s"
  have p0: "0 < ?p" using p by simp
  obtain bits1 s1 bits2 s2 diff bits where
    e123: "emit_num2bits a n sp s = (bits1, s1)" "emit_num2bits b n sp s1 = (bits2, s2)" "emit_num2bits diff (n + 1) sp s2 = (bits, s')"
    and em: "emits s s1" "emits s1 s2" "emits s2 s'" and din: "lc_in s2 diff"
    and dv: "\<forall>\<sigma>. \<sigma> 0 = 1 \<longrightarrow> val s \<sigma> diff = (val s \<sigma> a + 2 ^ n - val s \<sigma> b) mod ?p"
    by (rule less_than_state [OF p ok ab e]) (rule that; assumption)
  have ps: "em_p s1 = ?p" "em_p s2 = ?p" using emitsD(3) em by simp_all
  obtain \<tau>1 where t1: "agree (em_next s) \<sigma> \<tau>1" "sat s1 \<tau>1" using num2bits_complete [OF p ok ab(1) e123(1) sat A] by blast
  have "val s1 \<tau>1 b = val s \<sigma> b" using emits_val [OF em(1)] agree_val [OF t1(1) ab(2)] by simp
  then obtain \<tau>2 where t2: "agree (em_next s1) \<tau>1 \<tau>2" "sat s2 \<tau>2"
    using num2bits_complete [OF _ emitsD(1) [OF em(1)] emits_in [OF em(1) ab(2)] e123(2) t1(2)] B ps p by auto
  have ag: "agree (em_next s) \<sigma> \<tau>2" by (rule emits_agree [OF em(1) t1(1) t2(1)])
  have vab: "val s \<tau>2 a = val s \<sigma> a" "val s \<tau>2 b = val s \<sigma> b" using agree_val [OF ag] ab by simp_all
  have "0 \<le> val s \<sigma> a" "0 \<le> val s \<sigma> b" using val_range [OF p0] by blast+
  then have D: "0 \<le> val s \<sigma> a + 2 ^ n - val s \<sigma> b" "val s \<sigma> a + 2 ^ n - val s \<sigma> b < 2 ^ (n + 1)" using A B by simp_all
  have "val s \<tau>2 diff = val s \<sigma> a + 2 ^ n - val s \<sigma> b" using dv sat_0 [OF t2(2)] vab D n by simp
  then have "val s2 \<tau>2 diff < 2 ^ (n + 1)" using D ps by (simp add: val_def)
  then obtain \<tau> where "agree (em_next s2) \<tau>2 \<tau>" "sat s' \<tau>"
    using num2bits_complete [OF _ emitsD(1) [OF em(2)] din e123(3) t2(2)] ps p by auto
  then show ?thesis using emits_agree [OF emits_trans [OF em(1,2)] ag] by blast
qed

section \<open>Integer division\<close>

lemma constrain_true_emits:
  assumes "1 < em_p s" "wires_ok s" "lc_in s l"
  shows "emits s (constrain_true l sp s)" "sat (constrain_true l sp s) \<sigma> \<longleftrightarrow> sat s \<sigma> \<and> val s \<sigma> l = 1"
proof -
  have c: "lc_in s (lc_constant 1)" using lc_in_const assms wires_ok_0 by simp
  show "emits s (constrain_true l sp s)" unfolding constrain_true_def by (rule constraint_emits [OF assms(2,3) c c])
  have "val s \<sigma> (lc_constant 1) = 1" if "sat s \<sigma>" using that assms(1) by (simp add: val_const sat_0)
  then show "sat (constrain_true l sp s) \<sigma> \<longleftrightarrow> sat s \<sigma> \<and> val s \<sigma> l = 1"
    unfolding constrain_true_def constraint_sat using assms(1) val_small [of s \<sigma> l] by auto
qed

lemma constrain_boolean_emits:
  assumes "is_prime (em_p s)" "wires_ok s" "lc_in s l"
  shows "emits s (constrain_boolean l sp s)"
    "sat (constrain_boolean l sp s) \<sigma> \<longleftrightarrow> sat s \<sigma> \<and> val s \<sigma> l \<in> {0, 1}"
proof -
  show "emits s (constrain_boolean l sp s)" unfolding constrain_boolean_def by (rule constraint_emits [OF assms(2,3,3,3)])
  have "0 < em_p s" using assms(1) by simp
  note sm = val_small [OF this, of \<sigma> l]
  have "val s \<sigma> l \<in> {0, 1}" if "val s \<sigma> l * val s \<sigma> l mod em_p s = val s \<sigma> l"
    using boolean_value [OF assms(1), of "val s \<sigma> l"] that sm by (auto split: if_splits simp: of_bool_def)
  then show "sat (constrain_boolean l sp s) \<sigma> \<longleftrightarrow> sat s \<sigma> \<and> val s \<sigma> l \<in> {0, 1}"
    unfolding constrain_boolean_def constraint_sat using is_prime_gt1 [OF assms(1)] by auto
qed

text \<open>The quotient equation over the integers.\<close>

lemma quotient_unique:
  assumes b: "r < b" "0 \<le> r" "b < 2 ^ n" and q: "0 \<le> q" "q < 2 ^ n" and a: "0 \<le> a" "a < p"
    and p: "2 ^ (2 * n) \<le> (p :: int)" and eq: "q * b mod p = (a - r) mod p"
  shows "q = a div b" "r = a mod b"
proof -
  have "(q * b + r) mod p = (a - r + r) mod p" using eq by (intro mod_add_cong refl)
  moreover have "q * b + r < p"
  proof -
    have "q * b + r < (q + 1) * b" using b by (simp add: algebra_simps)
    also have "\<dots> \<le> 2 ^ n * 2 ^ n" using b q by (intro mult_mono) simp_all
    finally show ?thesis using p by (simp add: power_add [symmetric] mult_2)
  qed
  moreover have "0 \<le> q * b + r" using b q by simp
  ultimately have "a = q * b + r" using a by simp
  then show "q = a div b" "r = a mod b" using b by (simp_all add: mult.commute)
qed

lemma int_div_mod_state:
  assumes p: "is_prime (em_p s)" and ok: "wires_ok s" and ab: "lc_in s a" "lc_in s b"
    and e: "emit_int_div_mod a b n sp s = ((ql, rl), s')"
  obtains s3 bits s4 rhs s5 lt s6 where "ql = lc_variable (em_next s)" "rl = lc_variable (em_next s + 1)"
    "emits s s3" "em_cons s3 = em_cons s" "em_next s3 = em_next s + 2" "emit_num2bits ql n sp s3 = (bits, s4)" "emits s3 s4"
    "s5 = add_constraint \<lparr>con_a = ql, con_b = b, con_c = rhs, con_span = Some sp\<rparr> s4" "emits s4 s5"
    "emit_less_than rl b n sp s5 = (lt, s6)" "emits s5 s6" "s' = constrain_true lt sp s6" "emits s6 s'"
    "lc_in s3 ql" "lc_in s3 rl" "lc_in s6 lt"
    "\<forall>\<sigma>. val s \<sigma> rhs = (val s \<sigma> a - val s \<sigma> rl) mod em_p s"
proof -
  let ?p = "em_p s"
  have p0: "0 < ?p" "1 < ?p" using p is_prime_gt1 by auto
  define s3 where "s3 = set_witness_recipe (em_next s + 1) (IntModLc a b) (set_witness_recipe (em_next s) (IntDivLc a b)
      (snd (new_wire ''intdiv_r'' (snd (new_wire ''intdiv_q'' s)))))"
  have s3: "em_p s3 = ?p" "boundary_of s3 = boundary_of s" "em_next s3 = em_next s + 2" "em_cons s3 = em_cons s"
    "em_scopes s3 = em_scopes s" "em_consts s3 = em_consts s" "em_calls s3 = em_calls s"
    by (simp_all add: s3_def new_wire_eq)
  have m3: "emits s s3" by (rule fresh_emits [OF ok]) (use s3 in simp_all)
  note ok3 = emitsD(1) [OF m3]
  have qr: "ql = lc_variable (em_next s)" "rl = lc_variable (em_next s + 1)"
    using e by (auto simp: emit_int_div_mod_def new_wire_eq Let_def split: prod.splits)
  have in3: "lc_in s3 ql" "lc_in s3 rl" using lc_in_var [of s3] s3 p0 by (simp_all add: qr)
  obtain bits s4 where e4: "emit_num2bits ql n sp s3 = (bits, s4)" by force
  have p3: "is_prime (em_p s3)" using p s3(1) by simp
  note n4 = num2bits_emits [OF p3 ok3 in3(1) e4]
  have m4: "emits s s4" using emits_trans m3 n4(1) .
  define rhs where "rhs = lc_simplify ?p (lc_add_linear ?p a rl (fr_neg_one ?p))"
  define s5 where "s5 = add_constraint \<lparr>con_a = ql, con_b = b, con_c = rhs, con_span = Some sp\<rparr> s4"
  have p4: "em_p s4 = ?p" "is_prime (em_p s4)" using emitsD(3) [OF m4] p by simp_all
  have rin: "lc_in s4 rhs"
    using lc_in_simplify [of s4] lc_in_add_linear [OF p4(2) emits_in [OF m4 ab(1)] emits_in [OF n4(1) in3(2)]]
      fr_neg_one_range [OF p0(1)] p4 p0 by (simp add: rhs_def)
  have m45: "emits s4 s5" unfolding s5_def
    by (rule constraint_emits [OF emitsD(1) [OF m4] emits_in [OF n4(1) in3(1)] emits_in [OF m4 ab(2)] rin])
  have m5: "emits s s5" using emits_trans m4 m45 .
  have p5: "em_p s5 = ?p" "is_prime (em_p s5)" using emitsD(3) [OF m5] p by simp_all
  obtain lt s6 where e6: "emit_less_than rl b n sp s5 = (lt, s6)" by force
  have rin5: "lc_in s5 rl" using emits_in [OF emits_trans [OF n4(1) m45] in3(2)] .
  note n6 = less_than_emits [OF p5(2) emitsD(1) [OF m5] rin5 emits_in [OF m5 ab(2)] e6]
  have p6: "1 < em_p s6" using emitsD(3) [OF n6(1)] p5(1) p0 by simp
  note m67 = constrain_true_emits(1) [OF p6 emitsD(1) [OF n6(1)] n6(2)]
  have "s' = constrain_true lt sp s6"
    using e e4 e6 unfolding s3_def s5_def rhs_def qr
    by (simp add: emit_int_div_mod_def new_wire_eq Let_def)
  moreover have "val s \<sigma> rhs = (val s \<sigma> a - val s \<sigma> rl) mod ?p" for \<sigma>
    by (simp add: rhs_def val_simplify val_sub)
  ultimately show ?thesis
    using that [OF qr m3 s3(4,3) e4 n4(1) s5_def m45 e6 n6(1) _ _ in3 n6(2)] m67 by blast
qed

lemma int_div_mod_emits:
  assumes "is_prime (em_p s)" "wires_ok s" "lc_in s a" "lc_in s b" "emit_int_div_mod a b n sp s = ((ql, rl), s')"
  shows "emits s s'" "lc_in s' ql" "lc_in s' rl"
proof -
  have "emits s s' \<and> lc_in s' ql \<and> lc_in s' rl"
    by (rule int_div_mod_state [OF assms]) (meson emits_trans emits_in)
  then show "emits s s'" "lc_in s' ql" "lc_in s' rl" by blast+
qed

lemma int_div_mod_sound:
  assumes p: "is_prime (em_p s)" and ok: "wires_ok s" and ab: "lc_in s a" "lc_in s b"
    and e: "emit_int_div_mod a b n sp s = ((ql, rl), s')" and n: "2 ^ (2 * n) \<le> em_p s" "0 < n" and sat: "sat s' \<sigma>"
  shows "0 < val s \<sigma> b \<and> val s \<sigma> b < 2 ^ n \<and> val s \<sigma> ql = val s \<sigma> a div val s \<sigma> b \<and> val s \<sigma> rl = val s \<sigma> a mod val s \<sigma> b \<and>
    val s \<sigma> ql < 2 ^ n"
proof -
  let ?p = "em_p s"
  have p0: "0 < ?p" "1 < ?p" using p is_prime_gt1 by auto
  obtain s3 bits s4 rhs s5 lt s6 where st: "ql = lc_variable (em_next s)" "rl = lc_variable (em_next s + 1)"
    "emits s s3" "em_cons s3 = em_cons s" "emit_num2bits ql n sp s3 = (bits, s4)" "emits s3 s4"
    "s5 = add_constraint \<lparr>con_a = ql, con_b = b, con_c = rhs, con_span = Some sp\<rparr> s4" "emits s4 s5"
    "emit_less_than rl b n sp s5 = (lt, s6)" "emits s5 s6" "s' = constrain_true lt sp s6"
    "lc_in s3 ql" "lc_in s3 rl" "lc_in s6 lt"
    "\<forall>\<sigma>. val s \<sigma> rhs = (val s \<sigma> a - val s \<sigma> rl) mod ?p"
    by (rule int_div_mod_state [OF p ok ab e]) (rule that; assumption)
  have ps: "em_p s3 = ?p" "em_p s4 = ?p" "em_p s5 = ?p" "em_p s6 = ?p" using emitsD(3) st(3,6,8,10) by simp_all
  have vs: "val t \<sigma> l = val s \<sigma> l" if "t \<in> {s3, s4, s5, s6}" for t l using that ps by (auto simp: val_def)
  have s6: "sat s6 \<sigma>" and lt: "val s6 \<sigma> lt = 1"
    using sat constrain_true_emits(2) [of s6 lt sp \<sigma>] emitsD(1) [OF st(10)] st(14) p0 ps by (simp_all add: st(11))
  have s5: "sat s5 \<sigma>" and s4: "sat s4 \<sigma>" using emits_sat [OF st(10) s6] emits_sat [OF st(8)] by blast+
  have n1: "2 ^ n \<le> ?p" "2 ^ (n + 1) \<le> ?p"
  proof -
    have "(2 :: int) ^ n \<le> 2 ^ (2 * n)" "(2 :: int) ^ (n + 1) \<le> 2 ^ (2 * n)" using n(2) by (intro power_increasing; simp)+
    then show "2 ^ n \<le> ?p" "2 ^ (n + 1) \<le> ?p" using n(1) by (blast intro: order_trans)+
  qed
  have q: "val s \<sigma> ql < 2 ^ n"
    using num2bits_sound [OF _ emitsD(1) [OF st(3)] st(12) st(5) _ s4] n1 ps p vs by simp
  have eq: "val s \<sigma> ql * val s \<sigma> b mod ?p = (val s \<sigma> a - val s \<sigma> rl) mod ?p"
    using s5 st(15) vs ps by (simp add: st(7) constraint_sat)
  have m5: "emits s s5" using emits_trans st(3,6,8) by blast
  have r: "lc_in s5 rl" using emits_in [OF emits_trans [OF st(6,8)] st(13)] .
  have "val s5 \<sigma> rl < 2 ^ n \<and> val s5 \<sigma> b < 2 ^ n \<and> val s5 \<sigma> lt = of_bool (val s5 \<sigma> rl < val s5 \<sigma> b)"
    by (rule less_than_sound [OF _ emitsD(1) [OF m5] r emits_in [OF m5 ab(2)] st(9) _ s6]) (use ps p n1 in simp_all)
  then have rb: "val s \<sigma> b < 2 ^ n" "val s \<sigma> rl < val s \<sigma> b" using lt vs by (simp_all add: of_bool_def split: if_splits)
  have nn: "0 \<le> val s \<sigma> l" "val s \<sigma> l < ?p" for l using val_range [OF p0(1)] by blast+
  note quotient_unique [OF rb(2) nn(1) rb(1) nn(1) q nn n(1) eq]
  then show ?thesis using rb q nn(1) [of rl] by simp
qed

lemma int_div_mod_complete:
  assumes p: "is_prime (em_p s)" and ok: "wires_ok s" and ab: "lc_in s a" "lc_in s b"
    and e: "emit_int_div_mod a b n sp s = ((ql, rl), s')" and n: "2 ^ (n + 1) \<le> em_p s" and sat: "sat s \<sigma>"
    and B: "0 < val s \<sigma> b" "val s \<sigma> b < 2 ^ n" and Q: "val s \<sigma> a div val s \<sigma> b < 2 ^ n"
  shows "\<exists>\<tau>. agree (em_next s) \<sigma> \<tau> \<and> sat s' \<tau>"
proof -
  let ?p = "em_p s" and ?m = "em_next s" and ?A = "val s \<sigma> a" and ?B = "val s \<sigma> b"
  have p0: "0 < ?p" "1 < ?p" using p is_prime_gt1 by auto
  obtain s3 bits s4 rhs s5 lt s6 where st: "ql = lc_variable ?m" "rl = lc_variable (?m + 1)"
    "emits s s3" "em_cons s3 = em_cons s" "em_next s3 = ?m + 2" "emit_num2bits ql n sp s3 = (bits, s4)" "emits s3 s4"
    "s5 = add_constraint \<lparr>con_a = ql, con_b = b, con_c = rhs, con_span = Some sp\<rparr> s4" "emits s4 s5"
    "emit_less_than rl b n sp s5 = (lt, s6)" "emits s5 s6" "s' = constrain_true lt sp s6"
    "lc_in s3 ql" "lc_in s3 rl" "lc_in s6 lt"
    "\<forall>\<sigma>. val s \<sigma> rhs = (val s \<sigma> a - val s \<sigma> rl) mod ?p"
    by (rule int_div_mod_state [OF p ok ab e]) (rule that; assumption)
  have ps: "em_p s3 = ?p" "em_p s4 = ?p" "em_p s5 = ?p" "em_p s6 = ?p" using emitsD(3) st(3,7,9,11) by simp_all
  have vs: "val t \<rho> l = val s \<rho> l" if "t \<in> {s3, s4, s5, s6}" for t \<rho> l using that ps by (auto simp: val_def)
  have m5: "emits s s5" using emits_trans st(3,7,9) by blast
  have nn: "0 \<le> val s \<rho> l" "val s \<rho> l < ?p" for \<rho> l using val_range [OF p0(1)] by blast+
  define \<tau>0 where "\<tau>0 = \<sigma>(?m := ?A div ?B, ?m + 1 := ?A mod ?B)"
  have ag0: "agree ?m \<sigma> \<tau>0" by (simp add: agree_def \<tau>0_def)
  have sat3: "sat s3 \<tau>0" using agree_sat [OF ok sat ag0] fresh_sat [OF ps(1) st(4)] by simp
  have small: "0 \<le> ?A div ?B" "?A div ?B < ?p" "0 \<le> ?A mod ?B" "?A mod ?B < ?p"
  proof -
    have "?A mod ?B < ?B" using B(1) by (rule pos_mod_bound)
    then show "?A mod ?B < ?p" using nn(2) [of \<sigma> b] by simp
    have "(2 :: int) ^ n \<le> 2 ^ (n + 1)" by simp
    then show "?A div ?B < ?p" using Q n by linarith
    show "0 \<le> ?A div ?B" "0 \<le> ?A mod ?B" using B(1) nn(1) [of \<sigma> a] by (simp_all add: pos_imp_zdiv_nonneg_iff)
  qed
  have q0: "val s \<tau>0 ql = ?A div ?B" "val s \<tau>0 rl = ?A mod ?B" using small by (simp_all add: st(1,2) val_var \<tau>0_def)
  obtain \<tau>1 where t1: "agree (?m + 2) \<tau>0 \<tau>1" "sat s4 \<tau>1"
    using num2bits_complete [OF _ emitsD(1) [OF st(3)] st(13) st(6) sat3] Q q0(1) ps p vs st(5) by auto
  have ag1: "agree ?m \<sigma> \<tau>1" using ag0 t1(1) by (simp add: agree_def)
  have "agree (em_next s3) \<tau>0 \<tau>1" using t1(1) st(5) by simp
  then have q1: "val s \<tau>1 ql = ?A div ?B" "val s \<tau>1 rl = ?A mod ?B"
    using agree_val [of s3 \<tau>0 \<tau>1] st(13,14) q0 vs by simp_all
  have ab1: "val s \<tau>1 a = ?A" "val s \<tau>1 b = ?B" using agree_val [OF ag1] ab by simp_all
  have "?A div ?B * ?B mod ?p = (?A - ?A mod ?B) mod ?p" by (simp add: minus_mod_eq_div_mult)
  then have sat5: "sat s5 \<tau>1" unfolding st(8) constraint_sat using t1(2) q1 ab1 st(16) ps vs by simp
  have r: "lc_in s5 rl" using emits_in [OF emits_trans [OF st(7,9)] st(14)] .
  have rb: "val s5 \<tau>1 rl < 2 ^ n" "val s5 \<tau>1 b < 2 ^ n"
    using vs q1 ab1 order.strict_trans [OF pos_mod_bound [OF B(1), of ?A] B(2)] B(2) by simp_all
  obtain \<tau> where t: "agree (em_next s5) \<tau>1 \<tau>" "sat s6 \<tau>"
    using less_than_complete [OF _ emitsD(1) [OF m5] r emits_in [OF m5 ab(2)] st(10) _ sat5 rb] ps p n by auto
  have "val s5 \<tau> rl = ?A mod ?B" "val s5 \<tau> b = ?B"
    using agree_val [OF t(1)] r emits_in [OF m5 ab(2)] vs q1 ab1 by simp_all
  moreover have "val s5 \<tau> lt = of_bool (val s5 \<tau> rl < val s5 \<tau> b)"
    using less_than_sound [OF _ emitsD(1) [OF m5] r emits_in [OF m5 ab(2)] st(10) _ t(2)] ps p n by simp
  ultimately have "val s6 \<tau> lt = 1" using vs pos_mod_bound [OF B(1), of ?A] by simp
  then have "sat s' \<tau>"
    using t(2) constrain_true_emits(2) [of s6 lt sp \<tau>] emitsD(1) [OF st(11)] st(15) p0 ps by (simp add: st(12))
  moreover have "agree ?m \<sigma> \<tau>" using emits_agree [OF m5 ag1 t(1)] .
  ultimately show ?thesis by blast
qed

end
