(* ===== verification/ZkGadgetOps.thy ===== *)
theory ZkGadgetOps
  imports ZkGadgets
begin

text \<open>
  Correctness of the remaining gadgets of \<^verbatim>\<open>src/zk_emitter.rs\<close>: products, bitwise operators,
  shifts, equality, multiplexers, the sequencing of predicated returns, and the S-box.
\<close>

section \<open>Products\<close>

lemma mul_lc_eq:
  "emit_mul_lc a b name s = (lc_variable (em_next s),
     s\<lparr>em_next := em_next s + 1, em_vars := em_vars s @ [name @ ''_'' @ nat_dec (em_next s)],
       em_cons := em_cons s @ [\<lparr>con_a = a, con_b = b, con_c = lc_variable (em_next s), con_span = None\<rparr>]\<rparr>)"
  by (simp add: emit_mul_lc_def new_wire_eq)

text \<open>A constraint whose \<open>C\<close> side mentions a fresh wire: what a push on top of a new wire gives.\<close>

lemma fresh_constraint_emits:
  assumes ok: "wires_ok s" and s': "em_p s' = em_p s" "boundary_of s' = boundary_of s" "em_next s' = em_next s + 1"
      "em_cons s' = em_cons s @ [c]" "em_scopes s' = em_scopes s" "em_consts s' = em_consts s" "em_calls s' = em_calls s"
    and c: "lc_in s' (con_a c)" "lc_in s' (con_b c)" "lc_in s' (con_c c)"
  shows "emits s s'"
proof -
  have "wires_ok s' \<and> grows s s'" by (rule wires_ok_extend [OF ok s'(1,2) _ s'(4)]) (use s'(3) c in auto)
  then show ?thesis using s' by (simp add: emits_def)
qed

lemma lc_in_grow: "lc_in s l \<Longrightarrow> em_p s' = em_p s \<Longrightarrow> em_next s \<le> em_next s' \<Longrightarrow> lc_in s' l"
  by (auto simp: lc_in_def)

lemma mul_lc_emits:
  assumes p: "is_prime (em_p s)" and ok: "wires_ok s" and ab: "lc_in s a" "lc_in s b" and e: "emit_mul_lc a b name s = (out, s')"
  shows "emits s s'" "lc_in s' out" "out = lc_variable (em_next s)" "em_next s' = em_next s + 1"
    "sat s' \<sigma> \<longleftrightarrow> sat s \<sigma> \<and> val s \<sigma> out = val s \<sigma> a * val s \<sigma> b mod em_p s"
proof -
  have s': "em_p s' = em_p s" "boundary_of s' = boundary_of s" "em_next s' = em_next s + 1"
    "em_cons s' = em_cons s @ [\<lparr>con_a = a, con_b = b, con_c = lc_variable (em_next s), con_span = None\<rparr>]"
    "em_scopes s' = em_scopes s" "em_consts s' = em_consts s" "em_calls s' = em_calls s"
    and out: "out = lc_variable (em_next s)"
    using e by (auto simp: mul_lc_eq boundary_of_def)
  have o: "lc_in s' out" using lc_in_var [of s'] is_prime_gt1 [OF p] s'(1,3) by (simp add: out)
  show "emits s s'"
    by (rule fresh_constraint_emits [OF ok s']) (use ab lc_in_grow [of s _ s'] s'(1,3) o out in simp_all)
  show "lc_in s' out" "out = lc_variable (em_next s)" "em_next s' = em_next s + 1" by (fact o, fact out, fact s'(3))
  show "sat s' \<sigma> \<longleftrightarrow> sat s \<sigma> \<and> val s \<sigma> out = val s \<sigma> a * val s \<sigma> b mod em_p s"
    using con_sat_val [of s \<sigma> "\<lparr>con_a = a, con_b = b, con_c = lc_variable (em_next s), con_span = None\<rparr>"]
    by (auto simp: sat_def cons_sat_def s'(1,4) out)
qed

lemma mul_lc_complete:
  assumes p: "is_prime (em_p s)" and ok: "wires_ok s" and ab: "lc_in s a" "lc_in s b" and e: "emit_mul_lc a b name s = (out, s')"
    and sat: "sat s \<sigma>"
  shows "\<exists>\<tau>. agree (em_next s) \<sigma> \<tau> \<and> sat s' \<tau>"
proof -
  note m = mul_lc_emits [OF p ok ab e]
  let ?t = "\<sigma>(em_next s := val s \<sigma> a * val s \<sigma> b)"
  have ag: "agree (em_next s) \<sigma> ?t" by (simp add: agree_def)
  have "val s ?t out = val s ?t a * val s ?t b mod em_p s"
    using agree_val [OF ag] ab by (simp add: m(3) val_var)
  then show ?thesis using agree_sat [OF ok sat ag] ag m(5) by blast
qed

section \<open>Bitwise operators\<close>

definition bool_op :: "binary_op \<Rightarrow> bool \<Rightarrow> bool \<Rightarrow> bool" where
  "bool_op op x y = (case op of BitAnd \<Rightarrow> x \<and> y | BitOr \<Rightarrow> x \<or> y | _ \<Rightarrow> x \<noteq> y)"

definition int_bitop :: "binary_op \<Rightarrow> int \<Rightarrow> int \<Rightarrow> int" where
  "int_bitop op a b = (case op of BitAnd \<Rightarrow> and a b | BitOr \<Rightarrow> or a b | _ \<Rightarrow> xor a b)"

lemma bit_int_bitop: "op \<in> {BitAnd, BitOr, BitXor} \<Longrightarrow> bit (int_bitop op a b) i = bool_op op (bit a i) (bit b i)"
  by (auto simp: int_bitop_def bool_op_def bit_and_iff bit_or_iff bit_xor_iff)

lemma int_bitop_range:
  assumes "op \<in> {BitAnd, BitOr, BitXor}" "0 \<le> a" "0 \<le> b" "a < 2 ^ n" "b < 2 ^ n"
  shows "0 \<le> int_bitop op a b" "int_bitop op a b < 2 ^ n"
proof -
  show "0 \<le> int_bitop op a b" using assms(1-3) by (auto simp: int_bitop_def)
  have "take_bit n a = a" "take_bit n b = b" using assms by (simp_all add: take_bit_int_eq_self)
  then have "take_bit n (int_bitop op a b) = int_bitop op a b"
    using assms(1) by (auto simp: int_bitop_def)
  then show "int_bitop op a b < 2 ^ n" by (metis take_bit_int_less_exp)
qed

lemma bitwise_bit_val:
  assumes p: "is_prime (em_p s)" and op: "bitwise_bit (em_p s) op ai bi andl = Some t"
    and x: "val s \<sigma> ai = of_bool x" "val s \<sigma> bi = of_bool y" "val s \<sigma> andl = of_bool (x \<and> y)"
  shows "op \<in> {BitAnd, BitOr, BitXor}" "val s \<sigma> t = of_bool (bool_op op x y)"
proof -
  have p1: "1 < em_p s" using is_prime_gt1 [OF p] .
  have two: "(u + (fr_from_u64 (em_p s) 0 - fr_from_u64 (em_p s) 2) mod em_p s * v) mod em_p s = (u - 2 * v) mod em_p s" for u v
  proof -
    have "(0 - 2 mod em_p s) mod em_p s mod em_p s = - 2 mod em_p s" by (simp add: mod_minus_eq)
    then have "(u + (0 - 2 mod em_p s) mod em_p s * v) mod em_p s = (u + - 2 * v) mod em_p s"
      by (intro mod_add_cong mod_mult_cong refl)
    then show ?thesis by (simp add: fr_from_u64_def)
  qed
  show "op \<in> {BitAnd, BitOr, BitXor}" using op by (auto simp: bitwise_bit_def split: binary_op.splits)
  consider "op = BitAnd" "t = andl" | "op = BitOr" "t = lc_add_linear (em_p s) (lc_add_linear (em_p s) ai bi 1) andl (fr_neg_one (em_p s))"
    | "op = BitXor" "t = lc_add_linear (em_p s) (lc_add_linear (em_p s) ai bi 1) andl ((fr_from_u64 (em_p s) 0 - fr_from_u64 (em_p s) 2) mod em_p s)"
    using op by (auto simp: bitwise_bit_def split: binary_op.splits)
  then show "val s \<sigma> t = of_bool (bool_op op x y)"
  proof cases
    case 1
    then show ?thesis using x by (simp add: bool_op_def)
  next
    case 2
    then show ?thesis using p1 by (cases x; cases y) (simp_all add: val_sub val_add x bool_op_def mod_simps)
  next
    case 3
    then have "val s \<sigma> t = ((of_bool x + of_bool y) mod em_p s - 2 * of_bool (x \<and> y)) mod em_p s"
      by (simp only: val_add_linear two val_add x mult_1)
    also have "\<dots> = (of_bool x + of_bool y - 2 * of_bool (x \<and> y)) mod em_p s" by (rule mod_diff_left_eq)
    finally show ?thesis using p1 3 by (cases x; cases y) (simp_all add: bool_op_def)
  qed
qed

lemma bitwise_bit_in:
  assumes p: "is_prime (em_p s)" and op: "bitwise_bit (em_p s) op ai bi andl = Some t"
    and ins: "lc_in s ai" "lc_in s bi" "lc_in s andl"
  shows "lc_in s t"
proof -
  have p0: "0 < em_p s" "1 < em_p s" using p is_prime_gt1 by auto
  show ?thesis using op ins p0 fr_neg_one_range [OF p0(1)]
    by (auto simp: bitwise_bit_def lc_in_add_linear [OF p] split: binary_op.splits)
qed

lemma bitwise_loop_emits:
  "is_prime (em_p s) \<Longrightarrow> wires_ok s \<Longrightarrow> lc_in s out \<Longrightarrow> 0 \<le> coeff \<Longrightarrow> coeff < em_p s \<Longrightarrow>
   \<forall>(a, b)\<in>set bs. a < em_next s \<and> b < em_next s \<Longrightarrow> bitwise_loop op bs out coeff s = Some (r, s') \<Longrightarrow>
   emits s s' \<and> lc_in s' r \<and> (sat s \<sigma> \<longrightarrow> (\<exists>\<tau>. agree (em_next s) \<sigma> \<tau> \<and> sat s' \<tau>))"
proof (induction bs arbitrary: out coeff s \<sigma>)
  case Nil
  then show ?case by (auto simp: emits_refl intro: exI [of _ \<sigma>])
next
  case (Cons ab bs)
  let ?p = "em_p s"
  note p = Cons.prems(1) and ok = Cons.prems(2)
  have p0: "0 < ?p" "1 < ?p" using p is_prime_gt1 by auto
  obtain a b where ab: "ab = (a, b)" by force
  obtain andl s1 where e: "emit_mul_lc (lc_variable a) (lc_variable b) ''bitop_and'' s = (andl, s1)" by force
  have vars: "lc_in s (lc_variable a)" "lc_in s (lc_variable b)" using Cons.prems(6) p0 by (auto simp: ab intro: lc_in_var)
  note m = mul_lc_emits [OF p ok vars e]
  have p1: "em_p s1 = ?p" "is_prime (em_p s1)" using emitsD(3) [OF m(1)] p by simp_all
  obtain t where t: "bitwise_bit ?p op (lc_variable a) (lc_variable b) andl = Some t"
    and rest: "bitwise_loop op bs (lc_add_linear ?p out (lc_simplify ?p t) coeff) (coeff * fr_from_u64 ?p 2 mod ?p) s1 = Some (r, s')"
    using Cons.prems(7) e by (auto simp: ab Let_def split: option.splits)
  have tin: "lc_in s1 t" using bitwise_bit_in [OF p1(2) _ emits_in [OF m(1) vars(1)] emits_in [OF m(1) vars(2)] m(2)] t p1(1) by simp
  have oin: "lc_in s1 (lc_add_linear ?p out (lc_simplify ?p t) coeff)"
    using lc_in_add_linear [OF p1(2) emits_in [OF m(1) Cons.prems(3)] lc_in_simplify [OF _ tin]] Cons.prems(4,5) p0 p1(1) by simp
  have bs: "\<forall>(a, b)\<in>set bs. a < em_next s1 \<and> b < em_next s1" using Cons.prems(6) m(4) by fastforce
  have "0 \<le> coeff * fr_from_u64 ?p 2 mod ?p" "coeff * fr_from_u64 ?p 2 mod ?p < em_p s1" using p0 p1 by simp_all
  note IH = Cons.IH [OF p1(2) emitsD(1) [OF m(1)] oin this bs rest]
  have "emits s s'" using emits_trans [OF m(1)] IH by blast
  moreover have "\<exists>\<tau>. agree (em_next s) \<sigma> \<tau> \<and> sat s' \<tau>" if sat: "sat s \<sigma>"
  proof -
    obtain \<tau>1 where t1: "agree (em_next s) \<sigma> \<tau>1" "sat s1 \<tau>1" using mul_lc_complete [OF p ok vars e sat] by blast
    then obtain \<tau> where "agree (em_next s1) \<tau>1 \<tau>" "sat s' \<tau>" using IH by blast
    then show ?thesis using emits_agree [OF m(1) t1(1)] by blast
  qed
  ultimately show ?case using IH by blast
qed

definition bitop_term :: "binary_op \<Rightarrow> (nat \<Rightarrow> bool) \<Rightarrow> (nat \<Rightarrow> bool) \<Rightarrow> nat \<Rightarrow> int" where
  "bitop_term op X Y i = 2 ^ i * of_bool (bool_op op (X i) (Y i))"

lemma bitwise_loop_val:
  "is_prime (em_p s) \<Longrightarrow> wires_ok s \<Longrightarrow> lc_in s out \<Longrightarrow> coeff = 2 ^ k mod em_p s \<Longrightarrow>
   \<forall>(a, b)\<in>set bs. a < em_next s \<and> b < em_next s \<Longrightarrow> bitwise_loop op bs out coeff s = Some (r, s') \<Longrightarrow> sat s' \<sigma> \<Longrightarrow>
   \<forall>i < length bs. \<sigma> (fst (bs ! i)) mod em_p s = of_bool (X (k + i)) \<and> \<sigma> (snd (bs ! i)) mod em_p s = of_bool (Y (k + i)) \<Longrightarrow>
   val s \<sigma> r = (val s \<sigma> out + (\<Sum>i<length bs. bitop_term op X Y (k + i))) mod em_p s \<and>
   (bs \<noteq> [] \<longrightarrow> op \<in> {BitAnd, BitOr, BitXor})"
proof (induction bs arbitrary: out coeff s k)
  case Nil
  then have "0 < em_p s" by simp
  then show ?case using Nil by (simp add: val_small)
next
  case (Cons ab bs)
  let ?p = "em_p s"
  note p = Cons.prems(1) and ok = Cons.prems(2) and coeff = Cons.prems(4)
  have p0: "0 < ?p" "1 < ?p" using p is_prime_gt1 by auto
  obtain a b where ab: "ab = (a, b)" by force
  obtain andl s1 where e: "emit_mul_lc (lc_variable a) (lc_variable b) ''bitop_and'' s = (andl, s1)" by force
  have vars: "lc_in s (lc_variable a)" "lc_in s (lc_variable b)" using Cons.prems(5) p0 by (auto simp: ab intro: lc_in_var)
  note m = mul_lc_emits [OF p ok vars e]
  have p1: "em_p s1 = ?p" "is_prime (em_p s1)" using emitsD(3) [OF m(1)] p by simp_all
  obtain t where t: "bitwise_bit ?p op (lc_variable a) (lc_variable b) andl = Some t"
    and rest: "bitwise_loop op bs (lc_add_linear ?p out (lc_simplify ?p t) coeff) (coeff * fr_from_u64 ?p 2 mod ?p) s1 = Some (r, s')"
    using Cons.prems(6) e by (auto simp: ab Let_def split: option.splits)
  have tin: "lc_in s1 t" using bitwise_bit_in [OF p1(2) _ emits_in [OF m(1) vars(1)] emits_in [OF m(1) vars(2)] m(2)] t p1(1) by simp
  have c: "0 \<le> coeff" "coeff < em_p s1" using p0 p1 coeff by simp_all
  have oin: "lc_in s1 (lc_add_linear ?p out (lc_simplify ?p t) coeff)"
    using lc_in_add_linear [OF p1(2) emits_in [OF m(1) Cons.prems(3)] lc_in_simplify [OF _ tin] c] p0 p1(1) by simp
  have bs: "\<forall>(a, b)\<in>set bs. a < em_next s1 \<and> b < em_next s1" using Cons.prems(5) m(4) by fastforce
  have c2: "coeff * fr_from_u64 ?p 2 mod ?p = 2 ^ Suc k mod em_p s1"
    using p1(1) by (simp add: coeff fr_from_u64_def mod_mult_eq mult.commute)
  have c3: "0 \<le> coeff * fr_from_u64 ?p 2 mod ?p" "coeff * fr_from_u64 ?p 2 mod ?p < em_p s1" using p0 p1 by simp_all
  have "emits s1 s'" using bitwise_loop_emits [OF p1(2) emitsD(1) [OF m(1)] oin c3 bs rest] by blast
  then have s1: "sat s1 \<sigma>" using emits_sat Cons.prems(7) by blast
  have xy: "\<sigma> a mod ?p = of_bool (X k)" "\<sigma> b mod ?p = of_bool (Y k)" using Cons.prems(8) by (force simp: ab)+
  then have "val s \<sigma> andl = of_bool (X k \<and> Y k)" using m(5) s1 p0(2) by (auto simp: val_var)
  note tv = bitwise_bit_val [OF p t, of \<sigma> "X k" "Y k", unfolded val_var, OF xy this]
  have vals: "val s1 \<sigma> l = val s \<sigma> l" for l using p1(1) by (simp add: val_def)
  have rec: "\<forall>i < length bs. \<sigma> (fst (bs ! i)) mod em_p s1 = of_bool (X (Suc k + i)) \<and> \<sigma> (snd (bs ! i)) mod em_p s1 = of_bool (Y (Suc k + i))"
    using Cons.prems(8) p1(1) by (auto dest: spec [of _ "Suc _"])
  have IH: "val s \<sigma> r = (val s \<sigma> (lc_add_linear ?p out (lc_simplify ?p t) coeff) +
      (\<Sum>i<length bs. bitop_term op X Y (Suc k + i))) mod ?p"
    using Cons.IH [OF p1(2) emitsD(1) [OF m(1)] oin c2 bs rest Cons.prems(7) rec] p1(1) vals by simp
  have "val s \<sigma> (lc_add_linear ?p out (lc_simplify ?p t) coeff) mod ?p = (val s \<sigma> out + bitop_term op X Y k) mod ?p"
  proof -
    have "val s \<sigma> (lc_add_linear ?p out (lc_simplify ?p t) coeff) = (val s \<sigma> out + 2 ^ k mod ?p * of_bool (bool_op op (X k) (Y k))) mod ?p"
      by (simp add: val_add_linear val_simplify tv(2) coeff)
    also have "\<dots> mod ?p = (val s \<sigma> out + bitop_term op X Y k) mod ?p"
      unfolding mod_mod_trivial bitop_term_def by (intro mod_congs)
    finally show ?thesis .
  qed
  then have "val s \<sigma> r = (val s \<sigma> out + bitop_term op X Y k +
      (\<Sum>i<length bs. bitop_term op X Y (Suc k + i))) mod ?p"
    unfolding IH by (rule mod_add_cong) (rule refl)
  also have "\<dots> = (val s \<sigma> out + (\<Sum>i<length (ab # bs). bitop_term op X Y (k + i))) mod ?p"
    by (simp add: sum.lessThan_Suc_shift add.assoc del: sum.lessThan_Suc)
  finally show ?case using tv(1) by blast
qed

lemma bitwise_emits:
  assumes p: "is_prime (em_p s)" and ok: "wires_ok s" and ab: "lc_in s a" "lc_in s b" and e: "emit_bitwise a b op n sp s = Some (out, s')"
  shows "emits s s'" "lc_in s' out"
    "sat s \<sigma> \<Longrightarrow> val s \<sigma> a < 2 ^ n \<Longrightarrow> val s \<sigma> b < 2 ^ n \<Longrightarrow> \<exists>\<tau>. agree (em_next s) \<sigma> \<tau> \<and> sat s' \<tau>"
    "0 < n \<Longrightarrow> 2 ^ n \<le> em_p s \<Longrightarrow> sat s' \<sigma> \<Longrightarrow>
       val s \<sigma> a < 2 ^ n \<and> val s \<sigma> b < 2 ^ n \<and> val s \<sigma> out = int_bitop op (val s \<sigma> a) (val s \<sigma> b)"
proof -
  let ?p = "em_p s"
  have p0: "0 < ?p" "1 < ?p" using p is_prime_gt1 by auto
  obtain ba s1 where e1: "emit_num2bits a n sp s = (ba, s1)" by force
  note n1 = num2bits_emits [OF p ok ab(1) e1]
  have p1: "em_p s1 = ?p" "is_prime (em_p s1)" using emitsD(3) [OF n1(1)] p by simp_all
  obtain bb s2 where e2: "emit_num2bits b n sp s1 = (bb, s2)" by force
  note b1 = emits_in [OF n1(1) ab(2)] and ok1 = emitsD(1) [OF n1(1)]
  note n2 = num2bits_emits [OF p1(2) ok1 b1 e2]
  have m2: "emits s s2" using emits_trans n1(1) n2(1) .
  have p2: "em_p s2 = ?p" "is_prime (em_p s2)" using emitsD(3) [OF m2] p by simp_all
  obtain r where lp: "bitwise_loop op (zip ba bb) lc_zero 1 s2 = Some (r, s')" and out: "out = lc_simplify ?p r"
    using e e1 e2 by (auto simp: emit_bitwise_def)
  have "set ba \<subseteq> {..<em_next s2}" "set bb \<subseteq> {..<em_next s2}" using n1(2,3) n2(2,3) by auto
  then have zw: "\<forall>(a, b)\<in>set (zip ba bb). a < em_next s2 \<and> b < em_next s2"
    by (auto dest: set_zip_leftD set_zip_rightD)
  have "0 \<le> (1 :: int)" "1 < em_p s2" using p0 p2 by simp_all
  note L = bitwise_loop_emits [OF p2(2) emitsD(1) [OF m2] lc_in_zero this zw lp]
  show em: "emits s s'" using emits_trans [OF m2] L by blast
  have ps': "em_p s' = ?p" using emitsD(3) [OF em] .
  show "lc_in s' out" using lc_in_simplify [of s' r] L ps' p0 by (simp add: out)
  show "\<exists>\<tau>. agree (em_next s) \<sigma> \<tau> \<and> sat s' \<tau>" if sat: "sat s \<sigma>" "val s \<sigma> a < 2 ^ n" "val s \<sigma> b < 2 ^ n"
  proof -
    obtain \<tau>1 where t1: "agree (em_next s) \<sigma> \<tau>1" "sat s1 \<tau>1" using num2bits_complete [OF p ok ab(1) e1 sat(1,2)] by blast
    have "val s1 \<tau>1 b < 2 ^ n" using emits_val [OF n1(1)] agree_val [OF t1(1) ab(2)] sat(3) by simp
    then obtain \<tau>2 where t2: "agree (em_next s1) \<tau>1 \<tau>2" "sat s2 \<tau>2"
      using num2bits_complete [OF p1(2) ok1 b1 e2 t1(2)] by blast
    then obtain \<tau> where "agree (em_next s2) \<tau>2 \<tau>" "sat s' \<tau>" using L by blast
    then show ?thesis using emits_agree [OF m2 emits_agree [OF n1(1) t1(1) t2(1)]] by blast
  qed
  show "val s \<sigma> a < 2 ^ n \<and> val s \<sigma> b < 2 ^ n \<and> val s \<sigma> out = int_bitop op (val s \<sigma> a) (val s \<sigma> b)"
    if n: "0 < n" "2 ^ n \<le> em_p s" and sat: "sat s' \<sigma>"
  proof -
    have s2: "sat s2 \<sigma>" using emits_sat L sat by blast
    have s1: "sat s1 \<sigma>" using emits_sat [OF n2(1) s2] .
    note A = num2bits_sound [OF p ok ab(1) e1 n(2) s1]
    have B: "length bb = n \<and> val s \<sigma> b < 2 ^ n \<and> (\<forall>i<n. \<sigma> (bb ! i) mod ?p = of_bool (bit (val s \<sigma> b) i))"
      using num2bits_sound [OF p1(2) ok1 b1 e2 _ s2] n(2) p1(1) emits_val [OF n1(1)] by simp
    let ?X = "bit (val s \<sigma> a)" and ?Y = "bit (val s \<sigma> b)"
    have len: "length (zip ba bb) = n" using A B by simp
    have "\<forall>i < length (zip ba bb). \<sigma> (fst (zip ba bb ! i)) mod em_p s2 = of_bool (?X (0 + i)) \<and>
        \<sigma> (snd (zip ba bb ! i)) mod em_p s2 = of_bool (?Y (0 + i))"
      using A B p2(1) by simp
    note V = bitwise_loop_val [OF p2(2) emitsD(1) [OF m2] lc_in_zero _ zw lp sat this]
    have "zip ba bb \<noteq> []" using len n(1) by auto
    then have op: "op \<in> {BitAnd, BitOr, BitXor}" using V p0 p2(1) by simp
    note nn = conjunct1 [OF val_range [OF p0(1), of \<sigma>]]
    note R = int_bitop_range [OF op nn nn, of a n b]
    have "(\<Sum>i<n. bitop_term op ?X ?Y (0 + i)) = (\<Sum>i<n. 2 ^ i * of_bool (bit (int_bitop op (val s \<sigma> a) (val s \<sigma> b)) i))"
      using bit_int_bitop [OF op] by (simp add: bitop_term_def)
    also have "\<dots> = horner_sum of_bool 2 (map (bit (int_bitop op (val s \<sigma> a) (val s \<sigma> b))) [0..<n])" by (rule bits_sum) simp
    also have "\<dots> = int_bitop op (val s \<sigma> a) (val s \<sigma> b)" by (rule bits_of_value) (use R A B in simp_all)
    finally have "val s2 \<sigma> r = int_bitop op (val s \<sigma> a) (val s \<sigma> b) mod ?p"
      using V p0 p2(1) len by simp
    moreover have "val s \<sigma> out = val s2 \<sigma> r" using p2(1) by (simp add: out val_simplify) (simp add: val_def)
    moreover have "int_bitop op (val s \<sigma> a) (val s \<sigma> b) < ?p" using R(2) A B n(2) by linarith
    ultimately show ?thesis using A B R(1) by simp
  qed
qed

section \<open>Shifts\<close>

lemma shift_coeff_eq: "1 < p \<Longrightarrow> shift_coeff p i = 2 ^ i mod p"
proof -
  assume p: "1 < p"
  have "((\<lambda>c. c * fr_from_u64 p 2 mod p) ^^ i) 1 = 2 ^ i mod p"
    using p by (induction i) (simp_all add: fr_from_u64_def mod_mult_eq mult.commute)
  then show ?thesis by (simp add: shift_coeff_def)
qed

text \<open>What the shift computes: bits move up and those beyond \<open>n\<close> are dropped, or move down.\<close>

definition int_shift :: "bool \<Rightarrow> nat \<Rightarrow> nat \<Rightarrow> int \<Rightarrow> int" where
  "int_shift left n amount a = (if left then take_bit n (push_bit amount a) else drop_bit amount a)"

lemma shift_fold_val:
  assumes p: "is_prime (em_p s)"
  shows "val s \<sigma> (foldl (\<lambda>out i. case src i of None \<Rightarrow> out | Some j \<Rightarrow> lc_add_term (em_p s) out (bits ! j) (shift_coeff (em_p s) i)) lc_zero [0..<n]) =
    (\<Sum>i<n. 2 ^ i * (case src i of None \<Rightarrow> 0 | Some j \<Rightarrow> \<sigma> (bits ! j))) mod em_p s"
proof (induction n)
  case (Suc n)
  have p1: "1 < em_p s" using is_prime_gt1 [OF p] .
  show ?case
  proof (cases "src n")
    case None
    then show ?thesis using Suc by simp
  next
    case (Some j)
    have "(u mod em_p s + 2 ^ n mod em_p s * v) mod em_p s = (u + 2 ^ n * v) mod em_p s" for u v :: int
      by (intro mod_congs)
    then show ?thesis using Suc Some p1 by (simp add: val_add_term shift_coeff_eq)
  qed
qed simp

lemma shift_fold_in:
  assumes p: "1 < em_p s" and b: "\<And>i j. i < n \<Longrightarrow> src i = Some j \<Longrightarrow> bits ! j < em_next s"
  shows "lc_in s (foldl (\<lambda>out i. case src i of None \<Rightarrow> out | Some j \<Rightarrow> lc_add_term (em_p s) out (bits ! j) (shift_coeff (em_p s) i)) lc_zero [0..<n])"
  using b
proof (induction n)
  case (Suc n)
  let ?g = "foldl (\<lambda>out i. case src i of None \<Rightarrow> out | Some j \<Rightarrow> lc_add_term (em_p s) out (bits ! j) (shift_coeff (em_p s) i)) lc_zero [0..<n]"
  have "lc_in s ?g" using Suc less_SucI by blast
  moreover have "bits ! j < em_next s" if "src n = Some j" for j using Suc.prems [OF lessI that] .
  ultimately show ?case using p by (auto simp: lc_in_add_term shift_coeff_eq split: option.split)
qed simp

lemma shift_source_less: "shift_source n amount left i = Some j \<Longrightarrow> i < n \<Longrightarrow> j < n"
  by (auto simp: shift_source_def split: if_splits)

lemma shift_emits:
  assumes p: "is_prime (em_p s)" and ok: "wires_ok s" and a: "lc_in s a" and e: "emit_shift a amount left n sp s = (out, s')"
  shows "emits s s'" "lc_in s' out"
    "sat s \<sigma> \<Longrightarrow> val s \<sigma> a < 2 ^ n \<Longrightarrow> \<exists>\<tau>. agree (em_next s) \<sigma> \<tau> \<and> sat s' \<tau>"
    "2 ^ n \<le> em_p s \<Longrightarrow> sat s' \<sigma> \<Longrightarrow> val s \<sigma> a < 2 ^ n \<and> val s \<sigma> out = int_shift left n amount (val s \<sigma> a)"
proof -
  let ?p = "em_p s"
  have p0: "0 < ?p" "1 < ?p" using p is_prime_gt1 by auto
  obtain bits s1 where e1: "emit_num2bits a n sp s = (bits, s1)" by force
  note n1 = num2bits_emits [OF p ok a e1]
  let ?f = "foldl (\<lambda>out i. case shift_source n amount left i of None \<Rightarrow> out
      | Some src \<Rightarrow> lc_add_term ?p out (bits ! src) (shift_coeff ?p i)) lc_zero [0..<n]"
  have s': "s' = s1" and out: "out = (if n \<le> amount then lc_zero else lc_simplify ?p ?f)"
    using e e1 by (auto simp: emit_shift_def Let_def split: if_splits)
  have p1: "em_p s1 = ?p" using emitsD(3) [OF n1(1)] .
  show "emits s s'" using n1(1) s' by simp
  have "lc_in s1 ?f" unfolding p1 [symmetric] by (rule shift_fold_in) (use p0 p1 n1(2,3) shift_source_less in auto)
  then show "lc_in s' out" using lc_in_simplify [of s1 ?f] p0 p1 s' by (simp add: out)
  show "\<exists>\<tau>. agree (em_next s) \<sigma> \<tau> \<and> sat s' \<tau>" if "sat s \<sigma>" "val s \<sigma> a < 2 ^ n"
    using num2bits_complete [OF p ok a e1 that] s' by simp
  show "val s \<sigma> a < 2 ^ n \<and> val s \<sigma> out = int_shift left n amount (val s \<sigma> a)" if n: "2 ^ n \<le> em_p s" and sat: "sat s' \<sigma>"
  proof -
    note A = num2bits_sound [OF p ok a e1 n sat [unfolded s']]
    let ?A = "val s \<sigma> a" and ?r = "int_shift left n amount (val s \<sigma> a)"
    have A0: "0 \<le> ?A" using val_range [OF p0(1)] by blast
    have At: "take_bit n ?A = ?A" using A A0 by (simp add: take_bit_int_eq_self)
    have r: "0 \<le> ?r" "?r < 2 ^ n"
    proof -
      show "0 \<le> ?r" using A0 by (simp add: int_shift_def)
      have "drop_bit amount ?A \<le> ?A" using A0 zdiv_mono2 [of ?A 1 "2 ^ amount"] by (simp add: drop_bit_eq_div)
      then show "?r < 2 ^ n" using A by (simp add: int_shift_def)
    qed
    have bit_r: "bit ?r i = (case shift_source n amount left i of None \<Rightarrow> False | Some j \<Rightarrow> bit ?A j)" if i: "i < n" for i
    proof -
      have "\<not> bit ?A j" if "n \<le> j" for j using At that by (metis bit_take_bit_iff not_le)
      then show ?thesis using i
        by (auto simp: int_shift_def shift_source_def bit_take_bit_iff bit_push_bit_iff bit_drop_bit_eq add.commute)
    qed
    show ?thesis
    proof (cases "n \<le> amount")
      case True
      have "\<not> bit ?r i" for i
      proof (cases "i < n")
        case True
        then show ?thesis using bit_r [OF True] \<open>n \<le> amount\<close> by (auto simp: shift_source_def)
      next
        case False
        have "take_bit n ?r = ?r" using r by (simp add: take_bit_int_eq_self)
        then show ?thesis using False by (metis bit_take_bit_iff)
      qed
      then have "?r = 0" by (intro bit_eqI) simp
      then show ?thesis using A True by (simp add: out)
    next
      case False
      have "(\<Sum>i<n. 2 ^ i * (case shift_source n amount left i of None \<Rightarrow> 0 | Some j \<Rightarrow> \<sigma> (bits ! j))) mod ?p =
          (\<Sum>i<n. 2 ^ i * of_bool (bit ?r i)) mod ?p"
      proof -
        have "2 ^ i * (case shift_source n amount left i of None \<Rightarrow> 0 | Some j \<Rightarrow> \<sigma> (bits ! j)) mod ?p = 2 ^ i * of_bool (bit ?r i) mod ?p"
          if i: "i < n" for i
        proof (cases "shift_source n amount left i")
          case (Some j)
          have "\<sigma> (bits ! j) mod ?p = of_bool (bit ?r i) mod ?p"
            using A shift_source_less [OF Some i] bit_r [OF i] Some p0 by simp
          then show ?thesis unfolding Some option.case by (rule mod_mult_cong [OF refl])
        qed (use bit_r [OF i] in simp)
        then have "(\<Sum>i<n. 2 ^ i * (case shift_source n amount left i of None \<Rightarrow> 0 | Some j \<Rightarrow> \<sigma> (bits ! j)) mod ?p) =
            (\<Sum>i<n. 2 ^ i * of_bool (bit ?r i) mod ?p)" by (intro sum.cong refl) (simp only: lessThan_iff)
        then show ?thesis
          using mod_sum_eq [of "\<lambda>i. 2 ^ i * (case shift_source n amount left i of None \<Rightarrow> 0 | Some j \<Rightarrow> \<sigma> (bits ! j))" ?p "{..<n}"]
            mod_sum_eq [of "\<lambda>i. 2 ^ i * of_bool (bit ?r i)" ?p "{..<n}"] by (simp only:)
      qed
      also have "(\<Sum>i<n. (2 :: int) ^ i * of_bool (bit ?r i)) = horner_sum of_bool 2 (map (bit ?r) [0..<n])" by (rule bits_sum) simp
      also have "\<dots> = ?r" by (rule bits_of_value [OF r])
      finally have "val s \<sigma> out = ?r mod ?p" using False by (simp add: out val_simplify shift_fold_val [OF p])
      then show ?thesis using A r n by simp
    qed
  qed
qed

section \<open>Equality\<close>

lemma eq_state:
  assumes p: "is_prime (em_p s)" and ok: "wires_ok s" and lr: "lc_in s l" "lc_in s r" and e: "emit_eq l r sp s = (out, s')"
  obtains (Folded) c where "s' = s" "out = lc_constant (if c = 0 then 1 else 0)"
      "\<forall>\<sigma>. \<sigma> 0 = 1 \<longrightarrow> (val s \<sigma> l - val s \<sigma> r) mod em_p s = c"
  | (Gadget) "emits s s'" "out = lc_variable (em_next s)" "em_next s' = em_next s + 2"
      "\<forall>\<sigma>. sat s' \<sigma> \<longleftrightarrow> sat s \<sigma> \<and>
         (val s \<sigma> l - val s \<sigma> r) * \<sigma> (em_next s) mod em_p s = 0 \<and>
         (val s \<sigma> l - val s \<sigma> r) * \<sigma> (em_next s + 1) mod em_p s = (1 - \<sigma> (em_next s)) mod em_p s"
proof -
  let ?p = "em_p s" and ?m = "em_next s" and ?d = "lc_add_linear (em_p s) l r (fr_neg_one (em_p s))"
  have p0: "0 < ?p" "1 < ?p" using p is_prime_gt1 by auto
  have din: "lc_in s ?d" using lc_in_add_linear [OF p lr] fr_neg_one_range [OF p0(1)] by simp
  have dv: "val s \<sigma> ?d = (val s \<sigma> l - val s \<sigma> r) mod ?p" for \<sigma> by (rule val_sub)
  show ?thesis
  proof (cases "lc_is_constant ?p ?d")
    case (Some c)
    show ?thesis
    proof (rule Folded)
      show "s' = s" "out = lc_constant (if c = 0 then 1 else 0)" using e Some by (auto simp: emit_eq_def Let_def)
      show "\<forall>\<sigma>. \<sigma> 0 = 1 \<longrightarrow> (val s \<sigma> l - val s \<sigma> r) mod ?p = c" using val_is_constant [OF Some _ p0(1)] by (simp add: dv)
    qed
  next
    case None
    define s3 where "s3 = set_witness_recipe (?m + 1) (InvOrZeroLc ?d) (set_witness_recipe ?m (IsZeroLc ?d)
        (snd (new_wire ''inv_d_tmp'' (snd (new_wire ''eq_tmp'' s)))))"
    have s3: "em_p s3 = ?p" "boundary_of s3 = boundary_of s" "em_next s3 = ?m + 2" "em_cons s3 = em_cons s"
      "em_scopes s3 = em_scopes s" "em_consts s3 = em_consts s" "em_calls s3 = em_calls s"
      by (simp_all add: s3_def new_wire_eq)
    have m3: "emits s s3" by (rule fresh_emits [OF ok]) (use s3 in simp_all)
    let ?c = "lc_add_term ?p (lc_constant 1) ?m (fr_neg_one ?p)"
    define s4 where "s4 = add_constraint \<lparr>con_a = ?d, con_b = lc_variable ?m, con_c = lc_zero, con_span = Some sp\<rparr> s3"
    have out: "out = lc_variable ?m"
      and s': "s' = add_constraint \<lparr>con_a = ?d, con_b = lc_variable (?m + 1), con_c = ?c, con_span = Some sp\<rparr> s4"
      using e None by (auto simp: emit_eq_def new_wire_eq s3_def s4_def Let_def)
    have v3: "lc_in s3 (lc_variable ?m)" "lc_in s3 (lc_variable (?m + 1))" using lc_in_var [of s3] s3 p0 by simp_all
    have d3: "lc_in s3 ?d" using emits_in [OF m3 din] .
    have "lc_in s3 (lc_constant 1)" using lc_in_const [of 1 s3] s3 p0 by simp
    then have c3: "lc_in s3 ?c" using lc_in_add_term [of s3 "lc_constant 1" ?m] s3 fr_neg_one_range [OF p0(1)] by simp
    have m4: "emits s3 s4" unfolding s4_def by (rule constraint_emits [OF emitsD(1) [OF m3] d3 v3(1) lc_in_zero])
    have m5: "emits s4 s'" unfolding s'
      by (rule constraint_emits [OF emitsD(1) [OF m4] emits_in [OF m4 d3] emits_in [OF m4 v3(2)] emits_in [OF m4 c3]])
    have ps: "em_p s4 = ?p" using emitsD(3) [OF m4] s3(1) by simp
    have vs: "val s3 \<sigma> k = val s \<sigma> k" "val s4 \<sigma> k = val s \<sigma> k" for \<sigma> k using s3(1) ps by (simp_all add: val_def)
    have cv: "val s \<sigma> ?c = (1 - \<sigma> ?m) mod ?p" if "\<sigma> 0 = 1" for \<sigma>
    proof -
      have "(1 mod ?p - \<sigma> ?m) mod ?p = (1 - \<sigma> ?m) mod ?p" by (rule mod_diff_left_eq)
      then show ?thesis using that by (simp only: val_add_term neg_one_mult val_const)
    qed
    have prod: "x mod ?p * (y mod ?p) mod ?p = x * y mod ?p" for x y by (rule mod_mult_eq)
    show ?thesis
    proof (rule Gadget)
      show "emits s s'" using emits_trans m3 m4 m5 by blast
      show "out = lc_variable ?m" by (fact out)
      show "em_next s' = ?m + 2" using s3 by (simp add: s' s4_def)
      show "\<forall>\<sigma>. sat s' \<sigma> \<longleftrightarrow> sat s \<sigma> \<and> (val s \<sigma> l - val s \<sigma> r) * \<sigma> ?m mod ?p = 0 \<and>
         (val s \<sigma> l - val s \<sigma> r) * \<sigma> (?m + 1) mod ?p = (1 - \<sigma> ?m) mod ?p"
        unfolding s' s4_def constraint_sat fresh_sat [OF s3(1,4)]
        using vs ps s3(1) by (auto simp: dv val_var prod cv sat_0 s4_def)
    qed
  qed
qed

lemma eq_emits:
  assumes p: "is_prime (em_p s)" and ok: "wires_ok s" and lr: "lc_in s l" "lc_in s r" and e: "emit_eq l r sp s = (out, s')"
  shows "emits s s'" "lc_in s' out"
    "sat s \<sigma> \<Longrightarrow> \<exists>\<tau>. agree (em_next s) \<sigma> \<tau> \<and> sat s' \<tau>"
    "sat s' \<sigma> \<Longrightarrow> val s \<sigma> out = of_bool (val s \<sigma> l = val s \<sigma> r)"
proof -
  let ?p = "em_p s" and ?m = "em_next s"
  have p0: "0 < ?p" "1 < ?p" using p is_prime_gt1 by auto
  have diff0: "(val s \<sigma> l - val s \<sigma> r) mod ?p = 0 \<longleftrightarrow> val s \<sigma> l = val s \<sigma> r" for \<sigma>
    using mod_eq_dvd_iff [of "val s \<sigma> l" ?p "val s \<sigma> r"] val_small [OF p0(1)] by (simp add: mod_eq_0_iff_dvd)
  have "emits s s' \<and> lc_in s' out \<and> (sat s \<sigma> \<longrightarrow> (\<exists>\<tau>. agree ?m \<sigma> \<tau> \<and> sat s' \<tau>)) \<and>
    (sat s' \<sigma> \<longrightarrow> val s \<sigma> out = of_bool (val s \<sigma> l = val s \<sigma> r))"
  proof (cases rule: eq_state [OF p ok lr e])
    case (1 c)
    have "lc_in s out" using lc_in_const [of _ s] p0 wires_ok_0 [OF ok] by (simp add: 1(2))
    moreover have "val s \<sigma> out = of_bool (val s \<sigma> l = val s \<sigma> r)" if "\<sigma> 0 = 1"
      using 1(3) that diff0 [of \<sigma>] p0 by (auto simp: 1(2) val_const)
    ultimately show ?thesis using 1(1) ok sat_0 by (auto simp: emits_refl intro: exI [of _ \<sigma>])
  next
    case 2
    let ?d = "val s \<sigma> l - val s \<sigma> r"
    have "lc_in s' out" using lc_in_var [of s'] emitsD(3) [OF 2(1)] 2(2,3) p0 by simp
    moreover have "val s \<sigma> out = of_bool (val s \<sigma> l = val s \<sigma> r)" if sat: "sat s' \<sigma>"
    proof (cases "val s \<sigma> l = val s \<sigma> r")
      case True
      then have "(1 - \<sigma> ?m) mod ?p = 0" using 2(4) sat by (metis diff_self mod_0 mult_zero_left)
      then have "\<sigma> ?m mod ?p = 1" using p0 by (metis mod_eq_dvd_iff mod_eq_0_iff_dvd mod_pos_pos_trivial zero_le_one)
      then show ?thesis using True by (simp add: 2(2) val_var)
    next
      case False
      then have "\<not> ?p dvd ?d" using diff0 [of \<sigma>] by (simp add: mod_eq_0_iff_dvd)
      moreover have "?p dvd ?d * \<sigma> ?m" using 2(4) sat by (simp add: mod_eq_0_iff_dvd)
      ultimately have "\<sigma> ?m mod ?p = 0" using is_prime_dvd_mult [OF p] by (simp add: mod_eq_0_iff_dvd)
      then show ?thesis using False by (simp add: 2(2) val_var)
    qed
    moreover have "\<exists>\<tau>. agree ?m \<sigma> \<tau> \<and> sat s' \<tau>" if sat: "sat s \<sigma>"
    proof -
      let ?t = "\<sigma>(?m := of_bool (val s \<sigma> l = val s \<sigma> r), ?m + 1 := inv_mod ?p (?d mod ?p))"
      have ag: "agree ?m \<sigma> ?t" by (simp add: agree_def)
      have "val s ?t l = val s \<sigma> l" "val s ?t r = val s \<sigma> r" using agree_val [OF ag] lr by simp_all
      moreover have "?d * inv_mod ?p (?d mod ?p) mod ?p = 1" if "val s \<sigma> l \<noteq> val s \<sigma> r"
      proof -
        have "?d mod ?p mod ?p \<noteq> 0" using that diff0 by simp
        from inv_mod_right [OF p this] show ?thesis by (simp add: mod_mult_left_eq)
      qed
      ultimately have "sat s' ?t" using 2(4) agree_sat [OF ok sat ag] p0 by (cases "val s \<sigma> l = val s \<sigma> r") simp_all
      then show ?thesis using ag by blast
    qed
    ultimately show ?thesis using 2(1) by blast
  qed
  then show "emits s s'" "lc_in s' out" "sat s \<sigma> \<Longrightarrow> \<exists>\<tau>. agree ?m \<sigma> \<tau> \<and> sat s' \<tau>"
    "sat s' \<sigma> \<Longrightarrow> val s \<sigma> out = of_bool (val s \<sigma> l = val s \<sigma> r)" by blast+
qed

section \<open>Multiplexers\<close>

lemma mux_emits:
  assumes p: "is_prime (em_p s)" and ok: "wires_ok s" and c: "lc_in s cond" "lc_in s a" "lc_in s b"
    and e: "emit_mux cond a b sp s = (out, s')"
  shows "emits s s'" "lc_in s' out"
    "sat s \<sigma> \<Longrightarrow> \<exists>\<tau>. agree (em_next s) \<sigma> \<tau> \<and> sat s' \<tau>"
    "sat s' \<sigma> \<Longrightarrow> val s \<sigma> cond \<in> {0, 1} \<Longrightarrow> val s \<sigma> out = (if val s \<sigma> cond = 1 then val s \<sigma> a else val s \<sigma> b)"
proof -
  let ?p = "em_p s" and ?m = "em_next s" and ?d = "lc_simplify (em_p s) (lc_add_linear (em_p s) a b (fr_neg_one (em_p s)))"
  have p0: "0 < ?p" "1 < ?p" using p is_prime_gt1 by auto
  have nn: "val s \<rho> l mod ?p = val s \<rho> l" for \<rho> l by (rule val_small [OF p0(1)])
  have dv: "val s \<rho> ?d = (val s \<rho> a - val s \<rho> b) mod ?p" for \<rho> by (simp only: val_simplify val_sub)
  have "emits s s' \<and> lc_in s' out \<and> (sat s \<sigma> \<longrightarrow> (\<exists>\<tau>. agree ?m \<sigma> \<tau> \<and> sat s' \<tau>)) \<and>
    (sat s' \<sigma> \<longrightarrow> val s \<sigma> cond \<in> {0, 1} \<longrightarrow> val s \<sigma> out = (if val s \<sigma> cond = 1 then val s \<sigma> a else val s \<sigma> b))"
  proof (cases "lc_is_constant ?p cond = Some 1 \<or> lc_is_constant ?p cond = Some 0 \<or> lc_is_constant ?p ?d = Some 0")
    case True
    have s': "s' = s" "out = a \<or> out = b" using e True by (auto simp: emit_mux_def Let_def split: if_splits)
    have eq: "val s \<sigma> a = val s \<sigma> b" if "lc_is_constant ?p ?d = Some 0" "\<sigma> 0 = 1"
    proof -
      have "(val s \<sigma> a - val s \<sigma> b) mod ?p = 0" using val_is_constant [where \<sigma> = \<sigma>, OF that p0(1)] dv by simp
      then have "val s \<sigma> a mod ?p = val s \<sigma> b mod ?p" by (simp add: mod_eq_dvd_iff mod_eq_0_iff_dvd)
      then show ?thesis by (simp only: nn)
    qed
    have "val s \<sigma> out = (if val s \<sigma> cond = 1 then val s \<sigma> a else val s \<sigma> b)" if "\<sigma> 0 = 1"
    proof -
      have k: "val s \<sigma> cond = k" if "lc_is_constant ?p cond = Some k" for k
        using val_is_constant [where \<sigma> = \<sigma>, OF that \<open>\<sigma> 0 = 1\<close> p0(1)] .
      consider "lc_is_constant ?p cond = Some 1" "out = a" | "lc_is_constant ?p cond = Some 0" "out = b"
        | "lc_is_constant ?p ?d = Some 0" "out = a"
        using e True by (auto simp: emit_mux_def Let_def split: if_splits)
      then show ?thesis using k eq \<open>\<sigma> 0 = 1\<close> by cases simp_all
    qed
    then show ?thesis using s' ok c sat_0 by (auto simp: emits_refl intro: exI [of _ \<sigma>])
  next
    case False
    let ?c = "lc_add_linear ?p (lc_variable ?m) b (fr_neg_one ?p)"
    have out: "out = lc_variable ?m"
      and s': "em_p s' = ?p" "boundary_of s' = boundary_of s" "em_next s' = ?m + 1"
        "em_cons s' = em_cons s @ [\<lparr>con_a = cond, con_b = ?d, con_c = ?c, con_span = Some sp\<rparr>]"
        "em_scopes s' = em_scopes s" "em_consts s' = em_consts s" "em_calls s' = em_calls s"
      using e False by (auto simp: emit_mux_def new_wire_eq boundary_of_def Let_def)
    have up: "lc_in s l \<Longrightarrow> lc_in s' l" for l using lc_in_grow s'(1,3) by simp
    have v: "lc_in s' out" using lc_in_var [of s'] s' p0 by (simp add: out)
    have din: "lc_in s' ?d"
      by (intro up lc_in_simplify [OF p0(1)] lc_in_add_linear [OF p c(2,3)]) (use fr_neg_one_range [OF p0(1)] in simp_all)
    have cin: "lc_in s' ?c"
      using lc_in_add_linear [of s' "lc_variable ?m" b] v up [OF c(3)] fr_neg_one_range [OF p0(1)] p s'(1) by (simp add: out)
    have em: "emits s s'"
      by (rule fresh_constraint_emits [OF ok s']) (use up [OF c(1)] din cin in simp_all)
    have cv: "val s \<rho> ?c = (\<rho> ?m - val s \<rho> b) mod ?p" for \<rho>
      by (simp only: val_sub val_var) (rule mod_diff_left_eq)
    have iff: "sat s' \<rho> \<longleftrightarrow> sat s \<rho> \<and> val s \<rho> cond * (val s \<rho> a - val s \<rho> b) mod ?p = (\<rho> ?m - val s \<rho> b) mod ?p" for \<rho>
    proof -
      have "con_sat ?p \<rho> \<lparr>con_a = cond, con_b = ?d, con_c = ?c, con_span = Some sp\<rparr> \<longleftrightarrow>
          val s \<rho> cond * (val s \<rho> a - val s \<rho> b) mod ?p = (\<rho> ?m - val s \<rho> b) mod ?p"
        unfolding con_sat_val by (simp only: con.simps dv cv mod_mult_right_eq)
      then show ?thesis by (auto simp: sat_def cons_sat_def s'(1,4))
    qed
    have "val s \<sigma> out = (if val s \<sigma> cond = 1 then val s \<sigma> a else val s \<sigma> b)" if "sat s' \<sigma>" "val s \<sigma> cond \<in> {0, 1}"
    proof -
      have "(\<sigma> ?m - val s \<sigma> b) mod ?p = ((if val s \<sigma> cond = 1 then val s \<sigma> a else val s \<sigma> b) - val s \<sigma> b) mod ?p"
        using iff that by auto
      then have "(\<sigma> ?m - val s \<sigma> b + val s \<sigma> b) mod ?p = ((if val s \<sigma> cond = 1 then val s \<sigma> a else val s \<sigma> b) - val s \<sigma> b + val s \<sigma> b) mod ?p"
        by (intro mod_add_cong refl)
      then show ?thesis by (simp add: out val_var nn)
    qed
    moreover have "\<exists>\<tau>. agree ?m \<sigma> \<tau> \<and> sat s' \<tau>" if sat: "sat s \<sigma>"
    proof -
      let ?t = "\<sigma>(?m := val s \<sigma> cond * (val s \<sigma> a - val s \<sigma> b) + val s \<sigma> b)"
      have ag: "agree ?m \<sigma> ?t" by (simp add: agree_def)
      have "val s ?t cond = val s \<sigma> cond" "val s ?t a = val s \<sigma> a" "val s ?t b = val s \<sigma> b" using agree_val [OF ag] c by simp_all
      then have "sat s' ?t" using iff agree_sat [OF ok sat ag] by simp
      then show ?thesis using ag by blast
    qed
    ultimately show ?thesis using em v by blast
  qed
  then show "emits s s'" "lc_in s' out" "sat s \<sigma> \<Longrightarrow> \<exists>\<tau>. agree ?m \<sigma> \<tau> \<and> sat s' \<tau>"
    "sat s' \<sigma> \<Longrightarrow> val s \<sigma> cond \<in> {0, 1} \<Longrightarrow> val s \<sigma> out = (if val s \<sigma> cond = 1 then val s \<sigma> a else val s \<sigma> b)" by blast+
qed

section \<open>Predicated returns\<close>

definition ret_in :: "em \<Rightarrow> ret \<Rightarrow> bool" where
  "ret_in s r \<longleftrightarrow> lc_in s (ret_flag r) \<and> lc_in s (ret_value r)"

lemma ret_in_emits: "emits s s' \<Longrightarrow> ret_in s r \<Longrightarrow> ret_in s' r"
  by (simp add: ret_in_def emits_in)

lemma seq_ret_emits:
  assumes p: "is_prime (em_p s)" and ok: "wires_ok s" and ab: "ret_in s a" "ret_in s b" and e: "seq_ret a b sp s = (r, s')"
  shows "emits s s'" "ret_in s' r"
    "sat s \<sigma> \<Longrightarrow> \<exists>\<tau>. agree (em_next s) \<sigma> \<tau> \<and> sat s' \<tau>"
    "sat s' \<sigma> \<Longrightarrow> val s \<sigma> (ret_flag a) \<in> {0, 1} \<Longrightarrow>
       val s \<sigma> (ret_flag r) = (if val s \<sigma> (ret_flag a) = 1 then 1 else val s \<sigma> (ret_flag b)) \<and>
       val s \<sigma> (ret_value r) = (if val s \<sigma> (ret_flag a) = 1 then val s \<sigma> (ret_value a) else val s \<sigma> (ret_value b))"
proof -
  let ?p = "em_p s" and ?m = "em_next s" and ?fa = "ret_flag a" and ?fb = "ret_flag b"
  have p0: "0 < ?p" "1 < ?p" using p is_prime_gt1 by auto
  have ins: "lc_in s ?fa" "lc_in s ?fb" "lc_in s (ret_value a)" "lc_in s (ret_value b)" using ab by (simp_all add: ret_in_def)
  have "emits s s' \<and> ret_in s' r \<and> (sat s \<sigma> \<longrightarrow> (\<exists>\<tau>. agree ?m \<sigma> \<tau> \<and> sat s' \<tau>)) \<and>
    (sat s' \<sigma> \<longrightarrow> val s \<sigma> ?fa \<in> {0, 1} \<longrightarrow>
       val s \<sigma> (ret_flag r) = (if val s \<sigma> ?fa = 1 then 1 else val s \<sigma> ?fb) \<and>
       val s \<sigma> (ret_value r) = (if val s \<sigma> ?fa = 1 then val s \<sigma> (ret_value a) else val s \<sigma> (ret_value b)))"
  proof (cases "lc_is_constant ?p ?fa = Some 1 \<or> lc_is_constant ?p ?fa = Some 0")
    case True
    have s': "s' = s" and "lc_is_constant ?p ?fa = Some 1 \<and> r = a \<or> lc_is_constant ?p ?fa = Some 0 \<and> r = b"
      using e True by (auto simp: seq_ret_def Let_def split: if_splits)
    then have "r = a \<and> val s \<sigma> ?fa = 1 \<or> r = b \<and> val s \<sigma> ?fa = 0" if "\<sigma> 0 = 1"
      using val_is_constant [where \<sigma> = \<sigma>, OF _ that p0(1)] by blast
    moreover have "r = a \<or> r = b" using e True by (auto simp: seq_ret_def Let_def split: if_splits)
    ultimately show ?thesis using s' ok ab sat_0 by (auto simp: emits_refl intro: exI [of _ \<sigma>])
  next
    case False
    let ?na = "lc_add_linear ?p (lc_constant 1) ?fa (fr_neg_one ?p)"
    obtain pr s1 where e1: "emit_mul_lc ?na ?fb ''ret_flag'' s = (pr, s1)" by force
    obtain v s2 where e2: "emit_mux ?fa (ret_value a) (ret_value b) sp s1 = (v, s2)" by force
    have r: "r = \<lparr>ret_flag = lc_simplify ?p (lc_add_linear ?p ?fa pr 1), ret_value = v\<rparr>" and s': "s' = s2"
      using e e1 e2 False by (auto simp: seq_ret_def Let_def)
    have nin: "lc_in s ?na" using lc_in_add_linear [OF p lc_in_const [of 1 s] ins(1)] wires_ok_0 [OF ok] p0 fr_neg_one_range [OF p0(1)] by simp
    note m = mul_lc_emits [OF p ok nin ins(2) e1]
    have p1: "em_p s1 = ?p" "is_prime (em_p s1)" using emitsD(3) [OF m(1)] p by simp_all
    note x = mux_emits [OF p1(2) emitsD(1) [OF m(1)] emits_in [OF m(1) ins(1)] emits_in [OF m(1) ins(3)] emits_in [OF m(1) ins(4)] e2]
    have em: "emits s s'" using emits_trans [OF m(1) x(1)] s' by simp
    have ps': "em_p s' = ?p" using emitsD(3) [OF em] .
    have "lc_in s' ?fa" "lc_in s' pr" using emits_in [OF em ins(1)] emits_in [OF x(1) m(2)] s' by simp_all
    then have rin: "ret_in s' r"
      using lc_in_simplify [of s'] lc_in_add_linear [of s' ?fa pr 1] p p0 ps' x(2) s' by (simp add: ret_in_def r)
    have vs: "val s1 \<rho> l = val s \<rho> l" for \<rho> l using p1(1) by (simp add: val_def)
    have "val s \<sigma> (ret_flag r) = (if val s \<sigma> ?fa = 1 then 1 else val s \<sigma> ?fb)"
      "val s \<sigma> (ret_value r) = (if val s \<sigma> ?fa = 1 then val s \<sigma> (ret_value a) else val s \<sigma> (ret_value b))"
      if sat: "sat s' \<sigma>" and f: "val s \<sigma> ?fa \<in> {0, 1}"
    proof -
      have s1: "sat s1 \<sigma>" using emits_sat [OF x(1)] sat s' by simp
      have nv: "val s \<sigma> ?na = (1 - val s \<sigma> ?fa) mod ?p"
        using sat_0 [OF sat] p0 by (simp add: val_sub val_const)
      have "val s \<sigma> pr = val s \<sigma> ?na * val s \<sigma> ?fb mod ?p" using m(5) s1 by blast
      then have fl: "val s \<sigma> (ret_flag r) = (val s \<sigma> ?fa + val s \<sigma> ?na * val s \<sigma> ?fb mod ?p) mod ?p"
        by (simp add: r val_simplify val_add)
      show "val s \<sigma> (ret_flag r) = (if val s \<sigma> ?fa = 1 then 1 else val s \<sigma> ?fb)"
        using f p0 val_small [OF p0(1), of \<sigma> ?fb] by (auto simp: fl nv)
      show "val s \<sigma> (ret_value r) = (if val s \<sigma> ?fa = 1 then val s \<sigma> (ret_value a) else val s \<sigma> (ret_value b))"
        using x(4) [of \<sigma>] sat s' f vs by (simp add: r)
    qed
    moreover have "\<exists>\<tau>. agree ?m \<sigma> \<tau> \<and> sat s' \<tau>" if sat: "sat s \<sigma>"
    proof -
      obtain \<tau>1 where t1: "agree ?m \<sigma> \<tau>1" "sat s1 \<tau>1" using mul_lc_complete [OF p ok nin ins(2) e1 sat] by blast
      then obtain \<tau> where "agree (em_next s1) \<tau>1 \<tau>" "sat s' \<tau>" using x(3) s' by blast
      then show ?thesis using emits_agree [OF m(1) t1(1)] by blast
    qed
    ultimately show ?thesis using em rin by blast
  qed
  then show "emits s s'" "ret_in s' r" "sat s \<sigma> \<Longrightarrow> \<exists>\<tau>. agree ?m \<sigma> \<tau> \<and> sat s' \<tau>"
    "sat s' \<sigma> \<Longrightarrow> val s \<sigma> ?fa \<in> {0, 1} \<Longrightarrow>
       val s \<sigma> (ret_flag r) = (if val s \<sigma> ?fa = 1 then 1 else val s \<sigma> ?fb) \<and>
       val s \<sigma> (ret_value r) = (if val s \<sigma> ?fa = 1 then val s \<sigma> (ret_value a) else val s \<sigma> (ret_value b))"
    by blast+
qed

section \<open>The S-box\<close>

lemma sbox_emits:
  assumes p: "is_prime (em_p s)" and ok: "wires_ok s" and x: "lc_in s x" and e: "emit_poseidon_sbox x s = (out, s')"
  shows "emits s s'" "lc_in s' out"
    "sat s \<sigma> \<Longrightarrow> \<exists>\<tau>. agree (em_next s) \<sigma> \<tau> \<and> sat s' \<tau>"
    "sat s' \<sigma> \<Longrightarrow> val s \<sigma> out = val s \<sigma> x ^ 5 mod em_p s"
proof -
  let ?p = "em_p s"
  have p0: "0 < ?p" "1 < ?p" using p is_prime_gt1 by auto
  have five: "(v * v mod ?p) * (v * v mod ?p) mod ?p * v mod ?p = v ^ 5 mod ?p" for v
  proof -
    have "(v * v mod ?p) * (v * v mod ?p) mod ?p = (v * v) * (v * v) mod ?p" by (rule mod_mult_eq)
    then have "(v * v mod ?p) * (v * v mod ?p) mod ?p * v mod ?p = (v * v) * (v * v) * v mod ?p" by (simp only: mod_mult_left_eq)
    then show ?thesis by (simp add: eval_nat_numeral ac_simps)
  qed
  have "emits s s' \<and> lc_in s' out \<and> (sat s \<sigma> \<longrightarrow> (\<exists>\<tau>. agree (em_next s) \<sigma> \<tau> \<and> sat s' \<tau>)) \<and>
    (sat s' \<sigma> \<longrightarrow> val s \<sigma> out = val s \<sigma> x ^ 5 mod ?p)"
  proof (cases "lc_is_constant ?p x")
    case (Some c)
    have o: "out = lc_constant (c ^ 5 mod ?p)" "s' = s" using e five [of c] Some by (auto simp: emit_poseidon_sbox_def Let_def)
    have "lc_in s out" unfolding o(1) by (rule lc_in_const) (use p0 wires_ok_0 [OF ok] in simp_all)
    moreover have "val s \<sigma> out = val s \<sigma> x ^ 5 mod ?p" if "\<sigma> 0 = 1"
      using val_is_constant [where \<sigma> = \<sigma>, OF Some that p0(1)] that by (simp add: o val_const)
    ultimately show ?thesis using o(2) ok sat_0 by (auto simp: emits_refl intro: exI [of _ \<sigma>])
  next
    case None
    obtain x2 s1 where e1: "emit_mul_lc x x ''pos_x2'' s = (x2, s1)" by force
    obtain x4 s2 where e2: "emit_mul_lc x2 x2 ''pos_x4'' s1 = (x4, s2)" by force
    have e3: "emit_mul_lc x4 x ''pos_x5'' s2 = (out, s')" using e e1 e2 None by (simp add: emit_poseidon_sbox_def Let_def)
    note m1 = mul_lc_emits [OF p ok x x e1]
    have p1: "em_p s1 = ?p" "is_prime (em_p s1)" using emitsD(3) [OF m1(1)] p by simp_all
    note m2 = mul_lc_emits [OF p1(2) emitsD(1) [OF m1(1)] m1(2) m1(2) e2]
    have m12: "emits s s2" using emits_trans m1(1) m2(1) .
    have p2: "em_p s2 = ?p" "is_prime (em_p s2)" using emitsD(3) [OF m12] p by simp_all
    note m3 = mul_lc_emits [OF p2(2) emitsD(1) [OF m12] m2(2) emits_in [OF m12 x] e3]
    have vs: "val s1 \<rho> l = val s \<rho> l" "val s2 \<rho> l = val s \<rho> l" for \<rho> l using p1 p2 by (simp_all add: val_def)
    have "val s \<sigma> out = val s \<sigma> x ^ 5 mod ?p" if sat: "sat s' \<sigma>"
    proof -
      have "sat s2 \<sigma>" "val s \<sigma> out = val s \<sigma> x4 * val s \<sigma> x mod ?p" using m3(5) sat vs p2 by auto
      moreover from this have "sat s1 \<sigma>" "val s \<sigma> x4 = val s \<sigma> x2 * val s \<sigma> x2 mod ?p" using m2(5) vs p1 by auto
      moreover from this have "val s \<sigma> x2 = val s \<sigma> x * val s \<sigma> x mod ?p" using m1(5) by blast
      ultimately show ?thesis using five [of "val s \<sigma> x"] by simp
    qed
    moreover have "\<exists>\<tau>. agree (em_next s) \<sigma> \<tau> \<and> sat s' \<tau>" if sat: "sat s \<sigma>"
    proof -
      obtain \<tau>1 where t1: "agree (em_next s) \<sigma> \<tau>1" "sat s1 \<tau>1" using mul_lc_complete [OF p ok x x e1 sat] by blast
      obtain \<tau>2 where t2: "agree (em_next s1) \<tau>1 \<tau>2" "sat s2 \<tau>2"
        using mul_lc_complete [OF p1(2) emitsD(1) [OF m1(1)] m1(2) m1(2) e2 t1(2)] by blast
      obtain \<tau> where t: "agree (em_next s2) \<tau>2 \<tau>" "sat s' \<tau>"
        using mul_lc_complete [OF p2(2) emitsD(1) [OF m12] m2(2) emits_in [OF m12 x] e3 t2(2)] by blast
      show ?thesis using emits_agree [OF m12 emits_agree [OF m1(1) t1(1) t2(1)] t(1)] t(2) by blast
    qed
    ultimately show ?thesis using emits_trans [OF m12 m3(1)] m3(2) by blast
  qed
  then show "emits s s'" "lc_in s' out" "sat s \<sigma> \<Longrightarrow> \<exists>\<tau>. agree (em_next s) \<sigma> \<tau> \<and> sat s' \<tau>"
    "sat s' \<sigma> \<Longrightarrow> val s \<sigma> out = val s \<sigma> x ^ 5 mod ?p" by blast+
qed

end
