(* ===== verification/ZkPoseidon.thy ===== *)
theory ZkPoseidon
  imports ZkGadgetOps ZkPoseidonTables
begin

text \<open>
  \<^verbatim>\<open>ZkEmitter::emit_poseidon\<close> (\<^verbatim>\<open>src/zk_emitter.rs\<close>) on already lowered arguments: the optimised
  Poseidon permutation with a state of three elements, as S-box constraints between linear
  mixes. The reference is the same permutation on field elements; the circuit is shown to
  compute it, with three constraints per S-box of a lane that is not constant.
\<close>

section \<open>Parameters\<close>

record poseidon_t3_params =
  pt_c :: "int list"
  pt_s :: "int list"
  pt_m :: "int list list"
  pt_p :: "int list list"

text \<open>Parsed into the field: \<^verbatim>\<open>Fr::from_biguint\<close> reduces. The cache of the code is keyed by the modulus.\<close>

definition poseidon_t3_params_for :: "int \<Rightarrow> poseidon_t3_params" where
  "poseidon_t3_params_for p =
     \<lparr>pt_c = map (\<lambda>c. c mod p) poseidon_c_t3, pt_s = map (\<lambda>c. c mod p) poseidon_s_t3,
      pt_m = map (map (\<lambda>c. c mod p)) poseidon_m_t3, pt_p = map (map (\<lambda>c. c mod p)) poseidon_p_t3\<rparr>"

section \<open>The circuit\<close>

fun sbox_all :: "lc list \<Rightarrow> em \<Rightarrow> lc list \<times> em" where
  "sbox_all [] s = ([], s)"
| "sbox_all (x # xs) s =
     (let (y, s1) = emit_poseidon_sbox x s; (ys, s2) = sbox_all xs s1 in (y # ys, s2))"

definition pos_ark :: "int list \<Rightarrow> nat \<Rightarrow> lc list \<Rightarrow> lc list" where
  "pos_ark c off st = map (\<lambda>(j, x). lc_add_constant x (c ! (off + j))) (enumerate 0 st)"

text \<open>\<open>out[i] = sum_j mat[j][i] * in[j]\<close>.\<close>

definition pos_mix :: "int \<Rightarrow> int list list \<Rightarrow> lc list \<Rightarrow> lc list" where
  "pos_mix p mat st =
     map (\<lambda>i. lc_simplify p (foldl (\<lambda>out (j, x). lc_add_linear p out x (mat ! j ! i)) lc_zero (enumerate 0 (take 3 st)))) [0..<3]"

definition full_round :: "int list \<Rightarrow> nat \<Rightarrow> int list list \<Rightarrow> lc list \<times> em \<Rightarrow> lc list \<times> em" where
  "full_round c off mat st =
     (let (sig, s) = sbox_all (fst st) (snd st) in (pos_mix (em_p s) mat (pos_ark c off sig), s))"

definition partial_round :: "poseidon_t3_params \<Rightarrow> nat \<Rightarrow> lc list \<times> em \<Rightarrow> lc list \<times> em" where
  "partial_round t r st =
     (let p = em_p (snd st);
          (y, s) = emit_poseidon_sbox (fst st ! 0) (snd st);
          inp = (fst st)[0 := lc_add_constant y (pt_c t ! (5 * 3 + r))];
          out0 = lc_simplify p (foldl (\<lambda>out (i, x). lc_add_linear p out x (pt_s t ! (5 * r + i))) lc_zero (enumerate 0 (take 3 inp)));
          rest = map (\<lambda>j. lc_simplify p (lc_add_linear p (inp ! j) (inp ! 0) (pt_s t ! (5 * r + 3 + j - 1)))) [1..<3]
      in (out0 # rest, s))"

definition emit_poseidon_core :: "poseidon_t3_params \<Rightarrow> lc list \<Rightarrow> em \<Rightarrow> lc \<times> em" where
  "emit_poseidon_core t args s =
     (let p = em_p s;
          half_f = poseidon_t3_rounds_f div 2;
          st0 = (pos_ark (pt_c t) 0 (lc_constant 0 # args), s);
          st1 = foldl (\<lambda>st r. full_round (pt_c t) ((r + 1) * 3) (pt_m t) st) st0 [0..<half_f - 1];
          st2 = full_round (pt_c t) (half_f * 3) (pt_p t) st1;
          st3 = foldl (\<lambda>st r. partial_round t r st) st2 [0..<poseidon_t3_rounds_p];
          st4 = foldl (\<lambda>st r. full_round (pt_c t) ((half_f + 1) * 3 + poseidon_t3_rounds_p + r * 3) (pt_m t) st) st3 [0..<half_f - 1];
          (sig, s5) = sbox_all (fst st4) (snd st4)
      in (lc_simplify p (foldl (\<lambda>out (j, x). lc_add_linear p out x (pt_m t ! j ! 0)) lc_zero (enumerate 0 (take 3 sig))), s5))"

section \<open>The permutation on field elements\<close>

definition ref_ark :: "int \<Rightarrow> int list \<Rightarrow> nat \<Rightarrow> int list \<Rightarrow> int list" where
  "ref_ark p c off xs = map (\<lambda>(j, x). (x + c ! (off + j)) mod p) (enumerate 0 xs)"

definition ref_sbox :: "int \<Rightarrow> int \<Rightarrow> int" where
  "ref_sbox p x = x ^ 5 mod p"

definition ref_mix :: "int \<Rightarrow> int list list \<Rightarrow> int list \<Rightarrow> int list" where
  "ref_mix p mat xs = map (\<lambda>i. (\<Sum>j<3. mat ! j ! i * xs ! j) mod p) [0..<3]"

definition ref_full :: "int \<Rightarrow> int list \<Rightarrow> nat \<Rightarrow> int list list \<Rightarrow> int list \<Rightarrow> int list" where
  "ref_full p c off mat xs = ref_mix p mat (ref_ark p c off (map (ref_sbox p) xs))"

definition ref_partial :: "int \<Rightarrow> poseidon_t3_params \<Rightarrow> nat \<Rightarrow> int list \<Rightarrow> int list" where
  "ref_partial p t r xs =
     (let y = (ref_sbox p (xs ! 0) + pt_c t ! (15 + r)) mod p
      in [(y * pt_s t ! (5 * r) + xs ! 1 * pt_s t ! (5 * r + 1) + xs ! 2 * pt_s t ! (5 * r + 2)) mod p,
          (xs ! 1 + y * pt_s t ! (5 * r + 3)) mod p, (xs ! 2 + y * pt_s t ! (5 * r + 4)) mod p])"

definition poseidon_ref :: "int \<Rightarrow> poseidon_t3_params \<Rightarrow> int \<Rightarrow> int \<Rightarrow> int" where
  "poseidon_ref p t a b =
     (let x0 = ref_ark p (pt_c t) 0 [0, a, b];
          x1 = foldl (\<lambda>x r. ref_full p (pt_c t) ((r + 1) * 3) (pt_m t) x) x0 [0..<3];
          x2 = ref_full p (pt_c t) 12 (pt_p t) x1;
          x3 = foldl (\<lambda>x r. ref_partial p t r x) x2 [0..<57];
          x4 = foldl (\<lambda>x r. ref_full p (pt_c t) (15 + 57 + r * 3) (pt_m t) x) x3 [0..<3]
      in (\<Sum>j<3. pt_m t ! j ! 0 * ref_sbox p (x4 ! j)) mod p)"

section \<open>The circuit computes the permutation\<close>

text \<open>Tables of canonical elements, of the sizes the rounds index.\<close>

definition canonical_list :: "int \<Rightarrow> nat \<Rightarrow> int list \<Rightarrow> bool" where
  "canonical_list p n xs \<longleftrightarrow> length xs = n \<and> (\<forall>x\<in>set xs. 0 \<le> x \<and> x < p)"

definition canonical_mat :: "int \<Rightarrow> int list list \<Rightarrow> bool" where
  "canonical_mat p m \<longleftrightarrow> length m = 3 \<and> (\<forall>r\<in>set m. canonical_list p 3 r)"

definition params_canonical :: "int \<Rightarrow> poseidon_t3_params \<Rightarrow> bool" where
  "params_canonical p t \<longleftrightarrow> canonical_list p 81 (pt_c t) \<and> canonical_list p 285 (pt_s t) \<and>
     canonical_mat p (pt_m t) \<and> canonical_mat p (pt_p t)"

lemma canonical_list_nth: "canonical_list p n xs \<Longrightarrow> i < n \<Longrightarrow> 0 \<le> xs ! i \<and> xs ! i < p"
  by (simp add: canonical_list_def)

lemma canonical_mat_nth: "canonical_mat p m \<Longrightarrow> i < 3 \<Longrightarrow> j < 3 \<Longrightarrow> 0 \<le> m ! i ! j \<and> m ! i ! j < p"
  using canonical_list_nth [of p 3 "m ! i" j] by (simp add: canonical_mat_def)

lemma poseidon_table_sizes:
  "length poseidon_c_t3 = 81" "length poseidon_s_t3 = 285" "map length poseidon_m_t3 = [3, 3, 3]" "map length poseidon_p_t3 = [3, 3, 3]"
  by code_simp+

lemma canonical_list_mod: "0 < p \<Longrightarrow> canonical_list p (length xs) (map (\<lambda>c. c mod p) xs)"
  by (simp add: canonical_list_def)

lemma canonical_mat_mod: "0 < p \<Longrightarrow> map length m = [3, 3, 3] \<Longrightarrow> canonical_mat p (map (map (\<lambda>c. c mod p)) m)"
  by (auto simp: canonical_mat_def canonical_list_def dest!: map_eq_Cons_D)

lemma params_for_canonical: "0 < p \<Longrightarrow> params_canonical p (poseidon_t3_params_for p)"
  using canonical_list_mod [of p poseidon_c_t3] canonical_list_mod [of p poseidon_s_t3]
    canonical_mat_mod [of p poseidon_m_t3] canonical_mat_mod [of p poseidon_p_t3]
  by (simp add: params_canonical_def poseidon_t3_params_for_def poseidon_table_sizes)

text \<open>What a prefix of the rounds has built on top of \<open>s\<close>: the lanes carry the values \<open>F\<close> under
  every satisfying assignment, and every assignment of \<open>s\<close> extends.\<close>

definition pos_inv :: "em \<Rightarrow> nat \<Rightarrow> lc list \<times> em \<Rightarrow> ((nat \<Rightarrow> int) \<Rightarrow> int list) \<Rightarrow> bool" where
  "pos_inv s n st F \<longleftrightarrow> emits s (snd st) \<and> length (fst st) = n \<and> (\<forall>x\<in>set (fst st). lc_in (snd st) x) \<and>
     (\<forall>\<sigma>. sat (snd st) \<sigma> \<longrightarrow> map (val s \<sigma>) (fst st) = F \<sigma>) \<and>
     (\<forall>\<sigma>. sat s \<sigma> \<longrightarrow> (\<exists>\<tau>. agree (em_next s) \<sigma> \<tau> \<and> sat (snd st) \<tau>))"

lemma sbox_all_state:
  "is_prime (em_p s) \<Longrightarrow> wires_ok s \<Longrightarrow> \<forall>x\<in>set xs. lc_in s x \<Longrightarrow> sbox_all xs s = (ys, s') \<Longrightarrow>
   emits s s' \<and> length ys = length xs \<and> (\<forall>y\<in>set ys. lc_in s' y) \<and>
   (sat s' \<sigma> \<longrightarrow> map (val s \<sigma>) ys = map (\<lambda>x. ref_sbox (em_p s) (val s \<sigma> x)) xs) \<and>
   (sat s \<sigma> \<longrightarrow> (\<exists>\<tau>. agree (em_next s) \<sigma> \<tau> \<and> sat s' \<tau>))"
proof (induction xs arbitrary: s ys \<sigma>)
  case Nil
  then show ?case by (auto simp: emits_refl intro: exI [of _ \<sigma>])
next
  case (Cons x xs)
  obtain y s1 where e: "emit_poseidon_sbox x s = (y, s1)" by force
  obtain zs where r: "sbox_all xs s1 = (zs, s')" "ys = y # zs"
    using Cons.prems(4) e by (auto split: prod.splits)
  have x: "lc_in s x" using Cons.prems(3) by simp
  note b = sbox_emits [OF Cons.prems(1,2) x e]
  have p1: "em_p s1 = em_p s" "is_prime (em_p s1)" using emitsD(3) [OF b(1)] Cons.prems(1) by simp_all
  have xs: "\<forall>x\<in>set xs. lc_in s1 x" using Cons.prems(3) emits_in [OF b(1)] by simp
  note IH = Cons.IH [OF p1(2) emitsD(1) [OF b(1)] xs r(1)]
  have vs: "val s1 \<rho> l = val s \<rho> l" for \<rho> l using p1(1) by (simp add: val_def)
  have 1: "emits s s'" "length ys = length (x # xs)" "\<forall>y\<in>set ys. lc_in s' y"
    using emits_trans [OF b(1)] IH emits_in [OF _ b(2)] by (auto simp: r(2))
  moreover have "map (val s \<sigma>) ys = map (\<lambda>x. ref_sbox (em_p s) (val s \<sigma> x)) (x # xs)" if "sat s' \<sigma>"
  proof -
    have "sat s1 \<sigma>" using emits_sat IH that by blast
    then show ?thesis using b(4) IH [of \<sigma>] that vs p1(1) by (simp add: r(2) ref_sbox_def)
  qed
  moreover have "\<exists>\<tau>. agree (em_next s) \<sigma> \<tau> \<and> sat s' \<tau>" if "sat s \<sigma>"
  proof -
    have "\<exists>\<tau>1. agree (em_next s) \<sigma> \<tau>1 \<and> sat s1 \<tau>1" by (rule sbox_emits(3) [OF Cons.prems(1,2) x e that])
    then obtain \<tau>1 where t1: "agree (em_next s) \<sigma> \<tau>1" "sat s1 \<tau>1" by blast
    then obtain \<tau> where "agree (em_next s1) \<tau>1 \<tau>" "sat s' \<tau>" using IH by blast
    then show ?thesis using emits_agree [OF b(1) t1(1)] by blast
  qed
  ultimately show ?case by blast
qed

lemma sbox_all_inv:
  assumes p: "is_prime (em_p s)" and inv: "pos_inv s n st F" and e: "sbox_all (fst st) (snd st) = (ys, s')"
  shows "pos_inv s n (ys, s') (\<lambda>\<sigma>. map (ref_sbox (em_p s)) (F \<sigma>))"
proof -
  have em: "emits s (snd st)" using inv by (simp add: pos_inv_def)
  have p1: "em_p (snd st) = em_p s" "is_prime (em_p (snd st))" using emitsD(3) [OF em] p by simp_all
  have ins: "\<forall>x\<in>set (fst st). lc_in (snd st) x" using inv by (simp add: pos_inv_def)
  note S = sbox_all_state [OF p1(2) emitsD(1) [OF em] ins e]
  have vs: "val (snd st) \<rho> l = val s \<rho> l" for \<rho> l using p1(1) by (simp add: val_def)
  have "map (val s \<sigma>) ys = map (ref_sbox (em_p s)) (F \<sigma>)" if "sat s' \<sigma>" for \<sigma>
  proof -
    have "sat (snd st) \<sigma>" using emits_sat S that by blast
    then have F: "F \<sigma> = map (val s \<sigma>) (fst st)" using inv by (simp add: pos_inv_def)
    have v: "val (snd st) \<sigma> = val s \<sigma>" by (rule ext) (rule vs)
    have "map (val (snd st) \<sigma>) ys = map (\<lambda>x. ref_sbox (em_p (snd st)) (val (snd st) \<sigma> x)) (fst st)" using S [of \<sigma>] that by blast
    then show ?thesis by (simp add: F v p1(1) comp_def)
  qed
  moreover have "\<exists>\<tau>. agree (em_next s) \<sigma> \<tau> \<and> sat s' \<tau>" if "sat s \<sigma>" for \<sigma>
  proof -
    have "\<exists>\<tau>1. agree (em_next s) \<sigma> \<tau>1 \<and> sat (snd st) \<tau>1" using inv that by (simp add: pos_inv_def)
    then obtain \<tau>1 where t1: "agree (em_next s) \<sigma> \<tau>1" "sat (snd st) \<tau>1" by blast
    then obtain \<tau> where "agree (em_next (snd st)) \<tau>1 \<tau>" "sat s' \<tau>" using S by blast
    then show ?thesis using emits_agree [OF em t1(1)] by blast
  qed
  ultimately show ?thesis using emits_trans [OF em] S inv by (simp add: pos_inv_def)
qed

text \<open>Replacing the lanes by combinations over the same wires.\<close>

lemma pos_inv_lanes:
  assumes inv: "pos_inv s n (xs, s') F" and ys: "length ys = m" "\<forall>y\<in>set ys. lc_in s' y"
    and v: "\<And>\<sigma>. sat s' \<sigma> \<Longrightarrow> map (val s \<sigma>) xs = F \<sigma> \<Longrightarrow> map (val s \<sigma>) ys = G \<sigma>"
  shows "pos_inv s m (ys, s') G"
  using assms by (simp add: pos_inv_def)

lemma list3: "length xs = 3 \<Longrightarrow> xs = [xs ! 0, xs ! 1, xs ! 2]"
  by (auto simp: list_eq_iff_nth_eq less_Suc_eq eval_nat_numeral)

lemma enumerate3: "enumerate 0 [x, y, z] = [(0, x), (1, y), (2, z)]"
  by (simp add: enumerate_Suc_eq)

lemma upt12: "[1..<3] = [1, 2 :: nat]"
  by (simp add: upt_rec)

lemma pos_invD:
  assumes "pos_inv s n (xs, s') F" and "is_prime (em_p s)"
  shows "emits s s'" "wires_ok s'" "em_p s' = em_p s" "length xs = n" "x \<in> set xs \<Longrightarrow> lc_in s' x"
    "sat s' \<sigma> \<Longrightarrow> F \<sigma> = map (val s \<sigma>) xs" "is_prime (em_p s')" "0 < em_next s'" "val s' \<sigma> = val s \<sigma>"
proof -
  show e: "emits s s'" using assms by (simp add: pos_inv_def)
  show "wires_ok s'" "em_p s' = em_p s" "is_prime (em_p s')" using emitsD(1,3) [OF e] assms(2) by simp_all
  then show "0 < em_next s'" by (simp add: wires_ok_def boundary_of_def)
  show "val s' \<sigma> = val s \<sigma>" using emitsD(3) [OF e] by (simp add: val_def fun_eq_iff)
  show "length xs = n" "x \<in> set xs \<Longrightarrow> lc_in s' x" "sat s' \<sigma> \<Longrightarrow> F \<sigma> = map (val s \<sigma>) xs" using assms by (simp_all add: pos_inv_def)
qed

lemma pos_ark_inv:
  assumes p: "is_prime (em_p s)" and inv: "pos_inv s 3 (xs, s') F" and c: "canonical_list (em_p s) n c" "off + 2 < n"
  shows "pos_inv s 3 (pos_ark c off xs, s') (\<lambda>\<sigma>. ref_ark (em_p s) c off (F \<sigma>))"
proof (rule pos_inv_lanes [OF inv])
  note D = pos_invD [OF inv p]
  obtain x y z where xs: "xs = [x, y, z]" using list3 [OF D(4)] by blast
  have k: "0 \<le> c ! (off + j) \<and> c ! (off + j) < em_p s" if "j < 3" for j using canonical_list_nth [OF c(1)] c(2) that by simp
  show "length (pos_ark c off xs) = 3" using D(4) by (simp add: pos_ark_def)
  show "\<forall>y\<in>set (pos_ark c off xs). lc_in s' y"
  proof -
    have "lc_in s' x" "lc_in s' y" "lc_in s' z" using D(5) xs by simp_all
    then have "lc_in s' (lc_add_constant x (c ! (off + 0)))" "lc_in s' (lc_add_constant y (c ! (off + 1)))" "lc_in s' (lc_add_constant z (c ! (off + 2)))"
      using k [of 0] k [of 1] k [of 2] D(3,8) by (simp_all only: lc_in_add_constant)
    then show ?thesis by (simp add: pos_ark_def xs enumerate3)
  qed
  fix \<sigma> assume "sat s' \<sigma>" and F: "map (val s \<sigma>) xs = F \<sigma>"
  then have "\<sigma> 0 = 1" by (simp add: sat_def)
  then show "map (val s \<sigma>) (pos_ark c off xs) = ref_ark (em_p s) c off (F \<sigma>)"
    by (simp add: pos_ark_def ref_ark_def xs enumerate3 val_add_constant flip: F)
qed

text \<open>One output lane of a mix: three scaled lanes, summed and simplified.\<close>

lemma mix_lane:
  assumes p: "is_prime (em_p s)" and x: "lc_in s x" "lc_in s y" "lc_in s z"
    and k: "0 \<le> k0 \<and> k0 < em_p s" "0 \<le> k1 \<and> k1 < em_p s" "0 \<le> k2 \<and> k2 < em_p s"
  shows "lc_in s (lc_simplify (em_p s) (lc_add_linear (em_p s) (lc_add_linear (em_p s) (lc_add_linear (em_p s) lc_zero x k0) y k1) z k2))"
    (is "lc_in s ?l")
    "val s \<sigma> (lc_simplify (em_p s) (lc_add_linear (em_p s) (lc_add_linear (em_p s) (lc_add_linear (em_p s) lc_zero x k0) y k1) z k2)) =
     (k0 * val s \<sigma> x + k1 * val s \<sigma> y + k2 * val s \<sigma> z) mod em_p s"
proof -
  have "0 < em_p s" using is_prime_gt1 [OF p] by simp
  then show "lc_in s ?l" using assms by (intro lc_in_simplify lc_in_add_linear) simp_all
  show "val s \<sigma> ?l = (k0 * val s \<sigma> x + k1 * val s \<sigma> y + k2 * val s \<sigma> z) mod em_p s"
    by (simp add: val_simplify val_add_linear mod_simps)
qed

lemma pos_mix_inv:
  assumes p: "is_prime (em_p s)" and inv: "pos_inv s 3 (xs, s') F" and m: "canonical_mat (em_p s) mat"
  shows "pos_inv s 3 (pos_mix (em_p s') mat xs, s') (\<lambda>\<sigma>. ref_mix (em_p s) mat (F \<sigma>))"
proof (rule pos_inv_lanes [OF inv])
  note D = pos_invD [OF inv p]
  obtain x y z where xs: "xs = [x, y, z]" using list3 [OF D(4)] by blast
  have k: "0 \<le> mat ! j ! i \<and> mat ! j ! i < em_p s'" if "i < 3" "j < 3" for i j using canonical_mat_nth [OF m] D(3) that by simp
  have ins: "lc_in s' x" "lc_in s' y" "lc_in s' z" using D(5) xs by simp_all
  have lane: "foldl (\<lambda>out (j, x). lc_add_linear (em_p s') out x (mat ! j ! i)) lc_zero (enumerate 0 (take 3 xs)) =
      lc_add_linear (em_p s') (lc_add_linear (em_p s') (lc_add_linear (em_p s') lc_zero x (mat ! 0 ! i)) y (mat ! 1 ! i)) z (mat ! 2 ! i)" for i
    by (simp add: xs enumerate3 numeral_2_eq_2)
  note L = mix_lane [OF D(7) ins k k k]
  show "length (pos_mix (em_p s') mat xs) = 3" by (simp add: pos_mix_def)
  show "\<forall>y\<in>set (pos_mix (em_p s') mat xs). lc_in s' y" unfolding pos_mix_def lane by (auto intro!: L(1))
  fix \<sigma> assume "map (val s \<sigma>) xs = F \<sigma>"
  then have F: "F \<sigma> = [val s \<sigma> x, val s \<sigma> y, val s \<sigma> z]" by (simp add: xs)
  have sum3: "(\<Sum>j<3. g j) = g 0 + g 1 + g 2" for g :: "nat \<Rightarrow> int" by (simp add: eval_nat_numeral)
  have "(val s' \<sigma> \<circ> (\<lambda>i. lc_simplify (em_p s') (foldl (\<lambda>out (j, x). lc_add_linear (em_p s') out x (mat ! j ! i)) lc_zero (enumerate 0 (take 3 xs))))) i
      = (\<Sum>j<3. mat ! j ! i * F \<sigma> ! j) mod em_p s" if "i < 3" for i
    using mix_lane(2) [OF D(7) ins k [OF that, of 0] k [OF that, of 1] k [OF that, of 2], of \<sigma>]
    unfolding o_def lane by (simp add: F sum3 D(3,9))
  then have "map (val s' \<sigma>) (pos_mix (em_p s') mat xs) = ref_mix (em_p s) mat (F \<sigma>)"
    by (simp add: pos_mix_def ref_mix_def)
  then show "map (val s \<sigma>) (pos_mix (em_p s') mat xs) = ref_mix (em_p s) mat (F \<sigma>)" by (simp only: D(9))
qed

lemma full_round_inv:
  assumes p: "is_prime (em_p s)" and inv: "pos_inv s 3 st F" and c: "canonical_list (em_p s) n c" "off + 2 < n"
    and m: "canonical_mat (em_p s) mat"
  shows "pos_inv s 3 (full_round c off mat st) (\<lambda>\<sigma>. ref_full (em_p s) c off mat (F \<sigma>))"
proof -
  obtain ys s' where e: "sbox_all (fst st) (snd st) = (ys, s')" by force
  show ?thesis unfolding full_round_def ref_full_def e Let_def prod.case
    by (intro pos_mix_inv [OF p _ m] pos_ark_inv [OF p _ c] sbox_all_inv [OF p inv e])
qed

lemma partial_round_inv:
  assumes p: "is_prime (em_p s)" and inv: "pos_inv s 3 st F" and t: "params_canonical (em_p s) t" and r: "r < 57"
  shows "pos_inv s 3 (partial_round t r st) (\<lambda>\<sigma>. ref_partial (em_p s) t r (F \<sigma>))"
proof -
  obtain xs s1 where st: "st = (xs, s1)" by force
  note D = pos_invD [OF inv [unfolded st] p]
  obtain x y z where xs: "xs = [x, y, z]" using list3 [OF D(4)] by blast
  obtain w s' where e: "emit_poseidon_sbox x s1 = (w, s')" by force
  have x: "lc_in s1 x" "lc_in s1 y" "lc_in s1 z" using D(5) xs by simp_all
  note B = sbox_emits [OF D(7) D(2) x(1) e]
  have es: "emits s s'" by (rule emits_trans [OF D(1) B(1)])
  have p': "em_p s' = em_p s" "is_prime (em_p s')" "0 < em_next s'" "0 < em_p s"
    using emitsD(1,3) [OF es] p is_prime_gt1 [OF p] by (simp_all add: wires_ok_def boundary_of_def)
  have C: "0 \<le> pt_c t ! (15 + r) \<and> pt_c t ! (15 + r) < em_p s'"
    and S: "0 \<le> pt_s t ! (5 * r + i) \<and> pt_s t ! (5 * r + i) < em_p s'" if "i < 5" for i
    using t r canonical_list_nth [of "em_p s'" 81 "pt_c t" "15 + r"] canonical_list_nth [of "em_p s'" 285 "pt_s t" "5 * r + i"] that p'(1)
    by (simp_all add: params_canonical_def)
  define u where "u = lc_add_constant w (pt_c t ! (15 + r))"
  have ins: "lc_in s' u" "lc_in s' y" "lc_in s' z"
    using lc_in_add_constant [OF B(2) p'(3)] C [of 0] emits_in [OF B(1)] x by (simp_all add: u_def)
  let ?o0 = "lc_simplify (em_p s') (lc_add_linear (em_p s') (lc_add_linear (em_p s') (lc_add_linear (em_p s') lc_zero u (pt_s t ! (5 * r + 0)))
      y (pt_s t ! (5 * r + 1))) z (pt_s t ! (5 * r + 2)))"
  let ?o1 = "lc_simplify (em_p s') (lc_add_linear (em_p s') y u (pt_s t ! (5 * r + 3)))"
  let ?o2 = "lc_simplify (em_p s') (lc_add_linear (em_p s') z u (pt_s t ! (5 * r + 4)))"
  have res: "partial_round t r st = ([?o0, ?o1, ?o2], s')"
    by (simp add: partial_round_def st xs e u_def Let_def enumerate3 upt12 [unfolded One_nat_def] p'(1) D(3) numeral_2_eq_2 add.commute)
      (simp add: eval_nat_numeral)
  have "lc_in s' ?o0" by (rule mix_lane(1) [OF p'(2) ins S S S]) simp_all
  moreover have "lc_in s' ?o1" "lc_in s' ?o2"
    using S [of 3] S [of 4] is_prime_gt1 [OF p'(2)] by (intro lc_in_simplify lc_in_add_linear p'(2) ins; simp)+
  ultimately have out: "lc_in s' ?o0" "lc_in s' ?o1" "lc_in s' ?o2" by blast+
  show ?thesis unfolding res pos_inv_def fst_conv snd_conv
  proof (intro conjI allI impI)
    show "emits s s'" by (rule es)
    show "length [?o0, ?o1, ?o2] = 3" by simp
    show "\<forall>x\<in>set [?o0, ?o1, ?o2]. lc_in s' x" using out by simp
  next
    fix \<sigma> assume sat: "sat s' \<sigma>"
    have s1: "sat s1 \<sigma>" by (rule emits_sat [OF B(1) sat])
    have F: "F \<sigma> = [val s \<sigma> x, val s \<sigma> y, val s \<sigma> z]" using D(6) [OF s1] by (simp add: xs)
    have v': "val s' \<sigma> = val s \<sigma>" by (simp add: val_def p' fun_eq_iff)
    have w: "val s \<sigma> w = ref_sbox (em_p s) (val s \<sigma> x)"
      using B(4) [OF sat] D(3) D(9) [of \<sigma>] by (simp add: ref_sbox_def)
    have u: "val s' \<sigma> u = (ref_sbox (em_p s) (F \<sigma> ! 0) + pt_c t ! (15 + r)) mod em_p s"
      using val_add_constant [of \<sigma> s' w] sat_0 [OF sat] by (simp add: u_def v' w F p')
    have o0: "val s' \<sigma> ?o0 = (pt_s t ! (5 * r + 0) * val s' \<sigma> u + pt_s t ! (5 * r + 1) * val s' \<sigma> y + pt_s t ! (5 * r + 2) * val s' \<sigma> z) mod em_p s'"
      by (rule mix_lane(2) [OF p'(2) ins S S S]) simp_all
    have o1: "val s' \<sigma> ?o1 = (val s' \<sigma> y + pt_s t ! (5 * r + 3) * val s' \<sigma> u) mod em_p s'"
      by (simp only: val_simplify val_add_linear)
    have o2: "val s' \<sigma> ?o2 = (val s' \<sigma> z + pt_s t ! (5 * r + 4) * val s' \<sigma> u) mod em_p s'"
      by (simp only: val_simplify val_add_linear)
    have "map (val s' \<sigma>) [?o0, ?o1, ?o2] = ref_partial (em_p s) t r (F \<sigma>)"
      unfolding list.map o0 o1 o2 u ref_partial_def Let_def by (simp add: p'(1) F v' mult.commute)
    then show "map (val s \<sigma>) [?o0, ?o1, ?o2] = ref_partial (em_p s) t r (F \<sigma>)" by (simp only: v')
  next
    fix \<sigma> assume "sat s \<sigma>"
    then have "\<exists>\<tau>1. agree (em_next s) \<sigma> \<tau>1 \<and> sat s1 \<tau>1" using inv by (simp add: pos_inv_def st)
    then obtain \<tau>1 where t1: "agree (em_next s) \<sigma> \<tau>1" "sat s1 \<tau>1" by blast
    obtain \<tau> where "agree (em_next s1) \<tau>1 \<tau>" "sat s' \<tau>" using B(3) [of \<tau>1] t1(2) by blast
    then show "\<exists>\<tau>. agree (em_next s) \<sigma> \<tau> \<and> sat s' \<tau>" using emits_agree [OF D(1) t1(1)] by blast
  qed
qed

lemma foldl_pos_inv:
  assumes "pos_inv s 3 st F"
    and step: "\<And>r st F. r < n \<Longrightarrow> pos_inv s 3 st F \<Longrightarrow> pos_inv s 3 (f st r) (\<lambda>\<sigma>. g (F \<sigma>) r)"
  shows "pos_inv s 3 (foldl f st [0..<n]) (\<lambda>\<sigma>. foldl g (F \<sigma>) [0..<n])"
  using step
proof (induction n)
  case 0
  then show ?case using assms(1) by simp
next
  case (Suc n)
  have "pos_inv s 3 (foldl f st [0..<n]) (\<lambda>\<sigma>. foldl g (F \<sigma>) [0..<n])"
    by (rule Suc.IH) (auto intro: Suc.prems)
  then show ?case using Suc.prems [of n] by simp
qed

text \<open>The circuit computes the permutation on every satisfying assignment, and every assignment
  of the circuit so far extends to one.\<close>

lemma poseidon_core_emits:
  assumes p: "is_prime (em_p s)" and ok: "wires_ok s" and a: "lc_in s a" "lc_in s b"
    and t: "params_canonical (em_p s) t" and e: "emit_poseidon_core t [a, b] s = (out, s')"
  shows "emits s s'" "lc_in s' out"
    "sat s' \<sigma> \<Longrightarrow> val s \<sigma> out = poseidon_ref (em_p s) t (val s \<sigma> a) (val s \<sigma> b)"
    "sat s \<sigma> \<Longrightarrow> \<exists>\<tau>. agree (em_next s) \<sigma> \<tau> \<and> sat s' \<tau>"
proof -
  let ?p = "em_p s"
  have pos: "0 < ?p" "1 < ?p" "0 < em_next s" using is_prime_gt1 [OF p] ok by (simp_all add: wires_ok_def boundary_of_def)
  have c: "canonical_list ?p 81 (pt_c t)" and m: "canonical_mat ?p (pt_m t)" "canonical_mat ?p (pt_p t)" using t by (simp_all add: params_canonical_def)
  define st0 where "st0 = (pos_ark (pt_c t) 0 [lc_constant 0, a, b], s)"
  define st1 where "st1 = foldl (\<lambda>st r. full_round (pt_c t) ((r + 1) * 3) (pt_m t) st) st0 [0..<3]"
  define st2 where "st2 = full_round (pt_c t) 12 (pt_p t) st1"
  define st3 where "st3 = foldl (\<lambda>st r. partial_round t r st) st2 [0..<57]"
  define st4 where "st4 = foldl (\<lambda>st r. full_round (pt_c t) (15 + 57 + r * 3) (pt_m t) st) st3 [0..<3]"
  define F0 where "F0 = (\<lambda>\<sigma>. ref_ark ?p (pt_c t) 0 [0, val s \<sigma> a, val s \<sigma> b])"
  define F1 where "F1 = (\<lambda>\<sigma>. foldl (\<lambda>x r. ref_full ?p (pt_c t) ((r + 1) * 3) (pt_m t) x) (F0 \<sigma>) [0..<3])"
  define F2 where "F2 = (\<lambda>\<sigma>. ref_full ?p (pt_c t) 12 (pt_p t) (F1 \<sigma>))"
  define F3 where "F3 = (\<lambda>\<sigma>. foldl (\<lambda>x r. ref_partial ?p t r x) (F2 \<sigma>) [0..<57])"
  define F4 where "F4 = (\<lambda>\<sigma>. foldl (\<lambda>x r. ref_full ?p (pt_c t) (15 + 57 + r * 3) (pt_m t) x) (F3 \<sigma>) [0..<3])"
  have "pos_inv s 3 ([lc_constant 0, a, b], s) (\<lambda>\<sigma>. map (val s \<sigma>) [lc_constant 0, a, b])"
    using emits_refl [OF ok] a pos lc_in_const [of 0 s] by (simp add: pos_inv_def) (metis agree_def)
  from pos_ark_inv [OF p this c, of 0]
  have "pos_inv s 3 st0 (\<lambda>\<sigma>. ref_ark ?p (pt_c t) 0 (map (val s \<sigma>) [lc_constant 0, a, b]))" by (simp add: st0_def)
  moreover have "map (val s \<sigma>) [lc_constant 0, a, b] = [0, val s \<sigma> a, val s \<sigma> b]" for \<sigma> by (simp add: val_def lc_constant_def)
  ultimately have i0: "pos_inv s 3 st0 F0" by (simp only: F0_def)
  have i1: "pos_inv s 3 st1 F1" unfolding st1_def F1_def by (intro foldl_pos_inv [OF i0] full_round_inv [OF p _ c _ m(1)]) simp_all
  have i2: "pos_inv s 3 st2 F2" unfolding st2_def F2_def by (rule full_round_inv [OF p i1 c _ m(2)]) simp
  have i3: "pos_inv s 3 st3 F3" unfolding st3_def F3_def by (intro foldl_pos_inv [OF i2] partial_round_inv [OF p _ t])
  have i4: "pos_inv s 3 st4 F4" unfolding st4_def F4_def by (intro foldl_pos_inv [OF i3] full_round_inv [OF p _ c _ m(1)]) simp_all
  obtain sig s5 where sb: "sbox_all (fst st4) (snd st4) = (sig, s5)" by force
  note i5 = sbox_all_inv [OF p i4 sb]
  note D = pos_invD [OF i5 p]
  obtain x y z where sig: "sig = [x, y, z]" using list3 [OF D(4)] by blast
  let ?out = "lc_simplify ?p (lc_add_linear ?p (lc_add_linear ?p (lc_add_linear ?p lc_zero x (pt_m t ! 0 ! 0)) y (pt_m t ! 1 ! 0)) z (pt_m t ! 2 ! 0))"
  have rounds: "poseidon_t3_rounds_f div 2 = 4" "4 - 1 = (3 :: nat)" "4 * 3 = (12 :: nat)" "(4 + 1) * 3 = (15 :: nat)"
    by (simp_all add: poseidon_t3_rounds_f_def)
  have "emit_poseidon_core t [a, b] s = (let (sig, s5) = sbox_all (fst st4) (snd st4)
      in (lc_simplify ?p (foldl (\<lambda>out (j, x). lc_add_linear ?p out x (pt_m t ! j ! 0)) lc_zero (enumerate 0 (take 3 sig))), s5))"
    unfolding emit_poseidon_core_def Let_def rounds poseidon_t3_rounds_p_def st0_def st1_def st2_def st3_def st4_def by (rule refl)
  then have r: "out = ?out" "s' = s5" using e by (simp_all add: sb sig enumerate3 numeral_2_eq_2)
  have em: "em_p s5 = ?p" by (rule D(3))
  have ins: "lc_in s5 x" "lc_in s5 y" "lc_in s5 z" using D(5) sig by simp_all
  have k: "0 \<le> pt_m t ! j ! 0 \<and> pt_m t ! j ! 0 < em_p s5" if "j < 3" for j using canonical_mat_nth [OF m(1), of j 0] em that by simp
  have k3: "0 \<le> pt_m t ! 0 ! 0 \<and> pt_m t ! 0 ! 0 < em_p s5" "0 \<le> pt_m t ! 1 ! 0 \<and> pt_m t ! 1 ! 0 < em_p s5"
    "0 \<le> pt_m t ! 2 ! 0 \<and> pt_m t ! 2 ! 0 < em_p s5" by (rule k, simp)+
  note L = mix_lane [OF D(7) ins k3, unfolded em]
  show "emits s s'" using D(1) r by simp
  show "lc_in s' out" using L(1) r by simp
  show "\<exists>\<tau>. agree (em_next s) \<sigma> \<tau> \<and> sat s' \<tau>" if "sat s \<sigma>" using i5 that r by (simp add: pos_inv_def)
  show "val s \<sigma> out = poseidon_ref ?p t (val s \<sigma> a) (val s \<sigma> b)" if "sat s' \<sigma>"
  proof -
    have F: "map (ref_sbox ?p) (F4 \<sigma>) = [val s \<sigma> x, val s \<sigma> y, val s \<sigma> z]" using D(6) [of \<sigma>] that by (simp add: r sig)
    have l: "length (F4 \<sigma>) = 3" using arg_cong [OF F, of length] by simp
    have n: "ref_sbox ?p (F4 \<sigma> ! j) = [val s \<sigma> x, val s \<sigma> y, val s \<sigma> z] ! j" if "j < 3" for j using nth_map [of j "F4 \<sigma>" "ref_sbox ?p"] that by (simp add: F l)
    have sum3: "(\<Sum>j<3. g j) = g 0 + g 1 + g 2" for g :: "nat \<Rightarrow> int" by (simp add: eval_nat_numeral)
    have "poseidon_ref ?p t (val s \<sigma> a) (val s \<sigma> b) = (\<Sum>j<3. pt_m t ! j ! 0 * ref_sbox ?p (F4 \<sigma> ! j)) mod ?p"
      unfolding poseidon_ref_def Let_def F4_def F3_def F2_def F1_def F0_def by (rule refl)
    also have "\<dots> = (pt_m t ! 0 ! 0 * val s \<sigma> x + pt_m t ! 1 ! 0 * val s \<sigma> y + pt_m t ! 2 ! 0 * val s \<sigma> z) mod ?p"
      unfolding sum3 by (simp add: n)
    also have "\<dots> = val s5 \<sigma> out" unfolding r L(2) by (simp only: D(9))
    finally show ?thesis by (simp only: D(9))
  qed
qed

end
