(* ===== verification/YWalk.thy ===== *)
theory YWalk
  imports YAst
begin

text \<open>
  The walk over every statement of a program (\<^verbatim>\<open>for_each_stmt\<close> of \<^verbatim>\<open>src/ast.rs\<close>) and the query for
  cache-policy directives that every backend but one refuses.
\<close>

section \<open>The walk over every statement\<close>

text \<open>The statements \<^verbatim>\<open>for_each_stmt\<close> visits, in order: a statement before the ones inside it.
  Types are not walked.\<close>

lemma size_list_mem: "x \<in> set xs \<Longrightarrow> f x \<le> size_list f xs"
  by (induction xs) auto

function walk_stmt :: "stmt \<Rightarrow> stmt list" and walk_expr :: "expr \<Rightarrow> stmt list" where
  "walk_stmt (Let a t i c z b s) =
     Let a t i c z b s # (case i of Some e \<Rightarrow> walk_expr e | None \<Rightarrow> []) @
     (case b of Some (BoundsAttr lo hi _) \<Rightarrow> walk_expr lo @ walk_expr hi | None \<Rightarrow> [])"
| "walk_stmt (For v a b st (Block ss bs) iv u tile pf s) =
     For v a b st (Block ss bs) iv u tile pf s # walk_expr a @ walk_expr b @ (case st of Some e \<Rightarrow> walk_expr e | None \<Rightarrow> []) @
     (case iv of Some e \<Rightarrow> walk_expr e | None \<Rightarrow> []) @
     (case tile of Some (TileAttr m n k _) \<Rightarrow> walk_expr m @ walk_expr n @ (case k of Some e \<Rightarrow> walk_expr e | None \<Rightarrow> []) | None \<Rightarrow> []) @
     (case pf of Some (PrefetchStrideAttr (Some e) _) \<Rightarrow> walk_expr e | _ \<Rightarrow> []) @ concat (map walk_stmt ss)"
| "walk_stmt (Assign t e s) = Assign t e s # walk_expr t @ walk_expr e"
| "walk_stmt (CompoundAssign t op e s) = CompoundAssign t op e s # walk_expr t @ walk_expr e"
| "walk_stmt (Expr e) = Expr e # walk_expr e"
| "walk_stmt (Return r s) = Return r s # (case r of Some e \<Rightarrow> walk_expr e | None \<Rightarrow> [])"
| "walk_stmt (Chisel (Block ss bs) s) = Chisel (Block ss bs) s # concat (map walk_stmt ss)"
| "walk_stmt (SafeBlock (Block ss bs) s) = SafeBlock (Block ss bs) s # concat (map walk_stmt ss)"
| "walk_stmt (GhostBlock (Block ss bs) s) = GhostBlock (Block ss bs) s # concat (map walk_stmt ss)"
| "walk_stmt (If c (Block ss bs) el u s) =
     If c (Block ss bs) el u s # walk_expr c @ concat (map walk_stmt ss) @
     (case el of Some (Block es _) \<Rightarrow> concat (map walk_stmt es) | None \<Rightarrow> [])"
| "walk_stmt (While c (Block ss bs) iv mi u s) =
     While c (Block ss bs) iv mi u s # walk_expr c @ (case iv of Some e \<Rightarrow> walk_expr e | None \<Rightarrow> []) @ concat (map walk_stmt ss)"
| "walk_stmt (Match e arms s) =
     Match e arms s # walk_expr e @
     concat (map (\<lambda>arm. case arm of MatchArm pat body _ \<Rightarrow> (case pat of PLiteral l \<Rightarrow> walk_expr l | _ \<Rightarrow> []) @ walk_expr body) arms)"
| "walk_stmt (ClockDomainBlock e (Block ss bs) s) = ClockDomainBlock e (Block ss bs) s # walk_expr e @ concat (map walk_stmt ss)"
| "walk_stmt (CompileTimeAssert e m s) = CompileTimeAssert e m s # walk_expr e"
| "walk_stmt (HintBlock os (Block ss bs) s) = HintBlock os (Block ss bs) s # concat (map walk_stmt ss)"
| "walk_stmt (TypeAlias a t s) = [TypeAlias a t s]"
| "walk_stmt (Break s) = [Break s]"
| "walk_expr (Call f as _) = walk_expr f @ concat (map walk_expr as)"
| "walk_expr (GenericCall f _ as _) = walk_expr f @ concat (map walk_expr as)"
| "walk_expr (Index a i _) = walk_expr a @ walk_expr i"
| "walk_expr (MemberAccess a _ _) = walk_expr a"
| "walk_expr (BinaryOp l _ r _) = walk_expr l @ walk_expr r"
| "walk_expr (UnaryOp _ e _) = walk_expr e"
| "walk_expr (BlockExpr (Block ss _) _) = concat (map walk_stmt ss)"
| "walk_expr (StructLit _ fs _) = concat (map (\<lambda>(_, e). walk_expr e) fs)"
| "walk_expr (Ident _ _) = []"
| "walk_expr (IntLit _ _) = []"
| "walk_expr (FloatLit _ _) = []"
| "walk_expr (StringLit _ _) = []"
| "walk_expr (CharLit _ _) = []"
| "walk_expr (Path _ _ _) = []"
| "walk_expr (BoolLit _ _) = []"
| "walk_expr (SelfLit _) = []"
| "walk_expr (ZeroInit _) = []"
  by (pat_completeness) auto
termination
  by (relation "measure (case_sum size size)")
    (auto dest!: size_list_mem [where f = size] size_list_mem [of "MatchArm _ _ _" _ "size_match_arm size"]
      size_list_mem [of "(_, _)" _ "size_prod (\<lambda>_. 0) size"])

definition walk_block :: "stmt block \<Rightarrow> stmt list" where
  "walk_block b = concat (map walk_stmt (block_stmts b))"

fun walk_item :: "item \<Rightarrow> stmt list" where
  "walk_item (KernelItem k) = walk_block (kd_body k)"
| "walk_item (Func f) = walk_block (fd_body f)"
| "walk_item (Impl im) = concat (map (\<lambda>m. walk_block (fd_body m)) (im_methods im))"
| "walk_item (Module _ _ _ _ items _) = concat (map walk_item items)"
| "walk_item (Const c) = walk_expr (cd_value c)"
| "walk_item (StaticAssert a) = walk_expr (sa_condition a)"
| "walk_item (Struct _) = []"
| "walk_item (Enum _) = []"
| "walk_item (Import _) = []"

text \<open>\<^verbatim>\<open>for_each_stmt\<close> calls its closure on the statements in this order; the closure's captured
  variables are the state threaded through.\<close>

definition for_each_stmt :: "item list \<Rightarrow> (stmt \<Rightarrow> 'a \<Rightarrow> 'a) \<Rightarrow> 'a \<Rightarrow> 'a" where
  "for_each_stmt program f = fold f (concat (map walk_item program))"

definition last_line :: "stmt block \<Rightarrow> nat" where
  "last_line b = (case b of Block _ sp \<Rightarrow> fold (\<lambda>s last. max last (sp_line (stmt_span s))) (walk_block b) (sp_line sp))"

section \<open>Cache-policy directives\<close>

record cache_policy_site =
  cps_binding :: string
  cps_policy :: string
  cps_line :: nat

definition cache_policy_sites :: "item list \<Rightarrow> cache_policy_site list" where
  "cache_policy_sites program = for_each_stmt program
     (\<lambda>st sites. case st of
        Let name _ _ (Some cp) _ _ _ \<Rightarrow>
          sites @ [\<lparr>cps_binding = name, cps_policy = cpa_policy cp, cps_line = sp_line (cpa_span cp)\<rparr>]
      | _ \<Rightarrow> sites) []"

end
