(* ===== verification/ZkLowerOps.thy ===== *)
theory ZkLowerOps
  imports ZkPoseidon YWalk
begin

text \<open>
  The operators of \<^verbatim>\<open>ZkEmitter::emit_expr\<close> (\<^verbatim>\<open>src/zk_emitter.rs\<close>) on lowered operands: what folds,
  what becomes a constraint or a gadget, and what is refused. Every operator is shown to keep
  the circuit well formed and to give, under every satisfying assignment, the integer or field
  value the source operator denotes.
\<close>

section \<open>Errors\<close>

text \<open>One constructor per message, with the data it prints. \<open>Panic\<close> is an index or
  \<^verbatim>\<open>unreachable!\<close> panic; \<open>OutOfFuel\<close> is the bound of the model on inlined calls.\<close>

datatype emit_error =
    UndefinedVariable string nat
  | UndefinedElement string string nat
  | UndefinedFunction string nat
  | NoReturnValue string nat
  | InvalidCall nat
  | ForbiddenIndex nat
  | DynamicIndex nat
  | UnsupportedExpr expr nat
  | NonIdentTarget nat
  | BoundsNotConstant string nat
  | BoundsEmpty int int string nat
  | LoopStart nat
  | LoopEnd nat
  | LoopStep nat
  | UnrollLimit nat nat
  | WhileRefused nat
  | BreakRefused nat
  | MatchRefused nat
  | ChiselRefused nat
  | ClockDomainRefused nat
  | RecursionDepth nat
  | DynamicRecursion nat
  | DivisionByZero nat
  | ModuloZero nat
  | ShiftAmount binary_op nat
  | RangeRefused range_error
  | PoseidonArity nat
  | PoseidonField scalar_field
  | UnderConstrained string nat
  | NoEntry
  | PlonkishRefused
  | CachePolicyRefused cache_policy_site
  | Panic
  | OutOfFuel

type_synonym 'a emitted = "emit_error + ('a \<times> em)"

definition require :: "range_error + unit \<Rightarrow> emit_error + unit" where
  "require r = (case r of Inl e \<Rightarrow> Inl (RangeRefused e) | Inr u \<Rightarrow> Inr u)"

text \<open>The operator as the messages print it.\<close>

definition op_name :: "binary_op \<Rightarrow> string" where
  "op_name op = (case op of
     Div \<Rightarrow> ''/'' | Mod \<Rightarrow> ''%'' | Lt \<Rightarrow> ''Lt'' | Le \<Rightarrow> ''Le'' | Gt \<Rightarrow> ''Gt'' | Ge \<Rightarrow> ''Ge''
   | BitAnd \<Rightarrow> ''BitAnd'' | BitOr \<Rightarrow> ''BitOr'' | BitXor \<Rightarrow> ''BitXor'' | Shl \<Rightarrow> ''Shl'' | Shr \<Rightarrow> ''Shr''
   | Add \<Rightarrow> ''Add'' | Sub \<Rightarrow> ''Sub'' | Mul \<Rightarrow> ''Mul'' | Eq \<Rightarrow> ''Eq'' | NotEq \<Rightarrow> ''NotEq'' | And \<Rightarrow> ''And'' | Or \<Rightarrow> ''Or'')"

section \<open>Operators on lowered operands\<close>

definition emit_add :: "lc \<Rightarrow> lc \<Rightarrow> em \<Rightarrow> lc" where
  "emit_add a b s = lc_simplify (em_p s) (lc_add_linear (em_p s) a b 1)"

definition emit_sub :: "lc \<Rightarrow> lc \<Rightarrow> em \<Rightarrow> lc" where
  "emit_sub a b s = lc_simplify (em_p s) (lc_add_linear (em_p s) a b (fr_neg_one (em_p s)))"

definition emit_mul :: "lc \<Rightarrow> lc \<Rightarrow> span \<Rightarrow> em \<Rightarrow> lc \<times> em" where
  "emit_mul a b sp s =
     (case lc_is_constant (em_p s) a of
        Some c \<Rightarrow> (lc_scale (em_p s) b c, s)
      | None \<Rightarrow>
          (case lc_is_constant (em_p s) b of
             Some c \<Rightarrow> (lc_scale (em_p s) a c, s)
           | None \<Rightarrow>
               (let (w, s1) = new_wire ''mul_tmp'' s
                in (lc_variable w,
                    add_constraint \<lparr>con_a = a, con_b = b, con_c = lc_variable w, con_span = Some sp\<rparr> s1))))"

text \<open>\<open>1 - b\<close>, the negation of a flag.\<close>

definition lc_not :: "int \<Rightarrow> lc \<Rightarrow> lc" where
  "lc_not p b = lc_add_linear p (lc_constant 1) b (fr_neg_one p)"

text \<open>\<^verbatim>\<open>/\<close> and \<^verbatim>\<open>%\<close> share the gadget; they differ in the result and in the message for a zero divisor.\<close>

definition emit_division :: "bool \<Rightarrow> lc \<Rightarrow> lc \<Rightarrow> span \<Rightarrow> em \<Rightarrow> lc emitted" where
  "emit_division is_div a b sp s =
     (let p = em_p s; name = op_name (if is_div then Div else Mod) in
      and_then (require (require_gadget_range p b name sp)) (\<lambda>_.
      and_then (require (require_dividend_representable p a name sp)) (\<lambda>_.
        case (lc_u64 p a, lc_u64 p b) of
          (Some l, Some r) \<Rightarrow>
            if r = 0 then Inl ((if is_div then DivisionByZero else ModuloZero) (sp_line sp))
            else and_then (require (require_quotient_range l r name sp)) (\<lambda>_.
              Inr (lc_constant (fr_from_u64 p (if is_div then l div r else l mod r)), s))
        | _ \<Rightarrow> (let ((q, r), s1) = emit_int_div_mod a b zk_comparison_bits sp s
                 in Inr (if is_div then q else r, s1)))))"

definition compare_const :: "binary_op \<Rightarrow> int \<Rightarrow> int \<Rightarrow> bool" where
  "compare_const op x y = (case op of Lt \<Rightarrow> x < y | Le \<Rightarrow> x \<le> y | Gt \<Rightarrow> y < x | _ \<Rightarrow> y \<le> x)"

definition emit_comparison :: "binary_op \<Rightarrow> lc \<Rightarrow> lc \<Rightarrow> span \<Rightarrow> em \<Rightarrow> lc emitted" where
  "emit_comparison op a b sp s =
     (let p = em_p s; n = zk_comparison_bits in
      and_then (require (require_gadget_range2 p a b (op_name op) sp)) (\<lambda>_.
        case (lc_is_constant p a, lc_is_constant p b) of
          (Some x, Some y) \<Rightarrow> Inr (lc_constant (if compare_const op x y then 1 else 0), s)
        | _ \<Rightarrow>
            Inr (case op of
               Lt \<Rightarrow> emit_less_than a b n sp s
             | Gt \<Rightarrow> emit_less_than b a n sp s
             | Le \<Rightarrow> (let (gt, s1) = emit_less_than b a n sp s in (lc_not p gt, s1))
             | _ \<Rightarrow> (let (lt, s1) = emit_less_than a b n sp s in (lc_not p lt, s1)))))"

definition bitwise_const :: "binary_op \<Rightarrow> nat \<Rightarrow> nat \<Rightarrow> nat" where
  "bitwise_const op l r =
     unat (case op of BitAnd \<Rightarrow> (of_nat l :: u64) AND of_nat r | BitOr \<Rightarrow> of_nat l OR of_nat r | _ \<Rightarrow> of_nat l XOR of_nat r)"

definition emit_bit_operator :: "binary_op \<Rightarrow> lc \<Rightarrow> lc \<Rightarrow> span \<Rightarrow> em \<Rightarrow> lc emitted" where
  "emit_bit_operator op a b sp s =
     (let p = em_p s in
      and_then (require (require_gadget_range2 p a b (op_name op) sp)) (\<lambda>_.
        case (lc_u64 p a, lc_u64 p b) of
          (Some l, Some r) \<Rightarrow> Inr (lc_constant (fr_from_u64 p (bitwise_const op l r)), s)
        | _ \<Rightarrow> (case emit_bitwise a b op zk_comparison_bits sp s of Some r \<Rightarrow> Inr r | None \<Rightarrow> Inl Panic)))"

text \<open>\<open>mask\<close> is \<^verbatim>\<open>(1u64 << 32) - 1\<close>. The shift of the code is by less than 32.\<close>

definition shift_const :: "bool \<Rightarrow> nat \<Rightarrow> nat \<Rightarrow> nat" where
  "shift_const left amount l =
     (let x = of_nat l :: u64; m = push_bit zk_comparison_bits 1 - 1
      in unat (if zk_comparison_bits \<le> amount then 0
               else if left then push_bit amount x AND m
               else drop_bit amount (x AND m)))"

definition emit_shift_operator :: "bool \<Rightarrow> lc \<Rightarrow> lc \<Rightarrow> span \<Rightarrow> em \<Rightarrow> lc emitted" where
  "emit_shift_operator left a b sp s =
     (let p = em_p s; op = (if left then Shl else Shr) in
      case lc_u64 p b of
        None \<Rightarrow> Inl (ShiftAmount op (sp_line sp))
      | Some amount \<Rightarrow>
          and_then (require (require_gadget_range p a (op_name op) sp)) (\<lambda>_.
            case lc_u64 p a of
              Some l \<Rightarrow> Inr (lc_constant (fr_from_u64 p (shift_const left amount l)), s)
            | None \<Rightarrow> Inr (emit_shift a amount left zk_comparison_bits sp s)))"

definition emit_logic :: "bool \<Rightarrow> lc \<Rightarrow> lc \<Rightarrow> span \<Rightarrow> em \<Rightarrow> lc \<times> em" where
  "emit_logic is_and a b sp s =
     (let p = em_p s;
          s1 = constrain_boolean b sp (constrain_boolean a sp s);
          (both, s2) = emit_mul_lc a b ''logic_and'' s1
      in if is_and then (both, s2)
         else (lc_simplify p (lc_add_linear p (lc_add_linear p a b 1) both (fr_neg_one p)), s2))"

text \<open>\<^verbatim>\<open>match op\<close> of \<^verbatim>\<open>emit_expr\<close>. \<open>NotEq\<close> is the equality of its operands, which the caller lowers a
  second time, as the code does.\<close>

definition emit_binop :: "binary_op \<Rightarrow> lc \<Rightarrow> lc \<Rightarrow> span \<Rightarrow> em \<Rightarrow> lc emitted" where
  "emit_binop op a b sp s =
     (case op of
        Add \<Rightarrow> Inr (emit_add a b s, s)
      | Sub \<Rightarrow> Inr (emit_sub a b s, s)
      | Mul \<Rightarrow> Inr (emit_mul a b sp s)
      | Div \<Rightarrow> emit_division True a b sp s
      | Mod \<Rightarrow> emit_division False a b sp s
      | Eq \<Rightarrow> Inr (emit_eq a b sp s)
      | NotEq \<Rightarrow> Inr (let (e, s1) = emit_eq a b sp s in (lc_not (em_p s1) e, s1))
      | BitAnd \<Rightarrow> emit_bit_operator op a b sp s
      | BitOr \<Rightarrow> emit_bit_operator op a b sp s
      | BitXor \<Rightarrow> emit_bit_operator op a b sp s
      | Shl \<Rightarrow> emit_shift_operator True a b sp s
      | Shr \<Rightarrow> emit_shift_operator False a b sp s
      | And \<Rightarrow> Inr (emit_logic True a b sp s)
      | Or \<Rightarrow> Inr (emit_logic False a b sp s)
      | _ \<Rightarrow> emit_comparison op a b sp s)"

section \<open>What the operators denote\<close>

text \<open>On canonical field elements. Ordering, division and the bit operators read them as
  integers, arithmetic wraps modulo the field.\<close>

definition op_val :: "int \<Rightarrow> binary_op \<Rightarrow> int \<Rightarrow> int \<Rightarrow> int" where
  "op_val p op a b =
     (case op of
        Add \<Rightarrow> (a + b) mod p
      | Sub \<Rightarrow> (a - b) mod p
      | Mul \<Rightarrow> a * b mod p
      | Div \<Rightarrow> a div b
      | Mod \<Rightarrow> a mod b
      | Eq \<Rightarrow> of_bool (a = b)
      | NotEq \<Rightarrow> of_bool (a \<noteq> b)
      | Lt \<Rightarrow> of_bool (a < b)
      | Le \<Rightarrow> of_bool (a \<le> b)
      | Gt \<Rightarrow> of_bool (b < a)
      | Ge \<Rightarrow> of_bool (b \<le> a)
      | And \<Rightarrow> of_bool (a = 1 \<and> b = 1)
      | Or \<Rightarrow> of_bool (a = 1 \<or> b = 1)
      | Shl \<Rightarrow> int_shift True 32 (nat b) a
      | Shr \<Rightarrow> int_shift False 32 (nat b) a
      | _ \<Rightarrow> int_bitop op a b)"

text \<open>The gadgets need room for their sums and products below the modulus.\<close>

definition op_fits :: "int \<Rightarrow> binary_op \<Rightarrow> bool" where
  "op_fits p op \<longleftrightarrow> op \<in> {Add, Sub, Mul, Eq, NotEq, And, Or} \<or> 2 ^ 64 \<le> p"

text \<open>What the lowering of an operator guarantees.\<close>

definition lowers :: "em \<Rightarrow> lc \<times> em \<Rightarrow> bool \<Rightarrow> ((nat \<Rightarrow> int) \<Rightarrow> int) \<Rightarrow> bool" where
  "lowers s r fits f \<longleftrightarrow> emits s (snd r) \<and> lc_in (snd r) (fst r) \<and>
     (fits \<longrightarrow> (\<forall>\<sigma>. sat (snd r) \<sigma> \<longrightarrow> val s \<sigma> (fst r) = f \<sigma>))"

lemma lowersI:
  "emits s s' \<Longrightarrow> lc_in s' out \<Longrightarrow> (\<And>\<sigma>. fits \<Longrightarrow> sat s' \<sigma> \<Longrightarrow> val s \<sigma> out = f \<sigma>) \<Longrightarrow> lowers s (out, s') fits f"
  by (simp add: lowers_def)

lemma require_Inr [simp]: "require r = Inr u \<longleftrightarrow> r = Inr u"
  by (cases r) (auto simp: require_def)

lemma lc_u64_val: "lc_u64 (em_p s) l = Some n \<Longrightarrow> sat s \<sigma> \<Longrightarrow> 0 < em_p s \<Longrightarrow> val s \<sigma> l = int n \<and> n < 2 ^ 64"
  using val_is_constant [of s l _ \<sigma>] val_range [of s \<sigma> l] sat_0 [of s \<sigma>]
  by (auto simp: lc_u64_def bind_eq_Some_conv split: if_splits)

lemma gadget_range_val:
  assumes "require_gadget_range (em_p s) l nm sp = Inr ()" "lc_is_constant (em_p s) l = Some v" "2 ^ 64 \<le> em_p s"
  shows "v < 2 ^ 32"
proof -
  have "(2 :: int) ^ 32 mod em_p s = 2 ^ 32" using assms(3) by (intro mod_pos_pos_trivial) simp_all
  then show ?thesis using assms by (simp add: require_gadget_range_def zk_comparison_bits_def fr_from_u64_def split: if_splits)
qed

lemma gadget_range2_iff:
  "require_gadget_range2 p a b nm sp = Inr () \<longleftrightarrow> require_gadget_range p a nm sp = Inr () \<and> require_gadget_range p b nm sp = Inr ()"
  by (auto simp: require_gadget_range2_def and_then_Inr_iff)

lemma lc_u64_constant: "lc_u64 p l = Some n \<Longrightarrow> 0 < p \<Longrightarrow> lc_is_constant p l = Some (int n)"
  using lc_is_constant_range by (auto simp: lc_u64_def bind_eq_Some_conv split: if_splits)

section \<open>Arithmetic and logic\<close>

lemma val_scale: "val s \<sigma> (lc_scale (em_p s) l k) = k * val s \<sigma> l mod em_p s"
  by (simp add: val_def lc_scale_sum mod_mult_right_eq)

lemma lc_in_scale: "is_prime (em_p s) \<Longrightarrow> lc_in s l \<Longrightarrow> 0 \<le> k \<Longrightarrow> k < em_p s \<Longrightarrow> lc_in s (lc_scale (em_p s) l k)"
  unfolding lc_in_def using lc_scale_ok [of "em_p s" l k]
  by (auto simp: lc_scale_def lc_zero_def lc_wires_def scale_terms_def split: if_splits)

lemma lc_in_not: "is_prime (em_p s) \<Longrightarrow> wires_ok s \<Longrightarrow> lc_in s b \<Longrightarrow> lc_in s (lc_not (em_p s) b)"
  unfolding lc_not_def using is_prime_gt1 [of "em_p s"] fr_neg_one_range [of "em_p s"] wires_ok_0 [of s]
  by (intro lc_in_add_linear lc_in_const) auto

lemma val_not: "\<sigma> 0 = 1 \<Longrightarrow> 1 < em_p s \<Longrightarrow> val s \<sigma> (lc_not (em_p s) b) = (1 - val s \<sigma> b) mod em_p s"
  by (simp add: lc_not_def val_sub val_const)

lemma val_not_bool: "\<sigma> 0 = 1 \<Longrightarrow> 1 < em_p s \<Longrightarrow> val s \<sigma> b = of_bool c \<Longrightarrow> val s \<sigma> (lc_not (em_p s) b) = of_bool (\<not> c)"
  by (simp add: val_not)

lemma prime_pos: "is_prime q \<Longrightarrow> 0 < q \<and> 1 < q"
  using is_prime_gt1 [of q] by simp

lemma lowers_const:
  assumes "wires_ok s" "0 \<le> v" "v < em_p s"
  shows "lowers s (lc_constant v, s) fits (\<lambda>_. v)"
  using assms wires_ok_0 [OF assms(1)] by (intro lowersI emits_refl lc_in_const) (simp_all add: val_const sat_0)

lemma lowers_add:
  assumes p: "is_prime (em_p s)" and ok: "wires_ok s" and ab: "lc_in s a" "lc_in s b"
  shows "lowers s (emit_add a b s, s) fits (\<lambda>\<sigma>. (val s \<sigma> a + val s \<sigma> b) mod em_p s)"
  using ok ab prime_pos [OF p] unfolding emit_add_def
  by (intro lowersI emits_refl lc_in_simplify lc_in_add_linear p) (simp_all add: val_simplify val_add)

lemma lowers_sub:
  assumes p: "is_prime (em_p s)" and ok: "wires_ok s" and ab: "lc_in s a" "lc_in s b"
  shows "lowers s (emit_sub a b s, s) fits (\<lambda>\<sigma>. (val s \<sigma> a - val s \<sigma> b) mod em_p s)"
  using ok ab prime_pos [OF p] fr_neg_one_range [of "em_p s"] unfolding emit_sub_def
  by (intro lowersI emits_refl lc_in_simplify lc_in_add_linear p) (simp_all add: val_simplify val_sub)

lemma lowers_mul:
  assumes p: "is_prime (em_p s)" and ok: "wires_ok s" and ab: "lc_in s a" "lc_in s b"
  shows "lowers s (emit_mul a b sp s) fits (\<lambda>\<sigma>. val s \<sigma> a * val s \<sigma> b mod em_p s)"
proof (cases "lc_is_constant (em_p s) a")
  case (Some c)
  have "0 \<le> c \<and> c < em_p s" using lc_is_constant_range [OF conjunct1 [OF prime_pos [OF p]] Some] .
  then show ?thesis using ok ab lc_in_scale [OF p ab(2), of c] val_is_constant [OF Some _ conjunct1 [OF prime_pos [OF p]]] sat_0
    by (auto simp: emit_mul_def Some val_scale intro!: lowersI emits_refl)
next
  case A: None
  show ?thesis
  proof (cases "lc_is_constant (em_p s) b")
    case (Some c)
    have "0 \<le> c \<and> c < em_p s" using lc_is_constant_range [OF conjunct1 [OF prime_pos [OF p]] Some] .
    then show ?thesis using ok ab lc_in_scale [OF p ab(1), of c] val_is_constant [OF Some _ conjunct1 [OF prime_pos [OF p]]] sat_0
      by (auto simp: emit_mul_def A Some val_scale mult.commute intro!: lowersI emits_refl)
  next
    case None
    obtain w s1 where w: "new_wire ''mul_tmp'' s = (w, s1)" by force
    have s1: "w = em_next s" "em_p s1 = em_p s" "em_next s1 = em_next s + 1" "em_cons s1 = em_cons s" "emits s s1"
      using w ok by (auto simp: new_wire_def Let_def boundary_of_def intro!: fresh_emits)
    have ins: "lc_in s1 a" "lc_in s1 b" "lc_in s1 (lc_variable w)"
      using emits_in [OF s1(5)] ab lc_in_var [of s1 w] s1 prime_pos [OF p] by simp_all
    note c = constraint_emits [OF emitsD(1) [OF s1(5)] ins, of "Some sp"]
    let ?s2 = "add_constraint \<lparr>con_a = a, con_b = b, con_c = lc_variable w, con_span = Some sp\<rparr> s1"
    have r: "emit_mul a b sp s = (lc_variable w, ?s2)" by (simp add: emit_mul_def A None w)
    show ?thesis unfolding r
    proof (rule lowersI)
      show "emits s ?s2" using emits_trans [OF s1(5) c] .
      show "lc_in ?s2 (lc_variable w)" using emits_in [OF c ins(3)] .
      fix \<sigma> assume "sat ?s2 \<sigma>"
      then show "val s \<sigma> (lc_variable w) = val s \<sigma> a * val s \<sigma> b mod em_p s"
        using s1(2) by (simp add: constraint_sat val_def)
    qed
  qed
qed

lemma lowers_eq:
  assumes p: "is_prime (em_p s)" and ok: "wires_ok s" and ab: "lc_in s a" "lc_in s b"
  shows "lowers s (emit_eq a b sp s) fits (\<lambda>\<sigma>. of_bool (val s \<sigma> a = val s \<sigma> b))"
  using eq_emits [OF p ok ab, of sp "fst (emit_eq a b sp s)" "snd (emit_eq a b sp s)"] by (simp add: lowers_def)

lemma lowers_negated:
  assumes p: "is_prime (em_p s)" and l: "lowers s (e, s1) fits (\<lambda>\<sigma>. of_bool (P \<sigma>))"
  shows "lowers s (lc_not (em_p s) e, s1) fits (\<lambda>\<sigma>. of_bool (\<not> P \<sigma>))"
proof -
  have em: "emits s s1" and e: "lc_in s1 e" using l by (simp_all add: lowers_def)
  have "lc_in s1 (lc_not (em_p s) e)" using lc_in_not [OF _ emitsD(1) [OF em] e] p emitsD(3) [OF em] by simp
  then show ?thesis using l prime_pos [OF p] sat_0 val_not_bool by (simp add: lowers_def)
qed

lemma lowers_logic:
  assumes p: "is_prime (em_p s)" and ok: "wires_ok s" and ab: "lc_in s a" "lc_in s b"
  shows "lowers s (emit_logic is_and a b sp s) fits
    (\<lambda>\<sigma>. of_bool (if is_and then val s \<sigma> a = 1 \<and> val s \<sigma> b = 1 else val s \<sigma> a = 1 \<or> val s \<sigma> b = 1))"
proof -
  have p0: "0 < em_p s" "1 < em_p s" using prime_pos [OF p] by simp_all
  let ?s1 = "constrain_boolean a sp s" and ?s2 = "constrain_boolean b sp (constrain_boolean a sp s)"
  note c1 = constrain_boolean_emits [OF p ok ab(1), of sp]
  have p1: "em_p ?s1 = em_p s" "is_prime (em_p ?s1)" using emitsD(3) [OF c1(1)] p by simp_all
  note c2 = constrain_boolean_emits [OF p1(2) emitsD(1) [OF c1(1)] emits_in [OF c1(1) ab(2)], of sp]
  have em2: "emits s ?s2" using emits_trans [OF c1(1) c2(1)] .
  have p2: "em_p ?s2 = em_p s" "is_prime (em_p ?s2)" using emitsD(3) [OF em2] p by simp_all
  obtain both s3 where m: "emit_mul_lc a b ''logic_and'' ?s2 = (both, s3)" by force
  note m' = mul_lc_emits [OF p2(2) emitsD(1) [OF em2] emits_in [OF em2 ab(1)] emits_in [OF em2 ab(2)] m]
  have em3: "emits s s3" using emits_trans [OF em2 m'(1)] .
  have p3: "em_p s3 = em_p s" "is_prime (em_p s3)" using emitsD(3) [OF em3] p by simp_all
  have vs: "val ?s2 = val s" "val ?s1 = val s" using p1 p2 by (simp_all add: val_def fun_eq_iff)
  have sem: "val s \<sigma> a \<in> {0, 1} \<and> val s \<sigma> b \<in> {0, 1} \<and> val s \<sigma> both = val s \<sigma> a * val s \<sigma> b mod em_p s" if "sat s3 \<sigma>" for \<sigma>
    using that m'(5) [of \<sigma>] c2(2) [of \<sigma>] c1(2) [of \<sigma>] p2 vs by simp
  have both: "val s \<sigma> both = of_bool (val s \<sigma> a = 1 \<and> val s \<sigma> b = 1)" if "sat s3 \<sigma>" for \<sigma>
    using sem [OF that] p0 by auto
  let ?or = "lc_simplify (em_p s) (lc_add_linear (em_p s) (lc_add_linear (em_p s) a b 1) both (fr_neg_one (em_p s)))"
  have "lc_in s3 ?or" unfolding p3(1) [symmetric]
    using emits_in [OF em3] ab m'(2) p0 p3 fr_neg_one_range [OF p0(1)] by (intro lc_in_simplify lc_in_add_linear) simp_all
  moreover have "val s \<sigma> ?or = of_bool (val s \<sigma> a = 1 \<or> val s \<sigma> b = 1)" if "sat s3 \<sigma>" for \<sigma>
    using sem [OF that] p0 by (auto simp: val_simplify val_sub val_add mod_simps)
  ultimately show ?thesis using em3 m'(2) m both p2(1) by (cases is_and) (simp_all add: emit_logic_def Let_def lowers_def)
qed

section \<open>Integer operators\<close>

lemma pow32_le: "2 ^ 64 \<le> (q :: int) \<Longrightarrow> 2 ^ 32 \<le> q \<and> 2 ^ (32 + 1) \<le> q \<and> 2 ^ (2 * 32) \<le> q"
  by simp

lemma from_u64_small: "2 ^ 64 \<le> q \<Longrightarrow> n < 2 ^ 64 \<Longrightarrow> fr_from_u64 q n = int n"
  by (simp add: fr_from_u64_def)

lemma lowers_division:
  assumes p: "is_prime (em_p s)" and ok: "wires_ok s" and ab: "lc_in s a" "lc_in s b" and e: "emit_division d a b sp s = Inr r"
  shows "lowers s r (2 ^ 64 \<le> em_p s) (\<lambda>\<sigma>. if d then val s \<sigma> a div val s \<sigma> b else val s \<sigma> a mod val s \<sigma> b)"
proof (cases "\<exists>l m. lc_u64 (em_p s) a = Some l \<and> lc_u64 (em_p s) b = Some m")
  case True
  have p0: "0 < em_p s" "1 < em_p s" using prime_pos [OF p] by simp_all
  obtain l m where lm: "lc_u64 (em_p s) a = Some l" "lc_u64 (em_p s) b = Some m" using True by blast
  let ?v = "if d then l div m else l mod m"
  have r: "r = (lc_constant (fr_from_u64 (em_p s) ?v), s)"
    using e lm by (auto simp: emit_division_def Let_def and_then_Inr_iff split: if_splits)
  have in_s: "lc_in s (lc_constant (fr_from_u64 (em_p s) ?v))"
    using fr_from_u64_range [OF p0(1)] wires_ok_0 [OF ok] by (intro lc_in_const) simp_all
  show ?thesis unfolding r
  proof (rule lowersI [OF emits_refl [OF ok] in_s])
    fix \<sigma> assume big: "2 ^ 64 \<le> em_p s" and sat: "sat s \<sigma>"
    note A = lc_u64_val [OF lm(1) sat p0(1)] and B = lc_u64_val [OF lm(2) sat p0(1)]
    have "?v \<le> l" using div_le_dividend [of l m] mod_less_eq_dividend [of l m] by simp
    then have "fr_from_u64 (em_p s) ?v = int ?v" using A by (intro from_u64_small [OF big]) linarith
    then have "val s \<sigma> (lc_constant (fr_from_u64 (em_p s) ?v)) = int ?v"
      using fr_from_u64_range [OF p0(1), of ?v] by (simp add: val_const [of \<sigma>] sat_0 [OF sat])
    then show "val s \<sigma> (lc_constant (fr_from_u64 (em_p s) ?v)) = (if d then val s \<sigma> a div val s \<sigma> b else val s \<sigma> a mod val s \<sigma> b)"
      using A B by (simp add: zdiv_int zmod_int)
  qed
next
  case False
  obtain q m s' where g: "emit_int_div_mod a b zk_comparison_bits sp s = ((q, m), s')" by (metis surj_pair)
  have r: "r = (if d then q else m, s')"
    using e False g by (auto simp: emit_division_def Let_def and_then_Inr_iff split: option.splits if_splits)
  note em = int_div_mod_emits [OF p ok ab g]
  show ?thesis unfolding r
  proof (rule lowersI [OF em(1)])
    show "lc_in s' (if d then q else m)" using em by simp
    fix \<sigma> assume big: "2 ^ 64 \<le> em_p s" and sat: "sat s' \<sigma>"
    show "val s \<sigma> (if d then q else m) = (if d then val s \<sigma> a div val s \<sigma> b else val s \<sigma> a mod val s \<sigma> b)"
      using int_div_mod_sound [OF p ok ab g _ _ sat] pow32_le [OF big] by (simp add: zk_comparison_bits_def)
  qed
qed

lemma lowers_less:
  assumes p: "is_prime (em_p s)" and ok: "wires_ok s" and ab: "lc_in s a" "lc_in s b"
  shows "lowers s (emit_less_than a b 32 sp s) (2 ^ 64 \<le> em_p s) (\<lambda>\<sigma>. of_bool (val s \<sigma> a < val s \<sigma> b))"
proof -
  obtain out s' where e: "emit_less_than a b 32 sp s = (out, s')" by force
  show ?thesis unfolding e using less_than_emits [OF p ok ab e] less_than_sound [OF p ok ab e] pow32_le
    by (intro lowersI) blast+
qed

lemma lowers_comparison:
  assumes p: "is_prime (em_p s)" and ok: "wires_ok s" and ab: "lc_in s a" "lc_in s b" and op: "op \<in> {Lt, Le, Gt, Ge}"
    and e: "emit_comparison op a b sp s = Inr r"
  shows "lowers s r (2 ^ 64 \<le> em_p s) (\<lambda>\<sigma>. op_val (em_p s) op (val s \<sigma> a) (val s \<sigma> b))"
proof (cases "\<exists>x y. lc_is_constant (em_p s) a = Some x \<and> lc_is_constant (em_p s) b = Some y")
  case True
  have p0: "0 < em_p s" "1 < em_p s" using prime_pos [OF p] by simp_all
  obtain x y where xy: "lc_is_constant (em_p s) a = Some x" "lc_is_constant (em_p s) b = Some y" using True by blast
  have r: "r = (lc_constant (of_bool (compare_const op x y)), s)"
    using e xy by (auto simp: emit_comparison_def Let_def and_then_Inr_iff of_bool_def)
  have "lowers s r (2 ^ 64 \<le> em_p s) (\<lambda>_. of_bool (compare_const op x y))"
    unfolding r using p0 by (intro lowers_const ok) auto
  moreover have "op_val (em_p s) op (val s \<sigma> a) (val s \<sigma> b) = of_bool (compare_const op x y)" if "\<sigma> 0 = 1" for \<sigma>
    using op val_is_constant [where \<sigma> = \<sigma>, OF xy(1) that p0(1)] val_is_constant [where \<sigma> = \<sigma>, OF xy(2) that p0(1)] by (auto simp: op_val_def compare_const_def)
  ultimately show ?thesis using sat_0 by (auto simp: lowers_def)
next
  case False
  have r: "r = (case op of
             Lt \<Rightarrow> emit_less_than a b 32 sp s
           | Gt \<Rightarrow> emit_less_than b a 32 sp s
           | Le \<Rightarrow> (let (gt, s1) = emit_less_than b a 32 sp s in (lc_not (em_p s) gt, s1))
           | _ \<Rightarrow> (let (lt, s1) = emit_less_than a b 32 sp s in (lc_not (em_p s) lt, s1)))"
    using e False by (auto simp: emit_comparison_def Let_def and_then_Inr_iff zk_comparison_bits_def split: option.splits)
  note lt = lowers_less [OF p ok ab, of sp] and gt = lowers_less [OF p ok ab(2,1), of sp]
  obtain x1 s1 where e1: "emit_less_than a b 32 sp s = (x1, s1)" by force
  obtain x2 s2 where e2: "emit_less_than b a 32 sp s = (x2, s2)" by force
  have "lowers s r (2 ^ 64 \<le> em_p s) (\<lambda>\<sigma>. of_bool (case op of Lt \<Rightarrow> val s \<sigma> a < val s \<sigma> b | Gt \<Rightarrow> val s \<sigma> b < val s \<sigma> a
      | Le \<Rightarrow> \<not> val s \<sigma> b < val s \<sigma> a | _ \<Rightarrow> \<not> val s \<sigma> a < val s \<sigma> b))"
    using op lt gt lowers_negated [OF p] by (auto simp: r e1 e2)
  moreover have "of_bool (case op of Lt \<Rightarrow> x < y | Gt \<Rightarrow> y < x | Le \<Rightarrow> \<not> y < x | _ \<Rightarrow> \<not> x < y) = op_val (em_p s) op x y" for x y :: int
    using op by (auto simp: op_val_def not_less)
  ultimately show ?thesis by (simp add: lowers_def)
qed

lemma bitwise_const_val:
  assumes "op \<in> {BitAnd, BitOr, BitXor}" "l < 2 ^ 64" "r < 2 ^ 64"
  shows "int (bitwise_const op l r) = int_bitop op (int l) (int r) \<and> bitwise_const op l r < 2 ^ 64"
proof -
  have u: "unat (of_nat l :: u64) = l" "unat (of_nat r :: u64) = r" using assms by (simp_all add: unat_of_nat)
  then have "uint (of_nat l :: u64) = int l" "uint (of_nat r :: u64) = int r" by (simp_all add: uint_nat)
  note u = u this
  have "bitwise_const op l r < 2 ^ 64" unfolding bitwise_const_def by (rule order_less_le_trans [OF unsigned_less]) simp
  then show ?thesis using assms(1) u
    by (auto simp: bitwise_const_def int_bitop_def unsigned_and_eq unsigned_or_eq unsigned_xor_eq of_nat_and_eq of_nat_or_eq of_nat_xor_eq)
qed

lemma lowers_bit_operator:
  assumes p: "is_prime (em_p s)" and ok: "wires_ok s" and ab: "lc_in s a" "lc_in s b" and op: "op \<in> {BitAnd, BitOr, BitXor}"
    and e: "emit_bit_operator op a b sp s = Inr r"
  shows "lowers s r (2 ^ 64 \<le> em_p s) (\<lambda>\<sigma>. int_bitop op (val s \<sigma> a) (val s \<sigma> b))"
proof (cases "\<exists>l m. lc_u64 (em_p s) a = Some l \<and> lc_u64 (em_p s) b = Some m")
  case True
  have p0: "0 < em_p s" "1 < em_p s" using prime_pos [OF p] by simp_all
  obtain l m where lm: "lc_u64 (em_p s) a = Some l" "lc_u64 (em_p s) b = Some m" using True by blast
  let ?v = "bitwise_const op l m"
  have r: "r = (lc_constant (fr_from_u64 (em_p s) ?v), s)"
    using e lm by (auto simp: emit_bit_operator_def Let_def and_then_Inr_iff)
  have in_s: "lc_in s (lc_constant (fr_from_u64 (em_p s) ?v))"
    using fr_from_u64_range [OF p0(1)] wires_ok_0 [OF ok] by (intro lc_in_const) simp_all
  show ?thesis unfolding r
  proof (rule lowersI [OF emits_refl [OF ok] in_s])
    fix \<sigma> assume big: "2 ^ 64 \<le> em_p s" and sat: "sat s \<sigma>"
    note A = lc_u64_val [OF lm(1) sat p0(1)] and B = lc_u64_val [OF lm(2) sat p0(1)]
    note V = bitwise_const_val [OF op, of l m]
    have "fr_from_u64 (em_p s) ?v = int ?v" using from_u64_small [OF big] V A B by blast
    then show "val s \<sigma> (lc_constant (fr_from_u64 (em_p s) ?v)) = int_bitop op (val s \<sigma> a) (val s \<sigma> b)"
      using V A B fr_from_u64_range [OF p0(1), of ?v] by (simp add: val_const [of \<sigma>] sat_0 [OF sat])
  qed
next
  case False
  obtain out s' where r: "r = (out, s')" by force
  have g: "emit_bitwise a b op 32 sp s = Some (out, s')"
    using e False by (auto simp: r emit_bit_operator_def Let_def and_then_Inr_iff zk_comparison_bits_def split: option.splits)
  show ?thesis unfolding r
    using bitwise_emits(1,2) [OF p ok ab g] bitwise_emits(4) [OF p ok ab g] pow32_le by (intro lowersI) auto
qed

lemma shift_const_val:
  assumes l: "l < 2 ^ 32"
  shows "int (shift_const left amount l) = int_shift left 32 amount (int l) \<and> shift_const left amount l < 2 ^ 64"
proof -
  have small: "shift_const left amount l < 2 ^ 64" unfolding shift_const_def Let_def by (rule order_less_le_trans [OF unsigned_less]) simp
  have ul: "uint (of_nat l :: u64) = int l" using l by (simp add: unat_of_nat uint_nat)
  have m: "push_bit 32 1 - 1 = (mask 32 :: u64)" by (simp add: mask_eq_exp_minus_1 push_bit_eq_mult)
  have tl: "take_bit 32 (int l) = int l" "take_bit 64 (int l) = int l" using l by (auto intro!: take_bit_int_eq_self)
  have "uint (if 32 \<le> amount then 0 else if left then push_bit amount (of_nat l :: u64) AND mask 32
      else drop_bit amount ((of_nat l :: u64) AND mask 32)) = int_shift left 32 amount (int l)"
  proof (cases "32 \<le> amount")
    case True
    have "int_shift left 32 amount (int l) = 0"
    proof (cases left)
      case True
      then show ?thesis using \<open>32 \<le> amount\<close> by (intro bit_eqI) (auto simp: int_shift_def bit_take_bit_iff bit_push_bit_iff)
    next
      case False
      have "l < 2 ^ amount" using l by (rule order_less_le_trans) (rule power_increasing [OF \<open>32 \<le> amount\<close>], simp)
      then have "int l < 2 ^ amount" by simp
      then show ?thesis using False by (simp add: int_shift_def drop_bit_eq_div)
    qed
    then show ?thesis using True by simp
  next
    case False
    then show ?thesis
      by (simp add: int_shift_def ul tl unsigned_take_bit_eq unsigned_push_bit_eq unsigned_drop_bit_eq take_bit_eq_mask [symmetric]
          take_bit_take_bit)
  qed
  then have "int (shift_const left amount l) = int_shift left 32 amount (int l)"
    unfolding shift_const_def Let_def zk_comparison_bits_def m uint_nat .
  then show ?thesis using small by blast
qed

lemma lowers_shift_operator:
  assumes p: "is_prime (em_p s)" and ok: "wires_ok s" and ab: "lc_in s a" "lc_in s b" and e: "emit_shift_operator left a b sp s = Inr r"
  shows "lowers s r (2 ^ 64 \<le> em_p s) (\<lambda>\<sigma>. int_shift left 32 (nat (val s \<sigma> b)) (val s \<sigma> a))"
proof -
  have p0: "0 < em_p s" "1 < em_p s" using prime_pos [OF p] by simp_all
  obtain amount where am: "lc_u64 (em_p s) b = Some amount"
    and rg: "require_gadget_range (em_p s) a (op_name (if left then Shl else Shr)) sp = Inr ()"
    using e by (auto simp: emit_shift_operator_def Let_def and_then_Inr_iff split: option.splits)
  have amv: "nat (val s \<sigma> b) = amount" if "sat s \<sigma>" for \<sigma> using lc_u64_val [OF am that p0(1)] by simp
  show ?thesis
  proof (cases "lc_u64 (em_p s) a")
    case (Some l)
    let ?v = "shift_const left amount l"
    have r: "r = (lc_constant (fr_from_u64 (em_p s) ?v), s)"
      using e Some am by (auto simp: emit_shift_operator_def Let_def and_then_Inr_iff)
    have in_s: "lc_in s (lc_constant (fr_from_u64 (em_p s) ?v))"
      using fr_from_u64_range [OF p0(1)] wires_ok_0 [OF ok] by (intro lc_in_const) simp_all
    show ?thesis unfolding r
    proof (rule lowersI [OF emits_refl [OF ok] in_s])
      fix \<sigma> assume big: "2 ^ 64 \<le> em_p s" and sat: "sat s \<sigma>"
      have "int l < 2 ^ 32" using gadget_range_val [OF rg lc_u64_constant [OF Some p0(1)] big] .
      then have V: "int ?v = int_shift left 32 amount (int l) \<and> ?v < 2 ^ 64" by (intro shift_const_val) simp
      have "fr_from_u64 (em_p s) ?v = int ?v" using from_u64_small [OF big] V by blast
      then show "val s \<sigma> (lc_constant (fr_from_u64 (em_p s) ?v)) = int_shift left 32 (nat (val s \<sigma> b)) (val s \<sigma> a)"
        using V lc_u64_val [OF Some sat p0(1)] amv [OF sat] fr_from_u64_range [OF p0(1), of ?v]
        by (simp add: val_const [of \<sigma>] sat_0 [OF sat])
    qed
  next
    case None
    obtain out s' where r: "r = (out, s')" by force
    have g: "emit_shift a amount left 32 sp s = (out, s')"
      using e None am by (auto simp: r emit_shift_operator_def Let_def and_then_Inr_iff zk_comparison_bits_def)
    note em = shift_emits [OF p ok ab(1) g]
    show ?thesis unfolding r using em(1,2) em(4) pow32_le amv emits_sat [OF em(1)] by (intro lowersI) auto
  qed
qed

section \<open>Every operator\<close>

lemma binop_lowers:
  assumes p: "is_prime (em_p s)" and ok: "wires_ok s" and ab: "lc_in s a" "lc_in s b" and e: "emit_binop op a b sp s = Inr r"
  shows "lowers s r (op_fits (em_p s) op) (\<lambda>\<sigma>. op_val (em_p s) op (val s \<sigma> a) (val s \<sigma> b))"
proof -
  note rules = lowers_add [OF p ok ab] lowers_sub [OF p ok ab] lowers_mul [OF p ok ab] lowers_eq [OF p ok ab]
    lowers_logic [OF p ok ab, where is_and = True] lowers_logic [OF p ok ab, where is_and = False]
  have ne: "lowers s (lc_not (em_p s) x, s1) fits (\<lambda>\<sigma>. of_bool (val s \<sigma> a \<noteq> val s \<sigma> b)) \<and> em_p s1 = em_p s"
    if "emit_eq a b sp s = (x, s1)" for x s1 fits
    using lowers_negated [OF p lowers_eq [OF p ok ab, of sp, unfolded that]] eq_emits(1) [OF p ok ab that] emitsD(3) by blast
  show ?thesis
  proof (cases op)
    case NotEq
    obtain x s1 where "emit_eq a b sp s = (x, s1)" by force
    with ne [OF this] e NotEq show ?thesis by (auto simp: emit_binop_def op_val_def)
  qed (use e rules lowers_division [OF p ok ab, of True sp r] lowers_division [OF p ok ab, of False sp r]
      lowers_comparison [OF p ok ab, of op sp r] lowers_bit_operator [OF p ok ab, of op sp r]
      lowers_shift_operator [OF p ok ab, of True sp r] lowers_shift_operator [OF p ok ab, of False sp r]
      in \<open>auto simp: emit_binop_def op_val_def op_fits_def\<close>)
qed

end
