(* ===== verification/ZkGadgetProps.thy ===== *)
theory ZkGadgetProps
  imports ZkLowerOps ZkCircuitProps
begin

text \<open>
  The properties of the gadgets and operators of \<^verbatim>\<open>src/zk_emitter.rs\<close>: when their constraints can
  be satisfied, what their wires then hold, and that the Poseidon circuit computes the
  permutation; each with an instance at a concrete circuit over a small field.
\<close>

lemma agree_sym: "agree n \<sigma> \<tau> \<Longrightarrow> agree n \<tau> \<sigma>"
  by (simp add: agree_def)

text \<open>An assignment that extends to one of a grown circuit satisfies the circuit it started from,
  and gives its combinations the same values.\<close>

lemma extends_sat:
  assumes "wires_ok s" "emits s s'" "agree (em_next s) \<sigma> \<tau>" "sat s' \<tau>"
  shows "sat s \<sigma>" "lc_in s l \<Longrightarrow> val s \<tau> l = val s \<sigma> l"
proof -
  show "sat s \<sigma>" using agree_sat [OF assms(1) emits_sat [OF assms(2,4)] agree_sym [OF assms(3)]] .
  show "lc_in s l \<Longrightarrow> val s \<tau> l = val s \<sigma> l" using agree_val [OF assms(3)] .
qed

text \<open>When the operands a gadget accepts are described by \<open>P\<close>, soundly and completely.\<close>

lemma extends_iff:
  assumes "wires_ok s" "emits s s'" "lc_in s a" "lc_in s b"
    and sound: "\<And>\<tau>. sat s' \<tau> \<Longrightarrow> P (val s \<tau> a) (val s \<tau> b)"
    and complete: "sat s \<sigma> \<Longrightarrow> P (val s \<sigma> a) (val s \<sigma> b) \<Longrightarrow> \<exists>\<tau>. agree (em_next s) \<sigma> \<tau> \<and> sat s' \<tau>"
  shows "(\<exists>\<tau>. agree (em_next s) \<sigma> \<tau> \<and> sat s' \<tau>) \<longleftrightarrow> sat s \<sigma> \<and> P (val s \<sigma> a) (val s \<sigma> b)"
proof
  assume "\<exists>\<tau>. agree (em_next s) \<sigma> \<tau> \<and> sat s' \<tau>"
  then obtain \<tau> where t: "agree (em_next s) \<sigma> \<tau>" "sat s' \<tau>" by blast
  note x = extends_sat [OF assms(1,2) t]
  show "sat s \<sigma> \<and> P (val s \<sigma> a) (val s \<sigma> b)" using x(1) x(2) [OF assms(3)] x(2) [OF assms(4)] sound [OF t(2)] by simp
qed (use complete in blast)

text \<open>The circuit of the instances: two inputs over the field of 13 elements.\<close>

definition two_inputs :: em where
  "two_inputs = circuit_on 13 3 [1, 2] [] []"

lemma two_inputs_ok: "is_prime (em_p two_inputs)" "wires_ok two_inputs" "em_p two_inputs = 13"
  "lc_in two_inputs (lc_variable 1)" "lc_in two_inputs (lc_variable 2)"
  using prime13 lc_in_var [of two_inputs]
  by (auto simp: two_inputs_def wires_ok_def circuit_simps)

lemma two_inputs_extend:
  "\<exists>\<tau>. agree (em_next two_inputs) a \<tau> \<and> P \<tau> \<Longrightarrow> \<exists>\<tau>. \<tau> 1 = a 1 \<and> \<tau> 2 = a 2 \<and> P \<tau>"
proof -
  assume "\<exists>\<tau>. agree (em_next two_inputs) a \<tau> \<and> P \<tau>"
  then obtain \<tau> where "agree 3 a \<tau>" "P \<tau>" by (auto simp: two_inputs_def circuit_on_def)
  then have "\<tau> 1 = a 1 \<and> \<tau> 2 = a 2 \<and> P \<tau>" by (simp add: agree_def)
  then show ?thesis by blast
qed

lemma two_inputs_sat: "\<sigma> 0 = 1 \<Longrightarrow> sat two_inputs \<sigma>" "val two_inputs \<sigma> (lc_variable w) = \<sigma> w mod 13"
  by (simp_all add: two_inputs_def circuit_simps sat_def cons_sat_def val_def lc_sum_def)

section \<open>Range proofs and comparison\<close>

text \<open>C24: The bit decomposition is exactly a range proof: whenever \<open>2 ^ n\<close> is at most the modulus,
  an assignment of the circuit extends to the new wires if and only if the decomposed value is
  below \<open>2 ^ n\<close>, and then wire \<open>i\<close> of the result holds bit \<open>i\<close> of the value.\<close>

theorem num2bits_range_proof:
  assumes "is_prime (em_p s)" "wires_ok s" "lc_in s v" "emit_num2bits v n sp s = (bits, s')" "2 ^ n \<le> em_p s"
  shows "((\<exists>\<tau>. agree (em_next s) \<sigma> \<tau> \<and> sat s' \<tau>) \<longleftrightarrow> sat s \<sigma> \<and> val s \<sigma> v < 2 ^ n) \<and>
    (sat s' \<sigma> \<longrightarrow> length bits = n \<and> (\<forall>i<n. \<sigma> (bits ! i) mod em_p s = of_bool (bit (val s \<sigma> v) i)))"
proof
  note em = num2bits_emits(1) [OF assms(1-4)] and sound = num2bits_sound [OF assms]
  show "(\<exists>\<tau>. agree (em_next s) \<sigma> \<tau> \<and> sat s' \<tau>) \<longleftrightarrow> sat s \<sigma> \<and> val s \<sigma> v < 2 ^ n"
    by (rule extends_iff [OF assms(2) em assms(3,3), where P = "\<lambda>x _. x < 2 ^ n"])
      (use sound num2bits_complete [OF assms(1-4)] in blast)+
  show "sat s' \<sigma> \<longrightarrow> length bits = n \<and> (\<forall>i<n. \<sigma> (bits ! i) mod em_p s = of_bool (bit (val s \<sigma> v) i))"
    using sound [of \<sigma>] by blast
qed

theorem num2bits_range_proof_witness:
  "\<exists>\<tau>. \<tau> 1 = 5 \<and> sat (snd (emit_num2bits (lc_variable 1) 3 \<lparr>sp_line = 1, sp_col = 1\<rparr> two_inputs)) \<tau>"
proof -
  let ?r = "emit_num2bits (lc_variable 1) 3 \<lparr>sp_line = 1, sp_col = 1\<rparr> two_inputs" and ?a = "\<lambda>w. if w = 0 then 1 else 5 :: int"
  have "\<exists>\<tau>. agree (em_next two_inputs) ?a \<tau> \<and> sat (snd ?r) \<tau>"
    using num2bits_range_proof [OF two_inputs_ok(1,2,4), of 3 _ "fst ?r" "snd ?r" ?a] two_inputs_sat [of ?a] two_inputs_ok(3) by simp
  from two_inputs_extend [OF this] show ?thesis by auto
qed

text \<open>The comparison gadget decides \<open>a < b\<close> on integers: an assignment extends to its wires if and
  only if both operands are below \<open>2 ^ n\<close>, and under every satisfying assignment the output is 1
  when \<open>a < b\<close> and 0 otherwise.\<close>

theorem comparison_gadget_exact:
  assumes "is_prime (em_p s)" "wires_ok s" "lc_in s a" "lc_in s b" "emit_less_than a b n sp s = (out, s')" "2 ^ (n + 1) \<le> em_p s"
  shows "((\<exists>\<tau>. agree (em_next s) \<sigma> \<tau> \<and> sat s' \<tau>) \<longleftrightarrow> sat s \<sigma> \<and> val s \<sigma> a < 2 ^ n \<and> val s \<sigma> b < 2 ^ n) \<and>
    (sat s' \<sigma> \<longrightarrow> val s \<sigma> out = of_bool (val s \<sigma> a < val s \<sigma> b))"
proof
  note em = less_than_emits(1) [OF assms(1-5)] and sound = less_than_sound [OF assms]
  show "(\<exists>\<tau>. agree (em_next s) \<sigma> \<tau> \<and> sat s' \<tau>) \<longleftrightarrow> sat s \<sigma> \<and> val s \<sigma> a < 2 ^ n \<and> val s \<sigma> b < 2 ^ n"
    by (rule extends_iff [OF assms(2) em assms(3,4), where P = "\<lambda>x y. x < 2 ^ n \<and> y < 2 ^ n"])
      (use sound less_than_complete [OF assms] in blast)+
  show "sat s' \<sigma> \<longrightarrow> val s \<sigma> out = of_bool (val s \<sigma> a < val s \<sigma> b)" using sound by blast
qed

theorem comparison_gadget_exact_witness:
  "\<exists>\<tau>. \<tau> 1 = 1 \<and> \<tau> 2 = 3 \<and> sat (snd (emit_less_than (lc_variable 1) (lc_variable 2) 2 \<lparr>sp_line = 1, sp_col = 1\<rparr> two_inputs)) \<tau>"
proof -
  let ?r = "emit_less_than (lc_variable 1) (lc_variable 2) 2 \<lparr>sp_line = 1, sp_col = 1\<rparr> two_inputs"
  let ?a = "\<lambda>w. if w = 2 then 3 else 1 :: int"
  have "\<exists>\<tau>. agree (em_next two_inputs) ?a \<tau> \<and> sat (snd ?r) \<tau>"
    using comparison_gadget_exact [OF two_inputs_ok(1,2,4,5), of 2 _ "fst ?r" "snd ?r" ?a] two_inputs_sat [of ?a] two_inputs_ok(3) by simp
  from two_inputs_extend [OF this] show ?thesis by auto
qed

text \<open>C18: The division gadget is satisfiable exactly where integer division is defined and its results
  fit: the divisor is positive and below \<open>2 ^ n\<close> and so is the quotient. Its two wires then hold
  the quotient and the remainder.\<close>

theorem division_gadget_exact:
  assumes "is_prime (em_p s)" "wires_ok s" "lc_in s a" "lc_in s b" "emit_int_div_mod a b n sp s = ((q, r), s')"
    and "2 ^ (2 * n) \<le> em_p s" "0 < n"
  shows "((\<exists>\<tau>. agree (em_next s) \<sigma> \<tau> \<and> sat s' \<tau>) \<longleftrightarrow>
      sat s \<sigma> \<and> 0 < val s \<sigma> b \<and> val s \<sigma> b < 2 ^ n \<and> val s \<sigma> a div val s \<sigma> b < 2 ^ n) \<and>
    (sat s' \<sigma> \<longrightarrow> val s \<sigma> q = val s \<sigma> a div val s \<sigma> b \<and> val s \<sigma> r = val s \<sigma> a mod val s \<sigma> b)"
proof
  note em = int_div_mod_emits(1) [OF assms(1-5)] and sound = int_div_mod_sound [OF assms]
  have "(2 :: int) ^ (n + 1) \<le> 2 ^ (2 * n)" using assms(7) by (intro power_increasing) simp_all
  then have small: "2 ^ (n + 1) \<le> em_p s" using assms(6) by (rule order_trans)
  show "(\<exists>\<tau>. agree (em_next s) \<sigma> \<tau> \<and> sat s' \<tau>) \<longleftrightarrow>
      sat s \<sigma> \<and> 0 < val s \<sigma> b \<and> val s \<sigma> b < 2 ^ n \<and> val s \<sigma> a div val s \<sigma> b < 2 ^ n"
    by (rule extends_iff [OF assms(2) em assms(3,4), where P = "\<lambda>x y. 0 < y \<and> y < 2 ^ n \<and> x div y < 2 ^ n"])
      (use sound int_div_mod_complete [OF assms(1-5) small] in force)+
  show "sat s' \<sigma> \<longrightarrow> val s \<sigma> q = val s \<sigma> a div val s \<sigma> b \<and> val s \<sigma> r = val s \<sigma> a mod val s \<sigma> b" using sound by blast
qed

theorem division_gadget_exact_witness:
  "\<exists>\<tau>. \<tau> 1 = 1 \<and> \<tau> 2 = 1 \<and> sat (snd (emit_int_div_mod (lc_variable 1) (lc_variable 2) 1 \<lparr>sp_line = 1, sp_col = 1\<rparr> two_inputs)) \<tau>"
proof -
  let ?r = "emit_int_div_mod (lc_variable 1) (lc_variable 2) 1 \<lparr>sp_line = 1, sp_col = 1\<rparr> two_inputs"
  let ?a = "\<lambda>w. 1 :: int"
  have "\<exists>\<tau>. agree (em_next two_inputs) ?a \<tau> \<and> sat (snd ?r) \<tau>"
    using division_gadget_exact [OF two_inputs_ok(1,2,4,5), of 1 _ "fst (fst ?r)" "snd (fst ?r)" "snd ?r" ?a] two_inputs_sat [of ?a] two_inputs_ok(3) by simp
  from two_inputs_extend [OF this] show ?thesis by auto
qed

section \<open>Operators and hashes\<close>

text \<open>C6: Every binary operator that lowers without an error keeps the circuit well formed and, under
  every satisfying assignment, yields the value the operator denotes on the values of its
  operands, whether it folded, became a constraint or a gadget. The integer operators need a
  modulus of at least \<open>2 ^ 64\<close>.\<close>

theorem operators_correct:
  assumes "is_prime (em_p s)" "wires_ok s" "lc_in s a" "lc_in s b" "emit_binop op a b sp s = Inr (out, s')"
  shows "wires_ok s' \<and> lc_in s' out \<and> em_cons s = take (length (em_cons s)) (em_cons s') \<and>
    (op_fits (em_p s) op \<longrightarrow> (\<forall>\<sigma>. sat s' \<sigma> \<longrightarrow> val s \<sigma> out = op_val (em_p s) op (val s \<sigma> a) (val s \<sigma> b)))"
  using binop_lowers [OF assms] by (auto simp: lowers_def emits_def grows_def)

theorem operators_correct_witness:
  "\<exists>out s'. emit_binop Or (lc_variable 1) (lc_variable 2) \<lparr>sp_line = 1, sp_col = 1\<rparr> two_inputs = Inr (out, s') \<and> wires_ok s' \<and>
     length (em_cons s') = 3"
proof -
  let ?r = "emit_logic False (lc_variable 1) (lc_variable 2) \<lparr>sp_line = 1, sp_col = 1\<rparr> two_inputs"
  have e: "emit_binop Or (lc_variable 1) (lc_variable 2) \<lparr>sp_line = 1, sp_col = 1\<rparr> two_inputs = Inr (fst ?r, snd ?r)"
    by (simp add: emit_binop_def)
  have "wires_ok (snd ?r)" using operators_correct [OF two_inputs_ok(1,2,4,5) e] by simp
  moreover have "length (em_cons (snd ?r)) = 3"
    by (simp add: two_inputs_def circuit_simps emit_logic_def constrain_boolean_def add_constraint_def emit_mul_lc_def new_wire_def Let_def)
  ultimately show ?thesis using e by blast
qed

text \<open>C5: The Poseidon circuit computes the permutation: under every satisfying assignment its output
  is the hash of the two inputs by the reference permutation on field elements, and every
  assignment of the circuit extends to the wires of the S-boxes.\<close>

theorem poseidon_circuit_correct:
  assumes "is_prime (em_p s)" "wires_ok s" "lc_in s a" "lc_in s b"
    and "emit_poseidon_core (poseidon_t3_params_for (em_p s)) [a, b] s = (out, s')"
  shows "wires_ok s' \<and> lc_in s' out \<and>
    (sat s' \<sigma> \<longrightarrow> val s \<sigma> out = poseidon_ref (em_p s) (poseidon_t3_params_for (em_p s)) (val s \<sigma> a) (val s \<sigma> b)) \<and>
    ((\<exists>\<tau>. agree (em_next s) \<sigma> \<tau> \<and> sat s' \<tau>) \<longleftrightarrow> sat s \<sigma>)"
proof -
  have t: "params_canonical (em_p s) (poseidon_t3_params_for (em_p s))" using params_for_canonical prime_pos [OF assms(1)] by blast
  note P = poseidon_core_emits [OF assms(1-4) t assms(5)]
  show ?thesis using P emitsD(1) [OF P(1)] extends_sat(1) [OF assms(2) P(1)] by blast
qed

theorem poseidon_circuit_correct_witness:
  "\<exists>\<tau>. \<tau> 1 = 3 \<and> \<tau> 2 = 4 \<and> sat (snd (emit_poseidon_core (poseidon_t3_params_for 13) [lc_variable 1, lc_variable 2] two_inputs)) \<tau>"
proof -
  let ?r = "emit_poseidon_core (poseidon_t3_params_for 13) [lc_variable 1, lc_variable 2] two_inputs"
  let ?a = "\<lambda>w. if w = 0 then 1 else if w = 1 then 3 else 4 :: int"
  have "\<exists>\<tau>. agree (em_next two_inputs) ?a \<tau> \<and> sat (snd ?r) \<tau>"
    using poseidon_circuit_correct [OF two_inputs_ok(1,2,4,5), of "fst ?r" "snd ?r" ?a] two_inputs_sat [of ?a] two_inputs_ok(3) by simp
  from two_inputs_extend [OF this] show ?thesis by auto
qed

end
