(* ===== verification/ZkTopo.thy ===== *)
theory ZkTopo
  imports ZkSolver
begin

text \<open>
  The order of the forward pass (\<^verbatim>\<open>topological_order\<close> of \<^verbatim>\<open>src/zk_emitter.rs\<close>): Kahn's algorithm on
  what the recipes read, with the wires on or behind a cycle appended in index order. An index out
  of range and the underflow of a degree are panics, the value \<open>None\<close>; neither happens.
\<close>

section \<open>The algorithm\<close>

definition read_wires :: "witness_op list \<Rightarrow> nat \<Rightarrow> nat list" where
  "read_wires nodes i = remdups_adj (sort (filter (\<lambda>w. w \<noteq> i \<and> w < length nodes) (witness_op_deps (nodes ! i))))"

definition count_node :: "witness_op list \<Rightarrow> nat list list \<times> nat list \<Rightarrow> nat \<Rightarrow> nat list list \<times> nat list" where
  "count_node nodes st i =
     (let (dependents, indegree) = st; ds = read_wires nodes i
      in (foldl (\<lambda>dep d. dep[d := dep ! d @ [i]]) dependents ds, indegree[i := length ds]))"

definition count_nodes :: "witness_op list \<Rightarrow> nat list list \<times> nat list" where
  "count_nodes nodes =
     foldl (count_node nodes) (replicate (length nodes) [], replicate (length nodes) 0) [0..<length nodes]"

text \<open>The stack of ready wires has its top first.\<close>

fun release :: "nat list \<Rightarrow> nat list \<Rightarrow> nat list \<Rightarrow> (nat list \<times> nat list) option" where
  "release [] indegree ready = Some (indegree, ready)"
| "release (d # ds) indegree ready =
     (if length indegree \<le> d \<or> indegree ! d = 0 then None
      else let k = indegree ! d - 1
           in release ds (indegree[d := k]) (if k = 0 then d # ready else ready))"

definition pending :: "nat list \<Rightarrow> nat" where
  "pending indegree = length (filter (\<lambda>k. k \<noteq> 0) indegree)"

lemma pending_update:
  "d < length ks \<Longrightarrow> ks ! d \<noteq> 0 \<Longrightarrow> pending (ks[d := k]) = (if k = 0 then pending ks - 1 else pending ks) \<and> 0 < pending ks"
proof (induction ks arbitrary: d)
  case (Cons x ks)
  show ?case using Cons by (cases d) (auto simp: pending_def)
qed simp

lemma release_pending: "release ds indegree ready = Some (indegree', ready') \<Longrightarrow> length ready' + pending indegree' = length ready + pending indegree"
proof (induction ds arbitrary: indegree ready)
  case (Cons d ds)
  have d: "d < length indegree" "indegree ! d \<noteq> 0"
    and r: "release ds (indegree[d := indegree ! d - 1]) (if indegree ! d - 1 = 0 then d # ready else ready) = Some (indegree', ready')"
    using Cons.prems by (auto simp: Let_def split: if_splits)
  show ?case using Cons.IH [OF r] pending_update [OF d, of "indegree ! d - 1"] by auto
qed simp

function kahn :: "nat list list \<Rightarrow> nat list \<Rightarrow> nat list \<Rightarrow> nat list \<Rightarrow> bool list \<Rightarrow> (nat list \<times> bool list) option" where
  "kahn dependents indegree [] order emitted = Some (order, emitted)"
| "kahn dependents indegree (i # ready) order emitted =
     (if length emitted \<le> i \<or> length dependents \<le> i then None
      else case release (dependents ! i) indegree ready of
             None \<Rightarrow> None
           | Some (indegree', ready') \<Rightarrow> kahn dependents indegree' ready' (order @ [i]) (emitted[i := True]))"
  by pat_completeness auto

termination
  by (relation "measure (\<lambda>(_, indegree, ready, _). length ready + pending indegree)") (auto dest: release_pending)

definition topological_order :: "witness_op list \<Rightarrow> nat list option" where
  "topological_order nodes =
     (let n = length nodes;
          (dependents, indegree) = count_nodes nodes;
          ready = filter (\<lambda>i. indegree ! i = 0) [0..<n]
      in map_option (\<lambda>(order, emitted). order @ filter (\<lambda>i. \<not> emitted ! i) [0..<n])
           (kahn dependents indegree ready [] (replicate n False)))"

section \<open>What is counted\<close>

lemma sorted_remdups_adj_distinct: "sorted xs \<Longrightarrow> distinct (remdups_adj (xs :: nat list))"
proof (induction xs rule: remdups_adj.induct)
  case (3 x y xs)
  then have "x = y \<or> x \<notin> set (y # xs)" by auto
  then show ?case using 3 by auto
qed simp_all

lemma read_wires_props:
  "distinct (read_wires nodes i)" "set (read_wires nodes i) = {w \<in> set (witness_op_deps (nodes ! i)). w \<noteq> i \<and> w < length nodes}"
proof -
  show "distinct (read_wires nodes i)" by (simp add: read_wires_def sorted_remdups_adj_distinct)
  show "set (read_wires nodes i) = {w \<in> set (witness_op_deps (nodes ! i)). w \<noteq> i \<and> w < length nodes}"
    by (auto simp: read_wires_def)
qed

lemma add_dependents:
  assumes "distinct ds" "set ds \<subseteq> {..<length dep}"
  shows "length (foldl (\<lambda>dep d. dep[d := dep ! d @ [i]]) dep ds) = length dep"
    "j < length dep \<Longrightarrow> foldl (\<lambda>dep d. dep[d := dep ! d @ [i]]) dep ds ! j = dep ! j @ (if j \<in> set ds then [i] else [])"
  using assms by (induction ds arbitrary: dep) (auto simp: nth_list_update)

text \<open>Wire \<open>j\<close> is waited for by the wires that read it, in order.\<close>

definition readers :: "witness_op list \<Rightarrow> nat \<Rightarrow> nat \<Rightarrow> nat list" where
  "readers nodes m j = filter (\<lambda>i. j \<in> set (read_wires nodes i)) [0..<m]"

lemma count_nodes_prefix:
  assumes "m \<le> length nodes"
    and "foldl (count_node nodes) (replicate (length nodes) [], replicate (length nodes) 0) [0..<m] = (dep, deg)"
  shows "length dep = length nodes \<and> length deg = length nodes \<and> (\<forall>j < length nodes. dep ! j = readers nodes m j) \<and>
    (\<forall>i < length nodes. deg ! i = (if i < m then length (read_wires nodes i) else 0))"
  using assms
proof (induction m arbitrary: dep deg)
  case 0
  then show ?case by (auto simp: readers_def)
next
  case (Suc m)
  obtain dep0 deg0 where f: "foldl (count_node nodes) (replicate (length nodes) [], replicate (length nodes) 0) [0..<m] = (dep0, deg0)"
    by fastforce
  have I: "length dep0 = length nodes" "length deg0 = length nodes" "\<forall>j < length nodes. dep0 ! j = readers nodes m j"
    "\<forall>i < length nodes. deg0 ! i = (if i < m then length (read_wires nodes i) else 0)"
    using Suc.IH [OF _ f] Suc.prems(1) by auto
  have e: "dep = foldl (\<lambda>dep d. dep[d := dep ! d @ [m]]) dep0 (read_wires nodes m)" "deg = deg0[m := length (read_wires nodes m)]"
    using Suc.prems(2) by (simp_all add: f count_node_def [of nodes "(dep0, deg0)"] Let_def)
  have ds: "distinct (read_wires nodes m)" "set (read_wires nodes m) \<subseteq> {..<length dep0}"
    using read_wires_props [of nodes m] I(1) by auto
  have "dep ! j = readers nodes (Suc m) j" if "j < length nodes" for j
    using add_dependents(2) [OF ds, of j m] I(1,3) that by (simp add: e(1) readers_def)
  moreover have "length dep = length nodes" using add_dependents(1) [OF ds] I(1) by (simp add: e(1))
  ultimately show ?case using I(2,4) Suc.prems(1) by (auto simp: e(2) nth_list_update)
qed

lemma count_nodes_props:
  assumes "count_nodes nodes = (dep, deg)"
  shows "length dep = length nodes" "length deg = length nodes"
    "j < length nodes \<Longrightarrow> dep ! j = readers nodes (length nodes) j"
    "i < length nodes \<Longrightarrow> deg ! i = length (read_wires nodes i)"
  using count_nodes_prefix [of "length nodes" nodes dep deg] assms by (simp_all add: count_nodes_def)

section \<open>The loop\<close>

lemma release_all:
  assumes "distinct ds" "\<forall>d\<in>set ds. d < length deg \<and> deg ! d \<noteq> 0"
  shows "\<exists>deg' new. release ds deg ready = Some (deg', new @ ready) \<and> length deg' = length deg \<and>
    (\<forall>j < length deg. deg' ! j = deg ! j - (if j \<in> set ds then 1 else 0)) \<and>
    distinct new \<and> set new = {d \<in> set ds. deg ! d = 1}"
  using assms
proof (induction ds arbitrary: deg ready)
  case Nil
  then show ?case by simp
next
  case (Cons d ds)
  let ?deg = "deg[d := deg ! d - 1]"
  let ?ready = "if deg ! d - 1 = 0 then d # ready else ready"
  have d: "d < length deg" "deg ! d \<noteq> 0" "d \<notin> set ds" "distinct ds" using Cons.prems by auto
  have "\<forall>e\<in>set ds. e < length ?deg \<and> ?deg ! e \<noteq> 0" using Cons.prems(2) d(3) by (auto simp: nth_list_update)
  from Cons.IH [OF d(4) this, of ?ready] obtain deg' new where
    r: "release ds ?deg ?ready = Some (deg', new @ ?ready)" "length deg' = length ?deg"
      "\<forall>j < length ?deg. deg' ! j = ?deg ! j - (if j \<in> set ds then 1 else 0)" "distinct new" "set new = {e \<in> set ds. ?deg ! e = 1}"
    by blast
  have "?deg ! e = deg ! e" if "e \<in> set ds" for e using that d(3) by (metis nth_list_update_neq)
  then have new: "set new = {e \<in> set ds. deg ! e = 1}" using r(5) by auto
  let ?new = "new @ (if deg ! d = 1 then [d] else [])"
  have "release (d # ds) deg ready = Some (deg', ?new @ ready)" using r(1) d(1,2) by (auto simp: Let_def)
  moreover have "deg' ! j = deg ! j - (if j \<in> set (d # ds) then 1 else 0)" if "j < length deg" for j
  proof -
    have "deg' ! j = ?deg ! j - (if j \<in> set ds then 1 else 0)" using r(3) that by simp
    then show ?thesis using d(1,3) by (cases "j = d") simp_all
  qed
  moreover have "distinct ?new" "set ?new = {e \<in> set (d # ds). deg ! e = 1}" using r(4) new d(3) by auto
  ultimately show ?case using r(2) by auto
qed

text \<open>A degree counts the wires still to be emitted; a wire is ready or emitted when it is zero.\<close>

definition unmet :: "witness_op list \<Rightarrow> nat list \<Rightarrow> nat \<Rightarrow> nat list" where
  "unmet nodes order i = filter (\<lambda>d. d \<notin> set order) (read_wires nodes i)"

definition after_reads :: "witness_op list \<Rightarrow> nat list \<Rightarrow> bool" where
  "after_reads nodes order \<longleftrightarrow> (\<forall>k < length order. set (read_wires nodes (order ! k)) \<subseteq> set (take k order))"

definition kahn_inv :: "witness_op list \<Rightarrow> nat list \<Rightarrow> nat list \<Rightarrow> nat list \<Rightarrow> bool list \<Rightarrow> bool" where
  "kahn_inv nodes deg ready order emitted \<longleftrightarrow>
     length deg = length nodes \<and> length emitted = length nodes \<and> distinct (ready @ order) \<and>
     (\<forall>i < length nodes. deg ! i = length (unmet nodes order i)) \<and>
     (\<forall>i < length nodes. i \<in> set (ready @ order) \<longleftrightarrow> deg ! i = 0) \<and> set (ready @ order) \<subseteq> {..<length nodes} \<and>
     (\<forall>i < length nodes. emitted ! i \<longleftrightarrow> i \<in> set order) \<and> after_reads nodes order"

lemma after_reads_snoc: "after_reads nodes order \<Longrightarrow> set (read_wires nodes i) \<subseteq> set order \<Longrightarrow> after_reads nodes (order @ [i])"
  by (auto simp: after_reads_def nth_append less_Suc_eq)

lemma unmet_snoc:
  assumes "i \<notin> set order"
  shows "length (unmet nodes (order @ [i]) j) = length (unmet nodes order j) - (if i \<in> set (read_wires nodes j) then 1 else 0)"
proof -
  have "distinct (unmet nodes order j)" using read_wires_props(1) by (simp add: unmet_def)
  moreover have "unmet nodes (order @ [i]) j = filter (\<lambda>d. d \<noteq> i) (unmet nodes order j)"
    by (auto simp: unmet_def intro: filter_cong)
  ultimately have "unmet nodes (order @ [i]) j = remove1 i (unmet nodes order j)" by (simp add: distinct_remove1_removeAll removeAll_filter_not_eq eq_commute)
  moreover have "i \<in> set (unmet nodes order j) \<longleftrightarrow> i \<in> set (read_wires nodes j)" using assms by (simp add: unmet_def)
  ultimately show ?thesis by (simp add: length_remove1)
qed

lemma kahn_step:
  assumes I: "kahn_inv nodes deg (i # ready) order emitted" and c: "count_nodes nodes = (dep, deg0)"
  obtains deg' ready' where "release (dep ! i) deg ready = Some (deg', ready')"
    "kahn_inv nodes deg' ready' (order @ [i]) (emitted[i := True])" "i < length nodes"
proof -
  have len: "length deg = length nodes" "length emitted = length nodes" and dis: "distinct (i # ready @ order)"
    and deg: "\<forall>j < length nodes. deg ! j = length (unmet nodes order j)"
    and zero: "\<forall>j < length nodes. j \<in> set (i # ready @ order) \<longleftrightarrow> deg ! j = 0" and sub: "set (i # ready @ order) \<subseteq> {..<length nodes}"
    and em: "\<forall>j < length nodes. emitted ! j \<longleftrightarrow> j \<in> set order" and ar: "after_reads nodes order"
    using I by (simp_all add: kahn_inv_def)
  have i: "i < length nodes" "i \<notin> set order" using sub dis by auto
  note d = count_nodes_props(3) [OF c i(1)]
  have rd: "distinct (dep ! i)" "set (dep ! i) = {j. j < length nodes \<and> i \<in> set (read_wires nodes j)}"
    by (auto simp: d readers_def)
  have pos: "\<forall>j\<in>set (dep ! i). j < length deg \<and> deg ! j \<noteq> 0"
  proof
    fix j assume j: "j \<in> set (dep ! i)"
    then have "i \<in> set (unmet nodes order j)" using rd(2) i(2) by (simp add: unmet_def)
    then show "j < length deg \<and> deg ! j \<noteq> 0" using j rd(2) deg len(1) by auto
  qed
  obtain deg' new where r: "release (dep ! i) deg ready = Some (deg', new @ ready)" "length deg' = length deg"
    "\<forall>j < length deg. deg' ! j = deg ! j - (if j \<in> set (dep ! i) then 1 else 0)" "distinct new" "set new = {j \<in> set (dep ! i). deg ! j = 1}"
    using release_all [OF rd(1) pos, of ready] by blast
  have deg': "\<forall>j < length nodes. deg' ! j = length (unmet nodes (order @ [i]) j)"
    using r(3) len(1) deg rd(2) unmet_snoc [OF i(2), of nodes] by auto
  have fresh: "\<forall>j\<in>set new. deg ! j \<noteq> 0 \<and> j < length nodes" using r(5) pos len(1) by auto
  have "set new \<inter> set (i # ready @ order) = {}" using fresh zero by (meson disjoint_iff)
  then have dis': "distinct ((new @ ready) @ order @ [i])" using dis r(4) by auto
  have sub': "set ((new @ ready) @ order @ [i]) \<subseteq> {..<length nodes}" using sub fresh by auto
  have zero': "j \<in> set ((new @ ready) @ order @ [i]) \<longleftrightarrow> deg' ! j = 0" if j: "j < length nodes" for j
  proof -
    have "deg' ! j = 0 \<longleftrightarrow> deg ! j = 0 \<or> (j \<in> set (dep ! i) \<and> deg ! j = 1)" using r(3) j len(1) pos by auto
    then show ?thesis using zero j r(5) by auto
  qed
  have em': "\<forall>j < length nodes. emitted[i := True] ! j \<longleftrightarrow> j \<in> set (order @ [i])" using em len(2) i(1) by (auto simp: nth_list_update)
  have "deg ! i = 0" using zero i(1) by auto
  then have "unmet nodes order i = []" using deg i(1) by auto
  then have "set (read_wires nodes i) \<subseteq> set order" by (auto simp: unmet_def filter_empty_conv)
  then have ar': "after_reads nodes (order @ [i])" using ar by (rule after_reads_snoc [rotated])
  have "kahn_inv nodes deg' (new @ ready) (order @ [i]) (emitted[i := True])"
    unfolding kahn_inv_def using len r(2) dis' deg' zero' sub' em' ar' by simp
  then show ?thesis using r(1) i(1) that by blast
qed

lemma kahn_runs:
  assumes "count_nodes nodes = (dep, deg0)" "kahn_inv nodes deg ready order emitted"
  shows "\<exists>deg' order' emitted'. kahn dep deg ready order emitted = Some (order', emitted') \<and> kahn_inv nodes deg' [] order' emitted'"
  using assms
proof (induction dep deg ready order emitted rule: kahn.induct)
  case (1 dependents indegree order emitted)
  then show ?case by auto
next
  case (2 dependents indegree i ready order emitted)
  from kahn_step [OF 2(3,2)] obtain deg' ready' where s: "release (dependents ! i) indegree ready = Some (deg', ready')"
    "kahn_inv nodes deg' ready' (order @ [i]) (emitted[i := True])" "i < length nodes" .
  have g: "\<not> (length emitted \<le> i \<or> length dependents \<le> i)"
    using s(3) count_nodes_props(1) [OF 2(2)] 2(3) by (simp add: kahn_inv_def)
  show ?case using 2(1) [OF g s(1) refl 2(2) s(2)] g s(1) by simp
qed

lemma topological_order_runs:
  obtains deg order emitted where
    "topological_order nodes = Some (order @ filter (\<lambda>i. \<not> emitted ! i) [0..<length nodes])" "kahn_inv nodes deg [] order emitted"
proof -
  obtain dep deg where c: "count_nodes nodes = (dep, deg)" by fastforce
  note P = count_nodes_props [OF c]
  have "kahn_inv nodes deg (filter (\<lambda>i. deg ! i = 0) [0..<length nodes]) [] (replicate (length nodes) False)"
    using P by (auto simp: kahn_inv_def unmet_def after_reads_def)
  from kahn_runs [OF c this] obtain deg' order' emitted' where
    "kahn dep deg (filter (\<lambda>i. deg ! i = 0) [0..<length nodes]) [] (replicate (length nodes) False) = Some (order', emitted')"
    "kahn_inv nodes deg' [] order' emitted'" by blast
  then show ?thesis using that c by (simp add: topological_order_def Let_def)
qed

section \<open>The order\<close>

lemma topological_order_perm:
  assumes "topological_order nodes = Some order"
  shows "distinct order" "set order = {..<length nodes}"
proof -
  obtain deg front emitted where t: "topological_order nodes = Some (front @ filter (\<lambda>i. \<not> emitted ! i) [0..<length nodes])"
    and I: "kahn_inv nodes deg [] front emitted"
    by (rule topological_order_runs)
  have o: "order = front @ filter (\<lambda>i. \<not> emitted ! i) [0..<length nodes]" using assms t by simp
  have "distinct front" "set front \<subseteq> {..<length nodes}" "\<forall>i < length nodes. emitted ! i \<longleftrightarrow> i \<in> set front"
    using I by (simp_all add: kahn_inv_def)
  then show "distinct order" "set order = {..<length nodes}" by (auto simp: o)
qed

lemma topological_order_total: "topological_order nodes \<noteq> None"
  by (rule topological_order_runs [of nodes]) simp

text \<open>A set of wires that reads only itself, and has no cycle, comes in dependency order.\<close>

definition grounded :: "witness_op list \<Rightarrow> nat set \<Rightarrow> bool" where
  "grounded nodes S \<longleftrightarrow> S \<subseteq> {..<length nodes} \<and>
     (\<exists>rank :: nat \<Rightarrow> nat. \<forall>i\<in>S. \<forall>d\<in>set (read_wires nodes i). d \<in> S \<and> rank d < rank i)"

lemma topological_order_sorted:
  assumes t: "topological_order nodes = Some order" and g: "grounded nodes S" and k: "k < length order" "order ! k \<in> S"
  shows "set (read_wires nodes (order ! k)) \<subseteq> set (take k order)"
proof -
  obtain deg front emitted where t': "topological_order nodes = Some (front @ filter (\<lambda>i. \<not> emitted ! i) [0..<length nodes])"
    and I: "kahn_inv nodes deg [] front emitted"
    by (rule topological_order_runs)
  have o: "order = front @ filter (\<lambda>i. \<not> emitted ! i) [0..<length nodes]" using t t' by simp
  have F: "\<forall>i < length nodes. i \<in> set front \<longleftrightarrow> unmet nodes front i = []" "after_reads nodes front"
    "\<forall>i < length nodes. emitted ! i \<longleftrightarrow> i \<in> set front"
    using I by (auto simp: kahn_inv_def)
  obtain rank :: "nat \<Rightarrow> nat" where S: "S \<subseteq> {..<length nodes}" "\<And>i d. i \<in> S \<Longrightarrow> d \<in> set (read_wires nodes i) \<Longrightarrow> d \<in> S \<and> rank d < rank i"
    using g unfolding grounded_def by blast
  have inF: "i \<in> set front" if "i \<in> S" for i
    using that
  proof (induction "rank i" arbitrary: i rule: less_induct)
    case less
    have "set (read_wires nodes i) \<subseteq> set front" using S(2) [OF less.prems] less.hyps by blast
    then have "unmet nodes front i = []" by (auto simp: unmet_def filter_empty_conv)
    then show ?case using F(1) S(1) less.prems by blast
  qed
  have "k < length front"
  proof (rule ccontr)
    assume "\<not> k < length front"
    then have "order ! k \<in> set (filter (\<lambda>i. \<not> emitted ! i) [0..<length nodes])"
      using k(1) by (simp add: o nth_append del: set_filter)
    then show False using F(3) inF [OF k(2)] by auto
  qed
  then show ?thesis using F(2) by (auto simp: o nth_append after_reads_def)
qed

section \<open>The contract of the order\<close>

text \<open>What the forward pass relies on: there is an order, it visits every wire once, and a set of
  wires without cycles comes in dependency order.\<close>

locale dependency_order =
  fixes order_of :: "witness_op list \<Rightarrow> nat list option"
  assumes order_total: "order_of nodes \<noteq> None"
    and order_distinct: "order_of nodes = Some order \<Longrightarrow> distinct order"
    and order_set: "order_of nodes = Some order \<Longrightarrow> set order = {..<length nodes}"
    and order_sorted: "order_of nodes = Some order \<Longrightarrow> grounded nodes S \<Longrightarrow> k < length order \<Longrightarrow> order ! k \<in> S \<Longrightarrow>
      set (read_wires nodes (order ! k)) \<subseteq> set (take k order)"

interpretation kahn_order: dependency_order topological_order
  by unfold_locales (auto simp: topological_order_total topological_order_perm dest: topological_order_sorted)

end
