(* ===== verification/ZkWitnessIr.thy ===== *)
theory ZkWitnessIr
  imports ZkTopo ZkEmitter
begin

text \<open>
  \<^verbatim>\<open>build_witness_ir\<close> of \<^verbatim>\<open>src/zk_emitter.rs\<close>: how the recipes and the constraints of a circuit
  become the program of the forward pass. The lemmas show that a forward pass in dependency order
  leaves every wire with the value of its recipe on the finished witness, so that a circuit whose
  constraints each define a wire is satisfied without back-propagation.
\<close>

section \<open>Recipes from constraints\<close>

definition product_output :: "con \<Rightarrow> (nat \<times> nat \<times> nat) option" where
  "product_output c =
     (case (lc_terms (con_a c), lc_terms (con_b c), lc_terms (con_c c)) of
        ([(a, ca)], [(b, cb)], [(out, cc)]) \<Rightarrow> if ca = 1 \<and> cb = 1 \<and> cc = 1 then Some (out, a, b) else None
      | _ \<Rightarrow> None)"

text \<open>The first constraint with a given output wins.\<close>

definition mul_by_output :: "con list \<Rightarrow> (nat \<rightharpoonup> nat \<times> nat)" where
  "mul_by_output cs =
     fold (\<lambda>c m. case product_output c of
         Some (out, ab) \<Rightarrow> if m out = None then m(out \<mapsto> ab) else m
       | None \<Rightarrow> m) cs Map.empty"

definition lc_by_output :: "(nat \<rightharpoonup> nat \<times> nat) \<Rightarrow> con list \<Rightarrow> (nat \<rightharpoonup> lc \<times> lc)" where
  "lc_by_output muls cs =
     fold (\<lambda>c m.
       case lc_terms (con_c c) of
         [(out, cc)] \<Rightarrow>
           if cc \<noteq> 1 \<or> out = 0 \<or> muls out \<noteq> None \<or> m out \<noteq> None then m
           else if list_all (\<lambda>(w, _). w \<noteq> out) (lc_terms (con_a c) @ lc_terms (con_b c)) then m(out \<mapsto> (con_a c, con_b c))
           else m
       | _ \<Rightarrow> m) cs Map.empty"

definition build_node :: "em \<Rightarrow> (nat \<rightharpoonup> nat \<times> nat) \<Rightarrow> (nat \<rightharpoonup> lc \<times> lc) \<Rightarrow> nat \<Rightarrow> witness_op" where
  "build_node s muls lcs i =
     (if i \<in> set (em_pub s) then LoadInput i True
      else if i \<in> set (em_prv s) then LoadInput i False
      else case map_of (em_recipes s) i of
        Some op \<Rightarrow> op
      | None \<Rightarrow>
          (case muls i of
             Some (a, b) \<Rightarrow> WMul a b
           | None \<Rightarrow> (case lcs i of Some (a, b) \<Rightarrow> MulLc a b | None \<Rightarrow> Unknown)))"

definition build_nodes :: "em \<Rightarrow> witness_op list" where
  "build_nodes s =
     (let muls = mul_by_output (em_cons s); lcs = lc_by_output muls (em_cons s)
      in WConst (em_p s, 1) # map (build_node s muls lcs) [1..<length (em_vars s)])"

definition build_witness_ir :: "em \<Rightarrow> witness_ir option" where
  "build_witness_ir s =
     map_option (\<lambda>order.
       \<lparr>wi_field = em_p s, wi_num_public = length (em_pub s), wi_num_private = length (em_prv s),
        wi_num_signals = length (em_vars s), wi_nodes = build_nodes s,
        wi_names = (\<lambda>i. if i = 0 then Some ''const_1'' else if i < length (em_vars s) then Some (em_vars s ! i) else None),
        wi_order = order\<rparr>)
       (topological_order (build_nodes s))"

lemma build_witness_ir_total:
  obtains order where "topological_order (build_nodes s) = Some order"
    "build_witness_ir s = Some \<lparr>wi_field = em_p s, wi_num_public = length (em_pub s), wi_num_private = length (em_prv s),
        wi_num_signals = length (em_vars s), wi_nodes = build_nodes s,
        wi_names = (\<lambda>i. if i = 0 then Some ''const_1'' else if i < length (em_vars s) then Some (em_vars s ! i) else None),
        wi_order = order\<rparr>"
  using topological_order_total [of "build_nodes s"] by (auto simp: build_witness_ir_def)

lemma length_build_nodes: "em_vars s \<noteq> [] \<Longrightarrow> length (build_nodes s) = length (em_vars s)"
  by (cases "em_vars s") (auto simp: build_nodes_def Let_def Suc_le_eq)

section \<open>A forward pass in dependency order\<close>

text \<open>The nodes that write their own wire and nothing else.\<close>

definition node_value :: "int \<Rightarrow> witness_op \<Rightarrow> int list \<Rightarrow> int option" where
  "node_value p op w =
     (case op of
        WMul a b \<Rightarrow> Some (wire_val w a * wire_val w b mod p)
      | _ \<Rightarrow> eval_lc_recipe p op w)"

definition pure_node :: "int \<Rightarrow> nat \<Rightarrow> witness_op \<Rightarrow> bool" where
  "pure_node p n op \<longleftrightarrow>
     (case op of LoadInput _ _ \<Rightarrow> True | Unknown \<Rightarrow> True | WMul a b \<Rightarrow> a < n \<and> b < n | _ \<Rightarrow> lc_recipe op)"

lemma pure_exec:
  assumes "pure_node p (length w) op" "i < length w" "w ! 0 = 1"
  shows "exec_op p i op w = Inr (case node_value p op w of Some v \<Rightarrow> w[i := v] | None \<Rightarrow> w)"
proof (cases "lc_recipe op")
  case True
  then obtain v where v: "eval_lc_recipe p op w = Some v" using lc_recipe_total by blast
  then have "node_value p op w = Some v" using True by (cases op) (simp_all add: node_value_def)
  then show ?thesis using True v assms(2) by (cases op) (simp_all add: exec_op_def put_def)
next
  case False
  then show ?thesis using assms
    by (cases op) (auto simp: pure_node_def exec_op_def node_value_def put_def wire_val_def)
qed

lemma node_value_cong:
  assumes "\<And>j. j \<in> set (witness_op_deps op) \<Longrightarrow> wire_val w j = wire_val v j" "0 < p"
  shows "node_value p op w = node_value p op v"
proof (cases "\<exists>a b. op = WMul a b")
  case True
  then show ?thesis using assms(1) by (auto simp: node_value_def)
next
  case False
  then have "node_value p op u = eval_lc_recipe p op u" for u by (cases op) (auto simp: node_value_def)
  then show ?thesis using eval_lc_recipe_cong [of op w v p] assms by simp
qed

text \<open>Wires at their place in the order: already computed ones keep their value and have the value
  of their node on the present witness.\<close>

definition settled_by :: "int \<Rightarrow> witness_op list \<Rightarrow> int list \<Rightarrow> nat \<Rightarrow> bool" where
  "settled_by p nodes w i \<longleftrightarrow> (case node_value p (nodes ! i) w of Some v \<Rightarrow> w ! i = v | None \<Rightarrow> True)"

lemma exec_order_settles:
  assumes p: "0 < p" and n: "length w = n" "length nodes = n" "0 < n" "w ! 0 = 1" and dis: "distinct (done @ js)" "set (done @ js) \<subseteq> {..<n}"
    and pure: "\<forall>i \<in> {1..<n}. pure_node p n (nodes ! i) \<and> i \<notin> set (witness_op_deps (nodes ! i))"
    and dep: "\<forall>k < length js. \<forall>d \<in> set (witness_op_deps (nodes ! (js ! k))). js ! k \<noteq> 0 \<longrightarrow> d \<in> set done \<or> d \<in> set (take k js)"
    and prev: "\<forall>i \<in> set done. i \<noteq> 0 \<longrightarrow> settled_by p nodes w i \<and> set (witness_op_deps (nodes ! i)) \<subseteq> set done"
  shows "\<exists>w'. exec_order p nodes js w = Inr w' \<and> length w' = n \<and> (\<forall>i \<in> set (done @ js). i \<noteq> 0 \<longrightarrow> settled_by p nodes w' i) \<and>
    (\<forall>i. i < n \<and> (i = 0 \<or> node_value p (nodes ! i) = (\<lambda>_. None) \<or> i \<in> set done \<or> i \<notin> set js) \<longrightarrow> w' ! i = w ! i)"
  using n(1,4) dis dep prev
proof (induction js arbitrary: w "done")
  case Nil
  then show ?case using prev by auto
next
  case (Cons i js)
  have i: "i < n" "i \<notin> set done" "i \<notin> set js" using Cons.prems by auto
  have step: "\<exists>w1. (if i = 0 \<or> n \<le> i then Inr w else exec_op p i (nodes ! i) w) = Inr w1 \<and> length w1 = n \<and> w1 ! 0 = 1 \<and>
      (\<forall>j. j < n \<and> (j \<noteq> i \<or> i = 0 \<or> node_value p (nodes ! i) w = None) \<longrightarrow> w1 ! j = w ! j) \<and> (i \<noteq> 0 \<longrightarrow> settled_by p nodes w1 i)"
  proof (cases "i = 0")
    case True
    then show ?thesis using Cons.prems n(3) by simp
  next
    case False
    then have pi: "pure_node p (length w) (nodes ! i)" "i \<notin> set (witness_op_deps (nodes ! i))" using pure i(1) Cons.prems(1) by simp_all
    have il: "i < length w" using i(1) Cons.prems(1) by simp
    let ?w1 = "case node_value p (nodes ! i) w of Some v \<Rightarrow> w[i := v] | None \<Rightarrow> w"
    have "node_value p (nodes ! i) ?w1 = node_value p (nodes ! i) w"
    proof (rule node_value_cong [OF _ p])
      fix j assume "j \<in> set (witness_op_deps (nodes ! i))"
      then have "j \<noteq> i" using pi(2) by blast
      then show "wire_val ?w1 j = wire_val w j" using il by (auto simp: wire_val_update split: option.split)
    qed
    then have "settled_by p nodes ?w1 i" using il by (auto simp: settled_by_def split: option.splits)
    then show ?thesis using pure_exec [OF pi(1) il Cons.prems(2)] False i(1) Cons.prems(1,2)
      by (intro exI [of _ ?w1]) (auto split: option.splits)
  qed
  then obtain w1 where w1: "(if i = 0 \<or> n \<le> i then Inr w else exec_op p i (nodes ! i) w) = Inr w1" "length w1 = n" "w1 ! 0 = 1"
    "\<And>j. j < n \<Longrightarrow> j \<noteq> i \<or> i = 0 \<or> node_value p (nodes ! i) w = None \<Longrightarrow> w1 ! j = w ! j" "i \<noteq> 0 \<longrightarrow> settled_by p nodes w1 i"
    by blast
  have run: "exec_order p nodes (i # js) w = exec_order p nodes js w1"
    using w1(1) n(2) i(1) by (cases "i = 0") auto
  have old: "w1 ! j = w ! j" if "j \<in> set done" for j
    using w1(4) that i(2) Cons.prems(4) by auto
  have keep: "settled_by p nodes w1 j" if j: "j \<in> set done" "j \<noteq> 0" for j
  proof -
    have "node_value p (nodes ! j) w1 = node_value p (nodes ! j) w"
    proof (rule node_value_cong [OF _ p])
      fix d assume "d \<in> set (witness_op_deps (nodes ! j))"
      then have "d \<in> set done" using Cons.prems(6) j by blast
      then show "wire_val w1 d = wire_val w d" using old w1(2) Cons.prems(1) by (simp add: wire_val_def)
    qed
    moreover have "settled_by p nodes w j" using Cons.prems(6) j by blast
    ultimately show ?thesis using old [OF j(1)] by (simp add: settled_by_def split: option.splits)
  qed
  have "i \<noteq> 0 \<longrightarrow> set (witness_op_deps (nodes ! i)) \<subseteq> set (done @ [i])" using Cons.prems(5) by auto
  then have prev1: "\<forall>j \<in> set (done @ [i]). j \<noteq> 0 \<longrightarrow> settled_by p nodes w1 j \<and> set (witness_op_deps (nodes ! j)) \<subseteq> set (done @ [i])"
    using keep w1(5) Cons.prems(6) by auto
  have dep1: "\<forall>k < length js. \<forall>d \<in> set (witness_op_deps (nodes ! (js ! k))). js ! k \<noteq> 0 \<longrightarrow> d \<in> set (done @ [i]) \<or> d \<in> set (take k js)"
  proof (intro allI impI ballI)
    fix k d assume k: "k < length js" "d \<in> set (witness_op_deps (nodes ! (js ! k)))" "js ! k \<noteq> 0"
    have "d \<in> set done \<or> d \<in> set (take (Suc k) (i # js))" using Cons.prems(5) [rule_format, of "Suc k" d] k by simp
    then show "d \<in> set (done @ [i]) \<or> d \<in> set (take k js)" by auto
  qed
  have dis1: "distinct ((done @ [i]) @ js)" "set ((done @ [i]) @ js) \<subseteq> {..<n}" using Cons.prems(3,4) by auto
  from Cons.IH [OF w1(2,3) dis1 dep1 prev1] obtain w' where w': "exec_order p nodes js w1 = Inr w'" "length w' = n"
    "\<forall>j \<in> set ((done @ [i]) @ js). j \<noteq> 0 \<longrightarrow> settled_by p nodes w' j"
    "\<And>j. j < n \<Longrightarrow> j = 0 \<or> node_value p (nodes ! j) = (\<lambda>_. None) \<or> j \<in> set (done @ [i]) \<or> j \<notin> set js \<Longrightarrow> w' ! j = w1 ! j"
    by blast
  have "w' ! j = w ! j" if j: "j < n" "j = 0 \<or> node_value p (nodes ! j) = (\<lambda>_. None) \<or> j \<in> set done \<or> j \<notin> set (i # js)" for j
  proof -
    have "w' ! j = w1 ! j" using w'(4) [OF j(1)] j(2) by auto
    moreover have "w1 ! j = w ! j" using w1(4) [OF j(1)] j(2) i(2) by (cases "j = i") (auto simp: fun_eq_iff)
    ultimately show ?thesis by simp
  qed
  then show ?case using run w' by auto
qed

text \<open>Without a cycle, the pass leaves every wire with the value of its node on the final witness.\<close>

context dependency_order begin

lemma forward_pass:
  assumes p: "0 < p" and n: "length w = n" "length nodes = n" "0 < n" "w ! 0 = 1" and z: "witness_op_deps (nodes ! 0) = []"
    and N: "\<And>i. i < n \<Longrightarrow> i \<noteq> 0 \<Longrightarrow> pure_node p n (nodes ! i) \<and> (\<forall>d\<in>set (witness_op_deps (nodes ! i)). d < n \<and> rank d < (rank i :: nat))"
  shows "\<exists>order w'. order_of nodes = Some order \<and> exec_order p nodes order w = Inr w' \<and> length w' = n \<and>
    (\<forall>i. i < n \<longrightarrow> i \<noteq> 0 \<longrightarrow> settled_by p nodes w' i) \<and>
    (\<forall>i. i < n \<longrightarrow> i = 0 \<or> node_value p (nodes ! i) = (\<lambda>_. None) \<longrightarrow> w' ! i = w ! i)"
proof -
  obtain order where t: "order_of nodes = Some order" using order_total by blast
  have reads: "set (read_wires nodes i) = set (witness_op_deps (nodes ! i))" if "i < n" for i
    using N [OF that] z read_wires_props(2) [of nodes i] n(2) by (cases "i = 0") auto
  then have "\<forall>i\<in>{..<n}. \<forall>d\<in>set (read_wires nodes i). d \<in> {..<n} \<and> rank d < rank i"
    using N z by (metis empty_iff empty_set lessThan_iff)
  then have g: "grounded nodes {..<n}" unfolding grounded_def using n(2) by auto
  have dep: "\<forall>k < length order. \<forall>d \<in> set (witness_op_deps (nodes ! (order ! k))). order ! k \<noteq> 0 \<longrightarrow> d \<in> set [] \<or> d \<in> set (take k order)"
  proof (intro allI impI ballI)
    fix k d assume k: "k < length order" "d \<in> set (witness_op_deps (nodes ! (order ! k)))"
    have o: "order ! k < n" using order_set [OF t] n(2) nth_mem [OF k(1)] by auto
    then show "d \<in> set [] \<or> d \<in> set (take k order)" using order_sorted [OF t g k(1)] reads [OF o] k(2) by auto
  qed
  have pure: "\<forall>i \<in> {1..<n}. pure_node p n (nodes ! i) \<and> i \<notin> set (witness_op_deps (nodes ! i))" using N by fastforce
  have dis: "distinct ([] @ order)" "set ([] @ order) \<subseteq> {..<n}" using order_distinct [OF t] order_set [OF t] n(2) by simp_all
  from exec_order_settles [OF p n(1,2,3,4) dis pure dep] show ?thesis
    using t order_set [OF t] n(2) by auto
qed

end

section \<open>Loading the inputs\<close>

fun input_slots :: "bool \<Rightarrow> nat \<Rightarrow> witness_op list \<Rightarrow> nat list" where
  "input_slots b i [] = []"
| "input_slots b i (op # ops) =
     (if i \<noteq> 0 \<and> (case op of LoadInput _ c \<Rightarrow> c = b | _ \<Rightarrow> False) then i # input_slots b (Suc i) ops
      else input_slots b (Suc i) ops)"

lemma input_slots_ge: "j \<in> set (input_slots b i ops) \<Longrightarrow> i \<le> j \<and> 0 < j"
  by (induction ops arbitrary: i) (fastforce split: if_splits)+

lemma load_inputs_slots:
  assumes "i + length ops \<le> length w" "length pub = length (input_slots True i ops)" "length priv = length (input_slots False i ops)"
  shows "\<exists>w'. load_inputs i ops pub priv w = Inr w' \<and> length w' = length w \<and> (\<forall>j. j < i \<or> j = 0 \<longrightarrow> w' ! j = w ! j) \<and>
    map ((!) w') (input_slots True i ops) = pub \<and> map ((!) w') (input_slots False i ops) = priv"
  using assms
proof (induction ops arbitrary: i pub priv w)
  case Nil
  then show ?case by simp
next
  case (Cons op ops)
  show ?case
  proof (cases "i \<noteq> 0 \<and> (\<exists>k b. op = LoadInput k b)")
    case False
    then have e: "load_inputs i (op # ops) pub priv w = load_inputs (Suc i) ops pub priv w"
      "input_slots b i (op # ops) = input_slots b (Suc i) ops" for b by (cases op; simp)+
    have "length pub = length (input_slots True (Suc i) ops)" "length priv = length (input_slots False (Suc i) ops)"
      "Suc i + length ops \<le> length w" using Cons.prems e by simp_all
    from Cons.IH [OF this(3,1,2)] show ?thesis unfolding e by auto
  next
    case True
    then obtain k b where op: "op = LoadInput k b" and i: "i \<noteq> 0" by blast
    have il: "i < length w" "Suc i + length ops \<le> length (w[i := v])" for v using Cons.prems(1) by simp_all
    show ?thesis
    proof (cases b)
      case True
      then have sl: "input_slots True i (op # ops) = i # input_slots True (Suc i) ops" "input_slots False i (op # ops) = input_slots False (Suc i) ops"
        using op i by simp_all
      then obtain v pub' where pub: "pub = v # pub'" using Cons.prems(2) by (cases pub) simp_all
      have "length pub' = length (input_slots True (Suc i) ops)" "length priv = length (input_slots False (Suc i) ops)"
        using Cons.prems(2,3) sl pub by simp_all
      from Cons.IH [OF il(2) this, of v] obtain w' where w': "load_inputs (Suc i) ops pub' priv (w[i := v]) = Inr w'" "length w' = length w"
        "\<forall>j. j < Suc i \<or> j = 0 \<longrightarrow> w' ! j = w[i := v] ! j" "map ((!) w') (input_slots True (Suc i) ops) = pub'"
        "map ((!) w') (input_slots False (Suc i) ops) = priv" by auto
      have "load_inputs i (op # ops) pub priv w = Inr w'" using w'(1) op i il(1) pub True by (simp add: put_def)
      moreover have "w' ! i = v" "\<forall>j. j < i \<or> j = 0 \<longrightarrow> w' ! j = w ! j" using w'(3) il(1) i by auto
      ultimately show ?thesis using w'(2,4,5) sl pub by auto
    next
      case False
      then have sl: "input_slots False i (op # ops) = i # input_slots False (Suc i) ops" "input_slots True i (op # ops) = input_slots True (Suc i) ops"
        using op i by simp_all
      then obtain v priv' where priv: "priv = v # priv'" using Cons.prems(3) by (cases priv) simp_all
      have "length pub = length (input_slots True (Suc i) ops)" "length priv' = length (input_slots False (Suc i) ops)"
        using Cons.prems(2,3) sl priv by simp_all
      from Cons.IH [OF il(2) this, of v] obtain w' where w': "load_inputs (Suc i) ops pub priv' (w[i := v]) = Inr w'" "length w' = length w"
        "\<forall>j. j < Suc i \<or> j = 0 \<longrightarrow> w' ! j = w[i := v] ! j" "map ((!) w') (input_slots True (Suc i) ops) = pub"
        "map ((!) w') (input_slots False (Suc i) ops) = priv'" by auto
      have "load_inputs i (op # ops) pub priv w = Inr w'" using w'(1) op i il(1) priv False by (simp add: put_def)
      moreover have "w' ! i = v" "\<forall>j. j < i \<or> j = 0 \<longrightarrow> w' ! j = w ! j" using w'(3) il(1) i by auto
      ultimately show ?thesis using w'(2,4,5) sl priv by auto
    qed
  qed
qed

lemma input_slots_filter:
  "input_slots b i ops = filter (\<lambda>j. j \<noteq> 0 \<and> (case ops ! (j - i) of LoadInput _ c \<Rightarrow> c = b | _ \<Rightarrow> False)) [i..<i + length ops]"
proof (induction ops arbitrary: i)
  case (Cons op ops)
  have u: "[i..<i + length (op # ops)] = i # [Suc i..<Suc i + length ops]" by (simp add: upt_conv_Cons del: upt_Suc)
  have "filter (\<lambda>j. j \<noteq> 0 \<and> (case (op # ops) ! (j - i) of LoadInput _ c \<Rightarrow> c = b | _ \<Rightarrow> False)) [Suc i..<Suc i + length ops] =
      filter (\<lambda>j. j \<noteq> 0 \<and> (case ops ! (j - Suc i) of LoadInput _ c \<Rightarrow> c = b | _ \<Rightarrow> False)) [Suc i..<Suc i + length ops]"
    by (rule filter_cong) (auto simp: nth_Cons')
  then show ?case using Cons.IH [of "Suc i"] unfolding u by (cases i) (simp_all del: upt_Suc)
qed simp

section \<open>Circuits whose constraints define their wires\<close>

definition out_of :: "con \<Rightarrow> nat" where
  "out_of c = fst (hd (lc_terms (con_c c)))"

text \<open>Every constraint has a wire of its own as output, which is no input and has no recipe; the
  recipes are linear-combination recipes; nothing is read in a cycle.\<close>

definition product_circuit :: "em \<Rightarrow> bool" where
  "product_circuit s \<longleftrightarrow>
     0 < em_next s \<and> length (em_vars s) = em_next s \<and>
     sorted_wrt (<) (em_pub s) \<and> sorted_wrt (<) (em_prv s) \<and> set (em_pub s) \<inter> set (em_prv s) = {} \<and>
     set (em_pub s @ em_prv s) \<subseteq> {1..<em_next s} \<and>
     (\<forall>c\<in>set (em_cons s). lc_terms (con_c c) = [(out_of c, 1)] \<and> out_of c \<in> {1..<em_next s} \<and>
        out_of c \<notin> set (em_pub s @ em_prv s) \<and> map_of (em_recipes s) (out_of c) = None) \<and>
     distinct (map out_of (em_cons s)) \<and> (\<forall>(i, op)\<in>set (em_recipes s). lc_recipe op) \<and>
     (\<exists>rank :: nat \<Rightarrow> nat.
        (\<forall>c\<in>set (em_cons s). \<forall>w\<in>lc_wires (con_a c) \<union> lc_wires (con_b c). w < em_next s \<and> rank w < rank (out_of c)) \<and>
        (\<forall>(i, op)\<in>set (em_recipes s). \<forall>w\<in>set (witness_op_deps op). w < em_next s \<and> rank w < rank i))"

lemma fold_first:
  assumes "\<And>c m. step c m = (case key c of Some (k, v) \<Rightarrow> if m k = None then m(k \<mapsto> v) else m | None \<Rightarrow> m)"
  shows "fold step cs m k = Some v \<Longrightarrow> m k = Some v \<or> (\<exists>c\<in>set cs. key c = Some (k, v))"
    "fold step cs m k = None \<Longrightarrow> m k = None \<and> (\<forall>c\<in>set cs. \<forall>v. key c \<noteq> Some (k, v))"
proof (induction cs arbitrary: m)
  case (Cons c cs)
  case 1
  then show ?case using Cons(1) [of "step c m"] by (auto simp: assms split: option.splits if_splits)
next
  case (Cons c cs)
  case 2
  then show ?case using Cons(2) [of "step c m"] by (auto simp: assms split: option.splits if_splits)
qed simp_all

lemma mul_by_output_first:
  "mul_by_output cs k = Some ab \<Longrightarrow> \<exists>c\<in>set cs. product_output c = Some (k, ab)"
  "mul_by_output cs k = None \<Longrightarrow> c \<in> set cs \<Longrightarrow> product_output c \<noteq> Some (k, ab)"
  using fold_first [where key = product_output and m = Map.empty and cs = cs and k = k and
      step = "\<lambda>c m. case product_output c of Some (out, ab) \<Rightarrow> if m out = None then m(out \<mapsto> ab) else m | None \<Rightarrow> m"]
  by (cases ab; auto simp: mul_by_output_def split: prod.splits)+

definition lc_output :: "(nat \<rightharpoonup> nat \<times> nat) \<Rightarrow> con \<Rightarrow> (nat \<times> lc \<times> lc) option" where
  "lc_output muls c =
     (case lc_terms (con_c c) of
        [(out, cc)] \<Rightarrow>
          if cc = 1 \<and> out \<noteq> 0 \<and> muls out = None \<and> list_all (\<lambda>(w, _). w \<noteq> out) (lc_terms (con_a c) @ lc_terms (con_b c))
          then Some (out, con_a c, con_b c) else None
      | _ \<Rightarrow> None)"

lemma lc_by_output_first:
  "lc_by_output muls cs k = Some ab \<Longrightarrow> \<exists>c\<in>set cs. lc_output muls c = Some (k, ab)"
  "lc_by_output muls cs k = None \<Longrightarrow> c \<in> set cs \<Longrightarrow> lc_output muls c \<noteq> Some (k, ab)"
proof -
  let ?step = "\<lambda>c m. case lc_output muls c of Some (out, ab) \<Rightarrow> if m out = None then m(out \<mapsto> ab) else m | None \<Rightarrow> m"
  have "lc_by_output muls cs = fold ?step cs Map.empty"
    unfolding lc_by_output_def
    by (rule fold_cong) (auto simp: lc_output_def fun_eq_iff split: list.split prod.split)
  then show "lc_by_output muls cs k = Some ab \<Longrightarrow> \<exists>c\<in>set cs. lc_output muls c = Some (k, ab)"
    "lc_by_output muls cs k = None \<Longrightarrow> c \<in> set cs \<Longrightarrow> lc_output muls c \<noteq> Some (k, ab)"
    using fold_first [where key = "lc_output muls" and m = Map.empty and cs = cs and k = k and step = ?step]
    by (cases ab; auto split: prod.splits)+
qed

text \<open>The node of an output wire multiplies the two sides of its constraint.\<close>

lemma circuit_unique:
  assumes "product_circuit s" "c \<in> set (em_cons s)" "d \<in> set (em_cons s)" "out_of c = out_of d"
  shows "c = d"
  using assms by (auto simp: product_circuit_def distinct_map inj_on_def)

lemma eval_lc_single: "0 < p \<Longrightarrow> lc_terms l = [(a, 1)] \<Longrightarrow> eval_lc p l w = wire_val w a mod p"
  by (simp add: eval_lc_def)

lemma output_node:
  assumes pc: "product_circuit s" and c: "c \<in> set (em_cons s)" and p: "0 < em_p s"
  defines "op \<equiv> build_node s (mul_by_output (em_cons s)) (lc_by_output (mul_by_output (em_cons s)) (em_cons s)) (out_of c)"
  shows "node_value (em_p s) op w = Some (eval_lc (em_p s) (con_a c) w * eval_lc (em_p s) (con_b c) w mod em_p s)"
    "set (witness_op_deps op) = lc_wires (con_a c) \<union> lc_wires (con_b c)" "pure_node (em_p s) (em_next s) op"
proof -
  let ?p = "em_p s" and ?m = "mul_by_output (em_cons s)"
  let ?l = "lc_by_output ?m (em_cons s)"
  have out: "lc_terms (con_c c) = [(out_of c, 1)]" "out_of c \<noteq> 0" "out_of c \<notin> set (em_pub s)" "out_of c \<notin> set (em_prv s)" "map_of (em_recipes s) (out_of c) = None"
    using pc c by (auto simp: product_circuit_def)
  obtain rank :: "nat \<Rightarrow> nat" where rank: "\<And>w. w \<in> lc_wires (con_a c) \<union> lc_wires (con_b c) \<Longrightarrow> w < em_next s \<and> rank w < rank (out_of c)"
    using pc c unfolding product_circuit_def by blast
  have other: "d = c" if "d \<in> set (em_cons s)" "lc_terms (con_c d) = [(out_of c, 1)]" for d
    using circuit_unique [OF pc that(1) c] that(2) by (simp add: out_of_def)
  have "node_value ?p op w = Some (eval_lc ?p (con_a c) w * eval_lc ?p (con_b c) w mod ?p) \<and>
      set (witness_op_deps op) = lc_wires (con_a c) \<union> lc_wires (con_b c) \<and> pure_node ?p (em_next s) op"
  proof (cases "?m (out_of c)")
    case (Some ab)
    obtain a b where ab: "ab = (a, b)" by fastforce
    obtain d where d: "d \<in> set (em_cons s)" "product_output d = Some (out_of c, a, b)"
      using mul_by_output_first(1) [OF Some] ab by blast
    have t: "lc_terms (con_a d) = [(a, 1)]" "lc_terms (con_b d) = [(b, 1)]" "lc_terms (con_c d) = [(out_of c, 1)]"
      using d(2) by (auto simp: product_output_def split: list.splits if_splits)
    have dc: "d = c" using other d(1) t(3) by blast
    have op: "op = WMul a b" using Some ab out by (simp add: op_def build_node_def)
    have "a < em_next s" "b < em_next s" using rank t(1,2) by (auto simp: dc lc_wires_def)
    then show ?thesis using t(1,2) p
      by (simp add: op dc node_value_def eval_lc_single pure_node_def lc_wires_def mod_mult_eq insert_commute Un_commute)
  next
    case None
    have "list_all (\<lambda>(w, _). w \<noteq> out_of c) (lc_terms (con_a c) @ lc_terms (con_b c))"
      using rank by (fastforce simp: list_all_iff lc_wires_def)
    then have lo: "lc_output ?m c = Some (out_of c, con_a c, con_b c)" using out None by (simp add: lc_output_def)
    then obtain ab where ab: "?l (out_of c) = Some ab" using lc_by_output_first(2) [OF _ c] by fastforce
    obtain d where d: "d \<in> set (em_cons s)" "lc_output ?m d = Some (out_of c, ab)" using lc_by_output_first(1) [OF ab] by blast
    have "lc_terms (con_c d) = [(out_of c, 1)]" using d(2) by (auto simp: lc_output_def split: list.splits if_splits)
    then have "d = c" using other d(1) by blast
    then have "op = MulLc (con_a c) (con_b c)" using d(2) lo ab None out by (auto simp: op_def build_node_def)
    then show ?thesis by (simp add: node_value_def pure_node_def)
  qed
  then show "node_value ?p op w = Some (eval_lc ?p (con_a c) w * eval_lc ?p (con_b c) w mod ?p)"
    "set (witness_op_deps op) = lc_wires (con_a c) \<union> lc_wires (con_b c)" "pure_node ?p (em_next s) op" by blast+
qed

lemma circuit_node:
  assumes pc: "product_circuit s" and p: "0 < em_p s" and i: "i < em_next s" "i \<noteq> 0"
    and rank: "\<forall>c\<in>set (em_cons s). \<forall>w\<in>lc_wires (con_a c) \<union> lc_wires (con_b c). w < em_next s \<and> rank w < (rank (out_of c) :: nat)"
      "\<forall>(i, op)\<in>set (em_recipes s). \<forall>w\<in>set (witness_op_deps op). w < em_next s \<and> rank w < rank i"
  defines "op \<equiv> build_node s (mul_by_output (em_cons s)) (lc_by_output (mul_by_output (em_cons s)) (em_cons s)) i"
  shows "pure_node (em_p s) (em_next s) op \<and> (\<forall>d\<in>set (witness_op_deps op). d < em_next s \<and> rank d < rank i) \<and>
    (i \<in> set (em_pub s) \<longleftrightarrow> (\<exists>k. op = LoadInput k True)) \<and> (i \<in> set (em_prv s) \<longleftrightarrow> (\<exists>k. op = LoadInput k False))"
proof -
  let ?m = "mul_by_output (em_cons s)"
  let ?l = "lc_by_output ?m (em_cons s)"
  have dj: "set (em_pub s) \<inter> set (em_prv s) = {}" and rc: "\<And>j q. (j, q) \<in> set (em_recipes s) \<Longrightarrow> lc_recipe q"
    using pc by (auto simp: product_circuit_def)
  consider "i \<in> set (em_pub s)" | "i \<notin> set (em_pub s)" "i \<in> set (em_prv s)"
    | q where "i \<notin> set (em_pub s)" "i \<notin> set (em_prv s)" "map_of (em_recipes s) i = Some q"
    | c where "i \<notin> set (em_pub s)" "i \<notin> set (em_prv s)" "c \<in> set (em_cons s)" "out_of c = i"
    | "i \<notin> set (em_pub s)" "i \<notin> set (em_prv s)" "map_of (em_recipes s) i = None" "?m i = None" "?l i = None"
  proof -
    have "out_of c = i" if "product_output c = Some (i, ab)" for c ab
      using that by (auto simp: product_output_def out_of_def split: list.splits if_splits)
    moreover have "out_of c = i" if "lc_output ?m c = Some (i, ab)" for c ab
      using that by (auto simp: lc_output_def out_of_def split: list.splits if_splits)
    moreover have "\<exists>c\<in>set (em_cons s). product_output c = Some (i, ab)" if "?m i = Some ab" for ab
      using mul_by_output_first(1) [OF that] by simp
    moreover have "\<exists>c\<in>set (em_cons s). lc_output ?m c = Some (i, ab)" if "?l i = Some ab" for ab
      using lc_by_output_first(1) [OF that] by simp
    ultimately show ?thesis using that by (metis option.exhaust)
  qed
  then show ?thesis
  proof cases
    case 1
    then have "op = LoadInput i True" by (simp add: op_def build_node_def)
    then show ?thesis using 1 dj by (auto simp: pure_node_def)
  next
    case 2
    then have "op = LoadInput i False" by (simp add: op_def build_node_def)
    then show ?thesis using 2 by (auto simp: pure_node_def)
  next
    case 3
    then have o: "op = q" "(i, q) \<in> set (em_recipes s)" by (simp_all add: op_def build_node_def map_of_SomeD)
    then have "lc_recipe op" using rc by blast
    then have "pure_node (em_p s) (em_next s) op" "\<forall>k b. op \<noteq> LoadInput k b" by (cases op; simp add: pure_node_def)+
    moreover have "\<forall>d\<in>set (witness_op_deps op). d < em_next s \<and> rank d < rank i" using rank(2) o by blast
    ultimately show ?thesis using 3 by blast
  next
    case 4
    have e: "op = build_node s ?m ?l (out_of c)" using 4(4) by (simp add: op_def)
    note O = output_node [OF pc 4(3) p, folded e]
    have "op \<noteq> LoadInput k b" for k b using O(1) by (auto simp: node_value_def)
    then show ?thesis using O(2,3) rank(1) 4 by blast
  next
    case 5
    then have "op = Unknown" by (simp add: op_def build_node_def)
    then show ?thesis using 5 by (simp add: pure_node_def)
  qed
qed

lemma sorted_filter_eq:
  assumes "sorted_wrt (<) xs" "set xs \<subseteq> {a..<b}"
  shows "filter (\<lambda>j. j \<in> set xs) [a..<b] = (xs :: nat list)"
proof (rule sorted_distinct_set_unique)
  show "sorted xs" "distinct xs" using assms(1) by (simp_all add: strict_sorted_iff)
  show "sorted (filter (\<lambda>j. j \<in> set xs) [a..<b])" by (intro sorted_wrt_filter sorted_upt)
qed (use assms in auto)

lemma input_node: "(case op of LoadInput _ c \<Rightarrow> c = b | _ \<Rightarrow> False) \<longleftrightarrow> (\<exists>k. op = LoadInput k b)"
  by (cases op) auto

lemma slots_of_nodes:
  assumes "length nodes = n" "sorted_wrt (<) xs" "set xs \<subseteq> {1..<n}" "\<And>j. j < n \<Longrightarrow> j \<noteq> 0 \<Longrightarrow> j \<in> set xs \<longleftrightarrow> (\<exists>k. nodes ! j = LoadInput k b)"
  shows "input_slots b 0 nodes = xs"
proof -
  have "input_slots b 0 nodes = filter (\<lambda>j. j \<noteq> 0 \<and> (\<exists>k. nodes ! j = LoadInput k b)) [0..<n]"
    using input_slots_filter [of b 0 nodes] assms(1) by (simp add: input_node)
  also have "\<dots> = filter (\<lambda>j. j \<in> set xs) [0..<n]"
    by (rule filter_cong) (use assms(3,4) in \<open>auto dest!: subsetD\<close>)
  also have "\<dots> = xs" by (rule sorted_filter_eq) (use assms(2,3) in auto)
  finally show ?thesis .
qed

section \<open>The honest prover\<close>

lemma straight_line_solved:
  assumes pc: "product_circuit s" and p: "1 < em_p s"
    and inp: "\<forall>v\<in>set (pub @ priv). fst v = em_p s" "length pub = length (em_pub s)" "length priv = length (em_prv s)"
  shows "\<exists>ir w. build_witness_ir s = Some ir \<and> solve_r1cs_witness (em_cons s) ir (em_next s) pub priv = Some (w, True) \<and>
    cons_sat (em_p s) (wire_val w) (em_cons s) \<and> map (wire_val w) (em_pub s) = map snd pub \<and> map (wire_val w) (em_prv s) = map snd priv"
proof -
  let ?n = "em_next s" and ?p = "em_p s" and ?nodes = "build_nodes s"
  let ?m = "mul_by_output (em_cons s)"
  let ?l = "lc_by_output ?m (em_cons s)"
  have n: "0 < ?n" "length (em_vars s) = ?n" and p0: "0 < ?p" using pc p by (auto simp: product_circuit_def)
  then have ln: "length ?nodes = ?n" using length_build_nodes [of s] by fastforce
  have nd: "?nodes ! i = build_node s ?m ?l i" if "i < ?n" "i \<noteq> 0" for i
    using that n(2) by (simp add: build_nodes_def Let_def nth_Cons')
  have nd0: "witness_op_deps (?nodes ! 0) = []" by (simp add: build_nodes_def Let_def)
  obtain rank :: "nat \<Rightarrow> nat" where rank:
    "\<forall>c\<in>set (em_cons s). \<forall>w\<in>lc_wires (con_a c) \<union> lc_wires (con_b c). w < em_next s \<and> rank w < rank (out_of c)"
    "\<forall>(i, op)\<in>set (em_recipes s). \<forall>w\<in>set (witness_op_deps op). w < em_next s \<and> rank w < rank i"
    using pc unfolding product_circuit_def by blast
  have N: "pure_node ?p ?n (?nodes ! i) \<and> (\<forall>d\<in>set (witness_op_deps (?nodes ! i)). d < ?n \<and> rank d < rank i) \<and>
      (i \<in> set (em_pub s) \<longleftrightarrow> (\<exists>k. ?nodes ! i = LoadInput k True)) \<and> (i \<in> set (em_prv s) \<longleftrightarrow> (\<exists>k. ?nodes ! i = LoadInput k False))"
    if "i < ?n" "i \<noteq> 0" for i
    using circuit_node [OF pc p0 that rank] nd [OF that] by simp
  have S: "sorted_wrt (<) (em_pub s)" "set (em_pub s) \<subseteq> {1..<?n}" "sorted_wrt (<) (em_prv s)" "set (em_prv s) \<subseteq> {1..<?n}"
    using pc by (simp_all add: product_circuit_def)
  have slots: "input_slots True 0 ?nodes = em_pub s" "input_slots False 0 ?nodes = em_prv s"
    using slots_of_nodes [OF ln S(1,2), of True] slots_of_nodes [OF ln S(3,4), of False] N by blast+
  have l0: "0 + length ?nodes \<le> length ((replicate ?n 0)[0 := 1] :: int list)" "length (map snd pub) = length (input_slots True 0 ?nodes)"
    "length (map snd priv) = length (input_slots False 0 ?nodes)" using ln slots inp by simp_all
  from load_inputs_slots [OF l0] obtain w1 where w1: "load_inputs 0 ?nodes (map snd pub) (map snd priv) ((replicate ?n 0)[0 := 1]) = Inr w1"
    "length w1 = ?n" "w1 ! 0 = 1" "map ((!) w1) (em_pub s) = map snd pub" "map ((!) w1) (em_prv s) = map snd priv" using slots n by auto
  have N1: "pure_node ?p ?n (?nodes ! i) \<and> (\<forall>d\<in>set (witness_op_deps (?nodes ! i)). d < ?n \<and> rank d < rank i)" if "i < ?n" "i \<noteq> 0" for i
    using N [OF that] by blast
  obtain order w where t: "topological_order ?nodes = Some order" and w: "exec_order ?p ?nodes order w1 = Inr w" "length w = ?n"
    "\<And>i. i < ?n \<Longrightarrow> i \<noteq> 0 \<Longrightarrow> settled_by ?p ?nodes w i"
    "\<And>i. i < ?n \<Longrightarrow> i = 0 \<or> node_value ?p (?nodes ! i) = (\<lambda>_. None) \<Longrightarrow> w ! i = w1 ! i"
    using kahn_order.forward_pass [where rank = rank, OF p0 w1(2) ln n(1) w1(3) nd0 N1] by blast
  obtain ir where ir: "build_witness_ir s = Some ir" "wi_field ir = ?p" "wi_num_signals ir = ?n" "wi_nodes ir = ?nodes" "wi_order ir = order"
    using t n(2) by (simp add: build_witness_ir_def)
  have host: "execute_host_witness_ir ir pub priv = Inr w"
    using inp(1) w1(1) w(1) n by (auto simp: execute_host_witness_ir_def list_ex_iff Let_def ir)
  have sat: "con_sat ?p (wire_val w) c" if c: "c \<in> set (em_cons s)" for c
  proof -
    have out: "lc_terms (con_c c) = [(out_of c, 1)]" "out_of c < ?n" "out_of c \<noteq> 0" using pc c by (auto simp: product_circuit_def)
    have "wire_val w (out_of c) = eval_lc ?p (con_a c) w * eval_lc ?p (con_b c) w mod ?p"
      using w(3) [OF out(2,3)] output_node(1) [OF pc c p0, of w] out(2,3) w(2) nd [OF out(2,3)]
      by (simp add: settled_by_def wire_val_def)
    then show ?thesis using p0 out(1) by (simp add: con_sat_def eval_lc_sum lc_sum_def mod_mult_eq)
  qed
  have inputs: "wire_val w i = w1 ! i" if m: "i \<in> set (em_pub s @ em_prv s)" for i
  proof -
    have i: "i < ?n" "i \<noteq> 0" using pc m by (auto simp: product_circuit_def)
    obtain k b where "?nodes ! i = LoadInput k b" using N [OF i] m by auto
    then have "node_value ?p (?nodes ! i) = (\<lambda>_. None)" by (simp add: node_value_def fun_eq_iff)
    then show ?thesis using w(2,4) i by (simp add: wire_val_def)
  qed
  then have "map (wire_val w) (em_pub s) = map snd pub" "map (wire_val w) (em_prv s) = map snd priv"
    using w1(4,5) by (simp_all add: map_eq_conv [THEN iffD2, symmetric] flip: w1(4,5))
  moreover have "w[0 := 1] = w" using w(4) [of 0] w1(3) w(2) n by (metis list_update_id)
  ultimately show ?thesis using ir host sat n p0 w(2)
    by (intro exI [of _ ir] exI [of _ w]) (simp add: solve_r1cs_witness_def Let_def check_r1cs_None cons_sat_def resize_witness_def)
qed

end
