(* ===== verification/ZkLower.thy ===== *)
theory ZkLower
  imports ZkLowerOps
begin

text \<open>
  The lowering of a program to a circuit, \<^verbatim>\<open>emit_expr\<close>, \<^verbatim>\<open>emit_stmt\<close>, \<^verbatim>\<open>emit_stmts\<close> and the entry points
  of \<^verbatim>\<open>src/zk_emitter.rs\<close>. Statements return a predicated return: \<open>None\<close> when control cannot return,
  otherwise a flag and a value. Calls are inlined; the functions recurse structurally on the
  syntax and, at a call, on a fuel that the code's bound of 256 active calls keeps from running
  out. The environment variable \<^verbatim>\<open>Y_ZK_MAX_UNROLL\<close> is the argument \<open>mu\<close>.
\<close>

section \<open>Names and constants in expressions\<close>

fun expr_references_var :: "expr \<Rightarrow> string \<Rightarrow> bool" where
  "expr_references_var (Ident n _) name = (n = name)"
| "expr_references_var (BinaryOp l _ r _) name = (expr_references_var l name \<or> expr_references_var r name)"
| "expr_references_var (Call _ args _) name = list_ex (\<lambda>a. expr_references_var a name) args"
| "expr_references_var _ name = False"

fun zk_const_int :: "expr \<Rightarrow> int option" where
  "zk_const_int (IntLit v _) = Some v"
| "zk_const_int (UnaryOp Neg e _) = map_option uminus (zk_const_int e)"
| "zk_const_int _ = None"

fun is_ident :: "expr \<Rightarrow> string \<Rightarrow> bool" where
  "is_ident (Ident n _) name = (n = name)"
| "is_ident _ name = False"

section \<open>Bindings and constants\<close>

text \<open>\<^verbatim>\<open>const_bindings\<close> is one map for the whole emitter, beside the scope stack.\<close>

definition set_const :: "string \<Rightarrow> int \<Rightarrow> em \<Rightarrow> em" where
  "set_const name c s = s\<lparr>em_consts := (em_consts s)(name \<mapsto> c)\<rparr>"

definition drop_const :: "string \<Rightarrow> em \<Rightarrow> em" where
  "drop_const name s = s\<lparr>em_consts := (em_consts s)(name := None)\<rparr>"

text \<open>An assignment records a constant and forgets a stale one.\<close>

definition track_const :: "string \<Rightarrow> lc \<Rightarrow> em \<Rightarrow> em" where
  "track_const name l s =
     (case lc_is_constant (em_p s) l of Some c \<Rightarrow> set_const name c s | None \<Rightarrow> drop_const name s)"

definition read_name :: "string \<Rightarrow> em \<Rightarrow> lc option" where
  "read_name name s =
     (case lookup_const s name of
        Some c \<Rightarrow> Some (lc_constant c)
      | None \<Rightarrow> map_option binding_lc (lookup s name))"

text \<open>\<^verbatim>\<open>Stmt::Let\<close> with an initialiser: a constant is recorded, a stale one stays.\<close>

definition bind_let :: "string \<Rightarrow> lc \<Rightarrow> em \<Rightarrow> lc \<times> em" where
  "bind_let name l s =
     (let l' = lc_simplify (em_p s) l;
          s1 = (case lc_is_constant (em_p s) l' of Some c \<Rightarrow> set_const name c s | None \<Rightarrow> s)
      in (l', bind name (Linear l') s1))"

definition bind_raw :: "string \<Rightarrow> em \<Rightarrow> lc \<times> em" where
  "bind_raw name s = (let (w, s1) = new_wire name s in (lc_variable w, bind name (Wire w) s1))"

text \<open>\<^verbatim>\<open>@bounds(lo, hi)\<close>: two range proofs of the width of \<open>hi - lo\<close>. An \<^verbatim>\<open>i64\<close> literal under negations
  stays within 64 bits of magnitude.\<close>

definition bound_field :: "int \<Rightarrow> int \<Rightarrow> int" where
  "bound_field p v =
     (let m = fr_from_u64 p (nat (\<bar>v\<bar> mod 2 ^ 64)) in if 0 \<le> v then m else (0 - m) mod p)"

fun bit_width :: "nat \<Rightarrow> nat" where
  "bit_width n = (if n = 0 then 0 else Suc (bit_width (n div 2)))"

declare bit_width.simps [simp del]

definition emit_bounds :: "string \<Rightarrow> expr bounds_attr option \<Rightarrow> lc \<Rightarrow> em \<Rightarrow> unit emitted" where
  "emit_bounds name b l s =
     (case b of
        None \<Rightarrow> Inr ((), s)
      | Some (BoundsAttr mi ma sp) \<Rightarrow>
          (case (zk_const_int mi, zk_const_int ma) of
             (Some lo, Some hi) \<Rightarrow>
               if hi < lo then Inl (BoundsEmpty lo hi name (sp_line sp))
               else (let p = em_p s;
                         k = bit_width (nat (hi - lo));
                         above_min = lc_add_constant l ((0 - bound_field p lo) mod p);
                         below_max = lc_add_linear p (lc_constant (bound_field p hi)) l (fr_neg_one p);
                         (_, s1) = emit_num2bits above_min k sp s;
                         (_, s2) = emit_num2bits below_max k sp s1
                     in Inr ((), s2))
           | _ \<Rightarrow> Inl (BoundsNotConstant name (sp_line sp))))"

section \<open>Assignments\<close>

text \<open>\<open>target = target + e\<close> and \<open>target = target - e\<close> take the binding out of its scope, add to it and put
  it back; any other operator puts it back unchanged and leaves the assignment to the general
  case, with \<open>e\<close> already lowered once.\<close>

definition self_update :: "(em \<Rightarrow> lc emitted) \<Rightarrow> (int \<Rightarrow> lc \<Rightarrow> lc \<Rightarrow> lc option) \<Rightarrow> string \<Rightarrow> em \<Rightarrow> bool emitted" where
  "self_update other combine name s =
     (case take_binding_from_scope name s of
        (None, s1) \<Rightarrow> Inr (False, s1)
      | (Some (i, b), s1) \<Rightarrow>
          and_then (other s1) (\<lambda>(e, s2).
            case combine (em_p s2) (binding_lc b) e of
              Some l \<Rightarrow> Inr (True, bind_to_scope i name (Linear l) (track_const name l s2))
            | None \<Rightarrow> Inr (False, bind_to_scope i name (Linear (binding_lc b)) s2)))"

definition target_first :: "binary_op \<Rightarrow> int \<Rightarrow> lc \<Rightarrow> lc \<Rightarrow> lc option" where
  "target_first op p t e =
     (case op of
        Add \<Rightarrow> Some (lc_simplify p (lc_add_linear p t e 1))
      | Sub \<Rightarrow> Some (lc_simplify p (lc_add_linear p t e (fr_neg_one p)))
      | _ \<Rightarrow> None)"

definition target_second :: "binary_op \<Rightarrow> int \<Rightarrow> lc \<Rightarrow> lc \<Rightarrow> lc option" where
  "target_second op p t e =
     (case op of
        Add \<Rightarrow> Some (lc_simplify p (lc_add_linear p t e 1))
      | Sub \<Rightarrow> Some (lc_simplify p (lc_add_linear p (lc_scale p t (fr_neg_one p)) e 1))
      | _ \<Rightarrow> None)"

definition assign_value :: "string \<Rightarrow> lc \<Rightarrow> em \<Rightarrow> em" where
  "assign_value name l s =
     (let l' = lc_simplify (em_p s) l;
          s1 = track_const name l' s
      in case bind_update name (Linear l') s1 of
           (True, s2) \<Rightarrow> s2
         | (False, s2) \<Rightarrow> bind name (Linear l') s2)"

text \<open>The value is \<open>left op right\<close>; \<open>le\<close>, \<open>re\<close> and \<open>ve\<close> lower the left side, the right side and the value.\<close>

definition assign_binary ::
  "string \<Rightarrow> expr \<Rightarrow> binary_op \<Rightarrow> expr \<Rightarrow> (em \<Rightarrow> lc emitted) \<Rightarrow> (em \<Rightarrow> lc emitted) \<Rightarrow> (em \<Rightarrow> lc emitted) \<Rightarrow> em \<Rightarrow> ret option emitted" where
  "assign_binary name left op right le re ve s =
     and_then (if is_ident left name \<and> \<not> expr_references_var right name
               then self_update re (target_first op) name s else Inr (False, s)) (\<lambda>(done1, s1).
     and_then (if \<not> done1 \<and> is_ident right name \<and> \<not> expr_references_var left name
               then self_update le (target_second op) name s1 else Inr (done1, s1)) (\<lambda>(done2, s2).
     if done2 then Inr (None, s2)
     else and_then (ve s2) (\<lambda>(l, s3). Inr (None, assign_value name l s3))))"

section \<open>Blocks, loops and branches\<close>

definition in_scope :: "(em \<Rightarrow> 'a emitted) \<Rightarrow> em \<Rightarrow> 'a emitted" where
  "in_scope body s = and_then (body (enter_scope s)) (\<lambda>(r, s1). Inr (r, exit_scope s1))"

definition always_returns :: "em \<Rightarrow> ret option \<Rightarrow> bool" where
  "always_returns s r = (case r of Some a \<Rightarrow> lc_is_constant (em_p s) (ret_flag a) = Some 1 | None \<Rightarrow> False)"

definition seq_returns :: "ret option \<Rightarrow> ret option \<Rightarrow> span \<Rightarrow> em \<Rightarrow> ret option \<times> em" where
  "seq_returns a b sp s =
     (case (a, b) of
        (None, h) \<Rightarrow> (h, s)
      | (Some x, None) \<Rightarrow> (Some x, s)
      | (Some x, Some y) \<Rightarrow> (let (r, s1) = seq_ret x y sp s in (Some r, s1)))"

text \<open>The iterations of a \<open>for\<close>, with \<open>n\<close> iterations left before the unrolling limit.\<close>

fun unroll :: "nat \<Rightarrow> nat \<Rightarrow> string \<Rightarrow> (em \<Rightarrow> ret option emitted) \<Rightarrow> int \<Rightarrow> int \<Rightarrow> span \<Rightarrow> int \<Rightarrow> ret option \<Rightarrow> em \<Rightarrow> ret option emitted" where
  "unroll mu n var body step last_v sp cur acc s =
     (if \<not> cur < last_v then Inr (acc, s)
      else case n of
        0 \<Rightarrow> Inl (UnrollLimit mu (sp_line sp))
      | Suc m \<Rightarrow>
          (let s1 = bind var (Linear (lc_constant cur)) (set_const var cur (enter_scope s))
           in and_then (body s1) (\<lambda>(here, s2).
              (let (acc', s3) = seq_returns acc here sp s2;
                   s4 = exit_scope s3
               in if always_returns s4 acc' then Inr (acc', s4)
                  else unroll mu m var body step last_v sp ((cur + step) mod em_p s4) acc' s4))))"

declare unroll.simps [simp del]

text \<open>Bindings compare by terms.\<close>

definition binding_eq :: "wire_binding option \<Rightarrow> wire_binding option \<Rightarrow> bool" where
  "binding_eq a b =
     (case (a, b) of
        (None, None) \<Rightarrow> True
      | (Some (Wire v), Some (Wire w)) \<Rightarrow> v = w
      | (Some (Linear l), Some (Linear m)) \<Rightarrow> lc_eq l m
      | _ \<Rightarrow> False)"

definition branch_lc :: "scope list \<Rightarrow> nat \<Rightarrow> string \<Rightarrow> wire_binding option \<Rightarrow> emit_error + lc" where
  "branch_lc scs i name b =
     (case b of
        Some x \<Rightarrow> Inr (binding_lc x)
      | None \<Rightarrow> (case lookup_in_scopes scs i name of
            None \<Rightarrow> Inl Panic
          | Some None \<Rightarrow> Inr lc_zero
          | Some (Some l) \<Rightarrow> Inr l))"

definition merge_var :: "lc \<Rightarrow> span \<Rightarrow> scope list \<Rightarrow> scope list \<Rightarrow> nat \<Rightarrow> string \<Rightarrow> em \<Rightarrow> unit emitted" where
  "merge_var cond sp ts es i name s =
     (let tv = map_of (ts ! i) name; ev = map_of (es ! i) name in
      if \<not> binding_eq tv ev then
        and_then (branch_lc ts i name tv) (\<lambda>tl.
        and_then (branch_lc es i name ev) (\<lambda>el.
          (let p = em_p s;
               (w, s1) = new_wire (name @ ''_mux'') s;
               b_term = lc_add_linear p tl el (fr_neg_one p);
               c_term = lc_add_linear p (lc_variable w) el (fr_neg_one p);
               s2 = s1\<lparr>em_cons := em_cons s1 @ [\<lparr>con_a = cond, con_b = b_term, con_c = c_term, con_span = Some sp\<rparr>]\<rparr>
           in Inr ((), bind_to_scope i name (Wire w) s2))))
      else case tv of
        Some b \<Rightarrow> Inr ((), bind_to_scope i name b s)
      | None \<Rightarrow> Inr ((), s))"

fun merge_vars :: "lc \<Rightarrow> span \<Rightarrow> scope list \<Rightarrow> scope list \<Rightarrow> nat \<Rightarrow> string list \<Rightarrow> em \<Rightarrow> unit emitted" where
  "merge_vars cond sp ts es i [] s = Inr ((), s)"
| "merge_vars cond sp ts es i (v # vs) s =
     and_then (merge_var cond sp ts es i v s) (\<lambda>(_, s1). merge_vars cond sp ts es i vs s1)"

text \<open>The names of either branch at one level. The code collects them in a \<^verbatim>\<open>HashSet\<close>, whose order is
  unspecified; here the names of the first branch come first.\<close>

definition branch_names :: "scope \<Rightarrow> scope \<Rightarrow> string list" where
  "branch_names t e = remdups (map fst t @ map fst e)"

fun merge_scopes :: "lc \<Rightarrow> span \<Rightarrow> scope list \<Rightarrow> scope list \<Rightarrow> nat list \<Rightarrow> em \<Rightarrow> unit emitted" where
  "merge_scopes cond sp ts es [] s = Inr ((), s)"
| "merge_scopes cond sp ts es (i # is) s =
     (if length ts \<le> i \<or> length es \<le> i then Inl Panic
      else and_then (merge_vars cond sp ts es i (branch_names (ts ! i) (es ! i)) s)
             (\<lambda>(_, s1). merge_scopes cond sp ts es is s1))"

definition merge_consts :: "(string \<rightharpoonup> int) \<Rightarrow> (string \<rightharpoonup> int) \<Rightarrow> (string \<rightharpoonup> int)" where
  "merge_consts t e = (\<lambda>k. if t k = e k then t k else None)"

definition no_ret :: ret where
  "no_ret = \<lparr>ret_flag = lc_zero, ret_value = lc_zero\<rparr>"

text \<open>The second branch starts from the bindings and constants before the first; an absent one
  leaves them alone.\<close>

definition emit_else ::
  "(em \<Rightarrow> ret option emitted) option \<Rightarrow> scope list \<Rightarrow> (string \<rightharpoonup> int) \<Rightarrow> em \<Rightarrow> (ret option \<times> scope list \<times> (string \<rightharpoonup> int)) emitted" where
  "emit_else els scs pre s =
     (case els of
        None \<Rightarrow> Inr ((None, scs, pre), s)
      | Some f \<Rightarrow> and_then (f (s\<lparr>em_consts := pre\<rparr>)) (\<lambda>(er, s1).
          Inr ((er, em_scopes s1, em_consts s1), s1\<lparr>em_scopes := scs\<rparr>)))"

definition mux_returns :: "lc \<Rightarrow> ret option \<Rightarrow> ret option \<Rightarrow> span \<Rightarrow> em \<Rightarrow> ret option \<times> em" where
  "mux_returns cond tr er sp s =
     (if tr = None \<and> er = None then (None, s)
      else (let t = (case tr of Some r \<Rightarrow> r | None \<Rightarrow> no_ret);
                e = (case er of Some r \<Rightarrow> r | None \<Rightarrow> no_ret);
                (flag, s1) = emit_mux cond (ret_flag t) (ret_flag e) sp s;
                (value, s2) = emit_mux cond (ret_value t) (ret_value e) sp s1
            in (Some \<lparr>ret_flag = flag, ret_value = value\<rparr>, s2)))"

text \<open>A branch on a wire: both branches are lowered from the same bindings, and every binding they
  disagree on becomes a multiplexer.\<close>

definition emit_branch :: "lc \<Rightarrow> (em \<Rightarrow> ret option emitted) \<Rightarrow> (em \<Rightarrow> ret option emitted) option \<Rightarrow> span \<Rightarrow> em \<Rightarrow> ret option emitted" where
  "emit_branch cond thn els sp s =
     and_then (thn (s\<lparr>em_cons := em_cons s @ [\<lparr>con_a = cond, con_b = cond, con_c = cond, con_span = Some sp\<rparr>]\<rparr>)) (\<lambda>(tr, s1).
     and_then (emit_else els (em_scopes s) (em_consts s) (s1\<lparr>em_scopes := em_scopes s\<rparr>)) (\<lambda>((er, es, ec), s2).
     and_then (merge_scopes cond sp (em_scopes s1) es [0..<length (em_scopes s)]
         (s2\<lparr>em_consts := merge_consts (em_consts s1) ec\<rparr>)) (\<lambda>(_, s3).
       Inr (mux_returns cond tr er sp s3))))"

section \<open>Calls\<close>

fun find_func :: "string \<Rightarrow> item list \<Rightarrow> func_decl option" where
  "find_func name [] = None"
| "find_func name (Func f # items) = (if fd_name f = name then Some f else find_func name items)"
| "find_func name (_ # items) = find_func name items"

definition push_call :: "string \<Rightarrow> em \<Rightarrow> em" where
  "push_call name s = s\<lparr>em_calls := em_calls s @ [name]\<rparr>"

definition pop_call :: "em \<Rightarrow> em" where
  "pop_call s = s\<lparr>em_calls := butlast (em_calls s)\<rparr>"

definition bind_params :: "param list \<Rightarrow> lc list \<Rightarrow> em \<Rightarrow> em" where
  "bind_params ps ls s = fold (\<lambda>(q, l). bind (par_name q) (Linear l)) (zip ps ls) s"

text \<open>The two refusals of recursion: too deep, or with no constant argument.\<close>

definition check_recursion :: "string \<Rightarrow> lc list \<Rightarrow> span \<Rightarrow> em \<Rightarrow> emit_error + unit" where
  "check_recursion name args sp s =
     (if 256 < length (em_calls s) then Inl (RecursionDepth (sp_line sp))
      else if name \<in> set (em_calls s) \<and> list_all (\<lambda>l. lc_is_constant (em_p s) l = None) args
      then Inl (DynamicRecursion (sp_line sp)) else Inr ())"

definition enter_call :: "string \<Rightarrow> param list \<Rightarrow> lc list \<Rightarrow> em \<Rightarrow> em" where
  "enter_call name ps args s = bind_params ps args (push_call name (enter_scope s))"

definition leave_call :: "string \<Rightarrow> span \<Rightarrow> ret option \<times> em \<Rightarrow> lc emitted" where
  "leave_call name sp r =
     (case fst r of
        Some x \<Rightarrow> Inr (ret_value x, exit_scope (pop_call (snd r)))
      | None \<Rightarrow> Inl (NoReturnValue name (sp_line sp)))"

definition indexed_name :: "string \<Rightarrow> int \<Rightarrow> string" where
  "indexed_name b i = b @ ''_'' @ nat_dec (nat i)"

text \<open>The outputs of a hint block: fresh wires that some constraint has to mention.\<close>

definition bind_hint :: "span \<Rightarrow> string \<Rightarrow> em \<Rightarrow> em" where
  "bind_hint sp name s =
     (let (w, s1) = new_wire name s; s2 = bind name (Wire w) s1
      in s2\<lparr>em_hints := map_insert w (name, sp) (em_hints s2)\<rparr>)"

section \<open>Expressions and statements\<close>

lemma size_block_stmts: "size_block f b = Suc (size_list f (block_stmts b))"
  by (cases b) simp

function (sequential) emit_expr :: "nat \<Rightarrow> item list \<Rightarrow> nat \<Rightarrow> expr \<Rightarrow> em \<Rightarrow> lc emitted"
  and emit_exprs :: "nat \<Rightarrow> item list \<Rightarrow> nat \<Rightarrow> expr list \<Rightarrow> em \<Rightarrow> lc list emitted"
  and emit_stmt :: "nat \<Rightarrow> item list \<Rightarrow> nat \<Rightarrow> stmt \<Rightarrow> em \<Rightarrow> ret option emitted"
  and emit_stmts :: "nat \<Rightarrow> item list \<Rightarrow> nat \<Rightarrow> ret option \<Rightarrow> stmt list \<Rightarrow> em \<Rightarrow> ret option emitted" where
  "emit_expr mu items n (IntLit v _) s = Inr (lc_constant (fr_from_u64 (em_p s) (nat (v mod 2 ^ 64))), s)"
| "emit_expr mu items n (BoolLit b _) s = Inr (lc_constant (if b then 1 else 0), s)"
| "emit_expr mu items n (Ident name sp) s =
     (case read_name name s of Some l \<Rightarrow> Inr (l, s) | None \<Rightarrow> Inl (UndefinedVariable name (sp_line sp)))"
| "emit_expr mu items n (BinaryOp l op r sp) s =
     and_then (emit_expr mu items n l s) (\<lambda>(a, s1).
     and_then (emit_expr mu items n r s1) (\<lambda>(b, s2).
       if op = NotEq
       then and_then (emit_expr mu items n l s2) (\<lambda>(a', s3).
            and_then (emit_expr mu items n r s3) (\<lambda>(b', s4). emit_binop NotEq a' b' sp s4))
       else emit_binop op a b sp s2))"
| "emit_expr mu items n (Call f args sp) s =
     (case f of
        Ident name _ \<Rightarrow>
          if name = ''poseidon_hash'' then
            if length args \<noteq> 2 then Inl (PoseidonArity (length args))
            else if em_field s \<noteq> Bn254 then Inl (PoseidonField (em_field s))
            else and_then (emit_exprs mu items n args s) (\<lambda>(as, s1).
              Inr (emit_poseidon_core (poseidon_t3_params_for (em_p s)) as s1))
          else and_then (emit_exprs mu items n args s) (\<lambda>(as, s1).
            and_then (check_recursion name as sp s1) (\<lambda>_.
            case find_func name items of
              None \<Rightarrow> Inl (UndefinedFunction name (sp_line sp))
            | Some fd \<Rightarrow>
                (case n of
                   0 \<Rightarrow> Inl OutOfFuel
                 | Suc m \<Rightarrow>
                     and_then (in_scope (\<lambda>s'. emit_stmts mu items m None (block_stmts (fd_body fd)) s')
                        (enter_call name (fd_params fd) as s1)) (leave_call name sp))))
      | _ \<Rightarrow> Inl (InvalidCall (sp_line sp)))"
| "emit_expr mu items n (Index b i sp) s =
     and_then (emit_expr mu items n i s) (\<lambda>(il, s1).
       case lc_is_constant (em_p s1) il of
         None \<Rightarrow> Inl (DynamicIndex (sp_line sp))
       | Some c \<Rightarrow>
           (case b of
              Ident name _ \<Rightarrow>
                (case read_name (indexed_name name c) s1 of
                   Some l \<Rightarrow> Inr (l, s1)
                 | None \<Rightarrow> Inl (UndefinedElement name (nat_dec (nat c)) (sp_line sp)))
            | _ \<Rightarrow> Inl (ForbiddenIndex (sp_line sp))))"
| "emit_expr mu items n e s = Inl (UnsupportedExpr e (sp_line (expr_span e)))"
| "emit_exprs mu items n [] s = Inr ([], s)"
| "emit_exprs mu items n (e # es) s =
     and_then (emit_expr mu items n e s) (\<lambda>(l, s1).
     and_then (emit_exprs mu items n es s1) (\<lambda>(ls, s2). Inr (l # ls, s2)))"
| "emit_stmt mu items n (Let name _ init _ _ bounds _) s =
     and_then (case init of
         Some e \<Rightarrow> and_then (emit_expr mu items n e s) (\<lambda>(l, s1). Inr (bind_let name l s1))
       | None \<Rightarrow> Inr (bind_raw name s)) (\<lambda>(l, s1).
     and_then (emit_bounds name bounds l s1) (\<lambda>(_, s2). Inr (None, s2)))"
| "emit_stmt mu items n (Assign t v sp) s =
     (case t of
        Ident name _ \<Rightarrow>
          (case v of
             BinaryOp l op r _ \<Rightarrow>
               assign_binary name l op r (\<lambda>s. emit_expr mu items n l s) (\<lambda>s. emit_expr mu items n r s) (\<lambda>s. emit_expr mu items n v s) s
           | _ \<Rightarrow> and_then (emit_expr mu items n v s) (\<lambda>(l, s1). Inr (None, assign_value name l s1)))
      | _ \<Rightarrow> Inl (NonIdentTarget (sp_line sp)))"
| "emit_stmt mu items n (CompoundAssign t op v sp) s =
     (case t of
        Ident name _ \<Rightarrow>
          assign_binary name t op v (\<lambda>s. emit_expr mu items n t s) (\<lambda>s. emit_expr mu items n v s)
            (\<lambda>s. emit_expr mu items n (BinaryOp t op v sp) s) s
      | _ \<Rightarrow> Inl (NonIdentTarget (sp_line sp)))"
| "emit_stmt mu items n (For var a b st body _ _ _ _ sp) s =
     and_then (emit_expr mu items n a s) (\<lambda>(al, s1).
     and_then (emit_expr mu items n b s1) (\<lambda>(bl, s2).
       case lc_is_constant (em_p s2) al of
         None \<Rightarrow> Inl (LoopStart (sp_line sp))
       | Some first \<Rightarrow>
         (case lc_is_constant (em_p s2) bl of
            None \<Rightarrow> Inl (LoopEnd (sp_line sp))
          | Some last_v \<Rightarrow>
              and_then (case st of
                  None \<Rightarrow> Inr (1, s2)
                | Some e \<Rightarrow> and_then (emit_expr mu items n e s2) (\<lambda>(l, s3).
                    case lc_is_constant (em_p s3) l of None \<Rightarrow> Inl (LoopStep (sp_line sp)) | Some c \<Rightarrow> Inr (c, s3)))
                (\<lambda>(step, s3). unroll mu mu var (\<lambda>s. emit_stmts mu items n None (block_stmts body) s) step last_v sp first None s3))))"
| "emit_stmt mu items n (If c tb eb _ sp) s =
     and_then (emit_expr mu items n c s) (\<lambda>(cl, s1).
       case lc_is_constant (em_p s1) cl of
         Some v \<Rightarrow>
           if v \<noteq> 0 then in_scope (\<lambda>s. emit_stmts mu items n None (block_stmts tb) s) s1
           else (case eb of
                   Some b \<Rightarrow> in_scope (\<lambda>s. emit_stmts mu items n None (block_stmts b) s) s1
                 | None \<Rightarrow> Inr (None, s1))
       | None \<Rightarrow>
           emit_branch cl (in_scope (\<lambda>s. emit_stmts mu items n None (block_stmts tb) s))
             (case eb of
                Some b \<Rightarrow> Some (in_scope (\<lambda>s. emit_stmts mu items n None (block_stmts b) s))
              | None \<Rightarrow> None) sp s1)"
| "emit_stmt mu items n (Return r _) s =
     (case r of
        Some e \<Rightarrow> and_then (emit_expr mu items n e s) (\<lambda>(l, s1).
          Inr (Some \<lparr>ret_flag = lc_constant 1, ret_value = l\<rparr>, s1))
      | None \<Rightarrow> Inr (None, s))"
| "emit_stmt mu items n (Expr e) s = and_then (emit_expr mu items n e s) (\<lambda>(_, s1). Inr (None, s1))"
| "emit_stmt mu items n (While _ _ _ _ _ sp) s = Inl (WhileRefused (sp_line sp))"
| "emit_stmt mu items n (HintBlock outs body sp) s =
     and_then (in_scope (in_scope (\<lambda>s. emit_stmts mu items n None (block_stmts body) s)) s) (\<lambda>(_, s1).
       Inr (None, fold (bind_hint sp) outs s1))"
| "emit_stmt mu items n (Break sp) s = Inl (BreakRefused (sp_line sp))"
| "emit_stmt mu items n (Match _ _ sp) s = Inl (MatchRefused (sp_line sp))"
| "emit_stmt mu items n (SafeBlock b _) s = in_scope (\<lambda>s. emit_stmts mu items n None (block_stmts b) s) s"
| "emit_stmt mu items n (GhostBlock b _) s = in_scope (\<lambda>s. emit_stmts mu items n None (block_stmts b) s) s"
| "emit_stmt mu items n (Chisel _ sp) s = Inl (ChiselRefused (sp_line sp))"
| "emit_stmt mu items n (ClockDomainBlock _ _ sp) s = Inl (ClockDomainRefused (sp_line sp))"
| "emit_stmt mu items n (TypeAlias _ _ _) s = Inr (None, s)"
| "emit_stmt mu items n (CompileTimeAssert _ _ _) s = Inr (None, s)"
| "emit_stmts mu items n acc [] s = Inr (acc, s)"
| "emit_stmts mu items n acc (st # ss) s =
     (if always_returns s acc then Inr (acc, s)
      else and_then (emit_stmt mu items n st s) (\<lambda>(here, s1).
        (let (acc', s2) = seq_returns acc here (stmt_span st) s1
         in emit_stmts mu items n acc' ss s2)))"
  by pat_completeness auto

termination
  by (relation "inv_image (less_than <*lex*> less_than)
      (case_sum
         (case_sum (\<lambda>(_, _, n, e, _). (n, 2 * size e)) (\<lambda>(_, _, n, es, _). (n, 2 * size_list size es)))
         (case_sum (\<lambda>(_, _, n, st, _). (n, 2 * size st + 1)) (\<lambda>(_, _, n, _, ss, _). (n, 2 * size_list size ss))))")
    (auto simp: size_block_stmts)

section \<open>Entry points\<close>

fun flatten_items :: "item list \<Rightarrow> item list" where
  "flatten_items [] = []"
| "flatten_items (Module nm a b z inner sp # items) =
     Module nm a b z inner sp # flatten_items inner @ flatten_items items"
| "flatten_items (it # items) = it # flatten_items items"

text \<open>Of the functions named \<^verbatim>\<open>main\<close> or \<^verbatim>\<open>circuit\<close> the last one is the entry.\<close>

definition entry_func :: "item list \<Rightarrow> func_decl option" where
  "entry_func items = fold (\<lambda>it r. case it of
      Func f \<Rightarrow> if fd_name f = ''main'' \<or> fd_name f = ''circuit'' then Some f else r | _ \<Rightarrow> r) items None"

text \<open>The first top-level module with a \<^verbatim>\<open>@zk_target\<close> selects the field and the scheme.\<close>

fun zk_selection :: "item list \<Rightarrow> scalar_field \<times> proof_scheme" where
  "zk_selection [] = (Bn254, R1cs)"
| "zk_selection (Module _ _ _ (Some z) _ _ # _) = (zt_field z, zt_scheme z)"
| "zk_selection (_ # items) = zk_selection items"

definition field_modulus :: "scalar_field \<Rightarrow> int" where
  "field_modulus f = (case f of
     Bn254 \<Rightarrow> 21888242871839275222246405745257275088548364400416034343698204186575808495617
   | Bls12_381 \<Rightarrow> 52435875175126190479447740508185965837690552500527637822603658699938581184513
   | Pallas \<Rightarrow> 28948022309329048855892746252171976963363056481941560715954676764349967630337
   | Vesta \<Rightarrow> 28948022309329048855892746252171976963363056481941647379679742748393362948097)"

definition bind_input :: "param \<Rightarrow> em \<Rightarrow> em" where
  "bind_input q s =
     (let (w, s1) = new_wire (par_name q) s
      in bind (par_name q) (Wire w) (s1\<lparr>em_prv := em_prv s1 @ [w]\<rparr>))"

text \<open>256 inlined calls may be active, so that many units of fuel are enough.\<close>

definition call_fuel :: nat where
  "call_fuel = 256"

definition emit_output :: "span \<Rightarrow> lc \<Rightarrow> em \<Rightarrow> em" where
  "emit_output sp l s =
     (let (w, s1) = new_wire ''out_ret'' s;
          s2 = s1\<lparr>em_outs := em_outs s1 @ [w]\<rparr>
      in add_constraint \<lparr>con_a = l, con_b = lc_constant 1, con_c = lc_variable w, con_span = Some sp\<rparr> s2)"

definition emit_circuit_entry :: "nat \<Rightarrow> item list \<Rightarrow> func_decl \<Rightarrow> em \<Rightarrow> emit_error + em" where
  "emit_circuit_entry mu items f s =
     and_then (in_scope (\<lambda>s. emit_stmts mu items call_fuel None (block_stmts (fd_body f)) s)
         (fold bind_input (fd_params f) (push_call (fd_name f) s))) (\<lambda>(r, s1).
       (let s2 = (case r of Some x \<Rightarrow> emit_output (fd_span f) (ret_value x) s1 | None \<Rightarrow> s1)
        in case em_hints s2 of
             (_, (name, sp)) # _ \<Rightarrow> Inl (UnderConstrained name (sp_line sp))
           | [] \<Rightarrow> Inr (pop_call s2)))"

text \<open>\<^verbatim>\<open>emit_program\<close> up to the listing it prints. The optimiser's switches are arguments, as in
  \<open>optimize_circuit\<close>.\<close>

definition lower_program :: "nat \<Rightarrow> item list \<Rightarrow> em \<Rightarrow> emit_error + em" where
  "lower_program mu prog s =
     (case cache_policy_sites prog of
        site # _ \<Rightarrow> Inl (CachePolicyRefused site)
      | [] \<Rightarrow>
          (let items = flatten_items prog; (field, scheme) = zk_selection prog
           in if scheme = Plonkish then Inl PlonkishRefused
              else (let s1 = s\<lparr>em_field := field, em_scheme := scheme, em_p := field_modulus field\<rparr>
                    in case entry_func items of
                         None \<Rightarrow> Inl NoEntry
                       | Some f \<Rightarrow> emit_circuit_entry mu items f s1)))"

definition emit_program :: "nat \<Rightarrow> nat option \<Rightarrow> bool \<Rightarrow> bool \<Rightarrow> nat \<Rightarrow> item list \<Rightarrow> em \<Rightarrow> emit_error + em" where
  "emit_program mu budget cse compaction rounds prog s =
     and_then (lower_program mu prog s) (\<lambda>s1.
       case optimize_circuit budget cse compaction rounds s1 of None \<Rightarrow> Inl Panic | Some s2 \<Rightarrow> Inr s2)"

end
