(* ===== verification/ZkLowerInv.thy ===== *)
theory ZkLowerInv
  imports ZkLower
begin

text \<open>
  The invariant of the lowering: bindings and constants belong to the circuit under construction,
  which only grows, and every operation of \<open>ZkLower\<close> keeps both the scope stack's depth and the
  stack of active calls. The fuel for inlined calls is enough.
\<close>

section \<open>The invariant\<close>

definition scope_ok :: "em \<Rightarrow> scope \<Rightarrow> bool" where
  "scope_ok s sc \<longleftrightarrow> (\<forall>b\<in>ran (map_of sc). lc_in s (binding_lc b))"

definition bindings_ok :: "em \<Rightarrow> scope list \<Rightarrow> bool" where
  "bindings_ok s scs \<longleftrightarrow> (\<forall>sc\<in>set scs. scope_ok s sc)"

definition consts_ok :: "int \<Rightarrow> (string \<rightharpoonup> int) \<Rightarrow> bool" where
  "consts_ok p m \<longleftrightarrow> (\<forall>k c. m k = Some c \<longrightarrow> 0 \<le> c \<and> c < p)"

definition low_ok :: "em \<Rightarrow> bool" where
  "low_ok s \<longleftrightarrow> is_prime (em_p s) \<and> wires_ok s \<and> bindings_ok s (em_scopes s) \<and> consts_ok (em_p s) (em_consts s)"

definition steps :: "em \<Rightarrow> em \<Rightarrow> bool" where
  "steps s s' \<longleftrightarrow> low_ok s' \<and> grows s s' \<and> length (em_scopes s') = length (em_scopes s) \<and> em_calls s' = em_calls s"

text \<open>A computation that keeps the invariant and delivers results with \<open>P\<close>.\<close>

definition keeps :: "(em \<Rightarrow> 'a \<Rightarrow> bool) \<Rightarrow> (em \<Rightarrow> 'a emitted) \<Rightarrow> bool" where
  "keeps P f \<longleftrightarrow> (\<forall>s r s'. low_ok s \<longrightarrow> f s = Inr (r, s') \<longrightarrow> steps s s' \<and> P s' r)"

definition ret_ok :: "em \<Rightarrow> ret option \<Rightarrow> bool" where
  "ret_ok s r \<longleftrightarrow> (\<forall>x. r = Some x \<longrightarrow> ret_in s x)"

lemma keepsI: "(\<And>s r s'. low_ok s \<Longrightarrow> f s = Inr (r, s') \<Longrightarrow> steps s s' \<and> P s' r) \<Longrightarrow> keeps P f"
  by (simp add: keeps_def)

lemma keepsD: "keeps P f \<Longrightarrow> f s = Inr (r, s') \<Longrightarrow> low_ok s \<Longrightarrow> steps s s' \<and> P s' r"
  by (simp add: keeps_def)

lemma low_okD:
  assumes "low_ok s"
  shows "is_prime (em_p s)" "wires_ok s" "bindings_ok s (em_scopes s)" "consts_ok (em_p s) (em_consts s)" "0 < em_p s" "1 < em_p s" "0 < em_next s"
  using assms prime_pos [of "em_p s"] wires_ok_0 [of s] by (simp_all add: low_ok_def)

lemma stepsD:
  assumes "steps s s'"
  shows "low_ok s'" "grows s s'" "em_p s' = em_p s" "em_calls s' = em_calls s" "length (em_scopes s') = length (em_scopes s)"
  using assms by (simp_all add: steps_def grows_p)

lemma steps_refl: "low_ok s \<Longrightarrow> steps s s"
  by (simp add: steps_def)

lemma steps_trans: "steps s t \<Longrightarrow> steps t u \<Longrightarrow> steps s u"
  using grows_trans by (auto simp: steps_def)

lemma grows_bindings: "grows s s' \<Longrightarrow> bindings_ok s scs \<Longrightarrow> bindings_ok s' scs"
  using grows_in by (auto simp: bindings_ok_def scope_ok_def)

lemma steps_in: "steps s s' \<Longrightarrow> lc_in s l \<Longrightarrow> lc_in s' l"
  by (auto simp: steps_def intro: grows_in)

lemma steps_bindings: "steps s s' \<Longrightarrow> bindings_ok s scs \<Longrightarrow> bindings_ok s' scs"
  by (auto simp: steps_def intro: grows_bindings)

lemma steps_ret: "steps s s' \<Longrightarrow> ret_ok s r \<Longrightarrow> ret_ok s' r"
  by (simp add: ret_ok_def ret_in_def steps_in)

lemma emits_steps: "low_ok s \<Longrightarrow> emits s s' \<Longrightarrow> steps s s'"
  by (auto simp: low_ok_def steps_def emits_def grows_p intro: grows_bindings)

lemma lowers_steps: "low_ok s \<Longrightarrow> lowers s (l, s') fits f \<Longrightarrow> steps s s' \<and> lc_in s' l"
  by (simp add: lowers_def emits_steps)

text \<open>Changes of bindings and constants leave the circuit alone.\<close>

lemma rebind_wires:
  "wires_ok (s\<lparr>em_scopes := scs\<rparr>) = wires_ok s" "lc_in (s\<lparr>em_scopes := scs\<rparr>) l = lc_in s l"
  "wires_ok (s\<lparr>em_consts := cs\<rparr>) = wires_ok s" "lc_in (s\<lparr>em_consts := cs\<rparr>) l = lc_in s l"
  "wires_ok (s\<lparr>em_calls := ks\<rparr>) = wires_ok s" "lc_in (s\<lparr>em_calls := ks\<rparr>) l = lc_in s l"
  "wires_ok (s\<lparr>em_hints := hs\<rparr>) = wires_ok s" "lc_in (s\<lparr>em_hints := hs\<rparr>) l = lc_in s l"
  by (simp_all add: wires_ok_def boundary_of_def lc_in_def)

lemma rebind_bindings:
  "bindings_ok (s\<lparr>em_scopes := scs\<rparr>) = bindings_ok s" "bindings_ok (s\<lparr>em_consts := cs\<rparr>) = bindings_ok s"
  "bindings_ok (s\<lparr>em_calls := ks\<rparr>) = bindings_ok s" "bindings_ok (s\<lparr>em_hints := hs\<rparr>) = bindings_ok s"
  by (simp_all add: fun_eq_iff bindings_ok_def scope_ok_def rebind_wires)

lemma rebind_grows:
  "grows s (s'\<lparr>em_scopes := scs\<rparr>) = grows s s'" "grows s (s'\<lparr>em_consts := cs\<rparr>) = grows s s'"
  "grows s (s'\<lparr>em_calls := ks\<rparr>) = grows s s'" "grows s (s'\<lparr>em_hints := hs\<rparr>) = grows s s'"
  by (simp_all add: grows_def boundary_of_def)

lemmas rebind = rebind_wires rebind_bindings rebind_grows

lemma steps_scopes:
  "steps s s' \<Longrightarrow> bindings_ok s' scs \<Longrightarrow> length scs = length (em_scopes s) \<Longrightarrow> steps s (s'\<lparr>em_scopes := scs\<rparr>)"
  by (simp add: steps_def low_ok_def rebind)

lemma steps_consts: "steps s s' \<Longrightarrow> consts_ok (em_p s) cs \<Longrightarrow> steps s (s'\<lparr>em_consts := cs\<rparr>)"
proof -
  assume s: "steps s s'" and c: "consts_ok (em_p s) cs"
  then have "consts_ok (em_p s') cs" using stepsD(3) [OF s] by simp
  then show ?thesis using s by (simp add: steps_def low_ok_def rebind)
qed

lemma consts_ok_upd: "consts_ok p m \<Longrightarrow> 0 \<le> c \<and> c < p \<Longrightarrow> consts_ok p (m(k \<mapsto> c))"
  by (simp add: consts_ok_def)

lemma consts_ok_none: "consts_ok p m \<Longrightarrow> consts_ok p (m(k := None))"
  by (simp add: consts_ok_def)

section \<open>Names\<close>

lemma bindings_ok_Nil [simp]: "bindings_ok s []"
  by (simp add: bindings_ok_def)

lemma bindings_ok_Cons [simp]: "bindings_ok s (sc # scs) \<longleftrightarrow> scope_ok s sc \<and> bindings_ok s scs"
  by (simp add: bindings_ok_def)

lemma bindings_ok_append [simp]: "bindings_ok s (xs @ ys) \<longleftrightarrow> bindings_ok s xs \<and> bindings_ok s ys"
  by (auto simp: bindings_ok_def)

lemma bindings_ok_rev [simp]: "bindings_ok s (rev scs) = bindings_ok s scs"
  by (simp add: bindings_ok_def)

lemma scope_ok_Nil [simp]: "scope_ok s []"
  by (simp add: scope_ok_def)

lemma scope_ok_lookup: "scope_ok s sc \<Longrightarrow> map_of sc name = Some b \<Longrightarrow> lc_in s (binding_lc b)"
  by (auto simp: scope_ok_def ran_def)

lemma scope_ok_insert: "scope_ok s sc \<Longrightarrow> lc_in s (binding_lc b) \<Longrightarrow> scope_ok s (map_insert name b sc)"
  by (auto simp: scope_ok_def update_conv' ran_def)

lemma scope_ok_delete: "scope_ok s sc \<Longrightarrow> scope_ok s (AList.delete name sc)"
  by (auto simp: scope_ok_def delete_conv' ran_def split: if_splits)

lemma lookup_rev_ok: "bindings_ok s scs \<Longrightarrow> lookup_rev scs name = Some b \<Longrightarrow> lc_in s (binding_lc b)"
  by (induction scs) (auto intro: scope_ok_lookup split: option.splits)

lemma read_name_ok: "low_ok s \<Longrightarrow> read_name name s = Some l \<Longrightarrow> lc_in s l"
  using lookup_rev_ok [of s "rev (em_scopes s)" name] lc_in_const [of _ s] low_okD [of s]
  by (auto simp: read_name_def lookup_const_def lookup_def consts_ok_def ran_def split: option.splits)

lemma steps_ok: "steps s s' \<Longrightarrow> bindings_ok s' (em_scopes s')"
  using stepsD(1) low_okD(3) by blast

lemma bindings_ok_nth: "bindings_ok s scs \<Longrightarrow> i < length scs \<Longrightarrow> scope_ok s (scs ! i)"
  by (simp add: bindings_ok_def)

lemma bindings_ok_update: "bindings_ok s scs \<Longrightarrow> scope_ok s sc \<Longrightarrow> bindings_ok s (scs[i := sc])"
  using set_update_subset_insert [of scs i sc] by (auto simp: bindings_ok_def)

lemma bindings_ok_butlast: "bindings_ok s scs \<Longrightarrow> bindings_ok s (butlast scs)"
  by (auto simp: bindings_ok_def dest: in_set_butlastD)

lemma bind_steps:
  assumes "steps s s'" "lc_in s' (binding_lc b)"
  shows "steps s (bind name b s')"
proof (cases "em_scopes s' = []")
  case False
  have len: "length (em_scopes s') = length (em_scopes s)" using stepsD(5) [OF assms(1)] .
  then have ne: "em_scopes s \<noteq> []" using False by (metis length_0_conv)
  have "scope_ok s' (last (em_scopes s'))" using steps_ok [OF assms(1)] False by (simp add: bindings_ok_def)
  then have "bindings_ok s' (butlast (em_scopes s') @ [map_insert name b (last (em_scopes s'))])"
    using bindings_ok_butlast [OF steps_ok [OF assms(1)]] scope_ok_insert assms(2) by simp
  then show ?thesis unfolding bind_def using False assms(1) len ne by (auto intro!: steps_scopes)
qed (use assms in \<open>simp add: bind_def\<close>)

lemma bind_to_scope_steps:
  assumes "steps s s'" "lc_in s' (binding_lc b)"
  shows "steps s (bind_to_scope i name b s')"
proof (cases "i < length (em_scopes s')")
  case True
  have "bindings_ok s' ((em_scopes s')[i := map_insert name b (em_scopes s' ! i)])"
    using bindings_ok_update scope_ok_insert bindings_ok_nth [OF _ True] steps_ok [OF assms(1)] assms(2) by blast
  then show ?thesis unfolding bind_to_scope_def using True assms(1) stepsD(5) [OF assms(1)] by (auto intro!: steps_scopes)
qed (use assms in \<open>simp add: bind_to_scope_def\<close>)

lemma update_rev_ok:
  "update_rev name b scs = Some scs' \<Longrightarrow> bindings_ok s scs \<Longrightarrow> lc_in s (binding_lc b) \<Longrightarrow> bindings_ok s scs' \<and> length scs' = length scs"
  by (induction scs arbitrary: scs') (auto intro: scope_ok_insert split: if_splits)

lemma take_rev_ok:
  "take_rev name n scs = Some (r, scs') \<Longrightarrow> bindings_ok s scs \<Longrightarrow>
   bindings_ok s scs' \<and> length scs' = length scs \<and> lc_in s (binding_lc (snd r))"
  by (induction scs arbitrary: n scs') (auto intro: scope_ok_lookup scope_ok_delete split: option.splits)

lemma bind_update_steps:
  assumes "steps s s'" "lc_in s' (binding_lc b)" "bind_update name b s' = (d, s'')"
  shows "steps s s''"
proof (cases "update_rev name b (rev (em_scopes s'))")
  case (Some scs)
  then have "bindings_ok s' (rev scs)" "length (rev scs) = length (em_scopes s)"
    using update_rev_ok [OF Some, of s'] assms(2) steps_ok [OF assms(1)] stepsD(5) [OF assms(1)] by simp_all
  then show ?thesis using assms(3) Some steps_scopes [OF assms(1)] by (auto simp: bind_update_def)
qed (use assms in \<open>simp add: bind_update_def\<close>)

lemma take_binding_steps:
  assumes "low_ok s" "take_binding_from_scope name s = (r, s')"
  shows "steps s s' \<and> (\<forall>i b. r = Some (i, b) \<longrightarrow> lc_in s' (binding_lc b))"
proof (cases "take_rev name (length (em_scopes s)) (rev (em_scopes s))")
  case (Some x)
  obtain q scs where x: "x = (q, scs)" by (cases x)
  note T = take_rev_ok [OF Some [unfolded x], of s]
  have "bindings_ok s (rev scs)" "length (rev scs) = length (em_scopes s)" using T low_okD(3) [OF assms(1)] by simp_all
  then show ?thesis
    using steps_scopes [OF steps_refl [OF assms(1)]] assms(2) Some x T low_okD(3) [OF assms(1)]
    by (auto simp: take_binding_from_scope_def rebind)
qed (use assms in \<open>auto simp: take_binding_from_scope_def steps_refl\<close>)

lemma set_const_steps: "steps s s' \<Longrightarrow> 0 \<le> c \<and> c < em_p s \<Longrightarrow> steps s (set_const name c s')"
  using stepsD(3) [of s s'] low_okD(4) [OF stepsD(1), of s s']
  unfolding set_const_def by (intro steps_consts consts_ok_upd) simp_all

lemma drop_const_steps: "steps s s' \<Longrightarrow> steps s (drop_const name s')"
  using stepsD(3) [of s s'] low_okD(4) [OF stepsD(1), of s s']
  unfolding drop_const_def by (intro steps_consts consts_ok_none) simp_all

lemma const_range: "steps s s' \<Longrightarrow> lc_is_constant (em_p s') l = Some c \<Longrightarrow> 0 \<le> c \<and> c < em_p s"
  using lc_is_constant_range [of "em_p s'" l c] stepsD(3) [of s s'] low_okD(5) [OF stepsD(1), of s s'] by simp

lemma track_const_steps: "steps s s' \<Longrightarrow> steps s (track_const name l s')"
  using const_range [of s s' l] by (auto simp: track_const_def intro: set_const_steps drop_const_steps split: option.splits)

lemma track_const_in [simp]: "lc_in (track_const name l s) m = lc_in s m"
  by (simp add: track_const_def set_const_def drop_const_def rebind split: option.splits)

lemma set_const_in [simp]: "lc_in (set_const name c s) m = lc_in s m"
  by (simp add: set_const_def rebind)

lemma bind_in [simp]: "lc_in (bind name b s) m = lc_in s m" "lc_in (bind_to_scope i name b s) m = lc_in s m"
  by (simp_all add: bind_def bind_to_scope_def rebind)

lemma new_wire_steps:
  assumes "low_ok s" "new_wire name s = (w, s')"
  shows "steps s s' \<and> lc_in s' (lc_variable w)"
proof -
  have w: "w = em_next s" and s': "s' = s\<lparr>em_next := em_next s + 1, em_vars := em_vars s @ [name @ ''_'' @ nat_dec (em_next s)]\<rparr>"
    using assms(2) by (auto simp: new_wire_def Let_def)
  have "emits s s'" by (rule fresh_emits [OF low_okD(2) [OF assms(1)]]) (simp_all add: s' boundary_of_def)
  then show ?thesis using emits_steps [OF assms(1)] lc_in_var [of s' w] low_okD(6) [OF assms(1)] by (simp add: w s')
qed

section \<open>Statements\<close>

lemma and_thenE:
  assumes "and_then r f = Inr b"
  obtains x s where "r = Inr (x, s)" "f (x, s) = Inr b"
  using assms by (cases r) auto

lemma rebind_grows_left:
  "grows (s\<lparr>em_scopes := scs\<rparr>) s' = grows s s'" "grows (s\<lparr>em_consts := cs\<rparr>) s' = grows s s'"
  "grows (s\<lparr>em_calls := ks\<rparr>) s' = grows s s'" "grows (s\<lparr>em_hints := hs\<rparr>) s' = grows s s'"
  by (simp_all add: grows_def boundary_of_def)

lemma ret_ok_rebind [simp]: "ret_ok (s\<lparr>em_scopes := scs\<rparr>) r = ret_ok s r" "ret_ok (s\<lparr>em_consts := cs\<rparr>) r = ret_ok s r"
  by (simp_all add: ret_ok_def ret_in_def rebind)

lemma ret_ok_None [simp]: "ret_ok s None"
  by (simp add: ret_ok_def)

lemma low_ok_scopes: "low_ok s \<Longrightarrow> bindings_ok s scs \<Longrightarrow> low_ok (s\<lparr>em_scopes := scs\<rparr>)"
  by (simp add: low_ok_def rebind)

lemma enter_scope_ok: "low_ok s \<Longrightarrow> low_ok (enter_scope s)"
  unfolding enter_scope_def by (rule low_ok_scopes) (simp_all add: low_okD(3))

lemma exit_scope_steps:
  assumes "steps (enter_scope s) s'"
  shows "steps s (exit_scope s')"
proof -
  have "bindings_ok s' (butlast (em_scopes s'))" using bindings_ok_butlast [OF steps_ok [OF assms]] .
  then show ?thesis using assms
    by (simp add: steps_def low_ok_def exit_scope_def enter_scope_def rebind rebind_grows_left)
qed

lemma exit_scope_ret [simp]: "ret_ok (exit_scope s) r = ret_ok s r"
  by (simp add: exit_scope_def)

lemma keeps_in_scope: "keeps ret_ok body \<Longrightarrow> keeps ret_ok (in_scope body)"
proof (rule keepsI)
  fix s r s' assume b: "keeps ret_ok body" and s: "low_ok s" and e: "in_scope body s = Inr (r, s')"
  then obtain s1 where "body (enter_scope s) = Inr (r, s1)" "s' = exit_scope s1" by (auto simp: in_scope_def and_then_Inr_iff)
  then show "steps s s' \<and> ret_ok s' r" using keepsD [OF b _ enter_scope_ok [OF s]] exit_scope_steps by simp
qed

lemma seq_returns_steps:
  assumes s: "low_ok s" and ab: "ret_ok s a" "ret_ok s b" and e: "seq_returns a b sp s = (r, s')"
  shows "steps s s' \<and> ret_ok s' r"
proof (cases "a = None \<or> b = None")
  case True
  then show ?thesis using e s ab by (cases a; cases b) (auto simp: seq_returns_def steps_refl)
next
  case False
  then obtain x y where xy: "a = Some x" "b = Some y" by auto
  obtain z where z: "seq_ret x y sp s = (z, s')" "r = Some z" using e by (auto simp: seq_returns_def xy split: prod.splits)
  note R = seq_ret_emits(1,2) [OF low_okD(1,2) [OF s] _ _ z(1)]
  show ?thesis using R ab emits_steps [OF s] by (simp add: ret_ok_def xy z(2))
qed

lemma const_in: "low_ok s \<Longrightarrow> 0 \<le> c \<Longrightarrow> c < em_p s \<Longrightarrow> lc_in s (lc_constant c)"
  by (simp add: lc_in_const low_okD)

lemma enter_iteration:
  assumes "low_ok s" "0 \<le> c" "c < em_p s"
  shows "steps (enter_scope s) (bind var (Linear (lc_constant c)) (set_const var c (enter_scope s)))"
proof -
  have p: "em_p (enter_scope s) = em_p s" by (simp add: enter_scope_def)
  have ok: "low_ok (enter_scope s)" using enter_scope_ok [OF assms(1)] .
  have "steps (enter_scope s) (set_const var c (enter_scope s))" using set_const_steps [OF steps_refl [OF ok]] assms p by simp
  then show ?thesis using const_in [OF ok] assms p by (intro bind_steps) (simp_all add: binding_lc_def)
qed

lemma unroll_steps:
  assumes body: "keeps ret_ok body"
  shows "low_ok s \<Longrightarrow> ret_ok s acc \<Longrightarrow> 0 \<le> cur \<Longrightarrow> cur < em_p s \<Longrightarrow>
    unroll mu n var body step last_v sp cur acc s = Inr (r, s') \<Longrightarrow> steps s s' \<and> ret_ok s' r"
proof (induction n arbitrary: cur acc s)
  case 0
  then show ?case by (subst (asm) unroll.simps) (auto simp: steps_refl split: if_splits)
next
  case (Suc n)
  note low = Suc.prems(1)
  show ?case
  proof (cases "cur < last_v")
    case False
    then show ?thesis using Suc.prems by (simp add: unroll.simps [of _ "Suc n"] steps_refl)
  next
    case True
    let ?s1 = "bind var (Linear (lc_constant cur)) (set_const var cur (enter_scope s))"
    obtain here s2 where b: "body ?s1 = Inr (here, s2)"
      using Suc.prems(5) True by (subst (asm) unroll.simps) (auto simp: Let_def and_then_Inr_iff)
    obtain acc' s3 where q: "seq_returns acc here sp s2 = (acc', s3)" by force
    let ?s4 = "exit_scope s3"
    have rest: "(if always_returns ?s4 acc' then Inr (acc', ?s4)
        else unroll mu n var body step last_v sp ((cur + step) mod em_p ?s4) acc' ?s4) = Inr (r, s')"
      using Suc.prems(5) True b q by (subst (asm) unroll.simps) (simp add: Let_def)
    note i = enter_iteration [OF low Suc.prems(3,4), of var]
    have B: "steps ?s1 s2 \<and> ret_ok s2 here" using keepsD [OF body b] stepsD(1) [OF i] by blast
    have es: "steps (enter_scope s) s2" using steps_trans [OF i] B by blast
    have "ret_ok s2 acc" using steps_ret [OF es] Suc.prems(2) by (simp add: enter_scope_def)
    then have Q: "steps s2 s3 \<and> ret_ok s3 acc'" using seq_returns_steps [OF stepsD(1) [OF es] _ _ q] B by blast
    have S: "steps s ?s4" using exit_scope_steps steps_trans [OF es] Q by blast
    have p4: "em_p ?s4 = em_p s" using stepsD(3) [OF S] .
    show ?thesis
    proof (cases "always_returns ?s4 acc'")
      case True
      moreover have "ret_ok ?s4 acc'" using Q by simp
      ultimately show ?thesis using rest S by (metis Inr_inject prod.inject)
    next
      case False
      have "steps ?s4 s' \<and> ret_ok s' r"
        using Suc.IH [OF stepsD(1) [OF S], of acc' "(cur + step) mod em_p ?s4"] rest False Q p4 low_okD(5) [OF low] by simp
      then show ?thesis using steps_trans [OF S] by blast
    qed
  qed
qed

section \<open>Merging branches\<close>

lemma push_emits:
  assumes "wires_ok s" "lc_in s a" "lc_in s b" "lc_in s c"
  shows "emits s (s\<lparr>em_cons := em_cons s @ [\<lparr>con_a = a, con_b = b, con_c = c, con_span = sp\<rparr>]\<rparr>)"
    "sat (s\<lparr>em_cons := em_cons s @ [\<lparr>con_a = a, con_b = b, con_c = c, con_span = sp\<rparr>]\<rparr>) \<sigma> \<longleftrightarrow>
       sat s \<sigma> \<and> val s \<sigma> a * val s \<sigma> b mod em_p s = val s \<sigma> c"
proof -
  let ?s = "s\<lparr>em_cons := em_cons s @ [\<lparr>con_a = a, con_b = b, con_c = c, con_span = sp\<rparr>]\<rparr>"
  have "wires_ok ?s \<and> grows s ?s"
    by (rule wires_ok_extend [OF assms(1), of _ "[\<lparr>con_a = a, con_b = b, con_c = c, con_span = sp\<rparr>]"])
       (use assms in \<open>simp_all add: lc_in_def boundary_of_def\<close>)
  then show "emits s ?s" by (simp add: emits_def)
  show "sat ?s \<sigma> \<longleftrightarrow> sat s \<sigma> \<and> val s \<sigma> a * val s \<sigma> b mod em_p s = val s \<sigma> c"
    by (auto simp: sat_def cons_sat_def con_sat_val)
qed

lemma branch_lc_in:
  assumes "bindings_ok s scs" "b = map_of (scs ! i) name" "i < length scs" "branch_lc scs i name b = Inr l"
  shows "lc_in s l"
proof (cases b)
  case (Some x)
  then show ?thesis using assms scope_ok_lookup [OF bindings_ok_nth [OF assms(1,3)]] by (auto simp: branch_lc_def)
next
  case None
  have "bindings_ok s (rev (take (Suc i) scs))" using assms(1) by (auto simp: bindings_ok_def dest: in_set_takeD)
  then show ?thesis using assms(3,4) None lookup_rev_ok [of s "rev (take (Suc i) scs)" name]
    by (auto simp: branch_lc_def lookup_in_scopes_def split: option.splits)
qed

lemma mux_lc_in:
  assumes "low_ok s" "lc_in s a" "lc_in s b"
  shows "lc_in s (lc_add_linear (em_p s) a b (fr_neg_one (em_p s)))"
  using assms fr_neg_one_range low_okD(1,5) [OF assms(1)] by (intro lc_in_add_linear) simp_all

lemma merge_var_steps:
  assumes s: "low_ok s" and c: "lc_in s cond" and sc: "bindings_ok s ts" "bindings_ok s es" and i: "i < length ts" "i < length es"
    and e: "merge_var cond sp ts es i name s = Inr (u, s')"
  shows "steps s s'"
proof (cases "binding_eq (map_of (ts ! i) name) (map_of (es ! i) name)")
  case True
  then show ?thesis using e s scope_ok_lookup [OF bindings_ok_nth [OF sc(1) i(1)], of name]
    by (auto simp: merge_var_def Let_def steps_refl intro!: bind_to_scope_steps split: option.splits)
next
  case False
  obtain tl el where tl: "branch_lc ts i name (map_of (ts ! i) name) = Inr tl" and el: "branch_lc es i name (map_of (es ! i) name) = Inr el"
    using e False by (auto simp: merge_var_def Let_def and_then_Inr_iff)
  obtain w s1 where w: "new_wire (name @ ''_mux'') s = (w, s1)" by force
  let ?b = "lc_add_linear (em_p s) tl el (fr_neg_one (em_p s))" and ?c = "lc_add_linear (em_p s) (lc_variable w) el (fr_neg_one (em_p s))"
  let ?s2 = "s1\<lparr>em_cons := em_cons s1 @ [\<lparr>con_a = cond, con_b = ?b, con_c = ?c, con_span = Some sp\<rparr>]\<rparr>"
  have s': "s' = bind_to_scope i name (Wire w) ?s2" using e False tl el w by (simp add: merge_var_def Let_def and_then_Inr_iff)
  note N = new_wire_steps [OF s w]
  have st: "steps s s1" "lc_in s1 (lc_variable w)" using N by blast+
  have p: "em_p s1 = em_p s" using stepsD(3) [OF st(1)] .
  have ins: "lc_in s1 cond" "lc_in s1 tl" "lc_in s1 el"
    using steps_in [OF st(1)] c branch_lc_in [OF sc(1) refl i(1) tl] branch_lc_in [OF sc(2) refl i(2) el] by blast+
  have "lc_in s1 ?b" "lc_in s1 ?c" using mux_lc_in [OF stepsD(1) [OF st(1)]] ins st(2) p by simp_all
  then have P: "emits s1 ?s2" using push_emits(1) [OF low_okD(2) [OF stepsD(1) [OF st(1)]] ins(1)] by blast
  have "steps s ?s2" using steps_trans [OF st(1) emits_steps [OF stepsD(1) [OF st(1)] P]] .
  then show ?thesis unfolding s' using emits_in [OF P st(2)] by (intro bind_to_scope_steps) (simp_all add: binding_lc_def)
qed

lemma merge_vars_steps:
  "low_ok s \<Longrightarrow> lc_in s cond \<Longrightarrow> bindings_ok s ts \<Longrightarrow> bindings_ok s es \<Longrightarrow> i < length ts \<Longrightarrow> i < length es \<Longrightarrow>
   merge_vars cond sp ts es i vs s = Inr (u, s') \<Longrightarrow> steps s s'"
proof (induction vs arbitrary: s)
  case (Cons v vs)
  obtain u1 s1 where m: "merge_var cond sp ts es i v s = Inr (u1, s1)" "merge_vars cond sp ts es i vs s1 = Inr (u, s')"
    using Cons.prems(7) by (auto simp: and_then_Inr_iff)
  have S: "steps s s1" using merge_var_steps [OF Cons.prems(1-6) m(1)] .
  show ?case
    using steps_trans [OF S] Cons.IH [OF stepsD(1) [OF S] steps_in [OF S] steps_bindings [OF S] steps_bindings [OF S] _ _ m(2)] Cons.prems by blast
qed (simp add: steps_refl)

lemma merge_scopes_steps:
  "low_ok s \<Longrightarrow> lc_in s cond \<Longrightarrow> bindings_ok s ts \<Longrightarrow> bindings_ok s es \<Longrightarrow>
   merge_scopes cond sp ts es is s = Inr (u, s') \<Longrightarrow> steps s s'"
proof (induction "is" arbitrary: s)
  case (Cons i js)
  obtain u1 s1 where m: "merge_vars cond sp ts es i (branch_names (ts ! i) (es ! i)) s = Inr (u1, s1)"
    "merge_scopes cond sp ts es js s1 = Inr (u, s')" "i < length ts" "i < length es"
    using Cons.prems(5) by (auto simp: and_then_Inr_iff split: if_splits)
  have S: "steps s s1" using merge_vars_steps [OF Cons.prems(1-4) m(3,4,1)] .
  show ?case
    using steps_trans [OF S] Cons.IH [OF stepsD(1) [OF S] steps_in [OF S] steps_bindings [OF S] steps_bindings [OF S] m(2)] Cons.prems by blast
qed (simp add: steps_refl)

lemma merge_consts_ok: "consts_ok p t \<Longrightarrow> consts_ok p (merge_consts t e)"
  by (auto simp: consts_ok_def merge_consts_def split: if_splits)

lemma emit_else_steps:
  assumes els: "\<And>f. els = Some f \<Longrightarrow> keeps ret_ok f"
    and s: "low_ok s" "consts_ok (em_p s) pre" "em_scopes s = scs" and e: "emit_else els scs pre s = Inr ((er, es, ec), s')"
  shows "steps s s' \<and> ret_ok s' er \<and> bindings_ok s' es \<and> em_scopes s' = scs"
proof (cases els)
  case None
  then show ?thesis using e s low_okD(3) [OF s(1)] by (auto simp: emit_else_def steps_refl)
next
  case (Some f)
  obtain s1 where f: "f (s\<lparr>em_consts := pre\<rparr>) = Inr (er, s1)" "es = em_scopes s1" "s' = s1\<lparr>em_scopes := scs\<rparr>"
    using e Some by (auto simp: emit_else_def and_then_Inr_iff)
  have S: "steps s (s\<lparr>em_consts := pre\<rparr>)" using steps_consts [OF steps_refl [OF s(1)] s(2)] .
  note F = keepsD [OF els [OF Some] f(1) stepsD(1) [OF S]]
  have S1: "steps s s1" using steps_trans [OF S] F by blast
  show ?thesis using steps_scopes [OF S1 steps_bindings [OF S1 low_okD(3) [OF s(1)]]] s(3) F steps_ok [OF S1]
    by (simp add: f rebind)
qed

lemma mux_steps:
  assumes s: "low_ok s" and ins: "lc_in s cond" "lc_in s a" "lc_in s b" and e: "emit_mux cond a b sp s = (out, s')"
  shows "steps s s' \<and> lc_in s' out"
  using mux_emits(1,2) [OF low_okD(1,2) [OF s] ins e] emits_steps [OF s] by blast

lemma mux_returns_steps:
  assumes s: "low_ok s" and c: "lc_in s cond" and rs: "ret_ok s tr" "ret_ok s er" and e: "mux_returns cond tr er sp s = (r, s')"
  shows "steps s s' \<and> ret_ok s' r"
proof (cases "tr = None \<and> er = None")
  case True
  then show ?thesis using e s by (auto simp: mux_returns_def steps_refl)
next
  case False
  let ?t = "case tr of Some r \<Rightarrow> r | None \<Rightarrow> no_ret" and ?e = "case er of Some r \<Rightarrow> r | None \<Rightarrow> no_ret"
  have ins: "ret_in s ?t" "ret_in s ?e" using rs by (auto simp: ret_ok_def ret_in_def no_ret_def split: option.splits)
  obtain flag s6 where f6: "emit_mux cond (ret_flag ?t) (ret_flag ?e) sp s = (flag, s6)" by force
  obtain v s7 where f7: "emit_mux cond (ret_value ?t) (ret_value ?e) sp s6 = (v, s7)" by force
  have r: "r = Some \<lparr>ret_flag = flag, ret_value = v\<rparr>" "s' = s7" using e False f6 f7 by (auto simp: mux_returns_def Let_def)
  have M6: "steps s s6" "lc_in s6 flag" using mux_steps [OF s c _ _ f6] ins by (simp_all add: ret_in_def)
  have M7: "steps s6 s7" "lc_in s7 v"
    using mux_steps [OF stepsD(1) [OF M6(1)] steps_in [OF M6(1) c] _ _ f7] steps_in [OF M6(1)] ins by (simp_all add: ret_in_def)
  show ?thesis using steps_trans [OF M6(1) M7(1)] steps_in [OF M7(1) M6(2)] M7(2) by (simp add: r ret_ok_def ret_in_def)
qed

lemma emit_branch_steps:
  assumes thn: "keeps ret_ok thn" and els: "\<And>f. els = Some f \<Longrightarrow> keeps ret_ok f"
    and s: "low_ok s" and c: "lc_in s cond" and e: "emit_branch cond thn els sp s = Inr (r, s')"
  shows "steps s s' \<and> ret_ok s' r"
proof -
  let ?s0 = "s\<lparr>em_cons := em_cons s @ [\<lparr>con_a = cond, con_b = cond, con_c = cond, con_span = Some sp\<rparr>]\<rparr>"
  obtain tr s1 where t: "thn ?s0 = Inr (tr, s1)"
    and e1: "and_then (emit_else els (em_scopes s) (em_consts s) (s1\<lparr>em_scopes := em_scopes s\<rparr>)) (\<lambda>((er, es, ec), s2).
     and_then (merge_scopes cond sp (em_scopes s1) es [0..<length (em_scopes s)]
         (s2\<lparr>em_consts := merge_consts (em_consts s1) ec\<rparr>)) (\<lambda>(_, s3). Inr (mux_returns cond tr er sp s3))) = Inr (r, s')"
    using e unfolding emit_branch_def by (rule and_thenE) auto
  have S0: "steps s ?s0" using emits_steps [OF s push_emits(1) [OF low_okD(2) [OF s] c c c]] .
  note T = keepsD [OF thn t stepsD(1) [OF S0]]
  have S1: "steps s s1" using steps_trans [OF S0] T by blast
  let ?s2 = "s1\<lparr>em_scopes := em_scopes s\<rparr>"
  have S2: "steps s ?s2" using steps_scopes [OF S1 steps_bindings [OF S1 low_okD(3) [OF s]]] by simp
  obtain er es ec s4 where f: "emit_else els (em_scopes s) (em_consts s) ?s2 = Inr ((er, es, ec), s4)"
    and e2: "and_then (merge_scopes cond sp (em_scopes s1) es [0..<length (em_scopes s)] (s4\<lparr>em_consts := merge_consts (em_consts s1) ec\<rparr>))
      (\<lambda>(_, s3). Inr (mux_returns cond tr er sp s3)) = Inr (r, s')"
    using e1 by (rule and_thenE) auto
  have F: "steps ?s2 s4" "ret_ok s4 er" "bindings_ok s4 es"
    using emit_else_steps [OF els stepsD(1) [OF S2] _ _ f] low_okD(4) [OF s] stepsD(3) [OF S2] by simp_all
  let ?s4 = "s4\<lparr>em_consts := merge_consts (em_consts s1) ec\<rparr>"
  have S4: "steps s ?s4"
    using steps_consts [OF steps_trans [OF S2 F(1)] merge_consts_ok] low_okD(4) [OF stepsD(1) [OF S1]] stepsD(3) [OF S1] by simp
  have tr4: "ret_ok ?s4 tr" "bindings_ok ?s4 (em_scopes s1)"
    using steps_ret [OF F(1)] T steps_bindings [OF F(1)] steps_ok [OF S1] by (simp_all add: rebind)
  obtain u s5 where m: "merge_scopes cond sp (em_scopes s1) es [0..<length (em_scopes s)] ?s4 = Inr (u, s5)"
    and fin: "mux_returns cond tr er sp s5 = (r, s')"
    using e2 by (rule and_thenE) auto
  have S45: "steps ?s4 s5"
    using merge_scopes_steps [OF stepsD(1) [OF S4] steps_in [OF S4 c] tr4(2) _ m] F(3) by (simp add: rebind)
  have S5: "steps s s5" using steps_trans [OF S4 S45] .
  have "steps s5 s' \<and> ret_ok s' r"
    using mux_returns_steps [OF stepsD(1) [OF S5] steps_in [OF S5 c] _ _ fin] steps_ret [OF S45] tr4(1) F(2) by simp
  then show ?thesis using steps_trans [OF S5] by blast
qed

section \<open>Assignments and declarations\<close>

lemma simplify_in: "low_ok s \<Longrightarrow> lc_in s l \<Longrightarrow> lc_in s (lc_simplify (em_p s) l)"
  by (simp add: lc_in_simplify low_okD)

lemma combine_in:
  assumes s: "low_ok s" and te: "lc_in s t" "lc_in s e" and c: "target_first op (em_p s) t e = Some l \<or> target_second op (em_p s) t e = Some l"
  shows "lc_in s l"
proof -
  have n: "0 \<le> fr_neg_one (em_p s) \<and> fr_neg_one (em_p s) < em_p s" using fr_neg_one_range low_okD(5) [OF s] by blast
  note p = low_okD(1,5,6) [OF s]
  have "lc_in s (lc_scale (em_p s) t (fr_neg_one (em_p s)))" using lc_in_scale [OF p(1) te(1)] n by blast
  then have "lc_in s (lc_add_linear (em_p s) t e 1)" "lc_in s (lc_add_linear (em_p s) t e (fr_neg_one (em_p s)))"
    "lc_in s (lc_add_linear (em_p s) (lc_scale (em_p s) t (fr_neg_one (em_p s))) e 1)"
    using te n p by (auto intro!: lc_in_add_linear)
  then show ?thesis using c simplify_in [OF s] by (auto simp: target_first_def target_second_def split: binary_op.splits)
qed

lemma self_update_steps:
  assumes other: "keeps lc_in other" and comb: "\<And>s t e l. low_ok s \<Longrightarrow> lc_in s t \<Longrightarrow> lc_in s e \<Longrightarrow> combine (em_p s) t e = Some l \<Longrightarrow> lc_in s l"
    and s: "low_ok s" and e: "self_update other combine name s = Inr (d, s')"
  shows "steps s s'"
proof -
  obtain q s1 where t: "take_binding_from_scope name s = (q, s1)" by force
  note T = take_binding_steps [OF s t]
  show ?thesis
  proof (cases q)
    case None
    then show ?thesis using e t T by (auto simp: self_update_def)
  next
    case (Some ib)
    obtain i b where ib: "ib = (i, b)" by force
    obtain v s2 where o: "other s1 = Inr (v, s2)" using e t Some ib by (auto simp: self_update_def and_then_Inr_iff)
    note O = keepsD [OF other o]
    have S1: "steps s s1" and b1: "lc_in s1 (binding_lc b)" using T Some ib by blast+
    have S2: "steps s s2" and v2: "lc_in s2 v" using steps_trans [OF S1] O stepsD(1) [OF S1] by blast+
    have b2: "lc_in s2 (binding_lc b)" using steps_in b1 O stepsD(1) [OF S1] by blast
    have l: "lc_in s2 l" if "combine (em_p s2) (binding_lc b) v = Some l" for l using comb [OF stepsD(1) [OF S2] b2 v2 that] .
    show ?thesis using e t Some ib o l b2
      by (auto simp: self_update_def binding_lc_def split: option.splits intro!: bind_to_scope_steps track_const_steps [OF S2] S2)
  qed
qed

lemma assign_value_steps:
  assumes "low_ok s" "lc_in s l"
  shows "steps s (assign_value name l s)"
proof -
  let ?l = "lc_simplify (em_p s) l"
  have l: "lc_in s ?l" using simplify_in [OF assms] .
  have S: "steps s (track_const name ?l s)" using track_const_steps [OF steps_refl [OF assms(1)]] .
  obtain d s2 where u: "bind_update name (Linear ?l) (track_const name ?l s) = (d, s2)" by force
  have S2: "steps s s2" using bind_update_steps [OF S _ u] l by (simp add: binding_lc_def)
  have "lc_in s2 ?l" using steps_in [OF S2 l] .
  then show ?thesis using S2 u by (auto simp: assign_value_def Let_def binding_lc_def split: bool.splits intro!: bind_steps)
qed

lemma assign_binary_steps:
  assumes le: "keeps lc_in le" and re: "keeps lc_in re" and ve: "keeps lc_in ve"
    and s: "low_ok s" and e: "assign_binary name left op right le re ve s = Inr (r, s')"
  shows "steps s s' \<and> ret_ok s' r"
proof -
  obtain d1 s1 where 1: "(if is_ident left name \<and> \<not> expr_references_var right name
      then self_update re (target_first op) name s else Inr (False, s)) = Inr (d1, s1)"
    using e unfolding assign_binary_def by (rule and_thenE)
  have first: "lc_in s l" if "low_ok s" "lc_in s t" "lc_in s e" "target_first op (em_p s) t e = Some l" for s t e l
    using combine_in that by blast
  have second: "lc_in s l" if "low_ok s" "lc_in s t" "lc_in s e" "target_second op (em_p s) t e = Some l" for s t e l
    using combine_in that by blast
  have S1: "steps s s1"
  proof (cases "is_ident left name \<and> \<not> expr_references_var right name")
    case True
    show ?thesis by (rule self_update_steps [OF re first s, where combine = "target_first op"]) (use 1 True in simp_all)
  qed (use 1 steps_refl [OF s] in auto)
  obtain d2 s2 where 2: "(if \<not> d1 \<and> is_ident right name \<and> \<not> expr_references_var left name
      then self_update le (target_second op) name s1 else Inr (d1, s1)) = Inr (d2, s2)"
    and rest: "(if d2 then Inr (None, s2) else and_then (ve s2) (\<lambda>(l, s3). Inr (None, assign_value name l s3))) = Inr (r, s')"
    using e unfolding assign_binary_def 1 and_then_simps prod.case by (rule and_thenE) auto
  have "steps s1 s2"
  proof (cases "\<not> d1 \<and> is_ident right name \<and> \<not> expr_references_var left name")
    case True
    show ?thesis by (rule self_update_steps [OF le second stepsD(1) [OF S1], where combine = "target_second op"]) (use 2 True in simp_all)
  qed (use 2 steps_refl [OF stepsD(1) [OF S1]] in auto)
  then have S2: "steps s s2" using steps_trans [OF S1] by blast
  show ?thesis
  proof (cases d2)
    case False
    then obtain l s3 where v: "ve s2 = Inr (l, s3)" "r = None" "s' = assign_value name l s3" using rest by (auto simp: and_then_Inr_iff)
    note V = keepsD [OF ve v(1) stepsD(1) [OF S2]]
    have S3: "steps s s3" using steps_trans [OF S2] V by blast
    have "steps s3 s'" unfolding v(3) using assign_value_steps [OF stepsD(1) [OF S3]] V by blast
    with S3 show ?thesis using steps_trans v by simp
  qed (use rest S2 in simp)
qed

lemma bind_let_steps:
  assumes "low_ok s" "lc_in s l" "bind_let name l s = (l', s')"
  shows "steps s s' \<and> lc_in s' l'"
proof -
  have "steps s (set_const name c s)" if "lc_is_constant (em_p s) (lc_simplify (em_p s) l) = Some c" for c
    using set_const_steps [OF steps_refl [OF assms(1)] const_range [OF steps_refl [OF assms(1)] that]] .
  then show ?thesis using assms simplify_in [OF assms(1,2)] steps_refl [OF assms(1)]
    by (auto simp: bind_let_def Let_def binding_lc_def split: option.splits intro!: bind_steps)
qed

lemma bind_wire_steps: "low_ok s \<Longrightarrow> new_wire name s = (w, s1) \<Longrightarrow> steps s (bind name (Wire w) s1) \<and> lc_in (bind name (Wire w) s1) (lc_variable w)"
  using new_wire_steps [of s name w s1] by (auto simp: binding_lc_def intro!: bind_steps)

lemma bound_field_range: "0 < p \<Longrightarrow> 0 \<le> bound_field p v \<and> bound_field p v < p"
  using fr_from_u64_range by (simp add: bound_field_def Let_def)

lemma emit_bounds_steps:
  assumes s: "low_ok s" and l: "lc_in s l" and e: "emit_bounds name b l s = Inr (u, s')"
  shows "emits s s'"
proof (cases b)
  case None
  then show ?thesis using e low_okD(2) [OF s] by (simp add: emit_bounds_def emits_refl)
next
  case (Some ba)
  obtain mi ma sp where ba: "ba = BoundsAttr mi ma sp" by (cases ba)
  obtain lo hi where lh: "zk_const_int mi = Some lo" "zk_const_int ma = Some hi" "\<not> hi < lo"
    using e Some ba by (auto simp: emit_bounds_def split: option.splits if_splits)
  let ?p = "em_p s" and ?k = "bit_width (nat (hi - lo))"
  let ?a = "lc_add_constant l ((0 - bound_field ?p lo) mod ?p)" and ?b = "lc_add_linear ?p (lc_constant (bound_field ?p hi)) l (fr_neg_one ?p)"
  note p = low_okD [OF s]
  have a: "lc_in s ?a" using p by (intro lc_in_add_constant l) simp_all
  have b: "lc_in s ?b" using p bound_field_range [of ?p] fr_neg_one_range [of ?p] by (intro lc_in_add_linear lc_in_const l) simp_all
  obtain bs1 s1 where n1: "emit_num2bits ?a ?k sp s = (bs1, s1)" by force
  obtain bs2 s2 where n2: "emit_num2bits ?b ?k sp s1 = (bs2, s2)" by force
  have "s' = s2" using e Some ba lh n1 n2 by (simp add: emit_bounds_def Let_def)
  moreover note E1 = num2bits_emits(1) [OF p(1,2) a n1]
  moreover have "emits s1 s2"
    using num2bits_emits(1) [OF _ emitsD(1) [OF E1] emits_in [OF E1 b] n2] emitsD(3) [OF E1] p(1) by simp
  ultimately show ?thesis using emits_trans by blast
qed

section \<open>Calls and hints\<close>

lemma bind_params_steps:
  "low_ok s \<Longrightarrow> \<forall>l\<in>set ls. lc_in s l \<Longrightarrow> steps s (bind_params ps ls s)"
proof (induction ps arbitrary: ls s)
  case (Cons q ps)
  show ?case
  proof (cases ls)
    case (Cons l ls')
    have S: "steps s (bind (par_name q) (Linear l) s)"
      using bind_steps [OF steps_refl [OF Cons.prems(1)]] Cons.prems(2) \<open>ls = l # ls'\<close> by (simp add: binding_lc_def)
    have "steps (bind (par_name q) (Linear l) s) (bind_params ps ls' (bind (par_name q) (Linear l) s))"
      using Cons.IH [OF stepsD(1) [OF S]] Cons.prems(2) \<open>ls = l # ls'\<close> by simp
    then show ?thesis using steps_trans [OF S] by (simp add: bind_params_def \<open>ls = l # ls'\<close>)
  qed (simp add: bind_params_def steps_refl Cons.prems)
qed (simp add: bind_params_def steps_refl)

lemma low_ok_calls [simp]: "low_ok (s\<lparr>em_calls := ks\<rparr>) = low_ok s"
  by (simp add: low_ok_def rebind)

lemma enter_call_steps:
  assumes "low_ok s" "\<forall>l\<in>set as. lc_in s l"
  shows "steps (push_call name (enter_scope s)) (enter_call name ps as s)"
  unfolding enter_call_def using assms enter_scope_ok
  by (intro bind_params_steps) (simp_all add: push_call_def enter_scope_def rebind)

lemma leave_call_steps:
  assumes "steps (push_call name (enter_scope s)) s1" "ret_ok s1 r" "leave_call name sp (r, s1) = Inr (l, s')"
  shows "steps s s' \<and> lc_in s' l"
proof -
  obtain x where x: "r = Some x" "l = ret_value x" "s' = exit_scope (pop_call s1)"
    using assms(3) by (auto simp: leave_call_def split: option.splits)
  have "steps (enter_scope s) (pop_call s1)" using assms(1)
    by (simp add: steps_def push_call_def pop_call_def enter_scope_def rebind rebind_grows_left)
  from exit_scope_steps [OF this] show ?thesis
    using assms(2) by (simp add: x ret_ok_def ret_in_def exit_scope_def pop_call_def rebind)
qed

lemma bind_hint_steps: "low_ok s \<Longrightarrow> steps s (bind_hint sp name s)"
proof -
  assume s: "low_ok s"
  obtain w s1 where w: "new_wire name s = (w, s1)" by force
  have "steps s (bind name (Wire w) s1)" using bind_wire_steps [OF s w] by blast
  then show ?thesis by (simp add: bind_hint_def w Let_def steps_def low_ok_def rebind)
qed

lemma fold_bind_hint_steps: "low_ok s \<Longrightarrow> steps s (fold (bind_hint sp) outs s)"
proof (induction outs arbitrary: s)
  case (Cons n outs)
  have S: "steps s (bind_hint sp n s)" by (rule bind_hint_steps [OF Cons.prems])
  show ?case using steps_trans [OF S Cons.IH [OF stepsD(1) [OF S]]] by simp
qed (simp add: steps_refl)

lemma poseidon_steps:
  assumes s: "low_ok s" and as: "\<forall>l\<in>set as. lc_in s l" "length as = 2" and p: "q = em_p s"
    and e: "emit_poseidon_core (poseidon_t3_params_for q) as s = (l, s')"
  shows "steps s s' \<and> lc_in s' l"
proof -
  obtain a b where ab: "as = [a, b]" using as(2) by (auto simp: length_Suc_conv eval_nat_numeral)
  have "lc_in s a" "lc_in s b" using as(1) ab by simp_all
  note P = poseidon_core_emits(1,2) [OF low_okD(1,2) [OF s] this params_for_canonical [OF low_okD(5) [OF s]] e [unfolded ab p]]
  then show ?thesis using emits_steps [OF s] by blast
qed

section \<open>The whole lowering\<close>

text \<open>Induction over the syntax and the fuel along the calls of the lowering.\<close>

lemma lowering_induct:
  fixes P :: "nat \<Rightarrow> expr \<Rightarrow> bool" and Q :: "nat \<Rightarrow> expr list \<Rightarrow> bool" and R :: "nat \<Rightarrow> stmt \<Rightarrow> bool" and B :: "nat \<Rightarrow> stmt list \<Rightarrow> bool"
    and items :: "item list"
  assumes leaf: "\<And>n e. (\<And>l op r sp. e \<noteq> BinaryOp l op r sp) \<Longrightarrow> (\<And>f as sp. e \<noteq> Call f as sp) \<Longrightarrow> (\<And>b i sp. e \<noteq> Index b i sp) \<Longrightarrow> P n e"
    and binary: "\<And>n l op r sp. P n l \<Longrightarrow> P n r \<Longrightarrow> P n (BinaryOp l op r sp)"
    and call: "\<And>n f as sp. (\<And>nm s1. f = Ident nm s1 \<Longrightarrow> length as = 2 \<or> nm \<noteq> ''poseidon_hash'' \<Longrightarrow> Q n as) \<Longrightarrow>
      (\<And>m fd nm s1. n = Suc m \<Longrightarrow> f = Ident nm s1 \<Longrightarrow> nm \<noteq> ''poseidon_hash'' \<Longrightarrow> find_func nm items = Some fd \<Longrightarrow> B m (block_stmts (fd_body fd))) \<Longrightarrow> P n (Call f as sp)"
    and ix: "\<And>n b i sp. P n i \<Longrightarrow> P n (Index b i sp)"
    and nil: "\<And>n. Q n []" and cons: "\<And>n e es. P n e \<Longrightarrow> Q n es \<Longrightarrow> Q n (e # es)"
    and let_: "\<And>n a t init c z b sp. (\<And>e. init = Some e \<Longrightarrow> P n e) \<Longrightarrow> R n (Let a t init c z b sp)"
    and assign: "\<And>n t v sp. (\<And>nm s1. t = Ident nm s1 \<Longrightarrow> P n v) \<Longrightarrow>
      (\<And>nm s1 l op r s2. t = Ident nm s1 \<Longrightarrow> v = BinaryOp l op r s2 \<Longrightarrow> P n l \<and> P n r) \<Longrightarrow> R n (Assign t v sp)"
    and compound: "\<And>n t op v sp. (\<And>nm s1. t = Ident nm s1 \<Longrightarrow> P n t \<and> P n v \<and> P n (BinaryOp t op v sp)) \<Longrightarrow> R n (CompoundAssign t op v sp)"
    and for_: "\<And>n var a b st body iv u tile pf sp. P n a \<Longrightarrow> P n b \<Longrightarrow> (\<And>e. st = Some e \<Longrightarrow> P n e) \<Longrightarrow> B n (block_stmts body) \<Longrightarrow>
      R n (For var a b st body iv u tile pf sp)"
    and if_: "\<And>n c tb eb u sp. P n c \<Longrightarrow> B n (block_stmts tb) \<Longrightarrow> (\<And>b. eb = Some b \<Longrightarrow> B n (block_stmts b)) \<Longrightarrow> R n (If c tb eb u sp)"
    and return: "\<And>n r sp. (\<And>e. r = Some e \<Longrightarrow> P n e) \<Longrightarrow> R n (Return r sp)"
    and expr: "\<And>n e. P n e \<Longrightarrow> R n (Expr e)"
    and hint: "\<And>n outs body sp. B n (block_stmts body) \<Longrightarrow> R n (HintBlock outs body sp)"
    and safe: "\<And>n b sp. B n (block_stmts b) \<Longrightarrow> R n (SafeBlock b sp)"
    and ghost: "\<And>n b sp. B n (block_stmts b) \<Longrightarrow> R n (GhostBlock b sp)"
    and refused: "\<And>n st. (\<And>c b iv mi u sp. st = While c b iv mi u sp \<Longrightarrow> R n st)"
      "\<And>n sp. R n (Break sp)" "\<And>n e as sp. R n (Match e as sp)" "\<And>n b sp. R n (Chisel b sp)" "\<And>n e b sp. R n (ClockDomainBlock e b sp)"
    and erased: "\<And>n a t sp. R n (TypeAlias a t sp)" "\<And>n e m sp. R n (CompileTimeAssert e m sp)"
    and nil_b: "\<And>n. B n []" and cons_b: "\<And>n st ss. R n st \<Longrightarrow> B n ss \<Longrightarrow> B n (st # ss)"
  shows "P n e" "Q n es" "R n st" "B n ss"
proof -
  have zero: "lc_is_constant q lc_zero = Some 0" and var: "lc_is_constant q (lc_variable 1) = None" for q
    by (simp_all add: lc_is_constant_def lc_zero_def lc_variable_def)
  have pq: "its = items \<and> em_field s = Bn254 \<longrightarrow> P n e" "its = items \<and> em_field s = Bn254 \<longrightarrow> Q n es"
    "its = items \<and> em_field s = Bn254 \<longrightarrow> R n st" "its = items \<and> em_field s = Bn254 \<longrightarrow> \<not> always_returns s acc \<longrightarrow> B n ss"
    for mu :: nat and its n e es st ss s acc
  proof (induction mu its n e s and mu its n es s and mu its n st s and mu its n acc ss s
      rule: emit_expr_emit_exprs_emit_stmt_emit_stmts.induct)
    case (4 mu its n l op r sp s)
    then show ?case using binary by blast
  next
    case (5 mu its n f args sp s)
    show ?case
    proof (intro impI call)
      fix nm s1 assume "its = items \<and> em_field s = Bn254" "f = Ident nm s1" "length args = 2 \<or> nm \<noteq> ''poseidon_hash''"
      then show "Q n args" using 5(1,2) by (cases "nm = ''poseidon_hash''") auto
    next
      fix m fd nm s1
      assume a: "its = items \<and> em_field s = Bn254" "n = Suc m" "f = Ident nm s1" "nm \<noteq> ''poseidon_hash''" "find_func nm items = Some fd"
      then show "B m (block_stmts (fd_body fd))" using 5(3) [of nm s1 fd m s] by (auto simp: always_returns_def)
    qed
  next
    case (11 mu its n t v sp s)
    show ?case
    proof (intro impI assign)
      fix nm s1 assume s: "its = items \<and> em_field s = Bn254" and t: "t = Ident nm s1"
      show "P n v" by (cases v) (use 11 s t in auto)
      fix l op r s2 assume "v = BinaryOp l op r s2"
      then show "P n l \<and> P n r" using 11(12,13) s t by auto
    qed
  next
    case (13 mu its n var a b st body iv u tile pf sp s)
    show ?case
    proof (intro impI for_)
      assume s: "its = items \<and> em_field s = Bn254"
      show "P n a" "P n b" using 13(1) 13(2) [of s] s by blast+
      show "P n e" if "st = Some e" for e using 13(3) [where xab = s and x = lc_zero and xaa = lc_zero] that s zero by blast
      show "B n (block_stmts body)"
        using 13(4) [where xab = s and x = lc_zero and xaa = lc_zero and xc = s] s zero by (simp add: always_returns_def)
    qed
  next
    case (14 mu its n c tb eb u sp s)
    show ?case
    proof (intro impI if_)
      assume s: "its = items \<and> em_field s = Bn254"
      show "P n c" using 14(1) s by blast
      show "B n (block_stmts tb)" using 14(2) [where xa = s and x = "lc_variable 1" and xb = s] s var by (simp add: always_returns_def)
      show "B n (block_stmts b)" if "eb = Some b" for b
        using 14(3) [where xa = s and x = "lc_variable 1" and xb = s] s var that by (simp add: always_returns_def)
    qed
  next
    case (28 mu its n acc st ss s)
    have ih: "B n ss" if "its = items \<and> em_field s = Bn254" "\<not> always_returns s acc"
    proof -
      have q: "(acc, s) = seq_returns acc None (stmt_span st) s" by (cases acc) (simp_all add: seq_returns_def)
      show ?thesis using 28(2) [OF that(2) q refl] that by blast
    qed
    then show ?case using 28(1) cons_b by blast
  qed (auto simp: always_returns_def intro: assms)
  have f: "em_field (em_new 0) = Bn254" "\<not> always_returns (em_new 0) None" by (simp_all add: em_new_def always_returns_def)
  show "P n e" using pq(1) [where its = items and s = "em_new 0"] f by blast
  show "Q n es" using pq(2) [where its = items and s = "em_new 0"] f by blast
  show "R n st" using pq(3) [where its = items and s = "em_new 0"] f by blast
  show "B n ss" using pq(4) [where its = items and s = "em_new 0" and acc = None] f by blast
qed

definition lcs_in :: "em \<Rightarrow> lc list \<Rightarrow> bool" where
  "lcs_in s ls \<longleftrightarrow> (\<forall>l\<in>set ls. lc_in s l)"

abbreviation keeps_expr :: "nat \<Rightarrow> item list \<Rightarrow> nat \<Rightarrow> expr \<Rightarrow> bool" where
  "keeps_expr mu items n e \<equiv> keeps lc_in (\<lambda>s. emit_expr mu items n e s)"

abbreviation keeps_stmts :: "nat \<Rightarrow> item list \<Rightarrow> nat \<Rightarrow> stmt list \<Rightarrow> bool" where
  "keeps_stmts mu items n ss \<equiv> \<forall>acc s r s'. low_ok s \<longrightarrow> ret_ok s acc \<longrightarrow> emit_stmts mu items n acc ss s = Inr (r, s') \<longrightarrow>
     steps s s' \<and> ret_ok s' r"

lemma keeps_block: "keeps_stmts mu items n ss \<Longrightarrow> keeps ret_ok (\<lambda>s. emit_stmts mu items n None ss s)"
  by (rule keepsI) (use ret_ok_None in blast)

lemma expr_cases_steps:
  assumes "low_ok s" "emit_expr mu items n e s = Inr (l, s')"
    "\<And>l op r sp. e \<noteq> BinaryOp l op r sp" "\<And>f as sp. e \<noteq> Call f as sp" "\<And>b i sp. e \<noteq> Index b i sp"
  shows "steps s s' \<and> lc_in s' l"
proof (cases e)
  case (Ident name sp)
  then show ?thesis using assms(1,2) read_name_ok by (auto simp: steps_refl split: option.splits)
next
  case (IntLit v sp)
  then show ?thesis using assms(1,2) const_in fr_from_u64_range low_okD(5) by (auto simp: steps_refl)
next
  case (BoolLit b sp)
  have "lc_in s (lc_constant (if b then 1 else 0))" using const_in [OF assms(1)] low_okD(5,6) [OF assms(1)] by simp
  then show ?thesis using assms(1,2) BoolLit by (auto simp: steps_refl)
qed (use assms in auto)

lemma binary_steps:
  assumes l: "keeps_expr mu items n l" and r: "keeps_expr mu items n r"
  shows "keeps_expr mu items n (BinaryOp l op r sp)"
proof (rule keepsI)
  fix s x s' assume s: "low_ok s" and e: "emit_expr mu items n (BinaryOp l op r sp) s = Inr (x, s')"
  obtain a s1 where a: "emit_expr mu items n l s = Inr (a, s1)" using e by (auto elim: and_thenE)
  obtain b s2 where b: "emit_expr mu items n r s1 = Inr (b, s2)" using e a by (auto elim: and_thenE)
  note A = keepsD [OF l a s]
  note B = keepsD [OF r b stepsD(1) [OF conjunct1 [OF A]]]
  have S2: "steps s s2" using steps_trans A B by blast
  have ins: "lc_in s2 a" "lc_in s2 b" using A B steps_in by blast+
  have op: "steps t t' \<and> lc_in t' y" if "low_ok t" "lc_in t u" "lc_in t v" "emit_binop q u v sp t = Inr (y, t')" for t u v q y t'
    using lowers_steps [OF that(1)] binop_lowers [OF low_okD(1,2) [OF that(1)] that(2-4)] by blast
  show "steps s s' \<and> lc_in s' x"
  proof (cases "op = NotEq")
    case False
    then have "emit_binop op a b sp s2 = Inr (x, s')" using e a b by simp
    then show ?thesis using op [OF stepsD(1) [OF S2] ins] steps_trans [OF S2] by blast
  next
    case True
    obtain a' s3 where a': "emit_expr mu items n l s2 = Inr (a', s3)" using e a b True by (auto elim: and_thenE)
    obtain b' s4 where b': "emit_expr mu items n r s3 = Inr (b', s4)" using e a b a' True by (auto elim: and_thenE)
    note A' = keepsD [OF l a' stepsD(1) [OF S2]]
    note B' = keepsD [OF r b' stepsD(1) [OF conjunct1 [OF A']]]
    have S4: "steps s s4" using steps_trans S2 A' B' by blast
    have "lc_in s4 a'" "lc_in s4 b'" using A' B' steps_in by blast+
    moreover have "emit_binop NotEq a' b' sp s4 = Inr (x, s')" using e a b a' b' True by simp
    ultimately show ?thesis using op [OF stepsD(1) [OF S4]] steps_trans [OF S4] by blast
  qed
qed

lemma index_steps:
  assumes i: "keeps_expr mu items n i"
  shows "keeps_expr mu items n (Index b i sp)"
proof (rule keepsI)
  fix s x s' assume s: "low_ok s" and e: "emit_expr mu items n (Index b i sp) s = Inr (x, s')"
  obtain il s1 where il: "emit_expr mu items n i s = Inr (il, s1)" using e by (auto elim: and_thenE)
  have rest: "\<exists>name c. read_name (indexed_name name c) s1 = Some x \<and> s' = s1"
    using e il by (auto split: option.splits expr.splits)
  note I = keepsD [OF i il s]
  then show "steps s s' \<and> lc_in s' x" using rest read_name_ok stepsD(1) by blast
qed

lemma call_steps:
  assumes as: "\<And>nm s1. f = Ident nm s1 \<Longrightarrow> length args = 2 \<or> nm \<noteq> ''poseidon_hash'' \<Longrightarrow>
      \<forall>s ls s'. low_ok s \<longrightarrow> emit_exprs mu items n args s = Inr (ls, s') \<longrightarrow> steps s s' \<and> lcs_in s' ls \<and> length ls = length args"
    and body: "\<And>m fd nm s1. n = Suc m \<Longrightarrow> f = Ident nm s1 \<Longrightarrow> nm \<noteq> ''poseidon_hash'' \<Longrightarrow> find_func nm items = Some fd \<Longrightarrow>
      keeps_stmts mu items m (block_stmts (fd_body fd))"
  shows "keeps_expr mu items n (Call f args sp)"
proof (rule keepsI)
  fix s x s' assume s: "low_ok s" and e: "emit_expr mu items n (Call f args sp) s = Inr (x, s')"
  obtain nm sp' where f: "f = Ident nm sp'" using e by (cases f) auto
  show "steps s s' \<and> lc_in s' x"
  proof (cases "nm = ''poseidon_hash''")
    case True
    then have len: "length args = 2" using e f by (auto split: if_splits)
    obtain ls s1 where ls: "emit_exprs mu items n args s = Inr (ls, s1)"
      and c: "emit_poseidon_core (poseidon_t3_params_for (em_p s)) ls s1 = (x, s')"
      using e f True len by (auto elim!: and_thenE split: if_splits)
    have A: "steps s s1 \<and> lcs_in s1 ls \<and> length ls = 2" using as [OF f] len s ls by auto
    have "steps s1 s' \<and> lc_in s' x"
      using poseidon_steps [OF stepsD(1) _ _ _ c] A stepsD(3) [of s s1] by (auto simp: lcs_in_def)
    then show ?thesis using steps_trans A by blast
  next
    case False
    obtain ls s1 where ls: "emit_exprs mu items n args s = Inr (ls, s1)"
      using e f False by (auto elim: and_thenE)
    have A: "steps s s1" "lcs_in s1 ls" using as [OF f] False s ls by blast+
    obtain fd m r s2 where fd: "find_func nm items = Some fd" "n = Suc m"
      and b: "in_scope (\<lambda>s'. emit_stmts mu items m None (block_stmts (fd_body fd)) s') (enter_call nm (fd_params fd) ls s1) = Inr (r, s2)"
      and l: "leave_call nm sp (r, s2) = Inr (x, s')"
      using e f False ls by (auto simp: and_then_Inr_iff split: option.splits nat.splits)
    have E: "steps (push_call nm (enter_scope s1)) (enter_call nm (fd_params fd) ls s1)"
      using enter_call_steps [OF stepsD(1) [OF A(1)]] A(2) by (simp add: lcs_in_def)
    note K = keepsD [OF keeps_in_scope [OF keeps_block [OF body [OF fd(2) f False fd(1)]]] b stepsD(1) [OF E]]
    have "steps s1 s' \<and> lc_in s' x" using leave_call_steps [OF steps_trans [OF E] _ l] K by blast
    then show ?thesis using steps_trans A(1) by blast
  qed
qed

end
