(* ===== verification/ZkLowerKeep.thy ===== *)
theory ZkLowerKeep
  imports ZkLowerInv
begin

text \<open>
  Every expression and every statement keeps the invariant of the lowering, by induction over
  the syntax; so a lowered program is a well-formed circuit. The fuel for calls is enough.
\<close>

section \<open>Every construct keeps the invariant\<close>

abbreviation keeps_exprs :: "nat \<Rightarrow> item list \<Rightarrow> nat \<Rightarrow> expr list \<Rightarrow> bool" where
  "keeps_exprs mu items n es \<equiv> \<forall>s ls s'. low_ok s \<longrightarrow> emit_exprs mu items n es s = Inr (ls, s') \<longrightarrow>
     steps s s' \<and> lcs_in s' ls \<and> length ls = length es"

abbreviation keeps_stmt :: "nat \<Rightarrow> item list \<Rightarrow> nat \<Rightarrow> stmt \<Rightarrow> bool" where
  "keeps_stmt mu items n st \<equiv> keeps ret_ok (\<lambda>s. emit_stmt mu items n st s)"

lemma exprs_steps:
  assumes e: "keeps_expr mu items n e" and es: "keeps_exprs mu items n es"
  shows "keeps_exprs mu items n (e # es)"
proof (intro allI impI)
  fix s xs s' assume s: "low_ok s" and r: "emit_exprs mu items n (e # es) s = Inr (xs, s')"
  obtain l s1 where l: "emit_expr mu items n e s = Inr (l, s1)" using r by (auto elim: and_thenE)
  obtain ls s2 where ls: "emit_exprs mu items n es s1 = Inr (ls, s2)" using r l by (auto elim: and_thenE)
  have xs: "xs = l # ls" "s' = s2" using r l ls by auto
  note L = keepsD [OF e l s]
  have "steps s1 s2 \<and> lcs_in s2 ls \<and> length ls = length es" using es ls stepsD(1) L by blast
  then show "steps s s' \<and> lcs_in s' xs \<and> length xs = length (e # es)"
    using L steps_trans [of s s1 s2] steps_in [of s1 s2 l] by (simp add: xs lcs_in_def)
qed

lemma let_steps:
  assumes "\<And>e. init = Some e \<Longrightarrow> keeps_expr mu items n e"
  shows "keeps_stmt mu items n (Let a t init c z b sp)"
proof (rule keepsI)
  fix s r s' assume s: "low_ok s" and e: "emit_stmt mu items n (Let a t init c z b sp) s = Inr (r, s')"
  obtain l s1 where l: "(case init of Some e \<Rightarrow> and_then (emit_expr mu items n e s) (\<lambda>(l, s1). Inr (bind_let a l s1))
      | None \<Rightarrow> Inr (bind_raw a s)) = Inr (l, s1)"
    using e unfolding emit_stmt.simps by (rule and_thenE)
  have "and_then (emit_bounds a b l s1) (\<lambda>(_, s2). Inr (None, s2)) = Inr (r, s')" using e l by simp
  then obtain u where b: "emit_bounds a b l s1 = Inr (u, s')" "r = None" by (rule and_thenE) simp
  have "steps s s1 \<and> lc_in s1 l"
  proof (cases init)
    case None
    obtain w s0 where w: "new_wire a s = (w, s0)" by force
    then show ?thesis using bind_wire_steps [OF s w] l None bind_in(1) [of a "Wire w" s0] by (auto simp: bind_raw_def)
  next
    case (Some ex)
    obtain v s0 where v: "emit_expr mu items n ex s = Inr (v, s0)" "bind_let a v s0 = (l, s1)" using l Some by (cases "emit_expr mu items n ex s") auto
    note V = keepsD [OF assms [OF Some] v(1) s]
    have "steps s0 s1 \<and> lc_in s1 l" using bind_let_steps [OF stepsD(1) _ v(2)] V by blast
    then show ?thesis using steps_trans V by blast
  qed
  moreover have "steps s1 s'" using calculation emit_bounds_steps [OF stepsD(1) _ b(1)] emits_steps stepsD(1) by blast
  ultimately show "steps s s' \<and> ret_ok s' r" using steps_trans b(2) by auto
qed

lemma assign_steps:
  assumes v: "\<And>nm s1. t = Ident nm s1 \<Longrightarrow> keeps_expr mu items n v"
    and lr: "\<And>nm s1 l op r s2. t = Ident nm s1 \<Longrightarrow> v = BinaryOp l op r s2 \<Longrightarrow> keeps_expr mu items n l \<and> keeps_expr mu items n r"
  shows "keeps_stmt mu items n (Assign t v sp)"
proof (rule keepsI)
  fix s r s' assume s: "low_ok s" and e: "emit_stmt mu items n (Assign t v sp) s = Inr (r, s')"
  obtain nm s1 where t: "t = Ident nm s1" using e by (cases t) auto
  have plain: "steps s s' \<and> ret_ok s' r" if w: "and_then (emit_expr mu items n v s) (\<lambda>(l, s1). Inr (None, assign_value nm l s1)) = Inr (r, s')"
  proof -
    obtain l s2 where l: "emit_expr mu items n v s = Inr (l, s2)" "r = None" "s' = assign_value nm l s2"
      using w by (rule and_thenE) simp
    note L = keepsD [OF v [OF t] l(1) s]
    have "steps s2 s'" unfolding l(3) using assign_value_steps stepsD(1) L by blast
    then show ?thesis using steps_trans L l(2) by auto
  qed
  show "steps s s' \<and> ret_ok s' r"
  proof (cases v)
    case (BinaryOp l op q s2)
    have "assign_binary nm l op q (\<lambda>s. emit_expr mu items n l s) (\<lambda>s. emit_expr mu items n q s)
        (\<lambda>s. emit_expr mu items n (BinaryOp l op q s2) s) s = Inr (r, s')"
      using e unfolding t BinaryOp by (simp del: emit_expr.simps)
    then show ?thesis using assign_binary_steps [OF _ _ _ s] lr [OF t BinaryOp] v [OF t] BinaryOp by blast
  qed (use e t plain in \<open>auto simp del: emit_expr.simps\<close>)
qed

lemma compound_steps:
  assumes "\<And>nm s1. t = Ident nm s1 \<Longrightarrow> keeps_expr mu items n t \<and> keeps_expr mu items n v \<and> keeps_expr mu items n (BinaryOp t op v sp)"
  shows "keeps_stmt mu items n (CompoundAssign t op v sp)"
proof (rule keepsI)
  fix s r s' assume s: "low_ok s" and e: "emit_stmt mu items n (CompoundAssign t op v sp) s = Inr (r, s')"
  obtain nm s1 where t: "t = Ident nm s1" using e by (cases t) auto
  have "assign_binary nm t op v (\<lambda>s. emit_expr mu items n t s) (\<lambda>s. emit_expr mu items n v s)
      (\<lambda>s. emit_expr mu items n (BinaryOp t op v sp) s) s = Inr (r, s')"
    using e unfolding t by (simp del: emit_expr.simps)
  then show "steps s s' \<and> ret_ok s' r" using assign_binary_steps [OF _ _ _ s] assms [OF t] by blast
qed

lemma for_steps:
  assumes a: "keeps_expr mu items n a" and b: "keeps_expr mu items n b" and st: "\<And>e. st = Some e \<Longrightarrow> keeps_expr mu items n e"
    and body: "keeps_stmts mu items n (block_stmts body)"
  shows "keeps_stmt mu items n (For var a b st body iv u tile pf sp)"
proof (rule keepsI)
  fix s r s' assume s: "low_ok s" and e: "emit_stmt mu items n (For var a b st body iv u tile pf sp) s = Inr (r, s')"
  obtain al s1 where al: "emit_expr mu items n a s = Inr (al, s1)" using e by (auto elim: and_thenE)
  obtain bl s2 where bl: "emit_expr mu items n b s1 = Inr (bl, s2)" using e al by (auto elim: and_thenE)
  obtain first last_v where c: "lc_is_constant (em_p s2) al = Some first" "lc_is_constant (em_p s2) bl = Some last_v"
    using e al bl by (auto split: option.splits)
  obtain step s3 where q: "(case st of None \<Rightarrow> Inr (1, s2)
      | Some e \<Rightarrow> and_then (emit_expr mu items n e s2) (\<lambda>(l, s3).
          case lc_is_constant (em_p s3) l of None \<Rightarrow> Inl (LoopStep (sp_line sp)) | Some c \<Rightarrow> Inr (c, s3))) = Inr (step, s3)"
    and w: "unroll mu mu var (\<lambda>s. emit_stmts mu items n None (block_stmts body) s) step last_v sp first None s3 = Inr (r, s')"
    using e al bl c by (auto elim: and_thenE)
  note A = keepsD [OF a al s]
  note B = keepsD [OF b bl stepsD(1) [OF conjunct1 [OF A]]]
  have S2: "steps s s2" using steps_trans A B by blast
  have "steps s2 s3"
  proof (cases st)
    case (Some ex)
    obtain l where l: "emit_expr mu items n ex s2 = Inr (l, s3)" using q Some by (auto elim!: and_thenE split: option.splits)
    show ?thesis using keepsD [OF st [OF Some] l stepsD(1) [OF S2]] by blast
  qed (use q steps_refl [OF stepsD(1) [OF S2]] in auto)
  then have S3: "steps s s3" using steps_trans [OF S2] by blast
  have "0 \<le> first \<and> first < em_p s" using const_range [OF S2 c(1)] .
  then have "steps s3 s' \<and> ret_ok s' r"
    using unroll_steps [OF keeps_block [OF body] stepsD(1) [OF S3] ret_ok_None _ _ w] stepsD(3) [OF S3] by simp
  then show "steps s s' \<and> ret_ok s' r" using steps_trans [OF S3] by blast
qed

lemma if_steps:
  assumes c: "keeps_expr mu items n c" and tb: "keeps_stmts mu items n (block_stmts tb)"
    and eb: "\<And>b. eb = Some b \<Longrightarrow> keeps_stmts mu items n (block_stmts b)"
  shows "keeps_stmt mu items n (If c tb eb u sp)"
proof (rule keepsI)
  fix s r s' assume s: "low_ok s" and e: "emit_stmt mu items n (If c tb eb u sp) s = Inr (r, s')"
  obtain cl s1 where cl: "emit_expr mu items n c s = Inr (cl, s1)" using e by (auto elim: and_thenE)
  note C = keepsD [OF c cl s]
  note low1 = stepsD(1) [OF conjunct1 [OF C]]
  note T = keeps_in_scope [OF keeps_block [OF tb]] and E = keeps_in_scope [OF keeps_block [OF eb]]
  have "steps s1 s' \<and> ret_ok s' r"
  proof (cases "lc_is_constant (em_p s1) cl")
    case None
    have e2: "emit_branch cl (in_scope (\<lambda>s. emit_stmts mu items n None (block_stmts tb) s))
        (case eb of Some b \<Rightarrow> Some (in_scope (\<lambda>s. emit_stmts mu items n None (block_stmts b) s)) | None \<Rightarrow> None) sp s1 = Inr (r, s')"
      using e cl None by simp
    show ?thesis
      by (rule emit_branch_steps [OF T _ low1 _ e2]) (use C E in \<open>auto split: option.splits\<close>)
  next
    case (Some v)
    show ?thesis
    proof (cases "v = 0")
      case False
      then show ?thesis using e cl Some keepsD [OF T _ low1] by simp
    next
      case True
      then show ?thesis using e cl Some keepsD [OF E _ low1] steps_refl [OF low1] by (cases eb) auto
    qed
  qed
  then show "steps s s' \<and> ret_ok s' r" using steps_trans C by blast
qed

lemma return_steps:
  assumes "\<And>e. q = Some e \<Longrightarrow> keeps_expr mu items n e"
  shows "keeps_stmt mu items n (Return q sp)"
proof (rule keepsI)
  fix s r s' assume s: "low_ok s" and e: "emit_stmt mu items n (Return q sp) s = Inr (r, s')"
  show "steps s s' \<and> ret_ok s' r"
  proof (cases q)
    case (Some ex)
    obtain l where l: "emit_expr mu items n ex s = Inr (l, s')" "r = Some \<lparr>ret_flag = lc_constant 1, ret_value = l\<rparr>"
      using e Some by (auto elim: and_thenE)
    note L = keepsD [OF assms [OF Some] l(1) s]
    then show ?thesis using const_in [of s' 1] stepsD(1) [of s s'] low_okD(6) [of s'] by (simp add: l(2) ret_ok_def ret_in_def)
  qed (use e s steps_refl in auto)
qed

lemma hint_steps:
  assumes "keeps_stmts mu items n (block_stmts body)"
  shows "keeps_stmt mu items n (HintBlock outs body sp)"
proof (rule keepsI)
  fix s r s' assume s: "low_ok s" and e: "emit_stmt mu items n (HintBlock outs body sp) s = Inr (r, s')"
  obtain q s1 where q: "in_scope (in_scope (\<lambda>s. emit_stmts mu items n None (block_stmts body) s)) s = Inr (q, s1)"
    "r = None" "s' = fold (bind_hint sp) outs s1"
    using e by (auto elim: and_thenE)
  note Q = keepsD [OF keeps_in_scope [OF keeps_in_scope [OF keeps_block [OF assms]]] q(1) s]
  have "steps s1 s'" unfolding q(3) using fold_bind_hint_steps stepsD(1) Q by blast
  then show "steps s s' \<and> ret_ok s' r" using steps_trans Q q(2) by auto
qed

lemma stmts_steps:
  assumes st: "keeps_stmt mu items n st" and ss: "keeps_stmts mu items n ss"
  shows "keeps_stmts mu items n (st # ss)"
proof (intro allI impI)
  fix acc s r s' assume s: "low_ok s" and acc: "ret_ok s acc" and e: "emit_stmts mu items n acc (st # ss) s = Inr (r, s')"
  show "steps s s' \<and> ret_ok s' r"
  proof (cases "always_returns s acc")
    case True
    then show ?thesis using e s acc by (auto simp: steps_refl)
  next
    case False
    obtain here s1 where h: "emit_stmt mu items n st s = Inr (here, s1)" using e False by (auto elim: and_thenE)
    obtain acc' s2 where q: "seq_returns acc here (stmt_span st) s1 = (acc', s2)" by force
    have e2: "emit_stmts mu items n acc' ss s2 = Inr (r, s')" using e False h q by simp
    note H = keepsD [OF st h s]
    have Q: "steps s1 s2 \<and> ret_ok s2 acc'" using seq_returns_steps [OF stepsD(1) _ _ q] H steps_ret acc by blast
    then have "steps s2 s' \<and> ret_ok s' r" using ss e2 stepsD(1) by blast
    then show ?thesis using H Q steps_trans by blast
  qed
qed

section \<open>The whole lowering\<close>

lemma lowering_keeps:
  "keeps_expr mu items n e" "keeps_exprs mu items n es" "keeps_stmt mu items n st" "keeps_stmts mu items n ss"
proof (induction n e and n es and n st and n ss rule: lowering_induct [where items = items])
  case (1 n e)
  then show ?case using expr_cases_steps by (intro keepsI) blast
next
  case (2 n l op r sp)
  then show ?case by (rule binary_steps)
next
  case (3 n f as sp)
  then show ?case by (rule call_steps)
next
  case (4 n b i sp)
  then show ?case by (rule index_steps)
next
  case 5
  then show ?case by (auto simp: steps_refl lcs_in_def)
next
  case (6 n e es)
  then show ?case by (rule exprs_steps)
next
  case (7 n a t init c z b sp)
  then show ?case by (rule let_steps)
next
  case (8 n t v sp)
  then show ?case by (rule assign_steps)
next
  case (9 n t op v sp)
  then show ?case by (rule compound_steps)
next
  case (10 n var a b st body iv u tile pf sp)
  then show ?case by (rule for_steps)
next
  case (11 n c tb eb u sp)
  then show ?case by (rule if_steps)
next
  case (12 n r sp)
  then show ?case by (rule return_steps)
next
  case (13 n e)
  show ?case
  proof (rule keepsI)
    fix s r s' assume s: "low_ok s" and e: "emit_stmt mu items n (Expr e) s = Inr (r, s')"
    obtain l where "emit_expr mu items n e s = Inr (l, s')" "r = None"
      using e unfolding emit_stmt.simps by (rule and_thenE) simp
    then show "steps s s' \<and> ret_ok s' r" using keepsD [OF 13 _ s] by simp
  qed
next
  case (14 n outs body sp)
  then show ?case by (rule hint_steps)
next
  case (15 n b sp)
  then show ?case using keeps_in_scope [OF keeps_block [OF 15]] by simp
next
  case (16 n b sp)
  then show ?case using keeps_in_scope [OF keeps_block [OF 16]] by simp
next
  case (17 n st)
  then show ?case by (simp add: keeps_def)
next
  case 24
  then show ?case by (simp add: steps_refl)
next
  case (25 n st ss)
  then show ?case by (rule stmts_steps)
qed (simp_all add: keeps_def steps_refl)

end
