(* ===== verification/ZkLowerFuel.thy ===== *)
theory ZkLowerFuel
  imports ZkLowerKeep
begin

text \<open>
  The fuel for inlined calls is enough. The code refuses the 257th nested call, so an expansion
  whose fuel and active calls add up to 257 never runs out of it.
\<close>

section \<open>Room for calls\<close>

definition room :: "nat \<Rightarrow> em \<Rightarrow> bool" where
  "room n s \<longleftrightarrow> low_ok s \<and> 257 \<le> n + length (em_calls s)"

definition fueled :: "nat \<Rightarrow> (em \<Rightarrow> 'a emitted) \<Rightarrow> bool" where
  "fueled n f \<longleftrightarrow> (\<forall>s. room n s \<longrightarrow> f s \<noteq> Inl OutOfFuel)"

lemma fueledI: "(\<And>s. room n s \<Longrightarrow> f s \<noteq> Inl OutOfFuel) \<Longrightarrow> fueled n f"
  by (simp add: fueled_def)

lemma fueledD: "fueled n f \<Longrightarrow> room n s \<Longrightarrow> f s \<noteq> Inl OutOfFuel"
  by (simp add: fueled_def)

lemma room_steps: "room n s \<Longrightarrow> steps s s' \<Longrightarrow> room n s'"
  by (simp add: room_def steps_def)

lemma room_low: "room n s \<Longrightarrow> low_ok s"
  by (simp add: room_def)

lemma and_then_fuel:
  "r \<noteq> Inl OutOfFuel \<Longrightarrow> (\<And>x. r = Inr x \<Longrightarrow> g x \<noteq> Inl OutOfFuel) \<Longrightarrow> and_then r g \<noteq> Inl OutOfFuel"
  by (cases r) auto

lemma fueled_then:
  assumes f: "fueled n f" "keeps P f" and s: "room n s" and g: "\<And>x s'. f s = Inr (x, s') \<Longrightarrow> steps s s' \<Longrightarrow> P s' x \<Longrightarrow> room n s' \<Longrightarrow> g (x, s') \<noteq> Inl OutOfFuel"
  shows "and_then (f s) g \<noteq> Inl OutOfFuel"
proof (rule and_then_fuel [OF fueledD [OF f(1) s]])
  fix y assume y: "f s = Inr y"
  obtain x s' where x: "y = (x, s')" by (cases y)
  have "steps s s' \<and> P s' x" using keepsD [OF f(2) y [unfolded x] room_low [OF s]] .
  then show "g y \<noteq> Inl OutOfFuel" using g y room_steps [OF s] unfolding x by blast
qed

lemma room_enter: "room n s \<Longrightarrow> room n (enter_scope s)"
  using enter_scope_ok by (auto simp: room_def enter_scope_def)

lemma in_scope_fueled: "fueled n f \<Longrightarrow> fueled n (in_scope f)"
  unfolding in_scope_def by (intro fueledI and_then_fuel) (auto dest: fueledD room_enter)

section \<open>The pieces of the lowering\<close>

lemma and_then_fuel_iff: "and_then r g = Inl OutOfFuel \<longleftrightarrow> r = Inl OutOfFuel \<or> (\<exists>x. r = Inr x \<and> g x = Inl OutOfFuel)"
  by (cases r) auto

lemma require_fuel [simp]: "require r \<noteq> Inl OutOfFuel"
  by (simp add: require_def split: sum.split)

lemma binop_fuel: "emit_binop op a b sp s \<noteq> Inl OutOfFuel"
proof -
  have "emit_division d a b sp s \<noteq> Inl OutOfFuel" "emit_comparison op a b sp s \<noteq> Inl OutOfFuel"
    "emit_bit_operator op a b sp s \<noteq> Inl OutOfFuel" "emit_shift_operator d a b sp s \<noteq> Inl OutOfFuel" for d
    by (auto simp: emit_division_def emit_comparison_def emit_bit_operator_def emit_shift_operator_def Let_def and_then_fuel_iff
        split: option.splits prod.splits)
  then show ?thesis by (cases op) (simp_all add: emit_binop_def)
qed

lemma bounds_fuel: "emit_bounds name b l s \<noteq> Inl OutOfFuel"
  by (auto simp: emit_bounds_def Let_def split: option.splits bounds_attr.splits prod.splits)

lemma merge_scopes_fuel: "merge_scopes cond sp ts es is s \<noteq> Inl OutOfFuel"
proof (induction "is" arbitrary: s)
  case (Cons i js)
  have b: "branch_lc scs i v x \<noteq> Inl OutOfFuel" for scs v x by (auto simp: branch_lc_def split: option.splits)
  have v: "merge_var cond sp ts es i v t \<noteq> Inl OutOfFuel" for v t
    using b by (auto simp: merge_var_def Let_def and_then_fuel_iff split: option.splits prod.splits)
  have "merge_vars cond sp ts es i vs t \<noteq> Inl OutOfFuel" for vs t
    by (induction vs arbitrary: t) (auto simp: and_then_fuel_iff v)
  then show ?case using Cons by (auto simp: and_then_fuel_iff)
qed simp

lemma unroll_fuel:
  assumes body: "keeps ret_ok body" "fueled k body"
  shows "room k s \<Longrightarrow> ret_ok s acc \<Longrightarrow> 0 \<le> cur \<Longrightarrow> cur < em_p s \<Longrightarrow> unroll mu n var body step last_v sp cur acc s \<noteq> Inl OutOfFuel"
proof (induction n arbitrary: cur acc s)
  case (Suc n)
  let ?s = "bind var (Linear (lc_constant cur)) (set_const var cur (enter_scope s))"
  have E: "steps (enter_scope s) ?s" using enter_iteration room_low Suc.prems by blast
  show ?case
  proof (cases "cur < last_v")
    case True
    have "and_then (body ?s) (\<lambda>(here, s2).
              (let (acc', s3) = seq_returns acc here sp s2;
                   s4 = exit_scope s3
               in if always_returns s4 acc' then Inr (acc', s4)
                  else unroll mu n var body step last_v sp ((cur + step) mod em_p s4) acc' s4)) \<noteq> Inl OutOfFuel"
    proof (rule fueled_then [OF body(2,1) room_steps [OF room_enter [OF Suc.prems(1)] E]], unfold prod.case)
      fix here s2 assume b: "steps ?s s2" "ret_ok s2 here"
      obtain acc' s3 where q: "seq_returns acc here sp s2 = (acc', s3)" by force
      have A: "ret_ok s2 acc" using Suc.prems(2) steps_ret [OF steps_trans [OF E b(1)]] enter_scope_def by simp
      have Q: "steps s2 s3 \<and> ret_ok s3 acc'" using seq_returns_steps [OF stepsD(1) [OF b(1)] A b(2) q] .
      have X: "steps s (exit_scope s3)" using exit_scope_steps steps_trans E b(1) Q by blast
      have "0 \<le> (cur + step) mod em_p (exit_scope s3)" "(cur + step) mod em_p (exit_scope s3) < em_p (exit_scope s3)"
        using low_okD(5) [OF stepsD(1) [OF X]] by simp_all
      then have "unroll mu n var body step last_v sp ((cur + step) mod em_p (exit_scope s3)) acc' (exit_scope s3) \<noteq> Inl OutOfFuel"
        using Suc.IH room_steps [OF Suc.prems(1) X] Q by simp
      then show "(let (acc', s3) = seq_returns acc here sp s2; s4 = exit_scope s3
               in if always_returns s4 acc' then Inr (acc', s4)
                  else unroll mu n var body step last_v sp ((cur + step) mod em_p s4) acc' s4) \<noteq> Inl OutOfFuel"
        by (simp add: q Let_def)
    qed
    then show ?thesis using True by (simp add: unroll.simps Let_def)
  qed (simp add: unroll.simps)
qed (simp add: unroll.simps)

lemma emit_branch_fuel:
  assumes thn: "keeps ret_ok thn" "fueled n thn" and els: "\<And>f. els = Some f \<Longrightarrow> fueled n f" and s: "room n s" and c: "lc_in s cond"
  shows "emit_branch cond thn els sp s \<noteq> Inl OutOfFuel"
proof -
  let ?s0 = "s\<lparr>em_cons := em_cons s @ [\<lparr>con_a = cond, con_b = cond, con_c = cond, con_span = Some sp\<rparr>]\<rparr>"
  note low = room_low [OF s]
  have S0: "steps s ?s0" using emits_steps [OF low push_emits(1) [OF low_okD(2) [OF low] c c c]] .
  show ?thesis unfolding emit_branch_def
  proof (rule fueled_then [OF thn(2,1) room_steps [OF s S0]], unfold prod.case)
    fix tr s1 assume "steps ?s0 s1"
    then have S1: "steps s s1" using steps_trans [OF S0] by blast
    have S2: "steps s (s1\<lparr>em_scopes := em_scopes s\<rparr>)"
      using steps_scopes [OF S1 steps_bindings [OF S1 low_okD(3) [OF low]]] by simp
    have S3: "steps s (s1\<lparr>em_scopes := em_scopes s, em_consts := em_consts s\<rparr>)"
      using steps_consts [OF S2 low_okD(4) [OF low]] by simp
    have "emit_else els (em_scopes s) (em_consts s) (s1\<lparr>em_scopes := em_scopes s\<rparr>) \<noteq> Inl OutOfFuel"
      using fueledD [OF els room_steps [OF s S3]] by (auto simp: emit_else_def and_then_fuel_iff split: option.splits)
    then show "and_then (emit_else els (em_scopes s) (em_consts s) (s1\<lparr>em_scopes := em_scopes s\<rparr>)) (\<lambda>((er, es, ec), s2).
        and_then (merge_scopes cond sp (em_scopes s1) es [0..<length (em_scopes s)]
           (s2\<lparr>em_consts := merge_consts (em_consts s1) ec\<rparr>)) (\<lambda>(_, s3). Inr (mux_returns cond tr er sp s3))) \<noteq> Inl OutOfFuel"
      by (auto simp: and_then_fuel_iff merge_scopes_fuel)
  qed
qed

lemma self_update_fuel:
  assumes "fueled n other" "room n s"
  shows "self_update other combine name s \<noteq> Inl OutOfFuel"
proof -
  obtain q s1 where t: "take_binding_from_scope name s = (q, s1)" by force
  have "room n s1" using room_steps [OF assms(2)] take_binding_steps [OF room_low [OF assms(2)] t] by blast
  then show ?thesis using fueledD [OF assms(1)] by (auto simp: self_update_def t and_then_fuel_iff split: option.splits)
qed

lemma first_steps:
  assumes "keeps lc_in other" "low_ok s" "self_update other (target_first op) name s = Inr (d, s')"
  shows "steps s s'"
  by (rule self_update_steps [OF assms(1) _ assms(2,3)]) (use combine_in in blast)

lemma second_steps:
  assumes "keeps lc_in other" "low_ok s" "self_update other (target_second op) name s = Inr (d, s')"
  shows "steps s s'"
  by (rule self_update_steps [OF assms(1) _ assms(2,3)]) (use combine_in in blast)

lemma assign_binary_fuel:
  assumes k: "keeps lc_in le" "keeps lc_in re" and f: "fueled n le" "fueled n re" "fueled n ve" and s: "room n s"
  shows "assign_binary name left op right le re ve s \<noteq> Inl OutOfFuel"
  unfolding assign_binary_def
proof (rule and_then_fuel)
  show "(if is_ident left name \<and> \<not> expr_references_var right name
      then self_update re (target_first op) name s else Inr (False, s)) \<noteq> Inl OutOfFuel"
    using self_update_fuel [OF f(2) s] by simp
  fix x assume x: "(if is_ident left name \<and> \<not> expr_references_var right name
      then self_update re (target_first op) name s else Inr (False, s)) = Inr x"
  obtain d1 s1 where x1: "x = (d1, s1)" by force
  have R1: "room n s1" using x first_steps [OF k(2) room_low [OF s]] room_steps [OF s] s unfolding x1 by (auto split: if_splits)
  show "(case x of (done1, s1) \<Rightarrow> and_then (if \<not> done1 \<and> is_ident right name \<and> \<not> expr_references_var left name
               then self_update le (target_second op) name s1 else Inr (done1, s1)) (\<lambda>(done2, s2).
     if done2 then Inr (None, s2) else and_then (ve s2) (\<lambda>(l, s3). Inr (None, assign_value name l s3)))) \<noteq> Inl OutOfFuel"
    unfolding x1 prod.case
  proof (rule and_then_fuel)
    show "(if \<not> d1 \<and> is_ident right name \<and> \<not> expr_references_var left name
               then self_update le (target_second op) name s1 else Inr (d1, s1)) \<noteq> Inl OutOfFuel"
      using self_update_fuel [OF f(1) R1] by simp
    fix y assume y: "(if \<not> d1 \<and> is_ident right name \<and> \<not> expr_references_var left name
               then self_update le (target_second op) name s1 else Inr (d1, s1)) = Inr y"
    obtain d2 s2 where y2: "y = (d2, s2)" by force
    have "room n s2" using y second_steps [OF k(1) room_low [OF R1]] room_steps [OF R1] R1 unfolding y2 by (auto split: if_splits)
    then show "(case y of (done2, s2) \<Rightarrow> if done2 then Inr (None, s2) else and_then (ve s2) (\<lambda>(l, s3). Inr (None, assign_value name l s3))) \<noteq> Inl OutOfFuel"
      using fueledD [OF f(3)] by (auto simp: y2 and_then_fuel_iff)
  qed
qed

section \<open>The constructs\<close>

abbreviation fueled_expr :: "nat \<Rightarrow> item list \<Rightarrow> nat \<Rightarrow> expr \<Rightarrow> bool" where
  "fueled_expr mu items n e \<equiv> fueled n (\<lambda>s. emit_expr mu items n e s)"

abbreviation fueled_stmts :: "nat \<Rightarrow> item list \<Rightarrow> nat \<Rightarrow> stmt list \<Rightarrow> bool" where
  "fueled_stmts mu items n ss \<equiv> \<forall>acc s. ret_ok s acc \<longrightarrow> room n s \<longrightarrow> emit_stmts mu items n acc ss s \<noteq> Inl OutOfFuel"

lemma fueled_block: "fueled_stmts mu items n ss \<Longrightarrow> fueled n (\<lambda>s. emit_stmts mu items n None ss s)"
  by (rule fueledI) simp

lemma block_both:
  assumes "fueled_stmts mu items n (block_stmts b)"
  shows "fueled n (in_scope (\<lambda>s. emit_stmts mu items n None (block_stmts b) s))"
    "keeps ret_ok (in_scope (\<lambda>s. emit_stmts mu items n None (block_stmts b) s))"
  using in_scope_fueled [OF fueled_block [OF assms]] keeps_in_scope [OF keeps_block [OF lowering_keeps(4)]] by blast+

lemma binary_fuel:
  assumes l: "fueled_expr mu items n l" and r: "fueled_expr mu items n r"
  shows "fueled_expr mu items n (BinaryOp l op r sp)"
proof (rule fueledI)
  fix s assume s: "room n s"
  note L = fueled_then [OF l lowering_keeps(1)] and R = fueled_then [OF r lowering_keeps(1)]
  show "emit_expr mu items n (BinaryOp l op r sp) s \<noteq> Inl OutOfFuel"
    unfolding emit_expr.simps
  proof (rule L [OF s], unfold prod.case)
    fix a s1 assume 1: "room n s1"
    show "and_then (emit_expr mu items n r s1) (\<lambda>(b, s2). if op = NotEq
         then and_then (emit_expr mu items n l s2) (\<lambda>(a', s3). and_then (emit_expr mu items n r s3) (\<lambda>(b', s4). emit_binop NotEq a' b' sp s4))
         else emit_binop op a b sp s2) \<noteq> Inl OutOfFuel"
    proof (rule R [OF 1], unfold prod.case)
      fix b s2 assume 2: "room n s2"
      have "and_then (emit_expr mu items n l s2) (\<lambda>(a', s3). and_then (emit_expr mu items n r s3) (\<lambda>(b', s4). emit_binop NotEq a' b' sp s4)) \<noteq> Inl OutOfFuel"
      proof (rule L [OF 2], unfold prod.case)
        fix a' s3 assume 3: "room n s3"
        show "and_then (emit_expr mu items n r s3) (\<lambda>(b', s4). emit_binop NotEq a' b' sp s4) \<noteq> Inl OutOfFuel"
          by (rule R [OF 3]) (simp add: binop_fuel)
      qed
      then show "(if op = NotEq
         then and_then (emit_expr mu items n l s2) (\<lambda>(a', s3). and_then (emit_expr mu items n r s3) (\<lambda>(b', s4). emit_binop NotEq a' b' sp s4))
         else emit_binop op a b sp s2) \<noteq> Inl OutOfFuel"
        using binop_fuel by simp
    qed
  qed
qed

abbreviation fueled_exprs :: "nat \<Rightarrow> item list \<Rightarrow> nat \<Rightarrow> expr list \<Rightarrow> bool" where
  "fueled_exprs mu items n es \<equiv> fueled n (\<lambda>s. emit_exprs mu items n es s)"

abbreviation fueled_stmt :: "nat \<Rightarrow> item list \<Rightarrow> nat \<Rightarrow> stmt \<Rightarrow> bool" where
  "fueled_stmt mu items n st \<equiv> fueled n (\<lambda>s. emit_stmt mu items n st s)"

lemma exprs_keeps: "keeps lcs_in (\<lambda>s. emit_exprs mu items n es s)"
  using lowering_keeps(2) by (intro keepsI) blast

lemma exprs_fuel:
  assumes e: "fueled_expr mu items n e" and es: "fueled_exprs mu items n es"
  shows "fueled_exprs mu items n (e # es)"
proof (rule fueledI)
  fix s assume s: "room n s"
  show "emit_exprs mu items n (e # es) s \<noteq> Inl OutOfFuel"
    unfolding emit_exprs.simps
  proof (rule fueled_then [OF e lowering_keeps(1) s], unfold prod.case)
    fix l s1 assume 1: "room n s1"
    show "and_then (emit_exprs mu items n es s1) (\<lambda>(ls, s2). Inr (l # ls, s2)) \<noteq> Inl OutOfFuel"
      by (rule fueled_then [OF es exprs_keeps 1]) simp
  qed
qed

text \<open>At a call the depth check leaves at least one unit, and the callee starts with one more active call.\<close>

lemma enter_call_room:
  assumes "room (Suc m) s" "lcs_in s ls"
  shows "room m (enter_call name ps ls s)"
proof -
  have S: "steps (push_call name (enter_scope s)) (enter_call name ps ls s)"
    using enter_call_steps [OF room_low [OF assms(1)]] assms(2) by (simp add: lcs_in_def)
  have "em_calls (enter_call name ps ls s) = em_calls s @ [name]" using stepsD(4) [OF S] by (simp add: push_call_def enter_scope_def)
  then show ?thesis using assms(1) stepsD(1) [OF S] by (simp add: room_def)
qed

lemma call_fuel:
  assumes as: "\<And>nm s1. f = Ident nm s1 \<Longrightarrow> length args = 2 \<or> nm \<noteq> ''poseidon_hash'' \<Longrightarrow> fueled_exprs mu items n args"
    and body: "\<And>m fd nm s1. n = Suc m \<Longrightarrow> f = Ident nm s1 \<Longrightarrow> nm \<noteq> ''poseidon_hash'' \<Longrightarrow> find_func nm items = Some fd \<Longrightarrow>
      fueled_stmts mu items m (block_stmts (fd_body fd))"
  shows "fueled_expr mu items n (Call f args sp)"
proof (rule fueledI)
  fix s assume s: "room n s"
  have "emit_expr mu items n (Call (Ident nm sp') args sp) s \<noteq> Inl OutOfFuel" if f: "f = Ident nm sp'" for nm sp'
  proof (cases "nm = ''poseidon_hash''")
    case True
    have "and_then (emit_exprs mu items n args s) (\<lambda>(as, s1). Inr (emit_poseidon_core (poseidon_t3_params_for (em_p s)) as s1)) \<noteq> Inl OutOfFuel" if "length args = 2"
      using fueledD [OF as [OF f] s] that by (auto simp: and_then_fuel_iff)
    then show ?thesis by (simp add: True)
  next
    case False
    have "and_then (emit_exprs mu items n args s) (\<lambda>(as, s1).
            and_then (check_recursion nm as sp s1) (\<lambda>_.
            case find_func nm items of
              None \<Rightarrow> Inl (UndefinedFunction nm (sp_line sp))
            | Some fd \<Rightarrow>
                (case n of
                   0 \<Rightarrow> Inl OutOfFuel
                 | Suc m \<Rightarrow>
                     and_then (in_scope (\<lambda>s'. emit_stmts mu items m None (block_stmts (fd_body fd)) s')
                        (enter_call nm (fd_params fd) as s1)) (leave_call nm sp)))) \<noteq> Inl OutOfFuel"
    proof (rule fueled_then [OF as exprs_keeps s], unfold prod.case)
      show "f = Ident nm sp'" "length args = 2 \<or> nm \<noteq> ''poseidon_hash''" using f False by simp_all
      fix ls s1 assume 1: "lcs_in s1 ls" "room n s1"
      have depth: "n \<noteq> 0" if "check_recursion nm ls sp s1 = Inr u" for u
        using that 1(2) by (auto simp: check_recursion_def room_def split: if_splits)
      have rec: "check_recursion nm ls sp s1 \<noteq> Inl OutOfFuel" by (simp add: check_recursion_def)
      have leave: "leave_call nm sp r \<noteq> Inl OutOfFuel" for r by (simp add: leave_call_def split: option.split)
      have run: "in_scope (\<lambda>s'. emit_stmts mu items m None (block_stmts (fd_body fd)) s') (enter_call nm (fd_params fd) ls s1) \<noteq> Inl OutOfFuel"
        if "n = Suc m" "find_func nm items = Some fd" for m fd
        using fueledD [OF block_both(1) [OF body [OF that(1) f False that(2)]] enter_call_room] 1 that(1) by blast
      show "and_then (check_recursion nm ls sp s1) (\<lambda>_.
            case find_func nm items of
              None \<Rightarrow> Inl (UndefinedFunction nm (sp_line sp))
            | Some fd \<Rightarrow>
                (case n of
                   0 \<Rightarrow> Inl OutOfFuel
                 | Suc m \<Rightarrow>
                     and_then (in_scope (\<lambda>s'. emit_stmts mu items m None (block_stmts (fd_body fd)) s')
                        (enter_call nm (fd_params fd) ls s1)) (leave_call nm sp))) \<noteq> Inl OutOfFuel"
        using depth rec leave run by (auto simp: and_then_fuel_iff split: option.splits nat.splits)
    qed
    then show ?thesis by (simp add: False)
  qed
  then show "emit_expr mu items n (Call f args sp) s \<noteq> Inl OutOfFuel" by (cases f) simp_all
qed

lemma index_fuel:
  assumes "fueled_expr mu items n i"
  shows "fueled_expr mu items n (Index b i sp)"
proof (rule fueledI)
  fix s assume "room n s"
  then show "emit_expr mu items n (Index b i sp) s \<noteq> Inl OutOfFuel"
    using fueledD [OF assms] by (cases b) (auto simp: and_then_fuel_iff split: option.splits)
qed

lemma let_fuel:
  assumes "\<And>e. init = Some e \<Longrightarrow> fueled_expr mu items n e"
  shows "fueled_stmt mu items n (Let a t init c z b sp)"
  using fueledD [OF assms] by (auto intro!: fueledI simp: and_then_fuel_iff bounds_fuel split: option.splits)

lemma expr_keeps: "keeps lc_in (\<lambda>s. emit_expr mu items n e s)"
  by (rule lowering_keeps(1))

lemma assign_fuel:
  assumes v: "\<And>nm s1. t = Ident nm s1 \<Longrightarrow> fueled_expr mu items n v"
    and lr: "\<And>nm s1 l op r s2. t = Ident nm s1 \<Longrightarrow> v = BinaryOp l op r s2 \<Longrightarrow> fueled_expr mu items n l \<and> fueled_expr mu items n r"
  shows "fueled_stmt mu items n (Assign t v sp)"
proof (rule fueledI)
  fix s assume s: "room n s"
  have bin: "assign_binary nm l op r (\<lambda>s. emit_expr mu items n l s) (\<lambda>s. emit_expr mu items n r s) (\<lambda>s. emit_expr mu items n v s) s \<noteq> Inl OutOfFuel"
    if "t = Ident nm s1" "v = BinaryOp l op r s2" for nm s1 l op r s2
    using assign_binary_fuel [OF expr_keeps expr_keeps _ _ v [OF that(1)] s] lr [OF that] by blast
  have plain: "and_then (emit_expr mu items n v s) (\<lambda>(l, s1). Inr (None, assign_value nm l s1)) \<noteq> Inl OutOfFuel"
    if "t = Ident nm s1" for nm s1
    using fueledD [OF v [OF that] s] by (auto simp: and_then_fuel_iff)
  show "emit_stmt mu items n (Assign t v sp) s \<noteq> Inl OutOfFuel"
    using bin plain by (auto simp del: emit_expr.simps split: expr.splits)
qed

lemma compound_fuel:
  assumes "\<And>nm s1. t = Ident nm s1 \<Longrightarrow> fueled_expr mu items n t \<and> fueled_expr mu items n v \<and> fueled_expr mu items n (BinaryOp t op v sp)"
  shows "fueled_stmt mu items n (CompoundAssign t op v sp)"
proof (rule fueledI)
  fix s assume s: "room n s"
  show "emit_stmt mu items n (CompoundAssign t op v sp) s \<noteq> Inl OutOfFuel"
    using assign_binary_fuel [OF expr_keeps expr_keeps _ _ _ s] assms by (auto simp del: emit_expr.simps split: expr.splits)
qed

lemma for_fuel:
  assumes a: "fueled_expr mu items n a" and b: "fueled_expr mu items n b" and st: "\<And>e. st = Some e \<Longrightarrow> fueled_expr mu items n e"
    and body: "fueled_stmts mu items n (block_stmts body)"
  shows "fueled_stmt mu items n (For var a b st body iv u tile pf sp)"
proof (rule fueledI)
  fix s assume s: "room n s"
  show "emit_stmt mu items n (For var a b st body iv u tile pf sp) s \<noteq> Inl OutOfFuel"
    unfolding emit_stmt.simps
  proof (rule fueled_then [OF a expr_keeps s], unfold prod.case)
    fix al s1 assume s1: "room n s1"
    show "and_then (emit_expr mu items n b s1) (\<lambda>(bl, s2).
       case lc_is_constant (em_p s2) al of
         None \<Rightarrow> Inl (LoopStart (sp_line sp))
       | Some first \<Rightarrow>
         (case lc_is_constant (em_p s2) bl of
            None \<Rightarrow> Inl (LoopEnd (sp_line sp))
          | Some last_v \<Rightarrow>
              and_then (case st of
                  None \<Rightarrow> Inr (1, s2)
                | Some e \<Rightarrow> and_then (emit_expr mu items n e s2) (\<lambda>(l, s3).
                    case lc_is_constant (em_p s3) l of None \<Rightarrow> Inl (LoopStep (sp_line sp)) | Some c \<Rightarrow> Inr (c, s3)))
                (\<lambda>(step, s3). unroll mu mu var (\<lambda>s. emit_stmts mu items n None (block_stmts body) s) step last_v sp first None s3))) \<noteq> Inl OutOfFuel"
    proof (rule fueled_then [OF b expr_keeps s1], unfold prod.case)
      fix bl s2 assume s2: "room n s2"
      have step_keeps: "keeps (\<lambda>_ _. True) (\<lambda>s2. case st of None \<Rightarrow> Inr (1, s2)
                | Some e \<Rightarrow> and_then (emit_expr mu items n e s2) (\<lambda>(l, s3).
                    case lc_is_constant (em_p s3) l of None \<Rightarrow> Inl (LoopStep (sp_line sp)) | Some c \<Rightarrow> Inr (c, s3)))"
        using keepsD [OF expr_keeps] by (intro keepsI) (auto simp: and_then_Inr_iff steps_refl split: option.splits)
      have step_fuel: "fueled n (\<lambda>s2. case st of None \<Rightarrow> Inr (1, s2)
                | Some e \<Rightarrow> and_then (emit_expr mu items n e s2) (\<lambda>(l, s3).
                    case lc_is_constant (em_p s3) l of None \<Rightarrow> Inl (LoopStep (sp_line sp)) | Some c \<Rightarrow> Inr (c, s3)))"
        using fueledD [OF st] by (intro fueledI) (auto simp: and_then_fuel_iff split: option.splits)
      have "and_then (case st of None \<Rightarrow> Inr (1, s2)
                | Some e \<Rightarrow> and_then (emit_expr mu items n e s2) (\<lambda>(l, s3).
                    case lc_is_constant (em_p s3) l of None \<Rightarrow> Inl (LoopStep (sp_line sp)) | Some c \<Rightarrow> Inr (c, s3)))
                (\<lambda>(step, s3). unroll mu mu var (\<lambda>s. emit_stmts mu items n None (block_stmts body) s) step last_v sp first None s3) \<noteq> Inl OutOfFuel"
        if "lc_is_constant (em_p s2) al = Some first" for first last_v
      proof (rule fueled_then [OF step_fuel step_keeps s2], unfold prod.case)
        fix step s3 assume "steps s2 s3" "room n s3"
        then show "unroll mu mu var (\<lambda>s. emit_stmts mu items n None (block_stmts body) s) step last_v sp first None s3 \<noteq> Inl OutOfFuel"
          using unroll_fuel [OF keeps_block [OF lowering_keeps(4)] fueled_block [OF body]] const_range [OF steps_refl [OF room_low [OF s2]] that] stepsD(3) [of s2 s3] by simp
      qed
      then show "(case lc_is_constant (em_p s2) al of
         None \<Rightarrow> Inl (LoopStart (sp_line sp))
       | Some first \<Rightarrow>
         (case lc_is_constant (em_p s2) bl of
            None \<Rightarrow> Inl (LoopEnd (sp_line sp))
          | Some last_v \<Rightarrow>
              and_then (case st of
                  None \<Rightarrow> Inr (1, s2)
                | Some e \<Rightarrow> and_then (emit_expr mu items n e s2) (\<lambda>(l, s3).
                    case lc_is_constant (em_p s3) l of None \<Rightarrow> Inl (LoopStep (sp_line sp)) | Some c \<Rightarrow> Inr (c, s3)))
                (\<lambda>(step, s3). unroll mu mu var (\<lambda>s. emit_stmts mu items n None (block_stmts body) s) step last_v sp first None s3))) \<noteq> Inl OutOfFuel"
        by (cases "lc_is_constant (em_p s2) al"; cases "lc_is_constant (em_p s2) bl") simp_all
    qed
  qed
qed

lemma if_fuel:
  assumes c: "fueled_expr mu items n c" and tb: "fueled_stmts mu items n (block_stmts tb)"
    and eb: "\<And>b. eb = Some b \<Longrightarrow> fueled_stmts mu items n (block_stmts b)"
  shows "fueled_stmt mu items n (If c tb eb u sp)"
proof (rule fueledI)
  fix s assume s: "room n s"
  show "emit_stmt mu items n (If c tb eb u sp) s \<noteq> Inl OutOfFuel"
    unfolding emit_stmt.simps
  proof (rule fueled_then [OF c expr_keeps s], unfold prod.case)
    fix cl s1 assume 1: "room n s1" and cl: "lc_in s1 cl"
    have els: "fueled n f" if "(case eb of Some b \<Rightarrow> Some (in_scope (\<lambda>s. emit_stmts mu items n None (block_stmts b) s)) | None \<Rightarrow> None) = Some f" for f
      using that block_both(1) eb by (auto split: option.splits)
    have alone: "in_scope (\<lambda>s. emit_stmts mu items n None (block_stmts b) s) s1 \<noteq> Inl OutOfFuel" if "eb = Some b" for b
      using fueledD [OF block_both(1) [OF eb [OF that]] 1] .
    show "(case lc_is_constant (em_p s1) cl of
         Some v \<Rightarrow>
           if v \<noteq> 0 then in_scope (\<lambda>s. emit_stmts mu items n None (block_stmts tb) s) s1
           else (case eb of
                   Some b \<Rightarrow> in_scope (\<lambda>s. emit_stmts mu items n None (block_stmts b) s) s1
                 | None \<Rightarrow> Inr (None, s1))
       | None \<Rightarrow>
           emit_branch cl (in_scope (\<lambda>s. emit_stmts mu items n None (block_stmts tb) s))
             (case eb of
                Some b \<Rightarrow> Some (in_scope (\<lambda>s. emit_stmts mu items n None (block_stmts b) s))
              | None \<Rightarrow> None) sp s1) \<noteq> Inl OutOfFuel"
    proof (cases "lc_is_constant (em_p s1) cl")
      case None
      then show ?thesis using emit_branch_fuel [OF block_both(2,1) els 1 cl] tb by auto
    next
      case (Some v)
      then show ?thesis using fueledD [OF block_both(1) [OF tb] 1] alone by (cases eb) simp_all
    qed
  qed
qed

lemma stmts_fuel:
  assumes st: "fueled_stmt mu items n st" and ss: "fueled_stmts mu items n ss"
  shows "fueled_stmts mu items n (st # ss)"
proof (intro allI impI)
  fix acc s assume acc: "ret_ok s acc" and s: "room n s"
  have "and_then (emit_stmt mu items n st s) (\<lambda>(here, s1).
        (let (acc', s2) = seq_returns acc here (stmt_span st) s1 in emit_stmts mu items n acc' ss s2)) \<noteq> Inl OutOfFuel"
  proof (rule fueled_then [OF st lowering_keeps(3) s], unfold prod.case)
    fix here s1 assume h: "steps s s1" "ret_ok s1 here" "room n s1"
    obtain acc' s2 where q: "seq_returns acc here (stmt_span st) s1 = (acc', s2)" by force
    have "steps s1 s2 \<and> ret_ok s2 acc'" using seq_returns_steps [OF stepsD(1) [OF h(1)] steps_ret [OF h(1) acc] h(2) q] .
    then show "(let (acc', s2) = seq_returns acc here (stmt_span st) s1 in emit_stmts mu items n acc' ss s2) \<noteq> Inl OutOfFuel"
      using ss room_steps [OF h(3)] by (simp add: q)
  qed
  then show "emit_stmts mu items n acc (st # ss) s \<noteq> Inl OutOfFuel" by simp
qed

lemma return_fuel: "(\<And>e. q = Some e \<Longrightarrow> fueled_expr mu items n e) \<Longrightarrow> fueled_stmt mu items n (Return q sp)"
  using fueledD by (fastforce intro!: fueledI simp: and_then_fuel_iff split: option.splits)

lemma hint_fuel:
  assumes "fueled_stmts mu items n (block_stmts body)"
  shows "fueled_stmt mu items n (HintBlock outs body sp)"
  using fueledD [OF in_scope_fueled [OF block_both(1) [OF assms]]] by (auto intro!: fueledI simp: and_then_fuel_iff)

lemma trivial_fuel: "(\<And>s. f s \<noteq> Inl OutOfFuel) \<Longrightarrow> fueled n f"
  by (simp add: fueled_def)

theorem lowering_fueled:
  "fueled_expr mu items n e" "fueled_exprs mu items n es" "fueled_stmt mu items n st" "fueled_stmts mu items n ss"
proof (induction n e and n es and n st and n ss rule: lowering_induct [where items = items])
  case (1 n e)
  then show ?case by (intro trivial_fuel) (cases e; auto split: option.split)
next
  case (2 n l op r sp)
  then show ?case by (rule binary_fuel)
next
  case (3 n f as sp)
  then show ?case by (rule call_fuel)
next
  case (4 n b i sp)
  then show ?case by (rule index_fuel)
next
  case (6 n e es)
  then show ?case by (rule exprs_fuel)
next
  case (7 n a t init c z b sp)
  then show ?case by (rule let_fuel)
next
  case (8 n t v sp)
  then show ?case by (rule assign_fuel)
next
  case (9 n t op v sp)
  then show ?case by (rule compound_fuel)
next
  case (10 n var a b st body iv u tile pf sp)
  then show ?case by (rule for_fuel)
next
  case (11 n c tb eb u sp)
  then show ?case by (rule if_fuel)
next
  case (12 n r sp)
  then show ?case by (rule return_fuel)
next
  case (13 n e)
  then show ?case using fueledD by (fastforce intro!: fueledI simp: and_then_fuel_iff)
next
  case (14 n outs body sp)
  then show ?case by (rule hint_fuel)
next
  case (15 n b sp)
  then show ?case using block_both(1) by simp
next
  case (16 n b sp)
  then show ?case using block_both(1) by simp
next
  case (25 n st ss)
  then show ?case by (rule stmts_fuel)
qed (simp_all add: trivial_fuel)

end
