(* ===== verification/ZkLowerEntry.thy ===== *)
theory ZkLowerEntry
  imports ZkLowerFuel
begin

text \<open>
  The entry of the lowering: the parameters of the entry function become the private inputs, its
  return value the output. What \<open>emit_circuit_entry\<close> delivers is a well-formed circuit, ready for
  the optimiser.
\<close>

section \<open>Inputs\<close>

lemma bind_input_low:
  assumes "low_ok s"
  shows "low_ok (bind_input q s)" "em_prv (bind_input q s) = em_prv s @ [em_next s]" "em_next (bind_input q s) = Suc (em_next s)"
    "em_pub (bind_input q s) = em_pub s" "em_outs (bind_input q s) = em_outs s" "em_cons (bind_input q s) = em_cons s"
    "em_p (bind_input q s) = em_p s" "em_calls (bind_input q s) = em_calls s" "em_consts (bind_input q s) = em_consts s"
    "em_hints (bind_input q s) = em_hints s" "length (em_scopes (bind_input q s)) = length (em_scopes s)"
proof -
  obtain w s1 where w: "new_wire (par_name q) s = (w, s1)" by force
  note N = new_wire_steps [OF assms w]
  have s1: "w = em_next s" "s1 = s\<lparr>em_next := em_next s + 1, em_vars := em_vars s @ [par_name q @ ''_'' @ nat_dec (em_next s)]\<rparr>"
    using w by (auto simp: new_wire_eq)
  let ?s2 = "s1\<lparr>em_prv := em_prv s1 @ [w]\<rparr>"
  have in2: "lc_in ?s2 l = lc_in s1 l" for l by (simp add: lc_in_def)
  have "wires_ok ?s2" using low_okD(2) [OF stepsD(1), OF conjunct1 [OF N]] s1 by (simp add: wires_ok_def boundary_of_def)
  moreover have "bindings_ok ?s2 = bindings_ok s1" by (simp add: fun_eq_iff bindings_ok_def scope_ok_def in2)
  ultimately have low: "low_ok ?s2" using stepsD(1) [OF conjunct1 [OF N]] by (simp add: low_ok_def)
  have B: "steps ?s2 (bind (par_name q) (Wire w) ?s2)"
    using bind_steps [OF steps_refl [OF low]] N in2 by (simp add: binding_lc_def)
  have e: "bind_input q s = bind (par_name q) (Wire w) ?s2" by (simp add: bind_input_def w)
  show "low_ok (bind_input q s)" using stepsD(1) [OF B] e by simp
  show "em_prv (bind_input q s) = em_prv s @ [em_next s]" "em_next (bind_input q s) = Suc (em_next s)"
    "em_pub (bind_input q s) = em_pub s" "em_outs (bind_input q s) = em_outs s" "em_cons (bind_input q s) = em_cons s"
    "em_p (bind_input q s) = em_p s" "em_calls (bind_input q s) = em_calls s" "em_consts (bind_input q s) = em_consts s"
    "em_hints (bind_input q s) = em_hints s" "length (em_scopes (bind_input q s)) = length (em_scopes s)"
    unfolding e s1 by (simp_all add: bind_def)
qed

lemma bind_inputs_low:
  "low_ok s \<Longrightarrow> low_ok (fold bind_input ps s) \<and>
     em_prv (fold bind_input ps s) = em_prv s @ [em_next s ..< em_next s + length ps] \<and>
     em_next (fold bind_input ps s) = em_next s + length ps \<and>
     em_pub (fold bind_input ps s) = em_pub s \<and> em_outs (fold bind_input ps s) = em_outs s \<and> em_cons (fold bind_input ps s) = em_cons s \<and>
     em_p (fold bind_input ps s) = em_p s \<and> em_calls (fold bind_input ps s) = em_calls s \<and> em_consts (fold bind_input ps s) = em_consts s \<and>
     em_hints (fold bind_input ps s) = em_hints s \<and> length (em_scopes (fold bind_input ps s)) = length (em_scopes s)"
proof (induction ps arbitrary: s)
  case (Cons q ps)
  note B = bind_input_low [OF Cons.prems, of q]
  show ?case using Cons.IH [OF B(1)] B by (simp add: upt_conv_Cons del: upt_Suc)
qed simp

section \<open>The output\<close>

lemma output_low:
  assumes "low_ok s" "lc_in s l"
  shows "wires_ok (emit_output sp l s)" "em_outs (emit_output sp l s) = em_outs s @ [em_next s]" "em_pub (emit_output sp l s) = em_pub s"
    "em_prv (emit_output sp l s) = em_prv s" "em_p (emit_output sp l s) = em_p s" "em_next (emit_output sp l s) = Suc (em_next s)"
    "sat (emit_output sp l s) \<sigma> \<longleftrightarrow> sat s \<sigma> \<and> val s \<sigma> l = \<sigma> (em_next s) mod em_p s"
proof -
  obtain w s1 where w: "new_wire ''out_ret'' s = (w, s1)" by force
  note N = new_wire_steps [OF assms(1) w]
  have low1: "low_ok s1" using stepsD(1) N by blast
  have s1: "w = em_next s" "s1 = s\<lparr>em_next := em_next s + 1, em_vars := em_vars s @ [''out_ret'' @ ''_'' @ nat_dec (em_next s)]\<rparr>"
    using w by (auto simp: new_wire_eq)
  let ?s2 = "s1\<lparr>em_outs := em_outs s1 @ [w]\<rparr>"
  let ?c = "\<lparr>con_a = l, con_b = lc_constant 1, con_c = lc_variable w, con_span = Some sp\<rparr>"
  have in2: "lc_in ?s2 x = lc_in s1 x" for x by (simp add: lc_in_def)
  have ok2: "wires_ok ?s2" using low_okD(2) [OF low1] s1 by (simp add: wires_ok_def boundary_of_def)
  have ins: "lc_in s1 l" "lc_in s1 (lc_constant 1)" "lc_in s1 (lc_variable w)"
    using N steps_in assms(2) const_in [OF low1] low_okD(6) [OF low1] by auto
  have e: "emit_output sp l s = add_constraint ?c ?s2" by (simp add: emit_output_def w)
  have cons: "em_cons (emit_output sp l s) = em_cons s @ [?c]" unfolding e by (simp add: s1)
  show f: "em_outs (emit_output sp l s) = em_outs s @ [em_next s]" "em_pub (emit_output sp l s) = em_pub s"
    "em_prv (emit_output sp l s) = em_prv s" "em_p (emit_output sp l s) = em_p s" "em_next (emit_output sp l s) = Suc (em_next s)"
    unfolding e by (simp_all add: s1 add_constraint_def Let_def)
  show "wires_ok (emit_output sp l s)"
    unfolding e using wires_ok_extend [OF ok2, of "add_constraint ?c ?s2" "[?c]"] ins by (simp add: lc_in_def)
  have v: "val s \<sigma> (lc_constant 1) = 1" if "\<sigma> 0 = 1" using val_const [where \<sigma> = \<sigma>, OF that, of s 1] low_okD(6) [OF assms(1)] by simp
  have vw: "val s \<sigma> (lc_variable w) = \<sigma> (em_next s) mod em_p s" by (simp add: val_var s1)
  have "sat (emit_output sp l s) \<sigma> \<longleftrightarrow> sat s \<sigma> \<and> con_sat (em_p s) \<sigma> ?c"
    by (auto simp: sat_def cons f cons_sat_def)
  also have "\<dots> \<longleftrightarrow> sat s \<sigma> \<and> val s \<sigma> l = \<sigma> (em_next s) mod em_p s"
    using v vw val_small [OF low_okD(5) [OF assms(1)]] sat_0 [of s \<sigma>] by (auto simp: con_sat_val)
  finally show "sat (emit_output sp l s) \<sigma> \<longleftrightarrow> sat s \<sigma> \<and> val s \<sigma> l = \<sigma> (em_next s) mod em_p s" .
qed

section \<open>The entry function\<close>

text \<open>The state in which the body of the entry function is lowered.\<close>

definition entry_state :: "func_decl \<Rightarrow> em \<Rightarrow> em" where
  "entry_state f s = fold bind_input (fd_params f) (push_call (fd_name f) s)"

lemma entry_state_low:
  assumes "low_ok s"
  shows "low_ok (entry_state f s)" "em_p (entry_state f s) = em_p s" "em_calls (entry_state f s) = em_calls s @ [fd_name f]"
    "em_pub (entry_state f s) = em_pub s" "em_outs (entry_state f s) = em_outs s" "em_consts (entry_state f s) = em_consts s"
    "em_prv (entry_state f s) = em_prv s @ [em_next s ..< em_next s + length (fd_params f)]"
    "em_next (entry_state f s) = em_next s + length (fd_params f)"
proof -
  have "low_ok (push_call (fd_name f) s)" using assms by (simp add: push_call_def)
  note B = bind_inputs_low [OF this, of "fd_params f"]
  then show "low_ok (entry_state f s)" "em_p (entry_state f s) = em_p s" "em_calls (entry_state f s) = em_calls s @ [fd_name f]"
    "em_pub (entry_state f s) = em_pub s" "em_outs (entry_state f s) = em_outs s" "em_consts (entry_state f s) = em_consts s"
    "em_prv (entry_state f s) = em_prv s @ [em_next s ..< em_next s + length (fd_params f)]"
    "em_next (entry_state f s) = em_next s + length (fd_params f)"
    by (simp_all add: entry_state_def push_call_def)
qed

text \<open>What the entry point does: it lowers the body and, when the body may return, adds an output.\<close>

lemma entry_runs:
  assumes "emit_circuit_entry mu items f s = Inr s'"
  obtains r s1 where "in_scope (\<lambda>s. emit_stmts mu items call_fuel None (block_stmts (fd_body f)) s) (entry_state f s) = Inr (r, s1)"
    "s' = pop_call (case r of Some x \<Rightarrow> emit_output (fd_span f) (ret_value x) s1 | None \<Rightarrow> s1)"
proof -
  obtain r s1 where b: "in_scope (\<lambda>s. emit_stmts mu items call_fuel None (block_stmts (fd_body f)) s) (entry_state f s) = Inr (r, s1)"
    and k: "(let s2 = (case r of Some x \<Rightarrow> emit_output (fd_span f) (ret_value x) s1 | None \<Rightarrow> s1)
        in case em_hints s2 of (_, (name, sp)) # _ \<Rightarrow> Inl (UnderConstrained name (sp_line sp)) | [] \<Rightarrow> Inr (pop_call s2)) = Inr s'"
    using assms unfolding emit_circuit_entry_def entry_state_def [symmetric] by (rule and_thenE) simp
  have "s' = pop_call (case r of Some x \<Rightarrow> emit_output (fd_span f) (ret_value x) s1 | None \<Rightarrow> s1)"
    using k by (simp add: Let_def split: list.splits prod.splits)
  then show ?thesis using that b by blast
qed

lemma pop_call_frame [simp]:
  "wires_ok (pop_call s) = wires_ok s" "em_p (pop_call s) = em_p s" "em_pub (pop_call s) = em_pub s" "em_prv (pop_call s) = em_prv s"
  "em_outs (pop_call s) = em_outs s" "sat (pop_call s) \<sigma> = sat s \<sigma>" "em_next (pop_call s) = em_next s" "em_cons (pop_call s) = em_cons s"
  by (simp_all add: pop_call_def rebind sat_def)

lemma body_steps:
  assumes "low_ok s" "in_scope (\<lambda>s. emit_stmts mu items n None (block_stmts b) s) s = Inr (r, s1)"
  shows "steps s s1 \<and> ret_ok s1 r"
  using keepsD [OF keeps_in_scope [OF keeps_block [OF lowering_keeps(4)]] assms(2,1)] .

lemma entry_well_formed:
  assumes s: "low_ok s" and e: "emit_circuit_entry mu items f s = Inr s'"
  shows "wires_ok s' \<and> em_p s' = em_p s \<and>
    (\<exists>w. boundary_of s' = em_pub s @ em_prv s @ [em_next s ..< em_next s + length (fd_params f)] @ em_outs s @ w \<and> length w \<le> 1)"
proof -
  obtain r s1 where b: "in_scope (\<lambda>s. emit_stmts mu items call_fuel None (block_stmts (fd_body f)) s) (entry_state f s) = Inr (r, s1)"
    and s': "s' = pop_call (case r of Some x \<Rightarrow> emit_output (fd_span f) (ret_value x) s1 | None \<Rightarrow> s1)"
    using e by (rule entry_runs)
  note E = entry_state_low [OF s, of f]
  have B: "steps (entry_state f s) s1" "ret_ok s1 r" using body_steps [OF E(1) b] by simp_all
  note low1 = stepsD(1) [OF B(1)]
  have bd: "boundary_of s1 = em_pub s @ em_prv s @ [em_next s ..< em_next s + length (fd_params f)] @ em_outs s" "em_p s1 = em_p s"
    using stepsD(2,3) [OF B(1)] E by (simp_all add: grows_def boundary_of_def)
  show ?thesis
  proof (cases r)
    case None
    then show ?thesis using bd low_okD(2) [OF low1] by (simp add: s' boundary_of_def)
  next
    case (Some x)
    then have l: "lc_in s1 (ret_value x)" using B(2) by (simp add: ret_ok_def ret_in_def)
    have "boundary_of s' = boundary_of s1 @ [em_next s1]" using output_low [OF low1 l] Some by (simp add: s' boundary_of_def)
    then show ?thesis using output_low [OF low1 l] bd Some by (intro conjI exI [of _ "[em_next s1]"]) (simp_all add: s')
  qed
qed

theorem entry_fueled:
  assumes "low_ok s" "em_calls s = []"
  shows "emit_circuit_entry mu items f s \<noteq> Inl OutOfFuel"
proof -
  note E = entry_state_low [OF assms(1), of f]
  have "room call_fuel (entry_state f s)" using E(1,3) assms(2) by (simp add: room_def call_fuel_def)
  then have "in_scope (\<lambda>s. emit_stmts mu items call_fuel None (block_stmts (fd_body f)) s) (entry_state f s) \<noteq> Inl OutOfFuel"
    using fueledD [OF block_both(1) [OF lowering_fueled(4)]] by blast
  then show ?thesis unfolding emit_circuit_entry_def entry_state_def [symmetric]
    by (auto simp: and_then_fuel_iff Let_def split: list.splits prod.splits)
qed

end
