(* ===== verification/ZkLowerSem.thy ===== *)
theory ZkLowerSem
  imports ZkLowerEntry
begin

text \<open>
  What a circuit program means: a big-step evaluation over the field for the fragment without
  calls of user functions, with the scopes of the language. An undefined result is \<open>None\<close>. It is
  the specification the lowering is compared with. The second half says what a circuit under
  construction knows of an execution.
\<close>

section \<open>Environments\<close>

text \<open>The innermost scope comes first.\<close>

type_synonym env = "(string \<rightharpoonup> int) list"

fun env_get :: "env \<Rightarrow> string \<Rightarrow> int option" where
  "env_get [] n = None"
| "env_get (e # E) n = (case e n of Some v \<Rightarrow> Some v | None \<Rightarrow> env_get E n)"

fun env_set :: "string \<Rightarrow> int \<Rightarrow> env \<Rightarrow> env option" where
  "env_set n v [] = None"
| "env_set n v (e # E) = (if e n \<noteq> None then Some (e(n \<mapsto> v) # E) else map_option ((#) e) (env_set n v E))"

fun env_declare :: "string \<Rightarrow> int \<Rightarrow> env \<Rightarrow> env" where
  "env_declare n v [] = []"
| "env_declare n v (e # E) = e(n \<mapsto> v) # E"

text \<open>An assignment to an unknown name declares it.\<close>

definition env_assign :: "string \<Rightarrow> int \<Rightarrow> env \<Rightarrow> env" where
  "env_assign n v E = (case env_set n v E of Some E' \<Rightarrow> E' | None \<Rightarrow> env_declare n v E)"

section \<open>Evaluation\<close>

fun eval :: "int \<Rightarrow> env \<Rightarrow> expr \<Rightarrow> int option" where
  "eval p E (IntLit v _) = Some (v mod 2 ^ 64 mod p)"
| "eval p E (BoolLit b _) = Some (of_bool b)"
| "eval p E (Ident n _) = env_get E n"
| "eval p E (BinaryOp l op r _) =
     (case (eval p E l, eval p E r) of
        (Some a, Some b) \<Rightarrow> if op_fits p op then Some (op_val p op a b) else None
      | _ \<Rightarrow> None)"
| "eval p E (Index (Ident n _) i _) =
     (case eval p E i of Some c \<Rightarrow> env_get E (indexed_name n c) | None \<Rightarrow> None)"
| "eval p E (Call (Ident n _) [x, y] _) =
     (if n = ''poseidon_hash'' then
        (case (eval p E x, eval p E y) of
           (Some a, Some b) \<Rightarrow> Some (poseidon_ref p (poseidon_t3_params_for p) a b)
         | _ \<Rightarrow> None)
      else None)"
| "eval p E _ = None"

text \<open>A block runs in a scope of its own.\<close>

definition exec_scoped :: "(env \<Rightarrow> (int option \<times> env) option) \<Rightarrow> env \<Rightarrow> (int option \<times> env) option" where
  "exec_scoped g E = map_option (\<lambda>(r, E'). (r, drop 1 E')) (g (Map.empty # E))"

text \<open>At most \<open>n\<close> iterations; the loop stops at a return.\<close>

fun exec_loop :: "int \<Rightarrow> nat \<Rightarrow> string \<Rightarrow> (env \<Rightarrow> (int option \<times> env) option) \<Rightarrow> int \<Rightarrow> int \<Rightarrow> int \<Rightarrow> env \<Rightarrow> (int option \<times> env) option" where
  "exec_loop p n var g step last_v cur E =
     (if \<not> cur < last_v then Some (None, E)
      else case n of
        0 \<Rightarrow> None
      | Suc m \<Rightarrow>
          (case exec_scoped (\<lambda>E. g (env_declare var cur E)) E of
             Some (None, E') \<Rightarrow> exec_loop p m var g step last_v ((cur + step) mod p) E'
           | r \<Rightarrow> r))"

declare exec_loop.simps [simp del]

definition exec_seq :: "(int option \<times> env) option \<Rightarrow> (env \<Rightarrow> (int option \<times> env) option) \<Rightarrow> (int option \<times> env) option" where
  "exec_seq r g = (case r of Some (None, E) \<Rightarrow> g E | _ \<Rightarrow> r)"

definition exec_assign :: "int \<Rightarrow> expr \<Rightarrow> expr \<Rightarrow> env \<Rightarrow> (int option \<times> env) option" where
  "exec_assign p t v E =
     (case t of
        Ident n _ \<Rightarrow> map_option (\<lambda>x. (None, env_assign n x E)) (eval p E v)
      | _ \<Rightarrow> None)"

function (sequential) exec_stmt :: "int \<Rightarrow> nat \<Rightarrow> stmt \<Rightarrow> env \<Rightarrow> (int option \<times> env) option"
  and exec_stmts :: "int \<Rightarrow> nat \<Rightarrow> stmt list \<Rightarrow> env \<Rightarrow> (int option \<times> env) option" where
  "exec_stmt p mu (Let n _ (Some e) _ _ _ _) E = map_option (\<lambda>v. (None, env_declare n v E)) (eval p E e)"
| "exec_stmt p mu (Assign t v _) E = exec_assign p t v E"
| "exec_stmt p mu (CompoundAssign t op v sp) E = exec_assign p t (BinaryOp t op v sp) E"
| "exec_stmt p mu (For var a b st body _ _ _ _ _) E =
     (case (eval p E a, eval p E b, case st of None \<Rightarrow> Some 1 | Some e \<Rightarrow> eval p E e) of
        (Some first, Some last_v, Some step) \<Rightarrow> exec_loop p mu var (exec_stmts p mu (block_stmts body)) step last_v first E
      | _ \<Rightarrow> None)"
| "exec_stmt p mu (If c tb eb _ _) E =
     (case eval p E c of
        None \<Rightarrow> None
      | Some v \<Rightarrow>
          if v \<noteq> 0 then exec_scoped (exec_stmts p mu (block_stmts tb)) E
          else (case eb of Some b \<Rightarrow> exec_scoped (exec_stmts p mu (block_stmts b)) E | None \<Rightarrow> Some (None, E)))"
| "exec_stmt p mu (Return (Some e) _) E = map_option (\<lambda>v. (Some v, E)) (eval p E e)"
| "exec_stmt p mu (Expr e) E = map_option (\<lambda>v. (None, E)) (eval p E e)"
| "exec_stmt p mu (SafeBlock b _) E = exec_scoped (exec_stmts p mu (block_stmts b)) E"
| "exec_stmt p mu (GhostBlock b _) E = exec_scoped (exec_stmts p mu (block_stmts b)) E"
| "exec_stmt p mu (TypeAlias _ _ _) E = Some (None, E)"
| "exec_stmt p mu (CompileTimeAssert _ _ _) E = Some (None, E)"
| "exec_stmt p mu _ E = None"
| "exec_stmts p mu [] E = Some (None, E)"
| "exec_stmts p mu (st # ss) E = exec_seq (exec_stmt p mu st E) (exec_stmts p mu ss)"
  by pat_completeness auto

termination
  by (relation "measure (case_sum (\<lambda>(_, _, st, _). 2 * size st + 1) (\<lambda>(_, _, ss, _). 2 * size_list size ss))")
    (auto simp: size_block_stmts)

section \<open>The fragment\<close>

text \<open>\<open>B\<close> holds the names that may be bound and \<open>K\<close> those that may have a recorded constant. A
  declaration takes a name that neither holds: a constant recorded for a name outlives its scope
  and later declarations, so only then is the constant sure to be the value.\<close>

fun plain :: "expr \<Rightarrow> bool" where
  "plain (BinaryOp l _ r _) = (plain l \<and> plain r)"
| "plain (Index _ i _) = plain i"
| "plain (Call f as _) = (case f of Ident n _ \<Rightarrow> n = ''poseidon_hash'' \<and> list_all plain as | _ \<Rightarrow> True)"
| "plain _ = True"

fun binds :: "stmt \<Rightarrow> string set" where
  "binds (Let n _ _ _ _ _ _) = {n}"
| "binds (Assign (Ident n _) _ _) = {n}"
| "binds (CompoundAssign (Ident n _) _ _ _) = {n}"
| "binds _ = {}"

function (sequential) names_of :: "stmt \<Rightarrow> string set"
  and names_in :: "stmt list \<Rightarrow> string set" where
  "names_of (For var _ _ _ body _ _ _ _ _) = insert var (names_in (block_stmts body))"
| "names_of (If _ tb eb _ _) = names_in (block_stmts tb) \<union> (case eb of Some b \<Rightarrow> names_in (block_stmts b) | None \<Rightarrow> {})"
| "names_of (SafeBlock b _) = names_in (block_stmts b)"
| "names_of (GhostBlock b _) = names_in (block_stmts b)"
| "names_of st = binds st"
| "names_in [] = {}"
| "names_in (st # ss) = names_of st \<union> names_in ss"
  by pat_completeness auto

termination
  by (relation "measure (case_sum (\<lambda>st. 2 * size st + 1) (\<lambda>ss. 2 * size_list size ss))") (auto simp: size_block_stmts)

function (sequential) fresh_stmt :: "string set \<Rightarrow> string set \<Rightarrow> stmt \<Rightarrow> bool"
  and fresh_stmts :: "string set \<Rightarrow> string set \<Rightarrow> stmt list \<Rightarrow> bool" where
  "fresh_stmt B K (Let n _ init _ _ _ _) = (n \<notin> B \<and> n \<notin> K \<and> (case init of Some e \<Rightarrow> plain e | None \<Rightarrow> True))"
| "fresh_stmt B K (Assign _ v _) = plain v"
| "fresh_stmt B K (CompoundAssign _ _ v _) = plain v"
| "fresh_stmt B K (For var a b st body _ _ _ _ _) =
     (plain a \<and> plain b \<and> (case st of Some e \<Rightarrow> plain e | None \<Rightarrow> True) \<and> var \<notin> B \<and>
      fresh_stmts (insert var B) (K \<union> insert var (names_in (block_stmts body))) (block_stmts body))"
| "fresh_stmt B K (If c tb eb _ _) =
     (plain c \<and> fresh_stmts B K (block_stmts tb) \<and>
      (case eb of Some b \<Rightarrow> fresh_stmts B K (block_stmts b) | None \<Rightarrow> True))"
| "fresh_stmt B K (Return r _) = (case r of Some e \<Rightarrow> plain e | None \<Rightarrow> True)"
| "fresh_stmt B K (Expr e) = plain e"
| "fresh_stmt B K (SafeBlock b _) = fresh_stmts B K (block_stmts b)"
| "fresh_stmt B K (GhostBlock b _) = fresh_stmts B K (block_stmts b)"
| "fresh_stmt B K (HintBlock _ _ _) = False"
| "fresh_stmt B K _ = True"
| "fresh_stmts B K [] = True"
| "fresh_stmts B K (st # ss) = (fresh_stmt B K st \<and> fresh_stmts (B \<union> binds st) (K \<union> names_of st) ss)"
  by pat_completeness auto

termination
  by (relation "measure (case_sum (\<lambda>(_, _, st). 2 * size st + 1) (\<lambda>(_, _, ss). 2 * size_list size ss))") (auto simp: size_block_stmts)

end
