(* ===== verification/ZkLowerSound.thy ===== *)
theory ZkLowerSound
  imports ZkLowerSem
begin

text \<open>
  The simulation between the lowering and the evaluation of \<open>ZkLowerSem\<close>: an assignment that
  satisfies the constraints gives every binding the value the program computes.
\<close>

section \<open>What a state knows of an execution\<close>

text \<open>The scopes of the circuit, read under an assignment, are an environment.\<close>

definition scope_env :: "int \<Rightarrow> (nat \<Rightarrow> int) \<Rightarrow> scope \<Rightarrow> string \<rightharpoonup> int" where
  "scope_env p \<sigma> sc = (\<lambda>n. map_option (\<lambda>b. lc_sum \<sigma> (binding_lc b) mod p) (map_of sc n))"

definition env_of :: "em \<Rightarrow> (nat \<Rightarrow> int) \<Rightarrow> env" where
  "env_of s \<sigma> = map (scope_env (em_p s) \<sigma>) (rev (em_scopes s))"

text \<open>The names each scope binds, innermost first.\<close>

definition shape :: "em \<Rightarrow> string set list" where
  "shape s = map (\<lambda>sc. dom (map_of sc)) (rev (em_scopes s))"

fun disjoint_sets :: "'a set list \<Rightarrow> bool" where
  "disjoint_sets [] = True"
| "disjoint_sets (A # As) = (A \<inter> \<Union>(set As) = {} \<and> disjoint_sets As)"

definition in_names :: "string set \<Rightarrow> string set \<Rightarrow> em \<Rightarrow> bool" where
  "in_names B K s \<longleftrightarrow> shape s \<noteq> [] \<and> disjoint_sets (shape s) \<and> \<Union>(set (shape s)) \<subseteq> B \<and> dom (em_consts s) \<subseteq> K"

text \<open>A recorded constant is the value of the name, as long as the name is visible.\<close>

definition consts_agree :: "(string \<rightharpoonup> int) \<Rightarrow> env \<Rightarrow> bool" where
  "consts_agree cs E \<longleftrightarrow> (\<forall>n c v. cs n = Some c \<longrightarrow> env_get E n = Some v \<longrightarrow> v = c)"

definition reads_ok :: "(nat \<Rightarrow> int) \<Rightarrow> em \<Rightarrow> env \<Rightarrow> bool" where
  "reads_ok \<sigma> s E \<longleftrightarrow> (\<forall>n l v. read_name n s = Some l \<longrightarrow> env_get E n = Some v \<longrightarrow> val s \<sigma> l = v)"

lemma scope_env_eq: "scope_env p \<sigma> sc n = (case map_of sc n of Some b \<Rightarrow> Some (lc_sum \<sigma> (binding_lc b) mod p) | None \<Rightarrow> None)"
  by (simp add: scope_env_def split: option.split)

lemma dom_scope_env [simp]: "dom (scope_env p \<sigma> sc) = dom (map_of sc)"
  by (auto simp: scope_env_def)

lemma env_get_map: "env_get (map (scope_env p \<sigma>) scs) n = map_option (\<lambda>b. lc_sum \<sigma> (binding_lc b) mod p) (lookup_rev scs n)"
  by (induction scs) (simp_all add: scope_env_eq split: option.splits)

lemma env_get_env_of: "env_get (env_of s \<sigma>) n = map_option (\<lambda>b. val s \<sigma> (binding_lc b)) (lookup s n)"
  by (simp add: env_of_def env_get_map ZkEmitter.lookup_def val_def)

lemma reads_env_of:
  assumes s: "low_ok s" and \<sigma>: "\<sigma> 0 = 1" and c: "consts_agree (em_consts s) (env_of s \<sigma>)"
  shows "reads_ok \<sigma> s (env_of s \<sigma>)"
  unfolding reads_ok_def
proof (intro allI impI)
  fix n l v assume r: "read_name n s = Some l" and v: "env_get (env_of s \<sigma>) n = Some v"
  show "val s \<sigma> l = v"
  proof (cases "em_consts s n")
    case None
    then show ?thesis using r v by (auto simp: read_name_def lookup_const_def env_get_env_of)
  next
    case (Some k)
    then have "v = k" "0 \<le> k \<and> k < em_p s" using c v low_okD(4) [OF s] by (simp_all add: consts_agree_def consts_ok_def)
    then show ?thesis using r Some val_const [where \<sigma> = \<sigma>, OF \<sigma>, of s k] by (simp add: read_name_def lookup_const_def)
  qed
qed

lemma shape_of_env: "shape s = map dom (env_of s \<sigma>)"
  by (simp add: shape_def env_of_def comp_def)

lemma in_namesD:
  assumes "in_names B K s"
  shows "shape s \<noteq> []" "disjoint_sets (shape s)" "\<Union>(set (shape s)) \<subseteq> B" "dom (em_consts s) \<subseteq> K" "em_scopes s \<noteq> []"
  using assms by (auto simp: in_names_def shape_def)

lemma in_names_mono: "in_names B K s \<Longrightarrow> B \<subseteq> B' \<Longrightarrow> K \<subseteq> K' \<Longrightarrow> in_names B' K' s"
  by (auto simp: in_names_def)

lemma steps_p: "steps s s' \<Longrightarrow> val s' \<sigma> l = val s \<sigma> l"
  by (simp add: val_def stepsD(3))

lemma steps_sat: "steps s s' \<Longrightarrow> sat s' \<sigma> \<Longrightarrow> sat s \<sigma>"
  using grows_sat stepsD(2) by blast

section \<open>Expressions\<close>

text \<open>A lowered expression changes no binding and denotes the value of the expression.\<close>

definition lowers_expr :: "(env \<Rightarrow> int option) \<Rightarrow> (em \<Rightarrow> lc emitted) \<Rightarrow> int \<Rightarrow> bool" where
  "lowers_expr g f p \<longleftrightarrow> keeps lc_in f \<and> (\<forall>s l s'. low_ok s \<longrightarrow> em_p s = p \<longrightarrow> f s = Inr (l, s') \<longrightarrow>
     em_scopes s' = em_scopes s \<and> em_consts s' = em_consts s \<and>
     (\<forall>\<sigma> E v. sat s' \<sigma> \<longrightarrow> reads_ok \<sigma> s E \<longrightarrow> g E = Some v \<longrightarrow> val s \<sigma> l = v))"

lemma lowers_exprD:
  assumes "lowers_expr g f p" "f s = Inr (l, s')" "low_ok s" "em_p s = p"
  shows "steps s s'" "lc_in s' l" "em_scopes s' = em_scopes s" "em_consts s' = em_consts s"
    "sat s' \<sigma> \<Longrightarrow> reads_ok \<sigma> s E \<Longrightarrow> g E = Some v \<Longrightarrow> val s \<sigma> l = v"
  using assms keepsD [of lc_in f s l s'] unfolding lowers_expr_def by blast+

lemma reads_ok_frame:
  assumes "steps s s'" "em_scopes s' = em_scopes s" "em_consts s' = em_consts s" "reads_ok \<sigma> s E"
  shows "reads_ok \<sigma> s' E"
proof -
  have "read_name n s' = read_name n s" for n using assms(2,3) by (simp add: read_name_def lookup_const_def ZkEmitter.lookup_def split: option.split)
  then show ?thesis using assms(4) steps_p [OF assms(1)] by (simp add: reads_ok_def)
qed

abbreviation sound_expr :: "nat \<Rightarrow> item list \<Rightarrow> nat \<Rightarrow> int \<Rightarrow> expr \<Rightarrow> bool" where
  "sound_expr mu items n p e \<equiv> lowers_expr (\<lambda>E. eval p E e) (\<lambda>s. emit_expr mu items n e s) p"

text \<open>An operator whose operands have been lowered.\<close>

lemma op_sound:
  assumes s: "low_ok s" and ab: "lc_in s a" "lc_in s b" and e: "emit_binop op a b sp s = Inr (l, s')"
  shows "steps s s'" "em_scopes s' = em_scopes s" "em_consts s' = em_consts s"
    "sat s' \<sigma> \<Longrightarrow> op_fits (em_p s) op \<Longrightarrow> val s \<sigma> l = op_val (em_p s) op (val s \<sigma> a) (val s \<sigma> b)"
proof -
  note L = binop_lowers [OF low_okD(1,2) [OF s] ab e]
  show "steps s s'" using lowers_steps [OF s L] by blast
  show "em_scopes s' = em_scopes s" "em_consts s' = em_consts s" using L by (simp_all add: lowers_def emits_def)
  show "sat s' \<sigma> \<Longrightarrow> op_fits (em_p s) op \<Longrightarrow> val s \<sigma> l = op_val (em_p s) op (val s \<sigma> a) (val s \<sigma> b)"
    using L by (simp add: lowers_def)
qed

lemma binary_sound:
  assumes l: "sound_expr mu items n p l" and r: "sound_expr mu items n p r"
  shows "sound_expr mu items n p (BinaryOp l op r sp)"
  unfolding lowers_expr_def
proof (intro conjI [OF lowering_keeps(1)] allI impI conjI)
  fix s x s' assume s: "low_ok s" and p: "em_p s = p" and e: "emit_expr mu items n (BinaryOp l op r sp) s = Inr (x, s')"
  obtain a s1 where a: "emit_expr mu items n l s = Inr (a, s1)" using e by (auto elim: and_thenE)
  note A = lowers_exprD [OF l a s p]
  have s1: "low_ok s1" "em_p s1 = p" using stepsD [OF A(1)] p by simp_all
  obtain b s2 where b: "emit_expr mu items n r s1 = Inr (b, s2)" using e a by (auto elim: and_thenE)
  note B = lowers_exprD [OF r b s1]
  have S2: "steps s s2" using steps_trans [OF A(1) B(1)] .
  have s2: "low_ok s2" "em_p s2 = p" using stepsD [OF S2] p by simp_all
  have fr2: "em_scopes s2 = em_scopes s" "em_consts s2 = em_consts s" using A B by simp_all
  have vals: "val s2 \<sigma> a = va" "val s2 \<sigma> b = vb"
    if "sat s2 \<sigma>" "reads_ok \<sigma> s E" "eval p E l = Some va" "eval p E r = Some vb" for \<sigma> E va vb
    using A(5) [OF steps_sat [OF B(1) that(1)] that(2,3)] B(5) [OF that(1) reads_ok_frame [OF A(1,3,4) that(2)] that(4)]
      steps_p [OF A(1)] steps_p [OF S2] by simp_all
  obtain t a' b' where t: "steps s t" "em_scopes t = em_scopes s" "em_consts t = em_consts s" "lc_in t a'" "lc_in t b'"
    and o: "emit_binop op a' b' sp t = Inr (x, s')"
    and v: "\<And>\<sigma> E va vb. sat t \<sigma> \<Longrightarrow> reads_ok \<sigma> s E \<Longrightarrow> eval p E l = Some va \<Longrightarrow> eval p E r = Some vb \<Longrightarrow> val t \<sigma> a' = va \<and> val t \<sigma> b' = vb"
  proof (cases "op = NotEq")
    case False
    have "emit_binop op a b sp s2 = Inr (x, s')" using e a b False by simp
    then show ?thesis using that [OF S2 fr2 steps_in [OF B(1) A(2)] B(2)] vals by blast
  next
    case True
    obtain a' s3 where a': "emit_expr mu items n l s2 = Inr (a', s3)" using e a b True by (auto elim: and_thenE)
    note A' = lowers_exprD [OF l a' s2]
    have s3: "low_ok s3" "em_p s3 = p" using stepsD [OF A'(1)] s2 by simp_all
    obtain b' s4 where b': "emit_expr mu items n r s3 = Inr (b', s4)" using e a b a' True by (auto elim: and_thenE)
    note B' = lowers_exprD [OF r b' s3]
    have S4: "steps s s4" using steps_trans [OF S2 steps_trans [OF A'(1) B'(1)]] .
    have o: "emit_binop op a' b' sp s4 = Inr (x, s')" using e a b a' b' True by simp
    have v: "val s4 \<sigma> a' = va \<and> val s4 \<sigma> b' = vb"
      if "sat s4 \<sigma>" "reads_ok \<sigma> s E" "eval p E l = Some va" "eval p E r = Some vb" for \<sigma> E va vb
    proof -
      have R2: "reads_ok \<sigma> s2 E" using reads_ok_frame [OF S2 fr2 that(2)] .
      then show ?thesis
        using A'(5) [OF steps_sat [OF B'(1) that(1)] R2 that(3)] B'(5) [OF that(1) reads_ok_frame [OF A'(1,3,4) R2] that(4)]
          steps_p [OF A'(1)] steps_p [OF B'(1)] by simp
    qed
    show ?thesis by (rule that [OF S4 _ _ steps_in [OF B'(1) A'(2)] B'(2) o v]) (use fr2 A' B' in simp_all)
  qed
  have t2: "low_ok t" "em_p t = p" using stepsD [OF t(1)] p by simp_all
  note O = op_sound [OF t2(1) t(4,5) o]
  have sound: "val s \<sigma> x = v" if sat: "sat s' \<sigma>" and rd: "reads_ok \<sigma> s E" and ev: "eval p E (BinaryOp l op r sp) = Some v" for \<sigma> E v
  proof -
    obtain va vb where ev': "eval p E l = Some va" "eval p E r = Some vb" "op_fits p op" "v = op_val p op va vb"
      using ev by (auto split: option.splits if_splits)
    show ?thesis using O(4) [OF sat] v [OF steps_sat [OF O(1) sat] rd ev'(1,2)] ev'(3,4) t2(2) steps_p [OF t(1)] by simp
  qed
  show "em_scopes s' = em_scopes s" "em_consts s' = em_consts s" using O t by simp_all
  show "val s \<sigma> x = v" if "sat s' \<sigma>" "reads_ok \<sigma> s E" "eval p E (BinaryOp l op r sp) = Some v" for \<sigma> E v
    using sound [OF that] .
qed

lemma lowers_expr_same:
  assumes "keeps lc_in f" "\<And>s l s'. low_ok s \<Longrightarrow> em_p s = p \<Longrightarrow> f s = Inr (l, s') \<Longrightarrow> s' = s"
    "\<And>s l \<sigma> E v. low_ok s \<Longrightarrow> em_p s = p \<Longrightarrow> f s = Inr (l, s) \<Longrightarrow> sat s \<sigma> \<Longrightarrow> reads_ok \<sigma> s E \<Longrightarrow> g E = Some v \<Longrightarrow> val s \<sigma> l = v"
  shows "lowers_expr g f p"
  unfolding lowers_expr_def using assms(1) assms(2,3) by blast

lemma leaf_sound:
  assumes "\<And>l op r sp. e \<noteq> BinaryOp l op r sp" "\<And>f as sp. e \<noteq> Call f as sp" "\<And>b i sp. e \<noteq> Index b i sp"
  shows "sound_expr mu items n p e"
proof (rule lowers_expr_same [OF lowering_keeps(1)])
  fix s l s' assume "emit_expr mu items n e s = Inr (l, s')"
  then show "s' = s" using assms by (cases e) (auto split: option.splits)
next
  fix s l \<sigma> E v
  assume s: "low_ok s" "em_p s = p" and e: "emit_expr mu items n e s = Inr (l, s)" and \<sigma>: "sat s \<sigma>" "reads_ok \<sigma> s E" and v: "eval p E e = Some v"
  have c: "val s \<sigma> (lc_constant k) = k mod p" for k using val_const [where \<sigma> = \<sigma>, OF sat_0 [OF \<sigma>(1)]] s(2) by simp
  show "val s \<sigma> l = v"
  proof (cases e)
    case (Ident name sp)
    then show ?thesis using e v \<sigma>(2) by (auto simp: reads_ok_def split: option.splits)
  next
    case (IntLit k sp)
    then show ?thesis using e v s(2) c by (auto simp: fr_from_u64_def)
  next
    case (BoolLit b sp)
    then show ?thesis using e v c [of "of_bool b"] low_okD(6) [OF s(1)] s(2) by (auto simp: of_bool_def)
  qed (use assms e in auto)
qed

lemma index_sound:
  assumes i: "sound_expr mu items n p i"
  shows "sound_expr mu items n p (Index b i sp)"
  unfolding lowers_expr_def
proof (intro conjI [OF lowering_keeps(1)] allI impI conjI)
  fix s x s' assume s: "low_ok s" "em_p s = p" and e: "emit_expr mu items n (Index b i sp) s = Inr (x, s')"
  obtain il s1 where il: "emit_expr mu items n i s = Inr (il, s1)" using e by (auto elim: and_thenE)
  obtain c where c: "lc_is_constant (em_p s1) il = Some c" using e il by (cases "lc_is_constant (em_p s1) il") simp_all
  obtain name sp' where b: "b = Ident name sp'" using e il c by (cases b) simp_all
  have r: "read_name (indexed_name name c) s1 = Some x" "s' = s1"
    using e il c b by (cases "read_name (indexed_name name c) s1"; simp)+
  note I = lowers_exprD [OF i il s]
  show "em_scopes s' = em_scopes s" "em_consts s' = em_consts s" using I(3,4) r(2) by simp_all
  fix \<sigma> E v assume \<sigma>: "sat s' \<sigma>" "reads_ok \<sigma> s E" and v: "eval p E (Index b i sp) = Some v"
  obtain k where k: "eval p E i = Some k" "env_get E (indexed_name name k) = Some v" using v b by (auto split: option.splits)
  have "val s \<sigma> il = k" using I(5) [OF _ \<sigma>(2) k(1)] \<sigma>(1) r(2) by simp
  moreover have "val s1 \<sigma> il = c" using val_is_constant [where \<sigma> = \<sigma>, OF c] sat_0 [OF \<sigma>(1)] low_okD(5) [OF stepsD(1) [OF I(1)]] r(2) by simp
  ultimately have "c = k" using steps_p [OF I(1)] by simp
  then show "val s \<sigma> x = v" using reads_ok_frame [OF I(1,3,4) \<sigma>(2)] r(1) k(2) steps_p [OF I(1)] by (simp add: reads_ok_def)
qed

lemma poseidon_sound:
  assumes x: "sound_expr mu items n p x" and y: "sound_expr mu items n p y"
  shows "sound_expr mu items n p (Call (Ident ''poseidon_hash'' sp') [x, y] sp)"
  unfolding lowers_expr_def
proof (intro conjI [OF lowering_keeps(1)] allI impI conjI)
  fix s l s' assume s: "low_ok s" "em_p s = p" and e: "emit_expr mu items n (Call (Ident ''poseidon_hash'' sp') [x, y] sp) s = Inr (l, s')"
  obtain a s1 where a: "emit_expr mu items n x s = Inr (a, s1)" using e by (cases "emit_expr mu items n x s") (auto split: if_splits)
  note A = lowers_exprD [OF x a s]
  have s1: "low_ok s1" "em_p s1 = p" using stepsD [OF A(1)] s by simp_all
  obtain b s2 where b: "emit_expr mu items n y s1 = Inr (b, s2)" using e a by (cases "emit_expr mu items n y s1") (auto split: if_splits)
  note B = lowers_exprD [OF y b s1]
  have S2: "steps s s2" using steps_trans [OF A(1) B(1)] .
  have s2: "low_ok s2" "em_p s2 = p" using stepsD [OF S2] s by simp_all
  have c: "emit_poseidon_core (poseidon_t3_params_for (em_p s2)) [a, b] s2 = (l, s')" using e a b s(2) s2(2) by (auto split: if_splits)
  have ins: "lc_in s2 a" "lc_in s2 b" using steps_in [OF B(1) A(2)] B(2) by simp_all
  note P = poseidon_core_emits [OF low_okD(1,2) [OF s2(1)] ins params_for_canonical [OF low_okD(5) [OF s2(1)]] c]
  show "em_scopes s' = em_scopes s" "em_consts s' = em_consts s" using A B P(1) by (simp_all add: emits_def)
  fix \<sigma> E v assume \<sigma>: "sat s' \<sigma>" "reads_ok \<sigma> s E" and v: "eval p E (Call (Ident ''poseidon_hash'' sp') [x, y] sp) = Some v"
  obtain va vb where ab: "eval p E x = Some va" "eval p E y = Some vb" "v = poseidon_ref p (poseidon_t3_params_for p) va vb"
    using v by (auto split: option.splits)
  have sat2: "sat s2 \<sigma>" using emits_sat [OF P(1) \<sigma>(1)] .
  have "val s \<sigma> a = va" using A(5) [OF steps_sat [OF B(1) sat2] \<sigma>(2) ab(1)] .
  moreover have "val s1 \<sigma> b = vb" using B(5) [OF sat2 reads_ok_frame [OF A(1,3,4) \<sigma>(2)] ab(2)] .
  ultimately show "val s \<sigma> l = v" using P(3) [OF \<sigma>(1)] ab(3) s2(2) steps_p [OF A(1)] steps_p [OF S2] by simp
qed

lemma call_plain_sound:
  assumes pl: "plain (Call f as sp)" and as: "\<And>nm s1. f = Ident nm s1 \<Longrightarrow> length as = 2 \<Longrightarrow> \<forall>e\<in>set as. sound_expr mu items n p e"
  shows "sound_expr mu items n p (Call f as sp)"
proof (cases "\<exists>sp' x y. f = Ident ''poseidon_hash'' sp' \<and> as = [x, y]")
  case True
  then show ?thesis using poseidon_sound as by auto
next
  case False
  have "emit_expr mu items n (Call f as sp) s \<noteq> Inr (l, s')" for s l s'
  proof (cases "\<exists>nm sp'. f = Ident nm sp'")
    case True
    then obtain sp' where f: "f = Ident ''poseidon_hash'' sp'" using pl by auto
    then have "length as \<noteq> 2" using False by (auto simp: length_Suc_conv eval_nat_numeral)
    then show ?thesis using f by simp
  qed (cases f; simp)
  then show ?thesis unfolding lowers_expr_def using lowering_keeps(1) by blast
qed

lemma plain_sound:
  fixes st :: stmt and ss :: "stmt list"
  shows "plain e \<longrightarrow> sound_expr mu items n p e" "list_all plain es \<longrightarrow> (\<forall>e\<in>set es. sound_expr mu items n p e)" "st = st" "ss = ss"
proof (induction n e and n es and n st and n ss rule: lowering_induct [where items = items])
  case (1 n e)
  then show ?case using leaf_sound by blast
next
  case (2 n l op r sp)
  then show ?case using binary_sound by simp
next
  case (3 n f as sp)
  show ?case
  proof
    assume pl: "plain (Call f as sp)"
    have "\<forall>e\<in>set as. sound_expr mu items n p e" if "f = Ident nm s1" "length as = 2" for nm s1
      using 3(1) [OF that(1)] pl that by simp
    then show "sound_expr mu items n p (Call f as sp)" using call_plain_sound [OF pl] by blast
  qed
next
  case (4 n b i sp)
  then show ?case using index_sound by simp
qed simp_all

end
