(* ===== verification/ZkLowerSim.thy ===== *)
theory ZkLowerSim
  imports ZkLowerSound
begin

text \<open>
  The simulation for declarations and assignments: what a change of the bindings does to the
  environment read off the circuit.
\<close>

section \<open>Environments of a state\<close>

lemma env_get_in: "env_get E n = Some v \<Longrightarrow> n \<in> \<Union>(set (map dom E))"
  by (induction E) (auto split: option.splits)

lemma env_get_outer:
  assumes "disjoint_sets (map dom (e # E))" "env_get E n = Some v"
  shows "env_get (e # E) n = Some v"
proof -
  have "n \<notin> dom e" using assms env_get_in [OF assms(2)] by auto
  then have "e n = None" by auto
  then show ?thesis using assms(2) by simp
qed

lemma env_get_declare: "E \<noteq> [] \<Longrightarrow> env_get (env_declare n v E) m = (if m = n then Some v else env_get E m)"
  by (cases E) simp_all

lemma env_get_set: "env_set n v E = Some E' \<Longrightarrow> env_get E' m = (if m = n then Some v else env_get E m)"
  by (induction E arbitrary: E') (auto split: if_splits option.splits)

lemma env_get_assign: "E \<noteq> [] \<Longrightarrow> env_get (env_assign n v E) m = (if m = n then Some v else env_get E m)"
  using env_get_set env_get_declare by (auto simp: env_assign_def split: option.splits)

lemma env_of_empty: "env_of s \<sigma> = [] \<longleftrightarrow> em_scopes s = []"
  by (simp add: env_of_def)

lemma scope_env_update: "scope_env p \<sigma> (map_insert n b sc) = (scope_env p \<sigma> sc)(n \<mapsto> lc_sum \<sigma> (binding_lc b) mod p)"
  by (auto simp: scope_env_def update_conv' fun_eq_iff)

lemma scope_env_delete: "scope_env p \<sigma> (AList.delete n sc) = (scope_env p \<sigma> sc)(n := None)"
  by (auto simp: scope_env_def delete_conv' fun_eq_iff)

lemma env_of_bind:
  assumes "em_scopes s \<noteq> []"
  shows "env_of (bind n b s) \<sigma> = env_declare n (val s \<sigma> (binding_lc b)) (env_of s \<sigma>)"
    "shape (bind n b s) = insert n (hd (shape s)) # tl (shape s)" "em_consts (bind n b s) = em_consts s"
proof -
  obtain scs sc where "em_scopes s = scs @ [sc]" using assms by (metis append_butlast_last_id)
  then show "env_of (bind n b s) \<sigma> = env_declare n (val s \<sigma> (binding_lc b)) (env_of s \<sigma>)"
    "shape (bind n b s) = insert n (hd (shape s)) # tl (shape s)" "em_consts (bind n b s) = em_consts s"
    by (auto simp: bind_def env_of_def shape_def scope_env_update val_def update_conv')
qed

lemma env_of_frame:
  assumes "steps s s'" "em_scopes s' = em_scopes s"
  shows "env_of s' \<sigma> = env_of s \<sigma>" "shape s' = shape s"
  using assms(2) stepsD(3) [OF assms(1)] by (simp_all add: env_of_def shape_def)

lemma env_of_scopes: "env_of (s\<lparr>em_consts := cs\<rparr>) \<sigma> = env_of s \<sigma>" "shape (s\<lparr>em_consts := cs\<rparr>) = shape s"
  by (simp_all add: env_of_def shape_def)

lemma consts_agree_cong: "consts_agree cs E \<Longrightarrow> (\<And>n v. env_get E' n = Some v \<Longrightarrow> env_get E n = Some v) \<Longrightarrow> consts_agree cs E'"
  unfolding consts_agree_def by blast

lemma consts_agree_sub: "consts_agree cs E \<Longrightarrow> (\<And>n c. ds n = Some c \<Longrightarrow> cs n = Some c) \<Longrightarrow> consts_agree ds E"
  unfolding consts_agree_def by blast

text \<open>A new value of one name: its constant is recorded, or none is on record.\<close>

lemma consts_agree_upd:
  assumes "consts_agree cs E" "\<And>m. env_get E' m = (if m = n then Some v else env_get E m)" "cs' n = None \<or> cs' n = Some v" "\<And>m. m \<noteq> n \<Longrightarrow> cs' m = cs m"
  shows "consts_agree cs' E'"
  unfolding consts_agree_def
proof (intro allI impI)
  fix m c w assume "cs' m = Some c" "env_get E' m = Some w"
  then show "w = c" using assms by (cases "m = n") (auto simp: consts_agree_def)
qed

section \<open>Declarations\<close>

definition returned :: "(nat \<Rightarrow> int) \<Rightarrow> em \<Rightarrow> ret option \<Rightarrow> int option \<Rightarrow> bool" where
  "returned \<sigma> s r rr \<longleftrightarrow>
     (case rr of
        None \<Rightarrow> (case r of None \<Rightarrow> True | Some x \<Rightarrow> val s \<sigma> (ret_flag x) = 0)
      | Some v \<Rightarrow> (case r of None \<Rightarrow> False | Some x \<Rightarrow> val s \<sigma> (ret_flag x) = 1 \<and> val s \<sigma> (ret_value x) = v))"

text \<open>After an execution that goes on, the circuit knows its environment.\<close>

definition knows :: "(nat \<Rightarrow> int) \<Rightarrow> em \<Rightarrow> env \<Rightarrow> bool" where
  "knows \<sigma> s E \<longleftrightarrow> env_of s \<sigma> = E \<and> consts_agree (em_consts s) E"

definition outcome :: "(nat \<Rightarrow> int) \<Rightarrow> em \<Rightarrow> ret option \<Rightarrow> int option \<times> env \<Rightarrow> bool" where
  "outcome \<sigma> s r x \<longleftrightarrow> returned \<sigma> s r (fst x) \<and> (fst x = None \<longrightarrow> knows \<sigma> s (snd x))"

text \<open>A lowered statement may bind more names in the innermost scope; a lowered block binds none.\<close>

definition lowers_stmt :: "int \<Rightarrow> string set \<Rightarrow> string set \<Rightarrow> string set \<Rightarrow> string set \<Rightarrow>
    (env \<Rightarrow> (int option \<times> env) option) \<Rightarrow> (em \<Rightarrow> ret option emitted) \<Rightarrow> bool" where
  "lowers_stmt p B K B' K' g f \<longleftrightarrow> keeps ret_ok f \<and>
     (\<forall>s r s'. low_ok s \<longrightarrow> em_p s = p \<longrightarrow> in_names B K s \<longrightarrow> f s = Inr (r, s') \<longrightarrow>
        in_names B' K' s' \<and> tl (shape s') = tl (shape s) \<and> hd (shape s) \<subseteq> hd (shape s') \<and>
        (\<forall>\<sigma> E x. sat s' \<sigma> \<longrightarrow> knows \<sigma> s E \<longrightarrow> g E = Some x \<longrightarrow> outcome \<sigma> s' r x))"

definition lowers_block :: "int \<Rightarrow> string set \<Rightarrow> string set \<Rightarrow> string set \<Rightarrow>
    (env \<Rightarrow> (int option \<times> env) option) \<Rightarrow> (em \<Rightarrow> ret option emitted) \<Rightarrow> bool" where
  "lowers_block p B K K' g f \<longleftrightarrow> keeps ret_ok f \<and>
     (\<forall>s r s'. low_ok s \<longrightarrow> em_p s = p \<longrightarrow> in_names B K s \<longrightarrow> f s = Inr (r, s') \<longrightarrow>
        in_names B K' s' \<and> shape s' = shape s \<and>
        (\<forall>\<sigma> E x. sat s' \<sigma> \<longrightarrow> knows \<sigma> s E \<longrightarrow> g E = Some x \<longrightarrow> outcome \<sigma> s' r x))"

lemma lowers_stmtD:
  assumes "lowers_stmt p B K B' K' g f" "low_ok s" "em_p s = p" "in_names B K s" "f s = Inr (r, s')"
  shows "steps s s'" "ret_ok s' r" "in_names B' K' s'" "tl (shape s') = tl (shape s)" "hd (shape s) \<subseteq> hd (shape s')"
    "sat s' \<sigma> \<Longrightarrow> knows \<sigma> s E \<Longrightarrow> g E = Some x \<Longrightarrow> outcome \<sigma> s' r x"
  using assms keepsD [of ret_ok f s r s'] unfolding lowers_stmt_def by blast+

lemma lowers_blockD:
  assumes "lowers_block p B K K' g f" "low_ok s" "em_p s = p" "in_names B K s" "f s = Inr (r, s')"
  shows "steps s s'" "ret_ok s' r" "in_names B K' s'" "shape s' = shape s"
    "sat s' \<sigma> \<Longrightarrow> knows \<sigma> s E \<Longrightarrow> g E = Some x \<Longrightarrow> outcome \<sigma> s' r x"
  using assms keepsD [of ret_ok f s r s'] unfolding lowers_block_def by blast+

lemma block_stmt:
  assumes "lowers_block p B K K' g f" "B \<subseteq> B'" "K' \<subseteq> K''"
  shows "lowers_stmt p B K B' K'' g f"
  using assms in_names_mono unfolding lowers_block_def lowers_stmt_def by (metis order_refl)

lemma block_mono:
  assumes "lowers_block p B K K' g f" "K' \<subseteq> K''"
  shows "lowers_block p B K K'' g f"
  using assms in_names_mono unfolding lowers_block_def by (metis order_refl)

lemma knows_reads: "low_ok s \<Longrightarrow> sat s \<sigma> \<Longrightarrow> knows \<sigma> s E \<Longrightarrow> reads_ok \<sigma> s E"
  using reads_env_of sat_0 by (auto simp: knows_def)

lemma knows_frame:
  assumes "steps s s'" "em_scopes s' = em_scopes s" "em_consts s' = em_consts s"
  shows "knows \<sigma> s' E = knows \<sigma> s E"
  using env_of_frame [OF assms(1,2)] assms(3) by (simp add: knows_def)

lemma in_names_frame: "shape s' = shape s \<Longrightarrow> em_consts s' = em_consts s \<Longrightarrow> in_names B K s' = in_names B K s"
  by (simp add: in_names_def)

lemma bind_names:
  assumes "in_names B K s" "n \<notin> B"
  shows "in_names (insert n B) K (bind n b s)"
proof -
  obtain A As where A: "shape s = A # As" using in_namesD(1) [OF assms(1)] by (cases "shape s") auto
  note S = env_of_bind(2,3) [OF in_namesD(5) [OF assms(1)], of n b]
  have "n \<notin> \<Union>(set As)" using assms in_namesD(3) [OF assms(1)] A by auto
  then show ?thesis using assms in_namesD [OF assms(1)] S A by (auto simp: in_names_def)
qed

lemma knows_bind:
  assumes s: "in_names B K s" and k: "knows \<sigma> s E" and v: "val s \<sigma> (binding_lc b) = v"
    and c: "cs n = None \<or> cs n = Some v" "\<And>m. m \<noteq> n \<Longrightarrow> cs m = em_consts s m"
  shows "knows \<sigma> (bind n b (s\<lparr>em_consts := cs\<rparr>)) (env_declare n v E)"
proof -
  have ne: "em_scopes s \<noteq> []" using in_namesD(5) [OF s] .
  then have E: "E \<noteq> []" using k by (auto simp: knows_def env_of_empty)
  have e: "env_of (bind n b (s\<lparr>em_consts := cs\<rparr>)) \<sigma> = env_declare n v E"
    using env_of_bind(1) [of "s\<lparr>em_consts := cs\<rparr>"] ne k v by (simp add: knows_def env_of_scopes val_def)
  have "em_consts (bind n b (s\<lparr>em_consts := cs\<rparr>)) = cs" using env_of_bind(3) [of "s\<lparr>em_consts := cs\<rparr>"] ne by simp
  moreover have "consts_agree cs (env_declare n v E)"
    by (rule consts_agree_upd [of "em_consts s" E _ n v]) (use k c env_get_declare [OF E] in \<open>auto simp: knows_def\<close>)
  ultimately show ?thesis using e by (simp add: knows_def)
qed

lemma bounds_emits:
  assumes "low_ok s" "lc_in s l" "emit_bounds n b l s = Inr (u, s')"
  shows "steps s s'" "em_scopes s' = em_scopes s" "em_consts s' = em_consts s"
  using emit_bounds_steps [OF assms] emits_steps [OF assms(1)] by (auto simp: emits_def)

text \<open>The binding of a \<open>let\<close>; no constant was on record for the name.\<close>

lemma bind_let_sim:
  assumes s: "low_ok s" "in_names B K s" "lc_in s l" and n: "n \<notin> B" "n \<notin> K" and e: "bind_let n l s = (l', s')"
  shows "in_names (insert n B) (insert n K) s'" "shape s' = insert n (hd (shape s)) # tl (shape s)"
    "\<sigma> 0 = 1 \<Longrightarrow> knows \<sigma> s E \<Longrightarrow> knows \<sigma> s' (env_declare n (val s \<sigma> l) E)"
proof -
  let ?l = "lc_simplify (em_p s) l"
  let ?cs = "case lc_is_constant (em_p s) ?l of Some c \<Rightarrow> (em_consts s)(n \<mapsto> c) | None \<Rightarrow> em_consts s"
  have s': "s' = bind n (Linear ?l) (s\<lparr>em_consts := ?cs\<rparr>)"
    using e by (auto simp: bind_let_def Let_def set_const_def split: option.splits)
  have cs: "in_names B (insert n K) (s\<lparr>em_consts := ?cs\<rparr>)"
    using s(2) by (auto simp: in_names_def env_of_scopes split: option.splits)
  show "in_names (insert n B) (insert n K) s'" unfolding s' using bind_names [OF cs n(1)] .
  show "shape s' = insert n (hd (shape s)) # tl (shape s)"
    unfolding s' using env_of_bind(2) [of "s\<lparr>em_consts := ?cs\<rparr>"] in_namesD(5) [OF s(2)] by (simp add: env_of_scopes)
  assume \<sigma>: "\<sigma> 0 = 1" and k: "knows \<sigma> s E"
  have none: "em_consts s n = None" using n(2) in_namesD(4) [OF s(2)] by (auto simp: dom_def)
  have v: "val s \<sigma> (binding_lc (Linear ?l)) = val s \<sigma> l" by (simp add: binding_lc_def val_simplify)
  have c: "?cs n = None \<or> ?cs n = Some (val s \<sigma> l)"
  proof (cases "lc_is_constant (em_p s) ?l")
    case (Some c)
    then show ?thesis using val_is_constant [where \<sigma> = \<sigma>, OF Some \<sigma> low_okD(5) [OF s(1)]] by (simp add: val_simplify)
  qed (use none in simp)
  show "knows \<sigma> s' (env_declare n (val s \<sigma> l) E)"
    unfolding s' by (rule knows_bind [where cs = ?cs, OF s(2) k v]) (use c in \<open>simp_all split: option.split\<close>)
qed

lemma let_sim:
  assumes e: "sound_expr mu items m p e" and n: "n \<notin> B" "n \<notin> K"
  shows "lowers_stmt p B K (insert n B) (insert n K) (exec_stmt p mu' (Let n t (Some e) c z b sp)) (\<lambda>s. emit_stmt mu items m (Let n t (Some e) c z b sp) s)"
  unfolding lowers_stmt_def
proof (intro conjI [OF lowering_keeps(3)] allI impI conjI)
  fix s r s' assume s: "low_ok s" "em_p s = p" "in_names B K s" and em: "emit_stmt mu items m (Let n t (Some e) c z b sp) s = Inr (r, s')"
  have "and_then (and_then (emit_expr mu items m e s) (\<lambda>(l, s1). Inr (bind_let n l s1))) (\<lambda>(l, s1).
      and_then (emit_bounds n b l s1) (\<lambda>(_, s2). Inr (None, s2))) = Inr (r, s')" using em by simp
  then obtain l0 s1 where a: "and_then (emit_expr mu items m e s) (\<lambda>(l, s1). Inr (bind_let n l s1)) = Inr (l0, s1)"
    and b1: "and_then (emit_bounds n b l0 s1) (\<lambda>(_, s2). Inr (None, s2)) = Inr (r, s')" by (rule and_thenE) simp
  obtain l s0 where l: "emit_expr mu items m e s = Inr (l, s0)" and bl: "bind_let n l s0 = (l0, s1)" using a by (rule and_thenE) simp
  obtain u where b2: "emit_bounds n b l0 s1 = Inr (u, s')" and r: "r = None" using b1 by (rule and_thenE) simp
  note L = lowers_exprD [OF e l s(1,2)]
  have low0: "low_ok s0" using stepsD(1) [OF L(1)] .
  have n0: "in_names B K s0" using in_names_frame [OF env_of_frame(2) [OF L(1,3)] L(4)] s(3) by simp
  note D = bind_let_sim [OF low0 n0 L(2) n bl]
  have S1: "steps s0 s1" "lc_in s1 l0" using bind_let_steps [OF low0 L(2) bl] by simp_all
  note C = bounds_emits [OF stepsD(1) [OF S1(1)] S1(2) b2]
  have sh: "shape s' = insert n (hd (shape s)) # tl (shape s)"
    using D(2) env_of_frame(2) [OF C(1,2)] env_of_frame(2) [OF L(1,3)] by simp
  show "in_names (insert n B) (insert n K) s'" using in_names_frame [OF env_of_frame(2) [OF C(1,2)] C(3)] D(1) by simp
  show "tl (shape s') = tl (shape s)" "hd (shape s) \<subseteq> hd (shape s')" using sh by auto
  fix \<sigma> E x assume \<sigma>: "sat s' \<sigma>" and k: "knows \<sigma> s E" and g: "exec_stmt p mu' (Let n t (Some e) c z b sp) E = Some x"
  obtain v where v: "eval p E e = Some v" "x = (None, env_declare n v E)" using g by auto
  have sat0: "sat s0 \<sigma>" using steps_sat [OF steps_trans [OF S1(1) C(1)] \<sigma>] .
  have satS: "sat s \<sigma>" using steps_sat [OF L(1) sat0] .
  have "val s \<sigma> l = v" using L(5) [OF sat0 knows_reads [OF s(1) satS k] v(1)] .
  then have "knows \<sigma> s1 (env_declare n v E)"
    using D(3) [where \<sigma> = \<sigma>, OF sat_0 [OF sat0]] knows_frame [OF L(1,3,4)] k steps_p [OF L(1)] by simp
  then have "knows \<sigma> s' (env_declare n v E)" using knows_frame [OF C] by simp
  then show "outcome \<sigma> s' r x" using r v(2) by (simp add: outcome_def returned_def)
qed

section \<open>Assignments\<close>

lemma update_rev_env:
  assumes "v = lc_sum \<sigma> (binding_lc b) mod p"
  shows "env_set n v (map (scope_env p \<sigma>) scs) = map_option (map (scope_env p \<sigma>)) (update_rev n b scs)"
proof (induction scs)
  case (Cons sc scs)
  have "scope_env p \<sigma> sc n = None \<longleftrightarrow> map_of sc n = None" by (simp add: scope_env_eq split: option.split)
  then show ?case using Cons assms by (simp add: scope_env_update option.map_comp comp_def)
qed simp

lemma update_rev_dom: "update_rev n b scs = Some scs' \<Longrightarrow> map (\<lambda>sc. dom (map_of sc)) scs' = map (\<lambda>sc. dom (map_of sc)) scs"
  by (induction scs arbitrary: scs') (auto simp: update_conv' split: if_splits)

lemma update_rev_in: "update_rev n b scs = Some scs' \<Longrightarrow> n \<in> \<Union>(set (map (\<lambda>sc. dom (map_of sc)) scs))"
  by (induction scs arbitrary: scs') (auto split: if_splits)

lemma update_rev_None: "update_rev n b scs = None \<Longrightarrow> n \<notin> \<Union>(set (map (\<lambda>sc. dom (map_of sc)) scs))"
  by (induction scs) (auto split: if_splits)

text \<open>What the general case of an assignment does to the scopes.\<close>

definition updated :: "string \<Rightarrow> string set \<Rightarrow> string set \<Rightarrow> em \<Rightarrow> em \<Rightarrow> bool" where
  "updated n B K s s' \<longleftrightarrow> in_names (insert n B) (insert n K) s' \<and> tl (shape s') = tl (shape s) \<and> hd (shape s) \<subseteq> hd (shape s')"

lemma track_const_eq:
  "track_const n l s = s\<lparr>em_consts := (em_consts s)(n := lc_is_constant (em_p s) l)\<rparr>"
  by (simp add: track_const_def set_const_def drop_const_def split: option.split)

lemma assign_value_sim:
  assumes s: "low_ok s" "in_names B K s" and l: "lc_in s l"
  shows "updated n B K s (assign_value n l s)"
    "\<sigma> 0 = 1 \<Longrightarrow> knows \<sigma> s E \<Longrightarrow> knows \<sigma> (assign_value n l s) (env_assign n (val s \<sigma> l) E)"
proof -
  let ?l = "lc_simplify (em_p s) l"
  let ?t = "track_const n ?l s"
  have t: "em_scopes ?t = em_scopes s" "em_p ?t = em_p s" "shape ?t = shape s" by (simp_all add: track_const_eq shape_def)
  have nt: "in_names B (insert n K) ?t" using s(2) t(3) by (auto simp: in_names_def track_const_eq split: if_splits)
  have cs: "em_consts ?t n = None \<or> em_consts ?t n = Some (val s \<sigma> l)" if "\<sigma> 0 = 1" for \<sigma>
    using val_is_constant [where \<sigma> = \<sigma>, OF _ that low_okD(5) [OF s(1)], of ?l]
    by (cases "lc_is_constant (em_p s) ?l") (auto simp: track_const_eq val_simplify)
  have other: "em_consts ?t m = em_consts s m" if "m \<noteq> n" for m using that by (simp add: track_const_eq)
  have lv: "val s \<sigma> (binding_lc (Linear ?l)) = val s \<sigma> l" for \<sigma> by (simp add: binding_lc_def val_simplify)
  show "updated n B K s (assign_value n l s)" and "\<sigma> 0 = 1 \<Longrightarrow> knows \<sigma> s E \<Longrightarrow> knows \<sigma> (assign_value n l s) (env_assign n (val s \<sigma> l) E)"
  proof (atomize (full), cases "update_rev n (Linear ?l) (rev (em_scopes s))")
    case None
    have a: "assign_value n l s = bind n (Linear ?l) ?t" using None t(1) by (simp add: assign_value_def Let_def bind_update_def)
    have fresh: "n \<notin> \<Union>(set (shape s))" using update_rev_None [OF None] by (simp add: shape_def)
    have bd: "shape (bind n (Linear ?l) ?t) = insert n (hd (shape s)) # tl (shape s)"
      using env_of_bind(2) [of ?t] in_namesD(5) [OF s(2)] t by simp
    have "in_names (insert n (\<Union>(set (shape s)))) (insert n K) (bind n (Linear ?l) ?t)"
      by (rule bind_names [OF _ fresh]) (use nt t(3) in \<open>simp add: in_names_def\<close>)
    then have "in_names (insert n B) (insert n K) (bind n (Linear ?l) ?t)"
      using in_namesD(3) [OF s(2)] by (auto intro: in_names_mono)
    then have 1: "updated n B K s (assign_value n l s)" unfolding updated_def a using bd by auto
    have "knows \<sigma> (assign_value n l s) (env_assign n (val s \<sigma> l) E)" if \<sigma>: "\<sigma> 0 = 1" and k: "knows \<sigma> s E"
    proof -
      have "knows \<sigma> (bind n (Linear ?l) (s\<lparr>em_consts := em_consts ?t\<rparr>)) (env_declare n (val s \<sigma> l) E)"
        by (rule knows_bind [where cs = "em_consts ?t", OF s(2) k lv]) (use cs [of \<sigma>] \<sigma> other in blast)+
      moreover have "s\<lparr>em_consts := em_consts ?t\<rparr> = ?t" by (simp add: track_const_eq)
      moreover have "env_set n (val s \<sigma> l) E = None"
        using k update_rev_env [of "val s \<sigma> l" \<sigma> "Linear ?l" "em_p s" n] lv [of \<sigma>] None by (auto simp: knows_def env_of_def val_def)
      ultimately show ?thesis unfolding a by (simp add: env_assign_def)
    qed
    with 1 show "updated n B K s (assign_value n l s) \<and> (\<sigma> 0 = 1 \<longrightarrow> knows \<sigma> s E \<longrightarrow> knows \<sigma> (assign_value n l s) (env_assign n (val s \<sigma> l) E))" by blast
  next
    case (Some scs)
    have a: "assign_value n l s = ?t\<lparr>em_scopes := rev scs\<rparr>" using Some t(1) by (simp add: assign_value_def Let_def bind_update_def)
    have sh: "shape (?t\<lparr>em_scopes := rev scs\<rparr>) = shape s" using update_rev_dom [OF Some] by (simp add: shape_def)
    have 1: "updated n B K s (assign_value n l s)"
      unfolding updated_def a using nt sh t(3) by (auto simp: in_names_def)
    have "knows \<sigma> (assign_value n l s) (env_assign n (val s \<sigma> l) E)" if \<sigma>: "\<sigma> 0 = 1" and k: "knows \<sigma> s E"
    proof -
      have E: "E = map (scope_env (em_p s) \<sigma>) (rev (em_scopes s))" "E \<noteq> []" using k in_namesD(5) [OF s(2)] by (auto simp: knows_def env_of_def)
      have "env_set n (val s \<sigma> l) E = Some (map (scope_env (em_p s) \<sigma>) scs)"
        using update_rev_env [of "val s \<sigma> l" \<sigma> "Linear ?l" "em_p s" n] lv [of \<sigma>] Some E(1) by (simp add: val_def)
      then have "env_of (assign_value n l s) \<sigma> = env_assign n (val s \<sigma> l) E" unfolding a by (simp add: env_of_def env_assign_def t(2))
      moreover have "consts_agree (em_consts ?t) (env_assign n (val s \<sigma> l) E)"
        by (rule consts_agree_upd [of "em_consts s" E _ n "val s \<sigma> l"]) (use k cs [of \<sigma>] \<sigma> other env_get_assign [OF E(2)] in \<open>auto simp: knows_def\<close>)
      ultimately show ?thesis unfolding knows_def a by simp
    qed
    with 1 show "updated n B K s (assign_value n l s) \<and> (\<sigma> 0 = 1 \<longrightarrow> knows \<sigma> s E \<longrightarrow> knows \<sigma> (assign_value n l s) (env_assign n (val s \<sigma> l) E))" by blast
  qed
qed

text \<open>Self-updates take the binding out of its scope and put a new one back at the same place.\<close>

lemma take_rev_split:
  "take_rev n (length scs) scs = Some ((i, b), scs') \<Longrightarrow>
   \<exists>pre sc post. scs = pre @ sc # post \<and> (\<forall>x\<in>set pre. map_of x n = None) \<and> map_of sc n = Some b \<and>
     scs' = pre @ AList.delete n sc # post \<and> i = length post"
proof (induction scs arbitrary: scs')
  case (Cons sc scs)
  show ?case
  proof (cases "map_of sc n")
    case (Some b')
    then have "b' = b" "i = length scs" "scs' = AList.delete n sc # scs" using Cons.prems by auto
    then show ?thesis using Some by (intro exI [of _ "[]"] exI [of _ sc] exI [of _ scs]) simp
  next
    case None
    then obtain ss where ss: "take_rev n (length scs) scs = Some ((i, b), ss)" "scs' = sc # ss" using Cons.prems by auto
    obtain pre sc' post where "scs = pre @ sc' # post" "\<forall>x\<in>set pre. map_of x n = None" "map_of sc' n = Some b"
      "ss = pre @ AList.delete n sc' # post" "i = length post" using Cons.IH [OF ss(1)] by blast
    then show ?thesis using None ss(2) by (intro exI [of _ "sc # pre"] exI [of _ sc'] exI [of _ post]) simp
  qed
qed simp

lemma env_set_split:
  "(\<forall>e\<in>set pre. e n = None) \<Longrightarrow> e n \<noteq> None \<Longrightarrow> env_set n v (pre @ e # post) = Some (pre @ e(n \<mapsto> v) # post)"
  by (induction pre) simp_all

lemma env_get_split:
  "(\<forall>e\<in>set pre. e n = None) \<Longrightarrow> e n = Some v \<Longrightarrow> env_get (pre @ e # post) n = Some v"
  by (induction pre) simp_all

lemma lookup_rev_delete:
  assumes "\<forall>x\<in>set (pre @ post). map_of x n = None"
  shows "lookup_rev (pre @ AList.delete n sc # post) m = (if m = n then None else lookup_rev (pre @ sc # post) m)"
proof -
  have post: "lookup_rev post n = None" using assms by (induction post) auto
  show ?thesis using assms post by (induction pre) (auto simp: delete_conv' split: option.splits)
qed

lemma disjoint_sets_append: "disjoint_sets (As @ A # Bs) \<Longrightarrow> A \<inter> \<Union>(set Bs) = {}"
  by (induction As) auto

lemma sat_rebind [simp]: "sat (s\<lparr>em_scopes := scs\<rparr>) \<sigma> = sat s \<sigma>" "sat (s\<lparr>em_consts := cs\<rparr>) \<sigma> = sat s \<sigma>"
  by (simp_all add: sat_def)

lemma val_rebind [simp]: "val (s\<lparr>em_scopes := scs\<rparr>) \<sigma> l = val s \<sigma> l" "val (s\<lparr>em_consts := cs\<rparr>) \<sigma> l = val s \<sigma> l"
  by (simp_all add: val_def)

lemma self_update_sim:
  assumes o: "lowers_expr go other p" and s: "low_ok s" "em_p s = p" "in_names B K s" and e: "self_update other comb n s = Inr (d, s')"
    and F: "\<forall>t \<sigma> a b l. em_p t = p \<longrightarrow> comb p a b = Some l \<longrightarrow> val t \<sigma> l = F (val t \<sigma> a) (val t \<sigma> b)"
  shows "shape s' = shape s" "\<not> d \<Longrightarrow> em_consts s' = em_consts s \<and> env_of s' \<sigma> = env_of s \<sigma>"
    "in_names (insert n B) (insert n K) s'"
    "d \<Longrightarrow> sat s' \<sigma> \<Longrightarrow> knows \<sigma> s E \<Longrightarrow> go E = Some v \<Longrightarrow> \<exists>t. env_get E n = Some t \<and> knows \<sigma> s' (env_assign n (F t v) E)"
proof -
  have all: "shape s' = shape s \<and> (\<not> d \<longrightarrow> em_consts s' = em_consts s \<and> (\<forall>\<sigma>. env_of s' \<sigma> = env_of s \<sigma>)) \<and>
    in_names (insert n B) (insert n K) s' \<and>
    (d \<longrightarrow> (\<forall>\<sigma> E v. sat s' \<sigma> \<longrightarrow> knows \<sigma> s E \<longrightarrow> go E = Some v \<longrightarrow> (\<exists>t. env_get E n = Some t \<and> knows \<sigma> s' (env_assign n (F t v) E))))"
  proof (cases "take_rev n (length (em_scopes s)) (rev (em_scopes s))")
    case None
    then show ?thesis using e s(3) by (auto simp: self_update_def take_binding_from_scope_def intro: in_names_mono)
  next
    case (Some q)
    obtain i b scs where q: "q = ((i, b), scs)" by (cases q) auto
    let ?s1 = "s\<lparr>em_scopes := rev scs\<rparr>"
    have t: "take_binding_from_scope n s = (Some (i, b), ?s1)" using Some q by (simp add: take_binding_from_scope_def)
    obtain pre sc post where sp: "rev (em_scopes s) = pre @ sc # post" "\<forall>x\<in>set pre. map_of x n = None" "map_of sc n = Some b"
      "scs = pre @ AList.delete n sc # post" "i = length post"
      using take_rev_split [of n "rev (em_scopes s)" i b scs] Some q by auto
    have low1: "low_ok ?s1" "em_p ?s1 = p" using take_binding_steps [OF s(1) t] stepsD(1) s(2) by auto
    obtain l s2 where l: "other ?s1 = Inr (l, s2)" using e t by (auto simp: self_update_def and_then_Inr_iff)
    note L = lowers_exprD [OF o l low1]
    have sc2: "em_scopes s2 = rev scs" "em_consts s2 = em_consts s" "em_p s2 = p" using L(3,4) stepsD(3) [OF L(1)] s(2) by simp_all
    have nth: "em_scopes s2 ! i = AList.delete n sc" "i < length (em_scopes s2)"
      using sc2(1) sp(4,5) by (simp_all add: nth_append)
    have put: "bind_to_scope i n x (s2\<lparr>em_consts := cs\<rparr>) = s2\<lparr>em_consts := cs, em_scopes := rev (pre @ map_insert n x (AList.delete n sc) # post)\<rparr>" for x cs
      unfolding bind_to_scope_def using nth sc2(1) sp(4,5) by (simp add: list_update_append)
    have shp: "shape (bind_to_scope i n x (s2\<lparr>em_consts := cs\<rparr>)) = shape s" for x cs
      unfolding put by (auto simp: shape_def sp(1) update_conv' delete_conv' sp(3))
    have dis: "\<forall>x\<in>set post. map_of x n = None"
    proof -
      have "n \<in> dom (map_of sc)" using sp(3) by auto
      then have "n \<notin> \<Union>(set (map (\<lambda>sc. dom (map_of sc)) post))"
        using disjoint_sets_append [of "map (\<lambda>sc. dom (map_of sc)) pre" "dom (map_of sc)" "map (\<lambda>sc. dom (map_of sc)) post"] in_namesD(2) [OF s(3)]
        by (auto simp: shape_def sp(1))
      then show ?thesis by auto
    qed
    have envp: "env_of (bind_to_scope i n x (s2\<lparr>em_consts := cs\<rparr>)) \<sigma> =
        map (scope_env p \<sigma>) pre @ (scope_env p \<sigma> sc)(n \<mapsto> lc_sum \<sigma> (binding_lc x) mod p) # map (scope_env p \<sigma>) post" for x cs \<sigma>
      unfolding put by (simp add: env_of_def scope_env_update scope_env_delete sc2(3))
    have envs: "env_of s \<sigma> = map (scope_env p \<sigma>) pre @ scope_env p \<sigma> sc # map (scope_env p \<sigma>) post" for \<sigma>
      using s(2) by (simp add: env_of_def sp(1))
    have old: "scope_env p \<sigma> sc n = Some (lc_sum \<sigma> (binding_lc b) mod p)" for \<sigma> using sp(3) by (simp add: scope_env_eq)
    show ?thesis
    proof (cases "comb (em_p s2) (binding_lc b) l")
      case None
      have ds: "d = False" "s' = bind_to_scope i n (Linear (binding_lc b)) (s2\<lparr>em_consts := em_consts s2\<rparr>)"
        using e t l None by (simp_all add: self_update_def)
      have "env_of s' \<sigma> = env_of s \<sigma>" for \<sigma> unfolding ds(2) envp envs using old by (auto simp: binding_lc_def fun_eq_iff)
      moreover have "em_consts s' = em_consts s" unfolding ds(2) put using sc2 by simp
      moreover have "shape s' = shape s" using shp unfolding ds(2) .
      ultimately show ?thesis using ds(1) in_names_frame [of s' s] in_names_mono [OF s(3), of "insert n B" "insert n K"] by auto
    next
      case (Some l')
      let ?cs = "(em_consts s2)(n := lc_is_constant (em_p s2) l')"
      have ds: "d = True" "s' = bind_to_scope i n (Linear l') (s2\<lparr>em_consts := ?cs\<rparr>)"
        using e t l Some by (simp_all add: self_update_def track_const_eq)
      have sh: "shape s' = shape s" using shp unfolding ds(2) .
      have cons: "em_consts s' = ?cs" "em_p s' = p" unfolding ds(2) put using sc2 by simp_all
      have nm: "in_names (insert n B) (insert n K) s'"
        using s(3) sh sc2(2) by (auto simp: in_names_def cons(1) split: if_splits)
      have "\<exists>t. env_get E n = Some t \<and> knows \<sigma> s' (env_assign n (F t v) E)" if \<sigma>: "sat s' \<sigma>" and k: "knows \<sigma> s E" and g: "go E = Some v" for \<sigma> E v
      proof -
        have E: "E = env_of s \<sigma>" "E \<noteq> []" using k in_namesD(5) [OF s(3)] env_of_empty by (auto simp: knows_def)
        have sat2: "sat s2 \<sigma>" using \<sigma> unfolding ds(2) put by simp
        have z: "\<sigma> 0 = 1" using sat_0 [OF sat2] .
        have rd: "reads_ok \<sigma> ?s1 E"
          unfolding reads_ok_def
        proof (intro allI impI)
          fix m x w assume r: "read_name m ?s1 = Some x" and w: "env_get E m = Some w"
          have "\<forall>x\<in>set (pre @ post). map_of x n = None" using sp(2) dis by auto
          then have lk: "ZkEmitter.lookup ?s1 m = (if m = n then None else ZkEmitter.lookup s m)"
            using lookup_rev_delete [of pre post n sc m] sp(1,4) by (simp add: ZkEmitter.lookup_def)
          have "read_name m s = Some x" using r lk by (auto simp: read_name_def lookup_const_def split: option.splits if_splits)
          then show "val ?s1 \<sigma> x = w" using reads_env_of [where \<sigma> = \<sigma>, OF s(1) z] k w by (simp add: knows_def reads_ok_def)
        qed
        have vl: "val s2 \<sigma> l = v" using L(5) [OF sat2 rd g] steps_p [OF L(1)] by simp
        let ?t = "lc_sum \<sigma> (binding_lc b) mod p"
        have tv: "env_get E n = Some ?t" unfolding E(1) envs by (rule env_get_split) (use sp(2) old in \<open>auto simp: scope_env_eq\<close>)
        have fv: "val s2 \<sigma> l' = F ?t v" using F [rule_format, OF sc2(3), of "binding_lc b" l l' \<sigma>] Some vl sc2(3) by (simp add: val_def)
        have "env_set n (F ?t v) E = Some (env_of s' \<sigma>)"
          unfolding E(1) envs ds(2) envp using fv sc2(3) sp(2) old
          by (subst env_set_split) (auto simp: binding_lc_def val_def scope_env_eq)
        then have e': "env_of s' \<sigma> = env_assign n (F ?t v) E" by (simp add: env_assign_def)
        have cv: "?cs n = None \<or> ?cs n = Some (F ?t v)"
          using val_is_constant [where \<sigma> = \<sigma>, OF _ z, of s2 l'] low_okD(5) [OF stepsD(1) [OF L(1)]] fv by (cases "lc_is_constant (em_p s2) l'") auto
        have "consts_agree ?cs (env_assign n (F ?t v) E)"
          by (rule consts_agree_upd [of "em_consts s" E _ n "F ?t v"]) (use k cv env_get_assign [OF E(2)] sc2(2) in \<open>auto simp: knows_def\<close>)
        then show ?thesis using tv e' cons(1) by (auto simp: knows_def)
      qed
      then show ?thesis using ds(1) sh nm by blast
    qed
  qed
  then show "shape s' = shape s" "\<not> d \<Longrightarrow> em_consts s' = em_consts s \<and> env_of s' \<sigma> = env_of s \<sigma>"
    "in_names (insert n B) (insert n K) s'"
    "d \<Longrightarrow> sat s' \<sigma> \<Longrightarrow> knows \<sigma> s E \<Longrightarrow> go E = Some v \<Longrightarrow> \<exists>t. env_get E n = Some t \<and> knows \<sigma> s' (env_assign n (F t v) E)"
    by blast+
qed

lemma target_val:
  assumes "em_p s = p"
  shows "target_first op p a b = Some l \<Longrightarrow> val s \<sigma> l = op_val p op (val s \<sigma> a) (val s \<sigma> b)"
    "target_second op p a b = Some l \<Longrightarrow> val s \<sigma> l = op_val p op (val s \<sigma> b) (val s \<sigma> a)"
proof -
  have simp: "val s \<sigma> (lc_simplify p x) = val s \<sigma> x" "val s \<sigma> (lc_add_linear p x y k) = (val s \<sigma> x + k * val s \<sigma> y) mod p"
    "val s \<sigma> (lc_scale p x k) = k * val s \<sigma> x mod p" for x y k
    using val_simplify [of s \<sigma> x] val_add_linear [of s \<sigma> x y k] assms by (simp_all add: val_def lc_scale_sum mod_simps)
  have neg: "(y + fr_neg_one p * x mod p) mod p = (y - x) mod p" for x y
    using neg_one_mult [of y p x] by (simp add: mod_simps)
  show "target_first op p a b = Some l \<Longrightarrow> val s \<sigma> l = op_val p op (val s \<sigma> a) (val s \<sigma> b)"
    by (cases op) (auto simp: target_first_def op_val_def simp neg_one_mult)
  show "target_second op p a b = Some l \<Longrightarrow> val s \<sigma> l = op_val p op (val s \<sigma> b) (val s \<sigma> a)"
    by (cases op) (auto simp: target_second_def op_val_def simp neg add.commute [of "val s \<sigma> a" "val s \<sigma> b"] add.commute [of "_ mod p"])
qed

lemma target_fits: "target_first op p a b = Some l \<or> target_second op p a b = Some l \<Longrightarrow> op_fits q op"
  by (cases op) (auto simp: target_first_def target_second_def op_fits_def)

lemma is_ident_eval: "is_ident e n \<Longrightarrow> eval p E e = env_get E n"
  by (cases e) auto

text \<open>One of the two short cuts for a value \<open>left op right\<close>, or nothing.\<close>

definition quiet :: "em \<Rightarrow> em \<Rightarrow> bool" where
  "quiet s s' \<longleftrightarrow> steps s s' \<and> shape s' = shape s \<and> em_consts s' = em_consts s \<and> (\<forall>\<sigma>. env_of s' \<sigma> = env_of s \<sigma>)"

lemma quiet_refl: "low_ok s \<Longrightarrow> quiet s s"
  by (simp add: quiet_def steps_refl)

lemma quiet_trans: "quiet s t \<Longrightarrow> quiet t u \<Longrightarrow> quiet s u"
  using steps_trans [of s t u] by (simp add: quiet_def)

lemma quiet_knows: "quiet s t \<Longrightarrow> knows \<sigma> t E = knows \<sigma> s E"
  by (simp add: quiet_def knows_def)

lemma quiet_names: "quiet s t \<Longrightarrow> in_names B K t = in_names B K s"
  using in_names_frame [of t s] by (simp add: quiet_def)

definition assigns :: "string \<Rightarrow> string set \<Rightarrow> string set \<Rightarrow> (env \<Rightarrow> int option) \<Rightarrow> em \<Rightarrow> em \<Rightarrow> bool" where
  "assigns n B K g s s' \<longleftrightarrow> steps s s' \<and> updated n B K s s' \<and>
     (\<forall>\<sigma> E v. sat s' \<sigma> \<longrightarrow> knows \<sigma> s E \<longrightarrow> g E = Some v \<longrightarrow> knows \<sigma> s' (env_assign n v E))"

lemma quiet_assigns:
  assumes "quiet s t" "assigns n B K g t u"
  shows "assigns n B K g s u"
proof -
  have q: "steps s t" "shape t = shape s" using assms(1) by (simp_all add: quiet_def)
  have "steps s u" using steps_trans [OF q(1)] assms(2) by (simp add: assigns_def)
  moreover have "updated n B K s u" using assms(2) q(2) by (simp add: assigns_def updated_def)
  ultimately show ?thesis using assms(2) quiet_knows [OF assms(1)] unfolding assigns_def by blast
qed

lemma plain_assigns:
  assumes ve: "sound_expr mu items m p e" and s: "low_ok s" "em_p s = p" "in_names B K s" and l: "emit_expr mu items m e s = Inr (l, s1)"
  shows "assigns n B K (\<lambda>E. eval p E e) s (assign_value n l s1)"
proof -
  note L = lowers_exprD [OF ve l s(1,2)]
  have low1: "low_ok s1" using stepsD(1) [OF L(1)] .
  have n1: "in_names B K s1" using in_names_frame [OF env_of_frame(2) [OF L(1,3)] L(4)] s(3) by simp
  note A = assign_value_sim [OF low1 n1 L(2)]
  have st: "steps s1 (assign_value n l s1)" using assign_value_steps [OF low1 L(2)] .
  have "knows \<sigma> (assign_value n l s1) (env_assign n v E)" if "sat (assign_value n l s1) \<sigma>" "knows \<sigma> s E" "eval p E e = Some v" for \<sigma> E v
  proof -
    have 1: "sat s1 \<sigma>" using steps_sat [OF st that(1)] .
    have "val s \<sigma> l = v" using L(5) [OF 1 knows_reads [OF s(1) steps_sat [OF L(1) 1] that(2)] that(3)] .
    then show ?thesis using A(2) [where \<sigma> = \<sigma>, OF sat_0 [OF 1]] knows_frame [OF L(1,3,4)] that(2) steps_p [OF L(1)] by simp
  qed
  then show ?thesis using A(1) steps_trans [OF L(1) st] env_of_frame(2) [OF L(1,3)] by (simp add: assigns_def updated_def)
qed

lemma short_cut:
  assumes o: "sound_expr mu items m p e" and s: "low_ok s" "em_p s = p" "in_names B K s"
    and c: "is_ident left n \<and> comb = target_first op \<and> e = right \<or> is_ident right n \<and> comb = target_second op \<and> e = left"
    and u: "self_update (\<lambda>s. emit_expr mu items m e s) comb n s = Inr (d, s')"
  shows "if d then assigns n B K (\<lambda>E. eval p E (BinaryOp left op right sp)) s s' else quiet s s'"
proof -
  have st: "steps s s'" using c u first_steps [OF expr_keeps s(1)] second_steps [OF expr_keeps s(1)] by blast
  define F where "F = (if comb = target_first op \<and> e = right \<and> is_ident left n then (\<lambda>t v. op_val p op t v) else (\<lambda>t v. op_val p op v t))"
  have F: "\<forall>t \<sigma> a b l. em_p t = p \<longrightarrow> comb p a b = Some l \<longrightarrow> val t \<sigma> l = F (val t \<sigma> a) (val t \<sigma> b)"
    using c target_val unfolding F_def by auto
  note U = self_update_sim [where F = F, OF o s u F]
  have "assigns n B K (\<lambda>E. eval p E (BinaryOp left op right sp)) s s'" if dd: d
    unfolding assigns_def updated_def
  proof (intro conjI allI impI)
    fix \<sigma> E v assume \<sigma>: "sat s' \<sigma>" and k: "knows \<sigma> s E" and ev: "eval p E (BinaryOp left op right sp) = Some v"
    obtain a b where ab: "eval p E left = Some a" "eval p E right = Some b" "v = op_val p op a b" using ev by (auto split: option.splits if_splits)
    show "knows \<sigma> s' (env_assign n v E)"
    proof (cases "comb = target_first op \<and> e = right \<and> is_ident left n")
      case True
      then obtain t where "env_get E n = Some t" "knows \<sigma> s' (env_assign n (op_val p op t b) E)"
        using U(4) [OF dd \<sigma> k, of b] ab(2) by (auto simp: F_def)
      then show ?thesis using is_ident_eval [of left n p E] True ab by simp
    next
      case False
      then have q: "is_ident right n" "e = left" using c by blast+
      then obtain t where "env_get E n = Some t" "knows \<sigma> s' (env_assign n (op_val p op a t) E)"
        using U(4) [OF dd \<sigma> k, of a] ab(1) False by (auto simp: F_def)
      then show ?thesis using is_ident_eval [of right n p E] q ab by simp
    qed
  qed (use U(1,3) st in simp_all)
  moreover have "quiet s s'" if "\<not> d" using st U(1) U(2) [OF that] by (simp add: quiet_def)
  ultimately show ?thesis by simp
qed

lemma assign_binary_sim:
  assumes le: "sound_expr mu items m p left" and re: "sound_expr mu items m p right"
    and ve: "sound_expr mu items m p (BinaryOp left op right sp)"
    and s: "low_ok s" "em_p s = p" "in_names B K s"
    and e: "assign_binary n left op right (\<lambda>s. emit_expr mu items m left s) (\<lambda>s. emit_expr mu items m right s)
      (\<lambda>s. emit_expr mu items m (BinaryOp left op right sp) s) s = Inr (r, s')"
  shows "r = None \<and> assigns n B K (\<lambda>E. eval p E (BinaryOp left op right sp)) s s'"
proof -
  let ?g = "\<lambda>E. eval p E (BinaryOp left op right sp)"
  obtain d1 s1 where 1: "(if is_ident left n \<and> \<not> expr_references_var right n
      then self_update (\<lambda>s. emit_expr mu items m right s) (target_first op) n s else Inr (False, s)) = Inr (d1, s1)"
    using e unfolding assign_binary_def by (rule and_thenE)
  have Q1: "if d1 then assigns n B K ?g s s1 else quiet s s1"
  proof (cases "is_ident left n \<and> \<not> expr_references_var right n")
    case True
    show ?thesis by (rule short_cut [OF re s, where comb = "target_first op"]) (use True 1 in simp_all)
  qed (use 1 quiet_refl [OF s(1)] in auto)
  obtain d2 s2 where 2: "(if \<not> d1 \<and> is_ident right n \<and> \<not> expr_references_var left n
      then self_update (\<lambda>s. emit_expr mu items m left s) (target_second op) n s1 else Inr (d1, s1)) = Inr (d2, s2)"
    and rest: "(if d2 then Inr (None, s2) else and_then (emit_expr mu items m (BinaryOp left op right sp) s2)
      (\<lambda>(l, s3). Inr (None, assign_value n l s3))) = Inr (r, s')"
    using e unfolding assign_binary_def 1 and_then_simps prod.case by (rule and_thenE) auto
  have Q2: "if d2 then assigns n B K ?g s s2 else quiet s s2"
  proof (cases "\<not> d1 \<and> is_ident right n \<and> \<not> expr_references_var left n")
    case True
    then have q: "quiet s s1" using Q1 by simp
    then have s1: "low_ok s1" "em_p s1 = p" "in_names B K s1" using s stepsD [of s s1] quiet_names by (auto simp: quiet_def)
    have "if d2 then assigns n B K ?g s1 s2 else quiet s1 s2"
      by (rule short_cut [OF le s1, where comb = "target_second op"]) (use True 2 in simp_all)
    then show ?thesis using quiet_assigns [OF q] quiet_trans [OF q] by (auto split: if_splits)
  qed (use 2 Q1 in \<open>auto split: if_splits\<close>)
  show ?thesis
  proof (cases d2)
    case True
    then show ?thesis using rest Q2 by simp
  next
    case False
    then have q: "quiet s s2" using Q2 by simp
    then have s2: "low_ok s2" "em_p s2 = p" "in_names B K s2" using s stepsD [of s s2] quiet_names by (auto simp: quiet_def)
    have "and_then (emit_expr mu items m (BinaryOp left op right sp) s2) (\<lambda>(l, s3). Inr (None, assign_value n l s3)) = Inr (r, s')"
      using rest False by simp
    then obtain l s3 where l: "emit_expr mu items m (BinaryOp left op right sp) s2 = Inr (l, s3)" and r: "r = None" "s' = assign_value n l s3"
      by (rule and_thenE) simp
    have "assigns n B K ?g s2 s'" using plain_assigns [OF ve s2 l] unfolding r(2) .
    then show ?thesis using quiet_assigns [OF q] r(1) by blast
  qed
qed

end
