(* ===== verification/ZkLowerExec.thy ===== *)
theory ZkLowerExec
  imports ZkLowerSim
begin

text \<open>
  The simulation for blocks, loops and branches. An unrolled loop runs like the loop; a branch on a
  wire lowers both sides and keeps, binding by binding, the side the wire selects.
\<close>

section \<open>Scopes\<close>

lemma enter_scope_env:
  "env_of (enter_scope s) \<sigma> = Map.empty # env_of s \<sigma>" "shape (enter_scope s) = {} # shape s"
  "em_consts (enter_scope s) = em_consts s" "em_p (enter_scope s) = em_p s" "sat (enter_scope s) \<sigma> = sat s \<sigma>"
  by (simp_all add: env_of_def shape_def enter_scope_def scope_env_def)

lemma exit_scope_env:
  "env_of (exit_scope s) \<sigma> = tl (env_of s \<sigma>)" "shape (exit_scope s) = tl (shape s)"
  "em_consts (exit_scope s) = em_consts s" "em_p (exit_scope s) = em_p s" "sat (exit_scope s) \<sigma> = sat s \<sigma>"
  by (cases "em_scopes s" rule: rev_cases; simp add: env_of_def shape_def exit_scope_def)+

lemma enter_names: "in_names B K s \<Longrightarrow> in_names B K (enter_scope s)"
  by (simp add: in_names_def enter_scope_env)

lemma enter_knows: "knows \<sigma> s E \<Longrightarrow> knows \<sigma> (enter_scope s) (Map.empty # E)"
  by (simp add: knows_def enter_scope_env consts_agree_def)

text \<open>Back in the outer scope: the names that went away are bound nowhere else.\<close>

lemma exit_names:
  assumes "in_names B' K' s" "tl (shape s) = A" "A \<noteq> []" "\<Union>(set A) \<subseteq> B"
  shows "in_names B K' (exit_scope s)"
  using assms in_namesD [OF assms(1)] by (cases "shape s") (auto simp: in_names_def exit_scope_env)

lemma exit_knows:
  assumes "in_names B K s" "knows \<sigma> s E"
  shows "knows \<sigma> (exit_scope s) (drop 1 E)"
proof -
  have d: "disjoint_sets (map dom E)" using in_namesD(2) [OF assms(1)] assms(2) shape_of_env [of s \<sigma>] by (simp add: knows_def)
  have "consts_agree (em_consts s) (drop 1 E)"
  proof (cases E)
    case (Cons e E')
    then show ?thesis using env_get_outer [of e E'] d assms(2) by (auto simp: knows_def intro: consts_agree_cong)
  qed (use assms(2) in \<open>auto simp: knows_def\<close>)
  then show ?thesis using assms(2) by (simp add: knows_def exit_scope_env drop_Suc)
qed

lemma returned_p: "em_p s' = em_p s \<Longrightarrow> returned \<sigma> s' r rr = returned \<sigma> s r rr"
  by (simp add: returned_def val_def split: option.split)

lemma returned_steps: "steps s s' \<Longrightarrow> returned \<sigma> s' r rr = returned \<sigma> s r rr"
  using returned_p stepsD(3) by blast

lemma returned_scope: "returned \<sigma> (exit_scope s) r rr = returned \<sigma> s r rr"
  by (rule returned_p) (simp add: exit_scope_env)

lemma exit_outcome:
  assumes "in_names B K s" "outcome \<sigma> s r (rr, E)"
  shows "outcome \<sigma> (exit_scope s) r (rr, drop 1 E)"
  using assms exit_knows [OF assms(1)] by (auto simp: outcome_def returned_scope)

lemma in_scope_sim:
  assumes f: "lowers_stmt p B K B' K' g f"
  shows "lowers_block p B K K' (exec_scoped g) (in_scope f)"
  unfolding lowers_block_def
proof (intro conjI allI impI)
  show "keeps ret_ok (in_scope f)" using f keeps_in_scope by (simp add: lowers_stmt_def)
  fix s r s' assume s: "low_ok s" "em_p s = p" "in_names B K s" and e: "in_scope f s = Inr (r, s')"
  obtain s1 where f1: "f (enter_scope s) = Inr (r, s1)" and s': "s' = exit_scope s1"
    using e by (auto simp: in_scope_def and_then_Inr_iff)
  note F = lowers_stmtD [OF f enter_scope_ok [OF s(1)] _ enter_names [OF s(3)] f1]
  have p: "em_p (enter_scope s) = p" using s(2) by (simp add: enter_scope_env)
  have sh: "tl (shape s1) = shape s" using F(4) [OF p] by (simp add: enter_scope_env)
  show "shape s' = shape s" using sh by (simp add: s' exit_scope_env)
  show "in_names B K' s'" unfolding s' using exit_names [OF F(3) [OF p] sh] in_namesD(1,3) [OF s(3)] by simp
  fix \<sigma> E x assume \<sigma>: "sat s' \<sigma>" and k: "knows \<sigma> s E" and g: "exec_scoped g E = Some x"
  obtain rr E1 where g1: "g (Map.empty # E) = Some (rr, E1)" "x = (rr, drop 1 E1)" using g by (auto simp: exec_scoped_def)
  have "outcome \<sigma> s1 r (rr, E1)" using F(6) [OF p _ enter_knows [OF k] g1(1)] \<sigma> by (simp add: s' exit_scope_env)
  then show "outcome \<sigma> s' r x" using exit_outcome [OF F(3) [OF p]] by (simp add: s' g1(2))
qed

section \<open>Returns in sequence\<close>

lemma seq_sim:
  assumes s: "low_ok s" and ab: "ret_ok s a" "ret_ok s b" and e: "seq_returns a b sp s = (r, s')"
  shows "em_scopes s' = em_scopes s" "em_consts s' = em_consts s"
    "sat s' \<sigma> \<Longrightarrow> returned \<sigma> s a (Some v) \<Longrightarrow> returned \<sigma> s r (Some v)"
    "sat s' \<sigma> \<Longrightarrow> returned \<sigma> s a None \<Longrightarrow> returned \<sigma> s b rr \<Longrightarrow> returned \<sigma> s r rr"
proof -
  have "em_scopes s' = em_scopes s \<and> em_consts s' = em_consts s \<and>
    (sat s' \<sigma> \<longrightarrow> returned \<sigma> s a (Some v) \<longrightarrow> returned \<sigma> s r (Some v)) \<and>
    (sat s' \<sigma> \<longrightarrow> returned \<sigma> s a None \<longrightarrow> returned \<sigma> s b rr \<longrightarrow> returned \<sigma> s r rr)"
  proof (cases "a = None \<or> b = None")
    case True
    then have "s' = s" "r = (if a = None then b else a)" using e by (auto simp: seq_returns_def split: option.splits)
    then show ?thesis using True by (auto simp: returned_def split: option.splits)
  next
    case False
    then obtain x y where xy: "a = Some x" "b = Some y" by auto
    obtain q where q: "seq_ret x y sp s = (q, s')" "r = Some q" using e xy by (auto simp: seq_returns_def split: prod.splits)
    have ins: "ret_in s x" "ret_in s y" using ab xy by (simp_all add: ret_ok_def)
    note Q = seq_ret_emits [OF low_okD(1,2) [OF s] ins q(1)]
    have "em_scopes s' = em_scopes s \<and> em_consts s' = em_consts s" using Q(1) by (simp add: emits_def)
    moreover have "returned \<sigma> s r (Some v)" if "sat s' \<sigma>" "returned \<sigma> s a (Some v)"
      using Q(4) [OF that(1)] that(2) xy q(2) by (simp add: returned_def)
    moreover have "returned \<sigma> s r rr" if "sat s' \<sigma>" "returned \<sigma> s a None" "returned \<sigma> s b rr"
      using Q(4) [OF that(1)] that(2,3) xy q(2) by (auto simp: returned_def split: option.splits)
    ultimately show ?thesis by blast
  qed
  then show "em_scopes s' = em_scopes s" "em_consts s' = em_consts s"
    "sat s' \<sigma> \<Longrightarrow> returned \<sigma> s a (Some v) \<Longrightarrow> returned \<sigma> s r (Some v)"
    "sat s' \<sigma> \<Longrightarrow> returned \<sigma> s a None \<Longrightarrow> returned \<sigma> s b rr \<Longrightarrow> returned \<sigma> s r rr"
    by blast+
qed

text \<open>A flag that is the constant one tells that the execution has returned.\<close>

lemma always_returned:
  assumes "always_returns s r" "low_ok s" "\<sigma> 0 = 1"
  shows "\<not> returned \<sigma> s r None"
  using assms val_is_constant [where \<sigma> = \<sigma>, OF _ assms(3) low_okD(5) [OF assms(2)]]
  by (auto simp: always_returns_def returned_def split: option.splits)

section \<open>Loops\<close>

lemma iteration_sim:
  assumes s: "low_ok s" "em_p s = p" "in_names B K s" and c: "0 \<le> cur" "cur < p" and v: "var \<notin> B" "var \<in> K"
  shows "in_names (insert var B) K (bind var (Linear (lc_constant cur)) (set_const var cur (enter_scope s)))"
    "shape (bind var (Linear (lc_constant cur)) (set_const var cur (enter_scope s))) = {var} # shape s"
    "\<sigma> 0 = 1 \<Longrightarrow> knows \<sigma> s E \<Longrightarrow>
       knows \<sigma> (bind var (Linear (lc_constant cur)) (set_const var cur (enter_scope s))) (env_declare var cur (Map.empty # E))"
proof -
  let ?cs = "(em_consts (enter_scope s))(var \<mapsto> cur)"
  have e: "set_const var cur (enter_scope s) = (enter_scope s)\<lparr>em_consts := ?cs\<rparr>" by (simp add: set_const_def)
  have n: "in_names B K ((enter_scope s)\<lparr>em_consts := ?cs\<rparr>)"
    using enter_names [OF s(3)] v(2) by (auto simp: in_names_def env_of_scopes)
  show "in_names (insert var B) K (bind var (Linear (lc_constant cur)) (set_const var cur (enter_scope s)))"
    unfolding e by (rule bind_names [OF n v(1)])
  have "em_scopes ((enter_scope s)\<lparr>em_consts := ?cs\<rparr>) \<noteq> []" by (simp add: enter_scope_def)
  then show "shape (bind var (Linear (lc_constant cur)) (set_const var cur (enter_scope s))) = {var} # shape s"
    unfolding e by (simp add: env_of_bind(2) env_of_scopes enter_scope_env)
  assume \<sigma>: "\<sigma> 0 = 1" and k: "knows \<sigma> s E"
  have w: "val (enter_scope s) \<sigma> (binding_lc (Linear (lc_constant cur))) = cur"
    using val_const [where \<sigma> = \<sigma>, OF \<sigma>, of "enter_scope s" cur] s(2) c by (simp add: binding_lc_def enter_scope_env)
  show "knows \<sigma> (bind var (Linear (lc_constant cur)) (set_const var cur (enter_scope s))) (env_declare var cur (Map.empty # E))"
    unfolding e by (rule knows_bind [where cs = ?cs, OF enter_names [OF s(3)] enter_knows [OF k] w]) simp_all
qed

lemma unroll_sim:
  assumes body: "lowers_stmt p (insert var B) K B' K g body" and v: "var \<notin> B" "var \<in> K"
  shows "low_ok s \<Longrightarrow> em_p s = p \<Longrightarrow> in_names B K s \<Longrightarrow> ret_ok s acc \<Longrightarrow> 0 \<le> cur \<Longrightarrow> cur < p \<Longrightarrow>
    unroll mu n var body step last_v sp cur acc s = Inr (r, s') \<Longrightarrow>
    in_names B K s' \<and> shape s' = shape s \<and>
    (\<forall>\<sigma>. sat s' \<sigma> \<longrightarrow> (\<forall>w. returned \<sigma> s acc (Some w) \<longrightarrow> returned \<sigma> s' r (Some w)) \<and>
       (\<forall>E x. returned \<sigma> s acc None \<longrightarrow> knows \<sigma> s E \<longrightarrow> exec_loop p n var g step last_v cur E = Some x \<longrightarrow> outcome \<sigma> s' r x))"
proof (induction n arbitrary: cur acc s)
  case 0
  then show ?case by (auto simp: unroll.simps exec_loop.simps outcome_def split: if_splits)
next
  case (Suc n)
  show ?case
  proof (cases "cur < last_v")
    case False
    then show ?thesis using Suc.prems by (auto simp: unroll.simps exec_loop.simps outcome_def)
  next
    case True
    let ?s = "bind var (Linear (lc_constant cur)) (set_const var cur (enter_scope s))"
    note s = Suc.prems(1-3)
    note I = iteration_sim [OF s Suc.prems(5,6) v]
    have E: "steps (enter_scope s) ?s" using enter_iteration [OF s(1)] Suc.prems(5,6) s(2) by blast
    have p1: "em_p ?s = p" using stepsD(3) [OF E] s(2) by (simp add: enter_scope_env)
    obtain here s2 where b: "body ?s = Inr (here, s2)"
      using Suc.prems(7) True by (cases "body ?s") (auto simp: unroll.simps Let_def)
    note Bd = lowers_stmtD [OF body stepsD(1) [OF E] p1 I(1) b]
    obtain acc' s3 where q: "seq_returns acc here sp s2 = (acc', s3)" by force
    have A: "ret_ok s2 acc" using Suc.prems(4) steps_ret [OF steps_trans [OF E Bd(1)]] by (simp add: enter_scope_def)
    note Q = seq_sim [OF stepsD(1) [OF Bd(1)] A Bd(2) q]
    have Qs: "steps s2 s3" "ret_ok s3 acc'" using seq_returns_steps [OF stepsD(1) [OF Bd(1)] A Bd(2) q] by simp_all
    let ?s4 = "exit_scope s3"
    have X: "steps s ?s4" using exit_scope_steps [OF steps_trans [OF E steps_trans [OF Bd(1) Qs(1)]]] .
    have sh3: "shape s3 = shape s2" using env_of_frame(2) [OF Qs(1) Q(1)] .
    have n3: "in_names B' K s3" using in_names_frame [OF sh3 Q(2)] Bd(3) by simp
    have sh4: "shape ?s4 = shape s" using Bd(4) I(2) sh3 by (simp add: exit_scope_env)
    have n4: "in_names B K ?s4" by (rule exit_names [OF n3]) (use sh4 in_namesD(1,3) [OF s(3)] in \<open>simp_all add: exit_scope_env\<close>)
    have p4: "em_p ?s4 = p" using stepsD(3) [OF X] s(2) by simp
    have val4: "returned \<sigma> ?s4 acc' rr = returned \<sigma> s2 acc' rr" for \<sigma> rr using returned_scope returned_steps [OF Qs(1)] by simp
    have acc2: "returned \<sigma> s2 acc rr = returned \<sigma> s acc rr" for \<sigma> rr
      using returned_steps [OF steps_trans [OF E Bd(1)]] returned_p [OF enter_scope_env(4)] by simp
    have kept: "returned \<sigma> ?s4 acc' (Some w)" if "sat ?s4 \<sigma>" "returned \<sigma> s acc (Some w)" for \<sigma> w
      using Q(3) [of \<sigma> w] that acc2 val4 by (simp add: exit_scope_env)
    have went: "outcome \<sigma> ?s4 acc' (rr, drop 1 E1)"
      if \<sigma>: "sat ?s4 \<sigma>" and a: "returned \<sigma> s acc None" and k: "knows \<sigma> s E" and g: "g (env_declare var cur (Map.empty # E)) = Some (rr, E1)" for \<sigma> E rr E1
    proof -
      have sat3: "sat s3 \<sigma>" using \<sigma> by (simp add: exit_scope_env)
      have sat2: "sat s2 \<sigma>" using steps_sat [OF Qs(1) sat3] .
      have o: "outcome \<sigma> s2 here (rr, E1)" using Bd(6) [OF sat2 I(3) [where \<sigma> = \<sigma>, OF sat_0 [OF sat2] k] g] .
      then have "returned \<sigma> s2 acc' rr" using Q(4) [OF sat3, of rr] a acc2 by (simp add: outcome_def)
      then have "outcome \<sigma> s3 acc' (rr, E1)" using o knows_frame [OF Qs(1) Q(1,2)] returned_steps [OF Qs(1)] by (simp add: outcome_def)
      then show ?thesis using exit_outcome [OF n3] by blast
    qed
    show ?thesis
    proof (cases "always_returns ?s4 acc'")
      case True
      have d: "r = acc'" "s' = ?s4" using Suc.prems(7) \<open>cur < last_v\<close> b q True by (simp_all add: unroll.simps Let_def)
      have "outcome \<sigma> ?s4 acc' x" if \<sigma>: "sat ?s4 \<sigma>" and a: "returned \<sigma> s acc None" and k: "knows \<sigma> s E"
        and g: "exec_loop p (Suc n) var g step last_v cur E = Some x" for \<sigma> E x
      proof -
        obtain rr E1 where g1: "g (env_declare var cur (Map.empty # E)) = Some (rr, E1)"
          using g \<open>cur < last_v\<close> by (auto simp: exec_loop.simps exec_scoped_def split: option.splits)
        have o: "outcome \<sigma> ?s4 acc' (rr, drop 1 E1)" using went [OF \<sigma> a k g1] .
        then have "rr \<noteq> None" using always_returned [where \<sigma> = \<sigma>, OF True stepsD(1) [OF X]] sat_0 [OF \<sigma>] by (cases rr) (auto simp: outcome_def)
        then have "x = (rr, drop 1 E1)" using g g1 \<open>cur < last_v\<close> by (auto simp: exec_loop.simps exec_scoped_def)
        then show ?thesis using o by simp
      qed
      then show ?thesis unfolding d using n4 sh4 kept by blast
    next
      case False
      have u: "unroll mu n var body step last_v sp ((cur + step) mod p) acc' ?s4 = Inr (r, s')"
        using Suc.prems(7) \<open>cur < last_v\<close> b q False p4 by (simp add: unroll.simps Let_def)
      have c: "0 \<le> (cur + step) mod p" "(cur + step) mod p < p" using low_okD(5) [OF s(1)] s(2) by simp_all
      have r4: "ret_ok ?s4 acc'" using Qs(2) by simp
      note IH = Suc.IH [OF stepsD(1) [OF X] p4 n4 r4 c u]
      have S: "steps ?s4 s'" using unroll_steps [OF _ stepsD(1) [OF X] r4 c(1) _ u] body c(2) p4 by (simp add: lowers_stmt_def)
      have "outcome \<sigma> s' r x" if \<sigma>: "sat s' \<sigma>" and a: "returned \<sigma> s acc None" and k: "knows \<sigma> s E"
        and g: "exec_loop p (Suc n) var g step last_v cur E = Some x" for \<sigma> E x
      proof -
        have sat4: "sat ?s4 \<sigma>" using steps_sat [OF S \<sigma>] .
        obtain rr E1 where g1: "g (env_declare var cur (Map.empty # E)) = Some (rr, E1)"
          using g \<open>cur < last_v\<close> by (auto simp: exec_loop.simps exec_scoped_def split: option.splits)
        have o: "outcome \<sigma> ?s4 acc' (rr, drop 1 E1)" using went [OF sat4 a k g1] .
        show ?thesis
        proof (cases rr)
          case None
          then have "exec_loop p n var g step last_v ((cur + step) mod p) (drop 1 E1) = Some x"
            using g g1 \<open>cur < last_v\<close> by (simp add: exec_loop.simps [of p "Suc n"] exec_scoped_def)
          moreover have "returned \<sigma> ?s4 acc' None" "knows \<sigma> ?s4 (drop 1 E1)" using o None by (simp_all add: outcome_def)
          ultimately show ?thesis using IH \<sigma> by blast
        next
          case (Some w)
          then have "x = (Some w, drop 1 E1)" using g g1 \<open>cur < last_v\<close> by (simp add: exec_loop.simps [of p "Suc n"] exec_scoped_def)
          then show ?thesis using IH \<sigma> o Some by (simp add: outcome_def)
        qed
      qed
      moreover have "returned \<sigma> s' r (Some w)" if "sat s' \<sigma>" "returned \<sigma> s acc (Some w)" for \<sigma> w
        using IH that kept [OF steps_sat [OF S that(1)] that(2)] by blast
      ultimately show ?thesis using IH sh4 by simp
    qed
  qed
qed

section \<open>Branches\<close>

text \<open>The side the condition selects.\<close>

definition side :: "em \<Rightarrow> (nat \<Rightarrow> int) \<Rightarrow> lc \<Rightarrow> 'a \<Rightarrow> 'a \<Rightarrow> 'a" where
  "side s \<sigma> cond a b = (if val s \<sigma> cond = 1 then a else b)"

lemma binding_eq_val: "binding_eq (Some a) (Some b) \<Longrightarrow> lc_sum \<sigma> (binding_lc a) = lc_sum \<sigma> (binding_lc b)"
  by (cases a; cases b) (auto simp: binding_eq_def binding_lc_def lc_eq_def lc_sum_def)

lemma merge_var_sim:
  assumes s: "low_ok s" and c: "lc_in s cond" and sc: "bindings_ok s ts" "bindings_ok s es" and i: "i < length ts" "i < length es" "i < length (em_scopes s)"
    and b: "map_of (ts ! i) n = Some tb" "map_of (es ! i) n = Some eb" and e: "merge_var cond sp ts es i n s = Inr (u, s')"
  shows "\<exists>x. em_scopes s' = (em_scopes s)[i := map_insert n x (em_scopes s ! i)] \<and> em_consts s' = em_consts s \<and>
    (\<forall>\<sigma>. sat s' \<sigma> \<longrightarrow> val s \<sigma> cond \<in> {0, 1} \<longrightarrow> val s \<sigma> (binding_lc x) = side s \<sigma> cond (val s \<sigma> (binding_lc tb)) (val s \<sigma> (binding_lc eb)))"
proof (cases "binding_eq (Some tb) (Some eb)")
  case True
  then have s': "s' = bind_to_scope i n tb s" using e b by (simp add: merge_var_def)
  have "val s \<sigma> (binding_lc tb) = val s \<sigma> (binding_lc eb)" for \<sigma> using binding_eq_val [OF True] by (simp add: val_def)
  then show ?thesis using i(3) by (intro exI [of _ tb]) (simp add: s' bind_to_scope_def side_def)
next
  case False
  let ?t = "binding_lc tb" and ?e = "binding_lc eb" and ?p = "em_p s"
  obtain w s1 where w: "new_wire (n @ ''_mux'') s = (w, s1)" by force
  have N: "steps s s1" "lc_in s1 (lc_variable w)" using new_wire_steps [OF s w] by simp_all
  have s1: "em_scopes s1 = em_scopes s" "em_consts s1 = em_consts s" "em_p s1 = ?p" using w by (auto simp: new_wire_eq)
  let ?c = "\<lparr>con_a = cond, con_b = lc_add_linear ?p ?t ?e (fr_neg_one ?p), con_c = lc_add_linear ?p (lc_variable w) ?e (fr_neg_one ?p), con_span = Some sp\<rparr>"
  let ?s2 = "s1\<lparr>em_cons := em_cons s1 @ [?c]\<rparr>"
  have s': "s' = bind_to_scope i n (Wire w) ?s2" using e b False w by (simp add: merge_var_def branch_lc_def Let_def)
  have te: "lc_in s ?t" "lc_in s ?e" using scope_ok_lookup [OF bindings_ok_nth b(1)] scope_ok_lookup [OF bindings_ok_nth b(2)] sc i by blast+
  note low1 = stepsD(1) [OF N(1)]
  note in1 = steps_in [OF N(1)]
  have cs: "lc_in s1 cond" "lc_in s1 (lc_add_linear ?p ?t ?e (fr_neg_one ?p))" "lc_in s1 (lc_add_linear ?p (lc_variable w) ?e (fr_neg_one ?p))"
    using in1 [OF c] mux_lc_in [OF low1 in1 [OF te(1)] in1 [OF te(2)]] mux_lc_in [OF low1 N(2) in1 [OF te(2)]] by (simp_all add: s1(3))
  have "val s \<sigma> (lc_variable w) = side s \<sigma> cond (val s \<sigma> ?t) (val s \<sigma> ?e)" if "sat s' \<sigma>" "val s \<sigma> cond \<in> {0, 1}" for \<sigma>
  proof -
    have "sat ?s2 \<sigma>" using that(1) by (simp add: s' bind_to_scope_def split: if_splits)
    then have m: "val s \<sigma> cond * ((val s \<sigma> ?t - val s \<sigma> ?e) mod ?p) mod ?p = (val s \<sigma> (lc_variable w) - val s \<sigma> ?e) mod ?p"
      using push_emits(2) [OF low_okD(2) [OF low1] cs, where sp = "Some sp" and \<sigma> = \<sigma>] s1(3) val_sub [of s \<sigma>] by (simp add: steps_p [OF N(1)])
    have small: "val s \<sigma> l mod ?p = val s \<sigma> l" for l using val_small [OF low_okD(5) [OF s]] .
    show ?thesis
    proof (cases "val s \<sigma> cond = 1")
      case True
      then have "(val s \<sigma> (lc_variable w) - val s \<sigma> ?e) mod ?p = (val s \<sigma> ?t - val s \<sigma> ?e) mod ?p" using m by simp
      then have "val s \<sigma> (lc_variable w) mod ?p = val s \<sigma> ?t mod ?p" by (simp add: mod_eq_dvd_iff)
      then show ?thesis using True small by (simp add: side_def)
    next
      case False
      then have "(val s \<sigma> (lc_variable w) - val s \<sigma> ?e) mod ?p = 0" using m that(2) by simp
      then have "val s \<sigma> (lc_variable w) mod ?p = val s \<sigma> ?e mod ?p" by (simp add: mod_eq_0_iff_dvd mod_eq_dvd_iff)
      then show ?thesis using False small by (simp add: side_def)
    qed
  qed
  then show ?thesis using i(3) s1
    by (intro exI [of _ "Wire w"]) (simp add: s' bind_to_scope_def binding_lc_def)
qed

text \<open>One scope, name by name.\<close>

lemma merge_vars_sim:
  "low_ok s \<Longrightarrow> lc_in s cond \<Longrightarrow> bindings_ok s ts \<Longrightarrow> bindings_ok s es \<Longrightarrow> i < length ts \<Longrightarrow> i < length es \<Longrightarrow> i < length (em_scopes s) \<Longrightarrow>
   set ns \<subseteq> dom (map_of (ts ! i)) \<Longrightarrow> set ns \<subseteq> dom (map_of (es ! i)) \<Longrightarrow> merge_vars cond sp ts es i ns s = Inr (u, s') \<Longrightarrow>
   \<exists>sc. em_scopes s' = (em_scopes s)[i := sc] \<and> em_consts s' = em_consts s \<and> dom (map_of sc) = dom (map_of (em_scopes s ! i)) \<union> set ns \<and>
     (\<forall>\<sigma>. sat s' \<sigma> \<longrightarrow> val s \<sigma> cond \<in> {0, 1} \<longrightarrow> (\<forall>m. scope_env (em_p s) \<sigma> sc m =
        (if m \<in> set ns then side s \<sigma> cond (scope_env (em_p s) \<sigma> (ts ! i) m) (scope_env (em_p s) \<sigma> (es ! i) m) else scope_env (em_p s) \<sigma> (em_scopes s ! i) m)))"
proof (induction ns arbitrary: s)
  case Nil
  then show ?case by (intro exI [of _ "em_scopes s ! i"]) simp
next
  case (Cons n ns)
  obtain u1 s1 where m: "merge_var cond sp ts es i n s = Inr (u1, s1)" and rest: "merge_vars cond sp ts es i ns s1 = Inr (u, s')"
    using Cons.prems(10) by (auto elim: and_thenE)
  obtain tb eb where b: "map_of (ts ! i) n = Some tb" "map_of (es ! i) n = Some eb" using Cons.prems(8,9) by auto
  obtain x where x: "em_scopes s1 = (em_scopes s)[i := map_insert n x (em_scopes s ! i)]" "em_consts s1 = em_consts s"
    "\<And>\<sigma>. sat s1 \<sigma> \<Longrightarrow> val s \<sigma> cond \<in> {0, 1} \<Longrightarrow> val s \<sigma> (binding_lc x) = side s \<sigma> cond (val s \<sigma> (binding_lc tb)) (val s \<sigma> (binding_lc eb))"
    using merge_var_sim [OF Cons.prems(1-7) b m] by blast
  have S1: "steps s s1" using merge_var_steps [OF Cons.prems(1-6) m] .
  have p1: "em_p s1 = em_p s" using stepsD(3) [OF S1] .
  have S2: "steps s1 s'" by (rule merge_vars_steps [OF stepsD(1) [OF S1] steps_in [OF S1 Cons.prems(2)] _ _ _ _ rest])
      (use Cons.prems steps_bindings [OF S1] in simp_all)
  have i1: "i < length (em_scopes s1)" using Cons.prems(7) x(1) by simp
  have d: "set ns \<subseteq> dom (map_of (ts ! i))" "set ns \<subseteq> dom (map_of (es ! i))" using Cons.prems(8,9) by auto
  obtain sc where sc: "em_scopes s' = (em_scopes s1)[i := sc]" "em_consts s' = em_consts s1" "dom (map_of sc) = dom (map_of (em_scopes s1 ! i)) \<union> set ns"
    "\<And>\<sigma> m. sat s' \<sigma> \<Longrightarrow> val s1 \<sigma> cond \<in> {0, 1} \<Longrightarrow> scope_env (em_p s1) \<sigma> sc m =
        (if m \<in> set ns then side s1 \<sigma> cond (scope_env (em_p s1) \<sigma> (ts ! i) m) (scope_env (em_p s1) \<sigma> (es ! i) m) else scope_env (em_p s1) \<sigma> (em_scopes s1 ! i) m)"
    using Cons.IH [OF stepsD(1) [OF S1] steps_in [OF S1 Cons.prems(2)] steps_bindings [OF S1 Cons.prems(3)] steps_bindings [OF S1 Cons.prems(4)]
        Cons.prems(5,6) i1 d rest] by blast
  have nth1: "em_scopes s1 ! i = map_insert n x (em_scopes s ! i)" using x(1) Cons.prems(7) by simp
  have "scope_env (em_p s) \<sigma> sc m = (if m \<in> set (n # ns) then side s \<sigma> cond (scope_env (em_p s) \<sigma> (ts ! i) m) (scope_env (em_p s) \<sigma> (es ! i) m) else scope_env (em_p s) \<sigma> (em_scopes s ! i) m)"
    if \<sigma>: "sat s' \<sigma>" "val s \<sigma> cond \<in> {0, 1}" for \<sigma> m
  proof -
    have sd: "side s1 \<sigma> cond a b = side s \<sigma> cond a b" for a b :: "int option" by (simp add: side_def steps_p [OF S1])
    have xv: "lc_sum \<sigma> (binding_lc x) mod em_p s = side s \<sigma> cond (lc_sum \<sigma> (binding_lc tb) mod em_p s) (lc_sum \<sigma> (binding_lc eb) mod em_p s)"
      using x(3) [OF steps_sat [OF S2 \<sigma>(1)] \<sigma>(2)] by (simp add: val_def)
    have "scope_env (em_p s) \<sigma> (em_scopes s1 ! i) m = (if m = n then side s \<sigma> cond (scope_env (em_p s) \<sigma> (ts ! i) n) (scope_env (em_p s) \<sigma> (es ! i) n) else scope_env (em_p s) \<sigma> (em_scopes s ! i) m)"
      unfolding nth1 scope_env_update using xv b by (auto simp: scope_env_eq side_def)
    then show ?thesis using sc(4) [OF \<sigma>(1), of m] \<sigma>(2) sd p1 by (cases "m = n") (simp_all add: steps_p [OF S1])
  qed
  moreover have "em_scopes s' = (em_scopes s)[i := sc]" using sc(1) x(1) by simp
  moreover have "dom (map_of sc) = dom (map_of (em_scopes s ! i)) \<union> set (n # ns)" using sc(3) nth1 by (auto simp: update_conv')
  ultimately show ?case using sc(2) x(2) by (intro exI [of _ sc]) auto
qed

text \<open>Every scope.\<close>

lemma merge_scopes_sim:
  "low_ok s \<Longrightarrow> lc_in s cond \<Longrightarrow> bindings_ok s ts \<Longrightarrow> bindings_ok s es \<Longrightarrow> distinct js \<Longrightarrow>
   (\<And>j. j \<in> set js \<Longrightarrow> j < length (em_scopes s) \<and> dom (map_of (ts ! j)) = dom (map_of (em_scopes s ! j)) \<and> dom (map_of (es ! j)) = dom (map_of (em_scopes s ! j))) \<Longrightarrow>
   merge_scopes cond sp ts es js s = Inr (u, s') \<Longrightarrow>
   length (em_scopes s') = length (em_scopes s) \<and> em_consts s' = em_consts s \<and>
   (\<forall>j < length (em_scopes s). dom (map_of (em_scopes s' ! j)) = dom (map_of (em_scopes s ! j)) \<and>
     (\<forall>\<sigma>. sat s' \<sigma> \<longrightarrow> val s \<sigma> cond \<in> {0, 1} \<longrightarrow> scope_env (em_p s) \<sigma> (em_scopes s' ! j) =
        (if j \<in> set js then side s \<sigma> cond (scope_env (em_p s) \<sigma> (ts ! j)) (scope_env (em_p s) \<sigma> (es ! j)) else scope_env (em_p s) \<sigma> (em_scopes s ! j))))"
proof (induction js arbitrary: s)
  case (Cons i js)
  note I = Cons.prems(6) [of i, simplified]
  have len: "i < length ts" "i < length es" using Cons.prems(7) by (auto split: if_splits)
  obtain u1 s1 where m: "merge_vars cond sp ts es i (branch_names (ts ! i) (es ! i)) s = Inr (u1, s1)"
    and rest: "merge_scopes cond sp ts es js s1 = Inr (u, s')"
    using Cons.prems(7) len by (auto elim: and_thenE)
  have ns: "set (branch_names (ts ! i) (es ! i)) = dom (map_of (em_scopes s ! i))"
    using I by (auto simp: branch_names_def dom_map_of_conv_image_fst)
  have d: "set (branch_names (ts ! i) (es ! i)) \<subseteq> dom (map_of (ts ! i))" "set (branch_names (ts ! i) (es ! i)) \<subseteq> dom (map_of (es ! i))"
    using I ns by simp_all
  note mv = merge_vars_sim [OF Cons.prems(1-4) len conjunct1 [OF I] d m]
  obtain sc where sc: "em_scopes s1 = (em_scopes s)[i := sc]" "em_consts s1 = em_consts s" "dom (map_of sc) = dom (map_of (em_scopes s ! i))"
    "\<And>\<sigma> m. sat s1 \<sigma> \<Longrightarrow> val s \<sigma> cond \<in> {0, 1} \<Longrightarrow> scope_env (em_p s) \<sigma> sc m =
       (if m \<in> dom (map_of (em_scopes s ! i)) then side s \<sigma> cond (scope_env (em_p s) \<sigma> (ts ! i) m) (scope_env (em_p s) \<sigma> (es ! i) m) else scope_env (em_p s) \<sigma> (em_scopes s ! i) m)"
    using mv [unfolded ns Un_absorb] by blast
  have S1: "steps s s1" using merge_vars_steps [OF Cons.prems(1-4) len m] .
  have b1: "bindings_ok s1 ts" "bindings_ok s1 es" using Cons.prems(3,4) steps_bindings [OF S1] by simp_all
  have S2: "steps s1 s'" using merge_scopes_steps [OF stepsD(1) [OF S1] steps_in [OF S1 Cons.prems(2)] b1 rest] .
  have js: "j < length (em_scopes s1) \<and> dom (map_of (ts ! j)) = dom (map_of (em_scopes s1 ! j)) \<and> dom (map_of (es ! j)) = dom (map_of (em_scopes s1 ! j))"
    if "j \<in> set js" for j
  proof -
    have "j \<noteq> i" using Cons.prems(5) that by auto
    then show ?thesis using Cons.prems(6) [of j] that sc(1) by simp
  qed
  note IH = Cons.IH [OF stepsD(1) [OF S1] steps_in [OF S1 Cons.prems(2)] b1 _ js rest]
  have len1: "length (em_scopes s1) = length (em_scopes s)" using sc(1) by simp
  have dom1: "dom (map_of (em_scopes s1 ! j)) = dom (map_of (em_scopes s ! j))" if "j < length (em_scopes s)" for j
    using sc(1,3) that by (cases "j = i") auto
  have new: "scope_env (em_p s) \<sigma> sc = side s \<sigma> cond (scope_env (em_p s) \<sigma> (ts ! i)) (scope_env (em_p s) \<sigma> (es ! i))"
    if "sat s1 \<sigma>" "val s \<sigma> cond \<in> {0, 1}" for \<sigma>
  proof
    fix m
    show "scope_env (em_p s) \<sigma> sc m = side s \<sigma> cond (scope_env (em_p s) \<sigma> (ts ! i)) (scope_env (em_p s) \<sigma> (es ! i)) m"
    proof (cases "m \<in> dom (map_of (em_scopes s ! i))")
      case False
      then have "map_of (em_scopes s ! i) m = None" "map_of (ts ! i) m = None" "map_of (es ! i) m = None" using I by auto
      then show ?thesis using sc(4) [OF that] False by (simp add: side_def scope_env_eq)
    qed (use sc(4) [OF that] in \<open>simp add: side_def\<close>)
  qed
  have "scope_env (em_p s) \<sigma> (em_scopes s' ! j) =
        (if j \<in> set (i # js) then side s \<sigma> cond (scope_env (em_p s) \<sigma> (ts ! j)) (scope_env (em_p s) \<sigma> (es ! j)) else scope_env (em_p s) \<sigma> (em_scopes s ! j))"
    if j: "j < length (em_scopes s)" and \<sigma>: "sat s' \<sigma>" "val s \<sigma> cond \<in> {0, 1}" for j \<sigma>
  proof -
    have h: "scope_env (em_p s) \<sigma> (em_scopes s' ! j) =
        (if j \<in> set js then side s \<sigma> cond (scope_env (em_p s) \<sigma> (ts ! j)) (scope_env (em_p s) \<sigma> (es ! j)) else scope_env (em_p s) \<sigma> (em_scopes s1 ! j))"
    proof -
      have "j < length (em_scopes s1)" "val s1 \<sigma> cond \<in> {0, 1}" "distinct js" using j len1 \<sigma>(2) Cons.prems(5) by (simp_all add: steps_p [OF S1])
      then have "scope_env (em_p s1) \<sigma> (em_scopes s' ! j) =
        (if j \<in> set js then side s1 \<sigma> cond (scope_env (em_p s1) \<sigma> (ts ! j)) (scope_env (em_p s1) \<sigma> (es ! j)) else scope_env (em_p s1) \<sigma> (em_scopes s1 ! j))"
        using IH \<sigma>(1) by blast
      then show ?thesis unfolding stepsD(3) [OF S1] side_def steps_p [OF S1] .
    qed
    show ?thesis using h new [OF steps_sat [OF S2 \<sigma>(1)] \<sigma>(2)] sc(1) Cons.prems(5) j by (cases "j = i") auto
  qed
  then show ?case using IH Cons.prems(5) len1 dom1 sc(2) by simp
qed simp

end
