(* ===== verification/ZkLowerBranch.thy ===== *)
theory ZkLowerBranch
  imports ZkLowerExec
begin

text \<open>
  The simulation for a branch on a wire, and the theorem that puts the constructs together: the
  body of a circuit function computes what the program computes.
\<close>

section \<open>Branches\<close>

lemma mux_returns_sim:
  assumes s: "low_ok s" and c: "lc_in s cond" and rs: "ret_ok s tr" "ret_ok s er" and e: "mux_returns cond tr er sp s = (r, s')"
  shows "em_scopes s' = em_scopes s" "em_consts s' = em_consts s"
    "sat s' \<sigma> \<Longrightarrow> val s \<sigma> cond \<in> {0, 1} \<Longrightarrow> returned \<sigma> s (side s \<sigma> cond tr er) rr \<Longrightarrow> returned \<sigma> s r rr"
proof -
  have "em_scopes s' = em_scopes s \<and> em_consts s' = em_consts s \<and>
    (sat s' \<sigma> \<longrightarrow> val s \<sigma> cond \<in> {0, 1} \<longrightarrow> returned \<sigma> s (side s \<sigma> cond tr er) rr \<longrightarrow> returned \<sigma> s r rr)"
  proof (cases "tr = None \<and> er = None")
    case True
    then show ?thesis using e by (auto simp: mux_returns_def side_def)
  next
    case False
    let ?t = "case tr of Some r \<Rightarrow> r | None \<Rightarrow> no_ret" and ?e = "case er of Some r \<Rightarrow> r | None \<Rightarrow> no_ret"
    have ins: "ret_in s ?t" "ret_in s ?e" using rs by (auto simp: ret_ok_def ret_in_def no_ret_def split: option.splits)
    obtain flag s6 where f6: "emit_mux cond (ret_flag ?t) (ret_flag ?e) sp s = (flag, s6)" by force
    obtain v s7 where f7: "emit_mux cond (ret_value ?t) (ret_value ?e) sp s6 = (v, s7)" by force
    have r: "r = Some \<lparr>ret_flag = flag, ret_value = v\<rparr>" "s' = s7" using e False f6 f7 by (auto simp: mux_returns_def Let_def)
    have in6: "lc_in s (ret_flag ?t)" "lc_in s (ret_flag ?e)" using ins by (simp_all add: ret_in_def)
    note M6 = mux_emits [OF low_okD(1,2) [OF s] c in6 f6]
    have S6: "steps s s6" using emits_steps [OF s M6(1)] .
    note low6 = stepsD(1) [OF S6]
    have in7: "lc_in s6 cond" "lc_in s6 (ret_value ?t)" "lc_in s6 (ret_value ?e)"
      using steps_in [OF S6 c] steps_in [OF S6] ins by (simp_all add: ret_in_def)
    note M7 = mux_emits [OF low_okD(1,2) [OF low6] in7 f7]
    have "em_scopes s' = em_scopes s \<and> em_consts s' = em_consts s" using M6(1) M7(1) r(2) by (simp add: emits_def)
    moreover have "returned \<sigma> s r rr"
      if \<sigma>: "sat s' \<sigma>" and b: "val s \<sigma> cond \<in> {0, 1}" and q: "returned \<sigma> s (side s \<sigma> cond tr er) rr"
    proof -
      have "val s \<sigma> flag = side s \<sigma> cond (val s \<sigma> (ret_flag ?t)) (val s \<sigma> (ret_flag ?e))"
        using M6(4) [OF emits_sat [OF M7(1)] b] \<sigma> r(2) by (simp add: side_def)
      moreover have "val s \<sigma> v = side s \<sigma> cond (val s \<sigma> (ret_value ?t)) (val s \<sigma> (ret_value ?e))"
        using M7(4) [of \<sigma>] \<sigma> b r(2) by (simp add: side_def steps_p [OF S6])
      ultimately show ?thesis
        using q by (auto simp: r(1) returned_def side_def no_ret_def split: option.splits if_splits)
    qed
    ultimately show ?thesis by blast
  qed
  then show "em_scopes s' = em_scopes s" "em_consts s' = em_consts s"
    "sat s' \<sigma> \<Longrightarrow> val s \<sigma> cond \<in> {0, 1} \<Longrightarrow> returned \<sigma> s (side s \<sigma> cond tr er) rr \<Longrightarrow> returned \<sigma> s r rr" by blast+
qed

lemma shape_map: "shape s' = shape s \<longleftrightarrow> map (\<lambda>sc. dom (map_of sc)) (em_scopes s') = map (\<lambda>sc. dom (map_of sc)) (em_scopes s)"
  unfolding shape_def rev_map [symmetric] by simp

lemma shape_nth:
  assumes "shape s' = shape s"
  shows "length (em_scopes s') = length (em_scopes s)" "j < length (em_scopes s) \<Longrightarrow> dom (map_of (em_scopes s' ! j)) = dom (map_of (em_scopes s ! j))"
proof -
  have m: "map (\<lambda>sc. dom (map_of sc)) (em_scopes s') = map (\<lambda>sc. dom (map_of sc)) (em_scopes s)" using assms by (simp add: shape_map)
  show l: "length (em_scopes s') = length (em_scopes s)" using arg_cong [OF m, of length] by simp
  show "dom (map_of (em_scopes s' ! j)) = dom (map_of (em_scopes s ! j))" if "j < length (em_scopes s)"
    using arg_cong [OF m, of "\<lambda>xs. xs ! j"] that l by simp
qed

lemma env_of_cong:
  assumes "em_p s' = em_p s" "length (em_scopes s') = length scs" "\<And>j. j < length scs \<Longrightarrow> scope_env (em_p s) \<sigma> (em_scopes s' ! j) = scope_env (em_p s) \<sigma> (scs ! j)"
  shows "env_of s' \<sigma> = map (scope_env (em_p s) \<sigma>) (rev scs)"
proof -
  have "map (scope_env (em_p s) \<sigma>) (em_scopes s') = map (scope_env (em_p s) \<sigma>) scs" using assms by (intro nth_equalityI) simp_all
  then show ?thesis using assms(1) unfolding env_of_def rev_map [symmetric] by simp
qed

text \<open>The other side starts where the first did.\<close>

lemma else_sim:
  assumes els: "\<forall>f. els = Some f \<longrightarrow> lowers_block p B K K' g f" and s: "low_ok s" "em_p s = p" "in_names B K s"
    and t: "steps s t" "em_scopes t = em_scopes s" and e: "emit_else els (em_scopes s) (em_consts s) t = Inr ((er, es, ec), s')"
  shows "map (\<lambda>sc. dom (map_of sc)) es = map (\<lambda>sc. dom (map_of sc)) (em_scopes s)" "em_scopes s' = em_scopes s"
    "sat s' \<sigma> \<Longrightarrow> knows \<sigma> s E \<Longrightarrow> (case els of None \<Rightarrow> Some (None, E) | Some _ \<Rightarrow> g E) = Some x \<Longrightarrow>
       returned \<sigma> s' er (fst x) \<and> (fst x = None \<longrightarrow> map (scope_env p \<sigma>) (rev es) = snd x \<and> consts_agree ec (snd x))"
proof -
  have "map (\<lambda>sc. dom (map_of sc)) es = map (\<lambda>sc. dom (map_of sc)) (em_scopes s) \<and> em_scopes s' = em_scopes s \<and>
    (sat s' \<sigma> \<longrightarrow> knows \<sigma> s E \<longrightarrow> (case els of None \<Rightarrow> Some (None, E) | Some _ \<Rightarrow> g E) = Some x \<longrightarrow>
       returned \<sigma> s' er (fst x) \<and> (fst x = None \<longrightarrow> map (scope_env p \<sigma>) (rev es) = snd x \<and> consts_agree ec (snd x)))"
  proof (cases els)
    case None
    then have "er = None" "es = em_scopes s" "ec = em_consts s" "s' = t" using e by (simp_all add: emit_else_def)
    then show ?thesis using t(2) s(2) None by (auto simp: returned_def knows_def env_of_def)
  next
    case (Some f)
    obtain s1 where f: "f (t\<lparr>em_consts := em_consts s\<rparr>) = Inr (er, s1)" "es = em_scopes s1" "ec = em_consts s1" "s' = s1\<lparr>em_scopes := em_scopes s\<rparr>"
      using e Some by (auto simp: emit_else_def and_then_Inr_iff)
    let ?t = "t\<lparr>em_consts := em_consts s\<rparr>"
    have S: "steps s ?t" using steps_consts [OF t(1) low_okD(4) [OF s(1)]] .
    have p: "em_p ?t = p" using stepsD(3) [OF S] s(2) by simp
    have sh: "shape ?t = shape s" using t(2) by (simp add: shape_def)
    have n: "in_names B K ?t" using in_names_frame [OF sh] s(3) by simp
    note F = lowers_blockD [OF els [rule_format, OF Some] stepsD(1) [OF S] p n f(1)]
    have "map (\<lambda>sc. dom (map_of sc)) es = map (\<lambda>sc. dom (map_of sc)) (em_scopes s)" using F(4) sh shape_map [of s1 s] f(2) by simp
    moreover have "returned \<sigma> s' er (fst x) \<and> (fst x = None \<longrightarrow> map (scope_env p \<sigma>) (rev es) = snd x \<and> consts_agree ec (snd x))"
      if \<sigma>: "sat s' \<sigma>" and k: "knows \<sigma> s E" and g: "g E = Some x"
    proof -
      have k1: "knows \<sigma> ?t E" using k t(2) s(2) p by (simp add: knows_def env_of_def)
      have "outcome \<sigma> s1 er x" using F(5) [OF _ k1 g] \<sigma> by (simp add: f(4))
      moreover have "returned \<sigma> s' er rr = returned \<sigma> s1 er rr" for rr by (rule returned_p) (simp add: f(4))
      moreover have "em_p s1 = p" using stepsD(3) [OF F(1)] p by simp
      ultimately show ?thesis by (auto simp: outcome_def knows_def env_of_def f(2,3))
    qed
    ultimately show ?thesis using Some by (simp add: f(4))
  qed
  then show "map (\<lambda>sc. dom (map_of sc)) es = map (\<lambda>sc. dom (map_of sc)) (em_scopes s)" "em_scopes s' = em_scopes s"
    "sat s' \<sigma> \<Longrightarrow> knows \<sigma> s E \<Longrightarrow> (case els of None \<Rightarrow> Some (None, E) | Some _ \<Rightarrow> g E) = Some x \<Longrightarrow>
       returned \<sigma> s' er (fst x) \<and> (fst x = None \<longrightarrow> map (scope_env p \<sigma>) (rev es) = snd x \<and> consts_agree ec (snd x))" by blast+
qed

lemma consts_agree_merge: "consts_agree t E \<or> consts_agree e E \<Longrightarrow> consts_agree (merge_consts t e) E"
  by (auto simp: consts_agree_def merge_consts_def split: if_splits)

lemma emit_branch_sim:
  assumes thn: "lowers_block p B K Kt gt thn" and els: "\<forall>f. els = Some f \<longrightarrow> lowers_block p B K Ke ge f"
    and s: "low_ok s" "em_p s = p" "in_names B K s" and c: "lc_in s cond" and e: "emit_branch cond thn els sp s = Inr (r, s')"
  shows "in_names B Kt s'" "shape s' = shape s"
    "sat s' \<sigma> \<Longrightarrow> knows \<sigma> s E \<Longrightarrow> (if val s \<sigma> cond \<noteq> 0 then gt E else case els of None \<Rightarrow> Some (None, E) | Some _ \<Rightarrow> ge E) = Some x \<Longrightarrow> outcome \<sigma> s' r x"
proof -
  let ?s0 = "s\<lparr>em_cons := em_cons s @ [\<lparr>con_a = cond, con_b = cond, con_c = cond, con_span = Some sp\<rparr>]\<rparr>"
  have kt: "keeps ret_ok thn" and ke: "\<And>f. els = Some f \<Longrightarrow> keeps ret_ok f" using thn els by (auto simp: lowers_block_def)
  obtain tr s1 where t: "thn ?s0 = Inr (tr, s1)"
    and e1: "and_then (emit_else els (em_scopes s) (em_consts s) (s1\<lparr>em_scopes := em_scopes s\<rparr>)) (\<lambda>((er, es, ec), s2).
     and_then (merge_scopes cond sp (em_scopes s1) es [0..<length (em_scopes s)]
         (s2\<lparr>em_consts := merge_consts (em_consts s1) ec\<rparr>)) (\<lambda>(_, s3). Inr (mux_returns cond tr er sp s3))) = Inr (r, s')"
    using e unfolding emit_branch_def by (rule and_thenE) auto
  note P0 = push_emits [OF low_okD(2) [OF s(1)] c c c, where sp = "Some sp"]
  have S0: "steps s ?s0" using emits_steps [OF s(1) P0(1)] .
  have p0: "em_p ?s0 = p" and n0: "in_names B K ?s0" using s(2,3) by (simp_all add: in_names_def shape_def)
  note T = lowers_blockD [OF thn stepsD(1) [OF S0] p0 n0 t]
  have S1: "steps s s1" using steps_trans [OF S0 T(1)] .
  have sh1: "shape s1 = shape s" using T(4) by (simp add: shape_def)
  let ?s2 = "s1\<lparr>em_scopes := em_scopes s\<rparr>"
  have S2: "steps s ?s2" using steps_scopes [OF S1 steps_bindings [OF S1 low_okD(3) [OF s(1)]]] by simp
  obtain er es ec s4 where f: "emit_else els (em_scopes s) (em_consts s) ?s2 = Inr ((er, es, ec), s4)"
    and e2: "and_then (merge_scopes cond sp (em_scopes s1) es [0..<length (em_scopes s)] (s4\<lparr>em_consts := merge_consts (em_consts s1) ec\<rparr>))
      (\<lambda>(_, s3). Inr (mux_returns cond tr er sp s3)) = Inr (r, s')"
    using e1 by (rule and_thenE) auto
  have F: "steps ?s2 s4" "ret_ok s4 er" "bindings_ok s4 es"
    using emit_else_steps [OF ke stepsD(1) [OF S2] _ _ f] low_okD(4) [OF s(1)] stepsD(3) [OF S2] by simp_all
  have sc2: "em_scopes ?s2 = em_scopes s" by simp
  note G = else_sim [OF els s S2 sc2 f]
  let ?s4 = "s4\<lparr>em_consts := merge_consts (em_consts s1) ec\<rparr>"
  have S24: "steps s s4" using steps_trans [OF S2 F(1)] .
  have S4: "steps s ?s4"
    using steps_consts [OF S24 merge_consts_ok] low_okD(4) [OF stepsD(1) [OF S1]] stepsD(3) [OF S1] by simp
  have ok4: "bindings_ok ?s4 (em_scopes s1)" "bindings_ok ?s4 es" "ret_ok ?s4 tr" "ret_ok ?s4 er" "lc_in ?s4 cond"
    using steps_bindings [OF F(1)] steps_ok [OF S1] F(2,3) steps_ret [OF F(1)] T(2) steps_in [OF S4 c] by (simp_all add: rebind)
  have sc4: "em_scopes ?s4 = em_scopes s" "em_p ?s4 = p" using G(2) stepsD(3) [OF S4] s(2) by simp_all
  obtain u s5 where m: "merge_scopes cond sp (em_scopes s1) es [0..<length (em_scopes s)] ?s4 = Inr (u, s5)"
    and fin: "mux_returns cond tr er sp s5 = (r, s')"
    using e2 by (rule and_thenE) auto
  have S45: "steps ?s4 s5" using merge_scopes_steps [OF stepsD(1) [OF S4] ok4(5,1,2) m] .
  have S5: "steps s s5" using steps_trans [OF S4 S45] .
  have lene: "length es = length (em_scopes s)" using arg_cong [OF G(1), of length] by simp
  have dome: "dom (map_of (es ! j)) = dom (map_of (em_scopes s ! j))" if "j < length (em_scopes s)" for j
    using arg_cong [OF G(1), of "\<lambda>xs. xs ! j"] that lene by simp
  have doms: "j < length (em_scopes ?s4) \<and> dom (map_of (em_scopes s1 ! j)) = dom (map_of (em_scopes ?s4 ! j)) \<and> dom (map_of (es ! j)) = dom (map_of (em_scopes ?s4 ! j))"
    if "j \<in> set [0..<length (em_scopes s)]" for j
    using that sc4(1) shape_nth(2) [OF sh1] dome by simp
  note M = merge_scopes_sim [OF stepsD(1) [OF S4] ok4(5,1,2) distinct_upt doms m, unfolded sc4]
  have sh5: "shape s5 = shape s" unfolding shape_map using M by (intro nth_equalityI) simp_all
  have r5: "ret_ok s5 tr" "ret_ok s5 er" "lc_in s5 cond" using steps_ret [OF S45] ok4(3,4) steps_in [OF S5 c] by simp_all
  note R = mux_returns_sim [OF stepsD(1) [OF S5] r5(3,1,2) fin]
  have S5': "steps s5 s'" using mux_returns_steps [OF stepsD(1) [OF S5] r5(3,1,2) fin] by blast
  have cons5: "em_consts s' = merge_consts (em_consts s1) ec" using R(2) M by simp
  show sh: "shape s' = shape s" using sh5 R(1) by (simp add: shape_def)
  have "em_consts s1 n \<noteq> None" if "merge_consts (em_consts s1) ec n \<noteq> None" for n
    using that by (simp add: merge_consts_def split: if_splits)
  then have "dom (em_consts s') \<subseteq> Kt" unfolding cons5 using in_namesD(4) [OF T(3)] unfolding dom_def by blast
  then show "in_names B Kt s'" using s(3) sh by (simp add: in_names_def)
  assume \<sigma>: "sat s' \<sigma>" and k: "knows \<sigma> s E"
    and g: "(if val s \<sigma> cond \<noteq> 0 then gt E else case els of None \<Rightarrow> Some (None, E) | Some _ \<Rightarrow> ge E) = Some x"
  have sat5: "sat s5 \<sigma>" using steps_sat [OF S5' \<sigma>] .
  have sat4: "sat s4 \<sigma>" using steps_sat [OF S45 sat5] by simp
  have sat1: "sat s1 \<sigma>" using steps_sat [OF F(1) sat4] by simp
  have "val s \<sigma> cond * val s \<sigma> cond mod em_p s = val s \<sigma> cond" using steps_sat [OF T(1) sat1] P0(2) by simp
  then have b: "val s \<sigma> cond \<in> {0, 1}"
    using boolean_value [OF low_okD(1) [OF s(1)], of "val s \<sigma> cond"] val_small [OF low_okD(5) [OF s(1)], of \<sigma> cond] by (auto split: if_splits simp: of_bool_def)
  have side5: "side t \<sigma> cond a b = side s \<sigma> cond a b" if "steps s t" for t and a b :: "'b" using steps_p [OF that] by (simp add: side_def)
  have k0: "knows \<sigma> ?s0 E" using k by (simp add: knows_def env_of_def)
  have thn_out: "outcome \<sigma> s1 tr x" if "val s \<sigma> cond = 1" using T(5) [OF sat1 k0] g that by simp
  have els_out: "returned \<sigma> s4 er (fst x) \<and> (fst x = None \<longrightarrow> map (scope_env p \<sigma>) (rev es) = snd x \<and> consts_agree ec (snd x))" if "val s \<sigma> cond = 0"
    using G(3) [OF sat4 k, of x] g that by simp
  have ret: "returned \<sigma> s5 (side s5 \<sigma> cond tr er) (fst x)"
  proof (cases "val s \<sigma> cond = 1")
    case True
    then have "returned \<sigma> s1 tr (fst x)" using thn_out by (simp add: outcome_def)
    then show ?thesis using True returned_p [of s5 s1] stepsD(3) [OF S5] stepsD(3) [OF S1] by (simp add: side_def steps_p [OF S5])
  next
    case False
    then have "returned \<sigma> s4 er (fst x)" using els_out b by simp
    then show ?thesis using False returned_p [of s5 s4] stepsD(3) [OF S5] stepsD(3) [OF S24] by (simp add: side_def steps_p [OF S5])
  qed
  have b5: "val s5 \<sigma> cond \<in> {0, 1}" using b by (simp add: steps_p [OF S5])
  have "returned \<sigma> s' r (fst x)" using R(3) [OF \<sigma> b5 ret] returned_steps [OF S5'] by simp
  moreover have "knows \<sigma> s' (snd x)" if none: "fst x = None"
  proof -
    have nth: "scope_env p \<sigma> (em_scopes s5 ! j) = (if val s \<sigma> cond = 1 then scope_env p \<sigma> (em_scopes s1 ! j) else scope_env p \<sigma> (es ! j))"
      if "j < length (em_scopes s)" for j
      using M that sat5 b by (auto simp: side_def steps_p [OF S4, simplified])
    have p5: "em_p s5 = em_p s" using stepsD(3) [OF S5] .
    have "env_of s5 \<sigma> = snd x \<and> consts_agree (merge_consts (em_consts s1) ec) (snd x)"
    proof (cases "val s \<sigma> cond = 1")
      case True
      have "env_of s5 \<sigma> = map (scope_env (em_p s) \<sigma>) (rev (em_scopes s1))"
        by (rule env_of_cong [OF p5]) (use M nth True s(2) shape_nth(1) [OF sh1] in simp_all)
      then show ?thesis using thn_out [OF True] none consts_agree_merge stepsD(3) [OF S1] by (auto simp: outcome_def knows_def env_of_def)
    next
      case False
      have "env_of s5 \<sigma> = map (scope_env (em_p s) \<sigma>) (rev es)"
        by (rule env_of_cong [OF p5]) (use M nth False s(2) lene in simp_all)
      then show ?thesis using els_out b False none consts_agree_merge s(2) by auto
    qed
    then show ?thesis using R(1) stepsD(3) [OF S5'] cons5 by (simp add: knows_def env_of_def)
  qed
  ultimately show "outcome \<sigma> s' r x" by (simp add: outcome_def)
qed

section \<open>Statements\<close>

abbreviation sound_stmt :: "nat \<Rightarrow> item list \<Rightarrow> nat \<Rightarrow> int \<Rightarrow> string set \<Rightarrow> string set \<Rightarrow> stmt \<Rightarrow> bool" where
  "sound_stmt mu items n p B K st \<equiv>
     lowers_stmt p B K (B \<union> binds st) (K \<union> names_of st) (exec_stmt p mu st) (\<lambda>s. emit_stmt mu items n st s)"

text \<open>A statement list, with the return gathered so far.\<close>

definition sound_stmts :: "nat \<Rightarrow> item list \<Rightarrow> nat \<Rightarrow> int \<Rightarrow> string set \<Rightarrow> string set \<Rightarrow> stmt list \<Rightarrow> bool" where
  "sound_stmts mu items n p B K ss \<longleftrightarrow>
     (\<forall>acc s r s'. low_ok s \<longrightarrow> em_p s = p \<longrightarrow> in_names B K s \<longrightarrow> ret_ok s acc \<longrightarrow> emit_stmts mu items n acc ss s = Inr (r, s') \<longrightarrow>
        (\<exists>B'. in_names B' (K \<union> names_in ss) s') \<and> tl (shape s') = tl (shape s) \<and> hd (shape s) \<subseteq> hd (shape s') \<and>
        (\<forall>\<sigma>. sat s' \<sigma> \<longrightarrow> (\<forall>w. returned \<sigma> s acc (Some w) \<longrightarrow> returned \<sigma> s' r (Some w)) \<and>
           (\<forall>E x. returned \<sigma> s acc None \<longrightarrow> knows \<sigma> s E \<longrightarrow> exec_stmts p mu ss E = Some x \<longrightarrow> outcome \<sigma> s' r x)))"

lemma sound_stmtsD:
  assumes "sound_stmts mu items n p B K ss" "low_ok s" "em_p s = p" "in_names B K s" "ret_ok s acc" "emit_stmts mu items n acc ss s = Inr (r, s')"
  shows "\<exists>B'. in_names B' (K \<union> names_in ss) s'" "tl (shape s') = tl (shape s)" "hd (shape s) \<subseteq> hd (shape s')"
    "sat s' \<sigma> \<Longrightarrow> returned \<sigma> s acc (Some w) \<Longrightarrow> returned \<sigma> s' r (Some w)"
    "sat s' \<sigma> \<Longrightarrow> returned \<sigma> s acc None \<Longrightarrow> knows \<sigma> s E \<Longrightarrow> exec_stmts p mu ss E = Some x \<Longrightarrow> outcome \<sigma> s' r x"
  using assms unfolding sound_stmts_def by blast+

lemma stmts_stmt:
  assumes "sound_stmts mu items n p B K ss"
  shows "lowers_stmt p B K UNIV (K \<union> names_in ss) (exec_stmts p mu ss) (\<lambda>s. emit_stmts mu items n None ss s)"
  unfolding lowers_stmt_def
proof (intro conjI [OF keeps_block [OF lowering_keeps(4)]] allI impI)
  fix s r s' assume s: "low_ok s" "em_p s = p" "in_names B K s" "emit_stmts mu items n None ss s = Inr (r, s')"
  have "returned \<sigma> s None None" for \<sigma> by (simp add: returned_def)
  then show "in_names UNIV (K \<union> names_in ss) s' \<and> tl (shape s') = tl (shape s) \<and> hd (shape s) \<subseteq> hd (shape s') \<and>
      (\<forall>\<sigma> E x. sat s' \<sigma> \<longrightarrow> knows \<sigma> s E \<longrightarrow> exec_stmts p mu ss E = Some x \<longrightarrow> outcome \<sigma> s' r x)"
    using sound_stmtsD [OF assms s(1-3) ret_ok_None s(4)] in_names_mono [OF _ subset_UNIV order_refl] by blast
qed

lemma stmts_block:
  assumes "sound_stmts mu items n p B K (block_stmts b)"
  shows "lowers_block p B K (K \<union> names_in (block_stmts b)) (exec_scoped (exec_stmts p mu (block_stmts b)))
    (in_scope (\<lambda>s. emit_stmts mu items n None (block_stmts b) s))"
  by (rule in_scope_sim [OF stmts_stmt [OF assms]])

lemma assigns_sim:
  assumes "\<And>s r s'. low_ok s \<Longrightarrow> em_p s = p \<Longrightarrow> in_names B K s \<Longrightarrow> f s = Inr (r, s') \<Longrightarrow> r = None \<and> assigns n B K (\<lambda>E. eval p E e) s s'"
    and "keeps ret_ok f"
  shows "lowers_stmt p B K (B \<union> {n}) (K \<union> {n}) (exec_assign p (Ident n sp) e) f"
  unfolding lowers_stmt_def
proof (intro conjI [OF assms(2)] allI impI)
  fix s r s' assume "low_ok s" "em_p s = p" "in_names B K s" "f s = Inr (r, s')"
  then have r: "r = None" and a: "assigns n B K (\<lambda>E. eval p E e) s s'" using assms(1) by blast+
  have u: "B \<union> {n} = insert n B" "K \<union> {n} = insert n K" by auto
  have "outcome \<sigma> s' r x" if \<sigma>: "sat s' \<sigma>" "knows \<sigma> s E" "exec_assign p (Ident n sp) e E = Some x" for \<sigma> E x
  proof -
    obtain v where v: "eval p E e = Some v" "x = (None, env_assign n v E)" using \<sigma>(3) by (auto simp: exec_assign_def)
    then show ?thesis using a \<sigma>(1,2) r by (simp add: assigns_def outcome_def returned_def)
  qed
  then show "in_names (B \<union> {n}) (K \<union> {n}) s' \<and> tl (shape s') = tl (shape s) \<and> hd (shape s) \<subseteq> hd (shape s') \<and>
      (\<forall>\<sigma> E x. sat s' \<sigma> \<longrightarrow> knows \<sigma> s E \<longrightarrow> exec_assign p (Ident n sp) e E = Some x \<longrightarrow> outcome \<sigma> s' r x)"
    using a unfolding u assigns_def updated_def by blast
qed

lemma assign_sim:
  assumes pl: "plain v"
  shows "sound_stmt mu items m p B K (Assign t v sp)"
proof (cases "\<exists>n sp'. t = Ident n sp'")
  case True
  then obtain n sp' where t: "t = Ident n sp'" by blast
  have ve: "sound_expr mu items m p v" using plain_sound(1) pl by blast
  have main: "r = None \<and> assigns n B K (\<lambda>E. eval p E v) s s'"
    if s: "low_ok s" "em_p s = p" "in_names B K s" and e: "emit_stmt mu items m (Assign t v sp) s = Inr (r, s')" for s r s'
  proof (cases "\<exists>l op q s2. v = BinaryOp l op q s2")
    case True
    then obtain l op q s2 where v: "v = BinaryOp l op q s2" by blast
    have "sound_expr mu items m p l" "sound_expr mu items m p q" using plain_sound(1) pl v by auto
    then show ?thesis using assign_binary_sim [OF _ _ _ s] ve e unfolding t v by (simp del: emit_expr.simps)
  next
    case False
    then have "and_then (emit_expr mu items m v s) (\<lambda>(l, s1). Inr (None, assign_value n l s1)) = Inr (r, s')"
      using e unfolding t by (cases v) (simp_all del: emit_expr.simps)
    then obtain l s1 where "emit_expr mu items m v s = Inr (l, s1)" "r = None" "s' = assign_value n l s1" by (rule and_thenE) simp
    then show ?thesis using plain_assigns [OF ve s] by simp
  qed
  have "exec_stmt p mu (Assign t v sp) = exec_assign p (Ident n sp') v" "binds (Assign t v sp) = {n}" "names_of (Assign t v sp) = {n}"
    by (simp_all add: fun_eq_iff t)
  note eqs = this
  show ?thesis unfolding eqs by (rule assigns_sim [OF main lowering_keeps(3)])
next
  case False
  then have "emit_stmt mu items m (Assign t v sp) s \<noteq> Inr x" for s x by (cases t) simp_all
  then show ?thesis unfolding lowers_stmt_def using lowering_keeps(3) by blast
qed

lemma compound_sim:
  assumes pl: "plain v"
  shows "sound_stmt mu items m p B K (CompoundAssign t op v sp)"
proof (cases "\<exists>n sp'. t = Ident n sp'")
  case True
  then obtain n sp' where t: "t = Ident n sp'" by blast
  have ve: "sound_expr mu items m p t" "sound_expr mu items m p v" "sound_expr mu items m p (BinaryOp t op v sp)"
    using plain_sound(1) [of t] plain_sound(1) [of v] plain_sound(1) [of "BinaryOp t op v sp"] pl t by auto
  have main: "r = None \<and> assigns n B K (\<lambda>E. eval p E (BinaryOp t op v sp)) s s'"
    if s: "low_ok s" "em_p s = p" "in_names B K s" and e: "emit_stmt mu items m (CompoundAssign t op v sp) s = Inr (r, s')" for s r s'
    using assign_binary_sim [OF ve s] e unfolding t by (simp del: emit_expr.simps)
  have "exec_stmt p mu (CompoundAssign t op v sp) = exec_assign p (Ident n sp') (BinaryOp t op v sp)"
    "binds (CompoundAssign t op v sp) = {n}" "names_of (CompoundAssign t op v sp) = {n}"
    by (simp_all add: fun_eq_iff t)
  note eqs = this
  show ?thesis unfolding eqs by (rule assigns_sim [OF main lowering_keeps(3)])
next
  case False
  then have "emit_stmt mu items m (CompoundAssign t op v sp) s \<noteq> Inr x" for s x by (cases t) simp_all
  then show ?thesis unfolding lowers_stmt_def using lowering_keeps(3) by blast
qed

end
