(* ===== verification/ZkLowerCorrect.thy ===== *)
theory ZkLowerCorrect
  imports ZkLowerBranch
begin

text \<open>
  The lowering is correct on the fragment of \<open>ZkLowerSem\<close>: whatever satisfies the constraints of
  a lowered function carries, on its output, the value the function returns.
\<close>

section \<open>Statements\<close>

text \<open>Statements that change nothing.\<close>

lemma same_sim:
  assumes "keeps ret_ok f" "\<And>s r s'. low_ok s \<Longrightarrow> em_p s = p \<Longrightarrow> f s = Inr (r, s') \<Longrightarrow> steps s s' \<and> em_scopes s' = em_scopes s \<and> em_consts s' = em_consts s"
    "\<And>s r s' \<sigma> E x. low_ok s \<Longrightarrow> em_p s = p \<Longrightarrow> f s = Inr (r, s') \<Longrightarrow> sat s' \<sigma> \<Longrightarrow> knows \<sigma> s E \<Longrightarrow> g E = Some x \<Longrightarrow>
       returned \<sigma> s' r (fst x) \<and> snd x = E"
  shows "lowers_stmt p B K (B \<union> {}) (K \<union> {}) g f"
  unfolding lowers_stmt_def
proof (intro conjI [OF assms(1)] allI impI)
  fix s r s' assume s: "low_ok s" "em_p s = p" "in_names B K s" "f s = Inr (r, s')"
  have S: "steps s s'" "em_scopes s' = em_scopes s" "em_consts s' = em_consts s" using assms(2) [OF s(1,2,4)] by blast+
  have sh: "shape s' = shape s" using env_of_frame(2) [OF S(1,2)] .
  have "outcome \<sigma> s' r x" if "sat s' \<sigma>" "knows \<sigma> s E" "g E = Some x" for \<sigma> E x
    using assms(3) [OF s(1,2,4) that] that(2) knows_frame [OF S] by (simp add: outcome_def)
  then show "in_names (B \<union> {}) (K \<union> {}) s' \<and> tl (shape s') = tl (shape s) \<and> hd (shape s) \<subseteq> hd (shape s') \<and>
      (\<forall>\<sigma> E x. sat s' \<sigma> \<longrightarrow> knows \<sigma> s E \<longrightarrow> g E = Some x \<longrightarrow> outcome \<sigma> s' r x)"
    using sh in_names_frame [OF sh S(3)] s(3) by simp
qed

lemma expr_sim:
  assumes "plain e"
  shows "sound_stmt mu items m p B K (Expr e)"
proof -
  have e: "sound_expr mu items m p e" using plain_sound(1) assms by blast
  have run: "\<exists>l. emit_expr mu items m e s = Inr (l, s') \<and> r = None" if "emit_stmt mu items m (Expr e) s = Inr (r, s')" for s r s'
    using that by (cases "emit_expr mu items m e s") auto
  have "binds (Expr e) = {}" "names_of (Expr e) = {}" by simp_all
  note eqs = this
  show ?thesis unfolding eqs
  proof (rule same_sim [OF lowering_keeps(3)])
    show "steps s s' \<and> em_scopes s' = em_scopes s \<and> em_consts s' = em_consts s"
      if "low_ok s" "em_p s = p" "emit_stmt mu items m (Expr e) s = Inr (r, s')" for s r s'
      using run [OF that(3)] lowers_exprD [OF e _ that(1,2)] by blast
    show "returned \<sigma> s' r (fst x) \<and> snd x = E"
      if "emit_stmt mu items m (Expr e) s = Inr (r, s')" "exec_stmt p mu (Expr e) E = Some x" for s r s' \<sigma> E x
      using run [OF that(1)] that(2) by (auto simp: returned_def)
  qed
qed

lemma return_sim:
  assumes "\<And>e. q = Some e \<Longrightarrow> plain e"
  shows "sound_stmt mu items m p B K (Return q sp)"
proof -
  have run: "s' = s \<and> q = None \<or> (\<exists>e l. q = Some e \<and> emit_expr mu items m e s = Inr (l, s') \<and> r = Some \<lparr>ret_flag = lc_constant 1, ret_value = l\<rparr>)"
    if "emit_stmt mu items m (Return q sp) s = Inr (r, s')" for s r s'
    using that by (cases q; cases "emit_expr mu items m (the q) s") auto
  have e: "sound_expr mu items m p e" if "q = Some e" for e using plain_sound(1) assms [OF that] by blast
  have "binds (Return q sp) = {}" "names_of (Return q sp) = {}" by simp_all
  note eqs = this
  show ?thesis unfolding eqs
  proof (rule same_sim [OF lowering_keeps(3)])
    show "steps s s' \<and> em_scopes s' = em_scopes s \<and> em_consts s' = em_consts s"
      if "low_ok s" "em_p s = p" "emit_stmt mu items m (Return q sp) s = Inr (r, s')" for s r s'
      using run [OF that(3)] lowers_exprD [OF e _ that(1,2)] steps_refl [OF that(1)] by blast
    show "returned \<sigma> s' r (fst x) \<and> snd x = E"
      if s: "low_ok s" "em_p s = p" and em: "emit_stmt mu items m (Return q sp) s = Inr (r, s')" and \<sigma>: "sat s' \<sigma>"
        and k: "knows \<sigma> s E" and x: "exec_stmt p mu (Return q sp) E = Some x" for s r s' \<sigma> E x
    proof -
      obtain ex v where ev: "q = Some ex" "eval p E ex = Some v" "x = (Some v, E)" using x by (cases q) auto
      then obtain l where l: "emit_expr mu items m ex s = Inr (l, s')" "r = Some \<lparr>ret_flag = lc_constant 1, ret_value = l\<rparr>"
        using run [OF em] by auto
      note L = lowers_exprD [OF e [OF ev(1)] l(1) s]
      have "val s \<sigma> l = v" using L(5) [OF \<sigma> knows_reads [OF s(1) steps_sat [OF L(1) \<sigma>] k] ev(2)] .
      moreover have "val s' \<sigma> (lc_constant 1) = 1"
        using val_const [where \<sigma> = \<sigma>, OF sat_0 [OF \<sigma>], of s' 1] low_okD(6) [OF stepsD(1) [OF L(1)]] by simp
      ultimately show ?thesis using l(2) ev(3) by (simp add: returned_def steps_p [OF L(1)])
    qed
  qed
qed

lemma const_value:
  assumes e: "sound_expr mu items m p e" and l: "emit_expr mu items m e s = Inr (l, s')" and s: "low_ok s" "em_p s = p"
    and c: "lc_is_constant p l = Some c" and \<sigma>: "sat s' \<sigma>" "knows \<sigma> s E" and v: "eval p E e = Some v"
  shows "c = v"
proof -
  note L = lowers_exprD [OF e l s]
  have "val s \<sigma> l = v" using L(5) [OF \<sigma>(1) knows_reads [OF s(1) steps_sat [OF L(1) \<sigma>(1)] \<sigma>(2)] v] .
  moreover have "val s \<sigma> l = c" using val_is_constant [where \<sigma> = \<sigma>, OF _ sat_0 [OF \<sigma>(1)] low_okD(5) [OF s(1)]] c s(2) by blast
  ultimately show ?thesis by simp
qed

lemma for_sim:
  assumes pl: "plain a" "plain b" "\<And>e. st = Some e \<Longrightarrow> plain e" and var: "var \<notin> B"
    and body: "sound_stmts mu items m p (insert var B) (K \<union> insert var (names_in (block_stmts body))) (block_stmts body)"
  shows "sound_stmt mu items m p B K (For var a b st body iv u tile pf sp)"
proof -
  let ?K = "K \<union> insert var (names_in (block_stmts body))"
  have ea: "sound_expr mu items m p a" and eb: "sound_expr mu items m p b" using plain_sound(1) pl(1,2) by blast+
  have es: "sound_expr mu items m p e" if "st = Some e" for e using plain_sound(1) pl(3) [OF that] by blast
  have bs: "lowers_stmt p (insert var B) ?K UNIV ?K (exec_stmts p mu (block_stmts body)) (\<lambda>s. emit_stmts mu items m None (block_stmts body) s)"
  proof -
    have "?K \<union> names_in (block_stmts body) = ?K" by auto
    then show ?thesis using stmts_stmt [OF body] by simp
  qed
  have main: "in_names B ?K s' \<and> shape s' = shape s \<and>
      (\<forall>\<sigma> E x. sat s' \<sigma> \<longrightarrow> knows \<sigma> s E \<longrightarrow> exec_stmt p mu (For var a b st body iv u tile pf sp) E = Some x \<longrightarrow> outcome \<sigma> s' r x)"
    if s: "low_ok s" "em_p s = p" "in_names B K s" and e: "emit_stmt mu items m (For var a b st body iv u tile pf sp) s = Inr (r, s')" for s r s'
  proof -
    obtain al s1 where al: "emit_expr mu items m a s = Inr (al, s1)" using e by (auto elim: and_thenE)
    note A = lowers_exprD [OF ea al s(1,2)]
    have s1: "low_ok s1" "em_p s1 = p" using stepsD [OF A(1)] s(2) by simp_all
    obtain bl s2 where bl: "emit_expr mu items m b s1 = Inr (bl, s2)" using e al by (auto elim: and_thenE)
    note Bb = lowers_exprD [OF eb bl s1]
    have s2: "low_ok s2" "em_p s2 = p" using stepsD [OF Bb(1)] s1(2) by simp_all
    obtain first last_v where c: "lc_is_constant p al = Some first" "lc_is_constant p bl = Some last_v"
      using e al bl s2(2) by (auto split: option.splits)
    obtain step s3 where q: "(case st of None \<Rightarrow> Inr (1, s2)
        | Some e \<Rightarrow> and_then (emit_expr mu items m e s2) (\<lambda>(l, s3).
            case lc_is_constant (em_p s3) l of None \<Rightarrow> Inl (LoopStep (sp_line sp)) | Some c \<Rightarrow> Inr (c, s3))) = Inr (step, s3)"
      and w: "unroll mu mu var (\<lambda>s. emit_stmts mu items m None (block_stmts body) s) step last_v sp first None s3 = Inr (r, s')"
      using e al bl c s2(2) by (auto elim: and_thenE)
    have S2: "steps s s2" using steps_trans [OF A(1) Bb(1)] .
    have fr2: "em_scopes s2 = em_scopes s" "em_consts s2 = em_consts s" using A Bb by simp_all
    obtain l where stp: "st = None \<and> s3 = s2 \<and> step = 1 \<or> (\<exists>e. st = Some e \<and> emit_expr mu items m e s2 = Inr (l, s3) \<and> lc_is_constant (em_p s3) l = Some step)"
      using q by (cases st) (auto elim!: and_thenE split: option.splits)
    have S3: "steps s2 s3 \<and> em_scopes s3 = em_scopes s2 \<and> em_consts s3 = em_consts s2"
      using stp steps_refl [OF s2(1)] lowers_exprD [OF es _ s2] by blast
    have s3: "low_ok s3" "em_p s3 = p" using stepsD [OF conjunct1 [OF S3]] s2(2) by simp_all
    have S13: "steps s s3" using steps_trans [OF S2] S3 by blast
    have fr3: "em_scopes s3 = em_scopes s" "em_consts s3 = em_consts s" using S3 fr2 by simp_all
    have n3: "in_names B ?K s3" using in_names_frame [OF env_of_frame(2) [OF S13 fr3(1)] fr3(2)] in_names_mono [OF s(3) order_refl, of ?K] by blast
    have first: "0 \<le> first" "first < p" using lc_is_constant_range [OF _ c(1)] low_okD(5) [OF s(1)] s(2) by simp_all
    have varK: "var \<in> ?K" by simp
    note U = unroll_sim [OF bs var varK s3 n3 ret_ok_None first w]
    have S3': "steps s3 s'" using unroll_steps [OF keeps_block [OF lowering_keeps(4)] s3(1) ret_ok_None first(1) _ w] first(2) s3(2) by simp
    have "outcome \<sigma> s' r x" if \<sigma>: "sat s' \<sigma>" and k: "knows \<sigma> s E" and g: "exec_stmt p mu (For var a b st body iv u tile pf sp) E = Some x" for \<sigma> E x
    proof -
      obtain fa lb sv where ev: "eval p E a = Some fa" "eval p E b = Some lb" "(case st of None \<Rightarrow> Some 1 | Some e \<Rightarrow> eval p E e) = Some sv"
        and loop: "exec_loop p mu var (exec_stmts p mu (block_stmts body)) sv lb fa E = Some x"
        using g by (cases "eval p E a"; cases "eval p E b"; cases "case st of None \<Rightarrow> Some 1 | Some e \<Rightarrow> eval p E e") simp_all
      have sat3: "sat s3 \<sigma>" using steps_sat [OF S3' \<sigma>] .
      have sat2: "sat s2 \<sigma>" using steps_sat [OF conjunct1 [OF S3] sat3] .
      have sat1: "sat s1 \<sigma>" using steps_sat [OF Bb(1) sat2] .
      have k1: "knows \<sigma> s1 E" using knows_frame [OF A(1,3,4)] k by simp
      have k2: "knows \<sigma> s2 E" using knows_frame [OF S2 fr2] k by simp
      have k3: "knows \<sigma> s3 E" using knows_frame [OF S13 fr3] k by simp
      have "first = fa" using const_value [OF ea al s(1,2) c(1) sat1 k ev(1)] .
      moreover have "last_v = lb" using const_value [OF eb bl s1 c(2) sat2 k1 ev(2)] .
      moreover have "step = sv"
      proof (cases st)
        case (Some e)
        then have "emit_expr mu items m e s2 = Inr (l, s3)" "lc_is_constant p l = Some step" using stp s3(2) by auto
        then show ?thesis using const_value [OF es [OF Some] _ s2 _ sat3 k2, of l step sv] ev(3) Some by simp
      qed (use stp ev(3) in simp)
      moreover have "returned \<sigma> s3 None None" by (simp add: returned_def)
      ultimately show ?thesis using U \<sigma> k3 loop by blast
    qed
    then show ?thesis using U env_of_frame(2) [OF S13 fr3(1)] by simp
  qed
  have eqs: "binds (For var a b st body iv u tile pf sp) = {}" "names_of (For var a b st body iv u tile pf sp) = insert var (names_in (block_stmts body))" by simp_all
  show ?thesis unfolding eqs lowers_stmt_def
    by (intro conjI [OF lowering_keeps(3)] allI impI) (use main in simp)
qed

lemma if_sim:
  assumes pl: "plain c" and tb: "sound_stmts mu items m p B K (block_stmts tb)" and eb: "\<And>b. eb = Some b \<Longrightarrow> sound_stmts mu items m p B K (block_stmts b)"
  shows "sound_stmt mu items m p B K (If c tb eb u sp)"
proof -
  let ?K = "K \<union> names_of (If c tb eb u sp)"
  let ?thn = "in_scope (\<lambda>s. emit_stmts mu items m None (block_stmts tb) s)"
  let ?els = "case eb of Some b \<Rightarrow> Some (in_scope (\<lambda>s. emit_stmts mu items m None (block_stmts b) s)) | None \<Rightarrow> None"
  let ?gt = "exec_scoped (exec_stmts p mu (block_stmts tb))" and ?ge = "case eb of Some b \<Rightarrow> exec_scoped (exec_stmts p mu (block_stmts b)) | None \<Rightarrow> (\<lambda>_. None)"
  have ec: "sound_expr mu items m p c" using plain_sound(1) pl by blast
  have T: "lowers_block p B K ?K ?gt ?thn" by (rule block_mono [OF stmts_block [OF tb]]) auto
  have E: "lowers_block p B K ?K (exec_scoped (exec_stmts p mu (block_stmts b))) (in_scope (\<lambda>s. emit_stmts mu items m None (block_stmts b) s))"
    if "eb = Some b" for b by (rule block_mono [OF stmts_block [OF eb [OF that]]]) (auto simp: that)
  have Eb: "\<forall>f. ?els = Some f \<longrightarrow> lowers_block p B K ?K ?ge f" using E by (cases eb) simp_all
  have main: "in_names B ?K s' \<and> shape s' = shape s \<and>
      (\<forall>\<sigma> E x. sat s' \<sigma> \<longrightarrow> knows \<sigma> s E \<longrightarrow> exec_stmt p mu (If c tb eb u sp) E = Some x \<longrightarrow> outcome \<sigma> s' r x)"
    if s: "low_ok s" "em_p s = p" "in_names B K s" and e: "emit_stmt mu items m (If c tb eb u sp) s = Inr (r, s')" for s r s'
  proof -
    obtain cl s1 where cl: "emit_expr mu items m c s = Inr (cl, s1)" using e by (auto elim: and_thenE)
    note C = lowers_exprD [OF ec cl s(1,2)]
    have s1: "low_ok s1" "em_p s1 = p" using stepsD [OF C(1)] s(2) by simp_all
    have sh1: "shape s1 = shape s" using env_of_frame(2) [OF C(1,3)] .
    have n1: "in_names B K s1" using in_names_frame [OF sh1 C(4)] s(3) by simp
    have k1: "knows \<sigma> s1 E" if "knows \<sigma> s E" for \<sigma> E using knows_frame [OF C(1,3,4)] that by simp
    have n1': "in_names B ?K s1" using in_names_mono [OF n1 order_refl, of ?K] by blast
    show ?thesis
    proof (cases "lc_is_constant p cl")
      case (Some k)
      have cv: "k = v" if "sat s1 \<sigma>" "knows \<sigma> s E" "eval p E c = Some v" for \<sigma> E v using const_value [OF ec cl s(1,2) Some that] .
      consider "k \<noteq> 0" "?thn s1 = Inr (r, s')" | b where "k = 0" "eb = Some b" "in_scope (\<lambda>s. emit_stmts mu items m None (block_stmts b) s) s1 = Inr (r, s')"
        | "k = 0" "eb = None" "r = None" "s' = s1"
        using e cl Some s1(2) by (cases "k = 0"; cases eb) auto
      then show ?thesis
      proof cases
        case 1
        note D = lowers_blockD [OF T s1 n1 1(2)]
        have "outcome \<sigma> s' r x" if "sat s' \<sigma>" "knows \<sigma> s E" "exec_stmt p mu (If c tb eb u sp) E = Some x" for \<sigma> E x
          using D(5) [OF that(1) k1 [OF that(2)]] cv [OF steps_sat [OF D(1) that(1)] that(2)] that(3) 1(1) by (auto split: option.splits if_splits)
        then show ?thesis using D(3,4) sh1 by simp
      next
        case (2 b)
        note D = lowers_blockD [OF E [OF 2(2)] s1 n1 2(3)]
        have "outcome \<sigma> s' r x" if "sat s' \<sigma>" "knows \<sigma> s E" "exec_stmt p mu (If c tb eb u sp) E = Some x" for \<sigma> E x
          using D(5) [OF that(1) k1 [OF that(2)]] cv [OF steps_sat [OF D(1) that(1)] that(2)] that(3) 2(1,2) by (auto split: option.splits if_splits)
        then show ?thesis using D(3,4) sh1 by simp
      next
        case 3
        have "outcome \<sigma> s' r x" if "sat s' \<sigma>" "knows \<sigma> s E" "exec_stmt p mu (If c tb eb u sp) E = Some x" for \<sigma> E x
          using k1 [OF that(2)] cv [OF _ that(2)] that(1,3) 3 by (auto simp: outcome_def returned_def split: option.splits if_splits)
        then show ?thesis using n1' sh1 3(4) by simp
      qed
    next
      case None
      have br: "emit_branch cl ?thn ?els sp s1 = Inr (r, s')" using e cl None s1(2) by simp
      note D = emit_branch_sim [OF T Eb s1 n1 C(2) br]
      have S: "steps s1 s'"
        using emit_branch_steps [OF _ _ s1(1) C(2) br] T Eb by (simp add: lowers_block_def)
      have "outcome \<sigma> s' r x" if \<sigma>: "sat s' \<sigma>" and k: "knows \<sigma> s E" and x: "exec_stmt p mu (If c tb eb u sp) E = Some x" for \<sigma> E x
      proof -
        obtain v where v: "eval p E c = Some v" using x by (cases "eval p E c") simp_all
        have sat1: "sat s1 \<sigma>" using steps_sat [OF S \<sigma>] .
        have "val s1 \<sigma> cl = v" using C(5) [OF sat1 knows_reads [OF s(1) steps_sat [OF C(1) sat1] k] v] by (simp add: steps_p [OF C(1)])
        then have "(if val s1 \<sigma> cl \<noteq> 0 then ?gt E else case ?els of None \<Rightarrow> Some (None, E) | Some _ \<Rightarrow> ?ge E) = Some x"
          using x v by (cases eb; cases "v = 0") auto
        then show ?thesis using D(3) [OF \<sigma> k1 [OF k]] by blast
      qed
      then show ?thesis using D(1,2) sh1 by simp
    qed
  qed
  have eqs: "binds (If c tb eb u sp) = {}" by simp
  show ?thesis unfolding eqs lowers_stmt_def
    by (intro conjI [OF lowering_keeps(3)] allI impI) (use main in simp)
qed

lemma nil_sim: "sound_stmts mu items m p B K []"
  by (auto simp: sound_stmts_def outcome_def)

lemma cons_sim:
  assumes st: "sound_stmt mu items m p B K st" and ss: "sound_stmts mu items m p (B \<union> binds st) (K \<union> names_of st) ss"
  shows "sound_stmts mu items m p B K (st # ss)"
proof -
  have main: "(\<exists>B'. in_names B' (K \<union> names_in (st # ss)) s') \<and> tl (shape s') = tl (shape s) \<and> hd (shape s) \<subseteq> hd (shape s') \<and>
        (\<forall>\<sigma>. sat s' \<sigma> \<longrightarrow> (\<forall>w. returned \<sigma> s acc (Some w) \<longrightarrow> returned \<sigma> s' r (Some w)) \<and>
           (\<forall>E x. returned \<sigma> s acc None \<longrightarrow> knows \<sigma> s E \<longrightarrow> exec_stmts p mu (st # ss) E = Some x \<longrightarrow> outcome \<sigma> s' r x))"
    if s: "low_ok s" "em_p s = p" "in_names B K s" and acc: "ret_ok s acc" and e: "emit_stmts mu items m acc (st # ss) s = Inr (r, s')" for acc s r s'
  proof (cases "always_returns s acc")
    case True
    then have "r = acc" "s' = s" using e by simp_all
    moreover have "\<not> returned \<sigma> s acc None" if "sat s \<sigma>" for \<sigma> using always_returned [where \<sigma> = \<sigma>, OF True s(1)] sat_0 [OF that] by blast
    moreover have "\<exists>B'. in_names B' (K \<union> names_in (st # ss)) s" using in_names_mono [OF s(3) order_refl] by blast
    ultimately show ?thesis by blast
  next
    case False
    obtain here s1 where h: "emit_stmt mu items m st s = Inr (here, s1)" using e False by (auto elim: and_thenE)
    obtain acc' s2 where q: "seq_returns acc here (stmt_span st) s1 = (acc', s2)" by force
    have e2: "emit_stmts mu items m acc' ss s2 = Inr (r, s')" using e False h q by simp
    note H = lowers_stmtD [OF st s h]
    have low1: "low_ok s1" using stepsD(1) [OF H(1)] .
    have acc1: "ret_ok s1 acc" using steps_ret [OF H(1) acc] .
    note Q = seq_sim [OF low1 acc1 H(2) q]
    have Qs: "steps s1 s2" "ret_ok s2 acc'" using seq_returns_steps [OF low1 acc1 H(2) q] by simp_all
    have s2: "low_ok s2" "em_p s2 = p" using stepsD [OF Qs(1)] stepsD(3) [OF H(1)] s(2) by simp_all
    have sh2: "shape s2 = shape s1" using env_of_frame(2) [OF Qs(1) Q(1)] .
    have n2: "in_names (B \<union> binds st) (K \<union> names_of st) s2" using in_names_frame [OF sh2 Q(2)] H(3) by simp
    note R = sound_stmtsD [OF ss s2 n2 Qs(2) e2]
    have S2: "steps s2 s'"
      using lowering_keeps(4) [of mu items m ss] e2 s2(1) Qs(2) by blast
    have r1: "returned \<sigma> s1 acc rr = returned \<sigma> s acc rr" for \<sigma> rr using returned_steps [OF H(1)] .
    have r2: "returned \<sigma> s2 acc' rr = returned \<sigma> s1 acc' rr" for \<sigma> rr using returned_steps [OF Qs(1)] .
    have kept: "returned \<sigma> s' r (Some w)" if "sat s' \<sigma>" "returned \<sigma> s acc (Some w)" for \<sigma> w
      using R(4) [OF that(1)] Q(3) [OF steps_sat [OF S2 that(1)]] that(2) r1 r2 by simp
    have went: "outcome \<sigma> s' r x" if \<sigma>: "sat s' \<sigma>" and a: "returned \<sigma> s acc None" and k: "knows \<sigma> s E" and x: "exec_stmts p mu (st # ss) E = Some x" for \<sigma> E x
    proof -
      have sat2: "sat s2 \<sigma>" using steps_sat [OF S2 \<sigma>] .
      have sat1: "sat s1 \<sigma>" using steps_sat [OF Qs(1) sat2] .
      obtain rr E1 where y: "exec_stmt p mu st E = Some (rr, E1)" using x by (cases "exec_stmt p mu st E") (auto simp: exec_seq_def)
      have o: "outcome \<sigma> s1 here (rr, E1)" using H(6) [OF sat1 k y] .
      then have ret: "returned \<sigma> s2 acc' rr" using Q(4) [OF sat2, of rr] a r1 r2 by (simp add: outcome_def)
      show ?thesis
      proof (cases rr)
        case None
        have "knows \<sigma> s2 E1" using o None knows_frame [OF Qs(1) Q(1,2)] by (simp add: outcome_def)
        moreover have "exec_stmts p mu ss E1 = Some x" using x y None by (simp add: exec_seq_def)
        ultimately show ?thesis using R(5) [OF \<sigma>] ret None by blast
      next
        case (Some w)
        then have "x = (Some w, E1)" using x y by (simp add: exec_seq_def)
        then show ?thesis using R(4) [OF \<sigma>] ret Some by (simp add: outcome_def)
      qed
    qed
    have "K \<union> names_of st \<union> names_in ss = K \<union> names_in (st # ss)" by auto
    then have "\<exists>B'. in_names B' (K \<union> names_in (st # ss)) s'" using R(1) by simp
    moreover have "tl (shape s') = tl (shape s)" "hd (shape s) \<subseteq> hd (shape s')" using R(2,3) H(4,5) sh2 by auto
    ultimately show ?thesis using kept went by blast
  qed
  then show ?thesis unfolding sound_stmts_def by blast
qed

section \<open>The fragment\<close>

lemma refused_sim:
  assumes "\<And>s x. emit_stmt mu items m st s \<noteq> Inr x"
  shows "sound_stmt mu items m p B K st"
  unfolding lowers_stmt_def using lowering_keeps(3) assms by blast

lemma erased_sim:
  assumes "\<And>s. emit_stmt mu items m st s = Inr (None, s)" "\<And>E. exec_stmt p mu st E = Some (None, E)" "binds st = {}" "names_of st = {}"
  shows "sound_stmt mu items m p B K st"
  unfolding assms(3,4)
  by (rule same_sim [OF lowering_keeps(3)]) (auto simp: assms(1,2) steps_refl returned_def)

lemma raw_sim:
  assumes n: "n \<notin> B" "n \<notin> K"
  shows "sound_stmt mu items m p B K (Let n t None c z b sp)"
proof -
  have main: "in_names (insert n B) (insert n K) s' \<and> tl (shape s') = tl (shape s) \<and> hd (shape s) \<subseteq> hd (shape s')"
    if s: "low_ok s" "in_names B K s" and e: "emit_stmt mu items m (Let n t None c z b sp) s = Inr (r, s')" for s r s'
  proof -
    obtain w s1 where w: "new_wire n s = (w, s1)" by force
    have N: "steps s s1" "lc_in s1 (lc_variable w)" using new_wire_steps [OF s(1) w] by simp_all
    have fr: "em_scopes s1 = em_scopes s" "em_consts s1 = em_consts s" using w by (auto simp: new_wire_eq)
    have n1: "in_names B K s1" using in_names_frame [OF env_of_frame(2) [OF N(1) fr(1)] fr(2)] s(2) by simp
    let ?s2 = "bind n (Wire w) s1"
    have "and_then (emit_bounds n b (lc_variable w) ?s2) (\<lambda>(_, s2). Inr (None, s2)) = Inr (r, s')"
      using e w by (simp add: bind_raw_def)
    then obtain u where bd: "emit_bounds n b (lc_variable w) ?s2 = Inr (u, s')" by (rule and_thenE) simp
    have S2: "steps s ?s2" "lc_in ?s2 (lc_variable w)" using bind_wire_steps [OF s(1) w] by simp_all
    note C = bounds_emits [OF stepsD(1) [OF S2(1)] S2(2) bd]
    note D = env_of_bind(2,3) [OF in_namesD(5) [OF n1], of n "Wire w"]
    have sh: "shape s' = insert n (hd (shape s)) # tl (shape s)" using env_of_frame(2) [OF C(1,2)] D(1) env_of_frame(2) [OF N(1) fr(1)] by simp
    have "in_names (insert n B) K s'" using bind_names [OF n1 n(1), of "Wire w"] in_names_frame [OF env_of_frame(2) [OF C(1,2)] C(3)] by simp
    then have "in_names (insert n B) (insert n K) s'" by (rule in_names_mono) auto
    then show ?thesis using sh by auto
  qed
  have "B \<union> {n} = insert n B" "K \<union> {n} = insert n K" by auto
  then show ?thesis unfolding lowers_stmt_def
    by (intro conjI [OF lowering_keeps(3)] allI impI) (use main in simp)
qed

lemma exec_safe: "exec_stmt p mu (SafeBlock b sp) = exec_scoped (exec_stmts p mu (block_stmts b))"
  by (simp add: fun_eq_iff)

lemma exec_ghost: "exec_stmt p mu (GhostBlock b sp) = exec_scoped (exec_stmts p mu (block_stmts b))"
  by (simp add: fun_eq_iff)

lemma fragment_sim:
  fixes e :: expr and es :: "expr list"
  shows "e = e" "es = es" "\<forall>B K. fresh_stmt B K st \<longrightarrow> sound_stmt mu items m p B K st" "\<forall>B K. fresh_stmts B K ss \<longrightarrow> sound_stmts mu items m p B K ss"
proof (induction m e and m es and m st and m ss rule: lowering_induct [where items = items])
  case (7 n a t init c z b sp)
  have s: "B \<union> {a} = insert a B" "K \<union> {a} = insert a K" for B K by auto
  have "sound_stmt mu items n p B K (Let a t init c z b sp)" if "fresh_stmt B K (Let a t init c z b sp)" for B K
  proof (cases init)
    case None
    then show ?thesis using raw_sim that by simp
  next
    case (Some e)
    then have e: "sound_expr mu items n p e" using plain_sound(1) that by simp
    have "binds (Let a t init c z b sp) = {a}" "names_of (Let a t init c z b sp) = {a}" by simp_all
    note eqs = this
    show ?thesis unfolding eqs s unfolding Some using let_sim [OF e] that by simp
  qed
  then show ?case by blast
next
  case (8 n t v sp)
  show ?case by (intro allI impI assign_sim) simp
next
  case (9 n t op v sp)
  show ?case by (intro allI impI compound_sim) simp
next
  case (10 n var a b st body iv u tile pf sp)
  show ?case
  proof (intro allI impI for_sim)
    fix B K assume f: "fresh_stmt B K (For var a b st body iv u tile pf sp)"
    then show "plain a" "plain b" "var \<notin> B" by simp_all
    show "plain e" if "st = Some e" for e using f that by simp
    show "sound_stmts mu items n p (insert var B) (K \<union> insert var (names_in (block_stmts body))) (block_stmts body)"
      using 10(4) f by simp
  qed
next
  case (11 n c tb eb u sp)
  show ?case
  proof (intro allI impI if_sim)
    fix B K assume f: "fresh_stmt B K (If c tb eb u sp)"
    then show "plain c" "sound_stmts mu items n p B K (block_stmts tb)" using 11(2) by simp_all
    show "sound_stmts mu items n p B K (block_stmts b)" if "eb = Some b" for b using 11(3) [OF that] f that by simp
  qed
next
  case (12 n r sp)
  show ?case by (intro allI impI return_sim) (auto split: option.splits)
next
  case (13 n e)
  show ?case by (intro allI impI expr_sim) simp
next
  case (15 n b sp)
  have "sound_stmt mu items n p B K (SafeBlock b sp)" if "fresh_stmt B K (SafeBlock b sp)" for B K
  proof -
    have "lowers_block p B K (K \<union> names_in (block_stmts b)) (exec_stmt p mu (SafeBlock b sp)) (\<lambda>s. emit_stmt mu items n (SafeBlock b sp) s)"
      using stmts_block 15 that by (simp add: exec_safe)
    then show ?thesis by (rule block_stmt) auto
  qed
  then show ?case by blast
next
  case (16 n b sp)
  have "sound_stmt mu items n p B K (GhostBlock b sp)" if "fresh_stmt B K (GhostBlock b sp)" for B K
  proof -
    have "lowers_block p B K (K \<union> names_in (block_stmts b)) (exec_stmt p mu (GhostBlock b sp)) (\<lambda>s. emit_stmt mu items n (GhostBlock b sp) s)"
      using stmts_block 16 that by (simp add: exec_ghost)
    then show ?thesis by (rule block_stmt) auto
  qed
  then show ?case by blast
next
  case (17 n st c b iv mi u sp)
  then show ?case by (intro allI impI refused_sim) simp
next
  case (18 n sp)
  then show ?case by (intro allI impI refused_sim) simp
next
  case (19 n e as sp)
  then show ?case by (intro allI impI refused_sim) simp
next
  case (20 n b sp)
  then show ?case by (intro allI impI refused_sim) simp
next
  case (21 n e b sp)
  then show ?case by (intro allI impI refused_sim) simp
next
  case (22 n a t sp)
  then show ?case by (intro allI impI erased_sim) simp_all
next
  case (23 n e m sp)
  then show ?case by (intro allI impI erased_sim) simp_all
next
  case 24
  then show ?case using nil_sim by simp
next
  case (25 n st ss)
  then show ?case using cons_sim by simp
qed simp_all

end
