(* ===== verification/ZkLowerProps.thy ===== *)
theory ZkLowerProps
  imports ZkLowerCorrect ZkCircuitProps
begin

text \<open>
  The properties of the lowering: it ends, it delivers a well-formed circuit, and on the fragment
  without calls the circuit, before and after the optimiser, accepts nothing but the value of the
  program. Outside the fragment a recorded constant can outlive its variable.
\<close>

section \<open>From an entry function to a circuit\<close>

text \<open>The state \<^verbatim>\<open>emit_program\<close> hands to the entry point.\<close>

definition program_state :: "int \<Rightarrow> scalar_field \<Rightarrow> proof_scheme \<Rightarrow> em" where
  "program_state p field scheme = (em_new p)\<lparr>em_field := field, em_scheme := scheme\<rparr>"

definition input_env :: "int \<Rightarrow> param list \<Rightarrow> int list \<Rightarrow> env" where
  "input_env p ps xs = fold (\<lambda>(q, x). env_declare (par_name q) (x mod p)) (zip ps xs) [Map.empty]"

text \<open>What the entry function returns on the inputs \<open>xs\<close>.\<close>

definition program_value :: "int \<Rightarrow> nat \<Rightarrow> func_decl \<Rightarrow> int list \<Rightarrow> int option" where
  "program_value p mu f xs =
     (case exec_scoped (exec_stmts p mu (block_stmts (fd_body f))) (input_env p (fd_params f) xs) of
        Some (r, _) \<Rightarrow> r
      | None \<Rightarrow> None)"

definition in_fragment :: "func_decl \<Rightarrow> bool" where
  "in_fragment f = fresh_stmts (set (map par_name (fd_params f))) {} (block_stmts (fd_body f))"

lemma program_state_low:
  assumes "is_prime p"
  shows "low_ok (program_state p fd sc)" "em_p (program_state p fd sc) = p" "em_next (program_state p fd sc) = 1"
    "em_scopes (program_state p fd sc) = [[]]" "em_consts (program_state p fd sc) = Map.empty" "em_calls (program_state p fd sc) = []"
    "em_pub (program_state p fd sc) = []" "em_prv (program_state p fd sc) = []" "em_outs (program_state p fd sc) = []"
  using assms by (simp_all add: program_state_def em_new_def low_ok_def wires_ok_def boundary_of_def scope_ok_def consts_ok_def)

lemma bind_input_env:
  assumes "em_scopes s \<noteq> []"
  shows "env_of (bind_input q s) \<sigma> = env_declare (par_name q) (\<sigma> (em_next s) mod em_p s) (env_of s \<sigma>)"
    "shape (bind_input q s) = insert (par_name q) (hd (shape s)) # tl (shape s)" "em_scopes (bind_input q s) \<noteq> []"
proof -
  let ?t = "s\<lparr>em_next := em_next s + 1, em_vars := em_vars s @ [par_name q @ ''_'' @ nat_dec (em_next s)], em_prv := em_prv s @ [em_next s]\<rparr>"
  have e: "bind_input q s = bind (par_name q) (Wire (em_next s)) ?t" by (simp add: bind_input_def new_wire_eq)
  have t: "em_scopes ?t \<noteq> []" "env_of ?t \<sigma> = env_of s \<sigma>" "shape ?t = shape s" "em_p ?t = em_p s"
    using assms by (simp_all add: env_of_def shape_def)
  have "val ?t \<sigma> (binding_lc (Wire (em_next s))) = \<sigma> (em_next s) mod em_p s" by (simp add: binding_lc_def val_def)
  then show "env_of (bind_input q s) \<sigma> = env_declare (par_name q) (\<sigma> (em_next s) mod em_p s) (env_of s \<sigma>)"
    "shape (bind_input q s) = insert (par_name q) (hd (shape s)) # tl (shape s)"
    unfolding e using env_of_bind(1,2) [OF t(1), of "par_name q" "Wire (em_next s)"] t by simp_all
  show "em_scopes (bind_input q s) \<noteq> []" unfolding e using assms by (simp add: bind_def)
qed

lemma bind_inputs_env:
  "low_ok s \<Longrightarrow> em_scopes s \<noteq> [] \<Longrightarrow> map \<sigma> [em_next s ..< em_next s + length ps] = xs \<Longrightarrow>
   env_of (fold bind_input ps s) \<sigma> = fold (\<lambda>(q, x). env_declare (par_name q) (x mod em_p s)) (zip ps xs) (env_of s \<sigma>) \<and>
   shape (fold bind_input ps s) = (set (map par_name ps) \<union> hd (shape s)) # tl (shape s)"
proof (induction ps arbitrary: s xs)
  case Nil
  then show ?case by (simp add: shape_def)
next
  case (Cons q ps)
  note B = bind_input_low [OF Cons.prems(1), of q]
  note Ev = bind_input_env [OF Cons.prems(2), of q]
  obtain x ys where xs: "xs = x # ys" "x = \<sigma> (em_next s)" "map \<sigma> [em_next (bind_input q s) ..< em_next (bind_input q s) + length ps] = ys"
    using Cons.prems(3) B(3) by (auto simp: upt_conv_Cons simp del: upt_Suc)
  show ?case using Cons.IH [OF B(1) Ev(3) xs(3)] Ev(1,2) B(7) xs(1,2) by (simp add: insert_commute)
qed

lemma entry_env:
  assumes p: "is_prime p" and xs: "map \<sigma> [1 ..< 1 + length (fd_params f)] = xs"
  shows "env_of (entry_state f (program_state p fd sc)) \<sigma> = input_env p (fd_params f) xs"
    "shape (entry_state f (program_state p fd sc)) = [set (map par_name (fd_params f))]"
proof -
  note P = program_state_low [OF p, of fd sc]
  let ?s = "push_call (fd_name f) (program_state p fd sc)"
  have s: "low_ok ?s" "em_scopes ?s \<noteq> []" "em_next ?s = 1" "em_p ?s = p" "env_of ?s \<sigma> = [Map.empty]" "shape ?s = [{}]"
    using P by (simp_all add: push_call_def env_of_def shape_def scope_env_def)
  have "map \<sigma> [em_next ?s ..< em_next ?s + length (fd_params f)] = xs" using xs s(3) by simp
  from bind_inputs_env [OF s(1,2) this]
  show "env_of (entry_state f (program_state p fd sc)) \<sigma> = input_env p (fd_params f) xs"
    "shape (entry_state f (program_state p fd sc)) = [set (map par_name (fd_params f))]"
    using s by (simp_all add: entry_state_def input_env_def)
qed

lemma entry_correct:
  assumes p: "is_prime p" and fr: "in_fragment f" and e: "emit_circuit_entry mu items f (program_state p fd sc) = Inr s'"
    and v: "program_value p mu f xs = Some v" and n: "length xs = length (fd_params f)" and a: "accepts s' (xs @ ys)"
  shows "\<exists>y. ys = [y] \<and> y mod p = v"
proof -
  let ?s = "program_state p fd sc"
  let ?n = "length (fd_params f)"
  note P = program_state_low [OF p, of fd sc]
  obtain r s1 where b: "in_scope (\<lambda>s. emit_stmts mu items call_fuel None (block_stmts (fd_body f)) s) (entry_state f ?s) = Inr (r, s1)"
    and s': "s' = pop_call (case r of Some x \<Rightarrow> emit_output (fd_span f) (ret_value x) s1 | None \<Rightarrow> s1)"
    using e by (rule entry_runs)
  note E = entry_state_low [OF P(1), of f]
  obtain \<sigma> where \<sigma>: "\<sigma> 0 = 1" "cons_sat (em_p s') \<sigma> (em_cons s')" "map \<sigma> (boundary_of s') = xs @ ys" using a by (rule acceptsE)
  have sat': "sat s' \<sigma>" using \<sigma> by (simp add: sat_def)
  have B: "steps (entry_state f ?s) s1" "ret_ok s1 r" using body_steps [OF E(1) b] by simp_all
  note low1 = stepsD(1) [OF B(1)]
  have p1: "em_p s1 = p" using stepsD(3) [OF B(1)] E(2) P(2) by simp
  have bd1: "boundary_of s1 = [1 ..< 1 + ?n]" using stepsD(2) [OF B(1)] E P by (simp add: grows_def boundary_of_def)
  have sat1: "sat s1 \<sigma>"
  proof (cases r)
    case (Some x)
    then have "lc_in s1 (ret_value x)" using B(2) by (simp add: ret_ok_def ret_in_def)
    then show ?thesis using output_low(7) [OF low1] sat' Some by (simp add: s')
  qed (use sat' in \<open>simp add: s'\<close>)
  have bd: "\<exists>os. boundary_of s' = boundary_of s1 @ os"
    using output_low [OF low1] B(2) by (cases r) (auto simp: s' boundary_of_def ret_ok_def ret_in_def)
  then obtain os where "map \<sigma> [1 ..< 1 + ?n] @ map \<sigma> os = xs @ ys" using \<sigma>(3) bd1 by auto
  moreover have "length (map \<sigma> [1 ..< 1 + ?n]) = length xs" using n by (simp del: upt_Suc)
  ultimately have xs: "map \<sigma> [1 ..< 1 + ?n] = xs" using append_eq_append_conv by blast
  note Ev = entry_env [OF p xs, of fd sc]
  have nm: "in_names (set (map par_name (fd_params f))) {} (entry_state f ?s)"
    using Ev(2) E(6) P(5) by (simp add: in_names_def)
  have k: "knows \<sigma> (entry_state f ?s) (input_env p (fd_params f) xs)"
    using Ev(1) E(6) P(5) by (simp add: knows_def consts_agree_def)
  have ok: "sound_stmts mu items call_fuel p (set (map par_name (fd_params f))) {} (block_stmts (fd_body f))"
    using fragment_sim(4) fr by (simp add: in_fragment_def)
  obtain E' where x: "exec_scoped (exec_stmts p mu (block_stmts (fd_body f))) (input_env p (fd_params f) xs) = Some (Some v, E')"
    using v by (auto simp: program_value_def split: option.splits)
  have pe: "em_p (entry_state f ?s) = p" using E(2) P(2) by simp
  have "returned \<sigma> s1 r (Some v)"
    using lowers_blockD(5) [OF stmts_block [OF ok] E(1) pe nm b sat1 k x] by (simp add: outcome_def)
  then obtain q where q: "r = Some q" "val s1 \<sigma> (ret_value q) = v" by (auto simp: returned_def split: option.splits)
  then have l: "lc_in s1 (ret_value q)" using B(2) by (simp add: ret_ok_def ret_in_def)
  note O = output_low [OF low1 l, of "fd_span f"]
  have "boundary_of s' = boundary_of s1 @ [em_next s1]" using O q(1) by (simp add: s' boundary_of_def)
  then have "ys = [\<sigma> (em_next s1)]" using \<sigma>(3) bd1 xs by (simp del: upt_Suc)
  moreover have "val s1 \<sigma> (ret_value q) = \<sigma> (em_next s1) mod p" using O(7) sat' q(1) p1 by (simp add: s')
  ultimately show ?thesis using q(2) by simp
qed

section \<open>Programs\<close>

definition pos :: span where
  "pos = \<lparr>sp_line = 1, sp_col = 1\<rparr>"

definition var :: "string \<Rightarrow> expr" where
  "var n = Ident n pos"

definition num :: "int \<Rightarrow> expr" where
  "num i = IntLit i pos"

definition let_in :: "string \<Rightarrow> expr \<Rightarrow> stmt" where
  "let_in x e = Let x None (Some e) None None None pos"

definition set_to :: "string \<Rightarrow> expr \<Rightarrow> stmt" where
  "set_to x e = Assign (var x) e pos"

definition for_in :: "string \<Rightarrow> int \<Rightarrow> int \<Rightarrow> stmt list \<Rightarrow> stmt" where
  "for_in i a b ss = For i (num a) (num b) None (Block ss pos) None False None None pos"

definition main_func :: "string list \<Rightarrow> stmt list \<Rightarrow> func_decl" where
  "main_func ps ss = \<lparr>fd_name = ''main'', fd_is_safe = False, fd_is_zk_safe = False, fd_is_zk_allow_unconstrained = False,
     fd_is_ptx_emit = False, fd_is_ghost = False, fd_is_hdl_emit = False,
     fd_params = map (\<lambda>n. \<lparr>par_name = n, par_ty = TyIdent ''u64'' pos, par_span = pos\<rparr>) ps,
     fd_ret_ty = None, fd_body = Block ss pos, fd_tile = None, fd_span = pos\<rparr>"

text \<open>\<open>a * a\<close> when \<open>b\<close>, else \<open>a + 1\<close>.\<close>

definition choose_func :: func_decl where
  "choose_func = main_func [''a'', ''b''] [let_in ''s'' (var ''a''),
     If (var ''b'') (Block [set_to ''s'' (BinaryOp (var ''s'') Mul (var ''a'') pos)] pos)
       (Some (Block [set_to ''s'' (BinaryOp (var ''s'') Add (num 1) pos)] pos)) False pos,
     Return (Some (var ''s'')) pos]"

text \<open>\<open>a\<close> to the power of two, in a loop.\<close>

definition power_func :: func_decl where
  "power_func = main_func [''a''] [let_in ''s'' (num 1),
     for_in ''i'' 0 2 [set_to ''s'' (BinaryOp (var ''s'') Mul (var ''a'') pos)],
     Return (Some (var ''s'')) pos]"

text \<open>The sum of \<open>a * i\<close> for \<open>i < 2\<close>, with a local variable in the loop.\<close>

definition sum_func :: func_decl where
  "sum_func = main_func [''a''] [let_in ''s'' (num 0),
     for_in ''i'' 0 2 [let_in ''x'' (BinaryOp (var ''a'') Mul (var ''i'') pos), set_to ''s'' (BinaryOp (var ''s'') Add (var ''x'') pos)],
     Return (Some (var ''s'')) pos]"

text \<open>The circuit of a function over 13 elements, as the constraints and the boundary.\<close>

definition lowered :: "func_decl \<Rightarrow> emit_error + (int \<times> con list \<times> nat list \<times> nat)" where
  "lowered f = map_sum id (\<lambda>s. (em_p s, em_cons s, boundary_of s, em_next s)) (emit_circuit_entry 10 [] f (program_state 13 Bn254 R1cs))"

definition lc_of :: "(nat \<times> int) list \<Rightarrow> bool \<Rightarrow> lc" where
  "lc_of ts b = \<lparr>lc_terms = ts, lc_simp = b\<rparr>"

definition con_at :: "lc \<Rightarrow> lc \<Rightarrow> lc \<Rightarrow> con" where
  "con_at a b c = \<lparr>con_a = a, con_b = b, con_c = c, con_span = Some pos\<rparr>"

lemma lowered_circuit:
  assumes "lowered f = Inr (p, cs, ws, n)"
  obtains s where "emit_circuit_entry 10 [] f (program_state 13 Bn254 R1cs) = Inr s" "em_p s = p" "em_cons s = cs" "boundary_of s = ws" "em_next s = n"
  using assms by (cases "emit_circuit_entry 10 [] f (program_state 13 Bn254 R1cs)") (auto simp: lowered_def)


lemma power_lowered:
  "lowered power_func = Inr (13,
     [con_at (lc_of [(1, 1)] True) (lc_of [(1, 1)] True) (lc_of [(2, 1)] True),
      con_at (lc_of [(2, 1)] True) (lc_of [(0, 1)] True) (lc_of [(3, 1)] True)], [1, 3], 4)"
  by code_simp

lemma sum_lowered:
  "lowered sum_func = Inr (13, [con_at (lc_of [] True) (lc_of [(0, 1)] True) (lc_of [(2, 1)] True)], [1, 2], 3)"
  by code_simp

lemmas program_defs = main_func_def let_in_def set_to_def for_in_def var_def num_def pos_def

lemmas value_defs = program_value_def input_env_def exec_scoped_def exec_seq_def exec_assign_def env_assign_def exec_loop.simps op_fits_def op_val_def

lemmas con_values = con_at_def lc_of_def cons_sat_def con_sat_def lc_sum_def

section \<open>The properties\<close>

text \<open>C19: The lowering ends within its fuel: the refusal of the 257th nested call keeps the 256
  units from running out, on every program and every recursion in it.\<close>

theorem lowering_within_fuel:
  assumes "is_prime p"
  shows "emit_circuit_entry mu items f (program_state p field scheme) \<noteq> Inl OutOfFuel"
  using entry_fueled program_state_low(1,6) [OF assms] by blast

theorem lowering_within_fuel_witness:
  "emit_circuit_entry 10 [Func choose_func] choose_func (program_state 13 Bn254 R1cs) \<noteq> Inl OutOfFuel"
  by (rule lowering_within_fuel [OF prime13])






text \<open>C2: Compiling is correct on the fragment: what the optimised circuit accepts is still the value
  of the program, for every choice of passes that the optimiser keeps sound.\<close>

theorem compilation_correct:
  assumes "is_prime p" "in_fragment f" "emit_circuit_entry mu items f (program_state p field scheme) = Inr s"
    and "em_next s < 2 ^ 64" "optimize_circuit budget cse compaction rounds s = Some t"
    and "\<not> cse \<or> opt_safe (rounds + 1) budget cse (boundary_of s) (s\<lparr>em_cons := map (simplify_con (em_p s)) (em_cons s)\<rparr>)"
    and "program_value p mu f inputs = Some v" "length inputs = length (fd_params f)" "accepts t (inputs @ outputs)"
  shows "\<exists>y. outputs = [y] \<and> y mod p = v"
proof -
  have s: "wires_ok s" "em_p s = p"
    using entry_well_formed [OF program_state_low(1) [OF assms(1)] assms(3)] program_state_low(2) [OF assms(1)] by simp_all
  have safe: "opt_safe (rounds + 1) budget cse (boundary_of s) (s\<lparr>em_cons := map (simplify_con (em_p s)) (em_cons s)\<rparr>)"
    using assms(6) opt_safe_no_cse by (cases cse) simp_all
  have "is_prime (em_p s)" using assms(1) s(2) by simp
  then have "accepts s (inputs @ outputs)"
    using optimize_accepts [of s budget cse compaction rounds] s(1) assms(4,5,9) safe by auto
  then show ?thesis by (rule entry_correct [OF assms(1-3,7,8)])
qed

lemma power_fragment: "in_fragment power_func" "program_value 13 10 power_func [5] = Some 12" "length (fd_params power_func) = 1"
proof -
  show "in_fragment power_func" by (simp add: power_func_def in_fragment_def program_defs)
  show "length (fd_params power_func) = 1" by (simp add: power_func_def program_defs)
  show "program_value 13 10 power_func [5] = Some 12" by (simp add: power_func_def program_defs value_defs)
qed

theorem compilation_correct_witness:
  "\<exists>s t. emit_circuit_entry 10 [] power_func (program_state 13 Bn254 R1cs) = Inr s \<and> optimize_circuit None False True 0 s = Some t \<and>
     {y. 0 \<le> y \<and> y < 13 \<and> accepts t [5, y]} = {12}"
proof -
  obtain s where s: "emit_circuit_entry 10 [] power_func (program_state 13 Bn254 R1cs) = Inr s" "em_p s = 13" "boundary_of s = [1, 3]" "em_next s = 4"
    and c: "em_cons s = [con_at (lc_of [(1, 1)] True) (lc_of [(1, 1)] True) (lc_of [(2, 1)] True),
      con_at (lc_of [(2, 1)] True) (lc_of [(0, 1)] True) (lc_of [(3, 1)] True)]"
    using power_lowered by (rule lowered_circuit)
  have ok: "is_prime (em_p s)" "wires_ok s" "em_next s < 2 ^ 64"
    using entry_well_formed [OF program_state_low(1) [OF prime13] s(1)] prime13 s by simp_all
  obtain t where t: "optimize_circuit None False True 0 s = Some t" and acc: "\<And>vs. accepts s vs \<Longrightarrow> accepts t vs"
    by (rule optimize_accepts [OF ok, of None False True 0]) (rule that)
  have "y = 12" if "accepts t [5, y]" "0 \<le> y" "y < 13" for y
    using compilation_correct [OF prime13 power_fragment(1) s(1) ok(3) t _ power_fragment(2), of "[y]"] that power_fragment(3) by simp
  moreover have "accepts s [5, 12]"
    by (rule acceptsI [of "\<lambda>w. if w = 0 then 1 else if w = 1 then 5 else 12"]) (simp_all add: s c con_values)
  then have "accepts t [5, 12]" by (rule acc)
  moreover have "(0 :: int) \<le> 12" "(12 :: int) < 13" by simp_all
  ultimately have "{y. 0 \<le> y \<and> y < 13 \<and> accepts t [5, y]} = {12}" by blast
  then show ?thesis using s(1) t by blast
qed

text \<open>C23: A recorded constant outlives its variable: in a loop whose local variable is zero in the
  first iteration, every later iteration still reads zero, although the variable was declared
  again. The program returns its input; the circuit accepts only the output zero.\<close>

theorem stale_constant_lowered:
  "program_value 13 10 sum_func [5] = Some 5 \<and>
   (\<exists>s. emit_circuit_entry 10 [] sum_func (program_state 13 Bn254 R1cs) = Inr s \<and> accepts s [5, 0] \<and> \<not> accepts s [5, 5])"
proof (intro conjI)
  show "program_value 13 10 sum_func [5] = Some 5" by (simp add: sum_func_def program_defs value_defs)
  obtain s where s: "emit_circuit_entry 10 [] sum_func (program_state 13 Bn254 R1cs) = Inr s" "em_p s = 13" "boundary_of s = [1, 2]"
    and c: "em_cons s = [con_at (lc_of [] True) (lc_of [(0, 1)] True) (lc_of [(2, 1)] True)]"
    using sum_lowered by (rule lowered_circuit)
  have "accepts s [5, 0]"
    by (rule acceptsI [of "\<lambda>w. if w = 0 then 1 else if w = 1 then 5 else 0"]) (simp_all add: s c con_values)
  moreover have "\<not> accepts s [5, 5]"
    by (auto simp: accepts_def s c con_values)
  ultimately show "\<exists>s. emit_circuit_entry 10 [] sum_func (program_state 13 Bn254 R1cs) = Inr s \<and> accepts s [5, 0] \<and> \<not> accepts s [5, 5]"
    using s(1) by blast
qed

end
