(* ===== verification/ZkProverProps.thy ===== *)
theory ZkProverProps
  imports ZkWitnessIr ZkLowerProps
begin

text \<open>
  The properties of the witness program: its order, and the honest prover on circuits whose
  constraints each define a wire, alone and behind the lowering.
\<close>

section \<open>Examples\<close>

text \<open>The output wire 1 is declared before the wires it reads, as in circom; wires 4 and 5 wait for
  each other.\<close>

definition late_nodes :: "witness_op list" where
  "late_nodes = [WConst (13, 1), MulLc (lc_variable 3) (lc_variable 2), LoadInput 2 False,
     MulLc (lc_variable 2) (lc_variable 2), WMul 5 2, WMul 4 2]"

text \<open>What the prover needs of the lowered circuit of \<open>power_func\<close>.\<close>

definition prover_view :: "func_decl \<Rightarrow> emit_error + (int \<times> string list \<times> nat list \<times> nat list \<times> nat list \<times> con list \<times> nat \<times> recipes)" where
  "prover_view f = map_sum id (\<lambda>s. (em_p s, em_vars s, em_pub s, em_prv s, em_outs s, em_cons s, em_next s, em_recipes s))
     (emit_circuit_entry 10 [] f (program_state 13 Bn254 R1cs))"

lemma power_view:
  "prover_view power_func = Inr (13, [''const_1'', ''a_1'', ''mul_tmp_2'', ''out_ret_3''], [], [1], [3],
     [con_at (lc_of [(1, 1)] True) (lc_of [(1, 1)] True) (lc_of [(2, 1)] True),
      con_at (lc_of [(2, 1)] True) (lc_of [(0, 1)] True) (lc_of [(3, 1)] True)], 4, [])"
  by code_simp

lemma power_state:
  obtains s where "emit_circuit_entry 10 [] power_func (program_state 13 Bn254 R1cs) = Inr s" "em_p s = 13"
    "em_pub s = []" "em_prv s = [1]" "em_outs s = [3]" "product_circuit s"
proof -
  obtain s where e: "emit_circuit_entry 10 [] power_func (program_state 13 Bn254 R1cs) = Inr s"
    and s: "em_p s = 13" "em_vars s = [''const_1'', ''a_1'', ''mul_tmp_2'', ''out_ret_3'']" "em_pub s = []" "em_prv s = [1]" "em_outs s = [3]"
      "em_cons s = [con_at (lc_of [(1, 1)] True) (lc_of [(1, 1)] True) (lc_of [(2, 1)] True),
        con_at (lc_of [(2, 1)] True) (lc_of [(0, 1)] True) (lc_of [(3, 1)] True)]" "em_next s = 4" "em_recipes s = []"
    using power_view by (cases "emit_circuit_entry 10 [] power_func (program_state 13 Bn254 R1cs)") (simp_all add: prover_view_def)
  have "product_circuit s"
    unfolding product_circuit_def s by (auto simp: con_at_def lc_of_def out_of_def lc_wires_def intro!: exI [of _ "\<lambda>w. w"])
  then show ?thesis using e s that by blast
qed

section \<open>The properties\<close>

text \<open>C21: The order of the forward pass exists, visits every wire exactly once, and puts every wire
  after all it reads, for every set of wires that reads only itself and has no cycle; a cycle
  elsewhere does not disturb it.\<close>

theorem topological_order_correct:
  "\<exists>order. topological_order nodes = Some order \<and> distinct order \<and> set order = {..<length nodes} \<and>
     (\<forall>S k. grounded nodes S \<and> k < length order \<and> order ! k \<in> S \<longrightarrow> set (read_wires nodes (order ! k)) \<subseteq> set (take k order))"
  using kahn_order.order_total [of nodes] kahn_order.order_distinct [of nodes] kahn_order.order_set [of nodes] kahn_order.order_sorted [of nodes]
  by blast

theorem topological_order_correct_witness:
  "topological_order late_nodes = Some [0, 2, 3, 1, 4, 5] \<and> set (read_wires late_nodes 1) \<subseteq> {0, 2, 3}"
proof -
  have o: "topological_order late_nodes = Some [0, 2, 3, 1, 4, 5]" by code_simp
  have "length late_nodes = 6" "read_wires late_nodes 0 = []" "read_wires late_nodes 1 = [2, 3]" "read_wires late_nodes 2 = []"
    "read_wires late_nodes 3 = [2]" by code_simp+
  then have "grounded late_nodes {0, 1, 2, 3}"
    unfolding grounded_def by (intro conjI exI [of _ "\<lambda>w. if w = 1 then 2 else if w = 3 then 1 else 0"]) auto
  moreover obtain order where "topological_order late_nodes = Some order"
    and sorted: "\<And>S k. grounded late_nodes S \<and> k < length order \<and> order ! k \<in> S \<Longrightarrow> set (read_wires late_nodes (order ! k)) \<subseteq> set (take k order)"
    using topological_order_correct [of late_nodes] by blast
  moreover have "order = [0, 2, 3, 1, 4, 5]" using calculation(2) o by simp
  ultimately show ?thesis using o sorted [of "{0, 1, 2, 3}" 3] by simp
qed



text \<open>C3: From the source to the proof: where a program of the fragment lowers to such a circuit, the
  prover's witness is satisfying and its output wire carries the value of the program.\<close>

theorem prover_computes_program:
  assumes "is_prime p" "in_fragment f" "emit_circuit_entry mu items f (program_state p field scheme) = Inr s" "product_circuit s"
    and "\<forall>v\<in>set (pub @ priv). fst v = p" "length pub = length (em_pub s)" "length priv = length (em_prv s)"
    and "length (pub @ priv) = length (fd_params f)" "program_value p mu f (map snd (pub @ priv)) = Some v"
  shows "\<exists>ir w y. build_witness_ir s = Some ir \<and> solve_r1cs_witness (em_cons s) ir (em_next s) pub priv = Some (w, True) \<and>
    map (wire_val w) (em_outs s) = [y] \<and> y mod p = v"
proof -
  have p: "em_p s = p" using entry_well_formed [OF program_state_low(1) [OF assms(1)] assms(3)] program_state_low(2) [OF assms(1)] by simp
  then have "1 < em_p s" using is_prime_gt1 [OF assms(1)] by simp
  then obtain ir w where w: "build_witness_ir s = Some ir" "solve_r1cs_witness (em_cons s) ir (em_next s) pub priv = Some (w, True)"
    "cons_sat (em_p s) (wire_val w) (em_cons s)" "map (wire_val w) (em_pub s) = map snd pub" "map (wire_val w) (em_prv s) = map snd priv"
    using straight_line_solved [OF assms(4)] assms(5-7) p by blast
  have "accepts s (map snd (pub @ priv) @ map (wire_val w) (em_outs s))"
    by (rule acceptsI [of "wire_val w"]) (use w in \<open>simp_all add: boundary_of_def\<close>)
  then show ?thesis using entry_correct [OF assms(1-3) assms(9)] assms(8) w(1,2) by simp
qed

theorem prover_computes_program_witness:
  "\<exists>s ir w y. emit_circuit_entry 10 [] power_func (program_state 13 Bn254 R1cs) = Inr s \<and> build_witness_ir s = Some ir \<and>
     solve_r1cs_witness (em_cons s) ir (em_next s) [] [(13, 5)] = Some (w, True) \<and> map (wire_val w) (em_outs s) = [y] \<and> y mod 13 = 12"
proof -
  obtain s where s: "emit_circuit_entry 10 [] power_func (program_state 13 Bn254 R1cs) = Inr s" "em_p s = 13"
    "em_pub s = []" "em_prv s = [1]" "em_outs s = [3]" "product_circuit s" by (rule power_state)
  show ?thesis
    using prover_computes_program [OF prime13 power_fragment(1) s(1) s(6), of "[]" "[(13, 5)]" 12] s power_fragment by auto
qed

end
