(* ===== verification/YScope.thy ===== *)
theory YScope
  imports YAst
begin

text \<open>
  Lexical scoping for the backends that keep one stack slot per name
  (\<^verbatim>\<open>unique_bindings\<close> of \<^verbatim>\<open>src/lexical_scope.rs\<close>): every binding of a function gets a name of its own,
  \<open>x\<close>, \<open>x.1\<close>, \<open>x.2\<close>, \<open>...\<close>, and every use the name of the binding it resolves to.
\<close>

section \<open>Walking with a state\<close>

text \<open>A loop over \<^verbatim>\<open>&mut\<close> elements that updates the walker.\<close>

fun thread :: "('a \<Rightarrow> 's \<Rightarrow> 'b \<times> 's) \<Rightarrow> 'a list \<Rightarrow> 's \<Rightarrow> 'b list \<times> 's" where
  "thread f [] s = ([], s)"
| "thread f (x # xs) s = (let (y, s1) = f x s; (ys, s2) = thread f xs s1 in (y # ys, s2))"

definition thread_opt :: "('a \<Rightarrow> 's \<Rightarrow> 'b \<times> 's) \<Rightarrow> 'a option \<Rightarrow> 's \<Rightarrow> 'b option \<times> 's" where
  "thread_opt f x s = (case x of None \<Rightarrow> (None, s) | Some a \<Rightarrow> (let (b, s1) = f a s in (Some b, s1)))"

lemma thread_cong [fundef_cong]:
  "xs = ys \<Longrightarrow> s = t \<Longrightarrow> (\<And>x s. x \<in> set ys \<Longrightarrow> f x s = g x s) \<Longrightarrow> thread f xs s = thread g ys t"
proof (induction ys arbitrary: xs s t)
  case (Cons y ys)
  then show ?case by (simp split: prod.split)
qed simp

lemma thread_opt_cong [fundef_cong]:
  "x = y \<Longrightarrow> s = t \<Longrightarrow> (\<And>a s. y = Some a \<Longrightarrow> f a s = g a s) \<Longrightarrow> thread_opt f x s = thread_opt g y t"
  by (cases y) (simp_all add: thread_opt_def)

section \<open>Names\<close>

definition source_name :: "string \<Rightarrow> string" where
  "source_name name = takeWhile (\<lambda>c. c \<noteq> CHR ''.'') name"

definition candidate :: "string \<Rightarrow> nat \<Rightarrow> string" where
  "candidate name n = name @ ''.'' @ nat_dec n"

lemma candidate_inj: "candidate name m = candidate name n \<longleftrightarrow> m = n"
proof -
  have "nat_dec m = nat_dec n \<longleftrightarrow> m = n" by (metis dec_val_nat_dec)
  then show ?thesis by (simp add: candidate_def)
qed

text \<open>The search for a free candidate ends, since only finitely many names are taken.\<close>

function first_free :: "string list \<Rightarrow> string \<Rightarrow> nat \<Rightarrow> string" where
  "first_free taken name n =
     (if candidate name n \<in> set taken then first_free taken name (n + 1) else candidate name n)"
  by auto

termination
proof (relation "measure (\<lambda>(taken, name, n). card {t \<in> set taken. \<forall>m<n. t \<noteq> candidate name m})", goal_cases)
  case (2 taken name n)
  let ?S = "\<lambda>n. {t \<in> set taken. \<forall>m<n. t \<noteq> candidate name m}"
  have "candidate name n \<in> ?S n" "candidate name n \<notin> ?S (n + 1)" using 2 by (auto simp: candidate_inj)
  moreover have "?S (n + 1) \<subseteq> ?S n" by (simp add: Collect_mono_iff)
  ultimately have "?S (n + 1) \<subset> ?S n" by blast
  then show ?case by (simp add: psubset_card_mono)
qed simp

declare first_free.simps [simp del]

section \<open>The renamer\<close>

text \<open>The stack of scopes has the innermost one first.\<close>

record renamer =
  rn_taken :: "string list"
  rn_scopes :: "(string \<rightharpoonup> string) list"

definition rn_push :: "renamer \<Rightarrow> renamer" where
  "rn_push r = r\<lparr>rn_scopes := Map.empty # rn_scopes r\<rparr>"

definition rn_pop :: "renamer \<Rightarrow> renamer" where
  "rn_pop r = r\<lparr>rn_scopes := tl (rn_scopes r)\<rparr>"

definition given_name :: "string list \<Rightarrow> string \<Rightarrow> string" where
  "given_name taken name = (if name \<notin> set taken then name else first_free taken name 1)"

text \<open>A binding is always made inside a scope; without one the code panics.\<close>

definition declare_name :: "string \<Rightarrow> renamer \<Rightarrow> string \<times> renamer" where
  "declare_name name r =
     (let given = given_name (rn_taken r) name
      in (given, r\<lparr>rn_taken := given # rn_taken r,
           rn_scopes := (case rn_scopes r of sc # scs \<Rightarrow> sc(name \<mapsto> given) # scs | [] \<Rightarrow> [])\<rparr>))"

fun find_scope :: "(string \<rightharpoonup> 'a) list \<Rightarrow> string \<Rightarrow> 'a option" where
  "find_scope [] name = None"
| "find_scope (sc # scs) name = (case sc name of Some g \<Rightarrow> Some g | None \<Rightarrow> find_scope scs name)"

definition use_name :: "renamer \<Rightarrow> string \<Rightarrow> string" where
  "use_name r name = (case find_scope (rn_scopes r) name of Some given \<Rightarrow> given | None \<Rightarrow> name)"

lemma size_member: "x \<in> set xs \<Longrightarrow> f x \<le> size_list f xs"
  by (induction xs) auto

definition is_name :: "expr \<Rightarrow> bool" where
  "is_name e = (case e of Ident _ _ \<Rightarrow> True | _ \<Rightarrow> False)"

text \<open>The walk through a block, the attributes and the arms of a \<^verbatim>\<open>match\<close>, for the walker \<open>f\<close> of their
  parts.\<close>

definition rn_block_with :: "('a \<Rightarrow> renamer \<Rightarrow> 'a \<times> renamer) \<Rightarrow> 'a block \<Rightarrow> renamer \<Rightarrow> 'a block \<times> renamer" where
  "rn_block_with f b r = (case b of Block ss sp \<Rightarrow> (let (ss', r1) = thread f ss (rn_push r) in (Block ss' sp, rn_pop r1)))"

definition rn_bounds :: "('e \<Rightarrow> 's \<Rightarrow> 'e \<times> 's) \<Rightarrow> 'e bounds_attr \<Rightarrow> 's \<Rightarrow> 'e bounds_attr \<times> 's" where
  "rn_bounds f b r = (case b of BoundsAttr lo hi sp \<Rightarrow> (let (lo', r1) = f lo r; (hi', r2) = f hi r1 in (BoundsAttr lo' hi' sp, r2)))"

definition rn_tile :: "('e \<Rightarrow> 's \<Rightarrow> 'e \<times> 's) \<Rightarrow> 'e tile_attr \<Rightarrow> 's \<Rightarrow> 'e tile_attr \<times> 's" where
  "rn_tile f t r = (case t of TileAttr m n k sp \<Rightarrow>
     (let (m', r1) = f m r; (n', r2) = f n r1; (k', r3) = thread_opt f k r2 in (TileAttr m' n' k' sp, r3)))"

definition rn_prefetch :: "('e \<Rightarrow> 's \<Rightarrow> 'e \<times> 's) \<Rightarrow> 'e prefetch_stride_attr \<Rightarrow> 's \<Rightarrow> 'e prefetch_stride_attr \<times> 's" where
  "rn_prefetch f q r = (case q of PrefetchStrideAttr e sp \<Rightarrow> (let (e', r1) = thread_opt f e r in (PrefetchStrideAttr e' sp, r1)))"

definition rn_pattern :: "('e \<Rightarrow> renamer \<Rightarrow> 'e \<times> renamer) \<Rightarrow> 'e match_pattern \<Rightarrow> renamer \<Rightarrow> 'e match_pattern \<times> renamer" where
  "rn_pattern f q r =
     (case q of
        PIdent x sp \<Rightarrow> (let (x', r1) = declare_name x r in (PIdent x' sp, r1))
      | PEnumVariant a v xs sp \<Rightarrow> (let (xs', r1) = thread declare_name xs r in (PEnumVariant a v xs' sp, r1))
      | PLiteral l \<Rightarrow> (let (l', r1) = f l r in (PLiteral l', r1))
      | PWildcard sp \<Rightarrow> (PWildcard sp, r))"

definition rn_arm :: "('e \<Rightarrow> renamer \<Rightarrow> 'e \<times> renamer) \<Rightarrow> 'e match_arm \<Rightarrow> renamer \<Rightarrow> 'e match_arm \<times> renamer" where
  "rn_arm f arm r =
     (case arm of MatchArm q body sp \<Rightarrow>
        (let (q', r1) = rn_pattern f q (rn_push r); (body', r2) = f body r1 in (MatchArm q' body' sp, rn_pop r2)))"

definition rn_arg :: "('e \<Rightarrow> 's \<Rightarrow> 'e \<times> 's) \<Rightarrow> ('t \<Rightarrow> 's \<Rightarrow> 't \<times> 's) \<Rightarrow> ('e, 't) generic_arg \<Rightarrow> 's \<Rightarrow> ('e, 't) generic_arg \<times> 's" where
  "rn_arg f g a r =
     (case a of
        GType t \<Rightarrow> (let (t', r1) = g t r in (GType t', r1))
      | GValue e \<Rightarrow> (let (e', r1) = f e r in (GValue e', r1))
      | GNamed n e \<Rightarrow> (let (e', r1) = f e r in (GNamed n e', r1)))"

definition rn_field :: "('e \<Rightarrow> 's \<Rightarrow> 'e \<times> 's) \<Rightarrow> string \<times> 'e \<Rightarrow> 's \<Rightarrow> (string \<times> 'e) \<times> 's" where
  "rn_field f p r = (let (e', r1) = f (snd p) r in ((fst p, e'), r1))"

lemma rn_block_with_cong [fundef_cong]:
  "b = c \<Longrightarrow> r = q \<Longrightarrow> (\<And>x s. x \<in> set_block c \<Longrightarrow> f x s = g x s) \<Longrightarrow> rn_block_with f b r = rn_block_with g c q"
  by (cases c) (auto simp: rn_block_with_def intro!: arg_cong [where f = "case_prod _"] thread_cong)

lemma rn_bounds_cong [fundef_cong]:
  "b = c \<Longrightarrow> r = q \<Longrightarrow> (\<And>x s. x \<in> set_bounds_attr c \<Longrightarrow> f x s = g x s) \<Longrightarrow> rn_bounds f b r = rn_bounds g c q"
  by (cases c) (simp add: rn_bounds_def)

lemma rn_tile_cong [fundef_cong]:
  "b = c \<Longrightarrow> r = q \<Longrightarrow> (\<And>x s. x \<in> set_tile_attr c \<Longrightarrow> f x s = g x s) \<Longrightarrow> rn_tile f b r = rn_tile g c q"
  by (cases c) (auto simp: rn_tile_def thread_opt_def split: option.split prod.split)

lemma rn_prefetch_cong [fundef_cong]:
  "b = c \<Longrightarrow> r = q \<Longrightarrow> (\<And>x s. x \<in> set_prefetch_stride_attr c \<Longrightarrow> f x s = g x s) \<Longrightarrow> rn_prefetch f b r = rn_prefetch g c q"
  by (cases c) (auto simp: rn_prefetch_def thread_opt_def split: option.split)

lemma rn_arm_cong [fundef_cong]:
  "b = c \<Longrightarrow> r = q \<Longrightarrow> (\<And>x s. x \<in> set_match_arm c \<Longrightarrow> f x s = g x s) \<Longrightarrow> rn_arm f b r = rn_arm g c q"
  by (cases c) (auto simp: rn_arm_def rn_pattern_def split: match_pattern.split)

lemma rn_arg_cong [fundef_cong]:
  "b = c \<Longrightarrow> r = q \<Longrightarrow> (\<And>x s. x \<in> set1_generic_arg c \<Longrightarrow> f x s = f' x s) \<Longrightarrow> (\<And>x s. x \<in> set2_generic_arg c \<Longrightarrow> g x s = g' x s) \<Longrightarrow>
   rn_arg f g b r = rn_arg f' g' c q"
  by (cases c) (simp_all add: rn_arg_def)

lemma rn_field_cong [fundef_cong]:
  "b = c \<Longrightarrow> r = q \<Longrightarrow> (\<And>x s. x \<in> {snd c} \<Longrightarrow> f x s = g x s) \<Longrightarrow> rn_field f b r = rn_field g c q"
  by (simp add: rn_field_def)

text \<open>What is inside is smaller.\<close>

lemma inside_block: "x \<in> set_block b \<Longrightarrow> f x < size_block f b"
  using size_member [of x _ f] by (cases b) fastforce

lemma inside_less:
  "e \<in> set_bounds_attr bo \<Longrightarrow> f e < size_bounds_attr f bo"
  "e \<in> set_tile_attr ti \<Longrightarrow> f e < size_tile_attr f ti"
  "e \<in> set_prefetch_stride_attr pf \<Longrightarrow> f e < size_prefetch_stride_attr f pf"
proof -
  show "e \<in> set_bounds_attr bo \<Longrightarrow> f e < size_bounds_attr f bo" by (cases bo) auto
  show "e \<in> set_tile_attr ti \<Longrightarrow> f e < size_tile_attr f ti" by (cases ti) auto
  show "e \<in> set_prefetch_stride_attr pf \<Longrightarrow> f e < size_prefetch_stride_attr f pf" by (cases pf) auto
qed

lemma inside_pattern: "e \<in> set_match_pattern q \<Longrightarrow> f e < size_match_pattern f q"
  by (cases q) auto

lemma inside_arm: "e \<in> set_match_arm arm \<Longrightarrow> f e < size_match_arm f arm"
  using inside_pattern [of e _ f] by (cases arm) fastforce

lemma inside_arg:
  "(e :: 'e) \<in> set1_generic_arg (ga :: ('e, 't) generic_arg) \<Longrightarrow> f e < size_generic_arg f g ga"
  "(t :: 't) \<in> set2_generic_arg ga \<Longrightarrow> g t < size_generic_arg f g ga"
  by (cases ga; auto)+

text \<open>A member of a list is within the size of the list, and what is inside it is smaller still.\<close>

lemma inside_list:
  "arm \<in> set arms \<Longrightarrow> e \<in> set_match_arm arm \<Longrightarrow> f e < size_list (size_match_arm f) arms"
  using inside_arm [of e arm f] size_member [of arm arms "size_match_arm f"] by fastforce

lemma inside_args:
  assumes "ga \<in> set gas"
  shows "e \<in> set1_generic_arg ga \<Longrightarrow> f e < size_list (size_generic_arg f g) gas"
    "t \<in> set2_generic_arg ga \<Longrightarrow> g t < size_list (size_generic_arg f g) gas"
  using inside_arg(1) [of e ga f g] inside_arg(2) [of t ga g f] size_member [OF assms, of "size_generic_arg f g"] by linarith+

lemma inside_fields: "(k, e) \<in> set fs \<Longrightarrow> f e \<le> size_list (size_prod (\<lambda>_. 0) f) fs"
  using size_member [of "(k, e)" fs "size_prod (\<lambda>_. 0) f"] by simp

text \<open>A bare name in call position is a function and stays.\<close>

function rn_stmt :: "stmt \<Rightarrow> renamer \<Rightarrow> stmt \<times> renamer"
  and rn_expr :: "expr \<Rightarrow> renamer \<Rightarrow> expr \<times> renamer"
  and rn_ty :: "ty \<Rightarrow> renamer \<Rightarrow> ty \<times> renamer" where
  "rn_stmt (Let a t i c z b s) r =
     (let (t', r1) = thread_opt rn_ty t r; (i', r2) = thread_opt rn_expr i r1; (b', r3) = thread_opt (rn_bounds rn_expr) b r2;
          (a', r4) = declare_name a r3
      in (Let a' t' i' c z b' s, r4))"
| "rn_stmt (TypeAlias a t s) r = (let (t', r1) = rn_ty t r in (TypeAlias a t' s, r1))"
| "rn_stmt (For v a b st body iv u tile pf s) r =
     (let (a', r1) = rn_expr a r; (b', r2) = rn_expr b r1; (st', r3) = thread_opt rn_expr st r2;
          (tile', r4) = thread_opt (rn_tile rn_expr) tile r3; (pf', r5) = thread_opt (rn_prefetch rn_expr) pf r4;
          (v', r6) = declare_name v (rn_push r5); (iv', r7) = thread_opt rn_expr iv r6; (body', r8) = rn_block_with rn_stmt body r7
      in (For v' a' b' st' body' iv' u tile' pf' s, rn_pop r8))"
| "rn_stmt (Assign t e s) r = (let (t', r1) = rn_expr t r; (e', r2) = rn_expr e r1 in (Assign t' e' s, r2))"
| "rn_stmt (Expr e) r = (let (e', r1) = rn_expr e r in (Expr e', r1))"
| "rn_stmt (Return e s) r = (let (e', r1) = thread_opt rn_expr e r in (Return e' s, r1))"
| "rn_stmt (Chisel b s) r = (let (b', r1) = rn_block_with rn_stmt b r in (Chisel b' s, r1))"
| "rn_stmt (If c b el u s) r =
     (let (c', r1) = rn_expr c r; (b', r2) = rn_block_with rn_stmt b r1; (el', r3) = thread_opt (rn_block_with rn_stmt) el r2
      in (If c' b' el' u s, r3))"
| "rn_stmt (While c b iv mi u s) r =
     (let (c', r1) = rn_expr c r; (iv', r2) = thread_opt rn_expr iv r1; (b', r3) = rn_block_with rn_stmt b r2
      in (While c' b' iv' mi u s, r3))"
| "rn_stmt (Break s) r = (Break s, r)"
| "rn_stmt (Match e arms s) r = (let (e', r1) = rn_expr e r; (arms', r2) = thread (rn_arm rn_expr) arms r1 in (Match e' arms' s, r2))"
| "rn_stmt (CompoundAssign t op e s) r = (let (t', r1) = rn_expr t r; (e', r2) = rn_expr e r1 in (CompoundAssign t' op e' s, r2))"
| "rn_stmt (SafeBlock b s) r = (let (b', r1) = rn_block_with rn_stmt b r in (SafeBlock b' s, r1))"
| "rn_stmt (GhostBlock b s) r = (let (b', r1) = rn_block_with rn_stmt b r in (GhostBlock b' s, r1))"
| "rn_stmt (ClockDomainBlock e b s) r =
     (let (e', r1) = rn_expr e r; (b', r2) = rn_block_with rn_stmt b r1 in (ClockDomainBlock e' b' s, r2))"
| "rn_stmt (CompileTimeAssert e m s) r = (let (e', r1) = rn_expr e r in (CompileTimeAssert e' m s, r1))"
| "rn_stmt (HintBlock os b s) r = (let (b', r1) = rn_block_with rn_stmt b r in (HintBlock (map (use_name r) os) b' s, r1))"
| "rn_expr (Ident n s) r = (Ident (use_name r n) s, r)"
| "rn_expr (IntLit v s) r = (IntLit v s, r)"
| "rn_expr (FloatLit w s) r = (FloatLit w s, r)"
| "rn_expr (StringLit n s) r = (StringLit n s, r)"
| "rn_expr (CharLit k s) r = (CharLit k s, r)"
| "rn_expr (BoolLit bo s) r = (BoolLit bo s, r)"
| "rn_expr (SelfLit s) r = (SelfLit s, r)"
| "rn_expr (ZeroInit s) r = (ZeroInit s, r)"
| "rn_expr (Path n m s) r = (Path n m s, r)"
| "rn_expr (Call f as s) r =
     (let (f', r1) = (if is_name f then (f, r) else rn_expr f r); (as', r2) = thread rn_expr as r1 in (Call f' as' s, r2))"
| "rn_expr (GenericCall f ts as s) r =
     (let (f', r1) = (if is_name f then (f, r) else rn_expr f r); (ts', r2) = thread rn_ty ts r1; (as', r3) = thread rn_expr as r2
      in (GenericCall f' ts' as' s, r3))"
| "rn_expr (Index a i s) r = (let (a', r1) = rn_expr a r; (i', r2) = rn_expr i r1 in (Index a' i' s, r2))"
| "rn_expr (MemberAccess a m s) r = (let (a', r1) = rn_expr a r in (MemberAccess a' m s, r1))"
| "rn_expr (BinaryOp a op b s) r = (let (a', r1) = rn_expr a r; (b', r2) = rn_expr b r1 in (BinaryOp a' op b' s, r2))"
| "rn_expr (UnaryOp uop a s) r = (let (a', r1) = rn_expr a r in (UnaryOp uop a' s, r1))"
| "rn_expr (BlockExpr b s) r = (let (b', r1) = rn_block_with rn_stmt b r in (BlockExpr b' s, r1))"
| "rn_expr (StructLit n fs s) r = (let (fs', r1) = thread (rn_field rn_expr) fs r in (StructLit n fs' s, r1))"
| "rn_ty (Primitive n s) r = (Primitive n s, r)"
| "rn_ty (TyIdent n s) r = (TyIdent n s, r)"
| "rn_ty (Generic n as s) r = (let (as', r1) = thread (rn_arg rn_expr rn_ty) as r in (Generic n as' s, r1))"
| "rn_ty (Array t e s) r = (let (t', r1) = rn_ty t r; (e', r2) = rn_expr e r1 in (Array t' e' s, r2))"
| "rn_ty (Reference m t s) r = (let (t', r1) = rn_ty t r in (Reference m t' s, r1))"
| "rn_ty (BlockTile t e s) r = (let (t', r1) = rn_ty t r; (e', r2) = rn_expr e r1 in (BlockTile t' e' s, r2))"
  by pat_completeness auto

termination
  by (relation "measure (case_sum (size \<circ> fst) (case_sum (size \<circ> fst) (size \<circ> fst)))")
    (auto dest: inside_block [where f = size] inside_less [where f = size] inside_list [where f = size]
      inside_args [where f = size and g = size] size_member [where f = size] inside_fields [where f = size])

definition rn_block :: "stmt block \<Rightarrow> renamer \<Rightarrow> stmt block \<times> renamer" where
  "rn_block = rn_block_with rn_stmt"

definition unique_bindings :: "param list \<Rightarrow> stmt block \<Rightarrow> stmt block" where
  "unique_bindings params body =
     (let r0 = rn_push \<lparr>rn_taken = [], rn_scopes = []\<rparr>;
          r1 = fold (\<lambda>q r. snd (declare_name (par_name q) r)) params r0
      in fst (rn_block body r1))"

end
