(* ===== verification/YScopeTokens.thy ===== *)
theory YScopeTokens
  imports YScope
begin

text \<open>
  A function body as the sequence of its scopes, bindings and uses, in the order the renamer
  visits them. Renaming the body is renaming the sequence, so that the properties of the renamer are
  lemmas about lists.
\<close>

section \<open>Occurrences of names\<close>

datatype token = Open | Close | Decl string | Use string

definition tok_opt :: "('a \<Rightarrow> token list) \<Rightarrow> 'a option \<Rightarrow> token list" where
  "tok_opt f x = (case x of None \<Rightarrow> [] | Some a \<Rightarrow> f a)"

definition tok_list :: "('a \<Rightarrow> token list) \<Rightarrow> 'a list \<Rightarrow> token list" where
  "tok_list f xs = concat (map f xs)"

definition tok_block :: "('a \<Rightarrow> token list) \<Rightarrow> 'a block \<Rightarrow> token list" where
  "tok_block f b = Open # tok_list f (block_stmts b) @ [Close]"

definition tok_bounds :: "('e \<Rightarrow> token list) \<Rightarrow> 'e bounds_attr \<Rightarrow> token list" where
  "tok_bounds f b = (case b of BoundsAttr lo hi _ \<Rightarrow> f lo @ f hi)"

definition tok_tile :: "('e \<Rightarrow> token list) \<Rightarrow> 'e tile_attr \<Rightarrow> token list" where
  "tok_tile f t = (case t of TileAttr m n k _ \<Rightarrow> f m @ f n @ tok_opt f k)"

definition tok_prefetch :: "('e \<Rightarrow> token list) \<Rightarrow> 'e prefetch_stride_attr \<Rightarrow> token list" where
  "tok_prefetch f q = (case q of PrefetchStrideAttr e _ \<Rightarrow> tok_opt f e)"

definition tok_pattern :: "('e \<Rightarrow> token list) \<Rightarrow> 'e match_pattern \<Rightarrow> token list" where
  "tok_pattern f q =
     (case q of PIdent x _ \<Rightarrow> [Decl x] | PEnumVariant _ _ xs _ \<Rightarrow> map Decl xs | PLiteral l \<Rightarrow> f l | PWildcard _ \<Rightarrow> [])"

definition tok_arm :: "('e \<Rightarrow> token list) \<Rightarrow> 'e match_arm \<Rightarrow> token list" where
  "tok_arm f arm = (case arm of MatchArm q body _ \<Rightarrow> Open # tok_pattern f q @ f body @ [Close])"

definition tok_arg :: "('e \<Rightarrow> token list) \<Rightarrow> ('t \<Rightarrow> token list) \<Rightarrow> ('e, 't) generic_arg \<Rightarrow> token list" where
  "tok_arg f g a = (case a of GType t \<Rightarrow> g t | GValue e \<Rightarrow> f e | GNamed _ e \<Rightarrow> f e)"

definition tok_field :: "('e \<Rightarrow> token list) \<Rightarrow> string \<times> 'e \<Rightarrow> token list" where
  "tok_field f p = f (snd p)"

lemma tok_cong [fundef_cong]:
  "x = y \<Longrightarrow> (\<And>a. y = Some a \<Longrightarrow> f a = g a) \<Longrightarrow> tok_opt f x = tok_opt g y"
  by (cases y) (simp_all add: tok_opt_def)

lemma tok_list_cong [fundef_cong]: "xs = ys \<Longrightarrow> (\<And>a. a \<in> set ys \<Longrightarrow> f a = g a) \<Longrightarrow> tok_list f xs = tok_list g ys"
  by (simp add: tok_list_def cong: map_cong)

lemma tok_block_cong [fundef_cong]: "b = c \<Longrightarrow> (\<And>a. a \<in> set_block c \<Longrightarrow> f a = g a) \<Longrightarrow> tok_block f b = tok_block g c"
  by (cases c) (auto simp: tok_block_def intro: tok_list_cong)

lemma tok_attr_cong [fundef_cong]:
  "bo = bo' \<Longrightarrow> (\<And>e. e \<in> set_bounds_attr bo' \<Longrightarrow> f e = g e) \<Longrightarrow> tok_bounds f bo = tok_bounds g bo'"
  "ti = ti' \<Longrightarrow> (\<And>e. e \<in> set_tile_attr ti' \<Longrightarrow> f e = g e) \<Longrightarrow> tok_tile f ti = tok_tile g ti'"
  "pf = pf' \<Longrightarrow> (\<And>e. e \<in> set_prefetch_stride_attr pf' \<Longrightarrow> f e = g e) \<Longrightarrow> tok_prefetch f pf = tok_prefetch g pf'"
proof -
  show "bo = bo' \<Longrightarrow> (\<And>e. e \<in> set_bounds_attr bo' \<Longrightarrow> f e = g e) \<Longrightarrow> tok_bounds f bo = tok_bounds g bo'"
    by (cases bo') (simp add: tok_bounds_def)
  show "ti = ti' \<Longrightarrow> (\<And>e. e \<in> set_tile_attr ti' \<Longrightarrow> f e = g e) \<Longrightarrow> tok_tile f ti = tok_tile g ti'"
    by (cases ti') (auto simp: tok_tile_def tok_opt_def split: option.split)
  show "pf = pf' \<Longrightarrow> (\<And>e. e \<in> set_prefetch_stride_attr pf' \<Longrightarrow> f e = g e) \<Longrightarrow> tok_prefetch f pf = tok_prefetch g pf'"
    by (cases pf') (auto simp: tok_prefetch_def tok_opt_def split: option.split)
qed

lemma tok_arm_cong [fundef_cong]: "arm = arm' \<Longrightarrow> (\<And>e. e \<in> set_match_arm arm' \<Longrightarrow> f e = g e) \<Longrightarrow> tok_arm f arm = tok_arm g arm'"
  by (cases arm') (auto simp: tok_arm_def tok_pattern_def split: match_pattern.split)

lemma tok_arg_cong [fundef_cong]:
  "a = b \<Longrightarrow> (\<And>e. e \<in> set1_generic_arg b \<Longrightarrow> f e = f' e) \<Longrightarrow> (\<And>t. t \<in> set2_generic_arg b \<Longrightarrow> g t = g' t) \<Longrightarrow> tok_arg f g a = tok_arg f' g' b"
  by (cases b) (simp_all add: tok_arg_def)

lemma tok_field_cong [fundef_cong]: "p = q \<Longrightarrow> (\<And>e. e \<in> {snd q} \<Longrightarrow> f e = g e) \<Longrightarrow> tok_field f p = tok_field g q"
  by (simp add: tok_field_def)

function tok_stmt :: "stmt \<Rightarrow> token list" and tok_expr :: "expr \<Rightarrow> token list" and tok_ty :: "ty \<Rightarrow> token list" where
  "tok_stmt (Let a t i _ _ b _) = tok_opt tok_ty t @ tok_opt tok_expr i @ tok_opt (tok_bounds tok_expr) b @ [Decl a]"
| "tok_stmt (TypeAlias _ t _) = tok_ty t"
| "tok_stmt (For v a b st body iv _ tile pf _) =
     tok_expr a @ tok_expr b @ tok_opt tok_expr st @ tok_opt (tok_tile tok_expr) tile @ tok_opt (tok_prefetch tok_expr) pf @
     [Open, Decl v] @ tok_opt tok_expr iv @ tok_block tok_stmt body @ [Close]"
| "tok_stmt (Assign t e _) = tok_expr t @ tok_expr e"
| "tok_stmt (Expr e) = tok_expr e"
| "tok_stmt (Return e _) = tok_opt tok_expr e"
| "tok_stmt (Chisel b _) = tok_block tok_stmt b"
| "tok_stmt (If c b el _ _) = tok_expr c @ tok_block tok_stmt b @ tok_opt (tok_block tok_stmt) el"
| "tok_stmt (While c b iv _ _ _) = tok_expr c @ tok_opt tok_expr iv @ tok_block tok_stmt b"
| "tok_stmt (Break _) = []"
| "tok_stmt (Match e arms _) = tok_expr e @ tok_list (tok_arm tok_expr) arms"
| "tok_stmt (CompoundAssign t _ e _) = tok_expr t @ tok_expr e"
| "tok_stmt (SafeBlock b _) = tok_block tok_stmt b"
| "tok_stmt (GhostBlock b _) = tok_block tok_stmt b"
| "tok_stmt (ClockDomainBlock e b _) = tok_expr e @ tok_block tok_stmt b"
| "tok_stmt (CompileTimeAssert e _ _) = tok_expr e"
| "tok_stmt (HintBlock os b _) = map Use os @ tok_block tok_stmt b"
| "tok_expr (Ident n _) = [Use n]"
| "tok_expr (IntLit _ _) = []"
| "tok_expr (FloatLit _ _) = []"
| "tok_expr (StringLit _ _) = []"
| "tok_expr (CharLit _ _) = []"
| "tok_expr (BoolLit _ _) = []"
| "tok_expr (SelfLit _) = []"
| "tok_expr (ZeroInit _) = []"
| "tok_expr (Path _ _ _) = []"
| "tok_expr (Call f as _) = (if is_name f then [] else tok_expr f) @ tok_list tok_expr as"
| "tok_expr (GenericCall f ts as _) = (if is_name f then [] else tok_expr f) @ tok_list tok_ty ts @ tok_list tok_expr as"
| "tok_expr (Index a i _) = tok_expr a @ tok_expr i"
| "tok_expr (MemberAccess a _ _) = tok_expr a"
| "tok_expr (BinaryOp a _ b _) = tok_expr a @ tok_expr b"
| "tok_expr (UnaryOp _ a _) = tok_expr a"
| "tok_expr (BlockExpr b _) = tok_block tok_stmt b"
| "tok_expr (StructLit _ fs _) = tok_list (tok_field tok_expr) fs"
| "tok_ty (Primitive _ _) = []"
| "tok_ty (TyIdent _ _) = []"
| "tok_ty (Generic _ as _) = tok_list (tok_arg tok_expr tok_ty) as"
| "tok_ty (Array t e _) = tok_ty t @ tok_expr e"
| "tok_ty (Reference _ t _) = tok_ty t"
| "tok_ty (BlockTile t e _) = tok_ty t @ tok_expr e"
  by pat_completeness auto

termination
  by (relation "measure (case_sum size (case_sum size size))")
    (auto dest: inside_block [where f = size] inside_less [where f = size] inside_list [where f = size]
      inside_args [where f = size and g = size] size_member [where f = size] inside_fields [where f = size])

section \<open>Renaming a sequence\<close>

fun rn_token :: "token \<Rightarrow> renamer \<Rightarrow> token \<times> renamer" where
  "rn_token Open r = (Open, rn_push r)"
| "rn_token Close r = (Close, rn_pop r)"
| "rn_token (Decl n) r = (let (g, r1) = declare_name n r in (Decl g, r1))"
| "rn_token (Use n) r = (Use (use_name r n), r)"

abbreviation rn_tokens :: "token list \<Rightarrow> renamer \<Rightarrow> token list \<times> renamer" where
  "rn_tokens \<equiv> thread rn_token"

lemma thread_append: "thread f (xs @ ys) s = (fst (thread f xs s) @ fst (thread f ys (snd (thread f xs s))), snd (thread f ys (snd (thread f xs s))))"
  by (induction xs arbitrary: s) (simp_all add: split_beta)

text \<open>The walker \<open>w\<close> renames exactly the tokens of \<open>x\<close>.\<close>

definition follows :: "('a \<Rightarrow> token list) \<Rightarrow> ('a \<Rightarrow> renamer \<Rightarrow> 'a \<times> renamer) \<Rightarrow> 'a \<Rightarrow> bool" where
  "follows tk w x \<longleftrightarrow> (\<forall>r. rn_tokens (tk x) r = (tk (fst (w x r)), snd (w x r)))"

lemma follows_opt: "(\<And>a. x = Some a \<Longrightarrow> follows tk w a) \<Longrightarrow> follows (tok_opt tk) (thread_opt w) x"
  by (cases x) (simp_all add: follows_def tok_opt_def thread_opt_def split_beta)

lemma follows_list: "(\<And>a. a \<in> set xs \<Longrightarrow> follows tk w a) \<Longrightarrow> follows (tok_list tk) (thread w) xs"
proof (induction xs)
  case (Cons x xs)
  then have "follows tk w x" "follows (tok_list tk) (thread w) xs" by simp_all
  then show ?case by (simp add: follows_def tok_list_def thread_append split_beta)
qed (simp add: follows_def tok_list_def)

lemma follows_block: "(\<And>a. a \<in> set_block b \<Longrightarrow> follows tk w a) \<Longrightarrow> follows (tok_block tk) (rn_block_with w) b"
proof (cases b)
  case (Block ss sp)
  assume "\<And>a. a \<in> set_block b \<Longrightarrow> follows tk w a"
  then have "follows (tok_list tk) (thread w) ss" by (intro follows_list) (simp add: Block)
  then show ?thesis by (simp add: Block follows_def tok_block_def rn_block_with_def thread_append split_beta Let_def)
qed

lemma follows_attr:
  "(\<And>e. e \<in> set_bounds_attr bo \<Longrightarrow> follows tk w e) \<Longrightarrow> follows (tok_bounds tk) (rn_bounds w) bo"
  "(\<And>e. e \<in> set_tile_attr ti \<Longrightarrow> follows tk w e) \<Longrightarrow> follows (tok_tile tk) (rn_tile w) ti"
  "(\<And>e. e \<in> set_prefetch_stride_attr pf \<Longrightarrow> follows tk w e) \<Longrightarrow> follows (tok_prefetch tk) (rn_prefetch w) pf"
proof -
  show "(\<And>e. e \<in> set_bounds_attr bo \<Longrightarrow> follows tk w e) \<Longrightarrow> follows (tok_bounds tk) (rn_bounds w) bo"
    by (cases bo) (simp add: follows_def tok_bounds_def rn_bounds_def thread_append split_beta Let_def)
  assume pf: "\<And>e. e \<in> set_prefetch_stride_attr pf \<Longrightarrow> follows tk w e"
  show "follows (tok_prefetch tk) (rn_prefetch w) pf"
  proof (cases pf)
    case (PrefetchStrideAttr e sp)
    have "follows (tok_opt tk) (thread_opt w) e" by (rule follows_opt) (simp add: pf PrefetchStrideAttr)
    then show ?thesis by (simp add: PrefetchStrideAttr follows_def tok_prefetch_def rn_prefetch_def split_beta Let_def)
  qed
next
  assume ti: "\<And>e. e \<in> set_tile_attr ti \<Longrightarrow> follows tk w e"
  show "follows (tok_tile tk) (rn_tile w) ti"
  proof (cases ti)
    case (TileAttr m n k sp)
    have "follows tk w m" "follows tk w n" by (simp_all add: ti TileAttr)
    moreover have "follows (tok_opt tk) (thread_opt w) k" by (rule follows_opt) (simp add: ti TileAttr)
    ultimately show ?thesis by (simp add: TileAttr follows_def tok_tile_def rn_tile_def thread_append split_beta Let_def)
  qed
qed

lemma declare_all: "rn_tokens (map Decl xs) r = (map Decl (fst (thread declare_name xs r)), snd (thread declare_name xs r))"
  by (induction xs arbitrary: r) (simp_all add: split_beta Let_def)

lemma use_all: "rn_tokens (map Use xs) r = (map Use (map (use_name r) xs), r)"
  by (induction xs) (simp_all add: split_beta)

lemma follows_pattern: "(\<And>e. e \<in> set_match_pattern q \<Longrightarrow> follows tk w e) \<Longrightarrow> follows (tok_pattern tk) (rn_pattern w) q"
  by (cases q) (simp_all add: follows_def tok_pattern_def rn_pattern_def split_beta Let_def declare_all)

lemma follows_arm: "(\<And>e. e \<in> set_match_arm arm \<Longrightarrow> follows tk w e) \<Longrightarrow> follows (tok_arm tk) (rn_arm w) arm"
proof (cases arm)
  case (MatchArm q body sp)
  assume a: "\<And>e. e \<in> set_match_arm arm \<Longrightarrow> follows tk w e"
  have "follows tk w body" by (simp add: a MatchArm)
  moreover have "follows (tok_pattern tk) (rn_pattern w) q" by (rule follows_pattern) (simp add: a MatchArm)
  ultimately show ?thesis by (simp add: MatchArm follows_def tok_arm_def rn_arm_def thread_append split_beta Let_def)
qed

lemma follows_arg:
  "(\<And>e. e \<in> set1_generic_arg a \<Longrightarrow> follows tk w e) \<Longrightarrow> (\<And>t. t \<in> set2_generic_arg a \<Longrightarrow> follows tk' w' t) \<Longrightarrow>
   follows (tok_arg tk tk') (rn_arg w w') a"
  by (cases a) (simp_all add: follows_def tok_arg_def rn_arg_def split_beta Let_def)

lemma follows_field: "follows tk w (snd p) \<Longrightarrow> follows (tok_field tk) (rn_field w) p"
  by (simp add: follows_def tok_field_def rn_field_def split_beta Let_def)

lemma is_name_rn [simp]: "is_name (fst (rn_expr e r)) = is_name e"
  by (cases e) (simp_all add: is_name_def split_beta Let_def)

lemmas follows_parts = follows_opt follows_list follows_block follows_attr follows_arm follows_arg follows_field

lemmas walk_simps = follows_def thread_append split_beta Let_def use_all

lemma renames_tokens: "follows tok_stmt rn_stmt st" "follows tok_expr rn_expr e" "follows tok_ty rn_ty t"
proof (induction st and e and t rule: tok_stmt_tok_expr_tok_ty.induct)
  case (1 a t i c z b s)
  have "follows (tok_opt tok_ty) (thread_opt rn_ty) t" "follows (tok_opt tok_expr) (thread_opt rn_expr) i"
    "follows (tok_opt (tok_bounds tok_expr)) (thread_opt (rn_bounds rn_expr)) b"
    by (intro follows_parts; use 1 in blast)+
  then show ?case by (simp add: walk_simps)
next
  case (3 v a b st body iv u tile pf s)
  have "follows (tok_opt tok_expr) (thread_opt rn_expr) st"
    "follows (tok_opt (tok_tile tok_expr)) (thread_opt (rn_tile rn_expr)) tile"
    "follows (tok_opt (tok_prefetch tok_expr)) (thread_opt (rn_prefetch rn_expr)) pf"
    "follows (tok_opt tok_expr) (thread_opt rn_expr) iv"
    "follows (tok_block tok_stmt) (rn_block_with rn_stmt) body"
    by (intro follows_parts; use 3 in force)+
  then show ?case using 3 by (simp add: walk_simps)
next
  case (6 e s)
  have "follows (tok_opt tok_expr) (thread_opt rn_expr) e"
    by (intro follows_parts; use 6 in force)+
  then show ?case using 6 by (simp add: walk_simps)
next
  case (7 b s)
  have "follows (tok_block tok_stmt) (rn_block_with rn_stmt) b"
    by (intro follows_parts; use 7 in force)+
  then show ?case using 7 by (simp add: walk_simps)
next
  case (8 c b el u s)
  have "follows (tok_block tok_stmt) (rn_block_with rn_stmt) b"
    "follows (tok_opt (tok_block tok_stmt)) (thread_opt (rn_block_with rn_stmt)) el"
    by (intro follows_parts; use 8 in force)+
  then show ?case using 8 by (simp add: walk_simps)
next
  case (9 c b iv mi u s)
  have "follows (tok_opt tok_expr) (thread_opt rn_expr) iv"
    "follows (tok_block tok_stmt) (rn_block_with rn_stmt) b"
    by (intro follows_parts; use 9 in force)+
  then show ?case using 9 by (simp add: walk_simps)
next
  case (11 e arms s)
  have "follows (tok_list (tok_arm tok_expr)) (thread (rn_arm rn_expr)) arms"
    by (intro follows_parts; use 11 in force)+
  then show ?case using 11 by (simp add: walk_simps)
next
  case (13 b s)
  have "follows (tok_block tok_stmt) (rn_block_with rn_stmt) b"
    by (intro follows_parts; use 13 in force)+
  then show ?case using 13 by (simp add: walk_simps)
next
  case (14 b s)
  have "follows (tok_block tok_stmt) (rn_block_with rn_stmt) b"
    by (intro follows_parts; use 14 in force)+
  then show ?case using 14 by (simp add: walk_simps)
next
  case (15 e b s)
  have "follows (tok_block tok_stmt) (rn_block_with rn_stmt) b"
    by (intro follows_parts; use 15 in force)+
  then show ?case using 15 by (simp add: walk_simps)
next
  case (17 os b s)
  have "follows (tok_block tok_stmt) (rn_block_with rn_stmt) b"
    by (intro follows_parts; use 17 in force)+
  then show ?case using 17 by (simp add: walk_simps)
next
  case (27 f as s)
  have "follows (tok_list tok_expr) (thread rn_expr) as"
    by (intro follows_parts; use 27 in force)+
  then show ?case using 27 by (simp add: walk_simps)
next
  case (28 f ts as s)
  have "follows (tok_list tok_ty) (thread rn_ty) ts"
    "follows (tok_list tok_expr) (thread rn_expr) as"
    by (intro follows_parts; use 28 in force)+
  then show ?case using 28 by (simp add: walk_simps)
next
  case (33 b s)
  have "follows (tok_block tok_stmt) (rn_block_with rn_stmt) b"
    by (intro follows_parts; use 33 in force)+
  then show ?case using 33 by (simp add: walk_simps)
next
  case (34 n fs s)
  have "follows (tok_list (tok_field tok_expr)) (thread (rn_field rn_expr)) fs"
    by (intro follows_parts; use 34 in force)+
  then show ?case using 34 by (simp add: walk_simps)
next
  case (37 n as s)
  have "follows (tok_list (tok_arg tok_expr tok_ty)) (thread (rn_arg rn_expr rn_ty)) as"
    by (intro follows_parts; use 37 in force)+
  then show ?case using 37 by (simp add: walk_simps)
qed (simp_all add: walk_simps)

end
