(* ===== verification/YScopeSame.thy ===== *)
theory YScopeSame
  imports YScopeTokens
begin

text \<open>
  The renamer changes nothing but names: where the occurrences come out unchanged, so does the
  syntax around them.
\<close>

lemma length_thread [simp]: "length (fst (thread f xs s)) = length xs"
  by (induction xs arbitrary: s) (simp_all add: split_beta)

lemma follows_length: "follows tk w x \<Longrightarrow> length (tk (fst (w x r))) = length (tk x)"
  using length_thread [of rn_token "tk x" r] by (simp add: follows_def del: length_thread)

text \<open>The walker \<open>w\<close> renames exactly the tokens of \<open>x\<close>, and nothing else.\<close>

definition names_only :: "('a \<Rightarrow> token list) \<Rightarrow> ('a \<Rightarrow> renamer \<Rightarrow> 'a \<times> renamer) \<Rightarrow> 'a \<Rightarrow> bool" where
  "names_only tk w x \<longleftrightarrow> follows tk w x \<and> (\<forall>r. tk (fst (w x r)) = tk x \<longrightarrow> fst (w x r) = x)"

lemma names_onlyD:
  assumes "names_only tk w x"
  shows "length (tk (fst (w x r))) = length (tk x)" "tk (fst (w x r)) = tk x \<longleftrightarrow> fst (w x r) = x"
  using assms follows_length [of tk w x r] by (auto simp: names_only_def)

lemma names_follow: "names_only tk w x \<Longrightarrow> follows tk w x"
  by (simp add: names_only_def)

lemma names_opt: "(\<And>a. x = Some a \<Longrightarrow> names_only tk w a) \<Longrightarrow> names_only (tok_opt tk) (thread_opt w) x"
  using follows_opt [of x tk w] by (cases x) (auto simp: names_only_def tok_opt_def thread_opt_def split_beta)

lemma names_list: "(\<And>a. a \<in> set xs \<Longrightarrow> names_only tk w a) \<Longrightarrow> names_only (tok_list tk) (thread w) xs"
proof (induction xs)
  case (Cons x xs)
  then have x: "names_only tk w x" "names_only (tok_list tk) (thread w) xs" by simp_all
  have "follows (tok_list tk) (thread w) (x # xs)" using Cons.prems by (intro follows_list names_follow)
  moreover have "tok_list tk (y # ys) = tk y @ tok_list tk ys" for y ys by (simp add: tok_list_def)
  ultimately show ?case using names_onlyD [OF x(1)] names_onlyD [OF x(2)] by (simp add: names_only_def split_beta)
qed (simp add: names_only_def follows_def tok_list_def)

lemma names_block: "(\<And>a. a \<in> set_block b \<Longrightarrow> names_only tk w a) \<Longrightarrow> names_only (tok_block tk) (rn_block_with w) b"
proof (cases b)
  case (Block ss sp)
  assume a: "\<And>a. a \<in> set_block b \<Longrightarrow> names_only tk w a"
  then have ss: "names_only (tok_list tk) (thread w) ss" by (intro names_list) (simp add: Block)
  have "follows (tok_block tk) (rn_block_with w) b" using a by (intro follows_block names_follow)
  then show ?thesis using names_onlyD [OF ss]
    by (simp add: names_only_def Block tok_block_def rn_block_with_def split_beta Let_def)
qed

lemma names_attr:
  "(\<And>e. e \<in> set_bounds_attr bo \<Longrightarrow> names_only tk w e) \<Longrightarrow> names_only (tok_bounds tk) (rn_bounds w) bo"
  "(\<And>e. e \<in> set_tile_attr ti \<Longrightarrow> names_only tk w e) \<Longrightarrow> names_only (tok_tile tk) (rn_tile w) ti"
  "(\<And>e. e \<in> set_prefetch_stride_attr pf \<Longrightarrow> names_only tk w e) \<Longrightarrow> names_only (tok_prefetch tk) (rn_prefetch w) pf"
proof -
  assume bo: "\<And>e. e \<in> set_bounds_attr bo \<Longrightarrow> names_only tk w e"
  show "names_only (tok_bounds tk) (rn_bounds w) bo"
  proof (cases bo)
    case (BoundsAttr lo hi sp)
    have e: "names_only tk w lo" "names_only tk w hi" by (simp_all add: bo BoundsAttr)
    have "fst (rn_bounds w bo r) = bo" if "tok_bounds tk (fst (rn_bounds w bo r)) = tok_bounds tk bo" for r
      using that by (simp add: BoundsAttr tok_bounds_def rn_bounds_def split_beta Let_def names_onlyD [OF e(1)] names_onlyD [OF e(2)])
    moreover have "follows (tok_bounds tk) (rn_bounds w) bo" using bo by (intro follows_attr names_follow)
    ultimately show ?thesis by (simp only: names_only_def) blast
  qed
next
  assume ti: "\<And>e. e \<in> set_tile_attr ti \<Longrightarrow> names_only tk w e"
  show "names_only (tok_tile tk) (rn_tile w) ti"
  proof (cases ti)
    case (TileAttr m n k sp)
    have e: "names_only tk w m" "names_only tk w n" by (simp_all add: ti TileAttr)
    have k: "names_only (tok_opt tk) (thread_opt w) k" by (rule names_opt) (simp add: ti TileAttr)
    have "follows (tok_tile tk) (rn_tile w) ti" using ti by (intro follows_attr names_follow)
    then show ?thesis using names_onlyD [OF e(1)] names_onlyD [OF e(2)] names_onlyD [OF k]
      by (simp add: names_only_def TileAttr tok_tile_def rn_tile_def split_beta Let_def)
  qed
next
  assume pf: "\<And>e. e \<in> set_prefetch_stride_attr pf \<Longrightarrow> names_only tk w e"
  show "names_only (tok_prefetch tk) (rn_prefetch w) pf"
  proof (cases pf)
    case (PrefetchStrideAttr e sp)
    have "names_only (tok_opt tk) (thread_opt w) e" by (rule names_opt) (simp add: pf PrefetchStrideAttr)
    moreover have "follows (tok_prefetch tk) (rn_prefetch w) pf" using pf by (intro follows_attr names_follow)
    ultimately show ?thesis by (simp add: names_only_def PrefetchStrideAttr tok_prefetch_def rn_prefetch_def split_beta Let_def)
  qed
qed

lemma map_Decl_eq [simp]: "map Decl xs = map Decl ys \<longleftrightarrow> xs = ys"
  by (rule inj_map_eq_map) (simp add: inj_def)

lemma names_pattern: "(\<And>e. e \<in> set_match_pattern q \<Longrightarrow> names_only tk w e) \<Longrightarrow> tok_pattern tk (fst (rn_pattern w q r)) = tok_pattern tk q \<Longrightarrow> fst (rn_pattern w q r) = q"
  by (cases q) (auto simp: tok_pattern_def rn_pattern_def split_beta Let_def names_onlyD)

lemma names_arm: "(\<And>e. e \<in> set_match_arm arm \<Longrightarrow> names_only tk w e) \<Longrightarrow> names_only (tok_arm tk) (rn_arm w) arm"
proof -
  assume a: "\<And>e. e \<in> set_match_arm arm \<Longrightarrow> names_only tk w e"
  obtain q body sp where arm: "arm = MatchArm q body sp" by (cases arm)
  have b: "names_only tk w body" and q: "\<And>e. e \<in> set_match_pattern q \<Longrightarrow> names_only tk w e" by (simp_all add: a arm)
  have "follows (tok_pattern tk) (rn_pattern w) q" using q by (intro follows_pattern names_follow)
  then have "length (tok_pattern tk (fst (rn_pattern w q r))) = length (tok_pattern tk q)" for r by (rule follows_length)
  moreover have "follows (tok_arm tk) (rn_arm w) arm" using a by (intro follows_arm names_follow)
  ultimately show ?thesis using names_onlyD [OF b] names_pattern [OF q]
    by (simp add: names_only_def arm tok_arm_def rn_arm_def split_beta Let_def)
qed

lemma names_arg:
  "(\<And>e. e \<in> set1_generic_arg a \<Longrightarrow> names_only tk w e) \<Longrightarrow> (\<And>t. t \<in> set2_generic_arg a \<Longrightarrow> names_only tk' w' t) \<Longrightarrow>
   names_only (tok_arg tk tk') (rn_arg w w') a"
  using follows_arg [of a tk w tk' w'] by (cases a) (auto simp: names_only_def tok_arg_def rn_arg_def split_beta Let_def)

lemma names_field: "names_only tk w (snd p) \<Longrightarrow> names_only (tok_field tk) (rn_field w) p"
  using follows_field [of tk w p] by (cases p) (auto simp: names_only_def tok_field_def rn_field_def split_beta Let_def)

lemmas names_parts = names_opt names_list names_block names_attr names_arm names_arg names_field

lemmas same_simps = names_only_def walk_simps follows_length

lemma renames_names: "names_only tok_stmt rn_stmt st" "names_only tok_expr rn_expr e" "names_only tok_ty rn_ty t"
proof (induction st and e and t rule: tok_stmt_tok_expr_tok_ty.induct)
  case (1 a t i c z b s)
  have "names_only (tok_opt tok_ty) (thread_opt rn_ty) t" "names_only (tok_opt tok_expr) (thread_opt rn_expr) i"
    "names_only (tok_opt (tok_bounds tok_expr)) (thread_opt (rn_bounds rn_expr)) b"
    by (intro names_parts; use 1 in blast)+
  then show ?case by (simp add: same_simps)
next
  case (3 v a b st body iv u tile pf s)
  have "names_only (tok_opt tok_expr) (thread_opt rn_expr) st"
    "names_only (tok_opt (tok_tile tok_expr)) (thread_opt (rn_tile rn_expr)) tile"
    "names_only (tok_opt (tok_prefetch tok_expr)) (thread_opt (rn_prefetch rn_expr)) pf"
    "names_only (tok_opt tok_expr) (thread_opt rn_expr) iv"
    "names_only (tok_block tok_stmt) (rn_block_with rn_stmt) body"
    by (intro names_parts; use 3 in force)+
  then show ?case using 3 by (simp add: same_simps)
next
  case (6 e s)
  have "names_only (tok_opt tok_expr) (thread_opt rn_expr) e"
    by (intro names_parts; use 6 in force)+
  then show ?case using 6 by (simp add: same_simps)
next
  case (7 b s)
  have "names_only (tok_block tok_stmt) (rn_block_with rn_stmt) b"
    by (intro names_parts; use 7 in force)+
  then show ?case using 7 by (simp add: same_simps)
next
  case (8 c b el u s)
  have "names_only (tok_block tok_stmt) (rn_block_with rn_stmt) b"
    "names_only (tok_opt (tok_block tok_stmt)) (thread_opt (rn_block_with rn_stmt)) el"
    by (intro names_parts; use 8 in force)+
  then show ?case using 8 by (simp add: same_simps)
next
  case (9 c b iv mi u s)
  have "names_only (tok_opt tok_expr) (thread_opt rn_expr) iv"
    "names_only (tok_block tok_stmt) (rn_block_with rn_stmt) b"
    by (intro names_parts; use 9 in force)+
  then show ?case using 9 by (simp add: same_simps)
next
  case (11 e arms s)
  have "names_only (tok_list (tok_arm tok_expr)) (thread (rn_arm rn_expr)) arms"
    by (intro names_parts; use 11 in force)+
  then show ?case using 11 by (simp add: same_simps)
next
  case (13 b s)
  have "names_only (tok_block tok_stmt) (rn_block_with rn_stmt) b"
    by (intro names_parts; use 13 in force)+
  then show ?case using 13 by (simp add: same_simps)
next
  case (14 b s)
  have "names_only (tok_block tok_stmt) (rn_block_with rn_stmt) b"
    by (intro names_parts; use 14 in force)+
  then show ?case using 14 by (simp add: same_simps)
next
  case (15 e b s)
  have "names_only (tok_block tok_stmt) (rn_block_with rn_stmt) b"
    by (intro names_parts; use 15 in force)+
  then show ?case using 15 by (simp add: same_simps)
next
  case (17 os b s)
  have "names_only (tok_block tok_stmt) (rn_block_with rn_stmt) b"
    by (intro names_parts; use 17 in force)+
  then show ?case using 17 by (auto simp: same_simps intro: map_idI)
next
  case (27 f as s)
  have "names_only (tok_list tok_expr) (thread rn_expr) as"
    by (intro names_parts; use 27 in force)+
  then show ?case using 27 by (simp add: same_simps)
next
  case (28 f ts as s)
  have "names_only (tok_list tok_ty) (thread rn_ty) ts"
    "names_only (tok_list tok_expr) (thread rn_expr) as"
    by (intro names_parts; use 28 in force)+
  then show ?case using 28 by (simp add: same_simps)
next
  case (33 b s)
  have "names_only (tok_block tok_stmt) (rn_block_with rn_stmt) b"
    by (intro names_parts; use 33 in force)+
  then show ?case using 33 by (simp add: same_simps)
next
  case (34 n fs s)
  have "names_only (tok_list (tok_field tok_expr)) (thread (rn_field rn_expr)) fs"
    by (intro names_parts; use 34 in force)+
  then show ?case using 34 by (simp add: same_simps)
next
  case (37 n as s)
  have "names_only (tok_list (tok_arg tok_expr tok_ty)) (thread (rn_arg rn_expr rn_ty)) as"
    by (intro names_parts; use 37 in force)+
  then show ?case using 37 by (simp add: same_simps)
qed (simp_all add: same_simps)

end
