(* ===== verification/YScopeProps.thy ===== *)
theory YScopeProps
  imports YScopeSame
begin

text \<open>
  The renamer is correct: bindings end up with names of their own, uses with the name of the binding
  they resolve to under lexical scoping, and a function that needs no renaming is left alone.
\<close>

section \<open>Lexical scoping\<close>

text \<open>The binding each use resolves to, as its number in the order of bindings; \<open>None\<close> for a name bound
  nowhere around the use. This is the specification; it knows nothing of new names.\<close>

definition bind_in :: "string \<Rightarrow> 'a \<Rightarrow> (string \<rightharpoonup> 'a) list \<Rightarrow> (string \<rightharpoonup> 'a) list" where
  "bind_in x v scs = (case scs of sc # rest \<Rightarrow> sc(x \<mapsto> v) # rest | [] \<Rightarrow> [])"

fun resolve :: "(string \<rightharpoonup> nat) list \<Rightarrow> nat \<Rightarrow> token list \<Rightarrow> nat option list" where
  "resolve scs n [] = []"
| "resolve scs n (Open # ts) = resolve (Map.empty # scs) n ts"
| "resolve scs n (Close # ts) = resolve (tl scs) n ts"
| "resolve scs n (Decl x # ts) = resolve (bind_in x n scs) (Suc n) ts"
| "resolve scs n (Use x # ts) = find_scope scs x # resolve scs n ts"

fun binders :: "token list \<Rightarrow> string list" where
  "binders [] = []"
| "binders (Decl x # ts) = x # binders ts"
| "binders (Open # ts) = binders ts"
| "binders (Close # ts) = binders ts"
| "binders (Use x # ts) = binders ts"

fun uses :: "token list \<Rightarrow> string list" where
  "uses [] = []"
| "uses (Use x # ts) = x # uses ts"
| "uses (Open # ts) = uses ts"
| "uses (Close # ts) = uses ts"
| "uses (Decl x # ts) = uses ts"

lemma declare_name_simps:
  "fst (declare_name x r) = given_name (rn_taken r) x"
  "rn_taken (snd (declare_name x r)) = given_name (rn_taken r) x # rn_taken r"
  "rn_scopes (snd (declare_name x r)) = bind_in x (given_name (rn_taken r) x) (rn_scopes r)"
  by (simp_all add: declare_name_def Let_def bind_in_def)

lemma rn_scope_simps [simp]:
  "rn_taken (rn_push r) = rn_taken r" "rn_scopes (rn_push r) = Map.empty # rn_scopes r"
  "rn_taken (rn_pop r) = rn_taken r" "rn_scopes (rn_pop r) = tl (rn_scopes r)"
  by (simp_all add: rn_push_def rn_pop_def)

lemma first_free_fresh: "first_free taken x n \<notin> set taken"
  by (induction taken x n rule: first_free.induct) (subst first_free.simps, simp)

lemma first_free_candidate: "\<exists>m. first_free taken x n = candidate x m"
  by (induction taken x n rule: first_free.induct) (subst first_free.simps, auto)

lemma given_name_fresh: "given_name taken x \<notin> set taken"
  by (simp add: given_name_def first_free_fresh)

lemma given_name_source:
  assumes "CHR ''.'' \<notin> set x"
  shows "source_name (given_name taken x) = x"
proof -
  have "takeWhile (\<lambda>c. c \<noteq> CHR ''.'') (x @ CHR ''.'' # t) = x" "takeWhile (\<lambda>c. c \<noteq> CHR ''.'') x = x" for t
    using assms by (induction x) auto
  moreover obtain m where "first_free taken x 1 = candidate x m" using first_free_candidate by blast
  ultimately show ?thesis by (cases "x \<in> set taken") (simp_all add: given_name_def source_name_def candidate_def)
qed

lemma find_all: "\<forall>sc\<in>set scs. \<forall>x g. sc x = Some g \<longrightarrow> P x g \<Longrightarrow> find_scope scs x = Some g \<Longrightarrow> P x g"
  by (induction scs) (auto split: option.splits)

section \<open>Names of their own\<close>

lemma binders_fresh:
  "distinct (binders (fst (rn_tokens ts r))) \<and> set (binders (fst (rn_tokens ts r))) \<inter> set (rn_taken r) = {}"
proof (induction ts arbitrary: r rule: binders.induct)
  case (2 x ts)
  show ?case using 2 [of "snd (declare_name x r)"] given_name_fresh [of "rn_taken r" x]
    by (auto simp: split_beta declare_name_simps)
next
  case (3 ts)
  then show ?case using 3 [of "rn_push r"] by (simp add: split_beta)
next
  case (4 ts)
  then show ?case using 4 [of "rn_pop r"] by (simp add: split_beta)
qed (simp_all add: split_beta)

lemma length_tokens [simp]:
  "length (binders (fst (rn_tokens ts r))) = length (binders ts)" "length (uses (fst (rn_tokens ts r))) = length (uses ts)"
  "length (resolve scs n ts) = length (uses ts)"
proof -
  show "length (binders (fst (rn_tokens ts r))) = length (binders ts)"
    by (induction ts arbitrary: r rule: binders.induct) (simp_all add: split_beta)
  show "length (uses (fst (rn_tokens ts r))) = length (uses ts)"
    by (induction ts arbitrary: r rule: uses.induct) (simp_all add: split_beta)
  show "length (resolve scs n ts) = length (uses ts)" by (induction scs n ts rule: resolve.induct) simp_all
qed

section \<open>Uses follow their bindings\<close>

text \<open>The renamer's scopes hold the name given to the binding that the specification's scopes hold.\<close>

definition same_scopes :: "(string \<rightharpoonup> nat) list \<Rightarrow> (string \<rightharpoonup> string) list \<Rightarrow> string list \<Rightarrow> bool" where
  "same_scopes scs rscs given \<longleftrightarrow>
     list_all2 (\<lambda>m rm. \<forall>x. rm x = map_option (\<lambda>i. given ! i) (m x) \<and> (\<forall>i. m x = Some i \<longrightarrow> i < length given)) scs rscs"

lemma same_find:
  assumes "same_scopes scs rscs given"
  shows "find_scope rscs x = map_option (\<lambda>i. given ! i) (find_scope scs x)" "find_scope scs x = Some i \<Longrightarrow> i < length given"
  using assms unfolding same_scopes_def by (induction scs rscs rule: list_all2_induct) (auto split: option.splits)

lemma same_bind: "same_scopes scs rscs given \<Longrightarrow> same_scopes (bind_in x (length given) scs) (bind_in x g rscs) (given @ [g])"
proof -
  assume s: "same_scopes scs rscs given"
  have "same_scopes scs rscs (given @ [g])"
    using s unfolding same_scopes_def by (rule list_all2_mono) (fastforce simp: nth_append map_option_case less_Suc_eq split: option.splits)
  then show ?thesis by (cases scs; cases rscs) (auto simp: same_scopes_def bind_in_def)
qed

lemma uses_resolve:
  assumes "same_scopes scs (rn_scopes r) given"
  shows "uses (fst (rn_tokens ts r)) =
    map2 (\<lambda>x b. case b of Some i \<Rightarrow> (given @ binders (fst (rn_tokens ts r))) ! i | None \<Rightarrow> x) (uses ts) (resolve scs (length given) ts)"
  using assms
proof (induction scs "length given" ts arbitrary: r given rule: resolve.induct)
  case (2 scs ts)
  have "same_scopes (Map.empty # scs) (rn_scopes (rn_push r)) given" using 2(2) by (simp add: same_scopes_def)
  from 2(1) [OF _ this] show ?case by (simp add: split_beta)
next
  case (3 scs ts)
  have "same_scopes (tl scs) (rn_scopes (rn_pop r)) given" using 3(2) by (cases scs; cases "rn_scopes r") (simp_all add: same_scopes_def)
  from 3(1) [OF _ this] show ?case by (simp add: split_beta)
next
  case (4 scs x ts)
  let ?g = "given_name (rn_taken r) x"
  have "same_scopes (bind_in x (length given) scs) (rn_scopes (snd (declare_name x r))) (given @ [?g])"
    using same_bind [OF 4(2)] by (simp add: declare_name_simps)
  from 4(1) [OF _ this] show ?case by (simp add: split_beta declare_name_simps)
next
  case (5 scs x ts)
  note F = same_find [OF 5(2), of x]
  show ?case using 5(1) [OF refl 5(2)] F by (auto simp: split_beta use_name_def nth_append split: option.splits)
qed simp

text \<open>A use resolves to a binding of its name.\<close>

definition names_ok :: "(string \<rightharpoonup> nat) list \<Rightarrow> string list \<Rightarrow> bool" where
  "names_ok scs names \<longleftrightarrow> (\<forall>sc\<in>set scs. \<forall>x i. sc x = Some i \<longrightarrow> i < length names \<and> names ! i = x)"

lemma resolve_names:
  assumes "names_ok scs names"
  shows "list_all2 (\<lambda>x b. \<forall>i. b = Some i \<longrightarrow> i < length (names @ binders ts) \<and> (names @ binders ts) ! i = x) (uses ts) (resolve scs (length names) ts)"
  using assms
proof (induction scs "length names" ts arbitrary: names rule: resolve.induct)
  case (2 scs ts)
  then show ?case by (simp add: names_ok_def)
next
  case (3 scs ts)
  have "names_ok (tl scs) names" using 3(2) by (cases scs) (simp_all add: names_ok_def)
  from 3(1) [OF _ this] show ?case by simp
next
  case (4 scs x ts)
  have "names_ok (bind_in x (length names) scs) (names @ [x])"
    using 4(2) by (cases scs) (fastforce simp: names_ok_def bind_in_def nth_append less_Suc_eq)+
  from 4(1) [OF _ this] show ?case by simp
next
  case (5 scs x ts)
  have "find_scope scs x = Some i \<Longrightarrow> i < length names \<and> names ! i = x" for i
    using find_all [where P = "\<lambda>x i. i < length names \<and> names ! i = x"] 5(2) unfolding names_ok_def by blast
  then show ?case using 5(1) [OF refl 5(2)] by (auto simp: nth_append)
qed simp

lemma binders_source:
  assumes "\<forall>x\<in>set (binders ts). CHR ''.'' \<notin> set x"
  shows "map source_name (binders (fst (rn_tokens ts r))) = binders ts"
  using assms by (induction ts arbitrary: r rule: binders.induct) (auto simp: split_beta declare_name_simps given_name_source)

section \<open>Nothing to rename\<close>

lemma identity_tokens:
  assumes "distinct (binders ts)" "set (binders ts) \<inter> set (rn_taken r) = {}" "\<forall>sc\<in>set (rn_scopes r). \<forall>x g. sc x = Some g \<longrightarrow> g = x"
  shows "fst (rn_tokens ts r) = ts"
  using assms
proof (induction ts arbitrary: r)
  case (Cons t ts)
  have find: "find_scope (rn_scopes r) x = Some g \<Longrightarrow> g = x" for x g
    using find_all [OF Cons.prems(3)] by blast
  show ?case
  proof (cases t)
    case Open
    then show ?thesis using Cons.IH [of "rn_push r"] Cons.prems by (simp add: split_beta)
  next
    case Close
    have "\<forall>sc\<in>set (tl (rn_scopes r)). \<forall>x g. sc x = Some g \<longrightarrow> g = x" using Cons.prems(3) by (cases "rn_scopes r") simp_all
    then show ?thesis using Cons.IH [of "rn_pop r"] Cons.prems(1,2) Close by (simp add: split_beta)
  next
    case (Decl x)
    have g: "given_name (rn_taken r) x = x" using Cons.prems(2) Decl by (simp add: given_name_def)
    have "\<forall>sc\<in>set (rn_scopes (snd (declare_name x r))). \<forall>y g. sc y = Some g \<longrightarrow> g = y"
      using Cons.prems(3) by (cases "rn_scopes r") (auto simp: declare_name_simps bind_in_def g)
    then show ?thesis using Cons.IH [of "snd (declare_name x r)"] Cons.prems(1,2) Decl g by (simp add: split_beta declare_name_simps)
  next
    case (Use x)
    have "use_name r x = x" using find by (auto simp: use_name_def split: option.splits)
    then show ?thesis using Cons.IH [of r] Cons.prems Use by (simp add: split_beta)
  qed
qed simp

section \<open>Functions\<close>

text \<open>The scope of a function: the parameters, then the body.\<close>

definition tok_function :: "param list \<Rightarrow> stmt block \<Rightarrow> token list" where
  "tok_function params body = Open # map (\<lambda>q. Decl (par_name q)) params @ tok_block tok_stmt body"

definition rn_start :: renamer where
  "rn_start = \<lparr>rn_taken = [], rn_scopes = []\<rparr>"

lemma declare_params:
  assumes "distinct (map par_name params)" "set (map par_name params) \<inter> set (rn_taken r) = {}"
  shows "rn_tokens (map (\<lambda>q. Decl (par_name q)) params) r =
    (map (\<lambda>q. Decl (par_name q)) params, fold (\<lambda>q r. snd (declare_name (par_name q) r)) params r)"
  using assms
proof (induction params arbitrary: r)
  case (Cons q qs)
  have g: "given_name (rn_taken r) (par_name q) = par_name q" using Cons.prems(2) by (simp add: given_name_def)
  have "set (map par_name qs) \<inter> set (rn_taken (snd (declare_name (par_name q) r))) = {}"
    using Cons.prems by (auto simp: declare_name_simps g)
  then show ?case using Cons.IH Cons.prems(1) by (simp add: split_beta declare_name_simps g)
qed simp

lemma unique_bindings_tokens:
  assumes "distinct (map par_name params)"
  shows "tok_function params (unique_bindings params body) = fst (rn_tokens (tok_function params body) rn_start)"
proof -
  let ?r = "fold (\<lambda>q r. snd (declare_name (par_name q) r)) params (rn_push rn_start)"
  have "follows (tok_block tok_stmt) (rn_block_with rn_stmt) body" by (intro follows_block renames_tokens)
  then have "fst (rn_tokens (tok_block tok_stmt body) ?r) = tok_block tok_stmt (fst (rn_block body ?r))"
    by (simp add: follows_def rn_block_def)
  moreover have "rn_tokens (map (\<lambda>q. Decl (par_name q)) params) (rn_push rn_start) = (map (\<lambda>q. Decl (par_name q)) params, ?r)"
    by (rule declare_params [OF assms]) (simp add: rn_start_def)
  ultimately show ?thesis
    by (simp add: tok_function_def unique_bindings_def rn_start_def [symmetric] thread_append split_beta Let_def)
qed

lemma uses_source:
  assumes "\<forall>x\<in>set (binders ts @ uses ts). CHR ''.'' \<notin> set x" "rn_scopes r = []"
  shows "map source_name (uses (fst (rn_tokens ts r))) = uses ts"
proof (rule nth_equalityI)
  let ?ts' = "fst (rn_tokens ts r)"
  have b: "map source_name (binders ?ts') = binders ts" by (rule binders_source) (use assms(1) in simp)
  have L: "list_all2 (\<lambda>x b. \<forall>i. b = Some i \<longrightarrow> i < length (binders ts) \<and> binders ts ! i = x) (uses ts) (resolve [] 0 ts)"
    using resolve_names [of "[]" "[]" ts] by (simp add: names_ok_def)
  have u: "uses ?ts' = map2 (\<lambda>x b. case b of Some i \<Rightarrow> binders ?ts' ! i | None \<Rightarrow> x) (uses ts) (resolve [] 0 ts)"
    using uses_resolve [of "[]" r "[]" ts] assms(2) by (simp add: same_scopes_def)
  fix i assume "i < length (map source_name (uses ?ts'))"
  then have i: "i < length (uses ts)" by simp
  show "map source_name (uses ?ts') ! i = uses ts ! i"
  proof (cases "resolve [] 0 ts ! i")
    case None
    have "takeWhile (\<lambda>c. c \<noteq> CHR ''.'') (uses ts ! i) = uses ts ! i" using assms(1) i by (auto intro!: takeWhile_eq_all_conv [THEN iffD2])
    then show ?thesis using None i by (simp add: u source_name_def)
  next
    case (Some k)
    then have k: "k < length (binders ts)" "binders ts ! k = uses ts ! i" using list_all2_nthD [OF L i] by simp_all
    have "source_name (binders ?ts' ! k) = binders ts ! k" using k(1) b by (metis length_tokens(1) nth_map)
    then show ?thesis using Some i k by (simp add: u)
  qed
qed simp

section \<open>The properties\<close>

definition at :: span where
  "at = \<lparr>sp_line = 1, sp_col = 1\<rparr>"

text \<open>\<open>let x = n; { let x = x; let y = x; } let n = x; return x\<close>, with the parameter \<open>n\<close>.\<close>

definition shadow_params :: "param list" where
  "shadow_params = [\<lparr>par_name = ''n'', par_ty = TyIdent ''I32'' at, par_span = at\<rparr>]"

definition let_of :: "string \<Rightarrow> string \<Rightarrow> stmt" where
  "let_of x y = Let x None (Some (Ident y at)) None None None at"

definition shadow_body :: "stmt block" where
  "shadow_body = Block [let_of ''x'' ''n'', SafeBlock (Block [let_of ''x'' ''x'', let_of ''y'' ''x''] at) at,
     let_of ''n'' ''x'', Return (Some (Ident ''x'' at)) at] at"

lemma shadow_facts:
  "binders (tok_function shadow_params (unique_bindings shadow_params shadow_body)) = [''n'', ''x'', ''x.1'', ''y'', ''n.1'']"
  "binders (tok_function shadow_params shadow_body) = [''n'', ''x'', ''x'', ''y'', ''n'']"
  "uses (tok_function shadow_params shadow_body) = [''n'', ''x'', ''x'', ''x'', ''x'']"
  "resolve [] 0 (tok_function shadow_params shadow_body) = [Some 0, Some 1, Some 2, Some 1, Some 1]"
  "distinct (map par_name shadow_params)"
  by code_simp+

text \<open>C10: Renaming implements lexical scoping on one slot per name: with distinct parameters every
  binding ends up with a name of its own, and every use carries the name of exactly the binding it
  resolves to under the nesting of scopes, or its own name when nothing around it binds it.\<close>

theorem unique_bindings_correct:
  assumes "distinct (map par_name params)"
    and "before = tok_function params body" "after = tok_function params (unique_bindings params body)"
  shows "distinct (binders after) \<and>
    uses after = map2 (\<lambda>x b. case b of Some i \<Rightarrow> binders after ! i | None \<Rightarrow> x) (uses before) (resolve [] 0 before)"
proof -
  have after: "after = fst (rn_tokens before rn_start)" using unique_bindings_tokens [OF assms(1)] assms(2,3) by simp
  show ?thesis
    using binders_fresh [of before rn_start] uses_resolve [of "[]" rn_start "[]" before]
    by (simp add: after same_scopes_def rn_start_def)
qed

theorem unique_bindings_correct_witness:
  "binders (tok_function shadow_params (unique_bindings shadow_params shadow_body)) = [''n'', ''x'', ''x.1'', ''y'', ''n.1''] \<and>
   uses (tok_function shadow_params (unique_bindings shadow_params shadow_body)) = [''n'', ''x'', ''x.1'', ''x'', ''x'']"
  using unique_bindings_correct [OF shadow_facts(5) refl refl, of shadow_body] by (simp add: shadow_facts)

text \<open>C33: The source spelling survives: cutting a renamed function's names at their first dot gives
  back the bindings and uses of the source, whose names have no dot.\<close>

theorem unique_bindings_source:
  assumes "distinct (map par_name params)" "before = tok_function params body"
    and "\<forall>x\<in>set (binders before @ uses before). CHR ''.'' \<notin> set x"
    and "after = tok_function params (unique_bindings params body)"
  shows "map source_name (binders after) = binders before \<and> map source_name (uses after) = uses before"
proof -
  have after: "after = fst (rn_tokens before rn_start)" using unique_bindings_tokens [OF assms(1)] assms(2,4) by simp
  show ?thesis using binders_source [of before rn_start] uses_source [of before rn_start] assms(3) by (simp add: after rn_start_def)
qed

theorem unique_bindings_source_witness:
  "map source_name [''n'', ''x'', ''x.1'', ''y'', ''n.1''] = [''n'', ''x'', ''x'', ''y'', ''n'']"
  using unique_bindings_source [OF shadow_facts(5) refl _ refl, of shadow_body] by (simp add: shadow_facts)

text \<open>C34: A function that binds no name twice comes back unchanged, all of its syntax included.\<close>

theorem unique_bindings_identity:
  assumes "distinct (binders (tok_function params body))"
  shows "unique_bindings params body = body"
proof -
  have d: "distinct (map par_name params)"
  proof -
    have "binders (map (\<lambda>q. Decl (par_name q)) qs @ ts) = map par_name qs @ binders ts" for qs :: "param list" and ts
      by (induction qs) simp_all
    then show ?thesis using assms by (simp add: tok_function_def)
  qed
  have "tok_function params (unique_bindings params body) = tok_function params body"
    unfolding unique_bindings_tokens [OF d] by (rule identity_tokens) (use assms in \<open>simp_all add: rn_start_def\<close>)
  then have "tok_block tok_stmt (unique_bindings params body) = tok_block tok_stmt body" by (simp add: tok_function_def)
  moreover have "names_only (tok_block tok_stmt) (rn_block_with rn_stmt) body" by (intro names_block renames_names)
  ultimately show ?thesis by (simp add: names_only_def unique_bindings_def rn_block_def Let_def)
qed

theorem unique_bindings_identity_witness:
  "unique_bindings shadow_params (Block [let_of ''x'' ''n'', let_of ''y'' ''x''] at) = Block [let_of ''x'' ''n'', let_of ''y'' ''x''] at"
  by (rule unique_bindings_identity) code_simp

end
