(* ===== verification/YTracker.thy ===== *)
theory YTracker
  imports YScope "HOL-Library.AList" "HOL-Library.Char_ord" "HOL-Library.List_Lexorder"
begin

text \<open>
  The tracker of asynchronous transfers (\<^verbatim>\<open>LinearTracker\<close> of \<^verbatim>\<open>src/linear_tracker.rs\<close>) and the calls the
  type checker makes to it (\<^verbatim>\<open>src/type_checker.rs\<close>). A transfer \<^verbatim>\<open>let t = cp_async(src, dst, n)\<close> is an
  obligation of the scope it is made in: it has to be awaited by \<^verbatim>\<open>pipe.wait(t)\<close>, once, and a read of
  \<^verbatim>\<open>dst\<close> has to follow the wait and a \<^verbatim>\<open>barrier::sync()\<close>. A scope is an association list in the order in
  which its hash map is iterated, the innermost scope comes first, and a message is a constructor.
\<close>

section \<open>The tracker\<close>

record obligation =
  ob_name :: string
  ob_created_at :: span
  ob_destination :: "string option"
  ob_consumed :: bool
  ob_synced :: bool
  ob_cond :: nat
  ob_loop :: nat

datatype linear_error =
    NeverConsumed nat string
  | Reassigned nat string
  | ConsumedTwice nat string
  | AwaitedInLoop nat string
  | AwaitedInBranch nat string
  | NotReady nat string "string list" "string list"

type_synonym obligations = "(string \<times> obligation) list"

record tracker =
  lt_scopes :: "obligations list"
  lt_cond :: nat
  lt_loop :: nat
  lt_errors :: "linear_error list"

definition lt_new :: tracker where
  "lt_new = \<lparr>lt_scopes = [[]], lt_cond = 0, lt_loop = 0, lt_errors = []\<rparr>"

definition lt_error :: "linear_error \<Rightarrow> tracker \<Rightarrow> tracker" where
  "lt_error e t = t\<lparr>lt_errors := lt_errors t @ [e]\<rparr>"

definition lt_push :: "tracker \<Rightarrow> tracker" where
  "lt_push t = t\<lparr>lt_scopes := [] # lt_scopes t\<rparr>"

definition enter_conditional :: "tracker \<Rightarrow> tracker" where
  "enter_conditional t = t\<lparr>lt_cond := lt_cond t + 1\<rparr>"

definition exit_conditional :: "tracker \<Rightarrow> tracker" where
  "exit_conditional t = t\<lparr>lt_cond := lt_cond t - 1\<rparr>"

definition enter_loop :: "tracker \<Rightarrow> tracker" where
  "enter_loop t = t\<lparr>lt_loop := lt_loop t + 1\<rparr>"

definition exit_loop :: "tracker \<Rightarrow> tracker" where
  "exit_loop t = t\<lparr>lt_loop := lt_loop t - 1\<rparr>"

definition never_consumed :: "obligations \<Rightarrow> linear_error list" where
  "never_consumed sc = map (\<lambda>(name, ob). NeverConsumed (sp_line (ob_created_at ob)) name) (filter (\<lambda>(name, ob). \<not> ob_consumed ob) sc)"

definition lt_pop :: "tracker \<Rightarrow> tracker" where
  "lt_pop t = (case lt_scopes t of [] \<Rightarrow> t | sc # scs \<Rightarrow> t\<lparr>lt_scopes := scs, lt_errors := lt_errors t @ never_consumed sc\<rparr>)"

definition register_obligation :: "string \<Rightarrow> span \<Rightarrow> string option \<Rightarrow> tracker \<Rightarrow> tracker" where
  "register_obligation name sp dest t =
     (case lt_scopes t of
        [] \<Rightarrow> t
      | sc # scs \<Rightarrow>
          let t1 = (case map_of sc name of
                      Some prev \<Rightarrow> if ob_consumed prev then t else lt_error (Reassigned (sp_line sp) name) t
                    | None \<Rightarrow> t);
              ob = \<lparr>ob_name = name, ob_created_at = sp, ob_destination = dest, ob_consumed = False, ob_synced = False,
                    ob_cond = lt_cond t, ob_loop = lt_loop t\<rparr>
          in t1\<lparr>lt_scopes := AList.update name ob sc # scs\<rparr>)"

fun set_obligation :: "string \<Rightarrow> obligation \<Rightarrow> obligations list \<Rightarrow> obligations list" where
  "set_obligation name ob [] = []"
| "set_obligation name ob (sc # scs) =
     (if map_of sc name = None then sc # set_obligation name ob scs else AList.update name ob sc # scs)"

definition consume_obligation :: "string \<Rightarrow> span \<Rightarrow> tracker \<Rightarrow> bool \<times> tracker" where
  "consume_obligation name sp t =
     (case find_scope (map map_of (lt_scopes t)) name of
        None \<Rightarrow> (True, t)
      | Some ob \<Rightarrow>
          if ob_consumed ob then (False, lt_error (ConsumedTwice (sp_line sp) name) t)
          else
            let t1 = t\<lparr>lt_scopes := set_obligation name (ob\<lparr>ob_consumed := True, ob_synced := False\<rparr>) (lt_scopes t)\<rparr>
            in if ob_loop ob < lt_loop t then (False, lt_error (AwaitedInLoop (sp_line sp) name) t1)
               else if ob_cond ob < lt_cond t then (False, lt_error (AwaitedInBranch (sp_line sp) name) t1)
               else (True, t1))"

definition is_tracked_obligation :: "string \<Rightarrow> tracker \<Rightarrow> bool" where
  "is_tracked_obligation name t = list_ex (\<lambda>sc. map_of sc name \<noteq> None) (lt_scopes t)"

definition sync_one :: "obligation \<Rightarrow> obligation" where
  "sync_one ob = (if ob_consumed ob then ob\<lparr>ob_synced := True\<rparr> else ob)"

definition synchronize_barrier :: "tracker \<Rightarrow> tracker" where
  "synchronize_barrier t = t\<lparr>lt_scopes := map (map (\<lambda>(name, ob). (name, sync_one ob))) (lt_scopes t)\<rparr>"

definition pending :: "(obligation \<Rightarrow> bool) \<Rightarrow> string \<Rightarrow> tracker \<Rightarrow> string list" where
  "pending P dest t = remdups (sort (map ob_name (filter (\<lambda>ob. ob_destination ob = Some dest \<and> P ob) (map snd (concat (lt_scopes t))))))"

definition require_destination_ready :: "string \<Rightarrow> span \<Rightarrow> tracker \<Rightarrow> bool \<times> tracker" where
  "require_destination_ready dest sp t =
     (let waits = pending (\<lambda>ob. \<not> ob_consumed ob) dest t;
          barriers = pending (\<lambda>ob. ob_consumed ob \<and> \<not> ob_synced ob) dest t
      in if waits = [] \<and> barriers = [] then (True, t)
         else (False, lt_error (NotReady (sp_line sp) dest waits barriers) t))"

definition has_errors :: "tracker \<Rightarrow> bool" where
  "has_errors t = (lt_errors t \<noteq> [])"

section \<open>The calls of the type checker\<close>

text \<open>
  What a statement makes \<^verbatim>\<open>check_stmt\<close> and \<^verbatim>\<open>check_expr\<close> call, as a tree: \<open>Transfer\<close> is a \<^verbatim>\<open>let\<close> of a \<^verbatim>\<open>cp_async\<close>,
  \<open>Await\<close> an argument of \<^verbatim>\<open>pipe.wait\<close> (\<^verbatim>\<open>check_wait_call\<close>), \<open>ReadFrom\<close> an index or load, \<open>Nested\<close> a block (\<^verbatim>\<open>check_block\<close>),
  \<open>Branch\<close> an \<^verbatim>\<open>if\<close> with one or two blocks or a \<^verbatim>\<open>match\<close> with its arms, \<open>ForLoop\<close> and \<open>WhileLoop\<close> the loops.
  \<^verbatim>\<open>return\<close> and \<^verbatim>\<open>break\<close> make no call. The rest of the type checker is not modelled.
\<close>

datatype act =
    Transfer string span "string option"
  | Await string span
  | Barrier
  | ReadFrom string span
  | Nested "act list"
  | Branch "act list list"
  | ForLoop "act list"
  | WhileLoop "act list"
  | ReturnNow
  | BreakNow

text \<open>The checker refuses a wait for a name that is no obligation with a message of its own.\<close>

record checker =
  ck_tracker :: tracker
  ck_untracked :: "(nat \<times> string) list"

definition on_tracker :: "(tracker \<Rightarrow> tracker) \<Rightarrow> checker \<Rightarrow> checker" where
  "on_tracker f c = c\<lparr>ck_tracker := f (ck_tracker c)\<rparr>"

definition check_wait :: "string \<Rightarrow> span \<Rightarrow> checker \<Rightarrow> checker" where
  "check_wait name sp c =
     (if is_tracked_obligation name (ck_tracker c) then on_tracker (\<lambda>t. snd (consume_obligation name sp t)) c
      else c\<lparr>ck_untracked := ck_untracked c @ [(sp_line sp, name)]\<rparr>)"

fun check_act :: "act \<Rightarrow> checker \<Rightarrow> checker"
  and check_acts :: "act list \<Rightarrow> checker \<Rightarrow> checker"
  and check_block :: "act list \<Rightarrow> checker \<Rightarrow> checker"
  and check_arms :: "act list list \<Rightarrow> checker \<Rightarrow> checker" where
  "check_act (Transfer name sp dest) c = on_tracker (register_obligation name sp dest) c"
| "check_act (Await name sp) c = check_wait name sp c"
| "check_act Barrier c = on_tracker synchronize_barrier c"
| "check_act (ReadFrom dest sp) c = on_tracker (\<lambda>t. snd (require_destination_ready dest sp t)) c"
| "check_act (Nested b) c = check_block b c"
| "check_act (Branch arms) c = on_tracker exit_conditional (check_arms arms (on_tracker enter_conditional c))"
| "check_act (ForLoop b) c =
     on_tracker lt_pop (on_tracker exit_loop (check_acts b (on_tracker enter_loop (on_tracker lt_push c))))"
| "check_act (WhileLoop b) c =
     on_tracker exit_loop (on_tracker exit_conditional
       (check_block b (on_tracker enter_conditional (on_tracker enter_loop c))))"
| "check_act ReturnNow c = c"
| "check_act BreakNow c = c"
| "check_acts [] c = c"
| "check_acts (a # as) c = check_acts as (check_act a c)"
| "check_block b c = on_tracker lt_pop (check_acts b (on_tracker lt_push c))"
| "check_arms [] c = c"
| "check_arms (b # bs) c = check_arms bs (check_block b c)"

text \<open>A function: the scope of its parameters around the block of its body.\<close>

definition check_function :: "act list \<Rightarrow> checker" where
  "check_function body =
     on_tracker lt_pop (check_block body (on_tracker lt_push \<lparr>ck_tracker = lt_new, ck_untracked = []\<rparr>))"

definition accepted :: "act list \<Rightarrow> bool" where
  "accepted body = (\<not> has_errors (ck_tracker (check_function body)) \<and> ck_untracked (check_function body) = [])"

end
