(* ===== verification/YTrackerRun.thy ===== *)
theory YTrackerRun
  imports YTracker
begin

text \<open>
  Executions of the statements the tracker walks through, and the simulation: what the tracker
  records of an accepted program is what happens in every execution of it.
\<close>

section \<open>Executions\<close>

text \<open>Every transfer started at run time is an instance of its own, named by a number.\<close>

datatype event = Started nat "string option" | Awaited nat | Synced | Loaded string

datatype outcome = Done | Broke | Returned

record run_state =
  rt_env :: "(string \<rightharpoonup> nat) list"
  rt_next :: nat
  rt_trace :: "event list"

definition emit :: "event list \<Rightarrow> run_state \<Rightarrow> run_state" where
  "emit es s = s\<lparr>rt_trace := rt_trace s @ es\<rparr>"

definition start_transfer :: "string \<Rightarrow> string option \<Rightarrow> run_state \<Rightarrow> run_state" where
  "start_transfer name dest s =
     (emit [Started (rt_next s) dest] s)\<lparr>rt_next := rt_next s + 1,
        rt_env := (case rt_env s of e # es \<Rightarrow> e(name \<mapsto> rt_next s) # es | [] \<Rightarrow> [])\<rparr>"

definition await_transfer :: "string \<Rightarrow> run_state \<Rightarrow> run_state" where
  "await_transfer name s = emit (case find_scope (rt_env s) name of Some k \<Rightarrow> [Awaited k] | None \<Rightarrow> []) s"

definition enter :: "run_state \<Rightarrow> run_state" where
  "enter s = s\<lparr>rt_env := Map.empty # rt_env s\<rparr>"

definition leave :: "run_state \<Rightarrow> run_state \<Rightarrow> run_state" where
  "leave s s1 = s1\<lparr>rt_env := rt_env s\<rparr>"

text \<open>The blocks of which one is executed, and the body of a loop. A branch may skip all its arms.\<close>

fun once :: "act \<Rightarrow> act list list" where
  "once (Nested b) = [b]"
| "once (Branch arms) = [] # arms"
| "once _ = []"

fun loop_body :: "act \<Rightarrow> act list option" where
  "loop_body (ForLoop b) = Some b"
| "loop_body (WhileLoop b) = Some b"
| "loop_body _ = None"

inductive run :: "act list \<Rightarrow> run_state \<Rightarrow> outcome \<Rightarrow> run_state \<Rightarrow> bool" where
  run_nil: "run [] s Done s"
| run_transfer: "run as (start_transfer name dest s) out s' \<Longrightarrow> run (Transfer name sp dest # as) s out s'"
| run_await: "run as (await_transfer name s) out s' \<Longrightarrow> run (Await name sp # as) s out s'"
| run_barrier: "run as (emit [Synced] s) out s' \<Longrightarrow> run (Barrier # as) s out s'"
| run_read: "run as (emit [Loaded dest] s) out s' \<Longrightarrow> run (ReadFrom dest sp # as) s out s'"
| run_block: "b \<in> set (once a) \<Longrightarrow> run b (enter s) Done s1 \<Longrightarrow> run as (leave s s1) out s2 \<Longrightarrow> run (a # as) s out s2"
| run_block_exit: "b \<in> set (once a) \<Longrightarrow> run b (enter s) out s1 \<Longrightarrow> out \<noteq> Done \<Longrightarrow> run (a # as) s out (leave s s1)"
| run_loop_end: "loop_body a = Some b \<Longrightarrow> run as s out s' \<Longrightarrow> run (a # as) s out s'"
| run_loop_step: "loop_body a = Some b \<Longrightarrow> run b (enter s) Done s1 \<Longrightarrow> run (a # as) (leave s s1) out s2 \<Longrightarrow> run (a # as) s out s2"
| run_loop_break: "loop_body a = Some b \<Longrightarrow> run b (enter s) Broke s1 \<Longrightarrow> run as (leave s s1) out s2 \<Longrightarrow> run (a # as) s out s2"
| run_loop_return: "loop_body a = Some b \<Longrightarrow> run b (enter s) Returned s1 \<Longrightarrow> run (a # as) s Returned (leave s s1)"
| run_return: "run (ReturnNow # as) s Returned s"
| run_break: "run (BreakNow # as) s Broke s"

definition run_function :: "act list \<Rightarrow> outcome \<Rightarrow> run_state \<Rightarrow> bool" where
  "run_function body = run [Nested body] \<lparr>rt_env = [Map.empty, Map.empty], rt_next = 0, rt_trace = []\<rparr>"

text \<open>No early exit anywhere.\<close>

fun no_exit :: "act \<Rightarrow> bool" where
  "no_exit (Nested b) = list_all no_exit b"
| "no_exit (Branch arms) = list_all (list_all no_exit) arms"
| "no_exit (ForLoop b) = list_all no_exit b"
| "no_exit (WhileLoop b) = list_all no_exit b"
| "no_exit ReturnNow = False"
| "no_exit BreakNow = False"
| "no_exit _ = True"

fun concerns :: "nat \<Rightarrow> event \<Rightarrow> bool" where
  "concerns k (Started j d) = (j = k)"
| "concerns k (Awaited j) = (j = k)"
| "concerns k _ = False"

text \<open>What happens to one transfer, in order.\<close>

definition history :: "nat \<Rightarrow> event list \<Rightarrow> event list" where
  "history k tr = filter (concerns k) tr"

definition reads_after_waits :: "event list \<Rightarrow> bool" where
  "reads_after_waits tr \<longleftrightarrow>
     (\<forall>before dest after k. tr = before @ Loaded dest # after \<longrightarrow> Started k (Some dest) \<in> set before \<longrightarrow> Awaited k \<in> set before)"

lemma history_append [simp]: "history k (tr @ es) = history k tr @ history k es"
  by (simp add: history_def)

lemma history_events [simp]:
  "history k [] = []" "history k [Started j d] = (if j = k then [Started j d] else [])"
  "history k [Awaited j] = (if j = k then [Awaited j] else [])" "history k [Synced] = []" "history k [Loaded dest] = []"
  by (simp_all add: history_def)

lemma run_state_simps [simp]:
  "rt_env (emit es s) = rt_env s" "rt_next (emit es s) = rt_next s" "rt_trace (emit es s) = rt_trace s @ es"
  "rt_env (enter s) = Map.empty # rt_env s" "rt_next (enter s) = rt_next s" "rt_trace (enter s) = rt_trace s"
  "rt_env (leave s s1) = rt_env s" "rt_next (leave s s1) = rt_next s1" "rt_trace (leave s s1) = rt_trace s1"
  by (simp_all add: emit_def enter_def leave_def)

text \<open>The scopes outside the innermost one are those of the program text.\<close>

lemma run_outer_env: "run as s out s' \<Longrightarrow> length (rt_env s') = length (rt_env s) \<and> tl (rt_env s') = tl (rt_env s)"
  by (induction rule: run.induct) (auto simp: start_transfer_def await_transfer_def split: list.splits)

section \<open>What a check leaves alone\<close>

definition clean :: "checker \<Rightarrow> bool" where
  "clean c \<longleftrightarrow> lt_errors (ck_tracker c) = [] \<and> ck_untracked c = []"

abbreviation scopes :: "checker \<Rightarrow> obligations list" where
  "scopes c \<equiv> lt_scopes (ck_tracker c)"

definition shape :: "checker \<Rightarrow> nat \<times> nat \<times> nat" where
  "shape c = (length (scopes c), lt_cond (ck_tracker c), lt_loop (ck_tracker c))"

text \<open>The scopes but for the marks of barriers, which the waits do not depend on.\<close>

definition strip :: "obligations list \<Rightarrow> obligations list" where
  "strip scs = map (map (\<lambda>(name, ob). (name, ob\<lparr>ob_synced := False\<rparr>))) scs"

definition fits :: "nat \<Rightarrow> nat \<Rightarrow> obligations list \<Rightarrow> bool" where
  "fits cd lp scs \<longleftrightarrow> (\<forall>sc\<in>set scs. \<forall>(name, ob)\<in>set sc. ob_cond ob \<le> cd \<and> ob_loop ob \<le> lp)"

definition stale :: "nat \<Rightarrow> nat \<Rightarrow> obligations list \<Rightarrow> bool" where
  "stale cd lp scs \<longleftrightarrow> (\<forall>sc\<in>set scs. \<forall>(name, ob)\<in>set sc. ob_cond ob < cd \<or> ob_loop ob < lp)"

lemma strip_entries:
  assumes "strip scs = strip scs'" "\<And>ob b. P (ob\<lparr>ob_synced := b\<rparr>) = P ob"
  shows "(\<forall>sc\<in>set scs. \<forall>(name, ob)\<in>set sc. P ob) \<longleftrightarrow> (\<forall>sc\<in>set scs'. \<forall>(name, ob)\<in>set sc. P ob)"
proof -
  have *: "(\<forall>sc\<in>set scs. \<forall>(name, ob)\<in>set sc. P ob) \<longleftrightarrow> (\<forall>sc\<in>set (strip scs). \<forall>(name, ob)\<in>set sc. P ob)" for scs
    by (simp add: strip_def split_beta assms(2))
  show ?thesis unfolding * [of scs] * [of scs'] assms(1) ..
qed

lemma fits_strip: "strip scs = strip scs' \<Longrightarrow> fits cd lp scs = fits cd lp scs'"
  unfolding fits_def by (rule strip_entries) simp_all

lemma stale_strip: "strip scs = strip scs' \<Longrightarrow> stale cd lp scs = stale cd lp scs'"
  unfolding stale_def by (rule strip_entries) simp_all

lemma fits_stale:
  "fits cd lp scs \<Longrightarrow> stale (Suc cd) lp scs" "fits cd lp scs \<Longrightarrow> stale cd (Suc lp) scs"
  by (fastforce simp: fits_def stale_def)+

lemma stale_mono: "stale cd lp scs \<Longrightarrow> cd \<le> cd' \<Longrightarrow> lp \<le> lp' \<Longrightarrow> stale cd' lp' scs"
  by (fastforce simp: stale_def)

lemma fits_mono: "fits cd lp scs \<Longrightarrow> cd \<le> cd' \<Longrightarrow> lp \<le> lp' \<Longrightarrow> fits cd' lp' scs"
  by (fastforce simp: fits_def)

lemma strip_append: "strip (xs @ ys) = strip xs @ strip ys"
  by (simp add: strip_def)

definition stale_in :: "checker \<Rightarrow> obligations list \<Rightarrow> bool" where
  "stale_in c = stale (lt_cond (ck_tracker c)) (lt_loop (ck_tracker c))"

definition fits_in :: "checker \<Rightarrow> bool" where
  "fits_in c = fits (lt_cond (ck_tracker c)) (lt_loop (ck_tracker c)) (scopes c)"

text \<open>A step of the checker: errors stay, nesting is restored, and scopes whose obligations were all made
  outside the current branch or loop keep what they record.\<close>

definition steady :: "(checker \<Rightarrow> checker) \<Rightarrow> bool" where
  "steady f \<longleftrightarrow> (\<forall>c. (clean (f c) \<longrightarrow> clean c) \<and> shape (f c) = shape c)"

definition keeps_outer :: "(checker \<Rightarrow> checker) \<Rightarrow> bool" where
  "keeps_outer f \<longleftrightarrow> steady f \<and>
     (\<forall>c. scopes c \<noteq> [] \<longrightarrow> clean (f c) \<longrightarrow>
       (\<forall>us vs. scopes c = us @ vs \<longrightarrow> us \<noteq> [] \<longrightarrow> stale_in c vs \<longrightarrow>
         (\<exists>us' vs'. scopes (f c) = us' @ vs' \<and> length us' = length us \<and> strip vs' = strip vs)) \<and>
       (fits_in c \<longrightarrow> fits_in (f c)))"

text \<open>A block leaves no new obligation behind.\<close>

definition closed_step :: "(checker \<Rightarrow> checker) \<Rightarrow> bool" where
  "closed_step f \<longleftrightarrow> keeps_outer f \<and> (\<forall>c. clean (f c) \<longrightarrow> stale_in c (scopes c) \<longrightarrow> strip (scopes (f c)) = strip (scopes c))"

lemma steady_comp: "steady f \<Longrightarrow> steady g \<Longrightarrow> steady (\<lambda>c. g (f c))"
  unfolding steady_def by metis

lemma steady_id: "steady (\<lambda>c. c)"
  by (simp add: steady_def)

lemma keeps_id: "keeps_outer (\<lambda>c. c)"
  by (auto simp: keeps_outer_def steady_id)

lemma stale_in_shape: "shape c = shape c' \<Longrightarrow> stale_in c = stale_in c'"
  by (simp add: shape_def stale_in_def)

lemma keeps_comp:
  assumes f: "keeps_outer f" and g: "keeps_outer g"
  shows "keeps_outer (\<lambda>c. g (f c))"
  unfolding keeps_outer_def
proof (intro conjI allI impI)
  show "steady (\<lambda>c. g (f c))" using f g by (simp add: keeps_outer_def steady_comp)
  fix c assume ne: "scopes c \<noteq> []" and cl: "clean (g (f c))"
  have clf: "clean (f c)" using g cl by (simp add: keeps_outer_def steady_def)
  have sh: "shape (f c) = shape c" using f by (simp add: keeps_outer_def steady_def)
  then have ne': "scopes (f c) \<noteq> []" using ne by (auto simp: shape_def)
  show "fits_in (g (f c))" if "fits_in c" using f g that ne ne' clf cl by (simp add: keeps_outer_def)
  fix us vs assume c: "scopes c = us @ vs" "us \<noteq> []" "stale_in c vs"
  obtain t1 b1 where 1: "scopes (f c) = t1 @ b1" "length t1 = length us" "strip b1 = strip vs"
    using f ne clf c unfolding keeps_outer_def by blast
  have "stale_in (f c) b1" using c(3) stale_in_shape [OF sh] stale_strip [OF 1(3)] by (simp add: stale_in_def)
  moreover have "t1 \<noteq> []" using 1(2) c(2) by auto
  ultimately obtain t2 b2 where 2: "scopes (g (f c)) = t2 @ b2" "length t2 = length t1" "strip b2 = strip b1"
    using g ne' cl 1(1) unfolding keeps_outer_def by blast
  then show "\<exists>us' vs'. scopes (g (f c)) = us' @ vs' \<and> length us' = length us \<and> strip vs' = strip vs"
    using 1 by auto
qed

lemma scopes_simps [simp]:
  "scopes (on_tracker lt_push c) = [] # scopes c" "scopes (on_tracker lt_pop c) = tl (scopes c)"
  "scopes (on_tracker enter_conditional c) = scopes c" "scopes (on_tracker exit_conditional c) = scopes c"
  "scopes (on_tracker enter_loop c) = scopes c" "scopes (on_tracker exit_loop c) = scopes c"
  by (simp_all add: on_tracker_def lt_push_def lt_pop_def enter_conditional_def exit_conditional_def enter_loop_def
      exit_loop_def split: list.split)

lemma depth_simps [simp]:
  "lt_cond (ck_tracker (on_tracker lt_push c)) = lt_cond (ck_tracker c)" "lt_loop (ck_tracker (on_tracker lt_push c)) = lt_loop (ck_tracker c)"
  "lt_cond (ck_tracker (on_tracker lt_pop c)) = lt_cond (ck_tracker c)" "lt_loop (ck_tracker (on_tracker lt_pop c)) = lt_loop (ck_tracker c)"
  "lt_cond (ck_tracker (on_tracker enter_conditional c)) = Suc (lt_cond (ck_tracker c))"
  "lt_loop (ck_tracker (on_tracker enter_conditional c)) = lt_loop (ck_tracker c)"
  "lt_cond (ck_tracker (on_tracker exit_conditional c)) = lt_cond (ck_tracker c) - 1"
  "lt_loop (ck_tracker (on_tracker exit_conditional c)) = lt_loop (ck_tracker c)"
  "lt_cond (ck_tracker (on_tracker enter_loop c)) = lt_cond (ck_tracker c)"
  "lt_loop (ck_tracker (on_tracker enter_loop c)) = Suc (lt_loop (ck_tracker c))"
  "lt_cond (ck_tracker (on_tracker exit_loop c)) = lt_cond (ck_tracker c)"
  "lt_loop (ck_tracker (on_tracker exit_loop c)) = lt_loop (ck_tracker c) - 1"
  by (simp_all add: on_tracker_def lt_push_def lt_pop_def enter_conditional_def exit_conditional_def enter_loop_def
      exit_loop_def split: list.split)

lemma clean_simps [simp]:
  "clean (on_tracker lt_push c) = clean c" "clean (on_tracker enter_conditional c) = clean c"
  "clean (on_tracker exit_conditional c) = clean c" "clean (on_tracker enter_loop c) = clean c" "clean (on_tracker exit_loop c) = clean c"
  by (simp_all add: clean_def on_tracker_def lt_push_def enter_conditional_def exit_conditional_def enter_loop_def exit_loop_def)

lemma clean_pop:
  "clean (on_tracker lt_pop c) \<longleftrightarrow> clean c \<and> (scopes c \<noteq> [] \<longrightarrow> (\<forall>(name, ob)\<in>set (hd (scopes c)). ob_consumed ob))"
  by (auto simp: clean_def on_tracker_def lt_pop_def never_consumed_def filter_empty_conv split: list.split)

lemma steady_shape: "steady f \<Longrightarrow> length (scopes (f c)) = length (scopes c)" "steady f \<Longrightarrow> lt_cond (ck_tracker (f c)) = lt_cond (ck_tracker c)"
  "steady f \<Longrightarrow> lt_loop (ck_tracker (f c)) = lt_loop (ck_tracker c)" "steady f \<Longrightarrow> clean (f c) \<Longrightarrow> clean c"
  by (simp_all add: steady_def shape_def)

lemma keeps_steady: "keeps_outer f \<Longrightarrow> steady f"
  by (simp add: keeps_outer_def)

lemma keeps_frame:
  assumes "keeps_outer f" "clean (f c)" "scopes c = us @ vs" "us \<noteq> []" "stale_in c vs"
  obtains us' vs' where "scopes (f c) = us' @ vs'" "length us' = length us" "strip vs' = strip vs"
proof -
  have "scopes c \<noteq> []" using assms(3,4) by simp
  then have "\<exists>us' vs'. scopes (f c) = us' @ vs' \<and> length us' = length us \<and> strip vs' = strip vs"
    using assms unfolding keeps_outer_def by blast
  then show ?thesis using that by blast
qed

lemma keeps_fits: "keeps_outer f \<Longrightarrow> scopes c \<noteq> [] \<Longrightarrow> clean (f c) \<Longrightarrow> fits_in c \<Longrightarrow> fits_in (f c)"
  unfolding keeps_outer_def by blast

lemma fits_subset: "fits cd lp (sc # scs) \<Longrightarrow> fits cd lp scs" "fits cd lp ([] # scs) = fits cd lp scs"
  by (simp_all add: fits_def)

lemma block_frame:
  assumes f: "keeps_outer f" and cl: "clean (on_tracker lt_pop (f (on_tracker lt_push c)))"
    and st: "scopes c = us @ vs" "stale_in c vs"
  shows "\<exists>us' vs'. tl (scopes (f (on_tracker lt_push c))) = us' @ vs' \<and> length us' = length us \<and> strip vs' = strip vs"
proof -
  have "clean (f (on_tracker lt_push c))" using cl by (simp add: clean_pop)
  moreover have "scopes (on_tracker lt_push c) = ([] # us) @ vs" "stale_in (on_tracker lt_push c) vs" using st by (simp_all add: stale_in_def)
  ultimately obtain t b where "scopes (f (on_tracker lt_push c)) = t @ b" "length t = length ([] # us)" "strip b = strip vs"
    using keeps_frame [OF f] by (metis list.distinct(1))
  then show ?thesis by (cases t) auto
qed

lemma keeps_around:
  assumes f: "keeps_outer f"
  shows "closed_step (\<lambda>c. on_tracker lt_pop (f (on_tracker lt_push c)))" (is "closed_step ?g")
proof -
  note sh = steady_shape [OF keeps_steady [OF f]]
  have st: "steady ?g" unfolding steady_def
  proof (intro allI conjI impI)
    fix c show "shape (?g c) = shape c" by (simp add: shape_def sh)
    assume "clean (?g c)" then show "clean c" using sh(4) [of "on_tracker lt_push c"] by (simp add: clean_pop)
  qed
  have fit: "fits_in (?g c)" if "clean (?g c)" "fits_in c" for c
  proof -
    have "fits_in (f (on_tracker lt_push c))"
      using that keeps_fits [OF f, of "on_tracker lt_push c"] by (simp add: clean_pop fits_in_def fits_subset)
    then show ?thesis by (cases "scopes (f (on_tracker lt_push c))") (simp_all add: fits_in_def fits_subset)
  qed
  have "keeps_outer ?g" unfolding keeps_outer_def
  proof (intro conjI allI impI st)
    fix c assume cl: "clean (?g c)"
    show "fits_in (?g c)" if "fits_in c" by (rule fit [OF cl that])
    show "\<exists>us' vs'. scopes (?g c) = us' @ vs' \<and> length us' = length us \<and> strip vs' = strip vs"
      if "scopes c = us @ vs" "stale_in c vs" for us vs using block_frame [OF f cl that] by simp
  qed
  moreover have "strip (scopes (?g c)) = strip (scopes c)" if "clean (?g c)" "stale_in c (scopes c)" for c
    using block_frame [OF f that(1), of "[]" "scopes c"] that(2) by simp
  ultimately show ?thesis unfolding closed_step_def by blast
qed

lemma closed_keeps: "closed_step f \<Longrightarrow> keeps_outer f"
  by (simp add: closed_step_def)

lemma closed_strip: "closed_step f \<Longrightarrow> clean (f c) \<Longrightarrow> stale_in c (scopes c) \<Longrightarrow> strip (scopes (f c)) = strip (scopes c)"
  by (simp add: closed_step_def)

lemma closed_comp:
  assumes "closed_step f" "closed_step g"
  shows "closed_step (\<lambda>c. g (f c))"
proof -
  have "strip (scopes (g (f c))) = strip (scopes c)" if cl: "clean (g (f c))" and st: "stale_in c (scopes c)" for c
  proof -
    have "clean (f c)" using assms(2) cl by (simp add: closed_step_def keeps_outer_def steady_def)
    then have 1: "strip (scopes (f c)) = strip (scopes c)" using closed_strip [OF assms(1)] st by blast
    have "stale_in (f c) = stale_in c" using keeps_steady [OF closed_keeps [OF assms(1)]] by (intro stale_in_shape) (simp add: steady_def)
    then have "stale_in (f c) (scopes (f c))" using st stale_strip [OF 1] by (simp add: stale_in_def)
    then show ?thesis using closed_strip [OF assms(2) cl] 1 by simp
  qed
  then show ?thesis using keeps_comp assms unfolding closed_step_def by blast
qed

text \<open>Inside a branch or loop everything made before is out of reach.\<close>

lemma closed_inside:
  assumes f: "closed_step f"
    and inside: "\<And>c. scopes (i c) = scopes c" "\<And>c. scopes (j c) = scopes c" "\<And>c. clean (i c) = clean c" "\<And>c. clean (j c) = clean c"
    and depth: "\<And>c. shape (j (f (i c))) = shape c" "\<And>c scs. stale_in c scs \<Longrightarrow> stale_in (i c) scs"
      "\<And>c scs. fits_in c \<Longrightarrow> stale_in (i c) (scopes c)"
  shows "closed_step (\<lambda>c. j (f (i c)))" (is "closed_step ?g")
    and "clean (j (f (i c))) \<Longrightarrow> fits_in c \<Longrightarrow> strip (scopes (j (f (i c)))) = strip (scopes c)"
proof -
  have strip: "strip (scopes (?g c)) = strip (scopes c)" if "clean (?g c)" "stale_in (i c) (scopes c)" for c
    using closed_strip [OF f, of "i c"] that by (simp add: inside)
  show "clean (j (f (i c))) \<Longrightarrow> fits_in c \<Longrightarrow> strip (scopes (j (f (i c)))) = strip (scopes c)" for c
    by (rule strip) (simp_all add: depth)
  have st: "steady ?g" unfolding steady_def
    using steady_shape(4) [OF keeps_steady [OF closed_keeps [OF f]], of "i _"] by (auto simp: inside depth)
  have "keeps_outer ?g" unfolding keeps_outer_def
  proof (intro conjI allI impI st)
    fix c assume ne: "scopes c \<noteq> []" and cl: "clean (?g c)"
    show "fits_in (?g c)" if fit: "fits_in c"
    proof -
      have "lt_cond (ck_tracker (?g c)) = lt_cond (ck_tracker c)" "lt_loop (ck_tracker (?g c)) = lt_loop (ck_tracker c)"
        using steady_shape [OF st] by simp_all
      then show ?thesis using fit fits_strip [OF strip [OF cl depth(3) [OF fit]]] by (simp add: fits_in_def)
    qed
    fix us vs assume c: "scopes c = us @ vs" "us \<noteq> []" "stale_in c vs"
    show "\<exists>us' vs'. scopes (?g c) = us' @ vs' \<and> length us' = length us \<and> strip vs' = strip vs"
      using keeps_frame [OF closed_keeps [OF f], of "i c" us vs] cl c depth(2) [OF c(3)] by (metis inside)
  qed
  then show "closed_step ?g" using strip depth(2) unfolding closed_step_def by blast
qed

section \<open>Every step of the checker keeps to its nesting\<close>

lemma update_entries: "(y, v) \<in> set (AList.update x w sc) \<Longrightarrow> (y, v) = (x, w) \<or> (y, v) \<in> set sc"
  by (induction sc) (auto split: if_splits)

lemma set_obligation_entries:
  "sc \<in> set (set_obligation x w scs) \<Longrightarrow> (y, v) \<in> set sc \<Longrightarrow> (y, v) = (x, w) \<or> (\<exists>sc'\<in>set scs. (y, v) \<in> set sc')"
  by (induction scs) (auto split: if_splits dest!: update_entries)

lemma length_set_obligation [simp]: "length (set_obligation x w scs) = length scs"
  by (induction scs) simp_all

lemma find_scope_append:
  "find_scope (xs @ ys) x = (case find_scope xs x of Some v \<Rightarrow> Some v | None \<Rightarrow> find_scope ys x)"
  by (induction xs) (auto split: option.split)

lemma set_obligation_found:
  "find_scope (map map_of us) x \<noteq> None \<Longrightarrow> set_obligation x w (us @ vs) = set_obligation x w us @ vs"
  by (induction us) (auto split: option.splits)

lemma find_scope_entry: "find_scope (map map_of scs) x = Some v \<Longrightarrow> \<exists>sc\<in>set scs. (x, v) \<in> set sc"
  by (induction scs) (auto split: option.splits dest: map_of_SomeD)

lemma keeps_register: "keeps_outer (on_tracker (register_obligation x sp d))" (is "keeps_outer ?f")
  unfolding keeps_outer_def
proof (intro conjI allI impI)
  show "steady ?f"
    by (auto simp: steady_def clean_def shape_def on_tracker_def register_obligation_def lt_error_def Let_def split: list.splits option.splits if_splits)
  fix c assume ne: "scopes c \<noteq> []"
  show "fits_in (?f c)" if "fits_in c"
    using that by (auto simp: fits_in_def fits_def on_tracker_def register_obligation_def lt_error_def Let_def
        split: list.splits option.splits if_splits dest!: update_entries)
  obtain v where v: "scopes (?f c) = AList.update x v (hd (scopes c)) # tl (scopes c)"
    using ne by (cases "scopes c") (auto simp: on_tracker_def register_obligation_def lt_error_def Let_def split: option.splits)
  show "\<exists>us' vs'. scopes (?f c) = us' @ vs' \<and> length us' = length us \<and> strip vs' = strip vs" if "scopes c = us @ vs" "us \<noteq> []" for us vs
    using that by (intro exI [of _ "AList.update x v (hd us) # tl us"] exI [of _ vs]) (simp add: v)
qed

lemma keeps_barrier: "keeps_outer (on_tracker synchronize_barrier)" (is "keeps_outer ?f")
  unfolding keeps_outer_def
proof (intro conjI allI impI)
  show "steady ?f" by (simp add: steady_def clean_def shape_def on_tracker_def synchronize_barrier_def)
  have strip: "strip (map (map (\<lambda>(n, ob). (n, sync_one ob))) scs) = strip scs" for scs
    by (simp add: strip_def sync_one_def split_beta)
  fix c
  have s: "strip (scopes (?f c)) = strip (scopes c)" by (simp add: on_tracker_def synchronize_barrier_def strip)
  show "fits_in (?f c)" if "fits_in c" using that fits_strip [OF s] by (simp add: fits_in_def on_tracker_def synchronize_barrier_def)
  show "\<exists>us' vs'. scopes (?f c) = us' @ vs' \<and> length us' = length us \<and> strip vs' = strip vs" if "scopes c = us @ vs" for us vs
    by (intro exI [of _ "map (map (\<lambda>(n, ob). (n, sync_one ob))) us"] exI [of _ "map (map (\<lambda>(n, ob). (n, sync_one ob))) vs"])
      (simp add: that on_tracker_def synchronize_barrier_def strip)
qed

lemma read_scopes: "lt_scopes (snd (require_destination_ready d sp t)) = lt_scopes t"
  by (simp add: require_destination_ready_def lt_error_def Let_def)

lemma keeps_read: "keeps_outer (on_tracker (\<lambda>t. snd (require_destination_ready d sp t)))"
  unfolding keeps_outer_def
  by (auto simp: steady_def clean_def shape_def fits_in_def on_tracker_def require_destination_ready_def lt_error_def Let_def split: if_splits)

text \<open>A wait that is accepted is for an obligation made in the same branch and loop.\<close>

lemma wait_accepted:
  assumes "clean (check_wait x sp c)"
  obtains ob where "find_scope (map map_of (scopes c)) x = Some ob" "\<not> ob_consumed ob" "ob_cond ob \<ge> lt_cond (ck_tracker c)"
    "ob_loop ob \<ge> lt_loop (ck_tracker c)" "scopes (check_wait x sp c) = set_obligation x (ob\<lparr>ob_consumed := True, ob_synced := False\<rparr>) (scopes c)"
proof -
  have t: "is_tracked_obligation x (ck_tracker c)" using assms(1) by (auto simp: check_wait_def clean_def split: if_splits)
  have "list_ex (\<lambda>sc. map_of sc x \<noteq> None) scs \<Longrightarrow> find_scope (map map_of scs) x \<noteq> None" for scs :: "obligations list"
    by (induction scs) (auto split: option.split)
  then obtain ob where "find_scope (map map_of (scopes c)) x = Some ob" using t by (auto simp: is_tracked_obligation_def)
  then show ?thesis using that assms(1) t
    by (auto simp: check_wait_def clean_def on_tracker_def consume_obligation_def lt_error_def Let_def split: if_splits)
qed

lemma keeps_wait: "keeps_outer (check_wait x sp)" (is "keeps_outer ?f")
  unfolding keeps_outer_def
proof (intro conjI allI impI)
  show "steady ?f"
    by (auto simp: steady_def clean_def shape_def on_tracker_def check_wait_def consume_obligation_def lt_error_def Let_def split: option.splits if_splits)
  then have dp: "lt_cond (ck_tracker (?f c)) = lt_cond (ck_tracker c)" "lt_loop (ck_tracker (?f c)) = lt_loop (ck_tracker c)" for c
    by (simp_all add: steady_shape)
  fix c assume cl: "clean (?f c)"
  show "fits_in (?f c)" if "fits_in c"
  proof (rule wait_accepted [OF cl])
    fix ob assume o: "find_scope (map map_of (scopes c)) x = Some ob"
      "scopes (?f c) = set_obligation x (ob\<lparr>ob_consumed := True, ob_synced := False\<rparr>) (scopes c)"
    let ?P = "\<lambda>ob. ob_cond ob \<le> lt_cond (ck_tracker c) \<and> ob_loop ob \<le> lt_loop (ck_tracker c)"
    have all: "?P w" if "sc \<in> set (scopes c)" "(y, w) \<in> set sc" for sc y w using \<open>fits_in c\<close> that by (auto simp: fits_in_def fits_def)
    then have "?P ob" using find_scope_entry [OF o(1)] by blast
    then have "?P w" if "sc \<in> set (scopes (?f c))" "(y, w) \<in> set sc" for sc y w
      using set_obligation_entries [OF that [unfolded o(2)]] all by auto
    then show ?thesis by (auto simp: fits_in_def fits_def dp)
  qed
  fix us vs assume c: "scopes c = us @ vs" "stale_in c vs"
  show "\<exists>us' vs'. scopes (?f c) = us' @ vs' \<and> length us' = length us \<and> strip vs' = strip vs"
  proof (rule wait_accepted [OF cl])
    fix ob assume o: "find_scope (map map_of (scopes c)) x = Some ob" "ob_cond ob \<ge> lt_cond (ck_tracker c)"
      "ob_loop ob \<ge> lt_loop (ck_tracker c)" "scopes (?f c) = set_obligation x (ob\<lparr>ob_consumed := True, ob_synced := False\<rparr>) (scopes c)"
    have "find_scope (map map_of us) x \<noteq> None"
    proof
      assume "find_scope (map map_of us) x = None"
      then have "find_scope (map map_of vs) x = Some ob" using o(1) by (simp add: c(1) find_scope_append)
      then show False using find_scope_entry c(2) o(2,3) by (fastforce simp: stale_in_def stale_def)
    qed
    then show ?thesis using o(4) set_obligation_found by (fastforce simp: c(1))
  qed
qed

lemma block_closed: "keeps_outer (check_acts b) \<Longrightarrow> closed_step (check_block b)"
  using keeps_around [of "check_acts b"] by (simp add: check_block.simps [abs_def])

lemma branch_closed:
  assumes "closed_step (check_arms arms)"
  shows "closed_step (check_act (Branch arms))"
    and "clean (check_act (Branch arms) c) \<Longrightarrow> fits_in c \<Longrightarrow> strip (scopes (check_act (Branch arms) c)) = strip (scopes c)"
proof -
  have d: "shape (on_tracker exit_conditional (check_arms arms (on_tracker enter_conditional c))) = shape c" for c
    using keeps_steady [OF closed_keeps [OF assms]] by (simp add: shape_def steady_shape)
  note r = closed_inside [OF assms, of "on_tracker enter_conditional" "on_tracker exit_conditional", OF _ _ _ _ d]
  show "closed_step (check_act (Branch arms))" unfolding check_act.simps
    by (rule r) (auto simp: stale_in_def fits_in_def fits_stale elim: stale_mono)
  show "clean (check_act (Branch arms) c) \<Longrightarrow> fits_in c \<Longrightarrow> strip (scopes (check_act (Branch arms) c)) = strip (scopes c)"
    unfolding check_act.simps by (rule r) (auto simp: stale_in_def fits_in_def fits_stale elim: stale_mono)
qed

lemma for_loop: "check_act (ForLoop b) c = on_tracker exit_loop (check_block b (on_tracker enter_loop c))"
proof -
  have "lt_pop (exit_loop t) = exit_loop (lt_pop t)" "lt_push (enter_loop t) = enter_loop (lt_push t)" for t
    by (cases t; simp add: lt_pop_def exit_loop_def lt_push_def enter_loop_def split: list.split)+
  then show ?thesis by (simp add: on_tracker_def)
qed

lemma loop_closed:
  assumes "closed_step (check_block b)"
  shows "closed_step (check_act (ForLoop b))" "closed_step (check_act (WhileLoop b))"
    and "loop_body a = Some b \<Longrightarrow> clean (check_act a c) \<Longrightarrow> fits_in c \<Longrightarrow> strip (scopes (check_act a c)) = strip (scopes c)"
proof -
  note st = steady_shape [OF keeps_steady [OF closed_keeps [OF assms]]]
  let ?f = "\<lambda>c. on_tracker exit_loop (check_block b (on_tracker enter_loop c))"
  have f: "shape (?f c) = shape c" for c using st by (simp add: shape_def del: check_block.simps)
  note rf = closed_inside [OF assms, of "on_tracker enter_loop" "on_tracker exit_loop", OF _ _ _ _ f]
  let ?i = "\<lambda>c. on_tracker enter_conditional (on_tracker enter_loop c)" and ?j = "\<lambda>c. on_tracker exit_loop (on_tracker exit_conditional c)"
  have w: "shape (?j (check_block b (?i c))) = shape c" for c using st by (simp add: shape_def del: check_block.simps)
  note rw = closed_inside [OF assms, of ?i ?j, OF _ _ _ _ w]
  have fe: "check_act (ForLoop b) = ?f" by (rule ext) (rule for_loop)
  have we: "check_act (WhileLoop b) = (\<lambda>c. ?j (check_block b (?i c)))" by (rule ext) simp
  show "closed_step (check_act (ForLoop b))" unfolding fe
    by (rule rf) (auto simp: stale_in_def fits_in_def fits_stale elim: stale_mono)
  show "closed_step (check_act (WhileLoop b))" unfolding we
    by (rule rw) (auto simp: stale_in_def fits_in_def intro: stale_mono [OF fits_stale(1)] elim: stale_mono)
  assume c: "loop_body a = Some b" "clean (check_act a c)" "fits_in c"
  then consider "a = ForLoop b" | "a = WhileLoop b" by (cases a) auto
  then show "strip (scopes (check_act a c)) = strip (scopes c)"
  proof cases
    case 1 show ?thesis using c unfolding 1 fe
      by (intro rf) (auto simp: stale_in_def fits_in_def fits_stale elim: stale_mono)
  next
    case 2 show ?thesis using c unfolding 2 we
      by (intro rw) (auto simp: stale_in_def fits_in_def intro: stale_mono [OF fits_stale(1)] elim: stale_mono)
  qed
qed

lemma acts_keep: "(\<And>a. a \<in> set as \<Longrightarrow> keeps_outer (check_act a)) \<Longrightarrow> keeps_outer (check_acts as)"
proof (induction as)
  case Nil
  show ?case using keeps_id by (simp add: check_acts.simps [abs_def])
next
  case (Cons a as)
  then show ?case using keeps_comp [of "check_act a" "check_acts as"] by (simp add: check_acts.simps(2) [abs_def])
qed

lemma closed_id: "closed_step (\<lambda>c. c)"
  by (simp add: closed_step_def keeps_id)

lemma arms_keep: "(\<And>b. b \<in> set arms \<Longrightarrow> closed_step (check_block b)) \<Longrightarrow> closed_step (check_arms arms)"
proof (induction arms)
  case Nil
  show ?case using closed_id by (simp add: check_arms.simps [abs_def])
next
  case (Cons b bs)
  then show ?case using closed_comp [of "check_block b" "check_arms bs"] by (simp add: check_arms.simps(2) [abs_def] del: check_block.simps)
qed

lemma act_keeps: "keeps_outer (check_act a)"
proof (induction a)
  case (Nested b)
  then have "closed_step (check_block b)" by (intro block_closed acts_keep)
  then show ?case using closed_keeps by (simp add: check_act.simps(5) [abs_def] del: check_block.simps)
next
  case (Branch arms)
  then have "closed_step (check_arms arms)" by (intro arms_keep block_closed acts_keep)
  then show ?case by (intro closed_keeps branch_closed)
next
  case (ForLoop b)
  then show ?case by (intro closed_keeps [OF loop_closed(1)] block_closed acts_keep)
next
  case (WhileLoop b)
  then show ?case by (intro closed_keeps [OF loop_closed(2)] block_closed acts_keep)
qed (simp_all add: check_act.simps [abs_def] keeps_register keeps_wait keeps_barrier keeps_read keeps_id)

lemma checker_keeps: "keeps_outer (check_acts as)" "closed_step (check_block as)" "closed_step (check_arms arms)"
  by (intro act_keeps acts_keep block_closed arms_keep)+

lemma clean_back: "clean (check_acts as c) \<Longrightarrow> clean c" "clean (check_act a c) \<Longrightarrow> clean c"
  "clean (check_block b c) \<Longrightarrow> clean c" "clean (check_arms bs c) \<Longrightarrow> clean c"
  using keeps_steady [OF checker_keeps(1)] keeps_steady [OF act_keeps] keeps_steady [OF closed_keeps [OF checker_keeps(2)]]
    keeps_steady [OF closed_keeps [OF checker_keeps(3)]] by (blast intro: steady_shape(4))+

end
