(* ===== verification/YTrackerSim.thy ===== *)
theory YTrackerSim
  imports YTrackerRun
begin

text \<open>
  The simulation between the tracker's scopes and the transfers of an execution.
\<close>

section \<open>Scopes as one map\<close>

text \<open>What a stack of scopes binds, by level from the outside and name, so that entering and leaving a
  scope does not renumber the others.\<close>

definition look :: "(string \<rightharpoonup> 'a) list \<Rightarrow> nat \<times> string \<Rightarrow> 'a option" where
  "look scs p = (if fst p < length scs then (rev scs ! fst p) (snd p) else None)"

fun find_level :: "(string \<rightharpoonup> 'a) list \<Rightarrow> string \<Rightarrow> nat option" where
  "find_level [] x = None"
| "find_level (sc # scs) x = (if sc x = None then find_level scs x else Some (length scs))"

lemma look_nil [simp]: "look [] p = None"
  by (simp add: look_def)

lemma look_cons: "look (sc # scs) p = (if fst p = length scs then sc (snd p) else look scs p)"
  by (auto simp: look_def nth_append)

lemma look_level: "look scs p = Some v \<Longrightarrow> fst p < length scs"
  by (simp add: look_def split: if_splits)

lemma look_enter [simp]: "look (Map.empty # scs) = look scs"
proof (rule ext)
  fix p have "fst p = length scs \<Longrightarrow> look scs p = None" by (simp add: look_def)
  then show "look (Map.empty # scs) p = look scs p" by (simp add: look_cons)
qed

lemma look_bind: "look (sc(x \<mapsto> v) # scs) = (look (sc # scs))((length scs, x) \<mapsto> v)"
  by (auto simp: look_cons fun_eq_iff)

lemma find_level_less: "find_level scs x = Some i \<Longrightarrow> i < length scs"
  by (induction scs) (auto split: if_splits)

lemma find_scope_level: "find_scope scs x = Some v \<longleftrightarrow> (\<exists>i. find_level scs x = Some i \<and> look scs (i, x) = Some v)"
proof (induction scs)
  case (Cons sc scs)
  have "find_level scs x = Some i \<Longrightarrow> look (sc # scs) (i, x) = look scs (i, x)" for i
    using find_level_less [of scs x i] by (simp add: look_cons)
  moreover have "look (sc # scs) (length scs, x) = sc x" by (simp add: look_cons)
  ultimately show ?case using Cons.IH by (cases "sc x") auto
qed simp

lemma find_level_found: "find_level scs x = Some i \<Longrightarrow> find_scope scs x \<noteq> None"
  by (induction scs) (auto split: option.splits if_splits)

lemma find_level_dom: "map dom scs = map dom scs' \<Longrightarrow> find_level scs x = find_level scs' x"
proof (induction scs arbitrary: scs')
  case (Cons sc scs)
  then obtain sc' rest where "scs' = sc' # rest" "dom sc = dom sc'" "map dom scs = map dom rest" by (cases scs') auto
  moreover from this have "sc x = None \<longleftrightarrow> sc' x = None" "length scs = length rest" by (auto dest: map_eq_imp_length_eq)
  ultimately show ?case using Cons.IH [of rest] by simp
qed simp

abbreviation maps :: "obligations list \<Rightarrow> (string \<rightharpoonup> obligation) list" where
  "maps scs \<equiv> map map_of scs"

lemma look_set:
  "find_level (maps scs) x = Some i \<Longrightarrow> look (maps (set_obligation x w scs)) = (look (maps scs))((i, x) \<mapsto> w)"
proof (induction scs)
  case (Cons sc scs)
  then show ?case
    by (cases "map_of sc x = None") (auto simp: fun_eq_iff look_cons update_conv' dest: find_level_less)
qed simp

lemma dom_set: "find_level (maps scs) x \<noteq> None \<Longrightarrow> map dom (maps (set_obligation x w scs)) = map dom (maps scs)"
  by (induction scs) (auto simp: update_conv' domIff)

text \<open>The marks of barriers play no part in it.\<close>

definition unmark :: "obligation \<Rightarrow> obligation" where
  "unmark ob = ob\<lparr>ob_synced := False\<rparr>"

lemma unmark_simps [simp]:
  "ob_consumed (unmark ob) = ob_consumed ob" "ob_destination (unmark ob) = ob_destination ob"
  "unmark (ob\<lparr>ob_consumed := True, ob_synced := b\<rparr>) = (unmark ob)\<lparr>ob_consumed := True\<rparr>"
  by (cases ob; simp add: unmark_def)+

lemma strip_unmark: "strip scs = map (map (\<lambda>(name, ob). (name, unmark ob))) scs"
  by (simp add: strip_def unmark_def)

lemma map_of_unmark: "map_of (map (\<lambda>(name, ob). (name, unmark ob)) sc) x = map_option unmark (map_of sc x)"
  by (simp add: map_of_map)

lemma strip_update: "map (\<lambda>(name, ob). (name, unmark ob)) (AList.update x w sc) = AList.update x (unmark w) (map (\<lambda>(name, ob). (name, unmark ob)) sc)"
  by (induction sc) auto

lemma strip_set: "strip (set_obligation x w scs) = set_obligation x (unmark w) (strip scs)"
  by (induction scs) (auto simp: strip_unmark strip_update map_of_unmark)

lemma find_strip: "find_scope (maps (strip scs)) x = map_option unmark (find_scope (maps scs) x)"
  by (induction scs) (auto simp: strip_unmark map_of_unmark split: option.split)

section \<open>The simulation\<close>

definition complete :: "nat \<Rightarrow> event list \<Rightarrow> bool" where
  "complete k tr \<longleftrightarrow> (\<exists>dest. history k tr = [Started k dest, Awaited k])"

definition recorded :: "nat \<Rightarrow> event list \<Rightarrow> obligation \<Rightarrow> bool" where
  "recorded k tr ob \<longleftrightarrow> history k tr = Started k (ob_destination ob) # (if ob_consumed ob then [Awaited k] else [])"

definition sim :: "obligations list \<Rightarrow> run_state \<Rightarrow> bool" where
  "sim scs s \<longleftrightarrow>
     map dom (maps scs) = map dom (rt_env s) \<and>
     inj_on (look (rt_env s)) (dom (look (rt_env s))) \<and>
     (\<forall>p k. look (rt_env s) p = Some k \<longrightarrow>
        k < rt_next s \<and> (\<exists>ob. look (maps scs) p = Some ob \<and> recorded k (rt_trace s) ob)) \<and>
     (\<forall>k<rt_next s. k \<notin> ran (look (rt_env s)) \<longrightarrow> complete k (rt_trace s)) \<and>
     (\<forall>k\<ge>rt_next s. history k (rt_trace s) = []) \<and>
     reads_after_waits (rt_trace s)"

lemma sim_bound: "sim scs s \<Longrightarrow> look (rt_env s) p = Some k \<Longrightarrow> k < rt_next s \<and> (\<exists>ob. look (maps scs) p = Some ob \<and> recorded k (rt_trace s) ob)"
  unfolding sim_def by blast

lemma sim_inj: "sim scs s \<Longrightarrow> look (rt_env s) p = Some k \<Longrightarrow> look (rt_env s) q = Some k \<Longrightarrow> p = q"
  unfolding sim_def inj_on_def by (metis domI)

lemma sim_lost: "sim scs s \<Longrightarrow> k < rt_next s \<Longrightarrow> (\<And>p. look (rt_env s) p \<noteq> Some k) \<Longrightarrow> complete k (rt_trace s)"
  by (auto simp: sim_def ran_def)

lemma sim_future: "sim scs s \<Longrightarrow> rt_next s \<le> k \<Longrightarrow> history k (rt_trace s) = []"
  by (simp add: sim_def)

lemma sim_dom: "sim scs s \<Longrightarrow> map dom (maps scs) = map dom (rt_env s)"
  by (simp add: sim_def)

lemma simI:
  assumes "map dom (maps scs) = map dom (rt_env s)"
    "\<And>p q k. look (rt_env s) p = Some k \<Longrightarrow> look (rt_env s) q = Some k \<Longrightarrow> p = q"
    "\<And>p k. look (rt_env s) p = Some k \<Longrightarrow> k < rt_next s \<and> (\<exists>ob. look (maps scs) p = Some ob \<and> recorded k (rt_trace s) ob)"
    "\<And>k. k < rt_next s \<Longrightarrow> (\<And>p. look (rt_env s) p \<noteq> Some k) \<Longrightarrow> complete k (rt_trace s)"
    "\<And>k. rt_next s \<le> k \<Longrightarrow> history k (rt_trace s) = []" "reads_after_waits (rt_trace s)"
  shows "sim scs s"
proof -
  have "inj_on (look (rt_env s)) (dom (look (rt_env s)))" using assms(2) by (auto simp: inj_on_def dom_def)
  moreover have "\<forall>k<rt_next s. k \<notin> ran (look (rt_env s)) \<longrightarrow> complete k (rt_trace s)" using assms(4) by (metis ranI)
  ultimately show ?thesis using assms(1,3,5,6) unfolding sim_def by blast
qed

lemma reads_append:
  "(\<And>dest. Loaded dest \<notin> set es) \<Longrightarrow> reads_after_waits tr \<Longrightarrow> reads_after_waits (tr @ es)"
proof -
  assume e: "\<And>dest. Loaded dest \<notin> set es" and tr: "reads_after_waits tr"
  have "\<exists>after'. tr = before @ Loaded dest # after'" if "tr @ es = before @ Loaded dest # after" for before dest after
    using that e [of dest] by (auto simp: append_eq_append_conv2 append_eq_Cons_conv Cons_eq_append_conv)
  then show ?thesis using tr unfolding reads_after_waits_def by blast
qed

lemma sim_reads: "sim scs s \<Longrightarrow> reads_after_waits (rt_trace s)"
  by (simp add: sim_def)

lemma started_history: "Started k d \<in> set tr \<longleftrightarrow> Started k d \<in> set (history k tr)" "Awaited k \<in> set tr \<longleftrightarrow> Awaited k \<in> set (history k tr)"
  by (simp_all add: history_def)

lemma sim_enter: "sim scs s \<Longrightarrow> sim ([] # scs) (enter s)"
  by (simp add: sim_def)

lemma sim_quiet:
  assumes "sim scs s" "\<And>k. history k es = []" "reads_after_waits (rt_trace s @ es)"
  shows "sim scs (emit es s)"
  using assms by (simp add: sim_def recorded_def complete_def)

lemma sim_sync: "sim scs s \<Longrightarrow> sim scs (emit [Synced] s)"
  by (rule sim_quiet) (simp_all add: reads_append sim_reads)

lemma sim_leave:
  assumes "sim (sc # scs) s" "\<forall>(name, ob)\<in>set sc. ob_consumed ob" "rt_env s0 = tl (rt_env s)"
  shows "sim scs (leave s0 s)"
proof -
  obtain e es where e: "rt_env s = e # es" using sim_dom [OF assms(1)] by (cases "rt_env s") auto
  have d: "map dom (maps scs) = map dom es" using sim_dom [OF assms(1)] e by simp
  then have len: "length scs = length es" by (metis length_map)
  have below: "look (rt_env s) p = look es p" "look (maps (sc # scs)) p = look (maps scs) p" if "look es p = Some k" for p k
    using look_level [OF that] len by (simp_all add: e look_cons)
  show ?thesis
  proof (rule simI)
    have env: "rt_env s0 = es" by (simp add: assms(3) e)
    show "map dom (maps scs) = map dom (rt_env (leave s0 s))" using d by (simp add: env)
    show "p = q" if "look (rt_env (leave s0 s)) p = Some k" "look (rt_env (leave s0 s)) q = Some k" for p q k
      using sim_inj [OF assms(1), of p k q] that below by (simp add: env)
    show "k < rt_next (leave s0 s) \<and> (\<exists>ob. look (maps scs) p = Some ob \<and> recorded k (rt_trace (leave s0 s)) ob)"
      if "look (rt_env (leave s0 s)) p = Some k" for p k
      using sim_bound [OF assms(1), of p k] below [of p k] that by (simp add: env)
    show "history k (rt_trace (leave s0 s)) = []" if "rt_next (leave s0 s) \<le> k" for k using sim_future [OF assms(1)] that by simp
    show "reads_after_waits (rt_trace (leave s0 s))" using sim_reads [OF assms(1)] by simp
    fix k assume k: "k < rt_next (leave s0 s)" "\<And>p. look (rt_env (leave s0 s)) p \<noteq> Some k"
    have "complete k (rt_trace s)"
    proof (cases "\<exists>p. look (rt_env s) p = Some k")
      case False
      then show ?thesis using sim_lost [OF assms(1), of k] k(1) by (metis run_state_simps(8))
    next
      case True
      then obtain p where p: "look (rt_env s) p = Some k" ..
      then have lv: "fst p = length es" using k(2) [of p] by (auto simp: env e look_cons split: if_splits)
      obtain ob where ob: "look (maps (sc # scs)) p = Some ob" "recorded k (rt_trace s) ob" using sim_bound [OF assms(1) p] by blast
      have "map_of sc (snd p) = Some ob" using ob(1) lv len by (simp add: look_cons)
      then have "ob_consumed ob" using assms(2) by (fastforce dest: map_of_SomeD)
      then show ?thesis using ob(2) by (auto simp: recorded_def complete_def)
    qed
    then show "complete k (rt_trace (leave s0 s))" by simp
  qed
qed

lemma sim_read:
  assumes sim: "sim scs s" and over: "\<And>sc name ob. sc \<in> set scs \<Longrightarrow> (name, ob) \<in> set sc \<Longrightarrow> ob_destination ob = Some dest \<Longrightarrow> ob_consumed ob"
  shows "sim scs (emit [Loaded dest] s)"
proof -
  have waited: "Awaited k \<in> set (rt_trace s)" if "Started k (Some dest) \<in> set (rt_trace s)" for k
  proof -
    have st: "Started k (Some dest) \<in> set (history k (rt_trace s))" using that started_history(1) by blast
    then have "k < rt_next s" using sim_future [OF sim] by (metis empty_iff empty_set not_le)
    then have "Awaited k \<in> set (history k (rt_trace s))"
    proof (cases "\<exists>p. look (rt_env s) p = Some k")
      case False
      then show ?thesis using sim_lost [OF sim \<open>k < rt_next s\<close>] by (auto simp: complete_def)
    next
      case True
      then obtain p ob where ob: "look (maps scs) p = Some ob" "recorded k (rt_trace s) ob" using sim_bound [OF sim] by blast
      have "ob_destination ob = Some dest" using ob(2) st by (auto simp: recorded_def split: if_splits)
      moreover obtain sc where "sc \<in> set scs" "map_of sc (snd p) = Some ob"
        using ob(1) by (auto simp: look_def rev_map split: if_splits) (metis length_rev nth_mem set_rev)
      ultimately have "ob_consumed ob" using over by (blast dest: map_of_SomeD)
      then show ?thesis using ob(2) by (simp add: recorded_def)
    qed
    then show ?thesis using started_history(2) by blast
  qed
  have "reads_after_waits (rt_trace s @ [Loaded dest])"
    using sim_reads [OF sim] waited unfolding reads_after_waits_def
    by (auto simp: append_eq_append_conv2 append_eq_Cons_conv Cons_eq_append_conv)
  then show ?thesis using sim by (intro sim_quiet) simp_all
qed

lemma sim_await:
  assumes sim: "sim scs s" and ob: "find_scope (maps scs) x = Some ob" "\<not> ob_consumed ob"
  shows "sim (set_obligation x (ob\<lparr>ob_consumed := True\<rparr>) scs) (await_transfer x s)"
proof -
  obtain i where i: "find_level (maps scs) x = Some i" "look (maps scs) (i, x) = Some ob" using ob(1) by (auto simp: find_scope_level)
  have "find_level (rt_env s) x = Some i" using i(1) find_level_dom [OF sim_dom [OF sim]] by simp
  moreover obtain k where k: "look (rt_env s) (i, x) = Some k"
  proof -
    have "find_scope (rt_env s) x \<noteq> None" using calculation find_level_found by blast
    then show ?thesis using that calculation by (auto simp: find_scope_level)
  qed
  ultimately have "find_scope (rt_env s) x = Some k" by (simp add: find_scope_level)
  then have await: "await_transfer x s = emit [Awaited k] s" by (simp add: await_transfer_def)
  have rec: "recorded k (rt_trace s) ob" using sim_bound [OF sim k] i(2) by simp
  let ?scs = "set_obligation x (ob\<lparr>ob_consumed := True\<rparr>) scs"
  have look: "look (maps ?scs) = (look (maps scs))((i, x) \<mapsto> ob\<lparr>ob_consumed := True\<rparr>)" by (rule look_set [OF i(1)])
  show ?thesis unfolding await
  proof (rule simI)
    show "map dom (maps ?scs) = map dom (rt_env (emit [Awaited k] s))" using sim_dom [OF sim] dom_set [of scs x] i(1) by simp
    show "p = q" if "look (rt_env (emit [Awaited k] s)) p = Some j" "look (rt_env (emit [Awaited k] s)) q = Some j" for p q j
      using sim_inj [OF sim] that by simp
    show "j < rt_next (emit [Awaited k] s) \<and> (\<exists>ob. look (maps ?scs) p = Some ob \<and> recorded j (rt_trace (emit [Awaited k] s)) ob)"
      if "look (rt_env (emit [Awaited k] s)) p = Some j" for p j
    proof (cases "j = k")
      case True
      then have "p = (i, x)" using sim_inj [OF sim] that k by simp
      then show ?thesis using rec ob(2) sim_bound [OF sim k] by (simp add: look True recorded_def)
    next
      case False
      then have "p \<noteq> (i, x)" using that k by auto
      then show ?thesis using False that sim_bound [OF sim, of p j] by (simp add: look recorded_def)
    qed
    show "complete j (rt_trace (emit [Awaited k] s))" if j: "j < rt_next (emit [Awaited k] s)" "\<And>p. look (rt_env (emit [Awaited k] s)) p \<noteq> Some j" for j
    proof -
      have "j \<noteq> k" using j(2) [of "(i, x)"] k by auto
      moreover have "complete j (rt_trace s)" using sim_lost [OF sim, of j] j by (metis run_state_simps(1,2))
      ultimately show ?thesis by (simp add: complete_def)
    qed
    show "history j (rt_trace (emit [Awaited k] s)) = []" if "rt_next (emit [Awaited k] s) \<le> j" for j
      using that sim_future [OF sim, of j] sim_bound [OF sim k] by auto
    show "reads_after_waits (rt_trace (emit [Awaited k] s))" by (simp add: reads_append sim_reads [OF sim])
  qed
qed

lemma sim_transfer:
  assumes sim: "sim (sc # scs) s" and prev: "\<And>ob. map_of sc x = Some ob \<Longrightarrow> ob_consumed ob"
    and new: "ob_destination w = dest" "\<not> ob_consumed w"
  shows "sim (AList.update x w sc # scs) (start_transfer x dest s)" (is "sim ?scs ?s")
proof -
  let ?n = "rt_next s"
  obtain e es where e: "rt_env s = e # es" using sim_dom [OF sim] by (cases "rt_env s") auto
  have len: "length scs = length es" using sim_dom [OF sim] e by (auto dest: map_eq_imp_length_eq)
  have env: "look (rt_env ?s) = (look (rt_env s))((length es, x) \<mapsto> ?n)" by (simp add: start_transfer_def e look_bind)
  have obs: "look (maps ?scs) = (look (maps (sc # scs)))((length es, x) \<mapsto> w)" using look_bind [of "map_of sc" x w "maps scs"] len by (simp add: update_conv')
  have tr: "rt_trace ?s = rt_trace s @ [Started ?n dest]" "rt_next ?s = Suc ?n" by (simp_all add: start_transfer_def)
  have fresh: "look (rt_env s) p \<noteq> Some ?n" for p using sim_bound [OF sim, of p ?n] by auto
  show ?thesis
  proof (rule simI)
    show "map dom (maps ?scs) = map dom (rt_env ?s)" using sim_dom [OF sim] by (simp add: start_transfer_def e update_conv')
    show "p = q" if "look (rt_env ?s) p = Some k" "look (rt_env ?s) q = Some k" for p q k
      using that fresh sim_inj [OF sim, of p k q] by (auto simp: env split: if_splits)
    show "k < rt_next ?s \<and> (\<exists>ob. look (maps ?scs) p = Some ob \<and> recorded k (rt_trace ?s) ob)" if "look (rt_env ?s) p = Some k" for p k
    proof (cases "p = (length es, x)")
      case True
      have "look (maps ?scs) p = Some w" unfolding obs True by simp
      then show ?thesis using that sim_future [OF sim, of ?n] new by (simp add: env True tr recorded_def)
    next
      case False
      then have "look (maps ?scs) p = look (maps (sc # scs)) p" unfolding obs by simp
      then show ?thesis using False that sim_bound [OF sim, of p k] by (auto simp: env tr recorded_def)
    qed
    show "complete k (rt_trace ?s)" if k: "k < rt_next ?s" "\<And>p. look (rt_env ?s) p \<noteq> Some k" for k
    proof -
      have ne: "k \<noteq> ?n" using k(2) [of "(length es, x)"] by (auto simp: env)
      have "complete k (rt_trace s)"
      proof (cases "look (rt_env s) (length es, x) = Some k")
        case True
        then obtain ob where "look (maps (sc # scs)) (length es, x) = Some ob" "recorded k (rt_trace s) ob" using sim_bound [OF sim] by blast
        then show ?thesis using prev len by (auto simp: look_cons recorded_def complete_def)
      next
        case False
        then have "look (rt_env s) p \<noteq> Some k" for p using k(2) [of p] by (auto simp: env split: if_splits)
        then show ?thesis using sim_lost [OF sim] k(1) ne by (simp add: tr)
      qed
      then show ?thesis using ne by (auto simp: complete_def tr)
    qed
    show "history k (rt_trace ?s) = []" if "rt_next ?s \<le> k" for k using that sim_future [OF sim, of k] by (simp add: tr)
    show "reads_after_waits (rt_trace ?s)" by (simp add: tr reads_append sim_reads [OF sim])
  qed
qed

section \<open>Accepted programs\<close>

text \<open>Each block an execution may enter was checked from scopes like those at the statement's start, and
  left scopes like those at its end.\<close>

lemma check_arms_append: "check_arms (xs @ ys) c = check_arms ys (check_arms xs c)"
  by (induction xs arbitrary: c) simp_all

definition from_like :: "act \<Rightarrow> act list \<Rightarrow> checker \<Rightarrow> checker \<Rightarrow> bool" where
  "from_like a b c cb \<longleftrightarrow> clean (check_block b cb) \<and> fits_in cb \<and> scopes cb \<noteq> [] \<and> strip (scopes cb) = strip (scopes c) \<and>
     strip (scopes (check_block b cb)) = strip (scopes (check_act a c))"

lemma fits_enter: "fits_in c \<Longrightarrow> fits_in (on_tracker enter_conditional c)" "fits_in c \<Longrightarrow> fits_in (on_tracker enter_loop c)"
  by (auto simp: fits_in_def elim: fits_mono)

lemma arm_checked:
  assumes "clean (check_act (Branch arms) c)" "fits_in c" "scopes c \<noteq> []" "b \<in> set ([] # arms)"
  shows "\<exists>cb. from_like (Branch arms) b c cb"
proof -
  let ?c = "on_tracker enter_conditional c"
  have after: "strip (scopes (check_act (Branch arms) c)) = strip (scopes c)"
    by (rule branch_closed(2) [OF checker_keeps(3) assms(1,2)])
  have st: "stale_in ?c (scopes ?c)" using assms(2) fits_stale(1) by (auto simp: stale_in_def fits_in_def)
  have all: "clean (check_arms arms ?c)" using assms(1) by simp
  show ?thesis
  proof (cases "b = []")
    case True
    then have "scopes (check_block b ?c) = scopes c" "clean (check_block b ?c)" using clean_back(4) [OF all] by (simp_all add: clean_pop)
    then show ?thesis using assms(3) after fits_enter(1) [OF assms(2)]
      by (intro exI [of _ ?c]) (simp add: from_like_def del: check_block.simps)
  next
    case False
    then obtain xs ys where arms: "arms = xs @ b # ys" using assms(4) by (auto dest: split_list)
    let ?cb = "check_arms xs ?c"
    have cl: "clean (check_block b ?cb)" using all clean_back(4) by (simp add: arms check_arms_append del: check_block.simps)
    then have clb: "clean ?cb" by (rule clean_back)
    note keep = checker_keeps(3) [of xs]
    have s1: "strip (scopes ?cb) = strip (scopes c)" using closed_strip [OF keep clb st] by simp
    have sh: "shape ?cb = shape ?c" using keeps_steady [OF closed_keeps [OF keep]] by (simp add: steady_def)
    have "stale_in ?cb (scopes ?cb)" using st stale_in_shape [OF sh] stale_strip [of "scopes ?cb" "scopes c"] s1 by (simp add: stale_in_def)
    then have "strip (scopes (check_block b ?cb)) = strip (scopes c)" using closed_strip [OF checker_keeps(2) cl] s1 by simp
    moreover have "fits_in ?cb" using keeps_fits [OF closed_keeps [OF keep] _ clb fits_enter(1) [OF assms(2)]] assms(3) by simp
    moreover have "scopes ?cb \<noteq> []" using steady_shape(1) [OF keeps_steady [OF closed_keeps [OF keep]], of ?c] assms(3) by auto
    ultimately show ?thesis using cl s1 after by (intro exI [of _ ?cb]) (simp add: from_like_def del: check_block.simps check_act.simps)
  qed
qed

lemma block_checked:
  assumes "b \<in> set (once a) \<or> loop_body a = Some b" "clean (check_act a c)" "fits_in c" "scopes c \<noteq> []"
  shows "\<exists>cb. from_like a b c cb"
proof (cases a)
  case (Nested b')
  then show ?thesis using assms by (intro exI [of _ c]) (simp add: from_like_def)
next
  case (Branch arms)
  then show ?thesis using arm_checked [of arms c b] assms by simp
next
  case (ForLoop b')
  let ?cb = "on_tracker enter_loop c"
  have "strip (scopes (check_act a c)) = strip (scopes c)" by (rule loop_closed(3) [OF checker_keeps(2) _ assms(2,3)]) (simp add: ForLoop)
  then show ?thesis using assms fits_enter(2) [OF assms(3)] unfolding ForLoop for_loop
    by (intro exI [of _ ?cb]) (simp add: from_like_def ForLoop for_loop del: check_block.simps check_act.simps)
next
  case (WhileLoop b')
  let ?cb = "on_tracker enter_conditional (on_tracker enter_loop c)"
  have "strip (scopes (check_act a c)) = strip (scopes c)" by (rule loop_closed(3) [OF checker_keeps(2) _ assms(2,3)]) (simp add: WhileLoop)
  then show ?thesis using assms fits_enter(1) [OF fits_enter(2) [OF assms(3)]] unfolding WhileLoop
    by (intro exI [of _ ?cb]) (simp add: from_like_def del: check_block.simps)
qed (use assms(1) in simp_all)

lemma no_exit_inside: "no_exit a \<Longrightarrow> b \<in> set (once a) \<or> loop_body a = Some b \<Longrightarrow> list_all no_exit b"
  by (cases a) (auto simp: list_all_iff)

lemma strip_cons: "strip (sc # scs) = map (\<lambda>(name, ob). (name, unmark ob)) sc # strip scs" "strip [] = []"
  by (simp_all add: strip_unmark)

lemma strip_consumed: "\<forall>(name, ob)\<in>set sc. ob_consumed ob \<Longrightarrow> \<forall>(name, ob)\<in>set (map (\<lambda>(name, ob). (name, unmark ob)) sc). ob_consumed ob"
  by auto

lemma step_transfer:
  assumes "clean (check_act (Transfer x sp d) c)" "scopes c \<noteq> []" "sim (strip (scopes c)) s"
  shows "sim (strip (scopes (check_act (Transfer x sp d) c))) (start_transfer x d s)"
proof -
  obtain sc scs where c: "scopes c = sc # scs" using assms(2) by (cases "scopes c") auto
  obtain w where w: "scopes (check_act (Transfer x sp d) c) = AList.update x w sc # scs" "ob_destination w = d" "\<not> ob_consumed w"
    using c by (auto simp: on_tracker_def register_obligation_def lt_error_def Let_def split: option.splits if_splits)
  have "ob_consumed ob" if "map_of sc x = Some ob" for ob
    using assms(1) c that by (auto simp: clean_def on_tracker_def register_obligation_def lt_error_def Let_def split: if_splits)
  then show ?thesis unfolding w(1) strip_cons strip_update
    using assms(3) w(2,3) by (intro sim_transfer) (auto simp: c strip_cons map_of_unmark)
qed

lemma step_await:
  assumes "clean (check_act (Await x sp) c)" "sim (strip (scopes c)) s"
  shows "sim (strip (scopes (check_act (Await x sp) c))) (await_transfer x s)"
proof (rule wait_accepted)
  show "clean (check_wait x sp c)" using assms(1) by simp
  fix ob assume ob: "find_scope (maps (scopes c)) x = Some ob" "\<not> ob_consumed ob"
    "scopes (check_wait x sp c) = set_obligation x (ob\<lparr>ob_consumed := True, ob_synced := False\<rparr>) (scopes c)"
  have "sim (set_obligation x ((unmark ob)\<lparr>ob_consumed := True\<rparr>) (strip (scopes c))) (await_transfer x s)"
    using assms(2) ob(1,2) by (intro sim_await) (simp_all add: find_strip)
  then show ?thesis by (simp add: ob(3) strip_set)
qed

lemma step_read:
  assumes "clean (check_act (ReadFrom d sp) c)" "sim (strip (scopes c)) s"
  shows "sim (strip (scopes (check_act (ReadFrom d sp) c))) (emit [Loaded d] s)"
proof -
  have empty: "pending (\<lambda>ob. \<not> ob_consumed ob) d (ck_tracker c) = []"
    using assms(1) by (auto simp: clean_def on_tracker_def require_destination_ready_def lt_error_def Let_def split: if_splits)
  have all: "ob_consumed ob" if ob: "sc \<in> set (scopes c)" "(name, ob) \<in> set sc" "ob_destination ob = Some d" for sc name ob
  proof (rule ccontr)
    assume "\<not> ob_consumed ob"
    moreover have "ob \<in> set (map snd (concat (scopes c)))" using ob(1,2) by force
    ultimately have "ob_name ob \<in> set (pending (\<lambda>ob. \<not> ob_consumed ob) d (ck_tracker c))" using ob(3) by (auto simp: pending_def)
    then show False using empty by simp
  qed
  have "ob_consumed ob" if "sc \<in> set (strip (scopes c))" "(name, ob) \<in> set sc" "ob_destination ob = Some d" for sc name ob
    using that all by (auto simp: strip_unmark)
  moreover have "scopes (check_act (ReadFrom d sp) c) = scopes c" by (simp add: on_tracker_def read_scopes)
  ultimately show ?thesis using assms(2) sim_read by metis
qed

lemma strip_barrier: "strip (scopes (check_act Barrier c)) = strip (scopes c)"
  by (simp add: on_tracker_def synchronize_barrier_def strip_def sync_one_def split_beta)

text \<open>What holds of the checker between two statements.\<close>

definition ready :: "checker \<Rightarrow> run_state \<Rightarrow> bool" where
  "ready c s \<longleftrightarrow> fits_in c \<and> scopes c \<noteq> [] \<and> sim (strip (scopes c)) s"

lemma ready_step:
  assumes "clean (check_act a c)" "ready c s" "sim (strip (scopes (check_act a c))) s'"
  shows "ready (check_act a c) s'"
  using assms keeps_fits [OF act_keeps] steady_shape(1) [OF keeps_steady [OF act_keeps]] unfolding ready_def by (metis length_0_conv)

lemma ready_enter: "fits_in c \<Longrightarrow> sim (strip (scopes c)) s \<Longrightarrow> ready (on_tracker lt_push c) (enter s)"
  by (simp add: ready_def strip_cons sim_enter fits_in_def fits_subset)

lemma ready_leave:
  assumes "clean (check_block b cb)" "ready (check_acts b (on_tracker lt_push cb)) s1" "run b (enter s) out s1"
  shows "sim (strip (scopes (check_block b cb))) (leave s s1)"
proof -
  let ?c = "check_acts b (on_tracker lt_push cb)"
  obtain sc scs where sc: "scopes ?c = sc # scs" using assms(2) by (cases "scopes ?c") (auto simp: ready_def)
  have "\<forall>(name, ob)\<in>set sc. ob_consumed ob" using assms(1) sc by (simp add: clean_pop)
  then have "sim (strip scs) (leave s s1)"
    using assms(2) run_outer_env [OF assms(3)] by (intro sim_leave [OF _ strip_consumed]) (auto simp: ready_def sc strip_cons)
  then show ?thesis by (simp add: sc)
qed

lemma ready_block:
  assumes "clean (check_act a c)" "b \<in> set (once a) \<or> loop_body a = Some b" "ready c s" "run b (enter s) out s1"
    and IH: "\<And>c. clean (check_acts b c) \<Longrightarrow> ready c (enter s) \<Longrightarrow> out = Done \<and> ready (check_acts b c) s1"
  shows "out = Done" "ready (check_act a c) (leave s s1)"
proof -
  obtain cb where cb: "from_like a b c cb" using block_checked [OF assms(2,1)] assms(3) by (auto simp: ready_def)
  then have cl: "clean (check_block b cb)" "strip (scopes (check_block b cb)) = strip (scopes (check_act a c))" by (simp_all add: from_like_def)
  then have "clean (check_acts b (on_tracker lt_push cb))" by (simp add: clean_pop)
  moreover have "ready (on_tracker lt_push cb) (enter s)"
    using cb assms(3) by (intro ready_enter) (simp_all add: from_like_def ready_def)
  ultimately have r: "out = Done" "ready (check_acts b (on_tracker lt_push cb)) s1" using IH by blast+
  show "out = Done" by (rule r)
  show "ready (check_act a c) (leave s s1)"
    using ready_leave [OF cl(1) r(2) assms(4)] unfolding cl(2) by (rule ready_step [OF assms(1,3)])
qed

lemma ready_loop:
  assumes "loop_body a = Some b" "clean (check_act a c)" "ready c s" "ready (check_act a c) s'"
  shows "ready c s'"
  using assms loop_closed(3) [OF checker_keeps(2) assms(1,2)] by (simp add: ready_def)

lemma ready_skip:
  assumes "loop_body a = Some b" "clean (check_act a c)" "ready c s"
  shows "ready (check_act a c) s"
  using assms loop_closed(3) [OF checker_keeps(2) assms(1,2)] by (intro ready_step [of a c s]) (simp_all add: ready_def)

text \<open>An execution of an accepted program follows what the tracker recorded, and runs to its end.\<close>

theorem run_simulated:
  "run as s out s' \<Longrightarrow> clean (check_acts as c) \<Longrightarrow> list_all no_exit as \<Longrightarrow> ready c s \<Longrightarrow> out = Done \<and> ready (check_acts as c) s'"
proof (induction arbitrary: c rule: run.induct)
  case (run_nil s)
  then show ?case by simp
next
  case (run_transfer as x d s out s' sp)
  have "clean (check_act (Transfer x sp d) c)" using run_transfer.prems(1) clean_back(1) by simp
  then have "ready (check_act (Transfer x sp d) c) (start_transfer x d s)"
    using run_transfer.prems(3) by (intro ready_step step_transfer) (auto simp: ready_def)
  then show ?case using run_transfer.IH run_transfer.prems by simp
next
  case (run_await as x s out s' sp)
  have "clean (check_act (Await x sp) c)" using run_await.prems(1) clean_back(1) by simp
  then have "ready (check_act (Await x sp) c) (await_transfer x s)"
    using run_await.prems(3) by (intro ready_step step_await) (auto simp: ready_def)
  then show ?case using run_await.IH run_await.prems by simp
next
  case (run_barrier as s out s')
  have "clean (check_act Barrier c)" using run_barrier.prems(1) clean_back(1) by simp
  then have "ready (check_act Barrier c) (emit [Synced] s)"
    using run_barrier.prems(3) by (intro ready_step) (auto simp: ready_def strip_barrier sim_sync simp del: check_act.simps)
  then show ?case using run_barrier.IH run_barrier.prems by simp
next
  case (run_read as d s out s' sp)
  have "clean (check_act (ReadFrom d sp) c)" using run_read.prems(1) clean_back(1) by simp
  then have "ready (check_act (ReadFrom d sp) c) (emit [Loaded d] s)"
    using run_read.prems(3) by (intro ready_step step_read) (auto simp: ready_def)
  then show ?case using run_read.IH run_read.prems by simp
next
  case (run_block b a s s1 as out s2)
  have cl: "clean (check_act a c)" using run_block.prems(1) clean_back(1) by simp
  have "list_all no_exit b" using no_exit_inside run_block.hyps(1) run_block.prems(2) by auto
  then have "ready (check_act a c) (leave s s1)"
    using ready_block(2) [OF cl _ run_block.prems(3) run_block.hyps(2)] run_block.IH(1) run_block.hyps(1) by blast
  then show ?case using run_block.IH(2) run_block.prems by simp
next
  case (run_block_exit b a s out s1 as)
  have cl: "clean (check_act a c)" using run_block_exit.prems(1) clean_back(1) by simp
  have "list_all no_exit b" using no_exit_inside run_block_exit.hyps(1) run_block_exit.prems(2) by auto
  then have "out = Done"
    using ready_block(1) [OF cl _ run_block_exit.prems(3) run_block_exit.hyps(2)] run_block_exit.IH run_block_exit.hyps(1) by blast
  then show ?case using run_block_exit.hyps(3) by simp
next
  case (run_loop_end a b as s out s')
  have cl: "clean (check_act a c)" using run_loop_end.prems(1) clean_back(1) by simp
  show ?case using run_loop_end.IH run_loop_end.prems ready_skip [OF run_loop_end.hyps(1) cl run_loop_end.prems(3)] by simp
next
  case (run_loop_step a b s s1 as out s2)
  have cl: "clean (check_act a c)" using run_loop_step.prems(1) clean_back(1) by simp
  have "list_all no_exit b" using no_exit_inside run_loop_step.hyps(1) run_loop_step.prems(2) by auto
  then have "ready (check_act a c) (leave s s1)"
    using ready_block(2) [OF cl _ run_loop_step.prems(3) run_loop_step.hyps(2)] run_loop_step.IH(1) run_loop_step.hyps(1) by blast
  then have "ready c (leave s s1)" by (rule ready_loop [OF run_loop_step.hyps(1) cl run_loop_step.prems(3)])
  then show ?case using run_loop_step.IH(2) run_loop_step.prems by blast
next
  case (run_loop_break a b s s1 as out s2)
  have cl: "clean (check_act a c)" using run_loop_break.prems(1) clean_back(1) by simp
  have "list_all no_exit b" using no_exit_inside run_loop_break.hyps(1) run_loop_break.prems(2) by auto
  then have "Broke = Done"
    using ready_block(1) [OF cl _ run_loop_break.prems(3) run_loop_break.hyps(2)] run_loop_break.IH(1) run_loop_break.hyps(1) by blast
  then show ?case by simp
next
  case (run_loop_return a b s s1 as)
  have cl: "clean (check_act a c)" using run_loop_return.prems(1) clean_back(1) by simp
  have "list_all no_exit b" using no_exit_inside run_loop_return.hyps(1) run_loop_return.prems(2) by auto
  then have "Returned = Done"
    using ready_block(1) [OF cl _ run_loop_return.prems(3) run_loop_return.hyps(2)] run_loop_return.IH run_loop_return.hyps(1) by blast
  then show ?case by simp
qed simp_all

end
