(* ===== verification/YTrackerProps.thy ===== *)
theory YTrackerProps
  imports YTrackerSim
begin

text \<open>
  What the tracker guarantees of the programs it accepts, and what it misses.
\<close>

definition here :: "nat \<Rightarrow> span" where
  "here n = \<lparr>sp_line = n, sp_col = 1\<rparr>"

text \<open>\<^verbatim>\<open>for i { let t = cp_async(A, d); pipe.wait(t); barrier::sync(); d[0]; }\<close>\<close>

definition pipeline :: "act list" where
  "pipeline = [ForLoop [Transfer ''t'' (here 2) (Some ''d''), Await ''t'' (here 3), Barrier, ReadFrom ''d'' (here 5)]]"

lemma accepted_clean: "accepted body \<longleftrightarrow> clean (check_function body)"
  by (simp add: accepted_def clean_def has_errors_def)

text \<open>The walk through a function starts and ends in an empty scope.\<close>

lemma start_ready:
  "ready (on_tracker lt_push \<lparr>ck_tracker = lt_new, ck_untracked = []\<rparr>) \<lparr>rt_env = [Map.empty, Map.empty], rt_next = 0, rt_trace = []\<rparr>"
proof -
  have "sim [[], []] \<lparr>rt_env = [Map.empty, Map.empty], rt_next = 0, rt_trace = []\<rparr>"
    by (rule simI) (auto simp: look_cons reads_after_waits_def split: if_splits)
  then show ?thesis by (simp add: ready_def fits_in_def fits_def on_tracker_def lt_push_def lt_new_def strip_def)
qed

text \<open>C11: A transfer of an accepted function that leaves early nowhere is awaited exactly once in every
  execution, whatever branches are taken and however often the loops run: a started transfer has one
  wait and it comes after the start. The function runs to its end, and every read of a destination
  comes after the waits for all the transfers started into it before.\<close>

theorem accepted_awaits_once:
  assumes "accepted body" "list_all no_exit body" "run_function body out s"
  shows "out = Done \<and> (\<forall>k<rt_next s. \<exists>dest. history k (rt_trace s) = [Started k dest, Awaited k]) \<and>
    reads_after_waits (rt_trace s)"
proof -
  let ?c = "on_tracker lt_push \<lparr>ck_tracker = lt_new, ck_untracked = []\<rparr>"
  have cl: "clean (on_tracker lt_pop (check_block body ?c))" using assms(1) by (simp add: accepted_clean check_function_def)
  have "clean (check_acts [Nested body] ?c)" using cl by (simp add: clean_pop)
  then have r: "out = Done" "ready (check_acts [Nested body] ?c) s"
    using run_simulated [OF assms(3) [unfolded run_function_def] _ _ start_ready] assms(2) by simp_all
  obtain sc scs where sc: "scopes (check_acts [Nested body] ?c) = sc # scs" using r(2) by (cases "scopes (check_acts [Nested body] ?c)") (auto simp: ready_def)
  have sim: "sim (strip (scopes (check_acts [Nested body] ?c))) s" using r(2) by (simp add: ready_def)
  have len: "length (rt_env s) = 2" "tl (rt_env s) = [Map.empty]"
    using run_outer_env [OF assms(3) [unfolded run_function_def]] by simp_all
  then obtain e where e: "rt_env s = [e, Map.empty]" by (cases "rt_env s") auto
  have "\<forall>(name, ob)\<in>set sc. ob_consumed ob" using cl sc by (simp add: clean_pop)
  then have "sim (strip scs) (leave \<lparr>rt_env = [Map.empty], rt_next = 0, rt_trace = []\<rparr> s)"
    using sim [unfolded sc strip_cons] by (intro sim_leave [OF _ strip_consumed]) (auto simp: e)
  then have "complete k (rt_trace s)" if "k < rt_next s" for k
    using sim_lost [of "strip scs" "leave \<lparr>rt_env = [Map.empty], rt_next = 0, rt_trace = []\<rparr> s" k] that by (simp add: look_cons)
  then show ?thesis using r(1) sim_reads [OF sim] by (simp add: complete_def)
qed

text \<open>One iteration of the pipeline.\<close>

definition piped :: "event list" where
  "piped = [Started 0 (Some ''d''), Awaited 0, Synced, Loaded ''d'']"

lemmas execute = run_block [of _ "Nested _"] run_nil run_transfer run_await run_barrier run_read run_loop_step run_loop_end

lemma run_steps:
  "start_transfer x d \<lparr>rt_env = e # es, rt_next = k, rt_trace = tr\<rparr> = \<lparr>rt_env = e(x \<mapsto> k) # es, rt_next = Suc k, rt_trace = tr @ [Started k d]\<rparr>"
  "await_transfer x \<lparr>rt_env = es, rt_next = k, rt_trace = tr\<rparr> =
     \<lparr>rt_env = es, rt_next = k, rt_trace = tr @ (case find_scope es x of Some j \<Rightarrow> [Awaited j] | None \<Rightarrow> [])\<rparr>"
  "emit ev \<lparr>rt_env = es, rt_next = k, rt_trace = tr\<rparr> = \<lparr>rt_env = es, rt_next = k, rt_trace = tr @ ev\<rparr>"
  "enter \<lparr>rt_env = es, rt_next = k, rt_trace = tr\<rparr> = \<lparr>rt_env = Map.empty # es, rt_next = k, rt_trace = tr\<rparr>"
  "leave \<lparr>rt_env = es, rt_next = k, rt_trace = tr\<rparr> \<lparr>rt_env = es', rt_next = k', rt_trace = tr'\<rparr> = \<lparr>rt_env = es, rt_next = k', rt_trace = tr'\<rparr>"
  by (simp_all add: start_transfer_def await_transfer_def emit_def enter_def leave_def)

lemma pipeline_runs: "run_function pipeline Done \<lparr>rt_env = [Map.empty, Map.empty], rt_next = 1, rt_trace = piped\<rparr>"
proof -
  let ?s = "\<lambda>n. \<lparr>rt_env = replicate n Map.empty, rt_next = 0, rt_trace = []\<rparr>" and ?t = "\<lambda>es. \<lparr>rt_env = es, rt_next = 1, rt_trace = piped\<rparr>"
  have body: "run [Transfer ''t'' (here 2) (Some ''d''), Await ''t'' (here 3), Barrier, ReadFrom ''d'' (here 5)] (enter (?s 3)) Done
      (?t [[''t'' \<mapsto> 0], Map.empty, Map.empty, Map.empty])"
    by (intro run.intros(2-5)) (simp add: run_steps numeral_eq_Suc piped_def run_nil)
  have "run pipeline (?s 3) Done (?t (replicate 3 Map.empty))" unfolding pipeline_def
    by (rule run_loop_step [OF _ body]) (auto simp: run_steps intro: run_loop_end run_nil)
  then have "run [Nested pipeline] (?s 2) Done (?t (replicate 2 Map.empty))"
    by (intro run_block [of pipeline _ _ "?t (replicate 3 Map.empty)"]) (auto simp: run_steps numeral_eq_Suc intro: run_nil)
  then show ?thesis by (simp add: run_function_def numeral_eq_Suc)
qed

theorem accepted_awaits_once_witness:
  "accepted pipeline \<and> history 0 piped = [Started 0 (Some ''d''), Awaited 0] \<and> reads_after_waits piped"
proof -
  have ok: "accepted pipeline" "list_all no_exit pipeline" by code_simp+
  show ?thesis using ok(1) accepted_awaits_once [OF ok pipeline_runs] by (auto simp: piped_def history_def)
qed

section \<open>What is accepted although it should not be\<close>

text \<open>\<^verbatim>\<open>let t = cp_async(A, d); if c { return; } pipe.wait(t);\<close>\<close>

definition early_return :: "act list" where
  "early_return = [Transfer ''t'' (here 1) (Some ''d''), Branch [[ReturnNow]], Await ''t'' (here 3)]"

text \<open>\<^verbatim>\<open>let t = cp_async(A, d); pipe.wait(t); if c { barrier::sync(); } d[0];\<close>\<close>

definition barrier_in_branch :: "act list" where
  "barrier_in_branch = [Transfer ''t'' (here 1) (Some ''d''), Await ''t'' (here 2), Branch [[Barrier]], ReadFrom ''d'' (here 4)]"

text \<open>\<^verbatim>\<open>{ let t = cp_async(A, d); pipe.wait(t); } d[0];\<close>\<close>

definition no_barrier :: "act list" where
  "no_barrier = [Nested [Transfer ''t'' (here 1) (Some ''d''), Await ''t'' (here 2)], ReadFrom ''d'' (here 4)]"

lemma run_in_function:
  assumes "run body \<lparr>rt_env = replicate 3 Map.empty, rt_next = 0, rt_trace = []\<rparr> out s1"
  shows "\<exists>s. run_function body out s \<and> rt_trace s = rt_trace s1 \<and> rt_next s = rt_next s1"
proof -
  let ?s = "\<lparr>rt_env = [Map.empty, Map.empty], rt_next = 0, rt_trace = []\<rparr>"
  have r: "run body (enter ?s) out s1" using assms by (simp add: run_steps numeral_eq_Suc)
  have "run [Nested body] ?s out (leave ?s s1)"
  proof (cases "out = Done")
    case True
    then show ?thesis using run_block [of body "Nested body" ?s s1] r run_nil by simp
  next
    case False
    then show ?thesis using run_block_exit [of body "Nested body" ?s out s1] r by simp
  qed
  then show ?thesis by (intro exI [of _ "leave ?s s1"]) (simp add: run_function_def)
qed

text \<open>C15: Three programs the tracker accepts run against its rules. A function may return between the start
  of a transfer and its wait, so the transfer is never awaited. A barrier in a branch counts on the
  path around the branch, and leaving the block of an awaited transfer counts as a barrier: both let
  a destination be read that no barrier has been passed for.\<close>

theorem tracker_misses:
  "accepted early_return \<and> (\<exists>s. run_function early_return Returned s \<and> rt_trace s = [Started 0 (Some ''d'')]) \<and>
   accepted barrier_in_branch \<and>
     (\<exists>s. run_function barrier_in_branch Done s \<and> rt_trace s = [Started 0 (Some ''d''), Awaited 0, Loaded ''d'']) \<and>
   accepted no_barrier \<and> (\<exists>s. run_function no_barrier Done s \<and> rt_trace s = [Started 0 (Some ''d''), Awaited 0, Loaded ''d''])"
proof (intro conjI)
  show "accepted early_return" "accepted barrier_in_branch" "accepted no_barrier" by code_simp+
  let ?s = "\<lparr>rt_env = replicate 3 Map.empty, rt_next = 0, rt_trace = []\<rparr>"
  let ?t = "\<lambda>es. \<lparr>rt_env = es, rt_next = 1, rt_trace = [Started 0 (Some ''d''), Awaited 0]\<rparr>"
  let ?es = "[[''t'' \<mapsto> 0], Map.empty, Map.empty]"
  let ?u = "\<lparr>rt_env = ?es, rt_next = 1, rt_trace = [Started 0 (Some ''d'')]\<rparr>"
  have "run [Branch [[ReturnNow]], Await ''t'' (here 3)] ?u Returned (leave ?u (enter ?u))"
    by (rule run_block_exit [where b = "[ReturnNow]"]) (auto intro: run_return)
  then have "run early_return ?s Returned (leave ?u (enter ?u))" unfolding early_return_def
    by (intro run_transfer) (simp add: run_steps numeral_eq_Suc)
  from run_in_function [OF this] show "\<exists>s. run_function early_return Returned s \<and> rt_trace s = [Started 0 (Some ''d'')]" by auto
  have "run [Branch [[Barrier]], ReadFrom ''d'' (here 4)] (?t ?es) Done (emit [Loaded ''d''] (?t ?es))"
    by (rule run_block [where b = "[]" and ?s1.0 = "enter (?t ?es)"]) (auto simp: run_steps intro!: run_nil run_read)
  then have "run barrier_in_branch ?s Done (emit [Loaded ''d''] (?t ?es))" unfolding barrier_in_branch_def
    by (intro run_transfer run_await) (simp add: run_steps numeral_eq_Suc)
  from run_in_function [OF this]
  show "\<exists>s. run_function barrier_in_branch Done s \<and> rt_trace s = [Started 0 (Some ''d''), Awaited 0, Loaded ''d'']" by auto
  have "run [Transfer ''t'' (here 1) (Some ''d''), Await ''t'' (here 2)] (enter ?s) Done (?t ([''t'' \<mapsto> 0] # replicate 3 Map.empty))"
    by (intro run_transfer run_await) (simp add: run_steps run_nil)
  then have "run no_barrier ?s Done (emit [Loaded ''d''] (?t (replicate 3 Map.empty)))" unfolding no_barrier_def
    by (rule run_block [rotated]) (auto simp: run_steps intro!: run_nil run_read)
  from run_in_function [OF this]
  show "\<exists>s. run_function no_barrier Done s \<and> rt_trace s = [Started 0 (Some ''d''), Awaited 0, Loaded ''d'']" by auto
qed

end
