(* ===== verification/YUniform.thy ===== *)
theory YUniform
  imports YScope "HOL-Library.AList"
begin

text \<open>
  The analysis of which values and which code can differ between the threads of a block
  (\<^verbatim>\<open>src/uniformity.rs\<close>), by which the PTX backend refuses a barrier or a warp shuffle that not all its
  threads would reach. A message is a constructor. Texts are ASCII.
\<close>

section \<open>How far a value is the same\<close>

datatype uniform = UBlock | UWarp | UThread

fun tier :: "uniform \<Rightarrow> nat" where
  "tier UBlock = 0"
| "tier UWarp = 1"
| "tier UThread = 2"

lemma tier_inj: "tier a = tier b \<longleftrightarrow> a = b"
  by (cases a; cases b) simp_all

lemma tier_le: "tier a \<le> 2"
  by (cases a) simp_all

instantiation uniform :: linorder
begin

definition less_eq_uniform :: "uniform \<Rightarrow> uniform \<Rightarrow> bool" where
  "less_eq_uniform a b \<longleftrightarrow> tier a \<le> tier b"

definition less_uniform :: "uniform \<Rightarrow> uniform \<Rightarrow> bool" where
  "less_uniform a b \<longleftrightarrow> tier a < tier b"

instance
  by standard (auto simp: less_eq_uniform_def less_uniform_def tier_inj)

end

lemma UBlock_least [simp]: "UBlock \<le> a" "\<not> a < UBlock" "a \<le> UBlock \<longleftrightarrow> a = UBlock" "max UBlock a = a" "max a UBlock = a"
  by (cases a; simp add: less_eq_uniform_def less_uniform_def max_def)+

lemma uniform_distinct_le [simp]: "\<not> UWarp \<le> UBlock" "\<not> UThread \<le> UBlock" "\<not> UThread \<le> UWarp" "a \<le> UThread"
  by (cases a; simp add: less_eq_uniform_def)+

fun runs_on :: "uniform \<Rightarrow> string" where
  "runs_on UBlock = ''every thread of the block''"
| "runs_on UWarp = ''some warps of the block and not others''"
| "runs_on UThread = ''some lanes of a warp and not others''"

definition block_builtins :: "string list" where
  "block_builtins = [''block_idx_x'', ''block_idx_y'', ''block_idx_z'', ''block_dim_x'', ''block_dim_y'', ''block_dim_z'',
     ''grid_dim_x'', ''grid_dim_y'', ''grid_dim_z'']"

definition warp_reductions :: "string list" where
  "warp_reductions = [''warp_reduce_sum'', ''warp_reduce_max'']"

definition pure_builtins :: "string list" where
  "pure_builtins = [''block_cdiv'', ''mul_wide_u32'', ''mul_wide_s32'', ''u64_lo32'', ''u64_hi32'', ''add_cc_u32'',
     ''sub_cc_u32'', ''mad_lo_cc_u32'', ''mad_hi_cc_u32'']"

section \<open>The text of a \<^verbatim>\<open>chisel\<close> block\<close>

definition is_name_char :: "char \<Rightarrow> bool" where
  "is_name_char c = (let n = of_char c :: nat in 48 \<le> n \<and> n \<le> 57 \<or> 65 \<le> n \<and> n \<le> 90 \<or> 97 \<le> n \<and> n \<le> 122 \<or> c = CHR ''_'')"

definition is_white :: "char \<Rightarrow> bool" where
  "is_white c = (let n = of_char c :: nat in 9 \<le> n \<and> n \<le> 13 \<or> n = 32)"

text \<open>The names after a \<^verbatim>\<open>%\<close>.\<close>

function chisel_registers :: "string \<Rightarrow> string list" where
  "chisel_registers text =
     (case dropWhile (\<lambda>c. c \<noteq> CHR ''%'') text of
        [] \<Rightarrow> []
      | _ # rest \<Rightarrow>
          let name = takeWhile is_name_char rest;
              more = chisel_registers (dropWhile is_name_char rest)
          in if name = [] then more else name # more)"
  by auto
termination
proof (relation "measure length", goal_cases)
  case (2 t c rest)
  have "length (dropWhile is_name_char rest) \<le> length rest" by (rule length_dropWhile_le)
  moreover have "length (c # rest) \<le> length t" using length_dropWhile_le [of "\<lambda>c. c \<noteq> CHR ''%''" t] 2 by simp
  ultimately show ?case by simp
qed simp

declare chisel_registers.simps [simp del]

fun split_at :: "char \<Rightarrow> string \<Rightarrow> string list" where
  "split_at c [] = [[]]"
| "split_at c (x # xs) =
     (if x = c then [] # split_at c xs else case split_at c xs of w # ws \<Rightarrow> (x # w) # ws | [] \<Rightarrow> [[x]])"

fun before_comment :: "string \<Rightarrow> string" where
  "before_comment [] = []"
| "before_comment (c # cs) = (if c = CHR ''/'' \<and> take 1 cs = ''/'' then [] else c # before_comment cs)"

definition trim_end :: "(char \<Rightarrow> bool) \<Rightarrow> string \<Rightarrow> string" where
  "trim_end P s = rev (dropWhile P (rev s))"

definition trim :: "string \<Rightarrow> string" where
  "trim s = trim_end is_white (dropWhile is_white s)"

definition is_label_char :: "char \<Rightarrow> bool" where
  "is_label_char c = (is_name_char c \<or> c = CHR ''$'')"

definition instruction_of :: "string \<Rightarrow> string option" where
  "instruction_of piece =
     (let s0 = trim (trim_end (\<lambda>c. c = CHR ''}'') (dropWhile (\<lambda>c. c = CHR ''{'') (trim piece)));
          label = takeWhile (\<lambda>c. c \<noteq> CHR '':'') s0;
          s1 = (if CHR '':'' \<in> set s0 \<and> label \<noteq> [] \<and> list_all is_label_char label then trim (drop (length label + 1) s0) else s0);
          s2 = (case s1 of
                  CHR ''@'' # rest \<Rightarrow> trim (drop 1 (dropWhile (\<lambda>c. \<not> is_white c) rest))
                | _ \<Rightarrow> s1)
      in if s2 = [] \<or> hd s2 = CHR ''.'' then None else Some s2)"

definition instructions :: "string \<Rightarrow> string list" where
  "instructions line = List.map_filter instruction_of (split_at CHR '';'' (before_comment line))"

definition opcode :: "string \<Rightarrow> string" where
  "opcode ins = takeWhile (\<lambda>c. \<not> is_white c \<and> c \<noteq> CHR '','') ins"

definition collective_scope :: "string \<Rightarrow> uniform option" where
  "collective_scope ins =
     (let parts = split_at CHR ''.'' (opcode ins); head = hd parts
      in if head = ''bar'' \<and> take 1 (tl parts) = [''warp''] then Some UWarp
         else if head = ''bar'' \<or> head = ''barrier'' then Some UBlock
         else if ''sync'' \<in> set parts \<or> ''aligned'' \<in> set parts then Some UWarp else None)"

text \<open>The lines of a text; the end of a line is a line feed or a carriage return and a line feed.\<close>

definition text_lines :: "string \<Rightarrow> string list" where
  "text_lines text =
     (let ls = split_at (char_of (10 :: nat)) text
      in map (\<lambda>l. if l \<noteq> [] \<and> last l = char_of (13 :: nat) then butlast l else l) (butlast ls) @
         (if last ls = [] then [] else [last ls]))"

fun violated_by :: "uniform \<Rightarrow> string list \<Rightarrow> (uniform \<times> string) option" where
  "violated_by here [] = None"
| "violated_by here (ins # rest) =
     (case collective_scope ins of
        Some needs \<Rightarrow> if here > needs then Some (needs, opcode ins) else violated_by here rest
      | None \<Rightarrow> violated_by here rest)"

definition first_collective_violated :: "string \<Rightarrow> uniform \<Rightarrow> (uniform \<times> string) option" where
  "first_collective_violated ptx here = violated_by here (concat (map instructions (text_lines ptx)))"

definition transfers_control :: "string \<Rightarrow> bool" where
  "transfers_control text =
     list_ex (\<lambda>ins. hd (split_at CHR ''.'' (opcode ins)) \<in> {''bra'', ''brx'', ''ret'', ''exit'', ''call''})
       (concat (map instructions (text_lines text)))"

fun chisel_text :: "stmt \<Rightarrow> string option" where
  "chisel_text (Expr (StringLit text _)) = Some text"
| "chisel_text _ = None"

definition chisel_transfers_control :: "stmt list \<Rightarrow> bool" where
  "chisel_transfers_control ss = list_ex (\<lambda>s. case chisel_text s of Some text \<Rightarrow> transfers_control text | None \<Rightarrow> False) ss"

section \<open>The uniformity of an expression\<close>

datatype reason = NoReason | ChiselMayWrite string | TheVariable string | LoadedValue | TheBuiltin string | SomeCall | RefusedHere

datatype branch_why = NoBranch | InsideIf nat | InsideWhile nat | InTheFor nat

datatype origin = NoOrigin | AssignedOn nat branch_why | FromOn reason nat | CounterDiffers nat | CounterOf nat branch_why

record uniformity =
  un_vars :: "(string \<times> uniform \<times> origin) list"
  un_chisel :: "string list"

definition un_empty :: uniformity where
  "un_empty = \<lparr>un_vars = [], un_chisel = []\<rparr>"

type_synonym leaf = "uniform \<times> reason \<times> string option"

definition same :: leaf where
  "same = (UBlock, NoReason, None)"

definition worst :: "leaf \<Rightarrow> leaf \<Rightarrow> leaf" where
  "worst a b = (if fst b > fst a then b else a)"

definition ident_leaf :: "uniformity \<Rightarrow> string \<Rightarrow> leaf" where
  "ident_leaf u name =
     (if source_name name \<in> set (un_chisel u) then (UThread, ChiselMayWrite (source_name name), None)
      else case map_of (un_vars u) name of
             Some (l, _) \<Rightarrow> if l = UBlock then same else (l, TheVariable (source_name name), Some name)
           | None \<Rightarrow> same)"

fun un_leaf :: "uniformity \<Rightarrow> expr \<Rightarrow> leaf" where
  "un_leaf u (IntLit _ _) = same"
| "un_leaf u (FloatLit _ _) = same"
| "un_leaf u (BoolLit _ _) = same"
| "un_leaf u (Path _ _ _) = same"
| "un_leaf u (Ident name _) = ident_leaf u name"
| "un_leaf u (BinaryOp l _ r _) = worst (un_leaf u l) (un_leaf u r)"
| "un_leaf u (UnaryOp _ e _) = un_leaf u e"
| "un_leaf u (MemberAccess e _ _) = un_leaf u e"
| "un_leaf u (Index _ _ _) = (UThread, LoadedValue, None)"
| "un_leaf u (Call f args _) =
     (let name = (case f of Ident n _ \<Rightarrow> n | _ \<Rightarrow> '''')
      in if name \<in> set block_builtins then same
         else if name \<in> set warp_reductions then (UWarp, TheBuiltin name, None)
         else if name \<in> set pure_builtins then foldl worst same (map (un_leaf u) args)
         else if name = '''' then (UThread, SomeCall, None)
         else (UThread, TheBuiltin name, None))"
| "un_leaf u (GenericCall _ _ _ _) = (UThread, RefusedHere, None)"
| "un_leaf u (BlockExpr _ _) = (UThread, RefusedHere, None)"
| "un_leaf u (StructLit _ _ _) = (UThread, RefusedHere, None)"
| "un_leaf u (StringLit _ _) = (UThread, RefusedHere, None)"
| "un_leaf u (CharLit _ _) = (UThread, RefusedHere, None)"
| "un_leaf u (SelfLit _) = (UThread, RefusedHere, None)"
| "un_leaf u (ZeroInit _) = (UThread, RefusedHere, None)"

definition un_of :: "uniformity \<Rightarrow> expr \<Rightarrow> uniform" where
  "un_of u e = fst (un_leaf u e)"

text \<open>The reason, with the origin of the variable it is about when one is recorded.\<close>

definition un_why :: "uniformity \<Rightarrow> expr \<Rightarrow> reason \<times> origin" where
  "un_why u e =
     (let (_, what, var) = un_leaf u e
      in (what, case var of None \<Rightarrow> NoOrigin | Some v \<Rightarrow> (case map_of (un_vars u) v of Some (_, org) \<Rightarrow> org | None \<Rightarrow> NoOrigin)))"

section \<open>One pass over a body\<close>

definition raise :: "string \<Rightarrow> uniform \<Rightarrow> origin \<Rightarrow> uniformity \<Rightarrow> uniformity" where
  "raise name to org u =
     (let e = (case map_of (un_vars u) name of Some e \<Rightarrow> e | None \<Rightarrow> (UBlock, NoOrigin))
      in u\<lparr>un_vars := AList.update name (if to > fst e then (to, org) else e) (un_vars u)\<rparr>)"

definition assigned :: "uniformity \<Rightarrow> expr option \<Rightarrow> uniform \<Rightarrow> branch_why \<Rightarrow> nat \<Rightarrow> uniform \<times> origin" where
  "assigned u value ctx why line =
     (let (l, what, _) = (case value of Some e \<Rightarrow> un_leaf u e | None \<Rightarrow> same)
      in if ctx > l then (ctx, AssignedOn line why) else (l, FromOn what line))"

fun assigned_variable :: "expr \<Rightarrow> string option" where
  "assigned_variable (Ident name _) = Some name"
| "assigned_variable (MemberAccess base _ _) = assigned_variable base"
| "assigned_variable _ = None"

definition pass_store :: "expr \<Rightarrow> uniform \<times> origin \<Rightarrow> uniformity \<Rightarrow> uniformity" where
  "pass_store target lo u = (case assigned_variable target of Some name \<Rightarrow> raise name (fst lo) (snd lo) u | None \<Rightarrow> u)"

definition for_ctx :: "uniformity \<Rightarrow> uniform \<Rightarrow> expr \<Rightarrow> expr \<Rightarrow> expr option \<Rightarrow> uniform" where
  "for_ctx u ctx a b st =
     (let c = max (max ctx (un_of u a)) (un_of u b) in case st of Some e \<Rightarrow> max c (un_of u e) | None \<Rightarrow> c)"

function pass :: "uniform \<Rightarrow> branch_why \<Rightarrow> stmt \<Rightarrow> uniformity \<Rightarrow> uniformity" where
  "pass ctx why (Let name _ i _ _ _ sp) u = (let (l, org) = assigned u i ctx why (sp_line sp) in raise name l org u)"
| "pass ctx why (Assign t e sp) u = pass_store t (assigned u (Some e) ctx why (sp_line sp)) u"
| "pass ctx why (CompoundAssign t _ e sp) u = pass_store t (assigned u (Some e) ctx why (sp_line sp)) u"
| "pass ctx why (If cond (Block ss _) el _ sp) u =
     (let c = max ctx (un_of u cond); w = (if c > ctx then InsideIf (sp_line sp) else why);
          u1 = fold (pass c w) ss u
      in case el of Some (Block es _) \<Rightarrow> fold (pass c w) es u1 | None \<Rightarrow> u1)"
| "pass ctx why (While cond (Block ss _) _ _ _ sp) u =
     (let c = max ctx (un_of u cond); w = (if c > ctx then InsideWhile (sp_line sp) else why)
      in fold (pass c w) ss u)"
| "pass ctx why (For v a b st (Block ss _) _ _ _ _ sp) u =
     (let c = for_ctx u ctx a b st; w = (if c > ctx then InTheFor (sp_line sp) else why);
          header = (if c > ctx then CounterDiffers (sp_line sp) else CounterOf (sp_line sp) why)
      in fold (pass c w) ss (raise v c header u))"
| "pass ctx why (Chisel (Block ss _) _) u =
     fold (\<lambda>s u. case chisel_text s of
                   Some text \<Rightarrow> u\<lparr>un_chisel := un_chisel u @ chisel_registers text\<rparr>
                 | None \<Rightarrow> pass ctx why s u) ss u"
| "pass ctx why (SafeBlock (Block ss _) _) u = fold (pass ctx why) ss u"
| "pass ctx why (GhostBlock (Block ss _) _) u = fold (pass ctx why) ss u"
| "pass ctx why (HintBlock _ (Block ss _) _) u = fold (pass ctx why) ss u"
| "pass ctx why (ClockDomainBlock _ (Block ss _) _) u = fold (pass ctx why) ss u"
| "pass ctx why (Match _ _ _) u = u"
| "pass ctx why (Break _) u = u"
| "pass ctx why (Expr _) u = u"
| "pass ctx why (Return _ _) u = u"
| "pass ctx why (TypeAlias _ _ _) u = u"
| "pass ctx why (CompileTimeAssert _ _ _) u = u"
  by pat_completeness auto
termination
  by (relation "measure (\<lambda>(_, _, s, _). size s)") (auto dest!: size_member [where f = size])

definition pass_body :: "stmt list \<Rightarrow> uniformity \<Rightarrow> uniformity" where
  "pass_body ss u = fold (pass UBlock NoBranch) ss u"

definition levels :: "uniformity \<Rightarrow> string \<rightharpoonup> uniform" where
  "levels u x = map_option fst (map_of (un_vars u) x)"

text \<open>Passes until none changes a level.\<close>

definition unchanged :: "uniformity \<Rightarrow> uniformity \<Rightarrow> bool" where
  "unchanged u u' \<longleftrightarrow> length (un_vars u) = length (un_vars u') \<and> list_all (\<lambda>(x, l, _). levels u' x = Some l) (un_vars u)"

partial_function (option) settle :: "stmt list \<Rightarrow> uniformity \<Rightarrow> uniformity option" where
  [code]: "settle ss u = (let u' = pass_body ss u in if unchanged u u' then Some u' else settle ss u')"

definition of_body :: "stmt block \<Rightarrow> uniformity option" where
  "of_body body = settle (block_stmts body) un_empty"

section \<open>Where threads leave\<close>

type_synonym exit_found = "(uniform \<times> nat) option"

definition note_exit :: "uniform \<Rightarrow> nat \<Rightarrow> exit_found \<Rightarrow> exit_found" where
  "note_exit l line found = (if l > UBlock \<and> (case found of None \<Rightarrow> True | Some (f, _) \<Rightarrow> l > f) then Some (l, line) else found)"

function find_exits :: "uniformity \<Rightarrow> uniform \<Rightarrow> stmt \<Rightarrow> exit_found \<Rightarrow> exit_found" where
  "find_exits u ctx (Return _ sp) found = note_exit ctx (sp_line sp) found"
| "find_exits u ctx (Chisel (Block ss _) sp) found =
     fold (\<lambda>s found. if chisel_text s = None then find_exits u ctx s found else found) ss
       (if chisel_transfers_control ss then note_exit UThread (sp_line sp) found else found)"
| "find_exits u ctx (If cond (Block ss _) el _ _) found =
     (let c = max ctx (un_of u cond); found1 = fold (find_exits u c) ss found
      in case el of Some (Block es _) \<Rightarrow> fold (find_exits u c) es found1 | None \<Rightarrow> found1)"
| "find_exits u ctx (While cond (Block ss _) _ _ _ _) found = fold (find_exits u (max ctx (un_of u cond))) ss found"
| "find_exits u ctx (For _ a b st (Block ss _) _ _ _ _ _) found = fold (find_exits u (for_ctx u ctx a b st)) ss found"
| "find_exits u ctx (SafeBlock (Block ss _) _) found = fold (find_exits u ctx) ss found"
| "find_exits u ctx (GhostBlock (Block ss _) _) found = fold (find_exits u ctx) ss found"
| "find_exits u ctx (HintBlock _ (Block ss _) _) found = fold (find_exits u ctx) ss found"
| "find_exits u ctx (ClockDomainBlock _ (Block ss _) _) found = fold (find_exits u ctx) ss found"
| "find_exits u ctx (Let _ _ _ _ _ _ _) found = found"
| "find_exits u ctx (TypeAlias _ _ _) found = found"
| "find_exits u ctx (Assign _ _ _) found = found"
| "find_exits u ctx (CompoundAssign _ _ _ _) found = found"
| "find_exits u ctx (Expr _) found = found"
| "find_exits u ctx (Break _) found = found"
| "find_exits u ctx (Match _ _ _) found = found"
| "find_exits u ctx (CompileTimeAssert _ _ _) found = found"
  by pat_completeness auto
termination
  by (relation "measure (\<lambda>(_, _, s, _). size s)") (auto dest!: size_member [where f = size])

definition exit_in :: "uniformity \<Rightarrow> stmt block \<Rightarrow> uniform \<Rightarrow> exit_found" where
  "exit_in u body ctx = fold (find_exits u ctx) (block_stmts body) None"

end
