(* ===== verification/YUniformFix.thy ===== *)
theory YUniformFix
  imports YUniform
begin

text \<open>
  The passes of the analysis end, and what they end with is the least solution of its rules.
\<close>

section \<open>The rules\<close>

definition level_of :: "uniformity \<Rightarrow> string \<Rightarrow> uniform" where
  "level_of u x = (case levels u x of Some l \<Rightarrow> l | None \<Rightarrow> UBlock)"

definition value_level :: "uniformity \<Rightarrow> expr option \<Rightarrow> uniform" where
  "value_level u e = (case e of Some v \<Rightarrow> un_of u v | None \<Rightarrow> UBlock)"

text \<open>A variable is no more uniform than what is assigned to it and than the branch it is assigned in;
  what a \<^verbatim>\<open>chisel\<close> block names is recorded.\<close>

function obeys :: "uniformity \<Rightarrow> uniform \<Rightarrow> stmt \<Rightarrow> bool" where
  "obeys u ctx (Let name _ i _ _ _ _) = (max ctx (value_level u i) \<le> level_of u name)"
| "obeys u ctx (Assign t e _) = (\<forall>x\<in>set_option (assigned_variable t). max ctx (un_of u e) \<le> level_of u x)"
| "obeys u ctx (CompoundAssign t _ e _) = (\<forall>x\<in>set_option (assigned_variable t). max ctx (un_of u e) \<le> level_of u x)"
| "obeys u ctx (If cond (Block ss _) el _ _) =
     (list_all (obeys u (max ctx (un_of u cond))) ss \<and>
      (case el of Some (Block es _) \<Rightarrow> list_all (obeys u (max ctx (un_of u cond))) es | None \<Rightarrow> True))"
| "obeys u ctx (While cond (Block ss _) _ _ _ _) = list_all (obeys u (max ctx (un_of u cond))) ss"
| "obeys u ctx (For v a b st (Block ss _) _ _ _ _ _) =
     (for_ctx u ctx a b st \<le> level_of u v \<and> list_all (obeys u (for_ctx u ctx a b st)) ss)"
| "obeys u ctx (Chisel (Block ss _) _) =
     list_all (\<lambda>s. case chisel_text s of Some text \<Rightarrow> set (chisel_registers text) \<subseteq> set (un_chisel u) | None \<Rightarrow> obeys u ctx s) ss"
| "obeys u ctx (SafeBlock (Block ss _) _) = list_all (obeys u ctx) ss"
| "obeys u ctx (GhostBlock (Block ss _) _) = list_all (obeys u ctx) ss"
| "obeys u ctx (HintBlock _ (Block ss _) _) = list_all (obeys u ctx) ss"
| "obeys u ctx (ClockDomainBlock _ (Block ss _) _) = list_all (obeys u ctx) ss"
| "obeys u ctx (Match _ _ _) = True"
| "obeys u ctx (Break _) = True"
| "obeys u ctx (Expr _) = True"
| "obeys u ctx (Return _ _) = True"
| "obeys u ctx (TypeAlias _ _ _) = True"
| "obeys u ctx (CompileTimeAssert _ _ _) = True"
  by pat_completeness auto
termination
  by (relation "measure (\<lambda>(_, _, s). size s)") (auto dest!: size_member [where f = size])

text \<open>The variables a statement assigns, and the names in its \<^verbatim>\<open>chisel\<close> blocks.\<close>

function sets :: "stmt \<Rightarrow> string list" where
  "sets (Let name _ _ _ _ _ _) = [name]"
| "sets (Assign t _ _) = (case assigned_variable t of Some x \<Rightarrow> [x] | None \<Rightarrow> [])"
| "sets (CompoundAssign t _ _ _) = (case assigned_variable t of Some x \<Rightarrow> [x] | None \<Rightarrow> [])"
| "sets (If _ (Block ss _) el _ _) = concat (map sets ss) @ (case el of Some (Block es _) \<Rightarrow> concat (map sets es) | None \<Rightarrow> [])"
| "sets (While _ (Block ss _) _ _ _ _) = concat (map sets ss)"
| "sets (For v _ _ _ (Block ss _) _ _ _ _ _) = v # concat (map sets ss)"
| "sets (Chisel (Block ss _) _) = concat (map (\<lambda>s. if chisel_text s = None then sets s else []) ss)"
| "sets (SafeBlock (Block ss _) _) = concat (map sets ss)"
| "sets (GhostBlock (Block ss _) _) = concat (map sets ss)"
| "sets (HintBlock _ (Block ss _) _) = concat (map sets ss)"
| "sets (ClockDomainBlock _ (Block ss _) _) = concat (map sets ss)"
| "sets (Match _ _ _) = []"
| "sets (Break _) = []"
| "sets (Expr _) = []"
| "sets (Return _ _) = []"
| "sets (TypeAlias _ _ _) = []"
| "sets (CompileTimeAssert _ _ _) = []"
  by pat_completeness auto
termination
  by (relation "measure size") (auto dest!: size_member [where f = size])

function chisels :: "stmt \<Rightarrow> string list" where
  "chisels (If _ (Block ss _) el _ _) = concat (map chisels ss) @ (case el of Some (Block es _) \<Rightarrow> concat (map chisels es) | None \<Rightarrow> [])"
| "chisels (While _ (Block ss _) _ _ _ _) = concat (map chisels ss)"
| "chisels (For v _ _ _ (Block ss _) _ _ _ _ _) = concat (map chisels ss)"
| "chisels (Chisel (Block ss _) _) = concat (map (\<lambda>s. case chisel_text s of Some text \<Rightarrow> chisel_registers text | None \<Rightarrow> chisels s) ss)"
| "chisels (SafeBlock (Block ss _) _) = concat (map chisels ss)"
| "chisels (GhostBlock (Block ss _) _) = concat (map chisels ss)"
| "chisels (HintBlock _ (Block ss _) _) = concat (map chisels ss)"
| "chisels (ClockDomainBlock _ (Block ss _) _) = concat (map chisels ss)"
| "chisels (Let _ _ _ _ _ _ _) = []"
| "chisels (Assign _ _ _) = []"
| "chisels (CompoundAssign _ _ _ _) = []"
| "chisels (Match _ _ _) = []"
| "chisels (Break _) = []"
| "chisels (Expr _) = []"
| "chisels (Return _ _) = []"
| "chisels (TypeAlias _ _ _) = []"
| "chisels (CompileTimeAssert _ _ _) = []"
  by pat_completeness auto
termination
  by (relation "measure size") (auto dest!: size_member [where f = size])

section \<open>Levels\<close>

lemma levels_raise: "levels (raise x l org u) = (levels u)(x \<mapsto> max l (level_of u x))"
  by (auto simp: fun_eq_iff levels_def level_of_def raise_def Let_def update_conv' max_def not_less split: option.split)

lemma chisel_raise [simp]: "un_chisel (raise x l org u) = un_chisel u"
  by (simp add: raise_def Let_def)

lemma ident_level: "fst (ident_leaf u x) = (if source_name x \<in> set (un_chisel u) then UThread else level_of u x)"
  by (auto simp: ident_leaf_def level_of_def levels_def same_def split: option.split)

lemma fst_worst [simp]: "fst (worst a b) = max (fst a) (fst b)"
  by (auto simp: worst_def max_def not_less less_le_not_le)

lemma fst_foldl_worst: "fst (foldl worst a ls) = foldl max (fst a) (map fst ls)"
  by (induction ls arbitrary: a) simp_all

lemma foldl_max_le: "foldl max a ls \<le> l \<longleftrightarrow> a \<le> l \<and> (\<forall>b\<in>set ls. b \<le> l)" for a :: "'a::linorder"
  by (induction ls arbitrary: a) auto

lemma same_level [simp]: "fst same = UBlock"
  by (simp add: same_def)

text \<open>Only levels and recorded names matter.\<close>

definition below :: "uniformity \<Rightarrow> uniformity \<Rightarrow> bool" where
  "below u v \<longleftrightarrow> (\<forall>x. level_of u x \<le> level_of v x) \<and> set (un_chisel u) \<subseteq> set (un_chisel v)"

lemma below_refl [simp]: "below u u"
  by (simp add: below_def)

lemma below_trans: "below u v \<Longrightarrow> below v w \<Longrightarrow> below u w"
  unfolding below_def by (metis order_trans subset_trans)

lemma un_of_mono: "below u v \<Longrightarrow> un_of u e \<le> un_of v e"
proof (induction e)
  case (Ident x sp)
  then show ?case by (auto simp: un_of_def ident_level below_def)
next
  case (Call f args sp)
  have "foldl max UBlock (map fst (map (un_leaf u) args)) \<le> foldl max UBlock (map fst (map (un_leaf v) args))"
  proof -
    have "\<forall>b\<in>set (map fst (map (un_leaf v) args)). b \<le> foldl max UBlock (map fst (map (un_leaf v) args))"
      using foldl_max_le [of UBlock "map fst (map (un_leaf v) args)"] by blast
    then show ?thesis using Call.IH(2) [OF _ Call.prems] by (fastforce simp: foldl_max_le un_of_def intro: order_trans)
  qed
  then show ?case by (auto simp: un_of_def Let_def fst_foldl_worst)
qed (auto simp: un_of_def max.mono le_max_iff_disj)

lemma for_ctx_mono: "below u v \<Longrightarrow> ctx \<le> ctx' \<Longrightarrow> for_ctx u ctx a b st \<le> for_ctx v ctx' a b st"
  unfolding for_ctx_def Let_def by (cases st; simp only: option.case; intro max.mono un_of_mono; assumption)

lemma value_level_mono: "below u v \<Longrightarrow> value_level u e \<le> value_level v e"
  by (auto simp: value_level_def un_of_mono split: option.split)

lemma assigned_level: "fst (assigned u e ctx why line) = max ctx (value_level u e)"
  by (cases e) (auto simp: assigned_def value_level_def un_of_def same_def max_def not_less split: prod.split)

lemma level_raise: "level_of (raise x l org u) y = (if y = x then max l (level_of u x) else level_of u y)"
  by (simp add: level_of_def levels_raise)

text \<open>A pass stays below every solution.\<close>

lemma raise_below: "below u v \<Longrightarrow> l \<le> level_of v x \<Longrightarrow> below (raise x l org u) v"
  by (auto simp: below_def level_raise)

lemma store_below:
  "below u v \<Longrightarrow> \<forall>x\<in>set_option (assigned_variable t). fst lo \<le> level_of v x \<Longrightarrow> below (pass_store t lo u) v"
  by (auto simp: pass_store_def raise_below split: option.split)

lemma fold_below:
  "(\<And>s u. s \<in> set ss \<Longrightarrow> below u v \<Longrightarrow> below (f s u) v) \<Longrightarrow> below u v \<Longrightarrow> below (fold f ss u) v"
  by (induction ss arbitrary: u) auto

lemma chisel_below: "below u v \<Longrightarrow> set ns \<subseteq> set (un_chisel v) \<Longrightarrow> below (u\<lparr>un_chisel := un_chisel u @ ns\<rparr>) v"
  by (simp add: below_def level_of_def levels_def)

lemma pass_below: "obeys v ctx' s \<Longrightarrow> ctx \<le> ctx' \<Longrightarrow> below u v \<Longrightarrow> below (pass ctx w s u) v"
proof (induction v ctx' s arbitrary: ctx w u rule: obeys.induct)
  case (1 v ctx' x t i c z b sp)
  then show ?case using value_level_mono [OF 1(3), of i]
    by (auto simp: assigned_level split_beta intro!: raise_below intro: order_trans)
next
  case (2 v ctx' t e sp)
  then show ?case using un_of_mono [OF 2(3), of e]
    by (auto simp: assigned_level value_level_def intro!: store_below intro: order_trans)
next
  case (3 v ctx' t op e sp)
  then show ?case using un_of_mono [OF 3(3), of e]
    by (auto simp: assigned_level value_level_def intro!: store_below intro: order_trans)
next
  case (4 v ctx' cond ss bs el un sp)
  let ?c = "max ctx (un_of u cond)"
  have c: "?c \<le> max ctx' (un_of v cond)" by (intro max.mono un_of_mono "4.prems")
  have ss: "below (fold (pass ?c w) ss u) v" for w
    using "4.prems"(1) by (intro fold_below "4.IH"(1) "4.prems"(3) c) (simp_all add: list_all_iff)
  show ?case
  proof (cases el)
    case None
    then show ?thesis using ss by (simp add: Let_def)
  next
    case (Some b)
    obtain es es_sp where b: "b = Block es es_sp" by (cases b)
    have "below (fold (pass ?c w) es u') v" if "below u' v" for w u'
      using "4.prems"(1) by (intro fold_below "4.IH"(2) that c) (simp_all add: list_all_iff Some b)
    then show ?thesis using ss by (simp add: Some b Let_def)
  qed
next
  case (5 v ctx' cond ss bs iv mi un sp)
  let ?c = "max ctx (un_of u cond)"
  have c: "?c \<le> max ctx' (un_of v cond)" by (intro max.mono un_of_mono "5.prems")
  have "below (fold (pass ?c w) ss u) v" for w
    using "5.prems"(1) by (intro fold_below "5.IH" "5.prems"(3) c) (simp_all add: list_all_iff)
  then show ?case by (simp add: Let_def)
next
  case (6 v ctx' x a b st ss bs iv un ti pf sp)
  let ?c = "for_ctx u ctx a b st"
  have c: "?c \<le> for_ctx v ctx' a b st" by (intro for_ctx_mono "6.prems")
  then have "?c \<le> level_of v x" using "6.prems"(1) by (auto intro: order_trans)
  then have "below (fold (pass ?c w) ss (raise x ?c org u)) v" for w org
    using "6.prems"(1) by (intro fold_below "6.IH" raise_below "6.prems"(3) c) (simp_all add: list_all_iff)
  then show ?case by (simp add: Let_def)
next
  case (7 v ctx' ss bs sp)
  have "below (case chisel_text s of Some text \<Rightarrow> u\<lparr>un_chisel := un_chisel u @ chisel_registers text\<rparr> | None \<Rightarrow> pass ctx w s u) v"
    if "s \<in> set ss" "below u v" for s u
  proof (cases "chisel_text s")
    case None
    then show ?thesis using "7.IH" [OF that(1) None] "7.prems" that by (auto simp: list_all_iff)
  next
    case (Some ns)
    have "set (chisel_registers ns) \<subseteq> set (un_chisel v)" using "7.prems"(1) that(1) Some by (force simp: list_all_iff)
    then show ?thesis using Some that(2) by (simp add: chisel_below)
  qed
  then show ?case using "7.prems"(3) by (auto intro!: fold_below)
qed (auto simp: list_all_iff intro!: fold_below)

section \<open>Passes only raise\<close>

definition grows :: "string set \<Rightarrow> string set \<Rightarrow> uniformity \<Rightarrow> uniformity \<Rightarrow> bool" where
  "grows N C u u' \<longleftrightarrow> below u u' \<and> dom (levels u') = dom (levels u) \<union> N \<and>
     set (un_chisel u') = set (un_chisel u) \<union> C \<and> (distinct (map fst (un_vars u)) \<longrightarrow> distinct (map fst (un_vars u')))"

lemma raised_refl: "grows {} {} u u"
  by (simp add: grows_def)

lemma raised_trans: "grows N C u v \<Longrightarrow> grows N' C' v w \<Longrightarrow> grows (N \<union> N') (C \<union> C') u w"
  unfolding grows_def using below_trans by blast

lemma grows_raise: "grows {x} {} u (raise x l org u)"
  by (auto simp: grows_def levels_raise below_def level_raise) (simp add: raise_def Let_def distinct_update)

lemma grows_store: "grows (set_option (assigned_variable t)) {} u (pass_store t lo u)"
  by (auto simp: pass_store_def grows_raise raised_refl split: option.split)

lemma grows_chisel: "grows {} (set ns) u (u\<lparr>un_chisel := un_chisel u @ ns\<rparr>)"
  by (auto simp: grows_def below_def level_of_def levels_def)

lemma grows_fold:
  "(\<And>s u. s \<in> set ss \<Longrightarrow> grows (N s) (C s) u (f s u)) \<Longrightarrow> grows (\<Union>s\<in>set ss. N s) (\<Union>s\<in>set ss. C s) u (fold f ss u)"
proof (induction ss arbitrary: u)
  case (Cons s ss)
  have "grows (N s \<union> (\<Union>s\<in>set ss. N s)) (C s \<union> (\<Union>s\<in>set ss. C s)) u (fold f ss (f s u))"
    by (rule raised_trans [OF Cons.prems Cons.IH]) (simp_all add: Cons.prems)
  then show ?case by simp
qed (simp add: raised_refl)

lemma grows_block:
  "(\<And>s u. s \<in> set ss \<Longrightarrow> grows (set (sets s)) (set (chisels s)) u (f s u)) \<Longrightarrow>
   grows (set (concat (map sets ss))) (set (concat (map chisels ss))) u (fold f ss u)"
  using grows_fold [of ss "\<lambda>s. set (sets s)" "\<lambda>s. set (chisels s)" f u] by simp

lemma pass_grows: "grows (set (sets s)) (set (chisels s)) u (pass ctx w s u)"
proof (induction ctx w s u rule: pass.induct)
  case (1 ctx w x t i c z b sp u)
  then show ?case by (simp add: grows_raise split_beta)
next
  case (2 ctx w t e sp u)
  then show ?case using grows_store [of t u] by (cases "assigned_variable t") auto
next
  case (3 ctx w t op e sp u)
  then show ?case using grows_store [of t u] by (cases "assigned_variable t") auto
next
  case (4 ctx w cond ss bs el un sp u)
  show ?case
  proof (cases el)
    case None
    then show ?thesis using "4.IH"(1) by (auto simp: Let_def intro!: grows_block [simplified])
  next
    case (Some b)
    obtain es es_sp where b: "b = Block es es_sp" by (cases b)
    show ?thesis unfolding pass.simps Some b Let_def option.case block.case sets.simps chisels.simps set_append
      by (intro raised_trans [OF grows_block grows_block] "4.IH") (simp_all add: Some b)
  qed
next
  case (5 ctx w cond ss bs iv mi un sp u)
  then show ?case by (auto simp: Let_def intro!: grows_block [simplified])
next
  case (6 ctx w x a b st ss bs iv un ti pf sp u)
  let ?r = "raise x (for_ctx u ctx a b st) (if for_ctx u ctx a b st > ctx then CounterDiffers (sp_line sp) else CounterOf (sp_line sp) w) u"
  have "grows (set (concat (map sets ss))) (set (concat (map chisels ss))) ?r (fold (pass (for_ctx u ctx a b st) w') ss ?r)"
    if "w' = (if for_ctx u ctx a b st > ctx then InTheFor (sp_line sp) else w)" for w'
    using 6 that by (intro grows_block) auto
  from raised_trans [OF grows_raise this [OF refl]] show ?case by (simp add: Let_def)
next
  case (7 ctx w ss bs sp u)
  let ?N = "\<lambda>s. set (if chisel_text s = None then sets s else [])"
    and ?C = "\<lambda>s. set (case chisel_text s of Some ns \<Rightarrow> chisel_registers ns | None \<Rightarrow> chisels s)"
  have one: "grows (?N s) (?C s) u (case chisel_text s of Some ns \<Rightarrow> u\<lparr>un_chisel := un_chisel u @ chisel_registers ns\<rparr> | None \<Rightarrow> pass ctx w s u)"
    if "s \<in> set ss" for s u
    using 7 [OF that] grows_chisel by (cases "chisel_text s") auto
  have n: "set (sets (Chisel (Block ss bs) sp)) = (\<Union>s\<in>set ss. ?N s)" "set (chisels (Chisel (Block ss bs) sp)) = (\<Union>s\<in>set ss. ?C s)"
    by auto
  show ?case unfolding n pass.simps by (rule grows_fold) (rule one)
qed (auto simp: raised_refl intro!: grows_block [simplified])

text \<open>A pass that changes nothing has checked every rule.\<close>

definition alike :: "uniformity \<Rightarrow> uniformity \<Rightarrow> bool" where
  "alike u v \<longleftrightarrow> below u v \<and> below v u"

lemma alike_un_of: "alike u v \<Longrightarrow> un_of u e = un_of v e"
  by (auto simp: alike_def intro: antisym un_of_mono)

lemma alike_level: "alike u v \<Longrightarrow> level_of u x = level_of v x"
  by (auto simp: alike_def below_def intro: antisym)

lemma alike_chisel: "alike u v \<Longrightarrow> set (un_chisel u) = set (un_chisel v)"
  by (auto simp: alike_def below_def)

lemma alike_between: "below u v \<Longrightarrow> below v w \<Longrightarrow> alike u w \<Longrightarrow> alike u v \<and> alike v w"
  unfolding alike_def using below_trans by blast

lemma alike_for_ctx: "alike u v \<Longrightarrow> for_ctx u ctx a b st = for_ctx v ctx a b st"
  by (auto simp: alike_def intro: antisym for_ctx_mono)

lemma alike_value: "alike u v \<Longrightarrow> value_level u e = value_level v e"
  by (auto simp: alike_def intro: antisym value_level_mono)

lemma alike_obeys: "alike u v \<Longrightarrow> obeys u ctx s \<Longrightarrow> obeys v ctx s"
proof (induction u ctx s rule: obeys.induct)
  case (7 u ctx ss bs sp)
  have "case chisel_text s of None \<Rightarrow> obeys v ctx s | Some ns \<Rightarrow> set (chisel_registers ns) \<subseteq> set (un_chisel v)" if "s \<in> set ss" for s
    using 7 that by (cases "chisel_text s") (force simp: list_all_iff alike_chisel [OF "7.prems"(1)])+
  then show ?case by (simp add: list_all_iff)
next
  case (4 u ctx cond ss bs el un sp)
  then show ?case by (auto simp: list_all_iff alike_un_of [OF "4.prems"(1)] split: option.splits block.splits)
qed (auto simp: list_all_iff alike_un_of alike_level alike_for_ctx alike_value)

lemma fold_up: "(\<And>s u. s \<in> set ss \<Longrightarrow> below u (f s u)) \<Longrightarrow> below u (fold f ss u)"
proof (induction ss arbitrary: u)
  case (Cons s ss)
  then show ?case using below_trans [of u "f s u" "fold f ss (f s u)"] by simp
qed simp

lemma fold_alike:
  "(\<And>s u. s \<in> set ss \<Longrightarrow> below u (f s u)) \<Longrightarrow> alike u (fold f ss u) \<Longrightarrow>
   (\<And>s v. s \<in> set ss \<Longrightarrow> alike u v \<Longrightarrow> alike v (f s v) \<Longrightarrow> P s) \<Longrightarrow> \<forall>s\<in>set ss. P s"
proof (induction ss arbitrary: u)
  case (Cons s ss)
  have up: "below v (fold f ss v)" for v
    using fold_up [of ss f v] Cons.prems(1) by simp
  have a: "alike u (f s u)" "alike (f s u) (fold f ss (f s u))"
    using alike_between [of u "f s u" "fold f ss (f s u)"] Cons.prems(1,2) up by simp_all
  have "alike u u" by (simp add: alike_def)
  then have "P s" using Cons.prems(3) a(1) by simp
  moreover have "\<forall>s\<in>set ss. P s"
  proof (rule Cons.IH [of "f s u"])
    show "alike (f s u) (fold f ss (f s u))" by (rule a)
    show "P t" if "t \<in> set ss" "alike (f s u) v" "alike v (f t v)" for t v
      using Cons.prems(3) [of t v] that a(1) below_trans by (simp add: alike_def) blast
  qed (use Cons.prems(1) in simp)
  ultimately show ?case by simp
qed simp

lemma pass_up: "below u (pass ctx w s u)"
  using pass_grows by (simp add: grows_def)

lemma raise_alike: "alike u (raise x l org u) \<Longrightarrow> l \<le> level_of u x"
  using alike_level [of u "raise x l org u" x] by (simp add: level_raise max_def split: if_splits)

lemma store_alike: "alike u (pass_store t lo u) \<Longrightarrow> \<forall>x\<in>set_option (assigned_variable t). fst lo \<le> level_of u x"
  by (auto simp: pass_store_def raise_alike split: option.splits)

lemma stmts_alike:
  assumes "alike u (fold (pass ctx w) ss u)" "\<And>s v. s \<in> set ss \<Longrightarrow> alike v (pass ctx w s v) \<Longrightarrow> obeys v ctx s"
  shows "list_all (obeys u ctx) ss"
proof -
  have "\<forall>s\<in>set ss. obeys u ctx s"
  proof (rule fold_alike [OF pass_up assms(1)])
    show "obeys u ctx s" if "s \<in> set ss" "alike u v" "alike v (pass ctx w s v)" for s v
      using assms(2) [OF that(1,3)] alike_obeys that(2) by (auto simp: alike_def)
  qed
  then show ?thesis by (simp add: list_all_iff)
qed

lemma pass_fold_up: "below u (fold (pass ctx w) ss u)"
  by (rule fold_up [OF pass_up])

lemma pass_obeys: "alike u (pass ctx w s u) \<Longrightarrow> obeys u ctx s"
proof (induction ctx w s u rule: pass.induct)
  case (1 ctx w x t i c z b sp u)
  then show ?case using raise_alike [of u x "fst (assigned u i ctx w (sp_line sp))"] by (simp add: split_beta assigned_level)
next
  case (2 ctx w t e sp u)
  then show ?case using store_alike [of u t "assigned u (Some e) ctx w (sp_line sp)"] by (simp add: assigned_level value_level_def)
next
  case (3 ctx w t op e sp u)
  then show ?case using store_alike [of u t "assigned u (Some e) ctx w (sp_line sp)"] by (simp add: assigned_level value_level_def)
next
  case (4 ctx w cond ss bs el un sp u)
  let ?c = "max ctx (un_of u cond)" and ?w = "if max ctx (un_of u cond) > ctx then InsideIf (sp_line sp) else w"
  have ss: "list_all (obeys u ?c) ss" if "alike u (fold (pass ?c ?w) ss u)"
    by (rule stmts_alike [OF that "4.IH"(1)]) simp_all
  show ?case
  proof (cases el)
    case None
    then show ?thesis using "4.prems" ss by (simp add: Let_def)
  next
    case (Some b)
    obtain es es_sp where b: "b = Block es es_sp" by (cases b)
    let ?u = "fold (pass ?c ?w) ss u"
    have "alike u (fold (pass ?c ?w) es ?u)" using "4.prems" by (simp add: Let_def Some b)
    then have al: "alike u ?u" "alike ?u (fold (pass ?c ?w) es ?u)"
      using alike_between [OF pass_fold_up pass_fold_up] by blast+
    have "list_all (obeys ?u ?c) es"
      by (rule stmts_alike [OF al(2) "4.IH"(2)]) (simp_all add: Some b)
    then have "list_all (obeys u ?c) es" using alike_obeys al(1) by (auto simp: list_all_iff alike_def)
    then show ?thesis using ss al(1) by (simp add: Some b)
  qed
next
  case (5 ctx w cond ss bs iv mi un sp u)
  let ?c = "max ctx (un_of u cond)" and ?w = "if max ctx (un_of u cond) > ctx then InsideWhile (sp_line sp) else w"
  have "alike u (fold (pass ?c ?w) ss u)" using "5.prems" by (simp add: Let_def)
  then have "list_all (obeys u ?c) ss" by (rule stmts_alike [OF _ "5.IH"]) simp_all
  then show ?case by simp
next
  case (6 ctx w x a b st ss bs iv un ti pf sp u)
  let ?c = "for_ctx u ctx a b st" and ?w = "if for_ctx u ctx a b st > ctx then InTheFor (sp_line sp) else w"
  let ?h = "if for_ctx u ctx a b st > ctx then CounterDiffers (sp_line sp) else CounterOf (sp_line sp) w"
  let ?u = "raise x ?c ?h u"
  have "alike u (fold (pass ?c ?w) ss ?u)" using "6.prems" by (simp add: Let_def)
  then have al: "alike u ?u" "alike ?u (fold (pass ?c ?w) ss ?u)"
    using alike_between [OF _ pass_fold_up] grows_raise unfolding grows_def by blast+
  have "list_all (obeys ?u ?c) ss"
    by (rule stmts_alike [OF al(2) "6.IH"]) simp_all
  then have "list_all (obeys u ?c) ss" using alike_obeys al(1) by (auto simp: list_all_iff alike_def)
  then show ?case using raise_alike [OF al(1)] by simp
next
  case (7 ctx w ss bs sp u)
  let ?f = "\<lambda>s u. case chisel_text s of Some ns \<Rightarrow> u\<lparr>un_chisel := un_chisel u @ chisel_registers ns\<rparr> | None \<Rightarrow> pass ctx w s u"
  have "\<forall>s\<in>set ss. case chisel_text s of Some ns \<Rightarrow> set (chisel_registers ns) \<subseteq> set (un_chisel u) | None \<Rightarrow> obeys u ctx s"
  proof (rule fold_alike [of ss ?f u])
    show "below u (?f s u)" if "s \<in> set ss" for s u
      using pass_up grows_chisel by (auto simp: grows_def split: option.split)
    show "alike u (fold ?f ss u)" using "7.prems" by simp
    fix s v assume s: "s \<in> set ss" "alike u v" "alike v (?f s v)"
    show "case chisel_text s of Some ns \<Rightarrow> set (chisel_registers ns) \<subseteq> set (un_chisel u) | None \<Rightarrow> obeys u ctx s"
    proof (cases "chisel_text s")
      case None
      then show ?thesis using "7.IH" [OF s(1) None, of v] s(2,3) alike_obeys by (auto simp: alike_def)
    next
      case (Some ns)
      then have "set (chisel_registers ns) \<subseteq> set (un_chisel v)" using alike_chisel [OF s(3)] by auto
      then show ?thesis using alike_chisel [OF s(2)] Some by simp
    qed
  qed
  then show ?case by (simp add: list_all_iff)
qed (auto intro!: stmts_alike)

section \<open>The passes end\<close>

definition is_solution :: "stmt list \<Rightarrow> uniformity \<Rightarrow> bool" where
  "is_solution ss u \<longleftrightarrow> list_all (obeys u UBlock) ss"

lemma pass_body_grows: "grows (set (concat (map sets ss))) (set (concat (map chisels ss))) u (pass_body ss u)"
  unfolding pass_body_def by (intro grows_block pass_grows)

lemma pass_body_solution: "alike u (pass_body ss u) \<Longrightarrow> is_solution ss u"
  unfolding is_solution_def pass_body_def by (rule stmts_alike [OF _ pass_obeys])

lemma pass_body_below: "is_solution ss v \<Longrightarrow> below u v \<Longrightarrow> below (pass_body ss u) v"
  unfolding is_solution_def pass_body_def by (rule fold_below) (auto simp: list_all_iff intro: pass_below)

text \<open>What can still be raised.\<close>

definition slack :: "string list \<Rightarrow> uniformity \<Rightarrow> nat" where
  "slack ns u = (\<Sum>x\<in>set ns. case levels u x of None \<Rightarrow> 3 | Some l \<Rightarrow> 2 - tier l)"

lemma dom_levels: "dom (levels u) = set (map fst (un_vars u))"
proof -
  have "dom (levels u) = dom (map_of (un_vars u))" by (auto simp: levels_def)
  then show ?thesis by (simp add: dom_map_of_conv_image_fst)
qed

lemma level_le_tier: "a \<le> b \<longleftrightarrow> tier a \<le> tier b" for a b :: uniform
  by (simp add: less_eq_uniform_def)

lemma unchanged_levels:
  assumes "distinct (map fst (un_vars u))" "distinct (map fst (un_vars u'))" "dom (levels u) \<subseteq> dom (levels u')"
  shows "unchanged u u' \<longleftrightarrow> levels u = levels u'"
proof -
  have len: "length (un_vars v) = card (dom (levels v))" if "distinct (map fst (un_vars v))" for v
    using distinct_card [OF that] by (simp add: dom_levels)
  have all: "list_all (\<lambda>(x, l, _). levels u' x = Some l) (un_vars u) \<longleftrightarrow> (\<forall>x l. levels u x = Some l \<longrightarrow> levels u' x = Some l)"
  proof -
    have "(x, l, org) \<in> set (un_vars u) \<longleftrightarrow> map_of (un_vars u) x = Some (l, org)" for x l org using assms(1) by simp
    then show ?thesis unfolding list_all_iff levels_def by (fastforce split: prod.splits)
  qed
  show ?thesis
  proof
    assume un: "unchanged u u'"
    then have "card (dom (levels u)) = card (dom (levels u'))" using len assms(1,2) by (simp add: unchanged_def)
    then have d: "dom (levels u) = dom (levels u')" using assms(3) by (intro card_subset_eq) (simp_all add: dom_levels)
    show "levels u = levels u'"
    proof (rule ext)
      fix x show "levels u x = levels u' x"
      proof (cases "levels u x")
        case None
        then have "x \<notin> dom (levels u')" using d by blast
        then show ?thesis using None by (metis domIff)
      next
        case (Some l)
        then show ?thesis using un all by (simp add: unchanged_def)
      qed
    qed
  next
    assume "levels u = levels u'"
    then show "unchanged u u'" using len assms(1,2) all by (simp add: unchanged_def)
  qed
qed

lemma slack_less:
  assumes up: "below u u'" "dom (levels u) \<subseteq> dom (levels u')" and ne: "levels u \<noteq> levels u'" "dom (levels u') \<subseteq> set ns"
  shows "slack ns u' < slack ns u"
  unfolding slack_def
proof (rule sum_strict_mono_ex1)
  let ?t = "\<lambda>u x. case levels u x of None \<Rightarrow> 3 | Some l \<Rightarrow> 2 - tier l"
  have le: "tier l \<le> tier l'" if "levels u x = Some l" "levels u' x = Some l'" for x l l'
    using up(1) that by (auto simp: below_def level_of_def level_le_tier dest!: spec [of _ x])
  have some: "\<exists>l'. levels u' x = Some l'" if "levels u x = Some l" for x l using up(2) that by blast
  show "\<forall>x\<in>set ns. ?t u' x \<le> ?t u x"
    using le some by (fastforce split: option.split intro: diff_le_mono2)
  obtain x where x: "levels u x \<noteq> levels u' x" using ne(1) by (auto simp: fun_eq_iff)
  obtain l' where l': "levels u' x = Some l'" using x some by (metis not_None_eq)
  have "?t u' x < ?t u x"
  proof (cases "levels u x")
    case None
    then show ?thesis using l' by simp
  next
    case (Some l)
    then have "tier l < tier l'" using le [OF Some l'] x l' tier_inj by (metis le_neq_implies_less)
    then show ?thesis using Some l' tier_le [of l'] by simp
  qed
  moreover have "x \<in> set ns" using l' ne(2) by blast
  ultimately show "\<exists>x\<in>set ns. ?t u' x < ?t u x" by blast
qed simp

theorem settle_least:
  assumes "distinct (map fst (un_vars u))" "dom (levels u) \<subseteq> set (concat (map sets ss))"
    and "set (un_chisel u) \<subseteq> set (concat (map chisels ss))" "set (concat (map chisels ss)) \<subseteq> set (un_chisel u) \<or> levels u = Map.empty"
  shows "\<exists>u'. settle ss u = Some u' \<and> is_solution ss u' \<and> (\<forall>v. is_solution ss v \<longrightarrow> below u v \<longrightarrow> below u' v)"
  using assms
proof (induction "slack (concat (map sets ss)) u" arbitrary: u rule: less_induct)
  case less
  let ?N = "concat (map sets ss)" and ?C = "concat (map chisels ss)" and ?u = "pass_body ss u"
  note g = pass_body_grows [of ss u, unfolded grows_def]
  have d: "distinct (map fst (un_vars ?u))" "dom (levels ?u) = set ?N" "set (un_chisel ?u) = set ?C" "below u ?u"
    using g less.prems by auto
  have un: "unchanged u ?u \<longleftrightarrow> levels u = levels ?u" using d(2) less.prems by (intro unchanged_levels d) auto
  have least: "below ?u v" if "is_solution ss v" "below u v" for v using pass_body_below that by blast
  show ?case
  proof (cases "levels u = levels ?u")
    case True
    have "is_solution ss ?u"
    proof (cases "set ?C \<subseteq> set (un_chisel u)")
      case C: True
      then have al: "alike u ?u" using d True less.prems(3) by (auto simp: alike_def below_def level_of_def)
      then have "is_solution ss u" by (rule pass_body_solution)
      then show ?thesis using alike_obeys [OF al] by (auto simp: is_solution_def list_all_iff)
    next
      case False
      then have "set ?N = {}" using less.prems(4) True d(2) by (metis dom_empty)
      then have "dom (levels (pass_body ss ?u)) = {}" "dom (levels ?u) = {}" "set (un_chisel (pass_body ss ?u)) = set (un_chisel ?u)"
        using pass_body_grows [of ss ?u] d by (auto simp: grows_def)
      then have "alike ?u (pass_body ss ?u)" by (simp add: alike_def below_def level_of_def)
      then show ?thesis by (rule pass_body_solution)
    qed
    moreover have "settle ss u = Some ?u" using un True by (subst settle.simps) (simp add: Let_def)
    ultimately show ?thesis using least by blast
  next
    case False
    have "settle ss u = settle ss ?u" using un False by (subst settle.simps) (simp add: Let_def)
    moreover have "\<exists>u'. settle ss ?u = Some u' \<and> is_solution ss u' \<and> (\<forall>v. is_solution ss v \<longrightarrow> below ?u v \<longrightarrow> below u' v)"
      using d less.prems False by (intro less.hyps slack_less) auto
    ultimately show ?thesis using least by metis
  qed
qed

lemma of_body_least:
  "\<exists>u. of_body body = Some u \<and> is_solution (block_stmts body) u \<and> (\<forall>v. is_solution (block_stmts body) v \<longrightarrow> below u v)"
proof -
  have "below un_empty v" for v by (simp add: below_def un_empty_def level_of_def levels_def)
  moreover have "levels un_empty = Map.empty" by (simp add: un_empty_def levels_def fun_eq_iff)
  ultimately show ?thesis using settle_least [of un_empty "block_stmts body"] by (simp add: of_body_def) (auto simp: un_empty_def)
qed

end
