(* ===== verification/YUniformRun.thy ===== *)
theory YUniformRun
  imports YUniformFix
begin

text \<open>
  Kernels as the threads of a block run them, and the soundness of the analysis: threads agree on what
  it calls the same.
\<close>

section \<open>The device\<close>

text \<open>
  What an operator, a literal, a block built-in and a pure built-in give depends on their operands
  alone. A warp reduction gives every lane of a warp the same result, the value \<open>dv_warp\<close> has for the
  warp, the point of the execution and the expression. Everything else, reads of memory included, may
  differ between threads. A thread is a warp and a lane of it. A point of the execution is a path,
  which grows at every statement and iteration.
\<close>

record 'v device =
  dv_lit :: "expr \<Rightarrow> 'v"
  dv_binary :: "binary_op \<Rightarrow> 'v \<Rightarrow> 'v \<Rightarrow> 'v"
  dv_unary :: "unary_op \<Rightarrow> 'v \<Rightarrow> 'v"
  dv_lane :: "string \<Rightarrow> 'v \<Rightarrow> 'v"
  dv_put :: "expr \<Rightarrow> 'v \<Rightarrow> 'v \<Rightarrow> 'v"
  dv_pure :: "string \<Rightarrow> 'v list \<Rightarrow> 'v"
  dv_block :: "string \<Rightarrow> 'v"
  dv_warp :: "nat \<Rightarrow> nat list \<Rightarrow> expr \<Rightarrow> 'v"
  dv_read :: "nat \<times> nat \<Rightarrow> nat list \<Rightarrow> expr \<Rightarrow> 'v"
  dv_chisel :: "nat \<times> nat \<Rightarrow> nat list \<Rightarrow> string \<Rightarrow> 'v"
  dv_leaves :: "nat \<times> nat \<Rightarrow> nat list \<Rightarrow> bool"
  dv_true :: "'v \<Rightarrow> bool"

type_synonym 'v regs = "string \<Rightarrow> 'v"

fun eval_on :: "'v device \<Rightarrow> nat \<times> nat \<Rightarrow> nat list \<Rightarrow> 'v regs \<Rightarrow> expr \<Rightarrow> 'v" where
  "eval_on d t p r (IntLit n s) = dv_lit d (IntLit n s)"
| "eval_on d t p r (FloatLit w s) = dv_lit d (FloatLit w s)"
| "eval_on d t p r (BoolLit b s) = dv_lit d (BoolLit b s)"
| "eval_on d t p r (Path m n s) = dv_lit d (Path m n s)"
| "eval_on d t p r (Ident x _) = r x"
| "eval_on d t p r (BinaryOp a op b _) = dv_binary d op (eval_on d t p r a) (eval_on d t p r b)"
| "eval_on d t p r (UnaryOp op a _) = dv_unary d op (eval_on d t p r a)"
| "eval_on d t p r (MemberAccess a m _) = dv_lane d m (eval_on d t p r a)"
| "eval_on d t p r (Call f args s) =
     (let name = (case f of Ident n _ \<Rightarrow> n | _ \<Rightarrow> '''')
      in if name \<in> set block_builtins then dv_block d name
         else if name \<in> set warp_reductions then dv_warp d (fst t) p (Call f args s)
         else if name \<in> set pure_builtins then dv_pure d name (map (eval_on d t p r) args)
         else dv_read d t p (Call f args s))"
| "eval_on d t p r e = dv_read d t p e"

text \<open>A \<^verbatim>\<open>chisel\<close> text may write anything to the registers it names, and one with a branch or a return
  may end a thread.\<close>

definition chisel_write :: "'v device \<Rightarrow> nat \<times> nat \<Rightarrow> nat list \<Rightarrow> string \<Rightarrow> 'v regs \<Rightarrow> 'v regs" where
  "chisel_write d t p text r = (\<lambda>x. if source_name x \<in> set (chisel_registers text) then dv_chisel d t p x else r x)"

definition store_in :: "'v device \<Rightarrow> expr \<Rightarrow> 'v \<Rightarrow> 'v regs \<Rightarrow> 'v regs" where
  "store_in d target v r =
     (case assigned_variable target of None \<Rightarrow> r | Some x \<Rightarrow> r(x := if is_name target then v else dv_put d target (r x) v))"

datatype ending = Ran | Left

text \<open>
  A body whose bindings have names of their own has one register per name. \<^verbatim>\<open>for\<close> reads its bounds and
  its step once. There is no rule for \<^verbatim>\<open>match\<close> and \<^verbatim>\<open>break\<close>, which the backend refuses, and a \<^verbatim>\<open>let\<close>
  without a value writes nothing.
\<close>

inductive exec :: "'v device \<Rightarrow> nat \<times> nat \<Rightarrow> nat list \<Rightarrow> stmt \<Rightarrow> 'v regs \<Rightarrow> ending \<Rightarrow> 'v regs \<Rightarrow> bool"
  and execs :: "'v device \<Rightarrow> nat \<times> nat \<Rightarrow> nat list \<Rightarrow> stmt list \<Rightarrow> 'v regs \<Rightarrow> ending \<Rightarrow> 'v regs \<Rightarrow> bool"
  and exec_for :: "'v device \<Rightarrow> nat \<times> nat \<Rightarrow> nat list \<Rightarrow> string \<Rightarrow> 'v \<Rightarrow> 'v \<Rightarrow> stmt list \<Rightarrow> 'v regs \<Rightarrow> ending \<Rightarrow> 'v regs \<Rightarrow> bool"
  and exec_chisel :: "'v device \<Rightarrow> nat \<times> nat \<Rightarrow> nat list \<Rightarrow> stmt list \<Rightarrow> 'v regs \<Rightarrow> ending \<Rightarrow> 'v regs \<Rightarrow> bool"
  for d :: "'v device" and t :: "nat \<times> nat" where
  ex_let: "exec d t p (Let x ty (Some e) c z b s) r Ran (r(x := eval_on d t p r e))"
| ex_let_none: "exec d t p (Let x ty None c z b s) r Ran r"
| ex_assign: "exec d t p (Assign tg e s) r Ran (store_in d tg (eval_on d t p r e) r)"
| ex_compound: "exec d t p (CompoundAssign tg op e s) r Ran
     (store_in d tg (dv_binary d op (eval_on d t p r tg) (eval_on d t p r e)) r)"
| ex_expr: "exec d t p (Expr e) r Ran r"
| ex_alias: "exec d t p (TypeAlias x ty s) r Ran r"
| ex_assert: "exec d t p (CompileTimeAssert e m s) r Ran r"
| ex_return: "exec d t p (Return e s) r Left r"
| ex_then: "dv_true d (eval_on d t p r c) \<Longrightarrow> execs d t (2 # p) ss r out r' \<Longrightarrow> exec d t p (If c (Block ss bs) el un s) r out r'"
| ex_else: "\<not> dv_true d (eval_on d t p r c) \<Longrightarrow> execs d t (3 # p) es r out r' \<Longrightarrow>
     exec d t p (If c b (Some (Block es bs)) un s) r out r'"
| ex_skip: "\<not> dv_true d (eval_on d t p r c) \<Longrightarrow> exec d t p (If c b None un s) r Ran r"
| ex_while_end: "\<not> dv_true d (eval_on d t p r c) \<Longrightarrow> exec d t p (While c b iv mi un s) r Ran r"
| ex_while_step: "dv_true d (eval_on d t p r c) \<Longrightarrow> execs d t (2 # p) ss r Ran r1 \<Longrightarrow>
     exec d t (4 # p) (While c (Block ss bs) iv mi un s) r1 out r2 \<Longrightarrow> exec d t p (While c (Block ss bs) iv mi un s) r out r2"
| ex_while_left: "dv_true d (eval_on d t p r c) \<Longrightarrow> execs d t (2 # p) ss r Left r1 \<Longrightarrow> exec d t p (While c (Block ss bs) iv mi un s) r Left r1"
| ex_for: "step = (case st of Some e \<Rightarrow> eval_on d t p r e | None \<Rightarrow> dv_lit d (IntLit 1 s)) \<Longrightarrow>
     exec_for d t (5 # p) x (eval_on d t p r b) step ss (r(x := eval_on d t p r a)) out r' \<Longrightarrow>
     exec d t p (For x a b st (Block ss bs) iv un ti pf s) r out r'"
| ex_for_end: "dv_true d (dv_binary d Ge (r x) to) \<Longrightarrow> exec_for d t p x to step ss r Ran r"
| ex_for_step: "\<not> dv_true d (dv_binary d Ge (r x) to) \<Longrightarrow> execs d t (2 # p) ss r Ran r1 \<Longrightarrow>
     exec_for d t (4 # p) x to step ss (r1(x := dv_binary d Add (r1 x) step)) out r2 \<Longrightarrow> exec_for d t p x to step ss r out r2"
| ex_for_left: "\<not> dv_true d (dv_binary d Ge (r x) to) \<Longrightarrow> execs d t (2 # p) ss r Left r1 \<Longrightarrow> exec_for d t p x to step ss r Left r1"
| ex_chisel: "\<not> (chisel_transfers_control ss \<and> dv_leaves d t p) \<Longrightarrow> exec_chisel d t (2 # p) ss r out r' \<Longrightarrow> exec d t p (Chisel (Block ss bs) s) r out r'"
| ex_chisel_left: "chisel_transfers_control ss \<and> dv_leaves d t p \<Longrightarrow> exec d t p (Chisel (Block ss bs) s) r Left r"
| ex_safe: "execs d t (2 # p) ss r out r' \<Longrightarrow> exec d t p (SafeBlock (Block ss bs) s) r out r'"
| ex_ghost: "execs d t (2 # p) ss r out r' \<Longrightarrow> exec d t p (GhostBlock (Block ss bs) s) r out r'"
| ex_hint: "execs d t (2 # p) ss r out r' \<Longrightarrow> exec d t p (HintBlock os (Block ss bs) s) r out r'"
| ex_clock: "execs d t (2 # p) ss r out r' \<Longrightarrow> exec d t p (ClockDomainBlock e (Block ss bs) s) r out r'"
| ex_nil: "execs d t p [] r Ran r"
| ex_cons: "exec d t (0 # p) x r Ran r1 \<Longrightarrow> execs d t (1 # p) xs r1 out r2 \<Longrightarrow> execs d t p (x # xs) r out r2"
| ex_cons_left: "exec d t (0 # p) x r Left r1 \<Longrightarrow> execs d t p (x # xs) r Left r1"
| ex_ch_nil: "exec_chisel d t p [] r Ran r"
| ex_ch_text: "chisel_text x = Some text \<Longrightarrow> exec_chisel d t (1 # p) xs (chisel_write d t (0 # p) text r) out r2 \<Longrightarrow>
     exec_chisel d t p (x # xs) r out r2"
| ex_ch_stmt: "chisel_text x = None \<Longrightarrow> exec d t (0 # p) x r Ran r1 \<Longrightarrow> exec_chisel d t (1 # p) xs r1 out r2 \<Longrightarrow>
     exec_chisel d t p (x # xs) r out r2"
| ex_ch_left: "chisel_text x = None \<Longrightarrow> exec d t (0 # p) x r Left r1 \<Longrightarrow> exec_chisel d t p (x # xs) r Left r1"

inductive_cases let_run [elim!]: "exec d t p (Let x ty i c z b s) r out r'"
inductive_cases assign_run [elim!]: "exec d t p (Assign tg e s) r out r'" "exec d t p (CompoundAssign tg op e s) r out r'"
inductive_cases plain_run [elim!]: "exec d t p (Expr e) r out r'" "exec d t p (TypeAlias x ty s) r out r'"
  "exec d t p (CompileTimeAssert e m s) r out r'" "exec d t p (Return e s) r out r'" "execs d t p [] r out r'" "exec_chisel d t p [] r out r'"
inductive_cases if_run: "exec d t p (If c b el un s) r out r'"
inductive_cases while_run: "exec d t p (While c b iv mi un s) r out r'"
inductive_cases for_run: "exec d t p (For x a b st body iv un ti pf s) r out r'"
inductive_cases for_iter: "exec_for d t p x to step ss r out r'"
inductive_cases chisel_run: "exec d t p (Chisel b s) r out r'"
inductive_cases block_run [elim!]: "exec d t p (SafeBlock b s) r out r'" "exec d t p (GhostBlock b s) r out r'"
  "exec d t p (HintBlock os b s) r out r'" "exec d t p (ClockDomainBlock e b s) r out r'"
inductive_cases cons_run: "execs d t p (x # xs) r out r'"
inductive_cases chisel_cons_run: "exec_chisel d t p (x # xs) r out r'"

end
