(* ===== verification/YUniformSound.thy ===== *)
theory YUniformSound
  imports YUniformRun
begin

text \<open>
  Noninterference between threads: by induction on the execution of one thread, against any execution
  of another one.
\<close>

section \<open>Agreement\<close>

definition agree :: "uniformity \<Rightarrow> uniform \<Rightarrow> 'v regs \<Rightarrow> 'v regs \<Rightarrow> bool" where
  "agree u l r1 r2 \<longleftrightarrow> (\<forall>x. fst (ident_leaf u x) \<le> l \<longrightarrow> r1 x = r2 x)"

text \<open>The threads a level is about: the block, a warp, a thread.\<close>

definition together :: "uniform \<Rightarrow> nat \<times> nat \<Rightarrow> nat \<times> nat \<Rightarrow> bool" where
  "together l t1 t2 \<longleftrightarrow> (l = UWarp \<longrightarrow> fst t1 = fst t2) \<and> (l = UThread \<longrightarrow> t1 = t2)"

lemma regs_refl [simp]: "agree u l r r"
  by (simp add: agree_def)

lemma regs_sym: "agree u l r1 r2 \<Longrightarrow> agree u l r2 r1"
  by (simp add: agree_def)

lemma regs_trans: "agree u l r1 r2 \<Longrightarrow> agree u l r2 r3 \<Longrightarrow> agree u l r1 r3"
  by (simp add: agree_def)

lemma level_le_ident: "level_of u x \<le> fst (ident_leaf u x)"
  by (simp add: ident_level)

lemma together_cases: "UWarp \<le> l \<Longrightarrow> together l t1 t2 \<Longrightarrow> fst t1 = fst t2" "UThread \<le> l \<Longrightarrow> together l t1 t2 \<Longrightarrow> t1 = t2"
  by (cases l; simp add: together_def)+

lemma eval_agree:
  "un_of u e \<le> l \<Longrightarrow> agree u l r1 r2 \<Longrightarrow> together l t1 t2 \<Longrightarrow> eval_on d t1 p r1 e = eval_on d t2 p r2 e"
proof (induction e)
  case (Ident x s)
  then show ?case by (simp add: un_of_def agree_def)
next
  case (Call f args s)
  define name where "name = (case f of Ident n _ \<Rightarrow> n | _ \<Rightarrow> '''')"
  have un: "un_of u (Call f args s) =
      (if name \<in> set block_builtins then UBlock else if name \<in> set warp_reductions then UWarp
       else if name \<in> set pure_builtins then foldl max UBlock (map (un_of u) args) else UThread)"
    by (simp add: un_of_def [abs_def] name_def [symmetric] Let_def fst_foldl_worst comp_def)
  have ev: "eval_on d t p r (Call f args s) =
      (if name \<in> set block_builtins then dv_block d name else if name \<in> set warp_reductions then dv_warp d (fst t) p (Call f args s)
       else if name \<in> set pure_builtins then dv_pure d name (map (eval_on d t p r) args) else dv_read d t p (Call f args s))" for t r
    by (simp add: name_def [symmetric] Let_def)
  have args: "map (eval_on d t1 p r1) args = map (eval_on d t2 p r2) args"
    if "name \<in> set pure_builtins" "name \<notin> set block_builtins" "name \<notin> set warp_reductions"
    using Call.IH(2) Call.prems that by (auto simp: un foldl_max_le)
  have pure: "dv_pure d name (map (eval_on d t1 p r1) args) = dv_pure d name (map (eval_on d t2 p r2) args)"
    if "name \<in> set pure_builtins" "name \<notin> set block_builtins" "name \<notin> set warp_reductions" by (simp only: args [OF that])
  show ?case unfolding ev using Call.prems pure together_cases [of l t1 t2] by (auto simp: un split: if_splits)
qed (auto simp: un_of_def dest: together_cases(2))

lemma agree_low: "agree u l r1 r2 \<Longrightarrow> (fst (ident_leaf u x) \<le> l \<Longrightarrow> v1 = v2) \<Longrightarrow> agree u l (r1(x := v1)) (r2(x := v2))"
  by (simp add: agree_def)

lemma agree_high: "\<not> level_of u x \<le> l \<Longrightarrow> agree u l r (r(x := v))"
  using level_le_ident order_trans by (fastforce simp: agree_def)

lemma store_high:
  "\<forall>x\<in>set_option (assigned_variable tg). \<not> level_of u x \<le> l \<Longrightarrow> agree u l r (store_in d tg v r)"
  by (auto simp: store_in_def agree_high split: option.split)

lemma store_low:
  assumes "agree u l r1 r2" "\<And>x. assigned_variable tg = Some x \<Longrightarrow> fst (ident_leaf u x) \<le> l \<Longrightarrow> v1 = v2"
  shows "agree u l (store_in d tg v1 r1) (store_in d tg v2 r2)"
proof (cases "assigned_variable tg")
  case (Some x)
  then show ?thesis using assms by (auto simp: store_in_def agree_def)
qed (use assms(1) in \<open>simp add: store_in_def\<close>)

lemma value_low:
  assumes "max ctx (un_of u e) \<le> level_of u x" "fst (ident_leaf u x) \<le> l" "agree u l r1 r2" "together l t1 t2"
  shows "eval_on d t1 p r1 e = eval_on d t2 p r2 e"
proof (rule eval_agree [OF _ assms(3,4)])
  show "un_of u e \<le> l" using assms(1,2) level_le_ident [of u x] by auto
qed

lemma chisel_high: "set (chisel_registers text) \<subseteq> set (un_chisel u) \<Longrightarrow> l \<noteq> UThread \<Longrightarrow> agree u l r (chisel_write d t p text r)"
  by (cases l) (auto simp: agree_def chisel_write_def ident_level)

lemma chisel_low:
  assumes "set (chisel_registers text) \<subseteq> set (un_chisel u)" "agree u l r1 r2" "together l t1 t2"
  shows "agree u l (chisel_write d t1 p text r1) (chisel_write d t2 p text r2)"
proof (cases "l = UThread")
  case True
  then show ?thesis using assms(2,3) by (auto simp: agree_def chisel_write_def together_def)
next
  case False
  then show ?thesis using chisel_high [OF assms(1)] assms(2) regs_sym regs_trans by metis
qed

section \<open>Exits\<close>

definition exit_level :: "exit_found \<Rightarrow> uniform" where
  "exit_level found = (case found of None \<Rightarrow> UBlock | Some (l, _) \<Rightarrow> l)"

text \<open>No exit in code more divergent than \<open>l\<close>.\<close>

definition exits_within :: "uniformity \<Rightarrow> uniform \<Rightarrow> uniform \<Rightarrow> stmt \<Rightarrow> bool" where
  "exits_within u l ctx s \<longleftrightarrow> exit_level (find_exits u ctx s None) \<le> l"

lemma exit_level_note: "exit_level (note_exit l line found) = max l (exit_level found)"
  by (cases l; cases found) (auto simp: note_exit_def exit_level_def max_def not_less split: option.split)

lemma exit_fold:
  assumes "\<And>s found. s \<in> set ss \<Longrightarrow> exit_level (f s found) \<le> l \<longleftrightarrow> exit_level found \<le> l \<and> Q s"
  shows "exit_level (fold f ss found) \<le> l \<longleftrightarrow> exit_level found \<le> l \<and> (\<forall>s\<in>set ss. Q s)"
  using assms by (induction ss arbitrary: found) auto

lemma exit_level_None [simp]: "exit_level None = UBlock"
  by (simp add: exit_level_def)

lemma exit_found: "exit_level (find_exits u ctx s found) \<le> l \<longleftrightarrow> exit_level found \<le> l \<and> exits_within u l ctx s"
proof (induction u ctx s found rule: find_exits.induct)
  case (2 u ctx ss bs sp found)
  let ?f = "\<lambda>s found. if chisel_text s = None then find_exits u ctx s found else found"
    and ?Q = "\<lambda>s. chisel_text s = None \<longrightarrow> exits_within u l ctx s"
  have "exit_level (fold ?f ss found) \<le> l \<longleftrightarrow> exit_level found \<le> l \<and> (\<forall>s\<in>set ss. ?Q s)" for found
    by (rule exit_fold) (use 2 in auto)
  then show ?case by (cases l) (auto simp: exits_within_def [of _ _ _ "Chisel _ _"] exit_level_note)
next
  case (3 u ctx cond ss bs el un sp found)
  let ?c = "max ctx (un_of u cond)"
  have ss: "exit_level (fold (find_exits u ?c) ss found) \<le> l \<longleftrightarrow> exit_level found \<le> l \<and> (\<forall>s\<in>set ss. exits_within u l ?c s)" for found
    by (rule exit_fold) (use "3.IH"(1) in simp)
  show ?case
  proof (cases el)
    case None
    then show ?thesis using ss by (simp add: exits_within_def [of _ _ _ "If _ _ _ _ _"] Let_def)
  next
    case (Some b)
    obtain es es_sp where b: "b = Block es es_sp" by (cases b)
    have "exit_level (fold (find_exits u ?c) es found) \<le> l \<longleftrightarrow> exit_level found \<le> l \<and> (\<forall>s\<in>set es. exits_within u l ?c s)" for found
      by (rule exit_fold) (use "3.IH"(2) Some b in simp)
    then show ?thesis using ss by (auto simp: exits_within_def [of _ _ _ "If _ _ _ _ _"] Let_def Some b)
  qed
next
  case (4 u ctx cond ss bs iv mi un sp found)
  have "exit_level (fold (find_exits u (max ctx (un_of u cond))) ss found) \<le> l \<longleftrightarrow>
      exit_level found \<le> l \<and> (\<forall>s\<in>set ss. exits_within u l (max ctx (un_of u cond)) s)" for found
    by (rule exit_fold) (use 4 in simp)
  then show ?case by (simp add: exits_within_def [of _ _ _ "While _ _ _ _ _ _"])
next
  case (5 u ctx x a b st ss bs iv un ti pf sp found)
  have "exit_level (fold (find_exits u (for_ctx u ctx a b st)) ss found) \<le> l \<longleftrightarrow>
      exit_level found \<le> l \<and> (\<forall>s\<in>set ss. exits_within u l (for_ctx u ctx a b st) s)" for found
    by (rule exit_fold) (use 5 in simp)
  then show ?case by (simp add: exits_within_def [of _ _ _ "For _ _ _ _ _ _ _ _ _ _"])
next
  case (6 u ctx ss bs sp found)
  have "exit_level (fold (find_exits u ctx) ss found) \<le> l \<longleftrightarrow> exit_level found \<le> l \<and> (\<forall>s\<in>set ss. exits_within u l ctx s)" for found
    by (rule exit_fold) (use 6 in simp)
  then show ?case by (simp add: exits_within_def [of _ _ _ "SafeBlock _ _"])
next
  case (7 u ctx ss bs sp found)
  have "exit_level (fold (find_exits u ctx) ss found) \<le> l \<longleftrightarrow> exit_level found \<le> l \<and> (\<forall>s\<in>set ss. exits_within u l ctx s)" for found
    by (rule exit_fold) (use 7 in simp)
  then show ?case by (simp add: exits_within_def [of _ _ _ "GhostBlock _ _"])
next
  case (8 u ctx os ss bs sp found)
  have "exit_level (fold (find_exits u ctx) ss found) \<le> l \<longleftrightarrow> exit_level found \<le> l \<and> (\<forall>s\<in>set ss. exits_within u l ctx s)" for found
    by (rule exit_fold) (use 8 in simp)
  then show ?case by (simp add: exits_within_def [of _ _ _ "HintBlock _ _ _"])
next
  case (9 u ctx e ss bs sp found)
  have "exit_level (fold (find_exits u ctx) ss found) \<le> l \<longleftrightarrow> exit_level found \<le> l \<and> (\<forall>s\<in>set ss. exits_within u l ctx s)" for found
    by (rule exit_fold) (use 9 in simp)
  then show ?case by (simp add: exits_within_def [of _ _ _ "ClockDomainBlock _ _ _"])
qed (auto simp: exits_within_def exit_level_note)

lemma exits_fold: "exit_level (fold (find_exits u ctx) ss found) \<le> l \<longleftrightarrow> exit_level found \<le> l \<and> (\<forall>s\<in>set ss. exits_within u l ctx s)"
  by (rule exit_fold) (rule exit_found)

lemma exits_within_simps:
  "exits_within u l ctx (Return e sp) \<longleftrightarrow> ctx \<le> l"
  "exits_within u l ctx (If cond (Block ss bs) el un sp) \<longleftrightarrow>
     (\<forall>s\<in>set ss. exits_within u l (max ctx (un_of u cond)) s) \<and>
     (\<forall>es es_sp. el = Some (Block es es_sp) \<longrightarrow> (\<forall>s\<in>set es. exits_within u l (max ctx (un_of u cond)) s))"
  "exits_within u l ctx (While cond (Block ss bs) iv mi un sp) \<longleftrightarrow> (\<forall>s\<in>set ss. exits_within u l (max ctx (un_of u cond)) s)"
  "exits_within u l ctx (For x a b st (Block ss bs) iv un ti pf sp) \<longleftrightarrow> (\<forall>s\<in>set ss. exits_within u l (for_ctx u ctx a b st) s)"
  "exits_within u l ctx (SafeBlock (Block ss bs) sp) \<longleftrightarrow> (\<forall>s\<in>set ss. exits_within u l ctx s)"
  "exits_within u l ctx (GhostBlock (Block ss bs) sp) \<longleftrightarrow> (\<forall>s\<in>set ss. exits_within u l ctx s)"
  "exits_within u l ctx (HintBlock os (Block ss bs) sp) \<longleftrightarrow> (\<forall>s\<in>set ss. exits_within u l ctx s)"
  "exits_within u l ctx (ClockDomainBlock ck (Block ss bs) sp) \<longleftrightarrow> (\<forall>s\<in>set ss. exits_within u l ctx s)"
  by (auto simp: exits_within_def Let_def exits_fold exit_level_note split: option.split block.split)

lemma exits_within_chisel:
  "exits_within u l ctx (Chisel (Block ss bs) sp) \<longleftrightarrow>
     (chisel_transfers_control ss \<longrightarrow> l = UThread) \<and> (\<forall>s\<in>set ss. chisel_text s = None \<longrightarrow> exits_within u l ctx s)"
proof -
  have "exit_level (fold (\<lambda>s found. if chisel_text s = None then find_exits u ctx s found else found) ss found) \<le> l \<longleftrightarrow>
      exit_level found \<le> l \<and> (\<forall>s\<in>set ss. chisel_text s = None \<longrightarrow> exits_within u l ctx s)" for found
    by (rule exit_fold) (auto simp: exit_found)
  moreover have "UThread \<le> l \<longleftrightarrow> l = UThread" by (cases l) simp_all
  ultimately show ?thesis by (auto simp: exits_within_def [of _ _ _ "Chisel _ _"] exit_level_note)
qed

section \<open>Divergent code\<close>

text \<open>What a statement executed by some threads only changes is more divergent than \<open>l\<close>.\<close>

abbreviation obeys_chisel :: "uniformity \<Rightarrow> uniform \<Rightarrow> stmt list \<Rightarrow> bool" where
  "obeys_chisel u ctx ss \<equiv>
     (\<forall>s\<in>set ss. case chisel_text s of Some text \<Rightarrow> set (chisel_registers text) \<subseteq> set (un_chisel u) | None \<Rightarrow> obeys u ctx s)"

lemma exec_confined:
  "exec d t p s r out r' \<Longrightarrow> obeys u ctx s \<Longrightarrow> \<not> ctx \<le> l \<Longrightarrow> agree u l r r' \<and> (exits_within u l ctx s \<longrightarrow> out = Ran)"
  "execs d t p ss r out r' \<Longrightarrow> \<forall>s\<in>set ss. obeys u ctx s \<Longrightarrow> \<not> ctx \<le> l \<Longrightarrow>
     agree u l r r' \<and> ((\<forall>s\<in>set ss. exits_within u l ctx s) \<longrightarrow> out = Ran)"
  "exec_for d t p x to step ss r out r' \<Longrightarrow> \<forall>s\<in>set ss. obeys u ctx s \<Longrightarrow> \<not> ctx \<le> l \<Longrightarrow> ctx \<le> level_of u x \<Longrightarrow>
     agree u l r r' \<and> ((\<forall>s\<in>set ss. exits_within u l ctx s) \<longrightarrow> out = Ran)"
  "exec_chisel d t p ss r out r' \<Longrightarrow> obeys_chisel u ctx ss \<Longrightarrow> \<not> ctx \<le> l \<Longrightarrow>
     agree u l r r' \<and> ((\<forall>s\<in>set ss. chisel_text s = None \<longrightarrow> exits_within u l ctx s) \<longrightarrow> out = Ran)"
proof (induction arbitrary: ctx and ctx and ctx and ctx rule: exec_execs_exec_for_exec_chisel.inducts)
  case (ex_let p x ty e c z b s r)
  then have "\<not> level_of u x \<le> l" by (auto dest: order_trans)
  then show ?case by (intro conjI impI agree_high) simp_all
next
  case (ex_assign p tg e s r)
  then have "\<forall>x\<in>set_option (assigned_variable tg). \<not> level_of u x \<le> l" by (auto dest: order_trans)
  then show ?case by (simp add: store_high)
next
  case (ex_compound p tg op e s r)
  then have "\<forall>x\<in>set_option (assigned_variable tg). \<not> level_of u x \<le> l" by (auto dest: order_trans)
  then show ?case by (simp add: store_high)
next
  case (ex_then p r c ss out r' bs el un s)
  then show ?case using ex_then.IH(3) [of "max ctx (un_of u c)"] by (auto simp: list_all_iff exits_within_simps)
next
  case (ex_else p r c es out r' b bs un s)
  then show ?case using ex_else.IH(3) [of "max ctx (un_of u c)"] by (cases b) (auto simp: list_all_iff exits_within_simps)
next
  case (ex_while_step p r c ss r1 bs iv mi un s out r2)
  have "agree u l r r1" using ex_while_step.IH(3) [of "max ctx (un_of u c)"] ex_while_step.prems by (simp add: list_all_iff)
  then show ?case using ex_while_step.IH(5) [of ctx] ex_while_step.prems regs_trans by blast
next
  case (ex_while_left p r c ss r1 bs iv mi un s)
  then show ?case using ex_while_left.IH(3) [of "max ctx (un_of u c)"] by (auto simp: list_all_iff exits_within_simps)
next
  case (ex_for step st p r s x b ss a out r' bs iv un ti pf)
  let ?c = "for_ctx u ctx a b st"
  have c: "\<not> ?c \<le> l" using ex_for.prems(2) by (auto simp: for_ctx_def Let_def split: option.split)
  have x: "?c \<le> level_of u x" using ex_for.prems(1) by simp
  have "\<not> level_of u x \<le> l" using c x by (auto dest: order_trans)
  then have ag: "agree u l r (r(x := eval_on d t p r a))" by (rule agree_high)
  have "\<forall>s\<in>set ss. obeys u ?c s" using ex_for.prems(1) by (simp add: list_all_iff)
  note i = ex_for.IH(3) [OF this c x]
  show ?case unfolding exits_within_simps using i regs_trans [OF ag conjunct1 [OF i]] by blast
next
  case (ex_for_step r x to p ss r1 step out r2)
  have "\<not> level_of u x \<le> l" using ex_for_step.prems(2,3) by (auto dest: order_trans)
  then have "agree u l r1 (r1(x := dv_binary d Add (r1 x) step))" by (rule agree_high)
  moreover have "agree u l r r1" using ex_for_step.IH(3) [of ctx] ex_for_step.prems by simp
  ultimately have "agree u l r (r1(x := dv_binary d Add (r1 x) step))" using regs_trans by blast
  then show ?case using ex_for_step.IH(5) [of ctx] ex_for_step.prems regs_trans by blast
next
  case (ex_chisel p ss r out r' bs s)
  then show ?case using ex_chisel.IH(3) [of ctx] by (simp add: list_all_iff exits_within_chisel)
next
  case (ex_chisel_left ss p bs s r)
  then show ?case by (auto simp: exits_within_chisel)
next
  case (ex_cons p s r r1 ss out r2)
  then show ?case using ex_cons.IH(2) [of ctx] ex_cons.IH(4) [of ctx] regs_trans by (metis list.set_intros(1,2))
next
  case (ex_cons_left p s r r1 ss)
  then show ?case using ex_cons_left.IH(2) [of ctx] by auto
next
  case (ex_ch_text s tx p ss r out r2)
  have "l \<noteq> UThread" using ex_ch_text.prems(2) by auto
  then have "agree u l r (chisel_write d t (0 # p) tx r)" using ex_ch_text.prems(1) ex_ch_text.hyps(1) by (intro chisel_high) auto
  then show ?case using ex_ch_text.IH(2) [of ctx] ex_ch_text.prems regs_trans by (metis list.set_intros(2))
next
  case (ex_ch_stmt s p r r1 ss out r2)
  have "agree u l r r1" using ex_ch_stmt.IH(2) [of ctx] ex_ch_stmt.prems ex_ch_stmt.hyps(1) by simp
  then show ?case using ex_ch_stmt.IH(4) [of ctx] ex_ch_stmt.prems regs_trans by (metis list.set_intros(2))
next
  case (ex_ch_left s p r r1 ss)
  then show ?case using ex_ch_left.IH(2) [of ctx] by simp
qed (auto simp: list_all_iff exits_within_simps)

section \<open>Noninterference\<close>

text \<open>The counter of every loop is as uniform as its bounds: the body does not write it something else.\<close>

function counters_kept :: "uniformity \<Rightarrow> uniform \<Rightarrow> stmt \<Rightarrow> bool" where
  "counters_kept u ctx (For v a b st (Block ss _) _ _ _ _ _) =
     (fst (ident_leaf u v) \<le> for_ctx u ctx a b st \<and> list_all (counters_kept u (for_ctx u ctx a b st)) ss)"
| "counters_kept u ctx (If cond (Block ss _) el _ _) =
     (list_all (counters_kept u (max ctx (un_of u cond))) ss \<and>
      (case el of Some (Block es _) \<Rightarrow> list_all (counters_kept u (max ctx (un_of u cond))) es | None \<Rightarrow> True))"
| "counters_kept u ctx (While cond (Block ss _) _ _ _ _) = list_all (counters_kept u (max ctx (un_of u cond))) ss"
| "counters_kept u ctx (Chisel (Block ss _) _) = list_all (\<lambda>s. chisel_text s = None \<longrightarrow> counters_kept u ctx s) ss"
| "counters_kept u ctx (SafeBlock (Block ss _) _) = list_all (counters_kept u ctx) ss"
| "counters_kept u ctx (GhostBlock (Block ss _) _) = list_all (counters_kept u ctx) ss"
| "counters_kept u ctx (HintBlock _ (Block ss _) _) = list_all (counters_kept u ctx) ss"
| "counters_kept u ctx (ClockDomainBlock _ (Block ss _) _) = list_all (counters_kept u ctx) ss"
| "counters_kept u ctx (Let _ _ _ _ _ _ _) = True"
| "counters_kept u ctx (Assign _ _ _) = True"
| "counters_kept u ctx (CompoundAssign _ _ _ _) = True"
| "counters_kept u ctx (Match _ _ _) = True"
| "counters_kept u ctx (Break _) = True"
| "counters_kept u ctx (Expr _) = True"
| "counters_kept u ctx (Return _ _) = True"
| "counters_kept u ctx (TypeAlias _ _ _) = True"
| "counters_kept u ctx (CompileTimeAssert _ _ _) = True"
  by pat_completeness auto
termination
  by (relation "measure (\<lambda>(_, _, s). size s)") (auto dest!: size_member [where f = size])

definition matched :: "uniformity \<Rightarrow> uniform \<Rightarrow> bool \<Rightarrow> ending \<Rightarrow> 'v regs \<Rightarrow> ending \<Rightarrow> 'v regs \<Rightarrow> bool" where
  "matched u l exits o1 r1 o2 r2 \<longleftrightarrow> (o1 = Ran \<and> o2 = Ran \<longrightarrow> agree u l r1 r2) \<and> (exits \<longrightarrow> o1 = o2)"

lemma matched_ran: "agree u l r1 r2 \<Longrightarrow> matched u l exits Ran r1 Ran r2"
  by (simp add: matched_def)

lemma matched_left [simp]: "matched u l exits Left r1 Left r2"
  by (simp add: matched_def)

lemma matched_mono: "matched u l e o1 r1 o2 r2 \<Longrightarrow> (e' \<Longrightarrow> e) \<Longrightarrow> matched u l e' o1 r1 o2 r2"
  by (auto simp: matched_def)

lemma matched_one_left:
  "matched u l e Ran r1 Left r2 \<Longrightarrow> (e' \<Longrightarrow> e) \<Longrightarrow> matched u l e' o1 r Left r2'"
  "matched u l e Left r1 Ran r2 \<Longrightarrow> (e' \<Longrightarrow> e) \<Longrightarrow> matched u l e' Left r1' o2 r"
  by (auto simp: matched_def)

text \<open>A branch on a value that differs is confined in both threads.\<close>

lemma confined_matched:
  assumes "exec d t1 p s r1 o1 r1'" "exec d t2 p' s r2 o2 r2'" "agree u l r1 r2" "obeys u ctx s" "\<not> ctx \<le> l"
    and "exits_within u l ctx' s \<Longrightarrow> exits_within u l ctx s"
  shows "matched u l (exits_within u l ctx' s) o1 r1' o2 r2'"
proof -
  note c1 = exec_confined(1) [OF assms(1,4,5)] and c2 = exec_confined(1) [OF assms(2,4,5)]
  have "agree u l r1' r2'" using c1 c2 assms(3) regs_sym regs_trans by metis
  then show ?thesis using c1 c2 assms(6) by (auto simp: matched_def)
qed

lemma same_inside:
  "obeys u (max ctx (un_of u c)) (If c (Block ss bs) el un s) = obeys u ctx (If c (Block ss bs) el un s)"
  "exits_within u l (max ctx (un_of u c)) (If c (Block ss bs) el un s) = exits_within u l ctx (If c (Block ss bs) el un s)"
  "obeys u (max ctx (un_of u c)) (While c (Block ss bs) iv mi un s) = obeys u ctx (While c (Block ss bs) iv mi un s)"
  "exits_within u l (max ctx (un_of u c)) (While c (Block ss bs) iv mi un s) = exits_within u l ctx (While c (Block ss bs) iv mi un s)"
  "for_ctx u (for_ctx u ctx a b st) a b st = for_ctx u ctx a b st"
  by (simp_all add: exits_within_simps for_ctx_def Let_def max.left_commute max.commute max.assoc split: option.split block.split)

lemma if_confined:
  assumes "exec d t1 p (If c (Block ss bs) el un s) r1 o1 r1'" "exec d t2 p (If c (Block ss bs) el un s) r2 o2 r2'" "agree u l r1 r2"
    "obeys u ctx (If c (Block ss bs) el un s)" "\<not> un_of u c \<le> l"
  shows "matched u l (exits_within u l ctx (If c (Block ss bs) el un s)) o1 r1' o2 r2'"
  by (rule confined_matched [OF assms(1-3), of "max ctx (un_of u c)"]) (use assms(4,5) in \<open>simp_all only: same_inside max.bounded_iff simp_thms\<close>)

lemma while_confined:
  assumes "exec d t1 p (While c (Block ss bs) iv mi un s) r1 o1 r1'" "exec d t2 p (While c (Block ss bs) iv mi un s) r2 o2 r2'"
    "agree u l r1 r2" "obeys u ctx (While c (Block ss bs) iv mi un s)" "\<not> un_of u c \<le> l"
  shows "matched u l (exits_within u l ctx (While c (Block ss bs) iv mi un s)) o1 r1' o2 r2'"
  by (rule confined_matched [OF assms(1-3), of "max ctx (un_of u c)"]) (use assms(4,5) in \<open>simp_all only: same_inside max.bounded_iff simp_thms\<close>)

lemma for_confined:
  assumes "exec d t1 p (For x a b st (Block ss bs) iv un ti pf s) r1 o1 r1'" "exec d t2 p (For x a b st (Block ss bs) iv un ti pf s) r2 o2 r2'"
    "agree u l r1 r2" "obeys u ctx (For x a b st (Block ss bs) iv un ti pf s)" "\<not> for_ctx u ctx a b st \<le> l"
  shows "matched u l (exits_within u l ctx (For x a b st (Block ss bs) iv un ti pf s)) o1 r1' o2 r2'"
  by (rule confined_matched [OF assms(1-3), of "for_ctx u ctx a b st"])
    (use assms(4,5) in \<open>simp_all add: same_inside(5) exits_within_simps\<close>)

lemma for_low:
  assumes "\<not> \<not> for_ctx u ctx a b st \<le> l" "agree u l r1 r2" "together l t1 t2"
  shows "eval_on d t1 p r1 a = eval_on d t2 p r2 a" "eval_on d t1 p r1 b = eval_on d t2 p r2 b"
    "(case st of Some e \<Rightarrow> eval_on d t1 p r1 e | None \<Rightarrow> v) = (case st of Some e \<Rightarrow> eval_on d t2 p r2 e | None \<Rightarrow> v)"
  using assms by (auto simp: for_ctx_def Let_def split: option.splits intro!: eval_agree)

theorem threads_matched:
  "exec d t1 p s r1 o1 r1' \<Longrightarrow> obeys u ctx s \<Longrightarrow> counters_kept u ctx s \<Longrightarrow> agree u l r1 r2 \<Longrightarrow> together l t1 t2 \<Longrightarrow>
     exec d t2 p s r2 o2 r2' \<Longrightarrow> matched u l (exits_within u l ctx s) o1 r1' o2 r2'"
  "execs d t1 p ss r1 o1 r1' \<Longrightarrow> \<forall>s\<in>set ss. obeys u ctx s \<and> counters_kept u ctx s \<Longrightarrow> agree u l r1 r2 \<Longrightarrow> together l t1 t2 \<Longrightarrow>
     execs d t2 p ss r2 o2 r2' \<Longrightarrow> matched u l (\<forall>s\<in>set ss. exits_within u l ctx s) o1 r1' o2 r2'"
  "exec_for d t1 p x to step ss r1 o1 r1' \<Longrightarrow> \<forall>s\<in>set ss. obeys u ctx s \<and> counters_kept u ctx s \<Longrightarrow> fst (ident_leaf u x) \<le> l \<Longrightarrow>
     agree u l r1 r2 \<Longrightarrow> together l t1 t2 \<Longrightarrow> exec_for d t2 p x to step ss r2 o2 r2' \<Longrightarrow>
     matched u l (\<forall>s\<in>set ss. exits_within u l ctx s) o1 r1' o2 r2'"
  "exec_chisel d t1 p ss r1 o1 r1' \<Longrightarrow> obeys_chisel u ctx ss \<Longrightarrow> \<forall>s\<in>set ss. chisel_text s = None \<longrightarrow> counters_kept u ctx s \<Longrightarrow>
     agree u l r1 r2 \<Longrightarrow> together l t1 t2 \<Longrightarrow> exec_chisel d t2 p ss r2 o2 r2' \<Longrightarrow>
     matched u l (\<forall>s\<in>set ss. chisel_text s = None \<longrightarrow> exits_within u l ctx s) o1 r1' o2 r2'"
proof (induction arbitrary: ctx r2 o2 r2' and ctx r2 o2 r2' and ctx r2 o2 r2' and ctx r2 o2 r2' rule: exec_execs_exec_for_exec_chisel.inducts)
  case (ex_let p x ty e c z b s r1)
  have "eval_on d t1 p r1 e = eval_on d t2 p r2 e" if "fst (ident_leaf u x) \<le> l"
    by (rule value_low [where ctx = ctx, OF _ that ex_let.prems(3,4)]) (use ex_let.prems(1) in \<open>simp add: value_level_def\<close>)
  then have "agree u l (r1(x := eval_on d t1 p r1 e)) (r2(x := eval_on d t2 p r2 e))" by (rule agree_low [OF ex_let.prems(3)])
  from matched_ran [OF this] show ?case using ex_let.prems(5) by blast
next
  case (ex_assign p tg e s r1)
  have "agree u l (store_in d tg (eval_on d t1 p r1 e) r1) (store_in d tg (eval_on d t2 p r2 e) r2)"
  proof (rule store_low [OF ex_assign.prems(3)])
    fix x assume "assigned_variable tg = Some x" "fst (ident_leaf u x) \<le> l"
    then show "eval_on d t1 p r1 e = eval_on d t2 p r2 e"
      using ex_assign.prems(1) by (intro value_low [where ctx = ctx and x = x, OF _ _ ex_assign.prems(3,4)]) auto
  qed
  from matched_ran [OF this] show ?case using ex_assign.prems(5) by blast
next
  case (ex_compound p tg op e s r1)
  let ?v = "\<lambda>t r. dv_binary d op (eval_on d t p r tg) (eval_on d t p r e)"
  have "agree u l (store_in d tg (?v t1 r1) r1) (store_in d tg (?v t2 r2) r2)"
  proof (rule store_low [OF ex_compound.prems(3)])
    fix x assume x: "assigned_variable tg = Some x" "fst (ident_leaf u x) \<le> l"
    have "un_of u tg = fst (ident_leaf u x)"
      using x(1) by (induction tg rule: assigned_variable.induct) (simp_all add: un_of_def)
    then have "eval_on d t1 p r1 tg = eval_on d t2 p r2 tg" using x(2) by (intro eval_agree [OF _ ex_compound.prems(3,4)]) simp
    moreover have "eval_on d t1 p r1 e = eval_on d t2 p r2 e"
      using ex_compound.prems(1) x by (intro value_low [where ctx = ctx and x = x, OF _ _ ex_compound.prems(3,4)]) auto
    ultimately show "?v t1 r1 = ?v t2 r2" by simp
  qed
  from matched_ran [OF this] show ?case using ex_compound.prems(5) by blast
next
  case (ex_then p r c ss out r' bs el un s)
  show ?case
  proof (cases "un_of u c \<le> l")
    case False
    show ?thesis by (rule if_confined [OF exec_execs_exec_for_exec_chisel.ex_then [OF ex_then(1,2)] ex_then.prems(5,3,1) False])
  next
    case True
    then have "dv_true d (eval_on d t2 p r2 c)" using ex_then(1) eval_agree [OF True ex_then.prems(3,4)] by metis
    then have run: "execs d t2 (2 # p) ss r2 o2 r2'" using ex_then.prems(5) by (auto elim: if_run)
    have ok: "\<forall>s\<in>set ss. obeys u (max ctx (un_of u c)) s \<and> counters_kept u (max ctx (un_of u c)) s"
      using ex_then.prems(1,2) by (simp add: list_all_iff)
    show ?thesis by (rule matched_mono [OF ex_then(3) [OF ok ex_then.prems(3,4) run]]) (simp add: exits_within_simps)
  qed
next
  case (ex_else p r c es out r' b bs un s)
  obtain ss sb where b: "b = Block ss sb" by (cases b)
  show ?case
  proof (cases "un_of u c \<le> l")
    case False
    show ?thesis using ex_else.prems(1,5) unfolding b
      by (intro if_confined [OF exec_execs_exec_for_exec_chisel.ex_else [OF ex_else(1,2)] _ ex_else.prems(3) _ False])
  next
    case True
    then have "\<not> dv_true d (eval_on d t2 p r2 c)" using ex_else(1) eval_agree [OF True ex_else.prems(3,4)] by metis
    then have run: "execs d t2 (3 # p) es r2 o2 r2'" using ex_else.prems(5) by (auto elim: if_run)
    have ok: "\<forall>s\<in>set es. obeys u (max ctx (un_of u c)) s \<and> counters_kept u (max ctx (un_of u c)) s"
      using ex_else.prems(1,2) by (simp add: list_all_iff b)
    show ?thesis by (rule matched_mono [OF ex_else(3) [OF ok ex_else.prems(3,4) run]]) (simp add: exits_within_simps b)
  qed
next
  case (ex_skip p r c b un s)
  obtain ss sb where b: "b = Block ss sb" by (cases b)
  show ?case
  proof (cases "un_of u c \<le> l")
    case False
    show ?thesis using ex_skip.prems(1,5) unfolding b
      by (intro if_confined [OF exec_execs_exec_for_exec_chisel.ex_skip [OF ex_skip(1)] _ ex_skip.prems(3) _ False])
  next
    case True
    then have "\<not> dv_true d (eval_on d t2 p r2 c)" using ex_skip(1) eval_agree [OF True ex_skip.prems(3,4)] by metis
    then have "o2 = Ran" "r2' = r2" using ex_skip.prems(5) by (auto elim: if_run)
    then show ?thesis using ex_skip.prems(3) by (simp add: matched_ran)
  qed
next
  case (ex_while_end p r c b iv mi un s)
  obtain ss sb where b: "b = Block ss sb" by (cases b)
  show ?case
  proof (cases "un_of u c \<le> l")
    case False
    show ?thesis using ex_while_end.prems(1,5) unfolding b
      by (intro while_confined [OF exec_execs_exec_for_exec_chisel.ex_while_end [OF ex_while_end(1)] _ ex_while_end.prems(3) _ False])
  next
    case True
    then have "\<not> dv_true d (eval_on d t2 p r2 c)" using ex_while_end(1) eval_agree [OF True ex_while_end.prems(3,4)] by metis
    then have "o2 = Ran" "r2' = r2" using ex_while_end.prems(5) by (auto elim: while_run)
    then show ?thesis using ex_while_end.prems(3) by (simp add: matched_ran)
  qed
next
  case (ex_nil p r)
  then show ?case by (auto intro: matched_ran)
next
  case (ex_ch_nil p r)
  then show ?case by (auto intro: matched_ran)
next
  case (ex_while_step p r c ss r1 bs iv mi un s out r1')
  show ?case
  proof (cases "un_of u c \<le> l")
    case False
    show ?thesis
      by (rule while_confined [OF exec_execs_exec_for_exec_chisel.ex_while_step [OF ex_while_step(1,2,4)] ex_while_step.prems(5,3,1) False])
  next
    case True
    then have t: "dv_true d (eval_on d t2 p r2 c)" using ex_while_step(1) eval_agree [OF True ex_while_step.prems(3,4)] by metis
    have ok: "\<forall>s\<in>set ss. obeys u (max ctx (un_of u c)) s \<and> counters_kept u (max ctx (un_of u c)) s"
      using ex_while_step.prems(1,2) by (simp add: list_all_iff)
    note body = ex_while_step(3) [OF ok ex_while_step.prems(3,4)]
    from ex_while_step.prems(5) t consider
      (step) r21 where "execs d t2 (2 # p) ss r2 Ran r21" "exec d t2 (4 # p) (While c (Block ss bs) iv mi un s) r21 o2 r2'"
      | (left) "execs d t2 (2 # p) ss r2 Left r2'" "o2 = Left"
      by (auto elim: while_run)
    then show ?thesis
    proof cases
      case step
      have "agree u l r1 r21" using body [OF step(1)] by (simp add: matched_def)
      then show ?thesis by (rule ex_while_step(5) [OF ex_while_step.prems(1,2) _ ex_while_step.prems(4) step(2)])
    next
      case left
      show ?thesis unfolding left(2) by (rule matched_one_left(1) [OF body [OF left(1)]]) (simp add: exits_within_simps)
    qed
  qed
next
  case (ex_while_left p r c ss r1 bs iv mi un s)
  show ?case
  proof (cases "un_of u c \<le> l")
    case False
    show ?thesis
      by (rule while_confined [OF exec_execs_exec_for_exec_chisel.ex_while_left [OF ex_while_left(1,2)] ex_while_left.prems(5,3,1) False])
  next
    case True
    then have t: "dv_true d (eval_on d t2 p r2 c)" using ex_while_left(1) eval_agree [OF True ex_while_left.prems(3,4)] by metis
    have ok: "\<forall>s\<in>set ss. obeys u (max ctx (un_of u c)) s \<and> counters_kept u (max ctx (un_of u c)) s"
      using ex_while_left.prems(1,2) by (simp add: list_all_iff)
    note body = ex_while_left(3) [OF ok ex_while_left.prems(3,4)]
    from ex_while_left.prems(5) t consider (step) r21 where "execs d t2 (2 # p) ss r2 Ran r21" | (left) "o2 = Left"
      by (auto elim: while_run)
    then show ?thesis
    proof cases
      case step
      show ?thesis by (rule matched_one_left(2) [OF body [OF step]]) (simp add: exits_within_simps)
    qed simp
  qed
next
  case (ex_for step st p r s x b ss a out r' bs iv un ti pf)
  let ?c = "for_ctx u ctx a b st"
  show ?case
  proof (cases "?c \<le> l")
    case False
    show ?thesis by (rule for_confined [OF exec_execs_exec_for_exec_chisel.ex_for [OF ex_for(1,2)] ex_for.prems(5,3,1) False])
  next
    case True
    note eq = for_low [of u ctx a b st l, simplified, OF True ex_for.prems(3,4)]
    have x: "fst (ident_leaf u x) \<le> l" using ex_for.prems(2) True by auto
    have ok: "\<forall>s\<in>set ss. obeys u ?c s \<and> counters_kept u ?c s" using ex_for.prems(1,2) by (simp add: list_all_iff)
    have run: "exec_for d t2 (5 # p) x (eval_on d t1 p r b) step ss (r2(x := eval_on d t1 p r a)) o2 r2'"
      using ex_for.prems(5) unfolding ex_for(1) eq [where p = p and d = d] by (auto elim: for_run)
    have ag: "agree u l (r(x := eval_on d t1 p r a)) (r2(x := eval_on d t1 p r a))" by (rule agree_low [OF ex_for.prems(3) refl])
    show ?thesis by (rule matched_mono [OF ex_for(3) [OF ok x ag ex_for.prems(4) run]]) (simp add: exits_within_simps)
  qed
next
  case (ex_for_end r x to p step ss)
  have "r x = r2 x" using ex_for_end.prems(2,3) by (simp add: agree_def)
  then have "o2 = Ran" "r2' = r2" using ex_for_end.prems(5) ex_for_end(1) by (auto elim: for_iter)
  then show ?case using ex_for_end.prems(3) by (simp add: matched_ran)
next
  case (ex_for_step r x to p ss r1 step out r1')
  have "r x = r2 x" using ex_for_step.prems(2,3) by (simp add: agree_def)
  with ex_for_step(1) ex_for_step.prems(5) consider
    (step) r21 where "execs d t2 (2 # p) ss r2 Ran r21" "exec_for d t2 (4 # p) x to step ss (r21(x := dv_binary d Add (r21 x) step)) o2 r2'"
    | (left) "execs d t2 (2 # p) ss r2 Left r2'" "o2 = Left"
    by (auto elim: for_iter)
  then show ?case
  proof cases
    case step
    have ag: "agree u l r1 r21" using ex_for_step(3) [OF ex_for_step.prems(1,3,4) step(1)] by (simp add: matched_def)
    then have "r1 x = r21 x" using ex_for_step.prems(2) by (simp add: agree_def)
    then have "agree u l (r1(x := dv_binary d Add (r1 x) step)) (r21(x := dv_binary d Add (r21 x) step))" by (intro agree_low [OF ag]) simp
    then show ?thesis by (rule ex_for_step(5) [OF ex_for_step.prems(1,2) _ ex_for_step.prems(4) step(2)])
  next
    case left
    show ?thesis unfolding left(2) by (rule matched_one_left(1) [OF ex_for_step(3) [OF ex_for_step.prems(1,3,4) left(1)]]) simp
  qed
next
  case (ex_for_left r x to p ss r1 step)
  have "r x = r2 x" using ex_for_left.prems(2,3) by (simp add: agree_def)
  with ex_for_left(1) ex_for_left.prems(5) consider (step) r21 where "execs d t2 (2 # p) ss r2 Ran r21" | (left) "o2 = Left"
    by (auto elim: for_iter)
  then show ?case
  proof cases
    case step
    show ?thesis by (rule matched_one_left(2) [OF ex_for_left(3) [OF ex_for_left.prems(1,3,4) step]]) simp
  qed simp
next
  case (ex_chisel ss p r out r' bs s)
  have ok: "obeys_chisel u ctx ss" "\<forall>s\<in>set ss. chisel_text s = None \<longrightarrow> counters_kept u ctx s"
    using ex_chisel.prems(1,2) by (simp_all add: list_all_iff)
  from ex_chisel.prems(5) consider (run) "exec_chisel d t2 (2 # p) ss r2 o2 r2'"
    | (left) "chisel_transfers_control ss" "dv_leaves d t2 p" "o2 = Left" by (auto elim: chisel_run)
  then show ?case
  proof cases
    case run
    show ?thesis by (rule matched_mono [OF ex_chisel(3) [OF ok ex_chisel.prems(3,4) run]]) (simp add: exits_within_chisel)
  next
    case left
    have "l \<noteq> UThread" using ex_chisel(1) left(1,2) ex_chisel.prems(4) by (auto simp: together_def)
    then show ?thesis using left by (simp add: matched_def exits_within_chisel)
  qed
next
  case (ex_chisel_left ss p bs s r)
  from ex_chisel_left.prems(5) consider (run) "\<not> (chisel_transfers_control ss \<and> dv_leaves d t2 p)" | (left) "o2 = Left"
    by (auto elim: chisel_run)
  then show ?case
  proof cases
    case run
    then have "l \<noteq> UThread" using ex_chisel_left(1) ex_chisel_left.prems(4) by (auto simp: together_def)
    then show ?thesis using ex_chisel_left(1) by (simp add: matched_def exits_within_chisel)
  qed simp
next
  case (ex_cons p s r r1 ss out r1')
  have s: "obeys u ctx s" "counters_kept u ctx s" and ss: "\<forall>s\<in>set ss. obeys u ctx s \<and> counters_kept u ctx s" using ex_cons.prems(1) by simp_all
  note one = ex_cons(2) [OF s ex_cons.prems(2,3)]
  from ex_cons.prems(4) consider (ran) r21 where "exec d t2 (0 # p) s r2 Ran r21" "execs d t2 (1 # p) ss r21 o2 r2'"
    | (left) "exec d t2 (0 # p) s r2 Left r2'" "o2 = Left" by (auto elim: cons_run)
  then show ?case
  proof cases
    case ran
    have "agree u l r1 r21" using one [OF ran(1)] by (simp add: matched_def)
    from ex_cons(4) [OF ss this ex_cons.prems(3) ran(2)] show ?thesis by (rule matched_mono) simp
  next
    case left
    show ?thesis unfolding left(2) by (rule matched_one_left(1) [OF one [OF left(1)]]) simp
  qed
next
  case (ex_cons_left p s r r1 ss)
  have s: "obeys u ctx s" "counters_kept u ctx s" using ex_cons_left.prems(1) by simp_all
  note one = ex_cons_left(2) [OF s ex_cons_left.prems(2,3)]
  from ex_cons_left.prems(4) consider (ran) r21 where "exec d t2 (0 # p) s r2 Ran r21" | (left) "o2 = Left" by (auto elim: cons_run)
  then show ?case
  proof cases
    case ran
    show ?thesis by (rule matched_one_left(2) [OF one [OF ran]]) simp
  qed simp
next
  case (ex_ch_text s tx p ss r out r1')
  have tx: "set (chisel_registers tx) \<subseteq> set (un_chisel u)"
    and ss: "obeys_chisel u ctx ss" "\<forall>s\<in>set ss. chisel_text s = None \<longrightarrow> counters_kept u ctx s"
    using ex_ch_text.prems(1,2) ex_ch_text(1) by auto
  have run: "exec_chisel d t2 (1 # p) ss (chisel_write d t2 (0 # p) tx r2) o2 r2'"
    using ex_ch_text.prems(5) ex_ch_text(1) by (auto elim: chisel_cons_run)
  note ag = chisel_low [OF tx ex_ch_text.prems(3,4)]
  show ?case by (rule matched_mono [OF ex_ch_text(3) [OF ss ag ex_ch_text.prems(4) run]]) simp
next
  case (ex_ch_stmt s p r r1 ss out r1')
  have s: "obeys u ctx s" "counters_kept u ctx s"
    and ss: "obeys_chisel u ctx ss" "\<forall>s\<in>set ss. chisel_text s = None \<longrightarrow> counters_kept u ctx s"
    using ex_ch_stmt.prems(1,2) ex_ch_stmt(1) by auto
  note one = ex_ch_stmt(3) [OF s ex_ch_stmt.prems(3,4)]
  from ex_ch_stmt.prems(5) ex_ch_stmt(1) consider (ran) r21 where "exec d t2 (0 # p) s r2 Ran r21" "exec_chisel d t2 (1 # p) ss r21 o2 r2'"
    | (left) "exec d t2 (0 # p) s r2 Left r2'" "o2 = Left" by (auto elim: chisel_cons_run)
  then show ?case
  proof cases
    case ran
    have "agree u l r1 r21" using one [OF ran(1)] by (simp add: matched_def)
    from ex_ch_stmt(5) [OF ss this ex_ch_stmt.prems(4) ran(2)] show ?thesis by (rule matched_mono) simp
  next
    case left
    show ?thesis unfolding left(2) by (rule matched_one_left(1) [OF one [OF left(1)]]) (simp add: ex_ch_stmt(1))
  qed
next
  case (ex_ch_left s p r r1 ss)
  have s: "obeys u ctx s" "counters_kept u ctx s" using ex_ch_left.prems(1,2) ex_ch_left(1) by auto
  note one = ex_ch_left(3) [OF s ex_ch_left.prems(3,4)]
  from ex_ch_left.prems(5) ex_ch_left(1) consider (ran) r21 where "exec d t2 (0 # p) s r2 Ran r21" | (left) "o2 = Left" by (auto elim: chisel_cons_run)
  then show ?case
  proof cases
    case ran
    show ?thesis by (rule matched_one_left(2) [OF one [OF ran]]) (simp add: ex_ch_left(1))
  qed simp
next
  case (ex_safe p ss r out r' bs s)
  have "execs d t2 (2 # p) ss r2 o2 r2'" using ex_safe.prems(5) by auto
  from ex_safe(2) [OF _ ex_safe.prems(3,4) this, of ctx] show ?case using ex_safe.prems(1,2) by (simp add: list_all_iff exits_within_simps)
next
  case (ex_ghost p ss r out r' bs s)
  have "execs d t2 (2 # p) ss r2 o2 r2'" using ex_ghost.prems(5) by auto
  from ex_ghost(2) [OF _ ex_ghost.prems(3,4) this, of ctx] show ?case using ex_ghost.prems(1,2) by (simp add: list_all_iff exits_within_simps)
next
  case (ex_hint p ss r out r' os bs s)
  have "execs d t2 (2 # p) ss r2 o2 r2'" using ex_hint.prems(5) by auto
  from ex_hint(2) [OF _ ex_hint.prems(3,4) this, of ctx] show ?case using ex_hint.prems(1,2) by (simp add: list_all_iff exits_within_simps)
next
  case (ex_clock p ss r out r' e bs s)
  have "execs d t2 (2 # p) ss r2 o2 r2'" using ex_clock.prems(5) by auto
  from ex_clock(2) [OF _ ex_clock.prems(3,4) this, of ctx] show ?case using ex_clock.prems(1,2) by (simp add: list_all_iff exits_within_simps)
qed (auto intro: matched_ran)

end
