(* ===== verification/YUniformProps.thy ===== *)
theory YUniformProps
  imports YUniformSound
begin

text \<open>
  What the analysis of uniformity guarantees, and the loops it is wrong about.
\<close>

definition on_line :: "nat \<Rightarrow> span" where
  "on_line n = \<lparr>sp_line = n, sp_col = 1\<rparr>"

definition call_of :: "string \<Rightarrow> nat \<Rightarrow> expr" where
  "call_of f n = Call (Ident f (on_line n)) [] (on_line n)"

definition let_line :: "string \<Rightarrow> expr \<Rightarrow> nat \<Rightarrow> stmt" where
  "let_line x e n = Let x None (Some e) None None None (on_line n)"

definition var_on :: "string \<Rightarrow> nat \<Rightarrow> expr" where
  "var_on x n = Ident x (on_line n)"

definition lit_on :: "int \<Rightarrow> nat \<Rightarrow> expr" where
  "lit_on v n = IntLit v (on_line n)"

text \<open>\<^verbatim>\<open>let b = block_idx_x(); let t = thread_idx_x(); if b >= 5 { return; } let w = warp_reduce_sum();\<close>\<close>

definition tiers_body :: "stmt block" where
  "tiers_body = Block [let_line ''b'' (call_of ''block_idx_x'' 1) 1, let_line ''t'' (call_of ''thread_idx_x'' 2) 2,
     If (BinaryOp (var_on ''b'' 3) Ge (lit_on 5 3) (on_line 3)) (Block [Return None (on_line 3)] (on_line 3)) None False (on_line 3),
     let_line ''w'' (call_of ''warp_reduce_sum'' 4) 4] (on_line 1)"

text \<open>\<^verbatim>\<open>let t = thread_idx_x(); let x = 0; for i in 0..2 { x = x + 1; i = i + t; }\<close>\<close>

definition counter_loop :: "stmt list" where
  "counter_loop = [Assign (var_on ''x'' 4) (BinaryOp (var_on ''x'' 4) Add (lit_on 1 4) (on_line 4)) (on_line 4),
     Assign (var_on ''i'' 5) (BinaryOp (var_on ''i'' 5) Add (var_on ''t'' 5) (on_line 5)) (on_line 5)]"

definition counter_body :: "stmt block" where
  "counter_body = Block [let_line ''t'' (call_of ''thread_idx_x'' 1) 1, let_line ''x'' (lit_on 0 2) 2,
     For ''i'' (lit_on 0 3) (lit_on 2 3) None (Block counter_loop (on_line 3)) None False None None (on_line 3)] (on_line 1)"

text \<open>A device on natural numbers: in block 0 a thread's index is its lane, and a warp's sums are its number.\<close>

definition nat_device :: "nat device" where
  "nat_device = \<lparr>dv_lit = (\<lambda>e. case e of IntLit v _ \<Rightarrow> nat v | _ \<Rightarrow> 0),
     dv_binary = (\<lambda>op a b. case op of Add \<Rightarrow> a + b | Ge \<Rightarrow> (if a \<ge> b then 1 else 0) | _ \<Rightarrow> 0),
     dv_unary = (\<lambda>_ a. a), dv_lane = (\<lambda>_ a. a), dv_put = (\<lambda>_ _ v. v), dv_pure = (\<lambda>_ _. 0), dv_block = (\<lambda>_. 0),
     dv_warp = (\<lambda>w _ _. w), dv_read = (\<lambda>t _ _. snd t), dv_chisel = (\<lambda>t _ _. snd t), dv_leaves = (\<lambda>_ _. False), dv_true = (\<lambda>v. v \<noteq> 0)\<rparr>"

text \<open>C14: The analysis returns on every body, with the least levels under which each variable is no more
  uniform than any value assigned to it and any branch it is assigned in: the passes end although the
  code bounds their number nowhere, and nothing is refused for a level higher than the rules ask for.\<close>

theorem uniformity_least:
  "\<exists>u. of_body body = Some u \<and> is_solution (block_stmts body) u \<and> (\<forall>v. is_solution (block_stmts body) v \<longrightarrow> below u v)"
  by (rule of_body_least)

lemma tiers_facts:
  "map_option (\<lambda>u. (map (\<lambda>x. un_of u (var_on x 9)) [''b'', ''t'', ''w''], exit_in u tiers_body UBlock,
     list_all (counters_kept u UBlock) (block_stmts tiers_body))) (of_body tiers_body) = Some ([UBlock, UThread, UWarp], None, True)"
  by code_simp

text \<open>Levels assigned by hand that satisfy the rules: every variable of the body is one thread's own.\<close>

definition cautious :: uniformity where
  "cautious = \<lparr>un_vars = [(''b'', UThread, NoOrigin), (''t'', UThread, NoOrigin), (''w'', UThread, NoOrigin)], un_chisel = []\<rparr>"

lemma cautious_solution: "is_solution (block_stmts tiers_body) cautious"
  unfolding is_solution_def by code_simp

theorem uniformity_least_witness:
  "\<exists>u. of_body tiers_body = Some u \<and> below u cautious \<and> un_of u (var_on ''w'' 9) \<noteq> un_of cautious (var_on ''w'' 9)"
proof -
  obtain u where u: "of_body tiers_body = Some u" "below u cautious"
    using uniformity_least [of tiers_body] cautious_solution by blast
  have "un_of cautious (var_on ''w'' 9) = UThread" by code_simp
  with u tiers_facts show ?thesis by auto
qed

lemma counter_facts:
  "map_option (\<lambda>u. (un_of u (var_on ''x'' 9), list_all (counters_kept u UBlock) (block_stmts counter_body))) (of_body counter_body) =
     Some (UBlock, False)"
  by code_simp

text \<open>The runs of the two bodies on the device.\<close>

definition start :: "nat regs" where
  "start = (\<lambda>_. 0)"

lemma store_name [simp]: "store_in d (var_on x n) v r = r(x := v)"
  by (simp add: store_in_def var_on_def is_name_def)

lemma device_simps [simp]:
  "eval_on nat_device t p r (lit_on v n) = nat v" "eval_on nat_device t p r (var_on x n) = r x"
  "dv_binary nat_device Add a b = a + b" "dv_binary nat_device Ge a b = (if a \<ge> b then 1 else 0)" "dv_true nat_device a = (a \<noteq> 0)"
  "dv_lit nat_device (IntLit v sp) = nat v"
  "eval_on nat_device t p r (call_of ''block_idx_x'' n) = 0" "eval_on nat_device t p r (call_of ''thread_idx_x'' n) = snd t"
  "eval_on nat_device t p r (call_of ''warp_reduce_sum'' n) = fst t"
  by (simp_all add: nat_device_def lit_on_def var_on_def call_of_def block_builtins_def warp_reductions_def pure_builtins_def)

lemma run_let: "execs d t (1 # p) ss (r(x := eval_on d t (0 # p) r e)) out r' \<Longrightarrow> execs d t p (let_line x e n # ss) r out r'"
  unfolding let_line_def by (rule ex_cons [OF ex_let])

lemma run_assign:
  "execs d t (1 # p) ss (r(x := eval_on d t (0 # p) r e)) out r' \<Longrightarrow> execs d t p (Assign (var_on x n) e sp # ss) r out r'"
  using ex_assign [of d t "0 # p" "var_on x n" e sp r] by (intro ex_cons) simp_all

lemma tiers_run: "execs nat_device t [] (block_stmts tiers_body) start Ran (start(''b'' := 0, ''t'' := snd t, ''w'' := fst t))"
proof -
  let ?r = "start(''b'' := 0, ''t'' := snd t)"
  have "execs nat_device t [1, 1, 1] [let_line ''w'' (call_of ''warp_reduce_sum'' 4) 4] ?r Ran (?r(''w'' := fst t))"
    by (intro run_let) (simp add: ex_nil)
  then have "execs nat_device t [1, 1] (drop 2 (block_stmts tiers_body)) ?r Ran (?r(''w'' := fst t))"
    unfolding tiers_body_def by (simp, intro ex_cons [OF ex_skip]) simp_all
  then show ?thesis unfolding tiers_body_def by (simp, intro run_let) simp
qed

lemma counter_loop_run:
  "execs nat_device t p counter_loop r Ran (r(''x'' := r ''x'' + 1, ''i'' := r ''i'' + r ''t''))"
  unfolding counter_loop_def by (intro run_assign) (simp add: ex_nil)

lemma counter_iter:
  "r ''i'' < 2 \<Longrightarrow> exec_for nat_device t (4 # p) ''i'' 2 1 counter_loop (r(''x'' := r ''x'' + 1, ''i'' := r ''i'' + r ''t'' + 1)) Ran r' \<Longrightarrow>
   exec_for nat_device t p ''i'' 2 1 counter_loop r Ran r'"
  by (rule ex_for_step [OF _ counter_loop_run]) simp_all

lemma counter_run:
  assumes "exec_for nat_device t [5, 0, 1, 1] ''i'' 2 1 counter_loop (start(''t'' := snd t, ''x'' := 0, ''i'' := 0)) Ran r'"
  shows "execs nat_device t [] (block_stmts counter_body) start Ran r'"
proof -
  let ?r = "start(''t'' := snd t, ''x'' := 0)"
  have "exec nat_device t [0, 1, 1] (last (block_stmts counter_body)) ?r Ran r'"
    unfolding counter_body_def by (simp, rule ex_for [OF refl]) (use assms in simp)
  then have "execs nat_device t [1, 1] [last (block_stmts counter_body)] ?r Ran r'" by (rule ex_cons [OF _ ex_nil])
  then show ?thesis unfolding counter_body_def by (simp, intro run_let) simp
qed

text \<open>C12: Soundness of the levels: when two threads of a block run a kernel body to its end from the same
  parameters, every expression the analysis calls the same across the block, or across the warp when
  the threads are of one warp, has the same value in both, whatever memory, the special registers and
  the texts of \<^verbatim>\<open>chisel\<close> blocks gave each of them on the way. The counter of a loop must not be made
  less uniform by the loop's body than its bounds are.\<close>

theorem uniformity_sound:
  assumes "of_body body = Some u" "list_all (counters_kept u UBlock) (block_stmts body)" "together l t1 t2"
    and "execs d t1 [] (block_stmts body) r Ran r1" "execs d t2 [] (block_stmts body) r Ran r2" "un_of u e \<le> l"
  shows "eval_on d t1 p r1 e = eval_on d t2 p r2 e"
proof -
  have "\<forall>s\<in>set (block_stmts body). obeys u UBlock s \<and> counters_kept u UBlock s"
    using of_body_least [of body] assms(1,2) by (auto simp: is_solution_def list_all_iff)
  from threads_matched(2) [OF assms(4) this regs_refl assms(3,5)] have "agree u l r1 r2" by (simp add: matched_def)
  then show ?thesis by (rule eval_agree [OF assms(6) _ assms(3)])
qed

theorem uniformity_sound_witness:
  "\<exists>r1 r2. execs nat_device (3, 0) [] (block_stmts tiers_body) start Ran r1 \<and> execs nat_device (3, 7) [] (block_stmts tiers_body) start Ran r2 \<and>
     r1 ''t'' \<noteq> r2 ''t'' \<and> eval_on nat_device (3, 0) [] r1 (var_on ''w'' 9) = eval_on nat_device (3, 7) [] r2 (var_on ''w'' 9)"
proof -
  obtain u where u: "of_body tiers_body = Some u" "un_of u (var_on ''w'' 9) \<le> UWarp" "list_all (counters_kept u UBlock) (block_stmts tiers_body)"
    using tiers_facts by auto
  have "together UWarp (3, 0) (3, 7)" by (simp add: together_def)
  from uniformity_sound [OF u(1,3) this tiers_run tiers_run u(2)] tiers_run [of "(3, 0)"] tiers_run [of "(3, 7)"] show ?thesis by fastforce
qed



text \<open>C16: The level of a loop's counter is left out of the level of its body: a body that adds the thread's
  index to the counter is called uniform code and what it assigns uniform, but threads of one block run
  it a different number of times, so a barrier in it would be reached by some of them only.\<close>

theorem counter_missed:
  "\<exists>u r1 r2. of_body counter_body = Some u \<and> un_of u (var_on ''x'' 9) = UBlock \<and>
     execs nat_device (0, 0) [] (block_stmts counter_body) start Ran r1 \<and> execs nat_device (0, 1) [] (block_stmts counter_body) start Ran r2 \<and>
     r1 ''x'' = 2 \<and> r2 ''x'' = 1"
proof -
  obtain u where u: "of_body counter_body = Some u" "un_of u (var_on ''x'' 9) = UBlock" using counter_facts by auto
  have "execs nat_device (0, 0) [] (block_stmts counter_body) start Ran (start(''t'' := 0, ''x'' := 2, ''i'' := 2))"
    by (rule counter_run, rule counter_iter, simp, rule counter_iter, simp)
      (use ex_for_end [of nat_device "start(''t'' := 0, ''x'' := 2, ''i'' := 2)" "''i''" 2] in \<open>simp add: fun_upd_twist numeral_2_eq_2\<close>)
  moreover have "execs nat_device (0, 1) [] (block_stmts counter_body) start Ran (start(''t'' := 1, ''x'' := 1, ''i'' := 2))"
    by (rule counter_run, rule counter_iter, simp)
      (use ex_for_end [of nat_device "start(''t'' := 1, ''x'' := 1, ''i'' := 2)" "''i''" 2] in \<open>simp add: fun_upd_twist numeral_2_eq_2\<close>)
  ultimately show ?thesis using u
    by (intro exI [of _ u] exI [of _ "start(''t'' := 0, ''x'' := 2, ''i'' := 2)"] exI [of _ "start(''t'' := 1, ''x'' := 1, ''i'' := 2)"]) simp
qed

section \<open>Collective instructions\<close>

lemma violated_iff:
  "violated_by here inss = None \<longleftrightarrow> (\<forall>ins\<in>set inss. \<forall>needs. collective_scope ins = Some needs \<longrightarrow> here \<le> needs)"
  by (induction inss) (auto split: option.split simp: not_less)

text \<open>A text is let through exactly if the threads that reach it meet the need of each of its instructions.\<close>

theorem collectives_checked:
  "first_collective_violated ptx here = None \<longleftrightarrow>
     (\<forall>line\<in>set (text_lines ptx). \<forall>ins\<in>set (instructions line). \<forall>needs. collective_scope ins = Some needs \<longrightarrow> here \<le> needs)"
  by (auto simp: first_collective_violated_def violated_iff)

lemma instruction_table:
  "map (\<lambda>line. map collective_scope (instructions line))
     [''    shfl.sync.bfly.b32 %f1, %f0, 16, 0x1f, 0xffffffff;'', ''    @%p1 shfl.sync.idx.b32 %r1, %r0, 0, 0x1f, 0xffffffff;'',
      ''    bar.sync 0;'', ''    bar.warp.sync 0xffffffff;'', ''    activemask.b32 %r1;'', ''LOOP_START_3:'',
      ''    .shared .align 4 .f32 smem_reduce[32];'', ''    add.f32 %f1, %f0, %f0; // shfl.sync in a comment''] =
   [[Some UWarp], [Some UWarp], [Some UBlock], [Some UWarp], [None], [], [], [None]]"
  by code_simp

end
